(* ===== verification/Prelude.thy ===== *)
theory Prelude
  imports Main "HOL-Library.Word" "HOL-Library.Multiset"
begin

text \<open>
  Shared vocabulary of the development: the machine types of the C sources, the ways a C
  function can go wrong as values of \<open>c_error\<close>, the error monad over them, and the two
  generic interfaces several components implement: a FIFO queue (\<open>fifo\<close>), which the
  message queue of \<^verbatim>\<open>skynet_mq.c\<close>, the packet queue of \<^verbatim>\<open>lua-netpack.c\<close> and the two
  queues of \<^verbatim>\<open>package.c\<close> all provide, and a table from which keys are deleted
  (\<open>registry\<close>), which the handle table of \<^verbatim>\<open>skynet_handle.c\<close> and the id map of \<^verbatim>\<open>hashid.h\<close>
  provide.
\<close>

unbundle bit_operations_syntax

section \<open>Machine types\<close>

type_synonym byte = "8 word"
type_synonym u16 = "16 word"
type_synonym u32 = "32 word"
type_synonym u64 = "64 word"

text \<open>
  What a C function can do instead of returning: fail an \<^verbatim>\<open>assert\<close>, read a slot that was
  never written, use an object that was freed, index out of an array, loop for ever, or
  nest more calls than the stack has space for.
\<close>

datatype c_error =
    Assert_failed
  | Uninit_read
  | Use_after_free
  | Out_of_bounds
  | Diverges
  | Stack_overflow

text \<open>What a function called from Lua can do instead: raise a Lua error, or fail as above.\<close>

datatype lua_error = Lua_error string | C_fault c_error

text \<open>The values that functions called from Lua take and return.\<close>

datatype lua_arg = La_nil | La_bool bool | La_int int | La_str "byte list"

section \<open>Messages\<close>

text \<open>
  \<^verbatim>\<open>struct skynet_message\<close> of \<^verbatim>\<open>skynet_mq.h\<close>: the data pointer is null or a buffer, and the top
  byte of \<^verbatim>\<open>sz\<close> carries the message type. The protocol types are those of \<^verbatim>\<open>skynet.h\<close>.
\<close>

type_synonym cstring = "byte list"

text \<open>\<^verbatim>\<open>struct skynet_socket_message\<close>; for data, \<open>ss_ud\<close> is the length of the buffer. \<open>ss_tail\<close> is what
  follows the structure in the message: the address of a new connection.\<close>

record skynet_socket_message =
  ss_type :: int
  ss_id :: int
  ss_ud :: int
  ss_buffer :: "byte list"
  ss_tail :: "byte list"

text \<open>The data of a message is a buffer, except on the way to the harbor service, where it is a
  \<^verbatim>\<open>struct remote_message\<close> (the name and handle it is addressed to, the buffer and its size), and from
  the socket layer.\<close>

datatype payload =
    Bytes "byte list"
  | Sock skynet_socket_message
  | Remote (rm_name: cstring) (rm_handle: u32) (rm_message: "byte list option") (rm_sz: u64)

record skynet_message =
  msg_source :: u32
  msg_session :: int
  msg_data :: "payload option"
  msg_sz :: u64

definition MESSAGE_TYPE_SHIFT :: nat where "MESSAGE_TYPE_SHIFT = 56"
definition MESSAGE_TYPE_MASK :: u64 where "MESSAGE_TYPE_MASK = 0x00ffffffffffffff"

text \<open>The length of the global names of services.\<close>

definition GLOBALNAME_LENGTH :: nat where "GLOBALNAME_LENGTH = 16"

definition PTYPE_TEXT :: nat where "PTYPE_TEXT = 0"
definition PTYPE_RESPONSE :: nat where "PTYPE_RESPONSE = 1"
definition PTYPE_CLIENT :: nat where "PTYPE_CLIENT = 3"
definition PTYPE_SYSTEM :: nat where "PTYPE_SYSTEM = 4"
definition PTYPE_HARBOR :: nat where "PTYPE_HARBOR = 5"
definition PTYPE_SOCKET :: nat where "PTYPE_SOCKET = 6"
definition PTYPE_ERROR :: nat where "PTYPE_ERROR = 7"
definition PTYPE_TAG_DONTCOPY :: nat where "PTYPE_TAG_DONTCOPY = 0x10000"
definition PTYPE_TAG_ALLOCSESSION :: nat where "PTYPE_TAG_ALLOCSESSION = 0x20000"

section \<open>The error monad\<close>

definition rbind :: "'e + 'a \<Rightarrow> ('a \<Rightarrow> 'e + 'b) \<Rightarrow> 'e + 'b" where
  "rbind m f = (case m of Inl e \<Rightarrow> Inl e | Inr x \<Rightarrow> f x)"

definition c_assert :: "bool \<Rightarrow> c_error + unit" where
  "c_assert b = (if b then Inr () else Inl Assert_failed)"

text \<open>A C function that is called from a function called from Lua.\<close>

definition lift_c :: "c_error + 'a \<Rightarrow> lua_error + 'a" where
  "lift_c m = (case m of Inl e \<Rightarrow> Inl (C_fault e) | Inr x \<Rightarrow> Inr x)"

definition deref :: "('p \<rightharpoonup> 'v) \<Rightarrow> 'p \<Rightarrow> c_error + 'v" where
  "deref m p = (case m p of None \<Rightarrow> Inl Use_after_free | Some v \<Rightarrow> Inr v)"

lemma rbind_Inl [simp]: "rbind (Inl e) f = Inl e"
  by (simp add: rbind_def)

lemma rbind_Inr [simp]: "rbind (Inr x) f = f x"
  by (simp add: rbind_def)

lemma rbind_cong [fundef_cong]:
  "m = m' \<Longrightarrow> (\<And>x. m' = Inr x \<Longrightarrow> f x = f' x) \<Longrightarrow> rbind m f = rbind m' f'"
  by (cases m') auto

lemma rbind_eq_Inr: "rbind m f = Inr y \<longleftrightarrow> (\<exists>x. m = Inr x \<and> f x = Inr y)"
  by (cases m) auto

lemma lift_c_simps [simp]: "lift_c (Inr x) = Inr x" "lift_c (Inl e) = Inl (C_fault e)"
  by (simp_all add: lift_c_def)

lemma c_assert_True [simp]: "c_assert True = Inr ()"
  by (simp add: c_assert_def)

lemma c_assert_eq_Inr [simp]: "c_assert b = Inr u \<longleftrightarrow> b"
  by (simp add: c_assert_def)

lemma deref_Some [simp]: "m p = Some v \<Longrightarrow> deref m p = Inr v"
  by (simp add: deref_def)

lemma deref_eq_Inr [simp]: "deref m p = Inr v \<longleftrightarrow> m p = Some v"
  by (simp add: deref_def split: option.splits)

section \<open>Words\<close>

named_theorems word_nat

lemma unat_and_mask [word_nat]:
  "unat (w AND mask k :: 'a::len word) = unat w mod 2 ^ k"
  by (metis take_bit_eq_mask take_bit_eq_mod unsigned_take_bit_eq)

lemma of_nat_mask: "(of_nat (2 ^ k - 1) :: 'a::len word) = mask k"
  by (simp add: mask_eq_exp_minus_1 of_nat_diff)

lemma unat_add_mod: "unat (a + b :: 'a::len word) = (unat a + unat b) mod 2 ^ LENGTH('a)"
  by (simp add: unat_word_ariths)

lemma unat_drop_bit [word_nat]: "unat (drop_bit k w :: 'a::len word) = unat w div 2 ^ k"
  by (metis drop_bit_eq_div unsigned_drop_bit_eq take_bit_length_eq unsigned_take_bit_eq)

lemma or_mask_eq_iff:
  "w OR mask k = v OR mask k \<longleftrightarrow> unat w div 2 ^ k = unat (v :: 'a::len word) div 2 ^ k"
proof -
  have "w OR mask k = v OR mask k \<longleftrightarrow> drop_bit k w = drop_bit k v"
  proof
    assume h: "w OR mask k = v OR mask k"
    show "drop_bit k w = drop_bit k v"
    proof (rule bit_eqI)
      fix n assume n: "possible_bit TYPE('a word) n"
      have "bit (w OR mask k) (k + n) = bit (v OR mask k) (k + n)" using h by simp
      then show "bit (drop_bit k w) n = bit (drop_bit k v) n"
        by (auto simp: bit_simps)
    qed
  next
    assume h: "drop_bit k w = drop_bit k v"
    show "w OR mask k = v OR mask k"
    proof (rule bit_eqI)
      fix n assume n: "possible_bit TYPE('a word) n"
      show "bit (w OR mask k) n = bit (v OR mask k) n"
      proof (cases "n < k")
        case True
        then show ?thesis using n by (simp add: bit_simps)
      next
        case False
        have "bit (drop_bit k w) (n - k) = bit (drop_bit k v) (n - k)" using h by simp
        then show ?thesis using False by (simp add: bit_simps)
      qed
    qed
  qed
  also have "\<dots> \<longleftrightarrow> unat (drop_bit k w) = unat (drop_bit k v)" by (simp add: word_unat_eq_iff)
  finally show ?thesis by (simp add: unat_drop_bit)
qed

lemma mod_mod_pow2: "j \<le> k \<Longrightarrow> (n :: nat) mod 2 ^ k mod 2 ^ j = n mod 2 ^ j"
  by (simp add: mod_mod_cancel le_imp_power_dvd)

text \<open>A conversion to \<^verbatim>\<open>int\<close>, and the remainder of two of them, whose sign is that of the first.\<close>

definition c_int :: "int \<Rightarrow> int" where
  "c_int n = sint (of_int n :: u32)"

definition c_rem :: "int \<Rightarrow> int \<Rightarrow> int" where
  "c_rem a b = (if a < 0 then - ((- a) mod b) else a mod b)"

lemma c_int_small [simp]: "0 \<le> n \<Longrightarrow> n < 2 ^ 31 \<Longrightarrow> c_int n = n"
  by (simp add: c_int_def signed_of_int signed_take_bit_int_eq_self)

section \<open>Text\<close>

text \<open>The bytes of a literal, and the digits that \<^verbatim>\<open>%d\<close>, \<^verbatim>\<open>%u\<close> and \<^verbatim>\<open>%x\<close> print.\<close>

definition ascii :: "string \<Rightarrow> cstring" where
  "ascii s = map of_char s"

fun radix_digits :: "nat \<Rightarrow> nat \<Rightarrow> nat list" where
  "radix_digits b n = (if b < 2 \<or> n < b then [n] else radix_digits b (n div b) @ [n mod b])"

declare radix_digits.simps [simp del]

definition digit_char :: "nat \<Rightarrow> byte" where
  "digit_char d = (if d < 10 then of_nat (48 + d) else of_nat (87 + d))"

definition print_nat :: "nat \<Rightarrow> cstring" where
  "print_nat n = map digit_char (radix_digits 10 n)"

definition print_int :: "int \<Rightarrow> cstring" where
  "print_int i = (if i < 0 then ascii ''-'' @ print_nat (nat (- i)) else print_nat (nat i))"

section \<open>Lists\<close>

lemma nth_clear: "j < length xs \<Longrightarrow> xs[i := None] ! j = Some c \<longleftrightarrow> j \<noteq> i \<and> xs ! j = Some c"
  by (cases "i < length xs") (auto simp: nth_list_update list_update_beyond)

section \<open>The FIFO interface\<close>

text \<open>
  One step of a client of a queue, the run of a sequence of steps against an implementation
  (collecting what each \<open>Pop\<close> returned), and the same run against a plain list, which is
  the specification.
\<close>

datatype 'a qop = Push 'a | Pop

fun run_ops :: "('a \<Rightarrow> 'q \<Rightarrow> 'q) \<Rightarrow> ('q \<Rightarrow> 'a option \<times> 'q) \<Rightarrow> 'q \<Rightarrow> 'a qop list \<Rightarrow> 'a option list" where
  "run_ops push pop q [] = []"
| "run_ops push pop q (Push x # ops) = run_ops push pop (push x q) ops"
| "run_ops push pop q (Pop # ops) = fst (pop q) # run_ops push pop (snd (pop q)) ops"

fun spec_ops :: "'a list \<Rightarrow> 'a qop list \<Rightarrow> 'a option list" where
  "spec_ops xs [] = []"
| "spec_ops xs (Push x # ops) = spec_ops (xs @ [x]) ops"
| "spec_ops [] (Pop # ops) = None # spec_ops [] ops"
| "spec_ops (x # xs) (Pop # ops) = Some x # spec_ops xs ops"

text \<open>Popping until the queue is empty, with at most \<open>n\<close> elements taken.\<close>

fun drain :: "('q \<Rightarrow> 'a option \<times> 'q) \<Rightarrow> nat \<Rightarrow> 'q \<Rightarrow> 'a list \<times> 'q" where
  "drain pop 0 q = ([], q)"
| "drain pop (Suc n) q =
     (case pop q of
        (None, q') \<Rightarrow> ([], q')
      | (Some x, q') \<Rightarrow> (case drain pop n q' of (xs, q'') \<Rightarrow> (x # xs, q'')))"

locale fifo =
  fixes push :: "'a \<Rightarrow> 'q \<Rightarrow> 'q"
    and pop :: "'q \<Rightarrow> 'a option \<times> 'q"
    and contents :: "'q \<Rightarrow> 'a list"
    and invar :: "'q \<Rightarrow> bool"
  assumes invar_push: "invar q \<Longrightarrow> invar (push x q)"
    and contents_push: "invar q \<Longrightarrow> contents (push x q) = contents q @ [x]"
    and invar_pop: "invar q \<Longrightarrow> invar (snd (pop q))"
    and pop_empty: "invar q \<Longrightarrow> contents q = [] \<Longrightarrow> fst (pop q) = None"
    and contents_pop_empty: "invar q \<Longrightarrow> contents q = [] \<Longrightarrow> contents (snd (pop q)) = []"
    and pop_cons: "invar q \<Longrightarrow> contents q = x # xs \<Longrightarrow> fst (pop q) = Some x"
    and contents_pop_cons: "invar q \<Longrightarrow> contents q = x # xs \<Longrightarrow> contents (snd (pop q)) = xs"
begin

lemma refines_list: "invar q \<Longrightarrow> run_ops push pop q ops = spec_ops (contents q) ops"
proof (induction ops arbitrary: q)
  case Nil
  then show ?case by simp
next
  case (Cons c ops)
  show ?case
  proof (cases c)
    case (Push x)
    with Cons show ?thesis by (simp add: invar_push contents_push)
  next
    case Pop
    with Cons show ?thesis
      by (cases "contents q")
        (simp_all add: invar_pop pop_empty contents_pop_empty pop_cons contents_pop_cons)
  qed
qed

lemma invar_fold_push: "invar q \<Longrightarrow> invar (fold push xs q)"
  by (induction xs arbitrary: q) (simp_all add: invar_push)

lemma contents_fold_push: "invar q \<Longrightarrow> contents (fold push xs q) = contents q @ xs"
  by (induction xs arbitrary: q) (simp_all add: invar_push contents_push)

lemma drain_contents:
  "invar q \<Longrightarrow> length (contents q) < n \<Longrightarrow> fst (drain pop n q) = contents q"
proof (induction n arbitrary: q)
  case (Suc n)
  show ?case
  proof (cases "contents q")
    case Nil
    with Suc.prems show ?thesis
      by (simp add: pop_empty split: prod.splits option.splits)
        (metis fst_conv option.distinct(1) pop_empty)
  next
    case (Cons x xs)
    obtain q' where q': "pop q = (Some x, q')"
      using Suc.prems Cons pop_cons by (metis prod.collapse)
    then have "contents q' = xs" "invar q'"
      using Suc.prems Cons contents_pop_cons invar_pop by (metis snd_conv)+
    with Suc Cons q' show ?thesis by (simp split: prod.splits) (metis fst_conv)
  qed
qed simp

lemma drain_empties:
  "invar q \<Longrightarrow> length (contents q) < n \<Longrightarrow> contents (snd (drain pop n q)) = []"
proof (induction n arbitrary: q)
  case (Suc n)
  show ?case
  proof (cases "contents q")
    case Nil
    then obtain q' where "pop q = (None, q')" "contents q' = []"
      using Suc.prems pop_empty contents_pop_empty by (metis prod.collapse)
    then show ?thesis by simp
  next
    case (Cons x xs)
    obtain q' where q': "pop q = (Some x, q')" "contents q' = xs" "invar q'"
      using Suc.prems Cons pop_cons contents_pop_cons invar_pop by (metis prod.collapse)
    with Suc.IH [of q'] Suc.prems Cons show ?thesis by (simp split: prod.splits) (metis snd_conv)
  qed
qed simp

lemma drain_invar: "invar q \<Longrightarrow> invar (snd (drain pop n q))"
proof (induction n arbitrary: q)
  case (Suc n)
  have "invar (snd (pop q))" using Suc.prems by (rule invar_pop)
  with Suc.IH [of "snd (pop q)"] show ?case
    by (auto split: prod.splits option.splits)
qed simp

end

text \<open>
  A queue kept in slots that may hold nothing: what a push appends is a filled slot. When no
  slot between the head and the tail is empty, such a queue is a FIFO queue of the elements.
\<close>

locale ring_queue =
  fixes push :: "'a \<Rightarrow> 'q \<Rightarrow> 'q"
    and pop :: "'q \<Rightarrow> 'a option \<times> 'q"
    and slots :: "'q \<Rightarrow> 'a option list"
    and wf :: "'q \<Rightarrow> bool"
  assumes wf_push: "wf q \<Longrightarrow> wf (push x q)"
    and slots_push: "wf q \<Longrightarrow> slots (push x q) = slots q @ [Some x]"
    and wf_pop: "wf q \<Longrightarrow> wf (snd (pop q))"
    and pop_nil: "wf q \<Longrightarrow> slots q = [] \<Longrightarrow> pop q = (None, q)"
    and pop_slot: "wf q \<Longrightarrow> slots q = s # ss \<Longrightarrow> fst (pop q) = s \<and> slots (snd (pop q)) = ss"

sublocale ring_queue \<subseteq> fifo push pop "\<lambda>q. map the (slots q)" "\<lambda>q. wf q \<and> None \<notin> set (slots q)"
proof (unfold_locales, goal_cases)
  case (1 q x) then show ?case by (simp add: wf_push slots_push)
next
  case (2 q x) then show ?case by (simp add: slots_push)
next
  case (3 q)
  then show ?case by (cases "slots q") (auto simp: wf_pop pop_nil dest: pop_slot)
next
  case (4 q) then show ?case by (simp add: pop_nil)
next
  case (5 q) then show ?case by (simp add: pop_nil)
next
  case (6 q x xs)
  then obtain s ss where c: "slots q = s # ss" "x = the s" by auto
  moreover have "s \<noteq> None" using 6 c by (cases s) auto
  ultimately show ?case using pop_slot [of q s ss] 6 by auto
next
  case (7 q x xs)
  then obtain s ss where "slots q = s # ss" "xs = map the ss" by auto
  with pop_slot [of q s ss] 7 show ?case by auto
qed

section \<open>The registry interface\<close>

text \<open>
  A table from keys to values from which keys can be deleted: the handle table of
  \<^verbatim>\<open>skynet_handle.c\<close>, the connection ids of \<^verbatim>\<open>hashid.h\<close> and the unfinished packets of
  \<^verbatim>\<open>lua-netpack.c\<close>. Deleting a key affects that key alone, so deleting a list of keys in any
  order leaves exactly the others.
\<close>

locale registry =
  fixes lookup :: "'t \<Rightarrow> 'k \<Rightarrow> 'v option"
    and delete :: "'k \<Rightarrow> 't \<Rightarrow> 't"
    and invar :: "'t \<Rightarrow> bool"
  assumes invar_delete: "invar t \<Longrightarrow> invar (delete k t)"
    and lookup_delete: "invar t \<Longrightarrow> lookup (delete k t) k' = (if k' = k then None else lookup t k')"
begin

lemma invar_fold_delete: "invar t \<Longrightarrow> invar (fold delete ks t)"
  by (induction ks arbitrary: t) (simp_all add: invar_delete)

lemma lookup_fold_delete:
  "invar t \<Longrightarrow> lookup (fold delete ks t) k = (if k \<in> set ks then None else lookup t k)"
  by (induction ks arbitrary: t) (simp_all add: invar_delete lookup_delete)

lemma delete_idem: "invar t \<Longrightarrow> lookup (delete k (delete k t)) = lookup (delete k t)"
  by (rule ext) (simp add: invar_delete lookup_delete)

lemma delete_commute: "invar t \<Longrightarrow> lookup (delete j (delete k t)) = lookup (delete k (delete j t))"
  by (rule ext) (simp add: invar_delete lookup_delete)

end

section \<open>The name interface\<close>

text \<open>
  Names that can be bound once and looked up: binding a bound name returns null and changes
  nothing, and an unknown name is looked up as \<open>none\<close>. The name table of \<^verbatim>\<open>skynet_handle.c\<close>
  provides it to the commands of \<^verbatim>\<open>skynet_server.c\<close>.
\<close>

locale name_service =
  fixes find_name :: "'t \<Rightarrow> 'k \<Rightarrow> 'v"
    and bind_name :: "'t \<Rightarrow> 'v \<Rightarrow> 'k \<Rightarrow> c_error + ('k option \<times> 't)"
    and names :: "'t \<Rightarrow> 'k \<rightharpoonup> 'v"
    and invar :: "'t \<Rightarrow> bool"
    and room :: "'t \<Rightarrow> bool"
    and none :: 'v
  assumes find_names: "invar t \<Longrightarrow> find_name t k = (case names t k of Some v \<Rightarrow> v | None \<Rightarrow> none)"
    and bind_bound: "invar t \<Longrightarrow> names t k \<noteq> None \<Longrightarrow> bind_name t v k = Inr (None, t)"
    and bind_new: "invar t \<Longrightarrow> names t k = None \<Longrightarrow> room t \<Longrightarrow>
      \<exists>t'. bind_name t v k = Inr (Some k, t') \<and> invar t' \<and> names t' = (names t)(k \<mapsto> v)"
begin

lemma find_after_bind:
  assumes "invar t" "names t k = None" "room t"
  obtains t' where "bind_name t v k = Inr (Some k, t')" "invar t'" "find_name t' k = v" "\<And>j. j \<noteq> k \<Longrightarrow> find_name t' j = find_name t j"
  using bind_new [OF assms, of v] assms(1) by (auto simp: find_names)

lemma bind_twice:
  assumes "invar t" "names t k = None" "room t" "bind_name t v k = Inr (r, t')"
  shows "bind_name t' w k = Inr (None, t')"
  using bind_new [OF assms(1-3), of v] assms(4) by (auto simp: bind_bound)

end

section \<open>Circular buffers\<close>

text \<open>
  The queues of the sources are arrays with a head and a tail index that wrap round at the
  capacity. \<open>ring_len\<close> is the number of elements between the two, \<open>ring_contents\<close> the
  elements from the head on, and the lemmas say what writing at the tail, advancing the head
  and copying into a larger array do to them.
\<close>

named_theorems ring_simps

definition ring_len :: "nat \<Rightarrow> nat \<Rightarrow> nat \<Rightarrow> nat" where
  "ring_len h t cap = (if h \<le> t then t - h else t + cap - h)"

definition ring_contents :: "'a list \<Rightarrow> nat \<Rightarrow> nat \<Rightarrow> 'a list" where
  "ring_contents buf h n = map (\<lambda>i. buf ! ((h + i) mod length buf)) [0..<n]"

lemma ring_len_less: "h < cap \<Longrightarrow> t < cap \<Longrightarrow> ring_len h t cap < cap"
  by (auto simp: ring_len_def)

lemma ring_len_0 [ring_simps]: "h < cap \<Longrightarrow> t < cap \<Longrightarrow> ring_len h t cap = 0 \<longleftrightarrow> h = t"
  by (auto simp: ring_len_def)

lemma ring_tail: "h < cap \<Longrightarrow> t < cap \<Longrightarrow> (h + ring_len h t cap) mod cap = t"
  by (auto simp: ring_len_def)

lemma wrap_mod: "i < cap \<Longrightarrow> (if cap \<le> Suc i then 0 else Suc i) = Suc i mod cap"
  by (cases "Suc i = cap") auto

lemma Suc_mod_neq: "h < cap \<Longrightarrow> 1 < cap \<Longrightarrow> Suc h mod cap \<noteq> h"
  by (cases "Suc h = cap") auto

lemma ring_len_Suc_tail:
  assumes "h < cap" "t < cap" "Suc t mod cap \<noteq> h"
  shows "ring_len h (Suc t mod cap) cap = Suc (ring_len h t cap)"
proof (cases "Suc t = cap")
  case True
  with assms show ?thesis by (auto simp: ring_len_def)
next
  case False
  with assms have "Suc t mod cap = Suc t" by simp
  with assms show ?thesis by (auto simp: ring_len_def)
qed

lemma ring_len_full:
  assumes "h < cap" "t < cap" "Suc t mod cap = h"
  shows "Suc (ring_len h t cap) = cap"
  using assms by (cases "Suc t = cap") (auto simp: ring_len_def)

lemma ring_len_Suc_head:
  assumes "h < cap" "t < cap" "h \<noteq> t"
  shows "Suc (ring_len (Suc h mod cap) t cap) = ring_len h t cap"
proof (cases "Suc h = cap")
  case True
  with assms show ?thesis by (auto simp: ring_len_def)
next
  case False
  with assms have "Suc h mod cap = Suc h" by simp
  with assms show ?thesis by (auto simp: ring_len_def)
qed

lemma length_ring_contents [simp]: "length (ring_contents buf h n) = n"
  by (simp add: ring_contents_def)

lemma ring_contents_0 [simp]: "ring_contents buf h 0 = []"
  by (simp add: ring_contents_def)

lemma ring_contents_Nil_iff [simp]: "ring_contents buf h n = [] \<longleftrightarrow> n = 0"
  by (simp add: ring_contents_def)

lemma ring_contents_snoc:
  "ring_contents buf h (Suc n) = ring_contents buf h n @ [buf ! ((h + n) mod length buf)]"
  by (simp add: ring_contents_def)

lemma ring_contents_Cons:
  assumes "h < length buf"
  shows "ring_contents buf h (Suc n) = buf ! h # ring_contents buf (Suc h mod length buf) n"
proof -
  have "[0..<Suc n] = 0 # map Suc [0..<n]"
    by (simp add: map_Suc_upt upt_conv_Cons del: upt_Suc)
  then show ?thesis
    using assms by (simp add: ring_contents_def mod_add_left_eq del: upt_Suc)
qed

lemma ring_contents_nth [simp]: "i < n \<Longrightarrow> ring_contents buf h n ! i = buf ! ((h + i) mod length buf)"
  by (simp add: ring_contents_def)

lemma mod_eq_le:
  assumes "i \<le> j" "j < cap" "(h + i) mod cap = (h + j) mod cap"
  shows "i = (j :: nat)"
proof -
  have "cap dvd (h + j) - (h + i)"
    using assms by (intro mod_eq_dvd_iff_nat [THEN iffD1]) simp_all
  then have "cap dvd j - i" by simp
  moreover have "j - i < cap" using assms by simp
  ultimately have "j - i = 0" by (meson dvd_imp_le not_gr0 not_le)
  with assms show ?thesis by simp
qed

lemma ring_index_inj:
  assumes "i < cap" "j < cap" "(h + i) mod cap = (h + j) mod cap"
  shows "i = (j :: nat)"
  using assms mod_eq_le [of i j cap h] mod_eq_le [of j i cap h] by (cases "i \<le> j") simp_all

lemma ring_contents_update:
  assumes "n < length buf"
  shows "ring_contents (buf[(h + n) mod length buf := x]) h n = ring_contents buf h n"
proof (rule nth_equalityI, simp)
  fix i assume "i < length (ring_contents (buf[(h + n) mod length buf := x]) h n)"
  then have i: "i < n" by simp
  then have "(h + n) mod length buf \<noteq> (h + i) mod length buf"
    using ring_index_inj [of i "length buf" n h] assms by auto
  with i show "ring_contents (buf[(h + n) mod length buf := x]) h n ! i = ring_contents buf h n ! i"
    by simp
qed

lemma ring_contents_put:
  assumes "h < length buf" "t < length buf" "n = ring_len h t (length buf)"
  shows "ring_contents (buf[t := x]) h (Suc n) = ring_contents buf h n @ [x]"
proof -
  have t: "(h + n) mod length buf = t" using ring_tail assms by blast
  have n: "n < length buf" using ring_len_less assms by blast
  from t ring_contents_update [OF n, of h x] show ?thesis
    using assms by (simp add: ring_contents_snoc)
qed

lemma ring_contents_linear:
  assumes "n \<le> length xs"
  shows "ring_contents (xs @ ys) 0 n = take n xs"
proof (rule nth_equalityI)
  show "length (ring_contents (xs @ ys) 0 n) = length (take n xs)" using assms by simp
next
  fix i assume "i < length (ring_contents (xs @ ys) 0 n)"
  then have "i < n" by simp
  then show "ring_contents (xs @ ys) 0 n ! i = take n xs ! i"
    using assms by (simp add: nth_append)
qed

end
