(* ===== verification/Mq.thy ===== *)
theory Mq
  imports Prelude
begin

text \<open>
  The message queues of \<^verbatim>\<open>skynet-src/skynet_mq.c\<close>: the growable circular buffer each
  service owns, and the global queue of those buffers that have work, an intrusive linked
  list threaded through their \<open>next\<close> fields. A queue is a record; the C heap that holds
  the queues is an explicit store from addresses to records (a freed address is unmapped), so
  that the pointer updates of the global queue are modelled as they are written. The spin
  locks bracket each operation: an operation is one atomic step of the model.
\<close>

section \<open>Data\<close>

definition DEFAULT_QUEUE_SIZE :: nat where "DEFAULT_QUEUE_SIZE = 64"
definition MQ_OVERLOAD :: nat where "MQ_OVERLOAD = 1024"

text \<open>
  \<^verbatim>\<open>struct message_queue\<close>. The array is a list of \<open>mq_cap\<close> slots; \<open>None\<close> is a slot that
  \<^verbatim>\<open>skynet_malloc\<close> returned and nothing has written yet. The flags \<^verbatim>\<open>release\<close> and
  \<^verbatim>\<open>in_global\<close> are 0 or 1 in the code. The capacity and the positions are \<^verbatim>\<open>int\<close>s in the code and natural numbers
  here, which is the same as long as the capacity is below \<open>2 ^ 31\<close>; a queue that never holds \<open>2 ^ 30\<close> messages
  keeps it there (\<open>mq_put_cap\<close>).
\<close>

record 'm message_queue =
  mq_handle :: u32
  mq_cap :: nat
  mq_head :: nat
  mq_tail :: nat
  mq_release :: bool
  mq_in_global :: bool
  mq_overload :: nat
  mq_overload_threshold :: nat
  mq_queue :: "'m option list"
  mq_next :: "nat option"

record 'm mq_state =
  mq_store :: "nat \<rightharpoonup> 'm message_queue"
  gq_head :: "nat option"
  gq_tail :: "nat option"

section \<open>Operations\<close>

definition skynet_mq_init :: "'m mq_state" where
  "skynet_mq_init = \<lparr>mq_store = Map.empty, gq_head = None, gq_tail = None\<rparr>"

definition skynet_globalmq_push :: "'m mq_state \<Rightarrow> nat \<Rightarrow> c_error + 'm mq_state" where
  "skynet_globalmq_push s a =
     rbind (deref (mq_store s) a) (\<lambda>q.
     rbind (c_assert (mq_next q = None)) (\<lambda>_.
       case gq_tail s of
         Some t \<Rightarrow>
           rbind (deref (mq_store s) t) (\<lambda>qt.
             Inr (s\<lparr>mq_store := (mq_store s)(t \<mapsto> qt\<lparr>mq_next := Some a\<rparr>), gq_tail := Some a\<rparr>))
       | None \<Rightarrow> Inr (s\<lparr>gq_head := Some a, gq_tail := Some a\<rparr>)))"

definition skynet_globalmq_pop :: "'m mq_state \<Rightarrow> c_error + (nat option \<times> 'm mq_state)" where
  "skynet_globalmq_pop s =
     (case gq_head s of
        None \<Rightarrow> Inr (None, s)
      | Some a \<Rightarrow>
          rbind (deref (mq_store s) a) (\<lambda>q.
            let s1 = s\<lparr>gq_head := mq_next q, mq_store := (mq_store s)(a \<mapsto> q\<lparr>mq_next := None\<rparr>)\<rparr>
            in if mq_next q = None
               then rbind (c_assert (gq_tail s = Some a)) (\<lambda>_. Inr (Some a, s1\<lparr>gq_tail := None\<rparr>))
               else Inr (Some a, s1)))"

definition skynet_mq_create :: "u32 \<Rightarrow> 'm message_queue" where
  "skynet_mq_create h =
     \<lparr>mq_handle = h, mq_cap = DEFAULT_QUEUE_SIZE, mq_head = 0, mq_tail = 0, mq_release = False,
      mq_in_global = True, mq_overload = 0, mq_overload_threshold = MQ_OVERLOAD,
      mq_queue = replicate DEFAULT_QUEUE_SIZE None, mq_next = None\<rparr>"

definition skynet_mq_length :: "'m message_queue \<Rightarrow> int" where
  "skynet_mq_length q =
     (if mq_head q \<le> mq_tail q then int (mq_tail q) - int (mq_head q)
      else int (mq_tail q) + int (mq_cap q) - int (mq_head q))"

definition mq_overload_query :: "'m message_queue \<Rightarrow> nat \<times> 'm message_queue" where
  "mq_overload_query q =
     (if mq_overload q \<noteq> 0 then (mq_overload q, q\<lparr>mq_overload := 0\<rparr>) else (0, q))"

text \<open>
  The loop of \<^verbatim>\<open>skynet_mq_pop\<close> that doubles the threshold until it reaches the length. With a
  threshold of 0 the C loop would not end, which is \<open>None\<close> here.
\<close>

function overload_loop :: "nat \<Rightarrow> nat \<Rightarrow> nat \<Rightarrow> (nat \<times> nat) option" where
  "overload_loop len ov th =
     (if len \<le> th then Some (ov, th)
      else if th = 0 then None
      else overload_loop len len (2 * th))"
  by pat_completeness auto
termination
  by (relation "measure (\<lambda>(len, ov, th). len - th)") auto

declare overload_loop.simps [simp del]

text \<open>The result is the C return value (0 or 1), the message read, and the queue.\<close>

definition skynet_mq_pop :: "'m message_queue \<Rightarrow> c_error + (int \<times> 'm option \<times> 'm message_queue)" where
  "skynet_mq_pop q =
     (if mq_head q \<noteq> mq_tail q then
        (if mq_head q < length (mq_queue q) then
           (let message = mq_queue q ! mq_head q;
                h1 = Suc (mq_head q);
                head = (if mq_cap q \<le> h1 then 0 else h1);
                len0 = int (mq_tail q) - int head;
                len = (if len0 < 0 then len0 + int (mq_cap q) else len0)
            in case overload_loop (nat len) (mq_overload q) (mq_overload_threshold q) of
                 None \<Rightarrow> Inl Diverges
               | Some (ov, th) \<Rightarrow>
                   Inr (0, message,
                        q\<lparr>mq_head := head, mq_overload := ov, mq_overload_threshold := th\<rparr>))
         else Inl Out_of_bounds)
      else Inr (1, None, q\<lparr>mq_overload_threshold := MQ_OVERLOAD, mq_in_global := False\<rparr>))"

definition expand_queue :: "'m message_queue \<Rightarrow> 'm message_queue" where
  "expand_queue q =
     q\<lparr>mq_queue := map (\<lambda>i. mq_queue q ! ((mq_head q + i) mod mq_cap q)) [0..<mq_cap q]
                   @ replicate (mq_cap q) None,
       mq_head := 0, mq_tail := mq_cap q, mq_cap := mq_cap q * 2\<rparr>"

text \<open>The part of \<^verbatim>\<open>skynet_mq_push\<close> that touches the queue alone, and the whole operation.\<close>

definition mq_put :: "'m \<Rightarrow> 'm message_queue \<Rightarrow> 'm message_queue" where
  "mq_put m q =
     (let q1 = q\<lparr>mq_queue := (mq_queue q)[mq_tail q := Some m],
                 mq_tail := (if mq_cap q \<le> Suc (mq_tail q) then 0 else Suc (mq_tail q))\<rparr>
      in if mq_head q1 = mq_tail q1 then expand_queue q1 else q1)"

definition skynet_mq_push :: "'m mq_state \<Rightarrow> nat \<Rightarrow> 'm \<Rightarrow> c_error + 'm mq_state" where
  "skynet_mq_push s a m =
     rbind (deref (mq_store s) a) (\<lambda>q.
       let q1 = mq_put m q
       in if \<not> mq_in_global q1
          then skynet_globalmq_push
                 (s\<lparr>mq_store := (mq_store s)(a \<mapsto> q1\<lparr>mq_in_global := True\<rparr>)\<rparr>) a
          else Inr (s\<lparr>mq_store := (mq_store s)(a \<mapsto> q1)\<rparr>))"

definition skynet_mq_mark_release :: "'m mq_state \<Rightarrow> nat \<Rightarrow> c_error + 'm mq_state" where
  "skynet_mq_mark_release s a =
     rbind (deref (mq_store s) a) (\<lambda>q.
     rbind (c_assert (\<not> mq_release q)) (\<lambda>_.
       let s1 = s\<lparr>mq_store := (mq_store s)(a \<mapsto> q\<lparr>mq_release := True\<rparr>)\<rparr>
       in if \<not> mq_in_global q then skynet_globalmq_push s1 a else Inr s1))"

text \<open>
  \<^verbatim>\<open>_drop_queue\<close>: pop until the queue is empty, handing every message to the drop callback
  (the model returns them in the order of the calls), then free the queue. The fuel is the
  number of pops allowed; \<open>Diverges\<close> when it runs out.
\<close>

fun drop_loop :: "nat \<Rightarrow> 'm message_queue \<Rightarrow> c_error + ('m list \<times> 'm message_queue)" where
  "drop_loop 0 q = Inl Diverges"
| "drop_loop (Suc n) q =
     rbind (skynet_mq_pop q) (\<lambda>(ret, m, q').
       if ret \<noteq> 0 then Inr ([], q')
       else (case m of
               None \<Rightarrow> Inl Uninit_read
             | Some x \<Rightarrow> rbind (drop_loop n q') (\<lambda>(xs, q''). Inr (x # xs, q''))))"

definition drop_queue :: "'m mq_state \<Rightarrow> nat \<Rightarrow> c_error + ('m list \<times> 'm mq_state)" where
  "drop_queue s a =
     rbind (deref (mq_store s) a) (\<lambda>q.
     rbind (drop_loop (Suc (mq_cap q)) q) (\<lambda>(xs, q').
     rbind (c_assert (mq_next q' = None)) (\<lambda>_.
       Inr (xs, s\<lparr>mq_store := (mq_store s)(a := None)\<rparr>))))"

definition skynet_mq_release :: "'m mq_state \<Rightarrow> nat \<Rightarrow> c_error + ('m list \<times> 'm mq_state)" where
  "skynet_mq_release s a =
     rbind (deref (mq_store s) a) (\<lambda>q.
       if mq_release q then drop_queue s a
       else rbind (skynet_globalmq_push s a) (\<lambda>s'. Inr ([], s')))"

section \<open>The circular buffer is a FIFO queue\<close>

definition mq_len :: "'m message_queue \<Rightarrow> nat" where
  "mq_len q = ring_len (mq_head q) (mq_tail q) (mq_cap q)"

definition mq_slots :: "'m message_queue \<Rightarrow> 'm option list" where
  "mq_slots q = ring_contents (mq_queue q) (mq_head q) (mq_len q)"

definition mq_contents :: "'m message_queue \<Rightarrow> 'm list" where
  "mq_contents q = map the (mq_slots q)"

definition mq_inv :: "'m message_queue \<Rightarrow> bool" where
  "mq_inv q \<longleftrightarrow>
     1 < mq_cap q \<and> length (mq_queue q) = mq_cap q \<and> mq_head q < mq_cap q \<and> mq_tail q < mq_cap q
     \<and> None \<notin> set (mq_slots q) \<and> MQ_OVERLOAD \<le> mq_overload_threshold q"

lemmas mq_defs = mq_inv_def mq_contents_def mq_slots_def mq_len_def

lemma mq_flags_frame [simp]:
  "mq_inv (q\<lparr>mq_release := b\<rparr>) = mq_inv q" "mq_contents (q\<lparr>mq_release := b\<rparr>) = mq_contents q"
  "mq_inv (q\<lparr>mq_in_global := b\<rparr>) = mq_inv q" "mq_contents (q\<lparr>mq_in_global := b\<rparr>) = mq_contents q"
  "mq_inv (q\<lparr>mq_next := n\<rparr>) = mq_inv q" "mq_contents (q\<lparr>mq_next := n\<rparr>) = mq_contents q"
  by (simp_all add: mq_defs)

lemma mq_inv_create: "mq_inv (skynet_mq_create h)"
  by (simp add: mq_defs skynet_mq_create_def DEFAULT_QUEUE_SIZE_def ring_len_def)

lemma mq_contents_create: "mq_contents (skynet_mq_create h) = []"
  by (simp add: mq_defs skynet_mq_create_def ring_len_def)

lemma skynet_mq_length_eq: "mq_inv q \<Longrightarrow> skynet_mq_length q = int (length (mq_contents q))"
  by (auto simp: mq_defs skynet_mq_length_def ring_len_def)

lemma overload_loop_reaches:
  "0 < th \<Longrightarrow> \<exists>ov' th'. overload_loop len ov th = Some (ov', th') \<and> len \<le> th' \<and> th \<le> th'"
proof (induction len ov th rule: overload_loop.induct)
  case (1 len ov th)
  show ?case
  proof (cases "len \<le> th")
    case True
    then show ?thesis by (simp add: overload_loop.simps [of len ov th])
  next
    case False
    with 1 obtain ov' th' where
      "overload_loop len len (2 * th) = Some (ov', th')" "len \<le> th'" "2 * th \<le> th'"
      by fastforce
    with False 1 show ?thesis by (simp add: overload_loop.simps [of len ov th])
  qed
qed

lemma mq_slots_upd:
  "mq_slots (q\<lparr>mq_queue := b, mq_head := h, mq_tail := t, mq_cap := c\<rparr>) = ring_contents b h (ring_len h t c)"
  "mq_slots (q\<lparr>mq_queue := b, mq_tail := t\<rparr>) = ring_contents b (mq_head q) (ring_len (mq_head q) t (mq_cap q))"
  by (simp_all add: mq_slots_def mq_len_def)

lemma mq_put_slots:
  assumes "mq_inv q"
  shows "mq_slots (mq_put m q) = mq_slots q @ [Some m]"
proof -
  let ?c = "mq_cap q" and ?h = "mq_head q" and ?t = "mq_tail q"
  let ?buf = "(mq_queue q)[?t := Some m]"
  have inv: "?h < ?c" "?t < ?c" "length (mq_queue q) = ?c"
    using assms by (auto simp: mq_inv_def)
  have put: "ring_contents ?buf ?h (Suc (mq_len q)) = mq_slots q @ [Some m]"
    unfolding mq_slots_def mq_len_def using inv ring_contents_put [of ?h "mq_queue q" ?t] by simp
  show ?thesis
  proof (cases "?h = Suc ?t mod ?c")
    case True
    have full: "Suc (mq_len q) = ?c"
      unfolding mq_len_def using inv True ring_len_full by metis
    have new: "map (\<lambda>i. ?buf ! ((?h + i) mod ?c)) [0..<?c] = mq_slots q @ [Some m]"
      using put full inv by (simp add: ring_contents_def del: upt_Suc)
    have "mq_put m q = q\<lparr>mq_queue := (mq_slots q @ [Some m]) @ replicate ?c None,
            mq_head := 0, mq_tail := ?c, mq_cap := ?c * 2\<rparr>"
      using True inv new by (simp add: mq_put_def expand_queue_def wrap_mod Let_def del: upt_Suc)
    moreover have "length (mq_slots q @ [Some m]) = ?c"
      using full by (simp add: mq_slots_def)
    ultimately show ?thesis
      using ring_contents_linear [of ?c "mq_slots q @ [Some m]" "replicate ?c None"]
      by (simp add: mq_slots_upd ring_len_def)
  next
    case False
    then have "mq_put m q = q\<lparr>mq_queue := ?buf, mq_tail := Suc ?t mod ?c\<rparr>"
      using inv by (simp add: mq_put_def wrap_mod Let_def)
    then show ?thesis
      using put False inv ring_len_Suc_tail [of ?h ?c ?t]
      by (simp add: mq_slots_upd mq_len_def)
  qed
qed

lemma mq_put_inv:
  assumes "mq_inv q"
  shows "mq_inv (mq_put m q)"
proof -
  have "None \<notin> set (mq_slots (mq_put m q))"
    using assms mq_put_slots [of q m] by (simp add: mq_inv_def)
  with assms show ?thesis
    by (auto simp: mq_inv_def mq_put_def expand_queue_def Let_def)
qed

lemma mq_put_contents: "mq_inv q \<Longrightarrow> mq_contents (mq_put m q) = mq_contents q @ [m]"
  by (simp add: mq_contents_def mq_put_slots)

text \<open>The capacity grows only when every slot is taken, so it is at most twice the number of messages.\<close>

lemma mq_put_cap:
  assumes "mq_inv q"
  shows "mq_cap (mq_put m q) \<le> max (mq_cap q) (2 * length (mq_contents (mq_put m q)))"
proof (cases "mq_head q = Suc (mq_tail q) mod mq_cap q")
  case True
  have inv: "mq_head q < mq_cap q" "mq_tail q < mq_cap q" using assms by (auto simp: mq_inv_def)
  then have "Suc (mq_len q) = mq_cap q" unfolding mq_len_def using True ring_len_full by metis
  then have "length (mq_contents (mq_put m q)) = mq_cap q" using assms by (simp add: mq_contents_def mq_put_slots) (simp add: mq_slots_def)
  then show ?thesis by (simp add: mq_put_def expand_queue_def Let_def)
next
  case False
  have "mq_tail q < mq_cap q" using assms by (auto simp: mq_inv_def)
  then show ?thesis using False by (simp add: mq_put_def wrap_mod Let_def)
qed

lemma mq_put_frame [simp]:
  "mq_handle (mq_put m q) = mq_handle q" "mq_release (mq_put m q) = mq_release q"
  "mq_in_global (mq_put m q) = mq_in_global q" "mq_next (mq_put m q) = mq_next q"
  by (simp_all add: mq_put_def expand_queue_def Let_def)

lemma skynet_mq_pop_empty:
  assumes "mq_inv q" "mq_contents q = []"
  shows "skynet_mq_pop q = Inr (1, None, q\<lparr>mq_overload_threshold := MQ_OVERLOAD, mq_in_global := False\<rparr>)"
proof -
  have "mq_len q = 0" using assms by (simp add: mq_contents_def mq_slots_def)
  then have "mq_head q = mq_tail q"
    using assms ring_len_0 by (auto simp: mq_inv_def mq_len_def)
  then show ?thesis by (simp add: skynet_mq_pop_def)
qed

lemma skynet_mq_pop_cons:
  assumes "mq_inv q" "mq_contents q = x # xs"
  shows "\<exists>q'. skynet_mq_pop q = Inr (0, Some x, q') \<and> mq_inv q' \<and> mq_contents q' = xs
           \<and> mq_len q' \<le> mq_overload_threshold q' \<and> mq_handle q' = mq_handle q
           \<and> (length xs \<le> mq_overload_threshold q \<longrightarrow> mq_overload q' = mq_overload q)
           \<and> mq_release q' = mq_release q \<and> mq_in_global q' = mq_in_global q \<and> mq_next q' = mq_next q"
proof -
  let ?c = "mq_cap q" and ?h = "mq_head q" and ?t = "mq_tail q"
  have inv: "?h < ?c" "?t < ?c" "length (mq_queue q) = ?c" "1 < ?c" "None \<notin> set (mq_slots q)"
    "MQ_OVERLOAD \<le> mq_overload_threshold q"
    using assms by (auto simp: mq_inv_def)
  have "mq_slots q \<noteq> []" using assms by (auto simp: mq_contents_def)
  then have "mq_len q \<noteq> 0" by (simp add: mq_slots_def)
  then have ne: "?h \<noteq> ?t" using inv ring_len_0 by (auto simp: mq_len_def)
  define q1 where "q1 = q\<lparr>mq_head := Suc ?h mod ?c\<rparr>"
  have len1: "Suc (mq_len q1) = mq_len q"
    using ring_len_Suc_head [of ?h ?c ?t] inv ne by (simp add: mq_len_def q1_def)
  have slots: "mq_slots q = mq_queue q ! ?h # mq_slots q1"
    using len1 ring_contents_Cons [of ?h "mq_queue q" "mq_len q1"] inv
    by (simp add: mq_slots_def q1_def)
  have x: "mq_queue q ! ?h = Some x" and xs: "mq_contents q1 = xs" and no: "None \<notin> set (mq_slots q1)"
    using slots assms inv by (auto simp: mq_contents_def)
  have len: "nat (if int ?t - int (Suc ?h mod ?c) < 0 then int ?t - int (Suc ?h mod ?c) + int ?c
               else int ?t - int (Suc ?h mod ?c)) = mq_len q1"
    using inv by (auto simp: mq_len_def q1_def ring_len_def)
  obtain ov th where th: "overload_loop (mq_len q1) (mq_overload q) (mq_overload_threshold q) = Some (ov, th)"
    "mq_len q1 \<le> th" "mq_overload_threshold q \<le> th"
    using overload_loop_reaches [of "mq_overload_threshold q" "mq_len q1" "mq_overload q"] inv
    by (auto simp: MQ_OVERLOAD_def)
  let ?q' = "q1\<lparr>mq_overload := ov, mq_overload_threshold := th\<rparr>"
  have pop: "skynet_mq_pop q = Inr (0, Some x, ?q')"
    unfolding skynet_mq_pop_def Let_def wrap_mod [OF inv(1)] len using ne inv x th
    by (simp add: q1_def)
  have "mq_slots ?q' = mq_slots q1" "mq_len ?q' = mq_len q1"
    by (simp_all add: mq_slots_def mq_len_def)
  then have "mq_inv ?q'" "mq_contents ?q' = xs" "mq_len ?q' \<le> mq_overload_threshold ?q'"
    using inv th no xs by (auto simp: mq_inv_def mq_contents_def q1_def)
  moreover have "length xs \<le> mq_overload_threshold q \<longrightarrow> ov = mq_overload q"
  proof
    assume "length xs \<le> mq_overload_threshold q"
    moreover have "length xs = mq_len q1" using xs by (auto simp: mq_contents_def mq_slots_def)
    ultimately show "ov = mq_overload q" using th(1) by (simp add: overload_loop.simps)
  qed
  ultimately show ?thesis using pop by (auto simp: q1_def)
qed

text \<open>Popping as a total function, for the FIFO interface: a non-zero return is no message.\<close>

definition mq_take :: "'m message_queue \<Rightarrow> 'm option \<times> 'm message_queue" where
  "mq_take q =
     (case skynet_mq_pop q of
        Inr (ret, m, q') \<Rightarrow> (if ret = 0 then m else None, q')
      | Inl _ \<Rightarrow> (None, q))"

interpretation mqf: fifo mq_put mq_take mq_contents mq_inv
proof (unfold_locales, goal_cases)
  case (1 q x) then show ?case by (rule mq_put_inv)
next
  case (2 q x) then show ?case by (rule mq_put_contents)
next
  case (3 q)
  show ?case
  proof (cases "mq_contents q")
    case Nil
    then have "skynet_mq_pop q = Inr (1, None, q\<lparr>mq_overload_threshold := MQ_OVERLOAD, mq_in_global := False\<rparr>)"
      using 3 skynet_mq_pop_empty by blast
    then show ?thesis using 3 by (simp add: mq_take_def mq_defs)
  next
    case (Cons x xs)
    from skynet_mq_pop_cons [OF 3 Cons] show ?thesis by (auto simp: mq_take_def)
  qed
next
  case (4 q) then show ?case by (simp add: mq_take_def skynet_mq_pop_empty)
next
  case (5 q) then show ?case by (simp add: mq_take_def skynet_mq_pop_empty) (simp add: mq_defs)
next
  case (6 q x xs) then show ?case using skynet_mq_pop_cons [of q x xs] by (auto simp: mq_take_def)
next
  case (7 q x xs) then show ?case using skynet_mq_pop_cons [of q x xs] by (auto simp: mq_take_def)
qed

section \<open>The global queue is a list of queues\<close>

text \<open>
  \<open>links st p as\<close>: following the \<open>next\<close> fields from pointer \<open>p\<close> visits exactly the
  addresses \<open>as\<close>, each of them allocated. \<open>gq_repr s as\<close>: the global queue of \<open>s\<close>
  represents the list \<open>as\<close>, and a queue that is not in it has a null \<open>next\<close>.
\<close>

fun links :: "(nat \<rightharpoonup> 'm message_queue) \<Rightarrow> nat option \<Rightarrow> nat list \<Rightarrow> bool" where
  "links st p [] = (p = None)"
| "links st p (a # as) =
     (p = Some a \<and> (case st a of None \<Rightarrow> False | Some q \<Rightarrow> links st (mq_next q) as))"

definition gq_repr :: "'m mq_state \<Rightarrow> nat list \<Rightarrow> bool" where
  "gq_repr s as \<longleftrightarrow>
     links (mq_store s) (gq_head s) as \<and> distinct as
     \<and> gq_tail s = (if as = [] then None else Some (last as))
     \<and> (\<forall>a q. mq_store s a = Some q \<longrightarrow> a \<notin> set as \<longrightarrow> mq_next q = None)"

text \<open>What the global queue operations leave alone: everything but the \<open>next\<close> fields.\<close>

definition same_queues :: "'m mq_state \<Rightarrow> 'm mq_state \<Rightarrow> bool" where
  "same_queues s s' \<longleftrightarrow>
     (\<forall>a. map_option (mq_next_update (\<lambda>_. None)) (mq_store s' a)
        = map_option (mq_next_update (\<lambda>_. None)) (mq_store s a))"

lemma same_queues_refl [simp]: "same_queues s s"
  by (simp add: same_queues_def)

lemma same_queues_trans: "same_queues s t \<Longrightarrow> same_queues t u \<Longrightarrow> same_queues s u"
  by (simp add: same_queues_def)

lemma same_queues_Some:
  assumes "same_queues s s'" "mq_store s a = Some q"
  obtains n where "mq_store s' a = Some (q\<lparr>mq_next := n\<rparr>)"
proof -
  from assms obtain q' where q': "mq_store s' a = Some q'" "q'\<lparr>mq_next := None\<rparr> = q\<lparr>mq_next := None\<rparr>"
    unfolding same_queues_def by (metis map_option_eq_Some option.simps(9))
  then have "q' = q\<lparr>mq_next := mq_next q'\<rparr>"
    by (metis message_queue.update_convs(10) message_queue.surjective message_queue.fold_congs(10))
  with q' that show ?thesis by metis
qed

lemma links_frame: "a \<notin> set as \<Longrightarrow> links (st(a := v)) p as = links st p as"
  by (induction as arbitrary: p) (auto split: option.splits)

lemma links_allocated: "links st p as \<Longrightarrow> a \<in> set as \<Longrightarrow> st a \<noteq> None"
  by (induction as arbitrary: p) (auto split: option.splits)

lemma links_last:
  "links st p as \<Longrightarrow> as \<noteq> [] \<Longrightarrow> \<exists>q. st (last as) = Some q \<and> mq_next q = None"
  by (induction as arbitrary: p) (auto split: option.splits)

lemma links_snoc:
  assumes "links st p as" "as \<noteq> []" "distinct as" "a \<notin> set as" "st (last as) = Some qt"
    and "st a = Some q" "mq_next q = None"
  shows "links (st(last as \<mapsto> qt\<lparr>mq_next := Some a\<rparr>)) p (as @ [a])"
  using assms
proof (induction as arbitrary: p)
  case (Cons b bs)
  show ?case
  proof (cases "bs = []")
    case True
    with Cons.prems show ?thesis by (auto split: option.splits)
  next
    case False
    from Cons.prems obtain qb where qb: "st b = Some qb" "links st (mq_next qb) bs" "p = Some b"
      by (auto split: option.splits)
    have "links (st(last bs \<mapsto> qt\<lparr>mq_next := Some a\<rparr>)) (mq_next qb) (bs @ [a])"
      using Cons.IH [OF qb(2) False] Cons.prems False by (simp add: fun_upd_def)
    moreover have "last bs \<noteq> b" using Cons.prems False last_in_set by fastforce
    ultimately show ?thesis using qb False by (simp add: fun_upd_def)
  qed
qed simp

lemma gq_repr_init: "gq_repr skynet_mq_init []"
  by (simp add: gq_repr_def skynet_mq_init_def)

lemma globalmq_push_repr:
  assumes "gq_repr s as" "mq_store s a = Some q" "a \<notin> set as"
  shows "\<exists>s'. skynet_globalmq_push s a = Inr s' \<and> gq_repr s' (as @ [a]) \<and> same_queues s s'"
proof (cases "as = []")
  case True
  with assms show ?thesis
    by (auto simp: skynet_globalmq_push_def gq_repr_def same_queues_def)
next
  case False
  have next_a: "mq_next q = None" using assms by (auto simp: gq_repr_def)
  from assms False obtain qt where qt: "mq_store s (last as) = Some qt" "mq_next qt = None"
    by (meson gq_repr_def links_last)
  let ?s = "s\<lparr>mq_store := (mq_store s)(last as \<mapsto> qt\<lparr>mq_next := Some a\<rparr>), gq_tail := Some a\<rparr>"
  have push: "skynet_globalmq_push s a = Inr ?s"
    using assms False next_a qt by (simp add: skynet_globalmq_push_def gq_repr_def)
  have "last as \<noteq> a" using assms(3) False last_in_set by blast
  then have "links (mq_store ?s) (gq_head ?s) (as @ [a])"
    using links_snoc [of "mq_store s" "gq_head s" as a qt q] assms False next_a qt
    by (simp add: gq_repr_def)
  then have "gq_repr ?s (as @ [a])"
    using assms False by (auto simp: gq_repr_def)
  moreover have "same_queues s ?s" using qt by (simp add: same_queues_def)
  ultimately show ?thesis using push by blast
qed

lemma globalmq_pop_Nil: "gq_repr s [] \<Longrightarrow> skynet_globalmq_pop s = Inr (None, s)"
  by (simp add: gq_repr_def skynet_globalmq_pop_def)

lemma globalmq_pop_Cons:
  assumes "gq_repr s (a # as)"
  shows "\<exists>s'. skynet_globalmq_pop s = Inr (Some a, s') \<and> gq_repr s' as \<and> same_queues s s'"
proof -
  from assms obtain q where q: "mq_store s a = Some q" "links (mq_store s) (mq_next q) as"
    "gq_head s = Some a" "a \<notin> set as" "distinct as"
    by (auto simp: gq_repr_def split: option.splits)
  let ?st = "(mq_store s)(a \<mapsto> q\<lparr>mq_next := None\<rparr>)"
  have l: "links ?st (mq_next q) as" using q links_frame by metis
  have e: "mq_next q = None \<longleftrightarrow> as = []" using q(2) by (cases as) auto
  show ?thesis
  proof (cases "as = []")
    case True
    with assms q e l show ?thesis
      by (auto simp: skynet_globalmq_pop_def gq_repr_def Let_def same_queues_def)
  next
    case False
    with assms q e l show ?thesis
      by (auto simp: skynet_globalmq_pop_def gq_repr_def Let_def same_queues_def)
  qed
qed

section \<open>Releasing a queue\<close>

lemma drop_loop_contents:
  "mq_inv q \<Longrightarrow> length (mq_contents q) < n \<Longrightarrow>
   \<exists>q'. drop_loop n q = Inr (mq_contents q, q') \<and> mq_next q' = mq_next q"
proof (induction n arbitrary: q)
  case (Suc n)
  show ?case
  proof (cases "mq_contents q")
    case Nil
    with Suc.prems show ?thesis by (simp add: skynet_mq_pop_empty)
  next
    case (Cons x xs)
    with skynet_mq_pop_cons [OF Suc.prems(1) Cons] obtain q' where
      q': "skynet_mq_pop q = Inr (0, Some x, q')" "mq_inv q'" "mq_contents q' = xs" "mq_next q' = mq_next q"
      by auto
    with Suc.IH [of q'] Suc.prems Cons show ?thesis by auto
  qed
qed simp

lemma length_contents_cap: "mq_inv q \<Longrightarrow> length (mq_contents q) < mq_cap q"
  by (simp add: mq_defs ring_len_less)

lemma mq_release_frees:
  assumes "gq_repr s as" "mq_store s a = Some q" "a \<notin> set as" "mq_inv q" "mq_release q"
  shows "skynet_mq_release s a = Inr (mq_contents q, s\<lparr>mq_store := (mq_store s)(a := None)\<rparr>)"
proof -
  have "mq_next q = None" using assms by (auto simp: gq_repr_def)
  moreover obtain q' where "drop_loop (Suc (mq_cap q)) q = Inr (mq_contents q, q')" "mq_next q' = mq_next q"
    using drop_loop_contents [OF assms(4), of "Suc (mq_cap q)"] length_contents_cap [OF assms(4)] by auto
  ultimately show ?thesis
    using assms(2,5) by (simp add: skynet_mq_release_def drop_queue_def del: drop_loop.simps)
qed

section \<open>Properties\<close>

text \<open>
  C4: a message queue is a FIFO queue. Whatever sequence of pushes and pops is run against
  the circular buffer from its creation on, through any number of wrap-arounds and
  expansions, the pops return exactly what they would return on a plain list.
\<close>

theorem mq_refines_fifo:
  "run_ops mq_put mq_take (skynet_mq_create h) ops = spec_ops [] ops"
  using mqf.refines_list [OF mq_inv_create, of h ops] by (simp add: mq_contents_create)

text \<open>
  C5: the global queue, an intrusive linked list with head, tail and \<open>next\<close> pointers, is a
  FIFO queue of message queues. Pushing a queue that is not in it never fails the assertion
  of the code and appends it; popping takes the first one off and clears its \<open>next\<close>, or
  returns null when it is empty; neither changes anything else of any queue.
\<close>

theorem globalmq_refines_list:
  assumes "gq_repr s as"
  shows "(mq_store s a \<noteq> None \<and> a \<notin> set as \<longrightarrow>
            (\<exists>s'. skynet_globalmq_push s a = Inr s' \<and> gq_repr s' (as @ [a]) \<and> same_queues s s'))
       \<and> (case as of
            [] \<Rightarrow> skynet_globalmq_pop s = Inr (None, s)
          | b # bs \<Rightarrow> \<exists>s'. skynet_globalmq_pop s = Inr (Some b, s') \<and> gq_repr s' bs \<and> same_queues s s')"
  using assms globalmq_push_repr [of s as a] globalmq_pop_Nil [of s]
  by (auto split: list.splits intro: globalmq_pop_Cons)

definition example_mq_state :: "nat mq_state" where
  "example_mq_state = skynet_mq_init\<lparr>mq_store := [1 \<mapsto> skynet_mq_create 7, 2 \<mapsto> skynet_mq_create 8]\<rparr>"

theorem globalmq_refines_list_witness:
  "gq_repr example_mq_state [] \<and>
   (\<exists>s'. skynet_globalmq_push example_mq_state 1 = Inr s' \<and> gq_repr s' [1] \<and> same_queues example_mq_state s')"
proof -
  have r: "gq_repr example_mq_state []"
    by (simp add: gq_repr_def example_mq_state_def skynet_mq_init_def skynet_mq_create_def)
  show ?thesis using r globalmq_refines_list [OF r, of 1] by (simp add: example_mq_state_def)
qed

text \<open>
  Releasing a queue loses no message silently. When the release flag is set,
  \<^verbatim>\<open>skynet_mq_release\<close> hands every queued message to the drop callback, each once and in
  order, and frees the queue; otherwise it puts the queue back into the global queue.
\<close>

theorem mq_release_drops_all:
  assumes "gq_repr s as" "mq_store s a = Some q" "a \<notin> set as" "mq_inv q"
  shows "if mq_release q
         then skynet_mq_release s a
                = Inr (mq_contents q, s\<lparr>mq_store := (mq_store s)(a := None)\<rparr>)
         else \<exists>s'. skynet_mq_release s a = Inr ([], s') \<and> gq_repr s' (as @ [a]) \<and> same_queues s s'"
proof (cases "mq_release q")
  case True
  then show ?thesis using mq_release_frees [OF assms] by simp
next
  case False
  with assms globalmq_push_repr [of s as a q] show ?thesis
    by (auto simp: skynet_mq_release_def)
qed

definition example_released :: "nat message_queue" where
  "example_released = (mq_put 6 (mq_put 5 (skynet_mq_create 7)))\<lparr>mq_release := True\<rparr>"

theorem mq_release_drops_all_witness:
  "skynet_mq_release (example_mq_state\<lparr>mq_store := [1 \<mapsto> example_released]\<rparr>) 1
     = Inr ([5, 6], example_mq_state\<lparr>mq_store := Map.empty\<rparr>)"
proof -
  let ?s = "example_mq_state\<lparr>mq_store := [1 \<mapsto> example_released]\<rparr>"
  have "mq_inv example_released" "mq_contents example_released = [5, 6]"
    by (simp_all add: example_released_def mq_put_contents mq_put_inv mq_inv_create mq_contents_create)
  moreover have "gq_repr ?s []"
    by (simp add: gq_repr_def example_mq_state_def skynet_mq_init_def example_released_def skynet_mq_create_def)
  moreover have "mq_store ?s 1 = Some example_released" by simp
  ultimately show ?thesis
    using mq_release_drops_all [of ?s "[]" 1 example_released]
    by (simp add: example_released_def example_mq_state_def)
qed

end
