(* ===== verification/Sched.thy ===== *)
theory Sched
  imports Mq
begin

text \<open>
  The scheduling protocol of the worker threads: \<^verbatim>\<open>thread_worker\<close> (\<^verbatim>\<open>skynet_start.c\<close>) calling
  \<^verbatim>\<open>skynet_context_message_dispatch\<close>, \<^verbatim>\<open>skynet_context_new\<close> publishing a fresh queue and
  \<^verbatim>\<open>delete_context\<close> marking one for release (\<^verbatim>\<open>skynet_server.c\<close>), interleaved at the operations
  that the spin locks of \<^verbatim>\<open>skynet_mq.c\<close> make atomic. A thread is a stack of activities, because
  a service callback run by a worker may itself launch services. The actions are attempted
  against the real queue operations of theory \<open>Mq\<close>, so that a failed assertion or an access to
  a freed queue would be an error value.
\<close>

section \<open>Threads and actions\<close>

text \<open>
  \<open>Holding a\<close>: the worker has queue \<open>a\<close> in its variable \<^verbatim>\<open>q\<close>. \<open>Running a\<close>: it has grabbed the
  context of \<open>a\<close> and is in the loop over its messages. \<open>Swapping a b\<close>: it has popped \<open>b\<close> from
  the global queue and has yet to push \<open>a\<close> back. \<open>Creating a\<close>: a launch has created queue \<open>a\<close>
  and is running the service's init.
\<close>

datatype activity = Holding nat | Running nat | Swapping nat nat | Creating nat

record 'm sched =
  sc_mq :: "'m mq_state"
  sc_count :: nat
  sc_thread :: "nat \<Rightarrow> activity list"

datatype 'm action =
    Send nat 'm
  | Delete nat
  | Launch nat nat u32
  | Launched nat
  | Launch_failed nat
  | Take nat
  | Grab nat
  | Gone nat
  | Pop_message nat
  | End_round nat
  | Put_back nat

definition set_thread :: "nat \<Rightarrow> activity list \<Rightarrow> 'm sched \<Rightarrow> 'm mq_state \<Rightarrow> 'm sched" where
  "set_thread t st \<sigma> s = \<sigma>\<lparr>sc_mq := s, sc_thread := (sc_thread \<sigma>)(t := st)\<rparr>"

text \<open>A sender and a deleter work on the queue of a context they have a reference to, so its
  queue is not marked for release yet; the reference a running worker holds keeps the context
  from being deleted.\<close>

definition live :: "'m sched \<Rightarrow> nat \<Rightarrow> bool" where
  "live \<sigma> a = (case mq_store (sc_mq \<sigma>) a of Some q \<Rightarrow> \<not> mq_release q | None \<Rightarrow> False)"

definition launch_site :: "activity list \<Rightarrow> bool" where
  "launch_site st = (case st of Holding _ # _ \<Rightarrow> False | Swapping _ _ # _ \<Rightarrow> False | _ \<Rightarrow> True)"

text \<open>The attempt of an action: \<open>None\<close> when the code is not at that point, otherwise what the
  operations return.\<close>

fun attempt :: "'m action \<Rightarrow> 'm sched \<Rightarrow> (c_error + 'm sched) option" where
  "attempt (Send a m) \<sigma> =
     (if live \<sigma> a
      then Some (rbind (skynet_mq_push (sc_mq \<sigma>) a m) (\<lambda>s. Inr (\<sigma>\<lparr>sc_mq := s\<rparr>)))
      else None)"
| "attempt (Delete a) \<sigma> =
     (if live \<sigma> a \<and> (\<forall>t < sc_count \<sigma>. Running a \<notin> set (sc_thread \<sigma> t))
      then Some (rbind (skynet_mq_mark_release (sc_mq \<sigma>) a) (\<lambda>s. Inr (\<sigma>\<lparr>sc_mq := s\<rparr>)))
      else None)"
| "attempt (Launch t a h) \<sigma> =
     (if t < sc_count \<sigma> \<and> launch_site (sc_thread \<sigma> t) \<and> mq_store (sc_mq \<sigma>) a = None
      then Some (Inr (set_thread t (Creating a # sc_thread \<sigma> t) \<sigma>
             ((sc_mq \<sigma>)\<lparr>mq_store := (mq_store (sc_mq \<sigma>))(a \<mapsto> skynet_mq_create h)\<rparr>)))
      else None)"
| "attempt (Launched t) \<sigma> =
     (case sc_thread \<sigma> t of
        Creating a # st \<Rightarrow>
          Some (rbind (skynet_globalmq_push (sc_mq \<sigma>) a) (\<lambda>s. Inr (set_thread t st \<sigma> s)))
      | _ \<Rightarrow> None)"
| "attempt (Launch_failed t) \<sigma> =
     (case sc_thread \<sigma> t of
        Creating a # st \<Rightarrow>
          Some (rbind (skynet_mq_release (sc_mq \<sigma>) a) (\<lambda>(dropped, s). Inr (set_thread t st \<sigma> s)))
      | _ \<Rightarrow> None)"
| "attempt (Take t) \<sigma> =
     (case sc_thread \<sigma> t of
        [] \<Rightarrow>
          if t < sc_count \<sigma>
          then Some (rbind (skynet_globalmq_pop (sc_mq \<sigma>)) (\<lambda>(q, s).
                 Inr (set_thread t (case q of None \<Rightarrow> [] | Some a \<Rightarrow> [Holding a]) \<sigma> s)))
          else None
      | _ \<Rightarrow> None)"
| "attempt (Grab t) \<sigma> =
     (case sc_thread \<sigma> t of
        Holding a # st \<Rightarrow>
          if live \<sigma> a then Some (Inr (set_thread t (Running a # st) \<sigma> (sc_mq \<sigma>))) else None
      | _ \<Rightarrow> None)"
| "attempt (Gone t) \<sigma> =
     (case sc_thread \<sigma> t of
        Holding a # st \<Rightarrow>
          Some (rbind (skynet_mq_release (sc_mq \<sigma>) a) (\<lambda>(dropped, s). Inr (set_thread t st \<sigma> s)))
      | _ \<Rightarrow> None)"
| "attempt (Pop_message t) \<sigma> =
     (case sc_thread \<sigma> t of
        Running a # st \<Rightarrow>
          Some (rbind (deref (mq_store (sc_mq \<sigma>)) a) (\<lambda>q.
                rbind (skynet_mq_pop q) (\<lambda>(ret, m, q').
                  Inr (set_thread t (if ret = 0 then Running a # st else st) \<sigma>
                        ((sc_mq \<sigma>)\<lparr>mq_store := (mq_store (sc_mq \<sigma>))(a \<mapsto> q')\<rparr>)))))
      | _ \<Rightarrow> None)"
| "attempt (End_round t) \<sigma> =
     (case sc_thread \<sigma> t of
        Running a # st \<Rightarrow>
          Some (rbind (skynet_globalmq_pop (sc_mq \<sigma>)) (\<lambda>(nq, s).
            Inr (set_thread t (case nq of None \<Rightarrow> Holding a # st | Some b \<Rightarrow> Swapping a b # st) \<sigma> s)))
      | _ \<Rightarrow> None)"
| "attempt (Put_back t) \<sigma> =
     (case sc_thread \<sigma> t of
        Swapping a b # st \<Rightarrow>
          Some (rbind (skynet_globalmq_push (sc_mq \<sigma>) a) (\<lambda>s. Inr (set_thread t (Holding b # st) \<sigma> s)))
      | _ \<Rightarrow> None)"

definition sched_init :: "nat \<Rightarrow> 'm sched" where
  "sched_init n = \<lparr>sc_mq = skynet_mq_init, sc_count = n, sc_thread = (\<lambda>_. [])\<rparr>"

inductive sched_reach :: "'m sched \<Rightarrow> bool" where
  init: "sched_reach (sched_init n)"
| step: "sched_reach \<sigma> \<Longrightarrow> attempt act \<sigma> = Some (Inr \<sigma>') \<Longrightarrow> sched_reach \<sigma>'"

section \<open>The ownership invariant\<close>

text \<open>The queues a thread has to itself, and the invariant: the global queue and the threads
  divide the queues marked \<^verbatim>\<open>in_global\<close> among them, and a queue with work is marked.\<close>

fun activity_queues :: "activity \<Rightarrow> nat list" where
  "activity_queues (Holding a) = [a]"
| "activity_queues (Running a) = [a]"
| "activity_queues (Swapping a b) = [a, b]"
| "activity_queues (Creating a) = [a]"

definition held :: "activity list \<Rightarrow> nat list" where
  "held st = concat (map activity_queues st)"

lemma held_simps [simp]: "held [] = []" "held (x # st) = activity_queues x @ held st"
  by (simp_all add: held_def)

definition owned :: "nat list \<Rightarrow> (nat \<Rightarrow> activity list) \<Rightarrow> nat set" where
  "owned qs th = set qs \<union> (\<Union>t. set (held (th t)))"

definition exclusive :: "nat list \<Rightarrow> (nat \<Rightarrow> activity list) \<Rightarrow> bool" where
  "exclusive qs th \<longleftrightarrow>
     distinct qs \<and> (\<forall>t. distinct (held (th t)) \<and> set (held (th t)) \<inter> set qs = {})
     \<and> (\<forall>t t'. t \<noteq> t' \<longrightarrow> set (held (th t)) \<inter> set (held (th t')) = {})"

definition store_ok :: "(nat \<rightharpoonup> 'm message_queue) \<Rightarrow> nat set \<Rightarrow> bool" where
  "store_ok st own \<longleftrightarrow>
     own \<subseteq> dom st \<and>
     (\<forall>a q. st a = Some q \<longrightarrow>
        mq_inv q \<and> (\<not> mq_release q \<longrightarrow> (mq_in_global q \<longleftrightarrow> a \<in> own)) \<and> (mq_release q \<or> mq_contents q \<noteq> [] \<longrightarrow> a \<in> own))"

definition running_live :: "'m sched \<Rightarrow> bool" where
  "running_live \<sigma> \<longleftrightarrow> (\<forall>t a. Running a \<in> set (sc_thread \<sigma> t) \<longrightarrow> live \<sigma> a)"

definition sched_inv :: "'m sched \<Rightarrow> nat list \<Rightarrow> bool" where
  "sched_inv \<sigma> qs \<longleftrightarrow>
     gq_repr (sc_mq \<sigma>) qs \<and> exclusive qs (sc_thread \<sigma>)
     \<and> store_ok (mq_store (sc_mq \<sigma>)) (owned qs (sc_thread \<sigma>)) \<and> running_live \<sigma>
     \<and> (\<forall>t. sc_count \<sigma> \<le> t \<longrightarrow> sc_thread \<sigma> t = [])"

lemma owned_upd: "owned qs (th(t := st)) = set qs \<union> set (held st) \<union> (\<Union>u\<in>-{t}. set (held (th u)))"
  by (auto simp: owned_def split: if_splits)

lemma owned_split: "owned qs th = set qs \<union> set (held (th t)) \<union> (\<Union>u\<in>-{t}. set (held (th u)))"
  using owned_upd [of qs th t "th t"] by simp

lemma same_queues_live: "same_queues (sc_mq \<sigma>) s \<Longrightarrow> live (set_thread t st \<sigma> s) = live \<sigma>"
proof
  fix a assume "same_queues (sc_mq \<sigma>) s"
  then have "map_option (mq_next_update (\<lambda>_. None)) (mq_store s a)
        = map_option (mq_next_update (\<lambda>_. None)) (mq_store (sc_mq \<sigma>) a)"
    by (simp add: same_queues_def)
  then have "map_option mq_release (mq_store s a) = map_option mq_release (mq_store (sc_mq \<sigma>) a)"
    by (cases "mq_store s a"; cases "mq_store (sc_mq \<sigma>) a")
      (auto dest: arg_cong [where f = mq_release])
  then show "live (set_thread t st \<sigma> s) a = live \<sigma> a"
    by (cases "mq_store s a"; cases "mq_store (sc_mq \<sigma>) a") (auto simp: live_def set_thread_def)
qed

lemma store_ok_same:
  assumes "same_queues s s'" "store_ok (mq_store s) own"
  shows "store_ok (mq_store s') own"
  unfolding store_ok_def
proof (intro conjI allI impI subsetI)
  fix a assume "a \<in> own"
  then obtain q where "mq_store s a = Some q" using assms(2) unfolding store_ok_def by blast
  then obtain n where "mq_store s' a = Some (q\<lparr>mq_next := n\<rparr>)" by (rule same_queues_Some [OF assms(1)])
  then show "a \<in> dom (mq_store s')" by auto
next
  have sym: "same_queues s' s" using assms(1) by (simp add: same_queues_def)
  fix a q assume "mq_store s' a = Some q"
  then obtain n where n: "mq_store s a = Some (q\<lparr>mq_next := n\<rparr>)" by (rule same_queues_Some [OF sym])
  have ok: "mq_inv (q\<lparr>mq_next := n\<rparr>) \<and> (\<not> mq_release (q\<lparr>mq_next := n\<rparr>) \<longrightarrow> (mq_in_global (q\<lparr>mq_next := n\<rparr>) \<longleftrightarrow> a \<in> own))
    \<and> (mq_release (q\<lparr>mq_next := n\<rparr>) \<or> mq_contents (q\<lparr>mq_next := n\<rparr>) \<noteq> [] \<longrightarrow> a \<in> own)"
    using assms(2) n unfolding store_ok_def by blast
  then show "mq_inv q" "\<not> mq_release q \<Longrightarrow> mq_in_global q \<longleftrightarrow> a \<in> own" by simp_all
  show "mq_release q \<or> mq_contents q \<noteq> [] \<Longrightarrow> a \<in> own" using ok by auto
qed

lemma gq_repr_upd:
  assumes "gq_repr s qs" "mq_store s a = Some q" "mq_next q' = mq_next q"
  shows "gq_repr (s\<lparr>mq_store := (mq_store s)(a \<mapsto> q')\<rparr>) qs"
proof -
  have "links ((mq_store s)(a \<mapsto> q')) p as = links (mq_store s) p as" for p as
    using assms(2,3) by (induction as arbitrary: p) (auto split: option.splits)
  with assms show ?thesis by (auto simp: gq_repr_def)
qed

lemma gq_repr_new:
  assumes "gq_repr s qs" "mq_store s a = None" "mq_next q' = None"
  shows "gq_repr (s\<lparr>mq_store := (mq_store s)(a \<mapsto> q')\<rparr>) qs"
proof -
  have "a \<notin> set qs" using assms links_allocated by (fastforce simp: gq_repr_def)
  with assms show ?thesis by (auto simp: gq_repr_def links_frame)
qed

lemma gq_repr_free:
  assumes "gq_repr s qs" "a \<notin> set qs"
  shows "gq_repr (s\<lparr>mq_store := (mq_store s)(a := None)\<rparr>) qs"
  using assms by (auto simp: gq_repr_def links_frame)

lemma store_ok_upd:
  assumes "store_ok st own" "mq_inv q" "\<not> mq_release q \<Longrightarrow> mq_in_global q \<longleftrightarrow> a \<in> own'"
    "mq_release q \<or> mq_contents q \<noteq> [] \<Longrightarrow> a \<in> own'" "own' - {a} = own - {a}"
  shows "store_ok (st(a \<mapsto> q)) own'"
proof -
  have "own' \<subseteq> dom (st(a \<mapsto> q))" using assms(1,5) by (fastforce simp: store_ok_def)
  moreover have "mq_inv r \<and> (\<not> mq_release r \<longrightarrow> (mq_in_global r \<longleftrightarrow> b \<in> own')) \<and> (mq_release r \<or> mq_contents r \<noteq> [] \<longrightarrow> b \<in> own')"
    if "(st(a \<mapsto> q)) b = Some r" for b r
  proof (cases "b = a")
    case True
    with that assms(2-4) show ?thesis by auto
  next
    case False
    with assms(5) have "b \<in> own' \<longleftrightarrow> b \<in> own" by blast
    moreover have "st b = Some r" using that False by simp
    ultimately show ?thesis using assms(1) unfolding store_ok_def by metis
  qed
  ultimately show ?thesis unfolding store_ok_def by blast
qed

lemma store_ok_free:
  assumes "store_ok st own"
  shows "store_ok (st(a := None)) (own - {a})"
proof -
  have "mq_inv r \<and> (\<not> mq_release r \<longrightarrow> (mq_in_global r \<longleftrightarrow> b \<in> own - {a})) \<and> (mq_release r \<or> mq_contents r \<noteq> [] \<longrightarrow> b \<in> own - {a})"
    if "(st(a := None)) b = Some r" for b r
  proof -
    have "b \<noteq> a" "st b = Some r" using that by (auto split: if_splits)
    then show ?thesis using assms unfolding store_ok_def by blast
  qed
  moreover have "own - {a} \<subseteq> dom (st(a := None))" using assms by (auto simp: store_ok_def)
  ultimately show ?thesis unfolding store_ok_def by blast
qed

lemma sched_inv_distinct: "sched_inv \<sigma> qs \<Longrightarrow> distinct (qs @ held (sc_thread \<sigma> t))"
  by (auto simp: sched_inv_def exclusive_def)

lemma sched_inv_held:
  assumes "sched_inv \<sigma> qs" "a \<in> set (held (sc_thread \<sigma> t))"
  obtains q where "mq_store (sc_mq \<sigma>) a = Some q" "mq_inv q" "a \<notin> set qs"
proof -
  have own: "a \<in> owned qs (sc_thread \<sigma>)" using assms(2) by (auto simp: owned_def)
  then obtain q where "mq_store (sc_mq \<sigma>) a = Some q" using assms(1) unfolding sched_inv_def store_ok_def by blast
  then show ?thesis using that own assms unfolding sched_inv_def store_ok_def exclusive_def by blast
qed

text \<open>Steps that only move queues between the global queue and one thread.\<close>

lemma sched_inv_move:
  assumes inv: "sched_inv \<sigma> qs" and s: "gq_repr s qs'" "same_queues (sc_mq \<sigma>) s"
    and set: "set qs' \<union> set (held st) = set qs \<union> set (held (sc_thread \<sigma> t))"
    and d: "distinct (qs' @ held st)"
    and c: "sc_count \<sigma> \<le> t \<Longrightarrow> st = []" and r: "\<And>a. Running a \<in> set st \<Longrightarrow> live \<sigma> a"
  shows "sched_inv (set_thread t st \<sigma> s) qs'"
proof -
  let ?th = "(sc_thread \<sigma>)(t := st)"
  have "owned qs' ?th = owned qs (sc_thread \<sigma>)" using set by (simp add: owned_upd owned_split [of qs _ t])
  then have ok: "store_ok (mq_store s) (owned qs' ?th)"
    using inv store_ok_same [OF s(2)] by (simp add: sched_inv_def)
  have others: "x \<notin> set qs' \<union> set (held st)" if "x \<in> set (held (sc_thread \<sigma> u))" "u \<noteq> t" for u x
    using inv that unfolding set sched_inv_def exclusive_def by blast
  have pair: "set (held (?th u)) \<inter> set (held (?th v)) = {}" if "u \<noteq> v" for u v
    using that others inv unfolding exclusive_def sched_inv_def by (cases "u = t"; cases "v = t") auto
  moreover have "distinct (held (?th u)) \<and> set (held (?th u)) \<inter> set qs' = {}" for u
    using d others inv unfolding exclusive_def sched_inv_def by (cases "u = t") auto
  ultimately have "exclusive qs' ?th" using d unfolding exclusive_def by auto
  moreover have "running_live (set_thread t st \<sigma> s)"
    using inv r by (auto simp: running_live_def same_queues_live [OF s(2)] sched_inv_def) (auto simp: set_thread_def split: if_splits)
  ultimately show ?thesis using s(1) ok inv c by (auto simp: sched_inv_def set_thread_def)
qed

text \<open>Pushing a queue the thread holds.\<close>

lemma sched_inv_push:
  assumes "sched_inv \<sigma> qs" "held (sc_thread \<sigma> t) = a # as" "held st = as"
    and "sc_count \<sigma> \<le> t \<Longrightarrow> st = []" "\<And>b. Running b \<in> set st \<Longrightarrow> live \<sigma> b"
  shows "\<exists>s. skynet_globalmq_push (sc_mq \<sigma>) a = Inr s \<and> sched_inv (set_thread t st \<sigma> s) (qs @ [a])"
proof -
  obtain q where q: "mq_store (sc_mq \<sigma>) a = Some q" "a \<notin> set qs"
    using assms(1,2) sched_inv_held [of \<sigma> qs a t] by auto
  have "gq_repr (sc_mq \<sigma>) qs" using assms(1) by (simp add: sched_inv_def)
  from globalmq_push_repr [OF this q] obtain s where
    s: "skynet_globalmq_push (sc_mq \<sigma>) a = Inr s" "gq_repr s (qs @ [a])" "same_queues (sc_mq \<sigma>) s" by blast
  have "sched_inv (set_thread t st \<sigma> s) (qs @ [a])"
    using sched_inv_distinct [OF assms(1), of t] assms(2-5)
    by (intro sched_inv_move [OF assms(1) s(2,3)]) auto
  with s(1) show ?thesis by blast
qed

text \<open>Popping the global queue into a thread.\<close>

lemma sched_inv_pop:
  assumes "sched_inv \<sigma> qs" "t < sc_count \<sigma>"
    and "\<And>nq. mset (held (f nq)) = mset (held (sc_thread \<sigma> t)) + (case nq of None \<Rightarrow> {#} | Some b \<Rightarrow> {#b#})"
    and "\<And>nq b. Running b \<in> set (f nq) \<Longrightarrow> live \<sigma> b"
  shows "\<exists>nq s qs'. skynet_globalmq_pop (sc_mq \<sigma>) = Inr (nq, s) \<and> sched_inv (set_thread t (f nq) \<sigma> s) qs'"
proof -
  have r: "gq_repr (sc_mq \<sigma>) qs" using assms(1) by (simp add: sched_inv_def)
  note d = sched_inv_distinct [OF assms(1), of t]
  show ?thesis
  proof (cases qs)
    case Nil
    then have p: "skynet_globalmq_pop (sc_mq \<sigma>) = Inr (None, sc_mq \<sigma>)" using r globalmq_pop_Nil by blast
    have m: "mset (held (f None)) = mset (held (sc_thread \<sigma> t))" using assms(3) [of None] by simp
    then have "set (held (f None)) = set (held (sc_thread \<sigma> t))" "distinct (qs @ held (f None))"
      using d mset_eq_imp_distinct_iff [OF m] by (auto dest: mset_eq_setD)
    then have "sched_inv (set_thread t (f None) \<sigma> (sc_mq \<sigma>)) qs"
      using d assms(2,4) by (intro sched_inv_move [OF assms(1) r]) auto
    with p show ?thesis by blast
  next
    case (Cons b bs)
    with r obtain s where s: "skynet_globalmq_pop (sc_mq \<sigma>) = Inr (Some b, s)" "gq_repr s bs" "same_queues (sc_mq \<sigma>) s"
      using globalmq_pop_Cons by blast
    have m: "mset (held (f (Some b))) = mset (b # held (sc_thread \<sigma> t))" using assms(3) [of "Some b"] by simp
    then have "mset (bs @ held (f (Some b))) = mset (qs @ held (sc_thread \<sigma> t))" using Cons by simp
    then have "distinct (bs @ held (f (Some b)))" using d mset_eq_imp_distinct_iff by blast
    moreover have "set (held (f (Some b))) = insert b (set (held (sc_thread \<sigma> t)))"
      using mset_eq_setD [OF m] by simp
    ultimately have "sched_inv (set_thread t (f (Some b)) \<sigma> s) bs"
      using Cons assms(2,4) by (intro sched_inv_move [OF assms(1) s(2,3)]) auto
    with s(1) show ?thesis by blast
  qed
qed

text \<open>Steps that rewrite one queue and leave its ownership alone.\<close>

lemma live_store:
  "live (\<sigma>\<lparr>sc_mq := (sc_mq \<sigma>)\<lparr>mq_store := (mq_store (sc_mq \<sigma>))(a \<mapsto> q)\<rparr>\<rparr>) b
     = (if b = a then \<not> mq_release q else live \<sigma> b)"
  by (simp add: live_def)

lemma sched_inv_store:
  assumes "sched_inv \<sigma> qs" "mq_store (sc_mq \<sigma>) a = Some q" "mq_next q' = mq_next q" "mq_inv q'"
    and "\<not> mq_release q' \<Longrightarrow> \<not> mq_release q \<and> mq_in_global q' = mq_in_global q"
    and "mq_release q' \<or> mq_contents q' \<noteq> [] \<Longrightarrow> a \<in> owned qs (sc_thread \<sigma>)"
    and "mq_release q' \<Longrightarrow> \<forall>t. Running a \<notin> set (sc_thread \<sigma> t)"
  shows "sched_inv (\<sigma>\<lparr>sc_mq := (sc_mq \<sigma>)\<lparr>mq_store := (mq_store (sc_mq \<sigma>))(a \<mapsto> q')\<rparr>\<rparr>) qs"
proof -
  have inv: "gq_repr (sc_mq \<sigma>) qs" "exclusive qs (sc_thread \<sigma>)" "running_live \<sigma>"
    "store_ok (mq_store (sc_mq \<sigma>)) (owned qs (sc_thread \<sigma>))" "\<forall>t. sc_count \<sigma> \<le> t \<longrightarrow> sc_thread \<sigma> t = []"
    using assms(1) by (simp_all add: sched_inv_def)
  have "\<not> mq_release q \<Longrightarrow> mq_in_global q \<longleftrightarrow> a \<in> owned qs (sc_thread \<sigma>)"
    using inv(4) assms(2) unfolding store_ok_def by blast
  then have "store_ok ((mq_store (sc_mq \<sigma>))(a \<mapsto> q')) (owned qs (sc_thread \<sigma>))"
    using assms(4-6) by (intro store_ok_upd [OF inv(4)]) auto
  moreover have "running_live (\<sigma>\<lparr>sc_mq := (sc_mq \<sigma>)\<lparr>mq_store := (mq_store (sc_mq \<sigma>))(a \<mapsto> q')\<rparr>\<rparr>)"
    using inv(3) assms(7) by (auto simp: running_live_def live_store simp del: sched.update_convs)
  ultimately show ?thesis using inv gq_repr_upd [OF inv(1) assms(2,3)] by (simp add: sched_inv_def)
qed

text \<open>Waking up a queue nobody owns: it is rewritten and pushed.\<close>

lemma sched_inv_wake:
  assumes "sched_inv \<sigma> qs" "mq_store (sc_mq \<sigma>) a = Some q" "mq_next q' = mq_next q" "mq_inv q'"
    and "a \<notin> owned qs (sc_thread \<sigma>)" "\<not> mq_release q' \<Longrightarrow> mq_in_global q'"
  shows "\<exists>s. skynet_globalmq_push ((sc_mq \<sigma>)\<lparr>mq_store := (mq_store (sc_mq \<sigma>))(a \<mapsto> q')\<rparr>) a = Inr s
           \<and> sched_inv (\<sigma>\<lparr>sc_mq := s\<rparr>) (qs @ [a])"
proof -
  let ?s1 = "(sc_mq \<sigma>)\<lparr>mq_store := (mq_store (sc_mq \<sigma>))(a \<mapsto> q')\<rparr>"
  let ?own = "owned (qs @ [a]) (sc_thread \<sigma>)"
  have inv: "gq_repr (sc_mq \<sigma>) qs" "exclusive qs (sc_thread \<sigma>)" "running_live \<sigma>"
    "store_ok (mq_store (sc_mq \<sigma>)) (owned qs (sc_thread \<sigma>))" "\<forall>t. sc_count \<sigma> \<le> t \<longrightarrow> sc_thread \<sigma> t = []"
    using assms(1) by (simp_all add: sched_inv_def)
  have a: "a \<notin> set qs" "\<And>t. a \<notin> set (held (sc_thread \<sigma> t))" using assms(5) by (auto simp: owned_def)
  have "mq_store ?s1 a = Some q'" by simp
  from globalmq_push_repr [OF gq_repr_upd [OF inv(1) assms(2,3)] this a(1)] obtain s where
    s: "skynet_globalmq_push ?s1 a = Inr s" "gq_repr s (qs @ [a])" "same_queues ?s1 s" by blast
  have "store_ok (mq_store ?s1) ?own"
    using assms(4-6) by (simp, intro store_ok_upd [OF inv(4)]) (auto simp: owned_def)
  then have "store_ok (mq_store s) ?own" using store_ok_same [OF s(3)] by blast
  moreover have "exclusive (qs @ [a]) (sc_thread \<sigma>)" using inv(2) a by (auto simp: exclusive_def)
  moreover have "running_live (\<sigma>\<lparr>sc_mq := s\<rparr>)"
  proof -
    have "Running a \<notin> set (sc_thread \<sigma> t)" for t using a(2) [of t] by (auto simp: held_def)
    moreover have "live (\<sigma>\<lparr>sc_mq := s\<rparr>) b = live (\<sigma>\<lparr>sc_mq := ?s1\<rparr>) b" for b
      using same_queues_live [of "\<sigma>\<lparr>sc_mq := ?s1\<rparr>" s 0 "sc_thread \<sigma> 0"] s(3)
      by (auto simp: set_thread_def live_def fun_eq_iff)
    ultimately show ?thesis using inv(3) by (auto simp: running_live_def live_store)
  qed
  ultimately show ?thesis using s inv(5) by (auto simp: sched_inv_def)
qed

text \<open>Releasing a queue the thread holds: it is freed, or pushed back.\<close>

lemma sched_inv_release:
  assumes "sched_inv \<sigma> qs" "sc_thread \<sigma> t = x # st" "activity_queues x = [a]"
  shows "\<exists>dropped s qs'. skynet_mq_release (sc_mq \<sigma>) a = Inr (dropped, s) \<and> sched_inv (set_thread t st \<sigma> s) qs'"
proof -
  have inv: "gq_repr (sc_mq \<sigma>) qs" "exclusive qs (sc_thread \<sigma>)" "running_live \<sigma>"
    "store_ok (mq_store (sc_mq \<sigma>)) (owned qs (sc_thread \<sigma>))" "\<forall>t. sc_count \<sigma> \<le> t \<longrightarrow> sc_thread \<sigma> t = []"
    using assms(1) by (simp_all add: sched_inv_def)
  have r: "live \<sigma> b" if "Running b \<in> set st" for b using inv(3) assms(2) that unfolding running_live_def
    by (metis list.set_intros(2))
  have c: "t < sc_count \<sigma>" using inv(5) assms(2) by (metis list.distinct(1) not_le)
  obtain q where q: "mq_store (sc_mq \<sigma>) a = Some q" "mq_inv q" "a \<notin> set qs"
    using sched_inv_held [OF assms(1), of a t] assms(2,3) by auto
  show ?thesis
  proof (cases "mq_release q")
    case False
    then have "skynet_mq_release (sc_mq \<sigma>) a = rbind (skynet_globalmq_push (sc_mq \<sigma>) a) (\<lambda>s'. Inr ([], s'))"
      using q(1) by (simp add: skynet_mq_release_def)
    then show ?thesis using sched_inv_push [OF assms(1), of t a "held st" st] assms(2,3) c r by auto
  next
    case True
    let ?s = "(sc_mq \<sigma>)\<lparr>mq_store := (mq_store (sc_mq \<sigma>))(a := None)\<rparr>" and ?th = "(sc_thread \<sigma>)(t := st)"
    have rel: "skynet_mq_release (sc_mq \<sigma>) a = Inr (mq_contents q, ?s)"
      using mq_release_frees [OF inv(1) q(1,3,2) True] .
    have h: "held (sc_thread \<sigma> t) = a # held st" using assms(2,3) by simp
    have "distinct (a # held st)" using inv(2) h unfolding exclusive_def by metis
    moreover have o: "set (a # held st) \<inter> set (held (sc_thread \<sigma> u)) = {}" if "u \<noteq> t" for u
      using inv(2) h that unfolding exclusive_def by metis
    ultimately have d: "a \<notin> set (held st)" "distinct (held st)" "\<And>u. u \<noteq> t \<Longrightarrow> a \<notin> set (held (sc_thread \<sigma> u))"
      by auto
    have own: "owned qs ?th = owned qs (sc_thread \<sigma>) - {a}"
      using d q(3) assms(2,3) by (auto simp: owned_upd owned_split [of qs "sc_thread \<sigma>" t])
    have "store_ok (mq_store ?s) (owned qs ?th)"
      using store_ok_free [OF inv(4)] by (simp add: own)
    moreover have "exclusive qs ?th"
    proof -
      have "set (held (?th u)) \<subseteq> set (held (sc_thread \<sigma> u))" for u using h by (cases "u = t") auto
      moreover have "distinct (held (?th u))" for u using d(2) inv(2) by (cases "u = t") (auto simp: exclusive_def)
      ultimately show ?thesis using inv(2) unfolding exclusive_def by (metis Int_mono subset_empty subset_refl)
    qed
    moreover have "running_live (set_thread t st \<sigma> ?s)"
    proof -
      have "live (set_thread t st \<sigma> ?s) b = live \<sigma> b" if "b \<noteq> a" for b using that by (simp add: live_def set_thread_def)
      moreover have "Running a \<notin> set (?th u)" for u using d by (cases "u = t") (force simp: held_def)+
      moreover have "live \<sigma> b" if "Running b \<in> set (?th u)" for b u
        using that inv(3) r by (cases "u = t") (auto simp: running_live_def)
      moreover have "sc_thread (set_thread t st \<sigma> ?s) = ?th" by (simp add: set_thread_def)
      ultimately show ?thesis unfolding running_live_def by metis
    qed
    moreover have "gq_repr ?s qs" using gq_repr_free [OF inv(1) q(3)] .
    ultimately have "sched_inv (set_thread t st \<sigma> ?s) qs" using inv(5) c by (auto simp: sched_inv_def set_thread_def)
    with rel show ?thesis by blast
  qed
qed

text \<open>The worker finds the queue empty and lets go of it.\<close>

lemma sched_inv_let_go:
  assumes "sched_inv \<sigma> qs" "sc_thread \<sigma> t = Running a # st"
    and "mq_store (sc_mq \<sigma>) a = Some q" "mq_contents q = []"
    and q': "q' = q\<lparr>mq_overload_threshold := MQ_OVERLOAD, mq_in_global := False\<rparr>"
  shows "sched_inv (set_thread t st \<sigma> ((sc_mq \<sigma>)\<lparr>mq_store := (mq_store (sc_mq \<sigma>))(a \<mapsto> q')\<rparr>)) qs"
proof -
  let ?s = "(sc_mq \<sigma>)\<lparr>mq_store := (mq_store (sc_mq \<sigma>))(a \<mapsto> q')\<rparr>" and ?th = "(sc_thread \<sigma>)(t := st)"
  have inv: "gq_repr (sc_mq \<sigma>) qs" "exclusive qs (sc_thread \<sigma>)" "running_live \<sigma>"
    "store_ok (mq_store (sc_mq \<sigma>)) (owned qs (sc_thread \<sigma>))" "\<forall>t. sc_count \<sigma> \<le> t \<longrightarrow> sc_thread \<sigma> t = []"
    using assms(1) by (simp_all add: sched_inv_def)
  have "live \<sigma> a" using inv(3) assms(2) unfolding running_live_def by (metis list.set_intros(1))
  then have rel: "\<not> mq_release q" using assms(3) by (simp add: live_def)
  have minv: "mq_inv q" using inv(4) assms(3) unfolding store_ok_def by blast
  have h: "held (sc_thread \<sigma> t) = a # held st" using assms(2) by simp
  have "distinct (a # held st)" "a \<notin> set qs" using inv(2) h unfolding exclusive_def by (metis, metis disjoint_iff list.set_intros(1))
  moreover have "set (a # held st) \<inter> set (held (sc_thread \<sigma> u)) = {}" if "u \<noteq> t" for u
    using inv(2) h that unfolding exclusive_def by metis
  ultimately have d: "a \<notin> set (held st)" "distinct (held st)" "a \<notin> set qs" "\<And>u. u \<noteq> t \<Longrightarrow> a \<notin> set (held (sc_thread \<sigma> u))"
    by auto
  have own: "owned qs ?th = owned qs (sc_thread \<sigma>) - {a}"
    using d h by (auto simp: owned_upd owned_split [of qs "sc_thread \<sigma>" t])
  have "mq_inv q'" "mq_contents q' = []" using minv assms(4) by (simp_all add: q' mq_defs)
  then have "store_ok (mq_store ?s) (owned qs ?th)"
    using rel by (simp, intro store_ok_upd [OF inv(4)]) (auto simp: own q')
  moreover have "exclusive qs ?th"
  proof -
    have "set (held (?th u)) \<subseteq> set (held (sc_thread \<sigma> u))" for u using h by (cases "u = t") auto
    moreover have "distinct (held (?th u))" for u using d(2) inv(2) by (cases "u = t") (auto simp: exclusive_def)
    ultimately show ?thesis using inv(2) unfolding exclusive_def by (metis Int_mono subset_empty subset_refl)
  qed
  moreover have "running_live (set_thread t st \<sigma> ?s)"
  proof -
    have "live (set_thread t st \<sigma> ?s) b = live \<sigma> b" for b
      using assms(3) rel by (simp add: live_def set_thread_def q')
    moreover have "live \<sigma> b" if "Running b \<in> set (?th u)" for b u
      using that inv(3) assms(2) by (cases "u = t") (auto simp: running_live_def, metis list.set_intros(2))
    moreover have "sc_thread (set_thread t st \<sigma> ?s) = ?th" by (simp add: set_thread_def)
    ultimately show ?thesis unfolding running_live_def by metis
  qed
  moreover have "gq_repr ?s qs" using gq_repr_upd [OF inv(1) assms(3), of q'] by (simp add: q')
  moreover have "t < sc_count \<sigma>" using inv(5) assms(2) by (metis list.distinct(1) not_le)
  ultimately show ?thesis using inv(5) by (auto simp: sched_inv_def set_thread_def)
qed

text \<open>A launch creates a queue and owns it.\<close>

lemma sched_inv_launch:
  assumes "sched_inv \<sigma> qs" "mq_store (sc_mq \<sigma>) a = None" "t < sc_count \<sigma>"
  shows "sched_inv (set_thread t (Creating a # sc_thread \<sigma> t) \<sigma>
           ((sc_mq \<sigma>)\<lparr>mq_store := (mq_store (sc_mq \<sigma>))(a \<mapsto> skynet_mq_create h)\<rparr>)) qs"
proof -
  let ?s = "(sc_mq \<sigma>)\<lparr>mq_store := (mq_store (sc_mq \<sigma>))(a \<mapsto> skynet_mq_create h)\<rparr>"
  let ?th = "(sc_thread \<sigma>)(t := Creating a # sc_thread \<sigma> t)"
  have inv: "gq_repr (sc_mq \<sigma>) qs" "exclusive qs (sc_thread \<sigma>)" "running_live \<sigma>"
    "store_ok (mq_store (sc_mq \<sigma>)) (owned qs (sc_thread \<sigma>))" "\<forall>t. sc_count \<sigma> \<le> t \<longrightarrow> sc_thread \<sigma> t = []"
    using assms(1) by (simp_all add: sched_inv_def)
  have a: "a \<notin> owned qs (sc_thread \<sigma>)" using inv(4) assms(2) by (auto simp: store_ok_def)
  have own: "owned qs ?th = insert a (owned qs (sc_thread \<sigma>))"
    by (auto simp: owned_upd owned_split [of qs "sc_thread \<sigma>" t])
  have "store_ok (mq_store ?s) (owned qs ?th)"
    by (simp, intro store_ok_upd [OF inv(4)])
      (auto simp: own mq_inv_create mq_contents_create, simp_all add: skynet_mq_create_def)
  moreover have "exclusive qs ?th" using inv(2) a by (auto simp: exclusive_def owned_def)
  moreover have "running_live (set_thread t (Creating a # sc_thread \<sigma> t) \<sigma> ?s)"
  proof -
    have "b \<noteq> a \<Longrightarrow> live (set_thread t (Creating a # sc_thread \<sigma> t) \<sigma> ?s) b = live \<sigma> b" for b
      by (simp add: live_def set_thread_def)
    moreover have "live \<sigma> b" if "Running b \<in> set (?th u)" for b u
      using that inv(3) by (cases "u = t") (auto simp: running_live_def)
    moreover have "\<not> live \<sigma> a" using assms(2) by (simp add: live_def)
    moreover have "sc_thread (set_thread t (Creating a # sc_thread \<sigma> t) \<sigma> ?s) = ?th" by (simp add: set_thread_def)
    ultimately show ?thesis unfolding running_live_def by metis
  qed
  moreover have "gq_repr ?s qs" using gq_repr_new [OF inv(1) assms(2)] by (simp add: skynet_mq_create_def)
  ultimately show ?thesis using inv(5) assms(3) by (auto simp: sched_inv_def set_thread_def)
qed

section \<open>Every step is safe\<close>

definition safe :: "(c_error + 'm sched) \<Rightarrow> bool" where
  "safe r \<longleftrightarrow> (\<exists>\<sigma> qs. r = Inr \<sigma> \<and> sched_inv \<sigma> qs)"

lemma safe_Inr [simp]: "safe (Inr \<sigma>) \<longleftrightarrow> (\<exists>qs. sched_inv \<sigma> qs)" "\<not> safe (Inl e)"
  by (auto simp: safe_def)

lemma running_thread:
  assumes "sched_inv \<sigma> qs" "sc_thread \<sigma> t = x # st"
  shows "t < sc_count \<sigma>" "Running b \<in> set (x # st) \<Longrightarrow> live \<sigma> b"
proof -
  show "t < sc_count \<sigma>" using assms unfolding sched_inv_def by (metis list.distinct(1) not_le)
  show "Running b \<in> set (x # st) \<Longrightarrow> live \<sigma> b" using assms unfolding sched_inv_def running_live_def by metis
qed

lemma unowned:
  assumes "sched_inv \<sigma> qs" "mq_store (sc_mq \<sigma>) a = Some q" "\<not> mq_release q"
  shows "mq_in_global q \<longleftrightarrow> a \<in> owned qs (sc_thread \<sigma>)" "mq_inv q"
  using assms unfolding sched_inv_def store_ok_def by blast+

lemma safe_send: "sched_inv \<sigma> qs \<Longrightarrow> attempt (Send a m) \<sigma> = Some r \<Longrightarrow> safe r"
proof -
  assume inv: "sched_inv \<sigma> qs" and r: "attempt (Send a m) \<sigma> = Some r"
  from r obtain q where q: "mq_store (sc_mq \<sigma>) a = Some q" "\<not> mq_release q"
    and r': "r = rbind (skynet_mq_push (sc_mq \<sigma>) a m) (\<lambda>s. Inr (\<sigma>\<lparr>sc_mq := s\<rparr>))"
    by (auto simp: live_def split: if_splits option.splits)
  note u = unowned [OF inv q]
  show "safe r"
  proof (cases "mq_in_global q")
    case True
    then show ?thesis
      using sched_inv_store [OF inv q(1), of "mq_put m q"] u q mq_put_inv [OF u(2)]
      by (auto simp: r' skynet_mq_push_def Let_def)
  next
    case False
    then show ?thesis
      using sched_inv_wake [OF inv q(1), of "(mq_put m q)\<lparr>mq_in_global := True\<rparr>"] u q mq_put_inv [OF u(2)]
      by (auto simp: r' skynet_mq_push_def Let_def)
  qed
qed

lemma safe_delete: "sched_inv \<sigma> qs \<Longrightarrow> attempt (Delete a) \<sigma> = Some r \<Longrightarrow> safe r"
proof -
  assume inv: "sched_inv \<sigma> qs" and r: "attempt (Delete a) \<sigma> = Some r"
  from r obtain q where q: "mq_store (sc_mq \<sigma>) a = Some q" "\<not> mq_release q"
    and run: "\<forall>t < sc_count \<sigma>. Running a \<notin> set (sc_thread \<sigma> t)"
    and r': "r = rbind (skynet_mq_mark_release (sc_mq \<sigma>) a) (\<lambda>s. Inr (\<sigma>\<lparr>sc_mq := s\<rparr>))"
    by (auto simp: live_def split: if_splits option.splits)
  have no: "\<forall>t. Running a \<notin> set (sc_thread \<sigma> t)"
    using run inv unfolding sched_inv_def by (metis empty_iff list.set(1) not_le)
  note u = unowned [OF inv q]
  show "safe r"
  proof (cases "mq_in_global q")
    case True
    then show ?thesis
      using sched_inv_store [OF inv q(1), of "q\<lparr>mq_release := True\<rparr>"] u q no
      by (auto simp: r' skynet_mq_mark_release_def Let_def)
  next
    case False
    then show ?thesis
      using sched_inv_wake [OF inv q(1), of "q\<lparr>mq_release := True\<rparr>"] u q
      by (auto simp: r' skynet_mq_mark_release_def Let_def)
  qed
qed

lemma safe_pop_message: "sched_inv \<sigma> qs \<Longrightarrow> attempt (Pop_message t) \<sigma> = Some r \<Longrightarrow> safe r"
proof -
  assume inv: "sched_inv \<sigma> qs" and r: "attempt (Pop_message t) \<sigma> = Some r"
  from r obtain a st where th: "sc_thread \<sigma> t = Running a # st"
    by (auto split: list.splits activity.splits)
  have own: "a \<in> owned qs (sc_thread \<sigma>)" using th by (auto simp: owned_def intro!: exI [of _ t])
  obtain q where q: "mq_store (sc_mq \<sigma>) a = Some q" "\<not> mq_release q"
    using running_thread(2) [OF inv th, of a] by (auto simp: live_def split: option.splits)
  note u = unowned [OF inv q]
  show "safe r"
  proof (cases "mq_contents q")
    case Nil
    then have "r = Inr (set_thread t st \<sigma> ((sc_mq \<sigma>)\<lparr>mq_store := (mq_store (sc_mq \<sigma>))(a \<mapsto>
        q\<lparr>mq_overload_threshold := MQ_OVERLOAD, mq_in_global := False\<rparr>)\<rparr>))"
      using r th q(1) u(2) by (simp add: skynet_mq_pop_empty)
    then show ?thesis using sched_inv_let_go [OF inv th q(1) Nil refl] by auto
  next
    case (Cons x xs)
    obtain q' where q': "skynet_mq_pop q = Inr (0, Some x, q')" "mq_inv q'" "mq_release q' = mq_release q"
      "mq_in_global q' = mq_in_global q" "mq_next q' = mq_next q"
      using skynet_mq_pop_cons [OF u(2) Cons] by blast
    let ?\<sigma> = "\<sigma>\<lparr>sc_mq := (sc_mq \<sigma>)\<lparr>mq_store := (mq_store (sc_mq \<sigma>))(a \<mapsto> q')\<rparr>\<rparr>"
    have "r = Inr (set_thread t (Running a # st) \<sigma> (sc_mq ?\<sigma>))" using r th q(1) q'(1) by simp
    moreover have "set_thread t (Running a # st) \<sigma> (sc_mq ?\<sigma>) = ?\<sigma>"
      using th by (simp add: set_thread_def fun_upd_idem)
    ultimately have "r = Inr ?\<sigma>" by simp
    then show ?thesis using sched_inv_store [OF inv q(1) q'(5,2)] q(2) q'(3,4) own by auto
  qed
qed

lemma safe_attempt: "sched_inv \<sigma> qs \<Longrightarrow> attempt act \<sigma> = Some r \<Longrightarrow> safe r"
proof (cases act)
  case (Send a m)
  then show "sched_inv \<sigma> qs \<Longrightarrow> attempt act \<sigma> = Some r \<Longrightarrow> safe r" using safe_send by metis
next
  case (Delete a)
  then show "sched_inv \<sigma> qs \<Longrightarrow> attempt act \<sigma> = Some r \<Longrightarrow> safe r" using safe_delete by metis
next
  case (Pop_message a)
  then show "sched_inv \<sigma> qs \<Longrightarrow> attempt act \<sigma> = Some r \<Longrightarrow> safe r" using safe_pop_message by metis
next
  case (Launch t a h)
  assume "sched_inv \<sigma> qs" "attempt act \<sigma> = Some r"
  with Launch sched_inv_launch [of \<sigma> qs a t h] show "safe r" by (auto split: if_splits)
next
  case (Launched t)
  assume inv: "sched_inv \<sigma> qs" and "attempt act \<sigma> = Some r"
  with Launched obtain a st where th: "sc_thread \<sigma> t = Creating a # st"
    and r: "r = rbind (skynet_globalmq_push (sc_mq \<sigma>) a) (\<lambda>s. Inr (set_thread t st \<sigma> s))"
    by (auto split: list.splits activity.splits)
  show "safe r" using sched_inv_push [OF inv, of t a "held st" st] th running_thread [OF inv th] by (auto simp: r)
next
  case (Launch_failed t)
  assume inv: "sched_inv \<sigma> qs" and "attempt act \<sigma> = Some r"
  with Launch_failed obtain a st where th: "sc_thread \<sigma> t = Creating a # st"
    and r: "r = rbind (skynet_mq_release (sc_mq \<sigma>) a) (\<lambda>(dropped, s). Inr (set_thread t st \<sigma> s))"
    by (auto split: list.splits activity.splits)
  show "safe r" using sched_inv_release [OF inv th, of a] by (auto simp: r)
next
  case (Gone t)
  assume inv: "sched_inv \<sigma> qs" and "attempt act \<sigma> = Some r"
  with Gone obtain a st where th: "sc_thread \<sigma> t = Holding a # st"
    and r: "r = rbind (skynet_mq_release (sc_mq \<sigma>) a) (\<lambda>(dropped, s). Inr (set_thread t st \<sigma> s))"
    by (auto split: list.splits activity.splits)
  show "safe r" using sched_inv_release [OF inv th, of a] by (auto simp: r)
next
  case (Take t)
  assume inv: "sched_inv \<sigma> qs" and "attempt act \<sigma> = Some r"
  with Take have th: "sc_thread \<sigma> t = []" "t < sc_count \<sigma>"
    and r: "r = rbind (skynet_globalmq_pop (sc_mq \<sigma>)) (\<lambda>(q, s).
          Inr (set_thread t (case q of None \<Rightarrow> [] | Some a \<Rightarrow> [Holding a]) \<sigma> s))"
    by (auto split: list.splits if_splits)
  have "\<exists>q s qs'. skynet_globalmq_pop (sc_mq \<sigma>) = Inr (q, s)
      \<and> sched_inv (set_thread t (case q of None \<Rightarrow> [] | Some a \<Rightarrow> [Holding a]) \<sigma> s) qs'"
    using th by (intro sched_inv_pop [OF inv]) (auto split: option.splits)
  then show "safe r" by (auto simp: r)
next
  case (Grab t)
  assume inv: "sched_inv \<sigma> qs" and "attempt act \<sigma> = Some r"
  with Grab obtain a st where th: "sc_thread \<sigma> t = Holding a # st" and l: "live \<sigma> a"
    and r: "r = Inr (set_thread t (Running a # st) \<sigma> (sc_mq \<sigma>))"
    by (auto split: list.splits activity.splits if_splits)
  have "gq_repr (sc_mq \<sigma>) qs" using inv by (simp add: sched_inv_def)
  then have "sched_inv (set_thread t (Running a # st) \<sigma> (sc_mq \<sigma>)) qs"
    using sched_inv_distinct [OF inv, of t] th running_thread [OF inv th] l
    by (intro sched_inv_move [OF inv]) auto
  then show "safe r" by (auto simp: r)
next
  case (End_round t)
  assume inv: "sched_inv \<sigma> qs" and "attempt act \<sigma> = Some r"
  with End_round obtain a st where th: "sc_thread \<sigma> t = Running a # st"
    and r: "r = rbind (skynet_globalmq_pop (sc_mq \<sigma>)) (\<lambda>(nq, s).
          Inr (set_thread t (case nq of None \<Rightarrow> Holding a # st | Some b \<Rightarrow> Swapping a b # st) \<sigma> s))"
    by (auto split: list.splits activity.splits)
  have "\<exists>nq s qs'. skynet_globalmq_pop (sc_mq \<sigma>) = Inr (nq, s)
      \<and> sched_inv (set_thread t (case nq of None \<Rightarrow> Holding a # st | Some b \<Rightarrow> Swapping a b # st) \<sigma> s) qs'"
    using th running_thread [OF inv th] by (intro sched_inv_pop [OF inv]) (auto split: option.splits)
  then show "safe r" by (auto simp: r)
next
  case (Put_back t)
  assume inv: "sched_inv \<sigma> qs" and "attempt act \<sigma> = Some r"
  with Put_back obtain a b st where th: "sc_thread \<sigma> t = Swapping a b # st"
    and r: "r = rbind (skynet_globalmq_push (sc_mq \<sigma>) a) (\<lambda>s. Inr (set_thread t (Holding b # st) \<sigma> s))"
    by (auto split: list.splits activity.splits)
  show "safe r"
    using sched_inv_push [OF inv, of t a "b # held st" "Holding b # st"] th running_thread [OF inv th]
    by (auto simp: r)
qed

lemma links_unique: "links st p as \<Longrightarrow> links st p bs \<Longrightarrow> as = bs"
  by (induction as arbitrary: p bs; case_tac bs) (auto split: option.splits)

lemma gq_repr_unique: "gq_repr s as \<Longrightarrow> gq_repr s bs \<Longrightarrow> as = bs"
  by (auto simp: gq_repr_def intro: links_unique)

lemma sched_inv_init: "sched_inv (sched_init n) []"
  by (simp add: sched_inv_def sched_init_def gq_repr_init exclusive_def owned_def store_ok_def
      running_live_def skynet_mq_init_def gq_repr_init [unfolded skynet_mq_init_def])

lemma sched_reach_inv: "sched_reach \<sigma> \<Longrightarrow> \<exists>qs. sched_inv \<sigma> qs"
proof (induction rule: sched_reach.induct)
  case (init n)
  then show ?case using sched_inv_init by blast
next
  case (step \<sigma> act \<sigma>')
  then show ?case using safe_attempt by fastforce
qed

section \<open>Properties\<close>

text \<open>
  C1: the workers never fault. From any reachable state of the scheduler, whatever thread does
  whatever comes next for it, no assertion of the queue code fails, no freed queue is
  touched, and no slot is read that was not written.
\<close>

theorem sched_never_faults:
  "sched_reach \<sigma> \<Longrightarrow> attempt act \<sigma> \<noteq> Some (Inl e)"
  using sched_reach_inv [of \<sigma>] safe_attempt [of \<sigma> _ act "Inl e"] by auto

definition example_sched :: "nat sched" where
  "example_sched = sched_init 2"

theorem sched_never_faults_witness:
  "sched_reach example_sched \<and> attempt (Take 0) example_sched \<noteq> Some (Inl Assert_failed)"
proof
  show r: "sched_reach example_sched" unfolding example_sched_def by (rule sched_reach.init)
  show "attempt (Take 0) example_sched \<noteq> Some (Inl Assert_failed)" by (rule sched_never_faults [OF r])
qed

text \<open>
  C2: a service is never run by two threads at once. In a reachable state no queue is held by
  two threads, nor held by a thread while it is linked in the global queue, where another
  worker could take it.
\<close>

theorem sched_mutual_exclusion:
  assumes "sched_reach \<sigma>" "a \<in> set (held (sc_thread \<sigma> t))"
  shows "(\<forall>t'. a \<in> set (held (sc_thread \<sigma> t')) \<longrightarrow> t' = t)
    \<and> (\<forall>qs. gq_repr (sc_mq \<sigma>) qs \<longrightarrow> a \<notin> set qs)"
proof -
  obtain qs where inv: "sched_inv \<sigma> qs" using sched_reach_inv [OF assms(1)] by blast
  have "qs' = qs" if "gq_repr (sc_mq \<sigma>) qs'" for qs'
    using inv that gq_repr_unique unfolding sched_inv_def by blast
  moreover have "a \<notin> set qs" using inv assms(2) unfolding sched_inv_def exclusive_def by blast
  moreover have "t' = t" if "a \<in> set (held (sc_thread \<sigma> t'))" for t'
    using inv assms(2) that unfolding sched_inv_def exclusive_def by blast
  ultimately show ?thesis by blast
qed

definition example_running :: "nat sched" where
  "example_running =
     set_thread 0 [Creating 5] (sched_init 2) (skynet_mq_init\<lparr>mq_store := [5 \<mapsto> skynet_mq_create 7]\<rparr>)"

lemma example_running_reach: "sched_reach example_running"
  by (rule sched_reach.step [OF sched_reach.init [of 2], of "Launch 0 5 7"])
    (simp add: example_running_def sched_init_def launch_site_def skynet_mq_init_def)

theorem sched_mutual_exclusion_witness:
  "5 \<in> set (held (sc_thread example_running 0)) \<and> 5 \<notin> set (held (sc_thread example_running 1))"
  using sched_mutual_exclusion [OF example_running_reach, of 5 0]
  by (force simp: example_running_def set_thread_def sched_init_def)

text \<open>
  C3: no wakeup is lost. In a reachable state every queue that holds a message, and every queue
  marked for release, is linked in the global queue or held by a thread.
\<close>

theorem sched_no_lost_wakeup:
  assumes "sched_reach \<sigma>" "mq_store (sc_mq \<sigma>) a = Some q" "mq_contents q \<noteq> [] \<or> mq_release q"
  shows "\<exists>qs. gq_repr (sc_mq \<sigma>) qs \<and> (a \<in> set qs \<or> (\<exists>t < sc_count \<sigma>. a \<in> set (held (sc_thread \<sigma> t))))"
proof -
  obtain qs where inv: "sched_inv \<sigma> qs" using sched_reach_inv [OF assms(1)] by blast
  then have "a \<in> owned qs (sc_thread \<sigma>)" using assms(2,3) unfolding sched_inv_def store_ok_def by blast
  then have "a \<in> set qs \<or> (\<exists>t. a \<in> set (held (sc_thread \<sigma> t)))" by (simp add: owned_def)
  moreover have "t < sc_count \<sigma>" if "a \<in> set (held (sc_thread \<sigma> t))" for t
    using that inv unfolding sched_inv_def by (metis empty_iff held_simps(1) list.set(1) not_le)
  moreover have "gq_repr (sc_mq \<sigma>) qs" using inv by (simp add: sched_inv_def)
  ultimately show ?thesis by blast
qed

definition example_waiting :: "nat sched" where
  "example_waiting =
     example_running\<lparr>sc_mq := skynet_mq_init\<lparr>mq_store := [5 \<mapsto> mq_put 9 (skynet_mq_create 7)]\<rparr>\<rparr>"

theorem sched_no_lost_wakeup_witness:
  "\<exists>qs. gq_repr (sc_mq example_waiting) qs
    \<and> (5 \<in> set qs \<or> (\<exists>t < sc_count example_waiting. 5 \<in> set (held (sc_thread example_waiting t))))"
proof (rule sched_no_lost_wakeup)
  show "sched_reach example_waiting"
    by (rule sched_reach.step [OF example_running_reach, of "Send 5 9"])
      (simp add: example_running_def example_waiting_def set_thread_def live_def skynet_mq_push_def
        skynet_mq_create_def mq_put_def expand_queue_def Let_def skynet_mq_init_def DEFAULT_QUEUE_SIZE_def)
  show "mq_store (sc_mq example_waiting) 5 = Some (mq_put 9 (skynet_mq_create 7))"
    by (simp add: example_waiting_def)
  show "mq_contents (mq_put 9 (skynet_mq_create 7)) \<noteq> [] \<or> mq_release (mq_put 9 (skynet_mq_create 7))"
    by (simp add: mq_put_contents mq_inv_create)
qed

end
