(* ===== verification/Handle.thy ===== *)
theory Handle
  imports Prelude
begin

text \<open>
  The handle table of \<^verbatim>\<open>skynet-src/skynet_handle.c\<close>: an open-addressed array from 32-bit
  handles to service contexts that doubles when it is full, and the sorted array of local
  names searched by bisection. A context is an address; the handle it carries
  (\<^verbatim>\<open>skynet_context_handle\<close>) is a function \<open>hof\<close> of the address, which the operations that
  read it take as an argument. The read-write lock brackets every operation.
\<close>

section \<open>Data\<close>

definition DEFAULT_SLOT_SIZE :: nat where "DEFAULT_SLOT_SIZE = 4"
definition MAX_SLOT_SIZE :: nat where "MAX_SLOT_SIZE = 0x40000000"
definition HANDLE_MASK :: u32 where "HANDLE_MASK = 0xffffff"
definition HANDLE_REMOTE_SHIFT :: nat where "HANDLE_REMOTE_SHIFT = 24"

type_synonym ctx = nat

record handle_name =
  hn_name :: cstring
  hn_handle :: u32

text \<open>
  \<^verbatim>\<open>struct handle_storage\<close>: \<^verbatim>\<open>slot_size\<close> is the length of the slot array, \<^verbatim>\<open>name_count\<close> the
  length of the list of names (the array behind it has \<^verbatim>\<open>name_cap\<close> entries).
\<close>

record handle_storage =
  hs_harbor :: u32
  hs_handle_index :: u32
  hs_slot :: "ctx option list"
  hs_name_cap :: nat
  hs_name :: "handle_name list"

abbreviation slot_size :: "handle_storage \<Rightarrow> nat" where
  "slot_size s \<equiv> length (hs_slot s)"

definition skynet_handle_init :: "int \<Rightarrow> handle_storage" where
  "skynet_handle_init harbor =
     \<lparr>hs_harbor = push_bit HANDLE_REMOTE_SHIFT (word_of_int harbor AND 0xff), hs_handle_index = 1,
      hs_slot = replicate DEFAULT_SLOT_SIZE None, hs_name_cap = 2, hs_name = []\<rparr>"

section \<open>Registering a context\<close>

text \<open>\<^verbatim>\<open>handle & (slot_size-1)\<close>, used as an array index.\<close>

definition slot_hash :: "u32 \<Rightarrow> nat \<Rightarrow> nat" where
  "slot_hash h n = unat (h AND of_nat (n - 1))"

text \<open>
  The inner loop of \<^verbatim>\<open>skynet_handle_register\<close> from index \<open>i\<close> on, with \<open>n\<close> iterations left:
  the first handle whose slot is free.
\<close>

fun scan_slots :: "handle_storage \<Rightarrow> nat \<Rightarrow> nat \<Rightarrow> u32 option" where
  "scan_slots s i 0 = None"
| "scan_slots s i (Suc n) =
     (let handle = (of_nat i + hs_handle_index s) AND HANDLE_MASK
      in if hs_slot s ! slot_hash handle (slot_size s) = None then Some handle
         else scan_slots s (Suc i) n)"

text \<open>The copy into the array of twice the size; an empty slot would dereference null.\<close>

fun rehash :: "(ctx \<Rightarrow> u32) \<Rightarrow> nat \<Rightarrow> ctx option list \<Rightarrow> ctx option list \<Rightarrow> c_error + ctx option list" where
  "rehash hof n [] ns = Inr ns"
| "rehash hof n (None # xs) ns = Inl Use_after_free"
| "rehash hof n (Some c # xs) ns =
     (let hash = slot_hash (hof c) n
      in rbind (c_assert (ns ! hash = None)) (\<lambda>_. rehash hof n xs (ns[hash := Some c])))"

lemma length_rehash: "rehash hof n xs ns = Inr ns' \<Longrightarrow> length ns' = length ns"
  by (induction hof n xs ns rule: rehash.induct) (auto simp: Let_def rbind_eq_Inr)

function skynet_handle_register ::
  "(ctx \<Rightarrow> u32) \<Rightarrow> handle_storage \<Rightarrow> ctx \<Rightarrow> c_error + (u32 \<times> handle_storage)" where
  "skynet_handle_register hof s c =
     (case scan_slots s 0 (slot_size s) of
        Some handle \<Rightarrow>
          Inr (handle OR hs_harbor s,
               s\<lparr>hs_slot := (hs_slot s)[slot_hash handle (slot_size s) := Some c],
                 hs_handle_index := handle + 1\<rparr>)
      | None \<Rightarrow>
          if slot_size s = 0 then Inl Diverges
          else if unat HANDLE_MASK < slot_size s * 2 - 1 then Inl Assert_failed
          else rbind (rehash hof (slot_size s * 2) (hs_slot s) (replicate (slot_size s * 2) None)) (\<lambda>ns.
                 skynet_handle_register hof (s\<lparr>hs_slot := ns\<rparr>) c))"
  by pat_completeness auto
termination
  by (relation "measure (\<lambda>(hof, s, c). 2 * unat HANDLE_MASK - slot_size s)")
    (auto dest!: length_rehash simp: HANDLE_MASK_def simp flip: length_greater_0_conv)

declare skynet_handle_register.simps [simp del]

section \<open>Looking a handle up, retiring it\<close>

definition skynet_handle_grab :: "(ctx \<Rightarrow> u32) \<Rightarrow> handle_storage \<Rightarrow> u32 \<Rightarrow> ctx option" where
  "skynet_handle_grab hof s handle =
     (case hs_slot s ! slot_hash handle (slot_size s) of
        Some c \<Rightarrow> if hof c = handle then Some c else None
      | None \<Rightarrow> None)"

text \<open>
  \<^verbatim>\<open>skynet_handle_retire\<close>: the return value, the context to release after the lock was
  dropped, and the storage. The compacting loop over the names keeps the others in order.
\<close>

definition skynet_handle_retire ::
  "(ctx \<Rightarrow> u32) \<Rightarrow> handle_storage \<Rightarrow> u32 \<Rightarrow> int \<times> ctx option \<times> handle_storage" where
  "skynet_handle_retire hof s handle =
     (let hash = slot_hash handle (slot_size s)
      in case hs_slot s ! hash of
           Some c \<Rightarrow>
             if hof c = handle
             then (1, Some c,
                   s\<lparr>hs_slot := (hs_slot s)[hash := None],
                     hs_name := filter (\<lambda>n. hn_handle n \<noteq> handle) (hs_name s)\<rparr>)
             else (0, None, s)
         | None \<Rightarrow> (0, None, s))"

text \<open>One pass of \<^verbatim>\<open>skynet_handle_retireall\<close> over the slots, then the repetition until a pass
  retires nothing. The result lists the contexts released.\<close>

fun retire_pass ::
  "(ctx \<Rightarrow> u32) \<Rightarrow> handle_storage \<Rightarrow> nat list \<Rightarrow> ctx list \<times> handle_storage" where
  "retire_pass hof s [] = ([], s)"
| "retire_pass hof s (i # js) =
     (let handle = (case hs_slot s ! i of Some c \<Rightarrow> hof c | None \<Rightarrow> 0)
      in if handle \<noteq> 0
         then (case skynet_handle_retire hof s handle of
                 (ret, c, s') \<Rightarrow>
                   (case retire_pass hof s' js of
                      (cs, s'') \<Rightarrow> (if ret \<noteq> 0 then the c # cs else cs, s'')))
         else retire_pass hof s js)"

fun skynet_handle_retireall :: "nat \<Rightarrow> (ctx \<Rightarrow> u32) \<Rightarrow> handle_storage \<Rightarrow> (ctx list \<times> handle_storage) option" where
  "skynet_handle_retireall 0 hof s = None"
| "skynet_handle_retireall (Suc fuel) hof s =
     (case retire_pass hof s [0..<slot_size s] of
        (cs, s') \<Rightarrow>
          if cs = [] then Some ([], s')
          else map_option (\<lambda>(ds, s''). (cs @ ds, s'')) (skynet_handle_retireall fuel hof s'))"

section \<open>Names\<close>

text \<open>The sign of \<^verbatim>\<open>strcmp\<close> on byte strings without their terminating zero.\<close>

fun strcmp :: "cstring \<Rightarrow> cstring \<Rightarrow> int" where
  "strcmp [] [] = 0"
| "strcmp [] (y # ys) = -1"
| "strcmp (x # xs) [] = 1"
| "strcmp (x # xs) (y # ys) = (if x = y then strcmp xs ys else if x < y then -1 else 1)"

datatype search = Found nat | Missing nat

text \<open>The bisection loop of \<^verbatim>\<open>skynet_handle_findname\<close> and \<^verbatim>\<open>_insert_name\<close>.\<close>

function name_search :: "handle_name list \<Rightarrow> cstring \<Rightarrow> int \<Rightarrow> int \<Rightarrow> search" where
  "name_search ns name lo hi =
     (if lo \<le> hi then
        (let mid = (lo + hi) div 2;
             c = strcmp (hn_name (ns ! nat mid)) name
         in if c = 0 then Found (nat mid)
            else if c < 0 then name_search ns name (mid + 1) hi
            else name_search ns name lo (mid - 1))
      else Missing (nat lo))"
  by pat_completeness auto
termination
  by (relation "measure (\<lambda>(ns, name, b, e). nat (e - b + 1))") auto

declare name_search.simps [simp del]

definition skynet_handle_findname :: "handle_storage \<Rightarrow> cstring \<Rightarrow> u32" where
  "skynet_handle_findname s name =
     (case name_search (hs_name s) name 0 (int (length (hs_name s)) - 1) of
        Found i \<Rightarrow> hn_handle (hs_name s ! i)
      | Missing _ \<Rightarrow> 0)"

definition insert_name_before ::
  "handle_storage \<Rightarrow> cstring \<Rightarrow> u32 \<Rightarrow> nat \<Rightarrow> c_error + handle_storage" where
  "insert_name_before s name handle before =
     (let ns = take before (hs_name s) @ \<lparr>hn_name = name, hn_handle = handle\<rparr> # drop before (hs_name s)
      in if hs_name_cap s \<le> length (hs_name s)
         then rbind (c_assert (hs_name_cap s * 2 \<le> MAX_SLOT_SIZE)) (\<lambda>_.
                Inr (s\<lparr>hs_name_cap := hs_name_cap s * 2, hs_name := ns\<rparr>))
         else Inr (s\<lparr>hs_name := ns\<rparr>))"

definition insert_name ::
  "handle_storage \<Rightarrow> cstring \<Rightarrow> u32 \<Rightarrow> c_error + (cstring option \<times> handle_storage)" where
  "insert_name s name handle =
     (case name_search (hs_name s) name 0 (int (length (hs_name s)) - 1) of
        Found _ \<Rightarrow> Inr (None, s)
      | Missing b \<Rightarrow> rbind (insert_name_before s name handle b) (\<lambda>s'. Inr (Some name, s')))"

definition skynet_handle_namehandle ::
  "handle_storage \<Rightarrow> u32 \<Rightarrow> cstring \<Rightarrow> c_error + (cstring option \<times> handle_storage)" where
  "skynet_handle_namehandle s handle name = insert_name s name handle"

section \<open>The handle table\<close>

lemma slot_hash_pow2: "slot_hash h (2 ^ k) = unat h mod 2 ^ k"
  unfolding slot_hash_def of_nat_mask by (rule unat_and_mask)

lemma HANDLE_MASK_mask: "HANDLE_MASK = mask 24"
  by (simp add: HANDLE_MASK_def mask_eq_exp_minus_1)

lemma bit_HANDLE_MASK: "bit HANDLE_MASK n \<longleftrightarrow> n < 24"
  by (auto simp: HANDLE_MASK_mask bit_mask_iff)

text \<open>
  The invariant of the table, for the handles \<open>hof\<close> the contexts carry: the size is a power
  of two no larger than the handle space, and every context sits in the slot of its handle
  and carries the node's harbor id in the high byte.
\<close>

definition slots_ok :: "(ctx \<Rightarrow> u32) \<Rightarrow> handle_storage \<Rightarrow> bool" where
  "slots_ok hof s \<longleftrightarrow>
     (\<exists>k. 2 \<le> k \<and> k \<le> 24 \<and> slot_size s = 2 ^ k)
     \<and> hs_harbor s AND HANDLE_MASK = 0
     \<and> (\<forall>i < slot_size s. \<forall>c. hs_slot s ! i = Some c \<longrightarrow>
          slot_hash (hof c) (slot_size s) = i \<and> hof c AND NOT HANDLE_MASK = hs_harbor s)"

lemma slots_okE:
  assumes "slots_ok hof s"
  obtains k where "2 \<le> k" "k \<le> 24" "slot_size s = 2 ^ k" "\<And>h. slot_hash h (slot_size s) = unat h mod 2 ^ k"
    "\<And>h. slot_hash h (slot_size s) < slot_size s"
proof -
  from assms obtain k where k: "2 \<le> k" "k \<le> 24" "slot_size s = 2 ^ k"
    unfolding slots_ok_def by blast
  then have "slot_hash h (slot_size s) = unat h mod 2 ^ k" for h by (simp add: slot_hash_pow2)
  with k that [of k] show thesis by simp
qed

lemma slots_ok_slot: "slots_ok hof s \<Longrightarrow> i < slot_size s \<Longrightarrow> hs_slot s ! i = Some c \<Longrightarrow>
    slot_hash (hof c) (slot_size s) = i"
  by (simp add: slots_ok_def)

lemma grab_iff:
  assumes "slots_ok hof s"
  shows "skynet_handle_grab hof s h = Some c \<longleftrightarrow> Some c \<in> set (hs_slot s) \<and> hof c = h"
proof
  assume "skynet_handle_grab hof s h = Some c"
  then have "hs_slot s ! slot_hash h (slot_size s) = Some c" "hof c = h"
    by (auto simp: skynet_handle_grab_def split: option.splits if_splits)
  moreover have "slot_hash h (slot_size s) < slot_size s" using assms by (elim slots_okE)
  ultimately show "Some c \<in> set (hs_slot s) \<and> hof c = h" by (metis nth_mem)
next
  assume a: "Some c \<in> set (hs_slot s) \<and> hof c = h"
  then obtain i where "i < slot_size s" "hs_slot s ! i = Some c" by (auto simp: in_set_conv_nth)
  with slots_ok_slot [OF assms] have "hs_slot s ! slot_hash (hof c) (slot_size s) = Some c" by metis
  with a show "skynet_handle_grab hof s h = Some c" by (auto simp: skynet_handle_grab_def)
qed

lemma grab_eqI:
  assumes "\<And>c. skynet_handle_grab hof s h = Some c \<longleftrightarrow> skynet_handle_grab hof' s' h' = Some c"
  shows "skynet_handle_grab hof s h = skynet_handle_grab hof' s' h'"
  using assms by (metis not_Some_eq)

lemma scan_slots_Some:
  "scan_slots s i n = Some h \<Longrightarrow>
   hs_slot s ! slot_hash h (slot_size s) = None \<and> h AND HANDLE_MASK = h"
  by (induction s i n rule: scan_slots.induct) (auto simp: Let_def and.assoc split: if_splits)

lemma scan_slots_None:
  "scan_slots s i n = None \<Longrightarrow> j < n \<Longrightarrow>
   hs_slot s ! slot_hash ((of_nat (i + j) + hs_handle_index s) AND HANDLE_MASK) (slot_size s) \<noteq> None"
proof (induction s i n arbitrary: j rule: scan_slots.induct)
  case (2 s i n)
  show ?case
  proof (cases j)
    case 0
    with 2 show ?thesis by (auto simp: Let_def split: if_splits)
  next
    case (Suc j')
    with 2 show ?thesis by (auto simp: Let_def split: if_splits)
  qed
qed simp

text \<open>A failed scan has visited every slot: the table is full.\<close>

lemma scan_slots_full:
  assumes "slots_ok hof s" "scan_slots s 0 (slot_size s) = None"
  shows "None \<notin> set (hs_slot s)"
proof
  assume "None \<in> set (hs_slot s)"
  then obtain i where i: "i < slot_size s" "hs_slot s ! i = None" by (auto simp: in_set_conv_nth)
  obtain k where k: "k \<le> 24" "slot_size s = 2 ^ k" and hash: "\<And>h. slot_hash h (slot_size s) = unat h mod 2 ^ k"
    using slots_okE [OF assms(1)] by metis
  let ?x = "unat (hs_handle_index s)"
  define j where "j = (i + (2 ^ k - ?x mod 2 ^ k)) mod 2 ^ k"
  have j: "j < 2 ^ k" by (simp add: j_def)
  have "(j + ?x) mod 2 ^ k = (i + (2 ^ k - ?x mod 2 ^ k) + ?x mod 2 ^ k) mod 2 ^ k"
    by (simp add: j_def mod_simps)
  also have "\<dots> = i"
  proof -
    have "?x mod 2 ^ k < 2 ^ k" by simp
    then have "i + (2 ^ k - ?x mod 2 ^ k) + ?x mod 2 ^ k = i + 2 ^ k" by linarith
    then show ?thesis using i k by simp
  qed
  finally have jx: "(j + ?x) mod 2 ^ k = i" .
  have "(2::nat) ^ k \<le> 2 ^ 24" using k by (intro power_increasing) simp_all
  then have "unat (of_nat j :: u32) = j" using j by (simp add: unat_of_nat)
  then have "unat ((of_nat j + hs_handle_index s) AND HANDLE_MASK) mod 2 ^ k = i"
    using jx k mod_mod_pow2 [of k 24 "(j + ?x) mod 2 ^ 32"] mod_mod_pow2 [of k 32 "j + ?x"]
    by (simp add: HANDLE_MASK_mask unat_and_mask unat_add_mod)
  with scan_slots_None [OF assms(2), of j] hash i j k show False by simp
qed

lemma rehash_spec:
  assumes "None \<notin> set xs"
    and "distinct (map (\<lambda>x. slot_hash (hof (the x)) n) xs)"
    and "\<And>c. Some c \<in> set xs \<Longrightarrow> slot_hash (hof c) n < length ns \<and> ns ! slot_hash (hof c) n = None"
  shows "\<exists>ns'. rehash hof n xs ns = Inr ns' \<and>
           (\<forall>j < length ns. \<forall>c. ns' ! j = Some c \<longleftrightarrow>
              ns ! j = Some c \<or> Some c \<in> set xs \<and> slot_hash (hof c) n = j)"
  using assms
proof (induction xs arbitrary: ns)
  case Nil
  then show ?case by simp
next
  case (Cons x xs)
  then obtain c where x: "x = Some c" by (cases x) auto
  let ?h = "slot_hash (hof c) n"
  have h: "?h < length ns" "ns ! ?h = None" using Cons.prems x by auto
  have neq: "slot_hash (hof d) n \<noteq> ?h" if "Some d \<in> set xs" for d
    using Cons.prems(2) x that by force
  have "\<exists>ns'. rehash hof n xs (ns[?h := Some c]) = Inr ns' \<and>
           (\<forall>j < length ns. \<forall>d. ns' ! j = Some d \<longleftrightarrow>
              ns[?h := Some c] ! j = Some d \<or> Some d \<in> set xs \<and> slot_hash (hof d) n = j)"
  proof -
    have "slot_hash (hof d) n < length (ns[?h := Some c]) \<and> ns[?h := Some c] ! slot_hash (hof d) n = None"
      if "Some d \<in> set xs" for d
      using Cons.prems(3) [of d] neq [of d] that by simp
    with Cons.IH [of "ns[?h := Some c]"] Cons.prems show ?thesis by simp
  qed
  with x h show ?case by (auto simp: nth_list_update)
qed

lemma rehash_full_table:
  assumes ok: "slots_ok hof s" and full: "None \<notin> set (hs_slot s)"
    and room: "slot_size s * 2 \<le> 2 ^ 24"
  shows "\<exists>ns. rehash hof (slot_size s * 2) (hs_slot s) (replicate (slot_size s * 2) None) = Inr ns
           \<and> slots_ok hof (s\<lparr>hs_slot := ns\<rparr>)
           \<and> (\<forall>c. Some c \<in> set ns \<longleftrightarrow> Some c \<in> set (hs_slot s)) \<and> None \<in> set ns"
proof -
  obtain k where k: "2 \<le> k" "k \<le> 24" "slot_size s = 2 ^ k" using ok by (elim slots_okE)
  let ?n = "slot_size s * 2"
  have n: "?n = 2 ^ Suc k" using k by simp
  have hash: "slot_hash h ?n = unat h mod 2 ^ Suc k" for h by (metis n slot_hash_pow2)
  have fold_back: "slot_hash h ?n mod 2 ^ k = slot_hash h (slot_size s)" for h
    unfolding hash using mod_mod_pow2 [of k "Suc k" "unat h"] by (simp add: k slot_hash_pow2)
  have old: "slot_hash (hof c) (slot_size s) = i" if "i < slot_size s" "hs_slot s ! i = Some c" for i c
    using ok that by (rule slots_ok_slot)
  have "distinct (map (\<lambda>x. slot_hash (hof (the x)) ?n) (hs_slot s))"
    unfolding distinct_conv_nth
  proof (intro allI impI)
    fix i j assume ij: "i < length (map (\<lambda>x. slot_hash (hof (the x)) ?n) (hs_slot s))"
      "j < length (map (\<lambda>x. slot_hash (hof (the x)) ?n) (hs_slot s))" "i \<noteq> j"
    obtain c d where cd: "hs_slot s ! i = Some c" "hs_slot s ! j = Some d"
      using full ij by (metis length_map not_Some_eq nth_mem)
    have "slot_hash (hof c) ?n \<noteq> slot_hash (hof d) ?n"
      using old [of i c] old [of j d] cd ij fold_back by (metis length_map)
    with cd ij show "map (\<lambda>x. slot_hash (hof (the x)) ?n) (hs_slot s) ! i
                   \<noteq> map (\<lambda>x. slot_hash (hof (the x)) ?n) (hs_slot s) ! j" by simp
  qed
  moreover have lt: "slot_hash h ?n < ?n" for h using n by (metis hash mod_less_divisor zero_less_numeral zero_less_power)
  ultimately obtain ns where ns: "rehash hof ?n (hs_slot s) (replicate ?n None) = Inr ns"
    and nth: "\<And>j c. j < ?n \<Longrightarrow> ns ! j = Some c \<longleftrightarrow> Some c \<in> set (hs_slot s) \<and> slot_hash (hof c) ?n = j"
    using rehash_spec [OF full, of hof ?n "replicate ?n None"] by auto
  have len: "length ns = ?n" using length_rehash [OF ns] by simp
  have mem: "Some c \<in> set ns \<longleftrightarrow> Some c \<in> set (hs_slot s)" for c
    using nth lt len by (metis in_set_conv_nth)
  have "Suc k \<le> 24" using room n by (metis power_le_imp_le_exp one_less_numeral_iff semiring_norm(76))
  then have "\<exists>k'. 2 \<le> k' \<and> k' \<le> 24 \<and> ?n = 2 ^ k'" using k n by (intro exI [of _ "Suc k"]) simp
  moreover have "slot_hash (hof c) ?n = j \<and> hof c AND NOT HANDLE_MASK = hs_harbor s"
    if "j < ?n" "ns ! j = Some c" for j c
  proof -
    have "Some c \<in> set (hs_slot s)" "slot_hash (hof c) ?n = j" using nth that by auto
    then show ?thesis using ok unfolding slots_ok_def by (metis in_set_conv_nth)
  qed
  ultimately have "slots_ok hof (s\<lparr>hs_slot := ns\<rparr>)"
    using ok len by (simp add: slots_ok_def)
  moreover have "None \<in> set ns"
  proof (rule ccontr)
    assume "None \<notin> set ns"
    moreover have "0 < ?n" "2 ^ k < ?n" using k by simp_all
    ultimately obtain c d where "ns ! 0 = Some c" "ns ! (2 ^ k) = Some d"
      using len by (metis nth_mem not_Some_eq)
    then have c: "Some c \<in> set (hs_slot s)" "slot_hash (hof c) ?n = 0"
      and d: "Some d \<in> set (hs_slot s)" "slot_hash (hof d) ?n = 2 ^ k"
      using nth \<open>0 < ?n\<close> \<open>2 ^ k < ?n\<close> by blast+
    then have "slot_hash (hof c) (slot_size s) = 0" "slot_hash (hof d) (slot_size s) = 0"
      by (metis fold_back mod_0, metis fold_back mod_self d(2))
    then have "c = d" using c d old by (metis in_set_conv_nth option.inject)
    then show False using c d by simp
  qed
  ultimately show ?thesis using ns mem by blast
qed

lemma or_harbor_bits:
  assumes "h AND HANDLE_MASK = h" "b AND HANDLE_MASK = 0"
  shows "(h OR b) AND NOT HANDLE_MASK = b" "k \<le> 24 \<Longrightarrow> (h OR b) AND mask k = h AND mask k"
proof -
  have hb: "bit h n \<Longrightarrow> n < 24" and bb: "bit b n \<Longrightarrow> \<not> n < 24" for n
    using assms by (metis bit_HANDLE_MASK bit_and_iff, metis bit_HANDLE_MASK bit_and_iff bit_0_eq bot_apply bot_bool_def)
  show "(h OR b) AND NOT HANDLE_MASK = b"
    by (rule bit_eqI) (use hb bb in \<open>auto simp: bit_simps bit_HANDLE_MASK\<close>)
  show "(h OR b) AND mask k = h AND mask k" if "k \<le> 24"
    by (rule bit_eqI) (use that hb bb in \<open>fastforce simp: bit_simps\<close>)
qed

lemma slot_hash_or:
  assumes "h AND HANDLE_MASK = h" "b AND HANDLE_MASK = 0" "k \<le> 24"
  shows "slot_hash (h OR b) (2 ^ k) = slot_hash h (2 ^ k)"
  by (simp only: slot_hash_def of_nat_mask or_harbor_bits(2) [OF assms])

text \<open>Storing a context in a free slot under a handle of that slot.\<close>

lemma slots_ok_store:
  fixes x :: u32
  assumes ok: "slots_ok hof s" and free: "hs_slot s ! slot_hash h (slot_size s) = None"
    and new: "Some c \<notin> set (hs_slot s)" and h: "h AND NOT HANDLE_MASK = hs_harbor s"
  defines "s' \<equiv> s\<lparr>hs_slot := (hs_slot s)[slot_hash h (slot_size s) := Some c], hs_handle_index := x\<rparr>"
  shows "slots_ok (hof(c := h)) s'"
    and "skynet_handle_grab (hof(c := h)) s' h' = (if h' = h then Some c else skynet_handle_grab hof s h')"
    and "skynet_handle_grab hof s h = None"
proof -
  let ?i = "slot_hash h (slot_size s)"
  have i: "?i < slot_size s" using ok by (elim slots_okE)
  have old: "hof d \<noteq> h \<and> d \<noteq> c" if "Some d \<in> set (hs_slot s)" for d
    using that new free slots_ok_slot [OF ok] by (auto simp: in_set_conv_nth)
  have nc: "hs_slot s ! j \<noteq> Some c" if "j < slot_size s" for j
    using new that by (metis nth_mem)
  show ok': "slots_ok (hof(c := h)) s'"
    using ok i h nc by (auto simp: slots_ok_def s'_def nth_list_update)
  have mem: "Some d \<in> set (hs_slot s') \<longleftrightarrow> d = c \<or> Some d \<in> set (hs_slot s)" for d
  proof
    assume "Some d \<in> set (hs_slot s')"
    then show "d = c \<or> Some d \<in> set (hs_slot s)"
      using set_update_subset_insert [of "hs_slot s" ?i "Some c"] by (auto simp: s'_def)
  next
    assume "d = c \<or> Some d \<in> set (hs_slot s)"
    then show "Some d \<in> set (hs_slot s')"
    proof
      assume "d = c" with i show ?thesis by (simp add: s'_def set_update_memI)
    next
      assume "Some d \<in> set (hs_slot s)"
      then obtain j where j: "j < slot_size s" "hs_slot s ! j = Some d" by (auto simp: in_set_conv_nth)
      have "j \<noteq> ?i" using j free by auto
      then have "hs_slot s' ! j = Some d" "j < slot_size s'" using j by (simp_all add: s'_def)
      then show ?thesis by (metis nth_mem)
    qed
  qed
  show "skynet_handle_grab hof s h = None"
    using free by (simp add: skynet_handle_grab_def)
  show "skynet_handle_grab (hof(c := h)) s' h' = (if h' = h then Some c else skynet_handle_grab hof s h')"
  proof (cases "h' = h")
    case True
    with grab_iff [OF ok'] mem show ?thesis by simp
  next
    case False
    then have "skynet_handle_grab (hof(c := h)) s' h' = skynet_handle_grab hof s h'"
      using grab_iff [OF ok'] grab_iff [OF ok] mem old new by (intro grab_eqI) auto
    with False show ?thesis by simp
  qed
qed

lemma register_scan_Some:
  assumes ok: "slots_ok hof s" and new: "Some c \<notin> set (hs_slot s)"
    and scan: "scan_slots s 0 (slot_size s) \<noteq> None"
  shows "\<exists>h s'. skynet_handle_register hof s c = Inr (h, s') \<and> skynet_handle_grab hof s h = None
           \<and> slots_ok (hof(c := h)) s' \<and> hs_name s' = hs_name s
           \<and> (\<forall>h'. skynet_handle_grab (hof(c := h)) s' h'
                    = (if h' = h then Some c else skynet_handle_grab hof s h'))"
proof -
  from scan obtain h0 where h0: "scan_slots s 0 (slot_size s) = Some h0" by blast
  let ?h = "h0 OR hs_harbor s"
  have m: "h0 AND HANDLE_MASK = h0" "hs_slot s ! slot_hash h0 (slot_size s) = None"
    using scan_slots_Some [OF h0] by auto
  have b: "hs_harbor s AND HANDLE_MASK = 0" using ok by (simp add: slots_ok_def)
  have hash: "slot_hash ?h (slot_size s) = slot_hash h0 (slot_size s)"
    using slots_okE [OF ok] slot_hash_or [OF m(1) b] by metis
  have free: "hs_slot s ! slot_hash ?h (slot_size s) = None" using m hash by simp
  note store = slots_ok_store [OF ok free new or_harbor_bits(1) [OF m(1) b]]
  show ?thesis
    using store(1,2) [where x = "h0 + 1"] store(3) h0 hash
    by (subst skynet_handle_register.simps) simp
qed

lemma retire_slot:
  assumes "slots_ok hof s" "i < slot_size s" "hs_slot s ! i = Some c"
  shows "skynet_handle_retire hof s (hof c) =
    (1, Some c, s\<lparr>hs_slot := (hs_slot s)[i := None],
                  hs_name := filter (\<lambda>n. hn_handle n \<noteq> hof c) (hs_name s)\<rparr>)"
  using assms slots_ok_slot [OF assms] by (simp add: skynet_handle_retire_def)

lemma slots_ok_clear: "slots_ok hof s \<Longrightarrow> slots_ok hof (s\<lparr>hs_slot := (hs_slot s)[i := None], hs_name := ns\<rparr>)"
  by (auto simp: slots_ok_def nth_clear)

lemma retire_ok: "slots_ok hof s \<Longrightarrow> slots_ok hof (snd (snd (skynet_handle_retire hof s h)))"
  by (auto simp: skynet_handle_retire_def Let_def slots_ok_clear split: option.splits)

lemma retire_result:
  "fst (snd (skynet_handle_retire hof s h)) = skynet_handle_grab hof s h"
  "fst (skynet_handle_retire hof s h) = (if skynet_handle_grab hof s h = None then 0 else 1)"
  by (auto simp: skynet_handle_retire_def skynet_handle_grab_def Let_def split: option.splits)

lemma retire_grab:
  assumes ok: "slots_ok hof s"
  shows "skynet_handle_grab hof (snd (snd (skynet_handle_retire hof s h))) h'
           = (if h' = h then None else skynet_handle_grab hof s h')"
proof (cases "skynet_handle_grab hof s h")
  case None
  then have "snd (snd (skynet_handle_retire hof s h)) = s"
    by (auto simp: skynet_handle_retire_def skynet_handle_grab_def Let_def split: option.splits if_splits)
  with None show ?thesis by simp
next
  case (Some c)
  let ?i = "slot_hash h (slot_size s)"
  have i: "?i < slot_size s" using ok by (elim slots_okE)
  have c: "hs_slot s ! ?i = Some c" "hof c = h"
    using Some by (auto simp: skynet_handle_grab_def split: option.splits if_splits)
  let ?s = "s\<lparr>hs_slot := (hs_slot s)[?i := None], hs_name := filter (\<lambda>n. hn_handle n \<noteq> h) (hs_name s)\<rparr>"
  have eq: "snd (snd (skynet_handle_retire hof s h)) = ?s"
    using retire_slot [OF ok i c(1)] c by simp
  show ?thesis
  proof (cases "h' = h")
    case True
    then show ?thesis using eq i by (simp add: skynet_handle_grab_def)
  next
    case False
    have "skynet_handle_grab hof ?s h' = skynet_handle_grab hof s h'"
      using False c by (cases "slot_hash h' (slot_size s) = ?i") (auto simp: skynet_handle_grab_def i)
    with False eq show ?thesis by simp
  qed
qed

interpretation handles: registry "skynet_handle_grab hof"
  "\<lambda>h s. snd (snd (skynet_handle_retire hof s h))" "slots_ok hof" for hof
  by unfold_locales (simp_all add: retire_ok retire_grab)

lemma retire_pass_spec:
  assumes "slots_ok hof s" "\<And>c. Some c \<in> set (hs_slot s) \<Longrightarrow> hof c \<noteq> 0"
    and "set js \<subseteq> {..<slot_size s}" "distinct js"
  shows "\<exists>s'. retire_pass hof s js = (map the (filter (\<lambda>x. x \<noteq> None) (map (\<lambda>j. hs_slot s ! j) js)), s')
           \<and> slots_ok hof s' \<and> slot_size s' = slot_size s
           \<and> (\<forall>i < slot_size s. hs_slot s' ! i = (if i \<in> set js then None else hs_slot s ! i))"
  using assms
proof (induction js arbitrary: s)
  case Nil
  then show ?case by simp
next
  case (Cons j js)
  show ?case
  proof (cases "hs_slot s ! j")
    case None
    obtain s' where s': "retire_pass hof s js
        = (map the (filter (\<lambda>x. x \<noteq> None) (map (\<lambda>j. hs_slot s ! j) js)), s')"
      "slots_ok hof s'" "slot_size s' = slot_size s"
      "\<forall>i < slot_size s. hs_slot s' ! i = (if i \<in> set js then None else hs_slot s ! i)"
      using Cons.IH [OF Cons.prems(1,2)] Cons.prems by auto
    then have "\<forall>i < slot_size s. hs_slot s' ! i = (if i \<in> set (j # js) then None else hs_slot s ! i)"
      using None by auto
    with s' None show ?thesis by auto
  next
    case (Some c)
    let ?s = "s\<lparr>hs_slot := (hs_slot s)[j := None], hs_name := filter (\<lambda>n. hn_handle n \<noteq> hof c) (hs_name s)\<rparr>"
    have j: "j < slot_size s" "j \<notin> set js" using Cons.prems by auto
    then have "Some c \<in> set (hs_slot s)" using Some by (metis nth_mem)
    then have nz: "hof c \<noteq> 0" using Cons.prems by blast
    have "\<exists>s'. retire_pass hof ?s js = (map the (filter (\<lambda>x. x \<noteq> None) (map (\<lambda>j. hs_slot ?s ! j) js)), s')
           \<and> slots_ok hof s' \<and> slot_size s' = slot_size ?s
           \<and> (\<forall>i < slot_size ?s. hs_slot s' ! i = (if i \<in> set js then None else hs_slot ?s ! i))"
    proof (rule Cons.IH)
      show "slots_ok hof ?s" using Cons.prems(1) by (rule slots_ok_clear)
      fix d assume "Some d \<in> set (hs_slot ?s)"
      then have "Some d \<in> set (hs_slot s)" using set_update_subset_insert by fastforce
      then show "hof d \<noteq> 0" using Cons.prems by blast
    qed (use Cons.prems in auto)
    moreover have "map (\<lambda>i. (hs_slot s)[j := None] ! i) js = map (\<lambda>i. hs_slot s ! i) js"
      using j(2) by (intro map_cong refl nth_list_update_neq) auto
    ultimately obtain s' where s': "retire_pass hof ?s js
        = (map the (filter (\<lambda>x. x \<noteq> None) (map (\<lambda>j. hs_slot s ! j) js)), s')"
      "slots_ok hof s'" "slot_size s' = slot_size s"
      "\<forall>i < slot_size s. hs_slot s' ! i = (if i \<in> set js then None else (hs_slot s)[j := None] ! i)"
      by auto
    then have "\<forall>i < slot_size s. hs_slot s' ! i = (if i \<in> set (j # js) then None else hs_slot s ! i)"
      using j by (auto simp: nth_list_update)
    moreover have "retire_pass hof s (j # js)
        = (map the (filter (\<lambda>x. x \<noteq> None) (map (\<lambda>j. hs_slot s ! j) (j # js))), s')"
      using retire_slot [OF Cons.prems(1) j(1) Some] nz Some s'(1) by simp
    ultimately show ?thesis using s' by blast
  qed
qed

section \<open>The name table\<close>

lemma strcmp_eq_0 [simp]: "strcmp xs ys = 0 \<longleftrightarrow> xs = ys"
  by (induction xs ys rule: strcmp.induct) auto

lemma strcmp_swap: "strcmp xs ys < 0 \<longleftrightarrow> strcmp ys xs > 0"
  by (induction xs ys rule: strcmp.induct) auto

lemma strcmp_trans: "strcmp xs ys < 0 \<Longrightarrow> strcmp ys zs < 0 \<Longrightarrow> strcmp xs zs < 0"
proof (induction xs zs arbitrary: ys rule: strcmp.induct)
  case (4 x xs z zs)
  then show ?case by (cases ys) (auto split: if_splits)
next
  case (3 x xs)
  then show ?case by (cases ys) auto
next
  case 1
  then show ?case by (cases ys) auto
qed auto

definition names_ok :: "handle_storage \<Rightarrow> bool" where
  "names_ok s \<longleftrightarrow> sorted_wrt (\<lambda>m n. strcmp (hn_name m) (hn_name n) < 0) (hs_name s)"

definition name_map :: "handle_storage \<Rightarrow> cstring \<rightharpoonup> u32" where
  "name_map s = map_of (map (\<lambda>n. (hn_name n, hn_handle n)) (hs_name s))"

lemma name_search_spec:
  assumes "sorted_wrt (\<lambda>m n. strcmp (hn_name m) (hn_name n) < 0) ns"
    and "0 \<le> lo" "hi < int (length ns)" "lo \<le> hi + 1"
    and "\<forall>i < nat lo. strcmp (hn_name (ns ! i)) name < 0"
    and "\<forall>i < length ns. hi < int i \<longrightarrow> strcmp (hn_name (ns ! i)) name > 0"
  shows "case name_search ns name lo hi of
           Found i \<Rightarrow> i < length ns \<and> hn_name (ns ! i) = name
         | Missing b \<Rightarrow> b \<le> length ns \<and> (\<forall>i < b. strcmp (hn_name (ns ! i)) name < 0)
             \<and> (\<forall>i < length ns. b \<le> i \<longrightarrow> strcmp (hn_name (ns ! i)) name > 0)"
  using assms
proof (induction ns name lo hi rule: name_search.induct)
  case (1 ns name lo hi)
  let ?mid = "(lo + hi) div 2" and ?c = "strcmp (hn_name (ns ! nat ((lo + hi) div 2))) name"
  show ?case
  proof (cases "lo \<le> hi")
    case False
    then have "name_search ns name lo hi = Missing (nat lo)"
      by (simp add: name_search.simps [of ns name lo hi])
    with False "1.prems" show ?thesis by auto
  next
    case True
    have mid: "lo \<le> ?mid" "?mid \<le> hi" using True by auto
    have m: "nat ?mid < length ns" using mid 1 by linarith
    consider "?c = 0" | "?c < 0" | "?c > 0" by linarith
    then show ?thesis
    proof cases
      case 1
      with True m show ?thesis by (simp add: name_search.simps [of ns name lo hi])
    next
      case 2
      then have ne: "hn_name (ns ! nat ?mid) \<noteq> name" by (metis less_irrefl strcmp_eq_0)
      have lt: "strcmp (hn_name (ns ! i)) name < 0" if "i < nat (?mid + 1)" for i
      proof (cases "i = nat ?mid")
        case False
        then have "i < nat ?mid" using that by linarith
        then have "strcmp (hn_name (ns ! i)) (hn_name (ns ! nat ?mid)) < 0"
          using "1.prems"(1) m by (simp add: sorted_wrt_iff_nth_less)
        with 2 show ?thesis by (rule strcmp_trans [rotated])
      qed (use 2 in simp)
      have "case name_search ns name (?mid + 1) hi of
             Found i \<Rightarrow> i < length ns \<and> hn_name (ns ! i) = name
           | Missing b \<Rightarrow> b \<le> length ns \<and> (\<forall>i < b. strcmp (hn_name (ns ! i)) name < 0)
               \<and> (\<forall>i < length ns. b \<le> i \<longrightarrow> strcmp (hn_name (ns ! i)) name > 0)"
        using "1.IH"(1) [OF True refl refl] ne 2 "1.prems" mid lt by auto
      with True 2 ne show ?thesis by (simp add: name_search.simps [of ns name lo hi] Let_def)
    next
      case 3
      then have ne: "hn_name (ns ! nat ?mid) \<noteq> name" by (metis less_irrefl strcmp_eq_0)
      have gt: "strcmp (hn_name (ns ! i)) name > 0" if "i < length ns" "?mid - 1 < int i" for i
      proof (cases "i = nat ?mid")
        case False
        then have "nat ?mid < i" using that mid "1.prems" by linarith
        then have "strcmp (hn_name (ns ! nat ?mid)) (hn_name (ns ! i)) < 0"
          using "1.prems"(1) that by (simp add: sorted_wrt_iff_nth_less)
        moreover have "strcmp name (hn_name (ns ! nat ?mid)) < 0" using 3 strcmp_swap by simp
        ultimately show ?thesis using strcmp_trans strcmp_swap by blast
      qed (use 3 in simp)
      have "case name_search ns name lo (?mid - 1) of
             Found i \<Rightarrow> i < length ns \<and> hn_name (ns ! i) = name
           | Missing b \<Rightarrow> b \<le> length ns \<and> (\<forall>i < b. strcmp (hn_name (ns ! i)) name < 0)
               \<and> (\<forall>i < length ns. b \<le> i \<longrightarrow> strcmp (hn_name (ns ! i)) name > 0)"
        using "1.IH"(2) [OF True refl refl] ne 3 "1.prems" mid gt by auto
      with True 3 ne show ?thesis by (simp add: name_search.simps [of ns name lo hi] Let_def)
    qed
  qed
qed

lemma map_of_insert:
  "k \<notin> fst ` set xs \<Longrightarrow> map_of (xs @ (k, v) # ys) = (map_of (xs @ ys))(k \<mapsto> v)"
  by (induction xs) auto

lemma name_search_cases:
  assumes "names_ok s"
  shows "case name_search (hs_name s) name 0 (int (length (hs_name s)) - 1) of
           Found i \<Rightarrow> name_map s name = Some (hn_handle (hs_name s ! i))
         | Missing b \<Rightarrow> name_map s name = None \<and> b \<le> length (hs_name s)
             \<and> (\<forall>n \<in> set (take b (hs_name s)). strcmp (hn_name n) name < 0)
             \<and> (\<forall>n \<in> set (drop b (hs_name s)). strcmp (hn_name n) name > 0)"
proof -
  let ?ns = "hs_name s" and ?r = "name_search (hs_name s) name 0 (int (length (hs_name s)) - 1)"
  have sorted: "sorted_wrt (\<lambda>m n. strcmp (hn_name m) (hn_name n) < 0) ?ns"
    using assms by (simp add: names_ok_def)
  have spec: "case ?r of
           Found i \<Rightarrow> i < length ?ns \<and> hn_name (?ns ! i) = name
         | Missing b \<Rightarrow> b \<le> length ?ns \<and> (\<forall>i < b. strcmp (hn_name (?ns ! i)) name < 0)
             \<and> (\<forall>i < length ?ns. b \<le> i \<longrightarrow> strcmp (hn_name (?ns ! i)) name > 0)"
    by (rule name_search_spec [OF sorted]) auto
  have dist: "distinct (map hn_name ?ns)"
    using sorted by (auto simp: distinct_conv_nth sorted_wrt_iff_nth_less)
      (metis less_irrefl linorder_neqE_nat strcmp_eq_0)
  show ?thesis
  proof (cases ?r)
    case (Found i)
    with spec have "(name, hn_handle (?ns ! i)) \<in> set (map (\<lambda>n. (hn_name n, hn_handle n)) ?ns)"
      by (auto simp: image_iff)
    moreover have "map fst (map (\<lambda>n. (hn_name n, hn_handle n)) ?ns) = map hn_name ?ns" by simp
    ultimately show ?thesis
      using Found dist by (simp add: name_map_def map_of_is_SomeI del: map_map)
  next
    case (Missing b)
    with spec have lt: "\<forall>n \<in> set (take b ?ns). strcmp (hn_name n) name < 0"
      and gt: "\<forall>n \<in> set (drop b ?ns). strcmp (hn_name n) name > 0" and b: "b \<le> length ?ns"
      by (auto simp: in_set_conv_nth)
    have "hn_name n \<noteq> name" if "n \<in> set ?ns" for n
      using that lt gt by (metis Un_iff append_take_drop_id less_irrefl set_append strcmp_eq_0)
    then have "name_map s name = None" by (force simp: name_map_def map_of_eq_None_iff)
    with Missing lt gt b show ?thesis by simp
  qed
qed

section \<open>Properties\<close>

text \<open>
  C7: registering a context succeeds whenever the handle space is not exhausted, through the
  doubling of the table if need be. The handle it returns was not in use, looking it up
  afterwards gives the new context, every other handle looks up to what it did before, and
  the table invariant is kept.
\<close>

theorem handle_register_fresh:
  assumes ok: "slots_ok hof s" and new: "Some c \<notin> set (hs_slot s)"
    and room: "None \<in> set (hs_slot s) \<or> slot_size s * 2 \<le> 2 ^ 24"
  shows "\<exists>h s'. skynet_handle_register hof s c = Inr (h, s') \<and> skynet_handle_grab hof s h = None
           \<and> slots_ok (hof(c := h)) s' \<and> hs_name s' = hs_name s
           \<and> (\<forall>h'. skynet_handle_grab (hof(c := h)) s' h'
                    = (if h' = h then Some c else skynet_handle_grab hof s h'))"
proof (cases "scan_slots s 0 (slot_size s) = None")
  case False
  with ok new show ?thesis by (rule register_scan_Some)
next
  case True
  have full: "None \<notin> set (hs_slot s)" using ok True by (rule scan_slots_full)
  with room have size: "slot_size s * 2 \<le> 2 ^ 24" by simp
  obtain ns where ns: "rehash hof (slot_size s * 2) (hs_slot s) (replicate (slot_size s * 2) None) = Inr ns"
    and ok': "slots_ok hof (s\<lparr>hs_slot := ns\<rparr>)"
    and mem: "\<And>d. Some d \<in> set ns \<longleftrightarrow> Some d \<in> set (hs_slot s)" and "None \<in> set ns"
    using rehash_full_table [OF ok full size] by blast
  let ?s = "s\<lparr>hs_slot := ns\<rparr>"
  have scan: "scan_slots ?s 0 (slot_size ?s) \<noteq> None"
    using scan_slots_full [OF ok'] \<open>None \<in> set ns\<close> by auto
  have new': "Some c \<notin> set (hs_slot ?s)" using new mem by simp
  have grab: "skynet_handle_grab hof ?s h = skynet_handle_grab hof s h" for h
    using grab_iff [OF ok] grab_iff [OF ok'] mem by (intro grab_eqI) simp
  have "\<not> unat HANDLE_MASK < slot_size s * 2 - 1" "slot_size s \<noteq> 0"
    using size ok by (auto simp: HANDLE_MASK_def slots_ok_def)
  with True ns have "skynet_handle_register hof s c = skynet_handle_register hof ?s c"
    by (subst skynet_handle_register.simps) simp
  with register_scan_Some [OF ok' new' scan] show ?thesis unfolding grab by simp
qed

definition example_hof :: "ctx \<Rightarrow> u32" where
  "example_hof c = 0x01000000 + of_nat c"

definition example_full :: handle_storage where
  "example_full = (skynet_handle_init 1)\<lparr>hs_slot := [Some 4, Some 1, Some 2, Some 3], hs_handle_index := 5\<rparr>"

lemma example_full_ok: "slots_ok example_hof example_full"
proof -
  have "\<exists>k. 2 \<le> k \<and> k \<le> 24 \<and> slot_size example_full = 2 ^ k"
    by (rule exI [of _ 2]) (simp add: example_full_def)
  moreover have "\<forall>i < slot_size example_full. \<forall>c. hs_slot example_full ! i = Some c \<longrightarrow>
      slot_hash (example_hof c) (slot_size example_full) = i
      \<and> example_hof c AND NOT HANDLE_MASK = hs_harbor example_full"
  proof (intro allI impI)
    fix i c assume i: "i < slot_size example_full" "hs_slot example_full ! i = Some c"
    then have "i = 0 \<or> i = 1 \<or> i = 2 \<or> i = 3" by (auto simp: example_full_def)
    then have "i = 0 \<and> c = 4 \<or> i = 1 \<and> c = 1 \<or> i = 2 \<and> c = 2 \<or> i = 3 \<and> c = 3"
      using i by (auto simp: example_full_def)
    then show "slot_hash (example_hof c) (slot_size example_full) = i
      \<and> example_hof c AND NOT HANDLE_MASK = hs_harbor example_full"
      by (elim disjE) (simp_all add: example_full_def example_hof_def slot_hash_def HANDLE_MASK_def
          skynet_handle_init_def HANDLE_REMOTE_SHIFT_def)
  qed
  moreover have "hs_harbor example_full AND HANDLE_MASK = 0"
    by (simp add: example_full_def skynet_handle_init_def HANDLE_REMOTE_SHIFT_def HANDLE_MASK_def)
  ultimately show ?thesis by (simp add: slots_ok_def)
qed

theorem handle_register_fresh_witness:
  "\<exists>h s'. skynet_handle_register example_hof example_full 9 = Inr (h, s')
     \<and> skynet_handle_grab example_hof example_full h = None
     \<and> slots_ok (example_hof(9 := h)) s' \<and> skynet_handle_grab (example_hof(9 := h)) s' h = Some 9"
proof -
  have "Some 9 \<notin> set (hs_slot example_full)" "slot_size example_full * 2 \<le> 2 ^ 24"
    by (simp_all add: example_full_def)
  then show ?thesis using handle_register_fresh [OF example_full_ok, of 9] by fastforce
qed

text \<open>
  Retiring a handle removes exactly that handle. It returns 1 and the context to release
  when the handle was registered and 0 otherwise; afterwards the handle looks up to nothing
  and carries no name, every other handle and every name of another handle is kept, and the
  table invariant holds.
\<close>

theorem handle_retire_exact:
  assumes "slots_ok hof s" "skynet_handle_retire hof s h = (ret, c, s')"
  shows "slots_ok hof s' \<and> c = skynet_handle_grab hof s h
       \<and> ret = (if skynet_handle_grab hof s h = None then 0 else 1)
       \<and> (\<forall>h'. skynet_handle_grab hof s' h' = (if h' = h then None else skynet_handle_grab hof s h'))
       \<and> hs_name s' = (if ret = 1 then filter (\<lambda>n. hn_handle n \<noteq> h) (hs_name s) else hs_name s)"
proof -
  have s': "s' = snd (snd (skynet_handle_retire hof s h))" using assms by simp
  have "hs_name s' = (if ret = 1 then filter (\<lambda>n. hn_handle n \<noteq> h) (hs_name s) else hs_name s)"
    using assms by (auto simp: skynet_handle_retire_def Let_def split: option.splits if_splits)
  moreover have "slots_ok hof s'"
    "\<And>h'. skynet_handle_grab hof s' h' = (if h' = h then None else skynet_handle_grab hof s h')"
    unfolding s' by (rule handles.invar_delete [OF assms(1)], rule handles.lookup_delete [OF assms(1)])
  moreover have "c = skynet_handle_grab hof s h" "ret = (if skynet_handle_grab hof s h = None then 0 else 1)"
    using retire_result [of hof s h] assms(2) by auto
  ultimately show ?thesis by blast
qed

theorem handle_retire_exact_witness:
  "\<exists>ret c s'. skynet_handle_retire example_hof example_full 0x01000002 = (ret, c, s')
     \<and> ret = 1 \<and> c = Some 2 \<and> slots_ok example_hof s' \<and> skynet_handle_grab example_hof s' 0x01000002 = None"
proof -
  obtain ret c s' where r: "skynet_handle_retire example_hof example_full 0x01000002 = (ret, c, s')"
    by (metis prod_cases3)
  have "skynet_handle_grab example_hof example_full 0x01000002 = Some 2"
    by (simp add: skynet_handle_grab_def example_full_def slot_hash_def example_hof_def)
  with handle_retire_exact [OF example_full_ok r] r show ?thesis by auto
qed



text \<open>The table has room when its array is not full or may still be doubled.\<close>

definition name_room :: "handle_storage \<Rightarrow> bool" where
  "name_room s \<longleftrightarrow> length (hs_name s) < hs_name_cap s \<or> hs_name_cap s * 2 \<le> MAX_SLOT_SIZE"

lemma name_table_laws:
  assumes "names_ok s"
  shows "skynet_handle_findname s name = (case name_map s name of Some h \<Rightarrow> h | None \<Rightarrow> 0)
       \<and> (name_map s name \<noteq> None \<longrightarrow> skynet_handle_namehandle s handle name = Inr (None, s))
       \<and> (name_map s name = None \<longrightarrow>
            (length (hs_name s) < hs_name_cap s \<or> hs_name_cap s * 2 \<le> MAX_SLOT_SIZE) \<longrightarrow>
            (\<exists>s'. skynet_handle_namehandle s handle name = Inr (Some name, s') \<and> names_ok s'
                \<and> name_map s' = (name_map s)(name \<mapsto> handle) \<and> hs_slot s' = hs_slot s))"
proof -
  let ?ns = "hs_name s" and ?r = "name_search (hs_name s) name 0 (int (length (hs_name s)) - 1)"
  note cases = name_search_cases [OF assms, of name]
  show ?thesis
  proof (cases ?r)
    case (Found i)
    with cases show ?thesis
      by (simp add: skynet_handle_findname_def skynet_handle_namehandle_def insert_name_def)
  next
    case (Missing b)
    let ?new = "take b ?ns @ \<lparr>hn_name = name, hn_handle = handle\<rparr> # drop b ?ns"
    have c: "name_map s name = None" "\<forall>n \<in> set (take b ?ns). strcmp (hn_name n) name < 0"
      "\<forall>n \<in> set (drop b ?ns). strcmp (hn_name n) name > 0" using cases Missing by auto
    have sorted: "sorted_wrt (\<lambda>m n. strcmp (hn_name m) (hn_name n) < 0) (take b ?ns @ drop b ?ns)"
      using assms by (simp add: names_ok_def)
    then have "sorted_wrt (\<lambda>m n. strcmp (hn_name m) (hn_name n) < 0) ?new"
      unfolding sorted_wrt_append using c by (auto simp: strcmp_swap)
    then have ok: "names_ok s'" if "hs_name s' = ?new" for s' using that by (simp add: names_ok_def)
    have keys: "name \<notin> fst ` set (map (\<lambda>n. (hn_name n, hn_handle n)) (take b ?ns))"
      using c(2) by (auto simp: image_iff) (metis less_irrefl strcmp_eq_0)
    have map: "name_map s' = (name_map s)(name \<mapsto> handle)" if "hs_name s' = ?new" for s'
    proof -
      let ?f = "\<lambda>n. (hn_name n, hn_handle n)"
      have "map ?f ?ns = map ?f (take b ?ns) @ map ?f (drop b ?ns)"
        by (metis append_take_drop_id map_append)
      then show ?thesis
        using map_of_insert [OF keys, of handle "map ?f (drop b ?ns)"] that
        unfolding name_map_def by (simp only: map_append list.map handle_name.simps)
    qed
    show ?thesis
      using Missing c(1) ok map
      by (auto simp: skynet_handle_findname_def skynet_handle_namehandle_def insert_name_def
          insert_name_before_def Let_def c_assert_def)
  qed
qed

interpretation nt: name_service skynet_handle_findname skynet_handle_namehandle name_map names_ok name_room 0
proof (unfold_locales, goal_cases)
  case (1 t k)
  then show ?case using name_table_laws by blast
next
  case (2 t k v)
  then show ?case using name_table_laws by blast
next
  case (3 t k v)
  then show ?case using name_table_laws [OF 3(1), of k v] unfolding name_room_def by blast
qed

text \<open>
  C9: the name table is a finite map kept as a sorted array. Bisection finds a name exactly
  when it is bound; binding an unbound name keeps the array sorted and updates that name
  alone; binding a bound name returns null and changes nothing; the only failure is the
  assertion on the array's size limit.
\<close>

theorem name_table_is_map:
  assumes "names_ok s"
  shows "skynet_handle_findname s name = (case name_map s name of Some h \<Rightarrow> h | None \<Rightarrow> 0)
       \<and> (name_map s name \<noteq> None \<longrightarrow> skynet_handle_namehandle s handle name = Inr (None, s))
       \<and> (name_map s name = None \<longrightarrow>
            name_room s \<longrightarrow>
            (\<exists>s'. skynet_handle_namehandle s handle name = Inr (Some name, s') \<and> names_ok s'
                \<and> name_map s' = (name_map s)(name \<mapsto> handle) \<and> hs_slot s' = hs_slot s))"
  using name_table_laws [OF assms] unfolding name_room_def by blast

theorem name_table_is_map_witness:
  "\<exists>s'. skynet_handle_namehandle (skynet_handle_init 1) 0x01000005 [108, 111, 103] = Inr (Some [108, 111, 103], s')
     \<and> names_ok s' \<and> name_map s' = [[108, 111, 103] \<mapsto> 0x01000005]"
proof -
  have ok: "names_ok (skynet_handle_init 1)" by (simp add: names_ok_def skynet_handle_init_def)
  have "name_map (skynet_handle_init 1) = Map.empty" by (simp add: name_map_def skynet_handle_init_def)
  moreover have "name_room (skynet_handle_init 1)"
    by (simp add: name_room_def skynet_handle_init_def)
  ultimately show ?thesis
    using name_table_is_map [OF ok, of "[108, 111, 103]" "0x01000005"] by auto
qed

definition wrapped :: handle_storage where
  "wrapped = (skynet_handle_init 0)\<lparr>hs_handle_index := 0xffffff\<rparr>"

definition racing :: handle_storage where
  "racing = (skynet_handle_init 0)\<lparr>hs_slot := [Some 4, Some 1, Some 2, Some 3], hs_handle_index := 5\<rparr>"

lemmas eval_handle = skynet_handle_init_def DEFAULT_SLOT_SIZE_def HANDLE_REMOTE_SHIFT_def HANDLE_MASK_def
  slot_hash_def

lemma scan_slots_step:
  "0 < n \<Longrightarrow> scan_slots s i n =
     (let handle = (of_nat i + hs_handle_index s) AND HANDLE_MASK
      in if hs_slot s ! slot_hash handle (slot_size s) = None then Some handle
         else scan_slots s (Suc i) (n - 1))"
  by (cases n) (auto simp: Let_def)

lemma replicate_4_8:
  "replicate 4 x = [x, x, x, x]" "replicate 8 x = [x, x, x, x, x, x, x, x]"
  by (simp_all add: eval_nat_numeral)

lemma register_evalI:
  assumes "scan_slots s 0 (slot_size s) = Some h"
  shows "skynet_handle_register hof s c = Inr (h OR hs_harbor s,
           s\<lparr>hs_slot := (hs_slot s)[slot_hash h (slot_size s) := Some c], hs_handle_index := h + 1\<rparr>)"
  using assms by (subst skynet_handle_register.simps) simp

text \<open>
  The reserved handle 0 is handed out after the handle index wraps. On a node with
  harbor 0 (the single-node configuration), when the index has reached the end of the
  handle space the next two registrations return 0xffffff and 0, although
  \<^verbatim>\<open>skynet_handle_init\<close> says that 0 is reserved for the system.
\<close>

theorem handle_zero_after_wrap:
  "\<exists>s1 s2. skynet_handle_register (\<lambda>_. 0xffffff) wrapped 1 = Inr (0xffffff, s1)
     \<and> skynet_handle_register (\<lambda>_. 0xffffff) s1 2 = Inr (0, s2) \<and> Some 2 \<in> set (hs_slot s2)"
proof -
  let ?s1 = "wrapped\<lparr>hs_slot := [None, None, None, Some 1], hs_handle_index := 0x1000000\<rparr>"
  have "scan_slots wrapped 0 (slot_size wrapped) = Some 0xffffff"
    by (simp add: wrapped_def eval_handle scan_slots_step replicate_4_8)
  from register_evalI [OF this] have r1: "skynet_handle_register (\<lambda>_. 0xffffff) wrapped 1 = Inr (0xffffff, ?s1)"
    by (simp add: wrapped_def eval_handle scan_slots_step replicate_4_8)
  have "scan_slots ?s1 0 (slot_size ?s1) = Some 0"
    by (simp add: wrapped_def eval_handle scan_slots_step replicate_4_8)
  from register_evalI [OF this] r1 show ?thesis by (simp add: wrapped_def eval_handle scan_slots_step replicate_4_8)
qed

text \<open>
  A context is lost when the table doubles between the return of
  \<^verbatim>\<open>skynet_handle_register\<close> and the assignment of its result to the context's handle
  field. Context 4 was given handle 4 but still carries 0, another thread registers
  context 5, the copy files context 4 under hash 0, and once its field holds 4 the handle
  looks up to nothing.
\<close>

theorem register_race_loses_context:
  "skynet_handle_grab of_nat racing 4 = Some 4
   \<and> (\<exists>s'. skynet_handle_register (of_nat(4 := 0)) racing 5 = Inr (5, s')
         \<and> skynet_handle_grab of_nat s' 4 = None)"
proof -
  let ?s = "racing\<lparr>hs_slot := [Some 4, Some 1, Some 2, Some 3, None, None, None, None]\<rparr>"
  have full: "scan_slots racing 0 (slot_size racing) = None"
    by (simp add: racing_def eval_handle scan_slots_step replicate_4_8)
  have rehash: "rehash (of_nat(4 := 0)) (slot_size racing * 2) (hs_slot racing)
      (replicate (slot_size racing * 2) None) = Inr (hs_slot ?s)"
    by (simp add: racing_def eval_handle scan_slots_step replicate_4_8)
  have "skynet_handle_register (of_nat(4 := 0)) racing 5 = skynet_handle_register (of_nat(4 := 0)) ?s 5"
    using full rehash by (subst skynet_handle_register.simps) (simp add: racing_def HANDLE_MASK_def)
  moreover have "scan_slots ?s 0 (slot_size ?s) = Some 5"
    by (simp add: racing_def eval_handle scan_slots_step replicate_4_8)
  ultimately show ?thesis
    using register_evalI [of ?s 5] by (simp add: racing_def eval_handle skynet_handle_grab_def)
qed

end
