(* ===== verification/Timer.thy ===== *)
theory Timer
  imports Prelude
begin

text \<open>
  The hierarchical timer wheel of \<^verbatim>\<open>skynet-src/skynet_timer.c\<close>: 256 slots for the ticks of the
  current block and four levels of 64 slots for the blocks further away, on a 32-bit clock
  that wraps round. The linked lists of the slots are lists (\<^verbatim>\<open>link\<close> appends, \<^verbatim>\<open>link_clear\<close>
  takes the whole list); the slot arrays are functions of the index, and the indices the code
  computes are shown to be in range. The clock readings of \<^verbatim>\<open>clock_gettime\<close> are arguments.
\<close>

section \<open>Data\<close>

definition TIME_NEAR_SHIFT :: nat where "TIME_NEAR_SHIFT = 8"
definition TIME_NEAR :: u32 where "TIME_NEAR = 256"
definition TIME_LEVEL_SHIFT :: nat where "TIME_LEVEL_SHIFT = 6"
definition TIME_NEAR_MASK :: u32 where "TIME_NEAR_MASK = 255"
definition TIME_LEVEL_MASK :: u32 where "TIME_LEVEL_MASK = 63"

record timer_event =
  te_handle :: u32
  te_session :: int

record timer_node =
  tn_expire :: u32
  tn_event :: timer_event

record timer =
  tm_near :: "nat \<Rightarrow> timer_node list"
  tm_t :: "nat \<Rightarrow> nat \<Rightarrow> timer_node list"
  tm_time :: u32
  tm_starttime :: u32
  tm_current :: u64
  tm_current_point :: u64

section \<open>Operations\<close>

definition link_near :: "timer \<Rightarrow> nat \<Rightarrow> timer_node \<Rightarrow> timer" where
  "link_near T i node = T\<lparr>tm_near := (tm_near T)(i := tm_near T i @ [node])\<rparr>"

definition link_level :: "timer \<Rightarrow> nat \<Rightarrow> nat \<Rightarrow> timer_node \<Rightarrow> timer" where
  "link_level T l i node = T\<lparr>tm_t := (tm_t T)(l := (tm_t T l)(i := tm_t T l i @ [node]))\<rparr>"

text \<open>The loop of \<^verbatim>\<open>add_node\<close> that finds the level, with \<open>n\<close> of its three iterations left.\<close>

fun level_loop :: "nat \<Rightarrow> u32 \<Rightarrow> u32 \<Rightarrow> u32 \<Rightarrow> nat \<Rightarrow> nat" where
  "level_loop 0 time current msk i = i"
| "level_loop (Suc n) time current msk i =
     (if (time OR (msk - 1)) = (current OR (msk - 1)) then i
      else level_loop n time current (push_bit TIME_LEVEL_SHIFT msk) (Suc i))"

definition add_node :: "timer \<Rightarrow> timer_node \<Rightarrow> timer" where
  "add_node T node =
     (let time = tn_expire node; current_time = tm_time T
      in if (time OR TIME_NEAR_MASK) = (current_time OR TIME_NEAR_MASK)
         then link_near T (unat (time AND TIME_NEAR_MASK)) node
         else let i = level_loop 3 time current_time (push_bit TIME_LEVEL_SHIFT TIME_NEAR) 0
              in link_level T i
                   (unat (drop_bit (TIME_NEAR_SHIFT + i * TIME_LEVEL_SHIFT) time AND TIME_LEVEL_MASK)) node)"

definition timer_add :: "timer \<Rightarrow> timer_event \<Rightarrow> int \<Rightarrow> timer" where
  "timer_add T arg time = add_node T \<lparr>tn_expire = word_of_int time + tm_time T, tn_event = arg\<rparr>"

definition move_list :: "timer \<Rightarrow> nat \<Rightarrow> nat \<Rightarrow> timer" where
  "move_list T level idx =
     fold (\<lambda>node T. add_node T node) (tm_t T level idx)
       (T\<lparr>tm_t := (tm_t T)(level := (tm_t T level)(idx := []))\<rparr>)"

text \<open>
  The loop of \<^verbatim>\<open>timer_shift\<close>, with the number of levels left; going past the last level would
  shift \<^verbatim>\<open>mask\<close> out of its \<^verbatim>\<open>int\<close> and index \<^verbatim>\<open>t[4]\<close>.
\<close>

fun shift_loop :: "nat \<Rightarrow> timer \<Rightarrow> u32 \<Rightarrow> u32 \<Rightarrow> u32 \<Rightarrow> nat \<Rightarrow> c_error + timer" where
  "shift_loop 0 T ct msk time i = Inl Out_of_bounds"
| "shift_loop (Suc n) T ct msk time i =
     (if ct AND (msk - 1) = 0
      then let idx = unat (time AND TIME_LEVEL_MASK)
           in if idx \<noteq> 0 then Inr (move_list T i idx)
              else shift_loop n T ct (push_bit TIME_LEVEL_SHIFT msk) (drop_bit TIME_LEVEL_SHIFT time) (Suc i)
      else Inr T)"

definition timer_shift :: "timer \<Rightarrow> c_error + timer" where
  "timer_shift T =
     (let ct = tm_time T + 1; T1 = T\<lparr>tm_time := ct\<rparr>
      in if ct = 0 then Inr (move_list T1 3 0)
         else shift_loop 4 T1 ct TIME_NEAR (drop_bit TIME_NEAR_SHIFT ct) 0)"

text \<open>
  \<^verbatim>\<open>dispatch_list\<close>: the message pushed to each event's service, in order. \<^verbatim>\<open>timer_execute\<close> repeats
  while the slot has nodes; after \<^verbatim>\<open>link_clear\<close> it has none, so one round is all.
\<close>

definition timeout_message :: "int \<Rightarrow> skynet_message" where
  "timeout_message session =
     \<lparr>msg_source = 0, msg_session = session, msg_data = None,
      msg_sz = push_bit MESSAGE_TYPE_SHIFT (of_nat PTYPE_RESPONSE)\<rparr>"

definition dispatch_list :: "timer_node list \<Rightarrow> (u32 \<times> skynet_message) list" where
  "dispatch_list nodes =
     map (\<lambda>n. (te_handle (tn_event n), timeout_message (te_session (tn_event n)))) nodes"

definition timer_execute :: "timer \<Rightarrow> timer_node list \<times> timer" where
  "timer_execute T =
     (let idx = unat (tm_time T AND TIME_NEAR_MASK)
      in (tm_near T idx, T\<lparr>tm_near := (tm_near T)(idx := [])\<rparr>))"

definition timer_update :: "timer \<Rightarrow> c_error + (timer_node list \<times> timer)" where
  "timer_update T =
     (case timer_execute T of
        (ns0, T0) \<Rightarrow>
          rbind (timer_shift T0) (\<lambda>T1.
            case timer_execute T1 of (ns1, T2) \<Rightarrow> Inr (ns0 @ ns1, T2)))"

definition timer_create_timer :: timer where
  "timer_create_timer =
     \<lparr>tm_near = (\<lambda>_. []), tm_t = (\<lambda>_ _. []), tm_time = 0, tm_starttime = 0, tm_current = 0,
      tm_current_point = 0\<rparr>"

definition skynet_timer_init :: "u32 \<Rightarrow> u32 \<Rightarrow> u64 \<Rightarrow> timer" where
  "skynet_timer_init sec cs point =
     timer_create_timer\<lparr>tm_starttime := sec, tm_current := ucast cs, tm_current_point := point\<rparr>"

text \<open>
  \<^verbatim>\<open>skynet_timeout\<close>: the return value, the message pushed at once if any, and the timer.
  \<open>pushed\<close> is what \<^verbatim>\<open>skynet_context_push\<close> returns for that message.
\<close>

definition skynet_timeout ::
  "timer \<Rightarrow> int \<Rightarrow> u32 \<Rightarrow> int \<Rightarrow> int \<Rightarrow> int \<times> (u32 \<times> skynet_message) option \<times> timer" where
  "skynet_timeout T pushed handle time session =
     (if time \<le> 0
      then (if pushed \<noteq> 0 then -1 else session, Some (handle, timeout_message session), T)
      else (session, None, timer_add T \<lparr>te_handle = handle, te_session = session\<rparr> time))"

fun update_loop :: "nat \<Rightarrow> timer \<Rightarrow> c_error + (timer_node list \<times> timer)" where
  "update_loop 0 T = Inr ([], T)"
| "update_loop (Suc n) T =
     rbind (timer_update T) (\<lambda>(ns, T1).
     rbind (update_loop n T1) (\<lambda>(ms, T2). Inr (ns @ ms, T2)))"

definition skynet_updatetime :: "timer \<Rightarrow> u64 \<Rightarrow> c_error + (timer_node list \<times> timer)" where
  "skynet_updatetime T cp =
     (if cp < tm_current_point T then Inr ([], T\<lparr>tm_current_point := cp\<rparr>)
      else if cp \<noteq> tm_current_point T
      then let diff = ucast (cp - tm_current_point T) :: u32
           in update_loop (unat diff)
                (T\<lparr>tm_current_point := cp, tm_current := tm_current T + ucast diff\<rparr>)
      else Inr ([], T))"

section \<open>Where a node belongs\<close>

text \<open>
  The slot of the wheel that a node expiring at tick \<open>e\<close> belongs to when the clock shows \<open>t\<close>,
  on natural numbers, and the contents of the slots.
\<close>

datatype loc = Near nat | Level nat nat

definition add_loc :: "nat \<Rightarrow> nat \<Rightarrow> loc" where
  "add_loc t e =
     (if e div 2 ^ 8 = t div 2 ^ 8 then Near (e mod 2 ^ 8)
      else if e div 2 ^ 14 = t div 2 ^ 14 then Level 0 (e div 2 ^ 8 mod 64)
      else if e div 2 ^ 20 = t div 2 ^ 20 then Level 1 (e div 2 ^ 14 mod 64)
      else if e div 2 ^ 26 = t div 2 ^ 26 then Level 2 (e div 2 ^ 20 mod 64)
      else Level 3 (e div 2 ^ 26 mod 64))"

definition locs :: "loc set" where
  "locs = Near ` {..<256} \<union> (\<lambda>(l, i). Level l i) ` ({..<4} \<times> {..<64})"

fun at :: "timer \<Rightarrow> loc \<Rightarrow> timer_node list" where
  "at T (Near i) = tm_near T i"
| "at T (Level l i) = tm_t T l i"

fun put :: "timer \<Rightarrow> loc \<Rightarrow> timer_node list \<Rightarrow> timer" where
  "put T (Near i) ns = T\<lparr>tm_near := (tm_near T)(i := ns)\<rparr>"
| "put T (Level l i) ns = T\<lparr>tm_t := (tm_t T)(l := (tm_t T l)(i := ns))\<rparr>"

lemma at_put [simp]: "at (put T l ns) m = (if m = l then ns else at T m)"
  by (cases l; cases m) auto

lemma time_put [simp]: "tm_time (put T l ns) = tm_time T"
  by (cases l) auto

lemma finite_locs [simp]: "finite locs"
  by (simp add: locs_def)

lemma add_loc_in_locs: "add_loc t e \<in> locs"
  by (auto simp: add_loc_def locs_def image_iff)

abbreviation clock :: "timer \<Rightarrow> nat" where "clock T \<equiv> unat (tm_time T)"
abbreviation due :: "timer_node \<Rightarrow> nat" where "due n \<equiv> unat (tn_expire n)"

lemma add_node_loc:
  "add_node T n = put T (add_loc (clock T) (due n)) (at T (add_loc (clock T) (due n)) @ [n])"
proof -
  let ?e = "tn_expire n" and ?t = "tm_time T"
  have m: "(?e OR mask k) = (?t OR mask k) \<longleftrightarrow> due n div 2 ^ k = clock T div 2 ^ k" for k
    by (rule or_mask_eq_iff)
  have masks: "(255 :: u32) = mask 8" "(0x3fff :: u32) = mask 14" "(0xfffff :: u32) = mask 20"
    "(0x3ffffff :: u32) = mask 26" "(63 :: u32) = mask 6"
    by (simp_all add: mask_eq_exp_minus_1)
  note eqs = m [of 8, folded masks] m [of 14, folded masks] m [of 20, folded masks] m [of 26, folded masks]
  have u: "unat (w AND 255) = unat w mod 2 ^ 8" "unat (w AND 63) = unat w mod 64" for w :: u32
    using unat_and_mask [of w 8] unat_and_mask [of w 6] by (simp_all add: masks)
  show ?thesis
    by (simp add: add_node_def Let_def TIME_NEAR_MASK_def TIME_LEVEL_SHIFT_def TIME_NEAR_SHIFT_def
        TIME_NEAR_def TIME_LEVEL_MASK_def eqs u unat_drop_bit add_loc_def link_near_def link_level_def
        numeral_3_eq_3 numeral_2_eq_2 del: power_numeral)
qed

section \<open>What one tick does to the places\<close>

text \<open>
  \<open>future t e\<close>: tick \<open>e\<close> is still ahead of a clock showing \<open>t\<close>, where ticks of another
  block of the top level count as ahead because the clock wraps. \<open>shift_loc ct\<close> is the slot
  \<^verbatim>\<open>timer_shift\<close> redistributes when the clock becomes \<open>ct\<close>.
\<close>

definition future :: "nat \<Rightarrow> nat \<Rightarrow> bool" where
  "future t e \<longleftrightarrow> e \<noteq> t \<and> (e div 2 ^ 26 = t div 2 ^ 26 \<longrightarrow> t < e)"

definition shift_loc :: "nat \<Rightarrow> loc option" where
  "shift_loc ct =
     (if ct = 0 then Some (Level 3 0)
      else if ct mod 2 ^ 8 \<noteq> 0 then None
      else if ct div 2 ^ 8 mod 64 \<noteq> 0 then Some (Level 0 (ct div 2 ^ 8 mod 64))
      else if ct div 2 ^ 14 mod 64 \<noteq> 0 then Some (Level 1 (ct div 2 ^ 14 mod 64))
      else if ct div 2 ^ 20 mod 64 \<noteq> 0 then Some (Level 2 (ct div 2 ^ 20 mod 64))
      else Some (Level 3 (ct div 2 ^ 26 mod 64)))"

lemma div_chain:
  "(x :: nat) div 2 ^ 14 = x div 2 ^ 8 div 64" "x div 2 ^ 20 = x div 2 ^ 14 div 64"
  "x div 2 ^ 26 = x div 2 ^ 20 div 64"
  by (simp_all add: div_mult2_eq [symmetric])

lemma mod_64_eq: "(x :: nat) div 64 = y div 64 \<Longrightarrow> x mod 64 = y mod 64 \<Longrightarrow> x = y"
  by (metis div_mult_mod_eq)

lemma Suc_div_same: "Suc t mod m \<noteq> 0 \<Longrightarrow> Suc t div m = t div m"
  by (simp add: div_Suc)

lemma Suc_block_end:
  assumes "Suc t mod m = 0" "0 < m" "e div m = t div m"
  shows "e \<le> t"
proof -
  have "t mod m = m - 1" using assms(1,2) by (simp add: mod_Suc split: if_splits)
  then have t: "t = e div m * m + (m - 1)" by (metis assms(3) div_mult_mod_eq)
  have "e mod m \<le> m - 1" using assms(2) by (simp add: Suc_leI less_Suc_eq_le [symmetric])
  then have "e div m * m + e mod m \<le> t" by (subst t) (rule add_left_mono)
  then show ?thesis by simp
qed

lemma Suc_block_start:
  assumes "Suc t mod m = 0" "0 < m" "e div m = Suc t div m"
  shows "Suc t \<le> e"
proof -
  have "Suc t = Suc t div m * m" using assms(1) by (metis add.right_neutral div_mult_mod_eq)
  also have "\<dots> \<le> e" using assms(3) by (metis div_times_less_eq_dividend)
  finally show ?thesis .
qed

lemma future_Suc:
  assumes "future t e" "e div 2 ^ 26 = Suc t div 2 ^ 26"
  shows "Suc t \<le> e"
proof (cases "Suc t mod 2 ^ 26 = 0")
  case True
  with assms(2) show ?thesis by (intro Suc_block_start [of t "2 ^ 26"]) simp_all
next
  case False
  with assms show ?thesis by (simp add: future_def Suc_div_same)
qed

lemma mod_chain_0:
  "(x :: nat) mod 2 ^ 14 = 0 \<longleftrightarrow> x mod 2 ^ 8 = 0 \<and> x div 2 ^ 8 mod 64 = 0"
  "x mod 2 ^ 20 = 0 \<longleftrightarrow> x mod 2 ^ 14 = 0 \<and> x div 2 ^ 14 mod 64 = 0"
  "x mod 2 ^ 26 = 0 \<longleftrightarrow> x mod 2 ^ 20 = 0 \<and> x div 2 ^ 20 mod 64 = 0"
  by (auto simp: mod_mult2_eq [of x 256 64, simplified] mod_mult2_eq [of x 16384 64, simplified]
      mod_mult2_eq [of x 1048576 64, simplified])

lemma near_block_end:
  assumes "future t e" "Suc t mod 2 ^ k = 0" "k \<le> 26"
  shows "e div 2 ^ k \<noteq> t div 2 ^ k"
proof
  assume eq: "e div 2 ^ k = t div 2 ^ k"
  have "(2::nat) ^ 26 = 2 ^ k * 2 ^ (26 - k)" using assms(3) by (simp flip: power_add)
  then have "e div 2 ^ 26 = t div 2 ^ 26" using eq by (metis div_mult2_eq)
  with assms(1) have "t < e" by (simp add: future_def)
  moreover have "e \<le> t" using Suc_block_end [of t "2 ^ k" e] assms(2) eq by simp
  ultimately show False by simp
qed

lemma add_loc_level3:
  assumes "e div 2 ^ 26 \<noteq> t div 2 ^ 26"
  shows "add_loc t e = Level 3 (e div 2 ^ 26 mod 64)"
proof -
  have c: "e div 2 ^ 20 \<noteq> t div 2 ^ 20" using assms by (metis div_chain(3))
  then have b: "e div 2 ^ 14 \<noteq> t div 2 ^ 14" by (metis div_chain(2))
  then have "e div 2 ^ 8 \<noteq> t div 2 ^ 8" by (metis div_chain(1))
  with assms b c show ?thesis by (simp add: add_loc_def del: power_numeral)
qed

text \<open>A node that the shift does not redistribute is in the right place for the new clock.\<close>

lemma add_loc_Suc:
  assumes "future t e" "Suc t < 2 ^ 32" "shift_loc (Suc t) \<noteq> Some (add_loc t e)"
  shows "add_loc (Suc t) e = add_loc t e"
proof -
  note same = Suc_div_same [of t] and mc = mod_chain_0 [of "Suc t"]
  consider (a) "Suc t mod 2 ^ 8 \<noteq> 0"
    | (b) "Suc t mod 2 ^ 8 = 0" "Suc t mod 2 ^ 14 \<noteq> 0"
    | (c) "Suc t mod 2 ^ 14 = 0" "Suc t mod 2 ^ 20 \<noteq> 0"
    | (d) "Suc t mod 2 ^ 20 = 0" "Suc t mod 2 ^ 26 \<noteq> 0"
    | (e) "Suc t mod 2 ^ 26 = 0"
    using mc by blast
  then show ?thesis
  proof cases
    case a
    then have "Suc t mod 2 ^ 14 \<noteq> 0" "Suc t mod 2 ^ 20 \<noteq> 0" "Suc t mod 2 ^ 26 \<noteq> 0"
      by (simp_all only: mc simp_thms)
    then show ?thesis
      using a by (simp only: add_loc_def same simp_thms)
  next
    case b
    then have h: "Suc t mod 2 ^ 20 \<noteq> 0" "Suc t mod 2 ^ 26 \<noteq> 0" by (simp_all only: mc simp_thms)
    note s = same [OF b(2)] same [OF h(1)] same [OF h(2)]
    have t: "e div 2 ^ 8 \<noteq> t div 2 ^ 8" using near_block_end [OF assms(1) b(1)] by simp
    have sl: "shift_loc (Suc t) = Some (Level 0 (Suc t div 2 ^ 8 mod 64))"
      using b mc by (simp add: shift_loc_def del: power_numeral)
    have "e div 2 ^ 8 \<noteq> Suc t div 2 ^ 8"
    proof
      assume eq: "e div 2 ^ 8 = Suc t div 2 ^ 8"
      then have "e div 2 ^ 14 = t div 2 ^ 14" by (metis s(1) div_chain(1))
      with t eq have "add_loc t e = Level 0 (Suc t div 2 ^ 8 mod 64)" by (simp only: add_loc_def simp_thms if_False if_True)
      with sl assms(3) show False by simp
    qed
    with t show ?thesis by (simp only: add_loc_def s simp_thms if_False)
  next
    case c
    then have h: "Suc t mod 2 ^ 26 \<noteq> 0" "Suc t mod 2 ^ 8 = 0" by (simp_all only: mc simp_thms)
    note s = same [OF c(2)] same [OF h(1)]
    have t: "e div 2 ^ 14 \<noteq> t div 2 ^ 14" using near_block_end [OF assms(1) c(1)] by simp
    then have t': "e div 2 ^ 8 \<noteq> t div 2 ^ 8" by (metis div_chain(1))
    have sl: "shift_loc (Suc t) = Some (Level 1 (Suc t div 2 ^ 14 mod 64))"
      using c mc by (simp add: shift_loc_def del: power_numeral)
    have "e div 2 ^ 14 \<noteq> Suc t div 2 ^ 14"
    proof
      assume eq: "e div 2 ^ 14 = Suc t div 2 ^ 14"
      then have "e div 2 ^ 20 = t div 2 ^ 20" by (metis s(1) div_chain(2))
      with t t' eq have "add_loc t e = Level 1 (Suc t div 2 ^ 14 mod 64)" by (simp only: add_loc_def simp_thms if_False if_True)
      with sl assms(3) show False by simp
    qed
    moreover from this have "e div 2 ^ 8 \<noteq> Suc t div 2 ^ 8" by (metis div_chain(1))
    ultimately show ?thesis using t t' by (simp only: add_loc_def s simp_thms if_False)
  next
    case d
    note s = same [OF d(2)]
    have t: "e div 2 ^ 20 \<noteq> t div 2 ^ 20" using near_block_end [OF assms(1) d(1)] by simp
    then have t': "e div 2 ^ 14 \<noteq> t div 2 ^ 14" by (metis div_chain(2))
    then have t'': "e div 2 ^ 8 \<noteq> t div 2 ^ 8" by (metis div_chain(1))
    have sl: "shift_loc (Suc t) = Some (Level 2 (Suc t div 2 ^ 20 mod 64))"
      using d mc by (simp add: shift_loc_def del: power_numeral)
    have n: "e div 2 ^ 20 \<noteq> Suc t div 2 ^ 20"
    proof
      assume eq: "e div 2 ^ 20 = Suc t div 2 ^ 20"
      then have "e div 2 ^ 26 = t div 2 ^ 26" by (metis s div_chain(3))
      with t t' t'' eq have "add_loc t e = Level 2 (Suc t div 2 ^ 20 mod 64)" by (simp only: add_loc_def simp_thms if_False if_True)
      with sl assms(3) show False by simp
    qed
    then have n': "e div 2 ^ 14 \<noteq> Suc t div 2 ^ 14" by (metis div_chain(2))
    then have "e div 2 ^ 8 \<noteq> Suc t div 2 ^ 8" by (metis div_chain(1))
    with n n' t t' t'' show ?thesis by (simp only: add_loc_def s simp_thms if_False)
  next
    case e
    have ne: "e div 2 ^ 26 \<noteq> t div 2 ^ 26" using near_block_end [OF assms(1) e] by simp
    moreover have "shift_loc (Suc t) = Some (Level 3 (Suc t div 2 ^ 26 mod 64))"
      using e mc by (simp add: shift_loc_def del: power_numeral)
    ultimately have "e div 2 ^ 26 \<noteq> Suc t div 2 ^ 26"
      using assms(3) add_loc_level3 [OF ne] by metis
    then show ?thesis using add_loc_level3 ne by simp
  qed
qed

lemma add_loc_wrap:
  assumes "future t e" "Suc t = 2 ^ 32" "e < 2 ^ 32" "add_loc t e \<noteq> Level 3 0"
  shows "add_loc 0 e = add_loc t e"
proof -
  have t26: "t div 2 ^ 26 = 63" using assms(2) by simp
  have "e div 2 ^ 26 \<noteq> 63"
  proof
    assume "e div 2 ^ 26 = 63"
    with t26 assms(1) have "t < e" by (simp add: future_def del: power_numeral)
    with assms(2,3) show False by simp
  qed
  then have l3: "add_loc t e = Level 3 (e div 2 ^ 26 mod 64)" by (simp add: add_loc_level3 t26 del: power_numeral)
  with assms(4) have "e div 2 ^ 26 \<noteq> 0 div 2 ^ 26" by auto
  with l3 show ?thesis by (simp add: add_loc_level3 del: power_numeral)
qed

section \<open>The wheel invariant\<close>

text \<open>
  \<open>wheel_inv\<close>: every node is in its slot and still ahead of the clock. Between the shift and
  the second \<^verbatim>\<open>timer_execute\<close> of a tick, nodes that are due right now are still in the wheel
  (\<open>wheel_due\<close>). \<open>nodes\<close> is everything the wheel holds.
\<close>

definition wheel_due :: "timer \<Rightarrow> bool" where
  "wheel_due T \<longleftrightarrow>
     (\<forall>l n. n \<in> set (at T l) \<longrightarrow>
        l = add_loc (clock T) (due n) \<and> (due n = clock T \<or> future (clock T) (due n)))"

definition wheel_inv :: "timer \<Rightarrow> bool" where
  "wheel_inv T \<longleftrightarrow>
     (\<forall>l n. n \<in> set (at T l) \<longrightarrow> l = add_loc (clock T) (due n) \<and> future (clock T) (due n))"

definition nodes :: "timer \<Rightarrow> timer_node multiset" where
  "nodes T = (\<Sum>l\<in>locs. mset (at T l))"

lemma nodes_put: "l \<in> locs \<Longrightarrow> nodes (put T l ns) + mset (at T l) = nodes T + mset ns"
proof -
  assume l: "l \<in> locs"
  have "(\<Sum>m\<in>locs - {l}. mset (at (put T l ns) m)) = (\<Sum>m\<in>locs - {l}. mset (at T m))"
    by (rule sum.cong) auto
  with l show ?thesis by (simp add: nodes_def sum.remove [of locs l])
qed

lemma add_node_time [simp]: "tm_time (add_node T n) = tm_time T"
  by (simp add: add_node_loc)

lemma nodes_add_node: "nodes (add_node T n) = nodes T + {#n#}"
  using nodes_put [OF add_loc_in_locs, of T "clock T" "due n" "at T (add_loc (clock T) (due n)) @ [n]"]
  by (simp add: add_node_loc)

lemma wheel_due_add_node:
  assumes "wheel_due T" "due n = clock T \<or> future (clock T) (due n)"
  shows "wheel_due (add_node T n)"
  using assms unfolding wheel_due_def by (auto simp: add_node_loc split: if_splits)

lemma wheel_inv_add_node:
  assumes "wheel_inv T" "future (clock T) (due n)"
  shows "wheel_inv (add_node T n)"
  using assms unfolding wheel_inv_def by (auto simp: add_node_loc split: if_splits)

lemma fold_add_node:
  assumes "wheel_due T" "\<forall>n\<in>set ns. due n = clock T \<or> future (clock T) (due n)"
  shows "wheel_due (fold (\<lambda>n T. add_node T n) ns T)
    \<and> nodes (fold (\<lambda>n T. add_node T n) ns T) = nodes T + mset ns
    \<and> tm_time (fold (\<lambda>n T. add_node T n) ns T) = tm_time T"
  using assms
proof (induction ns arbitrary: T)
  case (Cons n ns)
  with Cons.IH [of "add_node T n"] show ?case by (simp add: wheel_due_add_node nodes_add_node)
qed simp

section \<open>One tick\<close>

lemma move_list_put:
  "move_list T l i = fold (\<lambda>n T. add_node T n) (at T (Level l i)) (put T (Level l i) [])"
  by (simp add: move_list_def)

fun move_loc :: "timer \<Rightarrow> loc option \<Rightarrow> timer" where
  "move_loc T None = T"
| "move_loc T (Some l) = fold (\<lambda>n T. add_node T n) (at T l) (put T l [])"

text \<open>\<^verbatim>\<open>timer_shift\<close> redistributes the slot \<open>shift_loc\<close> and never runs off the last level.\<close>

lemma timer_shift_move:
  "timer_shift T = Inr (move_loc (T\<lparr>tm_time := tm_time T + 1\<rparr>) (shift_loc (unat (tm_time T + 1))))"
proof -
  let ?c = "tm_time T + 1"
  have masks: "(255 :: u32) = mask 8" "(0x3fff :: u32) = mask 14" "(0xfffff :: u32) = mask 20"
    "(0x3ffffff :: u32) = mask 26" "(63 :: u32) = mask 6"
    by (simp_all add: mask_eq_exp_minus_1)
  have z: "(w AND mask k = 0) = (unat w mod 2 ^ k = 0)" for w :: u32 and k
    by (metis unat_and_mask unat_eq_zero unsigned_0)
  note zs = z [of _ 8, folded masks] z [of _ 14, folded masks] z [of _ 20, folded masks]
    z [of _ 26, folded masks]
  have u: "unat (w AND 63) = unat w mod 64" for w :: u32
    using unat_and_mask [of w 6] by (simp add: masks)
  have top: "unat w mod 2 ^ 26 = 0 \<Longrightarrow> w \<noteq> 0 \<Longrightarrow> unat w div 2 ^ 26 mod 64 \<noteq> 0" for w :: u32
  proof -
    assume a: "unat w mod 2 ^ 26 = 0" "w \<noteq> 0"
    have "unat w < 2 ^ 32" using unsigned_less [of w] by simp
    then have "unat w div 2 ^ 26 < 64" by (simp add: less_mult_imp_div_less)
    moreover have "unat w div 2 ^ 26 \<noteq> 0" using a by (metis div_mult_mod_eq mult_zero_left add_0 unat_eq_zero)
    ultimately show ?thesis by simp
  qed
  have four: "shift_loop 4 = shift_loop (Suc (Suc (Suc (Suc 0))))" by (simp add: eval_nat_numeral)
  show ?thesis
    using mod_chain_0 [of "unat ?c"] top [of ?c]
    by (simp add: timer_shift_def Let_def TIME_LEVEL_SHIFT_def TIME_NEAR_SHIFT_def
        TIME_NEAR_def TIME_LEVEL_MASK_def zs u unat_drop_bit shift_loc_def four numeral_3_eq_3 numeral_2_eq_2
        move_list_put unat_eq_zero)
qed

text \<open>What the shift does: the same nodes, in their places for the new clock.\<close>

lemma timer_shift_correct:
  assumes "wheel_inv T"
  obtains T' where "timer_shift T = Inr T'" "tm_time T' = tm_time T + 1" "nodes T' = nodes T" "wheel_due T'"
proof -
  define ct where "ct = unat (tm_time T + 1)"
  define T1 where "T1 = T\<lparr>tm_time := tm_time T + 1\<rparr>"
  have at1: "at T1 l = at T l" for l by (cases l) (simp_all add: T1_def)
  have nodes1: "nodes T1 = nodes T" by (simp add: nodes_def at1)
  have clk: "clock T1 = ct" by (simp add: T1_def ct_def)
  have e32: "due n < 2 ^ 32" for n using unsigned_less [of "tn_expire n"] by simp
  have ct: "ct = Suc (clock T) \<and> Suc (clock T) < 2 ^ 32 \<or> ct = 0 \<and> Suc (clock T) = 2 ^ 32"
  proof (cases "Suc (clock T) = 2 ^ 32")
    case True
    then show ?thesis by (simp add: ct_def unat_add_mod)
  next
    case False
    then have "Suc (clock T) < 2 ^ 32" using unsigned_less [of "tm_time T", where ?'a = nat] by simp
    then show ?thesis by (simp add: ct_def unat_add_mod)
  qed
  have inv: "l = add_loc (clock T) (due n)" "future (clock T) (due n)" if "n \<in> set (at T l)" for l n
    using assms that by (auto simp: wheel_inv_def)
  have weak: "due n = ct \<or> future ct (due n)" if "n \<in> set (at T l)" for l n
    using ct future_Suc [OF inv(2) [OF that]] by (auto simp: future_def simp del: power_numeral)
  have stay: "l = add_loc ct (due n)" if "n \<in> set (at T l)" "shift_loc ct \<noteq> Some l" for l n
    using ct add_loc_Suc [OF inv(2) [OF that(1)]] add_loc_wrap [OF inv(2) [OF that(1)] _ e32]
      inv(1) [OF that(1)] that(2) by (auto simp: shift_loc_def simp del: power_numeral)
  have "wheel_due (move_loc T1 (shift_loc ct)) \<and> nodes (move_loc T1 (shift_loc ct)) = nodes T1
    \<and> tm_time (move_loc T1 (shift_loc ct)) = tm_time T1"
  proof (cases "shift_loc ct")
    case None
    then show ?thesis using stay weak by (simp add: wheel_due_def at1 clk)
  next
    case (Some l)
    then have l: "l \<in> locs" by (auto simp: shift_loc_def locs_def image_iff split: if_splits)
    have "wheel_due (put T1 l [])"
      unfolding wheel_due_def using stay weak Some by (auto simp: at1 clk split: if_splits)
    moreover have "nodes (put T1 l []) + mset (at T1 l) = nodes T1" using nodes_put [OF l, of T1 "[]"] by simp
    ultimately show ?thesis using fold_add_node [of "put T1 l []" "at T1 l"] Some weak by (auto simp: at1 clk)
  qed
  then show ?thesis
    using that timer_shift_move [of T] nodes1 by (auto simp: T1_def [symmetric] ct_def [symmetric]) (simp add: T1_def)
qed

text \<open>What \<^verbatim>\<open>timer_execute\<close> does: it takes out the nodes that are due.\<close>

lemma timer_execute_correct:
  assumes "wheel_due T" "timer_execute T = (ns, T')"
  shows "mset ns = filter_mset (\<lambda>n. tn_expire n = tm_time T) (nodes T)"
    and "nodes T' = filter_mset (\<lambda>n. tn_expire n \<noteq> tm_time T) (nodes T)"
    and "wheel_inv T'" and "tm_time T' = tm_time T"
proof -
  define l where "l = Near (clock T mod 2 ^ 8)"
  have mk: "(255 :: u32) = mask 8" by (simp add: mask_eq_exp_minus_1)
  have ns: "ns = at T l" and T': "T' = put T l []"
    using assms(2) unat_and_mask [of "tm_time T" 8]
    by (auto simp: timer_execute_def Let_def TIME_NEAR_MASK_def mk l_def)
  have l: "l \<in> locs" by (simp add: l_def locs_def)
  have l_add: "l = add_loc (clock T) (clock T)" by (simp add: l_def add_loc_def)
  have eq: "due n = clock T \<longleftrightarrow> tn_expire n = tm_time T" for n by (simp add: word_unat_eq_iff)
  have here: "due n = clock T" if "n \<in> set (at T l)" for n
  proof -
    have "l = add_loc (clock T) (due n)" using assms(1) that by (auto simp: wheel_due_def)
    then have "due n div 2 ^ 8 = clock T div 2 ^ 8" "due n mod 2 ^ 8 = clock T mod 2 ^ 8"
      by (auto simp: l_def add_loc_def split: if_splits simp del: power_numeral)
    then show ?thesis by (metis div_mult_mod_eq)
  qed
  have there: "due n \<noteq> clock T" if "n \<in> set (at T m)" "m \<noteq> l" for m n
    using assms(1) that l_add unfolding wheel_due_def by metis
  have all: "x \<in># nodes T' \<Longrightarrow> tn_expire x \<noteq> tm_time T" for x
  proof -
    assume "x \<in># nodes T'"
    then obtain m where "m \<in> locs" "x \<in> set (at T' m)" by (auto simp: nodes_def set_mset_sum)
    then have "m \<noteq> l" "x \<in> set (at T m)" by (auto simp: T' split: if_splits)
    then show ?thesis using there eq by blast
  qed
  have sum: "nodes T = nodes T' + mset ns" using nodes_put [OF l, of T "[]"] by (simp add: ns T')
  have f1: "filter_mset (\<lambda>n. tn_expire n = tm_time T) (mset ns) = mset ns"
    using here eq by (auto simp: ns filter_mset_eq_conv)
  have f2: "filter_mset (\<lambda>n. tn_expire n = tm_time T) (nodes T') = {#}" using all by auto
  show "mset ns = filter_mset (\<lambda>n. tn_expire n = tm_time T) (nodes T)" by (simp only: sum filter_union_mset f1 f2 add_0)
  have g1: "filter_mset (\<lambda>n. tn_expire n \<noteq> tm_time T) (mset ns) = {#}"
    using here eq by (auto simp: ns)
  have g2: "filter_mset (\<lambda>n. tn_expire n \<noteq> tm_time T) (nodes T') = nodes T'"
    using all by (auto simp: filter_mset_eq_conv)
  show "nodes T' = filter_mset (\<lambda>n. tn_expire n \<noteq> tm_time T) (nodes T)"
    by (simp only: sum filter_union_mset g1 g2 add_0_right)
  show "tm_time T' = tm_time T" by (simp add: T')
  show "wheel_inv T'"
    unfolding wheel_inv_def using assms(1) there by (auto simp: T' wheel_due_def split: if_splits)
qed

text \<open>The slot array never mentions a node twice as due: what is ahead of the clock is not now.\<close>

lemma wheel_inv_due: "wheel_inv T \<Longrightarrow> wheel_due T"
  by (auto simp: wheel_inv_def wheel_due_def)

lemma nodes_not_now:
  assumes "wheel_inv T" "n \<in># nodes T"
  shows "tn_expire n \<noteq> tm_time T"
proof -
  from assms(2) obtain l where "n \<in> set (at T l)" by (auto simp: nodes_def set_mset_sum)
  with assms(1) have "future (clock T) (due n)" unfolding wheel_inv_def by blast
  then show ?thesis by (auto simp: future_def)
qed

lemma timer_update_correct:
  assumes "wheel_inv T"
  obtains ns T' where "timer_update T = Inr (ns, T')" "tm_time T' = tm_time T + 1" "wheel_inv T'"
    "mset ns = filter_mset (\<lambda>n. tn_expire n = tm_time T + 1) (nodes T)"
    "nodes T' = filter_mset (\<lambda>n. tn_expire n \<noteq> tm_time T + 1) (nodes T)"
proof -
  obtain ns0 T0 where e0: "timer_execute T = (ns0, T0)" by fastforce
  note x0 = timer_execute_correct [OF wheel_inv_due [OF assms] e0]
  have n0: "nodes T0 = nodes T" using x0(2) nodes_not_now [OF assms] by (auto simp: filter_mset_eq_conv)
  have "filter_mset (\<lambda>n. tn_expire n = tm_time T) (nodes T) = {#}" using nodes_not_now [OF assms] by auto
  then have ns0: "ns0 = []" using x0(1) by (simp only: mset_zero_iff)
  obtain T1 where s: "timer_shift T0 = Inr T1" "tm_time T1 = tm_time T0 + 1" "nodes T1 = nodes T0" "wheel_due T1"
    using timer_shift_correct [OF x0(3)] by blast
  obtain ns1 T2 where e1: "timer_execute T1 = (ns1, T2)" by fastforce
  note x1 = timer_execute_correct [OF s(4) e1]
  have "timer_update T = Inr (ns1, T2)" by (simp add: timer_update_def e0 s(1) e1 ns0)
  then show ?thesis using that x1 x0(4) s(2,3) n0 by simp
qed

text \<open>How many ticks ahead of the clock a node expires, on the wrapping clock.\<close>

definition ticks_left :: "timer \<Rightarrow> timer_node \<Rightarrow> nat" where
  "ticks_left T n = unat (tn_expire n - tm_time T)"

lemma ticks_left_0 [simp]: "ticks_left T n = 0 \<longleftrightarrow> tn_expire n = tm_time T"
  by (simp add: ticks_left_def unat_eq_zero)

lemma ticks_left_1 [simp]: "ticks_left T n = Suc 0 \<longleftrightarrow> tn_expire n = tm_time T + 1"
proof -
  have "ticks_left T n = Suc 0 \<longleftrightarrow> tn_expire n - tm_time T = 1"
    unfolding ticks_left_def by (metis One_nat_def unat_1 word_unat_eq_iff)
  then show ?thesis by (metis add.commute diff_add_cancel add_diff_cancel_left')
qed

lemma ticks_left_tick:
  assumes "tm_time T' = tm_time T + 1" "tn_expire n \<noteq> tm_time T"
  shows "ticks_left T n = Suc (ticks_left T' n)"
proof -
  let ?x = "tn_expire n - tm_time T"
  have "?x \<noteq> 0" using assms(2) by simp
  then have "unat (?x - 1) = unat ?x - 1" by (rule unat_minus_one)
  moreover have "0 < unat ?x" using \<open>?x \<noteq> 0\<close> unat_gt_0 by blast
  ultimately show ?thesis by (simp add: ticks_left_def assms(1) diff_diff_eq)
qed

lemma filter_mset_split:
  "filter_mset P M + filter_mset (\<lambda>x. \<not> P x \<and> Q x) M = filter_mset (\<lambda>x. P x \<or> Q x) M"
  by (induction M) auto

lemma update_loop_correct:
  assumes "wheel_inv T"
  shows "\<exists>ns T'. update_loop k T = Inr (ns, T') \<and> wheel_inv T' \<and> tm_time T' = tm_time T + of_nat k
    \<and> mset ns = filter_mset (\<lambda>n. ticks_left T n \<le> k) (nodes T)
    \<and> nodes T' = filter_mset (\<lambda>n. k < ticks_left T n) (nodes T)
    \<and> sorted (map (ticks_left T) ns)"
  using assms
proof (induction k arbitrary: T)
  case 0
  have "filter_mset (\<lambda>n. tn_expire n = tm_time T) (nodes T) = {#}" using nodes_not_now [OF 0] by auto
  moreover have "filter_mset (\<lambda>n. 0 < ticks_left T n) (nodes T) = nodes T"
    using nodes_not_now [OF 0] by (auto simp: filter_mset_eq_conv simp flip: neq0_conv)
  ultimately show ?case using 0 by simp
next
  case (Suc k)
  obtain ns T' where u: "timer_update T = Inr (ns, T')" "tm_time T' = tm_time T + 1" "wheel_inv T'"
    "mset ns = filter_mset (\<lambda>n. tn_expire n = tm_time T + 1) (nodes T)"
    "nodes T' = filter_mset (\<lambda>n. tn_expire n \<noteq> tm_time T + 1) (nodes T)"
    using timer_update_correct [OF Suc.prems] by blast
  obtain ms T2 where l: "update_loop k T' = Inr (ms, T2)" "wheel_inv T2" "tm_time T2 = tm_time T' + of_nat k"
    "mset ms = filter_mset (\<lambda>n. ticks_left T' n \<le> k) (nodes T')"
    "nodes T2 = filter_mset (\<lambda>n. k < ticks_left T' n) (nodes T')" "sorted (map (ticks_left T') ms)"
    using Suc.IH [OF u(3)] by blast
  have tl: "ticks_left T n = Suc (ticks_left T' n)" if "n \<in># nodes T" for n
    using ticks_left_tick [OF u(2)] nodes_not_now [OF Suc.prems that] by simp
  have ms: "set ms \<subseteq> set_mset (nodes T)" 
    using arg_cong [OF l(4), of set_mset] by (auto simp: u(5))
  have ns1: "\<forall>n\<in>set ns. ticks_left T n = Suc 0" 
    using arg_cong [OF u(4), of set_mset] by auto
  have "ticks_left T n = Suc (ticks_left T' n)" if "n \<in> set ms" for n using tl ms that by auto
  then have "sorted (map (ticks_left T) ms)"
    using l(6) by (auto simp: sorted_map elim!: sorted_wrt_mono_rel [rotated])
  moreover have "Suc 0 \<le> ticks_left T m" if "m \<in> set ms" for m using tl ms that by auto
  moreover have "sorted (map (ticks_left T) ns)" using ns1 by (induction ns) (auto simp del: ticks_left_1)
  ultimately have srt: "sorted (map (ticks_left T) (ns @ ms))"
    using ns1 by (auto simp: sorted_append simp del: ticks_left_1)
  have "mset (ns @ ms) = filter_mset (\<lambda>n. tn_expire n = tm_time T + 1) (nodes T)
      + filter_mset (\<lambda>n. tn_expire n \<noteq> tm_time T + 1 \<and> ticks_left T' n \<le> k) (nodes T)"
    by (simp add: u(4,5) l(4) filter_filter_mset)
  also have "\<dots> = filter_mset (\<lambda>n. ticks_left T n \<le> Suc k) (nodes T)"
    unfolding filter_mset_split using tl by (intro filter_mset_cong) (auto simp flip: ticks_left_1 ticks_left_0)
  finally have m: "mset (ns @ ms) = filter_mset (\<lambda>n. ticks_left T n \<le> Suc k) (nodes T)" .
  have "nodes T2 = filter_mset (\<lambda>n. tn_expire n \<noteq> tm_time T + 1 \<and> k < ticks_left T' n) (nodes T)"
    by (simp add: u(5) l(5) filter_filter_mset)
  also have "\<dots> = filter_mset (\<lambda>n. Suc k < ticks_left T n) (nodes T)"
    using tl by (intro filter_mset_cong) (auto simp flip: ticks_left_1 ticks_left_0)
  finally have n: "nodes T2 = filter_mset (\<lambda>n. Suc k < ticks_left T n) (nodes T)" .
  from u l m n srt show ?case by (auto simp: algebra_simps)
qed

section \<open>Adding timers\<close>

lemma future_add:
  assumes "0 < d" "d < 2 ^ 31" "t < 2 ^ 32"
  shows "future t ((d + t) mod 2 ^ 32)"
proof (cases "d + t < 2 ^ 32")
  case True
  with assms show ?thesis by (simp add: future_def)
next
  case False
  with assms have e: "(d + t) mod 2 ^ 32 = d + t - 2 ^ 32" by (simp add: le_mod_geq)
  have "(d + t - 2 ^ 32) div 2 ^ 26 \<noteq> t div 2 ^ 26"
    using False assms by (simp; linarith)
  with e False assms show ?thesis by (auto simp: future_def)
qed

lemma timer_add_correct:
  assumes "wheel_inv T" "0 < d" "d < 2 ^ 31"
  shows "wheel_inv (timer_add T ev d)"
    and "nodes (timer_add T ev d) = nodes T + {#\<lparr>tn_expire = word_of_int d + tm_time T, tn_event = ev\<rparr>#}"
    and "tm_time (timer_add T ev d) = tm_time T"
proof -
  have "unat (word_of_int d :: u32) = nat d"
    using assms(2,3) by (simp add: unat_eq_nat_uint uint_word_of_int)
  then have "unat (word_of_int d + tm_time T) = (nat d + clock T) mod 2 ^ 32"
    by (simp add: unat_add_mod)
  moreover have "future (clock T) ((nat d + clock T) mod 2 ^ 32)"
    using future_add [of "nat d" "clock T"] assms(2,3) unsigned_less [of "tm_time T", where ?'a = nat] by simp
  ultimately show "wheel_inv (timer_add T ev d)"
    using assms(1) by (simp add: timer_add_def wheel_inv_add_node)
qed (simp_all add: timer_add_def nodes_add_node)

lemma wheel_inv_create [simp]: "wheel_inv timer_create_timer" "wheel_inv (skynet_timer_init sec cs point)"
proof -
  have "at timer_create_timer l = []" "at (skynet_timer_init sec cs point) l = []" for l
    by (cases l; simp add: timer_create_timer_def skynet_timer_init_def)+
  then show "wheel_inv timer_create_timer" "wheel_inv (skynet_timer_init sec cs point)"
    by (simp_all add: wheel_inv_def)
qed

lemma point_put [simp]: "tm_current_point (put T l ns) = tm_current_point T"
  by (cases l) auto

lemma point_fold_add [simp]:
  "tm_current_point (fold (\<lambda>n T. add_node T n) ns T) = tm_current_point T"
  by (induction ns arbitrary: T) (simp_all add: add_node_loc)

lemma point_move_loc [simp]: "tm_current_point (move_loc T l) = tm_current_point T"
  by (cases l) simp_all

lemma point_timer_update:
  "timer_update T = Inr (ns, T') \<Longrightarrow> tm_current_point T' = tm_current_point T"
  by (auto simp: timer_update_def timer_execute_def timer_shift_move Let_def)

lemma point_update_loop:
  "update_loop k T = Inr (ns, T') \<Longrightarrow> tm_current_point T' = tm_current_point T"
  by (induction k arbitrary: T ns) (auto simp: rbind_eq_Inr dest: point_timer_update)

lemma at_clock_fields [simp]:
  "at (T\<lparr>tm_current_point := cp\<rparr>) l = at T l" "at (T\<lparr>tm_current := c\<rparr>) l = at T l"
  by (cases l; simp)+

lemma wheel_clock_fields [simp]:
  "nodes (T\<lparr>tm_current_point := cp\<rparr>) = nodes T" "nodes (T\<lparr>tm_current := c\<rparr>) = nodes T"
  "wheel_inv (T\<lparr>tm_current_point := cp\<rparr>) = wheel_inv T" "wheel_inv (T\<lparr>tm_current := c\<rparr>) = wheel_inv T"
  "ticks_left (T\<lparr>tm_current_point := cp\<rparr>) = ticks_left T" "ticks_left (T\<lparr>tm_current := c\<rparr>) = ticks_left T"
  by (simp_all add: nodes_def wheel_inv_def ticks_left_def fun_eq_iff)

section \<open>Properties\<close>

text \<open>
  One tick of the timer never indexes past its levels, keeps every remaining node in its slot,
  advances the clock by one and fires exactly the nodes that expire at the new time.
\<close>

theorem timer_update_fires:
  assumes "wheel_inv T"
  shows "\<exists>ns T'. timer_update T = Inr (ns, T') \<and> wheel_inv T' \<and> tm_time T' = tm_time T + 1
    \<and> mset ns = filter_mset (\<lambda>n. tn_expire n = tm_time T + 1) (nodes T)
    \<and> nodes T' = filter_mset (\<lambda>n. tn_expire n \<noteq> tm_time T + 1) (nodes T)"
  using timer_update_correct [OF assms] by metis

theorem timer_update_fires_witness:
  "wheel_inv timer_create_timer
   \<and> (\<exists>ns T'. timer_update timer_create_timer = Inr (ns, T') \<and> tm_time T' = tm_time timer_create_timer + 1)"
  using timer_update_fires [of timer_create_timer] by auto

text \<open>
  C6: a timer started with timeout \<open>d\<close> (a positive \<^verbatim>\<open>int\<close>) fires in exactly the \<open>d\<close>-th tick from then,
  also across the wrap of the 32-bit clock: \<open>k\<close> ticks fire it iff \<open>d \<le> k\<close>, and it is gone from
  the wheel exactly then.
\<close>

theorem timer_fires_on_time:
  assumes "wheel_inv T" "0 < d" "d < 2 ^ 31"
    and "n = \<lparr>tn_expire = word_of_int d + tm_time T, tn_event = ev\<rparr>" "n \<notin># nodes T"
  shows "\<exists>ns T'. update_loop k (timer_add T ev d) = Inr (ns, T') \<and> wheel_inv T'
    \<and> count (mset ns) n = (if d \<le> int k then 1 else 0)
    \<and> count (nodes T') n = (if d \<le> int k then 0 else 1)"
proof -
  note add = timer_add_correct [OF assms(1-3), of ev]
  have "unat (word_of_int d :: u32) = nat d"
    using assms(2,3) by (simp add: unat_eq_nat_uint uint_word_of_int)
  then have tl: "ticks_left (timer_add T ev d) n = nat d" by (simp add: ticks_left_def assms(4) add(3))
  have c: "count (nodes (timer_add T ev d)) n = 1"
    using assms(4,5) by (simp add: add(2) count_eq_zero_iff)
  have "nat d \<le> k \<longleftrightarrow> d \<le> int k" using assms(2) by linarith
  moreover obtain ns T' where "update_loop k (timer_add T ev d) = Inr (ns, T')" "wheel_inv T'"
    "mset ns = filter_mset (\<lambda>n. ticks_left (timer_add T ev d) n \<le> k) (nodes (timer_add T ev d))"
    "nodes T' = filter_mset (\<lambda>n. k < ticks_left (timer_add T ev d) n) (nodes (timer_add T ev d))"
    using update_loop_correct [OF add(1), of k] by blast
  ultimately show ?thesis using c tl by (intro exI [of _ ns] exI [of _ T']) (auto simp: not_le)
qed

theorem timer_fires_on_time_witness:
  "\<exists>ns T'. update_loop 7 (timer_add timer_create_timer \<lparr>te_handle = 5, te_session = 1\<rparr> 7) = Inr (ns, T')
    \<and> count (mset ns) \<lparr>tn_expire = 7, tn_event = \<lparr>te_handle = 5, te_session = 1\<rparr>\<rparr> = 1"
proof -
  let ?n = "\<lparr>tn_expire = 7, tn_event = \<lparr>te_handle = 5, te_session = 1\<rparr>\<rparr> :: timer_node"
  have at: "at timer_create_timer l = []" for l by (cases l; simp add: timer_create_timer_def)
  have "?n \<notin># nodes timer_create_timer" by (simp add: nodes_def at)
  moreover have "tm_time timer_create_timer = 0" by (simp add: timer_create_timer_def)
  ultimately show ?thesis
    using timer_fires_on_time [of timer_create_timer 7 ?n "\<lparr>te_handle = 5, te_session = 1\<rparr>" 7] by auto
qed

text \<open>
  \<^verbatim>\<open>skynet_updatetime\<close> catches up with the clock: with a reading \<open>cp\<close> ahead of the last one by less
  than \<open>2 ^ 32\<close> centiseconds it fires every node that expires within that span, in the order of
  their expiry times, and keeps the others; with a reading that went backwards it fires nothing.
\<close>

theorem skynet_updatetime_catches_up:
  assumes "wheel_inv T" "unat (cp - tm_current_point T) < 2 ^ 32"
  shows "\<exists>ns T'. skynet_updatetime T cp = Inr (ns, T') \<and> wheel_inv T' \<and> tm_current_point T' = cp
    \<and> (if cp < tm_current_point T then ns = [] \<and> nodes T' = nodes T
       else let k = unat cp - unat (tm_current_point T) in
         mset ns = filter_mset (\<lambda>n. ticks_left T n \<le> k) (nodes T)
         \<and> nodes T' = filter_mset (\<lambda>n. k < ticks_left T n) (nodes T)
         \<and> sorted (map (ticks_left T) ns))"
proof -
  let ?d = "cp - tm_current_point T"
  consider (behind) "cp < tm_current_point T" | (same) "cp = tm_current_point T"
    | (ahead) "\<not> cp < tm_current_point T" "cp \<noteq> tm_current_point T" by blast
  then show ?thesis
  proof cases
    case behind
    then show ?thesis using assms(1) by (simp add: skynet_updatetime_def)
  next
    case same
    then show ?thesis using update_loop_correct [OF assms(1), of 0] assms(1)
      by (simp add: skynet_updatetime_def)
  next
    case ahead
    let ?T = "T\<lparr>tm_current_point := cp, tm_current := tm_current T + ucast (ucast ?d :: u32)\<rparr>"
    have "unat (ucast ?d :: u32) = unat ?d" using assms(2) by (simp add: unsigned_ucast_eq take_bit_nat_eq_self)
    also have "\<dots> = unat cp - unat (tm_current_point T)" using ahead by (simp add: unat_sub)
    finally have k: "unat (ucast ?d :: u32) = unat cp - unat (tm_current_point T)" .
    show ?thesis
      using update_loop_correct [of ?T "unat cp - unat (tm_current_point T)"] assms(1) ahead point_update_loop [of _ ?T]
      by (auto simp: skynet_updatetime_def Let_def k)
  qed
qed

theorem skynet_updatetime_catches_up_witness:
  "\<exists>ns T'. skynet_updatetime (skynet_timer_init 1000 5 77) 80 = Inr (ns, T') \<and> tm_current_point T' = 80"
proof -
  have "tm_current_point (skynet_timer_init 1000 5 77) = 77" by (simp add: skynet_timer_init_def)
  then show ?thesis
    using skynet_updatetime_catches_up [of "skynet_timer_init 1000 5 77" 80] by auto
qed

text \<open>
  \<^verbatim>\<open>skynet_timeout\<close> with a timeout that is not positive sends the response at once and leaves
  the wheel alone; with a positive one it sends nothing and adds one node that is that many
  ticks ahead.
\<close>

theorem skynet_timeout_branches:
  assumes "wheel_inv T" "time < 2 ^ 31" "skynet_timeout T pushed handle time session = (r, sent, T')"
  shows "wheel_inv T' \<and>
    (if time \<le> 0
     then sent = Some (handle, timeout_message session) \<and> T' = T \<and> r = (if pushed \<noteq> 0 then -1 else session)
     else sent = None \<and> r = session
       \<and> (\<exists>n. nodes T' = nodes T + {#n#} \<and> int (ticks_left T n) = time
              \<and> tn_event n = \<lparr>te_handle = handle, te_session = session\<rparr>))"
proof (cases "time \<le> 0")
  case True
  then show ?thesis using assms(1,3) by (auto simp: skynet_timeout_def)
next
  case False
  then have "int (unat (word_of_int time :: u32)) = time"
    using assms(2) by (simp add: unat_eq_nat_uint uint_word_of_int)
  then show ?thesis
    using False assms(3) timer_add_correct(1,2) [OF assms(1) _ assms(2)]
    by (auto simp: skynet_timeout_def ticks_left_def intro!: exI)
qed

theorem skynet_timeout_branches_witness:
  "wheel_inv timer_create_timer
   \<and> (case skynet_timeout timer_create_timer 0 9 300 4 of (r, sent, T') \<Rightarrow> wheel_inv T' \<and> sent = None \<and> r = 4)"
  using skynet_timeout_branches [of timer_create_timer 300 0 9 4] by (auto split: prod.splits)

end
