(* ===== verification/Cstdlib.thy ===== *)
theory Cstdlib
  imports Prelude
begin

text \<open>
  What the sources use of the C library on strings: the numbers that \<^verbatim>\<open>strtol\<close>, \<^verbatim>\<open>strtoul\<close> and
  \<^verbatim>\<open>sscanf\<close> read, the strings in a buffer, and \<^verbatim>\<open>strsep\<close>. A buffer is the list of its bytes, a
  pointer into it an index, and the string at a pointer ends before the first zero byte.
\<close>

section \<open>Numbers\<close>

definition is_space :: "byte \<Rightarrow> bool" where
  "is_space c \<longleftrightarrow> c = 32 \<or> 9 \<le> unat c \<and> unat c \<le> 13"

definition is_digit :: "byte \<Rightarrow> bool" where
  "is_digit c \<longleftrightarrow> 48 \<le> unat c \<and> unat c \<le> 57"

fun scan_digits :: "nat \<Rightarrow> cstring \<Rightarrow> nat \<times> cstring" where
  "scan_digits acc [] = (acc, [])"
| "scan_digits acc (c # cs) = (if is_digit c then scan_digits (10 * acc + (unat c - 48)) cs else (acc, c # cs))"

text \<open>The blanks and the sign before a number: whether it is negative, and what follows.\<close>

definition scan_sign :: "cstring \<Rightarrow> bool \<times> cstring" where
  "scan_sign cs =
     (let cs1 = dropWhile is_space cs
      in (cs1 \<noteq> [] \<and> hd cs1 = 45, if cs1 \<noteq> [] \<and> (hd cs1 = 45 \<or> hd cs1 = 43) then tl cs1 else cs1))"

text \<open>A decimal number after blanks, with a sign or without: the number and what follows it.\<close>

definition scan_int :: "cstring \<Rightarrow> (int \<times> cstring) option" where
  "scan_int cs =
     (case scan_sign cs of (neg, cs2) \<Rightarrow>
        if cs2 \<noteq> [] \<and> is_digit (hd cs2)
        then (case scan_digits 0 cs2 of (n, rest) \<Rightarrow> Some (if neg then - int n else int n, rest))
        else None)"

text \<open>\<^verbatim>\<open>strtol(s, NULL, 10)\<close>, which stops at the bounds of \<^verbatim>\<open>long\<close>.\<close>

definition strtol10 :: "cstring \<Rightarrow> int" where
  "strtol10 cs = (case scan_int cs of None \<Rightarrow> 0 | Some (i, _) \<Rightarrow> max (- (2 ^ 63)) (min i (2 ^ 63 - 1)))"

definition hex_digit :: "byte \<Rightarrow> nat option" where
  "hex_digit c =
     (let n = unat c
      in if 48 \<le> n \<and> n \<le> 57 then Some (n - 48)
         else if 65 \<le> n \<and> n \<le> 70 then Some (n - 55)
         else if 97 \<le> n \<and> n \<le> 102 then Some (n - 87)
         else None)"

fun scan_hex :: "nat \<Rightarrow> cstring \<Rightarrow> nat" where
  "scan_hex acc [] = acc"
| "scan_hex acc (c # cs) = (case hex_digit c of None \<Rightarrow> acc | Some d \<Rightarrow> scan_hex (16 * acc + d) cs)"

fun scan_oct :: "nat \<Rightarrow> cstring \<Rightarrow> nat" where
  "scan_oct acc [] = acc"
| "scan_oct acc (c # cs) = (if 48 \<le> unat c \<and> unat c \<le> 55 then scan_oct (8 * acc + (unat c - 48)) cs else acc)"

text \<open>\<^verbatim>\<open>strtoul(s, NULL, 16)\<close>: a prefix \<^verbatim>\<open>0x\<close> is skipped, a number that does not fit is the greatest
  one, and a minus sign negates the unsigned result.\<close>

fun skip_0x :: "cstring \<Rightarrow> cstring" where
  "skip_0x (z # x # c # cs) = (if z = 48 \<and> (x = 120 \<or> x = 88) \<and> hex_digit c \<noteq> None then c # cs else z # x # c # cs)"
| "skip_0x cs = cs"

definition strtoul16 :: "cstring \<Rightarrow> u64" where
  "strtoul16 cs =
     (case scan_sign cs of (neg, cs1) \<Rightarrow>
        let n = scan_hex 0 (skip_0x cs1)
        in if 2 ^ 64 \<le> n then -1 else if neg then - of_nat n else of_nat n)"

text \<open>\<^verbatim>\<open>strtoul(s, NULL, 10)\<close>\<close>

definition strtoul10 :: "cstring \<Rightarrow> u64" where
  "strtoul10 cs =
     (case scan_sign cs of (neg, cs1) \<Rightarrow>
        let n = fst (scan_digits 0 cs1)
        in if 2 ^ 64 \<le> n then -1 else if neg then - of_nat n else of_nat n)"

text \<open>\<^verbatim>\<open>strchr\<close>: the index of the first byte \<open>c\<close>.\<close>

definition strchr :: "cstring \<Rightarrow> byte \<Rightarrow> nat option" where
  "strchr s c = (let n = length (takeWhile (\<lambda>b. b \<noteq> c) s) in if n < length s then Some n else None)"

text \<open>\<^verbatim>\<open>strtol(s, NULL, 0)\<close>: hexadecimal after \<^verbatim>\<open>0x\<close>, octal after \<^verbatim>\<open>0\<close>, decimal otherwise.\<close>

definition strtol0 :: "cstring \<Rightarrow> int" where
  "strtol0 cs =
     (case scan_sign cs of (neg, cs1) \<Rightarrow>
        let n = int (if skip_0x cs1 \<noteq> cs1 then scan_hex 0 (skip_0x cs1)
                     else if cs1 \<noteq> [] \<and> hd cs1 = 48 then scan_oct 0 cs1
                     else fst (scan_digits 0 cs1))
        in max (- (2 ^ 63)) (min (if neg then - n else n) (2 ^ 63 - 1)))"

text \<open>Reading a handle: the result is cut to 32 bits.\<close>

definition parse_handle :: "cstring \<Rightarrow> u32" where
  "parse_handle cs = ucast (strtoul16 cs)"

definition print_hex :: "u32 \<Rightarrow> cstring" where
  "print_hex w = map digit_char (radix_digits 16 (unat w))"

text \<open>\<^verbatim>\<open>%08x\<close>: eight hexadecimal digits.\<close>

definition print_hex8 :: "u32 \<Rightarrow> cstring" where
  "print_hex8 w = replicate (8 - length (print_hex w)) 48 @ print_hex w"

section \<open>Strings in a buffer\<close>

definition cstr_at :: "byte list \<Rightarrow> nat \<Rightarrow> cstring" where
  "cstr_at buf p = takeWhile (\<lambda>c. c \<noteq> 0) (drop p buf)"

text \<open>\<^verbatim>\<open>strsep\<close> on the string at \<open>p\<close>: it ends the token at the first separator, and the string that
  follows begins behind it; without a separator the token is the whole string.\<close>

definition strsep :: "byte list \<Rightarrow> nat \<Rightarrow> byte \<Rightarrow> byte list \<times> nat option" where
  "strsep buf p sep =
     (let str = cstr_at buf p; n = length (takeWhile (\<lambda>c. c \<noteq> sep) str)
      in if n < length str then (buf[p + n := 0], Some (p + n + 1)) else (buf, None))"

text \<open>\<^verbatim>\<open>memcmp(command, literal, n) == 0\<close>, where the literal ends with a zero byte. Reading past it is
  out of bounds, unless the bytes up to there differ already.\<close>

definition memcmp_lit :: "byte list \<Rightarrow> cstring \<Rightarrow> nat \<Rightarrow> c_error + bool" where
  "memcmp_lit command lit n =
     (if n \<le> length lit + 1 then Inr (take n command = take n (lit @ [0]))
      else if take (length lit + 1) command = lit @ [0] then Inl Out_of_bounds
      else Inr False)"

text \<open>The conversions \<^verbatim>\<open>%s\<close>, \<^verbatim>\<open>%d\<close> and \<^verbatim>\<open>%u\<close> of \<^verbatim>\<open>sscanf\<close>.\<close>

definition scan_word :: "cstring \<Rightarrow> (cstring \<times> cstring) option" where
  "scan_word cs =
     (let cs1 = dropWhile is_space cs; w = takeWhile (\<lambda>c. \<not> is_space c) cs1
      in if w = [] then None else Some (w, drop (length w) cs1))"

definition scan_d :: "cstring \<Rightarrow> (int \<times> cstring) option" where
  "scan_d cs = map_option (\<lambda>(i, rest). (c_int (max (- (2 ^ 63)) (min i (2 ^ 63 - 1))), rest)) (scan_int cs)"

definition scan_u :: "cstring \<Rightarrow> (u32 \<times> cstring) option" where
  "scan_u cs = map_option (\<lambda>(i, rest). (if 2 ^ 64 \<le> \<bar>i\<bar> then -1 else of_int i, rest)) (scan_int cs)"

section \<open>Reading back what was printed\<close>

text \<open>The digits of a number in base 16 read as the number.\<close>

lemma radix_digits_less: "1 < b \<Longrightarrow> d \<in> set (radix_digits b n) \<Longrightarrow> d < b"
proof (induction b n rule: radix_digits.induct)
  case (1 b n)
  then show ?case by (subst (asm) radix_digits.simps) (auto split: if_splits)
qed

lemma hex_digit_char: "d < 16 \<Longrightarrow> hex_digit (digit_char d) = Some d"
proof -
  have "list_all (\<lambda>d. hex_digit (digit_char d) = Some d) [0..<16]" by code_simp
  then show "d < 16 \<Longrightarrow> hex_digit (digit_char d) = Some d" by (simp add: list_all_iff)
qed

lemma digit_char_plain: "d < 16 \<Longrightarrow> \<not> is_space (digit_char d) \<and> digit_char d \<noteq> 45 \<and> digit_char d \<noteq> 43 \<and> digit_char d \<noteq> 120 \<and> digit_char d \<noteq> 88"
proof -
  have "list_all (\<lambda>d. \<not> is_space (digit_char d) \<and> digit_char d \<noteq> 45 \<and> digit_char d \<noteq> 43 \<and> digit_char d \<noteq> 120 \<and> digit_char d \<noteq> 88) [0..<16]"
    by code_simp
  then show "d < 16 \<Longrightarrow> \<not> is_space (digit_char d) \<and> digit_char d \<noteq> 45 \<and> digit_char d \<noteq> 43 \<and> digit_char d \<noteq> 120 \<and> digit_char d \<noteq> 88"
    by (simp add: list_all_iff)
qed

lemma scan_hex_append:
  "list_all (\<lambda>d. d < 16) ds \<Longrightarrow> scan_hex acc (map digit_char ds @ cs) = scan_hex (foldl (\<lambda>n d. 16 * n + d) acc ds) cs"
  by (induction ds arbitrary: acc) (simp_all add: hex_digit_char)

lemma radix_digits_value: "foldl (\<lambda>n d. 16 * n + d) 0 (radix_digits 16 n) = n"
proof (induction "16 :: nat" n rule: radix_digits.induct)
  case (1 n)
  then show ?case by (subst radix_digits.simps) auto
qed

lemma hex_digits16: "list_all (\<lambda>d. d < 16) (radix_digits 16 n)"
  using radix_digits_less [of 16] by (auto simp: list_all_iff)

lemma skip_0x_digits: "list_all (\<lambda>d. d < 16) ds \<Longrightarrow> skip_0x (map digit_char ds) = map digit_char ds"
  by (cases "map digit_char ds" rule: skip_0x.cases) (auto simp: map_eq_Cons_conv digit_char_plain)

lemma scan_sign_digits: "list_all (\<lambda>d. d < 16) ds \<Longrightarrow> scan_sign (map digit_char ds) = (False, map digit_char ds)"
  by (cases ds) (simp_all add: scan_sign_def digit_char_plain Let_def)

lemma parse_print_hex: "parse_handle (print_hex w) = w"
proof -
  have "scan_hex 0 (map digit_char (radix_digits 16 (unat w))) = unat w"
    using scan_hex_append [OF hex_digits16, of 0 _ "[]"] by (simp add: radix_digits_value)
  moreover have "unat w < 2 ^ 64" using unsigned_less [of w, where ?'a = nat] by simp
  moreover have "ucast (ucast w :: u64) = w" by (rule bit_word_eqI) (simp add: bit_unsigned_iff)
  ultimately show ?thesis
    by (simp add: parse_handle_def strtoul16_def print_hex_def scan_sign_digits skip_0x_digits hex_digits16 Let_def)
qed

lemma print_hex_plain: "x \<in> set (print_hex w) \<Longrightarrow> \<not> is_space x"
  using radix_digits_less [of 16] by (auto simp: print_hex_def digit_char_plain)

end
