(* ===== verification/Server.thy ===== *)
theory Server
  imports Sched Handle Timer Cstdlib
begin

text \<open>
  The services of a node, \<^verbatim>\<open>skynet-src/skynet_server.c\<close>, with \<^verbatim>\<open>skynet_harbor.c\<close>,
  \<^verbatim>\<open>skynet_monitor.c\<close> and \<^verbatim>\<open>skynet_error.c\<close>: reference-counted contexts, sending and
  pushing messages, the dispatch of a queue and the launch of a service. The state of the
  process is one record: the contexts, the message queues of theory \<open>Mq\<close>, the handle table
  of theory \<open>Handle\<close>, the timer of theory \<open>Timer\<close> and the globals. The code of the services
  (the shared objects that \<^verbatim>\<open>skynet_module.c\<close> loads) is a parameter.
\<close>

section \<open>State\<close>

record skynet_context =
  cx_instance :: nat
  cx_mod :: nat
  cx_cb :: "nat option"
  cx_queue :: nat
  cx_logfile :: bool
  cx_cpu_cost :: u64
  cx_cpu_start :: u64
  cx_handle :: u32
  cx_session_id :: u32
  cx_ref :: int
  cx_message_count :: u32
  cx_init :: bool
  cx_endless :: bool
  cx_profile :: bool

text \<open>
  The process: \<^verbatim>\<open>G_NODE\<close>, the heap of contexts, the queues, the handle table, the timer, the
  \<^verbatim>\<open>logger\<close> of \<^verbatim>\<open>skynet_error\<close>, and \<^verbatim>\<open>HARBOR\<close> and \<^verbatim>\<open>REMOTE\<close> of \<^verbatim>\<open>skynet_harbor.c\<close>.
\<close>

record node =
  nd_total :: int
  nd_monitor_exit :: u32
  nd_profile :: bool
  nd_current :: u32
  nd_ctx :: "nat \<rightharpoonup> skynet_context"
  nd_mq :: "skynet_message mq_state"
  nd_handles :: handle_storage
  nd_timer :: timer
  nd_logger :: u32
  nd_HARBOR :: u32
  nd_REMOTE :: "nat option"

text \<open>
  The loaded services: \<^verbatim>\<open>skynet_module_query\<close>, the create, init and release functions of a
  module, the callbacks, and the addresses \<^verbatim>\<open>skynet_malloc\<close> returns for a context and a queue.
\<close>

record services =
  sv_query :: "cstring \<Rightarrow> nat option"
  sv_create :: "nat \<Rightarrow> nat option"
  sv_init :: "nat \<Rightarrow> nat \<Rightarrow> nat \<Rightarrow> cstring option \<Rightarrow> node \<Rightarrow> int \<times> node"
  sv_release :: "nat \<Rightarrow> nat \<Rightarrow> node \<Rightarrow> node"
  sv_cb :: "nat \<Rightarrow> nat \<Rightarrow> nat \<Rightarrow> int \<Rightarrow> u32 \<Rightarrow> payload option \<Rightarrow> u64 \<Rightarrow> node \<Rightarrow> int \<times> node"
  sv_thread_time :: "node \<Rightarrow> u64"
  sv_new_context :: "node \<Rightarrow> nat"
  sv_new_queue :: "node \<Rightarrow> nat"

definition ctx_handle :: "node \<Rightarrow> nat \<Rightarrow> u32" where
  "ctx_handle s c = (case nd_ctx s c of Some x \<Rightarrow> cx_handle x | None \<Rightarrow> 0)"

abbreviation set_ctx :: "node \<Rightarrow> nat \<Rightarrow> skynet_context \<Rightarrow> node" where
  "set_ctx s c x \<equiv> s\<lparr>nd_ctx := (nd_ctx s)(c \<mapsto> x)\<rparr>"

section \<open>References\<close>

definition skynet_context_grab :: "node \<Rightarrow> nat \<Rightarrow> c_error + node" where
  "skynet_context_grab s c =
     rbind (deref (nd_ctx s) c) (\<lambda>x. Inr (set_ctx s c (x\<lparr>cx_ref := cx_ref x + 1\<rparr>)))"

definition skynet_context_reserve :: "node \<Rightarrow> nat \<Rightarrow> c_error + node" where
  "skynet_context_reserve s c =
     rbind (skynet_context_grab s c) (\<lambda>s1. Inr (s1\<lparr>nd_total := nd_total s1 - 1\<rparr>))"

definition delete_context :: "services \<Rightarrow> node \<Rightarrow> nat \<Rightarrow> c_error + node" where
  "delete_context sv s c =
     rbind (deref (nd_ctx s) c) (\<lambda>x.
       let s1 = sv_release sv (cx_mod x) (cx_instance x) s
       in rbind (skynet_mq_mark_release (nd_mq s1) (cx_queue x)) (\<lambda>m.
            Inr (s1\<lparr>nd_mq := m, nd_ctx := (nd_ctx s1)(c := None), nd_total := nd_total s1 - 1\<rparr>)))"

text \<open>\<^verbatim>\<open>skynet_context_release\<close> returns the context, or null when that was the last reference.\<close>

definition skynet_context_release :: "services \<Rightarrow> node \<Rightarrow> nat \<Rightarrow> c_error + (nat option \<times> node)" where
  "skynet_context_release sv s c =
     rbind (deref (nd_ctx s) c) (\<lambda>x.
       let s1 = set_ctx s c (x\<lparr>cx_ref := cx_ref x - 1\<rparr>)
       in if cx_ref x - 1 = 0
          then rbind (delete_context sv s1 c) (\<lambda>s2. Inr (None, s2))
          else Inr (Some c, s1))"

text \<open>
  \<^verbatim>\<open>skynet_handle_grab\<close> and \<^verbatim>\<open>skynet_handle_retire\<close> of \<^verbatim>\<open>skynet_handle.c\<close> with their effect on the
  contexts: the first takes a reference, the second gives the table's up.
\<close>

definition handle_grab :: "node \<Rightarrow> u32 \<Rightarrow> c_error + (nat option \<times> node)" where
  "handle_grab s handle =
     (case skynet_handle_grab (ctx_handle s) (nd_handles s) handle of
        None \<Rightarrow> Inr (None, s)
      | Some c \<Rightarrow> rbind (skynet_context_grab s c) (\<lambda>s1. Inr (Some c, s1)))"

definition handle_retire :: "services \<Rightarrow> node \<Rightarrow> u32 \<Rightarrow> c_error + (int \<times> node)" where
  "handle_retire sv s handle =
     (case skynet_handle_retire (ctx_handle s) (nd_handles s) handle of
        (ret, c, hs) \<Rightarrow>
          let s1 = s\<lparr>nd_handles := hs\<rparr>
          in case c of
               None \<Rightarrow> Inr (ret, s1)
             | Some c \<Rightarrow> rbind (skynet_context_release sv s1 c) (\<lambda>(r, s2). Inr (ret, s2)))"

section \<open>Pushing messages\<close>

definition ctx_push :: "node \<Rightarrow> nat \<Rightarrow> skynet_message \<Rightarrow> c_error + node" where
  "ctx_push s c message =
     rbind (deref (nd_ctx s) c) (\<lambda>x.
     rbind (skynet_mq_push (nd_mq s) (cx_queue x) message) (\<lambda>m. Inr (s\<lparr>nd_mq := m\<rparr>)))"

definition skynet_context_push :: "services \<Rightarrow> node \<Rightarrow> u32 \<Rightarrow> skynet_message \<Rightarrow> c_error + (int \<times> node)" where
  "skynet_context_push sv s handle message =
     rbind (handle_grab s handle) (\<lambda>(c, s1).
       case c of
         None \<Rightarrow> Inr (-1, s1)
       | Some c \<Rightarrow>
           rbind (ctx_push s1 c message) (\<lambda>s2.
           rbind (skynet_context_release sv s2 c) (\<lambda>(r, s3). Inr (0, s3))))"

definition skynet_context_endless :: "services \<Rightarrow> node \<Rightarrow> u32 \<Rightarrow> c_error + node" where
  "skynet_context_endless sv s handle =
     rbind (handle_grab s handle) (\<lambda>(c, s1).
       case c of
         None \<Rightarrow> Inr s1
       | Some c \<Rightarrow>
           rbind (deref (nd_ctx s1) c) (\<lambda>x.
           rbind (skynet_context_release sv (set_ctx s1 c (x\<lparr>cx_endless := True\<rparr>)) c) (\<lambda>(r, s2). Inr s2)))"

text \<open>
  \<^verbatim>\<open>skynet_context_send\<close>, and \<^verbatim>\<open>skynet_error\<close> with the text that its format and arguments print:
  the handle of the logger is looked up once and remembered.
\<close>

definition skynet_context_send ::
  "node \<Rightarrow> nat \<Rightarrow> payload option \<Rightarrow> u64 \<Rightarrow> u32 \<Rightarrow> nat \<Rightarrow> int \<Rightarrow> c_error + node" where
  "skynet_context_send s c msg sz source type session =
     ctx_push s c \<lparr>msg_source = source, msg_session = session, msg_data = msg,
                   msg_sz = sz OR push_bit MESSAGE_TYPE_SHIFT (of_nat type)\<rparr>"

definition skynet_error :: "services \<Rightarrow> node \<Rightarrow> nat option \<Rightarrow> cstring \<Rightarrow> c_error + node" where
  "skynet_error sv s context txt =
     (let s1 = (if nd_logger s = 0
                then s\<lparr>nd_logger := skynet_handle_findname (nd_handles s) (ascii ''logger'')\<rparr> else s)
      in if nd_logger s1 = 0 then Inr s1
         else rbind (case context of None \<Rightarrow> Inr 0 | Some c \<Rightarrow> rbind (deref (nd_ctx s1) c) (\<lambda>x. Inr (cx_handle x)))
           (\<lambda>source.
           rbind (skynet_context_push sv s1 (nd_logger s1)
                   \<lparr>msg_source = source, msg_session = 0, msg_data = Some (Bytes (txt @ [0])),
                    msg_sz = of_nat (length txt) OR push_bit MESSAGE_TYPE_SHIFT (of_nat PTYPE_TEXT)\<rparr>)
           (\<lambda>(r, s2). Inr s2)))"

section \<open>Printing handles\<close>

definition id_to_hex :: "u32 \<Rightarrow> cstring" where
  "id_to_hex w = ascii '':'' @ map (\<lambda>i. let d = unat (drop_bit ((7 - i) * 4) w AND 0xf)
                                        in if d < 10 then of_nat (48 + d) else of_nat (55 + d)) [0..<8]"

section \<open>Sending\<close>

definition skynet_context_newsession :: "node \<Rightarrow> nat \<Rightarrow> c_error + (int \<times> node)" where
  "skynet_context_newsession s c =
     rbind (deref (nd_ctx s) c) (\<lambda>x.
       let session = cx_session_id x + 1
       in if sint session \<le> 0 then Inr (1, set_ctx s c (x\<lparr>cx_session_id := 1\<rparr>))
          else Inr (sint session, set_ctx s c (x\<lparr>cx_session_id := session\<rparr>)))"

text \<open>
  \<^verbatim>\<open>_filter_args\<close>: the session, the data and the size with the type in its top byte. A null
  context is only dereferenced when a session is to be allocated.
\<close>

definition filter_args ::
  "node \<Rightarrow> nat option \<Rightarrow> u32 \<Rightarrow> int \<Rightarrow> byte list option \<Rightarrow> u64
   \<Rightarrow> c_error + (int \<times> byte list option \<times> u64 \<times> node)" where
  "filter_args s context type session data sz =
     (let needcopy = (type AND of_nat PTYPE_TAG_DONTCOPY = 0);
          allocsession = (type AND of_nat PTYPE_TAG_ALLOCSESSION \<noteq> 0);
          type1 = type AND 0xff
      in rbind (if allocsession
                then rbind (c_assert (session = 0)) (\<lambda>_.
                       case context of None \<Rightarrow> Inl Use_after_free | Some c \<Rightarrow> skynet_context_newsession s c)
                else Inr (session, s)) (\<lambda>(session1, s1).
         rbind (case data of
                  Some d \<Rightarrow> if \<not> needcopy then Inr data
                            else if length d < unat sz then Inl Out_of_bounds
                            else Inr (Some (take (unat sz) d @ [0]))
                | None \<Rightarrow> Inr data) (\<lambda>data1.
           Inr (session1, data1, sz OR push_bit MESSAGE_TYPE_SHIFT (ucast type1), s1))))"

definition skynet_harbor_message_isremote :: "node \<Rightarrow> u32 \<Rightarrow> c_error + bool" where
  "skynet_harbor_message_isremote s handle =
     rbind (c_assert (nd_HARBOR s \<noteq> NOT 0)) (\<lambda>_.
       let h = handle AND NOT HANDLE_MASK in Inr (h \<noteq> nd_HARBOR s \<and> h \<noteq> 0))"

definition sizeof_remote_message :: u64 where "sizeof_remote_message = 40"

definition skynet_harbor_send ::
  "node \<Rightarrow> cstring \<Rightarrow> u32 \<Rightarrow> byte list option \<Rightarrow> u64 \<Rightarrow> u32 \<Rightarrow> int \<Rightarrow> c_error + node" where
  "skynet_harbor_send s name handle message sz source session =
     (let type = unat (drop_bit MESSAGE_TYPE_SHIFT sz)
      in case nd_REMOTE s of
           None \<Rightarrow> Inl Assert_failed
         | Some c \<Rightarrow>
             rbind (c_assert (type \<noteq> PTYPE_SYSTEM \<and> type \<noteq> PTYPE_HARBOR)) (\<lambda>_.
               skynet_context_send s c (Some (Remote name handle message (sz AND MESSAGE_TYPE_MASK)))
                 sizeof_remote_message source type session))"

definition skynet_harbor_init :: "node \<Rightarrow> u32 \<Rightarrow> node" where
  "skynet_harbor_init s harbor = s\<lparr>nd_HARBOR := push_bit HANDLE_REMOTE_SHIFT harbor\<rparr>"

definition skynet_harbor_start :: "node \<Rightarrow> nat \<Rightarrow> c_error + node" where
  "skynet_harbor_start s c = rbind (skynet_context_reserve s c) (\<lambda>s1. Inr (s1\<lparr>nd_REMOTE := Some c\<rparr>))"

definition skynet_harbor_exit :: "services \<Rightarrow> node \<Rightarrow> c_error + node" where
  "skynet_harbor_exit sv s =
     (let s1 = s\<lparr>nd_REMOTE := None\<rparr>
      in case nd_REMOTE s of
           None \<Rightarrow> Inr s1
         | Some c \<Rightarrow> rbind (skynet_context_release sv s1 c) (\<lambda>(r, s2). Inr s2))"

text \<open>The handle a message from \<open>context\<close> carries as its source when none is given.\<close>

definition source_of :: "node \<Rightarrow> nat option \<Rightarrow> u32 \<Rightarrow> c_error + u32" where
  "source_of s context source =
     (if source \<noteq> 0 then Inr source
      else case context of
             None \<Rightarrow> Inl Use_after_free
           | Some c \<Rightarrow> rbind (deref (nd_ctx s) c) (\<lambda>x. Inr (cx_handle x)))"

definition skynet_send ::
  "services \<Rightarrow> node \<Rightarrow> nat option \<Rightarrow> u32 \<Rightarrow> u32 \<Rightarrow> u32 \<Rightarrow> int \<Rightarrow> byte list option \<Rightarrow> u64
   \<Rightarrow> c_error + (int \<times> node)" where
  "skynet_send sv s context source destination type session data sz =
     (if sz AND MESSAGE_TYPE_MASK \<noteq> sz
      then rbind (skynet_error sv s context
                   (ascii ''The message to '' @ print_hex destination @ ascii '' is too large''))
             (\<lambda>s1. Inr (-1, s1))
      else rbind (filter_args s context type session data sz) (\<lambda>(session1, data1, sz1, s1).
           rbind (source_of s1 context source) (\<lambda>source1.
             if destination = 0 then Inr (session1, s1)
             else rbind (skynet_harbor_message_isremote s1 destination) (\<lambda>remote.
               if remote
               then rbind (skynet_harbor_send s1 [] destination data1 sz1 source1 session1) (\<lambda>s2.
                      Inr (session1, s2))
               else rbind (skynet_context_push sv s1 destination
                            \<lparr>msg_source = source1, msg_session = session1,
                             msg_data = map_option Bytes data1, msg_sz = sz1\<rparr>) (\<lambda>(r, s2).
                      Inr (if r \<noteq> 0 then -1 else session1, s2))))))"

definition copy_name :: "cstring \<Rightarrow> cstring" where
  "copy_name addr =
     take GLOBALNAME_LENGTH addr @ replicate (GLOBALNAME_LENGTH - length addr) 0"

definition skynet_sendname ::
  "services \<Rightarrow> node \<Rightarrow> nat option \<Rightarrow> u32 \<Rightarrow> cstring \<Rightarrow> u32 \<Rightarrow> int \<Rightarrow> byte list option \<Rightarrow> u64
   \<Rightarrow> c_error + (int \<times> node)" where
  "skynet_sendname sv s context source addr type session data sz =
     rbind (source_of s context source) (\<lambda>source1.
       case addr of
         c # rest \<Rightarrow>
           if c = 58 then skynet_send sv s context source1 (parse_handle rest) type session data sz
           else if c = 46
           then (let des = skynet_handle_findname (nd_handles s) rest
                 in if des = 0 then Inr (-1, s)
                    else skynet_send sv s context source1 des type session data sz)
           else rbind (filter_args s context type session data sz) (\<lambda>(session1, data1, sz1, s1).
                rbind (skynet_harbor_send s1 (copy_name addr) 0 data1 sz1 source1 session1) (\<lambda>s2.
                  Inr (session1, s2)))
       | [] \<Rightarrow>
           rbind (filter_args s context type session data sz) (\<lambda>(session1, data1, sz1, s1).
           rbind (skynet_harbor_send s1 (copy_name addr) 0 data1 sz1 source1 session1) (\<lambda>s2.
             Inr (session1, s2))))"

section \<open>Releasing a queue\<close>

text \<open>
  \<^verbatim>\<open>drop_message\<close> reports an error to the sender of a message that could not be delivered;
  \<open>drop_queue_loop\<close> is \<^verbatim>\<open>_drop_queue\<close> with that callback run on each message, with fuel.
\<close>

definition drop_message :: "services \<Rightarrow> node \<Rightarrow> u32 \<Rightarrow> skynet_message \<Rightarrow> c_error + node" where
  "drop_message sv s source msg =
     rbind (c_assert (source \<noteq> 0)) (\<lambda>_.
     rbind (skynet_send sv s None source (msg_source msg) (of_nat PTYPE_ERROR) 0 None 0) (\<lambda>(r, s1). Inr s1))"

fun drop_queue_loop :: "nat \<Rightarrow> services \<Rightarrow> node \<Rightarrow> nat \<Rightarrow> u32 \<Rightarrow> c_error + node" where
  "drop_queue_loop 0 sv s a handle = Inl Diverges"
| "drop_queue_loop (Suc n) sv s a handle =
     rbind (deref (mq_store (nd_mq s)) a) (\<lambda>q.
     rbind (skynet_mq_pop q) (\<lambda>(ret, m, q').
       if ret \<noteq> 0
       then rbind (c_assert (mq_next q' = None)) (\<lambda>_.
              Inr (s\<lparr>nd_mq := (nd_mq s)\<lparr>mq_store := (mq_store (nd_mq s))(a := None)\<rparr>\<rparr>))
       else (case m of
               None \<Rightarrow> Inl Uninit_read
             | Some msg \<Rightarrow>
                 rbind (drop_message sv
                         (s\<lparr>nd_mq := (nd_mq s)\<lparr>mq_store := (mq_store (nd_mq s))(a \<mapsto> q')\<rparr>\<rparr>) handle msg)
                   (\<lambda>s1. drop_queue_loop n sv s1 a handle))))"

definition mq_release_drop :: "services \<Rightarrow> node \<Rightarrow> nat \<Rightarrow> u32 \<Rightarrow> c_error + node" where
  "mq_release_drop sv s a handle =
     rbind (deref (mq_store (nd_mq s)) a) (\<lambda>q.
       if mq_release q then drop_queue_loop (Suc (mq_cap q)) sv s a handle
       else rbind (skynet_globalmq_push (nd_mq s) a) (\<lambda>m. Inr (s\<lparr>nd_mq := m\<rparr>)))"

section \<open>Launching a service\<close>

definition new_context :: "node \<Rightarrow> nat \<Rightarrow> nat \<Rightarrow> skynet_context" where
  "new_context s md inst =
     \<lparr>cx_instance = inst, cx_mod = md, cx_cb = None, cx_queue = 0, cx_logfile = False, cx_cpu_cost = 0,
      cx_cpu_start = 0, cx_handle = 0, cx_session_id = 0, cx_ref = 2, cx_message_count = 0,
      cx_init = False, cx_endless = False, cx_profile = nd_profile s\<rparr>"

definition context_register :: "services \<Rightarrow> node \<Rightarrow> nat \<Rightarrow> nat \<Rightarrow> c_error + (nat \<times> node)" where
  "context_register sv s md inst =
     (let c = sv_new_context sv s;
          s1 = set_ctx s c (new_context s md inst)
      in rbind (skynet_handle_register (ctx_handle s1) (nd_handles s1) c) (\<lambda>(h, hs).
           let a = sv_new_queue sv s;
               s2 = s1\<lparr>nd_handles := hs,
                       nd_mq := (nd_mq s1)\<lparr>mq_store := (mq_store (nd_mq s1))(a \<mapsto> skynet_mq_create h)\<rparr>\<rparr>
           in Inr (c, (set_ctx s2 c ((new_context s md inst)\<lparr>cx_handle := h, cx_queue := a\<rparr>))
                        \<lparr>nd_total := nd_total s2 + 1\<rparr>)))"

definition skynet_context_new ::
  "services \<Rightarrow> node \<Rightarrow> cstring \<Rightarrow> cstring option \<Rightarrow> c_error + (nat option \<times> node)" where
  "skynet_context_new sv s name param =
     (case sv_query sv name of
        None \<Rightarrow> Inr (None, s)
      | Some md \<Rightarrow>
          (case sv_create sv md of
             None \<Rightarrow> Inr (None, s)
           | Some inst \<Rightarrow>
               rbind (context_register sv s md inst) (\<lambda>(c, s1).
               rbind (deref (nd_ctx s1) c) (\<lambda>x0.
                 let queue = cx_queue x0;
                     (r, s2) = sv_init sv md inst c param s1
                 in if r = 0
                    then rbind (skynet_context_release sv s2 c) (\<lambda>(ret, s3).
                         rbind (case ret of
                                  None \<Rightarrow> Inr s3
                                | Some _ \<Rightarrow> rbind (deref (nd_ctx s3) c) (\<lambda>x. Inr (set_ctx s3 c (x\<lparr>cx_init := True\<rparr>))))
                           (\<lambda>s4.
                         rbind (skynet_globalmq_push (nd_mq s4) queue) (\<lambda>m.
                         rbind (case ret of
                                  None \<Rightarrow> Inr (s4\<lparr>nd_mq := m\<rparr>)
                                | Some _ \<Rightarrow> skynet_error sv (s4\<lparr>nd_mq := m\<rparr>) ret
                                    (ascii ''LAUNCH '' @ name @ ascii '' '' @ (case param of None \<Rightarrow> [] | Some p \<Rightarrow> p)))
                           (\<lambda>s5. Inr (ret, s5)))))
                    else rbind (skynet_error sv s2 (Some c) (ascii ''FAILED launch '' @ name)) (\<lambda>s3.
                         rbind (deref (nd_ctx s3) c) (\<lambda>x.
                         let handle = cx_handle x
                         in rbind (skynet_context_release sv s3 c) (\<lambda>(ret, s4).
                            rbind (handle_retire sv s4 handle) (\<lambda>(ret', s5).
                            rbind (mq_release_drop sv s5 queue handle) (\<lambda>s6. Inr (None, s6))))))))))"

section \<open>Dispatching\<close>

record skynet_monitor =
  sm_version :: u32
  sm_check_version :: u32
  sm_source :: u32
  sm_destination :: u32

definition skynet_monitor_new :: skynet_monitor where
  "skynet_monitor_new = \<lparr>sm_version = 0, sm_check_version = 0, sm_source = 0, sm_destination = 0\<rparr>"

definition skynet_monitor_trigger :: "skynet_monitor \<Rightarrow> u32 \<Rightarrow> u32 \<Rightarrow> skynet_monitor" where
  "skynet_monitor_trigger sm source destination =
     sm\<lparr>sm_source := source, sm_destination := destination, sm_version := sm_version sm + 1\<rparr>"

text \<open>The warning that is printed names the two services and the version.\<close>

definition skynet_monitor_check ::
  "services \<Rightarrow> node \<Rightarrow> skynet_monitor \<Rightarrow> (skynet_monitor \<Rightarrow> cstring) \<Rightarrow> c_error + (skynet_monitor \<times> node)" where
  "skynet_monitor_check sv s sm warning =
     (if sm_version sm = sm_check_version sm
      then if sm_destination sm \<noteq> 0
           then rbind (skynet_context_endless sv s (sm_destination sm)) (\<lambda>s1.
                rbind (skynet_error sv s1 None (warning sm)) (\<lambda>s2. Inr (sm, s2)))
           else Inr (sm, s)
      else Inr (sm\<lparr>sm_check_version := sm_version sm\<rparr>, s))"

definition dispatch_message :: "services \<Rightarrow> node \<Rightarrow> nat \<Rightarrow> skynet_message \<Rightarrow> c_error + node" where
  "dispatch_message sv s c msg =
     rbind (deref (nd_ctx s) c) (\<lambda>x.
     rbind (c_assert (cx_init x)) (\<lambda>_.
       let type = unat (drop_bit MESSAGE_TYPE_SHIFT (msg_sz msg));
           sz = msg_sz msg AND MESSAGE_TYPE_MASK;
           s1 = s\<lparr>nd_current := cx_handle x\<rparr>;
           x1 = x\<lparr>cx_message_count := cx_message_count x + 1\<rparr>;
           x2 = (if cx_profile x then x1\<lparr>cx_cpu_start := sv_thread_time sv s\<rparr> else x1)
       in case cx_cb x of
            None \<Rightarrow> Inl Use_after_free
          | Some cb \<Rightarrow>
              (case sv_cb sv cb c type (msg_session msg) (msg_source msg) (msg_data msg) sz (set_ctx s1 c x2) of
                 (reserve_msg, s2) \<Rightarrow>
                   if cx_profile x
                   then rbind (deref (nd_ctx s2) c) (\<lambda>y.
                          Inr (set_ctx s2 c (y\<lparr>cx_cpu_cost :=
                                 cx_cpu_cost y + (sv_thread_time sv s2 - cx_cpu_start y)\<rparr>)))
                   else Inr s2)))"

text \<open>The loop of \<^verbatim>\<open>skynet_context_dispatchall\<close>, with fuel: a callback may keep sending to itself.\<close>

fun skynet_context_dispatchall :: "nat \<Rightarrow> services \<Rightarrow> node \<Rightarrow> nat \<Rightarrow> nat \<Rightarrow> c_error + node" where
  "skynet_context_dispatchall 0 sv s c a = Inl Diverges"
| "skynet_context_dispatchall (Suc n) sv s c a =
     rbind (deref (mq_store (nd_mq s)) a) (\<lambda>q.
     rbind (skynet_mq_pop q) (\<lambda>(ret, m, q').
       let s1 = s\<lparr>nd_mq := (nd_mq s)\<lparr>mq_store := (mq_store (nd_mq s))(a \<mapsto> q')\<rparr>\<rparr>
       in if ret \<noteq> 0 then Inr s1
          else (case m of
                  None \<Rightarrow> Inl Uninit_read
                | Some msg \<Rightarrow> rbind (dispatch_message sv s1 c msg) (\<lambda>s2.
                    skynet_context_dispatchall n sv s2 c a))))"

text \<open>One iteration of the loop of \<^verbatim>\<open>skynet_context_message_dispatch\<close> after the pop succeeded.\<close>

definition dispatch_one ::
  "services \<Rightarrow> node \<Rightarrow> skynet_monitor \<Rightarrow> nat \<Rightarrow> nat \<Rightarrow> u32 \<Rightarrow> skynet_message \<Rightarrow> c_error + (node \<times> skynet_monitor)" where
  "dispatch_one sv s sm a c handle msg =
     rbind (deref (mq_store (nd_mq s)) a) (\<lambda>q.
       let (overload, q1) = mq_overload_query q;
           s1 = s\<lparr>nd_mq := (nd_mq s)\<lparr>mq_store := (mq_store (nd_mq s))(a \<mapsto> q1)\<rparr>\<rparr>
       in rbind (if overload \<noteq> 0
                 then skynet_error sv s1 (Some c) (ascii ''May overload, message queue length = ''
                        @ map digit_char (radix_digits 10 overload))
                 else Inr s1) (\<lambda>s2.
          let sm1 = skynet_monitor_trigger sm (msg_source msg) handle
          in rbind (deref (nd_ctx s2) c) (\<lambda>x.
             rbind (if cx_cb x = None then Inr s2 else dispatch_message sv s2 c msg) (\<lambda>s3.
               Inr (s3, skynet_monitor_trigger sm1 0 0)))))"

text \<open>The loop: \<open>True\<close> when the queue ran empty, with the iteration count and the bound \<open>n\<close> that the
  first iteration sets from the queue length.\<close>

function dispatch_loop ::
  "services \<Rightarrow> int \<Rightarrow> nat \<Rightarrow> nat \<Rightarrow> node \<Rightarrow> skynet_monitor \<Rightarrow> nat \<Rightarrow> nat \<Rightarrow> u32
   \<Rightarrow> c_error + (bool \<times> node \<times> skynet_monitor)" where
  "dispatch_loop sv weight i n s sm a c handle =
     (if i < n
      then rbind (deref (mq_store (nd_mq s)) a) (\<lambda>q.
           rbind (skynet_mq_pop q) (\<lambda>(ret, m, q').
             let s1 = s\<lparr>nd_mq := (nd_mq s)\<lparr>mq_store := (mq_store (nd_mq s))(a \<mapsto> q')\<rparr>\<rparr>
             in if ret \<noteq> 0 then Inr (True, s1, sm)
                else (let n' = (if i = 0 \<and> 0 \<le> weight
                                then nat (skynet_mq_length q') div 2 ^ nat weight else n)
                      in case m of
                           None \<Rightarrow> Inl Uninit_read
                         | Some msg \<Rightarrow>
                             rbind (dispatch_one sv s1 sm a c handle msg) (\<lambda>(s2, sm2).
                               dispatch_loop sv weight (Suc i) n' s2 sm2 a c handle))))
      else Inr (False, s, sm))"
  by pat_completeness auto
termination
  by (relation "measures [\<lambda>(sv, w, i, n, s, sm, a, c, h). if i = 0 then 1 else 0,
                          \<lambda>(sv, w, i, n, s, sm, a, c, h). n - i]") auto

declare dispatch_loop.simps [simp del]

definition global_pop :: "node \<Rightarrow> c_error + (nat option \<times> node)" where
  "global_pop s = rbind (skynet_globalmq_pop (nd_mq s)) (\<lambda>(q, m). Inr (q, s\<lparr>nd_mq := m\<rparr>))"

text \<open>The dispatch of the queue at \<open>a\<close>, and the whole function with the queue the caller had.\<close>

definition dispatch_queue ::
  "services \<Rightarrow> node \<Rightarrow> skynet_monitor \<Rightarrow> nat \<Rightarrow> int \<Rightarrow> c_error + (nat option \<times> node \<times> skynet_monitor)" where
  "dispatch_queue sv s sm a weight =
     rbind (deref (mq_store (nd_mq s)) a) (\<lambda>q.
       let handle = mq_handle q
       in rbind (handle_grab s handle) (\<lambda>(ctx, s1).
          case ctx of
            None \<Rightarrow>
              rbind (mq_release_drop sv s1 a handle) (\<lambda>s2.
              rbind (global_pop s2) (\<lambda>(nq, s3). Inr (nq, s3, sm)))
          | Some c \<Rightarrow>
              rbind (dispatch_loop sv weight 0 1 s1 sm a c handle) (\<lambda>(empty, s2, sm2).
                if empty
                then rbind (skynet_context_release sv s2 c) (\<lambda>(r, s3).
                     rbind (global_pop s3) (\<lambda>(nq, s4). Inr (nq, s4, sm2)))
                else rbind (deref (nd_ctx s2) c) (\<lambda>x.
                     rbind (c_assert (a = cx_queue x)) (\<lambda>_.
                     rbind (global_pop s2) (\<lambda>(nq, s3).
                     rbind (case nq of
                              None \<Rightarrow> Inr (a, s3)
                            | Some b \<Rightarrow> rbind (skynet_globalmq_push (nd_mq s3) a) (\<lambda>m. Inr (b, s3\<lparr>nd_mq := m\<rparr>)))
                       (\<lambda>(q', s4).
                     rbind (skynet_context_release sv s4 c) (\<lambda>(r, s5). Inr (Some q', s5, sm2)))))))))"

definition skynet_context_message_dispatch ::
  "services \<Rightarrow> node \<Rightarrow> skynet_monitor \<Rightarrow> nat option \<Rightarrow> int \<Rightarrow> c_error + (nat option \<times> node \<times> skynet_monitor)" where
  "skynet_context_message_dispatch sv s sm q weight =
     (case q of
        Some a \<Rightarrow> dispatch_queue sv s sm a weight
      | None \<Rightarrow>
          rbind (global_pop s) (\<lambda>(nq, s1).
            case nq of
              None \<Rightarrow> Inr (None, s1, sm)
            | Some a \<Rightarrow> dispatch_queue sv s1 sm a weight))"

definition handle_exit :: "services \<Rightarrow> node \<Rightarrow> nat \<Rightarrow> u32 \<Rightarrow> c_error + node" where
  "handle_exit sv s context handle =
     rbind (deref (nd_ctx s) context) (\<lambda>x.
       let handle1 = (if handle = 0 then cx_handle x else handle)
       in rbind (skynet_error sv s (Some context)
                  (if handle = 0 then ascii ''KILL self'' else ascii ''KILL :'' @ print_hex handle)) (\<lambda>s1.
          rbind (if nd_monitor_exit s1 \<noteq> 0
                 then skynet_send sv s1 (Some context) handle1 (nd_monitor_exit s1) (of_nat PTYPE_CLIENT) 0 None 0
                 else Inr (0, s1)) (\<lambda>(r, s2).
          rbind (handle_retire sv s2 handle1) (\<lambda>(r', s3). Inr s3))))"

section \<open>The invariant of a node\<close>

text \<open>
  Between the operations of a thread: every context in the handle table is allocated, has a
  reference and a queue that is not marked for release; every queue is a well-formed ring; and
  a queue linked in the global queue is marked as such.
\<close>

definition queue_msgs :: "node \<Rightarrow> nat \<Rightarrow> skynet_message list option" where
  "queue_msgs s a = map_option mq_contents (mq_store (nd_mq s) a)"

definition queues_ok :: "skynet_message mq_state \<Rightarrow> bool" where
  "queues_ok m \<longleftrightarrow>
     (\<forall>a q. mq_store m a = Some q \<longrightarrow> mq_inv q)
     \<and> (\<exists>qs. gq_repr m qs \<and> (\<forall>a q. mq_store m a = Some q \<longrightarrow> a \<in> set qs \<longrightarrow> mq_in_global q \<or> mq_release q))"

definition live_queue :: "node \<Rightarrow> nat \<Rightarrow> bool" where
  "live_queue s a \<longleftrightarrow> (\<exists>q. mq_store (nd_mq s) a = Some q \<and> \<not> mq_release q)"

definition node_ok :: "node \<Rightarrow> bool" where
  "node_ok s \<longleftrightarrow>
     slots_ok (ctx_handle s) (nd_handles s) \<and> queues_ok (nd_mq s)
     \<and> (\<forall>c. Some c \<in> set (hs_slot (nd_handles s)) \<longrightarrow>
          (\<exists>x. nd_ctx s c = Some x \<and> 1 \<le> cx_ref x \<and> live_queue s (cx_queue x)))"

lemma in_global_idem: "mq_in_global q \<Longrightarrow> q\<lparr>mq_in_global := True\<rparr> = q"
  by (cases q) simp

lemma mq_push_ok:
  assumes "gq_repr s qs" "mq_store s a = Some q" "mq_inv q" "a \<in> set qs \<Longrightarrow> mq_in_global q"
  shows "\<exists>s'. skynet_mq_push s a m = Inr s'
    \<and> gq_repr s' (if mq_in_global q then qs else qs @ [a])
    \<and> same_queues (s\<lparr>mq_store := (mq_store s)(a \<mapsto> (mq_put m q)\<lparr>mq_in_global := True\<rparr>)\<rparr>) s'"
proof (cases "mq_in_global q")
  case True
  have eq: "(mq_put m q)\<lparr>mq_in_global := True\<rparr> = mq_put m q" using True in_global_idem by (metis mq_put_frame(3))
  show ?thesis using True assms(2) gq_repr_upd [OF assms(1,2), of "mq_put m q"]
    unfolding eq by (simp add: skynet_mq_push_def Let_def)
next
  case False
  let ?q = "(mq_put m q)\<lparr>mq_in_global := True\<rparr>"
  have "a \<notin> set qs" using False assms(4) by auto
  from globalmq_push_repr [OF gq_repr_upd [OF assms(1,2), of ?q] _ this, of ?q]
  show ?thesis using False assms(2) by (simp add: skynet_mq_push_def Let_def)
qed

lemma same_queues_contents:
  "same_queues s s' \<Longrightarrow> map_option mq_contents (mq_store s' b) = map_option mq_contents (mq_store s b)
    \<and> map_option mq_release (mq_store s' b) = map_option mq_release (mq_store s b)
    \<and> map_option mq_in_global (mq_store s' b) = map_option mq_in_global (mq_store s b)
    \<and> map_option mq_inv (mq_store s' b) = map_option mq_inv (mq_store s b)"
proof (cases "mq_store s b")
  case None
  moreover assume "same_queues s s'"
  ultimately have "mq_store s' b = None" unfolding same_queues_def by (metis option.map_disc_iff)
  with None show ?thesis by simp
next
  case (Some q)
  assume "same_queues s s'"
  then obtain n where "mq_store s' b = Some (q\<lparr>mq_next := n\<rparr>)" using Some by (rule same_queues_Some)
  with Some show ?thesis by simp
qed

lemma ctx_push_delivers:
  assumes "queues_ok (nd_mq s)" "nd_ctx s c = Some x" "live_queue s (cx_queue x)"
  shows "\<exists>m'. ctx_push s c msg = Inr (s\<lparr>nd_mq := m'\<rparr>) \<and> queues_ok m'
    \<and> (\<forall>b. map_option mq_contents (mq_store m' b)
            = (if b = cx_queue x then map_option (\<lambda>ms. ms @ [msg]) (queue_msgs s b) else queue_msgs s b))
    \<and> (\<forall>b. map_option mq_release (mq_store m' b) = map_option mq_release (mq_store (nd_mq s) b))
    \<and> map_option mq_in_global (mq_store m' (cx_queue x)) = Some True"
proof -
  let ?a = "cx_queue x" and ?m = "nd_mq s"
  obtain q where q: "mq_store ?m ?a = Some q" "\<not> mq_release q" using assms(3) by (auto simp: live_queue_def)
  obtain qs where qs: "gq_repr ?m qs" "\<forall>a q. mq_store ?m a = Some q \<longrightarrow> a \<in> set qs \<longrightarrow> mq_in_global q \<or> mq_release q"
    and inv: "\<And>a q. mq_store ?m a = Some q \<Longrightarrow> mq_inv q"
    using assms(1) unfolding queues_ok_def by blast
  have g: "?a \<in> set qs \<Longrightarrow> mq_in_global q" using qs(2) q by blast
  let ?q = "(mq_put msg q)\<lparr>mq_in_global := True\<rparr>"
  let ?m1 = "?m\<lparr>mq_store := (mq_store ?m)(?a \<mapsto> ?q)\<rparr>"
  obtain m' where m': "skynet_mq_push ?m ?a msg = Inr m'" "gq_repr m' (if mq_in_global q then qs else qs @ [?a])"
    "same_queues ?m1 m'"
    using mq_push_ok [OF qs(1) q(1) inv [OF q(1)] g, of msg] by blast
  note same = same_queues_contents [OF m'(3)]
  have inv': "mq_inv r" if "mq_store m' b = Some r" for b r
  proof -
    have "map_option mq_inv (mq_store ?m1 b) = Some (mq_inv r)" using that same [of b] by (metis option.simps(9))
    then show ?thesis using inv mq_put_inv [OF inv [OF q(1)]] by (auto split: if_splits)
  qed
  have glob: "mq_in_global r \<or> mq_release r"
    if "mq_store m' b = Some r" "b \<in> set (if mq_in_global q then qs else qs @ [?a])" for b r
  proof -
    have *: "map_option mq_in_global (mq_store ?m1 b) = Some (mq_in_global r)"
      "map_option mq_release (mq_store ?m1 b) = Some (mq_release r)"
      using that(1) same [of b] by (metis option.simps(9))+
    show ?thesis
    proof (cases "b = ?a")
      case True
      with * show ?thesis by simp
    next
      case False
      then have "b \<in> set qs" using that(2) by (auto split: if_splits)
      moreover obtain z where "mq_store ?m b = Some z" "mq_in_global z = mq_in_global r" "mq_release z = mq_release r"
        using * False by auto
      ultimately show ?thesis using qs(2) by metis
    qed
  qed
  have "queues_ok m'" using inv' glob m'(2) unfolding queues_ok_def by blast
  moreover have "map_option mq_contents (mq_store m' b)
            = (if b = ?a then map_option (\<lambda>ms. ms @ [msg]) (queue_msgs s b) else queue_msgs s b)" for b
    using same [of b] q(1) mq_put_contents [OF inv [OF q(1)]] by (simp add: queue_msgs_def)
  moreover have "map_option mq_release (mq_store m' b) = map_option mq_release (mq_store ?m b)" for b
    using same [of b] q(1) by simp
  moreover have "map_option mq_in_global (mq_store m' ?a) = Some True" using same [of ?a] by simp
  moreover have "ctx_push s c msg = Inr (s\<lparr>nd_mq := m'\<rparr>)" using m'(1) assms(2) by (simp add: ctx_push_def)
  ultimately show ?thesis by blast
qed

lemma ctx_handle_upd:
  "nd_ctx s c = Some x \<Longrightarrow> cx_handle y = cx_handle x \<Longrightarrow> ctx_handle (s\<lparr>nd_ctx := (nd_ctx s)(c \<mapsto> y)\<rparr>) = ctx_handle s"
  by (auto simp: ctx_handle_def fun_eq_iff)

lemma ctx_handle_mq [simp]: "ctx_handle (s\<lparr>nd_mq := m\<rparr>) = ctx_handle s"
  by (simp add: ctx_handle_def fun_eq_iff)

lemma context_push_found:
  assumes ok: "node_ok s" and grab: "skynet_handle_grab (ctx_handle s) (nd_handles s) h = Some c"
  obtains x m' where "nd_ctx s c = Some x" "cx_handle x = h"
    "skynet_context_push sv s h msg = Inr (0, s\<lparr>nd_mq := m'\<rparr>)" "node_ok (s\<lparr>nd_mq := m'\<rparr>)"
    "\<And>b. queue_msgs (s\<lparr>nd_mq := m'\<rparr>) b
        = (if b = cx_queue x then map_option (\<lambda>ms. ms @ [msg]) (queue_msgs s b) else queue_msgs s b)"
    "\<And>b. map_option mq_release (mq_store m' b) = map_option mq_release (mq_store (nd_mq s) b)"
    "map_option mq_in_global (mq_store m' (cx_queue x)) = Some True"
proof -
  have slots: "slots_ok (ctx_handle s) (nd_handles s)" using ok by (simp add: node_ok_def)
  have c: "Some c \<in> set (hs_slot (nd_handles s))" "ctx_handle s c = h" using grab_iff [OF slots] grab by blast+
  obtain x where x: "nd_ctx s c = Some x" "1 \<le> cx_ref x" "live_queue s (cx_queue x)"
    using ok c(1) unfolding node_ok_def by blast
  let ?x1 = "x\<lparr>cx_ref := cx_ref x + 1\<rparr>"
  let ?s1 = "set_ctx s c ?x1"
  have "queues_ok (nd_mq ?s1)" "nd_ctx ?s1 c = Some ?x1" "live_queue ?s1 (cx_queue ?x1)"
    using ok x(3) by (simp_all add: node_ok_def live_queue_def)
  from ctx_push_delivers [OF this, of msg] obtain m' where m': "ctx_push ?s1 c msg = Inr (?s1\<lparr>nd_mq := m'\<rparr>)" "queues_ok m'"
    "\<forall>b. map_option mq_contents (mq_store m' b)
       = (if b = cx_queue x then map_option (\<lambda>ms. ms @ [msg]) (queue_msgs s b) else queue_msgs s b)"
    "\<forall>b. map_option mq_release (mq_store m' b) = map_option mq_release (mq_store (nd_mq s) b)"
    "map_option mq_in_global (mq_store m' (cx_queue x)) = Some True"
    by (auto simp: queue_msgs_def)
  have restored: "s\<lparr>nd_mq := m', nd_ctx := (nd_ctx s)(c \<mapsto> x)\<rparr> = s\<lparr>nd_mq := m'\<rparr>"
    using x(1) by (cases s) (simp add: map_upd_triv)
  have "skynet_context_push sv s h msg = Inr (0, s\<lparr>nd_mq := m'\<rparr>)"
    using grab x m'(1) by (simp add: skynet_context_push_def handle_grab_def skynet_context_grab_def
        skynet_context_release_def Let_def restored)
  moreover have "live_queue (s\<lparr>nd_mq := m'\<rparr>) a = live_queue s a" for a
  proof -
    have "map_option mq_release (mq_store m' a) = map_option mq_release (mq_store (nd_mq s) a)" using m'(4) by blast
    then show ?thesis by (cases "mq_store m' a"; cases "mq_store (nd_mq s) a") (auto simp: live_queue_def)
  qed
  then have "node_ok (s\<lparr>nd_mq := m'\<rparr>)" using ok m'(2) by (simp add: node_ok_def)
  moreover have "cx_handle x = h" using c(2) x(1) by (simp add: ctx_handle_def)
  ultimately show ?thesis using that x(1) m'(3-5) by (simp add: queue_msgs_def)
qed

lemma context_push_missing:
  "skynet_handle_grab (ctx_handle s) (nd_handles s) h = None \<Longrightarrow> skynet_context_push sv s h msg = Inr (-1, s)"
  by (simp add: skynet_context_push_def handle_grab_def)

section \<open>The size word\<close>

lemma mask56: "MESSAGE_TYPE_MASK = mask 56"
  by (simp add: MESSAGE_TYPE_MASK_def mask_eq_exp_minus_1)

text \<open>The type goes into the top byte of the size and both come out again.\<close>

lemma type_in_size:
  fixes sz :: u64 and ty :: u32
  assumes "sz AND MESSAGE_TYPE_MASK = sz"
  defines "w \<equiv> sz OR push_bit MESSAGE_TYPE_SHIFT (ucast (ty AND 0xff))"
  shows "drop_bit MESSAGE_TYPE_SHIFT w = ucast (ty AND 0xff)" "w AND MESSAGE_TYPE_MASK = sz"
proof -
  have sz: "bit sz n \<Longrightarrow> n < 56" for n
    using assms(1) by (metis bit_and_iff bit_mask_iff mask56)
  have ff: "(0xff :: u32) = mask 8" by (simp add: mask_eq_exp_minus_1)
  show "drop_bit MESSAGE_TYPE_SHIFT w = ucast (ty AND 0xff)"
    unfolding w_def MESSAGE_TYPE_SHIFT_def ff
    by (rule bit_eqI) (auto simp: bit_simps dest: sz)
  show "w AND MESSAGE_TYPE_MASK = sz"
    unfolding w_def MESSAGE_TYPE_SHIFT_def mask56
    by (rule bit_eqI) (auto simp: bit_simps dest: sz)
qed

section \<open>Sessions and references\<close>

lemma sint_small: "0 \<le> k \<Longrightarrow> k < 2 ^ 31 \<Longrightarrow> sint (word_of_int k :: u32) = k"
  by (simp add: signed_take_bit_int_eq_self sint_uint uint_word_of_int)

lemma newsession_Some:
  assumes "nd_ctx s c = Some x" "0 \<le> sint (cx_session_id x)"
  shows "skynet_context_newsession s c =
    (let r = (if sint (cx_session_id x) = 2 ^ 31 - 1 then 1 else sint (cx_session_id x) + 1)
     in Inr (r, set_ctx s c (x\<lparr>cx_session_id := word_of_int r\<rparr>)))"
proof -
  let ?k = "sint (cx_session_id x)"
  have lt: "?k < 2 ^ 31" using sint_lt [of "cx_session_id x"] by simp
  have w: "cx_session_id x + 1 = word_of_int (?k + 1)" by simp
  show ?thesis
  proof (cases "?k = 2 ^ 31 - 1")
    case True
    then have "cx_session_id x + 1 = word_of_int (2 ^ 31)" using w by simp
    then have "sint (cx_session_id x + 1) \<le> 0" by simp
    then show ?thesis using assms(1) True by (simp add: skynet_context_newsession_def Let_def)
  next
    case False
    have "sint (word_of_int (?k + 1) :: u32) = ?k + 1"
    proof (rule sint_small)
      show "0 \<le> ?k + 1" using assms(2) by linarith
      show "?k + 1 < 2 ^ 31" using lt False by linarith
    qed
    then have "sint (cx_session_id x + 1) = ?k + 1" by (simp only: w)
    then show ?thesis using assms False by (simp add: skynet_context_newsession_def Let_def)
  qed
qed

lemma node_ok_session:
  assumes "node_ok s" "nd_ctx s c = Some x"
  shows "node_ok (set_ctx s c (x\<lparr>cx_session_id := w\<rparr>))"
    "skynet_handle_grab (ctx_handle (set_ctx s c (x\<lparr>cx_session_id := w\<rparr>))) = skynet_handle_grab (ctx_handle s)"
    "queue_msgs (set_ctx s c (x\<lparr>cx_session_id := w\<rparr>)) = queue_msgs s"
proof -
  have h: "ctx_handle (set_ctx s c (x\<lparr>cx_session_id := w\<rparr>)) = ctx_handle s"
    using ctx_handle_upd [OF assms(2)] by simp
  then show "skynet_handle_grab (ctx_handle (set_ctx s c (x\<lparr>cx_session_id := w\<rparr>))) = skynet_handle_grab (ctx_handle s)"
    by simp
  show "queue_msgs (set_ctx s c (x\<lparr>cx_session_id := w\<rparr>)) = queue_msgs s" by (simp add: queue_msgs_def fun_eq_iff)
  show "node_ok (set_ctx s c (x\<lparr>cx_session_id := w\<rparr>))"
    using assms h unfolding node_ok_def live_queue_def by fastforce
qed

section \<open>The dispatch loop\<close>

text \<open>A callback that leaves its own context and queue alone.\<close>

definition calm :: "services \<Rightarrow> nat \<Rightarrow> nat \<Rightarrow> bool" where
  "calm sv a c \<longleftrightarrow>
     (\<forall>cb type session source data sz s.
        let s' = snd (sv_cb sv cb c type session source data sz s)
        in nd_ctx s' c = nd_ctx s c \<and> mq_store (nd_mq s') a = mq_store (nd_mq s) a)"

text \<open>What dispatching does to a context: it counts the message and perhaps the time.\<close>

definition same_service :: "skynet_context \<Rightarrow> skynet_context \<Rightarrow> bool" where
  "same_service x y \<longleftrightarrow>
     cx_init y = cx_init x \<and> cx_cb y = cx_cb x \<and> cx_queue y = cx_queue x \<and> cx_handle y = cx_handle x
     \<and> cx_ref y = cx_ref x \<and> cx_session_id y = cx_session_id x"

lemma same_service_trans: "same_service x y \<Longrightarrow> same_service y z \<Longrightarrow> same_service x z"
  by (simp add: same_service_def)

lemma calm_cb:
  assumes "calm sv a c" "sv_cb sv cb c type session source data sz s = (r, s')"
  shows "nd_ctx s' c = nd_ctx s c" "mq_store (nd_mq s') a = mq_store (nd_mq s) a"
proof -
  have "let s' = snd (sv_cb sv cb c type session source data sz s)
        in nd_ctx s' c = nd_ctx s c \<and> mq_store (nd_mq s') a = mq_store (nd_mq s) a"
    using assms(1) unfolding calm_def by blast
  with assms(2) show "nd_ctx s' c = nd_ctx s c" "mq_store (nd_mq s') a = mq_store (nd_mq s) a" by simp_all
qed

lemma dispatch_message_calm:
  assumes "calm sv a c" "nd_ctx s c = Some x" "cx_init x" "cx_cb x = Some cb"
  shows "\<exists>s' y. dispatch_message sv s c msg = Inr s' \<and> nd_ctx s' c = Some y \<and> same_service x y
    \<and> cx_message_count y = cx_message_count x + 1 \<and> mq_store (nd_mq s') a = mq_store (nd_mq s) a"
proof -
  let ?x1 = "x\<lparr>cx_message_count := cx_message_count x + 1\<rparr>"
  let ?x2 = "if cx_profile x then ?x1\<lparr>cx_cpu_start := sv_thread_time sv s\<rparr> else ?x1"
  let ?s1 = "set_ctx (s\<lparr>nd_current := cx_handle x\<rparr>) c ?x2"
  obtain r s2 where cb: "sv_cb sv cb c (unat (drop_bit MESSAGE_TYPE_SHIFT (msg_sz msg))) (msg_session msg) (msg_source msg)
      (msg_data msg) (msg_sz msg AND MESSAGE_TYPE_MASK) ?s1 = (r, s2)" by fastforce
  note k = calm_cb [OF assms(1) cb]
  have d: "dispatch_message sv s c msg =
      (if cx_profile x
       then Inr (set_ctx s2 c (?x2\<lparr>cx_cpu_cost := cx_cpu_cost ?x2 + (sv_thread_time sv s2 - cx_cpu_start ?x2)\<rparr>))
       else Inr s2)"
    using assms(2-4) cb k by (simp add: dispatch_message_def Let_def)
  show ?thesis using k unfolding d by (auto simp: same_service_def)
qed

lemma dispatch_one_calm:
  assumes "calm sv a c" "nd_ctx s c = Some x" "cx_init x" "cx_cb x = Some cb"
    and "mq_store (nd_mq s) a = Some q" "mq_overload q = 0"
  shows "\<exists>s' y. dispatch_one sv s sm a c h msg
      = Inr (s', sm\<lparr>sm_source := 0, sm_destination := 0, sm_version := sm_version sm + 2\<rparr>)
    \<and> nd_ctx s' c = Some y \<and> same_service x y
    \<and> cx_message_count y = cx_message_count x + 1 \<and> mq_store (nd_mq s') a = Some q"
proof -
  let ?s1 = "s\<lparr>nd_mq := (nd_mq s)\<lparr>mq_store := (mq_store (nd_mq s))(a \<mapsto> q)\<rparr>\<rparr>"
  have "nd_ctx ?s1 c = Some x" using assms(2) by simp
  from dispatch_message_calm [OF assms(1) this assms(3,4), of msg] obtain s' y where
    "dispatch_message sv ?s1 c msg = Inr s'" "nd_ctx s' c = Some y" "same_service x y"
    "cx_message_count y = cx_message_count x + 1" "mq_store (nd_mq s') a = Some q" by auto
  then show ?thesis
    using assms by (auto simp: dispatch_one_def mq_overload_query_def Let_def skynet_monitor_trigger_def)
qed

lemma dispatch_step:
  assumes "calm sv a c" "nd_ctx s c = Some x" "cx_init x" "cx_cb x = Some cb" "mq_inv q"
    and "mq_store (nd_mq s) a = Some q" "mq_overload q = 0" "mq_contents q = m # ms" "length ms \<le> MQ_OVERLOAD" "i < n"
  shows "\<exists>s' q' y. mq_inv q' \<and> mq_contents q' = ms \<and> mq_overload q' = 0
    \<and> mq_store (nd_mq s') a = Some q' \<and> nd_ctx s' c = Some y \<and> same_service x y
    \<and> cx_message_count y = cx_message_count x + 1
    \<and> dispatch_loop sv w i n s sm a c h = dispatch_loop sv w (Suc i)
        (if i = 0 \<and> 0 \<le> w then length ms div 2 ^ nat w else n) s'
        (sm\<lparr>sm_source := 0, sm_destination := 0, sm_version := sm_version sm + 2\<rparr>) a c h"
proof -
  have "MQ_OVERLOAD \<le> mq_overload_threshold q" using assms(5) by (simp add: mq_inv_def)
  then obtain q' where q': "skynet_mq_pop q = Inr (0, Some m, q')" "mq_inv q'" "mq_contents q' = ms" "mq_overload q' = 0"
    using skynet_mq_pop_cons [OF assms(5,8)] assms(7,9) by auto
  let ?s1 = "s\<lparr>nd_mq := (nd_mq s)\<lparr>mq_store := (mq_store (nd_mq s))(a \<mapsto> q')\<rparr>\<rparr>"
  have "nd_ctx ?s1 c = Some x" "mq_store (nd_mq ?s1) a = Some q'" using assms(2) by simp_all
  from dispatch_one_calm [OF assms(1) this(1) assms(3,4) this(2) q'(4), of sm h m]
  show ?thesis
    using q' assms(6,10) skynet_mq_length_eq [OF q'(2)]
    by (subst dispatch_loop.simps) (auto simp: Let_def intro!: exI)
qed

lemma dispatch_loop_rest:
  assumes "calm sv a c" "nd_ctx s c = Some x" "cx_init x" "cx_cb x = Some cb" "mq_inv q"
    and "mq_store (nd_mq s) a = Some q" "mq_overload q = 0" "length (mq_contents q) \<le> MQ_OVERLOAD"
    and "0 < i" "k \<le> length (mq_contents q)"
  shows "\<exists>s' q' y. dispatch_loop sv w i (i + k) s sm a c h
      = Inr (False, s', if k = 0 then sm else sm\<lparr>sm_source := 0, sm_destination := 0, sm_version := sm_version sm + 2 * of_nat k\<rparr>)
    \<and> mq_store (nd_mq s') a = Some q' \<and> mq_contents q' = drop k (mq_contents q)
    \<and> nd_ctx s' c = Some y \<and> same_service x y \<and> cx_message_count y = cx_message_count x + of_nat k"
  using assms
proof (induction k arbitrary: i s sm q x)
  case 0
  then show ?case by (subst dispatch_loop.simps) (auto simp: same_service_def)
next
  case (Suc k)
  from Suc.prems(10) obtain m ms where ms: "mq_contents q = m # ms" by (cases "mq_contents q") auto
  with Suc.prems(8) have "length ms \<le> MQ_OVERLOAD" by simp
  from dispatch_step [OF Suc.prems(1-7) ms this, of i "i + Suc k" w sm h] obtain s' q' y where
    step: "mq_inv q'" "mq_contents q' = ms" "mq_overload q' = 0" "mq_store (nd_mq s') a = Some q'" "nd_ctx s' c = Some y"
    "same_service x y" "cx_message_count y = cx_message_count x + 1"
    "dispatch_loop sv w i (i + Suc k) s sm a c h = dispatch_loop sv w (Suc i) (Suc i + k) s'
        (sm\<lparr>sm_source := 0, sm_destination := 0, sm_version := sm_version sm + 2\<rparr>) a c h"
    using Suc.prems(9) by auto
  have "cx_init y" "cx_cb y = Some cb" using step(6) Suc.prems(3,4) by (simp_all add: same_service_def)
  from Suc.IH [OF Suc.prems(1) step(5) this step(1,4,3), of "Suc i"
      "sm\<lparr>sm_source := 0, sm_destination := 0, sm_version := sm_version sm + 2\<rparr>"]
  show ?case
    using step ms Suc.prems(8,10) by (auto simp: algebra_simps intro: same_service_trans)
qed

section \<open>Properties\<close>

text \<open>
  Session numbers are positive and go up by one, and after the largest \<^verbatim>\<open>int\<close> they start again
  at 1; nothing else of the context or of the node changes. (The increment wraps as it does on
  the platforms the code targets.)
\<close>

theorem newsession_positive:
  assumes "nd_ctx s c = Some x" "0 \<le> sint (cx_session_id x)"
  shows "\<exists>r. skynet_context_newsession s c = Inr (r, set_ctx s c (x\<lparr>cx_session_id := word_of_int r\<rparr>))
    \<and> 1 \<le> r \<and> sint (word_of_int r :: u32) = r
    \<and> r = (if sint (cx_session_id x) = 2 ^ 31 - 1 then 1 else sint (cx_session_id x) + 1)"
proof -
  let ?r = "if sint (cx_session_id x) = 2 ^ 31 - 1 then 1 else sint (cx_session_id x) + 1"
  have "sint (cx_session_id x) < 2 ^ 31" using sint_lt [of "cx_session_id x"] by simp
  then have "1 \<le> ?r" "?r < 2 ^ 31" using assms(2) by auto
  moreover from this have "sint (word_of_int ?r :: u32) = ?r" by (intro sint_small) auto
  ultimately show ?thesis using newsession_Some [OF assms] by (simp add: Let_def)
qed

definition example_context :: skynet_context where
  "example_context =
     \<lparr>cx_instance = 1, cx_mod = 1, cx_cb = Some 1, cx_queue = 10, cx_logfile = False, cx_cpu_cost = 0,
      cx_cpu_start = 0, cx_handle = 0x01000001, cx_session_id = 41, cx_ref = 1, cx_message_count = 0,
      cx_init = True, cx_endless = False, cx_profile = False\<rparr>"

definition example_node :: node where
  "example_node =
     \<lparr>nd_total = 1, nd_monitor_exit = 0, nd_profile = False, nd_current = 0,
      nd_ctx = [5 \<mapsto> example_context],
      nd_mq = skynet_mq_init\<lparr>mq_store := [10 \<mapsto> (skynet_mq_create 0x01000001)\<lparr>mq_in_global := False\<rparr>]\<rparr>,
      nd_handles = (skynet_handle_init 1)\<lparr>hs_slot := [None, Some 5, None, None]\<rparr>,
      nd_timer = timer_create_timer, nd_logger = 0, nd_HARBOR = 0x01000000, nd_REMOTE = None\<rparr>"

theorem newsession_positive_witness:
  "\<exists>s. skynet_context_newsession example_node 5 = Inr (42, s)"
  using newsession_positive [of example_node 5 example_context]
  by (simp add: example_node_def example_context_def)

lemma example_node_ok: "node_ok example_node"
proof -
  have "mq_inv ((skynet_mq_create 0x01000001)\<lparr>mq_in_global := False\<rparr>)" by (simp add: mq_inv_create)
  moreover have "gq_repr (nd_mq example_node) []"
    by (simp add: gq_repr_def example_node_def skynet_mq_init_def skynet_mq_create_def)
  ultimately have "queues_ok (nd_mq example_node)"
    unfolding queues_ok_def by (auto simp: example_node_def)
  moreover have "slots_ok (ctx_handle example_node) (nd_handles example_node)"
  proof -
    let ?hs = "nd_handles example_node" and ?h = "ctx_handle example_node"
    have "\<exists>k. 2 \<le> k \<and> k \<le> 24 \<and> slot_size ?hs = 2 ^ k"
      by (rule exI [of _ 2]) (simp add: example_node_def)
    moreover have "slot_hash (?h c) (slot_size ?hs) = i \<and> ?h c AND NOT HANDLE_MASK = hs_harbor ?hs"
      if i: "i < slot_size ?hs" "hs_slot ?hs ! i = Some c" for i c
    proof -
      have "i = 0 \<or> i = 1 \<or> i = 2 \<or> i = 3" using i by (auto simp: example_node_def)
      then have "i = 1 \<and> c = 5" using i by (auto simp: example_node_def)
      then show ?thesis
        by (simp add: slot_hash_def ctx_handle_def example_node_def example_context_def HANDLE_MASK_def
            skynet_handle_init_def HANDLE_REMOTE_SHIFT_def)
    qed
    moreover have "hs_harbor ?hs AND HANDLE_MASK = 0"
      by (simp add: example_node_def skynet_handle_init_def HANDLE_REMOTE_SHIFT_def HANDLE_MASK_def)
    ultimately show ?thesis by (simp add: slots_ok_def)
  qed
  ultimately show ?thesis
    by (auto simp: node_ok_def live_queue_def example_node_def example_context_def skynet_mq_create_def)
qed

text \<open>
  \<^verbatim>\<open>skynet_context_push\<close> delivers a message to the service with a handle: it is appended to that
  service's queue, which is in the global queue or being run afterwards, every other queue
  is as before, and the reference it takes is given back. With a handle nobody has, it
  returns -1 and changes nothing.
\<close>

theorem context_push_delivers:
  assumes "node_ok s"
  shows "case skynet_handle_grab (ctx_handle s) (nd_handles s) h of
      None \<Rightarrow> skynet_context_push sv s h msg = Inr (-1, s)
    | Some c \<Rightarrow> \<exists>x s'. nd_ctx s c = Some x \<and> skynet_context_push sv s h msg = Inr (0, s')
        \<and> node_ok s' \<and> nd_ctx s' = nd_ctx s \<and> nd_handles s' = nd_handles s
        \<and> (\<forall>b. queue_msgs s' b = (if b = cx_queue x then map_option (\<lambda>ms. ms @ [msg]) (queue_msgs s b)
                                  else queue_msgs s b))
        \<and> map_option mq_in_global (mq_store (nd_mq s') (cx_queue x)) = Some True"
proof (cases "skynet_handle_grab (ctx_handle s) (nd_handles s) h")
  case None
  then show ?thesis by (simp add: context_push_missing)
next
  case (Some c)
  obtain x m' where "nd_ctx s c = Some x" "cx_handle x = h"
    "skynet_context_push sv s h msg = Inr (0, s\<lparr>nd_mq := m'\<rparr>)" "node_ok (s\<lparr>nd_mq := m'\<rparr>)"
    "\<And>b. queue_msgs (s\<lparr>nd_mq := m'\<rparr>) b
        = (if b = cx_queue x then map_option (\<lambda>ms. ms @ [msg]) (queue_msgs s b) else queue_msgs s b)"
    "map_option mq_in_global (mq_store m' (cx_queue x)) = Some True"
    using context_push_found [OF assms Some] by metis
  with Some show ?thesis by (auto intro!: exI [of _ "s\<lparr>nd_mq := m'\<rparr>"])
qed

definition example_services :: services where
  "example_services =
     \<lparr>sv_query = (\<lambda>n. Some 1), sv_create = (\<lambda>m. Some 7), sv_init = (\<lambda>m i c p s. (0, s)),
      sv_release = (\<lambda>m i s. s), sv_cb = (\<lambda>cb c t ss src d sz s. (0, s)), sv_thread_time = (\<lambda>s. 0),
      sv_new_context = (\<lambda>s. 100), sv_new_queue = (\<lambda>s. 200)\<rparr>"

lemma example_grab: "skynet_handle_grab (ctx_handle example_node) (nd_handles example_node) 0x01000001 = Some 5"
  by (simp add: skynet_handle_grab_def example_node_def slot_hash_def ctx_handle_def example_context_def)

theorem context_push_delivers_witness:
  "\<exists>s'. skynet_context_push example_services example_node 0x01000001 (timeout_message 3) = Inr (0, s')
    \<and> queue_msgs s' 10 = Some [timeout_message 3]"
proof -
  have "queue_msgs example_node 10 = Some []"
    by (simp add: queue_msgs_def example_node_def mq_contents_create)
  moreover have "nd_ctx example_node 5 = Some example_context" "cx_queue example_context = 10"
    by (simp_all add: example_node_def example_context_def)
  ultimately show ?thesis
    using context_push_delivers [OF example_node_ok, where h = "0x01000001" and sv = example_services and msg = "timeout_message 3"]
    by (auto simp: example_grab)
qed

text \<open>
  C21: \<^verbatim>\<open>skynet_send\<close> to a service of this node delivers exactly one message to it. The receiver reads
  back the type, the size and the bytes that were sent and the source, which is the sender
  when none is given; the return value is the session of the message, a fresh positive one when it
  was to be allocated. When no service has the handle, nothing is queued and -1 is returned.
\<close>

theorem send_local_delivers:
  assumes ok: "node_ok s" and ctx: "nd_ctx s c = Some x" "0 \<le> sint (cx_session_id x)"
    and sz: "sz AND MESSAGE_TYPE_MASK = sz" "unat sz \<le> length d"
    and dst: "destination \<noteq> 0" "nd_HARBOR s \<noteq> NOT 0" "destination AND NOT HANDLE_MASK \<in> {0, nd_HARBOR s}"
    and alloc: "type AND of_nat PTYPE_TAG_ALLOCSESSION \<noteq> 0 \<longrightarrow> session = 0"
  shows "\<exists>r s'. skynet_send sv s (Some c) source destination type session (Some d) sz = Inr (r, s') \<and> node_ok s'
    \<and> (case skynet_handle_grab (ctx_handle s) (nd_handles s) destination of
         None \<Rightarrow> r = -1 \<and> queue_msgs s' = queue_msgs s
       | Some c' \<Rightarrow> \<exists>a msg bytes.
           a = cx_queue (the (nd_ctx s c'))
           \<and> queue_msgs s' = (queue_msgs s)(a := map_option (\<lambda>ms. ms @ [msg]) (queue_msgs s a))
           \<and> msg_source msg = (if source = 0 then cx_handle x else source) \<and> msg_session msg = r
           \<and> (if type AND of_nat PTYPE_TAG_ALLOCSESSION \<noteq> 0 then 1 \<le> r else r = session)
           \<and> drop_bit MESSAGE_TYPE_SHIFT (msg_sz msg) = ucast (type AND 0xff)
           \<and> msg_sz msg AND MESSAGE_TYPE_MASK = sz
           \<and> msg_data msg = Some (Bytes bytes) \<and> take (unat sz) bytes = take (unat sz) d)"
proof -
  let ?alloc = "type AND of_nat PTYPE_TAG_ALLOCSESSION \<noteq> 0"
  let ?bytes = "if type AND of_nat PTYPE_TAG_DONTCOPY = 0 then take (unat sz) d @ [0] else d"
  let ?sz = "sz OR push_bit MESSAGE_TYPE_SHIFT (ucast (type AND 0xff)) :: u64"
  let ?r = "if ?alloc then (if sint (cx_session_id x) = 2 ^ 31 - 1 then 1 else sint (cx_session_id x) + 1) else session"
  let ?s = "if ?alloc then set_ctx s c (x\<lparr>cx_session_id := word_of_int ?r\<rparr>) else s"
  have f: "filter_args s (Some c) type session (Some d) sz = Inr (?r, Some ?bytes, ?sz, ?s)"
    using newsession_Some [OF ctx] alloc sz(2) by (auto simp: filter_args_def Let_def)
  have frame: "node_ok ?s" "skynet_handle_grab (ctx_handle ?s) = skynet_handle_grab (ctx_handle s)"
    "queue_msgs ?s = queue_msgs s" "nd_handles ?s = nd_handles s" "nd_HARBOR ?s = nd_HARBOR s"
    using node_ok_session [OF ok ctx(1)] ok by auto
  have q: "cx_queue (the (nd_ctx ?s c')) = cx_queue (the (nd_ctx s c'))" for c' using ctx(1) by auto
  have src: "source_of ?s (Some c) source = Inr (if source = 0 then cx_handle x else source)"
    using ctx(1) by (simp add: source_of_def)
  have rem: "skynet_harbor_message_isremote ?s destination = Inr False"
    using dst frame(5) by (auto simp: skynet_harbor_message_isremote_def Let_def)
  let ?msg = "\<lparr>msg_source = (if source = 0 then cx_handle x else source), msg_session = ?r,
                msg_data = Some (Bytes ?bytes), msg_sz = ?sz\<rparr>"
  have send: "skynet_send sv s (Some c) source destination type session (Some d) sz
    = rbind (skynet_context_push sv ?s destination ?msg) (\<lambda>(r, s2). Inr (if r \<noteq> 0 then -1 else ?r, s2))"
    using sz(1) dst(1) by (simp add: skynet_send_def f src rem del: if_split)
  show ?thesis
  proof (cases "skynet_handle_grab (ctx_handle s) (nd_handles s) destination")
    case None
    then have "skynet_context_push sv ?s destination ?msg = Inr (-1, ?s)"
      using frame by (intro context_push_missing) (simp del: if_split)
    then show ?thesis using None frame by (intro exI [of _ "-1"] exI [of _ ?s]) (simp add: send del: if_split)
  next
    case (Some c')
    then have g: "skynet_handle_grab (ctx_handle ?s) (nd_handles ?s) destination = Some c'"
      using frame by (simp del: if_split)
    obtain y m' where p: "nd_ctx ?s c' = Some y" "skynet_context_push sv ?s destination ?msg = Inr (0, ?s\<lparr>nd_mq := m'\<rparr>)"
      "node_ok (?s\<lparr>nd_mq := m'\<rparr>)"
      "\<And>b. queue_msgs (?s\<lparr>nd_mq := m'\<rparr>) b
        = (if b = cx_queue y then map_option (\<lambda>ms. ms @ [?msg]) (queue_msgs ?s b) else queue_msgs ?s b)"
      using context_push_found [OF frame(1) g, where sv = sv and msg = ?msg] by blast
    have y: "cx_queue y = cx_queue (the (nd_ctx s c'))" using q [of c'] p(1) by (simp del: if_split)
    have "queue_msgs (?s\<lparr>nd_mq := m'\<rparr>)
        = (queue_msgs s)(cx_queue y := map_option (\<lambda>ms. ms @ [?msg]) (queue_msgs s (cx_queue y)))"
      using p(4) frame(3) by (auto simp: fun_eq_iff simp del: if_split)
    moreover have "?alloc \<Longrightarrow> 1 \<le> ?r" using ctx(2) by auto
    moreover note type_in_size [OF sz(1), of type]
    ultimately show ?thesis
      using Some p(2,3) y sz(2)
      by (intro exI [of _ ?r] exI [of _ "?s\<lparr>nd_mq := m'\<rparr>"]) (auto simp: send intro!: exI [of _ ?msg] exI [of _ ?bytes])
  qed
qed

theorem send_local_delivers_witness:
  "\<exists>r s'. skynet_send example_services example_node (Some 5) 0 0x01000001 (of_nat PTYPE_TEXT) 9 (Some [104, 105]) 2
     = Inr (r, s') \<and> node_ok s' \<and> r = 9"
proof -
  have c: "nd_ctx example_node 5 = Some example_context" "0 \<le> sint (cx_session_id example_context)"
    by (simp_all add: example_node_def example_context_def)
  have "(2 :: u64) AND MESSAGE_TYPE_MASK = 2" "nd_HARBOR example_node \<noteq> NOT 0"
    "(0x01000001 :: u32) AND NOT HANDLE_MASK \<in> {0, nd_HARBOR example_node}"
    by (simp_all add: MESSAGE_TYPE_MASK_def HANDLE_MASK_def example_node_def)
  then show ?thesis
    using send_local_delivers [OF example_node_ok c, where sz = 2 and d = "[104, 105]" and destination = "0x01000001"
        and type = "of_nat PTYPE_TEXT" and session = 9 and sv = example_services and source = 0]
    by (auto simp: example_grab PTYPE_TEXT_def)
qed

text \<open>
  A context lives exactly as long as it has references. Releasing one of several only counts
  down. Releasing the last one runs the release function of its module, frees it, takes it out
  of the total and marks its queue for release, which is then in the global queue, so that a
  worker will find and drop it.
\<close>

theorem context_release_last:
  assumes ctx: "nd_ctx s c = Some x" and ok: "queues_ok (nd_mq s)" "live_queue s (cx_queue x)"
    and rel: "\<And>t. nd_mq (sv_release sv (cx_mod x) (cx_instance x) t) = nd_mq t"
      "\<And>t. nd_ctx (sv_release sv (cx_mod x) (cx_instance x) t) = nd_ctx t"
      "\<And>t. nd_total (sv_release sv (cx_mod x) (cx_instance x) t) = nd_total t"
  shows "if cx_ref x = 1
         then \<exists>s' qs. skynet_context_release sv s c = Inr (None, s') \<and> nd_ctx s' = (nd_ctx s)(c := None)
                \<and> nd_total s' = nd_total s - 1 \<and> queues_ok (nd_mq s') \<and> queue_msgs s' = queue_msgs s
                \<and> map_option mq_release (mq_store (nd_mq s') (cx_queue x)) = Some True
                \<and> gq_repr (nd_mq s') qs
                \<and> (cx_queue x \<in> set qs \<or> map_option mq_in_global (mq_store (nd_mq s') (cx_queue x)) = Some True)
         else skynet_context_release sv s c = Inr (Some c, set_ctx s c (x\<lparr>cx_ref := cx_ref x - 1\<rparr>))"
proof (cases "cx_ref x = 1")
  case False
  then show ?thesis using ctx by (simp add: skynet_context_release_def Let_def)
next
  case True
  let ?a = "cx_queue x" and ?m = "nd_mq s"
  obtain q where q: "mq_store ?m ?a = Some q" "\<not> mq_release q" using ok(2) by (auto simp: live_queue_def)
  let ?m1 = "?m\<lparr>mq_store := (mq_store ?m)(?a \<mapsto> q\<lparr>mq_release := True\<rparr>)\<rparr>"
  obtain qs where qs: "gq_repr ?m qs" "\<forall>a q. mq_store ?m a = Some q \<longrightarrow> a \<in> set qs \<longrightarrow> mq_in_global q \<or> mq_release q"
    and inv: "\<And>a q. mq_store ?m a = Some q \<Longrightarrow> mq_inv q"
    using ok(1) unfolding queues_ok_def by blast
  have g1: "gq_repr ?m1 qs" using gq_repr_upd [OF qs(1) q(1), of "q\<lparr>mq_release := True\<rparr>"] by simp
  have "\<exists>m' qs'. skynet_mq_mark_release ?m ?a = Inr m' \<and> gq_repr m' qs' \<and> same_queues ?m1 m'
      \<and> (set qs' = set qs \<and> mq_in_global q \<or> set qs' = insert ?a (set qs))"
  proof (cases "mq_in_global q")
    case True
    then show ?thesis using q g1 by (auto simp: skynet_mq_mark_release_def Let_def intro!: exI [of _ ?m1] exI [of _ qs])
  next
    case False
    then have "?a \<notin> set qs" using qs(2) q by blast
    from globalmq_push_repr [OF g1 _ this, of "q\<lparr>mq_release := True\<rparr>"] obtain m' where
      "skynet_globalmq_push ?m1 ?a = Inr m'" "gq_repr m' (qs @ [?a])" "same_queues ?m1 m'" by auto
    then show ?thesis using q False
      by (auto simp: skynet_mq_mark_release_def Let_def intro!: exI [of _ m'] exI [of _ "qs @ [?a]"])
  qed
  then obtain m' qs' where m': "skynet_mq_mark_release ?m ?a = Inr m'" "gq_repr m' qs'" "same_queues ?m1 m'"
    "set qs' = set qs \<and> mq_in_global q \<or> set qs' = insert ?a (set qs)" by blast
  note same = same_queues_contents [OF m'(3)]
  have msgs: "map_option mq_contents (mq_store m' b) = queue_msgs s b" for b
    using same [of b] q(1) by (simp add: queue_msgs_def)
  have mark: "map_option mq_release (mq_store m' ?a) = Some True"
    "map_option mq_in_global (mq_store m' ?a) = Some (mq_in_global q)"
    using same [of ?a] q(1) by simp_all
  have "mq_inv r \<and> (b \<in> set qs' \<longrightarrow> mq_in_global r \<or> mq_release r)" if r: "mq_store m' b = Some r" for b r
  proof (cases "b = ?a")
    case True
    then show ?thesis using r mark same [of b] inv [OF q(1)] by (auto simp: q(1))
  next
    case False
    then obtain z where "mq_store ?m b = Some z" "mq_inv z = mq_inv r" "mq_in_global z = mq_in_global r" "mq_release z = mq_release r"
      using r same [of b] by (cases "mq_store ?m b") auto
    moreover have "b \<in> set qs' \<Longrightarrow> b \<in> set qs" using m'(4) False by auto
    ultimately show ?thesis using qs(2) inv by metis
  qed
  then have "queues_ok m'" using m'(2) unfolding queues_ok_def by blast
  moreover obtain t where "skynet_context_release sv s c = Inr (None, t)" "nd_mq t = m'" "nd_ctx t = (nd_ctx s)(c := None)"
    "nd_total t = nd_total s - 1"
    using True ctx m'(1) rel by (simp add: skynet_context_release_def delete_context_def Let_def)
  ultimately show ?thesis
    using True m'(2,4) msgs mark
    by (auto simp: queue_msgs_def fun_eq_iff intro!: exI [of _ t] exI [of _ qs'])
qed

theorem context_release_last_witness:
  "\<exists>s'. skynet_context_release example_services example_node 5 = Inr (None, s')
     \<and> nd_ctx s' = (nd_ctx example_node)(5 := None) \<and> nd_total s' = 0"
proof -
  have c: "nd_ctx example_node 5 = Some example_context" "cx_ref example_context = 1" "nd_total example_node = 1"
    by (simp_all add: example_node_def example_context_def)
  have "queues_ok (nd_mq example_node)" "live_queue example_node (cx_queue example_context)"
    using example_node_ok c by (auto simp: node_ok_def)
      (simp add: live_queue_def example_node_def example_context_def skynet_mq_create_def)
  then show ?thesis
    using context_release_last [OF c(1), of example_services] c by (auto simp: example_services_def)
qed

text \<open>
  How much of a queue one dispatch handles. With a weight of \<open>w\<close>, a worker that finds \<open>len + 1\<close>
  messages handles the first \<open>max 1 (len / 2 ^ w)\<close> of them in order and leaves the rest queued; with a
  negative weight it handles one. Each is counted on the context, and the monitor is left
  showing no message in progress.
\<close>

theorem dispatch_loop_quota:
  assumes "calm sv a c" "nd_ctx s c = Some x" "cx_init x" "cx_cb x = Some cb"
    and "mq_store (nd_mq s) a = Some q" "mq_inv q" "mq_overload q = 0" "mq_contents q = m # ms" "length ms < MQ_OVERLOAD"
    and "k = (if 0 \<le> w then max 1 (length ms div 2 ^ nat w) else 1)"
  shows "\<exists>s' sm' q' y. dispatch_loop sv w 0 1 s sm a c h = Inr (False, s', sm')
    \<and> mq_store (nd_mq s') a = Some q' \<and> mq_contents q' = drop k (m # ms)
    \<and> nd_ctx s' c = Some y \<and> same_service x y \<and> cx_message_count y = cx_message_count x + of_nat k
    \<and> sm_destination sm' = 0 \<and> sm_version sm' = sm_version sm + 2 * of_nat k"
proof -
  let ?sm = "sm\<lparr>sm_source := 0, sm_destination := 0, sm_version := sm_version sm + 2\<rparr>"
  let ?n = "if 0 \<le> w then length ms div 2 ^ nat w else 1"
  have "length ms \<le> MQ_OVERLOAD" using assms(9) by simp
  from dispatch_step [OF assms(1-4,6,5,7,8) this, of 0 1 w sm h] obtain s' q' y where
    st: "mq_inv q'" "mq_contents q' = ms" "mq_overload q' = 0" "mq_store (nd_mq s') a = Some q'" "nd_ctx s' c = Some y"
    "same_service x y" "cx_message_count y = cx_message_count x + 1"
    "dispatch_loop sv w 0 1 s sm a c h = dispatch_loop sv w (Suc 0) ?n s' ?sm a c h"
    by auto
  have y: "cx_init y" "cx_cb y = Some cb" using st(6) assms(3,4) by (simp_all add: same_service_def)
  have "length ms div 2 ^ nat w \<le> length ms" by (rule div_le_dividend)
  then have le: "k - 1 \<le> length (mq_contents q')" unfolding st(2) assms(10) by (auto simp: max_def simp del: div_le_dividend)
  have "dispatch_loop sv w (Suc 0) ?n s' ?sm a c h = dispatch_loop sv w (Suc 0) (Suc 0 + (k - 1)) s' ?sm a c h"
  proof (cases "?n = 0")
    case True
    then have "k = 1" using assms(10) by (auto split: if_splits)
    with True show ?thesis by (subst (1 2) dispatch_loop.simps) simp
  next
    case False
    then have "?n = Suc 0 + (k - 1)" using assms(10) by (auto split: if_splits)
    then show ?thesis by simp
  qed
  with dispatch_loop_rest [OF assms(1) st(5) y st(1,4,3), of "Suc 0" "k - 1" w ?sm h] le st assms(9)
  obtain s2 q2 z where "dispatch_loop sv w 0 1 s sm a c h
      = Inr (False, s2, if k - 1 = 0 then ?sm else ?sm\<lparr>sm_source := 0, sm_destination := 0, sm_version := sm_version ?sm + 2 * of_nat (k - 1)\<rparr>)"
    "mq_store (nd_mq s2) a = Some q2" "mq_contents q2 = drop (k - 1) ms"
    "nd_ctx s2 c = Some z" "same_service y z" "cx_message_count z = cx_message_count y + of_nat (k - 1)"
    by auto
  moreover have "k \<noteq> 0" unfolding assms(10) by (simp add: less_max_iff_disj)
  moreover from this obtain j where j: "k = Suc j" by (cases k) simp_all
  ultimately show ?thesis using st(6,7) by (auto simp: algebra_simps intro: same_service_trans)
qed

theorem dispatch_loop_quota_witness:
  "\<exists>s' sm'. dispatch_loop example_services 0 0 1
       (example_node\<lparr>nd_mq := skynet_mq_init\<lparr>mq_store :=
          [10 \<mapsto> mq_put (timeout_message 2) (mq_put (timeout_message 1) (skynet_mq_create 0x01000001))]\<rparr>\<rparr>)
       skynet_monitor_new 10 5 0x01000001 = Inr (False, s', sm')
     \<and> sm_version sm' = 2"
proof -
  let ?q = "mq_put (timeout_message 2) (mq_put (timeout_message 1) (skynet_mq_create 0x01000001))"
  let ?s = "example_node\<lparr>nd_mq := skynet_mq_init\<lparr>mq_store := [10 \<mapsto> ?q]\<rparr>\<rparr>"
  have "mq_overload ?q = 0" by (simp add: mq_put_def expand_queue_def skynet_mq_create_def Let_def)
  moreover have "mq_inv ?q" "mq_contents ?q = timeout_message 1 # [timeout_message 2]"
    by (simp_all add: mq_put_inv mq_put_contents mq_inv_create mq_contents_create)
  moreover have "calm example_services 10 5" by (simp add: calm_def example_services_def)
  moreover have "nd_ctx ?s 5 = Some example_context" "cx_init example_context" "cx_cb example_context = Some 1"
    by (simp_all add: example_node_def example_context_def)
  ultimately show ?thesis
    using dispatch_loop_quota [of example_services 10 5 ?s example_context 1 ?q "timeout_message 1" "[timeout_message 2]" 1 0 skynet_monitor_new "0x01000001"]
    by (auto simp: MQ_OVERLOAD_def skynet_monitor_new_def)
qed

end
