(* ===== verification/Command.thy ===== *)
theory Command
  imports Server
begin

text \<open>
  The text commands of \<^verbatim>\<open>skynet-src/skynet_server.c\<close>, with which a service registers and looks
  up names, starts and kills services, sets timers and asks for statistics, and what they use of
  \<^verbatim>\<open>skynet_env.c\<close> and \<^verbatim>\<open>skynet_log.c\<close>. A command returns a string or null, which for most of them is
  the buffer \<^verbatim>\<open>result\<close> of the calling context. The parameter may be null; reading it then is
  \<open>Use_after_free\<close>.
\<close>

section \<open>State\<close>

text \<open>
  The node together with the environment, which the code keeps as the globals of a Lua state,
  and what the outside decides: whether a log file can be opened, and the signal function of a
  service.
\<close>

record process =
  pr_node :: node
  pr_env :: "cstring \<rightharpoonup> cstring"

record outside =
  os_services :: services
  os_fopen :: "cstring \<Rightarrow> bool"
  os_signal :: "nat \<Rightarrow> nat \<Rightarrow> int \<Rightarrow> node \<Rightarrow> node"
  os_passes :: nat

type_synonym cmd_result = "c_error + (cstring option \<times> process)"
type_synonym cmd = "outside \<Rightarrow> process \<Rightarrow> nat \<Rightarrow> cstring option \<Rightarrow> cmd_result"

definition on_node :: "process \<Rightarrow> cstring option \<Rightarrow> (c_error + node) \<Rightarrow> cmd_result" where
  "on_node p result r = rbind r (\<lambda>s. Inr (result, p\<lparr>pr_node := s\<rparr>))"

definition the_param :: "cstring option \<Rightarrow> (cstring \<Rightarrow> cmd_result) \<Rightarrow> cmd_result" where
  "the_param param f = (case param of None \<Rightarrow> Inl Use_after_free | Some cs \<Rightarrow> f cs)"

definition first_char :: "cstring \<Rightarrow> byte" where
  "first_char cs = (case cs of [] \<Rightarrow> 0 | c # _ \<Rightarrow> c)"

definition print_handle :: "u32 \<Rightarrow> cstring" where
  "print_handle h = ascii '':'' @ print_hex h"

section \<open>The environment\<close>

definition skynet_getenv :: "process \<Rightarrow> cstring \<Rightarrow> cstring option" where
  "skynet_getenv p key = pr_env p key"

definition skynet_setenv :: "process \<Rightarrow> cstring \<Rightarrow> cstring \<Rightarrow> c_error + process" where
  "skynet_setenv p key v = rbind (c_assert (pr_env p key = None)) (\<lambda>_. Inr (p\<lparr>pr_env := (pr_env p)(key \<mapsto> v)\<rparr>))"

section \<open>Names\<close>

definition skynet_queryname :: "services \<Rightarrow> node \<Rightarrow> nat option \<Rightarrow> cstring \<Rightarrow> c_error + (u32 \<times> node)" where
  "skynet_queryname sv s context name =
     (if first_char name = 58 then Inr (parse_handle (tl name), s)
      else if first_char name = 46 then Inr (skynet_handle_findname (nd_handles s) (tl name), s)
      else rbind (skynet_error sv s context (ascii ''Don't support query global name '' @ name)) (\<lambda>s1. Inr (0, s1)))"

definition cmd_reg :: cmd where
  "cmd_reg sys p c param =
     (case param of
        Some (d # name) \<Rightarrow>
          if d = 46
          then rbind (skynet_handle_namehandle (nd_handles (pr_node p)) (ctx_handle (pr_node p) c) name) (\<lambda>(r, hs).
                 Inr (r, p\<lparr>pr_node := (pr_node p)\<lparr>nd_handles := hs\<rparr>\<rparr>))
          else on_node p None (skynet_error (os_services sys) (pr_node p) (Some c)
                 (ascii ''Can't register global name '' @ (d # name) @ ascii '' in C''))
      | _ \<Rightarrow> Inr (Some (print_handle (ctx_handle (pr_node p) c)), p))"

definition cmd_query :: cmd where
  "cmd_query sys p c param =
     the_param param (\<lambda>cs.
       let handle = (if first_char cs = 46 then skynet_handle_findname (nd_handles (pr_node p)) (tl cs) else 0)
       in Inr (if handle \<noteq> 0 then Some (print_handle handle) else None, p))"

text \<open>\<^verbatim>\<open>sscanf(param, "%s %s", name, handle)\<close> leaves what it does not find uninitialised.\<close>

definition cmd_name :: cmd where
  "cmd_name sys p c param =
     the_param param (\<lambda>cs.
       case scan_word cs of
         None \<Rightarrow> Inl Uninit_read
       | Some (name, rest) \<Rightarrow>
           (case scan_word rest of
              None \<Rightarrow> Inl Uninit_read
            | Some (handle, _) \<Rightarrow>
                let handle_id = parse_handle (tl handle)
                in if first_char handle \<noteq> 58 \<or> handle_id = 0 then Inr (None, p)
                   else if first_char name = 46
                   then rbind (skynet_handle_namehandle (nd_handles (pr_node p)) handle_id (tl name)) (\<lambda>(r, hs).
                          Inr (r, p\<lparr>pr_node := (pr_node p)\<lparr>nd_handles := hs\<rparr>\<rparr>))
                   else on_node p None (skynet_error (os_services sys) (pr_node p) (Some c)
                          (ascii ''Can't set global name '' @ name @ ascii '' in C''))))"

definition tohandle :: "services \<Rightarrow> node \<Rightarrow> nat \<Rightarrow> cstring \<Rightarrow> c_error + (u32 \<times> node)" where
  "tohandle sv s c param =
     (if first_char param = 58 then Inr (parse_handle (tl param), s)
      else if first_char param = 46 then Inr (skynet_handle_findname (nd_handles s) (tl param), s)
      else rbind (skynet_error sv s (Some c) (ascii ''Can't convert '' @ param @ ascii '' to handle'')) (\<lambda>s1. Inr (0, s1)))"

section \<open>Services\<close>

definition cmd_exit :: cmd where
  "cmd_exit sys p c param = on_node p None (handle_exit (os_services sys) (pr_node p) c 0)"

definition cmd_kill :: cmd where
  "cmd_kill sys p c param =
     the_param param (\<lambda>cs.
       on_node p None
         (rbind (tohandle (os_services sys) (pr_node p) c cs) (\<lambda>(handle, s).
            if handle \<noteq> 0 then handle_exit (os_services sys) s c handle else Inr s)))"

text \<open>The two calls of \<^verbatim>\<open>strsep\<close>: the module up to the first blank, the arguments up to the end of the
  line, or null when nothing follows the module.\<close>

definition launch_args :: "cstring \<Rightarrow> cstring \<times> cstring option" where
  "launch_args cs =
     (let md = takeWhile (\<lambda>x. x \<notin> {32, 9, 13, 10}) cs
      in (md, if length md < length cs
              then Some (takeWhile (\<lambda>x. x \<notin> {13, 10}) (drop (length md + 1) cs)) else None))"

definition cmd_launch :: cmd where
  "cmd_launch sys p c param =
     the_param param (\<lambda>cs.
       case launch_args cs of (md, args) \<Rightarrow>
         rbind (skynet_context_new (os_services sys) (pr_node p) md args) (\<lambda>(inst, s).
           case inst of
             None \<Rightarrow> Inr (None, p\<lparr>pr_node := s\<rparr>)
           | Some i \<Rightarrow> rbind (deref (nd_ctx s) i) (\<lambda>x. Inr (Some (id_to_hex (cx_handle x)), p\<lparr>pr_node := s\<rparr>))))"

text \<open>\<^verbatim>\<open>skynet_handle_retireall\<close> on the node: passes over the slots until one retires nothing. What a
  service does when it is released is arbitrary, so the number of passes is bounded by
  \<open>os_passes\<close>.\<close>

fun retire_from :: "nat \<Rightarrow> services \<Rightarrow> node \<Rightarrow> nat \<Rightarrow> c_error + (nat \<times> node)" where
  "retire_from 0 sv s i = Inr (0, s)"
| "retire_from (Suc k) sv s i =
     (if slot_size (nd_handles s) \<le> i then Inr (0, s)
      else let handle = (case hs_slot (nd_handles s) ! i of None \<Rightarrow> 0 | Some c \<Rightarrow> ctx_handle s c)
           in rbind (if handle \<noteq> 0 then handle_retire sv s handle else Inr (0, s)) (\<lambda>(ret, s1).
              rbind (retire_from k sv s1 (Suc i)) (\<lambda>(n, s2). Inr (if ret \<noteq> 0 then Suc n else n, s2))))"

fun retire_passes :: "nat \<Rightarrow> services \<Rightarrow> node \<Rightarrow> c_error + node" where
  "retire_passes 0 sv s = Inl Diverges"
| "retire_passes (Suc k) sv s =
     rbind (retire_from MAX_SLOT_SIZE sv s 0) (\<lambda>(n, s1). if n = 0 then Inr s1 else retire_passes k sv s1)"

definition cmd_abort :: cmd where
  "cmd_abort sys p c param = on_node p None (retire_passes (os_passes sys) (os_services sys) (pr_node p))"

definition cmd_monitor :: cmd where
  "cmd_monitor sys p c param =
     (case param of
        Some (d # cs) \<Rightarrow>
          on_node p None
            (rbind (tohandle (os_services sys) (pr_node p) c (d # cs)) (\<lambda>(handle, s). Inr (s\<lparr>nd_monitor_exit := handle\<rparr>)))
      | _ \<Rightarrow> Inr (if nd_monitor_exit (pr_node p) \<noteq> 0 then Some (print_handle (nd_monitor_exit (pr_node p))) else None, p))"

section \<open>Timers and statistics\<close>

text \<open>\<^verbatim>\<open>skynet_timeout\<close> with the push it makes when the time is not positive.\<close>

definition node_timeout :: "services \<Rightarrow> node \<Rightarrow> u32 \<Rightarrow> int \<Rightarrow> int \<Rightarrow> c_error + (int \<times> node)" where
  "node_timeout sv s handle time session =
     rbind (if time \<le> 0 then skynet_context_push sv s handle (timeout_message session) else Inr (0, s)) (\<lambda>(r, s1).
       case skynet_timeout (nd_timer s1) r handle time session of
         (ret, _, T) \<Rightarrow> Inr (ret, s1\<lparr>nd_timer := T\<rparr>))"

definition cmd_timeout :: cmd where
  "cmd_timeout sys p c param =
     the_param param (\<lambda>cs.
       let ti = c_int (strtol10 cs)
       in rbind (skynet_context_newsession (pr_node p) c) (\<lambda>(session, s).
          rbind (node_timeout (os_services sys) s (ctx_handle s c) ti session) (\<lambda>(_, s1).
            Inr (Some (print_int session), p\<lparr>pr_node := s1\<rparr>))))"

definition skynet_starttime :: "timer \<Rightarrow> u32" where
  "skynet_starttime T = tm_starttime T"

definition cmd_starttime :: cmd where
  "cmd_starttime sys p c param = Inr (Some (print_nat (unat (skynet_starttime (nd_timer (pr_node p))))), p)"

text \<open>Microseconds as seconds with \<^verbatim>\<open>%lf\<close>. The quotient is a \<^verbatim>\<open>double\<close>; below \<open>2 ^ 52\<close> microseconds its six
  decimals are exact.\<close>

definition print_seconds :: "u64 \<Rightarrow> cstring" where
  "print_seconds t =
     (let f = print_nat (unat t mod 1000000)
      in print_nat (unat t div 1000000) @ ascii ''.'' @ replicate (6 - length f) 48 @ f)"

definition cmd_stat :: cmd where
  "cmd_stat sys p c param =
     the_param param (\<lambda>cs.
     rbind (deref (nd_ctx (pr_node p)) c) (\<lambda>x.
       if cs = ascii ''mqlen''
       then rbind (deref (mq_store (nd_mq (pr_node p))) (cx_queue x)) (\<lambda>q. Inr (Some (print_int (skynet_mq_length q)), p))
       else if cs = ascii ''endless''
       then if cx_endless x
            then Inr (Some (ascii ''1''), p\<lparr>pr_node := set_ctx (pr_node p) c (x\<lparr>cx_endless := False\<rparr>)\<rparr>)
            else Inr (Some (ascii ''0''), p)
       else if cs = ascii ''cpu'' then Inr (Some (print_seconds (cx_cpu_cost x)), p)
       else if cs = ascii ''time''
       then Inr (Some (if cx_profile x
                       then print_seconds (sv_thread_time (os_services sys) (pr_node p) - cx_cpu_start x) else ascii ''0''), p)
       else if cs = ascii ''message'' then Inr (Some (print_int (sint (cx_message_count x))), p)
       else Inr (Some [], p)))"

section \<open>Environment, logs and signals\<close>

definition cmd_getenv :: cmd where
  "cmd_getenv sys p c param = the_param param (\<lambda>cs. Inr (skynet_getenv p cs, p))"

definition cmd_setenv :: cmd where
  "cmd_setenv sys p c param =
     the_param param (\<lambda>cs.
       let key = takeWhile (\<lambda>x. x \<noteq> 32) cs
       in if length key = length cs then Inr (None, p)
          else rbind (skynet_setenv p key (drop (length key + 1) cs)) (\<lambda>p1. Inr (None, p1)))"

text \<open>\<^verbatim>\<open>skynet_log_open\<close> and \<^verbatim>\<open>skynet_log_close\<close>: whether there is a file afterwards. What is printed to it
  is left out.\<close>

definition skynet_log_open :: "outside \<Rightarrow> process \<Rightarrow> nat \<Rightarrow> u32 \<Rightarrow> c_error + (bool \<times> process)" where
  "skynet_log_open sys p c handle =
     (case skynet_getenv p (ascii ''logpath'') of
        None \<Rightarrow> Inr (False, p)
      | Some logpath \<Rightarrow>
          let tmp = logpath @ ascii ''/'' @ print_hex8 handle @ ascii ''.log''; f = os_fopen sys tmp
          in rbind (skynet_error (os_services sys) (pr_node p) (Some c)
                     (ascii ''Open log file '' @ tmp @ (if f then [] else ascii '' fail''))) (\<lambda>s. Inr (f, p\<lparr>pr_node := s\<rparr>)))"

definition skynet_log_close :: "outside \<Rightarrow> process \<Rightarrow> nat \<Rightarrow> u32 \<Rightarrow> c_error + process" where
  "skynet_log_close sys p c handle =
     rbind (skynet_error (os_services sys) (pr_node p) (Some c) (ascii ''Close log file :'' @ print_hex8 handle)) (\<lambda>s.
       Inr (p\<lparr>pr_node := s\<rparr>))"

text \<open>What the commands on another service share: the handle is read and its context grabbed,
  \<open>f\<close> is done with the context, and the reference is given back. Without a handle or a context
  nothing is done.\<close>

definition with_context :: "outside \<Rightarrow> process \<Rightarrow> nat \<Rightarrow> cstring \<Rightarrow> (process \<Rightarrow> u32 \<Rightarrow> nat \<Rightarrow> c_error + process) \<Rightarrow> cmd_result" where
  "with_context sys p c cs f =
     rbind (tohandle (os_services sys) (pr_node p) c cs) (\<lambda>(handle, s).
       if handle = 0 then Inr (None, p\<lparr>pr_node := s\<rparr>)
       else rbind (handle_grab s handle) (\<lambda>(ctx, s1).
         case ctx of
           None \<Rightarrow> Inr (None, p\<lparr>pr_node := s1\<rparr>)
         | Some ctx \<Rightarrow>
             rbind (f (p\<lparr>pr_node := s1\<rparr>) handle ctx) (\<lambda>p2.
             rbind (skynet_context_release (os_services sys) (pr_node p2) ctx) (\<lambda>(_, s3).
               Inr (None, p2\<lparr>pr_node := s3\<rparr>)))))"

definition set_logfile :: "process \<Rightarrow> nat \<Rightarrow> bool \<Rightarrow> c_error + process" where
  "set_logfile p ctx f =
     rbind (deref (nd_ctx (pr_node p)) ctx) (\<lambda>x. Inr (p\<lparr>pr_node := set_ctx (pr_node p) ctx (x\<lparr>cx_logfile := f\<rparr>)\<rparr>))"

definition cmd_logon :: cmd where
  "cmd_logon sys p c param =
     the_param param (\<lambda>cs. with_context sys p c cs (\<lambda>p1 handle ctx.
       rbind (deref (nd_ctx (pr_node p1)) ctx) (\<lambda>x.
         if cx_logfile x then Inr p1
         else rbind (skynet_log_open sys p1 c handle) (\<lambda>(f, p2). if f then set_logfile p2 ctx True else Inr p2))))"

definition cmd_logoff :: cmd where
  "cmd_logoff sys p c param =
     the_param param (\<lambda>cs. with_context sys p c cs (\<lambda>p1 handle ctx.
       rbind (deref (nd_ctx (pr_node p1)) ctx) (\<lambda>x.
         if cx_logfile x then rbind (set_logfile p1 ctx False) (\<lambda>p2. skynet_log_close sys p2 c handle)
         else Inr p1)))"

definition cmd_signal :: cmd where
  "cmd_signal sys p c param =
     the_param param (\<lambda>cs. with_context sys p c cs (\<lambda>p1 handle ctx.
       rbind (deref (nd_ctx (pr_node p1)) ctx) (\<lambda>x.
         let arg = dropWhile (\<lambda>b. b \<noteq> 32) cs; sig = (if arg = [] then 0 else c_int (strtol0 arg))
         in Inr (p1\<lparr>pr_node := os_signal sys (cx_mod x) (cx_instance x) sig (pr_node p1)\<rparr>))))"

section \<open>The table of commands\<close>

definition cmd_funcs :: "(cstring \<times> cmd) list" where
  "cmd_funcs =
     [(ascii ''TIMEOUT'', cmd_timeout), (ascii ''REG'', cmd_reg), (ascii ''QUERY'', cmd_query), (ascii ''NAME'', cmd_name),
      (ascii ''EXIT'', cmd_exit), (ascii ''KILL'', cmd_kill), (ascii ''LAUNCH'', cmd_launch), (ascii ''GETENV'', cmd_getenv),
      (ascii ''SETENV'', cmd_setenv), (ascii ''STARTTIME'', cmd_starttime), (ascii ''ABORT'', cmd_abort),
      (ascii ''MONITOR'', cmd_monitor), (ascii ''STAT'', cmd_stat), (ascii ''LOGON'', cmd_logon), (ascii ''LOGOFF'', cmd_logoff),
      (ascii ''SIGNAL'', cmd_signal)]"

fun find_command :: "(cstring \<times> cmd) list \<Rightarrow> cstring \<Rightarrow> cmd option" where
  "find_command [] cmd = None"
| "find_command ((name, f) # fs) cmd = (if cmd = name then Some f else find_command fs cmd)"

definition skynet_command :: "outside \<Rightarrow> process \<Rightarrow> nat \<Rightarrow> cstring \<Rightarrow> cstring option \<Rightarrow> cmd_result" where
  "skynet_command sys p c cmd param =
     (case find_command cmd_funcs cmd of None \<Rightarrow> Inr (None, p) | Some f \<Rightarrow> f sys p c param)"

section \<open>The rest of the interface\<close>

text \<open>The handle of the running context is kept in a thread-specific key: \<open>nd_current\<close> is that of the
  thread under consideration, and \<^verbatim>\<open>skynet_initthread\<close> marks a thread that runs none.\<close>

definition skynet_context_total :: "node \<Rightarrow> int" where
  "skynet_context_total s = nd_total s"

definition skynet_current_handle :: "node \<Rightarrow> u32" where
  "skynet_current_handle s = nd_current s"

definition skynet_initthread :: "node \<Rightarrow> int \<Rightarrow> node" where
  "skynet_initthread s m = s\<lparr>nd_current := of_int (- m)\<rparr>"

definition THREAD_MAIN :: int where "THREAD_MAIN = 1"

definition skynet_globalinit :: "node \<Rightarrow> node" where
  "skynet_globalinit s = skynet_initthread (s\<lparr>nd_total := 0, nd_monitor_exit := 0\<rparr>) THREAD_MAIN"

definition skynet_profile_enable :: "node \<Rightarrow> bool \<Rightarrow> node" where
  "skynet_profile_enable s enable = s\<lparr>nd_profile := enable\<rparr>"

definition skynet_isremote :: "node \<Rightarrow> u32 \<Rightarrow> c_error + (bool \<times> u32)" where
  "skynet_isremote s handle =
     rbind (skynet_harbor_message_isremote s handle) (\<lambda>r. Inr (r, drop_bit HANDLE_REMOTE_SHIFT handle))"

definition skynet_callback :: "node \<Rightarrow> nat \<Rightarrow> nat option \<Rightarrow> c_error + node" where
  "skynet_callback s c cb = rbind (deref (nd_ctx s) c) (\<lambda>x. Inr (set_ctx s c (x\<lparr>cx_cb := cb\<rparr>)))"

section \<open>Names registered by text\<close>

lemma nibbles_value: "foldl (\<lambda>n d. 16 * n + d) 0 (map (\<lambda>i. m div 16 ^ (k - 1 - i) mod 16) [0..<k]) = (m :: nat) mod 16 ^ k"
proof (induction k arbitrary: m)
  case (Suc k)
  have eq: "map (\<lambda>i. m div 16 ^ (k - i) mod 16) [0..<k] = map (\<lambda>i. m div 16 div 16 ^ (k - 1 - i) mod 16) [0..<k]"
  proof (rule map_cong [OF refl])
    fix i assume "i \<in> set [0..<k]"
    then have "k - i = Suc (k - 1 - i)" by auto
    then show "m div 16 ^ (k - i) mod 16 = m div 16 div 16 ^ (k - 1 - i) mod 16" by (simp add: div_mult2_eq)
  qed
  have "foldl (\<lambda>n d. 16 * n + d) 0 (map (\<lambda>i. m div 16 ^ (k - i) mod 16) [0..<k]) = m div 16 mod 16 ^ k"
    unfolding eq by (rule Suc.IH)
  then show ?case by (simp add: mod_mult2_eq)
qed simp

definition upper_digit :: "nat \<Rightarrow> byte" where
  "upper_digit d = (if d < 10 then of_nat (48 + d) else of_nat (55 + d))"

lemma upper_digit_plain:
  "d < 16 \<Longrightarrow> hex_digit (upper_digit d) = Some d \<and> \<not> is_space (upper_digit d) \<and> upper_digit d \<noteq> 45 \<and> upper_digit d \<noteq> 43
     \<and> upper_digit d \<noteq> 120 \<and> upper_digit d \<noteq> 88"
proof -
  have "list_all (\<lambda>d. hex_digit (upper_digit d) = Some d \<and> \<not> is_space (upper_digit d) \<and> upper_digit d \<noteq> 45 \<and> upper_digit d \<noteq> 43
     \<and> upper_digit d \<noteq> 120 \<and> upper_digit d \<noteq> 88) [0..<16]" by code_simp
  then show "d < 16 \<Longrightarrow> hex_digit (upper_digit d) = Some d \<and> \<not> is_space (upper_digit d) \<and> upper_digit d \<noteq> 45 \<and> upper_digit d \<noteq> 43
     \<and> upper_digit d \<noteq> 120 \<and> upper_digit d \<noteq> 88" by (simp add: list_all_iff)
qed

lemma id_to_hex_digits: "id_to_hex w = ascii '':'' @ map upper_digit (map (\<lambda>i. unat w div 16 ^ (7 - i) mod 16) [0..<8])"
proof -
  have n: "unat (drop_bit ((7 - i) * 4) w AND 0xf) = unat w div 16 ^ (7 - i) mod 16" for i
  proof -
    have "(0xf :: u32) = mask 4" by (simp add: mask_eq_exp_minus_1)
    then have "unat (drop_bit ((7 - i) * 4) w AND 0xf) = unat w div 2 ^ ((7 - i) * 4) mod 2 ^ 4"
      by (simp only: unat_and_mask unat_drop_bit)
    then show ?thesis by (simp add: power_mult mult.commute)
  qed
  show ?thesis by (simp add: id_to_hex_def n upper_digit_def Let_def del: upt_rec_numeral)
qed

lemma parse_id_to_hex: "parse_handle (tl (id_to_hex w)) = w"
proof -
  define ds where "ds = map (\<lambda>i. unat w div 16 ^ (7 - i) mod 16) [0..<8]"
  have less: "list_all (\<lambda>d. d < 16) ds" by (simp add: ds_def list_all_iff del: upt_rec_numeral)
  have scan: "scan_hex acc (map upper_digit ds) = foldl (\<lambda>n d. 16 * n + d) acc ds" if "list_all (\<lambda>d. d < 16) ds" for acc ds
    using that by (induction ds arbitrary: acc) (simp_all add: upper_digit_plain)
  have "foldl (\<lambda>n d. 16 * n + d) 0 ds = unat w"
    using nibbles_value [of "unat w" 8] unsigned_less [of w, where ?'a = nat] by (simp add: ds_def del: upt_rec_numeral)
  then have v: "scan_hex 0 (map upper_digit ds) = unat w" using scan [OF less] by simp
  have skip: "skip_0x (map upper_digit ds) = map upper_digit ds" if "list_all (\<lambda>d. d < 16) ds" for ds
    using that by (cases "map upper_digit ds" rule: skip_0x.cases) (auto simp: map_eq_Cons_conv upper_digit_plain)
  have sign: "scan_sign (map upper_digit ds) = (False, map upper_digit ds)" if "list_all (\<lambda>d. d < 16) ds" for ds
    using that by (cases ds) (simp_all add: scan_sign_def upper_digit_plain Let_def)
  have "tl (id_to_hex w) = map upper_digit ds" by (simp add: id_to_hex_digits ascii_def ds_def del: upt_rec_numeral)
  moreover have "unat w < 2 ^ 64" using unsigned_less [of w, where ?'a = nat] by simp
  moreover have "ucast (ucast w :: u64) = w" by (rule bit_word_eqI) (simp add: bit_unsigned_iff)
  ultimately show ?thesis
    by (simp add: parse_handle_def strtoul16_def skip [OF less] sign [OF less] v Let_def del: upt_rec_numeral)
qed

lemma takeWhile_plain: "\<forall>x\<in>set w. P x \<Longrightarrow> \<not> P y \<Longrightarrow> takeWhile P (w @ y # rest) = w"
  by (simp add: takeWhile_append2)

lemma scan_word_blank:
  assumes "w \<noteq> []" "\<forall>x\<in>set w. \<not> is_space x"
  shows "scan_word (w @ 32 # rest) = Some (w, 32 # rest)" "scan_word (32 # w) = Some (w, [])"
proof -
  have s: "is_space 32" by (simp add: is_space_def)
  have d: "dropWhile is_space (w @ 32 # rest) = w @ 32 # rest" using assms by (cases w) auto
  show "scan_word (w @ 32 # rest) = Some (w, 32 # rest)"
    using assms s takeWhile_plain [of w "\<lambda>c. \<not> is_space c" 32 rest] by (simp add: scan_word_def d Let_def)
  have d2: "dropWhile is_space w = w" using assms by (cases w) auto
  have t: "takeWhile (\<lambda>c. \<not> is_space c) w = w" using assms by (simp add: takeWhile_eq_all_conv)
  show "scan_word (32 # w) = Some (w, [])" using assms s by (simp add: scan_word_def d2 t Let_def)
qed

lemma find_commands [simp]:
  "find_command cmd_funcs (ascii ''NAME'') = Some cmd_name"
  "find_command cmd_funcs (ascii ''QUERY'') = Some cmd_query"
  by (simp_all add: cmd_funcs_def ascii_def)

lemma ascii_dots [simp]: "ascii ''.'' = [46]" "ascii '':'' = [58]" "ascii '' '' = [32]"
  by (simp_all add: ascii_def)

text \<open>
  C22: a name bound by the text command NAME is found under that name. QUERY returns the handle as
  the text it was given, \<^verbatim>\<open>skynet_queryname\<close> returns the handle for the name and for that text, the
  name cannot be bound again, and every other name is found as before. The text that LAUNCH
  returns for a handle is read back as that handle too.
\<close>

theorem command_name_query:
  assumes "names_ok (nd_handles (pr_node p))" "name_map (nd_handles (pr_node p)) name = None" "name_room (nd_handles (pr_node p))"
    and "\<forall>x\<in>set name. \<not> is_space x" "h \<noteq> 0"
  shows "\<exists>p'. skynet_command sys p c (ascii ''NAME'') (Some (ascii ''.'' @ name @ ascii '' '' @ print_handle h)) = Inr (Some name, p')
    \<and> skynet_command sys p' c (ascii ''QUERY'') (Some (ascii ''.'' @ name)) = Inr (Some (print_handle h), p')
    \<and> skynet_queryname (os_services sys) (pr_node p') (Some c) (ascii ''.'' @ name) = Inr (h, pr_node p')
    \<and> skynet_queryname (os_services sys) (pr_node p') (Some c) (print_handle h) = Inr (h, pr_node p')
    \<and> skynet_queryname (os_services sys) (pr_node p') (Some c) (id_to_hex h) = Inr (h, pr_node p')
    \<and> skynet_command sys p' c (ascii ''NAME'') (Some (ascii ''.'' @ name @ ascii '' '' @ print_handle h)) = Inr (None, p')
    \<and> (\<forall>other. other \<noteq> name \<longrightarrow>
        skynet_command sys p' c (ascii ''QUERY'') (Some (ascii ''.'' @ other))
        = map_sum id (\<lambda>(r, _). (r, p')) (skynet_command sys p c (ascii ''QUERY'') (Some (ascii ''.'' @ other))))"
proof -
  let ?hs = "nd_handles (pr_node p)"
  obtain hs where hs: "skynet_handle_namehandle ?hs h name = Inr (Some name, hs)" "names_ok hs" "skynet_handle_findname hs name = h"
    "\<And>j. j \<noteq> name \<Longrightarrow> skynet_handle_findname hs j = skynet_handle_findname ?hs j"
    using nt.find_after_bind [OF assms(1-3)] by blast
  have again: "skynet_handle_namehandle hs w name = Inr (None, hs)" for w using nt.bind_twice [OF assms(1-3) hs(1)] .
  let ?p = "p\<lparr>pr_node := (pr_node p)\<lparr>nd_handles := hs\<rparr>\<rparr>"
  have ph: "print_handle h \<noteq> []" "\<forall>x\<in>set (print_handle h). \<not> is_space x" "first_char (print_handle h) = 58" "tl (print_handle h) = print_hex h"
    using print_hex_plain by (auto simp: print_handle_def first_char_def is_space_def)
  have w: "scan_word (46 # name @ 32 # print_handle h) = Some (46 # name, 32 # print_handle h)"
    using scan_word_blank(1) [of "46 # name" "print_handle h"] assms(4) by (simp add: is_space_def)
  have name: "cmd_name sys q c (Some (46 # name @ 32 # print_handle h)) =
      rbind (skynet_handle_namehandle (nd_handles (pr_node q)) h name) (\<lambda>(r, hs'). Inr (r, q\<lparr>pr_node := (pr_node q)\<lparr>nd_handles := hs'\<rparr>\<rparr>))" for q
    using scan_word_blank(2) [OF ph(1,2)] w ph(3,4) assms(5)
    by (simp add: cmd_name_def the_param_def parse_print_hex Let_def) (simp add: first_char_def)
  have id: "first_char (id_to_hex h) = 58" by (simp add: id_to_hex_def first_char_def)
  show ?thesis
    using name [of p] name [of ?p] hs again ph(3,4) assms(5) id
    by (intro exI [of _ ?p])
      (simp add: skynet_command_def cmd_query_def the_param_def skynet_queryname_def parse_print_hex parse_id_to_hex Let_def first_char_def)
qed

theorem command_name_query_witness:
  "\<exists>p'. skynet_command \<lparr>os_services = example_services, os_fopen = (\<lambda>_. False), os_signal = (\<lambda>_ _ _ s. s), os_passes = 2\<rparr>
       \<lparr>pr_node = example_node, pr_env = Map.empty\<rparr> 5 (ascii ''NAME'') (Some (ascii ''.db :1000005'')) = Inr (Some (ascii ''db''), p')
     \<and> skynet_command \<lparr>os_services = example_services, os_fopen = (\<lambda>_. False), os_signal = (\<lambda>_ _ _ s. s), os_passes = 2\<rparr>
         p' 5 (ascii ''QUERY'') (Some (ascii ''.db'')) = Inr (Some (ascii '':1000005''), p')"
proof -
  let ?p = "\<lparr>pr_node = example_node, pr_env = Map.empty\<rparr>"
  let ?sys = "\<lparr>os_services = example_services, os_fopen = (\<lambda>_. False), os_signal = (\<lambda>_ _ _ s. s), os_passes = 2\<rparr>"
  have h: "print_handle 0x01000005 = ascii '':1000005''"
    by (simp add: print_handle_def print_hex_def ascii_def radix_digits.simps digit_char_def)
  have t: "ascii ''.'' @ ascii ''db'' @ ascii '' '' @ print_handle 0x01000005 = ascii ''.db :1000005''" "ascii ''.'' @ ascii ''db'' = ascii ''.db''"
    unfolding h by (simp_all add: ascii_def)
  show ?thesis
    using command_name_query [of ?p "ascii ''db''" "0x01000005" ?sys 5]
    unfolding t h by (auto simp: names_ok_def name_map_def name_room_def example_node_def skynet_handle_init_def ascii_def is_space_def)
qed

end
