(* ===== verification/Des.thy ===== *)
theory Des
  imports Prelude
begin

text \<open>
  DES as in \<^verbatim>\<open>lualib-src/lua-crypt.c\<close>: the tables, the key schedule, the block cipher and the two
  Lua functions \<^verbatim>\<open>desencode\<close> and \<^verbatim>\<open>desdecode\<close>, which pad the text with 0x80 and zeros. Words are
  32 bits wide as in the code; an array passed by pointer is the list of its elements; a Lua
  error is an error value. Texts are shorter than \<open>2 ^ 31\<close> bytes, so that the casts to
  \<^verbatim>\<open>int\<close> keep their length.
\<close>

section \<open>Tables\<close>

definition SB1 :: "u32 list" where
  "SB1 =
    [0x01010400, 0x00000000, 0x00010000, 0x01010404, 0x01010004, 0x00010404, 0x00000004, 0x00010000,
     0x00000400, 0x01010400, 0x01010404, 0x00000400, 0x01000404, 0x01010004, 0x01000000, 0x00000004,
     0x00000404, 0x01000400, 0x01000400, 0x00010400, 0x00010400, 0x01010000, 0x01010000, 0x01000404,
     0x00010004, 0x01000004, 0x01000004, 0x00010004, 0x00000000, 0x00000404, 0x00010404, 0x01000000,
     0x00010000, 0x01010404, 0x00000004, 0x01010000, 0x01010400, 0x01000000, 0x01000000, 0x00000400,
     0x01010004, 0x00010000, 0x00010400, 0x01000004, 0x00000400, 0x00000004, 0x01000404, 0x00010404,
     0x01010404, 0x00010004, 0x01010000, 0x01000404, 0x01000004, 0x00000404, 0x00010404, 0x01010400,
     0x00000404, 0x01000400, 0x01000400, 0x00000000, 0x00010004, 0x00010400, 0x00000000, 0x01010004]"

definition SB2 :: "u32 list" where
  "SB2 =
    [0x80108020, 0x80008000, 0x00008000, 0x00108020, 0x00100000, 0x00000020, 0x80100020, 0x80008020,
     0x80000020, 0x80108020, 0x80108000, 0x80000000, 0x80008000, 0x00100000, 0x00000020, 0x80100020,
     0x00108000, 0x00100020, 0x80008020, 0x00000000, 0x80000000, 0x00008000, 0x00108020, 0x80100000,
     0x00100020, 0x80000020, 0x00000000, 0x00108000, 0x00008020, 0x80108000, 0x80100000, 0x00008020,
     0x00000000, 0x00108020, 0x80100020, 0x00100000, 0x80008020, 0x80100000, 0x80108000, 0x00008000,
     0x80100000, 0x80008000, 0x00000020, 0x80108020, 0x00108020, 0x00000020, 0x00008000, 0x80000000,
     0x00008020, 0x80108000, 0x00100000, 0x80000020, 0x00100020, 0x80008020, 0x80000020, 0x00100020,
     0x00108000, 0x00000000, 0x80008000, 0x00008020, 0x80000000, 0x80100020, 0x80108020, 0x00108000]"

definition SB3 :: "u32 list" where
  "SB3 =
    [0x00000208, 0x08020200, 0x00000000, 0x08020008, 0x08000200, 0x00000000, 0x00020208, 0x08000200,
     0x00020008, 0x08000008, 0x08000008, 0x00020000, 0x08020208, 0x00020008, 0x08020000, 0x00000208,
     0x08000000, 0x00000008, 0x08020200, 0x00000200, 0x00020200, 0x08020000, 0x08020008, 0x00020208,
     0x08000208, 0x00020200, 0x00020000, 0x08000208, 0x00000008, 0x08020208, 0x00000200, 0x08000000,
     0x08020200, 0x08000000, 0x00020008, 0x00000208, 0x00020000, 0x08020200, 0x08000200, 0x00000000,
     0x00000200, 0x00020008, 0x08020208, 0x08000200, 0x08000008, 0x00000200, 0x00000000, 0x08020008,
     0x08000208, 0x00020000, 0x08000000, 0x08020208, 0x00000008, 0x00020208, 0x00020200, 0x08000008,
     0x08020000, 0x08000208, 0x00000208, 0x08020000, 0x00020208, 0x00000008, 0x08020008, 0x00020200]"

definition SB4 :: "u32 list" where
  "SB4 =
    [0x00802001, 0x00002081, 0x00002081, 0x00000080, 0x00802080, 0x00800081, 0x00800001, 0x00002001,
     0x00000000, 0x00802000, 0x00802000, 0x00802081, 0x00000081, 0x00000000, 0x00800080, 0x00800001,
     0x00000001, 0x00002000, 0x00800000, 0x00802001, 0x00000080, 0x00800000, 0x00002001, 0x00002080,
     0x00800081, 0x00000001, 0x00002080, 0x00800080, 0x00002000, 0x00802080, 0x00802081, 0x00000081,
     0x00800080, 0x00800001, 0x00802000, 0x00802081, 0x00000081, 0x00000000, 0x00000000, 0x00802000,
     0x00002080, 0x00800080, 0x00800081, 0x00000001, 0x00802001, 0x00002081, 0x00002081, 0x00000080,
     0x00802081, 0x00000081, 0x00000001, 0x00002000, 0x00800001, 0x00002001, 0x00802080, 0x00800081,
     0x00002001, 0x00002080, 0x00800000, 0x00802001, 0x00000080, 0x00800000, 0x00002000, 0x00802080]"

definition SB5 :: "u32 list" where
  "SB5 =
    [0x00000100, 0x02080100, 0x02080000, 0x42000100, 0x00080000, 0x00000100, 0x40000000, 0x02080000,
     0x40080100, 0x00080000, 0x02000100, 0x40080100, 0x42000100, 0x42080000, 0x00080100, 0x40000000,
     0x02000000, 0x40080000, 0x40080000, 0x00000000, 0x40000100, 0x42080100, 0x42080100, 0x02000100,
     0x42080000, 0x40000100, 0x00000000, 0x42000000, 0x02080100, 0x02000000, 0x42000000, 0x00080100,
     0x00080000, 0x42000100, 0x00000100, 0x02000000, 0x40000000, 0x02080000, 0x42000100, 0x40080100,
     0x02000100, 0x40000000, 0x42080000, 0x02080100, 0x40080100, 0x00000100, 0x02000000, 0x42080000,
     0x42080100, 0x00080100, 0x42000000, 0x42080100, 0x02080000, 0x00000000, 0x40080000, 0x42000000,
     0x00080100, 0x02000100, 0x40000100, 0x00080000, 0x00000000, 0x40080000, 0x02080100, 0x40000100]"

definition SB6 :: "u32 list" where
  "SB6 =
    [0x20000010, 0x20400000, 0x00004000, 0x20404010, 0x20400000, 0x00000010, 0x20404010, 0x00400000,
     0x20004000, 0x00404010, 0x00400000, 0x20000010, 0x00400010, 0x20004000, 0x20000000, 0x00004010,
     0x00000000, 0x00400010, 0x20004010, 0x00004000, 0x00404000, 0x20004010, 0x00000010, 0x20400010,
     0x20400010, 0x00000000, 0x00404010, 0x20404000, 0x00004010, 0x00404000, 0x20404000, 0x20000000,
     0x20004000, 0x00000010, 0x20400010, 0x00404000, 0x20404010, 0x00400000, 0x00004010, 0x20000010,
     0x00400000, 0x20004000, 0x20000000, 0x00004010, 0x20000010, 0x20404010, 0x00404000, 0x20400000,
     0x00404010, 0x20404000, 0x00000000, 0x20400010, 0x00000010, 0x00004000, 0x20400000, 0x00404010,
     0x00004000, 0x00400010, 0x20004010, 0x00000000, 0x20404000, 0x20000000, 0x00400010, 0x20004010]"

definition SB7 :: "u32 list" where
  "SB7 =
    [0x00200000, 0x04200002, 0x04000802, 0x00000000, 0x00000800, 0x04000802, 0x00200802, 0x04200800,
     0x04200802, 0x00200000, 0x00000000, 0x04000002, 0x00000002, 0x04000000, 0x04200002, 0x00000802,
     0x04000800, 0x00200802, 0x00200002, 0x04000800, 0x04000002, 0x04200000, 0x04200800, 0x00200002,
     0x04200000, 0x00000800, 0x00000802, 0x04200802, 0x00200800, 0x00000002, 0x04000000, 0x00200800,
     0x04000000, 0x00200800, 0x00200000, 0x04000802, 0x04000802, 0x04200002, 0x04200002, 0x00000002,
     0x00200002, 0x04000000, 0x04000800, 0x00200000, 0x04200800, 0x00000802, 0x00200802, 0x04200800,
     0x00000802, 0x04000002, 0x04200802, 0x04200000, 0x00200800, 0x00000000, 0x00000002, 0x04200802,
     0x00000000, 0x00200802, 0x04200000, 0x00000800, 0x04000002, 0x04000800, 0x00000800, 0x00200002]"

definition SB8 :: "u32 list" where
  "SB8 =
    [0x10001040, 0x00001000, 0x00040000, 0x10041040, 0x10000000, 0x10001040, 0x00000040, 0x10000000,
     0x00040040, 0x10040000, 0x10041040, 0x00041000, 0x10041000, 0x00041040, 0x00001000, 0x00000040,
     0x10040000, 0x10000040, 0x10001000, 0x00001040, 0x00041000, 0x00040040, 0x10040040, 0x10041000,
     0x00001040, 0x00000000, 0x00000000, 0x10040040, 0x10000040, 0x10001000, 0x00041040, 0x00040000,
     0x00041040, 0x00040000, 0x10041000, 0x00001000, 0x00000040, 0x10040040, 0x00001000, 0x00041040,
     0x10001000, 0x00000040, 0x10000040, 0x10040000, 0x10040040, 0x10000000, 0x00040000, 0x10001040,
     0x00000000, 0x10041040, 0x00040040, 0x10000040, 0x10040000, 0x10001000, 0x10001040, 0x00000000,
     0x10041040, 0x00041000, 0x00041000, 0x00001040, 0x00001040, 0x00040040, 0x10000000, 0x10041000]"

definition LHs :: "u32 list" where
  "LHs =
    [0x00000000, 0x00000001, 0x00000100, 0x00000101, 0x00010000, 0x00010001, 0x00010100, 0x00010101,
     0x01000000, 0x01000001, 0x01000100, 0x01000101, 0x01010000, 0x01010001, 0x01010100, 0x01010101]"

definition RHs :: "u32 list" where
  "RHs =
    [0x00000000, 0x01000000, 0x00010000, 0x01010000, 0x00000100, 0x01000100, 0x00010100, 0x01010100,
     0x00000001, 0x01000001, 0x00010001, 0x01010001, 0x00000101, 0x01000101, 0x00010101, 0x01010101]"

section \<open>The block cipher\<close>

abbreviation shl :: "u32 \<Rightarrow> nat \<Rightarrow> u32" where "shl x n \<equiv> push_bit n x"
abbreviation shr :: "u32 \<Rightarrow> nat \<Rightarrow> u32" where "shr x n \<equiv> drop_bit n x"

definition GET_UINT32 :: "byte list \<Rightarrow> nat \<Rightarrow> u32" where
  "GET_UINT32 b i =
     shl (ucast (b ! i)) 24 OR shl (ucast (b ! (i + 1))) 16 OR shl (ucast (b ! (i + 2))) 8 OR ucast (b ! (i + 3))"

definition PUT_UINT32 :: "u32 \<Rightarrow> byte list" where
  "PUT_UINT32 n = [ucast (shr n 24), ucast (shr n 16), ucast (shr n 8), ucast n]"

text \<open>
  The steps of the two permutations: \<open>exchange k m (X, Y)\<close> is
  \<^verbatim>\<open>T = ((X >> k) ^ Y) & m; Y ^= T; X ^= (T << k)\<close>.
\<close>

definition exchange :: "nat \<Rightarrow> u32 \<Rightarrow> u32 \<times> u32 \<Rightarrow> u32 \<times> u32" where
  "exchange k m XY =
     (case XY of (X, Y) \<Rightarrow> let T = (shr X k XOR Y) AND m in (X XOR shl T k, Y XOR T))"

definition rotl :: "u32 \<Rightarrow> u32" where "rotl X = (shl X 1 OR shr X 31) AND 0xFFFFFFFF"
definition rotr :: "u32 \<Rightarrow> u32" where "rotr X = (shl X 31 OR shr X 1) AND 0xFFFFFFFF"

definition DES_IP :: "u32 \<times> u32 \<Rightarrow> u32 \<times> u32" where
  "DES_IP XY0 =
     (let XY1 = exchange 4 0x0F0F0F0F XY0;
          XY2 = exchange 16 0x0000FFFF XY1;
          (Y3, X3) = exchange 2 0x33333333 (snd XY2, fst XY2);
          (Y4, X4) = exchange 8 0x00FF00FF (Y3, X3);
          Y5 = rotl Y4;
          (X6, Y6) = exchange 0 0xAAAAAAAA (X4, Y5)
      in (rotl X6, Y6))"

definition DES_FP :: "u32 \<times> u32 \<Rightarrow> u32 \<times> u32" where
  "DES_FP XY0 =
     (let X1 = rotr (fst XY0);
          (X2, Y2) = exchange 0 0xAAAAAAAA (X1, snd XY0);
          Y3 = rotr Y2;
          (Y4, X4) = exchange 8 0x00FF00FF (Y3, X2);
          (Y5, X5) = exchange 2 0x33333333 (Y4, X4);
          XY6 = exchange 16 0x0000FFFF (X5, Y5)
      in exchange 4 0x0F0F0F0F XY6)"

abbreviation sbox :: "u32 list \<Rightarrow> u32 \<Rightarrow> u32" where
  "sbox SB T \<equiv> SB ! unat (T AND 0x3F)"

text \<open>\<^verbatim>\<open>DES_ROUND(X, Y)\<close> with the next two subkeys: the new value of \<^verbatim>\<open>Y\<close>.\<close>

definition DES_ROUND :: "u32 \<Rightarrow> u32 \<Rightarrow> u32 \<Rightarrow> u32 \<Rightarrow> u32" where
  "DES_ROUND k1 k2 X Y =
     (let T1 = k1 XOR X;
          Y1 = Y XOR (sbox SB8 T1 XOR sbox SB6 (shr T1 8) XOR sbox SB4 (shr T1 16) XOR sbox SB2 (shr T1 24));
          T2 = k2 XOR (shl X 28 OR shr X 4)
      in Y1 XOR (sbox SB7 T2 XOR sbox SB5 (shr T2 8) XOR sbox SB3 (shr T2 16) XOR sbox SB1 (shr T2 24)))"

text \<open>The sixteen rounds, two at a time: \<^verbatim>\<open>DES_ROUND( Y, X ); DES_ROUND( X, Y );\<close>\<close>

fun des_rounds :: "u32 list \<Rightarrow> u32 \<times> u32 \<Rightarrow> u32 \<times> u32" where
  "des_rounds (a # b # c # d # SK) (X, Y) =
     (let X1 = DES_ROUND a b Y X; Y1 = DES_ROUND c d X1 Y in des_rounds SK (X1, Y1))"
| "des_rounds _ XY = XY"

definition des_crypt :: "u32 list \<Rightarrow> byte list \<Rightarrow> byte list" where
  "des_crypt SK input =
     (let XY0 = (GET_UINT32 input 0, GET_UINT32 input 4);
          (X, Y) = des_rounds SK (DES_IP XY0);
          (Y1, X1) = DES_FP (Y, X)
      in PUT_UINT32 Y1 @ PUT_UINT32 X1)"

section \<open>The key schedule\<close>

definition permuted_choice_1 :: "byte list \<Rightarrow> u32 \<times> u32" where
  "permuted_choice_1 key =
     (let X0 = GET_UINT32 key 0; Y0 = GET_UINT32 key 4;
          T1 = (shr Y0 4 XOR X0) AND 0x0F0F0F0F; X1 = X0 XOR T1; Y1 = Y0 XOR shl T1 4;
          T2 = (Y1 XOR X1) AND 0x10101010; X2 = X1 XOR T2; Y2 = Y1 XOR T2;
          lh = (\<lambda>n. LHs ! unat (shr X2 n AND 0xF)); rh = (\<lambda>n. RHs ! unat (shr Y2 n AND 0xF));
          X3 = shl (lh 0) 3 OR shl (lh 8) 2 OR shl (lh 16) 1 OR lh 24
               OR shl (lh 5) 7 OR shl (lh 13) 6 OR shl (lh 21) 5 OR shl (lh 29) 4;
          Y3 = shl (rh 1) 3 OR shl (rh 9) 2 OR shl (rh 17) 1 OR rh 25
               OR shl (rh 4) 7 OR shl (rh 12) 6 OR shl (rh 20) 5 OR shl (rh 28) 4
      in (X3 AND 0x0FFFFFFF, Y3 AND 0x0FFFFFFF))"

definition subkey1 :: "u32 \<Rightarrow> u32 \<Rightarrow> u32" where
  "subkey1 X Y =
      (shl X 4 AND 0x24000000) OR (shl X 28 AND 0x10000000) OR (shl X 14 AND 0x08000000)
      OR (shl X 18 AND 0x02080000) OR (shl X 6 AND 0x01000000) OR (shl X 9 AND 0x00200000)
      OR (shr X 1 AND 0x00100000) OR (shl X 10 AND 0x00040000) OR (shl X 2 AND 0x00020000)
      OR (shr X 10 AND 0x00010000) OR (shr Y 13 AND 0x00002000) OR (shr Y 4 AND 0x00001000)
      OR (shl Y 6 AND 0x00000800) OR (shr Y 1 AND 0x00000400) OR (shr Y 14 AND 0x00000200)
      OR (Y AND 0x00000100) OR (shr Y 5 AND 0x00000020) OR (shr Y 10 AND 0x00000010)
      OR (shr Y 3 AND 0x00000008) OR (shr Y 18 AND 0x00000004) OR (shr Y 26 AND 0x00000002)
      OR (shr Y 24 AND 0x00000001)"

definition subkey2 :: "u32 \<Rightarrow> u32 \<Rightarrow> u32" where
  "subkey2 X Y =
      (shl X 15 AND 0x20000000) OR (shl X 17 AND 0x10000000) OR (shl X 10 AND 0x08000000)
      OR (shl X 22 AND 0x04000000) OR (shr X 2 AND 0x02000000) OR (shl X 1 AND 0x01000000)
      OR (shl X 16 AND 0x00200000) OR (shl X 11 AND 0x00100000) OR (shl X 3 AND 0x00080000)
      OR (shr X 6 AND 0x00040000) OR (shl X 15 AND 0x00020000) OR (shr X 4 AND 0x00010000)
      OR (shr Y 2 AND 0x00002000) OR (shl Y 8 AND 0x00001000) OR (shr Y 14 AND 0x00000808)
      OR (shr Y 9 AND 0x00000400) OR (Y AND 0x00000200) OR (shl Y 7 AND 0x00000100)
      OR (shr Y 7 AND 0x00000020) OR (shr Y 3 AND 0x00000011) OR (shl Y 2 AND 0x00000004)
      OR (shr Y 21 AND 0x00000002)"

fun subkeys :: "nat list \<Rightarrow> u32 \<Rightarrow> u32 \<Rightarrow> u32 list" where
  "subkeys [] X Y = []"
| "subkeys (i # js) X Y =
     (let one = (i < 2 \<or> i = 8 \<or> i = 15);
          X1 = (if one then (shl X 1 OR shr X 27) AND 0x0FFFFFFF else (shl X 2 OR shr X 26) AND 0x0FFFFFFF);
          Y1 = (if one then (shl Y 1 OR shr Y 27) AND 0x0FFFFFFF else (shl Y 2 OR shr Y 26) AND 0x0FFFFFFF)
      in subkey1 X1 Y1 # subkey2 X1 Y1 # subkeys js X1 Y1)"

definition des_main_ks :: "byte list \<Rightarrow> u32 list" where
  "des_main_ks key = (case permuted_choice_1 key of (X, Y) \<Rightarrow> subkeys [0..<16] X Y)"

section \<open>Encoding and decoding texts\<close>

definition des_key :: "byte list \<Rightarrow> lua_error + u32 list" where
  "des_key key =
     (if length key \<noteq> 8 then Inl (Lua_error ''Invalid key size'') else Inr (des_main_ks key))"

definition des_tail :: "byte list \<Rightarrow> byte list" where
  "des_tail rest =
     map (\<lambda>j. if j < length rest then rest ! j else if j = length rest then 0x80 else 0) [0..<8]"

fun encode_blocks :: "u32 list \<Rightarrow> byte list \<Rightarrow> byte list" where
  "encode_blocks SK text =
     (if length text < 8 then des_crypt SK (des_tail text)
      else des_crypt SK (take 8 text) @ encode_blocks SK (drop 8 text))"

declare encode_blocks.simps [simp del]

definition ldesencode :: "byte list \<Rightarrow> byte list \<Rightarrow> lua_error + byte list" where
  "ldesencode key text = rbind (des_key key) (\<lambda>SK. Inr (encode_blocks SK text))"

fun decode_blocks :: "u32 list \<Rightarrow> byte list \<Rightarrow> byte list" where
  "decode_blocks SK text =
     (if text = [] then [] else des_crypt SK (take 8 text) @ decode_blocks SK (drop 8 text))"

declare decode_blocks.simps [simp del]

text \<open>
  The padding loop runs from the last byte down while \<^verbatim>\<open>i >= textsz-8\<close>, a comparison of unsigned
  numbers: for a text of one block \<^verbatim>\<open>i\<close> does not stop at -1, and the byte before the buffer is
  read. The arguments are the bytes still to look at, backwards, and the loop counter.
\<close>

fun padding_loop :: "bool \<Rightarrow> byte list \<Rightarrow> nat \<Rightarrow> lua_error + nat" where
  "padding_loop single [] padding = (if single then Inl (C_fault Out_of_bounds) else Inr padding)"
| "padding_loop single (b # bs) padding =
     (if b = 0 then padding_loop single bs (padding + 1)
      else if b = 0x80 then Inr padding
      else Inl (Lua_error ''Invalid des crypt text''))"

definition ldesdecode :: "byte list \<Rightarrow> byte list \<Rightarrow> lua_error + byte list" where
  "ldesdecode key text =
     rbind (des_key key) (\<lambda>ESK.
       let SK = concat (map (\<lambda>i. [ESK ! (30 - 2 * i), ESK ! (31 - 2 * i)]) [0..<16]);
           textsz = length text
       in if textsz mod 8 \<noteq> 0 \<or> textsz = 0 then Inl (Lua_error ''Invalid des crypt text length'')
          else let buffer = decode_blocks SK text
               in rbind (padding_loop (textsz = 8) (rev (drop (textsz - 8) buffer)) 1) (\<lambda>padding.
                    if 8 < padding then Inl (Lua_error ''Invalid des crypt text'')
                    else Inr (take (textsz - padding) buffer)))"

section \<open>The permutations are inverse to each other\<close>

lemma bit_shl: "bit (shl X k) n \<longleftrightarrow> k \<le> n \<and> n < 32 \<and> bit X (n - k)"
  by (auto simp: bit_push_bit_iff)

lemma bit_shr: "bit (shr X k) n \<longleftrightarrow> bit X (k + n)"
  by (simp add: bit_drop_bit_eq)

lemma bit_bound: "bit (w :: u32) n \<Longrightarrow> n < 32"
  using bit_imp_le_length [of w n] by simp

lemma drop_push_and:
  fixes A m :: u32
  assumes "shr (shl m k) k = m"
  shows "shr (shl (A AND m) k) k = A AND m"
proof (rule bit_eqI)
  fix n
  have "bit m n \<longleftrightarrow> bit m n \<and> k + n < 32" by (subst (1 2) assms [symmetric]) (auto simp: bit_shl bit_shr)
  then show "bit (shr (shl (A AND m) k) k) n = bit (A AND m) n"
    by (auto simp: bit_shl bit_shr bit_and_iff)
qed

lemma exchange_exchange:
  assumes "shr (shl m k) k = m"
  shows "exchange k m (exchange k m XY) = XY"
proof (cases XY)
  case (Pair X Y)
  define T where "T = (shr X k XOR Y) AND m"
  have "shr (shl T k) k = T" unfolding T_def by (rule drop_push_and [OF assms])
  then have "shr (X XOR shl T k) k XOR (Y XOR T) = shr X k XOR Y"
    by (simp add: drop_bit_xor xor.left_commute xor.commute xor.assoc)
  then have T2: "(shr (X XOR shl T k) k XOR (Y XOR T)) AND m = T" by (simp only: T_def)
  have "exchange k m XY = (X XOR shl T k, Y XOR T)" by (simp only: exchange_def Pair prod.case Let_def T_def)
  then have "exchange k m (exchange k m XY) = ((X XOR shl T k) XOR shl T k, (Y XOR T) XOR T)"
    by (simp only: exchange_def prod.case Let_def T2)
  then show ?thesis by (simp add: Pair xor.assoc)
qed

lemma exchange_masks:
  "exchange 4 0x0F0F0F0F (exchange 4 0x0F0F0F0F XY) = XY"
  "exchange 16 0x0000FFFF (exchange 16 0x0000FFFF XY) = XY"
  "exchange 2 0x33333333 (exchange 2 0x33333333 XY) = XY"
  "exchange 8 0x00FF00FF (exchange 8 0x00FF00FF XY) = XY"
  "exchange 0 0xAAAAAAAA (exchange 0 0xAAAAAAAA XY) = XY"
  by (rule exchange_exchange, simp)+

lemma rot_inverse [simp]: "rotr (rotl X) = X" "rotl (rotr X) = X"
proof -
  have m: "(w AND 0xFFFFFFFF :: u32) = w" for w
  proof -
    have "(0xFFFFFFFF :: u32) = -1" by simp
    then show ?thesis by (metis and.right_neutral)
  qed
  have l: "bit (rotl X) n \<longleftrightarrow> n < 32 \<and> bit X (if n = 0 then 31 else n - 1)" for X n
    unfolding rotl_def m bit_or_iff bit_shl bit_shr by (auto dest: bit_bound)
  have r: "bit (rotr X) n \<longleftrightarrow> n < 32 \<and> bit X (if n = 31 then 0 else n + 1)" for X n
    unfolding rotr_def m bit_or_iff bit_shl bit_shr by (auto dest: bit_bound)
  show "rotr (rotl X) = X" by (rule bit_eqI) (auto simp: l r dest: bit_bound)
  show "rotl (rotr X) = X" by (rule bit_eqI) (auto simp: l r dest: bit_bound)
qed

lemma FP_IP: "DES_FP (DES_IP (X, Y)) = (X, Y)"
proof -
  obtain X1 Y1 where e1: "exchange 4 0x0F0F0F0F (X, Y) = (X1, Y1)" by fastforce
  obtain X2 Y2 where e2: "exchange 16 0x0000FFFF (X1, Y1) = (X2, Y2)" by fastforce
  obtain X3 Y3 where e3: "exchange 2 0x33333333 (Y2, X2) = (Y3, X3)" by fastforce
  obtain X4 Y4 where e4: "exchange 8 0x00FF00FF (Y3, X3) = (Y4, X4)" by fastforce
  obtain X6 Y6 where e5: "exchange 0 0xAAAAAAAA (X4, rotl Y4) = (X6, Y6)" by fastforce
  have "DES_IP (X, Y) = (rotl X6, Y6)" by (simp add: DES_IP_def e1 e2 e3 e4 e5)
  moreover have "exchange 0 0xAAAAAAAA (X6, Y6) = (X4, rotl Y4)" "exchange 8 0x00FF00FF (Y4, X4) = (Y3, X3)"
    "exchange 2 0x33333333 (Y3, X3) = (Y2, X2)" "exchange 16 0x0000FFFF (X2, Y2) = (X1, Y1)"
    "exchange 4 0x0F0F0F0F (X1, Y1) = (X, Y)"
    using exchange_masks e1 e2 e3 e4 e5 by metis+
  ultimately show ?thesis by (simp add: DES_FP_def)
qed

lemma IP_FP: "DES_IP (DES_FP (X, Y)) = (X, Y)"
proof -
  obtain X2 Y2 where e1: "exchange 0 0xAAAAAAAA (rotr X, Y) = (X2, Y2)" by fastforce
  obtain X4 Y4 where e2: "exchange 8 0x00FF00FF (rotr Y2, X2) = (Y4, X4)" by fastforce
  obtain X5 Y5 where e3: "exchange 2 0x33333333 (Y4, X4) = (Y5, X5)" by fastforce
  obtain X6 Y6 where e4: "exchange 16 0x0000FFFF (X5, Y5) = (X6, Y6)" by fastforce
  obtain X7 Y7 where e5: "exchange 4 0x0F0F0F0F (X6, Y6) = (X7, Y7)" by fastforce
  have "DES_FP (X, Y) = (X7, Y7)" by (simp add: DES_FP_def e1 e2 e3 e4 e5)
  moreover have "exchange 4 0x0F0F0F0F (X7, Y7) = (X6, Y6)" "exchange 16 0x0000FFFF (X6, Y6) = (X5, Y5)"
    "exchange 2 0x33333333 (Y5, X5) = (Y4, X4)" "exchange 8 0x00FF00FF (Y4, X4) = (rotr Y2, X2)"
    "exchange 0 0xAAAAAAAA (X2, Y2) = (rotr X, Y)"
    using exchange_masks e1 e2 e3 e4 e5 by metis+
  ultimately show ?thesis by (simp add: DES_IP_def)
qed

section \<open>The Feistel rounds\<close>

lemma DES_ROUND_xor: "DES_ROUND a b X Y = Y XOR DES_ROUND a b X 0"
  by (simp add: DES_ROUND_def Let_def xor.assoc)

lemma DES_ROUND_twice [simp]: "DES_ROUND a b X (DES_ROUND a b X Y) = Y"
  by (subst (1 2) DES_ROUND_xor) (simp add: xor.assoc)

fun rev_pairs :: "u32 list \<Rightarrow> u32 list" where
  "rev_pairs (a # b # SK) = rev_pairs SK @ [a, b]"
| "rev_pairs _ = []"

lemma length_rev_pairs: "length SK = 4 * n \<Longrightarrow> length (rev_pairs SK) = 4 * n"
proof -
  have "even (length SK) \<Longrightarrow> length (rev_pairs SK) = length SK" by (induction SK rule: rev_pairs.induct) auto
  then show "length SK = 4 * n \<Longrightarrow> length (rev_pairs SK) = 4 * n" by simp
qed

lemma des_rounds_append:
  "length SK = 4 * n \<Longrightarrow> des_rounds (SK @ KS) XY = des_rounds KS (des_rounds SK XY)"
proof (induction n arbitrary: SK XY)
  case (Suc n)
  then obtain a b c d SK' where "SK = a # b # c # d # SK'" "length SK' = 4 * n"
    by (auto simp: length_Suc_conv numeral_eq_Suc)
  with Suc.IH show ?case by (cases XY) (simp add: Let_def)
qed simp

text \<open>Running the rounds with the keys reversed on the swapped halves undoes them.\<close>

lemma des_rounds_inverse:
  "length SK = 4 * n \<Longrightarrow> des_rounds (rev_pairs SK) (prod.swap (des_rounds SK XY)) = prod.swap XY"
proof (induction n arbitrary: SK XY)
  case (Suc n)
  then obtain a b c d SK' where SK: "SK = a # b # c # d # SK'" and l: "length SK' = 4 * n"
    by (auto simp: length_Suc_conv numeral_eq_Suc)
  obtain X Y where XY: "XY = (X, Y)" by fastforce
  let ?X1 = "DES_ROUND a b Y X" let ?Y1 = "DES_ROUND c d ?X1 Y"
  have "des_rounds (rev_pairs SK) (prod.swap (des_rounds SK XY))
      = des_rounds [c, d, a, b] (des_rounds (rev_pairs SK') (prod.swap (des_rounds SK' (?X1, ?Y1))))"
    using des_rounds_append [OF length_rev_pairs [OF l]] by (simp add: SK XY Let_def)
  also have "\<dots> = des_rounds [c, d, a, b] (?Y1, ?X1)" using Suc.IH [OF l] by simp
  finally show ?case by (simp add: XY Let_def)
qed simp

section \<open>One block\<close>

lemma bit_ucast8: "bit (ucast (b :: byte) :: u32) n \<longleftrightarrow> n < 8 \<and> bit b n"
  by (auto simp: bit_simps dest: bit_imp_le_length)

lemma bit_ucast32: "bit (ucast (w :: u32) :: byte) n \<longleftrightarrow> n < 8 \<and> bit w n"
  by (auto simp: bit_simps)

lemma GET_PUT: "GET_UINT32 (xs @ PUT_UINT32 w @ ys) (length xs) = w"
proof -
  have g: "GET_UINT32 (xs @ PUT_UINT32 w @ ys) (length xs) =
    shl (ucast (ucast (shr w 24) :: byte)) 24 OR shl (ucast (ucast (shr w 16) :: byte)) 16
    OR shl (ucast (ucast (shr w 8) :: byte)) 8 OR ucast (ucast w :: byte)"
    by (simp add: GET_UINT32_def PUT_UINT32_def nth_append)
  show ?thesis unfolding g
  proof (rule bit_eqI)
    fix n assume "possible_bit TYPE(u32) n"
    then have n: "n < 32" by simp
    then consider "n < 8" | "8 \<le> n" "n < 16" | "16 \<le> n" "n < 24" | "24 \<le> n" "n < 32" by linarith
    then show "bit (shl (ucast (ucast (shr w 24) :: byte)) 24 OR shl (ucast (ucast (shr w 16) :: byte)) 16
      OR shl (ucast (ucast (shr w 8) :: byte)) 8 OR ucast (ucast w :: byte)) n = bit w n"
      by cases (auto simp: bit_or_iff bit_shl bit_shr bit_ucast8 bit_ucast32)
  qed
qed

lemma PUT_GET:
  assumes "length b = 8" "i = 0 \<or> i = 4"
  shows "PUT_UINT32 (GET_UINT32 b i) = take 4 (drop i b)"
proof -
  have t: "take 4 (drop i b) = [b ! i, b ! (i + 1), b ! (i + 2), b ! (i + 3)]"
    using assms by (auto simp: length_Suc_conv numeral_eq_Suc)
  have "ucast (shr (GET_UINT32 b i) 24) = b ! i" "ucast (shr (GET_UINT32 b i) 16) = b ! (i + 1)"
    "ucast (shr (GET_UINT32 b i) 8) = b ! (i + 2)" "ucast (GET_UINT32 b i) = b ! (i + 3)"
    unfolding GET_UINT32_def
    by (rule bit_eqI; auto simp: bit_or_iff bit_shl bit_shr bit_ucast8 bit_ucast32)+
  then show ?thesis by (simp add: PUT_UINT32_def t)
qed

lemma des_crypt_inverse:
  assumes "length b = 8" "length SK = 32"
  shows "des_crypt (rev_pairs SK) (des_crypt SK b) = b"
proof -
  obtain X0 Y0 where ip: "DES_IP (GET_UINT32 b 0, GET_UINT32 b 4) = (X0, Y0)" by fastforce
  obtain X Y where r: "des_rounds SK (X0, Y0) = (X, Y)" by fastforce
  obtain Y1 X1 where fp: "DES_FP (Y, X) = (Y1, X1)" by fastforce
  have c: "des_crypt SK b = PUT_UINT32 Y1 @ PUT_UINT32 X1" by (simp add: des_crypt_def ip r fp)
  have len: "length (PUT_UINT32 w) = 4" for w by (simp add: PUT_UINT32_def)
  have get: "GET_UINT32 (des_crypt SK b) 0 = Y1" "GET_UINT32 (des_crypt SK b) 4 = X1"
    using GET_PUT [of "[]" Y1 "PUT_UINT32 X1"] GET_PUT [of "PUT_UINT32 Y1" X1 "[]"] by (simp_all add: c len)
  have ip2: "DES_IP (Y1, X1) = (Y, X)" using IP_FP [of Y X] fp by simp
  have r2: "des_rounds (rev_pairs SK) (Y, X) = (Y0, X0)"
    using des_rounds_inverse [of SK 8 "(X0, Y0)"] assms(2) r by simp
  have fp2: "DES_FP (X0, Y0) = (GET_UINT32 b 0, GET_UINT32 b 4)" using FP_IP ip by metis
  have "des_crypt (rev_pairs SK) (des_crypt SK b) = PUT_UINT32 (GET_UINT32 b 0) @ PUT_UINT32 (GET_UINT32 b 4)"
    by (subst des_crypt_def) (simp add: get ip2 r2 fp2)
  also have "\<dots> = b" using PUT_GET [OF assms(1), of 0] PUT_GET [OF assms(1), of 4] assms(1)
    by simp
  finally show ?thesis .
qed

lemma length_subkeys: "length (subkeys is X Y) = 2 * length is"
  by (induction "is" X Y rule: subkeys.induct) (simp_all add: Let_def)

lemma length_des_main_ks [simp]: "length (des_main_ks key) = 32"
  by (simp add: des_main_ks_def length_subkeys split: prod.splits)

lemma decrypt_keys:
  assumes "length K = 32"
  shows "concat (map (\<lambda>i. [K ! (30 - 2 * i), K ! (31 - 2 * i)]) [0..<16]) = rev_pairs K"
proof -
  have u: "[0..<16] = [0, 1, 2, 3, 4, 5, 6, 7, 8, 9, 10, 11, 12, 13, 14, 15 :: nat]" by (simp add: upt_rec)
  obtain a0 a1 a2 a3 a4 a5 a6 a7 b0 b1 b2 b3 b4 b5 b6 b7 c0 c1 c2 c3 c4 c5 c6 c7 d0 d1 d2 d3 d4 d5 d6 d7 where
    "K = [a0, a1, a2, a3, a4, a5, a6, a7, b0, b1, b2, b3, b4, b5, b6, b7,
          c0, c1, c2, c3, c4, c5, c6, c7, d0, d1, d2, d3, d4, d5, d6, d7]"
    using assms by (auto simp: length_Suc_conv numeral_eq_Suc)
  then show ?thesis by (simp add: u)
qed

section \<open>Padding\<close>

lemma length_des_crypt [simp]: "length (des_crypt SK b) = 8"
  by (simp add: des_crypt_def PUT_UINT32_def Let_def split: prod.splits)

lemma des_tail_eq:
  assumes "length r < 8"
  shows "des_tail r = r @ 0x80 # replicate (7 - length r) 0"
  using assms by (intro nth_equalityI) (auto simp: des_tail_def nth_append nth_Cons')

lemma padding_loop_zeros: "padding_loop s (replicate n 0 @ 0x80 # bs) p = Inr (p + n)"
  by (induction n arbitrary: p) auto

lemma encode_blocks_length: "length (encode_blocks SK plain) = (length plain div 8 + 1) * 8"
  by (induction SK plain rule: encode_blocks.induct)
    (subst encode_blocks.simps, auto simp: le_div_geq)

lemma decode_encode_blocks:
  assumes "length SK = 32"
  shows "\<exists>pre r. decode_blocks (rev_pairs SK) (encode_blocks SK plain) = pre @ des_tail r
    \<and> plain = pre @ r \<and> length r < 8 \<and> length pre mod 8 = 0"
  using assms
proof (induction SK plain rule: encode_blocks.induct)
  case (1 SK plain)
  show ?case
  proof (cases "length plain < 8")
    case True
    have "length (des_tail plain) = 8" by (simp add: des_tail_def)
    then have "decode_blocks (rev_pairs SK) (des_crypt SK (des_tail plain)) = des_tail plain"
      using des_crypt_inverse [OF _ 1(2), of "des_tail plain"]
      by (subst decode_blocks.simps) (auto simp: decode_blocks.simps [of _ "[]"] dest: arg_cong [where f = length])
    then have "decode_blocks (rev_pairs SK) (encode_blocks SK plain) = [] @ des_tail plain"
      using True by (subst encode_blocks.simps) simp
    with True show ?thesis by (metis append_Nil list.size(3) mod_0)
  next
    case False
    then obtain pre r where ih: "decode_blocks (rev_pairs SK) (encode_blocks SK (drop 8 plain)) = pre @ des_tail r"
      "drop 8 plain = pre @ r" "length r < 8" "length pre mod 8 = 0"
      using 1(1) [OF False 1(2)] by (elim exE conjE) (rule that)
    have "length (take 8 plain) = 8" using False by simp
    then have "des_crypt (rev_pairs SK) (des_crypt SK (take 8 plain)) = take 8 plain"
      using des_crypt_inverse [OF _ 1(2)] by blast
    then have "decode_blocks (rev_pairs SK) (encode_blocks SK plain) = (take 8 plain @ pre) @ des_tail r"
      using False ih(1) by (subst encode_blocks.simps, subst decode_blocks.simps) (auto dest: arg_cong [where f = length])
    moreover have "plain = (take 8 plain @ pre) @ r" using ih(2) by (metis append_assoc append_take_drop_id)
    moreover have "length (take 8 plain @ pre) mod 8 = 0" using False ih(4) by simp
    ultimately show ?thesis using ih(3) by (intro exI conjI) assumption+
  qed
qed

section \<open>Properties\<close>

text \<open>
  C19: \<^verbatim>\<open>desdecode\<close> undoes \<^verbatim>\<open>desencode\<close>: with the same key of 8 bytes, every text, of any length, comes back
  unchanged from its encoding, which is one to eight bytes longer and a multiple of 8 long.
\<close>

theorem des_roundtrip:
  assumes "length key = 8"
  shows "\<exists>out. ldesencode key plain = Inr out \<and> ldesdecode key out = Inr plain
    \<and> length out mod 8 = 0 \<and> length plain < length out \<and> length out \<le> length plain + 8"
proof -
  let ?K = "des_main_ks key" let ?out = "encode_blocks ?K plain"
  have len: "length ?out = (length plain div 8 + 1) * 8" by (rule encode_blocks_length)
  obtain pre r where d: "decode_blocks (rev_pairs ?K) ?out = pre @ des_tail r" "plain = pre @ r" "length r < 8" "length pre mod 8 = 0"
    using decode_encode_blocks [of ?K plain] by auto
  have tail: "length (des_tail r) = 8" by (simp add: des_tail_def)
  have "(length pre + length r) div 8 = length pre div 8" using d(3,4) by (simp add: div_plus_div_distrib_dvd_left mod_eq_0_iff_dvd)
  then have "length ?out = length pre + 8" using len d(2,4) by (simp add: add_mult_distrib mod_eq_0_iff_dvd)
  then have pre: "length ?out - 8 = length pre" "length ?out = length pre + 8" by simp_all
  have "rev (drop (length ?out - 8) (pre @ des_tail r)) = replicate (7 - length r) 0 @ 0x80 # rev r"
    by (simp add: pre(1) des_tail_eq [OF d(3)])
  then have "padding_loop (length ?out = 8) (rev (drop (length ?out - 8) (pre @ des_tail r))) 1 = Inr (8 - length r)"
    using padding_loop_zeros d(3) by simp
  moreover have "take (length ?out - (8 - length r)) (pre @ des_tail r) = plain"
  proof -
    have "length ?out - (8 - length r) = length (pre @ r)" using pre(2) d(3) by simp
    moreover have "pre @ des_tail r = (pre @ r) @ 0x80 # replicate (7 - length r) 0" by (simp add: des_tail_eq [OF d(3)])
    ultimately show ?thesis using d(2) by (metis append_eq_conv_conj)
  qed
  ultimately have "ldesdecode key ?out = Inr plain"
    using assms by (simp add: ldesdecode_def des_key_def decrypt_keys d(1) Let_def len)
  then show ?thesis using assms len by (auto simp: ldesencode_def des_key_def)
qed

theorem des_roundtrip_witness:
  "\<exists>out. ldesencode [1, 2, 3, 4, 5, 6, 7, 8] [104, 105] = Inr out
     \<and> ldesdecode [1, 2, 3, 4, 5, 6, 7, 8] out = Inr [104, 105] \<and> length out = 8"
proof -
  have "length [1, 2, 3, 4, 5, 6, 7, 8 :: byte] = 8" by simp
  from des_roundtrip [OF this, of "[104, 105]"] show ?thesis
    by (auto simp: dvd_def mod_eq_0_iff_dvd)
qed

end
