(* ===== verification/Crypt.thy ===== *)
theory Crypt
  imports Des
begin

text \<open>
  The rest of \<^verbatim>\<open>lualib-src/lua-crypt.c\<close>: the string hash, the MD5-based message codes, hexadecimal
  and base64 texts, the Diffie-Hellman exchange modulo the largest 64-bit prime, and the
  exclusive-or of strings. Numbers keep their C widths.
\<close>

section \<open>Random keys and hashes\<close>

text \<open>\<^verbatim>\<open>lrandomkey\<close> with the eight numbers that \<^verbatim>\<open>random()\<close> returned.\<close>

definition lrandomkey :: "u32 list \<Rightarrow> byte list" where
  "lrandomkey rs =
     (let tmp = map (\<lambda>r. ucast (r AND 0xff)) rs;
          x = foldl (XOR) 0 tmp
      in if x = 0 then tmp[0 := tmp ! 0 OR 1] else tmp)"

fun hash_loop :: "byte list \<Rightarrow> u32 \<Rightarrow> u32 \<Rightarrow> u32 \<times> u32" where
  "hash_loop [] djb js = (djb, js)"
| "hash_loop (c # cs) djb js =
     hash_loop cs (djb + (shl djb 5 + ucast c)) (js XOR (shl js 5 + ucast c + shr js 2))"

text \<open>Four bytes of a word, least significant first, and back.\<close>

definition le_bytes32 :: "u32 \<Rightarrow> byte list" where
  "le_bytes32 w = [ucast (w AND 0xff), ucast (shr w 8 AND 0xff), ucast (shr w 16 AND 0xff), ucast (shr w 24 AND 0xff)]"

definition le_word32 :: "byte list \<Rightarrow> nat \<Rightarrow> u32" where
  "le_word32 x i = ucast (x ! i) OR shl (ucast (x ! (i + 1))) 8 OR shl (ucast (x ! (i + 2))) 16 OR shl (ucast (x ! (i + 3))) 24"

definition Hash :: "byte list \<Rightarrow> byte list" where
  "Hash str = (case hash_loop str 5381 1315423911 of (djb, js) \<Rightarrow> le_bytes32 djb @ le_bytes32 js)"

definition lhashkey :: "byte list \<Rightarrow> byte list" where
  "lhashkey key = Hash key"

section \<open>Hexadecimal texts\<close>

definition hex_chars :: "byte list" where
  "hex_chars = map of_char ''0123456789abcdef''"

definition ltohex :: "byte list \<Rightarrow> byte list" where
  "ltohex xs = concat (map (\<lambda>b. [hex_chars ! unat (drop_bit 4 b), hex_chars ! unat (b AND 0xf)]) xs)"

definition HEX :: "byte \<Rightarrow> byte" where
  "HEX c = (if 48 \<le> c \<and> c \<le> 57 then c - 48 else c - 97 + 10)"

fun fromhex_loop :: "byte list \<Rightarrow> lua_error + byte list" where
  "fromhex_loop (a # b # rest) =
     (let hi = HEX a; low = HEX b
      in if 16 < hi \<or> 16 < low then Inl (Lua_error ''Invalid hex text'')
         else rbind (fromhex_loop rest) (\<lambda>out. Inr ((push_bit 4 hi OR low) # out)))"
| "fromhex_loop _ = Inr []"

definition lfromhex :: "byte list \<Rightarrow> lua_error + byte list" where
  "lfromhex cs =
     (if odd (length cs) then Inl (Lua_error ''Invalid hex text size'') else fromhex_loop cs)"

section \<open>Message codes\<close>

definition md5_k :: "u32 list" where
  "md5_k =
    [0xd76aa478, 0xe8c7b756, 0x242070db, 0xc1bdceee, 0xf57c0faf, 0x4787c62a, 0xa8304613, 0xfd469501,
     0x698098d8, 0x8b44f7af, 0xffff5bb1, 0x895cd7be, 0x6b901122, 0xfd987193, 0xa679438e, 0x49b40821,
     0xf61e2562, 0xc040b340, 0x265e5a51, 0xe9b6c7aa, 0xd62f105d, 0x02441453, 0xd8a1e681, 0xe7d3fbc8,
     0x21e1cde6, 0xc33707d6, 0xf4d50d87, 0x455a14ed, 0xa9e3e905, 0xfcefa3f8, 0x676f02d9, 0x8d2a4c8a,
     0xfffa3942, 0x8771f681, 0x6d9d6122, 0xfde5380c, 0xa4beea44, 0x4bdecfa9, 0xf6bb4b60, 0xbebfbc70,
     0x289b7ec6, 0xeaa127fa, 0xd4ef3085, 0x04881d05, 0xd9d4d039, 0xe6db99e5, 0x1fa27cf8, 0xc4ac5665,
     0xf4292244, 0x432aff97, 0xab9423a7, 0xfc93a039, 0x655b59c3, 0x8f0ccc92, 0xffeff47d, 0x85845dd1,
     0x6fa87e4f, 0xfe2ce6e0, 0xa3014314, 0x4e0811a1, 0xf7537e82, 0xbd3af235, 0x2ad7d2bb, 0xeb86d391]"

definition md5_r :: "nat list" where
  "md5_r =
    [7, 12, 17, 22, 7, 12, 17, 22,
     7, 12, 17, 22, 7, 12, 17, 22,
     5, 9, 14, 20, 5, 9, 14, 20,
     5, 9, 14, 20, 5, 9, 14, 20,
     4, 11, 16, 23, 4, 11, 16, 23,
     4, 11, 16, 23, 4, 11, 16, 23,
     6, 10, 15, 21, 6, 10, 15, 21,
     6, 10, 15, 21, 6, 10, 15, 21]"

definition LEFTROTATE :: "u32 \<Rightarrow> nat \<Rightarrow> u32" where
  "LEFTROTATE x c = shl x c OR shr x (32 - c)"

definition md5_step :: "u32 list \<Rightarrow> nat \<Rightarrow> u32 \<times> u32 \<times> u32 \<times> u32 \<Rightarrow> u32 \<times> u32 \<times> u32 \<times> u32" where
  "md5_step w i s =
     (case s of (a, b, c, d) \<Rightarrow>
        let (f, g) = (if i < 16 then ((b AND c) OR (NOT b AND d), i)
                      else if i < 32 then ((d AND b) OR (NOT d AND c), (5 * i + 1) mod 16)
                      else if i < 48 then (b XOR c XOR d, (3 * i + 5) mod 16)
                      else (c XOR (b OR NOT d), (7 * i) mod 16))
        in (d, b + LEFTROTATE (a + f + md5_k ! i + w ! g) (md5_r ! i), b, c))"

definition digest_md5 :: "u32 list \<Rightarrow> u32 list" where
  "digest_md5 w =
     (case fold (md5_step w) [0..<64] (0x67452301, 0xefcdab89, 0x98badcfe, 0x10325476) of
        (a, b, c, d) \<Rightarrow> [a, b, c, d])"

definition hmac :: "u32 \<times> u32 \<Rightarrow> u32 \<times> u32 \<Rightarrow> u32 \<times> u32" where
  "hmac x y =
     (let w = concat (replicate 4 [snd x, fst x, snd y, fst y]); r = digest_md5 w
      in (r ! 2 XOR r ! 3, r ! 0 XOR r ! 1))"

definition hmac_md5 :: "u32 \<times> u32 \<Rightarrow> u32 \<times> u32 \<Rightarrow> u32 \<times> u32" where
  "hmac_md5 x y =
     (let w = concat (replicate 3 [fst x, snd x, fst y, snd y]) @ [0x80, 0, 384, 0]; r = digest_md5 w
      in ((r ! 0 + 0x67452301) XOR (r ! 2 + 0x98badcfe), (r ! 1 + 0xefcdab89) XOR (r ! 3 + 0x10325476)))"

definition read64 :: "byte list \<Rightarrow> byte list \<Rightarrow> lua_error + ((u32 \<times> u32) \<times> (u32 \<times> u32))" where
  "read64 x y =
     (if length x \<noteq> 8 then Inl (Lua_error ''Invalid uint64 x'')
      else if length y \<noteq> 8 then Inl (Lua_error ''Invalid uint64 y'')
      else Inr ((le_word32 x 0, le_word32 x 4), (le_word32 y 0, le_word32 y 4)))"

definition pushqword :: "u32 \<times> u32 \<Rightarrow> byte list" where
  "pushqword r = le_bytes32 (fst r) @ le_bytes32 (snd r)"

definition lhmac64 :: "byte list \<Rightarrow> byte list \<Rightarrow> lua_error + byte list" where
  "lhmac64 a b = rbind (read64 a b) (\<lambda>(x, y). Inr (pushqword (hmac x y)))"

definition lhmac64_md5 :: "byte list \<Rightarrow> byte list \<Rightarrow> lua_error + byte list" where
  "lhmac64_md5 a b = rbind (read64 a b) (\<lambda>(x, y). Inr (pushqword (hmac_md5 x y)))"

definition lhmac_hash :: "byte list \<Rightarrow> byte list \<Rightarrow> lua_error + byte list" where
  "lhmac_hash x str =
     (if length x \<noteq> 8 then Inl (Lua_error ''Invalid uint64 key'')
      else let key = (le_word32 x 0, le_word32 x 4); h = Hash str
           in Inr (pushqword (hmac (le_word32 h 0, le_word32 h 4) key)))"

section \<open>The Diffie-Hellman exchange\<close>

definition P :: u64 where "P = 0xffffffffffffffc5"
definition G :: u64 where "G = 5"

lemma half_less: "(b :: u64) \<noteq> 0 \<Longrightarrow> unat (drop_bit 1 b) < unat b"
  unfolding unat_drop_bit by (simp add: unat_gt_0)

function mul_loop :: "u64 \<Rightarrow> u64 \<Rightarrow> u64 \<Rightarrow> u64" where
  "mul_loop a b m =
     (if b = 0 then m
      else let m1 = (if b AND 1 \<noteq> 0 then (let t = P - a in if t \<le> m then m - t else m + a) else m);
               a1 = (if P - a \<le> a then a * 2 - P else a * 2)
           in mul_loop a1 (drop_bit 1 b) m1)"
  by pat_completeness auto
termination
  by (relation "measure (\<lambda>(a, b, m). unat b)") (simp, simp only: in_measure split_conv, rule half_less, assumption)

declare mul_loop.simps [simp del]

definition mul_mod_p :: "u64 \<Rightarrow> u64 \<Rightarrow> u64" where
  "mul_mod_p a b = mul_loop a b 0"

text \<open>With an exponent of 0 the recursion would not end.\<close>

function pow_mod_p :: "u64 \<Rightarrow> u64 \<Rightarrow> c_error + u64" where
  "pow_mod_p a b =
     (if b = 1 then Inr a
      else if b = 0 then Inl Diverges
      else rbind (pow_mod_p a (drop_bit 1 b)) (\<lambda>t.
             let t1 = mul_mod_p t t
             in Inr (if b mod 2 \<noteq> 0 then mul_mod_p t1 a else t1)))"
  by pat_completeness auto
termination
  by (relation "measure (\<lambda>(a, b). unat b)") (simp, simp only: in_measure split_conv, rule half_less, assumption)

declare pow_mod_p.simps [simp del]

definition powmodp :: "u64 \<Rightarrow> u64 \<Rightarrow> c_error + u64" where
  "powmodp a b = pow_mod_p (if P < a then a mod P else a) b"

definition push64 :: "u64 \<Rightarrow> byte list" where
  "push64 r = map (\<lambda>i. ucast (drop_bit (8 * i) r AND 0xff)) [0..<8]"

definition word64 :: "u32 \<times> u32 \<Rightarrow> u64" where
  "word64 x = ucast (fst x) OR push_bit 32 (ucast (snd x))"

definition ldhsecret :: "byte list \<Rightarrow> byte list \<Rightarrow> lua_error + byte list" where
  "ldhsecret a b =
     rbind (read64 a b) (\<lambda>(x, y).
       let xx = word64 x; yy = word64 y
       in if xx = 0 \<or> yy = 0 then Inl (Lua_error ''Can not be 0'')
          else rbind (lift_c (powmodp xx yy)) (\<lambda>r. Inr (push64 r)))"

definition ldhexchange :: "byte list \<Rightarrow> lua_error + byte list" where
  "ldhexchange x =
     (if length x \<noteq> 8 then Inl (Lua_error ''Invalid dh uint64 key'')
      else let x64 = word64 (le_word32 x 0, le_word32 x 4)
           in if x64 = 0 then Inl (Lua_error ''Can not be 0'')
              else rbind (lift_c (powmodp G x64)) (\<lambda>r. Inr (push64 r)))"

definition lxor_str :: "byte list \<Rightarrow> byte list \<Rightarrow> lua_error + byte list" where
  "lxor_str s1 s2 =
     (if s2 = [] then Inl (Lua_error ''Can not xor empty string'')
      else Inr (map (\<lambda>i. s1 ! i XOR s2 ! (i mod length s2)) [0..<length s1]))"

section \<open>Arithmetic modulo the prime\<close>

abbreviation p :: nat where "p \<equiv> unat P"

lemma p_eq: "p = 18446744073709551557"
  by (simp add: P_def)

lemma add_mod_step:
  assumes "unat a < p" "unat m < p"
  shows "unat (if P - a \<le> m then m - (P - a) else m + a) = (unat m + unat a) mod p"
proof -
  have t: "unat (P - a) = p - unat a" using assms(1) by (simp add: unat_sub word_le_nat_alt)
  have bound: "p < 2 ^ 64" by (simp add: p_eq)
  show ?thesis
  proof (cases "P - a \<le> m")
    case True
    then have le: "p - unat a \<le> unat m" using t by (simp add: word_le_nat_alt)
    have "unat (m - (P - a)) = unat m - (p - unat a)" using True t by (simp add: unat_sub)
    moreover have "(unat m + unat a) mod p = unat m + unat a - p" using le assms by (simp add: le_mod_geq)
    ultimately show ?thesis using True le assms by simp
  next
    case False
    then have "unat m + unat a < p" using t assms(1) by (simp add: word_le_nat_alt)
    moreover from this have "unat (m + a) = unat m + unat a" using bound by (simp add: unat_add_mod)
    ultimately show ?thesis using False by simp
  qed
qed

lemma double_mod_step:
  assumes "unat a < p"
  shows "unat (if P - a \<le> a then a * 2 - P else a * 2) = (2 * unat a) mod p"
proof -
  have "a * 2 - P = a - (P - a)" "a * 2 = a + a" by (simp_all add: mult_2_right)
  then show ?thesis using add_mod_step [OF assms assms] by (simp only: mult_2)
qed

lemma odd_word: "(b :: u64) AND 1 \<noteq> 0 \<longleftrightarrow> odd (unat b)" "b mod 2 \<noteq> 0 \<longleftrightarrow> odd (unat b)"
proof -
  have "(1 :: u64) = mask 1" by (simp add: mask_eq_exp_minus_1)
  then have "unat (b AND 1) = unat b mod 2" using unat_and_mask [of b 1] by simp
  then show "b AND 1 \<noteq> 0 \<longleftrightarrow> odd (unat b)" by (metis odd_iff_mod_2_eq_one parity_cases unat_eq_zero zero_neq_one)
  have "unat (b mod 2) = unat b mod 2" by (simp add: unat_mod)
  then show "b mod 2 \<noteq> 0 \<longleftrightarrow> odd (unat b)" by (metis odd_iff_mod_2_eq_one parity_cases unat_eq_zero zero_neq_one)
qed

lemma mul_loop_correct:
  assumes "unat a < p" "unat m < p"
  shows "unat (mul_loop a b m) = (unat m + unat a * unat b) mod p"
  using assms
proof (induction a b m rule: mul_loop.induct)
  case (1 a b m)
  show ?case
  proof (cases "b = 0")
    case True
    then show ?thesis using 1(3) by (simp add: mul_loop.simps)
  next
    case False
    let ?m = "if b AND 1 \<noteq> 0 then (let t = P - a in if t \<le> m then m - t else m + a) else m"
    let ?a = "if P - a \<le> a then a * 2 - P else a * 2"
    have odd: "b AND 1 \<noteq> 0 \<longleftrightarrow> odd (unat b)"
      by (rule odd_word(1))
    have m: "unat ?m = (unat m + unat a * (unat b mod 2)) mod p"
      using add_mod_step [OF 1(2,3)] 1(3) odd by (auto simp: Let_def mod2_eq_if)
    have a: "unat ?a = (2 * unat a) mod p" by (rule double_mod_step [OF 1(2)])
    have lt: "unat ?a < p" "unat ?m < p" unfolding a m by (simp_all add: p_eq)
    have b: "unat (drop_bit 1 b) = unat b div 2" unfolding unat_drop_bit by simp
    have "mul_loop a b m = mul_loop ?a (drop_bit 1 b) ?m" using False by (subst mul_loop.simps) (simp only: Let_def if_False)
    then have "unat (mul_loop a b m) = (unat ?m + unat ?a * unat (drop_bit 1 b)) mod p"
      using 1(1) [OF False refl refl lt] by simp
    also have "\<dots> = (unat m + unat a * (unat b mod 2) + 2 * unat a * (unat b div 2)) mod p"
      unfolding m a b by (metis (no_types, lifting) mod_add_left_eq mod_add_right_eq mod_mult_left_eq)
    also have "\<dots> = (unat m + unat a * (unat b mod 2 + 2 * (unat b div 2))) mod p" by (simp only: distrib_left ac_simps)
    also have "unat b mod 2 + 2 * (unat b div 2) = unat b" by simp
    finally show ?thesis .
  qed
qed

lemma mul_mod_p_correct: "unat a < p \<Longrightarrow> unat (mul_mod_p a b) = unat a * unat b mod p"
  using mul_loop_correct [of a 0 b] by (simp add: mul_mod_p_def p_eq)

lemma pow_mod_p_correct:
  assumes "unat a < p" "b \<noteq> 0"
  shows "\<exists>r. pow_mod_p a b = Inr r \<and> unat r = unat a ^ unat b mod p"
  using assms
proof (induction a b rule: pow_mod_p.induct)
  case (1 a b)
  show ?case
  proof (cases "b = 1")
    case True
    then show ?thesis using 1(2) by (simp add: pow_mod_p.simps)
  next
    case False
    have half: "unat (drop_bit 1 b) = unat b div 2" unfolding unat_drop_bit by simp
    have "unat b \<noteq> 0" using 1(3) by (simp add: unat_eq_zero)
    moreover have "unat b \<noteq> 1" using False by (metis unat_1 word_unat_eq_iff)
    ultimately have "unat (drop_bit 1 b) \<noteq> 0" unfolding half by (simp add: div_eq_0_iff)
    then have "drop_bit 1 b \<noteq> 0" by (metis unat_0)
    then obtain t where t: "pow_mod_p a (drop_bit 1 b) = Inr t" "unat t = unat a ^ (unat b div 2) mod p"
      using 1(1) [OF False 1(3) 1(2)] half by auto
    let ?t1 = "mul_mod_p t t"
    have tp: "unat t < p" unfolding t(2) by (simp add: p_eq)
    have t1: "unat ?t1 = unat a ^ (2 * (unat b div 2)) mod p"
      using mul_mod_p_correct [OF tp, of t] t(2) by (simp add: mod_mult_eq power_add [symmetric] mult_2)
    have t1p: "unat ?t1 < p" unfolding t1 by (simp add: p_eq)
    have odd: "b mod 2 \<noteq> 0 \<longleftrightarrow> odd (unat b)" by (rule odd_word(2))
    have "pow_mod_p a b = Inr (if b mod 2 \<noteq> 0 then mul_mod_p ?t1 a else ?t1)"
      using False 1(3) t(1) by (subst pow_mod_p.simps) (simp add: Let_def)
    moreover have "unat (if b mod 2 \<noteq> 0 then mul_mod_p ?t1 a else ?t1) = unat a ^ unat b mod p"
    proof (cases "odd (unat b)")
      case True
      then have "unat b = Suc (2 * (unat b div 2))" by simp
      then have "unat a ^ unat b = unat a ^ (2 * (unat b div 2)) * unat a" by (metis power_Suc2)
      then show ?thesis using True odd mul_mod_p_correct [OF t1p, of a] t1 by (simp add: mod_mult_left_eq)
    next
      case False
      then show ?thesis using odd t1 by simp
    qed
    ultimately show ?thesis by blast
  qed
qed

section \<open>Bytes of numbers\<close>

lemma bit_push64_byte: "i < 8 \<Longrightarrow> bit (push64 r ! i) n \<longleftrightarrow> n < 8 \<and> bit r (8 * i + n)"
proof -
  have ff: "(0xff :: u64) = mask 8" by (simp add: mask_eq_exp_minus_1)
  show "i < 8 \<Longrightarrow> bit (push64 r ! i) n \<longleftrightarrow> n < 8 \<and> bit r (8 * i + n)"
    by (auto simp: push64_def ff bit_simps)
qed

lemma bit_ucast_32_64: "bit (ucast (w :: u32) :: u64) n \<longleftrightarrow> bit w n"
  by (auto simp: bit_simps dest: bit_bound)

lemma bit_word64: "bit (word64 (a, b)) n \<longleftrightarrow> (if n < 32 then bit a n else bit b (n - 32))"
proof -
  have "n - 32 < 32 \<Longrightarrow> n < 64" by linarith
  then show ?thesis
    by (auto simp: word64_def bit_or_iff bit_push_bit_iff bit_ucast_32_64 dest: bit_bound)
qed

lemma bit_le_word32:
  "bit (le_word32 x i) n \<longleftrightarrow> n < 32 \<and> bit (x ! (i + n div 8)) (n mod 8)"
proof (cases "n < 32")
  case True
  then consider "n < 8" | "8 \<le> n" "n < 16" | "16 \<le> n" "n < 24" | "24 \<le> n" "n < 32" by linarith
  then show ?thesis
  proof cases
    case 1
    then show ?thesis by (auto simp: le_word32_def bit_or_iff bit_shl bit_ucast8)
  next
    case 2
    then have "n div 8 = 1" "n mod 8 = n - 8" by (simp_all add: div_nat_eqI mod_if)
    with 2 show ?thesis by (auto simp: le_word32_def bit_or_iff bit_shl bit_ucast8)
  next
    case 3
    then have "n div 8 = 2" "n mod 8 = n - 16" by (simp_all add: div_nat_eqI mod_if)
    with 3 show ?thesis by (auto simp: le_word32_def bit_or_iff bit_shl bit_ucast8)
  next
    case 4
    then have "n div 8 = 3" "n mod 8 = n - 24" by (simp_all add: div_nat_eqI mod_if)
    with 4 show ?thesis by (auto simp: le_word32_def bit_or_iff bit_shl bit_ucast8)
  qed
next
  case False
  then show ?thesis by (auto dest: bit_bound)
qed

lemma length_push64 [simp]: "length (push64 r) = 8"
  by (simp add: push64_def)

lemma word64_push64: "word64 (le_word32 (push64 r) 0, le_word32 (push64 r) 4) = r"
proof (rule bit_eqI)
  fix n assume "possible_bit TYPE(u64) n"
  then have n: "n < 64" by simp
  show "bit (word64 (le_word32 (push64 r) 0, le_word32 (push64 r) 4)) n = bit r n"
  proof (cases "n < 32")
    case True
    then have "n div 8 < 8" by linarith
    with True show ?thesis by (simp add: bit_word64 bit_le_word32 bit_push64_byte)
  next
    case False
    then obtain m where m: "n = 32 + m" using le_Suc_ex [of 32 n] by auto
    with n have "m < 32" by simp
    then have "4 + m div 8 < 8" by linarith
    moreover have "8 * (4 + m div 8) + m mod 8 = n" using m by simp
    ultimately show ?thesis using m \<open>m < 32\<close> by (simp add: bit_word64 bit_le_word32 bit_push64_byte add.commute)
  qed
qed

definition num64 :: "byte list \<Rightarrow> u64" where
  "num64 x = word64 (le_word32 x 0, le_word32 x 4)"

lemma num64_push64 [simp]: "num64 (push64 r) = r"
  by (simp add: num64_def word64_push64)

lemma ldhexchange_num:
  "length x = 8 \<Longrightarrow> num64 x \<noteq> 0 \<Longrightarrow> \<exists>r. ldhexchange x = Inr (push64 r) \<and> unat r = 5 ^ unat (num64 x) mod p"
  using pow_mod_p_correct [of G "num64 x"]
  by (auto simp: ldhexchange_def num64_def powmodp_def lift_c_def G_def P_def)

lemma ldhsecret_num:
  assumes "length x = 8" "length y = 8" "num64 x \<noteq> 0" "num64 y \<noteq> 0" "unat (num64 x) < p"
  shows "\<exists>r. ldhsecret x y = Inr (push64 r) \<and> unat r = unat (num64 x) ^ unat (num64 y) mod p"
proof -
  have "\<not> P < num64 x" using assms(5) by (simp add: word_less_nat_alt)
  with pow_mod_p_correct [OF assms(5,4)] assms show ?thesis
    by (auto simp: ldhsecret_def read64_def num64_def [symmetric] powmodp_def lift_c_def Let_def)
qed

lemma pow5_nonzero: "5 ^ n mod p \<noteq> 0"
proof
  assume "5 ^ n mod p = 0"
  then have "p dvd 5 ^ n" by (simp add: mod_eq_0_iff_dvd)
  moreover have "coprime (5 ^ n) p"
  proof (rule coprime_power_left_iff [THEN iffD2], rule disjI1)
    show "coprime 5 p" unfolding p_eq by (simp add: coprime_iff_gcd_eq_1 gcd_non_0_nat)
  qed
  ultimately have "p = 1" by (metis coprime_absorb_right nat_dvd_1_iff_1)
  then show False by (simp add: p_eq)
qed

section \<open>Hexadecimal round trip\<close>

lemma HEX_hex_chars:
  assumes "n < 16"
  shows "HEX (hex_chars ! n) = of_nat n"
proof -
  have "list_all (\<lambda>n. HEX (hex_chars ! n) = of_nat n) [0..<16]" by code_simp
  with assms show ?thesis by (auto simp: list_all_iff)
qed

lemma fromhex_tohex: "fromhex_loop (ltohex xs) = Inr xs"
proof (induction xs)
  case Nil
  then show ?case by (simp add: ltohex_def)
next
  case (Cons b xs)
  have hi: "unat (drop_bit 4 b) < 16" using unsigned_less [of b, where ?'a = nat] by (simp add: unat_drop_bit)
  have m: "(0xf :: byte) = mask 4" by (simp add: mask_eq_exp_minus_1)
  have lo: "unat (b AND 0xf) < 16" unfolding m unat_and_mask by simp
  have "HEX (hex_chars ! unat (drop_bit 4 b)) = drop_bit 4 b" "HEX (hex_chars ! unat (b AND 0xf)) = b AND 0xf"
    using HEX_hex_chars hi lo by simp_all
  moreover have "\<not> 16 < drop_bit 4 b" "\<not> 16 < b AND 0xf" using hi lo by (simp_all add: word_less_nat_alt)
  moreover have "push_bit 4 (drop_bit 4 b) OR (b AND 0xf) = b"
    unfolding m by (rule bit_eqI) (auto simp: bit_simps)
  ultimately show ?case using Cons by (simp add: ltohex_def Let_def)
qed

section \<open>Properties\<close>

text \<open>
  \<^verbatim>\<open>powmodp\<close> computes the power modulo the prime: the shift-and-add multiplication never overflows
  its 64 bits, the recursion ends for every exponent other than 0, and the result is
  \<open>a ^ b mod P\<close>. (For \<open>a = P\<close> the reduction is missed, because the code tests \<^verbatim>\<open>a > P\<close>.)
\<close>

theorem powmodp_correct:
  assumes "b \<noteq> 0" "a \<noteq> P"
  shows "\<exists>r. powmodp a b = Inr r \<and> unat r = unat a ^ unat b mod unat P"
proof (cases "P < a")
  case True
  have "unat (a mod P) < p" by (simp add: unat_mod p_eq)
  from pow_mod_p_correct [OF this assms(1)] True show ?thesis
    by (simp add: powmodp_def unat_mod power_mod)
next
  case False
  with assms(2) have "unat a < p" by (simp add: word_less_nat_alt [symmetric])
  from pow_mod_p_correct [OF this assms(1)] False show ?thesis by (simp add: powmodp_def)
qed

theorem powmodp_correct_witness: "\<exists>r. powmodp 7 3 = Inr r \<and> unat r = 343"
proof -
  have "unat (7 :: u64) ^ unat (3 :: u64) mod unat P = 343" by (simp add: p_eq)
  with powmodp_correct [of 3 7] show ?thesis by (auto simp: P_def)
qed

text \<open>
  Two parties agree on a secret. For any two keys of 8 bytes that are not zero, both exchange
  values are computed, and combining either one's value with the other's key gives the same
  secret; no step reports an error.
\<close>

theorem dh_agreement:
  assumes "length x = 8" "length y = 8" "num64 x \<noteq> 0" "num64 y \<noteq> 0"
  shows "\<exists>gx gy s. ldhexchange x = Inr gx \<and> ldhexchange y = Inr gy \<and> ldhsecret gx y = Inr s \<and> ldhsecret gy x = Inr s"
proof -
  let ?a = "unat (num64 x)" and ?b = "unat (num64 y)"
  obtain rx ry where r: "ldhexchange x = Inr (push64 rx)" "unat rx = 5 ^ ?a mod p"
    "ldhexchange y = Inr (push64 ry)" "unat ry = 5 ^ ?b mod p"
    using ldhexchange_num assms by meson
  have ok: "rx \<noteq> 0" "ry \<noteq> 0" "unat rx < p" "unat ry < p"
    using r(2,4) pow5_nonzero [of ?a] pow5_nonzero [of ?b] by (auto simp: p_eq)
  obtain s t where s: "ldhsecret (push64 rx) y = Inr (push64 s)" "unat s = unat rx ^ ?b mod p"
    and t: "ldhsecret (push64 ry) x = Inr (push64 t)" "unat t = unat ry ^ ?a mod p"
    using ldhsecret_num [of "push64 rx" y] ldhsecret_num [of "push64 ry" x] ok assms by auto
  have "unat s = 5 ^ (?a * ?b) mod p" using s(2) r(2) by (simp add: power_mod power_mult)
  moreover have "unat t = 5 ^ (?b * ?a) mod p" using t(2) r(4) by (simp add: power_mod power_mult)
  ultimately have "s = t" by (simp add: word_unat_eq_iff mult.commute)
  with r s t show ?thesis by blast
qed

theorem dh_agreement_witness:
  "\<exists>gx gy s. ldhexchange [3, 0, 0, 0, 0, 0, 0, 0] = Inr gx \<and> ldhexchange [0, 1, 0, 0, 0, 0, 0, 0] = Inr gy
     \<and> ldhsecret gx [0, 1, 0, 0, 0, 0, 0, 0] = Inr s \<and> ldhsecret gy [3, 0, 0, 0, 0, 0, 0, 0] = Inr s"
  by (rule dh_agreement) (simp_all add: num64_def word64_def le_word32_def)

text \<open>
  \<^verbatim>\<open>fromhex\<close> reads back what \<^verbatim>\<open>tohex\<close> writes, for every byte string.
\<close>

theorem hex_roundtrip: "lfromhex (ltohex xs) = Inr xs"
proof -
  have "even (length (ltohex xs))" by (induction xs) (auto simp: ltohex_def)
  then show ?thesis by (simp add: lfromhex_def fromhex_tohex)
qed

end
