(* ===== verification/Base64.thy ===== *)
theory Base64
  imports Des
begin

text \<open>
  Base64 texts as in \<^verbatim>\<open>lualib-src/lua-crypt.c\<close>: \<^verbatim>\<open>lb64encode\<close>, the table of \<^verbatim>\<open>b64index\<close> (-1 for a
  character to skip, -2 for the padding sign) and \<^verbatim>\<open>lb64decode\<close>, which skips characters
  outside the alphabet. Both write one byte after the other into a buffer whose size they compute, as an \<^verbatim>\<open>int\<close>, from that of the
  text. The recursive function \<open>b64_text\<close> says what the encoding is.
\<close>

section \<open>Encoding\<close>

definition encoding :: "byte list" where
  "encoding = map of_char ''ABCDEFGHIJKLMNOPQRSTUVWXYZabcdefghijklmnopqrstuvwxyz0123456789+/''"

abbreviation enc :: "u32 \<Rightarrow> byte" where "enc v \<equiv> encoding ! unat v"

text \<open>
  The buffer is an array on the stack or, if that is too small, a new one of the size asked for. What was written is the list \<open>out\<close>; writing behind
  the end of the buffer and reading what was not written are faults.
\<close>

definition SMALL_CHUNK :: nat where "SMALL_CHUNK = 256"

definition chunk_space :: "int \<Rightarrow> nat" where
  "chunk_space sz = (if sz > int SMALL_CHUNK then nat sz else SMALL_CHUNK)"

definition put_chunk :: "nat \<Rightarrow> byte list \<Rightarrow> byte list \<Rightarrow> lua_error + byte list" where
  "put_chunk space out bs = (if length out + length bs \<le> space then Inr (out @ bs) else Inl (C_fault Out_of_bounds))"

definition push_chunk :: "byte list \<Rightarrow> int \<Rightarrow> lua_error + byte list" where
  "push_chunk out sz =
     (if sz < 0 then Inl (Lua_error ''string length overflow'')
      else if length out < nat sz then Inl (C_fault Uninit_read)
      else Inr (take (nat sz) out))"

function b64_loop :: "byte list \<Rightarrow> nat \<Rightarrow> nat \<Rightarrow> byte list \<Rightarrow> lua_error + (nat \<times> byte list)" where
  "b64_loop src space i out =
     (if int i < c_int (c_int (int (length src)) - 2)
      then let v = shl (ucast (src ! i)) 16 OR shl (ucast (src ! (i + 1))) 8 OR ucast (src ! (i + 2))
           in rbind (put_chunk space out [enc (shr v 18), enc (shr v 12 AND 0x3f), enc (shr v 6 AND 0x3f), enc (v AND 0x3f)])
                (b64_loop src space (i + 3))
      else Inr (i, out))"
  by pat_completeness auto
termination by (relation "measure (\<lambda>(src, space, i, out). nat (c_int (c_int (int (length src)) - 2) - int i))") auto

declare b64_loop.simps [simp del]

definition b64_padding :: "byte list \<Rightarrow> nat \<Rightarrow> nat \<times> byte list \<Rightarrow> lua_error + byte list" where
  "b64_padding src space = (\<lambda>(i, out).
     let padding = c_int (int (length src) - int i)
     in if padding = 1
        then (let v = ucast (src ! i) in put_chunk space out [enc (shr v 2), enc (shl (v AND 3) 4), 61, 61])
        else if padding = 2
        then (let v = shl (ucast (src ! i)) 8 OR ucast (src ! (i + 1))
              in put_chunk space out [enc (shr v 10), enc (shr v 4 AND 0x3f), enc (shl (v AND 0xf) 2), 61])
        else Inr out)"

definition lb64encode :: "byte list \<Rightarrow> lua_error + byte list" where
  "lb64encode src =
     (let encode_sz = c_int (int ((length src + 2) div 3 * 4)); space = chunk_space encode_sz
      in rbind (b64_loop src space 0 []) (\<lambda>r. rbind (b64_padding src space r) (\<lambda>out. push_chunk out encode_sz)))"

text \<open>The text of some bytes.\<close>

fun b64_text :: "byte list \<Rightarrow> byte list" where
  "b64_text (a # b # c # rest) =
     (let v = shl (ucast a) 16 OR shl (ucast b) 8 OR ucast c
      in enc (shr v 18) # enc (shr v 12 AND 0x3f) # enc (shr v 6 AND 0x3f) # enc (v AND 0x3f) # b64_text rest)"
| "b64_text [a] =
     (let v = ucast a in [enc (shr v 2), enc (shl (v AND 3) 4), 61, 61])"
| "b64_text [a, b] =
     (let v = shl (ucast a) 8 OR ucast b
      in [enc (shr v 10), enc (shr v 4 AND 0x3f), enc (shl (v AND 0xf) 2), 61])"
| "b64_text [] = []"

section \<open>Decoding\<close>

definition decoding :: "int list" where
  "decoding =
     [62, -1, -1, -1, 63, 52, 53, 54, 55, 56, 57, 58, 59, 60, 61, -1, -1, -1, -2, -1, -1, -1,
      0, 1, 2, 3, 4, 5, 6, 7, 8, 9, 10, 11, 12, 13, 14, 15, 16, 17, 18, 19, 20, 21, 22, 23, 24, 25,
      -1, -1, -1, -1, -1, -1,
      26, 27, 28, 29, 30, 31, 32, 33, 34, 35, 36, 37, 38, 39, 40, 41, 42, 43, 44, 45, 46, 47, 48, 49, 50, 51]"

definition b64index :: "byte \<Rightarrow> int" where
  "b64index c =
     (if c < 43 then -1
      else let c1 = c - 43 in if length decoding \<le> unat c1 then -1 else decoding ! unat c1)"

text \<open>The inner loop: the next \<open>n\<close> indices that are not skipped, or nothing when the text ends.\<close>

fun b64_take :: "nat \<Rightarrow> byte list \<Rightarrow> (int list \<times> byte list) option" where
  "b64_take 0 cs = Some ([], cs)"
| "b64_take (Suc n) [] = None"
| "b64_take (Suc n) (c # cs) =
     (let i = b64index c
      in if i = -1 then b64_take (Suc n) cs
         else map_option (\<lambda>(js, rest). (i # js, rest)) (b64_take n cs))"

lemma b64_take_shorter: "b64_take (Suc n) cs = Some (js, rest) \<Longrightarrow> length rest < length cs"
proof (induction "Suc n" cs arbitrary: n js rest rule: b64_take.induct)
  case (3 n c cs)
  show ?case
  proof (cases "b64index c = -1")
    case True
    with 3 show ?thesis by (fastforce simp: Let_def)
  next
    case False
    show ?thesis
    proof (cases n)
      case 0
      with 3 False show ?thesis by auto
    next
      case (Suc m)
      with 3 False show ?thesis by (fastforce simp: Let_def)
    qed
  qed
qed simp

text \<open>The bytes of one group of four indices; an index of -2 is a padding sign.\<close>

definition b64_group :: "int list \<Rightarrow> lua_error + byte list" where
  "b64_group c =
     (let padding = length (filter (\<lambda>i. i = -2) c);
          w = (\<lambda>j. word_of_int (c ! j) :: u32);
          bad = Inl (Lua_error ''Invalid base64 text'')
      in if padding = 0
         then (let v = shl (w 0) 18 OR shl (w 1) 12 OR shl (w 2) 6 OR w 3
               in Inr [ucast (shr v 16), ucast (shr v 8 AND 0xff), ucast (v AND 0xff)])
         else if padding = 1
         then (if c ! 3 \<noteq> -2 \<or> w 2 AND 3 \<noteq> 0 then bad
               else let v = shl (w 0) 10 OR shl (w 1) 4 OR shr (w 2) 2
                    in Inr [ucast (shr v 8), ucast (v AND 0xff)])
         else if padding = 2
         then (if c ! 3 \<noteq> -2 \<or> c ! 2 \<noteq> -2 \<or> w 1 AND 0xf \<noteq> 0 then bad
               else let v = shl (w 0) 2 OR shr (w 1) 4 in Inr [ucast v])
         else bad)"

function decode_loop :: "nat \<Rightarrow> byte list \<Rightarrow> byte list \<Rightarrow> lua_error + byte list" where
  "decode_loop space cs out =
     (if cs = [] then Inr out
      else case b64_take 4 cs of
             None \<Rightarrow> Inl (Lua_error ''Invalid base64 text'')
           | Some (js, rest) \<Rightarrow> rbind (b64_group js) (\<lambda>bs. rbind (put_chunk space out bs) (decode_loop space rest)))"
  by pat_completeness auto
termination
proof (relation "measure (\<lambda>(space, cs, out). length cs)", simp)
  fix space cs out x js rest bs out'
  assume "b64_take 4 cs = Some x" "(js, rest) = x"
  then have "b64_take (Suc 3) cs = Some (js, rest)" by simp
  from b64_take_shorter [OF this] show "((space, rest, out'), space, cs, out) \<in> measure (\<lambda>(space, cs, out). length cs)" by simp
qed

declare decode_loop.simps [simp del]

definition lb64decode :: "byte list \<Rightarrow> lua_error + byte list" where
  "lb64decode cs =
     (let decode_sz = c_int (int ((length cs + 3) div 4 * 3)) in decode_loop (chunk_space decode_sz) cs [])"

section \<open>The tables fit\<close>

lemma b64index_encoding:
  assumes "unat v < 64"
  shows "b64index (enc v) = int (unat v)"
proof -
  have "list_all (\<lambda>n. b64index (encoding ! n) = int n) [0..<64]" by code_simp
  with assms show ?thesis by (auto simp: list_all_iff)
qed

lemma b64index_pad: "b64index 61 = -2"
  by (simp add: b64index_def decoding_def)

lemma and_3f: "unat (w AND 0x3f :: u32) < 64"
proof -
  have "(0x3f :: u32) = mask 6" by (simp add: mask_eq_exp_minus_1)
  then show ?thesis using unat_and_mask [of w 6] by simp
qed

lemma small_bits: "(\<And>n. bit w n \<Longrightarrow> n < 6) \<Longrightarrow> unat (w :: u32) < 64"
proof -
  assume h: "\<And>n. bit w n \<Longrightarrow> n < 6"
  have "w AND 0x3f = w"
  proof (rule bit_eqI)
    fix n
    have m: "(0x3f :: u32) = mask 6" by (simp add: mask_eq_exp_minus_1)
    show "bit (w AND 0x3f) n = bit w n" using h unfolding m by (auto simp: bit_simps dest: bit_bound)
  qed
  then show ?thesis using and_3f [of w] by simp
qed

lemma uint_not_negative [simp]: "uint (w :: u32) \<noteq> - 1" "uint w \<noteq> - 2"
  using unsigned_greater_eq [of w, where ?'a = int] by linarith+

lemmas bits = bit_and_iff bit_or_iff bit_shl bit_shr bit_ucast8 bit_ucast32

lemma masks: "(0x3f :: u32) = mask 6" "(0xff :: u32) = mask 8" "(3 :: u32) = mask 2" "(0xf :: u32) = mask 4"
  by (simp_all add: mask_eq_exp_minus_1)

text \<open>Three bytes through four indices and back.\<close>

lemma group3:
  fixes a b c :: byte
  defines "v \<equiv> shl (ucast a) 16 OR shl (ucast b) 8 OR ucast c"
  shows "unat (shr v 18) < 64"
    and "b64_group [int (unat (shr v 18)), int (unat (shr v 12 AND 0x3f)), int (unat (shr v 6 AND 0x3f)), int (unat (v AND 0x3f))]
           = Inr [a, b, c]"
proof -
  have bv: "bit v n \<longleftrightarrow> n < 24 \<and> (if n < 8 then bit c n else if n < 16 then bit b (n - 8) else bit a (n - 16))" for n
    unfolding v_def by (auto simp: bits)
  show "unat (shr v 18) < 64" by (rule small_bits) (simp add: bit_shr bv)
  have v: "shl (shr v 18) 18 OR shl (shr v 12 AND 0x3f) 12 OR shl (shr v 6 AND 0x3f) 6 OR (v AND 0x3f) = v"
  proof (rule bit_eqI)
    fix n assume "possible_bit TYPE(u32) n"
    consider "n < 6" | "6 \<le> n" "n < 12" | "12 \<le> n" "n < 18" | "18 \<le> n" by linarith
    then show "bit (shl (shr v 18) 18 OR shl (shr v 12 AND 0x3f) 12 OR shl (shr v 6 AND 0x3f) 6 OR (v AND 0x3f)) n = bit v n"
      by cases (auto simp: bits masks bit_mask_iff bv)
  qed
  have "ucast (shr v 16) = a" "ucast (shr v 8 AND 0xff) = b" "ucast (v AND 0xff) = c"
    by (rule bit_eqI; auto simp: bits masks bit_mask_iff bv)+
  then show "b64_group [int (unat (shr v 18)), int (unat (shr v 12 AND 0x3f)), int (unat (shr v 6 AND 0x3f)), int (unat (v AND 0x3f))]
           = Inr [a, b, c]"
    using v by (simp add: b64_group_def Let_def)
qed

lemma group2:
  fixes a b :: byte
  defines "v \<equiv> shl (ucast a) 8 OR ucast b"
  shows "unat (shr v 10) < 64" and "unat (shl (v AND 0xf) 2) < 64"
    and "b64_group [int (unat (shr v 10)), int (unat (shr v 4 AND 0x3f)), int (unat (shl (v AND 0xf) 2)), -2] = Inr [a, b]"
proof -
  have bv: "bit v n \<longleftrightarrow> n < 16 \<and> (if n < 8 then bit b n else bit a (n - 8))" for n
    unfolding v_def by (auto simp: bits)
  show "unat (shr v 10) < 64" by (rule small_bits) (simp add: bit_shr bv)
  show "unat (shl (v AND 0xf) 2) < 64" by (rule small_bits) (auto simp: bits masks bit_mask_iff)
  have v: "shl (shr v 10) 10 OR shl (shr v 4 AND 0x3f) 4 OR shr (shl (v AND 0xf) 2) 2 = v"
  proof (rule bit_eqI)
    fix n assume "possible_bit TYPE(u32) n"
    consider "n < 4" | "4 \<le> n" "n < 10" | "10 \<le> n" by linarith
    then show "bit (shl (shr v 10) 10 OR shl (shr v 4 AND 0x3f) 4 OR shr (shl (v AND 0xf) 2) 2) n = bit v n"
      by cases (auto simp: bits masks bit_mask_iff bv)
  qed
  have z: "shl (v AND 0xf) 2 AND 3 = 0" by (rule bit_eqI) (auto simp: bits masks bit_mask_iff)
  have "ucast (shr v 8) = a" "ucast (v AND 0xff) = b"
    by (rule bit_eqI; auto simp: bits masks bit_mask_iff bv)+
  then show "b64_group [int (unat (shr v 10)), int (unat (shr v 4 AND 0x3f)), int (unat (shl (v AND 0xf) 2)), -2] = Inr [a, b]"
    using v z by (simp add: b64_group_def Let_def)
qed

lemma group1:
  fixes a :: byte
  defines "v \<equiv> ucast a :: u32"
  shows "unat (shr v 2) < 64" and "unat (shl (v AND 3) 4) < 64"
    and "b64_group [int (unat (shr v 2)), int (unat (shl (v AND 3) 4)), -2, -2] = Inr [a]"
proof -
  have bv: "bit v n \<longleftrightarrow> n < 8 \<and> bit a n" for n unfolding v_def by (simp add: bits)
  show "unat (shr v 2) < 64" by (rule small_bits) (simp add: bit_shr bv)
  show "unat (shl (v AND 3) 4) < 64" by (rule small_bits) (auto simp: bits masks bit_mask_iff)
  have v: "shl (shr v 2) 2 OR shr (shl (v AND 3) 4) 4 = v"
  proof (rule bit_eqI)
    fix n assume "possible_bit TYPE(u32) n"
    have n: "2 \<le> n \<Longrightarrow> Suc (Suc (n - 2)) = n" by simp
    consider "n < 2" | "2 \<le> n" by linarith
    then show "bit (shl (shr v 2) 2 OR shr (shl (v AND 3) 4) 4) n = bit v n"
      by cases (auto simp: bits masks bit_mask_iff bv n)
  qed
  have z: "shl (v AND 3) 4 AND 0xf = 0" by (rule bit_eqI) (auto simp: bits masks bit_mask_iff)
  have "ucast v = a" by (rule bit_eqI; auto simp: bits bv)
  then show "b64_group [int (unat (shr v 2)), int (unat (shl (v AND 3) 4)), -2, -2] = Inr [a]"
    using v z by (simp add: b64_group_def Let_def)
qed

lemma b64_take_four:
  assumes "b64index c0 \<noteq> -1" "b64index c1 \<noteq> -1" "b64index c2 \<noteq> -1" "b64index c3 \<noteq> -1"
  shows "b64_take 4 (c0 # c1 # c2 # c3 # rest) = Some ([b64index c0, b64index c1, b64index c2, b64index c3], rest)"
  using assms by (simp add: numeral_eq_Suc Let_def)

lemma decode_four:
  assumes "b64index c0 = i0" "b64index c1 = i1" "b64index c2 = i2" "b64index c3 = i3"
    and "i0 \<noteq> -1" "i1 \<noteq> -1" "i2 \<noteq> -1" "i3 \<noteq> -1"
    and "b64_group [i0, i1, i2, i3] = Inr bs" "length out + length bs \<le> space"
  shows "decode_loop space (c0 # c1 # c2 # c3 # rest) out = decode_loop space rest (out @ bs)"
  using assms b64_take_four [of c0 c1 c2 c3 rest] by (subst decode_loop.simps) (simp add: put_chunk_def)

lemma decode_Nil: "decode_loop space [] out = Inr out"
  by (simp add: decode_loop.simps)

lemma length_b64_text: "length (b64_text xs) = (length xs + 2) div 3 * 4"
proof (induction xs rule: b64_text.induct)
  case (1 a b c rest)
  have "(length (a # b # c # rest) + 2) div 3 = Suc ((length rest + 2) div 3)" using div_add_self2 [of 3 "length rest + 2"] by simp
  then show ?case using 1 by (simp add: Let_def)
qed (simp_all add: Let_def)

section \<open>The loops\<close>

lemma c_int_range: "-(2 ^ 31) \<le> n \<Longrightarrow> n < 2 ^ 31 \<Longrightarrow> c_int n = n"
  by (simp only: c_int_def) (simp add: signed_of_int signed_take_bit_int_eq_self)

lemma b64_loop_text:
  assumes "length src < 2 ^ 31" "i \<le> length src" "length out + length (b64_text (drop i src)) \<le> space"
  shows "rbind (b64_loop src space i out) (b64_padding src space) = Inr (out @ b64_text (drop i src))"
  using assms
proof (induction src space i out rule: b64_loop.induct)
  case (1 src space i out)
  have n: "c_int (int (length src)) = int (length src)" "c_int (int (length src) - 2) = int (length src) - 2"
    using 1(2) c_int_range [of "int (length src) - 2"] by simp_all
  show ?case
  proof (cases "i + 2 < length src")
    case True
    then have d: "drop i src = src ! i # src ! (i + 1) # src ! (i + 2) # drop (i + 3) src"
      by (simp add: Cons_nth_drop_Suc numeral_3_eq_3)
    define v where "v = (shl (ucast (src ! i)) 16 OR shl (ucast (src ! (i + 1))) 8 OR ucast (src ! (i + 2)) :: u32)"
    define g where "g = [enc (shr v 18), enc (shr v 12 AND 0x3f), enc (shr v 6 AND 0x3f), enc (v AND 0x3f)]"
    have t: "b64_text (drop i src) = g @ b64_text (drop (i + 3) src)" unfolding d b64_text.simps Let_def g_def v_def by simp
    have c: "int i < c_int (c_int (int (length src)) - 2)" using True n by simp
    have p: "put_chunk space out g = Inr (out @ g)" using 1(4) t by (simp add: put_chunk_def)
    have "rbind (b64_loop src space (i + 3) (out @ g)) (b64_padding src space) = Inr ((out @ g) @ b64_text (drop (i + 3) src))"
      by (rule 1(1) [OF c v_def p [unfolded g_def], folded g_def]) (use 1(2,4) True t in simp_all)
    moreover have "b64_loop src space i out = b64_loop src space (i + 3) (out @ g)"
      by (subst b64_loop.simps) (simp only: c if_True Let_def v_def [symmetric] g_def [symmetric] p rbind_Inr)
    ultimately show ?thesis using t by simp
  next
    case False
    then have "\<not> int i < c_int (c_int (int (length src)) - 2)" using n by simp
    then have l: "b64_loop src space i out = Inr (i, out)" by (subst b64_loop.simps) simp
    have pad: "c_int (int (length src) - int i) = int (length src - i)" using 1(2,3) c_int_small [of "int (length src - i)"] by (simp add: of_nat_diff)
    have one: "drop i src = [src ! i]" if "length src - i = 1" using that Cons_nth_drop_Suc [of i src] by simp
    have two: "drop i src = [src ! i, src ! (i + 1)]" if "length src - i = 2"
      using that Cons_nth_drop_Suc [of i src] Cons_nth_drop_Suc [of "i + 1" src] by simp
    consider "length src - i = 0" | "length src - i = 1" | "length src - i = 2" using False 1(3) by linarith
    then have "b64_padding src space (i, out) = Inr (out @ b64_text (drop i src))"
    proof cases
      case 1
      then show ?thesis by (simp add: b64_padding_def pad)
    next
      case 2
      then show ?thesis using \<open>length out + length (b64_text (drop i src)) \<le> space\<close> unfolding one [OF 2] by (simp add: b64_padding_def pad put_chunk_def Let_def)
    next
      case 3
      then show ?thesis using \<open>length out + length (b64_text (drop i src)) \<le> space\<close> unfolding two [OF 3] by (simp add: b64_padding_def pad put_chunk_def Let_def)
    qed
    then show ?thesis using l by simp
  qed
qed

lemma encode_text:
  assumes "(length src + 2) div 3 * 4 < 2 ^ 31"
  shows "lb64encode src = Inr (b64_text src)"
proof -
  have n: "c_int (int ((length src + 2) div 3 * 4)) = int (length (b64_text src))" unfolding length_b64_text using assms by (intro c_int_small) auto
  have "length (b64_text src) \<le> chunk_space (int (length (b64_text src)))" by (simp add: chunk_space_def)
  moreover have "length src < 2 ^ 31" using assms by simp
  ultimately have "rbind (b64_loop src (chunk_space (int (length (b64_text src)))) 0 []) (b64_padding src (chunk_space (int (length (b64_text src))))) = Inr (b64_text src)"
    using b64_loop_text [of src 0 "[]"] by simp
  then show ?thesis unfolding lb64encode_def Let_def n by (auto simp: rbind_eq_Inr push_chunk_def intro!: exI [of _ "b64_text src"])
qed

lemma decode_text: "length out + length xs \<le> space \<Longrightarrow> decode_loop space (b64_text xs) out = Inr (out @ xs)"
proof (induction xs arbitrary: out rule: b64_text.induct)
  case (1 a b c rest)
  define v :: u32 where "v = shl (ucast a) 16 OR shl (ucast b) 8 OR ucast c"
  note g = group3 [of a b c, folded v_def]
  have "decode_loop space (b64_text (a # b # c # rest)) out = decode_loop space (b64_text rest) (out @ [a, b, c])"
    unfolding b64_text.simps Let_def v_def [symmetric]
    by (rule decode_four [OF _ _ _ _ _ _ _ _ g(2)]) (use 1(2) in \<open>simp_all add: b64index_encoding g(1) and_3f\<close>)
  then show ?case using 1(1) [OF v_def, of "out @ [a, b, c]"] 1(2) by simp
next
  case (2 a)
  define v :: u32 where "v = ucast a"
  note g = group1 [of a, folded v_def]
  have "decode_loop space (b64_text [a]) out = decode_loop space [] (out @ [a])"
    unfolding b64_text.simps Let_def v_def [symmetric]
    by (rule decode_four [OF _ _ _ _ _ _ _ _ g(3)]) (rule b64index_encoding [OF g(1)] b64index_encoding [OF g(2)] b64index_pad | use 2 in simp)+
  then show ?case by (simp add: decode_Nil)
next
  case (3 a b)
  define v :: u32 where "v = shl (ucast a) 8 OR ucast b"
  note g = group2 [of a b, folded v_def]
  have "decode_loop space (b64_text [a, b]) out = decode_loop space [] (out @ [a, b])"
    unfolding b64_text.simps Let_def v_def [symmetric]
    by (rule decode_four [OF _ _ _ _ _ _ _ _ g(3)]) (rule b64index_encoding [OF g(1)] b64index_encoding [OF and_3f] b64index_encoding [OF g(2)] b64index_pad | use 3 in simp)+
  then show ?case by (simp add: decode_Nil)
next
  case 4
  then show ?case by (simp add: decode_Nil)
qed

section \<open>Properties\<close>

text \<open>
  C20: a byte string whose text has less than 2 gigabytes (its size is an \<^verbatim>\<open>int\<close>; longer ones are not covered) is encoded inside the buffer of
  the computed size and fills it, with 4 characters for every 3 bytes begun, and \<^verbatim>\<open>base64decode\<close> reads the bytes back, inside its buffer.
\<close>

theorem base64_roundtrip:
  assumes "(length xs + 2) div 3 * 4 < 2 ^ 31"
  shows "\<exists>cs. lb64encode xs = Inr cs \<and> length cs = (length xs + 2) div 3 * 4 \<and> lb64decode cs = Inr xs"
proof -
  have l: "length (b64_text xs) = (length xs + 2) div 3 * 4" by (rule length_b64_text)
  have n: "length xs \<le> (length (b64_text xs) + 3) div 4 * 3" unfolding l by linarith
  have "c_int (int ((length (b64_text xs) + 3) div 4 * 3)) = int ((length (b64_text xs) + 3) div 4 * 3)"
    using assms unfolding l by (intro c_int_small) auto
  then have "length xs \<le> chunk_space (c_int (int ((length (b64_text xs) + 3) div 4 * 3)))" using n unfolding chunk_space_def by (simp only: nat_int) auto
  then have "lb64decode (b64_text xs) = Inr xs" using decode_text [of "[]" xs] by (simp add: lb64decode_def Let_def)
  then show ?thesis using encode_text [OF assms] l by blast
qed

theorem base64_roundtrip_witness: "\<exists>cs. lb64encode [72, 105] = Inr cs \<and> length cs = 4 \<and> lb64decode cs = Inr [72, 105]"
  using base64_roundtrip [of "[72, 105]"] by simp

end
