(* ===== verification/Sha1.thy ===== *)
theory Sha1
  imports Prelude
begin

unbundle bit_operations_syntax

text \<open>
  SHA-1 and HMAC-SHA-1 of \<^verbatim>\<open>lualib-src/lsha1.c\<close>, and that they are the functions of FIPS 180 and RFC 2104.
  The 80 operations of \<^verbatim>\<open>SHA1_Transform\<close>, which are written out with the names of the five variables
  rotated by one each time, are a loop here that rotates the values.
\<close>

section \<open>The code\<close>

record SHA1_CTX =
  sc_state :: "u32 \<times> u32 \<times> u32 \<times> u32 \<times> u32"
  sc_count0 :: u32
  sc_count1 :: u32
  sc_buffer :: "byte list"

definition SHA1_DIGEST_SIZE :: nat where "SHA1_DIGEST_SIZE = 20"

definition rol :: "u32 \<Rightarrow> nat \<Rightarrow> u32" where
  "rol value bits = push_bit bits value OR drop_bit (32 - bits) value"

definition blk0 :: "nat \<Rightarrow> u32 list \<Rightarrow> u32 list" where
  "blk0 i l = l[i := (rol (l ! i) 24 AND 0xFF00FF00) OR (rol (l ! i) 8 AND 0x00FF00FF)]"

definition blk :: "nat \<Rightarrow> u32 list \<Rightarrow> u32 list" where
  "blk i l = l[i mod 16 := rol (l ! ((i + 13) mod 16) XOR l ! ((i + 8) mod 16) XOR l ! ((i + 2) mod 16) XOR l ! (i mod 16)) 1]"

text \<open>The macros \<open>R0\<close> to \<open>R4\<close>: the function of three variables, the constant, and how the block is expanded.\<close>

definition R_fun :: "nat \<Rightarrow> u32 \<Rightarrow> u32 \<Rightarrow> u32 \<Rightarrow> u32" where
  "R_fun i w x y = (if i < 20 then (w AND (x XOR y)) XOR y else if i < 40 then w XOR x XOR y
     else if i < 60 then ((w OR x) AND y) OR (w AND x) else w XOR x XOR y)"

definition R_const :: "nat \<Rightarrow> u32" where
  "R_const i = (if i < 20 then 0x5A827999 else if i < 40 then 0x6ED9EBA1 else if i < 60 then 0x8F1BBCDC else 0xCA62C1D6)"

definition R_blk :: "nat \<Rightarrow> u32 list \<Rightarrow> u32 list" where
  "R_blk i l = (if i < 16 then blk0 i l else blk i l)"

definition R_step :: "nat \<Rightarrow> (u32 \<times> u32 \<times> u32 \<times> u32 \<times> u32) \<times> u32 list \<Rightarrow> (u32 \<times> u32 \<times> u32 \<times> u32 \<times> u32) \<times> u32 list" where
  "R_step i sl =
     (case sl of ((v, w, x, y, z), l) \<Rightarrow>
        let l1 = R_blk i l
        in ((z + (R_fun i w x y + l1 ! (i mod 16) + R_const i + rol v 5), v, rol w 30, x, y), l1))"

text \<open>The words of the block, in the order of the bytes of the machine.\<close>

definition le32 :: "byte list \<Rightarrow> u32" where
  "le32 b = ucast (b ! 0) OR push_bit 8 (ucast (b ! 1)) OR push_bit 16 (ucast (b ! 2)) OR push_bit 24 (ucast (b ! 3))"

definition block_words :: "byte list \<Rightarrow> u32 list" where
  "block_words buffer = map (\<lambda>i. le32 (take 4 (drop (4 * i) buffer))) [0..<16]"

definition add_state :: "u32 \<times> u32 \<times> u32 \<times> u32 \<times> u32 \<Rightarrow> u32 \<times> u32 \<times> u32 \<times> u32 \<times> u32 \<Rightarrow> u32 \<times> u32 \<times> u32 \<times> u32 \<times> u32" where
  "add_state s t = (case (s, t) of ((s0, s1, s2, s3, s4), (a, b, c, d, e)) \<Rightarrow> (s0 + a, s1 + b, s2 + c, s3 + d, s4 + e))"

definition SHA1_Transform :: "u32 \<times> u32 \<times> u32 \<times> u32 \<times> u32 \<Rightarrow> byte list \<Rightarrow> u32 \<times> u32 \<times> u32 \<times> u32 \<times> u32" where
  "SHA1_Transform state buffer = add_state state (fst (fold R_step [0..<80] (state, block_words buffer)))"

text \<open>The context is memory as it is found.\<close>

definition sat_SHA1_Init :: "byte list \<Rightarrow> SHA1_CTX" where
  "sat_SHA1_Init mem =
     \<lparr>sc_state = (0x67452301, 0xEFCDAB89, 0x98BADCFE, 0x10325476, 0xC3D2E1F0), sc_count0 = 0, sc_count1 = 0, sc_buffer = mem\<rparr>"

text \<open>\<^verbatim>\<open>memcpy\<close> to a position of an array.\<close>

definition copy_to :: "byte list \<Rightarrow> nat \<Rightarrow> byte list \<Rightarrow> byte list" where
  "copy_to buf k ys = take k buf @ ys @ drop (k + length ys) buf"

function transform_loop :: "u32 \<times> u32 \<times> u32 \<times> u32 \<times> u32 \<Rightarrow> byte list \<Rightarrow> nat \<Rightarrow> (u32 \<times> u32 \<times> u32 \<times> u32 \<times> u32) \<times> nat" where
  "transform_loop state data i =
     (if i + 63 < length data then transform_loop (SHA1_Transform state (take 64 (drop i data))) data (i + 64) else (state, i))"
  by auto
termination by (relation "measure (\<lambda>(state, data, i). length data - i)") auto

declare transform_loop.simps [simp del]

text \<open>\<^verbatim>\<open>len << 3\<close> is computed with 64 bits, and so is the comparison.\<close>

definition sat_SHA1_Update :: "SHA1_CTX \<Rightarrow> byte list \<Rightarrow> SHA1_CTX" where
  "sat_SHA1_Update ctx data =
     (let len = length data; bits = (len * 8) mod 2 ^ 64;
          j = unat (drop_bit 3 (sc_count0 ctx)) mod 64;
          count0 = sc_count0 ctx + of_nat bits;
          count1 = sc_count1 ctx + (if unat count0 < bits then 1 else 0) + of_nat (len div 2 ^ 29);
          ctx1 = ctx\<lparr>sc_count0 := count0, sc_count1 := count1\<rparr>
      in if j + len > 63
         then let i = 64 - j; buf = copy_to (sc_buffer ctx) j (take i data);
                  (state, i1) = transform_loop (SHA1_Transform (sc_state ctx) buf) data i
              in ctx1\<lparr>sc_state := state, sc_buffer := copy_to buf 0 (drop i1 data)\<rparr>
         else ctx1\<lparr>sc_buffer := copy_to (sc_buffer ctx) j data\<rparr>)"

lemma update_count0: "sc_count0 (sat_SHA1_Update ctx data) = sc_count0 ctx + of_nat ((length data * 8) mod 2 ^ 64)"
  by (simp add: sat_SHA1_Update_def Let_def split: prod.splits)

text \<open>The bytes that are missing until the length is 56 modulo 64.\<close>

definition missing :: "u32 \<Rightarrow> nat" where
  "missing c = (120 - unat c div 8 mod 64) mod 64"

lemma div8_mod:
  fixes n :: nat
  shows "3 \<le> k \<Longrightarrow> n mod 2 ^ k div 8 = n div 8 mod 2 ^ (k - 3)"
  using drop_bit_take_bit [of 3 k n] by (simp add: drop_bit_eq_div take_bit_eq_mod)

lemma unat_push3: "unat w < 64 \<Longrightarrow> unat (push_bit 3 w :: u32) = unat w * 8"
proof -
  assume h: "unat w < 64"
  have "push_bit 3 w = w * 8" by (simp add: push_bit_eq_mult)
  then have "unat (push_bit 3 w) = (unat w * 8) mod 2 ^ 32" by (simp only: unat_word_ariths) simp
  then show ?thesis using h by simp
qed

lemma count_504: "unat (c AND 504 :: u32) = unat c div 8 mod 64 * 8"
proof -
  have "(504 :: u32) = mask 9 AND NOT (mask 3)" by (simp add: mask_eq_exp_minus_1)
  then have "c AND 504 = (c AND mask 9) AND NOT (mask 3)" by (simp add: and.assoc)
  also have "\<dots> = push_bit 3 (drop_bit 3 (c AND mask 9))" by (rule bit_eqI) (auto simp: bit_simps)
  finally have "unat (c AND 504) = unat (push_bit 3 (drop_bit 3 (c AND mask 9)))" by simp
  also have "\<dots> = unat (drop_bit 3 (c AND mask 9)) * 8"
    by (rule unat_push3) (unfold unat_drop_bit unat_and_mask, simp add: less_mult_imp_div_less)
  also have "unat (drop_bit 3 (c AND mask 9)) = unat c mod 2 ^ 9 div 8" unfolding unat_drop_bit unat_and_mask by simp
  finally show ?thesis using div8_mod [of 9 "unat c"] by simp
qed

lemma count_step: "unat (c + 8 :: u32) div 8 mod 64 = (unat c div 8 mod 64 + 1) mod 64"
proof -
  have "unat (c + 8) div 8 mod 64 = (unat c + 8) mod 2 ^ 32 div 8 mod 64" by (simp add: unat_add_mod)
  also have "\<dots> = (unat c + 8) div 8 mod 2 ^ 29 mod 2 ^ 6" using div8_mod [of 32 "unat c + 8"] by simp
  also have "\<dots> = (unat c + 8) div 8 mod 2 ^ 6" by (rule mod_mod_pow2) simp
  also have "(unat c + 8) div 8 = unat c div 8 + 1" by simp
  finally show ?thesis by (simp add: mod_Suc_eq)
qed

lemma missing_step: "unat (c AND 504 :: u32) \<noteq> 448 \<Longrightarrow> missing c = Suc (missing (c + 8))"
proof -
  assume "unat (c AND 504) \<noteq> 448"
  then have k: "unat c div 8 mod 64 \<noteq> 56" unfolding count_504 by simp
  have arith: "k < 64 \<Longrightarrow> k \<noteq> 56 \<Longrightarrow> (120 - k) mod 64 = Suc ((120 - (k + 1) mod 64) mod 64)" for k :: nat
    by (cases "k < 56"; cases "k = 63") (auto simp: mod_if)
  show ?thesis unfolding missing_def count_step by (rule arith) (use k in simp_all)
qed

function pad_loop :: "SHA1_CTX \<Rightarrow> SHA1_CTX" where
  "pad_loop ctx = (if sc_count0 ctx AND 504 \<noteq> 448 then pad_loop (sat_SHA1_Update ctx [0]) else ctx)"
  by auto
termination
proof (relation "measure (\<lambda>ctx. missing (sc_count0 ctx))")
  fix ctx :: SHA1_CTX
  assume "sc_count0 ctx AND 504 \<noteq> 448"
  then have "unat (sc_count0 ctx AND 504) \<noteq> 448" using word_unat_eq_iff [of "sc_count0 ctx AND 504" 448] by simp
  then show "(sat_SHA1_Update ctx [0], ctx) \<in> measure (\<lambda>ctx. missing (sc_count0 ctx))" using missing_step by (simp add: update_count0)
qed simp

declare pad_loop.simps [simp del]

definition be_byte :: "u32 \<Rightarrow> nat \<Rightarrow> byte" where
  "be_byte w i = ucast (drop_bit ((3 - i mod 4) * 8) w AND 255)"

definition state_words :: "u32 \<times> u32 \<times> u32 \<times> u32 \<times> u32 \<Rightarrow> u32 list" where
  "state_words s = (case s of (a, b, c, d, e) \<Rightarrow> [a, b, c, d, e])"

text \<open>The digest; the context is wiped.\<close>

definition sat_SHA1_Final :: "SHA1_CTX \<Rightarrow> byte list" where
  "sat_SHA1_Final ctx =
     (let finalcount = map (\<lambda>i. be_byte (if i \<ge> 4 then sc_count0 ctx else sc_count1 ctx) i) [0..<8];
          ctx1 = sat_SHA1_Update (pad_loop (sat_SHA1_Update ctx [0x80])) finalcount
      in map (\<lambda>i. be_byte (state_words (sc_state ctx1) ! (i div 4)) i) [0..<SHA1_DIGEST_SIZE])"

definition lsha1 :: "byte list \<Rightarrow> byte list \<Rightarrow> byte list" where
  "lsha1 mem buffer = sat_SHA1_Final (sat_SHA1_Update (sat_SHA1_Init mem) buffer)"

definition BLOCKSIZE :: nat where "BLOCKSIZE = 64"

text \<open>The bytes of a word in the order of the machine.\<close>

definition word_bytes :: "u32 \<Rightarrow> byte list" where
  "word_bytes w = map (\<lambda>i. ucast (drop_bit (8 * i) w)) [0..<4]"

definition xor_key :: "byte list \<Rightarrow> u32 \<Rightarrow> byte list" where
  "xor_key key x = concat (map (\<lambda>i. word_bytes (le32 (take 4 (drop (4 * i) key)) XOR x)) [0..<BLOCKSIZE div 4])"

definition lhmac_sha1 :: "byte list \<Rightarrow> byte list \<Rightarrow> byte list \<Rightarrow> byte list" where
  "lhmac_sha1 mem key text1 =
     (let rkey = copy_to (replicate BLOCKSIZE 0) 0
                   (if length key > BLOCKSIZE then sat_SHA1_Final (sat_SHA1_Update (sat_SHA1_Init mem) key) else key);
          rkey1 = xor_key rkey 0x5c5c5c5c;
          ctx1 = sat_SHA1_Update (sat_SHA1_Init mem) rkey1;
          rkey2 = xor_key rkey1 (0x5c5c5c5c XOR 0x36363636);
          ctx2 = sat_SHA1_Update (sat_SHA1_Update (sat_SHA1_Init mem) rkey2) text1;
          digest2 = sat_SHA1_Final ctx2
      in sat_SHA1_Final (sat_SHA1_Update ctx1 digest2))"

section \<open>The standard\<close>

text \<open>FIPS 180: the functions, the constants, the schedule of the message, the compression of a block, the padding.\<close>

definition fips_f :: "nat \<Rightarrow> u32 \<Rightarrow> u32 \<Rightarrow> u32 \<Rightarrow> u32" where
  "fips_f t b c d = (if t \<le> 19 then (b AND c) OR (NOT b AND d) else if t \<le> 39 then b XOR c XOR d
     else if t \<le> 59 then (b AND c) OR (b AND d) OR (c AND d) else b XOR c XOR d)"

definition fips_K :: "nat \<Rightarrow> u32" where
  "fips_K t = (if t \<le> 19 then 0x5A827999 else if t \<le> 39 then 0x6ED9EBA1 else if t \<le> 59 then 0x8F1BBCDC else 0xCA62C1D6)"

definition be32 :: "byte list \<Rightarrow> u32" where
  "be32 b = push_bit 24 (ucast (b ! 0)) OR push_bit 16 (ucast (b ! 1)) OR push_bit 8 (ucast (b ! 2)) OR ucast (b ! 3)"

fun fips_W :: "byte list \<Rightarrow> nat \<Rightarrow> u32" where
  "fips_W m t = (if t < 16 then be32 (take 4 (drop (4 * t) m))
     else rol (fips_W m (t - 3) XOR fips_W m (t - 8) XOR fips_W m (t - 14) XOR fips_W m (t - 16)) 1)"

declare fips_W.simps [simp del]

definition fips_round :: "byte list \<Rightarrow> nat \<Rightarrow> u32 \<times> u32 \<times> u32 \<times> u32 \<times> u32 \<Rightarrow> u32 \<times> u32 \<times> u32 \<times> u32 \<times> u32" where
  "fips_round m t s = (case s of (a, b, c, d, e) \<Rightarrow> (rol a 5 + fips_f t b c d + e + fips_K t + fips_W m t, a, rol b 30, c, d))"

definition fips_compress :: "u32 \<times> u32 \<times> u32 \<times> u32 \<times> u32 \<Rightarrow> byte list \<Rightarrow> u32 \<times> u32 \<times> u32 \<times> u32 \<times> u32" where
  "fips_compress h m = add_state h (fold (fips_round m) [0..<80] h)"

fun fips_blocks :: "u32 \<times> u32 \<times> u32 \<times> u32 \<times> u32 \<Rightarrow> byte list \<Rightarrow> u32 \<times> u32 \<times> u32 \<times> u32 \<times> u32" where
  "fips_blocks h m = (if 64 \<le> length m then fips_blocks (fips_compress h (take 64 m)) (drop 64 m) else h)"

declare fips_blocks.simps [simp del]

definition be64 :: "nat \<Rightarrow> byte list" where
  "be64 n = map (\<lambda>i. of_nat (n div 256 ^ (7 - i))) [0..<8]"

definition fips_pad :: "byte list \<Rightarrow> byte list" where
  "fips_pad m = m @ [0x80] @ replicate ((119 - length m mod 64) mod 64) 0 @ be64 (8 * length m)"

definition fips_H0 :: "u32 \<times> u32 \<times> u32 \<times> u32 \<times> u32" where
  "fips_H0 = (0x67452301, 0xEFCDAB89, 0x98BADCFE, 0x10325476, 0xC3D2E1F0)"

definition fips_sha1 :: "byte list \<Rightarrow> byte list" where
  "fips_sha1 m = concat (map (\<lambda>w. [be_byte w 0, be_byte w 1, be_byte w 2, be_byte w 3]) (state_words (fips_blocks fips_H0 (fips_pad m))))"

text \<open>RFC 2104.\<close>

definition rfc_hmac :: "(byte list \<Rightarrow> byte list) \<Rightarrow> byte list \<Rightarrow> byte list \<Rightarrow> byte list" where
  "rfc_hmac H key text1 =
     (let k0 = (if length key > 64 then H key else key); k = k0 @ replicate (64 - length k0) 0
      in H (map (\<lambda>b. b XOR 0x5c) k @ H (map (\<lambda>b. b XOR 0x36) k @ text1)))"

section \<open>The compression function\<close>

lemma four_bytes: "k < 32 \<Longrightarrow> (k < 8 \<Longrightarrow> P) \<Longrightarrow> (8 \<le> k \<Longrightarrow> k < 16 \<Longrightarrow> P) \<Longrightarrow> (16 \<le> k \<Longrightarrow> k < 24 \<Longrightarrow> P) \<Longrightarrow> (24 \<le> k \<Longrightarrow> P) \<Longrightarrow> P" for k :: nat
  by linarith

lemma swap_bytes: "(rol (le32 b) 24 AND 0xFF00FF00) OR (rol (le32 b) 8 AND 0x00FF00FF) = be32 b"
proof (rule bit_eqI)
  fix k assume "possible_bit TYPE(u32) k"
  then have k: "k < 32" by simp
  have m: "(0xFF00FF00 :: u32) = push_bit 24 (mask 8) OR push_bit 8 (mask 8)" "(0x00FF00FF :: u32) = push_bit 16 (mask 8) OR mask 8"
    by (simp_all add: mask_eq_exp_minus_1)
  have nb: "8 \<le> n \<Longrightarrow> \<not> bit (x :: byte) n" for x n using bit_imp_le_length [of x n] by auto
  show "bit ((rol (le32 b) 24 AND 0xFF00FF00) OR (rol (le32 b) 8 AND 0x00FF00FF)) k = bit (be32 b) k"
    unfolding m rol_def le32_def be32_def using k by (rule four_bytes) (auto simp: bit_simps nb)
qed

lemma R_fun_fips: "R_fun i w x y = fips_f i w x y"
proof -
  have "(w AND (x XOR y)) XOR y = (w AND x) OR (NOT w AND y)" by (rule bit_eqI) (auto simp: bit_simps)
  moreover have "((w OR x) AND y) OR (w AND x) = (w AND x) OR (w AND y) OR (x AND y)" by (rule bit_eqI) (auto simp: bit_simps)
  ultimately show ?thesis by (simp add: R_fun_def fips_f_def)
qed

lemma R_const_fips: "R_const i = fips_K i"
  by (simp add: R_const_def fips_K_def)

text \<open>The array of 16 words holds the last 16 words of the schedule.\<close>

definition schedule :: "byte list \<Rightarrow> nat \<Rightarrow> u32 list \<Rightarrow> bool" where
  "schedule m t l \<longleftrightarrow> length l = 16 \<and> (\<forall>k<t. t \<le> k + 16 \<longrightarrow> l ! (k mod 16) = fips_W m k) \<and> (\<forall>k. t \<le> k \<and> k < 16 \<longrightarrow> l ! k = le32 (take 4 (drop (4 * k) m)))"

lemma mod16_ne:
  fixes k t :: nat
  assumes "k < t" "t < k + 16"
  shows "k mod 16 \<noteq> t mod 16"
proof
  assume "k mod 16 = t mod 16"
  then have "(t - k) mod 16 = 0" using assms(1) by (metis mod_eq_dvd_iff_nat less_imp_le dvd_imp_mod_0)
  then show False using assms by (simp add: mod_less)
qed

lemma schedule_update:
  assumes "schedule m t l"
  shows "schedule m (Suc t) (l[t mod 16 := fips_W m t])"
proof -
  have "l[t mod 16 := fips_W m t] ! (k mod 16) = fips_W m k" if "k < Suc t" "Suc t \<le> k + 16" for k
  proof (cases "k = t")
    case True
    then show ?thesis using assms by (simp add: schedule_def)
  next
    case False
    then have "k mod 16 \<noteq> t mod 16" using that by (intro mod16_ne) simp_all
    then show ?thesis using assms that False by (simp add: schedule_def)
  qed
  moreover have "l[t mod 16 := fips_W m t] ! k = le32 (take 4 (drop (4 * k) m))" if "Suc t \<le> k" "k < 16" for k
    using assms that by (simp add: schedule_def)
  ultimately show ?thesis using assms by (simp add: schedule_def)
qed

lemma schedule_step:
  assumes "schedule m t l"
  shows "R_blk t l = l[t mod 16 := fips_W m t]"
proof (cases "t < 16")
  case True
  then show ?thesis using assms swap_bytes by (simp add: R_blk_def blk0_def schedule_def fips_W.simps)
next
  case False
  have e: "l ! ((t + d) mod 16) = fips_W m (t - (16 - d))" if "d < 16" for d
  proof -
    have "t + d = t - (16 - d) + 16" using False that by simp
    then have "(t + d) mod 16 = (t - (16 - d)) mod 16" by (metis mod_add_self2)
    then show ?thesis using assms that False by (simp add: schedule_def)
  qed
  have l: "l ! ((t + 13) mod 16) = fips_W m (t - 3)" "l ! ((t + 8) mod 16) = fips_W m (t - 8)" "l ! ((t + 2) mod 16) = fips_W m (t - 14)"
    "l ! (t mod 16) = fips_W m (t - 16)" using e [of 13] e [of 8] e [of 2] e [of 0] by simp_all
  show ?thesis unfolding R_blk_def blk_def if_not_P [OF False] l fips_W.simps [of m t] ..
qed

lemma rounds_fips:
  "\<exists>l. fold R_step [0..<t] (s, block_words m) = (fold (fips_round m) [0..<t] s, l) \<and> schedule m t l"
proof (induction t)
  case 0
  then show ?case by (simp add: schedule_def block_words_def)
next
  case (Suc t)
  then obtain l where l: "fold R_step [0..<t] (s, block_words m) = (fold (fips_round m) [0..<t] s, l)" "schedule m t l" by blast
  obtain a b c d e where f: "fold (fips_round m) [0..<t] s = (a, b, c, d, e)" by (cases "fold (fips_round m) [0..<t] s") auto
  have "l[t mod 16 := fips_W m t] ! (t mod 16) = fips_W m t" using l(2) by (simp add: schedule_def)
  then have "R_step t ((a, b, c, d, e), l) = (fips_round m t (a, b, c, d, e), l[t mod 16 := fips_W m t])"
    using schedule_step [OF l(2)] by (simp add: R_step_def fips_round_def Let_def R_fun_fips R_const_fips ac_simps)
  then show ?case using l f schedule_update [OF l(2)] by simp
qed

lemma transform_fips: "SHA1_Transform state buffer = fips_compress state buffer"
  using rounds_fips [of 80 state buffer] by (auto simp: SHA1_Transform_def fips_compress_def)

section \<open>Blocks\<close>

lemma blocks_short: "length m < 64 \<Longrightarrow> fips_blocks h m = h"
  by (simp add: fips_blocks.simps)

lemma blocks_append: "64 dvd length a \<Longrightarrow> fips_blocks h (a @ b) = fips_blocks (fips_blocks h a) b"
proof (induction h a rule: fips_blocks.induct)
  case (1 h a)
  show ?case
  proof (cases "64 \<le> length a")
    case True
    then have "64 dvd length (drop 64 a)" using 1(2) by (simp add: dvd_diff_nat)
    then show ?thesis using True 1 by (simp add: fips_blocks.simps [of h])
  next
    case False
    then have "a = []" using 1(2) by (auto dest: dvd_imp_le)
    then show ?thesis by (simp add: fips_blocks.simps [of h "[]"])
  qed
qed

lemma blocks_one: "length b = 64 \<Longrightarrow> fips_blocks h b = fips_compress h b"
  using blocks_short [of "[]"] by (simp add: fips_blocks.simps [of h b])

text \<open>The whole blocks of a message and the rest.\<close>

abbreviation whole :: "byte list \<Rightarrow> byte list" where "whole m \<equiv> take (64 * (length m div 64)) m"
abbreviation rest :: "byte list \<Rightarrow> byte list" where "rest m \<equiv> drop (64 * (length m div 64)) m"

lemma length_whole: "length (whole m) = 64 * (length m div 64)" and length_rest: "length (rest m) = length m mod 64"
  by (simp_all add: minus_mult_div_eq_mod min_absorb2)

lemma blocks_whole: "fips_blocks h m = fips_blocks h (whole m)"
proof -
  have "fips_blocks h (whole m @ rest m) = fips_blocks (fips_blocks h (whole m)) (rest m)"
    by (rule blocks_append) (simp only: length_whole dvd_triv_left)
  moreover have "fips_blocks (fips_blocks h (whole m)) (rest m) = fips_blocks h (whole m)"
    using length_rest [of m] by (intro blocks_short) simp
  ultimately show ?thesis by simp
qed

lemma transform_loop_blocks:
  "i \<le> length data \<Longrightarrow> transform_loop st data i = (fips_blocks st (drop i data), i + 64 * ((length data - i) div 64))"
proof (induction st data i rule: transform_loop.induct)
  case (1 st data i)
  show ?case
  proof (cases "i + 63 < length data")
    case True
    have "(length data - i) div 64 = Suc ((length data - (i + 64)) div 64)" using True by (simp add: div_if [of "length data - i"])
    moreover have "fips_blocks st (drop i data) = fips_blocks (fips_compress st (take 64 (drop i data))) (drop (i + 64) data)"
    proof -
      have "64 \<le> length (drop i data)" using True by simp
      then show ?thesis by (subst fips_blocks.simps) (simp add: add.commute)
    qed
    ultimately show ?thesis using True 1 by (simp add: transform_loop.simps [of st data i] transform_fips)
  next
    case False
    then show ?thesis using 1(2) by (simp add: transform_loop.simps [of st data i] blocks_short)
  qed
qed

section \<open>Updates\<close>

text \<open>The context after the bytes \<open>m\<close>; the low word of the number of bits may have wrapped.\<close>

definition after :: "byte list \<Rightarrow> SHA1_CTX \<Rightarrow> bool" where
  "after m ctx \<longleftrightarrow> sc_state ctx = fips_blocks fips_H0 m \<and> length (sc_buffer ctx) = 64 \<and> take (length m mod 64) (sc_buffer ctx) = rest m
     \<and> unat (sc_count0 ctx) = (8 * length m) mod 2 ^ 32"

lemma after_index: "after m ctx \<Longrightarrow> unat (drop_bit 3 (sc_count0 ctx)) mod 64 = length m mod 64"
proof -
  assume "after m ctx"
  then have "unat (drop_bit 3 (sc_count0 ctx)) = (8 * length m) mod 2 ^ 32 div 8" by (simp add: after_def unat_drop_bit)
  then have "unat (drop_bit 3 (sc_count0 ctx)) mod 64 = length m mod 2 ^ 29 mod 2 ^ 6" using div8_mod [of 32 "8 * length m"] by simp
  also have "\<dots> = length m mod 2 ^ 6" by (rule mod_mod_pow2) simp
  finally show ?thesis by simp
qed

lemma update_after_count:
  assumes "unat (sc_count0 ctx) = (8 * length m) mod 2 ^ 32"
  shows "unat (sc_count0 (sat_SHA1_Update ctx data)) = (8 * length (m @ data)) mod 2 ^ 32"
proof -
  have "unat (of_nat ((length data * 8) mod 2 ^ 64) :: u32) = (length data * 8) mod 2 ^ 32"
    by (simp add: unsigned_of_nat take_bit_eq_mod mod_mod_cancel)
  then have "unat (sc_count0 (sat_SHA1_Update ctx data)) = ((8 * length m) mod 2 ^ 32 + (length data * 8) mod 2 ^ 32) mod 2 ^ 32"
    using assms by (simp add: update_count0 unat_add_mod)
  also have "\<dots> = (8 * length m + length data * 8) mod 2 ^ 32" by (rule mod_add_eq)
  finally show ?thesis by (simp add: algebra_simps)
qed

lemma divmod64: "n = 64 * q + r \<Longrightarrow> r < 64 \<Longrightarrow> n div 64 = q \<and> n mod 64 = r" for n :: nat
  by simp

lemma next_block: "n = 64 * q + j \<Longrightarrow> j < 64 \<Longrightarrow> 64 * (q + 1 + k) = n + (64 - j + 64 * k)" for n :: nat
  by simp

lemma drop_past: "drop (length xs + n) (xs @ ys) = drop n ys"
  by simp

lemma copy_start:
  assumes "length ys \<le> length b"
  shows "length (copy_to b 0 ys) = length b" "take (length ys) (copy_to b 0 ys) = ys"
  using assms by (simp_all add: copy_to_def)

lemma update_long:
  assumes "unat (drop_bit 3 (sc_count0 ctx)) mod 64 = j" "j + length data > 63"
  shows "sc_state (sat_SHA1_Update ctx data) = fst (transform_loop (SHA1_Transform (sc_state ctx) (copy_to (sc_buffer ctx) j (take (64 - j) data))) data (64 - j))"
    "sc_buffer (sat_SHA1_Update ctx data) = copy_to (copy_to (sc_buffer ctx) j (take (64 - j) data)) 0
       (drop (snd (transform_loop (SHA1_Transform (sc_state ctx) (copy_to (sc_buffer ctx) j (take (64 - j) data))) data (64 - j))) data)"
  using assms by (simp_all add: sat_SHA1_Update_def Let_def split: prod.splits)

lemma update_short:
  assumes "unat (drop_bit 3 (sc_count0 ctx)) mod 64 = j" "\<not> j + length data > 63"
  shows "sc_state (sat_SHA1_Update ctx data) = sc_state ctx" "sc_buffer (sat_SHA1_Update ctx data) = copy_to (sc_buffer ctx) j data"
  using assms by (simp_all add: sat_SHA1_Update_def Let_def)

lemma afterI:
  assumes "after m ctx" "sc_state ctx' = fips_blocks fips_H0 (m @ data)" "length (sc_buffer ctx') = 64"
    "take (length (m @ data) mod 64) (sc_buffer ctx') = rest (m @ data)" "ctx' = sat_SHA1_Update ctx data"
  shows "after (m @ data) ctx'"
  using assms update_after_count [of ctx m data] by (simp add: after_def)

lemma update_after_long:
  assumes "after m ctx" "length m mod 64 + length data > 63"
  shows "after (m @ data) (sat_SHA1_Update ctx data)"
proof -
  let ?j = "length m mod 64"
  let ?i = "64 - ?j"
  let ?buf = "rest m @ take ?i data" and ?k = "(length data - ?i) div 64"
  have a: "sc_state ctx = fips_blocks fips_H0 m" "length (sc_buffer ctx) = 64" "take ?j (sc_buffer ctx) = rest m" using assms(1) by (simp_all add: after_def)
  have i: "?i \<le> length data" using assms(2) by simp
  have "copy_to (sc_buffer ctx) ?j (take ?i data) = ?buf" using a(2,3) i by (simp add: copy_to_def)
  note u = update_long [OF after_index [OF assms(1)] assms(2), unfolded this transform_fips transform_loop_blocks [OF i] fst_conv snd_conv]
  have len: "length ?buf = 64" using i length_rest [of m] by simp
  have m: "m = whole m @ rest m" by simp
  have sum: "length (m @ data) = 64 * (length m div 64 + 1 + ?k) + (length data - ?i) mod 64"
  proof -
    have "length m = 64 * (length m div 64) + ?j" "length data - ?i = 64 * ?k + (length data - ?i) mod 64" by simp_all
    then show ?thesis using i by (simp add: algebra_simps)
  qed
  note dm = divmod64 [OF sum mod_less_divisor [OF zero_less_numeral]]
  note d = conjunct1 [OF dm] conjunct2 [OF dm]
  show ?thesis
  proof (rule afterI [OF assms(1) _ _ _ refl])
    have "(whole m @ ?buf) @ drop ?i data = m @ data" by (metis append.assoc append_take_drop_id)
    then have "fips_blocks fips_H0 (m @ data) = fips_blocks fips_H0 ((whole m @ ?buf) @ drop ?i data)" by (simp only:)
    also have "\<dots> = fips_blocks (fips_blocks fips_H0 (whole m @ ?buf)) (drop ?i data)"
      using len length_whole [of m] by (intro blocks_append) (simp only: length_append, simp)
    also have "fips_blocks fips_H0 (whole m @ ?buf) = fips_compress (fips_blocks fips_H0 (whole m)) ?buf"
      using blocks_append [of "whole m" fips_H0 ?buf] blocks_one [OF len] length_whole [of m] by simp
    also have "fips_blocks fips_H0 (whole m) = sc_state ctx" using a(1) blocks_whole [of fips_H0 m] by simp
    finally show "sc_state (sat_SHA1_Update ctx data) = fips_blocks fips_H0 (m @ data)" using u(1) by simp
    have r: "length (drop (?i + 64 * ?k) data) = (length data - ?i) mod 64" by (simp add: minus_mult_div_eq_mod [symmetric])
    have "length (drop (?i + 64 * ?k) data) < 64" by (subst r) (rule mod_less_divisor [OF zero_less_numeral])
    then have l: "length (drop (?i + 64 * ?k) data) \<le> length ?buf" by (simp only: len less_imp_le)
    show "length (sc_buffer (sat_SHA1_Update ctx data)) = 64" unfolding u(2) copy_start(1) [OF l] by (rule len)
    have "64 * (length m div 64 + 1 + ?k) = length m + (?i + 64 * ?k)"
      by (rule next_block [OF mult_div_mod_eq [symmetric] mod_less_divisor [OF zero_less_numeral]])
    then have "rest (m @ data) = drop (?i + 64 * ?k) data" by (simp only: d(1) drop_past)
    then show "take (length (m @ data) mod 64) (sc_buffer (sat_SHA1_Update ctx data)) = rest (m @ data)"
      using copy_start(2) [OF l] by (simp only: u(2) d(2) r)
  qed
qed

lemma update_after_short:
  assumes "after m ctx" "\<not> length m mod 64 + length data > 63"
  shows "after (m @ data) (sat_SHA1_Update ctx data)"
proof -
  let ?j = "length m mod 64"
  have a: "sc_state ctx = fips_blocks fips_H0 m" "length (sc_buffer ctx) = 64" "take ?j (sc_buffer ctx) = rest m" using assms(1) by (simp_all add: after_def)
  note u = update_short [OF after_index [OF assms(1)] assms(2)]
  have "length (m @ data) = 64 * (length m div 64) + (?j + length data)" by simp
  from divmod64 [OF this] have d: "length (m @ data) div 64 = length m div 64" "length (m @ data) mod 64 = ?j + length data" using assms(2) by linarith+
  have r: "rest (m @ data) = rest m @ data" unfolding d(1) by simp
  have w: "whole (m @ data) = whole m" unfolding d(1) by simp
  show ?thesis
  proof (rule afterI [OF assms(1) _ _ _ refl])
    show "sc_state (sat_SHA1_Update ctx data) = fips_blocks fips_H0 (m @ data)" using u(1) a(1) blocks_whole [of fips_H0 m] blocks_whole [of fips_H0 "m @ data"] w by simp
    show "length (sc_buffer (sat_SHA1_Update ctx data)) = 64" using a(2) assms(2) unfolding u(2) copy_to_def by simp
    show "take (length (m @ data) mod 64) (sc_buffer (sat_SHA1_Update ctx data)) = rest (m @ data)"
      using a(2,3) assms(2) length_rest [of m] unfolding u(2) copy_to_def d(2) r by simp
  qed
qed

lemma update_after: "after m ctx \<Longrightarrow> after (m @ data) (sat_SHA1_Update ctx data)"
  using update_after_long update_after_short by blast

section \<open>Padding and digest\<close>

lemma after_504: "after m ctx \<Longrightarrow> sc_count0 ctx AND 504 = 448 \<longleftrightarrow> length m mod 64 = 56"
proof -
  assume h: "after m ctx"
  have "unat (sc_count0 ctx AND 504) = length m mod 64 * 8" using after_index [OF h] by (simp add: count_504 unat_drop_bit)
  then show ?thesis using word_unat_eq_iff [of "sc_count0 ctx AND 504" 448] by auto
qed

definition zeros :: "nat \<Rightarrow> nat" where
  "zeros n = (120 - n mod 64) mod 64"

lemma zeros_step: "n mod 64 \<noteq> 56 \<Longrightarrow> zeros n = Suc (zeros (Suc n))"
proof -
  assume h: "n mod 64 \<noteq> 56"
  have arith: "k < 64 \<Longrightarrow> k \<noteq> 56 \<Longrightarrow> (120 - k) mod 64 = Suc ((120 - (k + 1) mod 64) mod 64)" for k :: nat
    by (cases "k < 56"; cases "k = 63") (auto simp: mod_if)
  show ?thesis unfolding zeros_def using arith [of "n mod 64"] h by (simp add: mod_Suc_eq)
qed

lemma zeros_Suc: "zeros (Suc n) = (119 - n mod 64) mod 64"
  by (cases "n mod 64 = 63") (auto simp: zeros_def mod_Suc)

lemma pad_loop_after: "after m ctx \<Longrightarrow> after (m @ replicate (zeros (length m)) 0) (pad_loop ctx)"
proof (induction ctx arbitrary: m rule: pad_loop.induct)
  case (1 ctx)
  show ?case
  proof (cases "length m mod 64 = 56")
    case True
    then have "zeros (length m) = 0" by (simp add: zeros_def)
    then show ?thesis using True 1(2) after_504 [OF 1(2)] by (simp add: pad_loop.simps [of ctx])
  next
    case False
    then have c: "sc_count0 ctx AND 504 \<noteq> 448" using after_504 [OF 1(2)] by simp
    have "after ((m @ [0]) @ replicate (zeros (length (m @ [0]))) 0) (pad_loop (sat_SHA1_Update ctx [0]))"
      by (rule 1(1) [OF c update_after [OF 1(2)]])
    then show ?thesis using c zeros_step [OF False] by (simp add: pad_loop.simps [of ctx])
  qed
qed

lemma init_after: "length mem = 64 \<Longrightarrow> after [] (sat_SHA1_Init mem)"
  by (simp add: after_def sat_SHA1_Init_def blocks_short fips_H0_def)

lemma be_byte_nat: "be_byte w i = of_nat (unat w div 256 ^ (3 - i mod 4))"
proof -
  have ff: "(255 :: u32) = mask 8" by (simp add: mask_eq_exp_minus_1)
  have p: "(2 :: nat) ^ (8 * k) = 256 ^ k" for k by (simp add: power_mult)
  have "ucast (drop_bit k w AND mask 8 :: u32) = (ucast (drop_bit k w) :: byte)" for k by (rule bit_eqI) (auto simp: bit_simps)
  then have "be_byte w i = ucast (drop_bit ((3 - i mod 4) * 8) w)" by (simp add: be_byte_def ff)
  also have "\<dots> = of_nat (unat (drop_bit ((3 - i mod 4) * 8) w))" by simp
  also have "unat (drop_bit ((3 - i mod 4) * 8) w) = unat w div 256 ^ (3 - i mod 4)" by (simp add: unat_drop_bit p mult.commute)
  finally show ?thesis .
qed

lemma final_count:
  assumes "unat c0 = 8 * n" "c1 = 0" "8 * n < 2 ^ 32"
  shows "map (\<lambda>i. be_byte (if i \<ge> 4 then c0 else c1) i) [0..<8] = be64 (8 * n)"
proof -
  have "be_byte (if i \<ge> 4 then c0 else c1) i = of_nat (8 * n div 256 ^ (7 - i))" if "i < 8" for i
  proof (cases "i \<ge> 4")
    case True
    then have "3 - i mod 4 = 7 - i" using that by (simp add: mod_if)
    then show ?thesis using True assms(1) by (simp add: be_byte_nat)
  next
    case False
    have "8 * n < 256 ^ 4" using assms(3) by simp
    also have "(256 :: nat) ^ 4 \<le> 256 ^ (7 - i)" using False by (intro power_increasing) simp_all
    finally show ?thesis using False assms(2) by (simp add: be_byte_nat)
  qed
  then show ?thesis by (simp add: be64_def)
qed

lemma digest_words: "map (\<lambda>i. be_byte (state_words s ! (i div 4)) i) [0..<SHA1_DIGEST_SIZE] = concat (map (\<lambda>w. [be_byte w 0, be_byte w 1, be_byte w 2, be_byte w 3]) (state_words s))"
proof -
  obtain a b c d e where s: "s = (a, b, c, d, e)" by (cases s) auto
  have u: "[0..<20] = [0, 1, 2, 3, 4, 5, 6, 7, 8, 9, 10, 11, 12, 13, 14, 15, 16, 17, 18, 19]" by (simp add: upt_rec)
  show ?thesis unfolding s SHA1_DIGEST_SIZE_def u by (simp add: state_words_def be_byte_def)
qed

lemma final_fips:
  assumes "after m ctx" "sc_count1 ctx = 0" "length m < 2 ^ 29"
  shows "sat_SHA1_Final ctx = fips_sha1 m"
proof -
  have c: "unat (sc_count0 ctx) = 8 * length m" using assms(1,3) by (simp add: after_def)
  let ?fc = "map (\<lambda>i. be_byte (if i \<ge> 4 then sc_count0 ctx else sc_count1 ctx) i) [0..<8]"
  have fc: "?fc = be64 (8 * length m)" by (rule final_count [OF c assms(2)]) (use assms(3) in simp)
  have "after ((m @ [0x80]) @ replicate (zeros (length (m @ [0x80]))) 0) (pad_loop (sat_SHA1_Update ctx [0x80]))"
    by (rule pad_loop_after [OF update_after [OF assms(1)]])
  from update_after [OF this, of ?fc]
  have "after (fips_pad m) (sat_SHA1_Update (pad_loop (sat_SHA1_Update ctx [0x80])) ?fc)"
    unfolding fc fips_pad_def by (simp add: zeros_Suc)
  then have "sc_state (sat_SHA1_Update (pad_loop (sat_SHA1_Update ctx [0x80])) ?fc) = fips_blocks fips_H0 (fips_pad m)" by (simp add: after_def)
  then show ?thesis unfolding sat_SHA1_Final_def Let_def fips_sha1_def by (simp only: digest_words)
qed

section \<open>Properties\<close>

text \<open>While the message is shorter than 2^29 bytes, the high word of the count stays 0.\<close>

lemma update_count1:
  assumes "after m ctx" "sc_count1 ctx = 0" "length (m @ data) < 2 ^ 29"
  shows "sc_count1 (sat_SHA1_Update ctx data) = 0"
proof -
  have c: "unat (sc_count0 ctx) = 8 * length m" using assms(1,3) by (simp add: after_def)
  have l: "length data * 8 mod 2 ^ 64 = length data * 8" "length data div 2 ^ 29 = 0" using assms(3) by simp_all
  have "unat (sc_count0 ctx + of_nat (length data * 8)) = 8 * length m + length data * 8"
    using update_after_count [of ctx m data] c assms(3) l(1) by (simp add: update_count0)
  then have "\<not> unat (sc_count0 ctx + of_nat (length data * 8)) < length data * 8" by simp
  then have "sc_count1 (sat_SHA1_Update ctx data) = sc_count1 ctx + 0 + of_nat 0"
    unfolding sat_SHA1_Update_def Let_def l by (simp split: prod.splits)
  then show ?thesis using assms(2) by simp
qed

lemma sha1_fips:
  assumes "length buffer < 2 ^ 29" "length mem = 64"
  shows "sat_SHA1_Final (sat_SHA1_Update (sat_SHA1_Init mem) buffer) = fips_sha1 buffer"
proof -
  note i = init_after [OF assms(2)]
  have "sc_count1 (sat_SHA1_Update (sat_SHA1_Init mem) buffer) = 0" using update_count1 [OF i, of buffer] assms(1) by (simp add: sat_SHA1_Init_def)
  then show ?thesis using final_fips [OF update_after [OF i, of buffer]] assms(1) by simp
qed

text \<open>
  C37: \<^verbatim>\<open>sha1\<close> computes the SHA-1 hash of FIPS 180 of every string shorter than 2^29 bytes (512 MB; from there on the bit count is
  wrong, see \<open>sha1_count_wrong\<close>): the unrolled operations on 16 words that are
  overwritten, the buffer that is filled piecewise and the padding byte by byte are the padding, the schedule and the compression of the standard.
\<close>

theorem sha1_is_fips:
  assumes "length buffer < 2 ^ 29" "length mem = 64"
  shows "lsha1 mem buffer = fips_sha1 buffer"
  unfolding lsha1_def by (rule sha1_fips [OF assms])

lemma le32_bit: "k < 32 \<Longrightarrow> bit (le32 b) k \<longleftrightarrow> bit (b ! (k div 8)) (k mod 8)"
proof -
  assume k: "k < 32"
  have nb: "8 \<le> n \<Longrightarrow> \<not> bit (y :: byte) n" for y n using bit_imp_le_length [of y n] by auto
  have s: "k div 8 = q \<and> k mod 8 = k - 8 * q" if "8 * q \<le> k" "k < 8 * q + 8" for q using that by (simp add: div_nat_eqI minus_div_mult_eq_mod [symmetric])
  show ?thesis
    using k by (rule four_bytes) (use s [of 0] s [of 1] s [of 2] s [of 3] k in \<open>auto simp: le32_def bit_simps nb\<close>)
qed

lemma rep4: "replicate 4 c = [c, c, c, c]"
  by (simp add: eval_nat_numeral)

lemma word_bytes_xor:
  assumes "length b = 4" "x = le32 (replicate 4 c)"
  shows "word_bytes (le32 b XOR x) = map (\<lambda>k. k XOR c) b"
proof (rule nth_equalityI)
  show "length (word_bytes (le32 b XOR x)) = length (map (\<lambda>k. k XOR c) b)" using assms(1) by (simp add: word_bytes_def)
  fix i assume "i < length (word_bytes (le32 b XOR x))"
  then have i: "i < 4" by (simp add: word_bytes_def)
  have "ucast (drop_bit (8 * i) (le32 b XOR x)) = b ! i XOR c"
  proof (rule bit_eqI)
    fix n assume "possible_bit TYPE(byte) n"
    then have n: "n < 8" by simp
    have "8 * i + n < 32" using i n by simp
    then have "bit (le32 b XOR x) (8 * i + n) \<longleftrightarrow> bit (b ! i) n \<noteq> bit c n" using i n assms(2) by (simp add: bit_xor_iff le32_bit)
    then show "bit (ucast (drop_bit (8 * i) (le32 b XOR x)) :: byte) n = bit (b ! i XOR c) n" using n by (simp add: bit_simps)
  qed
  then show "word_bytes (le32 b XOR x) ! i = map (\<lambda>k. k XOR c) b ! i" using i assms(1) by (simp add: word_bytes_def)
qed

lemma concat_fours: "length k = 4 * n \<Longrightarrow> concat (map (\<lambda>i. map g (take 4 (drop (4 * i) k))) [0..<n]) = map g k"
proof (induction n arbitrary: k)
  case (Suc n)
  have "concat (map (\<lambda>i. map g (take 4 (drop (4 * i) (take (4 * n) k)))) [0..<n]) = map g (take (4 * n) k)" using Suc by (intro Suc.IH) simp
  moreover have "take 4 (drop (4 * i) (take (4 * n) k)) = take 4 (drop (4 * i) k)" if "i < n" for i using that by (simp add: drop_take min_def)
  then have "map (\<lambda>i. map g (take 4 (drop (4 * i) (take (4 * n) k)))) [0..<n] = map (\<lambda>i. map g (take 4 (drop (4 * i) k))) [0..<n]" by (intro map_cong) simp_all
  ultimately have "concat (map (\<lambda>i. map g (take 4 (drop (4 * i) k))) [0..<n]) = map g (take (4 * n) k)" by simp
  moreover have "take 4 (drop (4 * n) k) = drop (4 * n) k" using Suc.prems by simp
  ultimately have "concat (map (\<lambda>i. map g (take 4 (drop (4 * i) k))) [0..<Suc n]) = map g (take (4 * n) k) @ map g (drop (4 * n) k)" by simp
  then show ?case by (simp flip: map_append)
qed simp

lemma xor_key_bytes:
  assumes "length key = 64" "x = le32 (replicate 4 c)"
  shows "xor_key key x = map (\<lambda>k. k XOR c) key"
proof -
  have "word_bytes (le32 (take 4 (drop (4 * i) key)) XOR x) = map (\<lambda>k. k XOR c) (take 4 (drop (4 * i) key))" if "i < 16" for i
    using that assms by (intro word_bytes_xor) simp_all
  then have "map (\<lambda>i. word_bytes (le32 (take 4 (drop (4 * i) key)) XOR x)) [0..<16] = map (\<lambda>i. map (\<lambda>k. k XOR c) (take 4 (drop (4 * i) key))) [0..<16]"
    by (intro map_cong) simp_all
  moreover have "BLOCKSIZE div 4 = 16" by (simp add: BLOCKSIZE_def)
  ultimately have "xor_key key x = concat (map (\<lambda>i. map (\<lambda>k. k XOR c) (take 4 (drop (4 * i) key))) [0..<16])" by (simp only: xor_key_def)
  then show ?thesis using concat_fours [of key 16] assms(1) by simp
qed

text \<open>
  C38: \<^verbatim>\<open>hmac_sha1\<close> is HMAC of RFC 2104 over SHA-1 for every key shorter than 2^29 bytes, also when it is longer than a block, and
  every text shorter than 2^29 - 64 bytes, so that neither hash runs into \<open>sha1_count_wrong\<close>: the key that is masked in place with the outer
  pad and then with the difference of the two pads is the one masked with the inner pad.
\<close>

theorem hmac_sha1_is_rfc:
  assumes "length key < 2 ^ 29" "length text1 < 2 ^ 29 - 64" "length mem = 64"
  shows "lhmac_sha1 mem key text1 = rfc_hmac fips_sha1 key text1"
proof -
  note i = init_after [OF assms(3)]
  have zero: "sc_count1 (sat_SHA1_Init mem) = 0" by (simp add: sat_SHA1_Init_def)
  let ?k0 = "if length key > 64 then fips_sha1 key else key"
  let ?k = "?k0 @ replicate (64 - length ?k0) 0"
  have "sat_SHA1_Final (sat_SHA1_Update (sat_SHA1_Init mem) key) = fips_sha1 key" by (rule sha1_fips [OF assms(1,3)])
  moreover have d: "length (fips_sha1 m) = 20" for m by (cases "fips_blocks fips_H0 (fips_pad m)") (simp add: fips_sha1_def state_words_def)
  ultimately have rkey: "copy_to (replicate BLOCKSIZE 0) 0 (if length key > BLOCKSIZE then sat_SHA1_Final (sat_SHA1_Update (sat_SHA1_Init mem) key) else key) = ?k"
    by (simp add: copy_to_def BLOCKSIZE_def)
  have len: "length ?k = 64" using d by simp
  have x1: "xor_key ?k 0x5c5c5c5c = map (\<lambda>b. b XOR 0x5c) ?k" by (rule xor_key_bytes [OF len]) code_simp
  have "xor_key (map (\<lambda>b. b XOR 0x5c) ?k) (0x5c5c5c5c XOR 0x36363636) = map (\<lambda>b. b XOR 0x6a) (map (\<lambda>b. b XOR 0x5c) ?k)"
    by (rule xor_key_bytes) (use len in simp, code_simp)
  then have x2: "xor_key (map (\<lambda>b. b XOR 0x5c) ?k) (0x5c5c5c5c XOR 0x36363636) = map (\<lambda>b. b XOR 0x36) ?k" by (simp add: xor.assoc comp_def)
  let ?o = "map (\<lambda>b. b XOR 0x5c) ?k" and ?i = "map (\<lambda>b. b XOR 0x36) ?k"
  have upd: "after p (sat_SHA1_Update (sat_SHA1_Init mem) p) \<and> sc_count1 (sat_SHA1_Update (sat_SHA1_Init mem) p) = 0" if "length p = 64" for p
    using update_after [OF i, of p] update_count1 [OF i zero, of p] that by simp
  have fin: "sat_SHA1_Final (sat_SHA1_Update (sat_SHA1_Update (sat_SHA1_Init mem) p) t) = fips_sha1 (p @ t)" if "length p = 64" "length t < 2 ^ 29 - 64" for p t
    using that final_fips [OF update_after [OF conjunct1 [OF upd [OF that(1)]]] update_count1 [OF conjunct1 [OF upd [OF that(1)]] conjunct2 [OF upd [OF that(1)]]], of t] by simp
  have "sat_SHA1_Final (sat_SHA1_Update (sat_SHA1_Update (sat_SHA1_Init mem) ?i) text1) = fips_sha1 (?i @ text1)" using len assms(2) by (intro fin) simp_all
  moreover have "sat_SHA1_Final (sat_SHA1_Update (sat_SHA1_Update (sat_SHA1_Init mem) ?o) (fips_sha1 (?i @ text1))) = fips_sha1 (?o @ fips_sha1 (?i @ text1))"
    using len d by (intro fin) simp_all
  ultimately show ?thesis unfolding lhmac_sha1_def rfc_hmac_def Let_def rkey x1 x2 by simp
qed

text \<open>
  The length is wrong from 2^29 bytes on: \<^verbatim>\<open>len << 3\<close> has 64 bits and the word it is compared with has 32, so a carry is counted that is none.
\<close>

lemma sha1_count_wrong:
  assumes "2 ^ 29 \<le> length data" "length data < 2 ^ 61"
  shows "sc_count1 (sat_SHA1_Update (sat_SHA1_Init mem) data) = of_nat (length data div 2 ^ 29) + 1"
proof -
  have l: "length data * 8 mod 2 ^ 64 = length data * 8" using assms(2) by simp
  have "unat (of_nat (length data * 8) :: u32) < 2 ^ 32" by (rule order.strict_trans2 [OF unsigned_less]) simp
  also have "\<dots> \<le> length data * 8" using assms(1) by simp
  finally have c: "unat (0 + of_nat (length data * 8) :: u32) < length data * 8" by simp
  show ?thesis unfolding sat_SHA1_Update_def Let_def l sat_SHA1_Init_def SHA1_CTX.simps if_P [OF c] by (simp split: prod.splits)
qed

section \<open>Witnesses\<close>

theorem sha1_is_fips_witness: "lsha1 (replicate 64 0) [97, 98, 99] = fips_sha1 [97, 98, 99]"
  by (rule sha1_is_fips) simp_all

theorem hmac_sha1_is_rfc_witness: "lhmac_sha1 (replicate 64 0) (replicate 100 1) [2, 3] = rfc_hmac fips_sha1 (replicate 100 1) [2, 3]"
  by (rule hmac_sha1_is_rfc) simp_all

end
