(* ===== verification/Framing.thy ===== *)
theory Framing
  imports Prelude
begin

text \<open>
  Packets in a byte stream. Each packet is preceded by its length in two bytes, the high one
  first; the packet filter of \<^verbatim>\<open>lua-netpack.c\<close>, the client connections of \<^verbatim>\<open>package.c\<close> and the gate
  all cut the bytes of a socket into packets this way. \<open>parse\<close> is the specification they share.
\<close>

definition read_size :: "byte \<Rightarrow> byte \<Rightarrow> nat" where
  "read_size a b = unat a * 256 + unat b"

text \<open>The specification: cut a byte stream into the packets that are complete and the rest.\<close>

fun parse :: "byte list \<Rightarrow> byte list list \<times> byte list" where
  "parse (a # b # rest) =
     (let n = read_size a b
      in if length rest < n then ([], a # b # rest)
         else case parse (drop n rest) of (fs, r) \<Rightarrow> (take n rest # fs, r))"
| "parse [] = ([], [])"
| "parse [a] = ([], [a])"

lemma parse_append:
  "parse (xs @ ys) = (case parse xs of (f1, r1) \<Rightarrow> case parse (r1 @ ys) of (f2, r2) \<Rightarrow> (f1 @ f2, r2))"
proof (induction xs rule: parse.induct)
  case (1 a b rest)
  let ?n = "read_size a b"
  show ?case
  proof (cases "length rest < ?n")
    case True
    then show ?thesis by (auto simp: Let_def split: prod.splits)
  next
    case False
    then have "drop ?n (rest @ ys) = drop ?n rest @ ys" "take ?n (rest @ ys) = take ?n rest" by simp_all
    with False 1 show ?thesis by (auto simp: Let_def split: prod.splits)
  qed
qed (auto split: prod.splits)

definition size_bytes :: "nat \<Rightarrow> byte list" where
  "size_bytes n = [of_nat (n div 256), of_nat n]"

lemma read_size_less: "read_size a b < 65536"
  using unsigned_less [of a, where ?'a = nat] unsigned_less [of b, where ?'a = nat] by (simp add: read_size_def)

lemma size_bytes_read: "size_bytes (read_size a b) = [a, b]"
proof -
  have "unat b < 256" using unsigned_less [of b, where ?'a = nat] by simp
  then have "read_size a b div 256 = unat a" by (simp add: read_size_def)
  moreover have "(of_nat (read_size a b) :: byte) = b"
  proof -
    have z: "(256 :: byte) = 0" by simp
    have "(of_nat (read_size a b) :: byte) = a * 256 + b" by (simp add: read_size_def)
    then show ?thesis by (simp only: z mult_zero_right add_0)
  qed
  ultimately show ?thesis by (simp add: size_bytes_def)
qed

lemma read_size_bytes: "n < 65536 \<Longrightarrow> read_size (of_nat (n div 256)) (of_nat n) = n"
  by (simp add: read_size_def unat_of_nat)

lemma parse_size: "n < 65536 \<Longrightarrow> parse (size_bytes n @ rest)
    = (if length rest < n then ([], size_bytes n @ rest)
       else case parse (drop n rest) of (fs, r) \<Rightarrow> (take n rest # fs, r))"
  by (simp add: size_bytes_def read_size_bytes Let_def)

lemma parse_count: "parse xs = (fs, r) \<Longrightarrow> 2 * length fs + length r \<le> length xs"
proof (induction xs arbitrary: fs rule: parse.induct)
  case (1 a b rest)
  show ?case
  proof (cases "length rest < read_size a b")
    case True
    with 1(2) show ?thesis by auto
  next
    case False
    then obtain fs' where fs: "parse (drop (read_size a b) rest) = (fs', r)" "fs = take (read_size a b) rest # fs'"
      using 1(2) by (auto simp: Let_def split: prod.splits)
    from 1(1) [OF refl False fs(1)] fs(2) show ?thesis by simp
  qed
qed auto

lemma parse_rest: "parse xs = (fs, r) \<Longrightarrow> parse r = ([], r)"
proof (induction xs arbitrary: fs rule: parse.induct)
  case (1 a b rest)
  then show ?case by (cases "length rest < read_size a b") (auto simp: Let_def split: prod.splits)
qed auto

lemma parse_new_frames:
  assumes "parse s = ([], s)" "parse (s @ c) = (fs, r)"
  shows "length fs \<le> length c"
proof (cases s rule: parse.cases)
  case (1 a b rest)
  let ?n = "read_size a b"
  have lt: "length rest < ?n" using assms(1) 1 by (auto simp: Let_def split: if_splits prod.splits)
  show ?thesis
  proof (cases "length (rest @ c) < ?n")
    case True
    with assms(2) 1 show ?thesis by (auto simp: Let_def)
  next
    case False
    then obtain fs' where fs: "parse (drop ?n (rest @ c)) = (fs', r)" "length fs = Suc (length fs')"
      using assms(2) 1 by (auto simp: Let_def split: prod.splits)
    have "2 * length fs' \<le> length rest + length c - ?n" using parse_count [OF fs(1)] by simp
    moreover have "?n \<le> length rest + length c" using False by simp
    ultimately show ?thesis using fs(2) lt by linarith
  qed
next
  case 2
  with assms(2) parse_count [of c fs r] show ?thesis by simp
next
  case (3 a)
  then show ?thesis
  proof (cases c)
    case (Cons b c')
    show ?thesis
    proof (cases "length c' < read_size a b")
      case True
      with assms(2) 3 Cons show ?thesis by (auto simp: Let_def)
    next
      case False
      then obtain fs' where fs: "parse (drop (read_size a b) c') = (fs', r)" "length fs = Suc (length fs')"
        using assms(2) 3 Cons by (auto simp: Let_def split: prod.splits)
      then have "2 * length fs' \<le> length c'" using parse_count [OF fs(1)] by simp
      with fs(2) Cons show ?thesis by simp
    qed
  qed (use assms in auto)
qed

lemma parse_packed:
  "list_all (\<lambda>m. length m < 65536) msgs \<Longrightarrow>
   parse (concat (map (\<lambda>m. size_bytes (length m) @ m) msgs)) = (msgs, [])"
  by (induction msgs) (auto simp: parse_size)

section \<open>Numbers in network byte order\<close>

text \<open>The high byte first, in any number of bytes.\<close>

definition be_nat :: "byte list \<Rightarrow> nat" where
  "be_nat bs = foldl (\<lambda>n b. 256 * n + unat b) 0 bs"

lemma be_nat_less: "be_nat bs < 256 ^ length bs"
proof (induction bs rule: rev_induct)
  case (snoc b bs)
  have "unat b < 256" using unsigned_less [of b, where ?'a = nat] by simp
  with snoc show ?case by (simp add: be_nat_def)
qed (simp add: be_nat_def)

primrec be_bytes :: "nat \<Rightarrow> nat \<Rightarrow> byte list" where
  "be_bytes 0 n = []"
| "be_bytes (Suc h) n = be_bytes h (n div 256) @ [of_nat n]"

lemma length_be_bytes [simp]: "length (be_bytes h n) = h"
  by (induction h arbitrary: n) simp_all

lemma be_nat_bytes: "n < 256 ^ h \<Longrightarrow> be_nat (be_bytes h n) = n"
proof (induction h arbitrary: n)
  case (Suc h)
  then have "n div 256 < 256 ^ h" by (simp add: div_less_iff_less_mult mult.commute)
  with Suc.IH [of "n div 256"] show ?case by (simp add: be_nat_def unat_of_nat)
qed (simp add: be_nat_def)

end
