(* ===== verification/Netpack.thy ===== *)
theory Netpack
  imports Framing
begin

text \<open>
  The packet filter of \<^verbatim>\<open>lualib-src/lua-netpack.c\<close>: it cuts the byte streams of many sockets into
  packets, each preceded by its length in two bytes, and keeps the packets that are complete
  in a growable circular queue and the unfinished ones in a hash table of chains. The userdata
  that holds both is an argument that may be null; a buffer is the list of the bytes written
  to it. The pieces that \<^verbatim>\<open>push_more\<close> and \<^verbatim>\<open>filter_data_\<close> return to Lua are a datatype.
\<close>

section \<open>Data\<close>

definition QUEUESIZE :: nat where "QUEUESIZE = 1024"
definition HASHSIZE :: nat where "HASHSIZE = 4096"

record netpack =
  np_id :: int
  np_size :: int
  np_buffer :: "byte list"

record uncomplete =
  uc_pack :: netpack
  uc_read :: int
  uc_header :: int

record pqueue =
  pq_cap :: nat
  pq_head :: nat
  pq_tail :: nat
  pq_hash :: "nat \<Rightarrow> uncomplete list"
  pq_queue :: "netpack option list"

text \<open>What the filter returns to Lua, by the number of values: the queue alone, one packet, the
  sign that there are packets in the queue, and the other socket events.\<close>

datatype filter_result =
    Nothing
  | Data int "byte list" int
  | More
  | Error int "byte list"
  | Open int "byte list"
  | Close int
  | Warning int int

section \<open>The queue of packets\<close>

definition new_queue :: pqueue where
  "new_queue =
     \<lparr>pq_cap = QUEUESIZE, pq_head = 0, pq_tail = 0, pq_hash = (\<lambda>_. []), pq_queue = replicate QUEUESIZE None\<rparr>"

definition get_queue :: "pqueue option \<Rightarrow> pqueue" where
  "get_queue q = (case q of None \<Rightarrow> new_queue | Some q \<Rightarrow> q)"

definition np_expand_queue :: "pqueue \<Rightarrow> pqueue" where
  "np_expand_queue q =
     \<lparr>pq_cap = pq_cap q + QUEUESIZE, pq_head = 0, pq_tail = pq_cap q, pq_hash = pq_hash q,
      pq_queue = map (\<lambda>i. pq_queue q ! ((pq_head q + i) mod pq_cap q)) [0..<pq_cap q] @ replicate QUEUESIZE None\<rparr>"

definition push_data :: "netpack \<Rightarrow> pqueue \<Rightarrow> pqueue" where
  "push_data np q =
     (let tail = (if pq_cap q \<le> Suc (pq_tail q) then Suc (pq_tail q) - pq_cap q else Suc (pq_tail q));
          q1 = q\<lparr>pq_queue := (pq_queue q)[pq_tail q := Some np], pq_tail := tail\<rparr>
      in if pq_head q1 = pq_tail q1 then np_expand_queue q1 else q1)"

definition np_pop :: "pqueue \<Rightarrow> netpack option \<times> pqueue" where
  "np_pop q =
     (if pq_head q = pq_tail q then (None, q)
      else (pq_queue q ! pq_head q,
            q\<lparr>pq_head := if pq_cap q \<le> Suc (pq_head q) then 0 else Suc (pq_head q)\<rparr>))"

definition lpop :: "pqueue option \<Rightarrow> netpack option \<times> pqueue option" where
  "lpop q = (case q of None \<Rightarrow> (None, None) | Some q \<Rightarrow> (case np_pop q of (np, q1) \<Rightarrow> (np, Some q1)))"

text \<open>\<^verbatim>\<open>lclear\<close> frees every unfinished and every queued packet and empties both.\<close>

definition lclear :: "pqueue option \<Rightarrow> pqueue option" where
  "lclear q = map_option (\<lambda>q. q\<lparr>pq_hash := (\<lambda>_. []), pq_head := 0, pq_tail := 0\<rparr>) q"

section \<open>Unfinished packets\<close>

definition hash_fd :: "int \<Rightarrow> nat" where
  "hash_fd fd = nat ((fd div 2 ^ 24 + fd div 2 ^ 12 + fd) mod 2 ^ 32) mod HASHSIZE"

text \<open>Unlinking the first entry for \<open>fd\<close> from a chain.\<close>

fun unlink :: "int \<Rightarrow> uncomplete list \<Rightarrow> uncomplete option \<times> uncomplete list" where
  "unlink fd [] = (None, [])"
| "unlink fd (u # us) =
     (if np_id (uc_pack u) = fd then (Some u, us)
      else case unlink fd us of (r, us') \<Rightarrow> (r, u # us'))"

definition find_uncomplete :: "pqueue option \<Rightarrow> int \<Rightarrow> uncomplete option \<times> pqueue option" where
  "find_uncomplete q fd =
     (case q of
        None \<Rightarrow> (None, None)
      | Some q \<Rightarrow>
          (case unlink fd (pq_hash q (hash_fd fd)) of
             (r, us) \<Rightarrow> (r, Some (q\<lparr>pq_hash := (pq_hash q)(hash_fd fd := us)\<rparr>))))"

definition link_uncomplete :: "uncomplete \<Rightarrow> int \<Rightarrow> pqueue \<Rightarrow> pqueue" where
  "link_uncomplete u fd q = q\<lparr>pq_hash := (pq_hash q)(hash_fd fd := u # pq_hash q (hash_fd fd))\<rparr>"

text \<open>\<^verbatim>\<open>save_uncomplete\<close> followed by the assignments its callers make to the new entry.\<close>

definition save_uncomplete :: "pqueue option \<Rightarrow> int \<Rightarrow> int \<Rightarrow> int \<Rightarrow> int \<Rightarrow> byte list \<Rightarrow> pqueue" where
  "save_uncomplete q fd rd header sz buffer =
     link_uncomplete \<lparr>uc_pack = \<lparr>np_id = fd, np_size = sz, np_buffer = buffer\<rparr>, uc_read = rd, uc_header = header\<rparr>
       fd (get_queue q)"

definition close_uncomplete :: "pqueue option \<Rightarrow> int \<Rightarrow> pqueue option" where
  "close_uncomplete q fd = snd (find_uncomplete q fd)"

section \<open>Filtering\<close>

fun push_more :: "pqueue option \<Rightarrow> int \<Rightarrow> byte list \<Rightarrow> c_error + pqueue" where
  "push_more q fd [] = Inl Out_of_bounds"
| "push_more q fd [h] = Inr (save_uncomplete q fd (-1) (int (unat h)) 0 [])"
| "push_more q fd (a # b # buffer) =
     (let pack_size = read_size a b
      in if length buffer < pack_size
         then Inr (save_uncomplete q fd (int (length buffer)) 0 (int pack_size) buffer)
         else (let q1 = push_data \<lparr>np_id = fd, np_size = int pack_size, np_buffer = take pack_size buffer\<rparr> (get_queue q);
                   rest = drop pack_size buffer
               in if rest \<noteq> [] then push_more (Some q1) fd rest else Inr q1))"

text \<open>
  The first half of \<^verbatim>\<open>filter_data_\<close>, when the socket has an unfinished packet \<open>u\<close>: the size is
  completed first if only one byte of it had been read.
\<close>

definition complete_size :: "uncomplete \<Rightarrow> byte list \<Rightarrow> c_error + (uncomplete \<times> byte list)" where
  "complete_size u buffer =
     (if uc_read u < 0
      then rbind (c_assert (uc_read u = -1)) (\<lambda>_.
             case buffer of
               [] \<Rightarrow> Inl Out_of_bounds
             | b # rest \<Rightarrow>
                 Inr (u\<lparr>uc_pack := (uc_pack u)\<lparr>np_size := int (unat b) + uc_header u * 256, np_buffer := []\<rparr>, uc_read := 0\<rparr>, rest))
      else Inr (u, buffer))"

definition filter_data :: "pqueue option \<Rightarrow> int \<Rightarrow> byte list \<Rightarrow> c_error + (filter_result \<times> pqueue option)" where
  "filter_data q fd buffer =
     (case find_uncomplete q fd of
        (Some u, q1) \<Rightarrow>
          rbind (complete_size u buffer) (\<lambda>(u1, buffer1).
            let need = nat (np_size (uc_pack u1) - uc_read u1);
                filled = np_buffer (uc_pack u1) @ take need buffer1
            in if length buffer1 < need
               then Inr (Nothing,
                      Some (link_uncomplete
                        (u1\<lparr>uc_pack := (uc_pack u1)\<lparr>np_buffer := filled\<rparr>, uc_read := uc_read u1 + int (length buffer1)\<rparr>)
                        fd (get_queue q1)))
               else (let rest = drop need buffer1
                     in if rest = [] then Inr (Data fd filled (np_size (uc_pack u1)), q1)
                        else rbind (push_more (Some (push_data
                                     \<lparr>np_id = fd, np_size = np_size (uc_pack u1), np_buffer = filled\<rparr> (get_queue q1))) fd rest)
                               (\<lambda>q2. Inr (More, Some q2))))
      | (None, q1) \<Rightarrow>
          (case buffer of
             [] \<Rightarrow> Inl Out_of_bounds
           | [h] \<Rightarrow> Inr (Nothing, Some (save_uncomplete q1 fd (-1) (int (unat h)) 0 []))
           | a # b # buffer1 \<Rightarrow>
               let pack_size = read_size a b
               in if length buffer1 < pack_size
                  then Inr (Nothing, Some (save_uncomplete q1 fd (int (length buffer1)) 0 (int pack_size) buffer1))
                  else if length buffer1 = pack_size
                  then Inr (Data fd buffer1 (int pack_size), q1)
                  else rbind (push_more (Some (push_data
                               \<lparr>np_id = fd, np_size = int pack_size, np_buffer = take pack_size buffer1\<rparr> (get_queue q1)))
                               fd (drop pack_size buffer1))
                         (\<lambda>q2. Inr (More, Some q2))))"

text \<open>The socket messages of \<^verbatim>\<open>lfilter\<close>: the type, the id, the number \<^verbatim>\<open>ud\<close> and the bytes.\<close>

datatype socket_type = SOCKET_DATA | SOCKET_CONNECT | SOCKET_CLOSE | SOCKET_ACCEPT | SOCKET_ERROR | SOCKET_WARNING

definition lfilter ::
  "pqueue option \<Rightarrow> socket_type \<Rightarrow> int \<Rightarrow> int \<Rightarrow> byte list \<Rightarrow> c_error + (filter_result \<times> pqueue option)" where
  "lfilter q type sid ud buffer =
     (case type of
        SOCKET_DATA \<Rightarrow> filter_data q sid buffer
      | SOCKET_CONNECT \<Rightarrow> Inr (Nothing, q)
      | SOCKET_CLOSE \<Rightarrow> Inr (Close sid, close_uncomplete q sid)
      | SOCKET_ACCEPT \<Rightarrow> Inr (Open ud buffer, q)
      | SOCKET_ERROR \<Rightarrow> Inr (Error sid buffer, close_uncomplete q sid)
      | SOCKET_WARNING \<Rightarrow> Inr (Warning sid ud, q))"

definition lpack :: "byte list \<Rightarrow> lua_error + byte list" where
  "lpack msg =
     (if 0x10000 \<le> length msg then Inl (Lua_error ''Invalid size of data'')
      else Inr (of_nat (length msg div 256) # of_nat (length msg) # msg))"

section \<open>The packet queue is a FIFO queue\<close>

definition np_slots :: "pqueue \<Rightarrow> netpack option list" where
  "np_slots q = ring_contents (pq_queue q) (pq_head q) (ring_len (pq_head q) (pq_tail q) (pq_cap q))"

definition np_contents :: "pqueue \<Rightarrow> netpack list" where
  "np_contents q = map the (np_slots q)"

definition np_inv :: "pqueue \<Rightarrow> bool" where
  "np_inv q \<longleftrightarrow>
     1 < pq_cap q \<and> length (pq_queue q) = pq_cap q \<and> pq_head q < pq_cap q \<and> pq_tail q < pq_cap q
     \<and> None \<notin> set (np_slots q)"

lemma np_slots_new [simp]: "np_slots new_queue = []"
  by (simp add: np_slots_def new_queue_def ring_len_def)

lemma np_inv_new: "np_inv new_queue"
  by (simp add: np_inv_def) (simp add: new_queue_def QUEUESIZE_def)

lemma push_data_slots:
  assumes "np_inv q"
  shows "np_slots (push_data np q) = np_slots q @ [Some np]"
proof -
  let ?c = "pq_cap q" and ?h = "pq_head q" and ?t = "pq_tail q"
  let ?buf = "(pq_queue q)[?t := Some np]"
  have inv: "?h < ?c" "?t < ?c" "length (pq_queue q) = ?c" using assms by (auto simp: np_inv_def)
  have wrap: "(if ?c \<le> Suc ?t then Suc ?t - ?c else Suc ?t) = Suc ?t mod ?c"
    using inv(2) by (cases "Suc ?t = ?c") auto
  let ?n = "ring_len ?h ?t ?c"
  have put: "ring_contents ?buf ?h (Suc ?n) = np_slots q @ [Some np]"
    unfolding np_slots_def using inv ring_contents_put [of ?h "pq_queue q" ?t] by simp
  show ?thesis
  proof (cases "?h = Suc ?t mod ?c")
    case True
    have full: "Suc ?n = ?c" using inv True ring_len_full by metis
    have new: "map (\<lambda>i. ?buf ! ((?h + i) mod ?c)) [0..<?c] = np_slots q @ [Some np]"
      using put full inv by (simp add: ring_contents_def del: upt_Suc)
    have "length (np_slots q @ [Some np]) = ?c" using full by (simp add: np_slots_def)
    then show ?thesis
      using True wrap new ring_contents_linear [of ?c "np_slots q @ [Some np]" "replicate QUEUESIZE None"]
      by (subst np_slots_def) (simp add: push_data_def np_expand_queue_def Let_def ring_len_def del: upt_Suc)
  next
    case False
    then show ?thesis
      using put wrap inv ring_len_Suc_tail [of ?h ?c ?t]
      by (subst np_slots_def) (simp add: push_data_def Let_def)
  qed
qed

lemma push_data_inv: "np_inv q \<Longrightarrow> np_inv (push_data np q)"
proof -
  assume inv: "np_inv q"
  then have "None \<notin> set (np_slots (push_data np q))" using push_data_slots [of q np] by (simp add: np_inv_def)
  with inv show ?thesis by (auto simp: np_inv_def push_data_def np_expand_queue_def Let_def QUEUESIZE_def)
qed

lemma np_pop_slots:
  assumes "np_inv q" "np_slots q = x # xs"
  shows "fst (np_pop q) = x" "np_slots (snd (np_pop q)) = xs"
proof -
  let ?c = "pq_cap q" and ?h = "pq_head q" and ?t = "pq_tail q"
  have inv: "?h < ?c" "?t < ?c" "length (pq_queue q) = ?c" "1 < ?c" using assms by (auto simp: np_inv_def)
  have "np_slots q \<noteq> []" using assms(2) by simp
  then have "ring_len ?h ?t ?c \<noteq> 0" by (simp add: np_slots_def)
  then have ne: "?h \<noteq> ?t" using ring_len_0 [OF inv(1,2)] by simp
  have len: "ring_len ?h ?t ?c = Suc (ring_len (Suc ?h mod ?c) ?t ?c)" using ring_len_Suc_head inv ne by simp
  have "np_slots q = pq_queue q ! ?h # ring_contents (pq_queue q) (Suc ?h mod ?c) (ring_len (Suc ?h mod ?c) ?t ?c)"
    unfolding np_slots_def len using ring_contents_Cons [of ?h "pq_queue q"] inv by simp
  with assms(2) ne show "fst (np_pop q) = x" "np_slots (snd (np_pop q)) = xs"
    using wrap_mod [OF inv(1)] by (simp_all add: np_pop_def np_slots_def)
qed

interpretation npf: fifo push_data np_pop np_contents np_inv
proof (unfold_locales, goal_cases)
  case (1 q x) then show ?case by (rule push_data_inv)
next
  case (2 q x) then show ?case by (simp add: np_contents_def push_data_slots)
next
  case (3 q)
  show ?case
  proof (cases "np_slots q")
    case Nil
    then have "pq_head q = pq_tail q" using 3 ring_len_0 by (auto simp: np_slots_def np_inv_def)
    then show ?thesis using 3 by (simp add: np_pop_def)
  next
    case (Cons x xs)
    have "None \<notin> set (np_slots (snd (np_pop q)))" using np_pop_slots [OF 3 Cons] 3 Cons by (simp add: np_inv_def)
    with 3 show ?thesis by (auto simp: np_inv_def np_pop_def)
  qed
next
  case (4 q)
  then have "pq_head q = pq_tail q" using ring_len_0 by (auto simp: np_contents_def np_slots_def np_inv_def)
  then show ?case by (simp add: np_pop_def)
next
  case (5 q)
  then have "pq_head q = pq_tail q" using ring_len_0 by (auto simp: np_contents_def np_slots_def np_inv_def)
  with 5 show ?case by (simp add: np_pop_def)
next
  case (6 q x xs)
  then obtain y ys where c: "np_slots q = y # ys" "x = the y" by (auto simp: np_contents_def)
  with 6 have "None \<noteq> y" by (simp add: np_inv_def)
  then have "y \<noteq> None" by (rule not_sym)
  with c np_pop_slots [OF 6(1) c(1)] show ?case by auto
next
  case (7 q x xs)
  then obtain y ys where c: "np_slots q = y # ys" "xs = map the ys" by (auto simp: np_contents_def)
  with np_pop_slots [OF 7(1) c(1)] show ?case by (simp add: np_contents_def)
qed

section \<open>The table of unfinished packets\<close>

abbreviation uc_id :: "uncomplete \<Rightarrow> int" where "uc_id u \<equiv> np_id (uc_pack u)"

definition uc_lookup :: "pqueue \<Rightarrow> int \<Rightarrow> uncomplete option" where
  "uc_lookup q fd = find (\<lambda>u. uc_id u = fd) (pq_hash q (hash_fd fd))"

definition uc_delete :: "int \<Rightarrow> pqueue \<Rightarrow> pqueue" where
  "uc_delete fd q = the (snd (find_uncomplete (Some q) fd))"

definition hash_ok :: "pqueue \<Rightarrow> bool" where
  "hash_ok q \<longleftrightarrow>
     (\<forall>h. distinct (map uc_id (pq_hash q h)) \<and> (\<forall>u\<in>set (pq_hash q h). hash_fd (uc_id u) = h))"

lemma unlink_eq:
  "distinct (map uc_id us) \<Longrightarrow> unlink fd us = (find (\<lambda>u. uc_id u = fd) us, filter (\<lambda>u. uc_id u \<noteq> fd) us)"
proof (induction us)
  case (Cons u us)
  have "filter (\<lambda>v. uc_id v \<noteq> uc_id u) us = us" using Cons.prems by (simp add: filter_id_conv) (metis image_eqI)
  with Cons show ?case by auto
qed simp

lemma find_uncomplete_Some:
  "hash_ok q \<Longrightarrow> find_uncomplete (Some q) fd = (uc_lookup q fd, Some (uc_delete fd q))"
  by (simp add: find_uncomplete_def uc_lookup_def uc_delete_def unlink_eq hash_ok_def)

lemma uc_delete_eq:
  "hash_ok q \<Longrightarrow> uc_delete fd q = q\<lparr>pq_hash := (pq_hash q)(hash_fd fd := filter (\<lambda>u. uc_id u \<noteq> fd) (pq_hash q (hash_fd fd)))\<rparr>"
  by (simp add: uc_delete_def find_uncomplete_def unlink_eq hash_ok_def)

lemma find_filter_other: "fd' \<noteq> fd \<Longrightarrow> find (\<lambda>u. uc_id u = fd') (filter (\<lambda>u. uc_id u \<noteq> fd) us) = find (\<lambda>u. uc_id u = fd') us"
  by (induction us) auto

lemma find_filter_same: "find (\<lambda>u. uc_id u = fd) (filter (\<lambda>u. uc_id u \<noteq> fd) us) = None"
  by (induction us) auto

interpretation ucs: registry uc_lookup uc_delete hash_ok
proof (unfold_locales, goal_cases)
  case (1 q fd)
  then show ?case by (auto simp: uc_delete_eq hash_ok_def distinct_map intro: inj_on_subset)
next
  case (2 q fd fd')
  then show ?case
    by (auto simp: uc_delete_eq uc_lookup_def find_filter_same find_filter_other)
qed

lemma link_hash_ok:
  assumes "hash_ok q" "uc_lookup q (uc_id u) = None"
  shows "hash_ok (link_uncomplete u (uc_id u) q)"
    "uc_lookup (link_uncomplete u (uc_id u) q) fd' = (if fd' = uc_id u then Some u else uc_lookup q fd')"
proof -
  have "uc_id u \<notin> uc_id ` set (pq_hash q (hash_fd (uc_id u)))"
    using assms(2) by (auto simp: uc_lookup_def find_None_iff)
  then show "hash_ok (link_uncomplete u (uc_id u) q)"
    using assms(1) by (auto simp: hash_ok_def link_uncomplete_def)
  show "uc_lookup (link_uncomplete u (uc_id u) q) fd' = (if fd' = uc_id u then Some u else uc_lookup q fd')"
    by (auto simp: uc_lookup_def link_uncomplete_def)
qed

section \<open>The streams of the sockets\<close>

text \<open>The bytes of an unfinished packet seen so far.\<close>

definition pending :: "uncomplete \<Rightarrow> byte list" where
  "pending u =
     (if uc_read u < 0 then [word_of_int (uc_header u)]
      else size_bytes (nat (np_size (uc_pack u))) @ np_buffer (uc_pack u))"

definition uc_ok :: "uncomplete \<Rightarrow> bool" where
  "uc_ok u \<longleftrightarrow>
     uc_read u = -1 \<and> 0 \<le> uc_header u \<and> uc_header u < 256
     \<or> 0 \<le> uc_read u \<and> uc_read u < np_size (uc_pack u) \<and> np_size (uc_pack u) < 65536
       \<and> int (length (np_buffer (uc_pack u))) = uc_read u"

definition pq_inv :: "pqueue \<Rightarrow> bool" where
  "pq_inv q \<longleftrightarrow> np_inv q \<and> hash_ok q \<and> (\<forall>fd u. uc_lookup q fd = Some u \<longrightarrow> uc_ok u)"

definition pq_stream :: "pqueue \<Rightarrow> int \<Rightarrow> byte list" where
  "pq_stream q fd = (case uc_lookup q fd of None \<Rightarrow> [] | Some u \<Rightarrow> pending u)"

definition packet :: "int \<Rightarrow> byte list \<Rightarrow> netpack" where
  "packet fd bytes = \<lparr>np_id = fd, np_size = int (length bytes), np_buffer = bytes\<rparr>"

lemma push_data_hash [simp]: "pq_hash (push_data np q) = pq_hash q"
  by (simp add: push_data_def np_expand_queue_def Let_def)

lemma push_data_lookup [simp]: "uc_lookup (push_data np q) = uc_lookup q" "hash_ok (push_data np q) = hash_ok q"
  by (simp_all add: uc_lookup_def hash_ok_def fun_eq_iff)

lemma pq_inv_push: "pq_inv q \<Longrightarrow> pq_inv (push_data np q)"
  by (simp add: pq_inv_def push_data_inv)

lemma link_slots [simp]:
  "np_slots (link_uncomplete u fd q) = np_slots q" "np_inv (link_uncomplete u fd q) = np_inv q"
  "np_contents (link_uncomplete u fd q) = np_contents q"
  by (simp_all add: np_slots_def np_inv_def np_contents_def link_uncomplete_def)

lemma uc_delete_slots [simp]:
  "hash_ok q \<Longrightarrow> np_inv (uc_delete fd q) = np_inv q" "hash_ok q \<Longrightarrow> np_contents (uc_delete fd q) = np_contents q"
  by (simp_all add: uc_delete_eq np_slots_def np_inv_def np_contents_def)

lemma link_correct:
  assumes "pq_inv q" "uc_lookup q fd = None" "uc_id u = fd" "uc_ok u"
  shows "pq_inv (link_uncomplete u fd q)" "np_contents (link_uncomplete u fd q) = np_contents q"
    "pq_stream (link_uncomplete u fd q) fd' = (if fd' = fd then pending u else pq_stream q fd')"
proof -
  have l: "hash_ok (link_uncomplete u fd q)"
    "uc_lookup (link_uncomplete u fd q) fd' = (if fd' = fd then Some u else uc_lookup q fd')" for fd'
    using link_hash_ok [of q u] assms by (auto simp: pq_inv_def)
  show "pq_inv (link_uncomplete u fd q)" using l assms by (auto simp: pq_inv_def)
  show "pq_stream (link_uncomplete u fd q) fd' = (if fd' = fd then pending u else pq_stream q fd')"
    by (simp add: pq_stream_def l)
  show "np_contents (link_uncomplete u fd q) = np_contents q" by simp
qed

lemma delete_correct:
  assumes "pq_inv q"
  shows "pq_inv (uc_delete fd q)" "np_contents (uc_delete fd q) = np_contents q"
    "uc_lookup (uc_delete fd q) fd' = (if fd' = fd then None else uc_lookup q fd')"
  using assms ucs.invar_delete [of q fd] ucs.lookup_delete [of q fd] by (auto simp: pq_inv_def split: if_splits)

lemma save_header:
  assumes "pq_inv q" "uc_lookup q fd = None"
  shows "pq_inv (save_uncomplete (Some q) fd (-1) (int (unat h)) 0 [])"
    "np_contents (save_uncomplete (Some q) fd (-1) (int (unat h)) 0 []) = np_contents q"
    "pq_stream (save_uncomplete (Some q) fd (-1) (int (unat h)) 0 []) fd' = (if fd' = fd then [h] else pq_stream q fd')"
proof -
  let ?u = "\<lparr>uc_pack = \<lparr>np_id = fd, np_size = 0, np_buffer = []\<rparr>, uc_read = -1, uc_header = int (unat h)\<rparr>"
  have "uc_ok ?u" using unsigned_less [of h, where ?'a = int] by (simp add: uc_ok_def)
  moreover have "pending ?u = [h]" by (simp add: pending_def)
  ultimately show "pq_inv (save_uncomplete (Some q) fd (-1) (int (unat h)) 0 [])"
    "np_contents (save_uncomplete (Some q) fd (-1) (int (unat h)) 0 []) = np_contents q"
    "pq_stream (save_uncomplete (Some q) fd (-1) (int (unat h)) 0 []) fd' = (if fd' = fd then [h] else pq_stream q fd')"
    using link_correct [OF assms, of ?u] by (simp_all add: save_uncomplete_def get_queue_def)
qed

lemma save_body:
  assumes "pq_inv q" "uc_lookup q fd = None" "length buf < read_size a b"
  defines "s \<equiv> save_uncomplete (Some q) fd (int (length buf)) 0 (int (read_size a b)) buf"
  shows "pq_inv s" "np_contents s = np_contents q"
    "pq_stream s fd' = (if fd' = fd then a # b # buf else pq_stream q fd')"
proof -
  let ?u = "\<lparr>uc_pack = \<lparr>np_id = fd, np_size = int (read_size a b), np_buffer = buf\<rparr>, uc_read = int (length buf), uc_header = 0\<rparr>"
  have "uc_ok ?u" using assms(3) read_size_less [of a b] by (simp add: uc_ok_def)
  moreover have "pending ?u = a # b # buf" by (simp add: pending_def size_bytes_read)
  ultimately show "pq_inv s" "np_contents s = np_contents q"
    "pq_stream s fd' = (if fd' = fd then a # b # buf else pq_stream q fd')"
    using link_correct [OF assms(1,2), of ?u] by (simp_all add: s_def save_uncomplete_def get_queue_def)
qed

text \<open>\<^verbatim>\<open>push_more\<close> queues the complete packets of its buffer and saves the rest.\<close>

lemma push_more_correct:
  assumes "pq_inv q" "uc_lookup q fd = None" "buf \<noteq> []" "parse buf = (fs, r)"
  shows "\<exists>q'. push_more (Some q) fd buf = Inr q' \<and> pq_inv q' \<and> np_contents q' = np_contents q @ map (packet fd) fs
    \<and> (\<forall>fd'. pq_stream q' fd' = (if fd' = fd then r else pq_stream q fd'))"
  using assms
proof (induction buf arbitrary: q fs r rule: parse.induct)
  case (1 a b rest)
  let ?n = "read_size a b"
  have noq: "pq_stream q fd = []" using 1(3) by (simp add: pq_stream_def)
  show ?case
  proof (cases "length rest < ?n")
    case True
    then show ?thesis using save_body [OF 1(2,3) True] 1(5) by auto
  next
    case False
    let ?q = "push_data (packet fd (take ?n rest)) q"
    have p: "\<lparr>np_id = fd, np_size = int ?n, np_buffer = take ?n rest\<rparr> = packet fd (take ?n rest)"
      using False by (simp add: packet_def)
    have q: "pq_inv ?q" "uc_lookup ?q fd = None" "pq_stream ?q = pq_stream q"
      "np_contents ?q = np_contents q @ [packet fd (take ?n rest)]"
      using 1(2,3) npf.contents_push [of q] by (auto simp: pq_inv_push pq_stream_def fun_eq_iff pq_inv_def push_data_inv)
    obtain fs' where fs: "parse (drop ?n rest) = (fs', r)" "fs = take ?n rest # fs'"
      using 1(5) False by (auto simp: Let_def split: prod.splits)
    have pm: "push_more (Some q) fd (a # b # rest)
        = (if drop ?n rest \<noteq> [] then push_more (Some ?q) fd (drop ?n rest) else Inr ?q)"
      using False unfolding push_more.simps Let_def p get_queue_def by simp
    show ?thesis
    proof (cases "drop ?n rest = []")
      case True
      then have "fs' = []" "r = []" using fs(1) by simp_all
      with True fs(2) q noq show ?thesis unfolding pm by (simp del: drop_eq_Nil)
    next
      case ne: False
      from 1(1) [OF refl False q(1,2) ne fs(1)] ne fs(2) q show ?thesis
        unfolding pm by (auto simp del: drop_eq_Nil)
    qed
  qed
next
  case (3 h)
  then show ?case using save_header [of q fd h] by auto
qed simp

section \<open>The filter implements the framing\<close>

fun opt_inv :: "pqueue option \<Rightarrow> bool" where
  "opt_inv None = True"
| "opt_inv (Some q) = pq_inv q"

fun opt_contents :: "pqueue option \<Rightarrow> netpack list" where
  "opt_contents None = []"
| "opt_contents (Some q) = np_contents q"

fun opt_stream :: "pqueue option \<Rightarrow> int \<Rightarrow> byte list" where
  "opt_stream None fd = []"
| "opt_stream (Some q) fd = pq_stream q fd"

text \<open>The packets a result hands over: directly, or through the queue.\<close>

definition delivers :: "filter_result \<Rightarrow> int \<Rightarrow> byte list list \<Rightarrow> netpack list \<Rightarrow> netpack list \<Rightarrow> bool" where
  "delivers res fd fs before after \<longleftrightarrow>
     (case res of
        Nothing \<Rightarrow> fs = [] \<and> after = before
      | Data i bytes sz \<Rightarrow> i = fd \<and> fs = [bytes] \<and> sz = int (length bytes) \<and> after = before
      | More \<Rightarrow> after = before @ map (packet fd) fs
      | _ \<Rightarrow> False)"

lemma new_queue_inv: "pq_inv new_queue" "np_contents new_queue = []" "pq_stream new_queue fd = []" "uc_lookup new_queue fd = None"
proof -
  have l: "uc_lookup new_queue = (\<lambda>_. None)" by (simp add: uc_lookup_def new_queue_def fun_eq_iff)
  show "pq_inv new_queue" "np_contents new_queue = []" "pq_stream new_queue fd = []" "uc_lookup new_queue fd = None"
    by (simp_all add: pq_inv_def np_inv_new l np_contents_def pq_stream_def) (simp add: hash_ok_def new_queue_def)
qed

lemma get_queue_opt:
  "opt_inv q \<Longrightarrow> pq_inv (get_queue q)" "np_contents (get_queue q) = opt_contents q" "pq_stream (get_queue q) fd = opt_stream q fd"
  by (cases q; simp add: get_queue_def new_queue_inv)+

lemma save_get: "save_uncomplete q fd = save_uncomplete (Some (get_queue q)) fd"
  by (simp add: save_uncomplete_def get_queue_def fun_eq_iff)

text \<open>The case of a socket with nothing unfinished.\<close>

lemma filter_fresh:
  assumes "find_uncomplete q fd = (None, q1)" "opt_inv q1" "uc_lookup (get_queue q1) fd = None" "buf \<noteq> []" "parse buf = (fs, r)"
  shows "\<exists>res q'. filter_data q fd buf = Inr (res, q') \<and> opt_inv q' \<and> delivers res fd fs (opt_contents q1) (opt_contents q')
    \<and> (\<forall>fd'. opt_stream q' fd' = (if fd' = fd then r else opt_stream q1 fd'))"
proof -
  note g = get_queue_opt [of q1] and inv = get_queue_opt(1) [OF assms(2)]
  have none: "opt_stream q1 fd = []" using assms(3) g(3) [of fd] by (simp add: pq_stream_def)
  consider h where "buf = [h]" | a b rest where "buf = a # b # rest" using assms(4) by (cases buf rule: parse.cases) auto
  then show ?thesis
  proof cases
    case 1
    then show ?thesis
      using assms(1,5) save_header [OF inv assms(3), of h] g
      by (auto simp: filter_data_def save_get [of q1] delivers_def)
  next
    case 2
    let ?n = "read_size a b"
    consider "length rest < ?n" | "length rest = ?n" | "?n < length rest" by linarith
    then show ?thesis
    proof cases
      case lt: 1
      then show ?thesis
        using 2 assms(1,5) save_body [OF inv assms(3) lt] g
        by (auto simp: filter_data_def save_get [of q1] delivers_def Let_def)
    next
      case eq: 2
      then show ?thesis
        using 2 assms(1,2,5) none by (auto simp: filter_data_def delivers_def Let_def)
    next
      case gt: 3
      let ?p = "packet fd (take ?n rest)" let ?q = "push_data ?p (get_queue q1)"
      have p: "\<lparr>np_id = fd, np_size = int ?n, np_buffer = take ?n rest\<rparr> = ?p" using gt by (simp add: packet_def)
      obtain fs' where fs: "parse (drop ?n rest) = (fs', r)" "fs = take ?n rest # fs'"
        using assms(5) 2 gt by (auto simp: Let_def split: prod.splits)
      have ne: "drop ?n rest \<noteq> []" using gt by simp
      have q: "pq_inv ?q" "uc_lookup ?q fd = None" using inv assms(3) by (simp_all add: pq_inv_push)
      have "np_contents ?q = opt_contents q1 @ [?p]" using npf.contents_push [of "get_queue q1" ?p] inv g by (simp add: pq_inv_def)
      moreover have "pq_stream ?q fd' = opt_stream q1 fd'" for fd' using g(3) [of fd'] by (simp add: pq_stream_def)
      moreover obtain q' where "push_more (Some ?q) fd (drop ?n rest) = Inr q'" "pq_inv q'"
        "np_contents q' = np_contents ?q @ map (packet fd) fs'" "\<forall>fd'. pq_stream q' fd' = (if fd' = fd then r else pq_stream ?q fd')"
        using push_more_correct [OF q ne fs(1)] by blast
      ultimately show ?thesis
        using assms(1) 2 gt fs(2) by (auto simp: filter_data_def delivers_def Let_def p)
    qed
  qed
qed

text \<open>The case of a socket with an unfinished packet whose size is known.\<close>

definition fill :: "pqueue option \<Rightarrow> int \<Rightarrow> uncomplete \<Rightarrow> byte list \<Rightarrow> c_error + (filter_result \<times> pqueue option)" where
  "fill q1 fd u1 buffer1 =
     (let need = nat (np_size (uc_pack u1) - uc_read u1);
          filled = np_buffer (uc_pack u1) @ take need buffer1
      in if length buffer1 < need
         then Inr (Nothing,
                Some (link_uncomplete
                  (u1\<lparr>uc_pack := (uc_pack u1)\<lparr>np_buffer := filled\<rparr>, uc_read := uc_read u1 + int (length buffer1)\<rparr>)
                  fd (get_queue q1)))
         else (let rest = drop need buffer1
               in if rest = [] then Inr (Data fd filled (np_size (uc_pack u1)), q1)
                  else rbind (push_more (Some (push_data
                               \<lparr>np_id = fd, np_size = np_size (uc_pack u1), np_buffer = filled\<rparr> (get_queue q1))) fd rest)
                         (\<lambda>q2. Inr (More, Some q2))))"

lemma filter_data_unfold:
  "find_uncomplete q fd = (Some u, q1) \<Longrightarrow>
     filter_data q fd buf = rbind (complete_size u buf) (\<lambda>(u1, buf1). fill q1 fd u1 buf1)"
  by (simp add: filter_data_def fill_def)

lemma fill_correct:
  assumes q1: "pq_inv q1" "uc_lookup q1 fd = None" and id: "uc_id u = fd"
    and u: "0 \<le> uc_read u" "uc_read u \<le> np_size (uc_pack u)" "np_size (uc_pack u) < 65536" "int (length (np_buffer (uc_pack u))) = uc_read u"
    and p: "parse (pending u @ buf) = (fs, r)"
  shows "\<exists>res q'. fill (Some q1) fd u buf = Inr (res, q') \<and> opt_inv q' \<and> delivers res fd fs (np_contents q1) (opt_contents q')
    \<and> (\<forall>fd'. opt_stream q' fd' = (if fd' = fd then r else pq_stream q1 fd'))"
proof -
  let ?n = "nat (np_size (uc_pack u))" and ?need = "nat (np_size (uc_pack u) - uc_read u)" and ?b = "np_buffer (uc_pack u)"
  let ?filled = "?b @ take ?need buf"
  have n: "?n < 65536" "int ?n = np_size (uc_pack u)" "?n = length ?b + ?need" using u by auto
  have pend: "pending u = size_bytes ?n @ ?b" using u(1) by (simp add: pending_def)
  have none: "pq_stream q1 fd = []" using q1(2) by (simp add: pq_stream_def)
  show ?thesis
  proof (cases "length buf < ?need")
    case True
    let ?u = "u\<lparr>uc_pack := (uc_pack u)\<lparr>np_buffer := ?filled\<rparr>, uc_read := uc_read u + int (length buf)\<rparr>"
    have "uc_ok ?u" using u n True by (auto simp: uc_ok_def)
    moreover have "pending ?u = pending u @ buf" using True u(1) by (simp add: pending_def)
    moreover have "fs = []" "r = pending u @ buf"
      using p parse_size [OF n(1), of "?b @ buf"] True n(3) by (simp_all add: pend)
    ultimately show ?thesis
      using True link_correct [OF q1, of ?u] id by (auto simp: fill_def get_queue_def delivers_def)
  next
    case False
    have len: "length ?filled = ?n" using False n by simp
    have split: "parse (pending u @ buf) = (case parse (drop ?need buf) of (f, r) \<Rightarrow> (?filled # f, r))"
      using parse_size [OF n(1), of "?b @ buf"] False n(3) by (simp add: pend)
    then obtain fs' where fs: "parse (drop ?need buf) = (fs', r)" "fs = ?filled # fs'" using p by (auto split: prod.splits)
    show ?thesis
    proof (cases "drop ?need buf = []")
      case True
      then have "fs' = []" "r = []" using fs(1) by simp_all
      then show ?thesis
        using True False fs(2) q1(1) none len n(2) by (simp add: fill_def Let_def delivers_def del: drop_eq_Nil)
    next
      case ne: False
      let ?p = "packet fd ?filled" let ?q = "push_data ?p q1"
      have pk: "\<lparr>np_id = fd, np_size = np_size (uc_pack u), np_buffer = ?filled\<rparr> = ?p" using len n(2) by (simp add: packet_def)
      have q: "pq_inv ?q" "uc_lookup ?q fd = None" using q1 by (simp_all add: pq_inv_push)
      have "np_contents ?q = np_contents q1 @ [?p]" using npf.contents_push [of q1 ?p] q1 by (simp add: pq_inv_def)
      moreover have "pq_stream ?q fd' = pq_stream q1 fd'" for fd' by (simp add: pq_stream_def)
      moreover obtain q' where "push_more (Some ?q) fd (drop ?need buf) = Inr q'" "pq_inv q'"
        "np_contents q' = np_contents ?q @ map (packet fd) fs'" "\<forall>fd'. pq_stream q' fd' = (if fd' = fd then r else pq_stream ?q fd')"
        using push_more_correct [OF q ne fs(1)] by blast
      ultimately show ?thesis
        using False ne fs(2) by (simp add: fill_def Let_def delivers_def pk get_queue_def del: drop_eq_Nil)
    qed
  qed
qed

lemma uc_lookup_id: "uc_lookup q fd = Some u \<Longrightarrow> uc_id u = fd"
  by (auto simp: uc_lookup_def find_Some_iff)

text \<open>Completing the size of a packet of which one byte had been read.\<close>

lemma complete_size_correct:
  assumes "uc_ok u" "buf \<noteq> []"
  shows "\<exists>u1 buf1. complete_size u buf = Inr (u1, buf1) \<and> uc_id u1 = uc_id u \<and> pending u1 @ buf1 = pending u @ buf
    \<and> 0 \<le> uc_read u1 \<and> uc_read u1 \<le> np_size (uc_pack u1) \<and> np_size (uc_pack u1) < 65536
    \<and> int (length (np_buffer (uc_pack u1))) = uc_read u1"
proof (cases "uc_read u < 0")
  case True
  obtain b rest where buf: "buf = b # rest" using assms(2) by (cases buf) auto
  have h: "uc_read u = -1" "0 \<le> uc_header u" "uc_header u < 256" using assms(1) True by (auto simp: uc_ok_def)
  let ?a = "word_of_int (uc_header u) :: byte"
  let ?u1 = "u\<lparr>uc_pack := (uc_pack u)\<lparr>np_size := int (unat b) + uc_header u * 256, np_buffer := []\<rparr>, uc_read := 0\<rparr>"
  have "int (unat ?a) = uc_header u" using h by (simp add: uint_word_of_int)
  then have sz: "int (unat b) + uc_header u * 256 = int (read_size ?a b)" by (simp add: read_size_def)
  then have "pending ?u1 @ rest = pending u @ buf" using True by (simp add: pending_def size_bytes_read buf)
  moreover have "complete_size u buf = Inr (?u1, rest)" using True h by (simp add: complete_size_def buf)
  ultimately show ?thesis using sz read_size_less [of ?a b] by (intro exI [of _ ?u1] exI [of _ rest]) simp
next
  case False
  then show ?thesis using assms(1) by (auto simp: complete_size_def uc_ok_def)
qed

lemma filter_data_correct:
  assumes "opt_inv q" "buf \<noteq> []" "parse (opt_stream q fd @ buf) = (fs, r)"
  shows "\<exists>res q'. filter_data q fd buf = Inr (res, q') \<and> opt_inv q' \<and> delivers res fd fs (opt_contents q) (opt_contents q')
    \<and> (\<forall>fd'. opt_stream q' fd' = (if fd' = fd then r else opt_stream q fd'))"
proof (cases q)
  case None
  then have "find_uncomplete q fd = (None, None)" by (simp add: find_uncomplete_def)
  from filter_fresh [OF this, of buf fs r] assms None show ?thesis by (auto simp: get_queue_def new_queue_inv)
next
  case (Some p)
  then have inv: "pq_inv p" "hash_ok p" using assms(1) by (simp_all add: pq_inv_def)
  note d = delete_correct [OF inv(1), of fd]
  have f: "find_uncomplete q fd = (uc_lookup p fd, Some (uc_delete fd p))" using find_uncomplete_Some [OF inv(2)] Some by simp
  have str: "pq_stream (uc_delete fd p) fd' = (if fd' = fd then [] else pq_stream p fd')" for fd' by (simp add: pq_stream_def d(3))
  show ?thesis
  proof (cases "uc_lookup p fd")
    case None
    then have "opt_stream q fd = []" by (simp add: Some pq_stream_def)
    then show ?thesis
      using filter_fresh [of q fd "Some (uc_delete fd p)" buf fs r] f None d assms(2,3) str Some
      by (auto simp: get_queue_def)
  next
    case (Some u)
    have "uc_ok u" using inv(1) Some by (auto simp: pq_inv_def)
    then obtain u1 buf1 where c: "complete_size u buf = Inr (u1, buf1)" "uc_id u1 = fd" "pending u1 @ buf1 = pending u @ buf"
      "0 \<le> uc_read u1" "uc_read u1 \<le> np_size (uc_pack u1)" "np_size (uc_pack u1) < 65536"
      "int (length (np_buffer (uc_pack u1))) = uc_read u1"
      using complete_size_correct [OF _ assms(2), of u] uc_lookup_id [OF Some] by auto
    have "parse (pending u1 @ buf1) = (fs, r)" using assms(3) Some c(3) \<open>q = option.Some p\<close> by (simp add: pq_stream_def)
    from fill_correct [OF d(1) _ c(2,4-7) this] d(2,3) f Some c(1) str \<open>q = option.Some p\<close> show ?thesis
      by (auto simp: filter_data_unfold)
  qed
qed

text \<open>
  A service that reads the chunks of one socket: it takes the packet a call returns, and pops
  the queue until it is empty when it is told that there are more.
\<close>

fun pop_all :: "nat \<Rightarrow> pqueue option \<Rightarrow> byte list list \<times> pqueue option" where
  "pop_all n None = ([], None)"
| "pop_all n (Some q) = (case drain np_pop n q of (ps, q') \<Rightarrow> (map np_buffer ps, Some q'))"

fun feed :: "pqueue option \<Rightarrow> int \<Rightarrow> byte list list \<Rightarrow> c_error + (byte list list \<times> pqueue option)" where
  "feed q fd [] = Inr ([], q)"
| "feed q fd (c # cs) =
     rbind (lfilter q SOCKET_DATA fd (int (length c)) c) (\<lambda>(res, q1).
       let (ps, q2) = (case res of
                         Data i bytes sz \<Rightarrow> ([bytes], q1)
                       | More \<Rightarrow> pop_all (Suc (length c)) q1
                       | _ \<Rightarrow> ([], q1))
       in rbind (feed q2 fd cs) (\<lambda>(qs, q3). Inr (ps @ qs, q3)))"

lemma np_pop_lookup: "pq_hash (snd (np_pop q)) = pq_hash q"
  by (simp add: np_pop_def)

lemma drain_hash: "pq_hash (snd (drain np_pop n q)) = pq_hash q"
proof (induction n arbitrary: q)
  case (Suc n)
  show ?case using Suc [of "snd (np_pop q)"] np_pop_lookup [of q] by (auto split: prod.splits option.splits)
qed simp

lemma pop_all_correct:
  assumes "opt_inv q" "length (opt_contents q) < n"
  shows "\<exists>q'. pop_all n q = (map np_buffer (opt_contents q), q') \<and> opt_inv q' \<and> opt_contents q' = [] \<and> opt_stream q' = opt_stream q"
proof (cases q)
  case None
  then show ?thesis by simp
next
  case (Some p)
  then have inv: "np_inv p" "hash_ok p" "\<forall>fd u. uc_lookup p fd = option.Some u \<longrightarrow> uc_ok u" using assms(1) by (simp_all add: pq_inv_def)
  obtain ps p' where d: "drain np_pop n p = (ps, p')" by fastforce
  have "length (np_contents p) < n" using assms(2) Some by simp
  note f = npf.drain_contents [OF inv(1) this] npf.drain_empties [OF inv(1) this] npf.drain_invar [OF inv(1), of n]
  have h: "pq_hash p' = pq_hash p" using drain_hash [of n p] d by simp
  then have l: "uc_lookup p' = uc_lookup p" by (simp add: uc_lookup_def fun_eq_iff)
  have "pq_inv p'" using f(3) inv l h by (simp add: pq_inv_def d hash_ok_def)
  moreover have "pq_stream p' = pq_stream p" by (simp add: pq_stream_def l fun_eq_iff)
  moreover have "opt_stream (option.Some p') = opt_stream (option.Some p)"
    using \<open>pq_stream p' = pq_stream p\<close> by (simp add: fun_eq_iff)
  ultimately show ?thesis using f(1,2) Some d by simp
qed

lemma map_np_buffer_packet [simp]: "map np_buffer (map (packet fd) fs) = fs"
  by (simp add: packet_def comp_def)

lemma feed_correct:
  assumes "opt_inv q" "opt_contents q = []" "parse (opt_stream q fd) = ([], opt_stream q fd)" "[] \<notin> set cs"
    and "parse (opt_stream q fd @ concat cs) = (fs, r)"
  shows "\<exists>q'. feed q fd cs = Inr (fs, q') \<and> opt_stream q' fd = r \<and> opt_inv q' \<and> opt_contents q' = []"
  using assms
proof (induction cs arbitrary: q fs)
  case Nil
  then show ?case by simp
next
  case (Cons c cs)
  obtain f1 r1 where p1: "parse (opt_stream q fd @ c) = (f1, r1)" by fastforce
  have c: "c \<noteq> []" using Cons.prems(4) by auto
  obtain res q1 where f: "filter_data q fd c = Inr (res, q1)" "opt_inv q1" "delivers res fd f1 [] (opt_contents q1)"
    "opt_stream q1 fd = r1"
    using filter_data_correct [OF Cons.prems(1) c p1] Cons.prems(2) by auto
  obtain f2 where p2: "parse (r1 @ concat cs) = (f2, r)" "fs = f1 @ f2"
    using Cons.prems(5) parse_append [of "opt_stream q fd @ c" "concat cs"] p1 by (auto split: prod.splits)
  let ?s = "case res of Data i bytes sz \<Rightarrow> ([bytes], q1) | More \<Rightarrow> pop_all (Suc (length c)) q1 | _ \<Rightarrow> ([], q1)"
  have "length f1 < Suc (length c)" using parse_new_frames [OF Cons.prems(3) p1] by simp
  then obtain q2 where q2: "?s = (f1, q2)" "opt_inv q2" "opt_contents q2 = []" "opt_stream q2 fd = r1"
    using f(2-4) pop_all_correct [OF f(2), of "Suc (length c)"]
    by (cases res) (auto simp: delivers_def simp del: map_map)
  have "parse (opt_stream q2 fd) = ([], opt_stream q2 fd)" using parse_rest [OF p1] q2(4) by simp
  with Cons.IH [OF q2(2,3) this, of f2] Cons.prems(4) p2(1) q2(4) obtain q3 where
    "feed q2 fd cs = Inr (f2, q3)" "opt_stream q3 fd = r" "opt_inv q3" "opt_contents q3 = []" by auto
  then show ?case using f(1) q2(1) p2(2) by (simp add: lfilter_def Let_def)
qed

section \<open>Properties\<close>

text \<open>
  What one call of the filter does. Whatever state the queue and the table are in, the bytes
  of a chunk continue the socket's stream where the last chunk left off: the packets that are
  complete now are handed over, once and in order, directly or through the queue; the bytes of
  an unfinished one are kept; and the streams of the other sockets are left alone.
\<close>

theorem filter_data_frames:
  assumes "opt_inv q" "buf \<noteq> []" "parse (opt_stream q fd @ buf) = (fs, r)"
  shows "\<exists>res q'. lfilter q SOCKET_DATA fd ud buf = Inr (res, q') \<and> opt_inv q'
    \<and> delivers res fd fs (opt_contents q) (opt_contents q')
    \<and> (\<forall>fd'. opt_stream q' fd' = (if fd' = fd then r else opt_stream q fd'))"
  using filter_data_correct [OF assms] by (simp add: lfilter_def)

theorem filter_data_frames_witness:
  "\<exists>res q'. lfilter None SOCKET_DATA 7 5 [0, 2, 10, 11, 0] = Inr (res, q')
     \<and> delivers res 7 [[10, 11]] [] (opt_contents q') \<and> opt_stream q' 7 = [0]"
proof -
  have "parse (opt_stream None 7 @ [0, 2, 10, 11, 0]) = ([[10, 11]], [0])" by (simp add: read_size_def)
  from filter_data_frames [OF _ _ this, of 5] show ?thesis by auto
qed

text \<open>
  C14: packets survive the network. When messages of less than 64 KiB are packed by \<^verbatim>\<open>lpack\<close> and their
  bytes arrive in chunks cut anywhere, feeding the chunks to the filter returns exactly the
  messages, in order, and leaves nothing behind.
\<close>

theorem netpack_roundtrip:
  assumes "list_all (\<lambda>m. length m < 0x10000) msgs" "[] \<notin> set chunks"
    and "concat chunks = concat (map (\<lambda>m. projr (lpack m)) msgs)"
  shows "\<exists>q'. feed None fd chunks = Inr (msgs, q') \<and> opt_stream q' fd = [] \<and> opt_contents q' = []"
proof -
  have eq: "map (\<lambda>m. projr (lpack m)) msgs = map (\<lambda>m. size_bytes (length m) @ m) msgs"
    using assms(1) by (auto simp: lpack_def size_bytes_def list_all_iff)
  have "concat chunks = concat (map (\<lambda>m. size_bytes (length m) @ m) msgs)"
    using assms(3) by (simp only: eq)
  then have "parse (opt_stream None fd @ concat chunks) = (msgs, [])"
    using parse_packed [of msgs] assms(1) by simp
  from feed_correct [OF _ _ _ assms(2) this] show ?thesis by auto
qed

theorem netpack_roundtrip_witness:
  "\<exists>q'. feed None 7 [[0], [2, 10], [11, 0, 1, 9]] = Inr ([[10, 11], [9]], q') \<and> opt_stream q' 7 = []"
proof -
  let ?chunks = "[[0], [2, 10], [11, 0, 1, 9]] :: byte list list"
  have "concat ?chunks = concat (map (\<lambda>m. projr (lpack m)) [[10, 11], [9]])" by (simp add: lpack_def)
  moreover have "list_all (\<lambda>m. length m < 0x10000) [[10, 11], [9 :: byte]]" by simp
  moreover have "[] \<notin> set ?chunks" by simp
  ultimately show ?thesis using netpack_roundtrip [of "[[10, 11], [9]]" ?chunks 7] by (auto simp del: feed.simps)
qed

end
