(* ===== verification/Service.thy ===== *)
theory Service
  imports Cstdlib
begin

text \<open>
  What the services written in C share: the calls they make to the framework, which their
  handlers return as a list in the order they are made, and the messages of the socket layer.
  What a call does is the business of the component it goes to: theory \<open>Server\<close> for sends and
  errors.
\<close>

section \<open>Calls\<close>

datatype svc_call =
    Send (sd_source: u32) (sd_destination: u32) (sd_type: nat) (sd_session: int) (sd_data: "byte list option") (sd_sz: nat)
  | Error_log cstring
  | Command cstring "cstring option"
  | Socket_start int
  | Socket_close int
  | Socket_shutdown int
  | Socket_nodelay int
  | Socket_send int "byte list"
  | Socket_listen cstring int int
  | Callback
  | Harbor_start

abbreviation TAG_DONTCOPY :: "nat \<Rightarrow> nat" where
  "TAG_DONTCOPY type \<equiv> type OR PTYPE_TAG_DONTCOPY"

section \<open>Socket messages\<close>

definition SKYNET_SOCKET_TYPE_DATA :: int where "SKYNET_SOCKET_TYPE_DATA = 1"
definition SKYNET_SOCKET_TYPE_CONNECT :: int where "SKYNET_SOCKET_TYPE_CONNECT = 2"
definition SKYNET_SOCKET_TYPE_CLOSE :: int where "SKYNET_SOCKET_TYPE_CLOSE = 3"
definition SKYNET_SOCKET_TYPE_ACCEPT :: int where "SKYNET_SOCKET_TYPE_ACCEPT = 4"
definition SKYNET_SOCKET_TYPE_ERROR :: int where "SKYNET_SOCKET_TYPE_ERROR = 5"
definition SKYNET_SOCKET_TYPE_WARNING :: int where "SKYNET_SOCKET_TYPE_WARNING = 7"

lemmas socket_types = SKYNET_SOCKET_TYPE_DATA_def SKYNET_SOCKET_TYPE_CONNECT_def SKYNET_SOCKET_TYPE_CLOSE_def
  SKYNET_SOCKET_TYPE_ACCEPT_def SKYNET_SOCKET_TYPE_ERROR_def SKYNET_SOCKET_TYPE_WARNING_def

text \<open>The payload of a message: bytes, or a message of the socket layer.\<close>

datatype handler_msg = Msg_bytes "byte list option" | Msg_socket skynet_socket_message

text \<open>Data that arrived on a socket.\<close>

definition data_message :: "int \<Rightarrow> byte list \<Rightarrow> skynet_socket_message" where
  "data_message fd data =
     \<lparr>ss_type = SKYNET_SOCKET_TYPE_DATA, ss_id = fd, ss_ud = int (length data), ss_buffer = data, ss_tail = []\<rparr>"

end
