(* ===== verification/Package.thy ===== *)
theory Package
  imports Framing Service
begin

text \<open>
  The service behind one client connection, \<^verbatim>\<open>src/service/package.c\<close>: it cuts the bytes of the
  socket into packets and answers the requests of other services with them, one packet for
  each request, first come first served. Both the requests that wait for a packet and the
  packets that wait for a request are kept in growable circular queues.
\<close>

section \<open>Queues\<close>

text \<open>\<^verbatim>\<open>struct queue\<close>, whose slots hold elements of one type instead of \<^verbatim>\<open>sz\<close> bytes each.\<close>

record 'a queue =
  q_cap :: nat
  q_head :: nat
  q_tail :: nat
  q_buffer :: "'a option list"

definition queue_init :: "'a queue" where
  "queue_init = \<lparr>q_cap = 4, q_head = 0, q_tail = 0, q_buffer = replicate 4 None\<rparr>"

definition queue_empty :: "'a queue \<Rightarrow> bool" where
  "queue_empty q \<longleftrightarrow> q_head q = q_tail q"

definition queue_pop :: "'a queue \<Rightarrow> 'a option \<times> 'a queue" where
  "queue_pop q =
     (if q_head q = q_tail q then (None, q)
      else (q_buffer q ! q_head q, q\<lparr>q_head := if q_cap q \<le> Suc (q_head q) then 0 else Suc (q_head q)\<rparr>))"

primrec copy_ring :: "nat \<Rightarrow> 'a list \<Rightarrow> nat \<Rightarrow> nat \<Rightarrow> 'a list" where
  "copy_ring 0 buf cap head = []"
| "copy_ring (Suc n) buf cap head =
     buf ! head # copy_ring n buf cap (if cap \<le> Suc head then 0 else Suc head)"

definition queue_push :: "'a \<Rightarrow> 'a queue \<Rightarrow> 'a queue" where
  "queue_push v q =
     (let tail = (if q_cap q \<le> Suc (q_tail q) then 0 else Suc (q_tail q))
      in if q_head q = tail
         then (let tmp = copy_ring (q_cap q) (q_buffer q) (q_cap q) (q_head q) @ replicate (q_cap q) None
               in \<lparr>q_cap = q_cap q * 2, q_head = 0, q_tail = q_cap q, q_buffer = tmp[q_cap q - 1 := Some v]\<rparr>)
         else q\<lparr>q_tail := tail, q_buffer := (q_buffer q)[q_tail q := Some v]\<rparr>)"

definition queue_size :: "'a queue \<Rightarrow> nat" where
  "queue_size q = (if q_tail q < q_head q then q_tail q + q_cap q - q_head q else q_tail q - q_head q)"

section \<open>State\<close>

text \<open>A packet buffer of \<open>rs_sz\<close> bytes, some of which are not written yet.\<close>

record response =
  rs_sz :: nat
  rs_msg :: "byte option list"

record request =
  rq_source :: u32
  rq_session :: int

record package =
  pk_manager :: u32
  pk_fd :: int
  pk_heartbeat :: int
  pk_recv :: int
  pk_init :: bool
  pk_closed :: bool
  pk_header_sz :: nat
  pk_header0 :: byte
  pk_header1 :: byte
  pk_uncomplete_sz :: int
  pk_uncomplete :: response
  pk_request :: "request queue"
  pk_response :: "response queue"

definition package_create :: package where
  "package_create =
     \<lparr>pk_manager = 0, pk_fd = 0, pk_heartbeat = -1, pk_recv = 0, pk_init = False, pk_closed = False,
      pk_header_sz = 0, pk_header0 = 0, pk_header1 = 0, pk_uncomplete_sz = -1,
      pk_uncomplete = \<lparr>rs_sz = 0, rs_msg = []\<rparr>, pk_request = queue_init, pk_response = queue_init\<rparr>"

text \<open>A send that hands over a buffer: all its bytes must have been written.\<close>

definition resp_bytes :: "response \<Rightarrow> c_error + byte list" where
  "resp_bytes r = (if None \<in> set (rs_msg r) then Inl Uninit_read else Inr (map the (rs_msg r)))"

definition send_response :: "request \<Rightarrow> response \<Rightarrow> c_error + svc_call" where
  "send_response req resp =
     rbind (resp_bytes resp) (\<lambda>bs.
       Inr (Send 0 (rq_source req) (TAG_DONTCOPY PTYPE_RESPONSE) (rq_session req) (Some bs) (rs_sz resp)))"

section \<open>Closing and reporting\<close>

definition send_error :: "request \<Rightarrow> svc_call" where
  "send_error req = Send 0 (rq_source req) PTYPE_ERROR (rq_session req) None 0"

text \<open>The loops of \<^verbatim>\<open>service_exit\<close> pop until the queue is empty, at most as often as it has slots.\<close>

definition service_exit :: "package \<Rightarrow> svc_call list \<times> package" where
  "service_exit P =
     (let (reqs, rq) = drain queue_pop (q_cap (pk_request P)) (pk_request P);
          (resps, rs) = drain queue_pop (q_cap (pk_response P)) (pk_response P)
      in (map send_error reqs
          @ [Send 0 (pk_manager P) PTYPE_TEXT 0 (Some (ascii ''CLOSED'')) 6, Command (ascii ''EXIT'') None],
          P\<lparr>pk_closed := True, pk_request := rq, pk_response := rs\<rparr>))"

definition report_info :: "package \<Rightarrow> int \<Rightarrow> u32 \<Rightarrow> svc_call list" where
  "report_info P session source =
     (let (uncomplete, uncomplete_sz) =
            (if pk_header_sz P \<noteq> 0 then (-1, 0)
             else if pk_uncomplete_sz P = 0 then (0, 0)
             else (pk_uncomplete_sz P, int (rs_sz (pk_uncomplete P))));
          tmp = ascii ''req='' @ print_nat (queue_size (pk_request P)) @ ascii '' resp='' @ print_nat (queue_size (pk_response P))
                @ ascii '' uncomplete='' @ print_int uncomplete @ ascii ''/'' @ print_int uncomplete_sz
      in [Send 0 source PTYPE_RESPONSE session (Some tmp) (length tmp)])"

section \<open>Commands\<close>

text \<open>
  The text of a command ends with a zero byte that is not part of the message, so the first
  byte of an empty one is zero; a null message cannot be read.
\<close>

definition command_pkg :: "package \<Rightarrow> int \<Rightarrow> u32 \<Rightarrow> byte list option \<Rightarrow> c_error + (svc_call list \<times> package)" where
  "command_pkg P session source msg =
     (case msg of
        None \<Rightarrow> Inl Use_after_free
      | Some m \<Rightarrow>
          let c = (case m of [] \<Rightarrow> 0 | b # _ \<Rightarrow> b);
              req = \<lparr>rq_source = source, rq_session = session\<rparr>
          in if c = 82
             then (if pk_closed P then Inr ([send_error req], P)
                   else if \<not> queue_empty (pk_response P)
                   then rbind (c_assert (queue_empty (pk_request P))) (\<lambda>_.
                          case queue_pop (pk_response P) of
                            (None, rs) \<Rightarrow> Inl Uninit_read
                          | (Some resp, rs) \<Rightarrow>
                              rbind (send_response req resp) (\<lambda>s. Inr ([s], P\<lparr>pk_response := rs\<rparr>)))
                   else Inr ([], P\<lparr>pk_request := queue_push req (pk_request P)\<rparr>))
             else if c = 75 then Inr ([Socket_shutdown (pk_fd P)], P)
             else if c = 73 then Inr (report_info P session source, P)
             else Inr ([Error_log (ascii ''Invalid command '' @ takeWhile (\<lambda>b. b \<noteq> 0) m), send_error req], P))"

section \<open>Cutting packets\<close>

text \<open>A \<^verbatim>\<open>memcpy\<close> of \<open>bs\<close> into the buffer of \<open>r\<close> at an offset.\<close>

definition resp_write :: "response \<Rightarrow> int \<Rightarrow> byte list \<Rightarrow> c_error + response" where
  "resp_write r off bs =
     (if 0 \<le> off \<and> nat off + length bs \<le> length (rs_msg r)
      then Inr (r\<lparr>rs_msg := take (nat off) (rs_msg r) @ map Some bs @ drop (nat off + length bs) (rs_msg r)\<rparr>)
      else Inl Out_of_bounds)"

text \<open>
  One round of \<^verbatim>\<open>new_message\<close>: first the packet that is being read is filled, then the next
  header is read. Each part returns the bytes that are left, or nothing when the function
  returns.
\<close>

definition fill_uncomplete :: "package \<Rightarrow> byte list \<Rightarrow> c_error + (package \<times> byte list option)" where
  "fill_uncomplete P msg =
     (if 0 \<le> pk_uncomplete_sz P
      then (let off = int (rs_sz (pk_uncomplete P)) - pk_uncomplete_sz P; n = nat (pk_uncomplete_sz P)
            in if pk_uncomplete_sz P \<le> int (length msg)
               then rbind (resp_write (pk_uncomplete P) off (take n msg)) (\<lambda>u.
                      Inr (P\<lparr>pk_uncomplete := u, pk_response := queue_push u (pk_response P), pk_uncomplete_sz := -1\<rparr>,
                           Some (drop n msg)))
               else rbind (resp_write (pk_uncomplete P) off msg) (\<lambda>u.
                      Inr (P\<lparr>pk_uncomplete := u, pk_uncomplete_sz := pk_uncomplete_sz P - int (length msg)\<rparr>, None)))
      else Inr (P, Some msg))"

definition set_uncomplete :: "package \<Rightarrow> package" where
  "set_uncomplete P =
     (let sz = read_size (pk_header0 P) (pk_header1 P)
      in P\<lparr>pk_uncomplete := \<lparr>rs_sz = sz, rs_msg = replicate sz None\<rparr>, pk_uncomplete_sz := int sz\<rparr>)"

definition read_header :: "package \<Rightarrow> byte list \<Rightarrow> c_error + (package \<times> byte list option)" where
  "read_header P msg =
     (case msg of
        [] \<Rightarrow> Inr (P, None)
      | a # rest \<Rightarrow>
          if pk_header_sz P = 0
          then (case rest of
                  [] \<Rightarrow> Inr (P\<lparr>pk_header0 := a, pk_header_sz := 1\<rparr>, None)
                | b # rest' \<Rightarrow> Inr (set_uncomplete (P\<lparr>pk_header0 := a, pk_header1 := b\<rparr>), Some rest'))
          else rbind (c_assert (pk_header_sz P = 1)) (\<lambda>_.
                 Inr (set_uncomplete (P\<lparr>pk_header1 := a, pk_header_sz := 0\<rparr>), Some rest)))"

lemma fill_shorter: "fill_uncomplete P msg = Inr (P', Some rest) \<Longrightarrow> length rest \<le> length msg"
  by (auto simp: fill_uncomplete_def Let_def rbind_eq_Inr split: if_splits)

lemma header_shorter: "read_header P msg = Inr (P', Some rest) \<Longrightarrow> length rest < length msg"
  by (auto simp: read_header_def rbind_eq_Inr split: if_splits list.splits)

function message_loop :: "package \<Rightarrow> byte list \<Rightarrow> c_error + package" where
  "message_loop P msg =
     rbind (fill_uncomplete P msg) (\<lambda>(P1, left).
       case left of
         None \<Rightarrow> Inr P1
       | Some msg1 \<Rightarrow>
           rbind (read_header P1 msg1) (\<lambda>(P2, left2).
             case left2 of None \<Rightarrow> Inr P2 | Some msg2 \<Rightarrow> message_loop P2 msg2))"
  by pat_completeness auto

termination
  by (relation "measure (\<lambda>(P, msg). length msg)") (auto dest!: fill_shorter header_shorter)

declare message_loop.simps [simp del]

definition new_message :: "package \<Rightarrow> byte list \<Rightarrow> c_error + package" where
  "new_message P msg = message_loop (P\<lparr>pk_recv := pk_recv P + 1\<rparr>) msg"

section \<open>Answering\<close>

fun response_loop :: "nat \<Rightarrow> package \<Rightarrow> c_error + (svc_call list \<times> package)" where
  "response_loop 0 P = Inl Diverges"
| "response_loop (Suc n) P =
     (if queue_empty (pk_request P) \<or> queue_empty (pk_response P) then Inr ([], P)
      else case (queue_pop (pk_request P), queue_pop (pk_response P)) of
             ((Some req, rq), (Some resp, rs)) \<Rightarrow>
               rbind (send_response req resp) (\<lambda>s.
               rbind (response_loop n (P\<lparr>pk_request := rq, pk_response := rs\<rparr>)) (\<lambda>(cs, P'). Inr (s # cs, P')))
           | _ \<Rightarrow> Inl Uninit_read)"

text \<open>The loop ends after as many rounds as there are requests; \<open>response_pkg\<close> is \<^verbatim>\<open>response\<close>.\<close>

definition response_pkg :: "package \<Rightarrow> c_error + (svc_call list \<times> package)" where
  "response_pkg P = response_loop (Suc (queue_size (pk_request P))) P"

section \<open>Socket messages, timer and outgoing data\<close>

definition socket_message :: "package \<Rightarrow> skynet_socket_message \<Rightarrow> c_error + (svc_call list \<times> package)" where
  "socket_message P smsg =
     (if ss_type smsg = SKYNET_SOCKET_TYPE_CONNECT
      then (if \<not> pk_init P \<and> ss_id smsg = pk_fd P
            then Inr ([Send 0 (pk_manager P) PTYPE_TEXT 0 (Some (ascii ''SUCC'')) 4], P\<lparr>pk_init := True\<rparr>)
            else Inr ([], P))
      else if ss_type smsg = SKYNET_SOCKET_TYPE_CLOSE \<or> ss_type smsg = SKYNET_SOCKET_TYPE_ERROR
      then (let (c0, P0) = (if \<not> pk_init P \<and> ss_id smsg = pk_fd P
                            then ([Send 0 (pk_manager P) PTYPE_TEXT 0 (Some (ascii ''FAIL'')) 4], P\<lparr>pk_init := True\<rparr>)
                            else ([], P))
            in if ss_id smsg \<noteq> pk_fd P0
               then Inr (c0 @ [Error_log (ascii ''Invalid fd ('' @ print_int (ss_id smsg) @ ascii ''), should be ('' @ print_int (pk_fd P0) @ ascii '')'')], P0)
               else rbind (response_pkg P0) (\<lambda>(c1, P1). case service_exit P1 of (c2, P2) \<Rightarrow> Inr (c0 @ c1 @ c2, P2)))
      else if ss_type smsg = SKYNET_SOCKET_TYPE_DATA
      then rbind (if int (length (ss_buffer smsg)) < ss_ud smsg then Inl Out_of_bounds
                  else new_message P (take (nat (ss_ud smsg)) (ss_buffer smsg))) (\<lambda>P1.
           rbind (response_pkg P1) (\<lambda>(c1, P2).
             Inr (Error_log (ascii ''Recv '' @ print_int (ss_ud smsg) @ ascii '' bytes from '' @ print_int (pk_fd P)) # c1, P2)))
      else if ss_type smsg = SKYNET_SOCKET_TYPE_WARNING
      then Inr ([Error_log (ascii ''Overload on '' @ print_int (pk_fd P))], P)
      else Inr ([], P))"

definition TIMEOUT :: cstring where "TIMEOUT = ascii ''2400''"

definition heartbeat :: "package \<Rightarrow> svc_call list \<times> package" where
  "heartbeat P =
     (if pk_recv P = pk_heartbeat P
      then (if \<not> pk_closed P
            then ([Socket_shutdown (pk_fd P), Error_log (ascii ''timeout '' @ print_int (pk_fd P))], P)
            else ([], P))
      else ([Command (ascii ''TIMEOUT'') (Some TIMEOUT)], P\<lparr>pk_heartbeat := 0, pk_recv := 0\<rparr>))"

definition send_out :: "package \<Rightarrow> byte list \<Rightarrow> svc_call list" where
  "send_out P msg =
     (if 0xffff < length msg then [Error_log (ascii ''package too long ('' @ print_hex8 (of_nat (length msg)) @ ascii '')'')]
      else [Socket_send (pk_fd P) (of_nat (length msg div 256) # of_nat (length msg) # msg),
            Error_log (ascii ''Send '' @ print_nat (length msg) @ ascii '' bytes to '' @ print_int (pk_fd P))])"

section \<open>The handler\<close>

definition message_handler ::
  "package \<Rightarrow> nat \<Rightarrow> int \<Rightarrow> u32 \<Rightarrow> handler_msg \<Rightarrow> c_error + (svc_call list \<times> package)" where
  "message_handler P type session source msg =
     (if type = PTYPE_TEXT
      then (case msg of Msg_bytes m \<Rightarrow> command_pkg P session source m | Msg_socket _ \<Rightarrow> Inl Out_of_bounds)
      else if type = PTYPE_CLIENT
      then (case msg of
              Msg_bytes (Some m) \<Rightarrow> Inr (send_out P m, P)
            | Msg_bytes None \<Rightarrow> Inr (send_out P [], P)
            | Msg_socket _ \<Rightarrow> Inl Out_of_bounds)
      else if type = PTYPE_RESPONSE then Inr (heartbeat P)
      else if type = PTYPE_SOCKET
      then (case msg of Msg_socket m \<Rightarrow> socket_message P m | Msg_bytes _ \<Rightarrow> Inl Out_of_bounds)
      else if type = PTYPE_ERROR then Inr ([], P)
      else if 0 < session then Inr ([Send 0 source PTYPE_ERROR session None 0], P)
      else Inr ([], P))"

text \<open>\<^verbatim>\<open>package_init\<close> reads the manager and the socket from its parameter, and returns 1 when it cannot.\<close>

definition package_init :: "package \<Rightarrow> cstring option \<Rightarrow> int \<times> svc_call list \<times> package" where
  "package_init P param =
     (let txt = (case param of None \<Rightarrow> [] | Some p \<Rightarrow> p);
          (n, P1) =
            (case scan_u txt of
               None \<Rightarrow> (0, P)
             | Some (m, rest) \<Rightarrow>
                 (case scan_d rest of
                    None \<Rightarrow> (1 :: nat, P\<lparr>pk_manager := m\<rparr>)
                  | Some (fd, _) \<Rightarrow> (2, P\<lparr>pk_manager := m, pk_fd := fd\<rparr>)))
      in if n \<noteq> 2 \<or> pk_manager P1 = 0 \<or> pk_fd P1 = 0
         then (1, [Error_log (ascii ''Invalid param ['' @ (case param of None \<Rightarrow> ascii ''(null)'' | Some p \<Rightarrow> p) @ ascii '']'')], P1)
         else (case heartbeat P1 of (cs, P2) \<Rightarrow>
                 (0, Socket_start (pk_fd P1) # Socket_nodelay (pk_fd P1) # cs @ [Callback], P2)))"

section \<open>The queues are FIFO queues\<close>

definition q_slots :: "'a queue \<Rightarrow> 'a option list" where
  "q_slots q = ring_contents (q_buffer q) (q_head q) (ring_len (q_head q) (q_tail q) (q_cap q))"

definition q_wf :: "'a queue \<Rightarrow> bool" where
  "q_wf q \<longleftrightarrow> 1 < q_cap q \<and> length (q_buffer q) = q_cap q \<and> q_head q < q_cap q \<and> q_tail q < q_cap q"

abbreviation q_contents :: "'a queue \<Rightarrow> 'a list" where "q_contents q \<equiv> map the (q_slots q)"
abbreviation q_inv :: "'a queue \<Rightarrow> bool" where "q_inv q \<equiv> q_wf q \<and> None \<notin> set (q_slots q)"

lemma length_copy_ring [simp]: "length (copy_ring n buf cap h) = n"
  by (induction n arbitrary: h) simp_all

lemma copy_ring_contents:
  "h < length buf \<Longrightarrow> copy_ring n buf (length buf) h = ring_contents buf h n"
proof (induction n arbitrary: h)
  case (Suc n)
  have "(if length buf \<le> Suc h then 0 else Suc h) = Suc h mod length buf" using Suc.prems by (rule wrap_mod)
  moreover have "Suc h mod length buf < length buf" using Suc.prems by (intro mod_less_divisor) linarith
  ultimately show ?case using Suc ring_contents_Cons [OF Suc.prems, of n] by simp
qed simp

lemma q_wf_init: "q_wf queue_init" "q_slots queue_init = []"
  by (simp_all add: q_wf_def q_slots_def queue_init_def ring_len_def)

lemma queue_size_slots: "queue_size q = length (q_slots q)"
  by (simp add: queue_size_def q_slots_def ring_len_def)

lemma queue_empty_slots: "q_wf q \<Longrightarrow> queue_empty q \<longleftrightarrow> q_slots q = []"
  using ring_len_0 [of "q_head q" "q_cap q" "q_tail q"] by (simp add: queue_empty_def q_slots_def q_wf_def)

lemma queue_push_slots:
  assumes "q_wf q"
  shows "q_slots (queue_push v q) = q_slots q @ [Some v]"
proof -
  let ?c = "q_cap q" and ?h = "q_head q" and ?t = "q_tail q"
  have inv: "?h < ?c" "?t < ?c" "length (q_buffer q) = ?c" "1 < ?c" using assms by (auto simp: q_wf_def)
  have wrap: "(if ?c \<le> Suc ?t then 0 else Suc ?t) = Suc ?t mod ?c" using inv(2) by (rule wrap_mod)
  show ?thesis
  proof (cases "?h = Suc ?t mod ?c")
    case True
    have full: "Suc (ring_len ?h ?t ?c) = ?c" using inv True ring_len_full by metis
    have "copy_ring ?c (q_buffer q) ?c ?h = ring_contents (q_buffer q) ?h (Suc (ring_len ?h ?t ?c))"
      using copy_ring_contents [of ?h "q_buffer q" ?c] inv full by simp
    also have "\<dots> = q_slots q @ [q_buffer q ! ((?h + ring_len ?h ?t ?c) mod ?c)]"
      using inv(3) by (simp add: ring_contents_snoc q_slots_def)
    finally have tmp: "(copy_ring ?c (q_buffer q) ?c ?h @ replicate ?c None)[?c - 1 := Some v]
        = (q_slots q @ [Some v]) @ replicate ?c None"
      using full by (simp add: list_update_append q_slots_def) linarith
    have "length (q_slots q @ [Some v]) = ?c" using full by (simp add: q_slots_def)
    with True wrap tmp ring_contents_linear [of ?c "q_slots q @ [Some v]" "replicate ?c None"] show ?thesis
      by (subst q_slots_def) (simp add: queue_push_def Let_def ring_len_def)
  next
    case False
    then show ?thesis
      using ring_contents_put [of ?h "q_buffer q" ?t] wrap inv ring_len_Suc_tail [of ?h ?c ?t]
      by (subst q_slots_def) (simp add: queue_push_def Let_def q_slots_def)
  qed
qed

lemma queue_push_wf: "q_wf q \<Longrightarrow> q_wf (queue_push v q)"
  by (auto simp: q_wf_def queue_push_def Let_def)

lemma queue_pop_slots:
  assumes "q_wf q" "q_slots q = x # xs"
  shows "fst (queue_pop q) = x" "q_slots (snd (queue_pop q)) = xs"
proof -
  let ?c = "q_cap q" and ?h = "q_head q" and ?t = "q_tail q"
  have inv: "?h < ?c" "?t < ?c" "length (q_buffer q) = ?c" using assms by (auto simp: q_wf_def)
  have ne: "?h \<noteq> ?t" using assms queue_empty_slots [OF assms(1)] by (simp add: queue_empty_def)
  have len: "ring_len ?h ?t ?c = Suc (ring_len (Suc ?h mod ?c) ?t ?c)" using ring_len_Suc_head inv ne by simp
  have "q_slots q = q_buffer q ! ?h # ring_contents (q_buffer q) (Suc ?h mod ?c) (ring_len (Suc ?h mod ?c) ?t ?c)"
    unfolding q_slots_def len using ring_contents_Cons [of ?h "q_buffer q"] inv by simp
  with assms(2) ne show "fst (queue_pop q) = x" "q_slots (snd (queue_pop q)) = xs"
    using wrap_mod [OF inv(1)] by (simp_all add: queue_pop_def q_slots_def)
qed

interpretation pkq: ring_queue queue_push queue_pop q_slots q_wf
proof (unfold_locales, goal_cases)
  case (1 q x) then show ?case by (rule queue_push_wf)
next
  case (2 q x) then show ?case by (rule queue_push_slots)
next
  case (3 q) then show ?case by (auto simp: q_wf_def queue_pop_def)
next
  case (4 q) then show ?case using queue_empty_slots [of q] by (simp add: queue_pop_def queue_empty_def)
next
  case (5 q s ss) then show ?case using queue_pop_slots by blast
qed

section \<open>Cutting implements the framing\<close>

text \<open>The bytes of the packet that is being read, and a packet whose bytes have all arrived.\<close>

definition pk_pending :: "package \<Rightarrow> byte list" where
  "pk_pending P =
     (if pk_header_sz P \<noteq> 0 then [pk_header0 P]
      else if 0 \<le> pk_uncomplete_sz P
      then size_bytes (rs_sz (pk_uncomplete P))
           @ map the (take (rs_sz (pk_uncomplete P) - nat (pk_uncomplete_sz P)) (rs_msg (pk_uncomplete P)))
      else [])"

definition resp_of :: "byte list \<Rightarrow> response" where
  "resp_of bs = \<lparr>rs_sz = length bs, rs_msg = map Some bs\<rparr>"

definition uncomplete_ok :: "response \<Rightarrow> int \<Rightarrow> bool" where
  "uncomplete_ok u k \<longleftrightarrow>
     0 \<le> k \<and> k \<le> int (rs_sz u) \<and> rs_sz u < 65536
     \<and> (\<exists>bs. rs_msg u = map Some bs @ replicate (nat k) None \<and> length (rs_msg u) = rs_sz u)"

definition pk_ok :: "package \<Rightarrow> bool" where
  "pk_ok P \<longleftrightarrow>
     q_inv (pk_response P) \<and>
     (pk_uncomplete_sz P = -1 \<and> pk_header_sz P \<le> 1
      \<or> pk_header_sz P = 0 \<and> uncomplete_ok (pk_uncomplete P) (pk_uncomplete_sz P))"

definition same_conn :: "package \<Rightarrow> package \<Rightarrow> bool" where
  "same_conn P P' \<longleftrightarrow>
     pk_manager P' = pk_manager P \<and> pk_fd P' = pk_fd P \<and> pk_closed P' = pk_closed P \<and> pk_init P' = pk_init P
     \<and> pk_request P' = pk_request P \<and> pk_recv P' = pk_recv P \<and> pk_heartbeat P' = pk_heartbeat P"

lemma same_conn_refl: "same_conn P P"
  by (simp add: same_conn_def)

lemma same_conn_trans: "same_conn P Q \<Longrightarrow> same_conn Q R \<Longrightarrow> same_conn P R"
  by (simp add: same_conn_def)

lemma fill_idle: "pk_uncomplete_sz P = -1 \<Longrightarrow> fill_uncomplete P msg = Inr (P, Some msg)"
  by (simp add: fill_uncomplete_def)

lemma fill_short:
  assumes "pk_ok P" "int (length msg) < pk_uncomplete_sz P"
  shows "\<exists>P'. fill_uncomplete P msg = Inr (P', None) \<and> pk_ok P' \<and> same_conn P P' \<and> pk_response P' = pk_response P
    \<and> pk_pending P' = pk_pending P @ msg \<and> parse (pk_pending P @ msg) = ([], pk_pending P @ msg)"
proof -
  let ?u = "pk_uncomplete P" and ?k = "pk_uncomplete_sz P"
  have h: "pk_header_sz P = 0" and u: "uncomplete_ok ?u ?k" using assms by (auto simp: pk_ok_def)
  then obtain bs where bs: "rs_msg ?u = map Some bs @ replicate (nat ?k) None" "length (rs_msg ?u) = rs_sz ?u"
    "0 \<le> ?k" "?k \<le> int (rs_sz ?u)" "rs_sz ?u < 65536" by (auto simp: uncomplete_ok_def)
  have len: "length bs + nat ?k = rs_sz ?u" using bs(1,2) by simp
  have off: "nat (int (rs_sz ?u) - ?k) = length bs" "rs_sz ?u - nat ?k = length bs" using len bs(3) by simp_all
  let ?u' = "?u\<lparr>rs_msg := map Some (bs @ msg) @ replicate (nat (?k - int (length msg))) None\<rparr>"
  have "drop (length bs + length msg) (rs_msg ?u) = replicate (nat (?k - int (length msg))) None"
    using assms(2) by (simp add: bs(1) nat_diff_distrib' nat_less_iff)
  then have w: "resp_write ?u (int (rs_sz ?u) - ?k) msg = Inr ?u'"
    using off assms(2) bs(3,4) len by (simp add: resp_write_def bs(1))
  let ?P' = "P\<lparr>pk_uncomplete := ?u', pk_uncomplete_sz := ?k - int (length msg)\<rparr>"
  have "fill_uncomplete P msg = Inr (?P', None)"
    using assms(2) bs(3) w by (simp add: fill_uncomplete_def Let_def)
  moreover have "uncomplete_ok ?u' (?k - int (length msg))"
    using assms(2) bs(4,5) len by (auto simp: uncomplete_ok_def nat_diff_distrib' intro!: exI [of _ "bs @ msg"])
  then have "pk_ok ?P'" using assms(1) h by (simp add: pk_ok_def)
  moreover have pend: "pk_pending P = size_bytes (rs_sz ?u) @ bs"
    using h bs(1,3) off by (simp add: pk_pending_def comp_def)
  moreover have "pk_pending ?P' = pk_pending P @ msg"
    using h assms(2) len unfolding pend by (simp add: pk_pending_def comp_def nat_diff_distrib')
  moreover have "parse (pk_pending P @ msg) = ([], pk_pending P @ msg)"
  proof -
    have "length (bs @ msg) < rs_sz ?u" using len assms(2) by simp
    then show ?thesis using parse_size [OF bs(5), of "bs @ msg"] unfolding pend by simp
  qed
  ultimately show ?thesis by (auto simp: same_conn_def)
qed

lemma fill_full:
  assumes "pk_ok P" "0 \<le> pk_uncomplete_sz P" "pk_uncomplete_sz P \<le> int (length msg)"
  shows "\<exists>P' f rest. fill_uncomplete P msg = Inr (P', Some rest) \<and> pk_ok P' \<and> same_conn P P'
    \<and> q_contents (pk_response P') = q_contents (pk_response P) @ [resp_of f]
    \<and> pk_uncomplete_sz P' = -1 \<and> pk_header_sz P' = 0
    \<and> parse (pk_pending P @ msg) = (case parse rest of (fs, r) \<Rightarrow> (f # fs, r))"
proof -
  let ?u = "pk_uncomplete P" and ?k = "pk_uncomplete_sz P"
  have h: "pk_header_sz P = 0" and u: "uncomplete_ok ?u ?k" and q: "q_inv (pk_response P)"
    using assms(1,2) by (auto simp: pk_ok_def)
  then obtain bs where bs: "rs_msg ?u = map Some bs @ replicate (nat ?k) None" "length (rs_msg ?u) = rs_sz ?u"
    "?k \<le> int (rs_sz ?u)" "rs_sz ?u < 65536" by (auto simp: uncomplete_ok_def)
  have len: "length bs + nat ?k = rs_sz ?u" using bs(1,2) by simp
  have off: "nat (int (rs_sz ?u) - ?k) = length bs" "rs_sz ?u - nat ?k = length bs" using len assms(2) by simp_all
  have min: "min (length msg) (nat ?k) = nat ?k" using assms(3) by simp
  let ?f = "bs @ take (nat ?k) msg"
  have "drop (length bs + nat ?k) (rs_msg ?u) = []" using bs(2) len by simp
  then have "resp_write ?u (int (rs_sz ?u) - ?k) (take (nat ?k) msg) = Inr (?u\<lparr>rs_msg := map Some ?f\<rparr>)"
    using off assms(2,3) bs(3) min by (simp add: resp_write_def bs(1))
  moreover have "?u\<lparr>rs_msg := map Some ?f\<rparr> = resp_of ?f" using len min by (simp add: resp_of_def)
  ultimately have w: "resp_write ?u (int (rs_sz ?u) - ?k) (take (nat ?k) msg) = Inr (resp_of ?f)" by simp
  let ?P' = "P\<lparr>pk_uncomplete := resp_of ?f, pk_response := queue_push (resp_of ?f) (pk_response P), pk_uncomplete_sz := -1\<rparr>"
  have "fill_uncomplete P msg = Inr (?P', Some (drop (nat ?k) msg))"
    unfolding fill_uncomplete_def Let_def w using assms(2,3) by simp
  moreover have "q_inv (queue_push (resp_of ?f) (pk_response P))" using pkq.invar_push [of "pk_response P"] q by simp
  then have "pk_ok ?P'" using h by (simp add: pk_ok_def)
  moreover have "q_contents (pk_response ?P') = q_contents (pk_response P) @ [resp_of ?f]"
    using pkq.contents_push [of "pk_response P"] q by simp
  moreover have "pk_pending P = size_bytes (rs_sz ?u) @ bs"
    using h bs(1) assms(2) off by (simp add: pk_pending_def comp_def)
  moreover have "parse (size_bytes (rs_sz ?u) @ bs @ msg) = (case parse (drop (nat ?k) msg) of (fs, r) \<Rightarrow> (?f # fs, r))"
  proof -
    have "\<not> length (bs @ msg) < rs_sz ?u" using len assms(2,3) by simp
    moreover have "take (rs_sz ?u) (bs @ msg) = ?f" "drop (rs_sz ?u) (bs @ msg) = drop (nat ?k) msg"
      using len by (auto simp: len [symmetric])
    ultimately show ?thesis using parse_size [OF bs(4), of "bs @ msg"] by simp
  qed
  ultimately show ?thesis using h by (intro exI [of _ ?P'] exI [of _ ?f] exI [of _ "drop (nat ?k) msg"]) (simp add: same_conn_def)
qed

lemma set_uncomplete_ok:
  assumes "q_inv (pk_response P)" "pk_header_sz P = 0"
  shows "pk_ok (set_uncomplete P)" "same_conn P (set_uncomplete P)" "pk_response (set_uncomplete P) = pk_response P"
    "pk_pending (set_uncomplete P) = [pk_header0 P, pk_header1 P]"
  using assms size_bytes_read [of "pk_header0 P" "pk_header1 P"] read_size_less [of "pk_header0 P" "pk_header1 P"]
  by (auto simp: pk_ok_def set_uncomplete_def same_conn_def pk_pending_def uncomplete_ok_def Let_def)

lemma header_step:
  assumes "pk_ok P" "pk_uncomplete_sz P = -1"
  shows "\<exists>P' left. read_header P msg = Inr (P', left) \<and> pk_ok P' \<and> same_conn P P' \<and> pk_response P' = pk_response P
    \<and> (case left of
         None \<Rightarrow> pk_pending P' = pk_pending P @ msg \<and> parse (pk_pending P @ msg) = ([], pk_pending P @ msg)
       | Some rest \<Rightarrow> pk_pending P' @ rest = pk_pending P @ msg)"
proof -
  have q: "q_inv (pk_response P)" and h: "pk_header_sz P = 0 \<or> pk_header_sz P = 1"
    using assms by (auto simp: pk_ok_def uncomplete_ok_def)
  show ?thesis
  proof (cases "msg")
    case Nil
    then show ?thesis using assms h by (auto simp: read_header_def same_conn_refl pk_pending_def)
  next
    case a: (Cons a rest)
    show ?thesis
    proof (cases "pk_header_sz P = 1")
      case True
      let ?P = "P\<lparr>pk_header1 := a, pk_header_sz := 0\<rparr>"
      have "same_conn P ?P" by (simp add: same_conn_def)
      with a True q set_uncomplete_ok [of ?P] show ?thesis
        by (auto simp: read_header_def pk_pending_def [of P] intro: same_conn_trans)
    next
      case False
      with h have h0: "pk_header_sz P = 0" by simp
      show ?thesis
      proof (cases rest)
        case Nil
        with a h0 assms q show ?thesis
          by (auto simp: read_header_def same_conn_def pk_pending_def pk_ok_def)
      next
        case (Cons b rest')
        let ?P = "P\<lparr>pk_header0 := a, pk_header1 := b\<rparr>"
        have "same_conn P ?P" by (simp add: same_conn_def)
        with a Cons h0 q assms(2) set_uncomplete_ok [of ?P] show ?thesis
          by (auto simp: read_header_def pk_pending_def [of P] intro: same_conn_trans)
      qed
    qed
  qed
qed

lemma header_then:
  assumes "pk_ok P" "pk_uncomplete_sz P = -1" "parse (pk_pending P @ msg) = (fs, r)"
    and IH: "\<And>P2 msg2. read_header P msg = Inr (P2, Some msg2) \<Longrightarrow> pk_ok P2 \<Longrightarrow> parse (pk_pending P2 @ msg2) = (fs, r) \<Longrightarrow>
      \<exists>P'. message_loop P2 msg2 = Inr P' \<and> pk_ok P' \<and> same_conn P2 P'
        \<and> q_contents (pk_response P') = q_contents (pk_response P2) @ map resp_of fs \<and> pk_pending P' = r"
  shows "\<exists>P'. rbind (read_header P msg) (\<lambda>(P2, left2). case left2 of None \<Rightarrow> Inr P2 | Some msg2 \<Rightarrow> message_loop P2 msg2) = Inr P'
    \<and> pk_ok P' \<and> same_conn P P' \<and> q_contents (pk_response P') = q_contents (pk_response P) @ map resp_of fs \<and> pk_pending P' = r"
proof -
  obtain P2 left where 2: "read_header P msg = Inr (P2, left)" "pk_ok P2" "same_conn P P2" "pk_response P2 = pk_response P"
    "case left of None \<Rightarrow> pk_pending P2 = pk_pending P @ msg \<and> parse (pk_pending P @ msg) = ([], pk_pending P @ msg)
       | Some rest \<Rightarrow> pk_pending P2 @ rest = pk_pending P @ msg"
    using header_step [OF assms(1,2)] by blast
  show ?thesis
  proof (cases left)
    case None
    with 2 assms(3) show ?thesis by auto
  next
    case (Some msg2)
    with 2 assms(3) IH [of P2 msg2] show ?thesis by (auto intro: same_conn_trans)
  qed
qed

lemma message_loop_correct:
  assumes "pk_ok P" "parse (pk_pending P @ msg) = (fs, r)"
  shows "\<exists>P'. message_loop P msg = Inr P' \<and> pk_ok P' \<and> same_conn P P'
    \<and> q_contents (pk_response P') = q_contents (pk_response P) @ map resp_of fs \<and> pk_pending P' = r"
  using assms
proof (induction P msg arbitrary: fs r rule: message_loop.induct)
  case (1 P msg)
  consider "pk_uncomplete_sz P = -1" | "int (length msg) < pk_uncomplete_sz P"
    | "0 \<le> pk_uncomplete_sz P" "pk_uncomplete_sz P \<le> int (length msg)"
    using 1(2) unfolding pk_ok_def uncomplete_ok_def by linarith
  then show ?case
  proof cases
    case idle: 1
    have "rbind (fill_uncomplete P msg) f = f (P, Some msg)" for f :: "package \<times> byte list option \<Rightarrow> c_error + package"
      using fill_idle [OF idle] by simp
    then show ?thesis
      using header_then [OF 1(2) idle 1(3)] 1(1) [OF fill_idle [OF idle] refl refl] by (subst message_loop.simps) auto
  next
    case 2
    then obtain P' where "fill_uncomplete P msg = Inr (P', None)" "pk_ok P'" "same_conn P P'" "pk_response P' = pk_response P"
      "pk_pending P' = pk_pending P @ msg" "parse (pk_pending P @ msg) = ([], pk_pending P @ msg)"
      using fill_short [OF 1(2)] by blast
    with 1(3) show ?thesis by (subst message_loop.simps) auto
  next
    case 3
    obtain P1 f rest where f: "fill_uncomplete P msg = Inr (P1, Some rest)" "pk_ok P1" "same_conn P P1"
      "q_contents (pk_response P1) = q_contents (pk_response P) @ [resp_of f]" "pk_uncomplete_sz P1 = -1" "pk_header_sz P1 = 0"
      "parse (pk_pending P @ msg) = (case parse rest of (fs, r) \<Rightarrow> (f # fs, r))"
      using fill_full [OF 1(2) 3] by blast
    then obtain fs' where fs': "parse (pk_pending P1 @ rest) = (fs', r)" "fs = f # fs'"
      using 1(3) by (auto simp: pk_pending_def split: prod.splits)
    have "\<exists>P'. message_loop P msg = Inr P' \<and> pk_ok P' \<and> same_conn P1 P'
        \<and> q_contents (pk_response P') = q_contents (pk_response P1) @ map resp_of fs' \<and> pk_pending P' = r"
      using header_then [OF f(2,5) fs'(1)] 1(1) [OF f(1) refl refl] by (subst message_loop.simps) (auto simp: f(1))
    with f(3,4) fs'(2) show ?thesis by (auto intro: same_conn_trans)
  qed
qed

section \<open>Requests and packets\<close>

text \<open>
  The state of the service as its clients see it: the requests that wait, the packets that wait,
  and the bytes of an unfinished packet. Never do requests and packets wait at the same time.
\<close>

definition pk_state :: "package \<Rightarrow> request list \<Rightarrow> byte list list \<Rightarrow> byte list \<Rightarrow> bool" where
  "pk_state P reqs fs s \<longleftrightarrow>
     pk_ok P \<and> q_inv (pk_request P) \<and> q_contents (pk_request P) = reqs
     \<and> q_contents (pk_response P) = map resp_of fs \<and> pk_pending P = s"

definition answer :: "request \<Rightarrow> byte list \<Rightarrow> svc_call" where
  "answer req f = Send 0 (rq_source req) (TAG_DONTCOPY PTYPE_RESPONSE) (rq_session req) (Some f) (length f)"

lemma send_response_of: "send_response req (resp_of f) = Inr (answer req f)"
  by (simp add: send_response_def resp_bytes_def resp_of_def answer_def comp_def)

lemma pop_contents:
  assumes "q_inv q" "q_contents q = x # xs"
  obtains q' where "queue_pop q = (Some x, q')" "q_inv q'" "q_contents q' = xs"
  using pkq.pop_cons [OF assms] pkq.contents_pop_cons [OF assms] pkq.invar_pop [OF assms(1)] that
  by (cases "queue_pop q") auto

lemma empty_contents: "q_inv q \<Longrightarrow> queue_empty q \<longleftrightarrow> q_contents q = []"
  using queue_empty_slots by auto

lemma pk_ok_response: "pk_ok P \<Longrightarrow> q_inv rs \<Longrightarrow> pk_ok (P\<lparr>pk_response := rs\<rparr>)" "pk_ok (P\<lparr>pk_request := rq\<rparr>) = pk_ok P"
  by (auto simp: pk_ok_def)

lemma pk_pending_frame [simp]:
  "pk_pending (P\<lparr>pk_response := rs\<rparr>) = pk_pending P" "pk_pending (P\<lparr>pk_request := rq\<rparr>) = pk_pending P"
  "pk_pending (P\<lparr>pk_closed := c\<rparr>) = pk_pending P" "pk_pending (P\<lparr>pk_init := c\<rparr>) = pk_pending P"
  "pk_pending (P\<lparr>pk_recv := k\<rparr>) = pk_pending P"
  by (simp_all add: pk_pending_def)

lemma response_loop_correct:
  assumes "pk_state P reqs fs s" "length reqs < n"
  shows "\<exists>P'. response_loop n P = Inr (map2 answer reqs fs, P')
    \<and> pk_state P' (drop (length fs) reqs) (drop (length reqs) fs) s
    \<and> pk_closed P' = pk_closed P \<and> pk_fd P' = pk_fd P \<and> pk_manager P' = pk_manager P \<and> pk_init P' = pk_init P"
  using assms
proof (induction n arbitrary: P reqs fs)
  case (Suc n)
  have q: "q_inv (pk_request P)" "q_inv (pk_response P)" "q_contents (pk_request P) = reqs"
    "q_contents (pk_response P) = map resp_of fs"
    using Suc.prems(1) by (auto simp: pk_state_def pk_ok_def)
  show ?case
  proof (cases "reqs = [] \<or> fs = []")
    case True
    then have "queue_empty (pk_request P) \<or> queue_empty (pk_response P)"
      using empty_contents [OF q(1)] empty_contents [OF q(2)] q(3,4) by auto
    then show ?thesis using Suc.prems(1) True by auto
  next
    case False
    then obtain r reqs' f fs' where c: "reqs = r # reqs'" "fs = f # fs'" by (meson neq_Nil_conv)
    obtain rq where rq: "queue_pop (pk_request P) = (Some r, rq)" "q_inv rq" "q_contents rq = reqs'"
      using pop_contents [OF q(1)] q(3) c(1) by auto
    obtain rs where rs: "queue_pop (pk_response P) = (Some (resp_of f), rs)" "q_inv rs" "q_contents rs = map resp_of fs'"
      using pop_contents [OF q(2)] q(4) c(2) by auto
    let ?P = "P\<lparr>pk_request := rq, pk_response := rs\<rparr>"
    have "pk_state ?P reqs' fs' s"
      using Suc.prems(1) rq rs by (simp add: pk_state_def pk_ok_def)
    from Suc.IH [OF this] Suc.prems(2) c obtain P' where "response_loop n ?P = Inr (map2 answer reqs' fs', P')"
      "pk_state P' (drop (length fs') reqs') (drop (length reqs') fs') s"
      "pk_closed P' = pk_closed P" "pk_fd P' = pk_fd P" "pk_manager P' = pk_manager P" "pk_init P' = pk_init P" by auto
    moreover have "\<not> (queue_empty (pk_request P) \<or> queue_empty (pk_response P))"
      using empty_contents [OF q(1)] empty_contents [OF q(2)] q(3,4) c by simp
    ultimately show ?thesis using c rq(1) rs(1) by (simp add: send_response_of)
  qed
qed simp

lemma response_pkg_correct:
  assumes "pk_state P reqs fs s"
  shows "\<exists>P'. response_pkg P = Inr (map2 answer reqs fs, P')
    \<and> pk_state P' (drop (length fs) reqs) (drop (length reqs) fs) s
    \<and> pk_closed P' = pk_closed P \<and> pk_fd P' = pk_fd P \<and> pk_manager P' = pk_manager P \<and> pk_init P' = pk_init P"
proof -
  have "queue_size (pk_request P) = length reqs" using assms by (auto simp: queue_size_slots pk_state_def)
  then show ?thesis unfolding response_pkg_def using response_loop_correct [OF assms, of "Suc (length reqs)"] by simp
qed

text \<open>What happens at a client connection: other services ask for packets and bytes arrive.\<close>

datatype client_event = Request u32 int | Chunk "byte list"

definition client_step :: "package \<Rightarrow> client_event \<Rightarrow> c_error + (svc_call list \<times> package)" where
  "client_step P e =
     (case e of
        Request source session \<Rightarrow> message_handler P PTYPE_TEXT session source (Msg_bytes (Some (ascii ''R'')))
      | Chunk bs \<Rightarrow>
          message_handler P PTYPE_SOCKET 0 0
            (Msg_socket \<lparr>ss_type = SKYNET_SOCKET_TYPE_DATA, ss_id = pk_fd P, ss_ud = int (length bs), ss_buffer = bs, ss_tail = []\<rparr>))"

fun serve :: "package \<Rightarrow> client_event list \<Rightarrow> c_error + (svc_call list \<times> package)" where
  "serve P [] = Inr ([], P)"
| "serve P (e # es) =
     rbind (client_step P e) (\<lambda>(cs, P1). rbind (serve P1 es) (\<lambda>(cs', P2). Inr (cs @ cs', P2)))"

fun requests :: "client_event list \<Rightarrow> request list" where
  "requests [] = []"
| "requests (Request source session # es) = \<lparr>rq_source = source, rq_session = session\<rparr> # requests es"
| "requests (Chunk bs # es) = requests es"

fun received :: "client_event list \<Rightarrow> byte list" where
  "received [] = []"
| "received (Request source session # es) = received es"
| "received (Chunk bs # es) = bs @ received es"

lemma pk_state_recv: "pk_state (P\<lparr>pk_recv := k\<rparr>) reqs fs s = pk_state P reqs fs s"
  by (simp add: pk_state_def pk_ok_def pk_pending_def)

lemma chunk_step:
  assumes "pk_state P reqs fs s" "parse (s @ bs) = (fs', r)"
  shows "\<exists>P' m. client_step P (Chunk bs) = Inr (Error_log m # map2 answer reqs (fs @ fs'), P')
    \<and> pk_state P' (drop (length (fs @ fs')) reqs) (drop (length reqs) (fs @ fs')) r
    \<and> pk_closed P' = pk_closed P \<and> pk_fd P' = pk_fd P \<and> pk_manager P' = pk_manager P \<and> pk_init P' = pk_init P"
proof -
  let ?P = "P\<lparr>pk_recv := pk_recv P + 1\<rparr>"
  have st: "pk_state ?P reqs fs s" using assms(1) by (simp add: pk_state_recv)
  then have "pk_ok ?P" "parse (pk_pending ?P @ bs) = (fs', r)" using assms(2) by (auto simp: pk_state_def)
  from message_loop_correct [OF this] obtain P1 where 1: "message_loop ?P bs = Inr P1" "pk_ok P1" "same_conn ?P P1"
    "q_contents (pk_response P1) = q_contents (pk_response ?P) @ map resp_of fs'" "pk_pending P1 = r" by blast
  then have "pk_state P1 reqs (fs @ fs') r" using st by (simp add: pk_state_def same_conn_def)
  from response_pkg_correct [OF this] 1(1,3) show ?thesis
    by (auto simp: client_step_def message_handler_def socket_message_def new_message_def socket_types same_conn_def
        PTYPE_TEXT_def PTYPE_CLIENT_def PTYPE_RESPONSE_def PTYPE_SOCKET_def)
qed

lemma request_step:
  assumes "pk_state P reqs fs s" "reqs = [] \<or> fs = []" "\<not> pk_closed P"
  shows "\<exists>P'. client_step P (Request source session) = Inr (map2 answer (reqs @ [\<lparr>rq_source = source, rq_session = session\<rparr>]) fs, P')
    \<and> pk_state P' (drop (length fs) (reqs @ [\<lparr>rq_source = source, rq_session = session\<rparr>])) (drop (Suc (length reqs)) fs) s
    \<and> pk_closed P' = pk_closed P \<and> pk_fd P' = pk_fd P \<and> pk_manager P' = pk_manager P \<and> pk_init P' = pk_init P"
proof -
  let ?r = "\<lparr>rq_source = source, rq_session = session\<rparr>"
  have q: "q_inv (pk_request P)" "q_inv (pk_response P)" "q_contents (pk_request P) = reqs"
    "q_contents (pk_response P) = map resp_of fs"
    using assms(1) by (auto simp: pk_state_def pk_ok_def)
  have step: "client_step P (Request source session) = command_pkg P session source (Some (ascii ''R''))"
    by (simp add: client_step_def message_handler_def)
  have R: "ascii ''R'' = [82]" by (simp add: ascii_def of_char_def)
  show ?thesis
  proof (cases fs)
    case Nil
    let ?P = "P\<lparr>pk_request := queue_push ?r (pk_request P)\<rparr>"
    have "command_pkg P session source (Some (ascii ''R'')) = Inr ([], ?P)"
      using assms(3) empty_contents [OF q(2)] q(4) Nil by (simp add: command_pkg_def R)
    moreover have "pk_state ?P (reqs @ [?r]) [] s"
      using assms(1) Nil pkq.invar_push [OF q(1), of ?r] pkq.contents_push [OF q(1), of ?r]
      by (simp add: pk_state_def pk_ok_response)
    ultimately show ?thesis using Nil step by simp
  next
    case (Cons f fs')
    then have [simp]: "reqs = []" using assms(2) by simp
    obtain rs where rs: "queue_pop (pk_response P) = (Some (resp_of f), rs)" "q_inv rs" "q_contents rs = map resp_of fs'"
      using pop_contents [OF q(2)] q(4) Cons by auto
    have "command_pkg P session source (Some (ascii ''R'')) = Inr ([answer ?r f], P\<lparr>pk_response := rs\<rparr>)"
      using assms(3) empty_contents [OF q(1)] empty_contents [OF q(2)] q(3,4) Cons rs(1)
      by (simp add: command_pkg_def R send_response_of)
    moreover have "pk_state (P\<lparr>pk_response := rs\<rparr>) [] fs' s"
      using assms(1) rs by (simp add: pk_state_def pk_ok_response)
    ultimately show ?thesis using Cons step by simp
  qed
qed

lemma zip_split:
  "zip xs ys @ zip (drop (length ys) xs @ as) (drop (length xs) ys @ bs) = zip (xs @ as) (ys @ bs)"
  by (induction xs ys rule: list_induct2') auto

lemma map2_split:
  "map2 f xs ys @ map2 f (drop (length ys) xs @ as) (drop (length xs) ys @ bs) = map2 f (xs @ as) (ys @ bs)"
  using arg_cong [OF zip_split [of xs ys as bs], of "map (\<lambda>(x, y). f x y)"] by simp

lemma drop_one_empty: "drop (length ys) xs = [] \<or> drop (length xs) ys = []"
  by (simp add: linear)

abbreviation sends :: "svc_call list \<Rightarrow> svc_call list" where "sends cs \<equiv> filter is_Send cs"

lemma sends_answers [simp]: "sends (map2 answer xs ys) = map2 answer xs ys"
  by (induction xs ys rule: list_induct2') (auto simp: answer_def)

lemma drop_split:
  "drop (length (drop (length xs) ys @ bs)) (drop (length ys) xs @ as) = drop (length (ys @ bs)) (xs @ as)"
  "drop (length (drop (length ys) xs @ as)) (drop (length xs) ys @ bs) = drop (length (xs @ as)) (ys @ bs)"
  by (induction xs ys rule: list_induct2') auto

definition served :: "package \<Rightarrow> request list \<Rightarrow> byte list list \<Rightarrow> byte list \<Rightarrow> c_error + (svc_call list \<times> package) \<Rightarrow> bool" where
  "served P reqs fs r res \<longleftrightarrow>
     (\<exists>cs P'. res = Inr (cs, P') \<and> sends cs = map2 answer reqs fs
       \<and> pk_state P' (drop (length fs) reqs) (drop (length reqs) fs) r
       \<and> \<not> pk_closed P' \<and> pk_fd P' = pk_fd P \<and> pk_manager P' = pk_manager P \<and> pk_init P' = pk_init P)"

lemma served_step:
  assumes "client_step P e = Inr (cs1, P1)" "sends cs1 = map2 answer xs ys" "pk_fd P1 = pk_fd P"
    "pk_manager P1 = pk_manager P" "pk_init P1 = pk_init P"
    and "served P1 (drop (length ys) xs @ as) (drop (length xs) ys @ bs) r (serve P1 es)"
  shows "served P (xs @ as) (ys @ bs) r (serve P (e # es))"
proof -
  obtain cs P' where 1: "serve P1 es = Inr (cs, P')" "sends cs = map2 answer (drop (length ys) xs @ as) (drop (length xs) ys @ bs)"
    "pk_state P' (drop (length (ys @ bs)) (xs @ as)) (drop (length (xs @ as)) (ys @ bs)) r"
    "\<not> pk_closed P'" "pk_fd P' = pk_fd P1" "pk_manager P' = pk_manager P1" "pk_init P' = pk_init P1"
    using assms(6) unfolding served_def drop_split by blast
  have "sends (cs1 @ cs) = map2 answer (xs @ as) (ys @ bs)" using assms(2) 1(2) map2_split [of answer xs ys as bs] by simp
  with 1 assms(1,3-5) show ?thesis unfolding served_def by simp
qed

lemma serve_correct:
  assumes "pk_state P reqs fs s" "reqs = [] \<or> fs = []" "\<not> pk_closed P" "parse s = ([], s)"
    and "parse (s @ received es) = (fs', r)"
  shows "served P (reqs @ requests es) (fs @ fs') r (serve P es)"
  using assms
proof (induction es arbitrary: P reqs fs s fs')
  case Nil
  then show ?case by (auto simp: served_def)
next
  case (Cons e es)
  show ?case
  proof (cases e)
    case (Request source session)
    let ?reqs = "reqs @ [\<lparr>rq_source = source, rq_session = session\<rparr>]"
    obtain P1 where 1: "client_step P e = Inr (map2 answer ?reqs fs, P1)"
      "pk_state P1 (drop (length fs) ?reqs) (drop (length ?reqs) fs) s"
      "pk_closed P1 = pk_closed P" "pk_fd P1 = pk_fd P" "pk_manager P1 = pk_manager P" "pk_init P1 = pk_init P"
      using request_step [OF Cons.prems(1-3), of source session] Request by auto
    have "served P1 (drop (length fs) ?reqs @ requests es) (drop (length ?reqs) fs @ fs') r (serve P1 es)"
      by (rule Cons.IH [OF 1(2) drop_one_empty _ Cons.prems(4)]) (use 1(3) Cons.prems Request in auto)
    from served_step [OF 1(1) _ 1(4-6) this] show ?thesis using Request by simp
  next
    case (Chunk bs)
    obtain f1 r1 where p1: "parse (s @ bs) = (f1, r1)" by fastforce
    obtain f2 where p2: "parse (r1 @ received es) = (f2, r)" "fs' = f1 @ f2"
      using Cons.prems(5) Chunk parse_append [of "s @ bs" "received es"] p1 by (auto split: prod.splits)
    obtain P1 m where 1: "client_step P e = Inr (Error_log m # map2 answer reqs (fs @ f1), P1)"
      "pk_state P1 (drop (length (fs @ f1)) reqs) (drop (length reqs) (fs @ f1)) r1"
      "pk_closed P1 = pk_closed P" "pk_fd P1 = pk_fd P" "pk_manager P1 = pk_manager P" "pk_init P1 = pk_init P"
      using chunk_step [OF Cons.prems(1) p1] Chunk by blast
    have "served P1 (drop (length (fs @ f1)) reqs @ requests es) (drop (length reqs) (fs @ f1) @ f2) r (serve P1 es)"
      by (rule Cons.IH [OF 1(2) drop_one_empty _ parse_rest [OF p1] p2(1)]) (use 1(3) Cons.prems(3) in simp)
    from served_step [OF 1(1) _ 1(4-6) this] show ?thesis using Chunk p2(2) by simp
  qed
qed

lemma service_exit_correct:
  assumes "pk_state P reqs fs s"
  shows "\<exists>P'. service_exit P = (map send_error reqs @ [Send 0 (pk_manager P) PTYPE_TEXT 0 (Some (ascii ''CLOSED'')) 6, Command (ascii ''EXIT'') None], P')
    \<and> pk_closed P' \<and> pk_state P' [] [] s"
proof -
  have q: "q_inv (pk_request P)" "q_inv (pk_response P)" "q_contents (pk_request P) = reqs"
    "q_contents (pk_response P) = map resp_of fs"
    using assms by (auto simp: pk_state_def pk_ok_def)
  have len: "length (q_contents q) < q_cap q" if "q_wf q" for q :: "'x queue"
    using that ring_len_less [of "q_head q" "q_cap q" "q_tail q"] by (simp add: q_wf_def q_slots_def)
  obtain rq where rq: "drain queue_pop (q_cap (pk_request P)) (pk_request P) = (reqs, rq)" "q_inv rq" "q_contents rq = []"
    using pkq.drain_contents [OF q(1) len] pkq.drain_empties [OF q(1) len] pkq.drain_invar [OF q(1), of "q_cap (pk_request P)"] q(1,3)
    by (cases "drain queue_pop (q_cap (pk_request P)) (pk_request P)") auto
  obtain xs rs where rs: "drain queue_pop (q_cap (pk_response P)) (pk_response P) = (xs, rs)" "q_inv rs" "q_contents rs = []"
    using pkq.drain_empties [OF q(2) len] pkq.drain_invar [OF q(2), of "q_cap (pk_response P)"] q(2)
    by (cases "drain queue_pop (q_cap (pk_response P)) (pk_response P)") auto
  have "pk_state (P\<lparr>pk_closed := True, pk_request := rq, pk_response := rs\<rparr>) [] [] s"
    using assms rq rs by (simp add: pk_state_def pk_ok_def)
  then show ?thesis by (simp add: service_exit_def rq(1) rs(1))
qed

lemma init_state:
  assumes "package_init package_create param = (0, cs, P)"
  shows "pk_state P [] [] []" "\<not> pk_closed P" "\<not> pk_init P" "pk_fd P \<noteq> 0" "pk_manager P \<noteq> 0"
  using assms
  by (auto simp: q_wf_init package_init_def package_create_def heartbeat_def Let_def pk_state_def pk_ok_def pk_pending_def
      split: option.splits prod.splits if_splits)

section \<open>Properties\<close>

text \<open>
  C15: every request is answered, and with its own packet. After the service has been started, let
  other services ask for packets and let bytes arrive in chunks cut anywhere, in any order. Then
  the sends it makes are exactly these: the first request is answered with the first packet of
  the byte stream, the second with the second and so on, as soon as both are there; the bytes of
  each packet are those that arrived, and no handler fails.
\<close>

theorem package_serves:
  assumes "package_init package_create param = (0, cs0, P)"
  shows "\<exists>cs P'. serve P es = Inr (cs, P') \<and> sends cs = map2 answer (requests es) (fst (parse (received es)))"
proof -
  obtain fs r where p: "parse ([] @ received es) = (fs, r)" by fastforce
  from serve_correct [OF init_state(1) [OF assms] _ init_state(2) [OF assms] _ p] p show ?thesis
    by (auto simp: served_def)
qed

theorem package_serves_witness:
  "\<exists>P cs P'. package_init package_create (Some (ascii ''10 7'')) = (0, [Socket_start 7, Socket_nodelay 7,
       Command (ascii ''TIMEOUT'') (Some TIMEOUT), Callback], P)
     \<and> serve P [Request 5 1, Chunk [0, 2, 9], Request 6 2, Chunk [8, 0, 0]] = Inr (cs, P')
     \<and> sends cs = [answer \<lparr>rq_source = 5, rq_session = 1\<rparr> [9, 8], answer \<lparr>rq_source = 6, rq_session = 2\<rparr> []]"
proof -
  have "ascii ''10 7'' = [49, 48, 32, 55]" by (simp add: ascii_def of_char_def)
  then obtain P where P: "package_init package_create (Some (ascii ''10 7'')) = (0, [Socket_start 7, Socket_nodelay 7,
       Command (ascii ''TIMEOUT'') (Some TIMEOUT), Callback], P)"
    by (simp add: package_init_def package_create_def heartbeat_def Let_def scan_u_def scan_d_def scan_int_def scan_sign_def is_space_def is_digit_def)
  have "fst (parse [0, 2, 9, 8, 0, 0]) = [[9, 8], []]" by (simp add: read_size_def)
  with package_serves [OF P, of "[Request 5 1, Chunk [0, 2, 9], Request 6 2, Chunk [8, 0, 0]]"] P show ?thesis
    by (auto simp del: serve.simps)
qed

text \<open>
  No request is lost when the connection goes. When the socket is closed or fails after such a
  history, each request that still waits is answered with an error, the manager is told that
  the connection failed or closed, the service leaves, and any later request is answered with
  an error too.
\<close>

theorem package_close_answers:
  assumes "package_init package_create param = (0, cs0, P)" "serve P es = Inr (cs, P1)"
    and "ss_type smsg = SKYNET_SOCKET_TYPE_CLOSE \<or> ss_type smsg = SKYNET_SOCKET_TYPE_ERROR" "ss_id smsg = pk_fd P"
  shows "\<exists>P2. message_handler P1 PTYPE_SOCKET 0 0 (Msg_socket smsg)
      = Inr ([Send 0 (pk_manager P) PTYPE_TEXT 0 (Some (ascii ''FAIL'')) 4]
             @ map send_error (drop (length (fst (parse (received es)))) (requests es))
             @ [Send 0 (pk_manager P) PTYPE_TEXT 0 (Some (ascii ''CLOSED'')) 6, Command (ascii ''EXIT'') None], P2)
    \<and> (\<forall>source session. client_step P2 (Request source session)
         = Inr ([send_error \<lparr>rq_source = source, rq_session = session\<rparr>], P2))"
proof -
  obtain fs r where p: "parse ([] @ received es) = (fs, r)" by fastforce
  let ?reqs = "requests es"
  from serve_correct [OF init_state(1) [OF assms(1)] _ init_state(2) [OF assms(1)] _ p] assms(2)
  have 1: "pk_state P1 (drop (length fs) ?reqs) (drop (length ?reqs) fs) r" "pk_fd P1 = pk_fd P"
    "pk_manager P1 = pk_manager P" "\<not> pk_init P1"
    using init_state(3) [OF assms(1)] by (auto simp: served_def)
  let ?P = "P1\<lparr>pk_init := True\<rparr>"
  have "pk_state ?P (drop (length fs) ?reqs) (drop (length ?reqs) fs) r"
    using 1(1) by (simp add: pk_state_def pk_ok_def)
  from response_pkg_correct [OF this] drop_one_empty [of fs ?reqs]
  obtain P' where 2: "response_pkg ?P = Inr ([], P')" "pk_state P' (drop (length fs) ?reqs) (drop (length ?reqs) fs) r"
    "pk_fd P' = pk_fd P" "pk_manager P' = pk_manager P"
    using 1(2,3) by auto
  obtain P2 where 3: "service_exit P' = (map send_error (drop (length fs) ?reqs)
      @ [Send 0 (pk_manager P) PTYPE_TEXT 0 (Some (ascii ''CLOSED'')) 6, Command (ascii ''EXIT'') None], P2)" "pk_closed P2"
    using service_exit_correct [OF 2(2)] 2(4) by auto
  have "message_handler P1 PTYPE_SOCKET 0 0 (Msg_socket smsg) = socket_message P1 smsg"
    by (simp add: message_handler_def PTYPE_TEXT_def PTYPE_CLIENT_def PTYPE_RESPONSE_def PTYPE_SOCKET_def)
  moreover have "fst (parse (received es)) = fs" using p by simp
  moreover have "ascii ''R'' = [82]" by (simp add: ascii_def of_char_def)
  ultimately show ?thesis
    using assms(3,4) 1(2-4) 2 3
    by (auto simp: socket_message_def socket_types client_step_def message_handler_def command_pkg_def)
qed

theorem package_close_answers_witness:
  "\<exists>P cs P1 P2. package_init package_create (Some (ascii ''10 7'')) = (0, [Socket_start 7, Socket_nodelay 7,
       Command (ascii ''TIMEOUT'') (Some TIMEOUT), Callback], P)
     \<and> serve P [Request 5 1] = Inr (cs, P1)
     \<and> message_handler P1 PTYPE_SOCKET 0 0 (Msg_socket \<lparr>ss_type = 3, ss_id = 7, ss_ud = 0, ss_buffer = [], ss_tail = []\<rparr>)
       = Inr ([Send 0 10 PTYPE_TEXT 0 (Some (ascii ''FAIL'')) 4, send_error \<lparr>rq_source = 5, rq_session = 1\<rparr>,
               Send 0 10 PTYPE_TEXT 0 (Some (ascii ''CLOSED'')) 6, Command (ascii ''EXIT'') None], P2)"
proof -
  have "ascii ''10 7'' = [49, 48, 32, 55]" by (simp add: ascii_def of_char_def)
  then obtain P where P: "package_init package_create (Some (ascii ''10 7'')) = (0, [Socket_start 7, Socket_nodelay 7,
       Command (ascii ''TIMEOUT'') (Some TIMEOUT), Callback], P)" "pk_fd P = 7" "pk_manager P = 10"
    by (simp add: package_init_def package_create_def heartbeat_def Let_def scan_u_def scan_d_def scan_int_def scan_sign_def is_space_def is_digit_def)
  obtain cs P1 where s: "serve P [Request 5 1] = Inr (cs, P1)"
    using serve_correct [OF init_state(1) [OF P(1)] _ init_state(2) [OF P(1)], of "[Request 5 1]" "[]" "[]"]
    by (auto simp: served_def simp del: serve.simps)
  have "ss_type \<lparr>ss_type = 3, ss_id = 7, ss_ud = 0, ss_buffer = [], ss_tail = []\<rparr> = SKYNET_SOCKET_TYPE_CLOSE"
    by (simp add: socket_types)
  from package_close_answers [OF P(1) s disjI1 [OF this]] P s show ?thesis
    by (auto simp del: serve.simps)
qed

end
