(* ===== verification/Databuffer.thy ===== *)
theory Databuffer
  imports Framing
begin

text \<open>
  The receive buffer of a connection of the gate, \<^verbatim>\<open>service-src/databuffer.h\<close>: the blocks as they
  came from the socket, the position in the first one, and the length of the packet whose header
  has been read. The blocks are a linked list whose nodes come from a pool and go back to it; the
  list of the blocks' contents stands for it, and the pool, which only recycles nodes, is left
  out. Reading from an empty list dereferences the null head.
\<close>

section \<open>State and operations\<close>

record databuffer =
  db_header :: int
  db_offset :: nat
  db_size :: int
  db_msgs :: "byte list list"

definition databuffer_zero :: databuffer where
  "databuffer_zero = \<lparr>db_header = 0, db_offset = 0, db_size = 0, db_msgs = []\<rparr>"

text \<open>The loop of \<^verbatim>\<open>databuffer_read\<close>: what is copied, the new offset and the blocks left.\<close>

fun read_loop :: "nat \<Rightarrow> byte list list \<Rightarrow> nat \<Rightarrow> c_error + (byte list \<times> nat \<times> byte list list)" where
  "read_loop off [] sz = Inl Use_after_free"
| "read_loop off (current # rest) sz =
     (let bsz = length current - off
      in if sz < bsz then Inr (take sz (drop off current), off + sz, current # rest)
         else if bsz = sz then Inr (drop off current, 0, rest)
         else rbind (read_loop 0 rest (sz - bsz)) (\<lambda>(bs, off', ms). Inr (drop off current @ bs, off', ms)))"

definition databuffer_read :: "databuffer \<Rightarrow> nat \<Rightarrow> c_error + (byte list \<times> databuffer)" where
  "databuffer_read db sz =
     rbind (c_assert (int sz \<le> db_size db)) (\<lambda>_.
     rbind (read_loop (db_offset db) (db_msgs db) sz) (\<lambda>(bs, off, ms).
       Inr (bs, db\<lparr>db_size := db_size db - int sz, db_offset := off, db_msgs := ms\<rparr>)))"

definition databuffer_push :: "databuffer \<Rightarrow> byte list \<Rightarrow> databuffer" where
  "databuffer_push db data =
     db\<lparr>db_size := c_int (db_size db + int (length data)), db_msgs := db_msgs db @ [data]\<rparr>"

text \<open>The header is in the byte order of the network; four bytes make a signed \<^verbatim>\<open>int\<close>.\<close>

definition databuffer_readheader :: "databuffer \<Rightarrow> nat \<Rightarrow> c_error + (int \<times> databuffer)" where
  "databuffer_readheader db header_size =
     (if db_header db = 0 \<and> db_size db < int header_size then Inr (-1, db)
      else rbind (if db_header db = 0
                  then rbind (databuffer_read db header_size) (\<lambda>(plen, db1).
                         Inr (db1\<lparr>db_header := c_int (int (be_nat plen))\<rparr>))
                  else Inr db) (\<lambda>db1.
             Inr (if db_size db1 < db_header db1 then -1 else db_header db1, db1)))"

definition databuffer_reset :: "databuffer \<Rightarrow> databuffer" where
  "databuffer_reset db = db\<lparr>db_header := 0\<rparr>"

definition databuffer_clear :: "databuffer \<Rightarrow> databuffer" where
  "databuffer_clear db = databuffer_zero"

section \<open>The bytes of a buffer\<close>

text \<open>The bytes not yet read; the invariant ties the size field to them.\<close>

definition db_bytes :: "databuffer \<Rightarrow> byte list" where
  "db_bytes db = drop (db_offset db) (concat (db_msgs db))"

fun off_ok :: "nat \<Rightarrow> byte list list \<Rightarrow> bool" where
  "off_ok off [] \<longleftrightarrow> off = 0"
| "off_ok off (m # ms) \<longleftrightarrow> off \<le> length m"

lemma off_ok_0 [simp]: "off_ok 0 ms"
  by (cases ms) auto

lemma off_ok_le: "off_ok off ms \<Longrightarrow> off \<le> length (concat ms)"
  by (cases ms) auto

definition db_ok :: "databuffer \<Rightarrow> bool" where
  "db_ok db \<longleftrightarrow> off_ok (db_offset db) (db_msgs db)
     \<and> db_size db = int (length (db_bytes db))"

lemma db_ok_zero [simp]: "db_ok databuffer_zero" "db_bytes databuffer_zero = []" "db_header databuffer_zero = 0"
  by (simp_all add: db_ok_def db_bytes_def databuffer_zero_def)

lemma db_header_upd [simp]: "db_bytes (db\<lparr>db_header := h\<rparr>) = db_bytes db" "db_ok (db\<lparr>db_header := h\<rparr>) = db_ok db"
  by (simp_all add: db_bytes_def db_ok_def)

lemma read_loop_bytes:
  assumes "0 < sz" "sz \<le> length (drop off (concat ms))" "off_ok off ms"
  shows "\<exists>off' ms'. read_loop off ms sz = Inr (take sz (drop off (concat ms)), off', ms')
    \<and> drop off' (concat ms') = drop sz (drop off (concat ms)) \<and> off_ok off' ms'"
  using assms
proof (induction off ms sz rule: read_loop.induct)
  case (2 off current rest sz)
  let ?bsz = "length current - off"
  consider (part) "sz < ?bsz" | (whole) "sz = ?bsz" | (beyond) "?bsz < sz" by linarith
  then show ?case
  proof cases
    case part
    then show ?thesis using 2(4) by (auto simp: add.commute)
  next
    case whole
    then show ?thesis using 2(4) by (cases rest) auto
  next
    case beyond
    from beyond 2(4) have d: "drop off (concat (current # rest)) = drop off current @ concat rest" by simp
    have "\<exists>off' ms'. read_loop 0 rest (sz - ?bsz) = Inr (take (sz - ?bsz) (drop 0 (concat rest)), off', ms')
      \<and> drop off' (concat ms') = drop (sz - ?bsz) (drop 0 (concat rest)) \<and> off_ok off' ms'"
      using beyond 2(3,4) d by (intro 2(1)) auto
    with beyond d show ?thesis by auto
  qed
qed simp

lemma databuffer_read_bytes:
  assumes "db_ok db" "0 < sz" "sz \<le> length (db_bytes db)"
  obtains db' where "databuffer_read db sz = Inr (take sz (db_bytes db), db')" "db_bytes db' = drop sz (db_bytes db)"
    "db_ok db'" "db_header db' = db_header db"
proof -
  obtain off ms where r: "read_loop (db_offset db) (db_msgs db) sz = Inr (take sz (db_bytes db), off, ms)"
    "drop off (concat ms) = drop sz (db_bytes db)" "off_ok off ms"
    using read_loop_bytes [of sz "db_offset db" "db_msgs db"] assms by (auto simp: db_ok_def db_bytes_def)
  let ?db = "db\<lparr>db_size := db_size db - int sz, db_offset := off, db_msgs := ms\<rparr>"
  have "databuffer_read db sz = Inr (take sz (db_bytes db), ?db)"
    using r(1) assms by (simp add: databuffer_read_def db_ok_def)
  moreover have "db_bytes ?db = drop sz (db_bytes db)" using r(2) by (simp add: db_bytes_def)
  moreover from this have "db_ok ?db" using r(3) assms by (simp add: db_ok_def of_nat_diff)
  ultimately show ?thesis using that by simp
qed

lemma databuffer_push_bytes:
  assumes "db_ok db" "int (length (db_bytes db) + length data) < 2 ^ 31"
  shows "db_bytes (databuffer_push db data) = db_bytes db @ data \<and> db_ok (databuffer_push db data)
    \<and> db_header (databuffer_push db data) = db_header db"
proof -
  have "db_offset db \<le> length (concat (db_msgs db))" using assms(1) by (simp add: db_ok_def off_ok_le del: length_concat)
  then have b: "db_bytes (databuffer_push db data) = db_bytes db @ data" by (simp add: db_bytes_def databuffer_push_def)
  moreover have "db_ok (databuffer_push db data)"
    using assms b by (cases "db_msgs db") (auto simp: db_ok_def databuffer_push_def)
  ultimately show ?thesis by (simp add: databuffer_push_def)
qed

end
