(* ===== verification/Hashid.thy ===== *)
theory Hashid
  imports Prelude
begin

text \<open>
  The table of connection ids of the gate, \<^verbatim>\<open>service-src/hashid.h\<close>: an array of nodes, and chains
  of nodes that start in a hash array whose size is a power of two. A pointer to a node is its
  index in the array, which is also what the operations return.
\<close>

section \<open>State and operations\<close>

record hashid_node =
  hn_id :: int
  hn_next :: "nat option"

record hashid =
  hi_hashmod :: nat
  hi_cap :: nat
  hi_count :: int
  hi_id :: "hashid_node list"
  hi_hash :: "nat option list"

text \<open>
  The capacity is an \<^verbatim>\<open>int\<close> that is doubled until it reaches the number of connections. Beyond
  \<open>2 ^ 30\<close> the product wraps around to a negative number and then to 0, where it stays: 32 rounds
  are enough to see whether the loop ends.
\<close>

fun hashcap_loop :: "nat \<Rightarrow> int \<Rightarrow> int \<Rightarrow> c_error + int" where
  "hashcap_loop 0 hashcap mx = Inl Diverges"
| "hashcap_loop (Suc n) hashcap mx = (if hashcap < mx then hashcap_loop n (c_int (hashcap * 2)) mx else Inr hashcap)"

definition hashid_init :: "int \<Rightarrow> c_error + hashid" where
  "hashid_init mx =
     rbind (hashcap_loop 32 16 mx) (\<lambda>hashcap.
       Inr \<lparr>hi_hashmod = nat (hashcap - 1), hi_cap = nat mx, hi_count = 0,
            hi_id = replicate (nat mx) \<lparr>hn_id = -1, hn_next = None\<rparr>, hi_hash = replicate (nat hashcap) None\<rparr>)"

definition hashid_clear :: "hashid \<Rightarrow> hashid" where
  "hashid_clear hi = \<lparr>hi_hashmod = 1, hi_cap = 0, hi_count = 0, hi_id = [], hi_hash = []\<rparr>"

definition hash_of :: "hashid \<Rightarrow> int \<Rightarrow> nat" where
  "hash_of hi i = nat (i AND int (hi_hashmod hi))"

text \<open>A read through a pointer into the array of nodes.\<close>

definition node_at :: "hashid_node list \<Rightarrow> nat \<Rightarrow> c_error + hashid_node" where
  "node_at ns c = (if c < length ns then Inr (ns ! c) else Inl Out_of_bounds)"

fun lookup_loop :: "nat \<Rightarrow> hashid_node list \<Rightarrow> nat option \<Rightarrow> int \<Rightarrow> c_error + int" where
  "lookup_loop 0 ns c i = Inl Diverges"
| "lookup_loop (Suc n) ns None i = Inr (-1)"
| "lookup_loop (Suc n) ns (Some c) i =
     rbind (node_at ns c) (\<lambda>nd. if hn_id nd = i then Inr (int c) else lookup_loop n ns (hn_next nd) i)"

text \<open>A chain has at most as many nodes as the array, so one more round than that is enough.\<close>

definition hashid_lookup :: "hashid \<Rightarrow> int \<Rightarrow> c_error + int" where
  "hashid_lookup hi i =
     (if hash_of hi i < length (hi_hash hi)
      then lookup_loop (Suc (length (hi_id hi))) (hi_id hi) (hi_hash hi ! hash_of hi i) i
      else Inl Out_of_bounds)"

text \<open>The label \<^verbatim>\<open>_clear\<close> of \<^verbatim>\<open>hashid_remove\<close>.\<close>

definition clear_node :: "hashid \<Rightarrow> nat \<Rightarrow> int \<times> hashid" where
  "clear_node hi c =
     (int c, hi\<lparr>hi_id := (hi_id hi)[c := \<lparr>hn_id = -1, hn_next = None\<rparr>], hi_count := hi_count hi - 1\<rparr>)"

fun remove_loop :: "nat \<Rightarrow> hashid \<Rightarrow> nat \<Rightarrow> int \<Rightarrow> c_error + (int \<times> hashid)" where
  "remove_loop 0 hi c i = Inl Diverges"
| "remove_loop (Suc n) hi c i =
     rbind (node_at (hi_id hi) c) (\<lambda>nd.
       case hn_next nd of
         None \<Rightarrow> Inr (-1, hi)
       | Some t \<Rightarrow>
           rbind (node_at (hi_id hi) t) (\<lambda>temp.
             if hn_id temp = i
             then Inr (clear_node (hi\<lparr>hi_id := (hi_id hi)[c := nd\<lparr>hn_next := hn_next temp\<rparr>]\<rparr>) t)
             else remove_loop n hi t i))"

definition hashid_remove :: "hashid \<Rightarrow> int \<Rightarrow> c_error + (int \<times> hashid)" where
  "hashid_remove hi i =
     (let h = hash_of hi i
      in if h < length (hi_hash hi)
         then (case hi_hash hi ! h of
                 None \<Rightarrow> Inr (-1, hi)
               | Some c \<Rightarrow>
                   rbind (node_at (hi_id hi) c) (\<lambda>nd.
                     if hn_id nd = i then Inr (clear_node (hi\<lparr>hi_hash := (hi_hash hi)[h := hn_next nd]\<rparr>) c)
                     else remove_loop (Suc (length (hi_id hi))) hi c i))
         else Inl Out_of_bounds)"

text \<open>The search of \<^verbatim>\<open>hashid_insert\<close> for a free node, from the position of the id on. The sum is an
  \<^verbatim>\<open>int\<close>; when it is negative, so is its remainder, and the index is outside the array.\<close>

fun free_loop :: "nat \<Rightarrow> nat \<Rightarrow> hashid \<Rightarrow> int \<Rightarrow> c_error + nat option" where
  "free_loop 0 k hi i = Inr None"
| "free_loop (Suc n) k hi i =
     (let index = c_rem (c_int (int k + i)) (int (hi_cap hi))
      in if 0 \<le> index \<and> nat index < length (hi_id hi)
         then if hn_id (hi_id hi ! nat index) = -1 then Inr (Some (nat index)) else free_loop n (Suc k) hi i
         else Inl Out_of_bounds)"

definition hashid_insert :: "hashid \<Rightarrow> int \<Rightarrow> c_error + (nat \<times> hashid)" where
  "hashid_insert hi i =
     rbind (free_loop (hi_cap hi) 0 hi i) (\<lambda>found. case found of
        None \<Rightarrow> Inl Assert_failed
      | Some c \<Rightarrow>
          rbind (c_assert (hn_next (hi_id hi ! c) = None)) (\<lambda>_.
            let h = hash_of hi i
            in if h < length (hi_hash hi)
               then Inr (c, hi\<lparr>hi_count := hi_count hi + 1,
                               hi_id := (hi_id hi)[c := \<lparr>hn_id = i, hn_next = hi_hash hi ! h\<rparr>],
                               hi_hash := (hi_hash hi)[h := Some c]\<rparr>)
               else Inl Out_of_bounds))"

definition hashid_full :: "hashid \<Rightarrow> bool" where
  "hashid_full hi \<longleftrightarrow> hi_count hi = int (hi_cap hi)"

section \<open>Chains\<close>

text \<open>\<open>chain ns p xs\<close>: from the pointer \<open>p\<close> the nodes of the array are linked in the order of \<open>xs\<close>.\<close>

primrec chain :: "hashid_node list \<Rightarrow> nat option \<Rightarrow> nat list \<Rightarrow> bool" where
  "chain ns p [] \<longleftrightarrow> p = None"
| "chain ns p (x # xs) \<longleftrightarrow> p = Some x \<and> x < length ns \<and> chain ns (hn_next (ns ! x)) xs"

lemma chain_None [simp]: "chain ns None xs \<longleftrightarrow> xs = []"
  by (cases xs) auto

lemma chain_frame: "c \<notin> set xs \<Longrightarrow> chain (ns[c := nd]) p xs = chain ns p xs"
  by (induction xs arbitrary: p) auto

lemma chain_index: "chain ns p xs \<Longrightarrow> x \<in> set xs \<Longrightarrow> x < length ns"
  by (induction xs arbitrary: p) auto

lemma chain_length:
  assumes "chain ns p xs" "distinct xs"
  shows "length xs \<le> length ns"
proof -
  have "set xs \<subseteq> {..<length ns}" using chain_index [OF assms(1)] by auto
  then have "card (set xs) \<le> length ns" by (metis card_lessThan card_mono finite_lessThan)
  then show ?thesis using assms(2) by (simp add: distinct_card)
qed

lemma lookup_loop_chain:
  "chain ns p xs \<Longrightarrow> length xs < n \<Longrightarrow>
   lookup_loop n ns p i = Inr (case find (\<lambda>x. hn_id (ns ! x) = i) xs of None \<Rightarrow> -1 | Some x \<Rightarrow> int x)"
proof (induction xs arbitrary: p n)
  case Nil
  then show ?case by (cases n) auto
next
  case (Cons x xs)
  then show ?case by (cases n) (auto simp: node_at_def)
qed

text \<open>
  The invariant: \<open>ch h\<close> is the chain of the hash value \<open>h\<close>; a node is in the chain of its id, or
  free and then unlinked; ids are not repeated, and \<open>hi_count\<close> counts those in use.
\<close>

definition used :: "hashid \<Rightarrow> nat \<Rightarrow> bool" where
  "used hi c \<longleftrightarrow> c < hi_cap hi \<and> hn_id (hi_id hi ! c) \<noteq> -1"

definition hashid_rep :: "hashid \<Rightarrow> (nat \<Rightarrow> nat list) \<Rightarrow> bool" where
  "hashid_rep hi ch \<longleftrightarrow>
     length (hi_id hi) = hi_cap hi \<and> length (hi_hash hi) = Suc (hi_hashmod hi)
     \<and> (\<forall>h < Suc (hi_hashmod hi). chain (hi_id hi) (hi_hash hi ! h) (ch h) \<and> distinct (ch h)
          \<and> (\<forall>c\<in>set (ch h). used hi c \<and> hash_of hi (hn_id (hi_id hi ! c)) = h))
     \<and> (\<forall>c. used hi c \<longrightarrow> c \<in> set (ch (hash_of hi (hn_id (hi_id hi ! c)))))
     \<and> (\<forall>c < hi_cap hi. hn_id (hi_id hi ! c) = -1 \<longrightarrow> hn_next (hi_id hi ! c) = None)
     \<and> (\<forall>c d. used hi c \<longrightarrow> used hi d \<longrightarrow> hn_id (hi_id hi ! c) = hn_id (hi_id hi ! d) \<longrightarrow> c = d)
     \<and> hi_count hi = int (card {c. used hi c})"

definition hashid_ok :: "hashid \<Rightarrow> bool" where
  "hashid_ok hi \<longleftrightarrow> (\<exists>ch. hashid_rep hi ch)"

text \<open>The map that the table implements: the index of an id.\<close>

definition index_of :: "hashid \<Rightarrow> int \<Rightarrow> nat option" where
  "index_of hi i = (if i = -1 then None else List.find (\<lambda>c. hn_id (hi_id hi ! c) = i) [0..<hi_cap hi])"

lemma hash_of_less: "hash_of hi i < Suc (hi_hashmod hi)"
proof -
  have "i AND int (hi_hashmod hi) \<le> int (hi_hashmod hi)" by (simp add: AND_upper2)
  then show ?thesis by (simp add: hash_of_def less_Suc_eq_le nat_le_iff)
qed

lemma hash_of_upd [simp]:
  "hash_of (hi\<lparr>hi_id := ns\<rparr>) = hash_of hi" "hash_of (hi\<lparr>hi_hash := hs\<rparr>) = hash_of hi" "hash_of (hi\<lparr>hi_count := k\<rparr>) = hash_of hi"
  by (simp_all add: hash_of_def fun_eq_iff)

lemma hashid_repI:
  assumes "length (hi_id hi) = hi_cap hi" "length (hi_hash hi) = Suc (hi_hashmod hi)"
    and "\<And>h. h < Suc (hi_hashmod hi) \<Longrightarrow> chain (hi_id hi) (hi_hash hi ! h) (ch h) \<and> distinct (ch h)
          \<and> (\<forall>c\<in>set (ch h). used hi c \<and> hash_of hi (hn_id (hi_id hi ! c)) = h)"
    and "\<And>c. used hi c \<Longrightarrow> c \<in> set (ch (hash_of hi (hn_id (hi_id hi ! c))))"
    and "\<And>c. c < hi_cap hi \<Longrightarrow> hn_id (hi_id hi ! c) = -1 \<Longrightarrow> hn_next (hi_id hi ! c) = None"
    and "\<And>c d. used hi c \<Longrightarrow> used hi d \<Longrightarrow> hn_id (hi_id hi ! c) = hn_id (hi_id hi ! d) \<Longrightarrow> c = d"
    and "hi_count hi = int (card {c. used hi c})"
  shows "hashid_rep hi ch"
  unfolding hashid_rep_def by (intro conjI; (rule assms(1,2,7) | use assms(3-6) in blast))

lemma rep_inj:
  "hashid_rep hi ch \<Longrightarrow> used hi c \<Longrightarrow> used hi d \<Longrightarrow> hn_id (hi_id hi ! c) = hn_id (hi_id hi ! d) \<Longrightarrow> c = d"
  by (simp add: hashid_rep_def)

lemma index_of_Some:
  assumes "hashid_rep hi ch"
  shows "index_of hi i = Some c \<longleftrightarrow> used hi c \<and> hn_id (hi_id hi ! c) = i"
proof
  assume "index_of hi i = Some c"
  then show "used hi c \<and> hn_id (hi_id hi ! c) = i" by (auto simp: index_of_def used_def find_Some_iff split: if_splits)
next
  assume c: "used hi c \<and> hn_id (hi_id hi ! c) = i"
  then have i: "i \<noteq> -1" "c < hi_cap hi" by (auto simp: used_def)
  then obtain d where d: "List.find (\<lambda>c. hn_id (hi_id hi ! c) = i) [0..<hi_cap hi] = Some d"
    using c by (cases "List.find (\<lambda>c. hn_id (hi_id hi ! c) = i) [0..<hi_cap hi]") (auto simp: find_None_iff)
  then have "used hi d" "hn_id (hi_id hi ! d) = i" using i by (auto simp: find_Some_iff used_def)
  then have "d = c" using rep_inj [OF assms] c by simp
  with d i show "index_of hi i = Some c" by (simp add: index_of_def)
qed

lemma option_eqI: "(\<And>d. x = Some d \<longleftrightarrow> y = Some d) \<Longrightarrow> x = y"
  by (cases x; cases y) auto

lemma index_of_None:
  assumes "hashid_rep hi ch"
  shows "index_of hi i = None \<longleftrightarrow> (\<forall>c. used hi c \<longrightarrow> hn_id (hi_id hi ! c) \<noteq> i)"
  using index_of_Some [OF assms, of i] by (metis option.exhaust option.distinct(1))

lemma rep_chain:
  assumes "hashid_rep hi ch"
  shows "chain (hi_id hi) (hi_hash hi ! hash_of hi i) (ch (hash_of hi i))" "distinct (ch (hash_of hi i))"
    "c \<in> set (ch (hash_of hi i)) \<Longrightarrow> used hi c"
    "index_of hi i = Some c \<longleftrightarrow> c \<in> set (ch (hash_of hi i)) \<and> hn_id (hi_id hi ! c) = i"
proof -
  show 1: "chain (hi_id hi) (hi_hash hi ! hash_of hi i) (ch (hash_of hi i))" "distinct (ch (hash_of hi i))"
    "c \<in> set (ch (hash_of hi i)) \<Longrightarrow> used hi c"
    using assms hash_of_less [of hi i] by (auto simp: hashid_rep_def)
  have "used hi c \<Longrightarrow> c \<in> set (ch (hash_of hi (hn_id (hi_id hi ! c))))" using assms by (simp add: hashid_rep_def)
  with 1(3) show "index_of hi i = Some c \<longleftrightarrow> c \<in> set (ch (hash_of hi i)) \<and> hn_id (hi_id hi ! c) = i"
    unfolding index_of_Some [OF assms] by auto
qed

lemma hashid_lookup_index:
  assumes "hashid_rep hi ch"
  shows "hashid_lookup hi i = Inr (case index_of hi i of None \<Rightarrow> -1 | Some c \<Rightarrow> int c)"
proof -
  let ?xs = "ch (hash_of hi i)"
  have len: "length (hi_hash hi) = Suc (hi_hashmod hi)" using assms by (simp add: hashid_rep_def)
  have f: "find (\<lambda>x. hn_id (hi_id hi ! x) = i) ?xs = index_of hi i"
  proof (cases "find (\<lambda>x. hn_id (hi_id hi ! x) = i) ?xs")
    case None
    then have "index_of hi i \<noteq> Some c" for c using rep_chain(4) [OF assms] by (auto simp: find_None_iff)
    with None show ?thesis by (cases "index_of hi i") auto
  next
    case (Some c)
    then have "c \<in> set ?xs" "hn_id (hi_id hi ! c) = i" by (auto simp: find_Some_iff)
    with Some rep_chain(4) [OF assms, of i c] show ?thesis by simp
  qed
  have "length ?xs < Suc (length (hi_id hi))" using chain_length [OF rep_chain(1,2) [OF assms]] by (simp add: less_Suc_eq_le)
  from lookup_loop_chain [OF rep_chain(1) [OF assms] this] f len hash_of_less [of hi i] show ?thesis
    by (simp add: hashid_lookup_def)
qed

section \<open>Inserting\<close>

text \<open>The same search without machine integers, which it is when the sums stay below \<open>2 ^ 31\<close>.\<close>

fun free_slot :: "nat \<Rightarrow> nat \<Rightarrow> hashid \<Rightarrow> int \<Rightarrow> nat option" where
  "free_slot 0 k hi i = None"
| "free_slot (Suc n) k hi i =
     (let index = nat ((int k + i) mod int (hi_cap hi))
      in if hn_id (hi_id hi ! index) = -1 then Some index else free_slot n (Suc k) hi i)"

lemma free_loop_slot:
  "length (hi_id hi) = hi_cap hi \<Longrightarrow> 0 < hi_cap hi \<Longrightarrow> 0 \<le> i \<Longrightarrow> int (k + n) + i \<le> 2 ^ 31 \<Longrightarrow>
   free_loop n k hi i = Inr (free_slot n k hi i)"
proof (induction n arbitrary: k)
  case (Suc n)
  then have "c_int (int k + i) = int k + i" by (intro c_int_small) simp_all
  moreover have "0 \<le> (int k + i) mod int (hi_cap hi)" "nat ((int k + i) mod int (hi_cap hi)) < hi_cap hi"
    using Suc.prems by (simp_all add: nat_less_iff)
  ultimately show ?case using Suc by (simp add: Let_def c_rem_def)
qed simp

text \<open>For any id of an \<^verbatim>\<open>int\<close> the search finds the same slot or leaves the array: the first sum that
  wraps is \<open>- 2 ^ 31\<close>, which is a multiple of the capacity for a power of two, and the next is not.\<close>

lemma free_loop_wraps:
  assumes len: "length (hi_id hi) = hi_cap hi" and n: "n + k = hi_cap hi" "0 < n" and i: "int k + i = 2 ^ 31"
  shows "free_loop n k hi i \<in> {Inr (free_slot n k hi i), Inl Out_of_bounds}"
proof -
  let ?c = "int (hi_cap hi)"
  obtain m where m: "n = Suc m" using n(2) by (cases n) simp_all
  have s: "int (Suc k) + i = 2 ^ 31 + 1" using i by simp
  have w: "c_int (int k + i) = - (2 ^ 31)" "c_int (int (Suc k) + i) = - (2 ^ 31 - 1)" unfolding i s by (simp_all add: c_int_def)
  have r: "c_rem (- (2 ^ 31)) ?c = - (2 ^ 31 mod ?c)" "c_rem (- (2 ^ 31 - 1)) ?c = - ((2 ^ 31 - 1) mod ?c)" by (simp_all add: c_rem_def)
  have pos: "0 \<le> 2 ^ 31 mod ?c" "0 \<le> (2 ^ 31 - 1) mod ?c" using n by simp_all
  show ?thesis
  proof (cases "2 ^ 31 mod ?c = 0")
    case True
    have "free_loop m (Suc k) hi i = Inl Out_of_bounds" if "m \<noteq> 0"
    proof -
      have "(2 ^ 31 - 1) mod ?c \<noteq> 0"
      proof
        assume "(2 ^ 31 - 1) mod ?c = 0"
        then have "?c dvd 2 ^ 31 - (2 ^ 31 - 1)" using True unfolding mod_eq_0_iff_dvd by (rule dvd_diff [rotated])
        then show False using n m that by simp
      qed
      then show ?thesis using that w(2) r(2) pos(2) by (cases m) (simp_all add: Let_def)
    qed
    with True m w(1) r(1) n len i show ?thesis by (cases m) (simp_all add: Let_def)
  next
    case False
    then show ?thesis using m w(1) r(1) pos(1) by (simp add: Let_def)
  qed
qed

lemma free_loop_any:
  "length (hi_id hi) = hi_cap hi \<Longrightarrow> n + k = hi_cap hi \<Longrightarrow> 0 \<le> i \<Longrightarrow> int k + i \<le> 2 ^ 31 \<Longrightarrow>
   free_loop n k hi i \<in> {Inr (free_slot n k hi i), Inl Out_of_bounds}"
proof (induction n arbitrary: k)
  case (Suc n)
  show ?case
  proof (cases "int k + i = 2 ^ 31")
    case True
    then show ?thesis using free_loop_wraps Suc.prems by blast
  next
    case False
    then have "c_int (int k + i) = int k + i" using Suc.prems by (intro c_int_small) simp_all
    moreover have "0 \<le> (int k + i) mod int (hi_cap hi)" "nat ((int k + i) mod int (hi_cap hi)) < hi_cap hi"
      using Suc.prems by (simp_all add: nat_less_iff)
    ultimately show ?thesis using Suc.IH [of "Suc k"] Suc.prems False by (simp add: Let_def c_rem_def)
  qed
qed simp

lemma free_slot_Some: "free_slot n k hi i = Some c \<Longrightarrow> 0 < hi_cap hi \<Longrightarrow> c < hi_cap hi \<and> hn_id (hi_id hi ! c) = -1"
  by (induction n arbitrary: k) (auto simp: Let_def nat_less_iff split: if_splits)

lemma free_slot_None:
  "free_slot n k hi i = None \<Longrightarrow> j < n \<Longrightarrow> hn_id (hi_id hi ! nat ((int (k + j) + i) mod int (hi_cap hi))) \<noteq> -1"
proof (induction n arbitrary: k j)
  case (Suc n)
  show ?case
  proof (cases j)
    case 0
    with Suc.prems(1) show ?thesis by (auto simp: Let_def split: if_splits)
  next
    case (Suc j')
    with Suc.prems Suc.IH [of "Suc k" j'] show ?thesis by (auto simp: Let_def split: if_splits)
  qed
qed simp

lemma free_slot_finds:
  assumes "c < hi_cap hi" "hn_id (hi_id hi ! c) = -1"
  shows "\<exists>c'. free_slot (hi_cap hi) 0 hi i = Some c'"
proof (rule ccontr)
  assume "\<not> ?thesis"
  then have n: "free_slot (hi_cap hi) 0 hi i = None" by (cases "free_slot (hi_cap hi) 0 hi i") auto
  let ?j = "nat ((int c - i) mod int (hi_cap hi))"
  have "?j < hi_cap hi" using assms(1) by (simp add: nat_less_iff)
  moreover have "(int ?j + i) mod int (hi_cap hi) = int c"
    using assms(1) by (simp add: mod_add_left_eq)
  ultimately show False using free_slot_None [OF n, of ?j] assms(2) by simp
qed

lemma not_full_free:
  assumes "hashid_rep hi ch" "\<not> hashid_full hi"
  obtains c where "c < hi_cap hi" "hn_id (hi_id hi ! c) = -1"
proof (rule ccontr)
  assume "\<not> thesis"
  then have "{c. used hi c} = {..<hi_cap hi}" using that by (auto simp: used_def)
  then show False using assms by (simp add: hashid_rep_def hashid_full_def)
qed

lemma finite_used [simp]: "finite {c. used hi c}"
  by (rule finite_subset [of _ "{..<hi_cap hi}"]) (auto simp: used_def)

lemma insert_rep:
  assumes rep: "hashid_rep hi ch" and c: "c < hi_cap hi" "hn_id (hi_id hi ! c) = -1"
    and i: "i \<noteq> -1" "index_of hi i = None"
  defines "h \<equiv> hash_of hi i"
  defines "hi' \<equiv> hi\<lparr>hi_count := hi_count hi + 1, hi_id := (hi_id hi)[c := \<lparr>hn_id = i, hn_next = hi_hash hi ! h\<rparr>],
                      hi_hash := (hi_hash hi)[h := Some c]\<rparr>"
  shows "hashid_rep hi' (ch(h := c # ch h))"
proof -
  have len: "length (hi_id hi) = hi_cap hi" "length (hi_hash hi) = Suc (hi_hashmod hi)" and h: "h < Suc (hi_hashmod hi)"
    using rep hash_of_less by (simp_all add: hashid_rep_def h_def)
  have hash: "hash_of hi' = hash_of hi" by (simp add: hi'_def hash_of_def fun_eq_iff)
  have used': "used hi' d \<longleftrightarrow> d = c \<or> used hi d" for d
    using c(1) len(1) i(1) by (auto simp: hi'_def used_def nth_list_update)
  have id': "hn_id (hi_id hi' ! d) = (if d = c then i else hn_id (hi_id hi ! d))" for d
    using c(1) len(1) by (auto simp: hi'_def nth_list_update)
  have nu: "\<not> used hi c" using c(2) by (simp add: used_def)
  have cu: "c \<notin> set (ch k)" if "k < Suc (hi_hashmod hi)" for k using rep that nu by (auto simp: hashid_rep_def)
  have R: "chain (hi_id hi) (hi_hash hi ! k) (ch k)" "distinct (ch k)"
    "\<And>d. d \<in> set (ch k) \<Longrightarrow> used hi d \<and> hash_of hi (hn_id (hi_id hi ! d)) = k" if "k < Suc (hi_hashmod hi)" for k
    using rep that by (auto simp: hashid_rep_def)
  show ?thesis
  proof (rule hashid_repI, goal_cases)
    case (3 k)
    then have k: "k < Suc (hi_hashmod hi)" by (simp add: hi'_def)
    show ?case
    proof (cases "k = h")
      case True
      have "chain (hi_id hi') (hi_hash hi' ! h) (c # ch h)"
        using R(1) [OF h] cu [OF h] c(1) len h by (simp add: hi'_def chain_frame)
      with True R(2,3) [OF h] cu [OF h] show ?thesis by (auto simp: used' id' hash h_def)
    next
      case False
      have "chain (hi_id hi') (hi_hash hi' ! k) (ch k)"
        using R(1) [OF k] cu [OF k] False by (simp add: hi'_def chain_frame)
      with False R(2,3) [OF k] cu [OF k] show ?thesis by (auto simp: used' id' hash)
    qed
  next
    case (4 d)
    show ?case
    proof (cases "d = c")
      case False
      with 4 have "d \<in> set (ch (hash_of hi (hn_id (hi_id hi ! d))))" using rep by (simp add: used' hashid_rep_def)
      with False show ?thesis by (auto simp: id' hash)
    qed (simp add: id' hash h_def)
  next
    case (5 d)
    then show ?case using rep c(1) len(1) i(1) by (auto simp: hi'_def nth_list_update hashid_rep_def split: if_splits)
  next
    case (6 d e)
    have no: "used hi x \<Longrightarrow> hn_id (hi_id hi ! x) \<noteq> i" for x using i(2) index_of_None [OF rep] by simp
    show ?case
    proof (cases "d = c \<or> e = c")
      case True
      then show ?thesis using 6 no [of d] no [of e] by (auto simp: used' id' split: if_splits)
    next
      case False
      then show ?thesis using 6 rep_inj [OF rep, of d e] by (simp add: used' id')
    qed
  next
    case 7
    have "{d. used hi' d} = insert c {d. used hi d}" by (auto simp: used')
    then show ?case using rep nu by (simp add: hi'_def hashid_rep_def)
  qed (use len in \<open>simp_all add: hi'_def\<close>)
qed

lemma hashid_insert_found:
  assumes rep: "hashid_rep hi ch" and "\<not> hashid_full hi" "0 \<le> i" "index_of hi i = None"
    and loop: "free_loop (hi_cap hi) 0 hi i = Inr (free_slot (hi_cap hi) 0 hi i)"
  shows "\<exists>c hi'. hashid_insert hi i = Inr (c, hi') \<and> \<not> used hi c \<and> c < hi_cap hi \<and> hashid_ok hi'
    \<and> hi_cap hi' = hi_cap hi \<and> hi_count hi' = hi_count hi + 1
    \<and> (\<forall>j. index_of hi' j = (if j = i then Some c else index_of hi j))"
proof -
  obtain c0 where "c0 < hi_cap hi" "hn_id (hi_id hi ! c0) = -1" using not_full_free [OF rep assms(2)] .
  then obtain c where fl: "free_slot (hi_cap hi) 0 hi i = Some c" "c < hi_cap hi" "hn_id (hi_id hi ! c) = -1" "0 < hi_cap hi"
    using free_slot_finds [of c0 hi i] free_slot_Some by fastforce
  let ?h = "hash_of hi i"
  let ?hi = "hi\<lparr>hi_count := hi_count hi + 1, hi_id := (hi_id hi)[c := \<lparr>hn_id = i, hn_next = hi_hash hi ! ?h\<rparr>],
               hi_hash := (hi_hash hi)[?h := Some c]\<rparr>"
  have rep': "hashid_rep ?hi (ch(?h := c # ch ?h))" using insert_rep [OF rep fl(2,3) _ assms(4)] assms(3) by simp
  have len: "length (hi_id hi) = hi_cap hi" using rep by (simp add: hashid_rep_def)
  have "hashid_insert hi i = Inr (c, ?hi)"
    using fl rep hash_of_less [of hi i] loop len by (simp add: hashid_insert_def hashid_rep_def Let_def)
  moreover have "index_of ?hi j = (if j = i then Some c else index_of hi j)" for j
  proof (rule option_eqI)
    fix d
    have "\<not> (used hi d \<and> hn_id (hi_id hi ! d) = i)" using assms(4) index_of_None [OF rep] by blast
    then show "index_of ?hi j = Some d \<longleftrightarrow> (if j = i then Some c else index_of hi j) = Some d"
      using fl(2,3) len assms(3) index_of_Some [OF rep', of j d] index_of_Some [OF rep, of j d]
      by (cases "d = c") (auto simp: used_def)
  qed
  ultimately show ?thesis using fl rep' by (auto simp: used_def hashid_ok_def)
qed

lemma hashid_insert_correct:
  assumes rep: "hashid_rep hi ch" and "\<not> hashid_full hi" "0 \<le> i" "index_of hi i = None" "i + int (hi_cap hi) \<le> 2 ^ 31"
  shows "\<exists>c hi'. hashid_insert hi i = Inr (c, hi') \<and> \<not> used hi c \<and> c < hi_cap hi \<and> hashid_ok hi'
    \<and> hi_cap hi' = hi_cap hi \<and> hi_count hi' = hi_count hi + 1
    \<and> (\<forall>j. index_of hi' j = (if j = i then Some c else index_of hi j))"
proof -
  obtain c0 where "c0 < hi_cap hi" using not_full_free [OF rep assms(2)] .
  then show ?thesis using rep assms(3,5) free_loop_slot [of hi i 0 "hi_cap hi"]
    by (intro hashid_insert_found [OF assms(1-4)]) (simp add: hashid_rep_def add.commute)
qed

lemma hashid_insert_any:
  assumes rep: "hashid_rep hi ch" and "\<not> hashid_full hi" "0 \<le> i" "index_of hi i = None" "i < 2 ^ 31"
  shows "hashid_insert hi i = Inl Out_of_bounds
    \<or> (\<exists>c hi'. hashid_insert hi i = Inr (c, hi') \<and> \<not> used hi c \<and> c < hi_cap hi \<and> hashid_ok hi'
      \<and> hi_cap hi' = hi_cap hi \<and> hi_count hi' = hi_count hi + 1
      \<and> (\<forall>j. index_of hi' j = (if j = i then Some c else index_of hi j)))"
proof -
  have "length (hi_id hi) = hi_cap hi" using rep by (simp add: hashid_rep_def)
  then consider "free_loop (hi_cap hi) 0 hi i = Inr (free_slot (hi_cap hi) 0 hi i)" | "free_loop (hi_cap hi) 0 hi i = Inl Out_of_bounds"
    using free_loop_any [of hi "hi_cap hi" 0 i] assms(3,5) by auto
  then show ?thesis
  proof cases
    case 1
    then show ?thesis using hashid_insert_found [OF assms(1-4)] by blast
  next
    case 2
    then show ?thesis by (simp add: hashid_insert_def)
  qed
qed

section \<open>Removing\<close>

lemma chain_unlink:
  "chain ns p (ys @ b # t # zs) \<Longrightarrow> distinct (ys @ b # t # zs) \<Longrightarrow>
   chain (ns[b := (ns ! b)\<lparr>hn_next := hn_next (ns ! t)\<rparr>, t := nd]) p (ys @ b # zs)"
proof (induction ys arbitrary: p)
  case Nil
  then show ?case by (auto simp: chain_frame)
next
  case (Cons y ys)
  then show ?case by auto
qed

lemma remove_loop_chain:
  assumes "chain (hi_id hi) p (a # xs)" "length xs < n" "hn_id (hi_id hi ! a) \<noteq> i"
  shows "(\<forall>x\<in>set xs. hn_id (hi_id hi ! x) \<noteq> i) \<and> remove_loop n hi a i = Inr (-1, hi)
    \<or> (\<exists>ys b t zs. a # xs = ys @ b # t # zs \<and> hn_id (hi_id hi ! t) = i
        \<and> remove_loop n hi a i
          = Inr (clear_node (hi\<lparr>hi_id := (hi_id hi)[b := (hi_id hi ! b)\<lparr>hn_next := hn_next (hi_id hi ! t)\<rparr>]\<rparr>) t))"
  using assms
proof (induction xs arbitrary: p a n)
  case Nil
  then obtain m where "n = Suc m" by (cases n) auto
  with Nil show ?case by (auto simp: node_at_def)
next
  case (Cons x xs)
  then obtain m where n: "n = Suc m" "length xs < m" by (cases n) auto
  have c: "a < length (hi_id hi)" "hn_next (hi_id hi ! a) = Some x" "x < length (hi_id hi)"
    "chain (hi_id hi) (Some x) (x # xs)" using Cons.prems(1) by auto
  show ?case
  proof (cases "hn_id (hi_id hi ! x) = i")
    case True
    then have "remove_loop n hi a i
        = Inr (clear_node (hi\<lparr>hi_id := (hi_id hi)[a := (hi_id hi ! a)\<lparr>hn_next := hn_next (hi_id hi ! x)\<rparr>]\<rparr>) x)"
      using c n(1) by (simp add: node_at_def)
    with True show ?thesis by (intro disjI2 exI [of _ "[]"] exI [of _ a] exI [of _ x] exI [of _ xs]) simp
  next
    case False
    then have eq: "remove_loop n hi a i = remove_loop m hi x i" using c n(1) by (simp add: node_at_def)
    from Cons.IH [OF c(4) n(2) False] show ?thesis
    proof (elim disjE exE conjE, goal_cases)
      case 1
      with False eq show ?thesis by simp
    next
      case (2 ys b t zs)
      then show ?thesis unfolding eq by (intro disjI2 exI [of _ "a # ys"] exI [of _ b] exI [of _ t] exI [of _ zs]) simp
    qed
  qed
qed

lemma remove_rep:
  assumes rep: "hashid_rep hi ch" and c: "index_of hi i = Some c"
    and ns: "length ns = length (hi_id hi)" "ns ! c = \<lparr>hn_id = -1, hn_next = None\<rparr>"
      "\<And>d. d \<noteq> c \<Longrightarrow> hn_id (ns ! d) = hn_id (hi_id hi ! d)"
      "\<And>d. d \<notin> set (ch (hash_of hi i)) \<Longrightarrow> ns ! d = hi_id hi ! d"
    and hs: "length hs = length (hi_hash hi)" "\<And>k. k \<noteq> hash_of hi i \<Longrightarrow> hs ! k = hi_hash hi ! k"
      "chain ns (hs ! hash_of hi i) (remove1 c (ch (hash_of hi i)))"
  defines "hi' \<equiv> hi\<lparr>hi_id := ns, hi_hash := hs, hi_count := hi_count hi - 1\<rparr>"
  defines "ch' \<equiv> ch(hash_of hi i := remove1 c (ch (hash_of hi i)))"
  shows "hashid_rep hi' ch'"
proof -
  let ?h = "hash_of hi i"
  have len: "length (hi_id hi) = hi_cap hi" "length (hi_hash hi) = Suc (hi_hashmod hi)" using rep by (simp_all add: hashid_rep_def)
  have cu: "used hi c" "hn_id (hi_id hi ! c) = i" using c index_of_Some [OF rep] by auto
  have hash: "hash_of hi' = hash_of hi" by (simp add: hi'_def hash_of_def fun_eq_iff)
  have used': "used hi' d \<longleftrightarrow> d \<noteq> c \<and> used hi d" for d
    using ns(2) ns(3) [of d] by (cases "d = c") (simp_all add: hi'_def used_def)
  have id': "hn_id (hi_id hi' ! d) = hn_id (hi_id hi ! d)" if "d \<noteq> c" for d using ns(3) [OF that] by (simp add: hi'_def)
  have R: "chain (hi_id hi) (hi_hash hi ! k) (ch k)" "distinct (ch k)"
    "\<And>d. d \<in> set (ch k) \<Longrightarrow> used hi d \<and> hash_of hi (hn_id (hi_id hi ! d)) = k" if "k < Suc (hi_hashmod hi)" for k
    using rep that by (auto simp: hashid_rep_def)
  have chain_other: "chain ns p xs = chain (hi_id hi) p xs" if "set xs \<inter> set (ch ?h) = {}" for p xs
    using that by (induction xs arbitrary: p) (auto simp: ns(1,4))
  show ?thesis
  proof (rule hashid_repI, goal_cases)
    case (3 k)
    then have k: "k < Suc (hi_hashmod hi)" by (simp add: hi'_def)
    show ?case
    proof (cases "k = ?h")
      case True
      then have "set (ch' k) = set (ch k) - {c}" "distinct (ch' k)" using R(2) [OF k] by (simp_all add: ch'_def)
      then show ?thesis using True R(3) [OF k] hs(3) by (auto simp: used' id' hash) (simp add: hi'_def ch'_def)
    next
      case False
      have "set (ch k) \<inter> set (ch ?h) = {}" using R(3) [OF k] R(3) [OF hash_of_less [of hi i]] False by blast
      with chain_other [OF this, of "hi_hash hi ! k"] R(1) [OF k] False hs(2) [OF False]
      have "chain (hi_id hi') (hi_hash hi' ! k) (ch' k)" by (simp add: hi'_def ch'_def)
      moreover have nc: "d \<noteq> c" if "d \<in> set (ch k)" for d using R(3) [OF k] cu(2) False that by blast
      ultimately show ?thesis using False R(2,3) [OF k] by (simp add: ch'_def used' id' [OF nc] hash nc)
    qed
  next
    case (4 d)
    then have d: "d \<noteq> c" "d \<in> set (ch (hash_of hi (hn_id (hi_id hi ! d))))" using rep by (auto simp: used' hashid_rep_def)
    with R(2) [OF hash_of_less [of hi i]] show ?case by (auto simp: ch'_def id' hash)
  next
    case (5 d)
    show ?case
    proof (cases "d = c")
      case True
      then show ?thesis using ns(2) by (simp add: hi'_def)
    next
      case False
      with 5 have "\<not> used hi d" "d < hi_cap hi" "hn_id (hi_id hi ! d) = -1" by (auto simp: id' used_def) (simp_all add: hi'_def)
      moreover have "d \<notin> set (ch ?h)" using R(3) [OF hash_of_less [of hi i]] \<open>\<not> used hi d\<close> by blast
      ultimately show ?thesis using ns(4) rep by (simp add: hi'_def hashid_rep_def)
    qed
  next
    case (6 d e)
    then show ?case using rep_inj [OF rep, of d e] by (simp add: used' id')
  next
    case 7
    have "{d. used hi' d} = {d. used hi d} - {c}" by (auto simp: used')
    then have "card {d. used hi' d} = card {d. used hi d} - 1" using cu(1) by simp
    moreover have "0 < card {d. used hi d}" using cu(1) by (auto simp: card_gt_0_iff)
    ultimately show ?case using rep by (simp add: hi'_def hashid_rep_def)
  qed (use len ns(1) hs(1) in \<open>simp_all add: hi'_def\<close>)
qed

text \<open>What \<^verbatim>\<open>hashid_remove\<close> is to do: return the index of the id, or -1, and take the id out.\<close>

definition removed :: "hashid \<Rightarrow> int \<Rightarrow> c_error + (int \<times> hashid) \<Rightarrow> bool" where
  "removed hi i r \<longleftrightarrow>
     (\<exists>hi'. r = Inr (case index_of hi i of None \<Rightarrow> -1 | Some c \<Rightarrow> int c, hi') \<and> hashid_ok hi'
       \<and> hi_cap hi' = hi_cap hi \<and> (\<forall>j. index_of hi' j = (if j = i then None else index_of hi j)))"

lemma removed_absent: "hashid_rep hi ch \<Longrightarrow> index_of hi i = None \<Longrightarrow> removed hi i (Inr (-1, hi))"
  by (auto simp: removed_def hashid_ok_def)

lemma removed_present:
  assumes rep: "hashid_rep hi ch" and c: "index_of hi i = Some c"
    and ns: "length ns = length (hi_id hi)" "\<And>d. d \<noteq> c \<Longrightarrow> hn_id (ns ! d) = hn_id (hi_id hi ! d)"
      "\<And>d. d \<notin> set (ch (hash_of hi i)) \<Longrightarrow> ns ! d = hi_id hi ! d"
    and hs: "length hs = length (hi_hash hi)" "\<And>k. k \<noteq> hash_of hi i \<Longrightarrow> hs ! k = hi_hash hi ! k"
      "chain (ns[c := \<lparr>hn_id = -1, hn_next = None\<rparr>]) (hs ! hash_of hi i) (remove1 c (ch (hash_of hi i)))"
  shows "removed hi i (Inr (clear_node (hi\<lparr>hi_id := ns, hi_hash := hs\<rparr>) c))"
proof -
  let ?h = "hash_of hi i" and ?xs = "ch (hash_of hi i)"
  let ?ns = "ns[c := \<lparr>hn_id = -1, hn_next = None\<rparr>]"
  let ?hi = "hi\<lparr>hi_id := ?ns, hi_hash := hs, hi_count := hi_count hi - 1\<rparr>"
  have cu: "used hi c" "hn_id (hi_id hi ! c) = i" "c \<in> set ?xs"
    using c rep_chain(4) [OF rep, of i c] index_of_Some [OF rep] by auto
  then have cl: "c < length ns" using rep ns(1) by (simp add: used_def hashid_rep_def)
  then have rep': "hashid_rep ?hi (ch(?h := remove1 c ?xs))"
    using ns hs cu(3) by (intro remove_rep [OF rep c]) (auto simp: nth_list_update)
  have "index_of ?hi j = (if j = i then None else index_of hi j)" for j
  proof (rule option_eqI)
    fix d
    show "index_of ?hi j = Some d \<longleftrightarrow> (if j = i then None else index_of hi j) = Some d"
      using index_of_Some [OF rep', of j d] index_of_Some [OF rep, of j d] rep_inj [OF rep, of c d] cu cl ns(2) [of d]
      by (cases "d = c") (auto simp: used_def)
  qed
  moreover have "clear_node (hi\<lparr>hi_id := ns, hi_hash := hs\<rparr>) c = (int c, ?hi)" by (simp add: clear_node_def)
  moreover have "hashid_ok ?hi" using rep' by (auto simp: hashid_ok_def)
  ultimately show ?thesis unfolding removed_def using c by (intro exI [of _ ?hi]) simp
qed

lemma removed_middle:
  assumes rep: "hashid_rep hi ch" and xs: "ch (hash_of hi i) = ys @ b # t # zs" and t: "hn_id (hi_id hi ! t) = i"
  shows "removed hi i (Inr (clear_node (hi\<lparr>hi_id := (hi_id hi)[b := (hi_id hi ! b)\<lparr>hn_next := hn_next (hi_id hi ! t)\<rparr>]\<rparr>) t))"
proof -
  note ch = rep_chain [OF rep, where i = i]
  have it: "index_of hi i = Some t" and d: "distinct (ys @ b # t # zs)" using ch(2) ch(4) xs t by simp_all
  then have rm: "remove1 t (ch (hash_of hi i)) = ys @ b # zs" unfolding xs by (simp add: remove1_append)
  let ?ns = "(hi_id hi)[b := (hi_id hi ! b)\<lparr>hn_next := hn_next (hi_id hi ! t)\<rparr>]"
  have "chain (?ns[t := \<lparr>hn_id = -1, hn_next = None\<rparr>]) (hi_hash hi ! hash_of hi i) (remove1 t (ch (hash_of hi i)))"
    using chain_unlink [OF _ d] ch(1) rm xs by simp
  moreover have "hn_id (?ns ! d) = hn_id (hi_id hi ! d)" for d
    by (cases "d < length (hi_id hi)"; cases "d = b") (auto simp: list_update_beyond)
  ultimately have "removed hi i (Inr (clear_node (hi\<lparr>hi_id := ?ns, hi_hash := hi_hash hi\<rparr>) t))"
    using xs by (intro removed_present [OF rep it]) auto
  then show ?thesis by simp
qed

lemma hashid_remove_correct:
  assumes rep: "hashid_rep hi ch"
  shows "removed hi i (hashid_remove hi i)"
proof (cases "ch (hash_of hi i)")
  case Nil
  note ch = rep_chain [OF rep, where i = i]
  have "index_of hi i = None" using ch(4) Nil by (cases "index_of hi i") auto
  moreover have "hashid_remove hi i = Inr (-1, hi)"
    using rep ch(1) Nil hash_of_less [of hi i] by (simp add: hashid_remove_def Let_def hashid_rep_def)
  ultimately show ?thesis using removed_absent [OF rep] by simp
next
  case (Cons a xs)
  note ch = rep_chain [OF rep, where i = i]
  have len: "hash_of hi i < length (hi_hash hi)" using rep hash_of_less [of hi i] by (simp add: hashid_rep_def)
  have a: "hi_hash hi ! hash_of hi i = Some a" "a < length (hi_id hi)" "chain (hi_id hi) (hn_next (hi_id hi ! a)) xs" "a \<notin> set xs"
    using ch(1,2) Cons by auto
  show ?thesis
  proof (cases "hn_id (hi_id hi ! a) = i")
    case True
    then have ia: "index_of hi i = Some a" using ch(4) Cons by simp
    have "chain ((hi_id hi)[a := \<lparr>hn_id = -1, hn_next = None\<rparr>]) (hn_next (hi_id hi ! a)) xs" using a(3,4) by (simp add: chain_frame)
    then have "removed hi i (Inr (clear_node (hi\<lparr>hi_id := hi_id hi, hi_hash := (hi_hash hi)[hash_of hi i := hn_next (hi_id hi ! a)]\<rparr>) a))"
      using len Cons by (intro removed_present [OF rep ia]) auto
    then show ?thesis using True a len by (simp add: hashid_remove_def Let_def node_at_def)
  next
    case False
    have eq: "hashid_remove hi i = remove_loop (Suc (length (hi_id hi))) hi a i"
      using False a len by (simp add: hashid_remove_def Let_def node_at_def)
    have lt: "length xs < Suc (length (hi_id hi))" using chain_length [OF ch(1,2)] Cons by simp
    have c: "chain (hi_id hi) (Some a) (a # xs)" using a by simp
    from remove_loop_chain [OF c lt False] consider
      "\<forall>x\<in>set xs. hn_id (hi_id hi ! x) \<noteq> i" "hashid_remove hi i = Inr (-1, hi)"
      | ys b t zs where "a # xs = ys @ b # t # zs" "hn_id (hi_id hi ! t) = i"
        "hashid_remove hi i = Inr (clear_node (hi\<lparr>hi_id := (hi_id hi)[b := (hi_id hi ! b)\<lparr>hn_next := hn_next (hi_id hi ! t)\<rparr>]\<rparr>) t)"
      unfolding eq by blast
    then show ?thesis
    proof cases
      case 1
      then have "index_of hi i = None" using ch(4) Cons False by (cases "index_of hi i") auto
      with removed_absent [OF rep] 1(2) show ?thesis by simp
    next
      case 2
      then show ?thesis using removed_middle [OF rep _ 2(2)] Cons by simp
    qed
  qed
qed

section \<open>The table is a map\<close>

lemma hashcap_stop: "mx \<le> h \<Longrightarrow> 0 < n \<Longrightarrow> hashcap_loop n h mx = Inr h"
  by (cases n) simp_all

lemma hashcap_ends: "k \<le> 30 \<Longrightarrow> 30 < n + k \<Longrightarrow> mx \<le> 2 ^ 30 \<Longrightarrow> \<exists>j\<le>30. hashcap_loop n (2 ^ k) mx = Inr (2 ^ j) \<and> mx \<le> 2 ^ j"
proof (induction n arbitrary: k)
  case (Suc n)
  show ?case
  proof (cases "(2::int) ^ k < mx")
    case True
    then have "(2::int) ^ k < 2 ^ 30" using Suc.prems(3) by linarith
    then have k: "k < 30" by (simp only: power_strict_increasing_iff)
    then have "(2::int) ^ Suc k < 2 ^ 31" by (intro power_strict_increasing) simp_all
    then have "c_int (2 ^ k * 2) = 2 ^ Suc k" by (simp add: mult.commute)
    with True Suc.IH [of "Suc k"] Suc.prems k show ?thesis by (simp add: mult.commute)
  qed (use Suc.prems in \<open>auto\<close>)
qed simp

lemma hashcap_zero: "0 < mx \<Longrightarrow> hashcap_loop n 0 mx = Inl Diverges"
  by (induction n) (simp_all add: c_int_def)

lemma hashcap_diverges: "k \<le> 30 \<Longrightarrow> 2 ^ 30 < mx \<Longrightarrow> hashcap_loop n (2 ^ k) mx = Inl Diverges"
proof (induction n arbitrary: k)
  case (Suc n)
  have "(2::int) ^ k \<le> 2 ^ 30" using Suc.prems(1) by (intro power_increasing) simp_all
  then have lt: "(2::int) ^ k < mx" using Suc.prems(2) by linarith
  show ?case
  proof (cases "k = 30")
    case True
    have w: "c_int (2 ^ 31) = - (2 ^ 31)" "c_int (- (2 ^ 32)) = 0" by (simp_all add: c_int_def)
    have "hashcap_loop n (- (2 ^ 31)) mx = Inl Diverges" using Suc.prems(2) w(2) hashcap_zero [of mx] by (cases n) simp_all
    with lt w(1) True show ?thesis by simp
  next
    case False
    then have k: "Suc k \<le> 30" using Suc.prems(1) by simp
    then have "(2::int) ^ Suc k < 2 ^ 31" by (intro power_strict_increasing) simp_all
    then have "c_int (2 ^ k * 2) = 2 ^ Suc k" by (simp add: mult.commute)
    with lt Suc.IH [OF k] Suc.prems(2) show ?thesis by (simp add: mult.commute)
  qed
qed simp

text \<open>A table for more than \<open>2 ^ 30\<close> connections is never built.\<close>

lemma hashid_init_diverges: "2 ^ 30 < mx \<Longrightarrow> hashid_init mx = Inl Diverges"
  using hashcap_diverges [of 4 mx 32] by (simp add: hashid_init_def)

lemma hashid_init_cap: "hashid_init mx = Inr hi \<Longrightarrow> hi_cap hi = nat mx \<and> hi_count hi = 0"
  by (auto simp: hashid_init_def rbind_eq_Inr)

lemma hashid_init_ok:
  assumes "hashid_init mx = Inr hi"
  shows "hashid_ok hi" "index_of hi i = None"
proof -
  have le: "mx \<le> 2 ^ 30" using hashid_init_diverges [of mx] assms by (cases "mx \<le> 2 ^ 30") simp_all
  obtain j where "hashcap_loop 32 16 mx = Inr (2 ^ j)" using hashcap_ends [of 4 32 mx] le by auto
  then have hi: "hi = \<lparr>hi_hashmod = nat (2 ^ j - 1), hi_cap = nat mx, hi_count = 0,
      hi_id = replicate (nat mx) \<lparr>hn_id = -1, hn_next = None\<rparr>, hi_hash = replicate (nat (2 ^ j)) None\<rparr>"
    using assms by (simp add: hashid_init_def)
  have u: "\<not> used hi c" for c by (auto simp: used_def hi)
  have "Suc (nat (2 ^ j - 1)) = nat (2 ^ j)" by (simp add: nat_diff_distrib nat_power_eq)
  then have rep: "hashid_rep hi (\<lambda>_. [])" by (intro hashid_repI) (use u in \<open>auto simp: hi\<close>)
  then show "hashid_ok hi" by (auto simp: hashid_ok_def)
  show "index_of hi i = None" using u index_of_None [OF rep] by simp
qed

lemma hashid_init_total: "mx \<le> 2 ^ 30 \<Longrightarrow> \<exists>hi. hashid_init mx = Inr hi"
  using hashcap_ends [of 4 32 mx] by (auto simp: hashid_init_def)

definition hashid_delete :: "int \<Rightarrow> hashid \<Rightarrow> hashid" where
  "hashid_delete i hi = snd (projr (hashid_remove hi i))"

lemma hashid_delete_correct:
  assumes "hashid_ok hi"
  shows "hashid_ok (hashid_delete i hi) \<and> index_of (hashid_delete i hi) j = (if j = i then None else index_of hi j)"
proof -
  obtain ch where "hashid_rep hi ch" using assms by (auto simp: hashid_ok_def)
  from hashid_remove_correct [OF this, of i] show ?thesis by (auto simp: removed_def hashid_delete_def)
qed

interpretation hid: registry index_of hashid_delete hashid_ok
  by unfold_locales (simp_all add: hashid_delete_correct)

section \<open>The interface of the table\<close>

text \<open>
  What the gate relies on: ids have slots, a slot belongs to one id, and the three operations
  return the slots as the map says. A lookup or a removal returns -1 for an unknown id.
\<close>

definition slot :: "nat option \<Rightarrow> int" where
  "slot x = (case x of None \<Rightarrow> -1 | Some c \<Rightarrow> int c)"

lemma slot_simps [simp]: "slot None = -1" "slot (Some c) = int c" "slot x < 0 \<longleftrightarrow> x = None"
  by (simp_all add: slot_def split: option.split)

locale slot_map =
  fixes index :: "'t \<Rightarrow> int \<Rightarrow> nat option"
    and cap :: "'t \<Rightarrow> nat"
    and invar :: "'t \<Rightarrow> bool"
    and full :: "'t \<Rightarrow> bool"
    and lookup :: "'t \<Rightarrow> int \<Rightarrow> c_error + int"
    and insert_id :: "'t \<Rightarrow> int \<Rightarrow> c_error + (nat \<times> 't)"
    and remove_id :: "'t \<Rightarrow> int \<Rightarrow> c_error + (int \<times> 't)"
  assumes index_less: "invar t \<Longrightarrow> index t i = Some c \<Longrightarrow> c < cap t"
    and index_inj: "invar t \<Longrightarrow> index t i = Some c \<Longrightarrow> index t j = Some c \<Longrightarrow> i = j"
    and lookup_slot: "invar t \<Longrightarrow> lookup t i = Inr (slot (index t i))"
    and insert_slot: "invar t \<Longrightarrow> \<not> full t \<Longrightarrow> 0 \<le> i \<Longrightarrow> i + int (cap t) \<le> 2 ^ 31 \<Longrightarrow> index t i = None \<Longrightarrow>
      \<exists>c t'. insert_id t i = Inr (c, t') \<and> invar t' \<and> cap t' = cap t \<and> c < cap t \<and> c \<notin> ran (index t) \<and> index t' = (index t)(i \<mapsto> c)"
    and remove_slot: "invar t \<Longrightarrow>
      \<exists>t'. remove_id t i = Inr (slot (index t i), t') \<and> invar t' \<and> cap t' = cap t \<and> index t' = (index t)(i := None)"
begin

lemma lookup_cases:
  assumes "invar t"
  obtains (unknown) "lookup t i = Inr (-1)" "index t i = None"
  | (known) c where "lookup t i = Inr (int c)" "index t i = Some c" "c < cap t"
  using assms by (cases "index t i") (auto simp: lookup_slot index_less)

lemma ran_remove: "invar t \<Longrightarrow> index t i = Some c \<Longrightarrow> ran ((index t)(i := None)) = ran (index t) - {c}"
  by (auto simp: ran_def dest: index_inj)

end

lemma hashid_index_less: "hashid_ok hi \<Longrightarrow> index_of hi i = Some c \<Longrightarrow> c < hi_cap hi"
  by (auto simp: hashid_ok_def index_of_Some used_def)

lemma hashid_index_inj: "hashid_ok hi \<Longrightarrow> index_of hi i = Some c \<Longrightarrow> index_of hi j = Some c \<Longrightarrow> i = j"
  by (auto simp: hashid_ok_def index_of_Some)

lemma hashid_insert_slot:
  assumes "hashid_ok hi" "\<not> hashid_full hi" "0 \<le> i" "i + int (hi_cap hi) \<le> 2 ^ 31" "index_of hi i = None"
  shows "\<exists>c hi'. hashid_insert hi i = Inr (c, hi') \<and> hashid_ok hi' \<and> hi_cap hi' = hi_cap hi \<and> c < hi_cap hi
    \<and> c \<notin> ran (index_of hi) \<and> index_of hi' = (index_of hi)(i \<mapsto> c)"
proof -
  obtain ch where rep: "hashid_rep hi ch" using assms(1) by (auto simp: hashid_ok_def)
  from hashid_insert_correct [OF rep, of i] assms(2-) show ?thesis
    by (auto simp: ran_def fun_eq_iff index_of_Some [OF rep])
qed

lemma hashid_insert_wraps:
  assumes "hashid_ok hi" "\<not> hashid_full hi" "0 \<le> i" "i < 2 ^ 31" "index_of hi i = None" "hashid_insert hi i \<noteq> Inl Out_of_bounds"
  shows "\<exists>c hi'. hashid_insert hi i = Inr (c, hi') \<and> hashid_ok hi' \<and> c < hi_cap hi \<and> c \<notin> ran (index_of hi)
    \<and> index_of hi' = (index_of hi)(i \<mapsto> c)"
proof -
  obtain ch where rep: "hashid_rep hi ch" using assms(1) by (auto simp: hashid_ok_def)
  from hashid_insert_any [OF rep, of i] assms(2-) show ?thesis
    by (auto simp: ran_def fun_eq_iff index_of_Some [OF rep])
qed

lemma hashid_remove_slot:
  assumes "hashid_ok hi"
  shows "\<exists>hi'. hashid_remove hi i = Inr (slot (index_of hi i), hi') \<and> hashid_ok hi' \<and> hi_cap hi' = hi_cap hi
    \<and> index_of hi' = (index_of hi)(i := None)"
proof -
  obtain ch where "hashid_rep hi ch" using assms by (auto simp: hashid_ok_def)
  from hashid_remove_correct [OF this, of i] show ?thesis by (auto simp: removed_def fun_eq_iff slot_def)
qed

lemma hashid_lookup_slot: "hashid_ok hi \<Longrightarrow> hashid_lookup hi i = Inr (slot (index_of hi i))"
  by (auto simp: hashid_ok_def hashid_lookup_index slot_def)

interpretation slots: slot_map index_of hi_cap hashid_ok hashid_full hashid_lookup hashid_insert hashid_remove
  by unfold_locales
    (simp_all add: hashid_index_less hashid_index_inj hashid_insert_slot hashid_remove_slot hashid_lookup_slot)

text \<open>
  C28: the chained hash table is a map from ids to slots of the connection array. A lookup returns
  the slot of the id or -1, and removing an id frees its slot and no other, without leaving the
  arrays, failing an assertion or looping. Inserting a new id into a table that is not full takes a
  slot nobody has and leaves the others alone, for every id \<open>i\<close> with \<open>i + cap \<le> 2 ^ 31\<close>. For the
  larger ids of an \<^verbatim>\<open>int\<close> it does the same or the search leaves the array, which does happen
  (\<open>hashid_insert_overflow\<close>).
\<close>

theorem hashid_is_map:
  assumes "hashid_ok hi"
  shows "hashid_lookup hi i = Inr (slot (index_of hi i))
    \<and> (\<not> hashid_full hi \<and> 0 \<le> i \<and> i < 2 ^ 31 \<and> index_of hi i = None \<longrightarrow>
        hashid_insert hi i = Inl Out_of_bounds \<and> 2 ^ 31 < i + int (hi_cap hi) \<or>
        (\<exists>c hi'. hashid_insert hi i = Inr (c, hi') \<and> hashid_ok hi' \<and> c < hi_cap hi \<and> c \<notin> ran (index_of hi)
          \<and> index_of hi' = (index_of hi)(i \<mapsto> c)))
    \<and> (\<exists>hi'. hashid_remove hi i = Inr (slot (index_of hi i), hi') \<and> hashid_ok hi' \<and> index_of hi' = (index_of hi)(i := None))"
proof (intro conjI impI)
  show "hashid_lookup hi i = Inr (slot (index_of hi i))" using slots.lookup_slot [OF assms] .
  show "\<exists>hi'. hashid_remove hi i = Inr (slot (index_of hi i), hi') \<and> hashid_ok hi' \<and> index_of hi' = (index_of hi)(i := None)"
    using slots.remove_slot [OF assms, of i] by blast
  assume "\<not> hashid_full hi \<and> 0 \<le> i \<and> i < 2 ^ 31 \<and> index_of hi i = None"
  then show "hashid_insert hi i = Inl Out_of_bounds \<and> 2 ^ 31 < i + int (hi_cap hi) \<or>
      (\<exists>c hi'. hashid_insert hi i = Inr (c, hi') \<and> hashid_ok hi' \<and> c < hi_cap hi \<and> c \<notin> ran (index_of hi) \<and> index_of hi' = (index_of hi)(i \<mapsto> c))"
    using slots.insert_slot [OF assms, of i] hashid_insert_wraps [OF assms, of i] by (cases "i + int (hi_cap hi) \<le> 2 ^ 31") auto
qed

theorem hashid_is_map_witness:
  "\<exists>hi c hi'. hashid_init 2 = Inr hi \<and> hashid_insert hi 18 = Inr (c, hi') \<and> hashid_lookup hi' 18 = Inr (int c) \<and> hashid_lookup hi' 2 = Inr (-1)"
proof -
  obtain hi where hi: "hashid_init 2 = Inr hi" using hashid_init_total [of 2] by auto
  note ok = hashid_init_ok [OF hi] and cap = hashid_init_cap [OF hi]
  have "\<not> hashid_full hi" using cap by (simp add: hashid_full_def)
  then obtain c hi' where h: "hashid_insert hi 18 = Inr (c, hi')" "hashid_ok hi'" "index_of hi' = (index_of hi)(18 \<mapsto> c)"
    using hashid_is_map [OF ok(1), of 18] ok(2) cap by auto
  with hashid_is_map [of hi' 18] hashid_is_map [of hi' 2] hi show ?thesis by (auto simp: ok(2))
qed

text \<open>
  The search for a slot adds an id and an index as signed ints. With three slots, the last
  positive id and an earlier connection in its first slot, the sum overflows and the index read
  is negative.
\<close>

lemma hashid_insert_overflow:
  "\<exists>hi0 c hi. hashid_init 3 = Inr hi0 \<and> hashid_insert hi0 1 = Inr (c, hi) \<and> \<not> hashid_full hi \<and> hashid_insert hi (2 ^ 31 - 1) = Inl Out_of_bounds"
  by (simp add: hashid_init_def hashcap_stop hashid_insert_def hashid_full_def hash_of_def numeral_3_eq_3 Let_def c_rem_def c_int_def)

end
