(* ===== verification/Gate.thy ===== *)
theory Gate
  imports Databuffer Hashid Service
begin

text \<open>
  The gate of \<^verbatim>\<open>service-src/service_gate.c\<close>: a service that listens on a port, keeps a table of the
  connections it accepted, cuts what they send into packets with a header of two or four bytes
  and forwards each packet to the broker, to the agent of the connection or to the watchdog.

  Handlers return the calls they make to the framework. What the framework answers is an
  argument: \<open>qn\<close> for \<^verbatim>\<open>skynet_queryname\<close> and \<open>lid\<close> for the id of the listening socket.
\<close>

section \<open>State\<close>

definition BACKLOG :: int where "BACKLOG = 32"

record connection =
  cn_id :: int
  cn_agent :: u32
  cn_client :: u32
  cn_remote_name :: cstring
  cn_buffer :: databuffer

record gate =
  gt_listen_id :: int
  gt_watchdog :: u32
  gt_broker :: u32
  gt_client_tag :: int
  gt_header_size :: nat
  gt_max_connection :: nat
  gt_hash :: hashid
  gt_conn :: "connection list"

text \<open>A connection cleared with \<^verbatim>\<open>memset\<close>, with the id that marks it as unused.\<close>

definition no_connection :: connection where
  "no_connection = \<lparr>cn_id = -1, cn_agent = 0, cn_client = 0, cn_remote_name = [], cn_buffer = databuffer_zero\<rparr>"

definition gate_create :: gate where
  "gate_create = \<lparr>gt_listen_id = -1, gt_watchdog = 0, gt_broker = 0, gt_client_tag = 0, gt_header_size = 0,
     gt_max_connection = 0, gt_hash = \<lparr>hi_hashmod = 0, hi_cap = 0, hi_count = 0, hi_id = [], hi_hash = []\<rparr>,
     gt_conn = []\<rparr>"

definition gate_release :: "gate \<Rightarrow> svc_call list" where
  "gate_release g =
     concat (map (\<lambda>c. if 0 \<le> cn_id c then [Socket_close (cn_id c)] else []) (take (gt_max_connection g) (gt_conn g)))
     @ (if 0 \<le> gt_listen_id g then [Socket_close (gt_listen_id g)] else [])"

section \<open>Text commands\<close>

text \<open>\<^verbatim>\<open>_parm\<close> moves the parameter of a command to the front of the buffer and ends it there.\<close>

definition parm :: "byte list \<Rightarrow> nat \<Rightarrow> nat \<Rightarrow> byte list" where
  "parm msg sz command_sz =
     (let p = dropWhile (\<lambda>c. c = 32) (drop command_sz (take sz msg))
      in p @ [0] @ drop (length p + 1) msg)"

definition forward_agent :: "gate \<Rightarrow> int \<Rightarrow> u32 \<Rightarrow> u32 \<Rightarrow> c_error + gate" where
  "forward_agent g fd agentaddr clientaddr =
     rbind (hashid_lookup (gt_hash g) fd) (\<lambda>i.
       if i < 0 then Inr g
       else if nat i < length (gt_conn g)
       then Inr (g\<lparr>gt_conn := (gt_conn g)[nat i := (gt_conn g ! nat i)\<lparr>cn_agent := agentaddr, cn_client := clientaddr\<rparr>]\<rparr>)
       else Inl Out_of_bounds)"

text \<open>The command \<^verbatim>\<open>forward\<close>: the id of a connection, the agent and the client, in a buffer that the
  calls of \<^verbatim>\<open>strsep\<close> cut at the blanks. Both addresses are read from their second character on.\<close>

definition ctrl_forward :: "gate \<Rightarrow> byte list \<Rightarrow> c_error + gate" where
  "ctrl_forward g tmp =
     (case strsep tmp 0 32 of
        (tmp1, None) \<Rightarrow> Inr g
      | (tmp1, Some agent) \<Rightarrow>
          (case strsep tmp1 agent 32 of
             (tmp2, None) \<Rightarrow> Inr g
           | (tmp2, Some client) \<Rightarrow>
               forward_agent g (c_int (strtol10 (cstr_at tmp1 0)))
                 (parse_handle (cstr_at tmp2 (agent + 1))) (parse_handle (cstr_at tmp2 (client + 1)))))"

text \<open>The commands that name a connection: what is called with its id when the gate knows it.\<close>

definition ctrl_socket :: "gate \<Rightarrow> (int \<Rightarrow> svc_call) \<Rightarrow> byte list \<Rightarrow> c_error + (svc_call list \<times> gate)" where
  "ctrl_socket g call tmp =
     (let uid = c_int (strtol10 (cstr_at tmp 0))
      in rbind (hashid_lookup (gt_hash g) uid) (\<lambda>i. Inr (if 0 \<le> i then [call uid] else [], g)))"

definition ctrl :: "(cstring \<Rightarrow> u32) \<Rightarrow> gate \<Rightarrow> byte list \<Rightarrow> c_error + (svc_call list \<times> gate)" where
  "ctrl qn g msg =
     (let sz = length msg; tmp = msg @ [0]; i = length (takeWhile (\<lambda>c. c \<noteq> 32) msg)
      in if sz = 0 then Inr ([], g)
         else rbind (memcmp_lit tmp (ascii ''kick'') i) (\<lambda>kick.
           if kick then ctrl_socket g Socket_close (parm tmp sz i)
           else rbind (memcmp_lit tmp (ascii ''forward'') i) (\<lambda>forward.
           if forward then rbind (ctrl_forward g (parm tmp sz i)) (\<lambda>g1. Inr ([], g1))
           else rbind (memcmp_lit tmp (ascii ''broker'') i) (\<lambda>broker.
           if broker then Inr ([], g\<lparr>gt_broker := qn (cstr_at (parm tmp sz i) 0)\<rparr>)
           else rbind (memcmp_lit tmp (ascii ''start'') i) (\<lambda>start.
           if start then ctrl_socket g Socket_start (parm tmp sz i)
           else rbind (memcmp_lit tmp (ascii ''close'') i) (\<lambda>close.
           if close
           then Inr (if 0 \<le> gt_listen_id g then ([Socket_close (gt_listen_id g)], g\<lparr>gt_listen_id := -1\<rparr>) else ([], g))
           else Inr ([Error_log (ascii ''[gate] Unkown command : '' @ cstr_at tmp 0)], g)))))))"

section \<open>Packets\<close>

definition report :: "gate \<Rightarrow> cstring \<Rightarrow> svc_call list" where
  "report g data =
     (if gt_watchdog g = 0 then [] else [Send 0 (gt_watchdog g) PTYPE_TEXT 0 (Some data) (length data)])"

text \<open>\<^verbatim>\<open>client_tag | PTYPE_TAG_DONTCOPY\<close>, as the bits of an \<^verbatim>\<open>int\<close>.\<close>

definition client_type :: "gate \<Rightarrow> nat" where
  "client_type g = TAG_DONTCOPY (unat (of_int (gt_client_tag g) :: u32))"

definition forward_packet :: "gate \<Rightarrow> connection \<Rightarrow> nat \<Rightarrow> c_error + (svc_call list \<times> connection)" where
  "forward_packet g c sz =
     (if gt_broker g \<noteq> 0
      then rbind (databuffer_read (cn_buffer c) sz) (\<lambda>(temp, db).
             Inr ([Send 0 (gt_broker g) (client_type g) 1 (Some temp) sz], c\<lparr>cn_buffer := db\<rparr>))
      else if cn_agent c \<noteq> 0
      then rbind (databuffer_read (cn_buffer c) sz) (\<lambda>(temp, db).
             Inr ([Send (cn_client c) (cn_agent c) (client_type g) 1 (Some temp) sz], c\<lparr>cn_buffer := db\<rparr>))
      else if gt_watchdog g \<noteq> 0
      then rbind (databuffer_read (cn_buffer c) sz) (\<lambda>(temp, db).
             let tmp = print_int (cn_id c) @ ascii '' data '' @ temp
             in Inr ([Send 0 (gt_watchdog g) (TAG_DONTCOPY PTYPE_TEXT) 1 (Some tmp) (length tmp)], c\<lparr>cn_buffer := db\<rparr>))
      else Inr ([], c))"

text \<open>The loop of \<^verbatim>\<open>dispatch_message\<close>. Every round but the first consumes a header, so the number of
  bytes in the buffer bounds the rounds.\<close>

fun packet_loop :: "nat \<Rightarrow> gate \<Rightarrow> int \<Rightarrow> connection \<Rightarrow> c_error + (svc_call list \<times> connection)" where
  "packet_loop 0 g fd c = Inl Diverges"
| "packet_loop (Suc n) g fd c =
     rbind (databuffer_readheader (cn_buffer c) (gt_header_size g)) (\<lambda>(sz, db).
       let c1 = c\<lparr>cn_buffer := db\<rparr>
       in if sz < 0 then Inr ([], c1)
          else if 0 < sz
          then if 0x1000000 \<le> sz
               then Inr ([Socket_close fd, Error_log (ascii ''Recv socket message > 16M'')], c\<lparr>cn_buffer := databuffer_clear db\<rparr>)
               else rbind (forward_packet g c1 (nat sz)) (\<lambda>(calls, c2).
                    rbind (packet_loop n g fd (c2\<lparr>cn_buffer := databuffer_reset (cn_buffer c2)\<rparr>)) (\<lambda>(calls', c3).
                      Inr (calls @ calls', c3)))
          else packet_loop n g fd c1)"

definition gate_dispatch_message :: "gate \<Rightarrow> connection \<Rightarrow> int \<Rightarrow> byte list \<Rightarrow> c_error + (svc_call list \<times> connection)" where
  "gate_dispatch_message g c fd data =
     (let db = databuffer_push (cn_buffer c) data
      in packet_loop (nat (db_size db) + 2) g fd (c\<lparr>cn_buffer := db\<rparr>))"

section \<open>Socket events\<close>

definition gate_data :: "gate \<Rightarrow> skynet_socket_message \<Rightarrow> c_error + (svc_call list \<times> gate)" where
  "gate_data g m =
     rbind (hashid_lookup (gt_hash g) (ss_id m)) (\<lambda>i.
       if i < 0
       then Inr ([Error_log (ascii ''Drop unknown connection '' @ print_int (ss_id m) @ ascii '' message''), Socket_close (ss_id m)], g)
       else if nat i < length (gt_conn g) \<and> ss_ud m \<le> int (length (ss_buffer m))
       then rbind (gate_dispatch_message g (gt_conn g ! nat i) (ss_id m) (take (nat (ss_ud m)) (ss_buffer m))) (\<lambda>(calls, c).
              Inr (calls, g\<lparr>gt_conn := (gt_conn g)[nat i := c]\<rparr>))
       else Inl Out_of_bounds)"

definition gate_connect :: "gate \<Rightarrow> skynet_socket_message \<Rightarrow> c_error + (svc_call list \<times> gate)" where
  "gate_connect g m =
     (if ss_id m = gt_listen_id g then Inr ([], g)
      else rbind (hashid_lookup (gt_hash g) (ss_id m)) (\<lambda>i.
        Inr (if i < 0 then [Error_log (ascii ''Close unknown connection '' @ print_int (ss_id m)), Socket_close (ss_id m)] else [], g)))"

definition gate_close :: "gate \<Rightarrow> skynet_socket_message \<Rightarrow> c_error + (svc_call list \<times> gate)" where
  "gate_close g m =
     rbind (hashid_remove (gt_hash g) (ss_id m)) (\<lambda>(i, hash).
       let g1 = g\<lparr>gt_hash := hash\<rparr>
       in if i < 0 then Inr ([], g1)
          else if nat i < length (gt_conn g)
          then Inr (report g (print_int (ss_id m) @ ascii '' close''), g1\<lparr>gt_conn := (gt_conn g)[nat i := no_connection]\<rparr>)
          else Inl Out_of_bounds)"

definition gate_accept :: "gate \<Rightarrow> skynet_socket_message \<Rightarrow> c_error + (svc_call list \<times> gate)" where
  "gate_accept g m =
     rbind (c_assert (gt_listen_id g = ss_id m)) (\<lambda>_.
       if hashid_full (gt_hash g) then Inr ([Socket_close (ss_ud m)], g)
       else rbind (hashid_insert (gt_hash g) (ss_ud m)) (\<lambda>(i, hash).
         if i < length (gt_conn g)
         then let name = take 31 (ss_tail m);
                  c = (gt_conn g ! i)\<lparr>cn_id := ss_ud m, cn_remote_name := name\<rparr>
              in Inr (report g (print_int (cn_id c) @ ascii '' open '' @ print_int (cn_id c) @ ascii '' '' @ cstr_at name 0 @ ascii '':0'')
                      @ [Error_log (ascii ''socket open: '' @ print_hex (of_int (cn_id c)))],
                      g\<lparr>gt_hash := hash, gt_conn := (gt_conn g)[i := c]\<rparr>)
         else Inl Out_of_bounds))"

definition dispatch_socket_message :: "gate \<Rightarrow> skynet_socket_message \<Rightarrow> c_error + (svc_call list \<times> gate)" where
  "dispatch_socket_message g m =
     (if ss_type m = SKYNET_SOCKET_TYPE_DATA then gate_data g m
      else if ss_type m = SKYNET_SOCKET_TYPE_CONNECT then gate_connect g m
      else if ss_type m = SKYNET_SOCKET_TYPE_CLOSE \<or> ss_type m = SKYNET_SOCKET_TYPE_ERROR then gate_close g m
      else if ss_type m = SKYNET_SOCKET_TYPE_ACCEPT then gate_accept g m
      else if ss_type m = SKYNET_SOCKET_TYPE_WARNING
      then Inr ([Error_log (ascii ''fd ('' @ print_int (ss_id m) @ ascii '') send buffer ('' @ print_int (ss_ud m) @ ascii '')K'')], g)
      else Inr ([], g))"

section \<open>The handler\<close>

text \<open>A message from a service to a client ends with the four bytes of the connection's id, the
  low one first; it is passed on to the socket without them, and not freed.\<close>

definition client_message :: "gate \<Rightarrow> u32 \<Rightarrow> byte list \<Rightarrow> c_error + (int \<times> svc_call list \<times> gate)" where
  "client_message g source msg =
     (if length msg \<le> 4 then Inr (0, [Error_log (ascii ''Invalid client message from '' @ print_hex source)], g)
      else let uid = sint (of_nat (be_nat (rev (drop (length msg - 4) msg))) :: u32)
           in rbind (hashid_lookup (gt_hash g) uid) (\<lambda>i.
                if 0 \<le> i then Inr (1, [Socket_send uid (take (length msg - 4) msg)], g)
                else Inr (0, [Error_log (ascii ''Invalid client id '' @ print_int uid @ ascii '' from '' @ print_hex source)], g)))"

definition gate_cb :: "(cstring \<Rightarrow> u32) \<Rightarrow> gate \<Rightarrow> nat \<Rightarrow> u32 \<Rightarrow> handler_msg \<Rightarrow> c_error + (int \<times> svc_call list \<times> gate)" where
  "gate_cb qn g type source msg =
     (if type = PTYPE_TEXT
      then (case msg of
              Msg_bytes m \<Rightarrow> rbind (ctrl qn g (case m of None \<Rightarrow> [] | Some bs \<Rightarrow> bs)) (\<lambda>(calls, g1). Inr (0, calls, g1))
            | Msg_socket _ \<Rightarrow> Inl Out_of_bounds)
      else if type = PTYPE_CLIENT
      then (case msg of
              Msg_bytes m \<Rightarrow> client_message g source (case m of None \<Rightarrow> [] | Some bs \<Rightarrow> bs)
            | Msg_socket _ \<Rightarrow> Inl Out_of_bounds)
      else if type = PTYPE_SOCKET
      then (case msg of
              Msg_socket m \<Rightarrow> rbind (dispatch_socket_message g m) (\<lambda>(calls, g1). Inr (0, calls, g1))
            | Msg_bytes _ \<Rightarrow> Inl Out_of_bounds)
      else Inr (0, [], g))"

section \<open>Starting\<close>

definition start_listen :: "int \<Rightarrow> gate \<Rightarrow> cstring \<Rightarrow> int \<times> svc_call list \<times> gate" where
  "start_listen lid g listen_addr =
     (let before = takeWhile (\<lambda>c. c \<noteq> 58) listen_addr;
          has_port = length before < length listen_addr;
          host = (if has_port then before else []);
          port = c_int (strtol10 (if has_port then drop (length before + 1) listen_addr else listen_addr))
      in if port \<le> 0 then (1, [Error_log (ascii ''Invalid gate address '' @ listen_addr)], g)
         else let g1 = g\<lparr>gt_listen_id := lid\<rparr>
              in if lid < 0 then (1, [Socket_listen host port BACKLOG], g1)
                 else (0, [Socket_listen host port BACKLOG, Socket_start lid], g1))"

text \<open>\<^verbatim>\<open>sscanf(parm, "%c %s %s %d %d", ...)\<close>: at least four of the five fields, or nothing. The maximum
  is 0 when it is missing.\<close>

definition scan_gate :: "cstring \<Rightarrow> (byte \<times> cstring \<times> cstring \<times> int \<times> int) option" where
  "scan_gate param =
     (case param of [] \<Rightarrow> None
      | header # r0 \<Rightarrow>
          Option.bind (scan_word r0) (\<lambda>(watchdog, r1).
          Option.bind (scan_word r1) (\<lambda>(binding, r2).
          Option.bind (scan_d r2) (\<lambda>(tag, r3).
            Some (header, watchdog, binding, tag, case scan_d r3 of None \<Rightarrow> 0 | Some (mx, _) \<Rightarrow> mx)))))"

definition gate_init :: "(cstring \<Rightarrow> u32) \<Rightarrow> int \<Rightarrow> gate \<Rightarrow> cstring option \<Rightarrow> c_error + (int \<times> svc_call list \<times> gate)" where
  "gate_init qn lid g param =
     (case param of None \<Rightarrow> Inr (1, [], g)
      | Some p \<Rightarrow>
          (case scan_gate p of
             None \<Rightarrow> Inr (1, [Error_log (ascii ''Invalid gate parm '' @ p)], g)
           | Some (header, watchdog, binding, tag, mx) \<Rightarrow>
               if mx \<le> 0 then Inr (1, [Error_log (ascii ''Need max connection'')], g)
               else if header \<noteq> 83 \<and> header \<noteq> 76 then Inr (1, [Error_log (ascii ''Invalid data header style'')], g)
               else let wd = (if hd watchdog = 33 then 0 else qn watchdog); g1 = g\<lparr>gt_watchdog := wd\<rparr>
                    in if hd watchdog \<noteq> 33 \<and> wd = 0 then Inr (1, [Error_log (ascii ''Invalid watchdog '' @ watchdog)], g1)
                       else rbind (hashid_init mx) (\<lambda>hash.
                         case start_listen lid
                               (g1\<lparr>gt_hash := hash, gt_conn := replicate (nat mx) no_connection,
                                   gt_max_connection := nat mx, gt_client_tag := (if tag = 0 then int PTYPE_CLIENT else tag),
                                   gt_header_size := (if header = 83 then 2 else 4)\<rparr>) binding of
                               (r, calls, g2) \<Rightarrow> Inr (r, Callback # calls, g2))))"

section \<open>The packets of a stream\<close>

text \<open>
  The specification: the packets that a stream of bytes holds behind headers of \<open>h\<close> bytes, and
  what is left of it, or nothing when a packet of 16M or more closes the connection. Empty
  packets are skipped. A header of four bytes with the top bit set is a negative size, and no
  further packet comes out of the stream.
\<close>

function cut :: "nat \<Rightarrow> byte list \<Rightarrow> byte list list \<times> byte list option" where
  "cut h s =
     (if h = 0 \<or> length s < h then ([], Some s)
      else let n = be_nat (take h s); r = drop h s
           in if 2 ^ 31 \<le> n \<or> length r < n then ([], Some s)
              else if 0x1000000 \<le> n then ([], None)
              else case cut h (drop n r) of (fs, e) \<Rightarrow> (if n = 0 then fs else take n r # fs, e))"
  by pat_completeness auto

termination
  by (relation "measure (\<lambda>(h, s). length s)") auto

declare cut.simps [simp del]

lemma cut_append:
  "cut h (s @ t) = (case cut h s of (fs, None) \<Rightarrow> (fs, None)
     | (fs, Some r) \<Rightarrow> (case cut h (r @ t) of (fs', e) \<Rightarrow> (fs @ fs', e)))"
proof (induction h s rule: cut.induct)
  case (1 h s)
  let ?n = "be_nat (take h s)" and ?r = "drop h s"
  consider (wait) "h = 0 \<or> length s < h \<or> 2 ^ 31 \<le> ?n \<or> length ?r < ?n"
    | (big) "h \<noteq> 0" "h \<le> length s" "?n < 2 ^ 31" "?n \<le> length ?r" "0x1000000 \<le> ?n"
    | (packet) "h \<noteq> 0" "h \<le> length s" "\<not> 2 ^ 31 \<le> ?n" "\<not> length ?r < ?n" "\<not> 0x1000000 \<le> ?n" by linarith
  then show ?case
  proof cases
    case wait
    then have "cut h s = ([], Some s)" by (subst cut.simps) (auto simp: Let_def)
    then show ?thesis by (simp split: prod.splits)
  next
    case big
    then have "cut h s = ([], None)" "cut h (s @ t) = ([], None)" by (subst cut.simps, simp add: Let_def)+
    then show ?thesis by simp
  next
    case packet
    then have t: "take h (s @ t) = take h s" "drop ?n (drop h (s @ t)) = drop ?n ?r @ t" "take ?n (drop h (s @ t)) = take ?n ?r" by simp_all
    have s: "cut h s = (case cut h (drop ?n ?r) of (fs, e) \<Rightarrow> (if ?n = 0 then fs else take ?n ?r # fs, e))"
      using packet by (subst cut.simps) (simp add: Let_def)
    have "cut h (s @ t) = (case cut h (drop ?n ?r @ t) of (fs, e) \<Rightarrow> (if ?n = 0 then fs else take ?n ?r # fs, e))"
      using packet by (subst cut.simps, unfold Let_def t) auto
    moreover have "cut h (drop ?n ?r @ t) = (case cut h (drop ?n ?r) of (fs, None) \<Rightarrow> (fs, None)
        | (fs, Some r) \<Rightarrow> (case cut h (r @ t) of (fs', e) \<Rightarrow> (fs @ fs', e)))"
      using packet by (intro 1) auto
    ultimately show ?thesis unfolding s by (simp split: prod.splits option.splits)
  qed
qed

section \<open>Reading packets\<close>

text \<open>\<open>pending h db s\<close>: the buffer holds the stream \<open>s\<close>, with its header still in the bytes or
  already taken out of them.\<close>

definition pending :: "nat \<Rightarrow> databuffer \<Rightarrow> byte list \<Rightarrow> bool" where
  "pending h db s \<longleftrightarrow> db_ok db \<and>
     (if db_header db = 0 then db_bytes db = s
      else h \<le> length s \<and> db_header db = c_int (int (be_nat (take h s))) \<and> db_bytes db = drop h s)"

lemma pending_zero: "pending h databuffer_zero []"
  by (simp add: pending_def)

lemma pending_push:
  assumes "pending h db s" "length (db_bytes db) + length data < 2 ^ 31"
  shows "pending h (databuffer_push db data) (s @ data)"
proof -
  have "int (length (db_bytes db) + length data) < 2 ^ 31" using assms(2) by simp
  from databuffer_push_bytes [OF _ this] assms(1) show ?thesis by (auto simp: pending_def split: if_splits)
qed

lemma readheader_short:
  assumes "pending h db s" "length s < h"
  shows "databuffer_readheader db h = Inr (-1, db)"
  using assms by (auto simp: pending_def databuffer_readheader_def db_ok_def split: if_splits)

lemma readheader_pending:
  assumes "pending h db s" "h \<le> length s" "0 < h"
  defines "k \<equiv> c_int (int (be_nat (take h s)))"
  obtains db' where "databuffer_readheader db h = Inr (if int (length (drop h s)) < k then -1 else k, db')"
    "db_ok db'" "db_bytes db' = drop h s" "db_header db' = k"
proof (cases "db_header db = 0")
  case True
  then have db: "db_ok db" "db_bytes db = s" using assms(1) by (auto simp: pending_def)
  obtain db' where r: "databuffer_read db h = Inr (take h s, db')" "db_bytes db' = drop h s" "db_ok db'"
    using databuffer_read_bytes [OF db(1), of h] assms(2,3) db(2) by auto
  have "\<not> db_size db < int h" "db_size db' = int (length (drop h s))"
    using db assms(2) r by (simp_all add: db_ok_def)
  then show ?thesis using that [of "db'\<lparr>db_header := k\<rparr>"] r True
    by (simp add: databuffer_readheader_def k_def)
next
  case False
  with assms(1) have "db_ok db" "db_bytes db = drop h s" "db_header db = k" by (auto simp: pending_def k_def split: if_splits)
  moreover from this have "db_size db = int (length (drop h s))" by (simp add: db_ok_def)
  ultimately show ?thesis using that [of db] False by (simp add: databuffer_readheader_def)
qed

lemma pending_header:
  "db_ok db \<Longrightarrow> db_bytes db = drop h s \<Longrightarrow> db_header db = c_int (int (be_nat (take h s))) \<Longrightarrow> h \<le> length s \<Longrightarrow>
   db_header db \<noteq> 0 \<Longrightarrow> pending h db s"
  by (simp add: pending_def)

lemma c_int_high:
  assumes "2 ^ 31 \<le> n" "n < 2 ^ 32"
  shows "c_int (int n) < 0"
proof -
  have "c_int (int n) = signed_take_bit 31 (int n)" unfolding c_int_def by (subst signed_of_int) simp
  also have "\<dots> = (int n + 2 ^ 31) mod 2 ^ 32 - 2 ^ 31" by (simp add: signed_take_bit_eq_take_bit_shift take_bit_eq_mod)
  also have "(int n + 2 ^ 31) mod 2 ^ 32 = int n - 2 ^ 31"
  proof -
    have "int n + 2 ^ 31 = (int n - 2 ^ 31) + 2 ^ 32" by simp
    also have "\<dots> mod 2 ^ 32 = (int n - 2 ^ 31) mod 2 ^ 32" by (rule mod_add_self2)
    also have "\<dots> = int n - 2 ^ 31" using assms by (intro mod_pos_pos_trivial) simp_all
    finally show ?thesis .
  qed
  finally show ?thesis using assms by simp
qed

definition has_dest :: "gate \<Rightarrow> connection \<Rightarrow> bool" where
  "has_dest g c \<longleftrightarrow> gt_broker g \<noteq> 0 \<or> cn_agent c \<noteq> 0 \<or> gt_watchdog g \<noteq> 0"

text \<open>The call that forwards a packet.\<close>

definition packet_call :: "gate \<Rightarrow> connection \<Rightarrow> byte list \<Rightarrow> svc_call" where
  "packet_call g c f =
     (if gt_broker g \<noteq> 0 then Send 0 (gt_broker g) (client_type g) 1 (Some f) (length f)
      else if cn_agent c \<noteq> 0 then Send (cn_client c) (cn_agent c) (client_type g) 1 (Some f) (length f)
      else let txt = print_int (cn_id c) @ ascii '' data '' @ f
           in Send 0 (gt_watchdog g) (TAG_DONTCOPY PTYPE_TEXT) 1 (Some txt) (length txt))"

lemma buffer_upd [simp]:
  "has_dest g (c\<lparr>cn_buffer := db\<rparr>) = has_dest g c" "packet_call g (c\<lparr>cn_buffer := db\<rparr>) = packet_call g c"
  by (simp_all add: has_dest_def packet_call_def fun_eq_iff)

lemma forward_packet_reads:
  assumes "db_ok (cn_buffer c)" "has_dest g c" "0 < sz" "sz \<le> length (db_bytes (cn_buffer c))"
  obtains db where "forward_packet g c sz = Inr ([packet_call g c (take sz (db_bytes (cn_buffer c)))], c\<lparr>cn_buffer := db\<rparr>)"
    "db_ok db" "db_bytes db = drop sz (db_bytes (cn_buffer c))"
proof -
  obtain db where "databuffer_read (cn_buffer c) sz = Inr (take sz (db_bytes (cn_buffer c)), db)"
    "db_bytes db = drop sz (db_bytes (cn_buffer c))" "db_ok db"
    using databuffer_read_bytes [OF assms(1,3,4)] by blast
  with that [of db] assms(2,4) show ?thesis by (simp add: forward_packet_def packet_call_def has_dest_def Let_def)
qed

definition rounds :: "databuffer \<Rightarrow> nat" where
  "rounds db = length (db_bytes db) + (if db_header db = 0 then 0 else 1)"

lemma rounds_pending: "pending h db s \<Longrightarrow> h \<le> length s \<Longrightarrow> 0 < h \<Longrightarrow> length (drop h s) < rounds db"
  by (auto simp: pending_def rounds_def split: if_splits)

lemma pending_reset: "db_ok db \<Longrightarrow> pending h (databuffer_reset db) (db_bytes db) \<and> rounds (databuffer_reset db) = length (db_bytes db)"
  by (simp add: pending_def databuffer_reset_def rounds_def)

text \<open>What a round finds: not even a header, a packet that is not complete, one that is too
  long, or a packet. The case of a negative size is that of a packet that is not complete.\<close>

lemma header_cases:
  assumes p: "pending h db s" and h: "0 < h" "h \<le> 4"
  obtains (wait) k db' where "databuffer_readheader db h = Inr (k, db')" "k < 0" "pending h db' s" "cut h s = ([], Some s)"
  | (big) k db' where "databuffer_readheader db h = Inr (k, db')" "0x1000000 \<le> k" "cut h s = ([], None)"
  | (packet) n db' where "databuffer_readheader db h = Inr (int n, db')" "n < 0x1000000" "n \<le> length (db_bytes db')"
      "db_ok db'" "length (db_bytes db') < rounds db" "n = 0 \<Longrightarrow> pending h db' (db_bytes db') \<and> rounds db' = length (db_bytes db')"
      "cut h s = (case cut h (drop n (db_bytes db')) of (fs, e) \<Rightarrow> (if n = 0 then fs else take n (db_bytes db') # fs, e))"
proof (cases "length s < h")
  case True
  then have "cut h s = ([], Some s)" by (subst cut.simps) simp
  with wait readheader_short [OF p True] p show ?thesis by simp
next
  case False
  let ?n = "be_nat (take h s)"
  obtain db' where r: "databuffer_readheader db h = Inr (if int (length (drop h s)) < c_int (int ?n) then -1 else c_int (int ?n), db')"
    and ok: "db_ok db'" "db_bytes db' = drop h s" "db_header db' = c_int (int ?n)"
    using readheader_pending [OF p _ h(1)] False by auto
  have less: "?n < 2 ^ 32"
  proof -
    have "?n < 256 ^ h" using be_nat_less [of "take h s"] False by simp
    also have "\<dots> \<le> 256 ^ 4" using h(2) by (intro power_increasing) simp_all
    finally show ?thesis by simp
  qed
  consider (neg) "2 ^ 31 \<le> ?n" | (short) "?n < 2 ^ 31" "length (drop h s) < ?n"
    | (long) "?n < 2 ^ 31" "?n \<le> length (drop h s)" "0x1000000 \<le> ?n"
    | (whole) "?n < 2 ^ 31" "?n \<le> length (drop h s)" "?n < 0x1000000" by linarith
  then show ?thesis
  proof cases
    case neg
    with c_int_high [OF neg less] have "cut h s = ([], Some s)" "pending h db' s" "c_int (int ?n) < 0"
      using False ok by (subst cut.simps, simp_all add: Let_def pending_header)
    with wait r show ?thesis by simp
  next
    case short
    then have "cut h s = ([], Some s)" "pending h db' s"
      using False ok h by (subst cut.simps, simp_all add: Let_def pending_header)
    with wait r short show ?thesis by simp
  next
    case long
    then have "cut h s = ([], None)" using False h by (subst cut.simps) (simp add: Let_def)
    with big r long show ?thesis by simp
  next
    case whole
    then have "cut h s = (case cut h (drop ?n (db_bytes db')) of (fs, e) \<Rightarrow> (if ?n = 0 then fs else take ?n (db_bytes db') # fs, e))"
      unfolding ok(2) using False h by (subst cut.simps) (simp add: Let_def)
    moreover have "?n = 0 \<Longrightarrow> pending h db' (db_bytes db') \<and> rounds db' = length (db_bytes db')"
      using ok by (simp add: pending_def rounds_def)
    moreover have "length (db_bytes db') < rounds db" "?n \<le> length (db_bytes db')"
      using rounds_pending [OF p _ h(1)] False ok(2) whole by simp_all
    ultimately show ?thesis using r whole ok(1) by (intro packet [of ?n db']) simp_all
  qed
qed

lemma packet_loop_cut:
  assumes "0 < gt_header_size g" "gt_header_size g \<le> 4" "has_dest g c" "pending (gt_header_size g) (cn_buffer c) s"
    and "rounds (cn_buffer c) < n" "cut (gt_header_size g) s = (fs, e)"
  shows "\<exists>db. packet_loop n g fd c
      = Inr (map (packet_call g c) fs
             @ (if e = None then [Socket_close fd, Error_log (ascii ''Recv socket message > 16M'')] else []), c\<lparr>cn_buffer := db\<rparr>)
    \<and> (case e of None \<Rightarrow> db = databuffer_zero | Some r \<Rightarrow> pending (gt_header_size g) db r)"
  using assms(3-6)
proof (induction n arbitrary: c s fs)
  case (Suc n)
  let ?h = "gt_header_size g"
  from Suc.prems(2) assms(1,2) show ?case
  proof (cases rule: header_cases)
    case (wait k db')
    with Suc.prems(4) show ?thesis by (intro exI [of _ db']) (auto simp: Let_def)
  next
    case (big k db')
    with Suc.prems(4) show ?thesis by (intro exI [of _ databuffer_zero]) (auto simp: Let_def databuffer_clear_def)
  next
    case (packet m db')
    obtain fs' where c: "cut ?h (drop m (db_bytes db')) = (fs', e)" "fs = (if m = 0 then fs' else take m (db_bytes db') # fs')"
      using packet(7) Suc.prems(4) by (auto split: prod.splits)
    show ?thesis
    proof (cases "m = 0")
      case True
      then show ?thesis using Suc.IH [of "c\<lparr>cn_buffer := db'\<rparr>" "db_bytes db'" fs'] Suc.prems(1,3) packet c by auto
    next
      case False
      obtain db2 where f: "forward_packet g (c\<lparr>cn_buffer := db'\<rparr>) m = Inr ([packet_call g c (take m (db_bytes db'))], c\<lparr>cn_buffer := db2\<rparr>)"
        "db_ok db2" "db_bytes db2 = drop m (db_bytes db')"
        using forward_packet_reads [of "c\<lparr>cn_buffer := db'\<rparr>" g m] Suc.prems(1) packet(3,4) False by auto
      have "rounds (databuffer_reset db2) < n" "pending ?h (databuffer_reset db2) (drop m (db_bytes db'))"
        using pending_reset [OF f(2)] f(3) packet(5) Suc.prems(3) by simp_all
      then show ?thesis using Suc.IH [of "c\<lparr>cn_buffer := databuffer_reset db2\<rparr>" "drop m (db_bytes db')" fs'] Suc.prems(1) packet(1,2) f(1) c False by auto
    qed
  qed
qed simp

lemma packet_loop_unsent:
  assumes "0 < gt_header_size g" "gt_header_size g \<le> 4" "\<not> has_dest g c" "pending (gt_header_size g) (cn_buffer c) s"
    and "rounds (cn_buffer c) < n"
  shows "\<exists>calls db r. packet_loop n g fd c = Inr (calls, c\<lparr>cn_buffer := db\<rparr>) \<and> pending (gt_header_size g) db r"
  using assms(3-5)
proof (induction n arbitrary: c s)
  case (Suc n)
  from Suc.prems(2) assms(1,2) show ?case
  proof (cases rule: header_cases)
    case (wait k db')
    then show ?thesis by (auto simp: Let_def)
  next
    case (big k db')
    then show ?thesis by (auto simp: Let_def databuffer_clear_def intro: pending_zero)
  next
    case (packet m db')
    have f: "forward_packet g (c\<lparr>cn_buffer := db'\<rparr>) m = Inr ([], c\<lparr>cn_buffer := db'\<rparr>)"
      using Suc.prems(1) by (simp add: forward_packet_def has_dest_def)
    show ?thesis
    proof (cases "m = 0")
      case True
      then show ?thesis using Suc.IH [of "c\<lparr>cn_buffer := db'\<rparr>" "db_bytes db'"] Suc.prems(1,3) packet by auto
    next
      case False
      have "rounds (databuffer_reset db') < n" "pending (gt_header_size g) (databuffer_reset db') (db_bytes db')"
        using pending_reset [OF packet(4)] packet(5) Suc.prems(3) by simp_all
      then obtain calls db r where "packet_loop n g fd (c\<lparr>cn_buffer := databuffer_reset db'\<rparr>) = Inr (calls, c\<lparr>cn_buffer := db\<rparr>)"
        "pending (gt_header_size g) db r"
        using Suc.IH [of "c\<lparr>cn_buffer := databuffer_reset db'\<rparr>" "db_bytes db'"] Suc.prems(1) by auto
      then show ?thesis using packet(1,2) f False by (intro exI [of _ calls] exI [of _ db]) auto
    qed
  qed
qed simp

lemma push_rounds:
  assumes "pending h db s" "db_size db + int (length data) < 2 ^ 31"
  shows "pending h (databuffer_push db data) (s @ data) \<and> rounds (databuffer_push db data) < nat (db_size (databuffer_push db data)) + 2"
proof -
  have "db_size db = int (length (db_bytes db))" using assms(1) by (simp add: pending_def db_ok_def)
  then have "length (db_bytes db) + length data < 2 ^ 31" using assms(2) by simp
  then have "pending h (databuffer_push db data) (s @ data)" by (rule pending_push [OF assms(1)])
  moreover from this have "db_ok (databuffer_push db data)" by (simp add: pending_def)
  ultimately show ?thesis by (simp add: rounds_def db_ok_def)
qed

lemma dispatch_message_cut:
  assumes "0 < gt_header_size g" "gt_header_size g \<le> 4" "has_dest g c" "pending (gt_header_size g) (cn_buffer c) s"
    and "db_size (cn_buffer c) + int (length data) < 2 ^ 31" "cut (gt_header_size g) (s @ data) = (fs, e)"
  shows "\<exists>db. gate_dispatch_message g c fd data
      = Inr (map (packet_call g c) fs
             @ (if e = None then [Socket_close fd, Error_log (ascii ''Recv socket message > 16M'')] else []), c\<lparr>cn_buffer := db\<rparr>)
    \<and> (case e of None \<Rightarrow> db = databuffer_zero | Some r \<Rightarrow> pending (gt_header_size g) db r)"
proof -
  let ?db = "databuffer_push (cn_buffer c) data"
  have p: "pending (gt_header_size g) (cn_buffer (c\<lparr>cn_buffer := ?db\<rparr>)) (s @ data)"
    "rounds (cn_buffer (c\<lparr>cn_buffer := ?db\<rparr>)) < nat (db_size ?db) + 2" "has_dest g (c\<lparr>cn_buffer := ?db\<rparr>)"
    using push_rounds [OF assms(4,5)] assms(3) by auto
  from packet_loop_cut [OF assms(1,2) p(3,1,2) assms(6), of fd] show ?thesis
    unfolding gate_dispatch_message_def Let_def by (simp del: packet_loop.simps)
qed

lemma dispatch_message_total:
  assumes "0 < gt_header_size g" "gt_header_size g \<le> 4" "pending (gt_header_size g) (cn_buffer c) s"
    and "db_size (cn_buffer c) + int (length data) < 2 ^ 31"
  shows "\<exists>calls db r. gate_dispatch_message g c fd data = Inr (calls, c\<lparr>cn_buffer := db\<rparr>) \<and> pending (gt_header_size g) db r"
proof (cases "has_dest g c")
  case True
  obtain fs e where "cut (gt_header_size g) (s @ data) = (fs, e)" by (metis surj_pair)
  from dispatch_message_cut [OF assms(1,2) True assms(3,4) this, of fd] show ?thesis
    using pending_zero by (cases e) (simp, blast)+
next
  case False
  let ?db = "databuffer_push (cn_buffer c) data"
  have p: "pending (gt_header_size g) (cn_buffer (c\<lparr>cn_buffer := ?db\<rparr>)) (s @ data)"
    "rounds (cn_buffer (c\<lparr>cn_buffer := ?db\<rparr>)) < nat (db_size ?db) + 2" "\<not> has_dest g (c\<lparr>cn_buffer := ?db\<rparr>)"
    using push_rounds [OF assms(3,4)] False by auto
  from packet_loop_unsent [OF assms(1,2) p(3,1,2), of fd] show ?thesis
    unfolding gate_dispatch_message_def Let_def by (simp del: packet_loop.simps)
qed

section \<open>The table of connections\<close>

text \<open>The invariant: every id of the table has a connection with that id and a buffer that holds
  some stream, and every other slot is an unused connection.\<close>

definition gate_ok :: "gate \<Rightarrow> bool" where
  "gate_ok g \<longleftrightarrow> hashid_ok (gt_hash g) \<and> gt_header_size g \<in> {2, 4}
     \<and> length (gt_conn g) = hi_cap (gt_hash g) \<and> gt_max_connection g = hi_cap (gt_hash g)
     \<and> (\<forall>fd i. index_of (gt_hash g) fd = Some i \<longrightarrow>
          cn_id (gt_conn g ! i) = fd \<and> (\<exists>s. pending (gt_header_size g) (cn_buffer (gt_conn g ! i)) s))
     \<and> (\<forall>i < hi_cap (gt_hash g). i \<notin> ran (index_of (gt_hash g)) \<longrightarrow> gt_conn g ! i = no_connection)"

lemma gate_okD:
  assumes "gate_ok g"
  shows "hashid_ok (gt_hash g)" "0 < gt_header_size g" "gt_header_size g \<le> 4" "length (gt_conn g) = hi_cap (gt_hash g)"
    "index_of (gt_hash g) fd = Some i \<Longrightarrow> cn_id (gt_conn g ! i) = fd \<and> (\<exists>s. pending (gt_header_size g) (cn_buffer (gt_conn g ! i)) s)"
    "i < hi_cap (gt_hash g) \<Longrightarrow> i \<notin> ran (index_of (gt_hash g)) \<Longrightarrow> gt_conn g ! i = no_connection"
  using assms by (auto simp: gate_ok_def)

text \<open>Replacing the connection of an id keeps the invariant.\<close>

lemma gate_ok_conn:
  assumes g: "gate_ok g" and i: "index_of (gt_hash g) fd = Some i" and c: "cn_id c = fd" "pending (gt_header_size g) (cn_buffer c) s"
  shows "gate_ok (g\<lparr>gt_conn := (gt_conn g)[i := c]\<rparr>)"
proof -
  have l: "i < hi_cap (gt_hash g)" using slots.index_less [OF gate_okD(1) [OF g] i] .
  have "cn_id ((gt_conn g)[i := c] ! j) = fd' \<and> (\<exists>s. pending (gt_header_size g) (cn_buffer ((gt_conn g)[i := c] ! j)) s)"
    if "index_of (gt_hash g) fd' = Some j" for fd' j
  proof (cases "j = i")
    case True
    then show ?thesis using that i c l gate_okD(4) [OF g] slots.index_inj [OF gate_okD(1) [OF g], of fd i fd'] by auto
  next
    case False
    then show ?thesis using gate_okD(5) [OF g that] by simp
  qed
  moreover have "(gt_conn g)[i := c] ! j = no_connection"
    if "j < hi_cap (gt_hash g)" "j \<notin> ran (index_of (gt_hash g))" for j
  proof -
    have "j \<noteq> i" using that(2) i by (auto simp: ran_def)
    then show ?thesis using gate_okD(6) [OF g that] by simp
  qed
  ultimately show ?thesis using g by (simp add: gate_ok_def)
qed

section \<open>Events\<close>

text \<open>The calls after the packets: a packet that is too long closes the connection.\<close>

definition end_calls :: "int \<Rightarrow> byte list option \<Rightarrow> svc_call list" where
  "end_calls fd e = (if e = None then [Socket_close fd, Error_log (ascii ''Recv socket message > 16M'')] else [])"

lemma gate_data_step:
  assumes g: "gate_ok g" and i: "index_of (gt_hash g) fd = Some i" and d: "has_dest g (gt_conn g ! i)"
    and p: "pending (gt_header_size g) (cn_buffer (gt_conn g ! i)) s" "length s + length data < 2 ^ 31"
    and c: "cut (gt_header_size g) (s @ data) = (fs, e)"
  obtains db where "dispatch_socket_message g (data_message fd data)
      = Inr (map (packet_call g (gt_conn g ! i)) fs @ end_calls fd e, g\<lparr>gt_conn := (gt_conn g)[i := (gt_conn g ! i)\<lparr>cn_buffer := db\<rparr>]\<rparr>)"
    "gate_ok (g\<lparr>gt_conn := (gt_conn g)[i := (gt_conn g ! i)\<lparr>cn_buffer := db\<rparr>]\<rparr>)"
    "case e of None \<Rightarrow> db = databuffer_zero | Some r \<Rightarrow> pending (gt_header_size g) db r"
proof -
  note ok = gate_okD [OF g]
  have sz: "db_size (cn_buffer (gt_conn g ! i)) + int (length data) < 2 ^ 31"
    using p by (auto simp: pending_def db_ok_def split: if_splits)
  obtain db where db: "gate_dispatch_message g (gt_conn g ! i) fd data
      = Inr (map (packet_call g (gt_conn g ! i)) fs @ end_calls fd e, (gt_conn g ! i)\<lparr>cn_buffer := db\<rparr>)"
    "case e of None \<Rightarrow> db = databuffer_zero | Some r \<Rightarrow> pending (gt_header_size g) db r"
    using dispatch_message_cut [OF ok(2,3) d p(1) sz c, of fd] by (auto simp: end_calls_def)
  have "\<exists>r. pending (gt_header_size g) db r" using db(2) pending_zero by (cases e) auto
  then have "gate_ok (g\<lparr>gt_conn := (gt_conn g)[i := (gt_conn g ! i)\<lparr>cn_buffer := db\<rparr>]\<rparr>)"
    using gate_ok_conn [OF g i, of "(gt_conn g ! i)\<lparr>cn_buffer := db\<rparr>"] ok(5) [OF i] by auto
  moreover have "dispatch_socket_message g (data_message fd data)
      = Inr (map (packet_call g (gt_conn g ! i)) fs @ end_calls fd e, g\<lparr>gt_conn := (gt_conn g)[i := (gt_conn g ! i)\<lparr>cn_buffer := db\<rparr>]\<rparr>)"
    using db(1) i slots.index_less [OF ok(1) i] ok(4)
    by (simp add: dispatch_socket_message_def gate_data_def data_message_def slots.lookup_slot [OF ok(1)])
  ultimately show ?thesis using that db(2) by blast
qed

lemma cut_cases:
  obtains "cut h s = ([], Some s)" | "cut h s = ([], None)"
  | n r where "r = drop h s" "n \<le> length r" "0 < h" "h \<le> length s" "\<not> (h = 0 \<or> length s < h)" "\<not> (2 ^ 31 \<le> n \<or> length r < n)" "\<not> 0x1000000 \<le> n"
      "n = be_nat (take h s)" "cut h s = (case cut h (drop n r) of (fs, e) \<Rightarrow> (if n = 0 then fs else take n r # fs, e))"
proof (cases "h = 0 \<or> length s < h \<or> 2 ^ 31 \<le> be_nat (take h s) \<or> length (drop h s) < be_nat (take h s)")
  case True
  then have "cut h s = ([], Some s)" by (subst cut.simps) (auto simp: Let_def)
  then show ?thesis by (rule that(1))
next
  case False
  then have "cut h s = (if 0x1000000 \<le> be_nat (take h s) then ([], None)
      else case cut h (drop (be_nat (take h s)) (drop h s)) of
        (fs, e) \<Rightarrow> (if be_nat (take h s) = 0 then fs else take (be_nat (take h s)) (drop h s) # fs, e))"
    by (subst cut.simps) (simp add: Let_def)
  with False that(2) that(3) [OF refl _ _ _ _ _ _ refl] show ?thesis by (cases "0x1000000 \<le> be_nat (take h s)") auto
qed

lemma cut_rest: "cut h s = (fs, Some r) \<Longrightarrow> cut h r = ([], Some r)"
proof (induction h s arbitrary: fs rule: cut.induct)
  case (1 h s)
  show ?case
  proof (cases rule: cut_cases [of h s])
    case (3 n t)
    with 1(2) obtain fs' where "cut h (drop n t) = (fs', Some r)" by (auto split: prod.splits)
    with 1(1) 3 show ?thesis by blast
  qed (use 1(2) in auto)
qed

lemma cut_length: "cut h s = (fs, Some r) \<Longrightarrow> length r \<le> length s"
proof (induction h s arbitrary: fs rule: cut.induct)
  case (1 h s)
  show ?case
  proof (cases rule: cut_cases [of h s])
    case (3 n t)
    with 1(2) obtain fs' where "cut h (drop n t) = (fs', Some r)" by (auto split: prod.splits)
    with 1(1) 3 have "length r \<le> length (drop n t)" by blast
    with 3(1) show ?thesis by simp
  qed (use 1(2) in auto)
qed

text \<open>Data of several connections in the order they arrive, with the calls of each arrival.\<close>

fun gate_feed :: "gate \<Rightarrow> (int \<times> byte list) list \<Rightarrow> c_error + ((int \<times> svc_call list) list \<times> gate)" where
  "gate_feed g [] = Inr ([], g)"
| "gate_feed g ((fd, data) # evs) =
     rbind (dispatch_socket_message g (data_message fd data)) (\<lambda>(calls, g1).
     rbind (gate_feed g1 evs) (\<lambda>(out, g2). Inr ((fd, calls) # out, g2)))"

text \<open>What belongs to one connection.\<close>

definition of_fd :: "int \<Rightarrow> (int \<times> 'a list) list \<Rightarrow> 'a list" where
  "of_fd fd evs = concat (map snd (filter (\<lambda>(f, _). f = fd) evs))"

lemma of_fd_simps [simp]: "of_fd fd [] = []" "of_fd fd ((f, x) # evs) = (if f = fd then x else []) @ of_fd fd evs"
  by (simp_all add: of_fd_def)

text \<open>\<open>holds g st\<close>: every connection of \<open>st\<close> is known, has someone to forward to, and has \<open>st fd\<close>
  received but not forwarded.\<close>

definition holds :: "gate \<Rightarrow> (int \<rightharpoonup> byte list) \<Rightarrow> bool" where
  "holds g st \<longleftrightarrow> (\<forall>fd s. st fd = Some s \<longrightarrow> (\<exists>i. index_of (gt_hash g) fd = Some i \<and> has_dest g (gt_conn g ! i)
     \<and> pending (gt_header_size g) (cn_buffer (gt_conn g ! i)) s \<and> cut (gt_header_size g) s = ([], Some s)))"

lemma dest_conn [simp]: "has_dest (g\<lparr>gt_conn := cs\<rparr>) = has_dest g" "packet_call (g\<lparr>gt_conn := cs\<rparr>) = packet_call g"
  by (simp_all add: fun_eq_iff has_dest_def packet_call_def client_type_def)

definition conn_of :: "gate \<Rightarrow> int \<Rightarrow> connection" where
  "conn_of g fd = gt_conn g ! the (index_of (gt_hash g) fd)"

lemma holds_step:
  assumes g: "gate_ok g" and h: "holds g st" and fd: "index_of (gt_hash g) fd = Some i" "st fd = Some s"
    and p: "pending (gt_header_size g) db r" "cut (gt_header_size g) r = ([], Some r)"
  defines "g' \<equiv> g\<lparr>gt_conn := (gt_conn g)[i := (gt_conn g ! i)\<lparr>cn_buffer := db\<rparr>]\<rparr>"
  shows "holds g' (st(fd \<mapsto> r))" "packet_call g' (conn_of g' f) = packet_call g (conn_of g f)"
proof -
  have i: "i < length (gt_conn g)" using slots.index_less [OF gate_okD(1) [OF g] fd(1)] gate_okD(4) [OF g] by simp
  have ne: "j \<noteq> i" if "index_of (gt_hash g) f = Some j" "f \<noteq> fd" for f j
    using slots.index_inj [OF gate_okD(1) [OF g] that(1)] fd(1) that(2) by auto
  show "holds g' (st(fd \<mapsto> r))" unfolding holds_def
  proof (intro allI impI)
    fix f s' assume s': "(st(fd \<mapsto> r)) f = Some s'"
    show "\<exists>j. index_of (gt_hash g') f = Some j \<and> has_dest g' (gt_conn g' ! j) \<and> pending (gt_header_size g') (cn_buffer (gt_conn g' ! j)) s'
      \<and> cut (gt_header_size g') s' = ([], Some s')"
    proof (cases "f = fd")
      case True
      moreover have "has_dest g (gt_conn g ! i)" using h fd by (force simp: holds_def)
      ultimately show ?thesis using fd s' p i by (auto simp: g'_def)
    next
      case False
      with s' h obtain j where "index_of (gt_hash g) f = Some j" "has_dest g (gt_conn g ! j)"
        "pending (gt_header_size g) (cn_buffer (gt_conn g ! j)) s'" "cut (gt_header_size g) s' = ([], Some s')" by (auto simp: holds_def)
      with ne [OF _ False] show ?thesis by (intro exI [of _ j]) (simp add: g'_def)
    qed
  qed
  show "packet_call g' (conn_of g' f) = packet_call g (conn_of g f)"
    using i by (cases "the (index_of (gt_hash g) f) = i") (simp_all add: conn_of_def g'_def)
qed

lemma gate_feed_cut:
  assumes "gate_ok g" "holds g st" "fst ` set evs \<subseteq> dom st"
    and "\<And>fd s. st fd = Some s \<Longrightarrow> length s + length (of_fd fd evs) < 2 ^ 31 \<and> snd (cut (gt_header_size g) (s @ of_fd fd evs)) \<noteq> None"
  shows "\<exists>out g'. gate_feed g evs = Inr (out, g') \<and> gate_ok g'
    \<and> (\<forall>fd s. st fd = Some s \<longrightarrow>
        of_fd fd out = map (packet_call g (conn_of g fd)) (fst (cut (gt_header_size g) (s @ of_fd fd evs))))"
  using assms
proof (induction evs arbitrary: g st)
  case Nil
  then have "cut (gt_header_size g) s = ([], Some s)" if "st fd = Some s" for fd s using that by (auto simp: holds_def)
  then show ?case using Nil by auto
next
  case (Cons ev evs)
  obtain fd data where ev: "ev = (fd, data)" by (cases ev)
  let ?h = "gt_header_size g"
  obtain s i where s: "st fd = Some s" "index_of (gt_hash g) fd = Some i" "has_dest g (gt_conn g ! i)"
    "pending ?h (cn_buffer (gt_conn g ! i)) s"
    using Cons.prems(2,3) ev by (force simp: holds_def)
  have len: "length s + length data < 2 ^ 31" and some: "snd (cut ?h (s @ data @ of_fd fd evs)) \<noteq> None"
    using Cons.prems(4) [OF s(1)] ev by simp_all
  obtain fs r where c: "cut ?h (s @ data) = (fs, Some r)"
    using some cut_append [of ?h "s @ data" "of_fd fd evs"] by (auto split: prod.splits option.splits)
  have rest: "cut ?h (s @ data @ of_fd fd evs) = (fs @ fst (cut ?h (r @ of_fd fd evs)), snd (cut ?h (r @ of_fd fd evs)))"
    using c cut_append [of ?h "s @ data" "of_fd fd evs"] by (simp split: prod.splits)
  obtain db where step: "dispatch_socket_message g (data_message fd data)
      = Inr (map (packet_call g (gt_conn g ! i)) fs, g\<lparr>gt_conn := (gt_conn g)[i := (gt_conn g ! i)\<lparr>cn_buffer := db\<rparr>]\<rparr>)"
    "gate_ok (g\<lparr>gt_conn := (gt_conn g)[i := (gt_conn g ! i)\<lparr>cn_buffer := db\<rparr>]\<rparr>)" "pending ?h db r"
    using gate_data_step [OF Cons.prems(1) s(2-4) len c] by (auto simp: end_calls_def)
  let ?g = "g\<lparr>gt_conn := (gt_conn g)[i := (gt_conn g ! i)\<lparr>cn_buffer := db\<rparr>]\<rparr>"
  have hdr: "gt_header_size ?g = ?h" by simp
  note hold = holds_step [OF Cons.prems(1,2) s(2,1) step(3) cut_rest [OF c]]
  have "\<exists>out g'. gate_feed ?g evs = Inr (out, g') \<and> gate_ok g' \<and> (\<forall>f s'. (st(fd \<mapsto> r)) f = Some s' \<longrightarrow>
      of_fd f out = map (packet_call ?g (conn_of ?g f)) (fst (cut (gt_header_size ?g) (s' @ of_fd f evs))))"
  proof (rule Cons.IH [OF step(2) hold(1)])
    show "fst ` set evs \<subseteq> dom (st(fd \<mapsto> r))" using Cons.prems(3) by auto
    fix f s' assume f: "(st(fd \<mapsto> r)) f = Some s'"
    show "length s' + length (of_fd f evs) < 2 ^ 31 \<and> snd (cut (gt_header_size ?g) (s' @ of_fd f evs)) \<noteq> None"
    proof (cases "f = fd")
      case True
      then show ?thesis using f some rest Cons.prems(4) [OF s(1)] ev cut_length [OF c] by simp
    next
      case False
      then show ?thesis using f Cons.prems(4) [of f s'] ev by simp
    qed
  qed
  then obtain out g' where feed: "gate_feed ?g evs = Inr (out, g')" "gate_ok g'"
    "\<And>f s'. (st(fd \<mapsto> r)) f = Some s' \<Longrightarrow>
      of_fd f out = map (packet_call g (conn_of g f)) (fst (cut ?h (s' @ of_fd f evs)))"
    unfolding hold(2) hdr by blast
  have "of_fd f ((fd, map (packet_call g (gt_conn g ! i)) fs) # out) = map (packet_call g (conn_of g f)) (fst (cut ?h (s' @ of_fd f (ev # evs))))"
    if "st f = Some s'" for f s'
    using that feed(3) [of f "if f = fd then r else s'"] s(1,2) ev rest by (auto simp: conn_of_def)
  with feed step(1) ev show ?case by (intro exI [of _ "(fd, map (packet_call g (gt_conn g ! i)) fs) # out"] exI [of _ g']) auto
qed

section \<open>The invariant is kept\<close>

text \<open>
  What the gate may expect: text commands are strings; the socket layer tells the true length of
  the data and accepts with new ids, below \<open>2 ^ 31\<close> by more than the number of connections; and a
  connection never holds \<open>2 ^ 31\<close> bytes. Nothing is said of the socket that an accept comes from:
  an accept can wait in the queue of the gate while the gate is told to close its listening
  socket, and then names a socket that the gate has forgotten.
\<close>

definition socket_expects :: "gate \<Rightarrow> skynet_socket_message \<Rightarrow> bool" where
  "socket_expects g m \<longleftrightarrow>
     (ss_type m = SKYNET_SOCKET_TYPE_DATA \<longrightarrow> ss_ud m = int (length (ss_buffer m))
        \<and> db_size (cn_buffer (conn_of g (ss_id m))) + ss_ud m < 2 ^ 31)
     \<and> (ss_type m = SKYNET_SOCKET_TYPE_ACCEPT \<longrightarrow> 0 \<le> ss_ud m
        \<and> ss_ud m + int (gt_max_connection g) \<le> 2 ^ 31 \<and> index_of (gt_hash g) (ss_ud m) = None)"

definition gate_expects :: "gate \<Rightarrow> nat \<Rightarrow> handler_msg \<Rightarrow> bool" where
  "gate_expects g type msg \<longleftrightarrow>
     (case msg of
        Msg_bytes m \<Rightarrow> type \<noteq> PTYPE_SOCKET \<and> (type = PTYPE_TEXT \<longrightarrow> (case m of None \<Rightarrow> True | Some bs \<Rightarrow> 0 \<notin> set bs))
      | Msg_socket m \<Rightarrow> type = PTYPE_SOCKET \<and> socket_expects g m)"

text \<open>An accept on a socket other than the one the gate listens on.\<close>

definition stale_accept :: "gate \<Rightarrow> skynet_socket_message \<Rightarrow> bool" where
  "stale_accept g m \<longleftrightarrow> ss_type m = SKYNET_SOCKET_TYPE_ACCEPT \<and> ss_id m \<noteq> gt_listen_id g"

definition stale_message :: "gate \<Rightarrow> handler_msg \<Rightarrow> bool" where
  "stale_message g msg \<longleftrightarrow> (case msg of Msg_bytes _ \<Rightarrow> False | Msg_socket m \<Rightarrow> stale_accept g m)"

lemma gate_data_ok:
  assumes g: "gate_ok g" and e: "socket_expects g m" "ss_type m = SKYNET_SOCKET_TYPE_DATA"
  shows "\<exists>calls g'. gate_data g m = Inr (calls, g') \<and> gate_ok g'"
proof -
  note ok = gate_okD [OF g]
  from ok(1) show ?thesis
  proof (cases rule: slots.lookup_cases [where i = "ss_id m"])
    case unknown
    then show ?thesis using g by (simp add: gate_data_def)
  next
    case (known i)
    obtain s where "pending (gt_header_size g) (cn_buffer (gt_conn g ! i)) s" using ok(5) [OF known(2)] by blast
    moreover have "db_size (cn_buffer (gt_conn g ! i)) + int (length (ss_buffer m)) < 2 ^ 31" "ss_ud m = int (length (ss_buffer m))"
      using e known(2) by (simp_all add: socket_expects_def conn_of_def)
    ultimately obtain calls db r where d: "gate_dispatch_message g (gt_conn g ! i) (ss_id m) (ss_buffer m) = Inr (calls, (gt_conn g ! i)\<lparr>cn_buffer := db\<rparr>)"
      "pending (gt_header_size g) db r" "ss_ud m = int (length (ss_buffer m))"
      using dispatch_message_total [OF ok(2,3)] by blast
    have "gate_ok (g\<lparr>gt_conn := (gt_conn g)[i := (gt_conn g ! i)\<lparr>cn_buffer := db\<rparr>]\<rparr>)"
      using gate_ok_conn [OF g known(2), of "(gt_conn g ! i)\<lparr>cn_buffer := db\<rparr>"] ok(5) [OF known(2)] d(2) by auto
    then show ?thesis using known d ok(4) by (simp add: gate_data_def)
  qed
qed

lemma gate_close_ok:
  assumes g: "gate_ok g"
  shows "\<exists>calls g'. gate_close g m = Inr (calls, g') \<and> gate_ok g'"
proof -
  note ok = gate_okD [OF g]
  obtain hash where h: "hashid_remove (gt_hash g) (ss_id m) = Inr (slot (index_of (gt_hash g) (ss_id m)), hash)" "hashid_ok hash"
    "hi_cap hash = hi_cap (gt_hash g)" "index_of hash = (index_of (gt_hash g))(ss_id m := None)"
    using slots.remove_slot [OF ok(1)] by blast
  show ?thesis
  proof (cases "index_of (gt_hash g) (ss_id m)")
    case None
    then have "index_of hash = index_of (gt_hash g)" using h(4) by (simp add: fun_upd_idem)
    then have "gate_ok (g\<lparr>gt_hash := hash\<rparr>)" using g h(2,3) by (simp add: gate_ok_def)
    with None h(1) show ?thesis by (simp add: gate_close_def)
  next
    case (Some i)
    have i: "i < hi_cap (gt_hash g)" using slots.index_less [OF ok(1) Some] .
    have ran: "ran (index_of hash) = ran (index_of (gt_hash g)) - {i}" using slots.ran_remove [OF ok(1) Some] h(4) by simp
    have ne: "index_of (gt_hash g) fd \<noteq> Some i" if "fd \<noteq> ss_id m" for fd
      using that slots.index_inj [OF ok(1), of fd i "ss_id m"] Some by auto
    have "gate_ok (g\<lparr>gt_hash := hash, gt_conn := (gt_conn g)[i := no_connection]\<rparr>)"
      using g h ne i ran by (auto simp: gate_ok_def nth_list_update split: if_splits)
    with Some h(1) i ok(4) show ?thesis by (simp add: gate_close_def Let_def)
  qed
qed

lemma gate_accept_new:
  assumes g: "gate_ok g" and e: "socket_expects g m" "ss_type m = SKYNET_SOCKET_TYPE_ACCEPT" and l: "ss_id m = gt_listen_id g"
    and nf: "\<not> hashid_full (gt_hash g)"
  obtains calls hash i where
    "gate_accept g m = Inr (calls, g\<lparr>gt_hash := hash, gt_conn := (gt_conn g)[i := no_connection\<lparr>cn_id := ss_ud m, cn_remote_name := take 31 (ss_tail m)\<rparr>]\<rparr>)"
    "gate_ok (g\<lparr>gt_hash := hash, gt_conn := (gt_conn g)[i := no_connection\<lparr>cn_id := ss_ud m, cn_remote_name := take 31 (ss_tail m)\<rparr>]\<rparr>)"
    "index_of hash = (index_of (gt_hash g))(ss_ud m \<mapsto> i)" "i < length (gt_conn g)"
proof -
  note ok = gate_okD [OF g]
  have m: "ss_id m = gt_listen_id g" "0 \<le> ss_ud m" "ss_ud m + int (hi_cap (gt_hash g)) \<le> 2 ^ 31" "index_of (gt_hash g) (ss_ud m) = None"
    using e g l by (simp_all add: socket_expects_def gate_ok_def)
  obtain i hash where h: "hashid_insert (gt_hash g) (ss_ud m) = Inr (i, hash)" "hashid_ok hash" "hi_cap hash = hi_cap (gt_hash g)"
    "i < hi_cap (gt_hash g)" "i \<notin> ran (index_of (gt_hash g))" "index_of hash = (index_of (gt_hash g))(ss_ud m \<mapsto> i)"
    using slots.insert_slot [OF ok(1) nf m(2,3,4)] by blast
  let ?c = "no_connection\<lparr>cn_id := ss_ud m, cn_remote_name := take 31 (ss_tail m)\<rparr>"
  have p: "\<exists>s. pending (gt_header_size g) (cn_buffer ?c) s" using pending_zero by (auto simp: no_connection_def)
  have ran: "ran (index_of hash) = insert i (ran (index_of (gt_hash g)))" using m(4) h(6) by simp
  have ne: "j \<noteq> i" if "index_of (gt_hash g) fd = Some j" for fd j using that h(5) by (auto simp: ran_def)
  have "gate_ok (g\<lparr>gt_hash := hash, gt_conn := (gt_conn g)[i := ?c]\<rparr>)"
    using g h ne ran p by (auto simp: gate_ok_def nth_list_update split: if_splits)
  moreover have "\<exists>calls. gate_accept g m = Inr (calls, g\<lparr>gt_hash := hash, gt_conn := (gt_conn g)[i := ?c]\<rparr>)"
    using nf m(1) h(1,4) ok(4) ok(6) [OF h(4,5)] by (simp add: gate_accept_def Let_def)
  ultimately show ?thesis using that h(4,6) ok(4) by auto
qed

lemma gate_accept_ok:
  assumes "gate_ok g" "socket_expects g m" "ss_type m = SKYNET_SOCKET_TYPE_ACCEPT" "ss_id m = gt_listen_id g"
  shows "\<exists>calls g'. gate_accept g m = Inr (calls, g') \<and> gate_ok g'"
proof (cases "hashid_full (gt_hash g)")
  case True
  then show ?thesis using assms by (simp add: gate_accept_def socket_expects_def)
next
  case False
  then show ?thesis using gate_accept_new [OF assms] by metis
qed

lemma forward_agent_ok:
  assumes g: "gate_ok g"
  shows "\<exists>g'. forward_agent g fd a c = Inr g' \<and> gate_ok g'"
proof -
  note ok = gate_okD [OF g]
  from ok(1) show ?thesis
  proof (cases rule: slots.lookup_cases [where i = fd])
    case (known i)
    obtain s where "pending (gt_header_size g) (cn_buffer (gt_conn g ! i)) s" "cn_id (gt_conn g ! i) = fd" using ok(5) [OF known(2)] by blast
    then have "gate_ok (g\<lparr>gt_conn := (gt_conn g)[i := (gt_conn g ! i)\<lparr>cn_agent := a, cn_client := c\<rparr>]\<rparr>)"
      by (intro gate_ok_conn [OF g known(2), where s = s]) simp_all
    with known ok(4) show ?thesis by (simp add: forward_agent_def)
  qed (use g in \<open>simp add: forward_agent_def\<close>)
qed

lemma memcmp_lit_total:
  assumes "0 \<notin> set msg" "n \<le> length msg"
  shows "\<exists>b. memcmp_lit (msg @ [0]) lit n = Inr b"
proof -
  have False if "\<not> n \<le> length lit + 1" "take (length lit + 1) (msg @ [0]) = lit @ [0]"
  proof -
    have "take (length lit + 1) (msg @ [0]) = take (length lit + 1) msg" using that(1) assms(2) by simp
    then have "0 \<in> set (take (length lit + 1) msg)" using that(2) by simp
    then show False using assms(1) by (auto dest: in_set_takeD)
  qed
  then show ?thesis by (auto simp: memcmp_lit_def)
qed

lemma ctrl_forward_ok: "gate_ok g \<Longrightarrow> \<exists>g'. ctrl_forward g tmp = Inr g' \<and> gate_ok g'"
  by (simp add: ctrl_forward_def forward_agent_ok split: prod.split option.split)

lemma ctrl_ok:
  assumes g: "gate_ok g" and msg: "0 \<notin> set msg"
  shows "\<exists>calls g'. ctrl qn g msg = Inr (calls, g') \<and> gate_ok g'"
proof -
  let ?i = "length (takeWhile (\<lambda>c. c \<noteq> 32) msg)"
  have "\<exists>b. memcmp_lit (msg @ [0]) lit ?i = Inr b" for lit using memcmp_lit_total [OF msg] length_takeWhile_le by blast
  then obtain cmp where cmp: "\<And>lit. memcmp_lit (msg @ [0]) lit ?i = Inr (cmp lit)" by metis
  have sock: "\<exists>calls. ctrl_socket g call tmp = Inr (calls, g)" for call tmp
    using slots.lookup_slot [OF gate_okD(1) [OF g]] by (simp add: ctrl_socket_def Let_def)
  obtain g1 where fwd: "ctrl_forward g (parm (msg @ [0]) (length msg) ?i) = Inr g1" "gate_ok g1" using ctrl_forward_ok [OF g] by blast
  have keep: "gate_ok (g\<lparr>gt_broker := b\<rparr>)" "gate_ok (g\<lparr>gt_listen_id := l\<rparr>)" for b l using g by (simp_all add: gate_ok_def)
  obtain c1 c2 where "ctrl_socket g Socket_close (parm (msg @ [0]) (length msg) ?i) = Inr (c1, g)"
    "ctrl_socket g Socket_start (parm (msg @ [0]) (length msg) ?i) = Inr (c2, g)" using sock by blast
  then show ?thesis using g keep fwd by (simp add: ctrl_def Let_def cmp)
qed

lemma client_message_ok: "gate_ok g \<Longrightarrow> \<exists>r calls. client_message g source msg = Inr (r, calls, g)"
  by (simp add: client_message_def Let_def slots.lookup_slot gate_okD(1))

lemma dispatch_socket_ok:
  assumes "gate_ok g" "socket_expects g m" "\<not> stale_accept g m"
  shows "\<exists>calls g'. dispatch_socket_message g m = Inr (calls, g') \<and> gate_ok g'"
  using assms gate_data_ok [OF assms(1,2)] gate_close_ok [OF assms(1), of m] gate_accept_ok [OF assms(1,2)]
  by (simp add: dispatch_socket_message_def gate_connect_def slots.lookup_slot gate_okD(1) stale_accept_def)

lemma dispatch_socket_stale: "stale_accept g m \<Longrightarrow> dispatch_socket_message g m = Inl Assert_failed"
  by (simp add: stale_accept_def dispatch_socket_message_def gate_accept_def c_assert_def socket_types)

lemma gate_cb_stale:
  assumes "gate_expects g type msg" "stale_message g msg"
  shows "gate_cb qn g type source msg = Inl Assert_failed"
  using assms dispatch_socket_stale
  by (cases msg) (auto simp: stale_message_def gate_expects_def gate_cb_def PTYPE_SOCKET_def PTYPE_TEXT_def PTYPE_CLIENT_def)

lemma gate_cb_ok:
  assumes "gate_ok g" "gate_expects g type msg" "\<not> stale_message g msg"
  shows "\<exists>r calls g'. gate_cb qn g type source msg = Inr (r, calls, g') \<and> gate_ok g'"
proof (cases msg)
  case (Msg_bytes m)
  let ?bs = "case m of None \<Rightarrow> [] | Some bs \<Rightarrow> bs"
  have ne: "type \<noteq> PTYPE_SOCKET" and str: "type = PTYPE_TEXT \<Longrightarrow> 0 \<notin> set ?bs"
    using assms(2) Msg_bytes by (auto simp: gate_expects_def split: option.splits)
  show ?thesis
  proof (cases "type = PTYPE_TEXT")
    case True
    then show ?thesis using ctrl_ok [OF assms(1) str, of qn] Msg_bytes by (auto simp: gate_cb_def)
  next
    case False
    then show ?thesis using ne client_message_ok [OF assms(1), of source ?bs] Msg_bytes assms(1) by (auto simp: gate_cb_def)
  qed
next
  case (Msg_socket m)
  then have "socket_expects g m" "type = PTYPE_SOCKET" "\<not> stale_accept g m"
    using assms(2,3) by (simp_all add: gate_expects_def stale_message_def)
  then show ?thesis using Msg_socket dispatch_socket_ok [OF assms(1), of m]
    by (auto simp: gate_cb_def PTYPE_SOCKET_def PTYPE_TEXT_def PTYPE_CLIENT_def)
qed

lemma gate_init_ok:
  assumes "gate_init qn lid g param = Inr (0, calls, g')"
  shows "gate_ok g' \<and> index_of (gt_hash g') = (\<lambda>_. None)"
proof -
  have listen: "gate_ok (snd (snd (start_listen lid g1 addr))) \<and> gt_hash (snd (snd (start_listen lid g1 addr))) = gt_hash g1"
    if "fst (start_listen lid g1 addr) = 0" "gate_ok g1" for g1 addr
    using that by (auto simp: start_listen_def Let_def gate_ok_def split: if_splits)
  have fresh: "gate_ok (g1\<lparr>gt_watchdog := wd, gt_hash := hash, gt_conn := replicate (nat k) no_connection,
      gt_max_connection := nat k, gt_client_tag := t, gt_header_size := h\<rparr>)" if "hashid_init k = Inr hash" "h \<in> {2, 4}" for g1 k t h wd hash
    using that hashid_init_ok [OF that(1)] hashid_init_cap [OF that(1)] by (auto simp: gate_ok_def)
  have none: "index_of hash = (\<lambda>_. None)" if "hashid_init k = Inr hash" for k hash using hashid_init_ok(2) [OF that] by (simp add: fun_eq_iff)
  from assms show ?thesis
    by (auto simp: gate_init_def Let_def rbind_eq_Inr none case_prod_beta dest!: listen [OF _ fresh] split: option.splits if_splits)
qed

text \<open>A gate for more than \<open>2 ^ 30\<close> connections does not start: its hash table is never built.\<close>

lemma gate_init_diverges:
  assumes "scan_gate p = Some (header, watchdog, binding, tag, mx)" "2 ^ 30 < mx" "header \<in> {83, 76}" "hd watchdog = 33 \<or> qn watchdog \<noteq> 0"
  shows "gate_init qn lid g (Some p) = Inl Diverges"
proof -
  have "0 < mx" using assms(2) by (rule less_trans [rotated]) simp
  then show ?thesis using assms by (auto simp: gate_init_def hashid_init_diverges)
qed

section \<open>Packed streams\<close>

text \<open>What a client sends for a packet, and the packets it may send.\<close>

definition packed :: "nat \<Rightarrow> byte list \<Rightarrow> byte list" where
  "packed h m = be_bytes h (length m) @ m"

definition sendable :: "nat \<Rightarrow> byte list \<Rightarrow> bool" where
  "sendable h m \<longleftrightarrow> 0 < length m \<and> length m < 256 ^ h \<and> length m < 0x1000000"

lemma cut_packed: "0 < h \<Longrightarrow> list_all (sendable h) ms \<Longrightarrow> cut h (concat (map (packed h) ms)) = (ms, Some [])"
proof (induction ms)
  case Nil
  then show ?case by (subst cut.simps) simp
next
  case (Cons m ms)
  then have m: "be_nat (be_bytes h (length m)) = length m" "m \<noteq> []" "length m < 0x1000000"
    by (auto simp: be_nat_bytes sendable_def)
  have s: "concat (map (packed h) (m # ms)) = be_bytes h (length m) @ m @ concat (map (packed h) ms)" by (simp add: packed_def)
  show ?case unfolding s using Cons m by (subst cut.simps) (simp add: Let_def)
qed

section \<open>The states of a gate\<close>

text \<open>After starting, and after any message it may expect and does not abort on.\<close>

inductive gate_run :: "gate \<Rightarrow> bool" where
  start: "gate_init qn lid gate_create param = Inr (0, calls, g) \<Longrightarrow> gate_run g"
| message: "gate_run g \<Longrightarrow> gate_expects g type msg \<Longrightarrow> gate_cb qn g type source msg = Inr (r, calls, g') \<Longrightarrow> gate_run g'"

lemma gate_run_ok: "gate_run g \<Longrightarrow> gate_ok g"
proof (induction rule: gate_run.induct)
  case (start qn lid param calls g)
  then show ?case using gate_init_ok by blast
next
  case (message g type msg qn source r calls g')
  then show ?case using gate_cb_ok [OF message(4,2), of qn source] gate_cb_stale [OF message(2), of qn source] by fastforce
qed

lemma ctrl_close:
  "0 \<le> gt_listen_id g \<Longrightarrow> ctrl qn g (ascii ''close'') = Inr ([Socket_close (gt_listen_id g)], g\<lparr>gt_listen_id := -1\<rparr>)"
  by (simp add: ctrl_def memcmp_lit_def ascii_def)

text \<open>The command \<^verbatim>\<open>close\<close> makes every accept that is still in the queue of the gate an abort of
  the process (\<^verbatim>\<open>service_gate.c:253\<close>), whatever socket it comes from.\<close>

lemma gate_close_aborts:
  assumes "gate_run g" "0 \<le> gt_listen_id g" "ss_type m = SKYNET_SOCKET_TYPE_ACCEPT" "0 \<le> ss_id m"
  shows "\<exists>g'. gate_cb qn g PTYPE_TEXT source (Msg_bytes (Some (ascii ''close''))) = Inr (0, [Socket_close (gt_listen_id g)], g')
    \<and> gate_run g' \<and> gate_cb qn g' PTYPE_SOCKET 0 (Msg_socket m) = Inl Assert_failed"
proof -
  let ?g = "g\<lparr>gt_listen_id := -1\<rparr>"
  have c: "gate_cb qn g PTYPE_TEXT source (Msg_bytes (Some (ascii ''close''))) = Inr (0, [Socket_close (gt_listen_id g)], ?g)"
    using assms(2) by (simp add: gate_cb_def ctrl_close)
  moreover have "gate_expects g PTYPE_TEXT (Msg_bytes (Some (ascii ''close'')))"
    by (simp add: gate_expects_def ascii_def PTYPE_TEXT_def PTYPE_SOCKET_def)
  moreover have "dispatch_socket_message ?g m = Inl Assert_failed"
    using assms(3,4) by (intro dispatch_socket_stale) (simp add: stale_accept_def)
  ultimately show ?thesis using gate_run.message [OF assms(1)]
    by (intro exI [of _ ?g]) (auto simp: gate_cb_def PTYPE_SOCKET_def PTYPE_TEXT_def PTYPE_CLIENT_def)
qed

lemma holdsD:
  assumes "holds g st" "st fd = Some s"
  shows "\<exists>i. index_of (gt_hash g) fd = Some i \<and> has_dest g (gt_conn g ! i) \<and> pending (gt_header_size g) (cn_buffer (gt_conn g ! i)) s"
  using assms unfolding holds_def by blast

text \<open>A gate on port 8888 with a watchdog and one connection, 7.\<close>

lemma gate_example:
  obtains g where "gate_run g" "holds g (\<lambda>fd. if fd \<in> {7} then Some [] else None)" "gt_header_size g = 2" "gt_watchdog g = 16"
    "gt_broker g = 0" "cn_agent (conn_of g 7) = 0" "cn_id (conn_of g 7) = 7" "gt_listen_id g = 3"
    "dom (index_of (gt_hash g)) = {7}" "gt_max_connection g = 4"
proof -
  let ?m = "\<lparr>ss_type = SKYNET_SOCKET_TYPE_ACCEPT, ss_id = 3, ss_ud = 7, ss_buffer = [], ss_tail = [49]\<rparr>"
  have p: "ascii ''S .dog 8888 0 4'' = [83, 32, 46, 100, 111, 103, 32, 56, 56, 56, 56, 32, 48, 32, 52]" by (simp add: ascii_def)
  obtain cs g where g: "gate_init (\<lambda>_. 16) 3 gate_create (Some (ascii ''S .dog 8888 0 4'')) = Inr (0, cs, g)"
    "gt_listen_id g = 3" "gt_header_size g = 2" "gt_watchdog g = 16" "gt_max_connection g = 4" "gt_broker g = 0"
    unfolding p by (simp add: gate_init_def gate_create_def scan_gate_def scan_word_def scan_d_def scan_int_def scan_sign_def
        start_listen_def Let_def is_space_def is_digit_def strtol10_def hashid_init_def hashcap_stop)
  have run: "gate_run g" using gate_run.start [OF g(1)] .
  have ok: "gate_ok g" "index_of (gt_hash g) = (\<lambda>_. None)" using gate_init_ok [OF g(1)] by simp_all
  have nf: "\<not> hashid_full (gt_hash g)"
    using g(1) unfolding p by (auto simp: gate_init_def gate_create_def scan_gate_def scan_word_def scan_d_def scan_int_def scan_sign_def
        start_listen_def Let_def is_space_def is_digit_def strtol10_def hashid_full_def hashid_init_def hashcap_stop)
  have e: "socket_expects g ?m" using g ok(2) by (simp add: socket_expects_def socket_types)
  obtain calls hash i where a: "gate_accept g ?m = Inr (calls, g\<lparr>gt_hash := hash, gt_conn := (gt_conn g)[i := no_connection\<lparr>cn_id := 7, cn_remote_name := [49]\<rparr>]\<rparr>)"
    "index_of hash = [7 \<mapsto> i]" "i < length (gt_conn g)"
    by (rule gate_accept_new [OF ok(1) e _ _ nf]) (use ok(2) g(2) in simp_all)
  let ?g = "g\<lparr>gt_hash := hash, gt_conn := (gt_conn g)[i := no_connection\<lparr>cn_id := 7, cn_remote_name := [49]\<rparr>]\<rparr>"
  have "gate_cb (\<lambda>_. 16) g PTYPE_SOCKET 0 (Msg_socket ?m) = Inr (0, calls, ?g)"
    using a(1) by (simp add: gate_cb_def dispatch_socket_message_def PTYPE_SOCKET_def PTYPE_TEXT_def PTYPE_CLIENT_def socket_types)
  moreover have "gate_expects g PTYPE_SOCKET (Msg_socket ?m)" using e by (simp add: gate_expects_def)
  ultimately have "gate_run ?g" using gate_run.message [OF run] by blast
  moreover have "cut 2 [] = ([], Some [])" by (subst cut.simps) simp
  then have "holds ?g (\<lambda>fd. if fd \<in> {7} then Some [] else None)"
    using a g by (simp add: holds_def has_dest_def no_connection_def pending_zero)
  moreover have "dom (index_of (gt_hash ?g)) = {7}" using a(2) by simp
  ultimately show ?thesis using that [of ?g] g a by (simp add: conn_of_def no_connection_def)
qed

section \<open>The gate forwards what its clients send\<close>

text \<open>
  Data of a known connection that has a broker, an agent or a watchdog to go to. The packets
  that are complete with the new bytes are forwarded once each and in order, with the rest of
  the stream kept for the next bytes; a packet of 16M or more closes the connection and empties
  its buffer. The other connections and the table are as before.
\<close>

theorem gate_forwards:
  assumes "gate_ok g" "index_of (gt_hash g) fd = Some i" "has_dest g (gt_conn g ! i)"
    and "pending (gt_header_size g) (cn_buffer (gt_conn g ! i)) s" "length s + length data < 2 ^ 31"
    and "cut (gt_header_size g) (s @ data) = (fs, e)"
  shows "\<exists>db. gate_cb qn g PTYPE_SOCKET source (Msg_socket (data_message fd data))
      = Inr (0, map (packet_call g (gt_conn g ! i)) fs @ end_calls fd e,
             g\<lparr>gt_conn := (gt_conn g)[i := (gt_conn g ! i)\<lparr>cn_buffer := db\<rparr>]\<rparr>)
    \<and> (case e of None \<Rightarrow> db = databuffer_zero | Some r \<Rightarrow> pending (gt_header_size g) db r)"
proof -
  obtain db where "dispatch_socket_message g (data_message fd data)
      = Inr (map (packet_call g (gt_conn g ! i)) fs @ end_calls fd e, g\<lparr>gt_conn := (gt_conn g)[i := (gt_conn g ! i)\<lparr>cn_buffer := db\<rparr>]\<rparr>)"
    "case e of None \<Rightarrow> db = databuffer_zero | Some r \<Rightarrow> pending (gt_header_size g) db r"
    using gate_data_step [OF assms] by blast
  then show ?thesis by (intro exI [of _ db]) (simp add: gate_cb_def PTYPE_SOCKET_def PTYPE_TEXT_def PTYPE_CLIENT_def)
qed

theorem gate_forwards_witness:
  "\<exists>g g'. gate_cb (\<lambda>_. 0) g PTYPE_SOCKET 0 (Msg_socket (data_message 7 [0, 1, 65, 0]))
     = Inr (0, [Send 0 16 (TAG_DONTCOPY PTYPE_TEXT) 1 (Some (ascii ''7 data A'')) 8], g')"
proof -
  obtain g where g: "gate_run g" "holds g (\<lambda>fd. if fd \<in> {7} then Some [] else None)" "gt_header_size g = 2" "gt_watchdog g = 16"
    "gt_broker g = 0" "cn_agent (conn_of g 7) = 0" "cn_id (conn_of g 7) = 7" by (rule gate_example)
  obtain i where i: "index_of (gt_hash g) 7 = Some i" "has_dest g (gt_conn g ! i)" "pending (gt_header_size g) (cn_buffer (gt_conn g ! i)) []"
    using holdsD [OF g(2), of 7 "[]"] by auto
  have "cut 2 [0] = ([], Some [0])" by (subst cut.simps) simp
  then have c: "cut (gt_header_size g) ([] @ [0, 1, 65, 0]) = ([[65]], Some [0])"
    unfolding g(3) by (subst cut.simps) (simp add: Let_def be_nat_def)
  have "packet_call g (gt_conn g ! i) [65] = Send 0 16 (TAG_DONTCOPY PTYPE_TEXT) 1 (Some (ascii ''7 data A'')) 8"
    using g i(1) by (simp add: packet_call_def conn_of_def print_int_def print_nat_def radix_digits.simps digit_char_def ascii_def)
  then show ?thesis using gate_forwards [OF gate_run_ok [OF g(1)] i _ c, of "\<lambda>_. 0" 0] by (auto simp: end_calls_def)
qed



text \<open>
  C24: a gate that was started handles every message it may expect (a text command without a zero
  byte, data of the length that the message tells and less than 2 GB for a connection, an accept
  with a new id \<open>u\<close> such that \<open>u + max_connection \<le> 2 ^ 31\<close>): no assertion fails, no array is left,
  no empty buffer is read and no loop runs on; and afterwards the table and the connections agree,
  every id with its own connection and every other slot unused. The one exception is an accept on
  a socket other than the listening one, which aborts the process; the command \<open>close\<close> makes it
  possible, as \<open>gate_close_aborts\<close> shows.
\<close>

theorem gate_safe:
  assumes "gate_run g" "gate_expects g type msg"
  shows "if stale_message g msg then gate_cb qn g type source msg = Inl Assert_failed
    else \<exists>r calls g'. gate_cb qn g type source msg = Inr (r, calls, g') \<and> gate_run g' \<and> gate_ok g'"
  using gate_cb_ok [OF gate_run_ok [OF assms(1)] assms(2), of qn source] gate_cb_stale [OF assms(2), of qn source]
    gate_run.message [OF assms] by (simp, blast)

theorem gate_safe_witness:
  "\<exists>g r calls g'. gate_run g \<and> gate_cb (\<lambda>_. 0) g PTYPE_TEXT 5 (Msg_bytes (Some (ascii ''kick 7''))) = Inr (r, calls, g') \<and> gate_ok g'
    \<and> gate_cb (\<lambda>_. 0) g PTYPE_SOCKET 0 (Msg_socket \<lparr>ss_type = SKYNET_SOCKET_TYPE_ACCEPT, ss_id = 4, ss_ud = 9, ss_buffer = [], ss_tail = []\<rparr>)
      = Inl Assert_failed"
proof -
  obtain g where g: "gate_run g" "gt_listen_id g = 3" "dom (index_of (gt_hash g)) = {7}" "gt_max_connection g = 4" by (rule gate_example)
  have "gate_expects g PTYPE_TEXT (Msg_bytes (Some (ascii ''kick 7'')))"
    by (simp add: gate_expects_def ascii_def PTYPE_TEXT_def PTYPE_SOCKET_def)
  note a = gate_safe [OF g(1) this, of "\<lambda>_. 0" 5]
  let ?m = "\<lparr>ss_type = SKYNET_SOCKET_TYPE_ACCEPT, ss_id = 4, ss_ud = 9, ss_buffer = [], ss_tail = []\<rparr>"
  have "9 \<notin> dom (index_of (gt_hash g))" using g(3) by simp
  then have "index_of (gt_hash g) 9 = None" by (simp add: domIff)
  then have "gate_expects g PTYPE_SOCKET (Msg_socket ?m)" using g(4) by (simp add: gate_expects_def socket_expects_def socket_types)
  note b = gate_safe [OF g(1) this, of "\<lambda>_. 0" 0]
  show ?thesis using a b g(1,2) by (auto simp: stale_message_def stale_accept_def)
qed

text \<open>
  releasing the gate closes the sockets of its connections and its listening socket, and no
  others.
\<close>

theorem gate_release_closes:
  assumes "gate_run g"
  shows "Socket_close fd \<in> set (gate_release g) \<longleftrightarrow> 0 \<le> fd \<and> (index_of (gt_hash g) fd \<noteq> None \<or> fd = gt_listen_id g)"
proof -
  note ok = gate_okD [OF gate_run_ok [OF assms]]
  have mx: "take (gt_max_connection g) (gt_conn g) = gt_conn g"
    using gate_run_ok [OF assms] by (simp add: gate_ok_def)
  have "(\<exists>c\<in>set (gt_conn g). 0 \<le> cn_id c \<and> cn_id c = fd) \<longleftrightarrow> 0 \<le> fd \<and> index_of (gt_hash g) fd \<noteq> None"
  proof
    assume "\<exists>c\<in>set (gt_conn g). 0 \<le> cn_id c \<and> cn_id c = fd"
    then obtain i where i: "i < length (gt_conn g)" "cn_id (gt_conn g ! i) = fd" "0 \<le> fd" by (auto simp: in_set_conv_nth)
    then have "i \<in> ran (index_of (gt_hash g))" using ok(4) ok(6) [of i] by (cases "i \<in> ran (index_of (gt_hash g))") (auto simp: no_connection_def)
    then obtain fd' where "index_of (gt_hash g) fd' = Some i" by (auto simp: ran_def)
    then show "0 \<le> fd \<and> index_of (gt_hash g) fd \<noteq> None" using ok(5) i by auto
  next
    assume "0 \<le> fd \<and> index_of (gt_hash g) fd \<noteq> None"
    then obtain i where "index_of (gt_hash g) fd = Some i" "0 \<le> fd" by auto
    then show "\<exists>c\<in>set (gt_conn g). 0 \<le> cn_id c \<and> cn_id c = fd"
      using ok(5) [of fd i] slots.index_less [OF ok(1), of fd i] ok(4) by (metis nth_mem)
  qed
  then show ?thesis by (auto simp: gate_release_def mx split: if_splits)
qed

theorem gate_release_closes_witness:
  "\<exists>g. gate_run g \<and> Socket_close 7 \<in> set (gate_release g) \<and> Socket_close 3 \<in> set (gate_release g) \<and> Socket_close 8 \<notin> set (gate_release g)"
proof -
  obtain g where g: "gate_run g" "gt_listen_id g = 3" "dom (index_of (gt_hash g)) = {7}" by (rule gate_example)
  then have "index_of (gt_hash g) 7 \<noteq> None" "8 \<notin> dom (index_of (gt_hash g))" by auto
  then show ?thesis using gate_release_closes [OF g(1), of 7] gate_release_closes [OF g(1), of 3] gate_release_closes [OF g(1), of 8] g(1,2)
    by (intro exI [of _ g]) (simp add: domIff)
qed

end
