(* ===== verification/Harbor.thy ===== *)
theory Harbor
  imports Framing Service Handle
begin

text \<open>
  The harbor service of \<^verbatim>\<open>service-src/service_harbor.c\<close>: it carries messages between the nodes of a
  network. It keeps one connection per node, a queue of messages for each node that is not
  connected yet, and the global names with the messages that wait for a name to become known.

  Handlers return the calls they make; \<open>ok\<close> says for which destinations \<^verbatim>\<open>skynet_send\<close> succeeds.
\<close>

section \<open>State\<close>

definition HASH_SIZE :: nat where "HASH_SIZE = 4096"
definition HARBOR_QUEUE_SIZE :: nat where "HARBOR_QUEUE_SIZE = 1024"
definition HEADER_COOKIE_LENGTH :: nat where "HEADER_COOKIE_LENGTH = 12"
definition REMOTE_MAX :: nat where "REMOTE_MAX = 256"

record remote_message_header =
  rh_source :: u32
  rh_destination :: u32
  rh_session :: u32

record harbor_msg =
  hm_header :: remote_message_header
  hm_buffer :: "byte list option"
  hm_size :: nat

record harbor_msg_queue =
  hq_size :: nat
  hq_head :: nat
  hq_tail :: nat
  hq_data :: "harbor_msg option list"

record keyvalue =
  kv_key :: cstring
  kv_hash :: u32
  kv_value :: u32
  kv_queue :: "harbor_msg_queue option"

text \<open>\<^verbatim>\<open>struct hashmap\<close>: the chain of each bucket.\<close>

type_synonym hashmap = "nat \<Rightarrow> keyvalue list"

datatype status = STATUS_WAIT | STATUS_HANDSHAKE | STATUS_HEADER | STATUS_CONTENT | STATUS_DOWN

text \<open>The receive buffer of a connection is filled from the front: the list of the bytes in it.\<close>

record slave =
  sl_fd :: int
  sl_queue :: "harbor_msg_queue option"
  sl_status :: status
  sl_length :: nat
  sl_read :: nat
  sl_size :: "byte list"
  sl_recv_buffer :: "byte list"

record harbor =
  hb_id :: int
  hb_slave :: u32
  hb_map :: hashmap
  hb_s :: "nat \<Rightarrow> slave"

section \<open>Queues\<close>

definition push_queue_msg :: "harbor_msg \<Rightarrow> harbor_msg_queue \<Rightarrow> harbor_msg_queue" where
  "push_queue_msg m queue =
     (let q = (if (hq_tail queue + 1) mod hq_size queue = hq_head queue
               then \<lparr>hq_size = hq_size queue * 2, hq_head = 0, hq_tail = hq_size queue - 1,
                     hq_data = map (\<lambda>i. hq_data queue ! ((i + hq_head queue) mod hq_size queue)) [0..<hq_size queue - 1]
                               @ replicate (hq_size queue + 1) None\<rparr>
               else queue)
      in q\<lparr>hq_data := (hq_data q)[hq_tail q := Some m], hq_tail := (hq_tail q + 1) mod hq_size q\<rparr>)"

definition push_queue :: "harbor_msg_queue \<Rightarrow> byte list option \<Rightarrow> nat \<Rightarrow> remote_message_header \<Rightarrow> harbor_msg_queue" where
  "push_queue queue buffer sz header = push_queue_msg \<lparr>hm_header = header, hm_buffer = buffer, hm_size = sz\<rparr> queue"

definition pop_queue :: "harbor_msg_queue \<Rightarrow> harbor_msg option \<times> harbor_msg_queue" where
  "pop_queue queue =
     (if hq_head queue = hq_tail queue then (None, queue)
      else (hq_data queue ! hq_head queue, queue\<lparr>hq_head := (hq_head queue + 1) mod hq_size queue\<rparr>))"

definition new_harbor_queue :: harbor_msg_queue where
  "new_harbor_queue = \<lparr>hq_size = HARBOR_QUEUE_SIZE, hq_head = 0, hq_tail = 0, hq_data = replicate HARBOR_QUEUE_SIZE None\<rparr>"

text \<open>A loop \<^verbatim>\<open>while ((m = pop_queue(queue)) != NULL)\<close>: the messages taken. There are fewer of them than
  slots.\<close>

definition pop_all :: "harbor_msg_queue \<Rightarrow> harbor_msg list \<times> harbor_msg_queue" where
  "pop_all queue = drain pop_queue (hq_size queue) queue"

section \<open>The table of names\<close>

text \<open>The name read as four words, in the byte order of the machine, the low byte first.\<close>

definition le_word :: "cstring \<Rightarrow> nat \<Rightarrow> u32" where
  "le_word name i = of_nat (be_nat (rev (take 4 (drop (4 * i) name))))"

definition name_hash :: "cstring \<Rightarrow> u32" where
  "name_hash name = le_word name 0 XOR le_word name 1 XOR le_word name 2 XOR le_word name 3"

text \<open>\<^verbatim>\<open>strncmp(a, b, GLOBALNAME_LENGTH) == 0\<close>.\<close>

definition strncmp_eq :: "cstring \<Rightarrow> cstring \<Rightarrow> bool" where
  "strncmp_eq a b \<longleftrightarrow>
     takeWhile (\<lambda>c. c \<noteq> 0) (take GLOBALNAME_LENGTH a) = takeWhile (\<lambda>c. c \<noteq> 0) (take GLOBALNAME_LENGTH b)"

definition kv_match :: "cstring \<Rightarrow> keyvalue \<Rightarrow> bool" where
  "kv_match name node \<longleftrightarrow> kv_hash node = name_hash name \<and> strncmp_eq (kv_key node) name"

definition bucket :: "cstring \<Rightarrow> nat" where
  "bucket name = unat (name_hash name) mod HASH_SIZE"

definition hash_search :: "hashmap \<Rightarrow> cstring \<Rightarrow> keyvalue option" where
  "hash_search hash name = List.find (kv_match name) (hash (bucket name))"

definition hash_insert :: "hashmap \<Rightarrow> cstring \<Rightarrow> keyvalue \<times> hashmap" where
  "hash_insert hash name =
     (let node = \<lparr>kv_key = take GLOBALNAME_LENGTH name, kv_hash = name_hash name, kv_value = 0, kv_queue = None\<rparr>
      in (node, hash(bucket name := node # hash (bucket name))))"

definition hash_new :: hashmap where
  "hash_new = (\<lambda>_. [])"

text \<open>A write through the pointer to a node that was found or inserted: it is the first node of
  its chain with that name.\<close>

fun replace_first :: "('a \<Rightarrow> bool) \<Rightarrow> 'a \<Rightarrow> 'a list \<Rightarrow> 'a list" where
  "replace_first P x [] = []"
| "replace_first P x (y # ys) = (if P y then x # ys else y # replace_first P x ys)"

definition hash_store :: "hashmap \<Rightarrow> cstring \<Rightarrow> keyvalue \<Rightarrow> hashmap" where
  "hash_store hash name node = hash(bucket name := replace_first (kv_match name) node (hash (bucket name)))"

definition search_or_insert :: "hashmap \<Rightarrow> cstring \<Rightarrow> keyvalue \<times> hashmap" where
  "search_or_insert hash name = (case hash_search hash name of Some node \<Rightarrow> (node, hash) | None \<Rightarrow> hash_insert hash name)"

section \<open>Messages on the wire\<close>

definition to_bigendian :: "u32 \<Rightarrow> byte list" where
  "to_bigendian n = [ucast (drop_bit 24 n AND 0xff), ucast (drop_bit 16 n AND 0xff), ucast (drop_bit 8 n AND 0xff), ucast (n AND 0xff)]"

definition header_to_message :: "remote_message_header \<Rightarrow> byte list" where
  "header_to_message header =
     to_bigendian (rh_source header) @ to_bigendian (rh_destination header) @ to_bigendian (rh_session header)"

definition from_bigendian :: "byte list \<Rightarrow> u32" where
  "from_bigendian b =
     push_bit 24 (ucast (b ! 0)) OR push_bit 16 (ucast (b ! 1)) OR push_bit 8 (ucast (b ! 2)) OR ucast (b ! 3)"

definition message_to_header :: "byte list \<Rightarrow> remote_message_header" where
  "message_to_header m =
     \<lparr>rh_source = from_bigendian (take 4 m), rh_destination = from_bigendian (take 4 (drop 4 m)),
      rh_session = from_bigendian (take 4 (drop 8 m))\<rparr>"

text \<open>The bytes that are copied from a message: none from a null pointer of size 0.\<close>

definition copy_bytes :: "byte list option \<Rightarrow> nat \<Rightarrow> c_error + byte list" where
  "copy_bytes buffer sz =
     (case buffer of
        None \<Rightarrow> if sz = 0 then Inr [] else Inl Use_after_free
      | Some bs \<Rightarrow> if sz \<le> length bs then Inr (take sz bs) else Inl Out_of_bounds)"

definition forward_local_messsage :: "(u32 \<Rightarrow> bool) \<Rightarrow> harbor \<Rightarrow> byte list \<Rightarrow> c_error + svc_call list" where
  "forward_local_messsage ok h msg =
     (if length msg < HEADER_COOKIE_LENGTH then Inl Out_of_bounds
      else let sz = length msg - HEADER_COOKIE_LENGTH;
               header = message_to_header (drop sz msg);
               type = unat (drop_bit HANDLE_REMOTE_SHIFT (rh_destination header));
               destination = (rh_destination header AND HANDLE_MASK) OR push_bit HANDLE_REMOTE_SHIFT (of_int (hb_id h));
               session = sint (rh_session header)
           in Inr (Send (rh_source header) destination (TAG_DONTCOPY type) session (Some msg) sz
                   # (if ok destination then []
                      else (if type \<noteq> PTYPE_ERROR then [Send destination (rh_source header) PTYPE_ERROR session None 0] else [])
                           @ [Error_log (ascii ''Unknown destination :'' @ print_hex destination @ ascii '' from :''
                                @ print_hex (rh_source header) @ ascii '' type('' @ print_nat type @ ascii '')'')])))"

definition send_remote :: "int \<Rightarrow> byte list option \<Rightarrow> nat \<Rightarrow> remote_message_header \<Rightarrow> c_error + svc_call list" where
  "send_remote fd buffer sz cookie =
     (if 2 ^ 32 \<le> sz + 12
      then Inr [Error_log (ascii ''remote message from :'' @ print_hex8 (rh_source cookie) @ ascii '' to :''
                  @ print_hex8 (rh_destination cookie) @ ascii '' is too large.'')]
      else rbind (copy_bytes buffer sz) (\<lambda>bs.
             Inr [Socket_send fd (to_bigendian (of_nat (sz + 12)) @ bs @ header_to_message cookie)]))"

fun send_all :: "int \<Rightarrow> harbor_msg list \<Rightarrow> c_error + svc_call list" where
  "send_all fd [] = Inr []"
| "send_all fd (m # ms) =
     rbind (send_remote fd (hm_buffer m) (hm_size m) (hm_header m)) (\<lambda>c.
     rbind (send_all fd ms) (\<lambda>cs. Inr (c @ cs)))"

section \<open>Connections\<close>

abbreviation set_slave :: "harbor \<Rightarrow> nat \<Rightarrow> slave \<Rightarrow> harbor" where
  "set_slave h i s \<equiv> h\<lparr>hb_s := (hb_s h)(i := s)\<rparr>"

definition close_harbor :: "harbor \<Rightarrow> nat \<Rightarrow> svc_call list \<times> harbor" where
  "close_harbor h i =
     (let s = hb_s h i
      in (if sl_fd s \<noteq> 0 then [Socket_close (sl_fd s)] else [],
          set_slave h i (s\<lparr>sl_status := STATUS_DOWN, sl_queue := None\<rparr>)))"

definition report_harbor_down :: "harbor \<Rightarrow> nat \<Rightarrow> svc_call list" where
  "report_harbor_down h i =
     (let down = ascii ''D '' @ print_nat i in [Send 0 (hb_slave h) PTYPE_TEXT 0 (Some down) (length down)])"

definition slave_zero :: slave where
  "slave_zero = \<lparr>sl_fd = 0, sl_queue = None, sl_status = STATUS_WAIT, sl_length = 0, sl_read = 0, sl_size = [0, 0, 0, 0], sl_recv_buffer = []\<rparr>"

definition harbor_create :: harbor where
  "harbor_create = \<lparr>hb_id = 0, hb_slave = 0, hb_map = hash_new, hb_s = (\<lambda>_. slave_zero)\<rparr>"

definition harbor_release :: "harbor \<Rightarrow> svc_call list" where
  "harbor_release h =
     concat (map (\<lambda>i. if sl_fd (hb_s h i) \<noteq> 0 \<and> sl_status (hb_s h i) \<noteq> STATUS_DOWN then fst (close_harbor h i) else []) [1..<REMOTE_MAX])"

definition dispatch_slave_queue :: "harbor \<Rightarrow> nat \<Rightarrow> c_error + (svc_call list \<times> harbor)" where
  "dispatch_slave_queue h i =
     (let s = hb_s h i
      in rbind (c_assert (sl_fd s \<noteq> 0)) (\<lambda>_.
           case sl_queue s of
             None \<Rightarrow> Inr ([], h)
           | Some queue \<Rightarrow>
               rbind (send_all (sl_fd s) (fst (pop_all queue))) (\<lambda>cs. Inr (cs, set_slave h i (s\<lparr>sl_queue := None\<rparr>)))))"

section \<open>Receiving\<close>

text \<open>The cases of the loop in \<^verbatim>\<open>push_socket_data\<close>; \<open>k\<close> is the next round.\<close>

definition content_case ::
  "(u32 \<Rightarrow> bool) \<Rightarrow> (harbor \<Rightarrow> byte list \<Rightarrow> c_error + (svc_call list \<times> harbor)) \<Rightarrow> nat \<Rightarrow> harbor \<Rightarrow> byte list
   \<Rightarrow> c_error + (svc_call list \<times> harbor)" where
  "content_case ok k i h buffer =
     (let s = hb_s h i; need = sl_length s - sl_read s
      in if length buffer < need
         then Inr ([], set_slave h i (s\<lparr>sl_recv_buffer := sl_recv_buffer s @ buffer, sl_read := sl_read s + length buffer\<rparr>))
         else rbind (forward_local_messsage ok h (sl_recv_buffer s @ take need buffer)) (\<lambda>cs.
                let h1 = set_slave h i (s\<lparr>sl_length := 0, sl_read := 0, sl_recv_buffer := [], sl_status := STATUS_HEADER\<rparr>);
                    rest = drop need buffer
                in if rest = [] then Inr (cs, h1)
                   else rbind (k h1 rest) (\<lambda>(cs', h2). Inr (cs @ cs', h2))))"

definition header_case ::
  "(u32 \<Rightarrow> bool) \<Rightarrow> (harbor \<Rightarrow> byte list \<Rightarrow> c_error + (svc_call list \<times> harbor)) \<Rightarrow> nat \<Rightarrow> harbor \<Rightarrow> byte list
   \<Rightarrow> c_error + (svc_call list \<times> harbor)" where
  "header_case ok k i h buffer =
     (let s = hb_s h i; need = 4 - sl_read s
      in if length buffer < need
         then Inr ([], set_slave h i (s\<lparr>sl_size := take (sl_read s) (sl_size s) @ buffer @ drop (sl_read s + length buffer) (sl_size s),
                                        sl_read := sl_read s + length buffer\<rparr>))
         else let size4 = take (sl_read s) (sl_size s) @ take need buffer; rest = drop need buffer
              in if size4 ! 0 \<noteq> 0
                 then (case close_harbor (set_slave h i (s\<lparr>sl_size := size4\<rparr>)) i of
                         (cs, h1) \<Rightarrow> Inr (Error_log (ascii ''Message is too long from harbor '' @ print_nat i) # cs, h1))
                 else let h1 = set_slave h i (s\<lparr>sl_size := size4, sl_length := be_nat (tl size4), sl_read := 0, sl_recv_buffer := [],
                                                sl_status := STATUS_CONTENT\<rparr>)
                      in if rest = [] then Inr ([], h1) else content_case ok k i h1 rest)"

definition handshake_case ::
  "(u32 \<Rightarrow> bool) \<Rightarrow> (harbor \<Rightarrow> byte list \<Rightarrow> c_error + (svc_call list \<times> harbor)) \<Rightarrow> nat \<Rightarrow> harbor \<Rightarrow> byte list
   \<Rightarrow> c_error + (svc_call list \<times> harbor)" where
  "handshake_case ok k i h buffer =
     (case buffer of
        [] \<Rightarrow> Inl Out_of_bounds
      | remote_id # rest \<Rightarrow>
          if unat remote_id \<noteq> i
          then (case close_harbor h i of
                  (cs, h1) \<Rightarrow> Inr (Error_log (ascii ''Invalid shakehand id ('' @ print_nat i @ ascii '') from fd = ''
                                    @ print_int (sl_fd (hb_s h i)) @ ascii '' , harbor = '' @ print_nat (unat remote_id)) # cs, h1))
          else rbind (dispatch_slave_queue (set_slave h i ((hb_s h i)\<lparr>sl_status := STATUS_HEADER\<rparr>)) i) (\<lambda>(cs, h1).
                 rbind (if rest = [] then k h1 rest else header_case ok k i h1 rest) (\<lambda>(cs', h2). Inr (cs @ cs', h2))))"

text \<open>Every round but the last consumes a byte.\<close>

primrec socket_loop :: "nat \<Rightarrow> (u32 \<Rightarrow> bool) \<Rightarrow> nat \<Rightarrow> harbor \<Rightarrow> byte list \<Rightarrow> c_error + (svc_call list \<times> harbor)" where
  "socket_loop 0 ok i h buffer = Inl Diverges"
| "socket_loop (Suc n) ok i h buffer =
     (case sl_status (hb_s h i) of
        STATUS_HANDSHAKE \<Rightarrow> handshake_case ok (socket_loop n ok i) i h buffer
      | STATUS_HEADER \<Rightarrow> header_case ok (socket_loop n ok i) i h buffer
      | STATUS_CONTENT \<Rightarrow> content_case ok (socket_loop n ok i) i h buffer
      | _ \<Rightarrow> Inr ([], h))"

definition harbor_id :: "harbor \<Rightarrow> int \<Rightarrow> nat" where
  "harbor_id h fd = (case List.find (\<lambda>i. sl_fd (hb_s h i) = fd) [1..<REMOTE_MAX] of None \<Rightarrow> 0 | Some i \<Rightarrow> i)"

definition push_socket_data :: "(u32 \<Rightarrow> bool) \<Rightarrow> harbor \<Rightarrow> skynet_socket_message \<Rightarrow> c_error + (svc_call list \<times> harbor)" where
  "push_socket_data ok h m =
     rbind (c_assert (ss_type m = SKYNET_SOCKET_TYPE_DATA)) (\<lambda>_.
       let i = harbor_id h (ss_id m)
       in if i = 0 then Inr ([Error_log (ascii ''Invalid socket fd ('' @ print_int (ss_id m) @ ascii '') data'')], h)
          else if int (length (ss_buffer m)) < ss_ud m then Inl Out_of_bounds
          else let buffer = take (nat (ss_ud m)) (ss_buffer m) in socket_loop (length buffer + 2) ok i h buffer)"

section \<open>Sending\<close>

definition dispatch_name_queue :: "harbor \<Rightarrow> keyvalue \<Rightarrow> harbor_msg_queue \<Rightarrow> c_error + (svc_call list \<times> harbor)" where
  "dispatch_name_queue h node queue =
     (let handle = kv_value node; i = unat (drop_bit HANDLE_REMOTE_SHIFT handle); s = hb_s h i
      in if sl_fd s = 0
         then if sl_status s = STATUS_DOWN
              then Inr ([Error_log (ascii ''Drop message to '' @ takeWhile (\<lambda>c. c \<noteq> 0) (kv_key node) @ ascii '' (in harbor '' @ print_nat i @ ascii '')'')], h)
              else let q = (case sl_queue s of None \<Rightarrow> queue | Some q \<Rightarrow> fold push_queue_msg (fst (pop_all queue)) q)
                   in if i = unat (drop_bit HANDLE_REMOTE_SHIFT (hb_slave h))
                      then Inr (map (\<lambda>m. Send (rh_source (hm_header m)) handle
                                       (TAG_DONTCOPY (unat (drop_bit HANDLE_REMOTE_SHIFT (rh_destination (hm_header m)))))
                                       (sint (rh_session (hm_header m))) (hm_buffer m) (hm_size m)) (fst (pop_all q)),
                                set_slave h i (s\<lparr>sl_queue := None\<rparr>))
                      else Inr ([], set_slave h i (s\<lparr>sl_queue := Some q\<rparr>))
         else rbind (send_all (sl_fd s) (map (\<lambda>m. m\<lparr>hm_header := (hm_header m)\<lparr>rh_destination :=
                      rh_destination (hm_header m) OR (handle AND HANDLE_MASK)\<rparr>\<rparr>) (fst (pop_all queue)))) (\<lambda>cs. Inr (cs, h)))"

text \<open>After the queue of a name has been dispatched it is released.\<close>

definition update_name :: "harbor \<Rightarrow> cstring \<Rightarrow> u32 \<Rightarrow> c_error + (svc_call list \<times> harbor)" where
  "update_name h name handle =
     (let (node, map1) = search_or_insert (hb_map h) name;
          node1 = node\<lparr>kv_value := handle\<rparr>;
          h1 = h\<lparr>hb_map := hash_store map1 name (node1\<lparr>kv_queue := None\<rparr>)\<rparr>
      in case kv_queue node of
           None \<Rightarrow> Inr ([], h1)
         | Some queue \<Rightarrow> dispatch_name_queue h1 node1 queue)"

definition remote_header :: "u32 \<Rightarrow> nat \<Rightarrow> u32 \<Rightarrow> int \<Rightarrow> remote_message_header" where
  "remote_header source type handle session =
     \<lparr>rh_source = source, rh_destination = push_bit HANDLE_REMOTE_SHIFT (of_nat type) OR (handle AND HANDLE_MASK),
      rh_session = of_int session\<rparr>"

definition remote_send_handle ::
  "harbor \<Rightarrow> u32 \<Rightarrow> u32 \<Rightarrow> nat \<Rightarrow> int \<Rightarrow> byte list option \<Rightarrow> nat \<Rightarrow> c_error + (svc_call list \<times> harbor)" where
  "remote_send_handle h source destination type session msg sz =
     (let i = unat (drop_bit HANDLE_REMOTE_SHIFT destination); s = hb_s h i
      in if int i = hb_id h then Inr ([Send source destination (TAG_DONTCOPY type) session msg sz], h)
         else if sl_fd s = 0 \<or> sl_status s = STATUS_HANDSHAKE
         then if sl_status s = STATUS_DOWN
              then Inr ([Send destination source PTYPE_ERROR 0 None 0,
                         Error_log (ascii ''Drop message to harbor '' @ print_nat i @ ascii '' from '' @ print_hex source @ ascii '' to ''
                           @ print_hex destination @ ascii '' (session = '' @ print_int session @ ascii '', msgsz = '' @ print_int (c_int (int sz)) @ ascii '')'')], h)
              else let queue = (case sl_queue s of None \<Rightarrow> new_harbor_queue | Some q \<Rightarrow> q)
                   in Inr ([], set_slave h i (s\<lparr>sl_queue := Some (push_queue queue msg sz (remote_header source type destination session))\<rparr>))
         else rbind (send_remote (sl_fd s) msg sz (remote_header source type destination session)) (\<lambda>cs. Inr (cs, h)))"

definition remote_send_name ::
  "harbor \<Rightarrow> u32 \<Rightarrow> cstring \<Rightarrow> nat \<Rightarrow> int \<Rightarrow> byte list option \<Rightarrow> nat \<Rightarrow> c_error + (svc_call list \<times> harbor)" where
  "remote_send_name h source name type session msg sz =
     (let (node, map1) = search_or_insert (hb_map h) name; h1 = h\<lparr>hb_map := map1\<rparr>
      in if kv_value node = 0
         then let queue = (case kv_queue node of None \<Rightarrow> new_harbor_queue | Some q \<Rightarrow> q);
                  node1 = node\<lparr>kv_queue := Some (push_queue queue msg sz (remote_header source type 0 session))\<rparr>;
                  query = ascii ''Q '' @ takeWhile (\<lambda>c. c \<noteq> 0) (take GLOBALNAME_LENGTH name)
              in Inr ([Send 0 (hb_slave h) PTYPE_TEXT 0 (Some query) (length query)], h1\<lparr>hb_map := hash_store map1 name node1\<rparr>)
         else remote_send_handle h1 source (kv_value node) type session msg sz)"

section \<open>Commands and the handler\<close>

definition handshake :: "harbor \<Rightarrow> nat \<Rightarrow> svc_call list" where
  "handshake h i = [Socket_send (sl_fd (hb_s h i)) [of_int (hb_id h)]]"

text \<open>\<^verbatim>\<open>sscanf(buffer, "%d %d", &fd, &id)\<close>, with 0 for what is missing.\<close>

definition scan_connect :: "cstring \<Rightarrow> int \<times> int" where
  "scan_connect buffer =
     (case scan_d buffer of
        None \<Rightarrow> (0, 0)
      | Some (fd, rest) \<Rightarrow> (fd, case scan_d rest of None \<Rightarrow> 0 | Some (i, _) \<Rightarrow> i))"

definition connect_command :: "harbor \<Rightarrow> byte \<Rightarrow> cstring \<Rightarrow> c_error + (svc_call list \<times> harbor)" where
  "connect_command h c buffer =
     (let (fd, i) = scan_connect buffer
      in if fd = 0 \<or> i \<le> 0 \<or> int REMOTE_MAX \<le> i
         then Inr ([Error_log (ascii ''Invalid command '' @ [c] @ ascii '' '' @ cstr_at buffer 0)], h)
         else let s = hb_s h (nat i)
              in if sl_fd s \<noteq> 0 then Inr ([Error_log (ascii ''Harbor '' @ print_int i @ ascii '' alreay exist'')], h)
                 else let h1 = set_slave h (nat i) (s\<lparr>sl_fd := fd\<rparr>); calls = Socket_start fd # handshake h1 (nat i)
                      in if c = 83 then Inr (calls, set_slave h1 (nat i) (s\<lparr>sl_fd := fd, sl_status := STATUS_HANDSHAKE\<rparr>))
                         else rbind (dispatch_slave_queue (set_slave h1 (nat i) (s\<lparr>sl_fd := fd, sl_status := STATUS_HEADER\<rparr>)) (nat i))
                                (\<lambda>(cs, h2). Inr (calls @ cs, h2)))"

definition harbor_command :: "harbor \<Rightarrow> byte list \<Rightarrow> u32 \<Rightarrow> c_error + (svc_call list \<times> harbor)" where
  "harbor_command h msg source =
     (let c = (case msg of [] \<Rightarrow> 0 | c # _ \<Rightarrow> c); name = drop 2 msg; s = int (length msg) - 2
      in if c = 78
         then if s < 0 then Inl Out_of_bounds
              else if s = 0 \<or> int GLOBALNAME_LENGTH \<le> s then Inr ([Error_log (ascii ''Invalid global name '' @ cstr_at msg 2)], h)
              else update_name h (name @ replicate (GLOBALNAME_LENGTH - length name) 0) source
         else if c = 83 \<or> c = 65
         then if s < 0 then Inl Out_of_bounds else connect_command h c (cstr_at name 0)
         else Inr ([Error_log (ascii ''Unknown command '' @ cstr_at msg 0)], h))"

text \<open>What reaches the service: a socket message, a command in bytes, or a message of another
  service to a remote name or handle.\<close>

datatype harbor_in = In_socket skynet_socket_message | In_bytes "byte list" | In_remote cstring u32 "byte list option" nat

definition socket_event :: "(u32 \<Rightarrow> bool) \<Rightarrow> harbor \<Rightarrow> skynet_socket_message \<Rightarrow> c_error + (svc_call list \<times> harbor)" where
  "socket_event ok h m =
     (let i = harbor_id h (ss_id m)
      in if ss_type m = SKYNET_SOCKET_TYPE_DATA then push_socket_data ok h m
         else if ss_type m = SKYNET_SOCKET_TYPE_ERROR \<or> ss_type m = SKYNET_SOCKET_TYPE_CLOSE
         then Inr (if i \<noteq> 0 then report_harbor_down h i
                   else [Error_log (ascii ''Unkown fd ('' @ print_int (ss_id m) @ ascii '') closed'')], h)
         else if ss_type m = SKYNET_SOCKET_TYPE_CONNECT then Inr ([], h)
         else if ss_type m = SKYNET_SOCKET_TYPE_WARNING
         then Inr (if i \<noteq> 0 then [Error_log (ascii ''message havn't send to Harbor ('' @ print_nat i @ ascii '') reach ''
                                     @ print_int (ss_ud m) @ ascii '' K'')] else [], h)
         else Inr ([Error_log (ascii ''recv invalid socket message type '' @ print_nat PTYPE_SOCKET)], h))"

definition mainloop :: "(u32 \<Rightarrow> bool) \<Rightarrow> harbor \<Rightarrow> nat \<Rightarrow> int \<Rightarrow> u32 \<Rightarrow> harbor_in \<Rightarrow> c_error + (svc_call list \<times> harbor)" where
  "mainloop ok h type session source msg =
     (if type = PTYPE_SOCKET then (case msg of In_socket m \<Rightarrow> socket_event ok h m | _ \<Rightarrow> Inl Out_of_bounds)
      else if type = PTYPE_HARBOR then (case msg of In_bytes bs \<Rightarrow> harbor_command h bs source | _ \<Rightarrow> Inl Out_of_bounds)
      else (case msg of
              In_remote name handle m sz \<Rightarrow>
                if handle = 0 then remote_send_name h source name type session m sz
                else remote_send_handle h source handle type session m sz
            | _ \<Rightarrow> Inl Out_of_bounds))"

definition harbor_init :: "harbor \<Rightarrow> cstring \<Rightarrow> int \<times> svc_call list \<times> harbor" where
  "harbor_init h args =
     (let (i, slave) = (case scan_d args of
                          None \<Rightarrow> (0, 0)
                        | Some (i, rest) \<Rightarrow> (i, case scan_u rest of None \<Rightarrow> 0 | Some (w, _) \<Rightarrow> w))
      in if slave = 0 then (1, [], h) else (0, [Callback, Harbor_start], h\<lparr>hb_id := i, hb_slave := slave\<rparr>))"

section \<open>The queues are FIFO queues\<close>

definition hq_wf :: "harbor_msg_queue \<Rightarrow> bool" where
  "hq_wf q \<longleftrightarrow> 1 < hq_size q \<and> length (hq_data q) = hq_size q \<and> hq_head q < hq_size q \<and> hq_tail q < hq_size q"

definition hq_slots :: "harbor_msg_queue \<Rightarrow> harbor_msg option list" where
  "hq_slots q = ring_contents (hq_data q) (hq_head q) (ring_len (hq_head q) (hq_tail q) (hq_size q))"

lemma hq_put:
  fixes m :: harbor_msg
  assumes "hq_wf q" "(hq_tail q + 1) mod hq_size q \<noteq> hq_head q"
  defines "q' \<equiv> q\<lparr>hq_data := (hq_data q)[hq_tail q := Some m], hq_tail := (hq_tail q + 1) mod hq_size q\<rparr>"
  shows "hq_wf q' \<and> hq_slots q' = hq_slots q @ [Some m]"
proof -
  have w: "1 < hq_size q" "length (hq_data q) = hq_size q" "hq_head q < hq_size q" "hq_tail q < hq_size q"
    using assms(1) by (simp_all add: hq_wf_def)
  have "ring_len (hq_head q) (Suc (hq_tail q) mod hq_size q) (hq_size q) = Suc (ring_len (hq_head q) (hq_tail q) (hq_size q))"
    using ring_len_Suc_tail w assms(2) by simp
  moreover have "ring_contents ((hq_data q)[hq_tail q := Some m]) (hq_head q) (Suc (ring_len (hq_head q) (hq_tail q) (hq_size q)))
      = ring_contents (hq_data q) (hq_head q) (ring_len (hq_head q) (hq_tail q) (hq_size q)) @ [Some m]"
    using ring_contents_put [of "hq_head q" "hq_data q" "hq_tail q"] w by simp
  ultimately show ?thesis using w by (simp add: q'_def hq_wf_def hq_slots_def)
qed

lemma hq_grow:
  assumes "hq_wf q" "(hq_tail q + 1) mod hq_size q = hq_head q"
  defines "q' \<equiv> \<lparr>hq_size = hq_size q * 2, hq_head = 0, hq_tail = hq_size q - 1,
                 hq_data = map (\<lambda>i. hq_data q ! ((i + hq_head q) mod hq_size q)) [0..<hq_size q - 1] @ replicate (hq_size q + 1) None\<rparr>"
  shows "hq_wf q' \<and> hq_slots q' = hq_slots q \<and> (hq_tail q' + 1) mod hq_size q' \<noteq> hq_head q'"
proof -
  have w: "1 < hq_size q" "length (hq_data q) = hq_size q" "hq_head q < hq_size q" "hq_tail q < hq_size q"
    using assms(1) by (simp_all add: hq_wf_def)
  have len: "ring_len (hq_head q) (hq_tail q) (hq_size q) = hq_size q - 1" using ring_len_full [of "hq_head q" "hq_size q" "hq_tail q"] w assms(2) by simp
  let ?xs = "map (\<lambda>i. hq_data q ! ((i + hq_head q) mod hq_size q)) [0..<hq_size q - 1]"
  have "ring_contents (?xs @ replicate (hq_size q + 1) None) 0 (hq_size q - 1) = take (hq_size q - 1) ?xs"
    by (rule ring_contents_linear) simp
  also have "\<dots> = hq_slots q" using w(2) len by (simp add: hq_slots_def ring_contents_def add.commute)
  finally have "hq_slots q' = hq_slots q" using w by (simp add: q'_def hq_slots_def [of q'] ring_len_def) (simp add: hq_slots_def q'_def ring_len_def)
  then show ?thesis using w by (simp add: q'_def hq_wf_def)
qed

lemma push_queue_slots:
  assumes "hq_wf q"
  shows "hq_wf (push_queue_msg m q) \<and> hq_slots (push_queue_msg m q) = hq_slots q @ [Some m]"
proof (cases "(hq_tail q + 1) mod hq_size q = hq_head q")
  case True
  let ?q = "\<lparr>hq_size = hq_size q * 2, hq_head = 0, hq_tail = hq_size q - 1,
             hq_data = map (\<lambda>i. hq_data q ! ((i + hq_head q) mod hq_size q)) [0..<hq_size q - 1] @ replicate (hq_size q + 1) None\<rparr>"
  have h: "hq_wf ?q" "hq_slots ?q = hq_slots q" "(hq_tail ?q + 1) mod hq_size ?q \<noteq> hq_head ?q" using hq_grow [OF assms True] by blast+
  have "push_queue_msg m q = ?q\<lparr>hq_data := (hq_data ?q)[hq_tail ?q := Some m], hq_tail := (hq_tail ?q + 1) mod hq_size ?q\<rparr>"
    unfolding push_queue_msg_def Let_def by (simp only: if_P [OF True])
  with hq_put [OF h(1,3), of m] h(2) show ?thesis by (simp only:)
next
  case False
  then show ?thesis using hq_put [OF assms False] by (simp add: push_queue_msg_def Let_def)
qed

lemma pop_queue_slots:
  assumes "hq_wf q"
  shows "hq_slots q = [] \<longleftrightarrow> hq_head q = hq_tail q"
    and "hq_slots q = s # ss \<Longrightarrow> fst (pop_queue q) = s \<and> hq_slots (snd (pop_queue q)) = ss"
proof -
  have w: "length (hq_data q) = hq_size q" "hq_head q < hq_size q" "hq_tail q < hq_size q" using assms by (simp_all add: hq_wf_def)
  show e: "hq_slots q = [] \<longleftrightarrow> hq_head q = hq_tail q" using ring_len_0 w by (simp add: hq_slots_def)
  assume s: "hq_slots q = s # ss"
  then have ne: "hq_head q \<noteq> hq_tail q" using e by auto
  have "hq_slots q = hq_data q ! hq_head q # ring_contents (hq_data q) (Suc (hq_head q) mod hq_size q) (ring_len (Suc (hq_head q) mod hq_size q) (hq_tail q) (hq_size q))"
    using ring_len_Suc_head [OF w(2,3) ne] ring_contents_Cons [of "hq_head q" "hq_data q"] w by (simp add: hq_slots_def flip: ring_len_Suc_head [OF w(2,3) ne])
  with s ne show "fst (pop_queue q) = s \<and> hq_slots (snd (pop_queue q)) = ss" by (simp add: pop_queue_def hq_slots_def)
qed

interpretation hq: ring_queue push_queue_msg pop_queue hq_slots hq_wf
proof (unfold_locales, goal_cases)
  case (1 q x) then show ?case by (simp add: push_queue_slots)
next
  case (2 q x) then show ?case by (simp add: push_queue_slots)
next
  case (3 q) then show ?case by (simp add: hq_wf_def pop_queue_def)
next
  case (4 q) then show ?case using pop_queue_slots(1) by (simp add: pop_queue_def)
next
  case (5 q s ss) then show ?case using pop_queue_slots(2) by blast
qed

abbreviation hq_msgs :: "harbor_msg_queue \<Rightarrow> harbor_msg list" where "hq_msgs q \<equiv> map the (hq_slots q)"
abbreviation hq_ok :: "harbor_msg_queue \<Rightarrow> bool" where "hq_ok q \<equiv> hq_wf q \<and> None \<notin> set (hq_slots q)"

lemma new_harbor_queue_ok: "hq_ok new_harbor_queue" "hq_slots new_harbor_queue = []"
  by (simp_all add: hq_wf_def hq_slots_def new_harbor_queue_def HARBOR_QUEUE_SIZE_def ring_len_def)

lemma pop_all_msgs: "hq_ok q \<Longrightarrow> fst (pop_all q) = hq_msgs q"
  using hq.drain_contents [of q "hq_size q"] ring_len_less [of "hq_head q" "hq_size q" "hq_tail q"]
  by (simp add: pop_all_def hq_slots_def hq_wf_def)

section \<open>The wire format\<close>

lemma bigendian_inverse [simp]: "from_bigendian (to_bigendian n) = n"
proof (rule bit_word_eqI)
  fix k assume "k < LENGTH(32)"
  then consider "k < 8" | "8 \<le> k" "k < 16" | "16 \<le> k" "k < 24" | "24 \<le> k" "k < 32" by fastforce
  moreover have m: "(0xff :: u32) = mask 8" by (simp add: mask_eq_exp_minus_1)
  ultimately show "bit (from_bigendian (to_bigendian n)) k = bit n k"
    unfolding from_bigendian_def to_bigendian_def m by cases (auto simp: bit_simps)
qed

lemma length_to_bigendian [simp]: "length (to_bigendian n) = 4"
  by (simp add: to_bigendian_def)

lemma header_inverse: "message_to_header (header_to_message c) = c"
  by (simp add: message_to_header_def header_to_message_def)

lemma length_header [simp]: "length (header_to_message c) = 12"
  by (simp add: header_to_message_def)

lemma be_bytes_4: "be_bytes 4 n = [of_nat (n div 2 ^ 24), of_nat (n div 2 ^ 16), of_nat (n div 2 ^ 8), of_nat n]"
proof -
  have e: "(4 :: nat) = Suc (Suc (Suc (Suc 0)))" by simp
  have "be_bytes 4 n = [of_nat (n div 256 div 256 div 256), of_nat (n div 256 div 256), of_nat (n div 256), of_nat n]"
    unfolding e by simp
  then show ?thesis by (simp add: div_mult2_eq [symmetric])
qed

lemma to_bigendian_be: "n < 2 ^ 32 \<Longrightarrow> to_bigendian (of_nat n) = be_bytes 4 n"
proof -
  have f: "(0xff :: u32) = mask 8" by (simp add: mask_eq_exp_minus_1)
  have u: "(ucast (w AND 0xff) :: byte) = ucast (w :: u32)" for w
    unfolding f by (rule bit_word_eqI) (auto simp: bit_simps)
  have d: "(ucast (drop_bit k (of_nat n :: u32)) :: byte) = of_nat (n div 2 ^ k)" if "n < 2 ^ 32" for k
  proof -
    have "drop_bit k (of_nat n :: u32) = of_nat (n div 2 ^ k)"
      using that by (simp add: word_unat_eq_iff unat_drop_bit unat_of_nat) (metis div_le_dividend le_less_trans mod_less)
    moreover have "n div 2 ^ k < 2 ^ 32" using that by (meson div_le_dividend le_less_trans)
    ultimately show ?thesis by (simp add: word_unat_eq_iff unat_of_nat unsigned_ucast_eq take_bit_eq_mod)
  qed
  show "n < 2 ^ 32 \<Longrightarrow> to_bigendian (of_nat n) = be_bytes 4 n"
    unfolding to_bigendian_def u be_bytes_4 using d [of 24] d [of 16] d [of 8] d [of 0] by simp
qed

text \<open>
  The specification: the messages in a stream and what is left of it. A stream with a length of
  16M or more, or too short for the header at its end, is not one that a harbor sends.
\<close>

function wire :: "byte list \<Rightarrow> (byte list list \<times> byte list) option" where
  "wire s =
     (if length s < 4 then Some ([], s)
      else if s ! 0 \<noteq> 0 \<or> be_nat (take 4 s) < 12 then None
      else let n = be_nat (take 4 s); r = drop 4 s
           in if length r < n then Some ([], s)
              else map_option (\<lambda>(fs, t). (take n r # fs, t)) (wire (drop n r)))"
  by pat_completeness auto

termination
  by (relation "measure length") auto

declare wire.simps [simp del]

lemma wire_cases:
  assumes "wire s = Some (fs, t)"
  obtains (short) "length s < 4" "fs = []" "t = s"
  | (part) "4 \<le> length s" "s ! 0 = 0" "12 \<le> be_nat (take 4 s)" "length (drop 4 s) < be_nat (take 4 s)" "fs = []" "t = s"
  | (whole) fs' where "4 \<le> length s" "s ! 0 = 0" "12 \<le> be_nat (take 4 s)" "be_nat (take 4 s) \<le> length (drop 4 s)"
      "fs = take (be_nat (take 4 s)) (drop 4 s) # fs'" "wire (drop (be_nat (take 4 s)) (drop 4 s)) = Some (fs', t)"
  using assms by (subst (asm) wire.simps) (auto simp: Let_def split: if_splits)

lemma wire_whole:
  assumes "4 \<le> length s" "s ! 0 = 0" "be_nat (take 4 s) = n" "12 \<le> n" "n \<le> length (drop 4 s)"
  shows "wire s = map_option (\<lambda>(fs, t). (take n (drop 4 s) # fs, t)) (wire (drop n (drop 4 s)))"
  using assms by (subst wire.simps) (simp add: Let_def)

lemma wire_append:
  "wire (s @ u) = (case wire s of None \<Rightarrow> None | Some (f1, r) \<Rightarrow> map_option (\<lambda>(f2, t). (f1 @ f2, t)) (wire (r @ u)))"
proof (induction s rule: wire.induct)
  case (1 s)
  let ?n = "be_nat (take 4 s)"
  consider (short) "length s < 4" | (bad) "4 \<le> length s" "s ! 0 \<noteq> 0 \<or> ?n < 12"
    | (part) "4 \<le> length s" "\<not> (s ! 0 \<noteq> 0 \<or> ?n < 12)" "length (drop 4 s) < ?n"
    | (whole) "4 \<le> length s" "\<not> (s ! 0 \<noteq> 0 \<or> ?n < 12)" "\<not> length (drop 4 s) < ?n" by linarith
  then show ?case
  proof cases
    case short
    then have "wire s = Some ([], s)" by (subst wire.simps) simp
    then show ?thesis by (simp add: case_prod_beta' option.map_ident)
  next
    case bad
    then have "wire s = None" "wire (s @ u) = None" by (subst wire.simps, auto simp: nth_append)+
    then show ?thesis by simp
  next
    case part
    then have "wire s = Some ([], s)" by (subst wire.simps) simp
    then show ?thesis by (simp add: case_prod_beta' option.map_ident)
  next
    case whole
    have s: "wire s = map_option (\<lambda>(fs, t). (take ?n (drop 4 s) # fs, t)) (wire (drop ?n (drop 4 s)))"
      using whole by (subst wire.simps) (simp add: Let_def)
    have "take 4 (s @ u) = take 4 s" "(s @ u) ! 0 = s ! 0" "drop ?n (drop 4 (s @ u)) = drop ?n (drop 4 s) @ u"
      "take ?n (drop 4 (s @ u)) = take ?n (drop 4 s)" "length (drop 4 s) \<le> length (drop 4 (s @ u))"
      using whole by (auto simp: nth_append)
    then have "wire (s @ u) = map_option (\<lambda>(fs, t). (take ?n (drop 4 s) # fs, t)) (wire (drop ?n (drop 4 s) @ u))"
      using whole by (subst wire.simps) (simp add: Let_def)
    moreover have "wire (drop ?n (drop 4 s) @ u) = (case wire (drop ?n (drop 4 s)) of None \<Rightarrow> None
        | Some (f1, r) \<Rightarrow> map_option (\<lambda>(f2, t). (f1 @ f2, t)) (wire (r @ u)))"
      using whole by (intro 1) auto
    ultimately show ?thesis unfolding s
      by (auto simp: option.map_comp comp_def case_prod_beta' split: option.splits)
  qed
qed

text \<open>A message as it is sent.\<close>

definition frame :: "byte list \<Rightarrow> byte list" where
  "frame f = be_bytes 4 (length f) @ f"

lemma wire_frames:
  "list_all (\<lambda>f. 12 \<le> length f \<and> length f < 0x1000000) fs \<Longrightarrow> wire (concat (map frame fs)) = Some (fs, [])"
proof (induction fs)
  case Nil
  then show ?case by (subst wire.simps) simp
next
  case (Cons f fs)
  have n: "be_nat (be_bytes 4 (length f)) = length f" using Cons.prems by (intro be_nat_bytes) simp
  have z: "be_bytes 4 (length f) ! 0 = 0" using Cons.prems by (simp add: be_bytes_4)
  let ?s = "be_bytes 4 (length f) @ f @ concat (map frame fs)"
  have "wire ?s = map_option (\<lambda>(fs, t). (take (length f) (drop 4 ?s) # fs, t)) (wire (drop (length f) (drop 4 ?s)))"
    by (rule wire_whole) (use z n Cons.prems in \<open>simp_all add: nth_append\<close>)
  moreover have "concat (map frame (f # fs)) = ?s" by (simp add: frame_def)
  ultimately have "wire (concat (map frame (f # fs))) = map_option (\<lambda>(gs, t). (f # gs, t)) (wire (concat (map frame fs)))" by simp
  with Cons show ?case by simp
qed

section \<open>Receiving implements the wire format\<close>

definition local_calls :: "(u32 \<Rightarrow> bool) \<Rightarrow> harbor \<Rightarrow> byte list \<Rightarrow> svc_call list" where
  "local_calls ok h f = (case forward_local_messsage ok h f of Inl _ \<Rightarrow> [] | Inr cs \<Rightarrow> cs)"

lemma forward_local: "12 \<le> length f \<Longrightarrow> forward_local_messsage ok h f = Inr (local_calls ok h f)"
  by (simp add: local_calls_def forward_local_messsage_def HEADER_COOKIE_LENGTH_def Let_def)

lemma local_calls_slave [simp]: "local_calls ok (h\<lparr>hb_s := f\<rparr>) = local_calls ok h"
  by (simp add: fun_eq_iff local_calls_def forward_local_messsage_def Let_def)

text \<open>\<open>rx s p\<close>: the bytes \<open>p\<close> of a message have been received, none of it or a part.\<close>

definition rx :: "slave \<Rightarrow> byte list \<Rightarrow> bool" where
  "rx s p \<longleftrightarrow> length (sl_size s) = 4 \<and>
     (sl_status s = STATUS_HEADER \<and> sl_read s < 4 \<and> p = take (sl_read s) (sl_size s)
      \<or> sl_status s = STATUS_CONTENT \<and> sl_size s ! 0 = 0 \<and> sl_length s = be_nat (tl (sl_size s))
        \<and> sl_read s = length (sl_recv_buffer s) \<and> sl_read s < sl_length s \<and> p = sl_size s @ sl_recv_buffer s)"

definition received :: "(u32 \<Rightarrow> bool) \<Rightarrow> nat \<Rightarrow> harbor \<Rightarrow> byte list list \<Rightarrow> byte list \<Rightarrow> c_error + (svc_call list \<times> harbor) \<Rightarrow> bool" where
  "received ok i h fs t r \<longleftrightarrow>
     (\<exists>s. r = Inr (concat (map (local_calls ok h) fs), set_slave h i s) \<and> rx s t
        \<and> sl_fd s = sl_fd (hb_s h i) \<and> sl_queue s = sl_queue (hb_s h i))"

lemma be_nat_high: "length bs = 4 \<Longrightarrow> bs ! 0 = 0 \<Longrightarrow> be_nat bs = be_nat (tl bs)"
  by (cases bs) (simp_all add: be_nat_def)

lemma receivedI:
  "r = Inr (concat (map (local_calls ok h) fs), set_slave h i s) \<Longrightarrow> rx s t \<Longrightarrow> sl_fd s = sl_fd (hb_s h i) \<Longrightarrow>
   sl_queue s = sl_queue (hb_s h i) \<Longrightarrow> received ok i h fs t r"
  by (auto simp: received_def)

lemma content_case_wire:
  assumes rx: "rx (hb_s h i) p" "sl_status (hb_s h i) = STATUS_CONTENT" and w: "wire (p @ buf) = Some (fs, t)"
    and k: "\<And>h1 rest fs'. rx (hb_s h1 i) [] \<Longrightarrow> length rest < length buf \<Longrightarrow> wire rest = Some (fs', t) \<Longrightarrow> received ok i h1 fs' t (k h1 rest)"
  shows "received ok i h fs t (content_case ok k i h buf)"
proof -
  let ?s = "hb_s h i"
  let ?n = "sl_length ?s" and ?r = "sl_recv_buffer ?s"
  have s: "length (sl_size ?s) = 4" "sl_size ?s ! 0 = 0" "be_nat (sl_size ?s) = ?n" "sl_read ?s = length ?r" "length ?r < ?n"
    "p = sl_size ?s @ ?r" "sl_length ?s = be_nat (tl (sl_size ?s))"
    using rx be_nat_high by (auto simp: rx_def)
  have t4: "take 4 (p @ buf) = sl_size ?s" "drop 4 (p @ buf) = ?r @ buf" using s(1,6) by simp_all
  from w show ?thesis
  proof (cases rule: wire_cases)
    case short
    then show ?thesis using s by simp
  next
    case part
    have "length (?r @ buf) < ?n" using part(4) unfolding t4 s(3) .
    then have "length buf < ?n - length ?r" by simp
    then show ?thesis using part s
      by (intro receivedI [where s = "?s\<lparr>sl_recv_buffer := ?r @ buf, sl_read := sl_read ?s + length buf\<rparr>"])
        (auto simp: content_case_def Let_def rx_def rx(2))
  next
    case (whole fs')
    let ?need = "?n - length ?r"
    let ?h1 = "set_slave h i (?s\<lparr>sl_length := 0, sl_read := 0, sl_recv_buffer := [], sl_status := STATUS_HEADER\<rparr>)"
    have n: "12 \<le> ?n" "?n \<le> length (?r @ buf)" "fs = take ?n (?r @ buf) # fs'" "wire (drop ?n (?r @ buf)) = Some (fs', t)"
      using whole(3-6) unfolding t4 s(3) .
    have need: "?need \<le> length buf" "0 < ?need" using n(2) s(5) by simp_all
    have f: "take ?n (?r @ buf) = ?r @ take ?need buf" "drop ?n (?r @ buf) = drop ?need buf" using s(5) by simp_all
    have "12 \<le> length (?r @ take ?need buf)" using n(1) s(5) need by simp
    note fwd = forward_local [OF this, of ok h]
    have fs: "fs = (?r @ take ?need buf) # fs'" and wr: "wire (drop ?need buf) = Some (fs', t)"
      using n(3,4) unfolding f .
    have rx1: "rx (hb_s ?h1 i) []" using s(1) by (simp add: rx_def)
    show ?thesis
    proof (cases "drop ?need buf = []")
      case True
      then have "fs' = []" "t = []" using wr by (subst (asm) wire.simps, simp)+
      then show ?thesis using True fwd fs s(4) need(1) rx1
        by (intro receivedI [where s = "hb_s ?h1 i"]) (simp_all add: content_case_def Let_def)
    next
      case False
      have "received ok i ?h1 fs' t (k ?h1 (drop ?need buf))" using need False by (intro k [OF rx1 _ wr]) auto
      then obtain s' where "k ?h1 (drop ?need buf) = Inr (concat (map (local_calls ok h) fs'), set_slave h i s')" "rx s' t"
        "sl_fd s' = sl_fd ?s" "sl_queue s' = sl_queue ?s" by (auto simp: received_def)
      then show ?thesis using False fwd fs s(4) need(1)
        by (intro receivedI [where s = s']) (simp_all add: content_case_def Let_def)
    qed
  qed
qed

lemma header_case_wire:
  assumes rx: "rx (hb_s h i) p" "sl_status (hb_s h i) = STATUS_HEADER" and w: "wire (p @ buf) = Some (fs, t)"
    and k: "\<And>h1 rest fs'. rx (hb_s h1 i) [] \<Longrightarrow> length rest < length buf \<Longrightarrow> wire rest = Some (fs', t) \<Longrightarrow> received ok i h1 fs' t (k h1 rest)"
  shows "received ok i h fs t (header_case ok k i h buf)"
proof -
  let ?s = "hb_s h i"
  have s: "length (sl_size ?s) = 4" "sl_read ?s < 4" "p = take (sl_read ?s) (sl_size ?s)" "length p = sl_read ?s"
    using rx by (auto simp: rx_def)
  show ?thesis
  proof (cases "length buf < 4 - sl_read ?s")
    case True
    then have "length (p @ buf) < 4" using s by simp
    then have "fs = []" "t = p @ buf" using w by (subst (asm) wire.simps, simp)+
    then show ?thesis using True s rx(2)
      by (intro receivedI [where s = "?s\<lparr>sl_size := take (sl_read ?s) (sl_size ?s) @ buf @ drop (sl_read ?s + length buf) (sl_size ?s),
                                          sl_read := sl_read ?s + length buf\<rparr>"])
        (simp_all add: header_case_def Let_def rx_def)
  next
    case False
    let ?need = "4 - sl_read ?s"
    let ?z = "take (sl_read ?s) (sl_size ?s) @ take ?need buf" and ?rest = "drop ?need buf"
    have z: "take 4 (p @ buf) = ?z" "drop 4 (p @ buf) = ?rest" "length ?z = 4" "p @ buf = ?z @ ?rest" using False s by simp_all
    have len: "4 \<le> length (p @ buf)" using False s by simp
    have z0: "?z ! 0 = 0" "12 \<le> be_nat ?z"
      using wire_cases [OF w] len z by (metis length_greater_0_conv not_le nth_append zero_less_numeral z(3))+
    let ?s1 = "?s\<lparr>sl_size := ?z, sl_length := be_nat (tl ?z), sl_read := 0, sl_recv_buffer := [], sl_status := STATUS_CONTENT\<rparr>"
    let ?h1 = "set_slave h i ?s1"
    have rx1: "rx (hb_s ?h1 i) ?z" "sl_status (hb_s ?h1 i) = STATUS_CONTENT"
      using z(3) z0 be_nat_high [OF z(3) z0(1)] by (simp_all add: rx_def)
    have case_eq: "header_case ok k i h buf = (if ?rest = [] then Inr ([], ?h1) else content_case ok k i ?h1 ?rest)"
      using False z0(1) by (simp add: header_case_def Let_def)
    show ?thesis
    proof (cases "?rest = []")
      case True
      then have "wire (p @ buf) = Some ([], ?z)" using z z0 len by (subst wire.simps) (simp add: Let_def)
      then show ?thesis using w True case_eq rx1(1) by (intro receivedI [where s = ?s1]) simp_all
    next
      case False
      have "received ok i ?h1 fs t (content_case ok k i ?h1 ?rest)"
        using w z(4) s by (intro content_case_wire [OF rx1]) (auto intro!: k)
      then show ?thesis using False case_eq by (auto simp: received_def)
    qed
  qed
qed

lemma socket_loop_wire:
  assumes "rx (hb_s h i) p" "wire (p @ buf) = Some (fs, t)" "length buf < n"
  shows "received ok i h fs t (socket_loop n ok i h buf)"
  using assms
proof (induction n arbitrary: h p buf fs)
  case (Suc n)
  have k: "received ok i h1 fs' t (socket_loop n ok i h1 rest)"
    if "rx (hb_s h1 i) []" "length rest < length buf" "wire rest = Some (fs', t)" for h1 rest fs'
    using Suc.IH [OF that(1), of rest fs'] that Suc.prems(3) by simp
  have "sl_status (hb_s h i) = STATUS_HEADER \<or> sl_status (hb_s h i) = STATUS_CONTENT" using Suc.prems(1) by (auto simp: rx_def)
  then show ?case
  proof
    assume st: "sl_status (hb_s h i) = STATUS_HEADER"
    from header_case_wire [OF Suc.prems(1) st Suc.prems(2) k] st show ?thesis by simp
  next
    assume st: "sl_status (hb_s h i) = STATUS_CONTENT"
    from content_case_wire [OF Suc.prems(1) st Suc.prems(2) k] st show ?thesis by simp
  qed
qed simp

section \<open>Between two harbors\<close>

text \<open>Blocks of data that arrive on one socket.\<close>

fun harbor_feed :: "(u32 \<Rightarrow> bool) \<Rightarrow> harbor \<Rightarrow> int \<Rightarrow> byte list list \<Rightarrow> c_error + (svc_call list \<times> harbor)" where
  "harbor_feed ok h fd [] = Inr ([], h)"
| "harbor_feed ok h fd (c # cs) =
     rbind (mainloop ok h PTYPE_SOCKET 0 0 (In_socket (data_message fd c))) (\<lambda>(calls, h1).
     rbind (harbor_feed ok h1 fd cs) (\<lambda>(calls', h2). Inr (calls @ calls', h2)))"

lemma harbor_id_slave: "sl_fd s = sl_fd (hb_s h i) \<Longrightarrow> harbor_id (set_slave h i s) fd = harbor_id h fd"
proof -
  assume "sl_fd s = sl_fd (hb_s h i)"
  then have "(\<lambda>j. sl_fd (hb_s (set_slave h i s) j) = fd) = (\<lambda>j. sl_fd (hb_s h j) = fd)" by (auto simp: fun_eq_iff)
  then show ?thesis by (simp only: harbor_id_def)
qed

lemma harbor_data:
  assumes "rx (hb_s h i) p" "harbor_id h fd = i" "i \<noteq> 0" "wire (p @ c) = Some (fs, t)"
  shows "received ok i h fs t (mainloop ok h PTYPE_SOCKET 0 0 (In_socket (data_message fd c)))"
  using socket_loop_wire [OF assms(1,4), of "length c + 2" ok] assms(2,3)
  by (simp add: mainloop_def socket_event_def push_socket_data_def data_message_def del: socket_loop.simps)

lemma harbor_feed_wire:
  assumes "rx (hb_s h i) p" "harbor_id h fd = i" "i \<noteq> 0" "wire (p @ concat cs) = Some (fs, t)"
  shows "\<exists>h'. harbor_feed ok h fd cs = Inr (concat (map (local_calls ok h) fs), h') \<and> rx (hb_s h' i) t"
  using assms
proof (induction cs arbitrary: h p fs)
  case Nil
  from Nil.prems(1,4) have "wire p = Some (fs, t)" by simp
  moreover have "wire p = Some ([], p)"
  proof (cases "sl_status (hb_s h i) = STATUS_HEADER")
    case True
    with Nil.prems(1) show ?thesis by (subst wire.simps) (auto simp: rx_def)
  next
    case False
    then have s: "length (sl_size (hb_s h i)) = 4" "sl_size (hb_s h i) ! 0 = 0" "p = sl_size (hb_s h i) @ sl_recv_buffer (hb_s h i)"
      "length (sl_recv_buffer (hb_s h i)) < be_nat (sl_size (hb_s h i))"
      using Nil.prems(1) be_nat_high by (auto simp: rx_def)
    from \<open>wire p = Some (fs, t)\<close> have "12 \<le> be_nat (sl_size (hb_s h i))"
      by (rule wire_cases) (use s in \<open>auto\<close>)
    with s show ?thesis by (subst wire.simps) (simp add: nth_append Let_def)
  qed
  ultimately show ?case using Nil.prems(1) by simp
next
  case (Cons c cs)
  have "wire ((p @ c) @ concat cs) = Some (fs, t)" using Cons.prems(4) by simp
  then obtain f1 r f2 where w: "wire (p @ c) = Some (f1, r)" "wire (r @ concat cs) = Some (f2, t)" "fs = f1 @ f2"
    unfolding wire_append [of "p @ c"] by (auto split: option.splits)
  obtain s where s: "mainloop ok h PTYPE_SOCKET 0 0 (In_socket (data_message fd c)) = Inr (concat (map (local_calls ok h) f1), set_slave h i s)"
    "rx s r" "sl_fd s = sl_fd (hb_s h i)"
    using harbor_data [OF Cons.prems(1-3) w(1), of ok] by (auto simp: received_def)
  have "harbor_id (set_slave h i s) fd = i" using harbor_id_slave [OF s(3)] Cons.prems(2) by simp
  with Cons.IH [of "set_slave h i s" r f2] s(2) Cons.prems(3) w(2) obtain h' where
    "harbor_feed ok (set_slave h i s) fd cs = Inr (concat (map (local_calls ok h) f2), h')" "rx (hb_s h' i) t" by auto
  with s(1) w(3) show ?case by simp
qed

text \<open>A message of a service: its source, destination, type, session and data. \<open>sent_as\<close> is what
  the harbor puts on the wire for it and \<open>arrives_as\<close> what the harbor of the destination does with
  it.\<close>

record out_message =
  om_source :: u32
  om_destination :: u32
  om_type :: nat
  om_session :: int
  om_data :: "byte list"

definition sent_as :: "out_message \<Rightarrow> byte list" where
  "sent_as m = om_data m @ header_to_message (remote_header (om_source m) (om_type m) (om_destination m) (om_session m))"

definition arrives_as :: "out_message \<Rightarrow> svc_call" where
  "arrives_as m = Send (om_source m) (om_destination m) (TAG_DONTCOPY (om_type m)) (om_session m) (Some (sent_as m)) (length (om_data m))"

definition transportable :: "nat \<Rightarrow> out_message \<Rightarrow> bool" where
  "transportable i m \<longleftrightarrow> unat (drop_bit HANDLE_REMOTE_SHIFT (om_destination m)) = i \<and> om_type m < 256
     \<and> om_type m \<noteq> PTYPE_SOCKET \<and> om_type m \<noteq> PTYPE_HARBOR
     \<and> - (2 ^ 31) \<le> om_session m \<and> om_session m < 2 ^ 31 \<and> length (om_data m) + 12 < 0x1000000"

fun harbor_sends :: "(u32 \<Rightarrow> bool) \<Rightarrow> harbor \<Rightarrow> out_message list \<Rightarrow> c_error + (svc_call list \<times> harbor)" where
  "harbor_sends ok h [] = Inr ([], h)"
| "harbor_sends ok h (m # ms) =
     rbind (mainloop ok h (om_type m) (om_session m) (om_source m)
              (In_remote [] (om_destination m) (Some (om_data m)) (length (om_data m)))) (\<lambda>(calls, h1).
     rbind (harbor_sends ok h1 ms) (\<lambda>(calls', h2). Inr (calls @ calls', h2)))"

lemma HANDLE_shift: "HANDLE_REMOTE_SHIFT = 24" by (simp add: HANDLE_REMOTE_SHIFT_def)

lemma header_fields:
  assumes "ty < 256"
  shows "drop_bit 24 (push_bit 24 (of_nat ty) OR (d AND HANDLE_MASK)) = (of_nat ty :: u32)"
    and "(push_bit 24 (of_nat ty) OR (d AND HANDLE_MASK)) AND HANDLE_MASK = d AND HANDLE_MASK"
    and "(d AND HANDLE_MASK) OR push_bit 24 (drop_bit 24 d) = d"
proof -
  have t: "n < 8" if "bit ty n" for n
  proof -
    have "take_bit 8 ty = ty" using assms by (simp add: take_bit_nat_eq_self)
    with that have "bit (take_bit 8 ty) n" by simp
    then show ?thesis by (simp add: bit_take_bit_iff)
  qed
  show "drop_bit 24 (push_bit 24 (of_nat ty) OR (d AND HANDLE_MASK)) = (of_nat ty :: u32)"
    by (rule bit_word_eqI) (auto simp: bit_simps bit_HANDLE_MASK dest: t)
  show "(push_bit 24 (of_nat ty) OR (d AND HANDLE_MASK)) AND HANDLE_MASK = d AND HANDLE_MASK"
    by (rule bit_word_eqI) (auto simp: bit_simps bit_HANDLE_MASK)
  show "(d AND HANDLE_MASK) OR push_bit 24 (drop_bit 24 d) = d"
  proof (rule bit_word_eqI)
    fix n assume "n < LENGTH(32)"
    then show "bit ((d AND HANDLE_MASK) OR push_bit 24 (drop_bit 24 d)) n = bit d n"
      by (cases "n < 24") (auto simp: bit_simps bit_HANDLE_MASK)
  qed
qed

lemma arrives:
  assumes "transportable i m" "hb_id h = int i" "ok (om_destination m)"
  shows "local_calls ok h (sent_as m) = [arrives_as m]"
proof -
  let ?c = "remote_header (om_source m) (om_type m) (om_destination m) (om_session m)"
  have i: "(of_int (hb_id h) :: u32) = drop_bit 24 (om_destination m)"
    using assms(1,2) by (auto simp: transportable_def HANDLE_shift)
  have ty: "om_type m < 256" and ses: "sint (of_int (om_session m) :: u32) = om_session m"
    using assms(1) by (auto simp: transportable_def signed_of_int signed_take_bit_int_eq_self)
  have c: "message_to_header (drop (length (om_data m)) (sent_as m)) = ?c" by (simp add: sent_as_def header_inverse)
  have "unat (drop_bit 24 (rh_destination ?c)) = om_type m" "rh_destination ?c AND HANDLE_MASK = om_destination m AND HANDLE_MASK"
    using ty header_fields(1,2) [OF ty, of "om_destination m"] by (simp_all add: remote_header_def HANDLE_shift unat_of_nat)
  then show ?thesis
    using assms(3) ses c i header_fields(3) [OF ty, of "om_destination m"]
    by (simp add: local_calls_def forward_local_messsage_def HEADER_COOKIE_LENGTH_def HANDLE_shift Let_def arrives_as_def)
      (simp add: sent_as_def remote_header_def)
qed

section \<open>Sending and queueing\<close>

definition msg_of :: "out_message \<Rightarrow> harbor_msg" where
  "msg_of m = \<lparr>hm_header = remote_header (om_source m) (om_type m) (om_destination m) (om_session m),
               hm_buffer = Some (om_data m), hm_size = length (om_data m)\<rparr>"

lemma send_remote_frame:
  "length data + 12 < 2 ^ 32 \<Longrightarrow> send_remote fd (Some data) (length data) c = Inr [Socket_send fd (frame (data @ header_to_message c))]"
  using to_bigendian_be [of "length data + 12"] by (simp add: send_remote_def copy_bytes_def frame_def)

lemma send_all_frames:
  "list_all (transportable i) ms \<Longrightarrow> send_all fd (map msg_of ms) = Inr (map (\<lambda>m. Socket_send fd (frame (sent_as m))) ms)"
  by (induction ms) (simp_all add: msg_of_def send_remote_frame sent_as_def transportable_def)

text \<open>The messages queued for a harbor, and a harbor to which messages are queued or sent.\<close>

definition queue_holds :: "harbor_msg_queue option \<Rightarrow> harbor_msg list \<Rightarrow> bool" where
  "queue_holds q ms \<longleftrightarrow> (case q of None \<Rightarrow> ms = [] | Some q \<Rightarrow> hq_ok q \<and> hq_msgs q = ms)"

definition waiting :: "harbor \<Rightarrow> nat \<Rightarrow> bool" where
  "waiting h i \<longleftrightarrow> int i \<noteq> hb_id h \<and> i \<noteq> 0 \<and> sl_status (hb_s h i) \<noteq> STATUS_DOWN
     \<and> (sl_fd (hb_s h i) = 0 \<or> sl_status (hb_s h i) = STATUS_HANDSHAKE)"

definition connected :: "harbor \<Rightarrow> nat \<Rightarrow> int \<Rightarrow> bool" where
  "connected h i fd \<longleftrightarrow> int i \<noteq> hb_id h \<and> i \<noteq> 0 \<and> sl_fd (hb_s h i) = fd \<and> fd \<noteq> 0 \<and> sl_status (hb_s h i) \<noteq> STATUS_HANDSHAKE"

lemma queue_push_holds:
  assumes "queue_holds q ms"
  shows "queue_holds (Some (push_queue (case q of None \<Rightarrow> new_harbor_queue | Some q \<Rightarrow> q) b sz c)) (ms @ [\<lparr>hm_header = c, hm_buffer = b, hm_size = sz\<rparr>])"
proof -
  let ?q = "case q of None \<Rightarrow> new_harbor_queue | Some q \<Rightarrow> q"
  have "hq_ok ?q" "hq_msgs ?q = ms" using assms new_harbor_queue_ok by (auto simp: queue_holds_def split: option.splits)
  then show ?thesis by (simp add: queue_holds_def push_queue_def push_queue_slots)
qed

lemma transportable_dest: "transportable i m \<Longrightarrow> i \<noteq> 0 \<Longrightarrow> om_destination m \<noteq> 0"
  by (auto simp: transportable_def)

lemma mainloop_send:
  assumes "transportable i m" "i \<noteq> 0"
  shows "mainloop ok h (om_type m) (om_session m) (om_source m) (In_remote [] (om_destination m) (Some (om_data m)) (length (om_data m)))
    = remote_send_handle h (om_source m) (om_destination m) (om_type m) (om_session m) (Some (om_data m)) (length (om_data m))"
  using assms transportable_dest [OF assms] by (simp add: mainloop_def transportable_def)

lemma harbor_sends_connected:
  "connected h i fd \<Longrightarrow> list_all (transportable i) ms \<Longrightarrow>
   harbor_sends ok h ms = Inr (map (\<lambda>m. Socket_send fd (frame (sent_as m))) ms, h)"
proof (induction ms)
  case (Cons m ms)
  then have m: "transportable i m" "i \<noteq> 0" by (simp_all add: connected_def)
  then have "remote_send_handle h (om_source m) (om_destination m) (om_type m) (om_session m) (Some (om_data m)) (length (om_data m))
      = Inr ([Socket_send fd (frame (sent_as m))], h)"
    using Cons.prems(1) by (simp add: remote_send_handle_def Let_def connected_def transportable_def send_remote_frame sent_as_def)
  with Cons mainloop_send [OF m] show ?case by simp
qed simp

lemma harbor_sends_waiting:
  "waiting h i \<Longrightarrow> list_all (transportable i) ms \<Longrightarrow> queue_holds (sl_queue (hb_s h i)) ms0 \<Longrightarrow>
   \<exists>q. harbor_sends ok h ms = Inr ([], set_slave h i ((hb_s h i)\<lparr>sl_queue := q\<rparr>)) \<and> queue_holds q (ms0 @ map msg_of ms)"
proof (induction ms arbitrary: h ms0)
  case Nil
  then show ?case by (intro exI [of _ "sl_queue (hb_s h i)"]) simp
next
  case (Cons m ms)
  then have m: "transportable i m" "i \<noteq> 0" by (simp_all add: waiting_def)
  let ?q = "Some (push_queue (case sl_queue (hb_s h i) of None \<Rightarrow> new_harbor_queue | Some q \<Rightarrow> q) (Some (om_data m)) (length (om_data m))
      (remote_header (om_source m) (om_type m) (om_destination m) (om_session m)))"
  let ?h = "set_slave h i ((hb_s h i)\<lparr>sl_queue := ?q\<rparr>)"
  have r: "remote_send_handle h (om_source m) (om_destination m) (om_type m) (om_session m) (Some (om_data m)) (length (om_data m)) = Inr ([], ?h)"
    using Cons.prems(1) m by (simp add: remote_send_handle_def Let_def waiting_def transportable_def)
  have "queue_holds ?q (ms0 @ [msg_of m])" using queue_push_holds [OF Cons.prems(3)] by (simp add: msg_of_def)
  moreover have "waiting ?h i" using Cons.prems(1) by (simp add: waiting_def)
  ultimately have "\<exists>q. harbor_sends ok ?h ms = Inr ([], set_slave ?h i ((hb_s ?h i)\<lparr>sl_queue := q\<rparr>)) \<and> queue_holds q ((ms0 @ [msg_of m]) @ map msg_of ms)"
    using Cons.prems(2) by (intro Cons.IH) simp_all
  then obtain q where q: "harbor_sends ok ?h ms = Inr ([], set_slave ?h i ((hb_s ?h i)\<lparr>sl_queue := q\<rparr>))" "queue_holds q ((ms0 @ [msg_of m]) @ map msg_of ms)"
    by blast
  have u: "set_slave ?h i ((hb_s ?h i)\<lparr>sl_queue := q\<rparr>) = set_slave h i ((hb_s h i)\<lparr>sl_queue := q\<rparr>)" by simp
  have sent: "harbor_sends ok h (m # ms) = Inr ([], set_slave h i ((hb_s h i)\<lparr>sl_queue := q\<rparr>))"
    unfolding harbor_sends.simps mainloop_send [OF m] r rbind_Inr prod.case q(1) u by simp
  have "queue_holds q (ms0 @ map msg_of (m # ms))" using q(2) by simp
  with sent show ?case by blast
qed

lemma dispatch_flushes:
  assumes "sl_fd (hb_s h i) \<noteq> 0" "queue_holds (sl_queue (hb_s h i)) (map msg_of ms)" "list_all (transportable i) ms"
  shows "dispatch_slave_queue h i = Inr (map (\<lambda>m. Socket_send (sl_fd (hb_s h i)) (frame (sent_as m))) ms,
           set_slave h i ((hb_s h i)\<lparr>sl_queue := None\<rparr>))"
proof (cases "sl_queue (hb_s h i)")
  case None
  have "(hb_s h i)\<lparr>sl_queue := None\<rparr> = hb_s h i" using None by (cases "hb_s h i") simp
  then have u: "set_slave h i ((hb_s h i)\<lparr>sl_queue := None\<rparr>) = h" by (simp only: fun_upd_triv) simp
  have "ms = []" using None assms(2) by (simp add: queue_holds_def)
  then show ?thesis unfolding u using None assms(1) by (simp add: dispatch_slave_queue_def Let_def)
next
  case (Some q)
  then have "fst (pop_all q) = map msg_of ms" using assms(2) pop_all_msgs by (simp add: queue_holds_def)
  then show ?thesis using Some assms(1) send_all_frames [OF assms(3)] by (simp add: dispatch_slave_queue_def Let_def)
qed

end
