(* ===== verification/Harbor_Net.thy ===== *)
theory Harbor_Net
  imports Harbor
begin

text \<open>
  What the harbors of a network achieve together, on the handlers of theory \<open>Harbor\<close>: messages
  arrive at the harbor of their destination unchanged and in order, also those that were sent
  before the connection existed; and two shortcomings of the code.
\<close>

section \<open>Transport\<close>

text \<open>The bytes that a list of calls writes to a socket.\<close>

fun socket_bytes :: "int \<Rightarrow> svc_call list \<Rightarrow> byte list" where
  "socket_bytes fd [] = []"
| "socket_bytes fd (Socket_send fd' bs # cs) = (if fd' = fd then bs else []) @ socket_bytes fd cs"
| "socket_bytes fd (_ # cs) = socket_bytes fd cs"

lemma socket_bytes_frames [simp]:
  "socket_bytes fd (map (\<lambda>m. Socket_send fd (frame (f m))) ms) = concat (map frame (map f ms))"
  by (induction ms) simp_all

lemma concat_singletons [simp]: "concat (map (\<lambda>x. [f x]) xs) = map f xs"
  by (induction xs) simp_all

lemma transported:
  assumes ms: "list_all (transportable i) ms" and h2: "hb_id h2 = int i" "harbor_id h2 fd2 = j" "j \<noteq> 0" "rx (hb_s h2 j) []"
    and ok: "list_all (\<lambda>m. ok (om_destination m)) ms" and bs: "concat blocks = concat (map frame (map sent_as ms))"
  shows "\<exists>h2'. harbor_feed ok h2 fd2 blocks = Inr (map arrives_as ms, h2') \<and> rx (hb_s h2' j) []"
proof -
  have "list_all (\<lambda>f. 12 \<le> length f \<and> length f < 0x1000000) (map sent_as ms)"
    using ms by (auto simp: list_all_iff transportable_def sent_as_def)
  then have "wire ([] @ concat blocks) = Some (map sent_as ms, [])" using wire_frames bs by (simp del: map_map)
  moreover have "concat (map (local_calls ok h2) (map sent_as ms)) = map arrives_as ms"
    using ms ok arrives [OF _ h2(1)] by (induction ms) simp_all
  ultimately show ?thesis using harbor_feed_wire [OF h2(4,2,3)] by metis
qed


section \<open>Connecting\<close>

lemma harbor_id_only:
  assumes "0 < i" "i < REMOTE_MAX" "sl_fd (hb_s h i) = fd" "\<And>j. j < REMOTE_MAX \<Longrightarrow> j \<noteq> i \<Longrightarrow> sl_fd (hb_s h j) \<noteq> fd"
  shows "harbor_id h fd = i"
proof -
  obtain k where k: "List.find (\<lambda>j. sl_fd (hb_s h j) = fd) [1..<REMOTE_MAX] = Some k"
    using assms(1-3) by (cases "List.find (\<lambda>j. sl_fd (hb_s h j) = fd) [1..<REMOTE_MAX]") (auto simp: find_None_iff)
  then have "sl_fd (hb_s h k) = fd \<and> k < REMOTE_MAX" by (auto simp: find_Some_iff)
  then have "k = i" using assms(4) by blast
  with k show ?thesis by (simp add: harbor_id_def)
qed

lemma connect_accept:
  assumes "waiting h i" "i < REMOTE_MAX" "sl_fd (hb_s h i) = 0" "queue_holds (sl_queue (hb_s h i)) (map msg_of ms)"
    "list_all (transportable i) ms" "scan_connect (cstr_at b 0) = (fd, int i)" "fd \<noteq> 0"
  shows "\<exists>h2. mainloop ok h PTYPE_HARBOR session source (In_bytes (ascii ''A '' @ b)) =
           Inr (Socket_start fd # Socket_send fd [of_int (hb_id h)] # map (\<lambda>m. Socket_send fd (frame (sent_as m))) ms, h2) \<and> connected h2 i fd"
proof -
  let ?h = "set_slave h i ((hb_s h i)\<lparr>sl_fd := fd, sl_status := STATUS_HEADER\<rparr>)"
  have "dispatch_slave_queue ?h i = Inr (map (\<lambda>m. Socket_send fd (frame (sent_as m))) ms, set_slave ?h i ((hb_s ?h i)\<lparr>sl_queue := None\<rparr>))"
    using dispatch_flushes [of ?h i ms] assms(4,5,7) by simp
  moreover have "connected (set_slave ?h i ((hb_s ?h i)\<lparr>sl_queue := None\<rparr>)) i fd" using assms(1,7) by (simp add: connected_def waiting_def)
  ultimately show ?thesis using assms(1-3,6,7)
    by (simp add: mainloop_def harbor_command_def connect_command_def handshake_def waiting_def ascii_def PTYPE_SOCKET_def PTYPE_HARBOR_def)
qed

lemma connect_start:
  assumes "waiting h i" "i < REMOTE_MAX" "sl_fd (hb_s h i) = 0" "scan_connect (cstr_at b 0) = (fd, int i)" "fd \<noteq> 0"
  defines "h2 \<equiv> set_slave h i ((hb_s h i)\<lparr>sl_fd := fd, sl_status := STATUS_HANDSHAKE\<rparr>)"
  shows "mainloop ok h PTYPE_HARBOR session source (In_bytes (ascii ''S '' @ b)) =
           Inr ([Socket_start fd, Socket_send fd [of_int (hb_id h)]], h2) \<and> waiting h2 i"
  using assms by (simp add: mainloop_def harbor_command_def connect_command_def handshake_def waiting_def ascii_def PTYPE_SOCKET_def PTYPE_HARBOR_def)

lemma handshake_answer:
  assumes "harbor_id h fd = i" "waiting h i" "i < REMOTE_MAX" "sl_fd (hb_s h i) = fd" "fd \<noteq> 0" "sl_read (hb_s h i) < 4"
    and q: "queue_holds (sl_queue (hb_s h i)) (map msg_of ms)" "list_all (transportable i) ms"
  shows "\<exists>h2. mainloop ok h PTYPE_SOCKET 0 0 (In_socket (data_message fd [of_nat i]))
           = Inr (map (\<lambda>m. Socket_send fd (frame (sent_as m))) ms, h2) \<and> connected h2 i fd"
proof -
  let ?h = "set_slave h i ((hb_s h i)\<lparr>sl_status := STATUS_HEADER\<rparr>)"
  let ?h1 = "set_slave ?h i ((hb_s ?h i)\<lparr>sl_queue := None\<rparr>)"
  have st: "sl_status (hb_s h i) = STATUS_HANDSHAKE" "i \<noteq> 0" "int i \<noteq> hb_id h" using assms(2,4,5) by (auto simp: waiting_def)
  have i: "unat (of_nat i :: byte) = i" using assms(3) by (simp add: unat_of_nat REMOTE_MAX_def)
  have d: "dispatch_slave_queue ?h i = Inr (map (\<lambda>m. Socket_send fd (frame (sent_as m))) ms, ?h1)"
    using dispatch_flushes [of ?h i ms] assms(4,5) q by simp
  obtain h2 where h2: "socket_loop 2 ok i ?h1 [] = Inr ([], h2)" "connected h2 i fd"
    using assms(4-6) st by (simp add: numeral_2_eq_2 header_case_def Let_def connected_def)
  have "socket_loop (Suc 2) ok i h [of_nat i] = Inr (map (\<lambda>m. Socket_send fd (frame (sent_as m))) ms, h2)"
    using h2(1) by (subst socket_loop.simps) (simp add: st handshake_case_def i d del: socket_loop.simps)
  then show ?thesis using assms(1) st(2) h2(2)
    by (simp add: mainloop_def socket_event_def push_socket_data_def data_message_def numeral_3_eq_3 eval_nat_numeral del: socket_loop.simps)
qed

lemma waiting_sends:
  assumes "waiting h i" "list_all (transportable i) ms" "queue_holds (sl_queue (hb_s h i)) (map msg_of ms0)"
  obtains q where "harbor_sends ok h ms = Inr ([], set_slave h i ((hb_s h i)\<lparr>sl_queue := q\<rparr>))" "queue_holds q (map msg_of (ms0 @ ms))"
  using harbor_sends_waiting [OF assms, of ok] by (auto simp: that)

text \<open>
  C26: nothing is lost while a harbor is not connected. Messages for a harbor without a connection
  make no call. A command \<open>A\<close> for an accepted connection answers the handshake and writes all of
  them to it in order. A command \<open>S\<close> for a connection to be opened only sends the handshake: messages
  are held back until the other side answers with its id, which lets all of them go in order.
\<close>

theorem harbor_queue_flushed:
  assumes "waiting h i" "i < REMOTE_MAX" "sl_fd (hb_s h i) = 0" "sl_queue (hb_s h i) = None" "sl_read (hb_s h i) = 0"
    and "scan_connect (cstr_at b 0) = (fd, int i)" "fd \<noteq> 0" "\<forall>j. sl_fd (hb_s h j) \<noteq> fd"
    and "list_all (transportable i) ms" "list_all (transportable i) ms'"
  shows "\<exists>h1. harbor_sends ok h ms = Inr ([], h1) \<and>
     (\<exists>h2. mainloop ok h1 PTYPE_HARBOR 0 src (In_bytes (ascii ''A '' @ b)) =
         Inr (Socket_start fd # Socket_send fd [of_int (hb_id h)] # map (\<lambda>m. Socket_send fd (frame (sent_as m))) ms, h2) \<and> connected h2 i fd) \<and>
     (\<exists>h2 h3 h4. mainloop ok h1 PTYPE_HARBOR 0 src (In_bytes (ascii ''S '' @ b)) =
         Inr ([Socket_start fd, Socket_send fd [of_int (hb_id h)]], h2) \<and>
       harbor_sends ok h2 ms' = Inr ([], h3) \<and>
       mainloop ok h3 PTYPE_SOCKET 0 0 (In_socket (data_message fd [of_nat i])) =
         Inr (map (\<lambda>m. Socket_send fd (frame (sent_as m))) (ms @ ms'), h4) \<and> connected h4 i fd)"
proof -
  obtain q where q: "harbor_sends ok h ms = Inr ([], set_slave h i ((hb_s h i)\<lparr>sl_queue := q\<rparr>))" "queue_holds q (map msg_of ([] @ ms))"
    using waiting_sends [OF assms(1,9), of "[]" ok] assms(4) by (auto simp: queue_holds_def)
  let ?h1 = "set_slave h i ((hb_s h i)\<lparr>sl_queue := q\<rparr>)"
  let ?h2 = "set_slave ?h1 i ((hb_s ?h1 i)\<lparr>sl_fd := fd, sl_status := STATUS_HANDSHAKE\<rparr>)"
  have w1: "waiting ?h1 i" "sl_fd (hb_s ?h1 i) = 0" "queue_holds (sl_queue (hb_s ?h1 i)) (map msg_of ms)" "hb_id ?h1 = hb_id h"
    using assms(1,3) q(2) by (simp_all add: waiting_def)
  note a = connect_accept [OF w1(1) assms(2) w1(2,3) assms(9,6,7), of ok 0 src]
  have s: "mainloop ok ?h1 PTYPE_HARBOR 0 src (In_bytes (ascii ''S '' @ b)) = Inr ([Socket_start fd, Socket_send fd [of_int (hb_id h)]], ?h2)" "waiting ?h2 i"
    using connect_start [OF w1(1) assms(2) w1(2) assms(6,7), of ok 0 src] unfolding w1(4) by blast+
  obtain q3 where q3: "harbor_sends ok ?h2 ms' = Inr ([], set_slave ?h2 i ((hb_s ?h2 i)\<lparr>sl_queue := q3\<rparr>))" "queue_holds q3 (map msg_of (ms @ ms'))"
    using waiting_sends [OF s(2) assms(10), of ms ok] w1(3) by auto
  let ?h3 = "set_slave ?h2 i ((hb_s ?h2 i)\<lparr>sl_queue := q3\<rparr>)"
  have "harbor_id ?h3 fd = i" using assms(1,2,8) by (intro harbor_id_only) (auto simp: waiting_def)
  moreover have "waiting ?h3 i" using s(2) by (simp add: waiting_def)
  moreover have "list_all (transportable i) (ms @ ms')" using assms(9,10) by simp
  ultimately have "\<exists>h4. mainloop ok ?h3 PTYPE_SOCKET 0 0 (In_socket (data_message fd [of_nat i])) =
      Inr (map (\<lambda>m. Socket_send fd (frame (sent_as m))) (ms @ ms'), h4) \<and> connected h4 i fd"
    using handshake_answer [of ?h3 fd i "ms @ ms'" ok] assms(2,5,7) q3(2) by auto
  then show ?thesis unfolding q(1) using a s(1) q3(1) unfolding w1(4) by blast
qed

section \<open>Names\<close>

lemma kv_match_new: "kv_match name (fst (hash_insert hash name))"
  by (simp add: kv_match_def hash_insert_def strncmp_eq_def Let_def)

lemma kv_match_update [simp]:
  "kv_match name (node\<lparr>kv_value := v\<rparr>) = kv_match name node" "kv_match name (node\<lparr>kv_queue := q\<rparr>) = kv_match name node"
  by (simp_all add: kv_match_def)

lemma search_store:
  "kv_match name node \<Longrightarrow> hash_search hash name \<noteq> None \<Longrightarrow> hash_search (hash_store hash name node) name = Some node"
proof -
  have "List.find P xs \<noteq> None \<Longrightarrow> P x \<Longrightarrow> List.find P (replace_first P x xs) = Some x" for P :: "keyvalue \<Rightarrow> bool" and x xs
    by (induction xs) auto
  then show "kv_match name node \<Longrightarrow> hash_search hash name \<noteq> None \<Longrightarrow> ?thesis" by (simp add: hash_search_def hash_store_def)
qed

lemma search_insert: "hash_search (snd (hash_insert hash name)) name \<noteq> None"
  using kv_match_new [of name hash] by (simp add: hash_search_def hash_insert_def Let_def)

lemma search_or_insert_search:
  assumes "search_or_insert hash name = (node, hash')"
  shows "hash_search hash' name \<noteq> None \<and> kv_match name node"
proof (cases "hash_search hash name")
  case None
  then show ?thesis using assms search_insert [of hash name] kv_match_new [of name hash] by (simp add: search_or_insert_def)
next
  case (Some n)
  then have "kv_match name n" by (auto simp: hash_search_def find_Some_iff)
  then show ?thesis using assms Some by (simp add: search_or_insert_def)
qed

text \<open>What is known of a name: the handle, or the messages that wait for it.\<close>

definition name_waits :: "harbor \<Rightarrow> cstring \<Rightarrow> harbor_msg list \<Rightarrow> bool" where
  "name_waits h name ms \<longleftrightarrow>
     (case hash_search (hb_map h) name of None \<Rightarrow> ms = [] | Some node \<Rightarrow> kv_value node = 0 \<and> queue_holds (kv_queue node) ms)"

definition name_msg :: "u32 \<Rightarrow> nat \<Rightarrow> int \<Rightarrow> byte list \<Rightarrow> harbor_msg" where
  "name_msg source type session data =
     \<lparr>hm_header = remote_header source type 0 session, hm_buffer = Some data, hm_size = length data\<rparr>"

lemma name_queued:
  assumes "name_waits h name ms"
  shows "\<exists>map1. remote_send_name h source name type session (Some data) (length data)
           = Inr ([Send 0 (hb_slave h) PTYPE_TEXT 0 (Some (ascii ''Q '' @ takeWhile (\<lambda>c. c \<noteq> 0) (take GLOBALNAME_LENGTH name)))
                     (2 + length (takeWhile (\<lambda>c. c \<noteq> 0) (take GLOBALNAME_LENGTH name)))], h\<lparr>hb_map := map1\<rparr>)
         \<and> name_waits (h\<lparr>hb_map := map1\<rparr>) name (ms @ [name_msg source type session data])"
proof -
  obtain node map1 where n: "search_or_insert (hb_map h) name = (node, map1)" by fastforce
  have v: "kv_value node = 0" "queue_holds (kv_queue node) ms"
    using n assms by (auto simp: name_waits_def search_or_insert_def hash_insert_def queue_holds_def Let_def split: option.splits)
  let ?q = "Some (push_queue (case kv_queue node of None \<Rightarrow> new_harbor_queue | Some q \<Rightarrow> q) (Some data) (length data) (remote_header source type 0 session))"
  let ?node = "node\<lparr>kv_queue := ?q\<rparr>"
  have "queue_holds ?q (ms @ [name_msg source type session data])" using queue_push_holds [OF v(2)] by (simp add: name_msg_def)
  moreover have "hash_search (hash_store map1 name ?node) name = Some ?node"
    using search_or_insert_search [OF n] by (intro search_store) simp_all
  ultimately have "name_waits (h\<lparr>hb_map := hash_store map1 name ?node\<rparr>) name (ms @ [name_msg source type session data])"
    using v(1) by (simp add: name_waits_def)
  then show ?thesis using n v(1)
    by (intro exI [of _ "hash_store map1 name ?node"]) (simp add: remote_send_name_def Let_def ascii_def)
qed

abbreviation named :: "out_message \<Rightarrow> harbor_msg" where
  "named m \<equiv> name_msg (om_source m) (om_type m) (om_session m) (om_data m)"

definition pad_name :: "cstring \<Rightarrow> cstring" where
  "pad_name nm = nm @ replicate (GLOBALNAME_LENGTH - length nm) 0"

lemma takeWhile_pad_name:
  assumes "length nm < GLOBALNAME_LENGTH"
  shows "takeWhile (\<lambda>c. c \<noteq> 0) (take GLOBALNAME_LENGTH (pad_name nm)) = takeWhile (\<lambda>c. c \<noteq> 0) nm"
proof (cases "\<forall>x\<in>set nm. x \<noteq> 0")
  case True
  then have "takeWhile (\<lambda>c. c \<noteq> 0) nm = nm" by (simp only: takeWhile_eq_all_conv)
  moreover have "takeWhile (\<lambda>c. c \<noteq> 0) (take GLOBALNAME_LENGTH (pad_name nm)) = nm"
    using True assms by (simp add: pad_name_def takeWhile_append2)
  ultimately show ?thesis by (simp only:)
next
  case False
  then show ?thesis using assms by (auto simp: pad_name_def takeWhile_append1)
qed

lemma name_command:
  "0 < length nm \<Longrightarrow> length nm < GLOBALNAME_LENGTH \<Longrightarrow>
   mainloop ok h PTYPE_HARBOR session handle (In_bytes (ascii ''N '' @ nm)) = update_name h (pad_name nm) handle"
  by (simp add: mainloop_def harbor_command_def PTYPE_SOCKET_def PTYPE_HARBOR_def ascii_def pad_name_def Let_def)

lemma update_name_dispatch:
  assumes "name_waits h name ms"
  obtains node map1 where "hash_search map1 name = Some (node\<lparr>kv_value := handle, kv_queue := None\<rparr>)" "queue_holds (kv_queue node) ms"
    "update_name h name handle = (case kv_queue node of None \<Rightarrow> Inr ([], h\<lparr>hb_map := map1\<rparr>)
       | Some queue \<Rightarrow> dispatch_name_queue (h\<lparr>hb_map := map1\<rparr>) (node\<lparr>kv_value := handle\<rparr>) queue)"
proof -
  obtain node map0 where n: "search_or_insert (hb_map h) name = (node, map0)" by fastforce
  have "queue_holds (kv_queue node) ms"
    using n assms by (auto simp: name_waits_def search_or_insert_def hash_insert_def queue_holds_def Let_def split: option.splits)
  moreover have "hash_search (hash_store map0 name (node\<lparr>kv_value := handle, kv_queue := None\<rparr>)) name = Some (node\<lparr>kv_value := handle, kv_queue := None\<rparr>)"
    using search_or_insert_search [OF n] by (intro search_store) simp_all
  ultimately show ?thesis using n by (intro that) (simp_all add: update_name_def Let_def)
qed

lemma name_destination:
  "om_destination m = handle \<Longrightarrow> (named m)\<lparr>hm_header := (hm_header (named m))\<lparr>rh_destination := rh_destination (hm_header (named m)) OR (handle AND HANDLE_MASK)\<rparr>\<rparr> = msg_of m"
  by (simp add: name_msg_def msg_of_def remote_header_def)

text \<open>
  C27: messages to a name wait until the name is known. Each message to an unknown name makes the
  harbor ask its slave service for the name. When the name is announced and the harbor of its
  service is already connected, all of them are written to that connection in order, addressed to
  the service, and later messages to the name are sent to it at once. Without the connection they
  lose their address, as \<open>harbor_name_loses_handle\<close> below shows. The messages are transportable:
  no larger than 16M with their header, and of a type of one byte.
\<close>

theorem harbor_name_resolved:
  assumes "connected h i fd" "name_waits h (pad_name nm) (map named ms)" "0 < length nm" "length nm < GLOBALNAME_LENGTH"
    and "list_all (\<lambda>m. transportable i m \<and> om_destination m = handle) (m # ms)"
  shows "\<exists>h1. mainloop ok h (om_type m) (om_session m) (om_source m) (In_remote (pad_name nm) 0 (Some (om_data m)) (length (om_data m))) =
           Inr ([Send 0 (hb_slave h) PTYPE_TEXT 0 (Some (ascii ''Q '' @ takeWhile (\<lambda>c. c \<noteq> 0) nm)) (2 + length (takeWhile (\<lambda>c. c \<noteq> 0) nm))], h1) \<and>
         (\<exists>h2. mainloop ok h1 PTYPE_HARBOR 0 handle (In_bytes (ascii ''N '' @ nm)) =
             Inr (map (\<lambda>m. Socket_send fd (frame (sent_as m))) (ms @ [m]), h2) \<and>
           mainloop ok h2 (om_type m) (om_session m) (om_source m) (In_remote (pad_name nm) 0 (Some (om_data m)) (length (om_data m))) =
             Inr ([Socket_send fd (frame (sent_as m))], h2))"
proof -
  let ?name = "pad_name nm"
  have m: "transportable i m" "om_destination m = handle" and ms: "list_all (transportable i) (ms @ [m])"
    "\<And>x. x \<in> set (ms @ [m]) \<Longrightarrow> om_destination x = handle" using assms(5) by (auto simp: list_all_iff)
  have i: "unat (drop_bit HANDLE_REMOTE_SHIFT handle) = i" "i \<noteq> 0" using m assms(1) by (auto simp: transportable_def connected_def)
  then have handle: "handle \<noteq> 0" by auto
  have q: "takeWhile (\<lambda>c. c \<noteq> 0) (take GLOBALNAME_LENGTH ?name) = takeWhile (\<lambda>c. c \<noteq> 0) nm"
    using assms(4) by (rule takeWhile_pad_name)
  have types: "om_type m \<noteq> PTYPE_SOCKET" "om_type m \<noteq> PTYPE_HARBOR" using m(1) by (simp_all add: transportable_def)
  obtain map1 where s: "remote_send_name h (om_source m) ?name (om_type m) (om_session m) (Some (om_data m)) (length (om_data m)) =
      Inr ([Send 0 (hb_slave h) PTYPE_TEXT 0 (Some (ascii ''Q '' @ takeWhile (\<lambda>c. c \<noteq> 0) nm)) (2 + length (takeWhile (\<lambda>c. c \<noteq> 0) nm))], h\<lparr>hb_map := map1\<rparr>)"
    "name_waits (h\<lparr>hb_map := map1\<rparr>) ?name (map named (ms @ [m]))"
    using name_queued [OF assms(2), of "om_source m" "om_type m" "om_session m" "om_data m"] unfolding q by auto
  let ?h1 = "h\<lparr>hb_map := map1\<rparr>"
  obtain node map2 where n: "hash_search map2 ?name = Some (node\<lparr>kv_value := handle, kv_queue := None\<rparr>)" "queue_holds (kv_queue node) (map named (ms @ [m]))"
    "update_name ?h1 ?name handle = (case kv_queue node of None \<Rightarrow> Inr ([], ?h1\<lparr>hb_map := map2\<rparr>)
       | Some queue \<Rightarrow> dispatch_name_queue (?h1\<lparr>hb_map := map2\<rparr>) (node\<lparr>kv_value := handle\<rparr>) queue)"
    using update_name_dispatch [OF s(2)] .
  let ?h2 = "?h1\<lparr>hb_map := map2\<rparr>"
  obtain queue where queue: "kv_queue node = Some queue" "fst (pop_all queue) = map named (ms @ [m])"
    using n(2) pop_all_msgs by (auto simp: queue_holds_def split: option.splits)
  have "map (\<lambda>m. m\<lparr>hm_header := (hm_header m)\<lparr>rh_destination := rh_destination (hm_header m) OR (handle AND HANDLE_MASK)\<rparr>\<rparr>) (map named (ms @ [m])) = map msg_of (ms @ [m])"
    using name_destination ms(2) by (auto simp del: harbor_msg.update_convs)
  then have "update_name ?h1 ?name handle = Inr (map (\<lambda>m. Socket_send fd (frame (sent_as m))) (ms @ [m]), ?h2)"
    unfolding n(3) queue(1) option.case using send_all_frames [OF ms(1), of fd] assms(1) i queue(2)
    by (simp add: dispatch_name_queue_def Let_def connected_def del: map_append map_map)
  moreover have "remote_send_name ?h2 (om_source m) ?name (om_type m) (om_session m) (Some (om_data m)) (length (om_data m)) =
      Inr ([Socket_send fd (frame (sent_as m))], ?h2)"
    using n(1) handle assms(1) m i
    by (simp add: remote_send_name_def search_or_insert_def remote_send_handle_def Let_def connected_def transportable_def send_remote_frame sent_as_def)
  ultimately show ?thesis using s(1) types name_command [OF assms(3,4)] by (simp add: mainloop_def)
qed

lemma pop_all_held: "queue_holds (Some queue) ms \<Longrightarrow> fst (pop_all queue) = ms"
  using pop_all_msgs by (simp add: queue_holds_def)

lemma send_all_one:
  "length data + 12 < 2 ^ 32 \<Longrightarrow> send_all fd [\<lparr>hm_header = c, hm_buffer = Some data, hm_size = length data\<rparr>] = Inr [Socket_send fd (frame (data @ header_to_message c))]"
  by (simp add: send_remote_frame)

text \<open>
  A message to a name loses its address when the name is announced by a harbor that is not
  connected yet. It moves to the queue of that harbor with the handle 0 it was queued with, and when
  the connection comes it is written with the type as its whole destination: the receiver sends it
  to its handle 0. The handle of the name has no influence.
\<close>

theorem harbor_name_loses_handle:
  assumes "name_waits h (pad_name nm) [named m]" "0 < length nm" "length nm < GLOBALNAME_LENGTH" "length (om_data m) + 12 < 2 ^ 32"
    and "waiting h i" "i < REMOTE_MAX" "sl_fd (hb_s h i) = 0" "sl_queue (hb_s h i) = None"
    and "unat (drop_bit HANDLE_REMOTE_SHIFT handle) = i" "unat (drop_bit HANDLE_REMOTE_SHIFT (hb_slave h)) \<noteq> i"
    and "scan_connect (cstr_at b 0) = (fd, int i)" "fd \<noteq> 0"
  shows "\<exists>h1 h2. mainloop ok h PTYPE_HARBOR 0 handle (In_bytes (ascii ''N '' @ nm)) = Inr ([], h1) \<and>
           mainloop ok h1 PTYPE_HARBOR 0 src (In_bytes (ascii ''A '' @ b)) =
             Inr ([Socket_start fd, Socket_send fd [of_int (hb_id h)],
                   Socket_send fd (frame (om_data m @ header_to_message (remote_header (om_source m) (om_type m) 0 (om_session m))))], h2)"
proof -
  obtain node map1 where n: "hash_search map1 (pad_name nm) = Some (node\<lparr>kv_value := handle, kv_queue := None\<rparr>)" "queue_holds (kv_queue node) [named m]"
    "update_name h (pad_name nm) handle = (case kv_queue node of None \<Rightarrow> Inr ([], h\<lparr>hb_map := map1\<rparr>)
       | Some queue \<Rightarrow> dispatch_name_queue (h\<lparr>hb_map := map1\<rparr>) (node\<lparr>kv_value := handle\<rparr>) queue)"
    using update_name_dispatch [OF assms(1)] .
  obtain queue where q: "kv_queue node = Some queue" "fst (pop_all queue) = [named m]"
    using n(2) pop_all_held by (cases "kv_queue node") (auto simp: queue_holds_def)
  let ?h1 = "set_slave (h\<lparr>hb_map := map1\<rparr>) i ((hb_s h i)\<lparr>sl_queue := Some queue\<rparr>)"
  let ?h = "set_slave ?h1 i ((hb_s ?h1 i)\<lparr>sl_fd := fd, sl_status := STATUS_HEADER\<rparr>)"
  have st: "sl_status (hb_s h i) \<noteq> STATUS_DOWN" "i \<noteq> 0" using assms(5) by (auto simp: waiting_def)
  have "mainloop ok h PTYPE_HARBOR 0 handle (In_bytes (ascii ''N '' @ nm)) = Inr ([], ?h1)"
    unfolding name_command [OF assms(2,3)] n(3) q(1) option.case using assms(7-10) st by (simp add: dispatch_name_queue_def Let_def)
  moreover have "dispatch_slave_queue ?h i = Inr ([Socket_send fd (frame (om_data m @ header_to_message (remote_header (om_source m) (om_type m) 0 (om_session m))))],
      set_slave ?h i ((hb_s ?h i)\<lparr>sl_queue := None\<rparr>))"
    using send_all_one [OF assms(4)] q(2) assms(12) by (simp add: dispatch_slave_queue_def Let_def name_msg_def del: send_all.simps)
  then have "\<exists>h2. mainloop ok ?h1 PTYPE_HARBOR 0 src (In_bytes (ascii ''A '' @ b)) =
             Inr ([Socket_start fd, Socket_send fd [of_int (hb_id h)],
                   Socket_send fd (frame (om_data m @ header_to_message (remote_header (om_source m) (om_type m) 0 (om_session m))))], h2)"
    using assms(6,7,11,12) st
    by (simp add: mainloop_def harbor_command_def connect_command_def handshake_def ascii_def PTYPE_SOCKET_def PTYPE_HARBOR_def)
  ultimately show ?thesis by blast
qed

section \<open>Harbors that go down\<close>

inductive harbor_run :: "(u32 \<Rightarrow> bool) \<Rightarrow> harbor \<Rightarrow> bool" for ok where
  start: "harbor_init harbor_create args = (0, calls, h) \<Longrightarrow> harbor_run ok h"
| handle: "harbor_run ok h \<Longrightarrow> mainloop ok h type session source msg = Inr (calls, h') \<Longrightarrow> harbor_run ok h'"

text \<open>A slave without a socket was never connected. What the loop of \<^verbatim>\<open>push_socket_data\<close> changes.\<close>

definition fd_status :: "harbor \<Rightarrow> bool" where
  "fd_status h \<longleftrightarrow> (\<forall>i. sl_fd (hb_s h i) = 0 \<longrightarrow> sl_status (hb_s h i) = STATUS_WAIT)"

definition keeps_fds :: "nat \<Rightarrow> harbor \<Rightarrow> harbor \<Rightarrow> bool" where
  "keeps_fds i h h' \<longleftrightarrow> (\<forall>j. j \<noteq> i \<longrightarrow> hb_s h' j = hb_s h j) \<and> sl_fd (hb_s h' i) = sl_fd (hb_s h i)"

lemma keeps_fds_trans: "keeps_fds i h h1 \<Longrightarrow> keeps_fds i h1 h2 \<Longrightarrow> keeps_fds i h h2"
  by (simp add: keeps_fds_def)

lemma fd_status_keeps: "fd_status h \<Longrightarrow> keeps_fds i h h' \<Longrightarrow> sl_fd (hb_s h i) \<noteq> 0 \<Longrightarrow> fd_status h'"
  by (auto simp: fd_status_def keeps_fds_def) metis

lemma fd_status_queue: "fd_status h \<Longrightarrow> fd_status (set_slave h i ((hb_s h i)\<lparr>sl_queue := q\<rparr>))"
  by (simp add: fd_status_def)

lemma fd_status_map [simp]: "fd_status (h\<lparr>hb_map := m\<rparr>) = fd_status h"
  by (simp add: fd_status_def)

lemma close_keeps: "close_harbor h i = (cs, h') \<Longrightarrow> keeps_fds i h h'"
  by (auto simp: close_harbor_def keeps_fds_def Let_def)

lemma dispatch_keeps: "dispatch_slave_queue h i = Inr (cs, h') \<Longrightarrow> keeps_fds i h h'"
  by (auto simp: dispatch_slave_queue_def keeps_fds_def Let_def rbind_eq_Inr split: option.splits)

lemma keeps_set_slave: "sl_fd s = sl_fd (hb_s h i) \<Longrightarrow> keeps_fds i h (set_slave h i s)"
  by (simp add: keeps_fds_def)

lemma content_keeps:
  assumes "content_case ok k i h buffer = Inr (cs, h')" "\<And>h1 b cs1 h2. k h1 b = Inr (cs1, h2) \<Longrightarrow> keeps_fds i h1 h2"
  shows "keeps_fds i h h'"
  using assms by (auto simp: content_case_def Let_def rbind_eq_Inr split: if_splits dest!: assms(2) intro!: keeps_set_slave) (auto simp: keeps_fds_def)

lemma header_keeps:
  assumes "header_case ok k i h buffer = Inr (cs, h')" "\<And>h1 b cs1 h2. k h1 b = Inr (cs1, h2) \<Longrightarrow> keeps_fds i h1 h2"
  shows "keeps_fds i h h'"
proof -
  let ?size = "take (sl_read (hb_s h i)) (sl_size (hb_s h i)) @ take (4 - sl_read (hb_s h i)) buffer"
  let ?h1 = "set_slave h i ((hb_s h i)\<lparr>sl_size := ?size, sl_length := be_nat (tl ?size), sl_read := 0, sl_recv_buffer := [], sl_status := STATUS_CONTENT\<rparr>)"
  have c: "keeps_fds i h h'" if "content_case ok k i ?h1 b = Inr (cs, h')" for b
    by (rule keeps_fds_trans [OF _ content_keeps [OF that assms(2)]]) (simp_all add: keeps_fds_def)
  show ?thesis using assms(1) unfolding header_case_def Let_def
    by (auto split: if_splits prod.splits dest: c intro!: keeps_set_slave) (auto dest!: close_keeps simp: keeps_fds_def)
qed

lemma handshake_keeps:
  assumes "handshake_case ok k i h buffer = Inr (cs, h')" "\<And>h1 b cs1 h2. k h1 b = Inr (cs1, h2) \<Longrightarrow> keeps_fds i h1 h2"
  shows "keeps_fds i h h'"
proof -
  have c: "keeps_fds i h h'" if "dispatch_slave_queue (set_slave h i ((hb_s h i)\<lparr>sl_status := STATUS_HEADER\<rparr>)) i = Inr (cs1, h1)" "keeps_fds i h1 h'" for cs1 h1
    using keeps_fds_trans [OF dispatch_keeps [OF that(1)] that(2)] by (simp add: keeps_fds_def)
  obtain r rest where b: "buffer = r # rest" using assms(1) by (cases buffer) (auto simp: handshake_case_def)
  show ?thesis
  proof (cases "unat r = i")
    case False
    then show ?thesis using assms(1) b by (auto simp: handshake_case_def intro: close_keeps split: prod.splits)
  next
    case True
    from assms(1) have "rbind (dispatch_slave_queue (set_slave h i ((hb_s h i)\<lparr>sl_status := STATUS_HEADER\<rparr>)) i) (\<lambda>(cs, h1).
        rbind (if rest = [] then k h1 rest else header_case ok k i h1 rest) (\<lambda>(cs', h2). Inr (cs @ cs', h2))) = Inr (cs, h')"
      unfolding handshake_case_def b list.case using True by (simp only: simp_thms if_False)
    then show ?thesis by (auto simp: rbind_eq_Inr split: if_splits intro: c assms(2) header_keeps [OF _ assms(2)])
  qed
qed

lemma socket_loop_keeps: "socket_loop n ok i h buffer = Inr (cs, h') \<Longrightarrow> keeps_fds i h h'"
proof (induction n arbitrary: h buffer cs h')
  case (Suc n)
  then show ?case
    by (auto split: status.splits intro: handshake_keeps [OF _ Suc.IH] header_keeps [OF _ Suc.IH] content_keeps [OF _ Suc.IH])
      (simp_all add: keeps_fds_def)
qed simp

lemma connect_fd_status:
  assumes "connect_command h c b = Inr (cs, h')" "fd_status h"
  shows "fd_status h'"
proof -
  obtain fd i where sc: "scan_connect b = (fd, i)" by fastforce
  show ?thesis
  proof (cases "fd = 0 \<or> i \<le> 0 \<or> int REMOTE_MAX \<le> i \<or> sl_fd (hb_s h (nat i)) \<noteq> 0")
    case True
    then show ?thesis using assms sc by (auto simp: connect_command_def Let_def split: if_splits)
  next
    case False
    have d: "fd_status h2" if "dispatch_slave_queue (set_slave h (nat i) ((hb_s h (nat i))\<lparr>sl_fd := fd, sl_status := STATUS_HEADER\<rparr>)) (nat i) = Inr (cs2, h2)" for cs2 h2
      using dispatch_keeps [OF that] False assms(2) by (auto simp: fd_status_def keeps_fds_def) metis
    show ?thesis using assms sc False
      by (auto simp: connect_command_def Let_def rbind_eq_Inr split: if_splits dest: d) (simp add: fd_status_def)
  qed
qed

lemma mainloop_fd_status:
  assumes "mainloop ok h type session source msg = Inr (cs, h')" "fd_status h"
  shows "fd_status h'"
proof -
  have push: "fd_status h'" if p: "push_socket_data ok h m = Inr (cs, h')" for m
  proof (cases "harbor_id h (ss_id m) = 0")
    case True
    then show ?thesis using p assms(2) by (auto simp: push_socket_data_def rbind_eq_Inr)
  next
    case False
    let ?i = "harbor_id h (ss_id m)"
    obtain n b where l: "socket_loop n ok ?i h b = Inr (cs, h')"
      using p False by (auto simp: push_socket_data_def rbind_eq_Inr Let_def simp del: socket_loop.simps split: if_splits)
    show ?thesis
    proof (cases "sl_fd (hb_s h ?i) = 0")
      case True
      then have "sl_status (hb_s h ?i) = STATUS_WAIT" using assms(2) by (simp add: fd_status_def)
      then have "h' = h" using l by (cases n) auto
      then show ?thesis using assms(2) by simp
    next
      case False
      then show ?thesis using fd_status_keeps [OF assms(2) socket_loop_keeps [OF l]] by simp
    qed
  qed
  have name: "fd_status h2" if "dispatch_name_queue h1 node q = Inr (cs1, h2)" "fd_status h1" for h1 node q cs1 h2
    using that by (auto simp: dispatch_name_queue_def Let_def rbind_eq_Inr fd_status_queue split: if_splits)
  have send: "fd_status h2" if "remote_send_handle h1 s d t se ms sz = Inr (cs1, h2)" "fd_status h1" for h1 s d t se ms sz cs1 h2
    using that by (auto simp: remote_send_handle_def Let_def rbind_eq_Inr fd_status_queue split: if_splits)
  show ?thesis using assms
    by (auto simp: mainloop_def socket_event_def harbor_command_def update_name_def remote_send_name_def Let_def
        split: if_splits harbor_in.splits prod.splits option.splits dest: push connect_fd_status name send)
qed

lemma harbor_run_fd_status: "harbor_run ok h \<Longrightarrow> fd_status h"
proof (induction rule: harbor_run.induct)
  case (start args calls h)
  then show ?case by (auto simp: harbor_init_def harbor_create_def slave_zero_def fd_status_def Let_def split: if_splits prod.splits)
qed (auto intro: mainloop_fd_status)

text \<open>
  The sender of a message to a harbor that is down is not told. The code means to drop such a
  message, log it and answer the sender with an error, but in every state that a harbor service
  reaches a harbor that is down still has its socket, so the message is written to the closed
  socket and that is all.
\<close>

theorem harbor_down_unreported:
  assumes "harbor_run ok h" "sl_status (hb_s h i) = STATUS_DOWN" "transportable i m" "int i \<noteq> hb_id h" "i \<noteq> 0"
  shows "mainloop ok h (om_type m) (om_session m) (om_source m) (In_remote name (om_destination m) (Some (om_data m)) (length (om_data m)))
       = Inr ([Socket_send (sl_fd (hb_s h i)) (frame (sent_as m))], h)"
proof -
  have "sl_fd (hb_s h i) \<noteq> 0" using harbor_run_fd_status [OF assms(1)] assms(2) by (auto simp: fd_status_def)
  then have "connected h i (sl_fd (hb_s h i))" using assms(2,4,5) by (simp add: connected_def)
  moreover have "om_type m \<noteq> PTYPE_SOCKET" "om_type m \<noteq> PTYPE_HARBOR" "om_destination m \<noteq> 0"
    using assms(3,5) by (auto simp: transportable_def)
  ultimately show ?thesis using assms(3)
    by (simp add: mainloop_def remote_send_handle_def Let_def connected_def transportable_def send_remote_frame sent_as_def)
qed

section \<open>Witnesses\<close>

text \<open>Harbor 1 with a connection to harbor 2, harbor 2 with one to harbor 1, and a message.\<close>

definition harbor1 :: harbor where
  "harbor1 = harbor_create\<lparr>hb_id := 1, hb_slave := 2\<rparr>"

definition example_message :: out_message where
  "example_message = \<lparr>om_source = 0x01000007, om_destination = 0x02000009, om_type = 10, om_session = 5, om_data = [1, 2, 3]\<rparr>"

definition to_peer :: "int \<Rightarrow> nat \<Rightarrow> int \<Rightarrow> harbor" where
  "to_peer self i fd = harbor_create\<lparr>hb_id := self, hb_s := (\<lambda>_. slave_zero)(i := slave_zero\<lparr>sl_fd := fd, sl_status := STATUS_HEADER\<rparr>)\<rparr>"

lemma example_transportable: "transportable 2 example_message" "om_destination example_message = 0x02000009"
  by (simp_all add: transportable_def example_message_def HANDLE_shift PTYPE_SOCKET_def PTYPE_HARBOR_def drop_bit_word_numeral)

lemma to_peer_connected: "int i \<noteq> self \<Longrightarrow> i \<noteq> 0 \<Longrightarrow> fd \<noteq> 0 \<Longrightarrow> connected (to_peer self i fd) i fd"
  by (simp add: connected_def to_peer_def)

lemma to_peer_id: "0 < i \<Longrightarrow> i < REMOTE_MAX \<Longrightarrow> fd \<noteq> 0 \<Longrightarrow> harbor_id (to_peer self i fd) fd = i"
  by (rule harbor_id_only) (simp_all add: to_peer_def slave_zero_def)

lemma harbor1_waiting: "waiting harbor1 2" "sl_fd (hb_s harbor1 j) = 0" "sl_queue (hb_s harbor1 j) = None" "sl_read (hb_s harbor1 j) = 0"
  by (simp_all add: waiting_def harbor1_def harbor_create_def slave_zero_def)

lemma scan_7_2: "scan_connect (cstr_at (ascii ''7 2'') 0) = (7, int 2)"
  by code_simp


theorem harbor_queue_flushed_witness:
  "\<exists>h1 h2. harbor_sends (\<lambda>_. True) harbor1 [example_message] = Inr ([], h1) \<and>
     mainloop (\<lambda>_. True) h1 PTYPE_HARBOR 0 1 (In_bytes (ascii ''A '' @ ascii ''7 2'')) =
       Inr ([Socket_start 7, Socket_send 7 [1], Socket_send 7 (frame (sent_as example_message))], h2)"
  using harbor_queue_flushed [of harbor1 2 "ascii ''7 2''" 7 "[example_message]" "[]" "\<lambda>_. True" 1]
    harbor1_waiting example_transportable scan_7_2 by (auto simp: REMOTE_MAX_def harbor1_def)

lemma no_name: "name_waits (h\<lparr>hb_map := hash_new\<rparr>) name []"
  by (simp add: name_waits_def hash_search_def hash_new_def)

theorem harbor_name_resolved_witness:
  "\<exists>h1 h2. mainloop (\<lambda>_. True) (to_peer 1 2 7) 10 5 0x01000007 (In_remote (pad_name (ascii ''DB'')) 0 (Some [1, 2, 3]) 3) =
       Inr ([Send 0 0 PTYPE_TEXT 0 (Some (ascii ''Q DB'')) 4], h1) \<and>
     mainloop (\<lambda>_. True) h1 PTYPE_HARBOR 0 0x02000009 (In_bytes (ascii ''N '' @ ascii ''DB'')) =
       Inr ([Socket_send 7 (frame (sent_as example_message))], h2)"
proof -
  have "name_waits (to_peer 1 2 7) (pad_name (ascii ''DB'')) (map named [])"
    using no_name by (simp add: name_waits_def hash_search_def hash_new_def to_peer_def harbor_create_def)
  with harbor_name_resolved [of "to_peer 1 2 7" 2 7 "ascii ''DB''" "[]" "0x02000009" example_message "\<lambda>_. True"]
    to_peer_connected [of 2 1 7] example_transportable
  show ?thesis by (simp add: ascii_def GLOBALNAME_LENGTH_def) (auto simp: example_message_def to_peer_def harbor_create_def eval_nat_numeral)
qed

theorem harbor_name_loses_handle_witness:
  "\<exists>h0 h1 h2. mainloop (\<lambda>_. True) harbor1 10 5 0x01000007 (In_remote (pad_name (ascii ''DB'')) 0 (Some [1, 2, 3]) 3) =
       Inr ([Send 0 2 PTYPE_TEXT 0 (Some (ascii ''Q DB'')) 4], h0) \<and>
     mainloop (\<lambda>_. True) h0 PTYPE_HARBOR 0 0x02000009 (In_bytes (ascii ''N '' @ ascii ''DB'')) = Inr ([], h1) \<and>
     mainloop (\<lambda>_. True) h1 PTYPE_HARBOR 0 1 (In_bytes (ascii ''A '' @ ascii ''7 2'')) =
       Inr ([Socket_start 7, Socket_send 7 [1], Socket_send 7 (frame ([1, 2, 3] @ header_to_message (remote_header 0x01000007 10 0 5)))], h2)"
proof -
  have w: "name_waits harbor1 (pad_name (ascii ''DB'')) []"
    by (simp add: name_waits_def hash_search_def hash_new_def harbor1_def harbor_create_def)
  have len: "length (ascii ''DB'') < GLOBALNAME_LENGTH" "0 < length (ascii ''DB'')" "takeWhile (\<lambda>c. c \<noteq> 0) (ascii ''DB'') = ascii ''DB''"
    by (simp_all add: ascii_def GLOBALNAME_LENGTH_def)
  obtain map1 where s: "remote_send_name harbor1 0x01000007 (pad_name (ascii ''DB'')) 10 5 (Some [1, 2, 3]) 3 =
      Inr ([Send 0 2 PTYPE_TEXT 0 (Some (ascii ''Q DB'')) 4], harbor1\<lparr>hb_map := map1\<rparr>)"
    "name_waits (harbor1\<lparr>hb_map := map1\<rparr>) (pad_name (ascii ''DB'')) [named example_message]"
    using name_queued [OF w, of "0x01000007" 10 5 "[1, 2, 3]"] takeWhile_pad_name [OF len(1)] len(3)
    by (auto simp: ascii_def harbor1_def example_message_def eval_nat_numeral)
  have "waiting (harbor1\<lparr>hb_map := map1\<rparr>) 2" using harbor1_waiting(1) by (simp add: waiting_def)
  then have "\<exists>h1 h2. mainloop (\<lambda>_. True) (harbor1\<lparr>hb_map := map1\<rparr>) PTYPE_HARBOR 0 0x02000009 (In_bytes (ascii ''N '' @ ascii ''DB'')) = Inr ([], h1) \<and>
     mainloop (\<lambda>_. True) h1 PTYPE_HARBOR 0 1 (In_bytes (ascii ''A '' @ ascii ''7 2'')) =
       Inr ([Socket_start 7, Socket_send 7 [1], Socket_send 7 (frame ([1, 2, 3] @ header_to_message (remote_header 0x01000007 10 0 5)))], h2)"
    using harbor_name_loses_handle [OF s(2) len(2,1), of 2 "0x02000009" "ascii ''7 2''" 7 "\<lambda>_. True" 1] harbor1_waiting scan_7_2
    by (simp add: example_message_def HANDLE_shift REMOTE_MAX_def drop_bit_word_numeral harbor1_def)
  with s(1) show ?thesis by (auto simp: mainloop_def PTYPE_SOCKET_def PTYPE_HARBOR_def)
qed

text \<open>Harbor 2 answers the handshake with a wrong id, and is down after it.\<close>

theorem harbor_down_unreported_witness:
  "\<exists>h. harbor_run (\<lambda>_. True) h \<and> sl_status (hb_s h 2) = STATUS_DOWN \<and>
     mainloop (\<lambda>_. True) h 10 5 0x01000007 (In_remote [] 0x02000009 (Some [1, 2, 3]) 3) =
       Inr ([Socket_send (sl_fd (hb_s h 2)) (frame (sent_as example_message))], h)"
proof -
  have i: "harbor_init harbor_create (ascii ''1 2'') = (0, [Callback, Harbor_start], harbor1)"
  proof -
    have "scan_d (ascii ''1 2'') = Some (1, ascii '' 2'')" "scan_u (ascii '' 2'') = Some (2, [])"
      by code_simp+
    then show ?thesis by (simp add: harbor_init_def harbor1_def harbor_create_def)
  qed
  let ?h1 = "set_slave harbor1 2 (slave_zero\<lparr>sl_fd := 7, sl_status := STATUS_HANDSHAKE\<rparr>)"
  have "hb_s harbor1 2 = slave_zero" "hb_id harbor1 = 1" by (simp_all add: harbor1_def harbor_create_def)
  then have s: "mainloop (\<lambda>_. True) harbor1 PTYPE_HARBOR 0 1 (In_bytes (ascii ''S '' @ ascii ''7 2'')) = Inr ([Socket_start 7, Socket_send 7 [1]], ?h1)"
    using connect_start [OF harbor1_waiting(1) _ _ scan_7_2, of "\<lambda>_. True" 0 1] by (simp add: REMOTE_MAX_def slave_zero_def)
  have "harbor_id ?h1 7 = 2" using harbor1_waiting by (intro harbor_id_only) (simp_all add: REMOTE_MAX_def)
  then obtain cs h where d: "mainloop (\<lambda>_. True) ?h1 PTYPE_SOCKET 0 0 (In_socket (data_message 7 [3])) = Inr (cs, h)" "sl_status (hb_s h 2) = STATUS_DOWN" "hb_id h = 1"
    by (simp add: mainloop_def socket_event_def push_socket_data_def data_message_def handshake_case_def close_harbor_def Let_def harbor1_def)
  have run: "harbor_run (\<lambda>_. True) h"
    by (rule harbor_run.handle [OF harbor_run.handle [OF harbor_run.start [OF i] s] d(1)])
  have "mainloop (\<lambda>_. True) h 10 5 0x01000007 (In_remote [] 0x02000009 (Some [1, 2, 3]) 3) =
       Inr ([Socket_send (sl_fd (hb_s h 2)) (frame (sent_as example_message))], h)"
    using harbor_down_unreported [OF run d(2) example_transportable(1), of "[]"] d(3) by (simp add: example_message_def eval_nat_numeral)
  with run d(2) show ?thesis by blast
qed

end
