(* ===== verification/Socket.thy ===== *)
theory Socket
  imports Service
begin

text \<open>
  The sockets of \<^verbatim>\<open>skynet-src/socket_server.c\<close>: the state of one socket, its two lists of buffers
  waiting to be written, and the functions that write, receive and close.

  What the system calls answer is an argument: a list of answers for calls that are repeated, one
  answer for the others. The calls a function makes are returned as a list. A list of answers that
  ends too early stands for a call that has not returned yet, the value \<open>Inl Diverges\<close>.
\<close>

section \<open>Data\<close>

definition MAX_SOCKET_P :: nat where "MAX_SOCKET_P = 16"
definition MAX_SOCKET :: nat where "MAX_SOCKET = 2 ^ MAX_SOCKET_P"
definition MIN_READ_BUFFER :: int where "MIN_READ_BUFFER = 64"
definition WARNING_SIZE :: int where "WARNING_SIZE = 1024 * 1024"
definition UDP_ADDRESS_SIZE :: nat where "UDP_ADDRESS_SIZE = 19"

definition HASH_ID :: "int \<Rightarrow> nat" where
  "HASH_ID i = unat (of_int i :: u32) mod MAX_SOCKET"

datatype sock_type = SOCKET_TYPE_INVALID | SOCKET_TYPE_RESERVE | SOCKET_TYPE_PLISTEN | SOCKET_TYPE_LISTEN
  | SOCKET_TYPE_CONNECTING | SOCKET_TYPE_CONNECTED | SOCKET_TYPE_HALFCLOSE | SOCKET_TYPE_PACCEPT | SOCKET_TYPE_BIND

datatype sock_protocol = PROTOCOL_TCP | PROTOCOL_UDP | PROTOCOL_UDPv6

datatype sock_priority = PRIORITY_HIGH | PRIORITY_LOW

definition protocol_code :: "sock_protocol \<Rightarrow> byte" where
  "protocol_code p = (case p of PROTOCOL_TCP \<Rightarrow> 0 | PROTOCOL_UDP \<Rightarrow> 1 | PROTOCOL_UDPv6 \<Rightarrow> 2)"

text \<open>A buffer to send, the pair of a pointer and a size: memory at an address, or, with a negative
  size, an object whose memory the registered interface \<^verbatim>\<open>soi\<close> knows. There may be none registered.\<close>

type_synonym addr = nat

datatype send_data = Plain addr "byte list" | Object addr

type_synonym soi = "(addr \<Rightarrow> addr \<times> byte list) option"

text \<open>\<^verbatim>\<open>struct write_buffer\<close>: the buffer, the position in it and the bytes from there on. One allocated
  with \<^verbatim>\<open>SIZEOF_TCPBUFFER\<close> has no room for an address.\<close>

record write_buffer =
  wb_buffer :: addr
  wb_ptr :: addr
  wb_data :: "byte list"
  wb_userobject :: bool
  wb_udp_address :: "byte list option"

text \<open>\<^verbatim>\<open>struct wb_list\<close>: the buffers from head to tail.\<close>

type_synonym wb_list = "write_buffer list"

text \<open>\<^verbatim>\<open>struct socket\<close>; \<open>s_dw\<close> is the buffer of a direct write that is not finished and the number of
  bytes of it that are written. The fields of the union \<open>p\<close> are used by TCP and UDP respectively.\<close>

record socket =
  s_opaque :: u64
  s_high :: wb_list
  s_low :: wb_list
  s_wb_size :: int
  s_fd :: int
  s_id :: int
  s_protocol :: sock_protocol
  s_type :: sock_type
  s_udpconnecting :: u16
  s_warn_size :: int
  s_size :: int
  s_udp_address :: "byte list"
  s_dw :: "(send_data \<times> nat) option"

text \<open>Events for the services: the type and \<^verbatim>\<open>struct socket_message\<close>.\<close>

datatype ss_type = SOCKET_DATA | SOCKET_CLOSE | SOCKET_OPEN | SOCKET_ACCEPT | SOCKET_ERR | SOCKET_EXIT | SOCKET_UDP | SOCKET_WARNING

datatype ss_data = Sm_null | Sm_text cstring | Sm_bytes "byte list"

record ss_message =
  sm_id :: int
  sm_opaque :: u64
  sm_ud :: int
  sm_data :: ss_data

type_synonym ss_event = "ss_type \<times> ss_message"

section \<open>System calls\<close>

datatype sockaddr = Sockaddr_in "byte list" "byte list" | Sockaddr_in6 "byte list" "byte list"

datatype sys_call =
    Sys_write int "byte list"
  | Sys_sendto int "byte list" "sockaddr option"
  | Sys_close int
  | Sys_free addr
  | Sys_setsockopt int int int
  | Sp_add int nat
  | Sp_del int
  | Sp_write int bool
  | Sys_log cstring

text \<open>Answers: a write takes some bytes, is interrupted, would block or fails. A read gives the bytes
  that have arrived, none at the end of the stream, or one of the same.\<close>

datatype write_answer = W_sent nat | W_intr | W_again | W_error

datatype read_answer = R_bytes "byte list" | R_intr | R_again | R_error cstring

section \<open>Buffers\<close>

definition send_object_init :: "soi \<Rightarrow> send_data \<Rightarrow> c_error + (addr \<times> byte list \<times> bool)" where
  "send_object_init soi d =
     (case d of
        Plain a bs \<Rightarrow> Inr (a, bs, False)
      | Object a \<Rightarrow> (case soi of None \<Rightarrow> Inl Use_after_free | Some f \<Rightarrow> (case f a of (p, bs) \<Rightarrow> Inr (p, bs, True))))"

definition data_addr :: "send_data \<Rightarrow> addr" where
  "data_addr d = (case d of Plain a _ \<Rightarrow> a | Object a \<Rightarrow> a)"

definition free_buffer :: "soi \<Rightarrow> send_data \<Rightarrow> c_error + sys_call list" where
  "free_buffer soi d = rbind (send_object_init soi d) (\<lambda>_. Inr [Sys_free (data_addr d)])"

definition free_wb_list :: "wb_list \<Rightarrow> sys_call list" where
  "free_wb_list ws = map (\<lambda>wb. Sys_free (wb_buffer wb)) ws"

definition closed_message :: "socket \<Rightarrow> ss_message" where
  "closed_message s = \<lparr>sm_id = s_id s, sm_opaque = s_opaque s, sm_ud = 0, sm_data = Sm_null\<rparr>"

definition force_close :: "soi \<Rightarrow> socket \<Rightarrow> c_error + (sys_call list \<times> ss_message \<times> socket)" where
  "force_close soi s =
     (if s_type s = SOCKET_TYPE_INVALID then Inr ([], closed_message s, s)
      else rbind (c_assert (s_type s \<noteq> SOCKET_TYPE_RESERVE)) (\<lambda>_.
           rbind (case s_dw s of None \<Rightarrow> Inr [] | Some (d, _) \<Rightarrow> free_buffer soi d) (\<lambda>dw.
           Inr (free_wb_list (s_high s) @ free_wb_list (s_low s)
                @ (if s_type s \<noteq> SOCKET_TYPE_PACCEPT \<and> s_type s \<noteq> SOCKET_TYPE_PLISTEN then [Sp_del (s_fd s)] else [])
                @ (if s_type s \<noteq> SOCKET_TYPE_BIND then [Sys_close (s_fd s)] else []) @ dw,
                closed_message s,
                s\<lparr>s_high := [], s_low := [], s_type := SOCKET_TYPE_INVALID, s_dw := None\<rparr>))))"

section \<open>Writing\<close>

definition wb_of :: "sock_priority \<Rightarrow> socket \<Rightarrow> wb_list" where
  "wb_of p s = (case p of PRIORITY_HIGH \<Rightarrow> s_high s | PRIORITY_LOW \<Rightarrow> s_low s)"

definition set_wb :: "sock_priority \<Rightarrow> wb_list \<Rightarrow> socket \<Rightarrow> socket" where
  "set_wb p l s = (case p of PRIORITY_HIGH \<Rightarrow> s\<lparr>s_high := l\<rparr> | PRIORITY_LOW \<Rightarrow> s\<lparr>s_low := l\<rparr>)"

text \<open>The result of a function that writes: the calls, the event if there is one (the code returns
  -1 otherwise), the socket and the answers that are left. A write takes at most the bytes it is given.\<close>

type_synonym write_result = "c_error + (sys_call list \<times> ss_event option \<times> socket \<times> write_answer list)"

definition add_calls :: "sys_call list \<Rightarrow> write_result \<Rightarrow> write_result" where
  "add_calls cs r = rbind r (\<lambda>(cs', e, s, ws). Inr (cs @ cs', e, s, ws))"

fun send_list_tcp :: "soi \<Rightarrow> write_answer list \<Rightarrow> sock_priority \<Rightarrow> socket \<Rightarrow> write_result" where
  "send_list_tcp soi ws p s =
     (case wb_of p s of
        [] \<Rightarrow> Inr ([], None, s, ws)
      | tmp # rest \<Rightarrow>
         (case ws of
            [] \<Rightarrow> Inl Diverges
          | W_intr # ws' \<Rightarrow> send_list_tcp soi ws' p s
          | W_again # ws' \<Rightarrow> Inr ([], None, s, ws')
          | W_error # ws' \<Rightarrow> rbind (force_close soi s) (\<lambda>(cs, m, s'). Inr (cs, Some (SOCKET_CLOSE, m), s', ws'))
          | W_sent n # ws' \<Rightarrow>
              let n = min n (length (wb_data tmp)); s1 = s\<lparr>s_wb_size := s_wb_size s - int n\<rparr>;
                  out = Sys_write (s_fd s) (take n (wb_data tmp))
              in if n \<noteq> length (wb_data tmp)
                 then Inr ([out], None, set_wb p (tmp\<lparr>wb_ptr := wb_ptr tmp + n, wb_data := drop n (wb_data tmp)\<rparr> # rest) s1, ws')
                 else add_calls [out, Sys_free (wb_buffer tmp)] (send_list_tcp soi ws' p (set_wb p rest s1))))"

declare send_list_tcp.simps [simp del]

text \<open>The address of a datagram as bytes: the protocol, the port and the IP address.\<close>

definition udp_socket_address :: "sock_protocol \<Rightarrow> byte list \<Rightarrow> sockaddr option" where
  "udp_socket_address p a =
     (if a ! 0 \<noteq> protocol_code p then None
      else case p of
             PROTOCOL_TCP \<Rightarrow> None
           | PROTOCOL_UDP \<Rightarrow> Some (Sockaddr_in (take 2 (drop 1 a)) (take 4 (drop 3 a)))
           | PROTOCOL_UDPv6 \<Rightarrow> Some (Sockaddr_in6 (take 2 (drop 1 a)) (take 16 (drop 3 a))))"

definition gen_udp_address :: "sockaddr \<Rightarrow> byte list" where
  "gen_udp_address sa =
     (case sa of Sockaddr_in port ip \<Rightarrow> protocol_code PROTOCOL_UDP # port @ ip
               | Sockaddr_in6 port ip \<Rightarrow> protocol_code PROTOCOL_UDPv6 # port @ ip)"

fun send_list_udp :: "write_answer list \<Rightarrow> sock_priority \<Rightarrow> socket \<Rightarrow> write_result" where
  "send_list_udp ws p s =
     (case wb_of p s of
        [] \<Rightarrow> Inr ([], None, s, ws)
      | tmp # rest \<Rightarrow>
         (case wb_udp_address tmp of
            None \<Rightarrow> Inl Out_of_bounds
          | Some a \<Rightarrow>
             (case ws of
                [] \<Rightarrow> Inl Diverges
              | W_sent n # ws' \<Rightarrow>
                  add_calls [Sys_sendto (s_fd s) (wb_data tmp) (udp_socket_address (s_protocol s) a), Sys_free (wb_buffer tmp)]
                    (send_list_udp ws' p (set_wb p rest (s\<lparr>s_wb_size := s_wb_size s - int (length (wb_data tmp))\<rparr>)))
              | W_error # ws' \<Rightarrow> Inr ([Sys_log (ascii ''socket-server : udp ('' @ print_int (s_id s) @ ascii '') sendto error'')], None, s, ws')
              | _ # ws' \<Rightarrow> Inr ([], None, s, ws'))))"

declare send_list_udp.simps [simp del]

definition send_list :: "soi \<Rightarrow> write_answer list \<Rightarrow> sock_priority \<Rightarrow> socket \<Rightarrow> write_result" where
  "send_list soi ws p s = (if s_protocol s = PROTOCOL_TCP then send_list_tcp soi ws p s else send_list_udp ws p s)"

definition list_uncomplete :: "wb_list \<Rightarrow> bool" where
  "list_uncomplete l = (case l of [] \<Rightarrow> False | wb # _ \<Rightarrow> wb_ptr wb \<noteq> wb_buffer wb)"

definition raise_uncomplete :: "socket \<Rightarrow> c_error + socket" where
  "raise_uncomplete s =
     (case s_low s of
        [] \<Rightarrow> Inl Use_after_free
      | tmp # rest \<Rightarrow> rbind (c_assert (s_high s = [])) (\<lambda>_. Inr (s\<lparr>s_low := rest, s_high := [tmp]\<rparr>)))"

definition send_buffer_empty :: "socket \<Rightarrow> bool" where
  "send_buffer_empty s \<longleftrightarrow> s_high s = [] \<and> s_low s = []"

text \<open>Step 4 of \<^verbatim>\<open>send_buffer_\<close>: both lists are empty.\<close>

definition check_close :: "soi \<Rightarrow> write_answer list \<Rightarrow> socket \<Rightarrow> write_result" where
  "check_close soi ws s =
     rbind (c_assert (send_buffer_empty s \<and> s_wb_size s = 0)) (\<lambda>_.
       add_calls [Sp_write (s_fd s) False]
         (if s_type s = SOCKET_TYPE_HALFCLOSE
          then rbind (force_close soi s) (\<lambda>(cs, m, s'). Inr (cs, Some (SOCKET_CLOSE, m), s', ws))
          else if 0 < s_warn_size s then Inr ([], Some (SOCKET_WARNING, closed_message s), s\<lparr>s_warn_size := 0\<rparr>, ws)
          else Inr ([], None, s, ws)))"

definition is_close :: "ss_event option \<Rightarrow> bool" where
  "is_close e \<longleftrightarrow> (case e of Some (SOCKET_CLOSE, _) \<Rightarrow> True | _ \<Rightarrow> False)"

definition send_low :: "soi \<Rightarrow> write_answer list \<Rightarrow> socket \<Rightarrow> write_result" where
  "send_low soi ws s =
     (if s_low s = [] then check_close soi ws s
      else rbind (send_list soi ws PRIORITY_LOW s) (\<lambda>(cs, e, s1, ws1).
             if is_close e then Inr (cs, e, s1, ws1)
             else if list_uncomplete (s_low s1) then rbind (raise_uncomplete s1) (\<lambda>s2. Inr (cs, None, s2, ws1))
             else add_calls cs (check_close soi ws1 s1)))"

definition send_buffers :: "soi \<Rightarrow> write_answer list \<Rightarrow> socket \<Rightarrow> write_result" where
  "send_buffers soi ws s =
     rbind (c_assert (\<not> list_uncomplete (s_low s))) (\<lambda>_.
     rbind (send_list soi ws PRIORITY_HIGH s) (\<lambda>(cs, e, s1, ws1).
       if is_close e \<or> s_high s1 \<noteq> [] then Inr (cs, e, s1, ws1) else add_calls cs (send_low soi ws1 s1)))"

text \<open>The rest of a direct write goes in front of the list.\<close>

definition take_direct :: "soi \<Rightarrow> socket \<Rightarrow> c_error + socket" where
  "take_direct soi s =
     (case s_dw s of
        None \<Rightarrow> Inr s
      | Some (d, off) \<Rightarrow>
          rbind (send_object_init soi d) (\<lambda>(p, bs, user).
            let buf = \<lparr>wb_buffer = data_addr d, wb_ptr = p + off, wb_data = drop off bs, wb_userobject = user, wb_udp_address = None\<rparr>
            in Inr (s\<lparr>s_wb_size := s_wb_size s + int (length (wb_data buf)), s_high := buf # s_high s, s_dw := None\<rparr>)))"

text \<open>\<open>locked\<close>: a worker holds the lock of the socket.\<close>

definition send_buffer :: "soi \<Rightarrow> bool \<Rightarrow> write_answer list \<Rightarrow> socket \<Rightarrow> write_result" where
  "send_buffer soi locked ws s =
     (if locked then Inr ([], None, s, ws) else rbind (take_direct soi s) (send_buffers soi ws))"

section \<open>Accepting data to send\<close>

definition new_write_buffer :: "soi \<Rightarrow> send_data \<Rightarrow> byte list option \<Rightarrow> c_error + write_buffer" where
  "new_write_buffer soi d a =
     rbind (send_object_init soi d) (\<lambda>(p, bs, user).
       Inr \<lparr>wb_buffer = data_addr d, wb_ptr = p, wb_data = bs, wb_userobject = user, wb_udp_address = a\<rparr>)"

definition append_buffer :: "soi \<Rightarrow> sock_priority \<Rightarrow> send_data \<Rightarrow> byte list option \<Rightarrow> socket \<Rightarrow> c_error + socket" where
  "append_buffer soi p d a s =
     rbind (new_write_buffer soi d a) (\<lambda>buf.
       Inr (set_wb p (wb_of p s @ [buf]) (s\<lparr>s_wb_size := s_wb_size s + int (length (wb_data buf))\<rparr>)))"

definition append_sendbuffer_udp :: "soi \<Rightarrow> socket \<Rightarrow> sock_priority \<Rightarrow> send_data \<Rightarrow> byte list \<Rightarrow> c_error + socket" where
  "append_sendbuffer_udp soi s p d a = append_buffer soi p d (Some a) s"

definition append_sendbuffer :: "soi \<Rightarrow> socket \<Rightarrow> send_data \<Rightarrow> c_error + socket" where
  "append_sendbuffer soi s d = append_buffer soi PRIORITY_HIGH d None s"

definition append_sendbuffer_low :: "soi \<Rightarrow> socket \<Rightarrow> send_data \<Rightarrow> c_error + socket" where
  "append_sendbuffer_low soi s d = append_buffer soi PRIORITY_LOW d None s"

definition send_warning :: "socket \<Rightarrow> ss_event option \<times> socket" where
  "send_warning s =
     (if WARNING_SIZE \<le> s_wb_size s \<and> s_warn_size s \<le> s_wb_size s
      then (Some (SOCKET_WARNING, \<lparr>sm_id = s_id s, sm_opaque = s_opaque s,
                    sm_ud = c_int (if s_wb_size s mod 1024 = 0 then s_wb_size s div 1024 else s_wb_size s div 1024 + 1), sm_data = Sm_null\<rparr>),
            s\<lparr>s_warn_size := (if s_warn_size s = 0 then WARNING_SIZE * 2 else s_warn_size s * 2)\<rparr>)
      else (None, s))"

text \<open>\<open>send_socket\<close> on the slot of the id: \<open>n\<close> is what \<^verbatim>\<open>sendto\<close> returns if it is called.\<close>

definition queue_data :: "soi \<Rightarrow> int \<Rightarrow> socket \<Rightarrow> send_data \<Rightarrow> sock_priority \<Rightarrow> byte list option \<Rightarrow> c_error + (sys_call list \<times> bool \<times> socket)" where
  "queue_data soi n s d p udp =
     (let a = (case udp of None \<Rightarrow> s_udp_address s | Some a \<Rightarrow> a)
      in if send_buffer_empty s \<and> s_type s = SOCKET_TYPE_CONNECTED
         then if s_protocol s = PROTOCOL_TCP
              then rbind (append_sendbuffer soi s d) (\<lambda>s1. Inr ([Sp_write (s_fd s) True], True, s1))
              else rbind (send_object_init soi d) (\<lambda>(ptr, bs, user).
                     let out = Sys_sendto (s_fd s) bs (udp_socket_address (s_protocol s) a)
                     in if n \<noteq> int (length bs)
                        then rbind (append_sendbuffer_udp soi s p d a) (\<lambda>s1. Inr ([Sp_write (s_fd s) True], True, s1))
                        else Inr ([out, Sys_free (data_addr d)], False, s))
         else if s_protocol s = PROTOCOL_TCP
         then rbind (if p = PRIORITY_LOW then append_sendbuffer_low soi s d else append_sendbuffer soi s d) (\<lambda>s1. Inr ([], True, s1))
         else rbind (append_sendbuffer_udp soi s p d a) (\<lambda>s1. Inr ([], True, s1)))"

definition send_socket ::
  "soi \<Rightarrow> int \<Rightarrow> int \<Rightarrow> socket \<Rightarrow> send_data \<Rightarrow> sock_priority \<Rightarrow> byte list option \<Rightarrow> c_error + (sys_call list \<times> ss_event option \<times> socket)" where
  "send_socket soi n i s d p udp =
     rbind (send_object_init soi d) (\<lambda>_.
       if s_type s = SOCKET_TYPE_INVALID \<or> s_id s \<noteq> i \<or> s_type s = SOCKET_TYPE_HALFCLOSE \<or> s_type s = SOCKET_TYPE_PACCEPT
       then Inr ([Sys_free (data_addr d)], None, s)
       else if s_type s = SOCKET_TYPE_PLISTEN \<or> s_type s = SOCKET_TYPE_LISTEN
       then Inr ([Sys_log (ascii ''socket-server: write to listen fd '' @ print_int i @ ascii ''.''), Sys_free (data_addr d)], None, s)
       else rbind (queue_data soi n s d p udp) (\<lambda>(cs, queued, s1).
              if queued then (case send_warning s1 of (e, s2) \<Rightarrow> Inr (cs, e, s2)) else Inr (cs, None, s1)))"

text \<open>A direct write by a worker. \<open>n\<close> is what \<^verbatim>\<open>write\<close> or \<^verbatim>\<open>sendto\<close> returns, negative for an error.\<close>

definition nomore_send_data :: "socket \<Rightarrow> bool" where
  "nomore_send_data s \<longleftrightarrow> send_buffer_empty s \<and> s_dw s = None"

definition can_direct_write :: "socket \<Rightarrow> int \<Rightarrow> bool" where
  "can_direct_write s i \<longleftrightarrow> s_id s = i \<and> nomore_send_data s \<and> s_type s = SOCKET_TYPE_CONNECTED \<and> s_udpconnecting s = 0"

definition direct_write :: "soi \<Rightarrow> int \<Rightarrow> socket \<Rightarrow> send_data \<Rightarrow> c_error + (sys_call list \<times> socket)" where
  "direct_write soi n s d =
     rbind (send_object_init soi d) (\<lambda>(p, bs, user).
       let k = (if n < 0 then 0 else min (nat n) (length bs));
           out = (if n < 0 then []
                  else if s_protocol s = PROTOCOL_TCP then [Sys_write (s_fd s) (take k bs)]
                  else [Sys_sendto (s_fd s) (take k bs) (udp_socket_address (s_protocol s) (s_udp_address s))])
       in if k = length bs then Inr (out @ [Sys_free (data_addr d)], s)
          else Inr (out @ [Sp_write (s_fd s) True], s\<lparr>s_dw := Some (d, k)\<rparr>))"

section \<open>Receiving\<close>

type_synonym sock_result = "c_error + (sys_call list \<times> ss_event option \<times> socket)"

definition close_with :: "soi \<Rightarrow> socket \<Rightarrow> ss_type \<Rightarrow> ss_data \<Rightarrow> sock_result" where
  "close_with soi s t d = rbind (force_close soi s) (\<lambda>(cs, m, s'). Inr (cs, Some (t, m\<lparr>sm_data := d\<rparr>), s'))"

definition forward_message_tcp :: "soi \<Rightarrow> read_answer \<Rightarrow> socket \<Rightarrow> sock_result" where
  "forward_message_tcp soi r s =
     (let sz = s_size s
      in case r of
           R_intr \<Rightarrow> Inr ([], None, s)
         | R_again \<Rightarrow> Inr ([Sys_log (ascii ''socket-server: EAGAIN capture.'')], None, s)
         | R_error err \<Rightarrow> close_with soi s SOCKET_ERR (Sm_text err)
         | R_bytes avail \<Rightarrow>
             if avail = [] then close_with soi s SOCKET_CLOSE Sm_null
             else if s_type s = SOCKET_TYPE_HALFCLOSE then Inr ([], None, s)
             else let bs = take (nat sz) avail; n = int (length bs);
                      size' = (if n = sz then c_int (sz * 2) else if MIN_READ_BUFFER < sz \<and> n * 2 < sz then sz div 2 else sz)
                  in Inr ([], Some (SOCKET_DATA, \<lparr>sm_id = s_id s, sm_opaque = s_opaque s, sm_ud = n, sm_data = Sm_bytes bs\<rparr>),
                          s\<lparr>s_size := size'\<rparr>))"

text \<open>\<^verbatim>\<open>recvfrom\<close> gives a datagram and where it came from.\<close>

datatype recv_answer = U_datagram "byte list" sockaddr | U_intr | U_again | U_error cstring

definition forward_message_udp :: "soi \<Rightarrow> recv_answer \<Rightarrow> socket \<Rightarrow> sock_result" where
  "forward_message_udp soi r s =
     (case r of
        U_intr \<Rightarrow> Inr ([], None, s)
      | U_again \<Rightarrow> Inr ([], None, s)
      | U_error err \<Rightarrow> close_with soi s SOCKET_ERR (Sm_text err)
      | U_datagram bs sa \<Rightarrow>
          if s_protocol s \<noteq> (case sa of Sockaddr_in _ _ \<Rightarrow> PROTOCOL_UDP | Sockaddr_in6 _ _ \<Rightarrow> PROTOCOL_UDPv6) then Inr ([], None, s)
          else Inr ([], Some (SOCKET_UDP, \<lparr>sm_id = s_id s, sm_opaque = s_opaque s, sm_ud = int (length bs),
                                sm_data = Sm_bytes (bs @ gen_udp_address sa)\<rparr>), s))"

text \<open>\<open>err\<close>: the pending error of the socket, if any; \<open>peer\<close>: the printed address of the peer, if known.\<close>

definition report_connect :: "soi \<Rightarrow> cstring option \<Rightarrow> cstring option \<Rightarrow> socket \<Rightarrow> sock_result" where
  "report_connect soi err peer s =
     (case err of
        Some t \<Rightarrow> close_with soi s SOCKET_ERR (Sm_text t)
      | None \<Rightarrow>
          Inr (if nomore_send_data s then [Sp_write (s_fd s) False] else [],
               Some (SOCKET_OPEN, \<lparr>sm_id = s_id s, sm_opaque = s_opaque s, sm_ud = 0,
                                   sm_data = (case peer of None \<Rightarrow> Sm_null | Some t \<Rightarrow> Sm_text t)\<rparr>),
               s\<lparr>s_type := SOCKET_TYPE_CONNECTED\<rparr>))"

section \<open>Closing\<close>

definition close_socket :: "soi \<Rightarrow> bool \<Rightarrow> write_answer list \<Rightarrow> int \<Rightarrow> bool \<Rightarrow> u64 \<Rightarrow> socket \<Rightarrow> sock_result" where
  "close_socket soi locked ws i shutdown opaque s =
     (if s_type s = SOCKET_TYPE_INVALID \<or> s_id s \<noteq> i
      then Inr ([], Some (SOCKET_CLOSE, \<lparr>sm_id = i, sm_opaque = opaque, sm_ud = 0, sm_data = Sm_null\<rparr>), s)
      else rbind (if nomore_send_data s then Inr ([], None, s, ws) else send_buffer soi locked ws s) (\<lambda>(cs, e, s1, ws1).
             if is_close e then Inr (cs, e, s1)
             else if shutdown \<or> nomore_send_data s1
             then rbind (force_close soi s1) (\<lambda>(cs', m, s2).
                    Inr (cs @ cs', Some (SOCKET_CLOSE, m\<lparr>sm_id := i, sm_opaque := opaque\<rparr>), s2))
             else Inr (cs, None, s1\<lparr>s_type := SOCKET_TYPE_HALFCLOSE\<rparr>)))"

end
