(* ===== verification/Socket_Server.thy ===== *)
theory Socket_Server
  imports Socket
begin

text \<open>
  The socket server of \<^verbatim>\<open>skynet-src/socket_server.c\<close>: the table of sockets, the requests that the
  services put into the control pipe, the loop of the socket thread that handles them and the
  events of the poll set, and the functions that the services call.

  The functions called by services and one round of the loop are the steps that interleave. The
  pipe is the list of the requests in it; each is written and read as a whole.
\<close>

section \<open>State\<close>

record event =
  ev_s :: "nat option"
  ev_read :: bool
  ev_write :: bool
  ev_error :: bool

datatype ctrl_request =
    Req_start int u64
  | Req_bind int int u64
  | Req_listen int int u64
  | Req_close int bool u64
  | Req_open int int u64 cstring
  | Req_exit
  | Req_send sock_priority int send_data
  | Req_send_udp int send_data "byte list"
  | Req_setudp int "byte list"
  | Req_setopt int int int
  | Req_udp int int bool u64

record socket_server =
  ss_soi :: soi
  ss_alloc_id :: int
  ss_checkctrl :: bool
  ss_ev :: "event list"
  ss_event_index :: nat
  ss_slot :: "nat \<Rightarrow> socket"
  ss_ctrl :: "ctrl_request list"

abbreviation sock_at :: "socket_server \<Rightarrow> int \<Rightarrow> socket" where
  "sock_at ss i \<equiv> ss_slot ss (HASH_ID i)"

abbreviation set_slot :: "socket_server \<Rightarrow> nat \<Rightarrow> socket \<Rightarrow> socket_server" where
  "set_slot ss k s \<equiv> ss\<lparr>ss_slot := (ss_slot ss)(k := s)\<rparr>"

text \<open>\<open>mem\<close> is the memory as it was allocated; \<open>ok\<close>: the poll set and the pipe could be created.\<close>

definition socket_server_create :: "bool \<Rightarrow> (nat \<Rightarrow> socket) \<Rightarrow> socket_server option" where
  "socket_server_create ok mem =
     (if ok then Some \<lparr>ss_soi = None, ss_alloc_id = 0, ss_checkctrl = True, ss_ev = [], ss_event_index = 0,
                       ss_slot = (\<lambda>i. (mem i)\<lparr>s_type := SOCKET_TYPE_INVALID, s_high := [], s_low := []\<rparr>), ss_ctrl = []\<rparr>
      else None)"

definition socket_server_userobject :: "socket_server \<Rightarrow> (addr \<Rightarrow> addr \<times> byte list) \<Rightarrow> socket_server" where
  "socket_server_userobject ss soi = ss\<lparr>ss_soi := Some soi\<rparr>"

section \<open>Ids\<close>

definition next_id :: "int \<Rightarrow> int" where
  "next_id alloc = (let i = c_int (alloc + 1) in if i < 0 then i AND 0x7fffffff else i)"

primrec reserve_loop :: "nat \<Rightarrow> socket_server \<Rightarrow> int \<times> socket_server" where
  "reserve_loop 0 ss = (- 1, ss)"
| "reserve_loop (Suc n) ss =
     (let i = next_id (ss_alloc_id ss); ss1 = ss\<lparr>ss_alloc_id := i\<rparr>; s = sock_at ss1 i
      in if s_type s = SOCKET_TYPE_INVALID
         then (i, set_slot ss1 (HASH_ID i) (s\<lparr>s_type := SOCKET_TYPE_RESERVE, s_id := i, s_udpconnecting := 0, s_fd := - 1\<rparr>))
         else reserve_loop n ss1)"

definition reserve_id :: "socket_server \<Rightarrow> int \<times> socket_server" where
  "reserve_id ss = reserve_loop MAX_SOCKET ss"

text \<open>The flag says whether the socket was set up; it is not when \<^verbatim>\<open>sp_add\<close> fails.\<close>

definition new_fd ::
  "bool \<Rightarrow> socket_server \<Rightarrow> int \<Rightarrow> int \<Rightarrow> sock_protocol \<Rightarrow> u64 \<Rightarrow> bool \<Rightarrow> c_error + (sys_call list \<times> bool \<times> socket_server)" where
  "new_fd add_ok ss i fd protocol opaque add =
     (let s = sock_at ss i
      in rbind (c_assert (s_type s = SOCKET_TYPE_RESERVE)) (\<lambda>_.
           let cs = (if add then [Sp_add fd (HASH_ID i)] else [])
           in if add \<and> \<not> add_ok then Inr (cs, False, set_slot ss (HASH_ID i) (s\<lparr>s_type := SOCKET_TYPE_INVALID\<rparr>))
              else rbind (c_assert (s_high s = [] \<and> s_low s = [])) (\<lambda>_.
                     Inr (cs, True, set_slot ss (HASH_ID i)
                       (s\<lparr>s_id := i, s_fd := fd, s_protocol := protocol, s_size := MIN_READ_BUFFER, s_opaque := opaque,
                          s_wb_size := 0, s_warn_size := 0, s_dw := None\<rparr>)))))"

definition set_type :: "socket_server \<Rightarrow> int \<Rightarrow> sock_type \<Rightarrow> socket_server" where
  "set_type ss i t = set_slot ss (HASH_ID i) ((sock_at ss i)\<lparr>s_type := t\<rparr>)"

section \<open>Answers of the system\<close>

datatype conn_attempt = No_socket | Refused int | In_progress int | Connected int "cstring option"

datatype open_answer = Gai_error cstring | Gai_list "conn_attempt list" cstring

datatype accept_answer = Accepted int "cstring option" | Accept_limit cstring | Accept_failed

datatype wait_answer = Wait_events "event list" | Wait_intr | Wait_error

record os_answer =
  os_locked :: bool
  os_writes :: "write_answer list"
  os_sendto :: int
  os_add_ok :: bool
  os_errno :: cstring
  os_read :: read_answer
  os_recv :: recv_answer
  os_sockerr :: "cstring option"
  os_peer :: "cstring option"
  os_accept :: accept_answer
  os_open :: open_answer
  os_wait :: wait_answer

section \<open>Requests\<close>

type_synonym server_result = "c_error + (sys_call list \<times> ss_event option \<times> socket_server)"

definition on_slot :: "nat \<Rightarrow> (socket \<Rightarrow> sock_result) \<Rightarrow> socket_server \<Rightarrow> server_result" where
  "on_slot k f ss = rbind (f (ss_slot ss k)) (\<lambda>(cs, e, s). Inr (cs, e, set_slot ss k s))"

definition reply :: "int \<Rightarrow> u64 \<Rightarrow> ss_data \<Rightarrow> ss_message" where
  "reply i opaque d = \<lparr>sm_id = i, sm_opaque = opaque, sm_ud = 0, sm_data = d\<rparr>"

definition limit_text :: cstring where
  "limit_text = ascii ''reach skynet socket number limit''"

text \<open>The loop over the addresses of a host: what is closed, and the connection if there is one.\<close>

fun try_connect :: "conn_attempt list \<Rightarrow> sys_call list \<times> (int \<times> bool \<times> cstring option) option" where
  "try_connect [] = ([], None)"
| "try_connect (No_socket # as) = try_connect as"
| "try_connect (Refused fd # as) = (case try_connect as of (cs, r) \<Rightarrow> (Sys_close fd # cs, r))"
| "try_connect (In_progress fd # as) = ([], Some (fd, False, None))"
| "try_connect (Connected fd peer # as) = ([], Some (fd, True, peer))"

definition open_failed :: "socket_server \<Rightarrow> int \<Rightarrow> u64 \<Rightarrow> cstring \<Rightarrow> sys_call list \<Rightarrow> server_result" where
  "open_failed ss i opaque err cs = Inr (cs, Some (SOCKET_ERR, reply i opaque (Sm_text err)), set_type ss i SOCKET_TYPE_INVALID)"

definition open_socket :: "os_answer \<Rightarrow> int \<Rightarrow> u64 \<Rightarrow> socket_server \<Rightarrow> server_result" where
  "open_socket os i opaque ss =
     (case os_open os of
        Gai_error err \<Rightarrow> open_failed ss i opaque err []
      | Gai_list as err \<Rightarrow>
          (case try_connect as of
             (cs, None) \<Rightarrow> open_failed ss i opaque err cs
           | (cs, Some (sock, done, peer)) \<Rightarrow>
               rbind (new_fd (os_add_ok os) ss i sock PROTOCOL_TCP opaque True) (\<lambda>(cs1, added, ss1).
                 if \<not> added then open_failed ss1 i opaque limit_text (cs @ cs1 @ [Sys_close sock])
                 else if done
                 then Inr (cs @ cs1, Some (SOCKET_OPEN, reply i opaque (case peer of None \<Rightarrow> Sm_null | Some t \<Rightarrow> Sm_text t)),
                           set_type ss1 i SOCKET_TYPE_CONNECTED)
                 else Inr (cs @ cs1 @ [Sp_write sock True], None, set_type ss1 i SOCKET_TYPE_CONNECTING))))"

definition listen_socket :: "os_answer \<Rightarrow> int \<Rightarrow> int \<Rightarrow> u64 \<Rightarrow> socket_server \<Rightarrow> server_result" where
  "listen_socket os i fd opaque ss =
     rbind (new_fd (os_add_ok os) ss i fd PROTOCOL_TCP opaque False) (\<lambda>(cs, added, ss1).
       if \<not> added then open_failed ss1 i opaque limit_text (cs @ [Sys_close fd])
       else Inr (cs, None, set_type ss1 i SOCKET_TYPE_PLISTEN))"

definition bind_socket :: "os_answer \<Rightarrow> int \<Rightarrow> int \<Rightarrow> u64 \<Rightarrow> socket_server \<Rightarrow> server_result" where
  "bind_socket os i fd opaque ss =
     rbind (new_fd (os_add_ok os) ss i fd PROTOCOL_TCP opaque True) (\<lambda>(cs, added, ss1).
       if \<not> added then Inr (cs, Some (SOCKET_ERR, reply i opaque (Sm_text limit_text)), ss1)
       else Inr (cs, Some (SOCKET_OPEN, reply i opaque (Sm_text (ascii ''binding''))), set_type ss1 i SOCKET_TYPE_BIND))"

definition start_socket :: "os_answer \<Rightarrow> soi \<Rightarrow> nat \<Rightarrow> int \<Rightarrow> u64 \<Rightarrow> socket \<Rightarrow> sock_result" where
  "start_socket os soi k i opaque s =
     (if s_type s = SOCKET_TYPE_INVALID \<or> s_id s \<noteq> i
      then Inr ([], Some (SOCKET_ERR, reply i opaque (Sm_text (ascii ''invalid socket''))), s)
      else if s_type s = SOCKET_TYPE_PACCEPT \<or> s_type s = SOCKET_TYPE_PLISTEN
      then if \<not> os_add_ok os
           then rbind (force_close soi s) (\<lambda>(cs, m, s'). Inr (Sp_add (s_fd s) k # cs, Some (SOCKET_ERR, m\<lparr>sm_data := Sm_text (os_errno os)\<rparr>), s'))
           else Inr ([Sp_add (s_fd s) k], Some (SOCKET_OPEN, reply i opaque (Sm_text (ascii ''start''))),
                     s\<lparr>s_type := (if s_type s = SOCKET_TYPE_PACCEPT then SOCKET_TYPE_CONNECTED else SOCKET_TYPE_LISTEN), s_opaque := opaque\<rparr>)
      else if s_type s = SOCKET_TYPE_CONNECTED
      then Inr ([], Some (SOCKET_OPEN, reply i opaque (Sm_text (ascii ''transfer''))), s\<lparr>s_opaque := opaque\<rparr>)
      else Inr ([], None, s))"

definition setopt_socket :: "int \<Rightarrow> int \<Rightarrow> int \<Rightarrow> socket \<Rightarrow> sock_result" where
  "setopt_socket i what v s =
     Inr (if s_type s = SOCKET_TYPE_INVALID \<or> s_id s \<noteq> i then [] else [Sys_setsockopt (s_fd s) what v], None, s)"

definition add_udp_socket :: "os_answer \<Rightarrow> int \<Rightarrow> int \<Rightarrow> bool \<Rightarrow> u64 \<Rightarrow> socket_server \<Rightarrow> server_result" where
  "add_udp_socket os i fd v6 opaque ss =
     rbind (new_fd (os_add_ok os) ss i fd (if v6 then PROTOCOL_UDPv6 else PROTOCOL_UDP) opaque True) (\<lambda>(cs, added, ss1).
       if \<not> added then Inr (cs @ [Sys_close fd], None, set_type ss1 i SOCKET_TYPE_INVALID)
       else Inr (cs, None, set_slot ss1 (HASH_ID i)
              ((sock_at ss1 i)\<lparr>s_type := SOCKET_TYPE_CONNECTED, s_udp_address := replicate UDP_ADDRESS_SIZE 0\<rparr>)))"

definition set_udp_address :: "int \<Rightarrow> byte list \<Rightarrow> socket \<Rightarrow> sock_result" where
  "set_udp_address i a s =
     (if s_type s = SOCKET_TYPE_INVALID \<or> s_id s \<noteq> i then Inr ([], None, s)
      else if a ! 0 \<noteq> protocol_code (s_protocol s)
      then Inr ([], Some (SOCKET_ERR, reply (s_id s) (s_opaque s) (Sm_text (ascii ''protocol mismatch''))), s)
      else let n = (if a ! 0 = protocol_code PROTOCOL_UDP then 7 else 19)
           in Inr ([], None, s\<lparr>s_udp_address := take n a @ drop n (s_udp_address s), s_udpconnecting := s_udpconnecting s - 1\<rparr>))"

definition handle_request :: "os_answer \<Rightarrow> ctrl_request \<Rightarrow> socket_server \<Rightarrow> server_result" where
  "handle_request os r ss =
     (case r of
        Req_start i opaque \<Rightarrow> on_slot (HASH_ID i) (start_socket os (ss_soi ss) (HASH_ID i) i opaque) ss
      | Req_bind i fd opaque \<Rightarrow> bind_socket os i fd opaque ss
      | Req_listen i fd opaque \<Rightarrow> listen_socket os i fd opaque ss
      | Req_close i shutdown opaque \<Rightarrow>
          on_slot (HASH_ID i) (close_socket (ss_soi ss) (os_locked os) (os_writes os) i shutdown opaque) ss
      | Req_open i port opaque host \<Rightarrow> open_socket os i opaque ss
      | Req_exit \<Rightarrow> Inr ([], Some (SOCKET_EXIT, reply 0 0 Sm_null), ss)
      | Req_send p i d \<Rightarrow> on_slot (HASH_ID i) (\<lambda>s. send_socket (ss_soi ss) (os_sendto os) i s d p None) ss
      | Req_send_udp i d a \<Rightarrow> on_slot (HASH_ID i) (\<lambda>s. send_socket (ss_soi ss) (os_sendto os) i s d PRIORITY_HIGH (Some a)) ss
      | Req_setudp i a \<Rightarrow> on_slot (HASH_ID i) (set_udp_address i a) ss
      | Req_setopt i what v \<Rightarrow> on_slot (HASH_ID i) (setopt_socket i what v) ss
      | Req_udp i fd v6 opaque \<Rightarrow> add_udp_socket os i fd v6 opaque ss)"

definition ctrl_cmd :: "os_answer \<Rightarrow> socket_server \<Rightarrow> server_result" where
  "ctrl_cmd os ss =
     (case ss_ctrl ss of [] \<Rightarrow> Inl Diverges | r # rs \<Rightarrow> handle_request os r (ss\<lparr>ss_ctrl := rs\<rparr>))"

section \<open>Events\<close>

text \<open>A connection that was accepted: \<open>None\<close> when nothing is to be reported.\<close>

definition report_accept :: "os_answer \<Rightarrow> nat \<Rightarrow> socket_server \<Rightarrow> server_result" where
  "report_accept os k ss =
     (let s = ss_slot ss k
      in case os_accept os of
           Accept_limit err \<Rightarrow> Inr ([], Some (SOCKET_ERR, reply (s_id s) (s_opaque s) (Sm_text err)), ss)
         | Accept_failed \<Rightarrow> Inr ([], None, ss)
         | Accepted client_fd peer \<Rightarrow>
             (case reserve_id ss of
                (i, ss1) \<Rightarrow>
                  if i < 0 then Inr ([Sys_close client_fd], None, ss1)
                  else rbind (new_fd (os_add_ok os) ss1 i client_fd PROTOCOL_TCP (s_opaque s) False) (\<lambda>(cs, added, ss2).
                         if \<not> added then Inr (cs @ [Sys_close client_fd], None, ss2)
                         else Inr (cs, Some (SOCKET_ACCEPT, (reply (s_id s) (s_opaque s)
                                     (case peer of None \<Rightarrow> Sm_null | Some t \<Rightarrow> Sm_text t))\<lparr>sm_ud := i\<rparr>),
                                   set_type ss2 i SOCKET_TYPE_PACCEPT))))"

text \<open>\<^verbatim>\<open>clear_closed_event\<close>: the first pending event of the closed socket.\<close>

fun clear_first :: "(event \<Rightarrow> bool) \<Rightarrow> event list \<Rightarrow> event list" where
  "clear_first P [] = []"
| "clear_first P (e # es) = (if P e then e\<lparr>ev_s := None\<rparr> # es else e # clear_first P es)"

definition clear_closed_event :: "ss_event \<Rightarrow> socket_server \<Rightarrow> socket_server" where
  "clear_closed_event ev ss =
     (case ev of (t, m) \<Rightarrow>
        if t = SOCKET_CLOSE \<or> t = SOCKET_ERR
        then ss\<lparr>ss_ev := take (ss_event_index ss) (ss_ev ss)
               @ clear_first (\<lambda>e. case ev_s e of None \<Rightarrow> False
                                  | Some k \<Rightarrow> s_type (ss_slot ss k) = SOCKET_TYPE_INVALID \<and> s_id (ss_slot ss k) = sm_id m)
                   (drop (ss_event_index ss) (ss_ev ss))\<rparr>
        else ss)"

text \<open>What a round of the loop does: the calls, whether it called \<^verbatim>\<open>sp_wait\<close>, and \<open>None\<close> when the loop
  goes on, \<open>Some None\<close> when it returns -1, and the event when it returns one.\<close>

type_synonym round_result = "c_error + (sys_call list \<times> bool \<times> ss_event option option \<times> socket_server)"

definition round_of :: "bool \<Rightarrow> server_result \<Rightarrow> round_result" where
  "round_of waited r = rbind r (\<lambda>(cs, e, ss). Inr (cs, waited, (case e of None \<Rightarrow> None | Some ev \<Rightarrow> Some (Some ev)), ss))"

definition event_type :: "ss_event option \<Rightarrow> ss_type option" where
  "event_type e = map_option fst e"

text \<open>The default case for an event at index \<open>j\<close>; the index has already been advanced.\<close>

definition read_event :: "os_answer \<Rightarrow> nat \<Rightarrow> nat \<Rightarrow> event \<Rightarrow> socket_server \<Rightarrow> server_result" where
  "read_event os j k e ss =
     (if s_protocol (ss_slot ss k) = PROTOCOL_TCP
      then on_slot k (forward_message_tcp (ss_soi ss) (os_read os)) ss
      else on_slot k (forward_message_udp (ss_soi ss) (os_recv os)) ss)"

definition after_read :: "nat \<Rightarrow> event \<Rightarrow> sock_protocol \<Rightarrow> ss_event option \<Rightarrow> socket_server \<Rightarrow> socket_server" where
  "after_read j e protocol r ss =
     (if protocol \<noteq> PROTOCOL_TCP \<and> event_type r = Some SOCKET_UDP then ss\<lparr>ss_event_index := j\<rparr>
      else if ev_write e \<and> event_type r \<noteq> Some SOCKET_CLOSE \<and> event_type r \<noteq> Some SOCKET_ERR
      then ss\<lparr>ss_event_index := j, ss_ev := (ss_ev ss)[j := e\<lparr>ev_read := False\<rparr>]\<rparr>
      else ss)"

definition handle_event :: "os_answer \<Rightarrow> nat \<Rightarrow> nat \<Rightarrow> event \<Rightarrow> socket_server \<Rightarrow> server_result" where
  "handle_event os j k e ss =
     (let s = ss_slot ss k
      in case s_type s of
           SOCKET_TYPE_CONNECTING \<Rightarrow> on_slot k (report_connect (ss_soi ss) (os_sockerr os) (os_peer os)) ss
         | SOCKET_TYPE_LISTEN \<Rightarrow> report_accept os k ss
         | SOCKET_TYPE_INVALID \<Rightarrow> Inr ([Sys_log (ascii ''socket-server: invalid socket'')], None, ss)
         | _ \<Rightarrow>
             if ev_read e
             then rbind (read_event os j k e ss) (\<lambda>(cs, r, ss1). Inr (cs, r, after_read j e (s_protocol s) r ss1))
             else if ev_write e
             then on_slot k (\<lambda>s. rbind (send_buffer (ss_soi ss) (os_locked os) (os_writes os) s) (\<lambda>(cs, r, s', ws). Inr (cs, r, s'))) ss
             else if ev_error e
             then on_slot k (\<lambda>s. close_with (ss_soi ss) s SOCKET_ERR
                               (Sm_text (case os_sockerr os of Some t \<Rightarrow> t | None \<Rightarrow> ascii ''Unknown error''))) ss
             else Inr ([], None, ss))"

definition next_event :: "os_answer \<Rightarrow> bool \<Rightarrow> socket_server \<Rightarrow> round_result" where
  "next_event os waited ss =
     (let j = ss_event_index ss
      in if length (ss_ev ss) \<le> j then Inl Out_of_bounds
         else let e = ss_ev ss ! j; ss1 = ss\<lparr>ss_event_index := j + 1\<rparr>
              in case ev_s e of
                   None \<Rightarrow> Inr ([], waited, None, ss1)
                 | Some k \<Rightarrow> round_of waited (handle_event os j k e ss1))"

definition event_part :: "os_answer \<Rightarrow> socket_server \<Rightarrow> round_result" where
  "event_part os ss =
     (if ss_event_index ss = length (ss_ev ss)
      then let ss1 = ss\<lparr>ss_checkctrl := True, ss_event_index := 0, ss_ev := []\<rparr>
           in (case os_wait os of
                 Wait_intr \<Rightarrow> Inr ([], True, None, ss1)
               | Wait_error \<Rightarrow> Inr ([], True, Some None, ss1)
               | Wait_events evs \<Rightarrow> if evs = [] then Inr ([], True, Some None, ss1) else next_event os True (ss1\<lparr>ss_ev := evs\<rparr>))
      else next_event os False ss)"

text \<open>A round is cut in two where other threads can put requests into the pipe: after the pipe was found
  empty, before the wait.\<close>

definition poll_round :: "os_answer \<Rightarrow> socket_server \<Rightarrow> round_result" where
  "poll_round os ss =
     (if ss_checkctrl ss
      then if ss_ctrl ss \<noteq> []
           then rbind (ctrl_cmd os ss) (\<lambda>(cs, e, ss1).
                  case e of None \<Rightarrow> Inr (cs, False, None, ss1)
                          | Some ev \<Rightarrow> Inr (cs, False, Some (Some ev), clear_closed_event ev ss1))
           else Inr ([], False, None, ss\<lparr>ss_checkctrl := False\<rparr>)
      else event_part os ss)"

text \<open>The loop: one answer of the system per round. It returns the event, or \<open>None\<close> for -1, and the flag
  \<^verbatim>\<open>more\<close>, which is cleared by \<^verbatim>\<open>sp_wait\<close>.\<close>

fun socket_server_poll :: "os_answer list \<Rightarrow> bool \<Rightarrow> socket_server \<Rightarrow> c_error + (sys_call list \<times> ss_event option \<times> bool \<times> socket_server)" where
  "socket_server_poll [] mr ss = Inl Diverges"
| "socket_server_poll (os # oss) mr ss =
     rbind (poll_round os ss) (\<lambda>(cs, waited, r, ss1).
       case r of
         Some e \<Rightarrow> Inr (cs, e, mr \<and> \<not> waited, ss1)
       | None \<Rightarrow> rbind (socket_server_poll oss (mr \<and> \<not> waited) ss1) (\<lambda>(cs', e, m, ss2). Inr (cs @ cs', e, m, ss2)))"

section \<open>The interface\<close>

definition send_request :: "socket_server \<Rightarrow> ctrl_request \<Rightarrow> socket_server" where
  "send_request ss r = ss\<lparr>ss_ctrl := ss_ctrl ss @ [r]\<rparr>"

type_synonym api_result = "c_error + (sys_call list \<times> int \<times> socket_server)"

text \<open>A structure \<^verbatim>\<open>request_open\<close> has 24 bytes, and the length of a request must fit a byte.\<close>

definition open_request :: "socket_server \<Rightarrow> cstring \<Rightarrow> sys_call list \<times> int \<times> socket_server" where
  "open_request ss addr =
     (if 256 \<le> length addr + 24 then ([Sys_log (ascii ''socket-server : Invalid addr '' @ addr @ ascii ''.'')], - 1, ss)
      else case reserve_id ss of (i, ss1) \<Rightarrow> if i < 0 then ([], - 1, ss1) else ([], i, ss1))"

definition socket_server_connect :: "socket_server \<Rightarrow> u64 \<Rightarrow> cstring \<Rightarrow> int \<Rightarrow> api_result" where
  "socket_server_connect ss opaque addr port =
     (case open_request ss addr of
        (cs, i, ss1) \<Rightarrow> if i < 0 then Inr (cs, - 1, ss1) else Inr (cs, i, send_request ss1 (Req_open i port opaque addr)))"

text \<open>\<open>n\<close> is the result of \<^verbatim>\<open>write\<close> or \<^verbatim>\<open>sendto\<close> if it is called, \<open>locked\<close> whether another thread has the lock.\<close>

definition socket_server_send :: "bool \<Rightarrow> int \<Rightarrow> socket_server \<Rightarrow> int \<Rightarrow> send_data \<Rightarrow> api_result" where
  "socket_server_send locked n ss i d =
     (let s = sock_at ss i
      in if s_id s \<noteq> i \<or> s_type s = SOCKET_TYPE_INVALID then rbind (free_buffer (ss_soi ss) d) (\<lambda>cs. Inr (cs, - 1, ss))
         else if can_direct_write s i \<and> \<not> locked
         then rbind (direct_write (ss_soi ss) n s d) (\<lambda>(cs, s'). Inr (cs, 0, set_slot ss (HASH_ID i) s'))
         else Inr ([], 0, send_request ss (Req_send PRIORITY_HIGH i d)))"

definition socket_server_send_lowpriority :: "socket_server \<Rightarrow> int \<Rightarrow> send_data \<Rightarrow> api_result" where
  "socket_server_send_lowpriority ss i d =
     (let s = sock_at ss i
      in if s_id s \<noteq> i \<or> s_type s = SOCKET_TYPE_INVALID then rbind (free_buffer (ss_soi ss) d) (\<lambda>cs. Inr (cs, - 1, ss))
         else Inr ([], 0, send_request ss (Req_send PRIORITY_LOW i d)))"

definition socket_server_exit :: "socket_server \<Rightarrow> socket_server" where
  "socket_server_exit ss = send_request ss Req_exit"

definition socket_server_close :: "socket_server \<Rightarrow> u64 \<Rightarrow> int \<Rightarrow> socket_server" where
  "socket_server_close ss opaque i = send_request ss (Req_close i False opaque)"

definition socket_server_shutdown :: "socket_server \<Rightarrow> u64 \<Rightarrow> int \<Rightarrow> socket_server" where
  "socket_server_shutdown ss opaque i = send_request ss (Req_close i True opaque)"

text \<open>The calls of \<^verbatim>\<open>do_bind\<close>: the address family found, the new socket, whether it can be reused and
  bound. The result is the socket or -1.\<close>

record bind_answer =
  ba_family :: "bool option"
  ba_socket :: int
  ba_reuse :: bool
  ba_bind :: bool

definition do_bind :: "bind_answer \<Rightarrow> sys_call list \<times> int \<times> bool" where
  "do_bind b =
     (case ba_family b of
        None \<Rightarrow> ([], - 1, False)
      | Some v6 \<Rightarrow> if ba_socket b < 0 then ([], - 1, v6)
                   else if \<not> ba_reuse b \<or> \<not> ba_bind b then ([Sys_close (ba_socket b)], - 1, v6)
                   else ([], ba_socket b, v6))"

definition do_listen :: "bind_answer \<Rightarrow> bool \<Rightarrow> sys_call list \<times> int" where
  "do_listen b listens =
     (case do_bind b of
        (cs, fd, v6) \<Rightarrow> if fd < 0 then (cs, - 1) else if listens then (cs, fd) else (cs @ [Sys_close fd], - 1))"

definition socket_server_listen :: "bind_answer \<Rightarrow> bool \<Rightarrow> socket_server \<Rightarrow> u64 \<Rightarrow> api_result" where
  "socket_server_listen b listens ss opaque =
     (case do_listen b listens of
        (cs, fd) \<Rightarrow> if fd < 0 then Inr (cs, - 1, ss)
                    else case reserve_id ss of
                           (i, ss1) \<Rightarrow> if i < 0 then Inr (cs @ [Sys_close fd], i, ss1)
                                       else Inr (cs, i, send_request ss1 (Req_listen i fd opaque)))"

definition socket_server_bind :: "socket_server \<Rightarrow> u64 \<Rightarrow> int \<Rightarrow> api_result" where
  "socket_server_bind ss opaque fd =
     (case reserve_id ss of (i, ss1) \<Rightarrow> if i < 0 then Inr ([], - 1, ss1) else Inr ([], i, send_request ss1 (Req_bind i fd opaque)))"

definition socket_server_start :: "socket_server \<Rightarrow> u64 \<Rightarrow> int \<Rightarrow> socket_server" where
  "socket_server_start ss opaque i = send_request ss (Req_start i opaque)"

definition TCP_NODELAY :: int where "TCP_NODELAY = 1"

definition socket_server_nodelay :: "socket_server \<Rightarrow> int \<Rightarrow> socket_server" where
  "socket_server_nodelay ss i = send_request ss (Req_setopt i TCP_NODELAY 1)"

text \<open>\<open>bound\<close>: an address or a port is given and the socket is bound to it.\<close>

definition socket_server_udp :: "bool \<Rightarrow> bind_answer \<Rightarrow> socket_server \<Rightarrow> u64 \<Rightarrow> api_result" where
  "socket_server_udp bound b ss opaque =
     (case (if bound then do_bind b else ([], ba_socket b, False)) of
        (cs, fd, v6) \<Rightarrow>
          if fd < 0 then Inr (cs, - 1, ss)
          else case reserve_id ss of
                 (i, ss1) \<Rightarrow> if i < 0 then Inr (cs @ [Sys_close fd], - 1, ss1)
                             else Inr (cs, i, send_request ss1 (Req_udp i fd v6 opaque)))"

definition socket_server_udp_send :: "bool \<Rightarrow> int \<Rightarrow> socket_server \<Rightarrow> int \<Rightarrow> byte list \<Rightarrow> send_data \<Rightarrow> api_result" where
  "socket_server_udp_send locked n ss i a d =
     (let s = sock_at ss i
      in if s_id s \<noteq> i \<or> s_type s = SOCKET_TYPE_INVALID \<or> (a ! 0 \<noteq> protocol_code PROTOCOL_UDP \<and> a ! 0 \<noteq> protocol_code PROTOCOL_UDPv6)
         then rbind (free_buffer (ss_soi ss) d) (\<lambda>cs. Inr (cs, - 1, ss))
         else let addrsz = (if a ! 0 = protocol_code PROTOCOL_UDP then 7 else 19);
                  later = Inr ([], 0, send_request ss (Req_send_udp i d (take addrsz a)))
              in if can_direct_write s i \<and> \<not> locked
                 then rbind (send_object_init (ss_soi ss) d) (\<lambda>(p, bs, user).
                        if 0 \<le> n
                        then Inr ([Sys_sendto (s_fd s) bs (udp_socket_address (s_protocol s) a), Sys_free (data_addr d)], 0, ss)
                        else later)
                 else later)"

text \<open>\<open>gai\<close>: the address that was found, if any.\<close>

definition socket_server_udp_connect :: "sockaddr option \<Rightarrow> socket_server \<Rightarrow> int \<Rightarrow> api_result" where
  "socket_server_udp_connect gai ss i =
     (let s = sock_at ss i
      in if s_id s \<noteq> i \<or> s_type s = SOCKET_TYPE_INVALID then Inr ([], - 1, ss)
         else let ss1 = set_slot ss (HASH_ID i) (s\<lparr>s_udpconnecting := s_udpconnecting s + 1\<rparr>)
              in case gai of
                   None \<Rightarrow> Inr ([], - 1, ss1)
                 | Some sa \<Rightarrow> Inr ([], 0, send_request ss1 (Req_setudp i (gen_udp_address sa))))"

definition socket_server_udp_address :: "byte list \<Rightarrow> int \<Rightarrow> (byte list) option" where
  "socket_server_udp_address data ud =
     (let a = drop (nat ud) data
      in if a ! 0 = protocol_code PROTOCOL_UDP then Some (take 7 a)
         else if a ! 0 = protocol_code PROTOCOL_UDPv6 then Some (take 19 a) else None)"

primrec release_slots :: "nat \<Rightarrow> socket_server \<Rightarrow> c_error + (sys_call list \<times> socket_server)" where
  "release_slots 0 ss = Inr ([], ss)"
| "release_slots (Suc n) ss =
     rbind (release_slots n ss) (\<lambda>(cs, ss1).
       let s = ss_slot ss1 n
       in if s_type s \<noteq> SOCKET_TYPE_RESERVE
          then rbind (force_close (ss_soi ss1) s) (\<lambda>(cs', m, s'). Inr (cs @ cs', set_slot ss1 n s'))
          else Inr (cs, ss1))"

definition socket_server_release :: "socket_server \<Rightarrow> c_error + sys_call list" where
  "socket_server_release ss = rbind (release_slots MAX_SOCKET ss) (\<lambda>(cs, ss1). Inr cs)"

end
