(* ===== verification/Socket_Stream.thy ===== *)
theory Socket_Stream
  imports Socket_Server
begin

text \<open>
  What a socket writes. The specification is a byte stream: the messages that a socket has
  accepted, those of each priority in the order they were accepted, and none of them cut by another.
\<close>

section \<open>Accounting\<close>

definition wb_total :: "wb_list \<Rightarrow> int" where
  "wb_total l = int (sum_list (map (length \<circ> wb_data) l))"

lemma wb_total_simps [simp]: "wb_total [] = 0" "wb_total (wb # l) = int (length (wb_data wb)) + wb_total l" "wb_total (l @ l') = wb_total l + wb_total l'"
  by (simp_all add: wb_total_def)

text \<open>The bytes that a list of calls writes to a socket.\<close>

fun written :: "int \<Rightarrow> sys_call list \<Rightarrow> byte list" where
  "written fd [] = []"
| "written fd (Sys_write fd' bs # cs) = (if fd' = fd then bs else []) @ written fd cs"
| "written fd (_ # cs) = written fd cs"

lemma written_append [simp]: "written fd (cs @ cs') = written fd cs @ written fd cs'"
  by (induction fd cs rule: written.induct) simp_all

lemma written_free [simp]: "written fd (free_wb_list l) = []"
  by (induction l) (simp_all add: free_wb_list_def)

abbreviation wb_bytes :: "wb_list \<Rightarrow> byte list" where
  "wb_bytes l \<equiv> concat (map wb_data l)"

lemma wb_of_set [simp]:
  "wb_of p (set_wb p l s) = l" "wb_of p (s\<lparr>s_wb_size := n\<rparr>) = wb_of p s"
  by (cases p; simp add: wb_of_def set_wb_def)+

lemma is_close_simps [simp]: "\<not> is_close None" "is_close (Some (t, m)) = (t = SOCKET_CLOSE)"
  by (simp_all add: is_close_def split: ss_type.splits)

definition other :: "sock_priority \<Rightarrow> sock_priority" where
  "other p = (case p of PRIORITY_HIGH \<Rightarrow> PRIORITY_LOW | PRIORITY_LOW \<Rightarrow> PRIORITY_HIGH)"

text \<open>What a function that writes leaves alone, apart from the lists.\<close>

definition same_socket :: "socket \<Rightarrow> socket \<Rightarrow> bool" where
  "same_socket s s' \<longleftrightarrow> s_fd s' = s_fd s \<and> s_id s' = s_id s \<and> s_type s' = s_type s \<and> s_protocol s' = s_protocol s
     \<and> s_opaque s' = s_opaque s \<and> s_dw s' = s_dw s \<and> s_udpconnecting s' = s_udpconnecting s \<and> s_warn_size s' = s_warn_size s
     \<and> s_size s' = s_size s"

lemma same_socket_refl [simp]: "same_socket s s"
  by (simp add: same_socket_def)

lemma same_socket_trans: "same_socket s s1 \<Longrightarrow> same_socket s1 s2 \<Longrightarrow> same_socket s s2"
  by (simp add: same_socket_def)

lemma same_socket_set [simp]: "same_socket s (set_wb p l s)" "same_socket s (set_wb p l (s\<lparr>s_wb_size := n\<rparr>))"
  by (cases p; simp add: same_socket_def set_wb_def)+

text \<open>What is sent of a list: whole buffers and a part of the next one.\<close>

inductive chopped :: "wb_list \<Rightarrow> byte list \<Rightarrow> wb_list \<Rightarrow> bool" where
  none: "chopped l [] l"
| part: "n < length (wb_data wb) \<Longrightarrow> chopped (wb # l) (take n (wb_data wb)) (wb\<lparr>wb_ptr := wb_ptr wb + n, wb_data := drop n (wb_data wb)\<rparr> # l)"
| whole: "chopped l w l' \<Longrightarrow> chopped (wb # l) (wb_data wb @ w) l'"

lemma chopped_bytes: "chopped l w l' \<Longrightarrow> wb_bytes l = w @ wb_bytes l'"
  by (induction rule: chopped.induct) (simp_all flip: append_assoc)

lemma chopped_total: "chopped l w l' \<Longrightarrow> wb_total l = int (length w) + wb_total l'"
  by (induction rule: chopped.induct) auto

lemma tcp_steps:
  "wb_of p s = [] \<Longrightarrow> send_list_tcp soi ws p s = Inr ([], None, s, ws)"
  "wb_of p s = tmp # rest \<Longrightarrow> send_list_tcp soi [] p s = Inl Diverges"
  "wb_of p s = tmp # rest \<Longrightarrow> send_list_tcp soi (W_intr # ws) p s = send_list_tcp soi ws p s"
  "wb_of p s = tmp # rest \<Longrightarrow> send_list_tcp soi (W_again # ws) p s = Inr ([], None, s, ws)"
  "wb_of p s = tmp # rest \<Longrightarrow> send_list_tcp soi (W_error # ws) p s = rbind (force_close soi s) (\<lambda>(cs, m, s'). Inr (cs, Some (SOCKET_CLOSE, m), s', ws))"
  "wb_of p s = tmp # rest \<Longrightarrow> k < length (wb_data tmp) \<Longrightarrow> send_list_tcp soi (W_sent k # ws) p s =
     Inr ([Sys_write (s_fd s) (take k (wb_data tmp))], None,
       set_wb p (tmp\<lparr>wb_ptr := wb_ptr tmp + k, wb_data := drop k (wb_data tmp)\<rparr> # rest) (s\<lparr>s_wb_size := s_wb_size s - int k\<rparr>), ws)"
  "wb_of p s = tmp # rest \<Longrightarrow> length (wb_data tmp) \<le> k \<Longrightarrow> send_list_tcp soi (W_sent k # ws) p s =
     add_calls [Sys_write (s_fd s) (wb_data tmp), Sys_free (wb_buffer tmp)]
       (send_list_tcp soi ws p (set_wb p rest (s\<lparr>s_wb_size := s_wb_size s - int (length (wb_data tmp))\<rparr>)))"
  by (subst send_list_tcp.simps; simp add: min_def)+

lemma wb_of_other [simp]: "wb_of (other p) (set_wb p l s) = wb_of (other p) s"
  by (cases p) (simp_all add: wb_of_def set_wb_def other_def)

lemma set_wb_fields [simp]: "s_fd (set_wb p l s) = s_fd s" "s_wb_size (set_wb p l s) = s_wb_size s" "s_type (set_wb p l s) = s_type s"
  "s_id (set_wb p l s) = s_id s" "s_protocol (set_wb p l s) = s_protocol s" "s_dw (set_wb p l s) = s_dw s"
  by (cases p; simp add: set_wb_def)+

lemma add_calls_Inr: "add_calls cs r = Inr (cs', e, s, ws) \<longleftrightarrow> (\<exists>cs2. r = Inr (cs2, e, s, ws) \<and> cs' = cs @ cs2)"
  by (auto simp: add_calls_def rbind_eq_Inr)

lemma send_list_tcp_writes:
  assumes "send_list_tcp soi ws p s = Inr (cs, e, s', ws')" "\<not> is_close e"
  shows "e = None \<and> same_socket s s' \<and> wb_of (other p) s' = wb_of (other p) s \<and> chopped (wb_of p s) (written (s_fd s) cs) (wb_of p s')
     \<and> s_wb_size s' = s_wb_size s - int (length (written (s_fd s) cs))"
  using assms
proof (induction ws arbitrary: s cs)
  case Nil
  then show ?case by (cases "wb_of p s") (auto simp: tcp_steps intro: chopped.none)
next
  case (Cons w ws)
  show ?case
  proof (cases "wb_of p s")
    case Nil
    then show ?thesis using Cons.prems by (auto simp: tcp_steps intro: chopped.none)
  next
    case l: (Cons tmp rest)
    show ?thesis
    proof (cases w)
      case (W_sent k)
      show ?thesis
      proof (cases "k < length (wb_data tmp)")
        case True
        then show ?thesis using Cons.prems W_sent tcp_steps(6) [OF l True] chopped.part [OF True] l by auto
      next
        case False
        let ?s = "set_wb p rest (s\<lparr>s_wb_size := s_wb_size s - int (length (wb_data tmp))\<rparr>)"
        obtain cs2 where cs: "send_list_tcp soi ws p ?s = Inr (cs2, e, s', ws')" "cs = [Sys_write (s_fd s) (wb_data tmp), Sys_free (wb_buffer tmp)] @ cs2"
          using Cons.prems(1) W_sent tcp_steps(7) [OF l, of k] False by (auto simp: add_calls_Inr)
        have h: "e = None \<and> same_socket ?s s' \<and> wb_of (other p) s' = wb_of (other p) ?s \<and> chopped (wb_of p ?s) (written (s_fd ?s) cs2) (wb_of p s')
            \<and> s_wb_size s' = s_wb_size ?s - int (length (written (s_fd ?s) cs2))"
          using Cons.IH [OF cs(1) Cons.prems(2)] .
        then have "chopped (wb_of p s) (written (s_fd s) cs) (wb_of p s')" using cs(2) chopped.whole l by auto
        moreover have "same_socket s s'" using same_socket_trans same_socket_set(2) h by blast
        moreover have "wb_of (other p) s' = wb_of (other p) s" using h by (cases p) (simp_all add: other_def wb_of_def set_wb_def)
        ultimately show ?thesis using h cs(2) by simp
      qed
    next
      case W_intr
      then have "send_list_tcp soi ws p s = Inr (cs, e, s', ws')" using Cons.prems(1) by (simp add: tcp_steps(3) [OF l])
      then show ?thesis using Cons.IH Cons.prems(2) by blast
    qed (use Cons l in \<open>auto simp: tcp_steps rbind_eq_Inr is_close_def intro: chopped.none\<close>)
  qed
qed

section \<open>The stream of a TCP socket\<close>

text \<open>The messages still to be written, in the order they go if no more are accepted: the rest of a
  direct write, the high list, the low list. A message of an unregistered object has no bytes.\<close>

definition bytes_of :: "soi \<Rightarrow> send_data \<Rightarrow> byte list" where
  "bytes_of soi d = (case send_object_init soi d of Inl _ \<Rightarrow> [] | Inr (p, bs, user) \<Rightarrow> bs)"

definition dw_bytes :: "soi \<Rightarrow> socket \<Rightarrow> byte list" where
  "dw_bytes soi s = (case s_dw s of None \<Rightarrow> [] | Some (d, off) \<Rightarrow> drop off (bytes_of soi d))"

definition pending :: "soi \<Rightarrow> socket \<Rightarrow> byte list" where
  "pending soi s = dw_bytes soi s @ wb_bytes (s_high s) @ wb_bytes (s_low s)"

text \<open>The life of a TCP socket from the moment it is set up: the high and low messages it accepted
  and the bytes it wrote. A worker writes directly, the socket thread accepts the requests of both
  priorities, writes when the socket is writable, reads, and learns that the socket is connected.\<close>

definition accepts :: "socket \<Rightarrow> bool" where
  "accepts s \<longleftrightarrow> s_type s \<in> {SOCKET_TYPE_CONNECTING, SOCKET_TYPE_CONNECTED, SOCKET_TYPE_BIND}"

inductive stream_run :: "soi \<Rightarrow> byte list list \<Rightarrow> byte list list \<Rightarrow> byte list \<Rightarrow> socket \<Rightarrow> bool" for soi where
  start: "s_protocol s = PROTOCOL_TCP \<Longrightarrow> s_high s = [] \<Longrightarrow> s_low s = [] \<Longrightarrow> s_dw s = None \<Longrightarrow> s_wb_size s = 0 \<Longrightarrow> stream_run soi [] [] [] s"
| direct: "stream_run soi hs ls w s \<Longrightarrow> can_direct_write s i \<Longrightarrow> direct_write soi n s d = Inr (cs, s')
    \<Longrightarrow> stream_run soi (hs @ [bytes_of soi d]) ls (w @ written (s_fd s) cs) s'"
| high: "stream_run soi hs ls w s \<Longrightarrow> accepts s \<Longrightarrow> send_socket soi n (s_id s) s d PRIORITY_HIGH None = Inr (cs, e, s')
    \<Longrightarrow> stream_run soi (hs @ [bytes_of soi d]) ls (w @ written (s_fd s) cs) s'"
| low: "stream_run soi hs ls w s \<Longrightarrow> accepts s \<Longrightarrow> send_socket soi n (s_id s) s d PRIORITY_LOW None = Inr (cs, e, s')
    \<Longrightarrow> stream_run soi hs (ls @ [bytes_of soi d]) (w @ written (s_fd s) cs) s'"
| writable: "stream_run soi hs ls w s \<Longrightarrow> send_buffer soi locked ws s = Inr (cs, e, s', ws') \<Longrightarrow> \<not> is_close e
    \<Longrightarrow> stream_run soi hs ls (w @ written (s_fd s) cs) s'"
| connect: "stream_run soi hs ls w s \<Longrightarrow> report_connect soi None peer s = Inr (cs, e, s') \<Longrightarrow> stream_run soi hs ls (w @ written (s_fd s) cs) s'"
| read: "stream_run soi hs ls w s \<Longrightarrow> forward_message_tcp soi (R_bytes bs) s = Inr (cs, e, s') \<Longrightarrow> bs \<noteq> []
    \<Longrightarrow> stream_run soi hs ls (w @ written (s_fd s) cs) s'"
| half: "stream_run soi hs ls w s \<Longrightarrow> close_socket soi locked ws (s_id s) False opaque s = Inr (cs, None, s')
    \<Longrightarrow> stream_run soi hs ls (w @ written (s_fd s) cs) s'"

text \<open>The invariant: the low messages that are still in the low list are whole, the others and the high
  ones make up what has been written and what goes first.\<close>

definition dw_valid :: "soi \<Rightarrow> socket \<Rightarrow> bool" where
  "dw_valid soi s \<longleftrightarrow> (case s_dw s of None \<Rightarrow> True | Some (d, off) \<Rightarrow> \<exists>x. send_object_init soi d = Inr x)"

definition stream_inv :: "soi \<Rightarrow> byte list list \<Rightarrow> byte list list \<Rightarrow> byte list \<Rightarrow> socket \<Rightarrow> bool" where
  "stream_inv soi hs ls w s \<longleftrightarrow> s_protocol s = PROTOCOL_TCP \<and> dw_valid soi s \<and> s_wb_size s = wb_total (s_high s) + wb_total (s_low s) \<and>
     (\<exists>order lows. order \<in> shuffles hs lows \<and> ls = lows @ map wb_data (s_low s) \<and> w @ dw_bytes soi s @ wb_bytes (s_high s) = concat order)"

lemma stream_invI:
  "s_protocol s = PROTOCOL_TCP \<Longrightarrow> dw_valid soi s \<Longrightarrow> s_wb_size s = wb_total (s_high s) + wb_total (s_low s) \<Longrightarrow> order \<in> shuffles hs lows \<Longrightarrow>
   ls = lows @ map wb_data (s_low s) \<Longrightarrow> w @ dw_bytes soi s @ wb_bytes (s_high s) = concat order \<Longrightarrow> stream_inv soi hs ls w s"
  by (auto simp: stream_inv_def)

lemma shuffles_snoc_left: "xs \<in> shuffles a b \<Longrightarrow> xs @ [x] \<in> shuffles (a @ [x]) b"
proof (induction a b arbitrary: xs rule: shuffles.induct)
  case (1 b)
  then show ?case by (induction b arbitrary: xs) (auto simp: Cons_in_shuffles_iff)
qed (auto simp: Cons_in_shuffles_iff)

lemma shuffles_snoc_right: "xs \<in> shuffles a b \<Longrightarrow> xs @ [x] \<in> shuffles a (b @ [x])"
  unfolding shuffles_commutes [of a] by (rule shuffles_snoc_left)

lemma shuffles_append_right: "xs \<in> shuffles a b \<Longrightarrow> xs @ c \<in> shuffles a (b @ c)"
proof (induction c arbitrary: xs b)
  case (Cons x c)
  then show ?case using shuffles_snoc_right [OF Cons.prems] Cons.IH [of "xs @ [x]" "b @ [x]"] by simp
qed simp

lemma stream_inv_idle:
  assumes "stream_inv soi hs ls w s" "nomore_send_data s"
  shows "s_wb_size s = 0 \<and> (\<exists>order. order \<in> shuffles hs ls \<and> w = concat order)"
  using assms by (auto simp: stream_inv_def nomore_send_data_def send_buffer_empty_def dw_bytes_def dw_valid_def)

lemma direct_inv:
  assumes "stream_inv soi hs ls w s" "can_direct_write s i" "direct_write soi n s d = Inr (cs, s')"
  shows "stream_inv soi (hs @ [bytes_of soi d]) ls (w @ written (s_fd s) cs) s'"
proof -
  have idle: "nomore_send_data s" "s_high s = []" "s_low s = []" "s_dw s = None"
    using assms(2) by (simp_all add: can_direct_write_def nomore_send_data_def send_buffer_empty_def)
  obtain order where order: "order \<in> shuffles hs ls" "w = concat order" "s_wb_size s = 0" using stream_inv_idle [OF assms(1) idle(1)] by auto
  obtain p user where d: "send_object_init soi d = Inr (p, bytes_of soi d, user)"
    using assms(3) by (auto simp: direct_write_def bytes_of_def rbind_eq_Inr)
  have tcp: "s_protocol s = PROTOCOL_TCP" using assms(1) by (simp add: stream_inv_def)
  have "written (s_fd s) cs @ dw_bytes soi s' = bytes_of soi d \<and> dw_valid soi s' \<and> s_protocol s' = s_protocol s \<and> s_high s' = [] \<and> s_low s' = [] \<and> s_wb_size s' = 0"
    using assms(3) d tcp idle order(3) by (auto simp: direct_write_def Let_def dw_bytes_def dw_valid_def split: if_splits)
  then show ?thesis using shuffles_snoc_left [OF order(1), of "bytes_of soi d"] order(2) tcp by (auto simp: stream_inv_def)
qed

lemma append_buffer_eq:
  "append_buffer soi p d a s = Inr s' \<longleftrightarrow>
   (\<exists>ptr user. send_object_init soi d = Inr (ptr, bytes_of soi d, user) \<and>
      s' = set_wb p (wb_of p s @ [\<lparr>wb_buffer = data_addr d, wb_ptr = ptr, wb_data = bytes_of soi d, wb_userobject = user, wb_udp_address = a\<rparr>])
             (s\<lparr>s_wb_size := s_wb_size s + int (length (bytes_of soi d))\<rparr>))"
  by (cases "send_object_init soi d") (auto simp: append_buffer_def new_write_buffer_def bytes_of_def)

lemma append_high_inv:
  assumes "stream_inv soi hs ls w s" "append_buffer soi PRIORITY_HIGH d a s = Inr s'"
  shows "stream_inv soi (hs @ [bytes_of soi d]) ls w s'"
  using assms shuffles_snoc_left by (force simp: stream_inv_def append_buffer_eq set_wb_def wb_of_def dw_bytes_def dw_valid_def)

lemma append_low_inv:
  assumes "stream_inv soi hs ls w s" "append_buffer soi PRIORITY_LOW d a s = Inr s'"
  shows "stream_inv soi hs (ls @ [bytes_of soi d]) w s'"
  using assms by (force simp: stream_inv_def append_buffer_eq set_wb_def wb_of_def dw_bytes_def dw_valid_def)

lemma append_raised_inv:
  assumes "stream_inv soi hs ls w s" "append_buffer soi PRIORITY_HIGH d a s = Inr s'" "s_low s = []"
  shows "stream_inv soi hs (ls @ [bytes_of soi d]) w s'"
  using assms shuffles_snoc_right by (force simp: stream_inv_def append_buffer_eq set_wb_def wb_of_def dw_bytes_def dw_valid_def)

lemma warn_inv [simp]: "stream_inv soi hs ls w (snd (send_warning s)) = stream_inv soi hs ls w s"
  by (simp add: send_warning_def stream_inv_def dw_bytes_def dw_valid_def)

definition list_for :: "sock_priority \<Rightarrow> socket \<Rightarrow> sock_priority" where
  "list_for p s = (if send_buffer_empty s \<and> s_type s = SOCKET_TYPE_CONNECTED then PRIORITY_HIGH else p)"

lemma queue_data_tcp:
  "s_protocol s = PROTOCOL_TCP \<Longrightarrow> queue_data soi n s d p None =
     rbind (append_buffer soi (list_for p s) d None s)
       (\<lambda>s1. Inr (if send_buffer_empty s \<and> s_type s = SOCKET_TYPE_CONNECTED then [Sp_write (s_fd s) True] else [], True, s1))"
  by (cases p) (simp_all add: queue_data_def list_for_def append_sendbuffer_def append_sendbuffer_low_def Let_def)

lemma send_socket_tcp:
  assumes "send_socket soi n (s_id s) s d p None = Inr (cs, e, s')" "accepts s" "s_protocol s = PROTOCOL_TCP"
  obtains s1 where "append_buffer soi (list_for p s) d None s = Inr s1" "s' = snd (send_warning s1)" "written (s_fd s) cs = []"
proof -
  obtain x s1 where "append_buffer soi (list_for p s) d None s = Inr s1" "(case send_warning s1 of (e, s2) \<Rightarrow> Inr (x, e, s2)) = (Inr (cs, e, s') :: sock_result)"
    "written (s_fd s) x = []"
    using assms unfolding send_socket_def queue_data_tcp [OF assms(3)] by (auto simp: accepts_def rbind_eq_Inr)
  then show ?thesis by (intro that [of s1]) (auto split: prod.splits)
qed

lemma send_socket_inv:
  assumes "stream_inv soi hs ls w s" "accepts s" "send_socket soi n (s_id s) s d p None = Inr (cs, e, s')"
  shows "stream_inv soi (if p = PRIORITY_HIGH then hs @ [bytes_of soi d] else hs) (if p = PRIORITY_LOW then ls @ [bytes_of soi d] else ls)
           (w @ written (s_fd s) cs) s'"
proof -
  have tcp: "s_protocol s = PROTOCOL_TCP" using assms(1) by (simp add: stream_inv_def)
  obtain s1 where s: "append_buffer soi (list_for p s) d None s = Inr s1" "s' = snd (send_warning s1)" "written (s_fd s) cs = []"
    using send_socket_tcp [OF assms(3,2) tcp] .
  show ?thesis
  proof (cases p)
    case PRIORITY_HIGH
    then have "list_for p s = PRIORITY_HIGH" by (simp add: list_for_def)
    then show ?thesis using s append_high_inv [OF assms(1)] PRIORITY_HIGH by simp
  next
    case PRIORITY_LOW
    show ?thesis
    proof (cases "list_for p s")
      case PRIORITY_HIGH
      then have "s_low s = []" using PRIORITY_LOW by (auto simp: list_for_def send_buffer_empty_def split: if_splits)
      then show ?thesis using s append_raised_inv [OF assms(1)] PRIORITY_HIGH PRIORITY_LOW by simp
    qed (use s append_low_inv [OF assms(1)] PRIORITY_LOW in simp)
  qed
qed

lemma take_direct_inv:
  assumes "stream_inv soi hs ls w s" "take_direct soi s = Inr s'"
  shows "stream_inv soi hs ls w s' \<and> s_dw s' = None \<and> s_fd s' = s_fd s \<and> s_type s' = s_type s \<and> s_id s' = s_id s"
proof (cases "s_dw s")
  case None
  then show ?thesis using assms by (simp add: take_direct_def)
next
  case (Some x)
  obtain d off where x: "x = (d, off)" by fastforce
  obtain p user where d: "send_object_init soi d = Inr (p, bytes_of soi d, user)"
    using assms(2) Some x by (cases "send_object_init soi d") (auto simp: take_direct_def bytes_of_def)
  have s': "s' = s\<lparr>s_wb_size := s_wb_size s + int (length (drop off (bytes_of soi d))),
      s_high := \<lparr>wb_buffer = data_addr d, wb_ptr = p + off, wb_data = drop off (bytes_of soi d), wb_userobject = user, wb_udp_address = None\<rparr> # s_high s, s_dw := None\<rparr>"
    using assms(2) Some x d by (simp add: take_direct_def Let_def)
  show ?thesis unfolding s' using assms(1) Some x by (simp add: stream_inv_def dw_bytes_def dw_valid_def)
qed

lemma high_written_inv:
  assumes "stream_inv soi hs ls w s" "s_dw s = None" "same_socket s s'" "s_low s' = s_low s" "chopped (s_high s) u (s_high s')"
    "s_wb_size s' = s_wb_size s - int (length u)"
  shows "stream_inv soi hs ls (w @ u) s'"
proof -
  have "wb_bytes (s_high s) = u @ wb_bytes (s_high s')" "wb_total (s_high s) = int (length u) + wb_total (s_high s')"
    using chopped_bytes chopped_total assms(5) by blast+
  then show ?thesis using assms by (auto simp: stream_inv_def same_socket_def dw_bytes_def dw_valid_def)
qed

text \<open>What is sent of the low list: whole messages, and at most one in part, which is then the first.\<close>

lemma chopped_split:
  assumes "chopped l u l'"
  shows "\<exists>full. (map wb_data l = full @ map wb_data l' \<and> u = concat full)
    \<or> (\<exists>wb l0 x. l' = wb # l0 \<and> map wb_data l = full @ x # map wb_data l0 \<and> u @ wb_data wb = concat full @ x)"
  using assms
proof (induction rule: chopped.induct)
  case (none l)
  then show ?case by (intro exI [of _ "[]"]) simp
next
  case (part n wb l)
  show ?case by (intro exI [of _ "[]"] disjI2) simp
next
  case (whole l w l' wb)
  then obtain full where "(map wb_data l = full @ map wb_data l' \<and> w = concat full)
    \<or> (\<exists>wb l0 x. l' = wb # l0 \<and> map wb_data l = full @ x # map wb_data l0 \<and> w @ wb_data wb = concat full @ x)" by blast
  then show ?case by (intro exI [of _ "wb_data wb # full"]) auto
qed

lemma low_written_inv:
  assumes inv: "stream_inv soi hs ls w s" and s: "s_dw s = None" "s_high s = []" "same_socket s s1" "s_high s1 = []"
    and c: "chopped (s_low s) u (s_low s1)" "s_wb_size s1 = s_wb_size s - int (length u)"
  shows "(map wb_data (s_low s) = full @ map wb_data (s_low s1) \<and> u = concat full \<longrightarrow> stream_inv soi hs ls (w @ u) s1)"
    and "s_low s1 = wb # l0 \<Longrightarrow> map wb_data (s_low s) = full @ x # map wb_data l0 \<Longrightarrow> u @ wb_data wb = concat full @ x \<Longrightarrow>
         stream_inv soi hs ls (w @ u) (s1\<lparr>s_low := l0, s_high := [wb]\<rparr>)"
proof -
  obtain order lows where o: "order \<in> shuffles hs lows" "ls = lows @ map wb_data (s_low s)" "w = concat order" "s_wb_size s = wb_total (s_low s)"
    "s_protocol s = PROTOCOL_TCP"
    using inv s(1,2) by (auto simp: stream_inv_def dw_bytes_def dw_valid_def)
  have t: "wb_total (s_low s) = int (length u) + wb_total (s_low s1)" using chopped_total [OF c(1)] .
  have s1: "s_dw s1 = None" "s_protocol s1 = PROTOCOL_TCP" using s(1,3) o(5) by (simp_all add: same_socket_def)
  show "map wb_data (s_low s) = full @ map wb_data (s_low s1) \<and> u = concat full \<longrightarrow> stream_inv soi hs ls (w @ u) s1"
    using o t s1 s(4) c(2) shuffles_append_right [OF o(1), of full]
    by (auto simp: dw_bytes_def dw_valid_def intro: stream_invI [of s1 soi "order @ full" hs "lows @ full"])
  assume l: "s_low s1 = wb # l0" "map wb_data (s_low s) = full @ x # map wb_data l0" "u @ wb_data wb = concat full @ x"
  have "w @ u @ wb_data wb = concat (order @ full @ [x])" using o(3) l(3) by simp
  then show "stream_inv soi hs ls (w @ u) (s1\<lparr>s_low := l0, s_high := [wb]\<rparr>)"
    using o(2,4) t s1 l(1,2) c(2) shuffles_append_right [OF o(1), of "full @ [x]"]
    by (intro stream_invI [of _ soi "order @ full @ [x]" hs "lows @ full @ [x]"]) (simp_all add: dw_bytes_def dw_valid_def)
qed

lemma check_close_inv:
  assumes "stream_inv soi hs ls w s" "check_close soi ws s = Inr (cs, e, s', ws')" "\<not> is_close e"
  shows "stream_inv soi hs ls (w @ written (s_fd s) cs) s' \<and> s_fd s' = s_fd s"
  using assms by (auto simp: check_close_def rbind_eq_Inr add_calls_Inr is_close_def stream_inv_def dw_bytes_def dw_valid_def split: if_splits)

lemma send_list_low:
  assumes "send_list_tcp soi ws PRIORITY_LOW s = Inr (cs, e, s1, ws1)" "\<not> is_close e" "s_high s = []"
  shows "same_socket s s1" "s_high s1 = []" "chopped (s_low s) (written (s_fd s) cs) (s_low s1)"
    "s_wb_size s1 = s_wb_size s - int (length (written (s_fd s) cs))"
  using send_list_tcp_writes [OF assms(1,2)] assms(3) by (simp_all add: wb_of_def other_def)

lemma send_list_high:
  assumes "send_list_tcp soi ws PRIORITY_HIGH s = Inr (cs, e, s1, ws1)" "\<not> is_close e"
  shows "same_socket s s1" "s_low s1 = s_low s" "chopped (s_high s) (written (s_fd s) cs) (s_high s1)"
    "s_wb_size s1 = s_wb_size s - int (length (written (s_fd s) cs))" "e = None"
  using send_list_tcp_writes [OF assms(1,2)] by (simp_all add: wb_of_def other_def)

lemma send_low_inv:
  assumes inv: "stream_inv soi hs ls w s" "s_dw s = None" "s_high s = []" and send: "send_low soi ws s = Inr (cs, e, s', ws')" "\<not> is_close e"
    and fresh: "\<not> list_uncomplete (s_low s)"
  shows "stream_inv soi hs ls (w @ written (s_fd s) cs) s' \<and> s_fd s' = s_fd s"
proof (cases "s_low s = []")
  case True
  then show ?thesis using check_close_inv [OF inv(1)] send by (simp add: send_low_def)
next
  case False
  have tcp: "s_protocol s = PROTOCOL_TCP" using inv(1) by (simp add: stream_inv_def)
  obtain cs1 e1 s1 ws1 where l: "send_list_tcp soi ws PRIORITY_LOW s = Inr (cs1, e1, s1, ws1)" "\<not> is_close e1"
    "(if list_uncomplete (s_low s1) then rbind (raise_uncomplete s1) (\<lambda>s2. Inr (cs1, None, s2, ws1)) else add_calls cs1 (check_close soi ws1 s1)) = Inr (cs, e, s', ws')"
    using send False tcp by (auto simp: send_low_def rbind_eq_Inr send_list_def split: if_splits)
  note lo = send_list_low [OF l(1,2) inv(3)]
  have fd: "s_fd s1 = s_fd s" using lo(1) by (simp add: same_socket_def)
  show ?thesis
  proof (cases "list_uncomplete (s_low s1)")
    case True
    then obtain wb l0 where wb: "s_low s1 = wb # l0" by (auto simp: list_uncomplete_def split: list.splits)
    then have r: "cs = cs1" "s' = s1\<lparr>s_low := l0, s_high := [wb]\<rparr>" using l(3) True lo(2) by (auto simp: raise_uncomplete_def rbind_eq_Inr)
    obtain full where "(map wb_data (s_low s) = full @ map wb_data (s_low s1) \<and> written (s_fd s) cs1 = concat full)
        \<or> (\<exists>x. map wb_data (s_low s) = full @ x # map wb_data l0 \<and> written (s_fd s) cs1 @ wb_data wb = concat full @ x)"
      using chopped_split [OF lo(3)] wb by auto
    then have "\<exists>full x. map wb_data (s_low s) = full @ x # map wb_data l0 \<and> written (s_fd s) cs1 @ wb_data wb = concat full @ x"
      using wb by auto
    then show ?thesis using low_written_inv(2) [OF inv lo(1-4) wb] r fd by auto
  next
    case False
    then obtain cs2 where c: "check_close soi ws1 s1 = Inr (cs2, e, s', ws')" "cs = cs1 @ cs2" using l(3) by (auto simp: add_calls_Inr)
    then have empty: "s_low s1 = []" by (auto simp: check_close_def rbind_eq_Inr c_assert_def send_buffer_empty_def split: if_splits)
    then have "\<exists>full. map wb_data (s_low s) = full @ map wb_data (s_low s1) \<and> written (s_fd s) cs1 = concat full"
      using chopped_split [OF lo(3)] by auto
    then have "stream_inv soi hs ls (w @ written (s_fd s) cs1) s1" using low_written_inv(1) [OF inv lo(1-4)] by blast
    then show ?thesis using check_close_inv [OF _ c(1) send(2)] c(2) fd by fastforce
  qed
qed

lemma send_buffer_inv:
  assumes "stream_inv soi hs ls w s" "send_buffer soi locked ws s = Inr (cs, e, s', ws')" "\<not> is_close e"
  shows "stream_inv soi hs ls (w @ written (s_fd s) cs) s'"
proof (cases locked)
  case True
  then show ?thesis using assms by (auto simp: send_buffer_def)
next
  case False
  then obtain s0 where t: "take_direct soi s = Inr s0" "send_buffers soi ws s0 = Inr (cs, e, s', ws')"
    using assms(2) by (auto simp: send_buffer_def rbind_eq_Inr)
  have i0: "stream_inv soi hs ls w s0" "s_dw s0 = None" "s_fd s0 = s_fd s" using take_direct_inv [OF assms(1) t(1)] by blast+
  have tcp: "s_protocol s0 = PROTOCOL_TCP" using i0(1) by (simp add: stream_inv_def)
  have fresh: "\<not> list_uncomplete (s_low s0)" using t(2) by (auto simp: send_buffers_def rbind_eq_Inr c_assert_def split: if_splits)
  obtain cs1 e1 s1 ws1 where h: "send_list_tcp soi ws PRIORITY_HIGH s0 = Inr (cs1, e1, s1, ws1)"
    "(if is_close e1 \<or> s_high s1 \<noteq> [] then Inr (cs1, e1, s1, ws1) else add_calls cs1 (send_low soi ws1 s1)) = Inr (cs, e, s', ws')"
    using t(2) tcp by (auto simp: send_buffers_def rbind_eq_Inr send_list_def)
  then have "\<not> is_close e1" using assms(3) by (auto split: if_splits)
  note hi = send_list_high [OF h(1) this]
  have i1: "stream_inv soi hs ls (w @ written (s_fd s) cs1) s1" using high_written_inv [OF i0(1,2) hi(1-4)] i0(3) by simp
  have s1: "s_dw s1 = None" "s_fd s1 = s_fd s" "\<not> list_uncomplete (s_low s1)" using hi(1,2) i0(2,3) fresh by (simp_all add: same_socket_def)
  show ?thesis
  proof (cases "s_high s1 = []")
    case True
    then obtain cs2 where "send_low soi ws1 s1 = Inr (cs2, e, s', ws')" "cs = cs1 @ cs2" using h(2) \<open>\<not> is_close e1\<close> by (auto simp: add_calls_Inr)
    then show ?thesis using send_low_inv [OF i1 s1(1) True _ assms(3) s1(3)] s1(2) by fastforce
  next
    case False
    then show ?thesis using h(2) i1 by auto
  qed
qed

lemma close_socket_half:
  assumes "close_socket soi locked ws i False opaque s = Inr (cs, None, s')"
  obtains e s1 ws1 where "send_buffer soi locked ws s = Inr (cs, e, s1, ws1)" "\<not> is_close e" "s' = s1\<lparr>s_type := SOCKET_TYPE_HALFCLOSE\<rparr>"
proof (cases "nomore_send_data s")
  case True
  then show ?thesis using assms by (auto simp: close_socket_def rbind_eq_Inr split: if_splits)
next
  case False
  have ok: "\<not> (s_type s = SOCKET_TYPE_INVALID \<or> s_id s \<noteq> i)" using assms by (simp add: close_socket_def split: if_split_asm)
  obtain x where x: "send_buffer soi locked ws s = Inr x" "(case x of (cs, e, s1, ws1) \<Rightarrow>
       if is_close e then Inr (cs, e, s1)
       else if False \<or> nomore_send_data s1
       then rbind (force_close soi s1) (\<lambda>(cs', m, s2). Inr (cs @ cs', Some (SOCKET_CLOSE, m\<lparr>sm_id := i, sm_opaque := opaque\<rparr>), s2))
       else Inr (cs, None, s1\<lparr>s_type := SOCKET_TYPE_HALFCLOSE\<rparr>)) = Inr (cs, None, s')"
    using assms unfolding close_socket_def if_not_P [OF ok] if_not_P [OF False] rbind_eq_Inr by blast
  obtain cs1 e1 s1 ws1 where x1: "x = (cs1, e1, s1, ws1)" by (cases x) auto
  have "\<not> is_close e1" using x(2) x1 by (cases "is_close e1") auto
  then show ?thesis using x x1 by (intro that [of e1 s1 ws1]) (auto simp: rbind_eq_Inr split: if_splits)
qed

lemma stream_run_inv: "stream_run soi hs ls w s \<Longrightarrow> stream_inv soi hs ls w s"
proof (induction rule: stream_run.induct)
  case (start s)
  then show ?case by (intro stream_invI [of s soi "[]" "[]" "[]"]) (simp_all add: dw_bytes_def dw_valid_def)
next
  case (high hs ls w s n d cs e s')
  then show ?case using send_socket_inv [OF high(4,2,3)] by simp
next
  case (low hs ls w s n d cs e s')
  then show ?case using send_socket_inv [OF low(4,2,3)] by simp
next
  case (connect hs ls w s peer cs e s')
  then show ?case by (auto simp: report_connect_def stream_inv_def dw_bytes_def dw_valid_def)
next
  case (read hs ls w s bs cs e s')
  then show ?case by (auto simp: forward_message_tcp_def Let_def stream_inv_def dw_bytes_def dw_valid_def split: if_splits)
next
  case (half hs ls w s locked ws opaque cs s')
  obtain e s1 ws1 where h: "send_buffer soi locked ws s = Inr (cs, e, s1, ws1)" "\<not> is_close e" "s' = s1\<lparr>s_type := SOCKET_TYPE_HALFCLOSE\<rparr>"
    using close_socket_half [OF half(2)] .
  have "stream_inv soi hs ls (w @ written (s_fd s) cs) s1" by (rule send_buffer_inv [OF half.IH h(1,2)])
  then show ?case unfolding h(3) by (simp add: stream_inv_def dw_bytes_def dw_valid_def)
next
  case (direct hs ls w s i n d cs s')
  show ?case by (rule direct_inv [OF direct(4,2,3)])
next
  case (writable hs ls w s locked ws cs e s' ws')
  show ?case by (rule send_buffer_inv [OF writable(4,2,3)])
qed

text \<open>
  C10: a TCP socket writes a stream of whole messages. Whatever the kernel answers and however direct
  writes of the workers, requests of both priorities and write events follow one another, the bytes
  written so far and the bytes still pending are together the messages the socket accepted, one
  after the other in an order that keeps the order of the high ones and that of the low ones. No
  byte is lost, repeated or moved, and no message is cut by another.
\<close>

theorem tcp_stream:
  assumes "stream_run soi hs ls w s"
  shows "\<exists>order. order \<in> shuffles hs ls \<and> w @ pending soi s = concat order"
proof -
  obtain order lows where o: "order \<in> shuffles hs lows" "ls = lows @ map wb_data (s_low s)" "w @ dw_bytes soi s @ wb_bytes (s_high s) = concat order"
    using stream_run_inv [OF assms] by (auto simp: stream_inv_def)
  have "w @ pending soi s = concat (order @ map wb_data (s_low s))" using o(3) by (simp add: pending_def flip: append_assoc)
  then show ?thesis using shuffles_append_right [OF o(1), of "map wb_data (s_low s)"] o(2) by blast
qed

section \<open>Closing loses nothing\<close>

lemma send_list_tcp_all:
  assumes "list_all (\<lambda>a. \<exists>k. a = W_sent k \<and> n \<le> k) ws" "list_all (\<lambda>wb. length (wb_data wb) \<le> n) (wb_of p s)" "length (wb_of p s) \<le> length ws"
  shows "\<exists>cs. send_list_tcp soi ws p s = Inr (cs, None, set_wb p [] (s\<lparr>s_wb_size := s_wb_size s - wb_total (wb_of p s)\<rparr>), drop (length (wb_of p s)) ws)
           \<and> written (s_fd s) cs = wb_bytes (wb_of p s)"
  using assms
proof (induction ws arbitrary: s)
  case Nil
  then show ?case by (cases p) (simp_all add: tcp_steps set_wb_def wb_of_def)
next
  case (Cons a ws)
  show ?case
  proof (cases "wb_of p s")
    case Nil
    then show ?thesis by (cases p) (simp_all add: tcp_steps set_wb_def wb_of_def)
  next
    case l: (Cons tmp rest)
    obtain k where k: "a = W_sent k" "length (wb_data tmp) \<le> k" using Cons.prems(1,2) l by (auto intro: le_trans)
    let ?s = "set_wb p rest (s\<lparr>s_wb_size := s_wb_size s - int (length (wb_data tmp))\<rparr>)"
    have r: "wb_of p ?s = rest" by simp
    obtain cs where "send_list_tcp soi ws p ?s = Inr (cs, None, set_wb p [] (?s\<lparr>s_wb_size := s_wb_size ?s - wb_total rest\<rparr>), drop (length rest) ws)"
      "written (s_fd s) cs = wb_bytes rest"
      using Cons.IH [of ?s] Cons.prems l unfolding r by auto
    moreover have "set_wb p [] (?s\<lparr>s_wb_size := s_wb_size ?s - wb_total rest\<rparr>) = set_wb p [] (s\<lparr>s_wb_size := s_wb_size s - wb_total (wb_of p s)\<rparr>)"
      using l by (cases p) (simp_all add: set_wb_def algebra_simps)
    ultimately show ?thesis using k tcp_steps(7) [OF l k(2), of soi ws] by (simp add: add_calls_def l)
  qed
qed

lemma chopped_tail: "chopped l u l' \<Longrightarrow> set (tl l') \<subseteq> set l"
proof (induction rule: chopped.induct)
  case (none l)
  then show ?case by (cases l) auto
qed auto

lemma check_close_low: "check_close soi ws s = Inr (cs, e, s', ws') \<Longrightarrow> s_low s = [] \<and> s_low s' = []"
  by (auto simp: check_close_def rbind_eq_Inr add_calls_Inr c_assert_def send_buffer_empty_def force_close_def split: if_splits)

lemma send_low_low:
  assumes "send_low soi ws s = Inr (cs, e, s', ws')" "\<not> is_close e" "s_protocol s = PROTOCOL_TCP" "s_high s = []"
  shows "set (s_low s') \<subseteq> set (s_low s)"
proof (cases "s_low s = []")
  case True
  then show ?thesis using assms(1) check_close_low by (fastforce simp: send_low_def)
next
  case False
  obtain cs1 e1 s1 ws1 where l: "send_list_tcp soi ws PRIORITY_LOW s = Inr (cs1, e1, s1, ws1)" "\<not> is_close e1"
    "(if list_uncomplete (s_low s1) then rbind (raise_uncomplete s1) (\<lambda>s2. Inr (cs1, None, s2, ws1)) else add_calls cs1 (check_close soi ws1 s1)) = Inr (cs, e, s', ws')"
    using assms False by (auto simp: send_low_def rbind_eq_Inr send_list_def split: if_splits)
  have "s_low s' = tl (s_low s1)"
    using l(3) check_close_low by (auto simp: raise_uncomplete_def rbind_eq_Inr add_calls_Inr split: if_splits list.splits)
  then show ?thesis using chopped_tail [OF send_list_low(3) [OF l(1,2) assms(4)]] by simp
qed

lemma send_buffer_low:
  assumes "send_buffer soi locked ws s = Inr (cs, e, s', ws')" "\<not> is_close e" "s_protocol s = PROTOCOL_TCP"
  shows "set (s_low s') \<subseteq> set (s_low s)"
proof (cases locked)
  case True
  then show ?thesis using assms by (auto simp: send_buffer_def)
next
  case False
  then obtain s0 where t: "take_direct soi s = Inr s0" "send_buffers soi ws s0 = Inr (cs, e, s', ws')"
    using assms(1) by (auto simp: send_buffer_def rbind_eq_Inr)
  have s0: "s_low s0 = s_low s" "s_protocol s0 = PROTOCOL_TCP"
    using t(1) assms(3) by (auto simp: take_direct_def rbind_eq_Inr Let_def split: option.splits)
  obtain cs1 e1 s1 ws1 where h: "send_list_tcp soi ws PRIORITY_HIGH s0 = Inr (cs1, e1, s1, ws1)"
    "(if is_close e1 \<or> s_high s1 \<noteq> [] then Inr (cs1, e1, s1, ws1) else add_calls cs1 (send_low soi ws1 s1)) = Inr (cs, e, s', ws')"
    using t(2) s0(2) by (auto simp: send_buffers_def rbind_eq_Inr send_list_def)
  then have "\<not> is_close e1" using assms(2) by (auto split: if_splits)
  note hi = send_list_high [OF h(1) this]
  have s1: "s_low s1 = s_low s" "s_protocol s1 = PROTOCOL_TCP" using hi(1,2) s0 by (simp_all add: same_socket_def)
  show ?thesis
  proof (cases "s_high s1 = []")
    case True
    then obtain cs2 where "send_low soi ws1 s1 = Inr (cs2, e, s', ws')" using h(2) \<open>\<not> is_close e1\<close> by (auto simp: add_calls_Inr)
    then show ?thesis using send_low_low [OF _ assms(2) s1(2) True] s1(1) by fastforce
  next
    case False
    then show ?thesis using h(2) s1(1) by auto
  qed
qed

text \<open>Without user objects the buffers in the low list are untouched.\<close>

lemma stream_run_fresh: "stream_run soi hs ls w s \<Longrightarrow> soi = None \<Longrightarrow> \<forall>wb\<in>set (s_low s). wb_ptr wb = wb_buffer wb"
proof (induction rule: stream_run.induct)
  case (direct hs ls w s i n d cs s')
  then show ?case by (auto simp: direct_write_def rbind_eq_Inr Let_def split: if_splits)
next
  case (high hs ls w s n d cs e s')
  have tcp: "s_protocol s = PROTOCOL_TCP" using stream_run_inv [OF high(1)] by (simp add: stream_inv_def)
  obtain s1 where "append_buffer soi (list_for PRIORITY_HIGH s) d None s = Inr s1" "s' = snd (send_warning s1)" using send_socket_tcp [OF high(3,2) tcp] .
  then show ?case using high by (auto simp: append_buffer_eq list_for_def set_wb_def send_warning_def)
next
  case (low hs ls w s n d cs e s')
  have tcp: "s_protocol s = PROTOCOL_TCP" using stream_run_inv [OF low(1)] by (simp add: stream_inv_def)
  obtain s1 where "append_buffer soi (list_for PRIORITY_LOW s) d None s = Inr s1" "s' = snd (send_warning s1)" using send_socket_tcp [OF low(3,2) tcp] .
  then show ?case using low
    by (auto simp: append_buffer_eq list_for_def set_wb_def send_warning_def wb_of_def send_object_init_def data_addr_def split: send_data.splits if_splits)
next
  case (writable hs ls w s locked ws cs e s' ws')
  have "s_protocol s = PROTOCOL_TCP" using stream_run_inv [OF writable(1)] by (simp add: stream_inv_def)
  then show ?case using send_buffer_low [OF writable(2,3)] writable by blast
next
  case (connect hs ls w s peer cs e s')
  then show ?case by (auto simp: report_connect_def)
next
  case (read hs ls w s bs cs e s')
  then show ?case by (auto simp: forward_message_tcp_def Let_def split: if_splits)
next
  case (half hs ls w s locked ws opaque cs s')
  obtain e s1 ws1 where h: "send_buffer soi locked ws s = Inr (cs, e, s1, ws1)" "\<not> is_close e" "s' = s1\<lparr>s_type := SOCKET_TYPE_HALFCLOSE\<rparr>"
    using close_socket_half [OF half(2)] .
  have "s_protocol s = PROTOCOL_TCP" using stream_run_inv [OF half(1)] by (simp add: stream_inv_def)
  then show ?case using send_buffer_low [OF h(1,2)] half h(3) by auto
qed simp

lemma check_close_half:
  assumes "send_buffer_empty s" "s_wb_size s = 0" "s_type s = SOCKET_TYPE_HALFCLOSE" "s_dw s = None"
  shows "\<exists>cs s'. check_close soi ws s = Inr (cs, Some (SOCKET_CLOSE, closed_message s), s', ws) \<and> written (s_fd s) cs = []
           \<and> Sys_close (s_fd s) \<in> set cs \<and> s_type s' = SOCKET_TYPE_INVALID"
  using assms by (auto simp: check_close_def c_assert_def add_calls_def force_close_def)

text \<open>A write event on a half-closed socket when the kernel takes everything.\<close>

lemma send_low_half:
  assumes "s_high s = []" "s_wb_size s = wb_total (s_low s)" "s_protocol s = PROTOCOL_TCP" "s_type s = SOCKET_TYPE_HALFCLOSE" "s_dw s = None"
    and "list_all (\<lambda>a. \<exists>k. a = W_sent k \<and> n \<le> k) ws" "list_all (\<lambda>wb. length (wb_data wb) \<le> n) (s_low s)" "length (s_low s) \<le> length ws"
  shows "\<exists>cs s' ws'. send_low soi ws s = Inr (cs, Some (SOCKET_CLOSE, closed_message s), s', ws') \<and> written (s_fd s) cs = wb_bytes (s_low s)
           \<and> Sys_close (s_fd s) \<in> set cs \<and> s_type s' = SOCKET_TYPE_INVALID"
proof (cases "s_low s = []")
  case True
  then show ?thesis using check_close_half [of s] assms(1,2,4,5) by (fastforce simp: send_low_def send_buffer_empty_def)
next
  case False
  let ?s = "set_wb PRIORITY_LOW [] (s\<lparr>s_wb_size := s_wb_size s - wb_total (s_low s)\<rparr>)"
  obtain cs where l: "send_list_tcp soi ws PRIORITY_LOW s = Inr (cs, None, ?s, drop (length (s_low s)) ws)" "written (s_fd s) cs = wb_bytes (s_low s)"
    using send_list_tcp_all [OF assms(6), of PRIORITY_LOW s soi] assms(7,8) by (auto simp: wb_of_def)
  obtain cs2 s2 where c: "check_close soi (drop (length (s_low s)) ws) ?s = Inr (cs2, Some (SOCKET_CLOSE, closed_message ?s), s2, drop (length (s_low s)) ws)"
    "written (s_fd s) cs2 = []" "Sys_close (s_fd s) \<in> set cs2" "s_type s2 = SOCKET_TYPE_INVALID"
    using check_close_half [of ?s soi "drop (length (s_low s)) ws"] assms(1,2,4,5) by (auto simp: send_buffer_empty_def set_wb_def)
  have "send_low soi ws s = Inr (cs @ cs2, Some (SOCKET_CLOSE, closed_message s), s2, drop (length (s_low s)) ws)"
    using False l(1) c(1) assms(3) by (simp add: send_low_def send_list_def set_wb_def list_uncomplete_def add_calls_def closed_message_def)
  then show ?thesis using l(2) c(2-4) by auto
qed

lemma wb_data_length: "list_all (\<lambda>wb. length (wb_data wb) \<le> length (wb_bytes l)) l"
  by (induction l) (auto simp: list_all_iff)

text \<open>
  C29: closing a socket loses no data. When a socket has been asked to close while data was pending,
  and the kernel then takes what it is given, the next write event writes everything that is left,
  so that all messages accepted are on the wire, and only then closes the socket and reports it.
\<close>

theorem halfclose_flushes:
  assumes run: "stream_run None hs ls w s" and half: "s_type s = SOCKET_TYPE_HALFCLOSE"
    and os: "list_all (\<lambda>a. \<exists>k. a = W_sent k \<and> length (pending None s) \<le> k) ws" "Suc (length (s_high s) + length (s_low s)) \<le> length ws"
  shows "\<exists>cs s' ws' order. send_buffer None False ws s = Inr (cs, Some (SOCKET_CLOSE, closed_message s), s', ws')
    \<and> order \<in> shuffles hs ls \<and> w @ written (s_fd s) cs = concat order \<and> Sys_close (s_fd s) \<in> set cs \<and> s_type s' = SOCKET_TYPE_INVALID"
proof -
  have inv: "stream_inv None hs ls w s" using stream_run_inv [OF run] .
  then obtain s0 where s0: "take_direct None s = Inr s0" by (auto simp: stream_inv_def dw_valid_def take_direct_def Let_def split: option.splits prod.splits)
  have i0: "stream_inv None hs ls w s0" "s_dw s0 = None" "s_fd s0 = s_fd s" "s_type s0 = SOCKET_TYPE_HALFCLOSE" "closed_message s0 = closed_message s"
    and low0: "s_low s0 = s_low s" and len: "length (s_high s0) \<le> Suc (length (s_high s))"
    using take_direct_inv [OF inv s0] half s0 by (auto simp: take_direct_def rbind_eq_Inr Let_def closed_message_def split: option.splits)
  obtain order lows where o: "order \<in> shuffles hs lows" "ls = lows @ map wb_data (s_low s)" "w @ wb_bytes (s_high s0) = concat order"
    "s_wb_size s0 = wb_total (s_high s0) + wb_total (s_low s)" "s_protocol s0 = PROTOCOL_TCP"
    using i0(1,2) low0 by (auto simp: stream_inv_def dw_bytes_def)
  have pend: "pending None s = wb_bytes (s_high s0) @ wb_bytes (s_low s)"
    using s0 by (auto simp: pending_def dw_bytes_def bytes_of_def take_direct_def rbind_eq_Inr Let_def split: option.splits)
  let ?n = "length (pending None s)" and ?s1 = "set_wb PRIORITY_HIGH [] (s0\<lparr>s_wb_size := s_wb_size s0 - wb_total (s_high s0)\<rparr>)"
  have short: "list_all (\<lambda>wb. length (wb_data wb) \<le> ?n) (s_high s0)" "list_all (\<lambda>wb. length (wb_data wb) \<le> ?n) (s_low s)"
    using wb_data_length [of "s_high s0"] wb_data_length [of "s_low s"] unfolding pend by (force simp: list_all_iff)+
  obtain cs1 where h: "send_list_tcp None ws PRIORITY_HIGH s0 = Inr (cs1, None, ?s1, drop (length (s_high s0)) ws)" "written (s_fd s) cs1 = wb_bytes (s_high s0)"
    using send_list_tcp_all [OF os(1), of PRIORITY_HIGH s0 None] short(1) os(2) len i0(3) by (auto simp: wb_of_def)
  have "list_all (\<lambda>a. \<exists>k. a = W_sent k \<and> ?n \<le> k) (drop (length (s_high s0)) ws)" using os(1) by (auto simp: list_all_iff dest: in_set_dropD)
  moreover have "length (s_low s) \<le> length ws - length (s_high s0)" using os(2) len by linarith
  ultimately obtain cs2 s' ws' where l: "send_low None (drop (length (s_high s0)) ws) ?s1 = Inr (cs2, Some (SOCKET_CLOSE, closed_message ?s1), s', ws')"
    "written (s_fd s) cs2 = wb_bytes (s_low s)" "Sys_close (s_fd s) \<in> set cs2" "s_type s' = SOCKET_TYPE_INVALID"
    using send_low_half [of ?s1 ?n "drop (length (s_high s0)) ws" None] short(2) o(4,5) i0(2-4) low0 by (auto simp: set_wb_def)
  have fresh: "\<not> list_uncomplete (s_low s0)" using stream_run_fresh [OF run] low0 by (auto simp: list_uncomplete_def split: list.splits)
  have "send_buffer None False ws s = Inr (cs1 @ cs2, Some (SOCKET_CLOSE, closed_message s), s', ws')"
    using s0 fresh h(1) l(1) o(5) i0(5) by (simp add: send_buffer_def send_buffers_def c_assert_def send_list_def add_calls_def set_wb_def closed_message_def)
  moreover have "w @ written (s_fd s) (cs1 @ cs2) = concat (order @ map wb_data (s_low s))" using h(2) l(2) o(3) by (simp flip: append_assoc)
  ultimately show ?thesis using shuffles_append_right [OF o(1), of "map wb_data (s_low s)"] o(2) l(3,4) by fastforce
qed

section \<open>Shortcomings\<close>

text \<open>
  C30: low-priority data can abort the process. When the high list has been written and the kernel
  does not take a byte of the first low buffer, \<^verbatim>\<open>send_buffer_\<close> goes on to step 4, whose assertion says
  that both lists are empty.
\<close>

theorem low_priority_aborts:
  assumes "s_protocol s = PROTOCOL_TCP" "s_dw s = None" "s_high s = []" "s_low s = wb # l" "wb_ptr wb = wb_buffer wb"
  shows "send_buffer soi False (W_again # ws) s = Inl Assert_failed"
proof -
  have "send_list soi (W_again # ws) PRIORITY_LOW s = Inr ([], None, s, ws)" using assms(1,4) by (simp add: send_list_def tcp_steps wb_of_def)
  moreover have "send_list soi (W_again # ws) PRIORITY_HIGH s = Inr ([], None, s, W_again # ws)" using assms(1,3) by (simp add: send_list_def tcp_steps wb_of_def)
  ultimately show ?thesis using assms(2-5)
    by (simp add: send_buffer_def take_direct_def send_buffers_def send_low_def list_uncomplete_def check_close_def c_assert_def add_calls_def send_buffer_empty_def)
qed

text \<open>
  A datagram whose direct write fails makes the socket thread read past a buffer. The worker
  leaves it in \<^verbatim>\<open>dw_buffer\<close>, and the socket thread takes it over into a buffer that has no room for an
  address, from which \<^verbatim>\<open>send_list_udp\<close> then reads the address.
\<close>

theorem udp_direct_overread:
  assumes "s_protocol s \<noteq> PROTOCOL_TCP" "can_direct_write s i" "bs \<noteq> []" "n < 0"
  shows "\<exists>cs s'. direct_write soi n s (Plain a bs) = Inr (cs, s') \<and> send_buffer soi False ws s' = Inl Out_of_bounds"
  using assms
  by (auto simp: direct_write_def send_object_init_def Let_def send_buffer_def take_direct_def send_buffers_def send_list_def
      can_direct_write_def nomore_send_data_def send_buffer_empty_def list_uncomplete_def c_assert_def send_list_udp.simps wb_of_def)

lemma flush_one:
  assumes "take_direct soi s = Inr s0" "s_protocol s0 = PROTOCOL_TCP" "s_high s0 = [wb]" "s_low s0 = []" "s_wb_size s0 = int (length (wb_data wb))"
    "s_type s0 \<noteq> SOCKET_TYPE_HALFCLOSE" "s_warn_size s0 = 0"
  shows "send_buffer soi False [W_sent (length (wb_data wb))] s =
    Inr ([Sys_write (s_fd s0) (wb_data wb), Sys_free (wb_buffer wb), Sp_write (s_fd s0) False], None, s0\<lparr>s_wb_size := 0, s_high := []\<rparr>, [])"
proof -
  have "send_list soi [W_sent (length (wb_data wb))] PRIORITY_HIGH s0 =
      Inr ([Sys_write (s_fd s0) (wb_data wb), Sys_free (wb_buffer wb)], None, s0\<lparr>s_wb_size := 0, s_high := []\<rparr>, [])"
    using assms(2,3,5) by (simp add: send_list_def tcp_steps wb_of_def set_wb_def add_calls_def)
  then show ?thesis using assms
    by (simp add: send_buffer_def send_buffers_def c_assert_def list_uncomplete_def send_low_def check_close_def send_buffer_empty_def add_calls_def)
qed

text \<open>A round that waits and finds a connected socket writable.\<close>

lemma write_round:
  assumes "\<not> ss_checkctrl ss" "ss_event_index ss = length (ss_ev ss)" "s_type (ss_slot ss k) = SOCKET_TYPE_CONNECTED"
    "os_wait os = Wait_events (\<lparr>ev_s = Some k, ev_read = False, ev_write = True, ev_error = False\<rparr> # es)" "\<not> os_locked os"
    "send_buffer (ss_soi ss) False (os_writes os) (ss_slot ss k) = Inr (cs, None, s', ws')"
  shows "poll_round os ss = Inr (cs, True, None,
    ss\<lparr>ss_checkctrl := True, ss_event_index := 1, ss_ev := \<lparr>ev_s = Some k, ev_read = False, ev_write = True, ev_error = False\<rparr> # es, ss_slot := (ss_slot ss)(k := s')\<rparr>)"
  using assms by (simp add: poll_round_def event_part_def next_event_def Let_def handle_event_def round_of_def on_slot_def)

text \<open>
  C31: a direct write overtakes a request. A service sends three messages on an idle connection while
  the socket thread waits. The kernel takes nothing of the first, which the socket thread will
  write; the second goes into the pipe. The socket becomes writable, the first message is written,
  and the buffers are empty again although the second is still in the pipe: the third is written
  at once. The peer receives the first, the third, the second.
\<close>

theorem direct_write_overtakes:
  assumes idle: "can_direct_write (sock_at ss i) i" "s_protocol (sock_at ss i) = PROTOCOL_TCP" "s_fd (sock_at ss i) = fd" "s_wb_size (sock_at ss i) = 0"
      "s_warn_size (sock_at ss i) = 0" "ss_ctrl ss = []" "\<not> ss_checkctrl ss" "ss_event_index ss = length (ss_ev ss)"
    and data: "x \<noteq> []" "y \<noteq> []" "z \<noteq> []" "length y < 1024 * 1024"
    and os: "os_wait os = Wait_events [\<lparr>ev_s = Some (HASH_ID i), ev_read = False, ev_write = True, ev_error = False\<rparr>, pipe_event]"
      "\<not> os_locked os" "os_writes os = [W_sent (length x)]"
      "os_wait os' = Wait_events [\<lparr>ev_s = Some (HASH_ID i), ev_read = False, ev_write = True, ev_error = False\<rparr>]"
      "\<not> os_locked os'" "os_writes os' = [W_sent (length y)]" "ev_s pipe_event = None"
  shows "\<exists>c1 c2 c3 c4 c5 c6 s1 s2 s3 s4 s5 s6 s7 s8.
      socket_server_send False (- 1) ss i (Plain 1 x) = Inr (c1, 0, s1) \<and>
      socket_server_send False (- 1) s1 i (Plain 2 y) = Inr (c2, 0, s2) \<and>
      poll_round os s2 = Inr (c3, True, None, s3) \<and>
      socket_server_send False (int (length z)) s3 i (Plain 3 z) = Inr (c4, 0, s4) \<and>
      poll_round os' s4 = Inr (c5, False, None, s5) \<and> poll_round os' s5 = Inr ([], False, None, s6) \<and> poll_round os' s6 = Inr ([], False, None, s7) \<and>
      poll_round os' s7 = Inr (c6, True, None, s8) \<and>
      written fd (c1 @ c2 @ c3 @ c4 @ c5 @ c6) = x @ z @ y"
proof -
  let ?k = "HASH_ID i" and ?s = "sock_at ss i"
  have s: "s_id ?s = i" "s_high ?s = []" "s_low ?s = []" "s_dw ?s = None" "s_type ?s = SOCKET_TYPE_CONNECTED" "s_udpconnecting ?s = 0"
    using idle(1) by (simp_all add: can_direct_write_def nomore_send_data_def send_buffer_empty_def)
  let ?a = "?s\<lparr>s_dw := Some (Plain 1 x, 0)\<rparr>" and ?a' = "?s\<lparr>s_wb_size := 0, s_high := [], s_dw := None\<rparr>"
  let ?wb = "\<lambda>a d. \<lparr>wb_buffer = a, wb_ptr = a, wb_data = d, wb_userobject = False, wb_udp_address = None\<rparr>"
  let ?b = "?a'\<lparr>s_wb_size := int (length y), s_high := [?wb 2 y]\<rparr>"
  let ?r = "Req_send PRIORITY_HIGH i (Plain 2 y)"
  let ?e = "\<lparr>ev_s = Some ?k, ev_read = False, ev_write = True, ev_error = False\<rparr>"
  let ?s1 = "set_slot ss ?k ?a"
  let ?s2 = "?s1\<lparr>ss_ctrl := [?r]\<rparr>"
  let ?s3 = "?s2\<lparr>ss_checkctrl := True, ss_event_index := 1, ss_ev := [?e, pipe_event], ss_slot := (ss_slot ?s2)(?k := ?a')\<rparr>"
  let ?s5 = "?s3\<lparr>ss_ctrl := [], ss_slot := (ss_slot ?s3)(?k := ?b)\<rparr>"
  let ?s6 = "?s5\<lparr>ss_checkctrl := False\<rparr>"
  let ?s7 = "?s6\<lparr>ss_event_index := 2\<rparr>"
  have 1: "socket_server_send False (- 1) ss i (Plain 1 x) = Inr ([Sp_write fd True], 0, ?s1)"
    using idle data(1) s by (simp add: socket_server_send_def Let_def direct_write_def send_object_init_def)
  have 2: "socket_server_send False (- 1) ?s1 i (Plain 2 y) = Inr ([], 0, ?s2)"
    using idle s by (simp add: socket_server_send_def Let_def can_direct_write_def nomore_send_data_def send_request_def)
  have t3: "take_direct (ss_soi ?s2) ?a = Inr (?a\<lparr>s_wb_size := int (length x), s_high := [?wb 1 x], s_dw := None\<rparr>)"
    using idle(4) s by (simp add: take_direct_def send_object_init_def Let_def data_addr_def)
  have "send_buffer (ss_soi ?s2) False [W_sent (length x)] ?a = Inr ([Sys_write fd x, Sys_free 1, Sp_write fd False], None, ?a', [])"
    using flush_one [OF t3] idle s by simp
  then have 3: "poll_round os ?s2 = Inr ([Sys_write fd x, Sys_free 1, Sp_write fd False], True, None, ?s3)"
    using write_round [of ?s2 ?k os "[pipe_event]"] idle(7,8) os s(5) by simp
  have 4: "socket_server_send False (int (length z)) ?s3 i (Plain 3 z) = Inr ([Sys_write fd z, Sys_free 3], 0, ?s3)"
    using idle s by (simp add: socket_server_send_def Let_def direct_write_def send_object_init_def can_direct_write_def nomore_send_data_def send_buffer_empty_def data_addr_def)
  have "send_socket (ss_soi ss) (os_sendto os') i ?a' (Plain 2 y) PRIORITY_HIGH None = Inr ([Sp_write fd True], None, ?b)"
    using idle(2,3) s data(4)
    by (simp add: send_socket_def send_object_init_def queue_data_def Let_def send_buffer_empty_def append_sendbuffer_def append_buffer_def
        new_write_buffer_def data_addr_def set_wb_def wb_of_def send_warning_def WARNING_SIZE_def)
  then have 5: "poll_round os' ?s3 = Inr ([Sp_write fd True], False, None, ?s5)"
    by (simp add: poll_round_def ctrl_cmd_def handle_request_def on_slot_def)
  have 6: "poll_round os' ?s5 = Inr ([], False, None, ?s6)" by (simp add: poll_round_def)
  have 7: "poll_round os' ?s6 = Inr ([], False, None, ?s7)" using os(7) by (simp add: poll_round_def event_part_def next_event_def Let_def)
  have t8: "take_direct (ss_soi ?s7) ?b = Inr ?b" by (simp add: take_direct_def)
  have "send_buffer (ss_soi ?s7) False [W_sent (length y)] ?b = Inr ([Sys_write fd y, Sys_free 2, Sp_write fd False], None, ?b\<lparr>s_wb_size := 0, s_high := []\<rparr>, [])"
    using flush_one [OF t8] idle s by simp
  then have "\<exists>s8. poll_round os' ?s7 = Inr ([Sys_write fd y, Sys_free 2, Sp_write fd False], True, None, s8)"
    using write_round [of ?s7 ?k os' "[]"] os s(5) by simp
  then obtain s8 where 8: "poll_round os' ?s7 = Inr ([Sys_write fd y, Sys_free 2, Sp_write fd False], True, None, s8)" by blast
  show ?thesis by (intro exI conjI) (rule 1, rule 2, rule 3, rule 4, rule 5, rule 6, rule 7, rule 8, simp)
qed

section \<open>Witnesses\<close>

definition example_socket :: "sock_protocol \<Rightarrow> sock_type \<Rightarrow> socket" where
  "example_socket p t = \<lparr>s_opaque = 9, s_high = [], s_low = [], s_wb_size = 0, s_fd = 7, s_id = 1, s_protocol = p, s_type = t,
     s_udpconnecting = 0, s_warn_size = 0, s_size = 64, s_udp_address = [], s_dw = None\<rparr>"

lemma example_start: "stream_run None [] [] [] (example_socket PROTOCOL_TCP t)"
  by (rule stream_run.start) (simp_all add: example_socket_def)

text \<open>A low message queued while the socket connects.\<close>

definition low_queued :: "sock_type \<Rightarrow> socket" where
  "low_queued t = (example_socket PROTOCOL_TCP t)\<lparr>s_wb_size := 2,
     s_low := [\<lparr>wb_buffer = 5, wb_ptr = 5, wb_data = [1, 2], wb_userobject = False, wb_udp_address = None\<rparr>]\<rparr>"

lemma low_queued_sent:
  "send_socket None 0 (s_id (example_socket PROTOCOL_TCP SOCKET_TYPE_CONNECTING)) (example_socket PROTOCOL_TCP SOCKET_TYPE_CONNECTING) (Plain 5 [1, 2]) PRIORITY_LOW None
     = Inr ([], None, low_queued SOCKET_TYPE_CONNECTING)"
  by (simp add: low_queued_def example_socket_def send_socket_def send_object_init_def queue_data_def Let_def send_buffer_empty_def
      append_sendbuffer_low_def append_buffer_def new_write_buffer_def data_addr_def set_wb_def wb_of_def send_warning_def WARNING_SIZE_def)

lemma low_queued_run: "stream_run None [] [[1, 2]] [] (low_queued SOCKET_TYPE_CONNECTING)"
  using stream_run.low [OF example_start _ low_queued_sent] by (simp add: accepts_def example_socket_def bytes_of_def send_object_init_def)

lemma low_queued_connected: "stream_run None [] [[1, 2]] [] (low_queued SOCKET_TYPE_CONNECTED)"
proof -
  have "report_connect None None None (low_queued SOCKET_TYPE_CONNECTING) =
      Inr ([], Some (SOCKET_OPEN, \<lparr>sm_id = 1, sm_opaque = 9, sm_ud = 0, sm_data = Sm_null\<rparr>), low_queued SOCKET_TYPE_CONNECTED)"
    by (simp add: report_connect_def low_queued_def example_socket_def nomore_send_data_def send_buffer_empty_def)
  from stream_run.connect [OF low_queued_run this] show ?thesis by simp
qed

lemma low_queued_half: "stream_run None [] [[1, 2]] [] (low_queued SOCKET_TYPE_HALFCLOSE)"
proof -
  have "close_socket None True [] (s_id (low_queued SOCKET_TYPE_CONNECTED)) False 9 (low_queued SOCKET_TYPE_CONNECTED) = Inr ([], None, low_queued SOCKET_TYPE_HALFCLOSE)"
    by (simp add: close_socket_def low_queued_def example_socket_def nomore_send_data_def send_buffer_empty_def send_buffer_def)
  from stream_run.half [OF low_queued_connected this] show ?thesis by simp
qed

theorem tcp_stream_witness:
  "\<exists>order. order \<in> shuffles [] [[1, 2]] \<and> [] @ pending None (low_queued SOCKET_TYPE_CONNECTED) = concat order"
  using tcp_stream [OF low_queued_connected] .

theorem halfclose_flushes_witness:
  "\<exists>cs s' ws' order. send_buffer None False [W_sent 2, W_sent 2] (low_queued SOCKET_TYPE_HALFCLOSE)
      = Inr (cs, Some (SOCKET_CLOSE, closed_message (low_queued SOCKET_TYPE_HALFCLOSE)), s', ws')
    \<and> order \<in> shuffles [] [[1, 2]] \<and> [] @ written 7 cs = concat order \<and> Sys_close 7 \<in> set cs \<and> s_type s' = SOCKET_TYPE_INVALID"
proof -
  have "length (pending None (low_queued SOCKET_TYPE_HALFCLOSE)) = 2" "s_fd (low_queued SOCKET_TYPE_HALFCLOSE) = 7"
    by (simp_all add: pending_def dw_bytes_def low_queued_def example_socket_def)
  then show ?thesis
    using halfclose_flushes [OF low_queued_half, of "[W_sent 2, W_sent 2]"] by (simp add: low_queued_def example_socket_def)
qed

text \<open>The state in which the assertion fails is one a socket gets into.\<close>

theorem low_priority_aborts_witness:
  "stream_run None [] [[1, 2]] [] (low_queued SOCKET_TYPE_CONNECTED) \<and> send_buffer None False [W_again] (low_queued SOCKET_TYPE_CONNECTED) = Inl Assert_failed"
  using low_queued_connected low_priority_aborts [of "low_queued SOCKET_TYPE_CONNECTED" _ "[]" None "[]"] by (simp add: low_queued_def example_socket_def)

theorem udp_direct_overread_witness:
  "\<exists>cs s'. direct_write None (- 1) (example_socket PROTOCOL_UDP SOCKET_TYPE_CONNECTED) (Plain 5 [1, 2]) = Inr (cs, s') \<and>
     send_buffer None False [W_sent 2] s' = Inl Out_of_bounds"
  by (rule udp_direct_overread [where i = 1])
    (simp_all add: example_socket_def can_direct_write_def nomore_send_data_def send_buffer_empty_def)

definition example_server :: socket_server where
  "example_server = \<lparr>ss_soi = None, ss_alloc_id = 1, ss_checkctrl = False, ss_ev = [], ss_event_index = 0,
     ss_slot = (\<lambda>_. example_socket PROTOCOL_TCP SOCKET_TYPE_CONNECTED), ss_ctrl = []\<rparr>"

definition example_os :: "event list \<Rightarrow> write_answer list \<Rightarrow> os_answer" where
  "example_os es ws = \<lparr>os_locked = False, os_writes = ws, os_sendto = 0, os_add_ok = True, os_errno = [], os_read = R_intr, os_recv = U_intr,
     os_sockerr = None, os_peer = None, os_accept = Accept_failed, os_open = Gai_error [], os_wait = Wait_events es\<rparr>"

theorem direct_write_overtakes_witness:
  "\<exists>os os' c1 c2 c3 c4 c5 c6 s1 s2 s3 s4 s5 s6 s7 s8.
      socket_server_send False (- 1) example_server 1 (Plain 1 [1]) = Inr (c1, 0, s1) \<and>
      socket_server_send False (- 1) s1 1 (Plain 2 [2]) = Inr (c2, 0, s2) \<and>
      poll_round os s2 = Inr (c3, True, None, s3) \<and>
      socket_server_send False 1 s3 1 (Plain 3 [3]) = Inr (c4, 0, s4) \<and>
      poll_round os' s4 = Inr (c5, False, None, s5) \<and> poll_round os' s5 = Inr ([], False, None, s6) \<and> poll_round os' s6 = Inr ([], False, None, s7) \<and>
      poll_round os' s7 = Inr (c6, True, None, s8) \<and> written 7 (c1 @ c2 @ c3 @ c4 @ c5 @ c6) = [1, 3, 2]"
proof -
  let ?e = "\<lparr>ev_s = Some (HASH_ID 1), ev_read = False, ev_write = True, ev_error = False\<rparr>"
  let ?p = "\<lparr>ev_s = None, ev_read = True, ev_write = False, ev_error = False\<rparr>"
  have "can_direct_write (sock_at example_server 1) 1"
    by (simp add: example_server_def example_socket_def can_direct_write_def nomore_send_data_def send_buffer_empty_def)
  then show ?thesis
    using direct_write_overtakes [of example_server 1 7 "[1]" "[2]" "[3]" "example_os [?e, ?p] [W_sent 1]" ?p "example_os [?e] [W_sent 1]"]
    by (intro exI [of _ "example_os [?e, ?p] [W_sent 1]"] exI [of _ "example_os [?e] [W_sent 1]"]) (simp add: example_server_def example_socket_def example_os_def)
qed

end
