(* ===== verification/Socket_Safe.thy ===== *)
theory Socket_Safe
  imports Socket_Stream
begin

text \<open>
  What the socket server keeps true whatever services call and the system answers: the accounting of
  the buffers, that a reserved slot is opened by the first request for it, that pending events
  belong to sockets in the poll set. From it, which assertions cannot fail, and the two ways in which
  a round of the socket thread can.
\<close>

section \<open>One socket\<close>

text \<open>A socket in use: its buffers are accounted for. A slot that is free has none.\<close>

definition live :: "soi \<Rightarrow> socket \<Rightarrow> bool" where
  "live soi s \<longleftrightarrow> s_type s \<noteq> SOCKET_TYPE_INVALID \<and> s_type s \<noteq> SOCKET_TYPE_RESERVE
     \<and> s_wb_size s = wb_total (s_high s) + wb_total (s_low s) \<and> dw_valid soi s"

definition free_slot :: "socket \<Rightarrow> bool" where
  "free_slot s \<longleftrightarrow> s_type s = SOCKET_TYPE_INVALID \<and> s_high s = [] \<and> s_low s = []"

text \<open>The faults that are possible: a call that has not returned, the assertion with low-priority data,
  the address of a datagram.\<close>

definition known_fault :: "socket \<Rightarrow> c_error \<Rightarrow> bool" where
  "known_fault s e \<longleftrightarrow> e = Diverges \<or> e = Assert_failed \<and> s_low s \<noteq> [] \<or> e = Out_of_bounds \<and> s_protocol s \<noteq> PROTOCOL_TCP"

text \<open>What a socket can become: it stays in use, or it is closed and that is reported under its id.\<close>

definition polled :: "sock_type set" where
  "polled = {SOCKET_TYPE_LISTEN, SOCKET_TYPE_CONNECTING, SOCKET_TYPE_CONNECTED, SOCKET_TYPE_HALFCLOSE, SOCKET_TYPE_BIND}"

definition next_socket :: "soi \<Rightarrow> socket \<Rightarrow> ss_event option \<Rightarrow> socket \<Rightarrow> bool" where
  "next_socket soi s ev s' \<longleftrightarrow> s_id s' = s_id s \<and>
     (live soi s' \<and> (s_type s \<in> polled \<longrightarrow> s_type s' \<in> polled)
      \<or> free_slot s' \<and> (\<exists>t m. ev = Some (t, m) \<and> (t = SOCKET_CLOSE \<or> t = SOCKET_ERR) \<and> sm_id m = s_id s))"

lemma dw_valid_dw: "s_dw s' = s_dw s \<Longrightarrow> dw_valid soi s' = dw_valid soi s"
  by (simp add: dw_valid_def)

lemma force_close_live:
  assumes "live soi s"
  shows "\<exists>cs s'. force_close soi s = Inr (cs, closed_message s, s') \<and> free_slot s' \<and> s_id s' = s_id s"
proof -
  have "\<exists>cs. (case s_dw s of None \<Rightarrow> Inr [] | Some (d, _) \<Rightarrow> free_buffer soi d) = Inr cs"
    using assms by (auto simp: live_def dw_valid_def free_buffer_def split: option.splits prod.splits)
  then show ?thesis using assms by (auto simp: force_close_def live_def c_assert_def free_slot_def)
qed

lemma same_socket_live:
  assumes "live soi s" "same_socket s s'" "s_wb_size s' = wb_total (s_high s') + wb_total (s_low s')"
  shows "live soi s'"
  using assms dw_valid_dw [of s' s soi] by (auto simp: live_def same_socket_def)

definition sent_ok :: "soi \<Rightarrow> sock_priority \<Rightarrow> socket \<Rightarrow> write_result \<Rightarrow> bool" where
  "sent_ok soi p s r \<longleftrightarrow>
     (case r of
        Inl e \<Rightarrow> e = Diverges \<or> e = Out_of_bounds \<and> s_protocol s \<noteq> PROTOCOL_TCP
      | Inr (cs, ev, s', ws) \<Rightarrow>
          if is_close ev then free_slot s' \<and> s_id s' = s_id s \<and> ev = Some (SOCKET_CLOSE, closed_message s)
          else ev = None \<and> live soi s' \<and> same_socket s s' \<and> wb_of (other p) s' = wb_of (other p) s)"

lemma sent_ok_calls: "sent_ok soi p s (add_calls cs r) = sent_ok soi p s r"
  by (cases r) (auto simp: sent_ok_def add_calls_def)

lemma live_unsent:
  assumes "live soi s" "wb_of p s = tmp # rest" "n \<le> length (wb_data tmp)"
  shows "n = length (wb_data tmp) \<Longrightarrow> live soi (set_wb p rest (s\<lparr>s_wb_size := s_wb_size s - int n\<rparr>))"
    and "live soi (set_wb p (tmp\<lparr>wb_ptr := q, wb_data := drop n (wb_data tmp)\<rparr> # rest) (s\<lparr>s_wb_size := s_wb_size s - int n\<rparr>))"
  using assms by (cases p; auto simp: live_def dw_valid_def set_wb_def wb_of_def)+

lemma sent_ok_set:
  assumes "sent_ok soi p (set_wb p l (s\<lparr>s_wb_size := n\<rparr>)) r"
  shows "sent_ok soi p s r"
proof -
  have "closed_message (set_wb p l (s\<lparr>s_wb_size := n\<rparr>)) = closed_message s" by (cases p) (simp_all add: closed_message_def set_wb_def)
  moreover have "wb_of (other p) (set_wb p l (s\<lparr>s_wb_size := n\<rparr>)) = wb_of (other p) s" by (cases p) (simp_all add: wb_of_def set_wb_def other_def)
  ultimately show ?thesis using assms same_socket_trans [OF same_socket_set(2)] by (auto simp: sent_ok_def split: sum.splits if_splits)
qed

lemma send_list_tcp_ok: "live soi s \<Longrightarrow> sent_ok soi p s (send_list_tcp soi ws p s)"
proof (induction ws arbitrary: s)
  case Nil
  then show ?case by (cases "wb_of p s") (auto simp: tcp_steps sent_ok_def)
next
  case (Cons w ws)
  show ?case
  proof (cases "wb_of p s")
    case Nil
    then show ?thesis using Cons.prems by (simp add: tcp_steps sent_ok_def)
  next
    case l: (Cons tmp rest)
    show ?thesis
    proof (cases w)
      case (W_sent k)
      show ?thesis
      proof (cases "k < length (wb_data tmp)")
        case True
        then show ?thesis using live_unsent(2) [OF Cons.prems l, of k] W_sent by (simp add: tcp_steps(6) [OF l True] sent_ok_def)
      next
        case False
        let ?s = "set_wb p rest (s\<lparr>s_wb_size := s_wb_size s - int (length (wb_data tmp))\<rparr>)"
        have "sent_ok soi p ?s (send_list_tcp soi ws p ?s)" using Cons.IH live_unsent(1) [OF Cons.prems l] by simp
        then show ?thesis using W_sent False tcp_steps(7) [OF l, of k soi ws] sent_ok_set by (simp add: sent_ok_calls)
      qed
    next
      case W_error
      then show ?thesis using force_close_live [OF Cons.prems] by (auto simp: tcp_steps(5) [OF l] sent_ok_def)
    qed (use Cons l in \<open>simp_all add: tcp_steps sent_ok_def\<close>)
  qed
qed

lemma send_list_udp_ok: "live soi s \<Longrightarrow> s_protocol s \<noteq> PROTOCOL_TCP \<Longrightarrow> sent_ok soi p s (send_list_udp ws p s)"
proof (induction ws arbitrary: s)
  case Nil
  then show ?case by (subst send_list_udp.simps) (auto simp: sent_ok_def split: list.splits option.splits)
next
  case (Cons w ws)
  show ?case
  proof (cases "wb_of p s")
    case Nil
    then show ?thesis using Cons.prems by (subst send_list_udp.simps) (simp add: sent_ok_def)
  next
    case l: (Cons tmp rest)
    let ?s = "set_wb p rest (s\<lparr>s_wb_size := s_wb_size s - int (length (wb_data tmp))\<rparr>)"
    have "sent_ok soi p ?s (send_list_udp ws p ?s)" using Cons.IH live_unsent(1) [OF Cons.prems(1) l] Cons.prems(2) by simp
    then have "sent_ok soi p s (send_list_udp ws p ?s)" by (rule sent_ok_set)
    then show ?thesis using Cons.prems l
      by (subst send_list_udp.simps) (cases w; cases "wb_udp_address tmp"; simp add: sent_ok_calls; simp add: sent_ok_def)
  qed
qed

lemma send_list_ok: "live soi s \<Longrightarrow> sent_ok soi p s (send_list soi ws p s)"
  using send_list_tcp_ok send_list_udp_ok by (simp add: send_list_def)

definition write_ok :: "soi \<Rightarrow> socket \<Rightarrow> write_result \<Rightarrow> bool" where
  "write_ok soi s r \<longleftrightarrow> (case r of Inl e \<Rightarrow> known_fault s e | Inr (cs, ev, s', ws) \<Rightarrow> next_socket soi s ev s' \<and> (is_close ev \<or> live soi s'))"

lemma write_ok_calls [simp]: "write_ok soi s (add_calls cs r) = write_ok soi s r"
  by (cases r) (auto simp: write_ok_def add_calls_def)

lemma closed_next: "free_slot s' \<Longrightarrow> s_id s' = s_id s \<Longrightarrow> t = SOCKET_CLOSE \<or> t = SOCKET_ERR \<Longrightarrow> sm_id m = s_id s \<Longrightarrow> next_socket soi s (Some (t, m)) s'"
  by (auto simp: next_socket_def)

lemma live_next: "live soi s' \<Longrightarrow> s_id s' = s_id s \<Longrightarrow> s_type s' = s_type s \<Longrightarrow> next_socket soi s ev s'"
  by (simp add: next_socket_def)

lemma closed_id [simp]: "sm_id (closed_message s) = s_id s"
  by (simp add: closed_message_def)

lemma check_close_ok:
  assumes "live soi s" "s_high s = []"
  shows "write_ok soi s (check_close soi ws s)"
proof (cases "s_low s = []")
  case True
  then have c: "c_assert (send_buffer_empty s \<and> s_wb_size s = 0) = Inr ()" using assms by (simp add: live_def send_buffer_empty_def)
  obtain cs s' where f: "force_close soi s = Inr (cs, closed_message s, s')" "free_slot s'" "s_id s' = s_id s" using force_close_live [OF assms(1)] by blast
  have "live soi (s\<lparr>s_warn_size := 0\<rparr>)" using assms(1) by (simp add: live_def dw_valid_def)
  then show ?thesis using assms(1) f live_next [of soi "s\<lparr>s_warn_size := 0\<rparr>" s] live_next [of soi s s] closed_next [OF f(2,3), of SOCKET_CLOSE]
    unfolding check_close_def c by (auto simp: write_ok_def add_calls_def)
next
  case False
  then show ?thesis by (simp add: check_close_def c_assert_def send_buffer_empty_def write_ok_def known_fault_def)
qed

lemma write_ok_same:
  assumes "write_ok soi s1 r" "same_socket s s1" "s_low s1 \<noteq> [] \<longrightarrow> s_low s \<noteq> []"
  shows "write_ok soi s r"
  using assms by (auto simp: write_ok_def next_socket_def same_socket_def known_fault_def split: sum.splits)

lemma send_low_ok:
  assumes "live soi s" "s_high s = []"
  shows "write_ok soi s (send_low soi ws s)"
proof (cases "s_low s = []")
  case True
  then show ?thesis using check_close_ok [OF assms] by (simp add: send_low_def)
next
  case False
  have ok: "sent_ok soi PRIORITY_LOW s (send_list soi ws PRIORITY_LOW s)" using send_list_ok [OF assms(1)] .
  show ?thesis
  proof (cases "send_list soi ws PRIORITY_LOW s")
    case (Inl e)
    then show ?thesis using ok False by (auto simp: send_low_def write_ok_def sent_ok_def known_fault_def)
  next
    case (Inr x)
    obtain cs ev s1 ws1 where x: "x = (cs, ev, s1, ws1)" by (cases x) auto
    show ?thesis
    proof (cases "is_close ev")
      case True
      then show ?thesis using ok False Inr x by (auto simp: send_low_def write_ok_def sent_ok_def intro: closed_next)
    next
      case open_: False
      have l: "live soi s1" "same_socket s s1" "s_high s1 = []" using ok Inr x open_ assms(2) by (simp_all add: sent_ok_def other_def wb_of_def)
      have c: "write_ok soi s (check_close soi ws1 s1)" using write_ok_same [OF check_close_ok [OF l(1,3)] l(2)] False by simp
      have r: "write_ok soi s (rbind (raise_uncomplete s1) (\<lambda>s2. Inr (cs, None, s2, ws1)))" if u: "list_uncomplete (s_low s1)"
      proof -
        obtain wb rest where low: "s_low s1 = wb # rest" using u by (auto simp: list_uncomplete_def split: list.splits)
        have "live soi (s1\<lparr>s_low := rest, s_high := [wb]\<rparr>)" using l(1,3) low by (simp add: live_def dw_valid_def)
        then show ?thesis using l(2,3) low by (auto simp: raise_uncomplete_def c_assert_def write_ok_def same_socket_def intro!: live_next)
      qed
      show ?thesis using False Inr x open_ c r by (auto simp: send_low_def)
    qed
  qed
qed

lemma take_direct_ok:
  assumes "live soi s"
  shows "\<exists>s0. take_direct soi s = Inr s0 \<and> live soi s0 \<and> s_low s0 = s_low s \<and> s_id s0 = s_id s \<and> s_type s0 = s_type s \<and> s_protocol s0 = s_protocol s"
  using assms by (auto simp: live_def dw_valid_def take_direct_def Let_def split: option.splits prod.splits)

lemma send_buffer_ok:
  assumes "live soi s"
  shows "write_ok soi s (send_buffer soi locked ws s)"
proof (cases locked)
  case True
  then show ?thesis using assms by (simp add: send_buffer_def write_ok_def live_next)
next
  case False
  obtain s0 where s0: "take_direct soi s = Inr s0" "live soi s0" "s_low s0 = s_low s" "s_id s0 = s_id s" "s_type s0 = s_type s" "s_protocol s0 = s_protocol s"
    using take_direct_ok [OF assms] by blast
  have "write_ok soi s0 (send_buffers soi ws s0)"
  proof (cases "list_uncomplete (s_low s0)")
    case True
    then show ?thesis by (auto simp: send_buffers_def c_assert_def write_ok_def known_fault_def list_uncomplete_def)
  next
    case fresh: False
    have ok: "sent_ok soi PRIORITY_HIGH s0 (send_list soi ws PRIORITY_HIGH s0)" using send_list_ok [OF s0(2)] .
    show ?thesis
    proof (cases "send_list soi ws PRIORITY_HIGH s0")
      case (Inl e)
      then show ?thesis using ok fresh by (auto simp: send_buffers_def c_assert_def write_ok_def sent_ok_def known_fault_def)
    next
      case (Inr x)
      obtain cs ev s1 ws1 where x: "x = (cs, ev, s1, ws1)" by (cases x) auto
      show ?thesis
      proof (cases "is_close ev")
        case True
        then show ?thesis using ok fresh Inr x by (auto simp: send_buffers_def c_assert_def write_ok_def sent_ok_def intro: closed_next)
      next
        case open_: False
        have l: "live soi s1" "same_socket s0 s1" "s_low s1 = s_low s0" using ok Inr x open_ by (simp_all add: sent_ok_def other_def wb_of_def)
        show ?thesis
        proof (cases "s_high s1 = []")
          case True
          have "write_ok soi s0 (send_low soi ws1 s1)" using write_ok_same [OF send_low_ok [OF l(1) True] l(2)] l(3) by simp
          then show ?thesis using fresh Inr x open_ True by (simp add: send_buffers_def c_assert_def)
        next
          case False
          then show ?thesis using fresh Inr x open_ l by (simp add: send_buffers_def c_assert_def write_ok_def same_socket_def live_next)
        qed
      qed
    qed
  qed
  then show ?thesis using s0 False
    by (auto simp: send_buffer_def write_ok_def next_socket_def known_fault_def split: sum.splits)
qed

definition result_ok :: "soi \<Rightarrow> socket \<Rightarrow> sock_result \<Rightarrow> bool" where
  "result_ok soi s r \<longleftrightarrow> (case r of Inl e \<Rightarrow> known_fault s e | Inr (cs, ev, s') \<Rightarrow> next_socket soi s ev s')"

lemma result_okI: "next_socket soi s ev s' \<Longrightarrow> result_ok soi s (Inr (cs, ev, s'))"
  by (simp add: result_ok_def)

lemma close_with_ok: "live soi s \<Longrightarrow> t = SOCKET_CLOSE \<or> t = SOCKET_ERR \<Longrightarrow> result_ok soi s (close_with soi s t d)"
  using force_close_live [of soi s] by (auto simp: close_with_def result_ok_def intro!: closed_next)

lemma forward_tcp_ok: "live soi s \<Longrightarrow> result_ok soi s (forward_message_tcp soi r s)"
  using close_with_ok [of soi s]
  by (auto simp: forward_message_tcp_def Let_def live_def dw_valid_def split: read_answer.splits intro!: result_okI live_next)

lemma forward_udp_ok: "live soi s \<Longrightarrow> result_ok soi s (forward_message_udp soi r s)"
  using close_with_ok [of soi s] by (auto simp: forward_message_udp_def split: recv_answer.splits intro!: result_okI live_next)

lemma report_connect_ok: "live soi s \<Longrightarrow> result_ok soi s (report_connect soi err peer s)"
  using close_with_ok [of soi s]
  by (auto simp: report_connect_def next_socket_def polled_def live_def dw_valid_def split: option.splits intro!: result_okI)

lemma close_socket_ok:
  assumes "live soi s" "s_id s = i"
  shows "result_ok soi s (close_socket soi locked ws i shutdown opaque s)"
proof -
  have t: "\<not> (s_type s = SOCKET_TYPE_INVALID \<or> s_id s \<noteq> i)" using assms by (simp add: live_def)
  let ?r = "if nomore_send_data s then Inr ([], None, s, ws) else send_buffer soi locked ws s"
  have ok: "write_ok soi s ?r" using send_buffer_ok [OF assms(1)] assms(1) by (simp add: write_ok_def live_next)
  show ?thesis
  proof (cases ?r)
    case (Inl e)
    then show ?thesis using ok unfolding close_socket_def if_not_P [OF t] by (simp add: write_ok_def result_ok_def)
  next
    case (Inr x)
    obtain cs ev s1 ws1 where x: "x = (cs, ev, s1, ws1)" by (cases x) auto
    have n: "next_socket soi s ev s1" "is_close ev \<or> live soi s1" using ok unfolding Inr x by (simp_all add: write_ok_def)
    have r: "close_socket soi locked ws i shutdown opaque s = (if is_close ev then Inr (cs, ev, s1)
        else if shutdown \<or> nomore_send_data s1
        then rbind (force_close soi s1) (\<lambda>(cs', m, s2). Inr (cs @ cs', Some (SOCKET_CLOSE, m\<lparr>sm_id := i, sm_opaque := opaque\<rparr>), s2))
        else Inr (cs, None, s1\<lparr>s_type := SOCKET_TYPE_HALFCLOSE\<rparr>))"
      unfolding close_socket_def if_not_P [OF t] Inr x by simp
    show ?thesis
    proof (cases "is_close ev")
      case True
      then show ?thesis using r n(1) by (simp add: result_ok_def)
    next
      case False
      then have l: "live soi s1" "s_id s1 = i" using n assms(2) by (simp_all add: next_socket_def)
      obtain cs' s2 where f: "force_close soi s1 = Inr (cs', closed_message s1, s2)" "free_slot s2" "s_id s2 = s_id s1" using force_close_live [OF l(1)] by blast
      have "next_socket soi s None (s1\<lparr>s_type := SOCKET_TYPE_HALFCLOSE\<rparr>)" using l assms(2) by (simp add: next_socket_def live_def dw_valid_def polled_def)
      then show ?thesis using r False f l(2) assms(2) by (auto simp: result_ok_def intro!: closed_next)
    qed
  qed
qed

lemma append_buffer_live:
  assumes "append_buffer soi p d a s = Inr s1" "live soi s"
  shows "live soi s1 \<and> s_id s1 = s_id s \<and> s_type s1 = s_type s"
  using assms by (cases p) (auto simp: append_buffer_eq live_def dw_valid_def set_wb_def wb_of_def)

lemma send_warning_live: "live soi s \<Longrightarrow> send_warning s = (e, s') \<Longrightarrow> live soi s' \<and> s_id s' = s_id s \<and> s_type s' = s_type s"
  by (auto simp: send_warning_def live_def dw_valid_def split: if_splits)

definition valid_data :: "soi \<Rightarrow> send_data \<Rightarrow> bool" where
  "valid_data soi d \<longleftrightarrow> (\<exists>x. send_object_init soi d = Inr x)"

lemma append_buffer_Inr: "valid_data soi d \<Longrightarrow> \<exists>s1. append_buffer soi p d a s = Inr s1"
  by (auto simp: append_buffer_def new_write_buffer_def valid_data_def)

lemma queue_data_live:
  assumes "live soi s" "valid_data soi d"
  shows "\<exists>cs queued s1. queue_data soi n s d p udp = Inr (cs, queued, s1) \<and> live soi s1 \<and> s_id s1 = s_id s \<and> s_type s1 = s_type s"
proof -
  obtain ptr bs user where d: "send_object_init soi d = Inr (ptr, bs, user)" using assms(2) by (auto simp: valid_data_def)
  have a: "\<exists>s1. append_buffer soi q d x s = Inr s1 \<and> live soi s1 \<and> s_id s1 = s_id s \<and> s_type s1 = s_type s" for q x
    using append_buffer_Inr [OF assms(2)] append_buffer_live [OF _ assms(1)] by blast
  show ?thesis using assms(1) a [of PRIORITY_HIGH None] a [of PRIORITY_LOW None] a [of p "Some (case udp of None \<Rightarrow> s_udp_address s | Some a \<Rightarrow> a)"]
    by (auto simp: queue_data_def Let_def d append_sendbuffer_def append_sendbuffer_low_def append_sendbuffer_udp_def)
qed

lemma send_socket_ok:
  assumes "live soi s" "valid_data soi d"
  shows "result_ok soi s (send_socket soi n i s d p udp)"
proof -
  obtain x where d: "send_object_init soi d = Inr x" using assms(2) by (auto simp: valid_data_def)
  obtain cs queued s1 where q: "queue_data soi n s d p udp = Inr (cs, queued, s1)" "live soi s1" "s_id s1 = s_id s" "s_type s1 = s_type s"
    using queue_data_live [OF assms] by blast
  obtain e s2 where w: "send_warning s1 = (e, s2)" by fastforce
  then have "live soi s2" "s_id s2 = s_id s" "s_type s2 = s_type s" using send_warning_live [OF q(2) w] q(3,4) by simp_all
  then show ?thesis using assms(1) q d w by (auto simp: send_socket_def result_ok_def intro!: live_next)
qed

lemma start_socket_ok:
  assumes "live soi s" "s_id s = i"
  shows "result_ok soi s (start_socket os soi k i opaque s)"
proof -
  obtain cs' s2 where f: "force_close soi s = Inr (cs', closed_message s, s2)" "free_slot s2" "s_id s2 = s_id s" using force_close_live [OF assms(1)] by blast
  have l: "next_socket soi s ev (s\<lparr>s_type := t, s_opaque := opaque\<rparr>)" if "t \<in> polled" for ev t
    using that assms(1) by (auto simp: next_socket_def live_def dw_valid_def polled_def)
  have "next_socket soi s ev (s\<lparr>s_opaque := opaque\<rparr>)" "next_socket soi s None s" for ev
    using assms(1) by (auto simp: next_socket_def live_def dw_valid_def)
  then show ?thesis using assms f l [of SOCKET_TYPE_CONNECTED] l [of SOCKET_TYPE_LISTEN]
    by (auto simp: start_socket_def live_def result_ok_def polled_def closed_next)
qed

lemma set_udp_address_ok: "live soi s \<Longrightarrow> result_ok soi s (set_udp_address i a s)"
  by (auto simp: set_udp_address_def Let_def result_ok_def live_def dw_valid_def intro!: live_next)

lemma setopt_socket_ok: "live soi s \<Longrightarrow> result_ok soi s (setopt_socket i what v s)"
  by (simp add: setopt_socket_def result_ok_def live_next)

section \<open>The server\<close>

text \<open>The id that a request opens, or the id of the socket it is for.\<close>

definition opens_id :: "ctrl_request \<Rightarrow> int option" where
  "opens_id r = (case r of Req_bind i _ _ \<Rightarrow> Some i | Req_listen i _ _ \<Rightarrow> Some i | Req_open i _ _ _ \<Rightarrow> Some i | Req_udp i _ _ _ \<Rightarrow> Some i | _ \<Rightarrow> None)"

definition targets_id :: "ctrl_request \<Rightarrow> int option" where
  "targets_id r = (case r of Req_start i _ \<Rightarrow> Some i | Req_close i _ _ \<Rightarrow> Some i | Req_send _ i _ \<Rightarrow> Some i | Req_send_udp i _ _ \<Rightarrow> Some i
     | Req_setudp i _ \<Rightarrow> Some i | Req_setopt i _ _ \<Rightarrow> Some i | _ \<Rightarrow> None)"

definition reserved :: "socket_server \<Rightarrow> int set" where
  "reserved ss = {s_id (ss_slot ss k) | k. k < MAX_SOCKET \<and> s_type (ss_slot ss k) = SOCKET_TYPE_RESERVE}"

text \<open>Each reserved id is opened by exactly one request, which comes before all others for it.\<close>

fun pipe_ok :: "int set \<Rightarrow> ctrl_request list \<Rightarrow> bool" where
  "pipe_ok R [] \<longleftrightarrow> R = {}"
| "pipe_ok R (r # rs) \<longleftrightarrow>
     (case opens_id r of
        Some i \<Rightarrow> i \<in> R \<and> pipe_ok (R - {i}) rs
      | None \<Rightarrow> (\<forall>i. targets_id r = Some i \<longrightarrow> i \<notin> R) \<and> pipe_ok R rs)"

definition slot_ok :: "soi \<Rightarrow> int \<Rightarrow> nat \<Rightarrow> socket \<Rightarrow> bool" where
  "slot_ok soi alloc k s \<longleftrightarrow> free_slot s
     \<or> (live soi s \<or> s_type s = SOCKET_TYPE_RESERVE \<and> s_high s = [] \<and> s_low s = []) \<and> HASH_ID (s_id s) = k \<and> 0 \<le> s_id s \<and> s_id s \<le> alloc"

definition req_ok :: "soi \<Rightarrow> int \<Rightarrow> ctrl_request \<Rightarrow> bool" where
  "req_ok soi alloc r \<longleftrightarrow> (\<forall>i. opens_id r = Some i \<or> targets_id r = Some i \<longrightarrow> i \<le> alloc)
     \<and> (case r of Req_send _ _ d \<Rightarrow> valid_data soi d | Req_send_udp _ d _ \<Rightarrow> valid_data soi d | _ \<Rightarrow> True)"

definition ev_slots :: "event list \<Rightarrow> nat list" where
  "ev_slots es = List.map_filter ev_s es"

definition ev_ok :: "socket_server \<Rightarrow> event list \<Rightarrow> bool" where
  "ev_ok ss es \<longleftrightarrow> distinct (ev_slots es) \<and> (\<forall>k\<in>set (ev_slots es). k < MAX_SOCKET \<and> s_type (ss_slot ss k) \<in> polled)"

definition core_inv :: "socket_server \<Rightarrow> bool" where
  "core_inv ss \<longleftrightarrow> (\<forall>k<MAX_SOCKET. slot_ok (ss_soi ss) (ss_alloc_id ss) k (ss_slot ss k)) \<and> 0 \<le> ss_alloc_id ss
     \<and> pipe_ok (reserved ss) (ss_ctrl ss) \<and> list_all (req_ok (ss_soi ss) (ss_alloc_id ss)) (ss_ctrl ss)"

definition server_inv :: "socket_server \<Rightarrow> bool" where
  "server_inv ss \<longleftrightarrow> core_inv ss \<and> ss_event_index ss \<le> length (ss_ev ss) \<and> ev_ok ss (drop (ss_event_index ss) (ss_ev ss))"

lemma HASH_ID_less [simp]: "HASH_ID i < MAX_SOCKET"
  by (simp add: HASH_ID_def MAX_SOCKET_def)

lemma ev_slots_simps [simp]:
  "ev_slots [] = []" "ev_slots (e # es) = (case ev_s e of None \<Rightarrow> ev_slots es | Some k \<Rightarrow> k # ev_slots es)"
  by (simp_all add: ev_slots_def map_filter_simps split: option.splits)

lemma inv_slot: "core_inv ss \<Longrightarrow> k < MAX_SOCKET \<Longrightarrow> slot_ok (ss_soi ss) (ss_alloc_id ss) k (ss_slot ss k)"
  by (simp add: core_inv_def)

lemma reserved_slot:
  assumes "core_inv ss" "i \<in> reserved ss"
  shows "s_type (sock_at ss i) = SOCKET_TYPE_RESERVE \<and> s_id (sock_at ss i) = i \<and> s_high (sock_at ss i) = [] \<and> s_low (sock_at ss i) = [] \<and> 0 \<le> i \<and> i \<le> ss_alloc_id ss"
proof -
  obtain k where k: "k < MAX_SOCKET" "s_type (ss_slot ss k) = SOCKET_TYPE_RESERVE" "s_id (ss_slot ss k) = i" using assms(2) by (auto simp: reserved_def)
  then show ?thesis using inv_slot [OF assms(1) k(1)] by (auto simp: slot_ok_def free_slot_def live_def)
qed

lemma reserved_update:
  assumes "k < MAX_SOCKET"
  shows "s_type (ss_slot ss k) \<noteq> SOCKET_TYPE_RESERVE \<Longrightarrow> s_type s \<noteq> SOCKET_TYPE_RESERVE \<Longrightarrow> reserved (set_slot ss k s) = reserved ss"
    and "s_type (ss_slot ss k) \<noteq> SOCKET_TYPE_RESERVE \<Longrightarrow> s_type s = SOCKET_TYPE_RESERVE \<Longrightarrow> reserved (set_slot ss k s) = insert (s_id s) (reserved ss)"
proof -
  show "s_type (ss_slot ss k) \<noteq> SOCKET_TYPE_RESERVE \<Longrightarrow> s_type s \<noteq> SOCKET_TYPE_RESERVE \<Longrightarrow> reserved (set_slot ss k s) = reserved ss"
    unfolding reserved_def by (auto simp: fun_upd_def)
  show "s_type (ss_slot ss k) \<noteq> SOCKET_TYPE_RESERVE \<Longrightarrow> s_type s = SOCKET_TYPE_RESERVE \<Longrightarrow> reserved (set_slot ss k s) = insert (s_id s) (reserved ss)"
    unfolding reserved_def using assms by (auto simp: fun_upd_def)
qed

lemma reserved_fields [simp]:
  "reserved (ss\<lparr>ss_ctrl := c\<rparr>) = reserved ss" "reserved (ss\<lparr>ss_alloc_id := a\<rparr>) = reserved ss" "reserved (ss\<lparr>ss_ev := es\<rparr>) = reserved ss"
  "reserved (ss\<lparr>ss_event_index := j\<rparr>) = reserved ss" "reserved (ss\<lparr>ss_checkctrl := b\<rparr>) = reserved ss" "reserved (ss\<lparr>ss_soi := x\<rparr>) = reserved ss"
  by (simp_all add: reserved_def)

lemma reserved_opened:
  assumes "core_inv ss" "i \<in> reserved ss" "s_type s \<noteq> SOCKET_TYPE_RESERVE"
  shows "reserved (set_slot ss (HASH_ID i) s) = reserved ss - {i}"
proof -
  have u: "k = HASH_ID i" if "k < MAX_SOCKET" "s_type (ss_slot ss k) = SOCKET_TYPE_RESERVE" "s_id (ss_slot ss k) = i" for k
    using inv_slot [OF assms(1) that(1)] that(2,3) by (auto simp: slot_ok_def free_slot_def live_def)
  have "s_id (sock_at ss i) = i" using reserved_slot [OF assms(1,2)] by blast
  then show ?thesis using assms(3) u unfolding reserved_def by (auto simp: fun_upd_def) metis+
qed

lemma pipe_ok_other: "pipe_ok R rs \<Longrightarrow> opens_id r = None \<Longrightarrow> pipe_ok R (rs @ [r])"
  by (induction rs arbitrary: R) (auto split: option.splits)

lemma pipe_ok_open:
  "pipe_ok R rs \<Longrightarrow> i \<notin> R \<Longrightarrow> list_all (\<lambda>r. opens_id r \<noteq> Some i \<and> targets_id r \<noteq> Some i) rs \<Longrightarrow> opens_id r = Some i \<Longrightarrow> pipe_ok (insert i R) (rs @ [r])"
proof (induction rs arbitrary: R)
  case (Cons q rs)
  show ?case
  proof (cases "opens_id q")
    case None
    then show ?thesis using Cons by auto
  next
    case (Some j)
    then have "insert i R - {j} = insert i (R - {j})" using Cons.prems(3) by auto
    then show ?thesis using Cons Some by auto
  qed
qed auto

lemma core_inv_fields [simp]:
  "core_inv (ss\<lparr>ss_ev := es\<rparr>) = core_inv ss" "core_inv (ss\<lparr>ss_event_index := j\<rparr>) = core_inv ss" "core_inv (ss\<lparr>ss_checkctrl := b\<rparr>) = core_inv ss"
  by (simp_all add: core_inv_def)

lemma next_slot_ok:
  assumes "slot_ok soi alloc k s" "live soi s" "next_socket soi s ev s'"
  shows "slot_ok soi alloc k s'" "s_type s' \<noteq> SOCKET_TYPE_RESERVE"
  using assms by (auto simp: slot_ok_def next_socket_def free_slot_def live_def)

lemma core_slot:
  assumes "core_inv ss" "k < MAX_SOCKET" "live (ss_soi ss) (ss_slot ss k)" "next_socket (ss_soi ss) (ss_slot ss k) ev s'"
  shows "core_inv (set_slot ss k s')"
proof -
  have "reserved (set_slot ss k s') = reserved ss"
    using next_slot_ok(2) [OF inv_slot [OF assms(1,2)] assms(3,4)] assms(3) by (intro reserved_update(1) [OF assms(2)]) (auto simp: live_def)
  then show ?thesis using assms(1) next_slot_ok(1) [OF inv_slot [OF assms(1,2)] assms(3,4)] by (simp add: core_inv_def)
qed

text \<open>A fault of a socket in use.\<close>

definition fault_at :: "socket_server \<Rightarrow> c_error \<Rightarrow> bool" where
  "fault_at ss e \<longleftrightarrow> e = Diverges \<or> (\<exists>k<MAX_SOCKET. s_type (ss_slot ss k) \<noteq> SOCKET_TYPE_INVALID \<and> known_fault (ss_slot ss k) e)"

text \<open>What handling a request or an event of one socket leads to.\<close>

definition server_next :: "socket_server \<Rightarrow> ss_event option \<Rightarrow> socket_server \<Rightarrow> bool" where
  "server_next ss ev ss' \<longleftrightarrow> (\<exists>k<MAX_SOCKET. \<exists>s'. ss' = set_slot ss k s' \<and>
     (s' = ss_slot ss k \<or> live (ss_soi ss) (ss_slot ss k) \<and> next_socket (ss_soi ss) (ss_slot ss k) ev s'))"

lemma server_next_refl [simp]: "server_next ss ev ss"
proof -
  have "ss = set_slot ss 0 (ss_slot ss 0)" "0 < MAX_SOCKET" by (simp_all add: MAX_SOCKET_def)
  then show ?thesis unfolding server_next_def by blast
qed

definition server_ok :: "socket_server \<Rightarrow> server_result \<Rightarrow> bool" where
  "server_ok ss r \<longleftrightarrow> (case r of Inl e \<Rightarrow> fault_at ss e | Inr (cs, ev, ss') \<Rightarrow> server_next ss ev ss')"

lemma server_next_core: "core_inv ss \<Longrightarrow> server_next ss ev ss' \<Longrightarrow> core_inv ss'"
  using core_slot by (auto simp: server_next_def)

lemma live_slot_ok:
  assumes "k < MAX_SOCKET" "live (ss_soi ss) (ss_slot ss k)" "result_ok (ss_soi ss) (ss_slot ss k) (f (ss_slot ss k))"
  shows "server_ok ss (on_slot k f ss)"
proof (cases "f (ss_slot ss k)")
  case (Inl e)
  then show ?thesis using assms by (auto simp: on_slot_def server_ok_def result_ok_def fault_at_def live_def)
next
  case (Inr x)
  then show ?thesis using assms by (cases x) (auto simp: on_slot_def server_ok_def result_ok_def server_next_def)
qed

lemma on_slot_ok:
  assumes "core_inv ss" "i \<notin> reserved ss" "\<And>s. s_type s = SOCKET_TYPE_INVALID \<or> s_id s \<noteq> i \<Longrightarrow> \<exists>cs ev. f s = Inr (cs, ev, s)"
    "\<And>s. live (ss_soi ss) s \<Longrightarrow> s_id s = i \<Longrightarrow> result_ok (ss_soi ss) s (f s)"
  shows "server_ok ss (on_slot (HASH_ID i) f ss)"
proof (cases "s_type (sock_at ss i) = SOCKET_TYPE_INVALID \<or> s_id (sock_at ss i) \<noteq> i")
  case True
  then show ?thesis using assms(3) [OF True] by (auto simp: on_slot_def server_ok_def)
next
  case False
  then have "s_type (sock_at ss i) \<noteq> SOCKET_TYPE_RESERVE" using assms(2) by (auto simp: reserved_def)
  then have "live (ss_soi ss) (sock_at ss i)" using inv_slot [OF assms(1), of "HASH_ID i"] False by (auto simp: slot_ok_def free_slot_def)
  then show ?thesis using assms(4) False by (intro live_slot_ok) simp_all
qed

lemma stale_requests:
  assumes "s_type s = SOCKET_TYPE_INVALID \<or> s_id s \<noteq> i"
  shows "\<exists>cs ev. close_socket soi locked ws i shutdown opaque s = Inr (cs, ev, s)" "\<exists>cs ev. start_socket os soi k i opaque s = Inr (cs, ev, s)"
    "\<exists>cs ev. setopt_socket i what v s = Inr (cs, ev, s)" "\<exists>cs ev. set_udp_address i a s = Inr (cs, ev, s)"
    "valid_data soi d \<Longrightarrow> \<exists>cs ev. send_socket soi n i s d p udp = Inr (cs, ev, s)"
  using assms by (auto simp: close_socket_def start_socket_def setopt_socket_def set_udp_address_def send_socket_def valid_data_def)

lemma target_request_ok:
  assumes "core_inv ss" "opens_id r = None" "\<And>i. targets_id r = Some i \<Longrightarrow> i \<notin> reserved ss" "req_ok (ss_soi ss) alloc r"
  shows "server_ok ss (handle_request os r ss)"
proof -
  note stale = stale_requests
  show ?thesis
  proof (cases r)
    case (Req_start i opaque)
    then show ?thesis using assms stale(2) start_socket_ok by (auto simp: handle_request_def targets_id_def intro!: on_slot_ok)
  next
    case (Req_close i shutdown opaque)
    then show ?thesis using assms stale(1) close_socket_ok by (auto simp: handle_request_def targets_id_def intro!: on_slot_ok)
  next
    case (Req_send p i d)
    then show ?thesis using assms stale(5) send_socket_ok by (auto simp: handle_request_def targets_id_def req_ok_def intro!: on_slot_ok)
  next
    case (Req_send_udp i d a)
    then show ?thesis using assms stale(5) send_socket_ok by (auto simp: handle_request_def targets_id_def req_ok_def intro!: on_slot_ok)
  next
    case (Req_setudp i a)
    then show ?thesis using assms stale(4) set_udp_address_ok by (auto simp: handle_request_def targets_id_def intro!: on_slot_ok)
  next
    case (Req_setopt i what v)
    then show ?thesis using assms stale(3) setopt_socket_ok by (auto simp: handle_request_def targets_id_def intro!: on_slot_ok)
  qed (use assms(2) in \<open>simp_all add: opens_id_def handle_request_def server_ok_def\<close>)
qed

section \<open>Opening\<close>

definition reserved_at :: "socket_server \<Rightarrow> int \<Rightarrow> bool" where
  "reserved_at ss i \<longleftrightarrow> s_type (sock_at ss i) = SOCKET_TYPE_RESERVE \<and> s_id (sock_at ss i) = i \<and> s_high (sock_at ss i) = [] \<and> s_low (sock_at ss i) = []"

lemma new_fd_reserved:
  assumes "reserved_at ss i"
  shows "\<exists>cs b s'. new_fd ok ss i fd protocol opaque add = Inr (cs, b, set_slot ss (HASH_ID i) s') \<and> s_high s' = [] \<and> s_low s' = []
     \<and> (if b then s_type s' = SOCKET_TYPE_RESERVE \<and> s_id s' = i \<and> s_wb_size s' = 0 \<and> s_dw s' = None else s_type s' = SOCKET_TYPE_INVALID)"
proof -
  let ?s = "sock_at ss i"
  let ?s' = "if add \<and> \<not> ok then ?s\<lparr>s_type := SOCKET_TYPE_INVALID\<rparr>
    else ?s\<lparr>s_id := i, s_fd := fd, s_protocol := protocol, s_size := MIN_READ_BUFFER, s_opaque := opaque, s_wb_size := 0, s_warn_size := 0, s_dw := None\<rparr>"
  have "new_fd ok ss i fd protocol opaque add = Inr (if add then [Sp_add fd (HASH_ID i)] else [], \<not> (add \<and> \<not> ok), set_slot ss (HASH_ID i) ?s')"
    using assms by (simp add: reserved_at_def new_fd_def Let_def c_assert_def)
  moreover have "s_high ?s' = [] \<and> s_low ?s' = []
     \<and> (if \<not> (add \<and> \<not> ok) then s_type ?s' = SOCKET_TYPE_RESERVE \<and> s_id ?s' = i \<and> s_wb_size ?s' = 0 \<and> s_dw ?s' = None else s_type ?s' = SOCKET_TYPE_INVALID)"
    using assms by (simp add: reserved_at_def)
  ultimately show ?thesis by blast
qed

text \<open>The slot of a request that opens a socket gets into use or is free again.\<close>

definition opened :: "socket_server \<Rightarrow> int \<Rightarrow> ss_event option \<Rightarrow> socket_server \<Rightarrow> bool" where
  "opened ss i ev ss' \<longleftrightarrow> (\<exists>s'. ss' = set_slot ss (HASH_ID i) s' \<and> (live (ss_soi ss) s' \<and> s_id s' = i \<or> free_slot s'))"

lemma opened_core:
  assumes "core_inv ss" "i \<in> reserved ss" "live (ss_soi ss) s' \<and> s_id s' = i \<or> free_slot s'" "ss_ctrl ss = r # rs" "opens_id r = Some i"
  shows "core_inv (set_slot (ss\<lparr>ss_ctrl := rs\<rparr>) (HASH_ID i) s')"
proof -
  note s' = assms(3)
  have "s_type s' \<noteq> SOCKET_TYPE_RESERVE" using s' by (auto simp: live_def free_slot_def)
  then have "reserved (set_slot ss (HASH_ID i) s') = reserved ss - {i}" using reserved_opened [OF assms(1,2)] by simp
  then have "reserved (set_slot (ss\<lparr>ss_ctrl := rs\<rparr>) (HASH_ID i) s') = reserved ss - {i}" by (simp add: reserved_def)
  moreover have "slot_ok (ss_soi ss) (ss_alloc_id ss) (HASH_ID i) s'" using s' reserved_slot [OF assms(1,2)] by (auto simp: slot_ok_def)
  moreover have "pipe_ok (reserved ss - {i}) rs" "list_all (req_ok (ss_soi ss) (ss_alloc_id ss)) rs" "0 \<le> ss_alloc_id ss"
    using assms(1,4,5) by (simp_all add: core_inv_def)
  moreover have "\<forall>k<MAX_SOCKET. slot_ok (ss_soi ss) (ss_alloc_id ss) k (ss_slot ss k)" using assms(1) by (simp add: core_inv_def)
  ultimately show ?thesis unfolding core_inv_def by simp
qed

lemma set_type_slot: "set_type (set_slot ss (HASH_ID i) s) i t = set_slot ss (HASH_ID i) (s\<lparr>s_type := t\<rparr>)"
  by (simp add: set_type_def)

lemma open_request_ok:
  assumes "reserved_at ss i" "opens_id r = Some i"
  shows "\<exists>cs ev ss'. handle_request os r ss = Inr (cs, ev, ss') \<and> opened ss i ev ss'"
proof -
  note slot = assms(1) [unfolded reserved_at_def]
  note nf = new_fd_reserved [OF assms(1)]
  have live1: "live (ss_soi ss) (s'\<lparr>s_type := t\<rparr>) \<and> s_id (s'\<lparr>s_type := t\<rparr>) = i"
    if "s_high s' = []" "s_low s' = []" "s_id s' = i" "s_wb_size s' = 0" "s_dw s' = None" "t \<noteq> SOCKET_TYPE_INVALID" "t \<noteq> SOCKET_TYPE_RESERVE" for s' :: socket and t
    using that by (simp add: live_def dw_valid_def)
  have free1: "free_slot (s'\<lparr>s_type := SOCKET_TYPE_INVALID\<rparr>)" if "s_high s' = []" "s_low s' = []" for s' :: socket using that by (simp add: free_slot_def)
  have o: "opened ss i ev (set_slot ss (HASH_ID i) s')" if "live (ss_soi ss) s' \<and> s_id s' = i \<or> free_slot s'" for ev s'
    using that by (auto simp: opened_def)
  have failed: "open_failed ss i opaque err cs = Inr (cs, Some (SOCKET_ERR, reply i opaque (Sm_text err)), set_slot ss (HASH_ID i) ((sock_at ss i)\<lparr>s_type := SOCKET_TYPE_INVALID\<rparr>))" for opaque err cs
    by (simp add: open_failed_def set_type_def)
  show ?thesis
  proof (cases r)
    case (Req_bind j fd opaque)
    then have j: "j = i" using assms(2) by (simp add: opens_id_def)
    obtain cs b s' where n: "new_fd (os_add_ok os) ss i fd PROTOCOL_TCP opaque True = Inr (cs, b, set_slot ss (HASH_ID i) s')" "s_high s' = []" "s_low s' = []"
      "if b then s_type s' = SOCKET_TYPE_RESERVE \<and> s_id s' = i \<and> s_wb_size s' = 0 \<and> s_dw s' = None else s_type s' = SOCKET_TYPE_INVALID" using nf by blast
    then show ?thesis using Req_bind j live1 [of s' SOCKET_TYPE_BIND]
      by (cases b) (auto simp: handle_request_def bind_socket_def set_type_slot free_slot_def intro!: o)
  next
    case (Req_listen j fd opaque)
    then have j: "j = i" using assms(2) by (simp add: opens_id_def)
    obtain cs b s' where n: "new_fd (os_add_ok os) ss i fd PROTOCOL_TCP opaque False = Inr (cs, b, set_slot ss (HASH_ID i) s')" "s_high s' = []" "s_low s' = []"
      "if b then s_type s' = SOCKET_TYPE_RESERVE \<and> s_id s' = i \<and> s_wb_size s' = 0 \<and> s_dw s' = None else s_type s' = SOCKET_TYPE_INVALID" using nf by blast
    then show ?thesis using Req_listen j live1 [of s' SOCKET_TYPE_PLISTEN]
      by (cases b) (auto simp: handle_request_def listen_socket_def set_type_slot free_slot_def open_failed_def intro!: o)
  next
    case (Req_udp j fd v6 opaque)
    then have j: "j = i" using assms(2) by (simp add: opens_id_def)
    obtain cs b s' where n: "new_fd (os_add_ok os) ss i fd (if v6 then PROTOCOL_UDPv6 else PROTOCOL_UDP) opaque True = Inr (cs, b, set_slot ss (HASH_ID i) s')" "s_high s' = []" "s_low s' = []"
      "if b then s_type s' = SOCKET_TYPE_RESERVE \<and> s_id s' = i \<and> s_wb_size s' = 0 \<and> s_dw s' = None else s_type s' = SOCKET_TYPE_INVALID" using nf by blast
    then show ?thesis using Req_udp j
      by (cases b) (auto simp: handle_request_def add_udp_socket_def set_type_slot free_slot_def live_def dw_valid_def intro!: o)
  next
    case (Req_open j port opaque host)
    then have j: "j = i" using assms(2) by (simp add: opens_id_def)
    show ?thesis
    proof (cases "os_open os")
      case (Gai_error err)
      then show ?thesis using Req_open j failed free1 slot by (auto simp: handle_request_def open_socket_def intro!: o)
    next
      case (Gai_list as err)
      obtain c conn where t: "try_connect as = (c, conn)" by fastforce
      show ?thesis
      proof (cases conn)
        case None
        then show ?thesis using Req_open j failed free1 slot Gai_list t by (auto simp: handle_request_def open_socket_def intro!: o)
      next
        case (Some x)
        obtain sock ready peer where x: "x = (sock, ready, peer)" by (cases x) auto
        obtain cs b s' where n: "new_fd (os_add_ok os) ss i sock PROTOCOL_TCP opaque True = Inr (cs, b, set_slot ss (HASH_ID i) s')" "s_high s' = []" "s_low s' = []"
          "if b then s_type s' = SOCKET_TYPE_RESERVE \<and> s_id s' = i \<and> s_wb_size s' = 0 \<and> s_dw s' = None else s_type s' = SOCKET_TYPE_INVALID" using nf by blast
        then show ?thesis using Req_open j Gai_list t Some x live1 [of s' SOCKET_TYPE_CONNECTED] live1 [of s' SOCKET_TYPE_CONNECTING]
          by (cases b; cases ready) (auto simp: handle_request_def open_socket_def set_type_slot free_slot_def open_failed_def intro!: o)
      qed
    qed
  qed (use assms(2) in \<open>simp_all add: opens_id_def\<close>)
qed

section \<open>Pending events\<close>

lemma clear_first_slots:
  "(\<And>e. e \<in> set es \<Longrightarrow> P e \<longleftrightarrow> ev_s e = Some k) \<Longrightarrow> distinct (ev_slots es) \<Longrightarrow>
   distinct (ev_slots (clear_first P es)) \<and> set (ev_slots (clear_first P es)) = set (ev_slots es) - {k}"
  by (induction es) (auto split: option.splits)

lemma clear_first_none: "(\<And>e. e \<in> set es \<Longrightarrow> \<not> P e) \<Longrightarrow> clear_first P es = es"
  by (induction es) auto

lemma ev_slots_mem: "k \<in> set (ev_slots es) \<longleftrightarrow> (\<exists>e\<in>set es. ev_s e = Some k)"
  by (induction es) (auto split: option.splits)

lemma ev_ok_slot:
  assumes "ev_ok ss es" "s_type s' \<in> polled \<or> k \<notin> set (ev_slots es)"
  shows "ev_ok (set_slot ss k s') es"
  using assms by (auto simp: ev_ok_def)

definition closes :: "(event \<Rightarrow> bool) \<Rightarrow> socket_server \<Rightarrow> int \<Rightarrow> bool" where
  "closes P ss i \<longleftrightarrow> (\<forall>e. P e \<longleftrightarrow> (\<exists>k. ev_s e = Some k \<and> s_type (ss_slot ss k) = SOCKET_TYPE_INVALID \<and> s_id (ss_slot ss k) = i))"

lemma ev_ok_clear:
  assumes "ev_ok ss es" "closes P (set_slot ss k s') i" "s_type s' \<in> polled \<or> k \<notin> set (ev_slots es) \<or> s_type s' = SOCKET_TYPE_INVALID \<and> s_id s' = i"
  shows "ev_ok (set_slot ss k s') (clear_first P es)"
proof (cases "s_type s' \<in> polled \<or> k \<notin> set (ev_slots es)")
  case True
  then have ok: "ev_ok (set_slot ss k s') es" using ev_ok_slot [OF assms(1)] by blast
  then have "\<not> P e" if "e \<in> set es" for e
  proof -
    have "s_type (ss_slot (set_slot ss k s') k') \<in> polled" if "ev_s e = Some k'" for k'
      using that \<open>e \<in> set es\<close> ok ev_slots_mem unfolding ev_ok_def by blast
    then show ?thesis using assms(2) by (auto simp: closes_def polled_def)
  qed
  then show ?thesis using ok clear_first_none by metis
next
  case False
  then have s': "s_type s' = SOCKET_TYPE_INVALID" "s_id s' = i" using assms(3) by auto
  have "P e \<longleftrightarrow> ev_s e = Some k" if "e \<in> set es" for e
  proof -
    have "s_type (ss_slot ss k') \<noteq> SOCKET_TYPE_INVALID" if "ev_s e = Some k'" for k'
    proof -
      have "s_type (ss_slot ss k') \<in> polled" using that \<open>e \<in> set es\<close> assms(1) ev_slots_mem unfolding ev_ok_def by blast
      then show ?thesis by (auto simp: polled_def)
    qed
    then show ?thesis using assms(2) s' by (auto simp: closes_def)
  qed
  then have "distinct (ev_slots (clear_first P es)) \<and> set (ev_slots (clear_first P es)) = set (ev_slots es) - {k}"
    using clear_first_slots assms(1) by (simp add: ev_ok_def)
  then show ?thesis using assms(1) by (auto simp: ev_ok_def)
qed

text \<open>After a request: its effect on one slot, and the event of a closed socket taken away.\<close>

lemma ev_ok_fields [simp]: "ev_ok (ss\<lparr>ss_ctrl := c\<rparr>) es = ev_ok ss es" "ev_ok (ss\<lparr>ss_ev := es'\<rparr>) es = ev_ok ss es" "ev_ok (ss\<lparr>ss_event_index := j\<rparr>) es = ev_ok ss es"
  "ev_ok (ss\<lparr>ss_checkctrl := b\<rparr>) es = ev_ok ss es" "ev_ok (ss\<lparr>ss_alloc_id := a\<rparr>) es = ev_ok ss es" "ev_ok (ss\<lparr>ss_soi := f\<rparr>) es = ev_ok ss es"
  by (simp_all add: ev_ok_def)

lemma request_events:
  assumes "ss_event_index ss \<le> length (ss_ev ss)" "ev_ok ss (drop (ss_event_index ss) (ss_ev ss))" "core_inv (set_slot ss k s')"
    and "s_type s' \<in> polled \<or> k \<notin> set (ev_slots (drop (ss_event_index ss) (ss_ev ss)))
       \<or> s_type s' = SOCKET_TYPE_INVALID \<and> (\<exists>t m. ev = Some (t, m) \<and> (t = SOCKET_CLOSE \<or> t = SOCKET_ERR) \<and> sm_id m = s_id s')"
  shows "server_inv (case ev of None \<Rightarrow> set_slot ss k s' | Some e \<Rightarrow> clear_closed_event e (set_slot ss k s'))"
proof (cases "\<exists>t m. ev = Some (t, m) \<and> (t = SOCKET_CLOSE \<or> t = SOCKET_ERR)")
  case True
  then obtain t m where ev: "ev = Some (t, m)" "t = SOCKET_CLOSE \<or> t = SOCKET_ERR" by blast
  let ?ss = "set_slot ss k s'" and ?es = "drop (ss_event_index ss) (ss_ev ss)"
  let ?P = "\<lambda>e. case ev_s e of None \<Rightarrow> False | Some j \<Rightarrow> s_type (ss_slot ?ss j) = SOCKET_TYPE_INVALID \<and> s_id (ss_slot ?ss j) = sm_id m"
  have "closes ?P ?ss (sm_id m)" by (auto simp: closes_def split: option.splits)
  then have ok: "ev_ok ?ss (clear_first ?P ?es)" using ev_ok_clear [OF assms(2)] assms(4) ev(1) by auto
  have "clear_closed_event (t, m) ?ss = ?ss\<lparr>ss_ev := take (ss_event_index ss) (ss_ev ss) @ clear_first ?P ?es\<rparr>"
    unfolding clear_closed_event_def using ev(2) by simp
  then have "server_inv (clear_closed_event (t, m) ?ss)" using assms(1,3) ok unfolding server_inv_def by simp
  then show ?thesis using ev(1) by simp
next
  case False
  then have "ev_ok (set_slot ss k s') (drop (ss_event_index ss) (ss_ev ss))" using ev_ok_slot [OF assms(2)] assms(4) by auto
  then show ?thesis using False assms(1,3) by (auto simp: server_inv_def clear_closed_event_def split: option.splits)
qed

lemma unpolled: "ev_ok ss es \<Longrightarrow> s_type (ss_slot ss k) \<notin> polled \<Longrightarrow> k \<notin> set (ev_slots es)"
  by (auto simp: ev_ok_def)

lemma next_events:
  assumes "ev_ok ss es" "s' = ss_slot ss k \<or> live (ss_soi ss) (ss_slot ss k) \<and> next_socket (ss_soi ss) (ss_slot ss k) ev s'"
  shows "s_type s' \<in> polled \<or> k \<notin> set (ev_slots es)
       \<or> s_type s' = SOCKET_TYPE_INVALID \<and> (\<exists>t m. ev = Some (t, m) \<and> (t = SOCKET_CLOSE \<or> t = SOCKET_ERR) \<and> sm_id m = s_id s')"
  using assms(2) unpolled [OF assms(1), of k] by (auto simp: next_socket_def free_slot_def)

lemma ctrl_round:
  assumes "server_inv ss" "ss_checkctrl ss" "ss_ctrl ss \<noteq> []"
  shows "case poll_round os ss of Inl e \<Rightarrow> fault_at ss e | Inr (cs, waited, r, ss') \<Rightarrow> server_inv ss'"
proof -
  obtain r rs where rs: "ss_ctrl ss = r # rs" using assms(3) by (cases "ss_ctrl ss") auto
  let ?ss = "ss\<lparr>ss_ctrl := rs\<rparr>"
  have core: "core_inv ss" and idx: "ss_event_index ss \<le> length (ss_ev ss)" and ev: "ev_ok ss (drop (ss_event_index ss) (ss_ev ss))"
    using assms(1) by (simp_all add: server_inv_def)
  have req: "req_ok (ss_soi ss) (ss_alloc_id ss) r" "pipe_ok (reserved ss) (r # rs)" using core rs by (simp_all add: core_inv_def)
  let ?round = "\<lambda>x. case x of (cs, e, ss1) \<Rightarrow> case e of None \<Rightarrow> Inr (cs, False, None, ss1) | Some v \<Rightarrow> Inr (cs, False, Some (Some v), clear_closed_event v ss1)"
  have round: "poll_round os ss = rbind (handle_request os r ?ss) ?round" using assms(2) rs by (simp add: poll_round_def ctrl_cmd_def)
  show ?thesis
  proof (cases "opens_id r")
    case None
    have core1: "core_inv ?ss" using core rs req(2) None by (simp add: core_inv_def)
    have "i \<notin> reserved ?ss" if "targets_id r = Some i" for i using req(2) None that by simp
    then have ok: "server_ok ?ss (handle_request os r ?ss)" using target_request_ok [OF core1 None] req(1) by simp
    show ?thesis
    proof (cases "handle_request os r ?ss")
      case (Inl e)
      then show ?thesis using ok round by (auto simp: server_ok_def fault_at_def)
    next
      case (Inr x)
      obtain cs v ss1 where x: "x = (cs, v, ss1)" by (cases x) auto
      then have next1: "server_next ?ss v ss1" using ok Inr by (simp add: server_ok_def)
      then obtain k s' where k: "k < MAX_SOCKET" "ss1 = set_slot ?ss k s'"
        "s' = ss_slot ?ss k \<or> live (ss_soi ?ss) (ss_slot ?ss k) \<and> next_socket (ss_soi ?ss) (ss_slot ?ss k) v s'" unfolding server_next_def by blast
      have "server_inv (case v of None \<Rightarrow> ss1 | Some e \<Rightarrow> clear_closed_event e ss1)"
        unfolding k(2) using idx ev server_next_core [OF core1 next1] k(2) next_events [of ?ss _ s' k v] k(3) by (intro request_events) auto
      then show ?thesis using round Inr x by (auto split: option.splits)
    qed
  next
    case (Some i)
    then have i: "i \<in> reserved ss" using req(2) by simp
    then have at: "reserved_at ?ss i" using reserved_slot [OF core i] by (simp add: reserved_at_def)
    obtain cs v ss1 where o: "handle_request os r ?ss = Inr (cs, v, ss1)" "opened ?ss i v ss1" using open_request_ok [OF at Some] by blast
    then obtain s' where s': "ss1 = set_slot ?ss (HASH_ID i) s'" "live (ss_soi ss) s' \<and> s_id s' = i \<or> free_slot s'" by (auto simp: opened_def)
    have "HASH_ID i \<notin> set (ev_slots (drop (ss_event_index ss) (ss_ev ss)))"
      using reserved_slot [OF core i] by (intro unpolled [OF ev]) (simp add: polled_def)
    then have "server_inv (case v of None \<Rightarrow> ss1 | Some e \<Rightarrow> clear_closed_event e ss1)"
      unfolding s'(1) using idx ev opened_core [OF core i s'(2) rs Some] by (intro request_events) auto
    then show ?thesis using round o(1) by (auto split: option.splits)
  qed
qed

end
