(* ===== verification/Socket_Run.thy ===== *)
theory Socket_Run
  imports Socket_Safe
begin

text \<open>
  All that can happen to a socket server: the calls of the services and the rounds of the socket thread,
  in any order. The invariant of \<^verbatim>\<open>Socket_Safe\<close> holds throughout, so a round fails only in the known ways.
\<close>

section \<open>Reserving an id\<close>

text \<open>Ids are given out in order until they wrap.\<close>

definition no_wrap :: "socket_server \<Rightarrow> bool" where
  "no_wrap ss \<longleftrightarrow> ss_alloc_id ss + int MAX_SOCKET < 2 ^ 31"

definition reserve_slot :: "socket \<Rightarrow> int \<Rightarrow> socket" where
  "reserve_slot s i = s\<lparr>s_type := SOCKET_TYPE_RESERVE, s_id := i, s_udpconnecting := 0, s_fd := - 1\<rparr>"

lemma next_id_Suc: "0 \<le> a \<Longrightarrow> a + 1 < 2 ^ 31 \<Longrightarrow> next_id a = a + 1"
  using c_int_small [of "a + 1"] by (simp add: next_id_def Let_def)

lemma reserve_loop_result:
  assumes "0 \<le> ss_alloc_id ss" "ss_alloc_id ss + int n < 2 ^ 31" "reserve_loop n ss = (i, ss')"
  shows "i = - 1 \<and> (\<exists>a\<ge>ss_alloc_id ss. ss' = ss\<lparr>ss_alloc_id := a\<rparr>)
    \<or> ss_alloc_id ss < i \<and> s_type (sock_at ss i) = SOCKET_TYPE_INVALID
      \<and> ss' = set_slot (ss\<lparr>ss_alloc_id := i\<rparr>) (HASH_ID i) (reserve_slot (sock_at ss i) i)"
  using assms
proof (induction n arbitrary: ss)
  case 0
  then have "ss' = ss\<lparr>ss_alloc_id := ss_alloc_id ss\<rparr>" by simp
  then show ?case using 0 by auto
next
  case (Suc n)
  let ?i = "ss_alloc_id ss + 1"
  have i: "next_id (ss_alloc_id ss) = ?i" using Suc.prems(1,2) by (intro next_id_Suc) simp_all
  show ?case
  proof (cases "s_type (sock_at ss ?i) = SOCKET_TYPE_INVALID")
    case True
    then have "reserve_loop (Suc n) ss = (?i, set_slot (ss\<lparr>ss_alloc_id := ?i\<rparr>) (HASH_ID ?i) (reserve_slot (sock_at ss ?i) ?i))"
      using i by (simp add: Let_def reserve_slot_def)
    then have eqs: "i = ?i" "ss' = set_slot (ss\<lparr>ss_alloc_id := ?i\<rparr>) (HASH_ID ?i) (reserve_slot (sock_at ss ?i) ?i)" using Suc.prems(3) by auto
    show ?thesis unfolding eqs(1) using True eqs(2) zless_add1_eq by blast
  next
    case False
    then have "reserve_loop n (ss\<lparr>ss_alloc_id := ?i\<rparr>) = (i, ss')" using Suc.prems(3) i by (simp add: Let_def)
    moreover have "0 \<le> ?i" "?i + int n < 2 ^ 31" using Suc.prems(1,2) by simp_all
    ultimately have "i = - 1 \<and> (\<exists>a\<ge>?i. ss' = ss\<lparr>ss_alloc_id := a\<rparr>)
      \<or> ?i < i \<and> s_type (sock_at ss i) = SOCKET_TYPE_INVALID \<and> ss' = set_slot (ss\<lparr>ss_alloc_id := i\<rparr>) (HASH_ID i) (reserve_slot (sock_at ss i) i)"
      using Suc.IH [of "ss\<lparr>ss_alloc_id := ?i\<rparr>"] by (simp del: fun_upd_apply)
    then show ?thesis by (metis (no_types, lifting) add1_zle_eq order.strict_trans1 zle_add1_eq_le zless_add1_eq order.strict_implies_order)
  qed
qed

lemma reserve_id_result:
  assumes "core_inv ss" "no_wrap ss" "reserve_id ss = (i, ss')"
  obtains (none) a where "i = - 1" "ss_alloc_id ss \<le> a" "ss' = ss\<lparr>ss_alloc_id := a\<rparr>"
  | (some) "ss_alloc_id ss < i" "0 \<le> i" "s_type (sock_at ss i) = SOCKET_TYPE_INVALID"
      "ss' = set_slot (ss\<lparr>ss_alloc_id := i\<rparr>) (HASH_ID i) (reserve_slot (sock_at ss i) i)"
  using reserve_loop_result [of ss MAX_SOCKET i ss'] assms by (auto simp: reserve_id_def no_wrap_def core_inv_def)

lemma slot_ok_mono: "slot_ok soi a k s \<Longrightarrow> a \<le> b \<Longrightarrow> slot_ok soi b k s"
  by (auto simp: slot_ok_def)

lemma req_ok_mono: "req_ok soi a r \<Longrightarrow> a \<le> b \<Longrightarrow> req_ok soi b r"
  by (fastforce simp: req_ok_def)

lemma core_inv_alloc: "core_inv ss \<Longrightarrow> ss_alloc_id ss \<le> a \<Longrightarrow> core_inv (ss\<lparr>ss_alloc_id := a\<rparr>)"
  using slot_ok_mono req_ok_mono by (fastforce simp: core_inv_def list_all_iff)

text \<open>A new socket in a slot that was free, for a connection that was accepted.\<close>

lemma core_inv_new:
  assumes "core_inv ss" "s_type (sock_at ss i) = SOCKET_TYPE_INVALID" "live (ss_soi ss) s' \<and> s_id s' = i \<or> free_slot s'" "0 \<le> i" "i \<le> ss_alloc_id ss"
  shows "core_inv (set_slot ss (HASH_ID i) s')"
proof -
  have "s_type s' \<noteq> SOCKET_TYPE_RESERVE" using assms(3) by (auto simp: live_def free_slot_def)
  then have "reserved (set_slot ss (HASH_ID i) s') = reserved ss" using assms(2) by (intro reserved_update(1)) simp_all
  moreover have "slot_ok (ss_soi ss) (ss_alloc_id ss) (HASH_ID i) s'" using assms(3-5) by (auto simp: slot_ok_def)
  ultimately show ?thesis using assms(1) by (simp add: core_inv_def)
qed

text \<open>A slot is reserved together with the request that opens it.\<close>

lemma core_inv_reserve:
  assumes "core_inv ss" "s_type (sock_at ss i) = SOCKET_TYPE_INVALID" "ss_alloc_id ss < i" "opens_id r = Some i"
  shows "core_inv (send_request (set_slot (ss\<lparr>ss_alloc_id := i\<rparr>) (HASH_ID i) (reserve_slot (sock_at ss i) i)) r)"
proof -
  let ?ss = "ss\<lparr>ss_alloc_id := i\<rparr>" and ?s = "reserve_slot (sock_at ss i) i"
  have core: "core_inv ?ss" using core_inv_alloc assms(1,3) by simp
  have f: "free_slot (sock_at ss i)" using inv_slot [OF assms(1), of "HASH_ID i"] assms(2) by (auto simp: slot_ok_def live_def)
  have s: "slot_ok (ss_soi ss) i (HASH_ID i) ?s" using assms(1,3) f by (simp add: slot_ok_def reserve_slot_def free_slot_def core_inv_def)
  have R: "reserved (set_slot ?ss (HASH_ID i) ?s) = insert i (reserved ss)"
    using reserved_update(2) [of "HASH_ID i" ?ss ?s] assms(2) by (simp add: reserve_slot_def)
  have old: "list_all (req_ok (ss_soi ss) (ss_alloc_id ss)) (ss_ctrl ss)" "pipe_ok (reserved ss) (ss_ctrl ss)" using assms(1) by (simp_all add: core_inv_def)
  have "\<And>q. req_ok (ss_soi ss) (ss_alloc_id ss) q \<Longrightarrow> opens_id q \<noteq> Some i \<and> targets_id q \<noteq> Some i" using assms(3) by (force simp: req_ok_def)
  then have "list_all (\<lambda>r. opens_id r \<noteq> Some i \<and> targets_id r \<noteq> Some i) (ss_ctrl ss)"
    using old(1) by (simp add: list_all_iff)
  moreover have "i \<notin> reserved ss" using reserved_slot [OF assms(1), of i] assms(3) by auto
  ultimately have p: "pipe_ok (insert i (reserved ss)) (ss_ctrl ss @ [r])" using pipe_ok_open [OF old(2)] assms(4) by simp
  have r: "req_ok (ss_soi ss) i r" using assms(4) by (auto simp: req_ok_def opens_id_def targets_id_def split: ctrl_request.splits)
  show ?thesis using core s R p r unfolding send_request_def core_inv_def by (simp add: reserved_def)
qed

section \<open>A round with an event\<close>

lemma polled_live:
  assumes "core_inv ss" "k < MAX_SOCKET" "s_type (ss_slot ss k) \<in> polled"
  shows "live (ss_soi ss) (ss_slot ss k)"
  using inv_slot [OF assms(1,2)] assms(3) by (auto simp: slot_ok_def free_slot_def polled_def)

text \<open>An accepted connection gets a slot that was free, and so has no pending event.\<close>

lemma report_accept_ok:
  assumes "core_inv ss" "no_wrap ss" "ev_ok ss es"
  shows "\<exists>cs ev ss'. report_accept os k ss = Inr (cs, ev, ss') \<and> core_inv ss' \<and> ev_ok ss' es \<and> ss_ev ss' = ss_ev ss \<and> ss_event_index ss' = ss_event_index ss"
proof (cases "os_accept os")
  case (Accepted fd peer)
  obtain i ss1 where r: "reserve_id ss = (i, ss1)" by fastforce
  from assms(1,2) r show ?thesis
  proof (cases rule: reserve_id_result)
    case (none a)
    then show ?thesis using Accepted r assms core_inv_alloc by (simp add: report_accept_def Let_def)
  next
    case some
    let ?ss = "ss\<lparr>ss_alloc_id := i\<rparr>" and ?op = "s_opaque (ss_slot ss k)"
    have core: "core_inv ?ss" using core_inv_alloc assms(1) some(1) by simp
    have "free_slot (sock_at ss i)" using inv_slot [OF assms(1), of "HASH_ID i"] some(3) by (auto simp: slot_ok_def live_def)
    then have "reserved_at ss1 i" using some(4) by (simp add: reserved_at_def reserve_slot_def free_slot_def)
    then obtain cs b s' where n: "new_fd (os_add_ok os) ss1 i fd PROTOCOL_TCP ?op False = Inr (cs, b, set_slot ss1 (HASH_ID i) s')" "s_high s' = []" "s_low s' = []"
      "if b then s_type s' = SOCKET_TYPE_RESERVE \<and> s_id s' = i \<and> s_wb_size s' = 0 \<and> s_dw s' = None else s_type s' = SOCKET_TYPE_INVALID"
      using new_fd_reserved by blast
    let ?s = "if b then s'\<lparr>s_type := SOCKET_TYPE_PACCEPT\<rparr> else s'"
    have eq: "\<exists>cs ev. report_accept os k ss = Inr (cs, ev, set_slot ?ss (HASH_ID i) ?s)"
      using Accepted r some n(1) by (cases b) (simp_all add: report_accept_def Let_def set_type_def)
    have "live (ss_soi ?ss) ?s \<and> s_id ?s = i \<or> free_slot ?s" using n(2-4) by (auto simp: live_def dw_valid_def free_slot_def split: if_splits)
    then have "core_inv (set_slot ?ss (HASH_ID i) ?s)" using core some by (intro core_inv_new) simp_all
    moreover have "ev_ok (set_slot ?ss (HASH_ID i) ?s) es"
      using assms(3) some(3) unpolled [OF assms(3), of "HASH_ID i"] by (intro ev_ok_slot) (simp_all add: polled_def)
    ultimately show ?thesis using eq by force
  qed
qed (use assms in \<open>simp_all add: report_accept_def Let_def\<close>)

text \<open>What is pending afterwards: the other events, and this one again when the index was moved back.\<close>

lemma slot_event_ok:
  assumes "core_inv ss" "ev_ok ss (e # es)" "ev_s e = Some k" "result_ok (ss_soi ss) (ss_slot ss k) (f (ss_slot ss k))"
  shows "case on_slot k f ss of Inl err \<Rightarrow> fault_at ss err
    | Inr (cs, ev, ss') \<Rightarrow> core_inv ss' \<and> ev_ok ss' es \<and> ss_ev ss' = ss_ev ss \<and> ss_event_index ss' = ss_event_index ss
        \<and> (event_type ev \<noteq> Some SOCKET_CLOSE \<and> event_type ev \<noteq> Some SOCKET_ERR \<longrightarrow> ev_ok ss' (e # es))"
proof -
  have k: "k < MAX_SOCKET" "s_type (ss_slot ss k) \<in> polled" "k \<notin> set (ev_slots es)" "ev_ok ss es" using assms(2,3) by (simp_all add: ev_ok_def)
  have l: "live (ss_soi ss) (ss_slot ss k)" using polled_live [OF assms(1) k(1,2)] .
  show ?thesis
  proof (cases "f (ss_slot ss k)")
    case (Inl err)
    then show ?thesis using assms(4) l k(1) by (auto simp: on_slot_def result_ok_def fault_at_def live_def)
  next
    case (Inr x)
    obtain cs ev s' where x: "x = (cs, ev, s')" by (cases x) auto
    have n: "next_socket (ss_soi ss) (ss_slot ss k) ev s'" using assms(4) Inr x by (simp add: result_ok_def)
    have "core_inv (set_slot ss k s')" using core_slot [OF assms(1) k(1) l n] .
    moreover have "ev_ok (set_slot ss k s') es" using ev_ok_slot [OF k(4)] k(3) by blast
    moreover have "s_type s' \<in> polled" if "event_type ev \<noteq> Some SOCKET_CLOSE" "event_type ev \<noteq> Some SOCKET_ERR"
      using n that k(2) by (auto simp: next_socket_def event_type_def)
    ultimately show ?thesis using Inr x ev_ok_slot [OF assms(2)] by (auto simp: on_slot_def)
  qed
qed

text \<open>The state before and after a round, up to the pending events.\<close>

definition event_ok :: "nat \<Rightarrow> socket_server \<Rightarrow> server_result \<Rightarrow> bool" where
  "event_ok j ss r \<longleftrightarrow> (case r of Inl err \<Rightarrow> fault_at ss err
     | Inr (cs, ev, ss') \<Rightarrow> server_inv ss')"

lemma pending_ok:
  assumes "core_inv ss'" "ev_ok ss' (drop (j + 1) (ss_ev ss))" "ss_ev ss' = ss_ev ss" "ss_event_index ss' = j + 1" "j < length (ss_ev ss)"
  shows "server_inv ss'"
  using assms by (simp add: server_inv_def)

lemma slot_event_round:
  assumes "core_inv ss" "ss_event_index ss = j + 1" "j < length (ss_ev ss)" "ev_ok ss (drop j (ss_ev ss))" "ev_s (ss_ev ss ! j) = Some k"
    "result_ok (ss_soi ss) (ss_slot ss k) (f (ss_slot ss k))"
  shows "event_ok j ss (on_slot k f ss)"
    and "event_ok j ss (rbind (on_slot k f ss) (\<lambda>(cs, r, ss1). Inr (cs, r, after_read j (ss_ev ss ! j) protocol r ss1)))"
proof -
  let ?e = "ss_ev ss ! j" and ?es = "drop (j + 1) (ss_ev ss)"
  have d: "drop j (ss_ev ss) = ?e # ?es" using assms(3) by (simp add: Cons_nth_drop_Suc)
  have "ev_ok ss (?e # ?es)" using assms(4) unfolding d .
  note r = slot_event_ok [of ss ?e ?es k f, OF assms(1) this assms(5,6)]
  have one: "event_ok j ss (on_slot k f ss) \<and> event_ok j ss (rbind (on_slot k f ss) (\<lambda>(cs, r, ss1). Inr (cs, r, after_read j ?e protocol r ss1)))"
  proof (cases "on_slot k f ss")
    case (Inl err)
    then show ?thesis using r by (simp add: event_ok_def)
  next
    case (Inr x)
    obtain cs ev ss' where x: "x = (cs, ev, ss')" by (cases x) auto
    have n: "core_inv ss'" "ev_ok ss' ?es" "ss_ev ss' = ss_ev ss" "ss_event_index ss' = j + 1"
      "event_type ev \<noteq> Some SOCKET_CLOSE \<and> event_type ev \<noteq> Some SOCKET_ERR \<longrightarrow> ev_ok ss' (?e # ?es)"
      using r Inr x assms(2) by simp_all
    have i: "server_inv ss'" using pending_ok [OF n(1-4) assms(3)] .
    have again: "server_inv (ss'\<lparr>ss_event_index := j\<rparr>)" "server_inv (ss'\<lparr>ss_event_index := j, ss_ev := (ss_ev ss')[j := ?e\<lparr>ev_read := False\<rparr>]\<rparr>)"
      if "event_type ev \<noteq> Some SOCKET_CLOSE" "event_type ev \<noteq> Some SOCKET_ERR"
    proof -
      have e: "ev_ok ss' (?e # ?es)" using n(5) that by simp
      then show "server_inv (ss'\<lparr>ss_event_index := j\<rparr>)" using n(1,3) d assms(3) by (simp add: server_inv_def)
      have "drop j ((ss_ev ss)[j := ?e\<lparr>ev_read := False\<rparr>]) = ?e\<lparr>ev_read := False\<rparr> # ?es" using assms(3) by (simp add: drop_update_swap d)
      moreover have "ev_ok ss' (?e\<lparr>ev_read := False\<rparr> # ?es)" using e by (simp add: ev_ok_def)
      ultimately show "server_inv (ss'\<lparr>ss_event_index := j, ss_ev := (ss_ev ss')[j := ?e\<lparr>ev_read := False\<rparr>]\<rparr>)" using n(1,3) assms(3) by (simp add: server_inv_def)
    qed
    have "server_inv (after_read j ?e protocol ev ss')" using i again by (auto simp: after_read_def)
    then show ?thesis using Inr x i by (simp add: event_ok_def)
  qed
  then show "event_ok j ss (on_slot k f ss)" by blast
  show "event_ok j ss (rbind (on_slot k f ss) (\<lambda>(cs, r, ss1). Inr (cs, r, after_read j ?e protocol r ss1)))" using one by blast
qed

lemma handle_event_ok:
  assumes "core_inv ss" "no_wrap ss" "ss_event_index ss = j + 1" "j < length (ss_ev ss)" "ev_ok ss (drop j (ss_ev ss))" "ev_s (ss_ev ss ! j) = Some k"
  shows "event_ok j ss (handle_event os j k (ss_ev ss ! j) ss)"
proof -
  let ?s = "ss_slot ss k" and ?e = "ss_ev ss ! j" and ?es = "drop (j + 1) (ss_ev ss)"
  have d: "drop j (ss_ev ss) = ?e # ?es" using assms(4) by (simp add: Cons_nth_drop_Suc)
  have k: "k < MAX_SOCKET" "s_type ?s \<in> polled" "ev_ok ss ?es" using assms(5,6) unfolding d by (simp_all add: ev_ok_def)
  note l = polled_live [OF assms(1) k(1,2)]
  note slot = slot_event_round [OF assms(1,3-6)]
  let ?send = "\<lambda>s. rbind (send_buffer (ss_soi ss) (os_locked os) (os_writes os) s) (\<lambda>(cs, r, s', ws). Inr (cs, r, s'))"
  have send: "result_ok (ss_soi ss) ?s (?send ?s)" using send_buffer_ok [OF l, of "os_locked os" "os_writes os"] by (auto simp: write_ok_def result_ok_def split: sum.splits)
  have reads: "event_ok j ss (rbind (read_event os j k ?e ss) (\<lambda>(cs, r, ss1). Inr (cs, r, after_read j ?e (s_protocol ?s) r ss1)))"
    using slot(2) [of "forward_message_tcp (ss_soi ss) (os_read os)"] slot(2) [of "forward_message_udp (ss_soi ss) (os_recv os)"]
      forward_tcp_ok [OF l] forward_udp_ok [OF l] by (simp add: read_event_def)
  have idle: "event_ok j ss (Inr ([], None, ss))" using pending_ok [OF assms(1) k(3) refl assms(3,4)] by (simp add: event_ok_def)
  have accept: "event_ok j ss (report_accept os k ss)"
  proof -
    obtain cs ev ss' where "report_accept os k ss = Inr (cs, ev, ss')" "core_inv ss'" "ev_ok ss' ?es" "ss_ev ss' = ss_ev ss" "ss_event_index ss' = ss_event_index ss"
      using report_accept_ok [OF assms(1,2) k(3)] by blast
    then show ?thesis using assms(3,4) pending_ok by (simp add: event_ok_def)
  qed
  have rest: "event_ok j ss (if ev_read ?e then rbind (read_event os j k ?e ss) (\<lambda>(cs, r, ss1). Inr (cs, r, after_read j ?e (s_protocol ?s) r ss1))
     else if ev_write ?e then on_slot k ?send ss
     else if ev_error ?e then on_slot k (\<lambda>s. close_with (ss_soi ss) s SOCKET_ERR (Sm_text (case os_sockerr os of Some t \<Rightarrow> t | None \<Rightarrow> ascii ''Unknown error''))) ss
     else Inr ([], None, ss))"
    using reads idle slot(1) [of ?send, OF send] slot(1) [of "\<lambda>s. close_with (ss_soi ss) s SOCKET_ERR d" for d] close_with_ok [OF l] by simp
  have conn: "event_ok j ss (on_slot k (report_connect (ss_soi ss) (os_sockerr os) (os_peer os)) ss)"
    using slot(1) [of "report_connect (ss_soi ss) (os_sockerr os) (os_peer os)"] report_connect_ok [OF l] by blast
  show ?thesis using k(2) rest accept conn
    unfolding handle_event_def Let_def by (cases "s_type ?s") (simp_all add: polled_def)
qed

section \<open>Rounds\<close>

text \<open>The system reports each socket at most once, and only sockets that were added to the poll set.\<close>

definition os_ok :: "os_answer \<Rightarrow> socket_server \<Rightarrow> bool" where
  "os_ok os ss \<longleftrightarrow> (case os_wait os of Wait_events evs \<Rightarrow> ev_ok ss evs | _ \<Rightarrow> True)"

definition round_ok :: "socket_server \<Rightarrow> round_result \<Rightarrow> bool" where
  "round_ok ss r \<longleftrightarrow> (case r of Inl e \<Rightarrow> fault_at ss e | Inr (cs, waited, ev, ss') \<Rightarrow> server_inv ss')"

lemma no_wrap_fields [simp]:
  "no_wrap (ss\<lparr>ss_ev := es\<rparr>) = no_wrap ss" "no_wrap (ss\<lparr>ss_event_index := j\<rparr>) = no_wrap ss" "no_wrap (ss\<lparr>ss_checkctrl := b\<rparr>) = no_wrap ss"
  by (simp_all add: no_wrap_def)

lemma fault_at_fields [simp]:
  "fault_at (ss\<lparr>ss_ev := es\<rparr>) e = fault_at ss e" "fault_at (ss\<lparr>ss_event_index := j\<rparr>) e = fault_at ss e" "fault_at (ss\<lparr>ss_checkctrl := b\<rparr>) e = fault_at ss e"
  by (simp_all add: fault_at_def)

lemma next_event_ok:
  assumes "server_inv ss" "no_wrap ss" "ss_event_index ss < length (ss_ev ss)"
  shows "round_ok ss (next_event os waited ss)"
proof -
  let ?j = "ss_event_index ss" and ?ss = "ss\<lparr>ss_event_index := ss_event_index ss + 1\<rparr>"
  have core: "core_inv ss" "ev_ok ss (drop ?j (ss_ev ss))" using assms(1) by (simp_all add: server_inv_def)
  have d: "drop ?j (ss_ev ss) = ss_ev ss ! ?j # drop (?j + 1) (ss_ev ss)" using assms(3) by (simp add: Cons_nth_drop_Suc)
  show ?thesis
  proof (cases "ev_s (ss_ev ss ! ?j)")
    case None
    then have "server_inv ?ss" using core assms(3) unfolding d by (simp add: server_inv_def ev_ok_def)
    then show ?thesis using None assms(3) by (simp add: next_event_def Let_def round_ok_def)
  next
    case (Some k)
    then have "event_ok ?j ?ss (handle_event os ?j k (ss_ev ?ss ! ?j) ?ss)" using core assms(2,3) by (intro handle_event_ok) simp_all
    then show ?thesis using Some assms(3)
      by (auto simp: next_event_def Let_def round_of_def round_ok_def event_ok_def split: sum.splits)
  qed
qed

lemma poll_round_ok:
  assumes "server_inv ss" "no_wrap ss" "os_ok os ss"
  shows "round_ok ss (poll_round os ss)"
proof (cases "ss_checkctrl ss")
  case True
  then show ?thesis using ctrl_round [OF assms(1) True] assms(1) by (cases "ss_ctrl ss = []") (simp_all add: round_ok_def poll_round_def server_inv_def)
next
  case False
  show ?thesis
  proof (cases "ss_event_index ss = length (ss_ev ss)")
    case True
    let ?ss = "ss\<lparr>ss_checkctrl := True, ss_event_index := 0, ss_ev := []\<rparr>"
    have core: "core_inv ss" using assms(1) by (simp add: server_inv_def)
    then have inv: "server_inv ?ss" by (simp add: server_inv_def ev_ok_def)
    show ?thesis
    proof (cases "os_wait os")
      case (Wait_events evs)
      then have "ev_ok ss evs" using assms(3) by (simp add: os_ok_def)
      then have "server_inv (?ss\<lparr>ss_ev := evs\<rparr>)" using core by (simp add: server_inv_def)
      then have "evs \<noteq> [] \<Longrightarrow> round_ok ss (next_event os True (?ss\<lparr>ss_ev := evs\<rparr>))"
        using next_event_ok [of "?ss\<lparr>ss_ev := evs\<rparr>" os True] assms(2) by (auto simp: round_ok_def split: sum.splits)
      then show ?thesis using False True Wait_events inv by (simp add: poll_round_def event_part_def round_ok_def Let_def)
    qed (use False True inv in \<open>simp_all add: poll_round_def event_part_def round_ok_def Let_def\<close>)
  next
    case idx: False
    then have "ss_event_index ss < length (ss_ev ss)" using assms(1) by (simp add: server_inv_def)
    then show ?thesis using False idx next_event_ok [OF assms(1,2)] by (simp add: poll_round_def event_part_def)
  qed
qed

section \<open>Calls of the services\<close>

datatype api_call =
    Api_connect u64 cstring int
  | Api_listen bind_answer bool u64
  | Api_bind u64 int
  | Api_udp bool bind_answer u64
  | Api_send bool int int send_data
  | Api_send_lowpriority int send_data
  | Api_udp_send bool int int "byte list" send_data
  | Api_udp_connect "sockaddr option" int
  | Api_start u64 int
  | Api_close u64 int
  | Api_shutdown u64 int
  | Api_nodelay int
  | Api_exit

definition do_call :: "api_call \<Rightarrow> socket_server \<Rightarrow> api_result" where
  "do_call c ss =
     (case c of
        Api_connect opaque addr port \<Rightarrow> socket_server_connect ss opaque addr port
      | Api_listen b listens opaque \<Rightarrow> socket_server_listen b listens ss opaque
      | Api_bind opaque fd \<Rightarrow> socket_server_bind ss opaque fd
      | Api_udp bound b opaque \<Rightarrow> socket_server_udp bound b ss opaque
      | Api_send locked n i d \<Rightarrow> socket_server_send locked n ss i d
      | Api_send_lowpriority i d \<Rightarrow> socket_server_send_lowpriority ss i d
      | Api_udp_send locked n i a d \<Rightarrow> socket_server_udp_send locked n ss i a d
      | Api_udp_connect gai i \<Rightarrow> socket_server_udp_connect gai ss i
      | Api_start opaque i \<Rightarrow> Inr ([], 0, socket_server_start ss opaque i)
      | Api_close opaque i \<Rightarrow> Inr ([], 0, socket_server_close ss opaque i)
      | Api_shutdown opaque i \<Rightarrow> Inr ([], 0, socket_server_shutdown ss opaque i)
      | Api_nodelay i \<Rightarrow> Inr ([], 0, socket_server_nodelay ss i)
      | Api_exit \<Rightarrow> Inr ([], 0, socket_server_exit ss))"

text \<open>Services use ids that the server has given out, and send data that it can read.\<close>

definition call_ok :: "socket_server \<Rightarrow> api_call \<Rightarrow> bool" where
  "call_ok ss c \<longleftrightarrow>
     (case c of
        Api_send locked n i d \<Rightarrow> i \<le> ss_alloc_id ss \<and> valid_data (ss_soi ss) d
      | Api_send_lowpriority i d \<Rightarrow> i \<le> ss_alloc_id ss \<and> valid_data (ss_soi ss) d
      | Api_udp_send locked n i a d \<Rightarrow> i \<le> ss_alloc_id ss \<and> valid_data (ss_soi ss) d
      | Api_udp_connect gai i \<Rightarrow> i \<le> ss_alloc_id ss
      | Api_start opaque i \<Rightarrow> i \<le> ss_alloc_id ss
      | Api_close opaque i \<Rightarrow> i \<le> ss_alloc_id ss
      | Api_shutdown opaque i \<Rightarrow> i \<le> ss_alloc_id ss
      | Api_nodelay i \<Rightarrow> i \<le> ss_alloc_id ss
      | _ \<Rightarrow> True)"

lemma server_inv_request:
  assumes "server_inv ss" "opens_id r = None" "req_ok (ss_soi ss) (ss_alloc_id ss) r"
  shows "server_inv (send_request ss r)"
  using assms pipe_ok_other [OF _ assms(2)] by (simp add: server_inv_def core_inv_def send_request_def)

lemma reserve_keeps:
  assumes "server_inv ss" "no_wrap ss" "reserve_id ss = (i, ss')"
  shows "i < 0 \<Longrightarrow> server_inv ss'" and "\<not> i < 0 \<Longrightarrow> opens_id r = Some i \<Longrightarrow> server_inv (send_request ss' r)"
proof -
  have inv: "core_inv ss" "ss_event_index ss \<le> length (ss_ev ss)" and ev: "ev_ok ss (drop (ss_event_index ss) (ss_ev ss))"
    using assms(1) by (simp_all add: server_inv_def)
  from inv(1) assms(2,3) have "(i < 0 \<longrightarrow> server_inv ss') \<and> (\<not> i < 0 \<longrightarrow> opens_id r = Some i \<longrightarrow> server_inv (send_request ss' r))"
  proof (cases rule: reserve_id_result)
    case (none a)
    then show ?thesis using inv ev core_inv_alloc by (simp add: server_inv_def)
  next
    case some
    have "ev_ok ss' (drop (ss_event_index ss) (ss_ev ss))"
      unfolding some(4) using ev some(3) unpolled [OF ev, of "HASH_ID i"] by (intro ev_ok_slot) (simp_all add: polled_def)
    then have "server_inv (send_request ss' r)" if "opens_id r = Some i"
      using core_inv_reserve [OF inv(1) some(3,1) that] inv(2) some(4) by (simp add: server_inv_def send_request_def)
    then show ?thesis using some(2) by simp
  qed
  then show "i < 0 \<Longrightarrow> server_inv ss'" and "\<not> i < 0 \<Longrightarrow> opens_id r = Some i \<Longrightarrow> server_inv (send_request ss' r)" by blast+
qed

lemmas reserving_defs = socket_server_connect_def open_request_def socket_server_listen_def socket_server_bind_def socket_server_udp_def

definition call_keeps :: "api_result \<Rightarrow> bool" where
  "call_keeps r \<longleftrightarrow> (\<exists>cs i ss'. r = Inr (cs, i, ss') \<and> server_inv ss')"

lemma call_keepsI: "server_inv ss' \<Longrightarrow> call_keeps (Inr (cs, i, ss'))"
  by (simp add: call_keeps_def)

text \<open>A call that reserves an id: it fails before that, or the request goes into the pipe.\<close>

lemma reserving_call:
  assumes "server_inv ss" "no_wrap ss"
  shows "call_keeps (socket_server_connect ss opaque addr port)" "call_keeps (socket_server_listen b listens ss opaque)"
    "call_keeps (socket_server_bind ss opaque fd)" "call_keeps (socket_server_udp bound b ss opaque)"
proof -
  obtain i ss' where r: "reserve_id ss = (i, ss')" by fastforce
  note k = reserve_keeps [OF assms r]
  have o: "opens_id (Req_open i port opaque addr) = Some i" "opens_id (Req_listen i f opaque) = Some i" "opens_id (Req_bind i f opaque) = Some i"
    "opens_id (Req_udp i f v6 opaque) = Some i" for f v6 by (simp_all add: opens_id_def)
  show "call_keeps (socket_server_connect ss opaque addr port)" using assms(1) r k(1) k(2) [OF _ o(1)] by (auto simp: reserving_defs intro!: call_keepsI)
  show "call_keeps (socket_server_listen b listens ss opaque)" using assms(1) r k(1) k(2) [OF _ o(2)] by (auto simp: reserving_defs intro!: call_keepsI split: prod.splits)
  show "call_keeps (socket_server_bind ss opaque fd)" using assms(1) r k(1) k(2) [OF _ o(3)] by (auto simp: reserving_defs intro!: call_keepsI)
  show "call_keeps (socket_server_udp bound b ss opaque)" using assms(1) r k(1) k(2) [OF _ o(4)] by (auto simp: reserving_defs intro!: call_keepsI split: prod.splits)
qed

text \<open>A call that writes to a socket in use keeps it in use.\<close>

lemma server_inv_slot:
  assumes "server_inv ss" "live (ss_soi ss) (sock_at ss i)" "live (ss_soi ss) s'" "s_id s' = s_id (sock_at ss i)" "s_type s' = s_type (sock_at ss i)"
  shows "server_inv (set_slot ss (HASH_ID i) s')"
proof -
  have "next_socket (ss_soi ss) (sock_at ss i) None s'" using assms(3-5) by (simp add: next_socket_def)
  then have "core_inv (set_slot ss (HASH_ID i) s')" using assms(1,2) by (intro core_slot) (simp_all add: server_inv_def)
  moreover have "ev_ok (set_slot ss (HASH_ID i) s') (drop (ss_event_index ss) (ss_ev ss))"
    using assms(1,5) unpolled [of ss _ "HASH_ID i"] by (intro ev_ok_slot) (auto simp: server_inv_def)
  ultimately show ?thesis using assms(1) by (simp add: server_inv_def)
qed

lemma connected_live:
  assumes "server_inv ss" "s_type (sock_at ss i) = SOCKET_TYPE_CONNECTED"
  shows "live (ss_soi ss) (sock_at ss i)"
  using polled_live [of ss "HASH_ID i"] assms by (simp add: server_inv_def polled_def)

lemma direct_write_live:
  assumes "live soi s" "valid_data soi d"
  shows "\<exists>cs s'. direct_write soi n s d = Inr (cs, s') \<and> live soi s' \<and> s_id s' = s_id s \<and> s_type s' = s_type s"
proof -
  obtain p bs user where d: "send_object_init soi d = Inr (p, bs, user)" using assms(2) by (auto simp: valid_data_def)
  then show ?thesis using assms(1) by (auto simp: direct_write_def Let_def live_def dw_valid_def)
qed

lemma free_buffer_valid: "valid_data soi d \<Longrightarrow> \<exists>cs. free_buffer soi d = Inr cs"
  by (auto simp: valid_data_def free_buffer_def)

lemma sending_call:
  assumes "server_inv ss" "i \<le> ss_alloc_id ss" "valid_data (ss_soi ss) d"
  shows "call_keeps (socket_server_send locked n ss i d)" "call_keeps (socket_server_send_lowpriority ss i d)" "call_keeps (socket_server_udp_send locked n ss i a d)"
proof -
  obtain cs where f: "free_buffer (ss_soi ss) d = Inr cs" using free_buffer_valid [OF assms(3)] by blast
  obtain x where x: "send_object_init (ss_soi ss) d = Inr x" using assms(3) by (auto simp: valid_data_def)
  have r: "server_inv (send_request ss (Req_send p i d))" "server_inv (send_request ss (Req_send_udp i d b))" for p b
    using assms by (auto simp: opens_id_def targets_id_def req_ok_def intro!: server_inv_request)
  have w: "call_keeps (rbind (direct_write (ss_soi ss) n (sock_at ss i) d) (\<lambda>(cs, s'). Inr (cs, 0, set_slot ss (HASH_ID i) s')))" if "can_direct_write (sock_at ss i) i"
  proof -
    have l: "live (ss_soi ss) (sock_at ss i)" using connected_live [OF assms(1)] that by (simp add: can_direct_write_def)
    obtain cs s' where s': "direct_write (ss_soi ss) n (sock_at ss i) d = Inr (cs, s')" "live (ss_soi ss) s'" "s_id s' = s_id (sock_at ss i)" "s_type s' = s_type (sock_at ss i)"
      using direct_write_live [OF l assms(3)] by blast
    then show ?thesis using server_inv_slot [OF assms(1) l s'(2-4)] by (simp add: call_keeps_def)
  qed
  show "call_keeps (socket_server_send locked n ss i d)" using assms(1) f r(1) w by (auto simp: socket_server_send_def Let_def intro!: call_keepsI)
  show "call_keeps (socket_server_send_lowpriority ss i d)" using assms(1) f r(1) by (auto simp: socket_server_send_lowpriority_def Let_def intro!: call_keepsI)
  show "call_keeps (socket_server_udp_send locked n ss i a d)" using assms(1) f x r(2)
    by (cases x) (auto simp: socket_server_udp_send_def Let_def intro!: call_keepsI)
qed

lemma udp_connect_call:
  assumes "server_inv ss" "i \<le> ss_alloc_id ss"
  shows "call_keeps (socket_server_udp_connect gai ss i)"
proof -
  let ?s = "(sock_at ss i)\<lparr>s_udpconnecting := s_udpconnecting (sock_at ss i) + 1\<rparr>"
  let ?ss = "set_slot ss (HASH_ID i) ?s"
  have inv: "core_inv ss" "ss_event_index ss \<le> length (ss_ev ss)" "ev_ok ss (drop (ss_event_index ss) (ss_ev ss))"
    using assms(1) by (simp_all add: server_inv_def)
  have "slot_ok (ss_soi ss) (ss_alloc_id ss) (HASH_ID i) ?s"
    using inv_slot [OF inv(1), of "HASH_ID i"] by (simp add: slot_ok_def free_slot_def live_def dw_valid_def)
  moreover have "s_id (ss_slot ?ss k) = s_id (ss_slot ss k) \<and> s_type (ss_slot ?ss k) = s_type (ss_slot ss k)" for k by simp
  then have "reserved ?ss = reserved ss" by (simp only: reserved_def)
  ultimately have "core_inv ?ss" using inv(1) by (simp add: core_inv_def)
  moreover have "ev_ok ?ss (drop (ss_event_index ss) (ss_ev ss))"
    using unpolled [OF inv(3), of "HASH_ID i"] by (intro ev_ok_slot [OF inv(3)]) auto
  ultimately have s: "server_inv ?ss" using inv(2) by (simp add: server_inv_def)
  then have "server_inv (send_request ?ss (Req_setudp i a))" for a
    using assms(2) by (intro server_inv_request) (auto simp: opens_id_def targets_id_def req_ok_def)
  then show ?thesis using s assms(1) by (auto simp: socket_server_udp_connect_def Let_def intro!: call_keepsI split: option.splits)
qed

lemma target_call:
  assumes "server_inv ss" "i \<le> ss_alloc_id ss"
  shows "server_inv (socket_server_start ss opaque i)" "server_inv (socket_server_close ss opaque i)" "server_inv (socket_server_shutdown ss opaque i)"
    "server_inv (socket_server_nodelay ss i)"
  using assms by (auto simp: socket_server_start_def socket_server_close_def socket_server_shutdown_def socket_server_nodelay_def
      opens_id_def targets_id_def req_ok_def intro!: server_inv_request)

lemma do_call_keeps:
  assumes "server_inv ss" "no_wrap ss" "call_ok ss c"
  shows "call_keeps (do_call c ss)"
proof -
  have "server_inv (socket_server_exit ss)" using assms(1)
    by (auto simp: socket_server_exit_def opens_id_def targets_id_def req_ok_def intro!: server_inv_request)
  then show ?thesis using assms reserving_call [OF assms(1,2)] sending_call [OF assms(1)] udp_connect_call [OF assms(1)] target_call [OF assms(1)]
    by (cases c) (auto simp: do_call_def call_ok_def intro!: call_keepsI)
qed

section \<open>Runs\<close>

text \<open>The states that a server gets into, from its creation: calls and rounds in any order.\<close>

inductive server_run :: "socket_server \<Rightarrow> bool" where
  created: "socket_server_create True mem = Some ss \<Longrightarrow> server_run ss"
| with_objects: "socket_server_create True mem = Some ss \<Longrightarrow> server_run (socket_server_userobject ss soi)"
| called: "server_run ss \<Longrightarrow> no_wrap ss \<Longrightarrow> call_ok ss c \<Longrightarrow> do_call c ss = Inr (cs, i, ss') \<Longrightarrow> server_run ss'"
| polled_once: "server_run ss \<Longrightarrow> no_wrap ss \<Longrightarrow> os_ok os ss \<Longrightarrow> poll_round os ss = Inr (cs, waited, ev, ss') \<Longrightarrow> server_run ss'"

lemma created_inv:
  assumes "socket_server_create True mem = Some ss"
  shows "server_inv ss" "server_inv (socket_server_userobject ss soi)"
proof -
  have "reserved ss = {}" using assms by (auto simp: socket_server_create_def reserved_def)
  then show "server_inv ss" "server_inv (socket_server_userobject ss soi)"
    using assms by (auto simp: socket_server_create_def socket_server_userobject_def server_inv_def core_inv_def slot_ok_def free_slot_def ev_ok_def)
qed

lemma server_run_inv: "server_run ss \<Longrightarrow> server_inv ss"
proof (induction rule: server_run.induct)
  case (called ss c cs i ss')
  then show ?case using do_call_keeps [of ss c] by (auto simp: call_keeps_def)
next
  case (polled_once ss os cs waited ev ss')
  then show ?case using poll_round_ok [of ss os] by (simp add: round_ok_def)
qed (simp_all add: created_inv)

section \<open>Properties\<close>


text \<open>
  A request to close an id that is only reserved, which no service has been told yet, fails the assertion of
  \<^verbatim>\<open>force_close\<close>.
\<close>

lemma close_reserved_aborts:
  assumes "s_type s = SOCKET_TYPE_RESERVE" "s_id s = i" "nomore_send_data s"
  shows "close_socket soi locked ws i shutdown opaque s = Inl Assert_failed"
  using assms by (simp add: close_socket_def force_close_def c_assert_def)

text \<open>Before the counter wraps, an id that is given out is also not that of a request that is still in the pipe.\<close>

lemma connect_id_new:
  assumes "server_run ss" "no_wrap ss" "socket_server_connect ss opaque addr port = Inr (cs, i, ss')" "0 \<le> i"
  shows "(\<forall>k<MAX_SOCKET. s_type (ss_slot ss k) \<noteq> SOCKET_TYPE_INVALID \<longrightarrow> s_id (ss_slot ss k) \<noteq> i)
    \<and> (\<forall>r\<in>set (ss_ctrl ss). opens_id r \<noteq> Some i \<and> targets_id r \<noteq> Some i) \<and> ss_ctrl ss' = ss_ctrl ss @ [Req_open i port opaque addr]"
proof -
  have core: "core_inv ss" using server_run_inv [OF assms(1)] by (simp add: server_inv_def)
  obtain j ss1 where r: "reserve_id ss = (j, ss1)" by fastforce
  then have j: "\<not> 256 \<le> length addr + 24" "\<not> j < 0" "j = i" "ss' = send_request ss1 (Req_open i port opaque addr)"
    using assms(3,4) by (auto simp: socket_server_connect_def open_request_def split: if_splits)
  from core assms(2) r have new: "ss_alloc_id ss < i \<and> ss_ctrl ss1 = ss_ctrl ss" by (cases rule: reserve_id_result) (use j in auto)
  have "s_id (ss_slot ss k) \<noteq> i" if "k < MAX_SOCKET" "s_type (ss_slot ss k) \<noteq> SOCKET_TYPE_INVALID" for k
    using inv_slot [OF core that(1)] that(2) new by (auto simp: slot_ok_def free_slot_def)
  moreover have "opens_id r \<noteq> Some i \<and> targets_id r \<noteq> Some i" if "r \<in> set (ss_ctrl ss)" for r
  proof -
    have "req_ok (ss_soi ss) (ss_alloc_id ss) r" using core that by (simp add: core_inv_def list_all_iff)
    then show ?thesis using new by (auto simp: req_ok_def)
  qed
  ultimately show ?thesis using new j(4) by (simp add: send_request_def)
qed


section \<open>Witnesses\<close>

definition run_socket :: "sock_type \<Rightarrow> int \<Rightarrow> int \<Rightarrow> wb_list \<Rightarrow> wb_list \<Rightarrow> int \<Rightarrow> socket" where
  "run_socket t i fd high low n = \<lparr>s_opaque = 9, s_high = high, s_low = low, s_wb_size = n, s_fd = fd, s_id = i, s_protocol = PROTOCOL_TCP, s_type = t,
     s_udpconnecting = 0, s_warn_size = 0, s_size = 64, s_udp_address = [], s_dw = None\<rparr>"

definition run_server :: "int \<Rightarrow> bool \<Rightarrow> socket \<Rightarrow> ctrl_request list \<Rightarrow> socket_server" where
  "run_server alloc chk s rs = \<lparr>ss_soi = None, ss_alloc_id = alloc, ss_checkctrl = chk, ss_ev = [], ss_event_index = 0,
     ss_slot = (\<lambda>_. run_socket SOCKET_TYPE_INVALID 0 7 [] [] 0)(1 := s), ss_ctrl = rs\<rparr>"

abbreviation "run_empty \<equiv> run_server 0 True (run_socket SOCKET_TYPE_INVALID 0 7 [] [] 0) []"
abbreviation "run_buffer \<equiv> \<lparr>wb_buffer = 5, wb_ptr = 5, wb_data = [1, 2], wb_userobject = False, wb_udp_address = None\<rparr>"
abbreviation "run_opening \<equiv> run_server 1 True (run_socket SOCKET_TYPE_RESERVE 1 (- 1) [] [] 0) [Req_open 1 80 9 [104]]"

lemma hash_1: "HASH_ID 1 = 1"
  by (simp add: HASH_ID_def MAX_SOCKET_def MAX_SOCKET_P_def)

lemma run_reserve:
  "reserve_id run_empty = (1, run_server 1 True (run_socket SOCKET_TYPE_RESERVE 1 (- 1) [] [] 0) [])"
proof -
  obtain n where n: "MAX_SOCKET = Suc n" using HASH_ID_less less_imp_Suc_add by blast
  have "next_id 0 = 1" by (simp add: next_id_Suc)
  then show ?thesis unfolding reserve_id_def n by (simp add: Let_def hash_1 run_server_def run_socket_def)
qed

lemma run_connect:
  "socket_server_connect run_empty 9 [104] 80 = Inr ([], 1, run_opening)"
  using run_reserve by (simp add: socket_server_connect_def open_request_def send_request_def run_server_def)

lemma run_created: "server_run run_empty"
  by (rule server_run.created [of "\<lambda>_. run_socket SOCKET_TYPE_INVALID 0 7 [] [] 0"]) (auto simp: socket_server_create_def run_server_def run_socket_def fun_eq_iff)

lemma run_no_wrap [simp]: "no_wrap (run_server 0 chk s rs)" "no_wrap (run_server 1 chk s rs)"
  by (simp_all add: no_wrap_def run_server_def MAX_SOCKET_def MAX_SOCKET_P_def)

text \<open>The connection is made; two low messages are queued, the first as high because nothing waits; the kernel takes the first and nothing of the second.\<close>

definition run_os :: "event list \<Rightarrow> os_answer" where
  "run_os es = \<lparr>os_locked = False, os_writes = [W_sent 2, W_again], os_sendto = 0, os_add_ok = True, os_errno = [], os_read = R_intr, os_recv = U_intr,
     os_sockerr = None, os_peer = None, os_accept = Accept_failed, os_open = Gai_list [Connected 7 None] [], os_wait = Wait_events es\<rparr>"

abbreviation "run_writable \<equiv> [\<lparr>ev_s = Some 1, ev_read = False, ev_write = True, ev_error = False\<rparr>]"
abbreviation "run_stuck \<equiv> run_server 1 False (run_socket SOCKET_TYPE_CONNECTED 1 7 [run_buffer] [run_buffer] 4) []"
abbreviation "run_request \<equiv> Req_send PRIORITY_LOW 1 (Plain 5 [1, 2])"

lemma run_opened: "poll_round (run_os []) run_opening =
    Inr ([Sp_add 7 1], False, Some (Some (SOCKET_OPEN, reply 1 9 Sm_null)), run_server 1 True (run_socket SOCKET_TYPE_CONNECTED 1 7 [] [] 0) [])"
  by (simp add: poll_round_def ctrl_cmd_def handle_request_def open_socket_def run_os_def new_fd_def Let_def c_assert_def set_type_def hash_1
      run_server_def run_socket_def clear_closed_event_def MIN_READ_BUFFER_def)

lemma run_sent: "do_call (Api_send_lowpriority 1 (Plain 5 [1, 2])) (run_server 1 True (run_socket SOCKET_TYPE_CONNECTED 1 7 [] [] 0) rs) =
    Inr ([], 0, run_server 1 True (run_socket SOCKET_TYPE_CONNECTED 1 7 [] [] 0) (rs @ [run_request]))"
  by (simp add: do_call_def socket_server_send_lowpriority_def Let_def hash_1 run_server_def run_socket_def send_request_def)

lemma run_queued:
  assumes "send_socket None 0 1 s (Plain 5 [1, 2]) PRIORITY_LOW None = Inr (cs, None, s')"
  shows "poll_round (run_os []) (run_server 1 True s (run_request # rs)) = Inr (cs, False, None, run_server 1 True s' rs)"
  using assms by (simp add: poll_round_def ctrl_cmd_def handle_request_def on_slot_def Let_def hash_1 run_server_def run_os_def)

lemma run_queues:
  "send_socket None 0 1 (run_socket SOCKET_TYPE_CONNECTED 1 7 [] [] 0) (Plain 5 [1, 2]) PRIORITY_LOW None =
     Inr ([Sp_write 7 True], None, run_socket SOCKET_TYPE_CONNECTED 1 7 [run_buffer] [] 2)"
  "send_socket None 0 1 (run_socket SOCKET_TYPE_CONNECTED 1 7 [run_buffer] [] 2) (Plain 5 [1, 2]) PRIORITY_LOW None =
     Inr ([], None, run_socket SOCKET_TYPE_CONNECTED 1 7 [run_buffer] [run_buffer] 4)"
  by (simp_all add: send_socket_def queue_data_def append_sendbuffer_low_def append_sendbuffer_def append_buffer_def new_write_buffer_def send_object_init_def
      send_buffer_empty_def send_warning_def WARNING_SIZE_def wb_of_def set_wb_def Let_def data_addr_def run_socket_def)

lemma run_stuck_reached: "server_run run_stuck"
proof -
  let ?c = "run_server 1 True (run_socket SOCKET_TYPE_CONNECTED 1 7 [] [] 0)"
  have ok: "os_ok (run_os []) ss" for ss by (simp add: os_ok_def run_os_def ev_ok_def)
  have "call_ok run_empty (Api_connect 9 [104] 80)" "do_call (Api_connect 9 [104] 80) run_empty = Inr ([], 1, run_opening)"
    using run_connect by (simp_all add: call_ok_def do_call_def)
  then have "server_run run_opening" using server_run.called [OF run_created] run_no_wrap by blast
  then have "server_run (?c [])" using server_run.polled_once ok run_no_wrap run_opened by blast
  moreover have c: "call_ok (?c rs) (Api_send_lowpriority 1 (Plain 5 [1, 2]))" for rs
    by (auto simp: call_ok_def run_server_def valid_data_def send_object_init_def)
  ultimately have "server_run (?c ([] @ [run_request]))" using server_run.called run_no_wrap run_sent by blast
  then have "server_run (?c (([] @ [run_request]) @ [run_request]))" using server_run.called run_no_wrap run_sent c by blast
  then have "server_run (?c (run_request # [run_request]))" by simp
  then have "server_run (run_server 1 True (run_socket SOCKET_TYPE_CONNECTED 1 7 [run_buffer] [] 2) (run_request # []))"
    using server_run.polled_once ok run_no_wrap run_queued [OF run_queues(1)] by blast
  then have "server_run (run_server 1 True (run_socket SOCKET_TYPE_CONNECTED 1 7 [run_buffer] [run_buffer] 4) [])"
    using server_run.polled_once ok run_no_wrap run_queued [OF run_queues(2)] by blast
  moreover have "poll_round (run_os []) (run_server 1 True (run_socket SOCKET_TYPE_CONNECTED 1 7 [run_buffer] [run_buffer] 4) []) = Inr ([], False, None, run_stuck)"
    by (simp add: poll_round_def run_server_def)
  ultimately show ?thesis using server_run.polled_once ok run_no_wrap by blast
qed

lemma run_fails: "poll_round (run_os run_writable) run_stuck = Inl Assert_failed"
proof -
  have "send_buffer None False [W_sent 2, W_again] (run_socket SOCKET_TYPE_CONNECTED 1 7 [run_buffer] [run_buffer] 4) = Inl Assert_failed"
    by (simp add: run_socket_def send_buffer_def take_direct_def send_buffers_def send_list_def tcp_steps wb_of_def set_wb_def add_calls_def send_low_def
        list_uncomplete_def check_close_def c_assert_def send_buffer_empty_def)
  then show ?thesis by (simp add: poll_round_def event_part_def run_server_def run_os_def next_event_def Let_def round_of_def handle_event_def on_slot_def run_socket_def)
qed



section \<open>Ids are fresh, also when the counter wraps\<close>

text \<open>The ids that are tried, one after the other.\<close>

definition tried :: "int \<Rightarrow> nat \<Rightarrow> int" where
  "tried a j = (a + 1 + int j) mod 2 ^ 31"

lemma next_id_mod:
  assumes "0 \<le> a" "a < 2 ^ 31"
  shows "next_id a = (a + 1) mod 2 ^ 31"
proof (cases "a + 1 < 2 ^ 31")
  case True
  then show ?thesis using next_id_Suc [OF assms(1)] assms(1) by simp
next
  case False
  then have "a = 0x7fffffff" using assms by simp
  moreover have "c_int 0x80000000 = - 0x80000000" by (simp add: c_int_def)
  moreover have "(- 0x80000000 :: int) AND 0x7fffffff = 0" by simp
  ultimately show ?thesis by (simp add: next_id_def)
qed

lemma tried_Suc: "tried a (Suc j) = tried ((a + 1) mod 2 ^ 31) j" "tried a 0 = (a + 1) mod 2 ^ 31"
proof -
  have "(a + 1 + int (Suc j)) mod 2 ^ 31 = ((a + 1) mod 2 ^ 31 + (1 + int j)) mod 2 ^ 31" by (simp only: mod_add_left_eq) (simp add: ac_simps)
  then show "tried a (Suc j) = tried ((a + 1) mod 2 ^ 31) j" by (simp add: tried_def ac_simps)
qed (simp add: tried_def)

lemma reserve_loop_tries:
  assumes "0 \<le> ss_alloc_id ss" "ss_alloc_id ss < 2 ^ 31" "reserve_loop n ss = (i, ss')"
  shows "i = - 1 \<and> ss_slot ss' = ss_slot ss \<and> (\<forall>j<n. s_type (sock_at ss (tried (ss_alloc_id ss) j)) \<noteq> SOCKET_TYPE_INVALID)
    \<or> (\<exists>j<n. i = tried (ss_alloc_id ss) j) \<and> s_type (sock_at ss i) = SOCKET_TYPE_INVALID
      \<and> ss_slot ss' = (ss_slot ss)(HASH_ID i := reserve_slot (sock_at ss i) i)"
  using assms
proof (induction n arbitrary: ss)
  case (Suc n)
  define a where "a = ss_alloc_id ss"
  obtain i0 where i0: "(a + 1) mod 2 ^ 31 = i0" by blast
  have nx: "next_id a = i0" using next_id_mod Suc.prems(1,2) i0 by (simp only: a_def)
  have t: "tried a 0 = i0" "\<And>j. tried a (Suc j) = tried i0 j" unfolding i0 [symmetric] by (rule tried_Suc)+
  have b: "0 \<le> i0" "i0 < 2 ^ 31" unfolding i0 [symmetric] by simp_all
  show ?case
  proof (cases "s_type (sock_at ss i0) = SOCKET_TYPE_INVALID")
    case True
    have "reserve_loop (Suc n) ss = (i0, set_slot (ss\<lparr>ss_alloc_id := i0\<rparr>) (HASH_ID i0) (reserve_slot (sock_at ss i0) i0))"
      using True nx by (simp add: Let_def reserve_slot_def a_def)
    then have "i = i0" "ss_slot ss' = (ss_slot ss)(HASH_ID i0 := reserve_slot (sock_at ss i0) i0)" using Suc.prems(3) by auto
    then show ?thesis using True t(1) unfolding a_def [symmetric] by blast
  next
    case False
    then have "reserve_loop n (ss\<lparr>ss_alloc_id := i0\<rparr>) = (i, ss')" using Suc.prems(3) nx by (simp add: Let_def a_def)
    then have "i = - 1 \<and> ss_slot ss' = ss_slot ss \<and> (\<forall>j<n. s_type (sock_at ss (tried i0 j)) \<noteq> SOCKET_TYPE_INVALID)
      \<or> (\<exists>j<n. i = tried i0 j) \<and> s_type (sock_at ss i) = SOCKET_TYPE_INVALID \<and> ss_slot ss' = (ss_slot ss)(HASH_ID i := reserve_slot (sock_at ss i) i)"
      using Suc.IH [of "ss\<lparr>ss_alloc_id := i0\<rparr>"] b by (simp del: fun_upd_apply)
    then show ?thesis
    proof (elim disjE conjE)
      assume h: "i = - 1" "ss_slot ss' = ss_slot ss" "\<forall>j<n. s_type (sock_at ss (tried i0 j)) \<noteq> SOCKET_TYPE_INVALID"
      have "\<forall>j<Suc n. s_type (sock_at ss (tried a j)) \<noteq> SOCKET_TYPE_INVALID" using h(3) False t by (simp add: All_less_Suc2)
      then show ?thesis using h(1,2) unfolding a_def [symmetric] by simp
    next
      assume h: "\<exists>j<n. i = tried i0 j" "s_type (sock_at ss i) = SOCKET_TYPE_INVALID" "ss_slot ss' = (ss_slot ss)(HASH_ID i := reserve_slot (sock_at ss i) i)"
      have "\<exists>j<Suc n. i = tried a j" using h(1) t(2) by (metis Suc_less_eq)
      then show ?thesis using h(2,3) unfolding a_def [symmetric] by (simp del: fun_upd_apply)
    qed
  qed
qed simp

text \<open>Every slot is tried: \<open>2 ^ 31\<close> is a multiple of the number of slots.\<close>

lemma HASH_ID_mod: "0 \<le> i \<Longrightarrow> i < 2 ^ 31 \<Longrightarrow> int (HASH_ID i) = i mod 65536"
  by (simp add: HASH_ID_def MAX_SOCKET_def MAX_SOCKET_P_def unat_mod_distrib zmod_int uint_nat [symmetric] uint_word_of_int take_bit_int_eq_self)

lemma all_slots_tried:
  assumes "0 \<le> a" "k < MAX_SOCKET"
  shows "\<exists>j<MAX_SOCKET. HASH_ID (tried a j) = k"
proof (intro exI conjI)
  let ?j = "nat ((int k - (a + 1)) mod 65536)"
  have m: "MAX_SOCKET = 65536" by (simp add: MAX_SOCKET_def MAX_SOCKET_P_def)
  show "?j < MAX_SOCKET" unfolding m by (simp add: nat_less_iff)
  have j: "int ?j = (int k - (a + 1)) mod 65536" by simp
  have "int (HASH_ID (tried a ?j)) = tried a ?j mod 65536" by (intro HASH_ID_mod) (simp_all add: tried_def)
  also have "\<dots> = (a + 1 + int ?j) mod 65536" unfolding tried_def by (rule mod_mod_cancel) simp
  also have "\<dots> = int k mod 65536" unfolding j by (simp add: mod_simps)
  finally show "HASH_ID (tried a ?j) = k" using assms(2) unfolding m by simp
qed

text \<open>
  C13: reserving an id in a table in which the sockets in use are in the slots of their ids (as in every state of a run), with any value of the counter, so also when
  it wraps from \<open>2 ^ 31 - 1\<close> to 0. It succeeds exactly if a slot is free; then the id belongs to no socket in use, its slot was free and now is reserved for it, and
  no other slot changes. (After the counter has wrapped, an old request in the pipe may have the same id; nothing in the code excludes that.)
\<close>

theorem reserve_id_fresh:
  assumes "\<forall>k<MAX_SOCKET. s_type (ss_slot ss k) \<noteq> SOCKET_TYPE_INVALID \<longrightarrow> HASH_ID (s_id (ss_slot ss k)) = k"
    "0 \<le> ss_alloc_id ss" "ss_alloc_id ss < 2 ^ 31" "reserve_id ss = (i, ss')"
  shows "if \<exists>k<MAX_SOCKET. s_type (ss_slot ss k) = SOCKET_TYPE_INVALID
    then 0 \<le> i \<and> i < 2 ^ 31 \<and> (\<forall>k<MAX_SOCKET. s_type (ss_slot ss k) \<noteq> SOCKET_TYPE_INVALID \<longrightarrow> s_id (ss_slot ss k) \<noteq> i)
      \<and> s_type (ss_slot ss (HASH_ID i)) = SOCKET_TYPE_INVALID \<and> s_type (ss_slot ss' (HASH_ID i)) = SOCKET_TYPE_RESERVE \<and> s_id (ss_slot ss' (HASH_ID i)) = i
      \<and> (\<forall>k. k \<noteq> HASH_ID i \<longrightarrow> ss_slot ss' k = ss_slot ss k)
    else i = - 1 \<and> ss_slot ss' = ss_slot ss"
  using reserve_loop_tries [OF assms(2,3) assms(4) [unfolded reserve_id_def]]
proof (elim disjE conjE)
  assume full: "i = - 1" "ss_slot ss' = ss_slot ss" "\<forall>j<MAX_SOCKET. s_type (sock_at ss (tried (ss_alloc_id ss) j)) \<noteq> SOCKET_TYPE_INVALID"
  then have "\<not> (\<exists>k<MAX_SOCKET. s_type (ss_slot ss k) = SOCKET_TYPE_INVALID)" using all_slots_tried [OF assms(2)] by metis
  then show ?thesis using full by simp
next
  assume free: "\<exists>j<MAX_SOCKET. i = tried (ss_alloc_id ss) j" "s_type (sock_at ss i) = SOCKET_TYPE_INVALID"
    "ss_slot ss' = (ss_slot ss)(HASH_ID i := reserve_slot (sock_at ss i) i)"
  then have "s_type (ss_slot ss (HASH_ID i)) = SOCKET_TYPE_INVALID" "0 \<le> i" "i < 2 ^ 31" by (auto simp: tried_def)
  moreover have "s_id (ss_slot ss k) \<noteq> i" if "k < MAX_SOCKET" "s_type (ss_slot ss k) \<noteq> SOCKET_TYPE_INVALID" for k
    using that assms(1) calculation(1) by auto
  moreover have "\<exists>k<MAX_SOCKET. s_type (ss_slot ss k) = SOCKET_TYPE_INVALID" using calculation(1) HASH_ID_less by blast
  ultimately show ?thesis using free(3) by (simp add: reserve_slot_def)
qed

theorem reserve_id_fresh_witness:
  "\<exists>ss'. reserve_id (run_empty\<lparr>ss_alloc_id := 0x7fffffff\<rparr>) = (0, ss') \<and> s_type (ss_slot ss' 0) = SOCKET_TYPE_RESERVE"
proof -
  let ?ss = "run_empty\<lparr>ss_alloc_id := 0x7fffffff\<rparr>"
  obtain n where n: "MAX_SOCKET = Suc n" using HASH_ID_less less_imp_Suc_add by blast
  have "next_id 0x7fffffff = 0" using next_id_mod [of "0x7fffffff"] by simp
  moreover have h: "HASH_ID 0 = 0" by (simp add: HASH_ID_def)
  moreover have slots: "s_type (ss_slot ?ss k) = SOCKET_TYPE_INVALID" for k by (simp add: run_server_def run_socket_def)
  ultimately obtain ss' where r: "reserve_id ?ss = (0, ss')" unfolding reserve_id_def n by (simp add: Let_def)
  have "\<exists>k<MAX_SOCKET. s_type (ss_slot ?ss k) = SOCKET_TYPE_INVALID" using n slots by (metis zero_less_Suc)
  then show ?thesis using reserve_id_fresh [OF _ _ _ r] slots r h by auto
qed

end
