(* ===== verification/Socket_Service.thy ===== *)
theory Socket_Service
  imports Socket_Run Server
begin

text \<open>
  The socket interface of the services, \<^verbatim>\<open>skynet-src/skynet_socket.c\<close>: what the socket thread reports is
  sent as a message to the service that owns the socket, and the calls of a service go to the socket
  server under its handle. The socket server and the node are the two states that this file connects.
\<close>

section \<open>Definitions\<close>

definition SKYNET_SOCKET_TYPE_UDP :: int where "SKYNET_SOCKET_TYPE_UDP = 6"

text \<open>The global pointer \<^verbatim>\<open>SOCKET_SERVER\<close> is null or the server.\<close>

type_synonym server_ptr = "socket_server option"

definition skynet_socket_init :: "bool \<Rightarrow> (nat \<Rightarrow> socket) \<Rightarrow> server_ptr" where
  "skynet_socket_init ok mem = socket_server_create ok mem"

definition skynet_socket_exit :: "server_ptr \<Rightarrow> c_error + server_ptr" where
  "skynet_socket_exit p = (case p of None \<Rightarrow> Inl Use_after_free | Some ss \<Rightarrow> Inr (Some (socket_server_exit ss)))"

definition skynet_socket_free :: "server_ptr \<Rightarrow> c_error + (sys_call list \<times> server_ptr)" where
  "skynet_socket_free p =
     (case p of None \<Rightarrow> Inl Use_after_free | Some ss \<Rightarrow> rbind (socket_server_release ss) (\<lambda>cs. Inr (cs, None)))"

text \<open>The bytes at the pointer \<^verbatim>\<open>result->data\<close>; as a text they end at the first 0.\<close>

definition data_bytes :: "ss_data \<Rightarrow> byte list" where
  "data_bytes d = (case d of Sm_null \<Rightarrow> [] | Sm_text t \<Rightarrow> t | Sm_bytes bs \<Rightarrow> bs)"

definition padding_text :: "ss_data \<Rightarrow> byte list" where
  "padding_text d = take 128 (takeWhile (\<lambda>b. b \<noteq> 0) (data_bytes d))"

text \<open>\<^verbatim>\<open>sizeof(struct skynet_socket_message)\<close>\<close>

definition SOCKET_MESSAGE_SIZE :: nat where "SOCKET_MESSAGE_SIZE = 24"

definition socket_report :: "int \<Rightarrow> bool \<Rightarrow> ss_message \<Rightarrow> skynet_message" where
  "socket_report type padding result =
     (let tail = (if padding then padding_text (sm_data result) else []);
          sz = SOCKET_MESSAGE_SIZE + length tail;
          sm = \<lparr>ss_type = type, ss_id = sm_id result, ss_ud = sm_ud result,
                ss_buffer = (if padding then [] else data_bytes (sm_data result)), ss_tail = tail\<rparr>
      in \<lparr>msg_source = 0, msg_session = 0, msg_data = Some (Sock sm),
          msg_sz = of_nat sz OR push_bit MESSAGE_TYPE_SHIFT (of_nat PTYPE_SOCKET)\<rparr>)"

definition forward_message :: "services \<Rightarrow> int \<Rightarrow> bool \<Rightarrow> ss_message \<Rightarrow> node \<Rightarrow> c_error + node" where
  "forward_message sv type padding result s =
     rbind (skynet_context_push sv s (ucast (sm_opaque result)) (socket_report type padding result)) (\<lambda>(r, s1). Inr s1)"

text \<open>The cases of the switch: the type of the message and whether it carries a text; none for the others.\<close>

definition report_kind :: "ss_type \<Rightarrow> (int \<times> bool) option" where
  "report_kind t =
     (case t of
        SOCKET_EXIT \<Rightarrow> None
      | SOCKET_DATA \<Rightarrow> Some (SKYNET_SOCKET_TYPE_DATA, False)
      | SOCKET_CLOSE \<Rightarrow> Some (SKYNET_SOCKET_TYPE_CLOSE, False)
      | SOCKET_OPEN \<Rightarrow> Some (SKYNET_SOCKET_TYPE_CONNECT, True)
      | SOCKET_ERR \<Rightarrow> Some (SKYNET_SOCKET_TYPE_ERROR, True)
      | SOCKET_ACCEPT \<Rightarrow> Some (SKYNET_SOCKET_TYPE_ACCEPT, True)
      | SOCKET_UDP \<Rightarrow> Some (SKYNET_SOCKET_TYPE_UDP, False)
      | SOCKET_WARNING \<Rightarrow> Some (SKYNET_SOCKET_TYPE_WARNING, False))"

definition skynet_socket_poll ::
  "services \<Rightarrow> os_answer list \<Rightarrow> server_ptr \<Rightarrow> node \<Rightarrow> c_error + (sys_call list \<times> int \<times> server_ptr \<times> node)" where
  "skynet_socket_poll sv oss p s =
     (case p of
        None \<Rightarrow> Inl Assert_failed
      | Some ss \<Rightarrow>
          rbind (socket_server_poll oss True ss) (\<lambda>(cs, e, mr, ss1).
            case e of
              None \<Rightarrow> rbind (skynet_error sv s None (ascii ''Unknown socket message type -1.'')) (\<lambda>s1. Inr (cs, - 1, Some ss1, s1))
            | Some (t, m) \<Rightarrow>
                (case report_kind t of
                   None \<Rightarrow> Inr (cs, 0, Some ss1, s)
                 | Some (type, padding) \<Rightarrow>
                     rbind (forward_message sv type padding m s) (\<lambda>s1. Inr (cs, if mr then - 1 else 1, Some ss1, s1)))))"

text \<open>The calls of the service at the context \<open>x\<close>.\<close>

definition on_server :: "server_ptr \<Rightarrow> (socket_server \<Rightarrow> c_error + (sys_call list \<times> int \<times> socket_server)) \<Rightarrow> c_error + (sys_call list \<times> int \<times> server_ptr)" where
  "on_server p f = (case p of None \<Rightarrow> Inl Use_after_free | Some ss \<Rightarrow> rbind (f ss) (\<lambda>(cs, r, ss1). Inr (cs, r, Some ss1)))"

definition service_source :: "skynet_context \<Rightarrow> u64" where
  "service_source x = ucast (cx_handle x)"

definition skynet_socket_send :: "bool \<Rightarrow> int \<Rightarrow> server_ptr \<Rightarrow> int \<Rightarrow> send_data \<Rightarrow> c_error + (sys_call list \<times> int \<times> server_ptr)" where
  "skynet_socket_send locked n p i d = on_server p (\<lambda>ss. socket_server_send locked n ss i d)"

definition skynet_socket_send_lowpriority :: "server_ptr \<Rightarrow> int \<Rightarrow> send_data \<Rightarrow> c_error + (sys_call list \<times> int \<times> server_ptr)" where
  "skynet_socket_send_lowpriority p i d = on_server p (\<lambda>ss. socket_server_send_lowpriority ss i d)"

definition skynet_socket_listen :: "bind_answer \<Rightarrow> bool \<Rightarrow> server_ptr \<Rightarrow> skynet_context \<Rightarrow> c_error + (sys_call list \<times> int \<times> server_ptr)" where
  "skynet_socket_listen b listens p x = on_server p (\<lambda>ss. socket_server_listen b listens ss (service_source x))"

definition skynet_socket_connect :: "server_ptr \<Rightarrow> skynet_context \<Rightarrow> cstring \<Rightarrow> int \<Rightarrow> c_error + (sys_call list \<times> int \<times> server_ptr)" where
  "skynet_socket_connect p x host port = on_server p (\<lambda>ss. socket_server_connect ss (service_source x) host port)"

definition skynet_socket_bind :: "server_ptr \<Rightarrow> skynet_context \<Rightarrow> int \<Rightarrow> c_error + (sys_call list \<times> int \<times> server_ptr)" where
  "skynet_socket_bind p x fd = on_server p (\<lambda>ss. socket_server_bind ss (service_source x) fd)"

definition skynet_socket_close :: "server_ptr \<Rightarrow> skynet_context \<Rightarrow> int \<Rightarrow> c_error + (sys_call list \<times> int \<times> server_ptr)" where
  "skynet_socket_close p x i = on_server p (\<lambda>ss. Inr ([], 0, socket_server_close ss (service_source x) i))"

definition skynet_socket_shutdown :: "server_ptr \<Rightarrow> skynet_context \<Rightarrow> int \<Rightarrow> c_error + (sys_call list \<times> int \<times> server_ptr)" where
  "skynet_socket_shutdown p x i = on_server p (\<lambda>ss. Inr ([], 0, socket_server_shutdown ss (service_source x) i))"

definition skynet_socket_start :: "server_ptr \<Rightarrow> skynet_context \<Rightarrow> int \<Rightarrow> c_error + (sys_call list \<times> int \<times> server_ptr)" where
  "skynet_socket_start p x i = on_server p (\<lambda>ss. Inr ([], 0, socket_server_start ss (service_source x) i))"

definition skynet_socket_nodelay :: "server_ptr \<Rightarrow> int \<Rightarrow> c_error + (sys_call list \<times> int \<times> server_ptr)" where
  "skynet_socket_nodelay p i = on_server p (\<lambda>ss. Inr ([], 0, socket_server_nodelay ss i))"

definition skynet_socket_udp :: "bool \<Rightarrow> bind_answer \<Rightarrow> server_ptr \<Rightarrow> skynet_context \<Rightarrow> c_error + (sys_call list \<times> int \<times> server_ptr)" where
  "skynet_socket_udp bound b p x = on_server p (\<lambda>ss. socket_server_udp bound b ss (service_source x))"

definition skynet_socket_udp_connect :: "sockaddr option \<Rightarrow> server_ptr \<Rightarrow> int \<Rightarrow> c_error + (sys_call list \<times> int \<times> server_ptr)" where
  "skynet_socket_udp_connect gai p i = on_server p (\<lambda>ss. socket_server_udp_connect gai ss i)"

definition skynet_socket_udp_send :: "bool \<Rightarrow> int \<Rightarrow> server_ptr \<Rightarrow> int \<Rightarrow> byte list \<Rightarrow> send_data \<Rightarrow> c_error + (sys_call list \<times> int \<times> server_ptr)" where
  "skynet_socket_udp_send locked n p i a d = on_server p (\<lambda>ss. socket_server_udp_send locked n ss i a d)"

definition skynet_socket_udp_address :: "skynet_socket_message \<Rightarrow> byte list option" where
  "skynet_socket_udp_address msg =
     (if ss_type msg \<noteq> SKYNET_SOCKET_TYPE_UDP then None else socket_server_udp_address (ss_buffer msg) (ss_ud msg))"

section \<open>Delivery\<close>

lemma socket_size_word:
  assumes "n < 2 ^ 56"
  shows "drop_bit MESSAGE_TYPE_SHIFT (of_nat n OR push_bit MESSAGE_TYPE_SHIFT (of_nat PTYPE_SOCKET) :: u64) = of_nat PTYPE_SOCKET"
    "(of_nat n OR push_bit MESSAGE_TYPE_SHIFT (of_nat PTYPE_SOCKET) :: u64) AND MESSAGE_TYPE_MASK = of_nat n"
proof -
  have "take_bit 56 (of_nat n :: u64) = of_nat n" by (metis assms take_bit_of_nat take_bit_nat_eq_self)
  then have n: "(of_nat n :: u64) AND MESSAGE_TYPE_MASK = of_nat n" by (simp add: mask56 take_bit_eq_mask)
  note w = type_in_size [OF n, of "of_nat PTYPE_SOCKET"]
  show "drop_bit MESSAGE_TYPE_SHIFT (of_nat n OR push_bit MESSAGE_TYPE_SHIFT (of_nat PTYPE_SOCKET) :: u64) = of_nat PTYPE_SOCKET"
    "(of_nat n OR push_bit MESSAGE_TYPE_SHIFT (of_nat PTYPE_SOCKET) :: u64) AND MESSAGE_TYPE_MASK = of_nat n"
    using w by (simp_all add: PTYPE_SOCKET_def)
qed

text \<open>A service gets a report under its handle, once, at the end of its queue; a report for nobody is dropped.\<close>

definition reported :: "node \<Rightarrow> u64 \<Rightarrow> skynet_message \<Rightarrow> node \<Rightarrow> bool" where
  "reported s opaque msg s' \<longleftrightarrow>
     (case skynet_handle_grab (ctx_handle s) (nd_handles s) (ucast opaque) of
        None \<Rightarrow> s' = s
      | Some c \<Rightarrow> node_ok s' \<and> nd_ctx s' = nd_ctx s \<and> nd_handles s' = nd_handles s
          \<and> (\<exists>x. nd_ctx s c = Some x \<and> (\<forall>b. queue_msgs s' b =
               (if b = cx_queue x then map_option (\<lambda>ms. ms @ [msg]) (queue_msgs s b) else queue_msgs s b))
             \<and> map_option mq_in_global (mq_store (nd_mq s') (cx_queue x)) = Some True))"

lemma forward_message_reports:
  assumes "node_ok s"
  shows "\<exists>s'. forward_message sv type padding m s = Inr s' \<and> reported s (sm_opaque m) (socket_report type padding m) s'"
proof (cases "skynet_handle_grab (ctx_handle s) (nd_handles s) (ucast (sm_opaque m))")
  case None
  then show ?thesis by (simp add: forward_message_def context_push_missing reported_def)
next
  case (Some c)
  obtain x m' where "nd_ctx s c = Some x" "cx_handle x = ucast (sm_opaque m)"
    "skynet_context_push sv s (ucast (sm_opaque m)) (socket_report type padding m) = Inr (0, s\<lparr>nd_mq := m'\<rparr>)" "node_ok (s\<lparr>nd_mq := m'\<rparr>)"
    "\<And>b. queue_msgs (s\<lparr>nd_mq := m'\<rparr>) b
        = (if b = cx_queue x then map_option (\<lambda>ms. ms @ [socket_report type padding m]) (queue_msgs s b) else queue_msgs s b)"
    "map_option mq_in_global (mq_store m' (cx_queue x)) = Some True"
    using context_push_found [OF assms Some] by metis
  then show ?thesis using Some by (auto simp: forward_message_def reported_def)
qed

text \<open>A round that waits and finds a socket readable.\<close>

lemma read_round:
  assumes "\<not> ss_checkctrl ss" "ss_event_index ss = length (ss_ev ss)" "os_wait os = Wait_events (e # es)" "ev_s e = Some k" "ev_read e"
    "s_type (ss_slot ss k) = SOCKET_TYPE_CONNECTED" "s_protocol (ss_slot ss k) = PROTOCOL_TCP" "os_read os = R_bytes bs" "bs \<noteq> []"
    "int (length bs) \<le> s_size (ss_slot ss k)"
  shows "\<exists>ss'. poll_round os ss = Inr ([], True, Some (Some (SOCKET_DATA,
      \<lparr>sm_id = s_id (ss_slot ss k), sm_opaque = s_opaque (ss_slot ss k), sm_ud = int (length bs), sm_data = Sm_bytes bs\<rparr>)), ss')"
  using assms by (simp add: poll_round_def event_part_def Let_def next_event_def round_of_def handle_event_def read_event_def on_slot_def forward_message_tcp_def)

text \<open>
  Bytes that the kernel hands over for a connection reach the service that owns it, as one message of the socket type with the id
  of the socket and exactly these bytes, behind the messages it has already. This is the input that the models of
  the gate, of the client connection service and of the harbor take.
\<close>

theorem socket_data_delivered:
  assumes "node_ok s" "\<not> ss_checkctrl ss" "ss_event_index ss = length (ss_ev ss)" "os_wait os = Wait_events (e # es)" "ev_s e = Some k" "ev_read e"
    "s_type (ss_slot ss k) = SOCKET_TYPE_CONNECTED" "s_protocol (ss_slot ss k) = PROTOCOL_TCP" "os_read os = R_bytes bs" "bs \<noteq> []"
    "int (length bs) \<le> s_size (ss_slot ss k)"
  shows "\<exists>ss' s' msg. skynet_socket_poll sv [os] (Some ss) s = Inr ([], 1, Some ss', s') \<and> reported s (s_opaque (ss_slot ss k)) msg s'
    \<and> msg_data msg = Some (Sock (data_message (s_id (ss_slot ss k)) bs)) \<and> drop_bit MESSAGE_TYPE_SHIFT (msg_sz msg) = of_nat PTYPE_SOCKET"
proof -
  let ?m = "\<lparr>sm_id = s_id (ss_slot ss k), sm_opaque = s_opaque (ss_slot ss k), sm_ud = int (length bs), sm_data = Sm_bytes bs\<rparr>"
  let ?msg = "socket_report SKYNET_SOCKET_TYPE_DATA False ?m"
  obtain ss' where r: "poll_round os ss = Inr ([], True, Some (Some (SOCKET_DATA, ?m)), ss')" using read_round [OF assms(2-11)] by blast
  obtain s' where f: "forward_message sv SKYNET_SOCKET_TYPE_DATA False ?m s = Inr s'" "reported s (s_opaque (ss_slot ss k)) ?msg s'"
    using forward_message_reports [OF assms(1), of sv SKYNET_SOCKET_TYPE_DATA False ?m] by auto
  have "skynet_socket_poll sv [os] (Some ss) s = Inr ([], 1, Some ss', s')" using r f(1) by (simp add: skynet_socket_poll_def report_kind_def)
  moreover have "msg_data ?msg = Some (Sock (data_message (s_id (ss_slot ss k)) bs))" by (simp add: socket_report_def Let_def data_message_def data_bytes_def)
  moreover have "drop_bit MESSAGE_TYPE_SHIFT (msg_sz ?msg) = of_nat PTYPE_SOCKET"
    using socket_size_word(1) [of SOCKET_MESSAGE_SIZE] by (simp add: socket_report_def Let_def SOCKET_MESSAGE_SIZE_def)
  ultimately show ?thesis using f(2) by blast
qed

section \<open>The size of the read buffer\<close>

text \<open>Reads of a connection, one after the other: what the kernel has each time.\<close>

primrec read_all :: "soi \<Rightarrow> byte list list \<Rightarrow> socket \<Rightarrow> c_error + socket" where
  "read_all soi [] s = Inr s"
| "read_all soi (bs # rest) s = rbind (forward_message_tcp soi (R_bytes bs) s) (\<lambda>(cs, ev, s'). read_all soi rest s')"

definition size_ok :: "int \<Rightarrow> socket \<Rightarrow> bool" where
  "size_ok B s \<longleftrightarrow> (\<exists>k. s_size s = MIN_READ_BUFFER * 2 ^ k) \<and> s_size s \<le> 2 * B \<and> s_type s = SOCKET_TYPE_CONNECTED"

lemma size_after_read:
  assumes "size_ok B s" "bs \<noteq> []" "int (length bs) \<le> B" "MIN_READ_BUFFER \<le> B" "B < 2 ^ 30"
  shows "\<exists>cs ev s'. forward_message_tcp soi (R_bytes bs) s = Inr (cs, ev, s') \<and> size_ok B s'"
proof -
  obtain k where k: "s_size s = MIN_READ_BUFFER * 2 ^ k" and b: "s_size s \<le> 2 * B" and t: "s_type s = SOCKET_TYPE_CONNECTED" using assms(1) by (auto simp: size_ok_def)
  let ?n = "int (length (take (nat (s_size s)) bs))"
  have pos: "64 \<le> s_size s" unfolding k by (simp add: MIN_READ_BUFFER_def)
  have n: "?n \<le> B" using assms(3) by simp
  let ?sz = "if ?n = s_size s then c_int (s_size s * 2) else if MIN_READ_BUFFER < s_size s \<and> ?n * 2 < s_size s then s_size s div 2 else s_size s"
  have full: "c_int (s_size s * 2) = s_size s * 2" if "?n = s_size s" using that n assms(5) pos by (intro c_int_small) simp_all
  have "\<exists>j. ?sz = MIN_READ_BUFFER * 2 ^ j"
  proof (cases "?n = s_size s")
    case True
    then show ?thesis using full k by (intro exI [of _ "Suc k"]) simp
  next
    case False
    show ?thesis
    proof (cases "MIN_READ_BUFFER < s_size s")
      case True
      then obtain j where "k = Suc j" using k by (cases k) simp_all
      then have "s_size s div 2 = MIN_READ_BUFFER * 2 ^ j" using k by (simp add: MIN_READ_BUFFER_def)
      then show ?thesis using False k by auto
    qed (use False k in auto)
  qed
  moreover have "?sz \<le> 2 * B" using full n b pos by auto
  ultimately have sz: "(\<exists>j. ?sz = MIN_READ_BUFFER * 2 ^ j) \<and> ?sz \<le> 2 * B" by blast
  have "\<exists>cs ev. forward_message_tcp soi (R_bytes bs) s = Inr (cs, ev, s\<lparr>s_size := ?sz\<rparr>)"
    using assms(2) t by (simp add: forward_message_tcp_def Let_def)
  then obtain cs ev where "forward_message_tcp soi (R_bytes bs) s = Inr (cs, ev, s\<lparr>s_size := ?sz\<rparr>)" by blast
  moreover have "size_ok B (s\<lparr>s_size := ?sz\<rparr>)" unfolding size_ok_def using t sz by simp
  ultimately show ?thesis by (intro exI [of _ cs] exI [of _ ev] exI [of _ "s\<lparr>s_size := ?sz\<rparr>"] conjI) assumption+
qed

text \<open>
  C39: the read buffer of a connection adapts within bounds. It starts at 64 bytes; as long as the kernel never has more than
  \<open>B\<close> bytes at once, it stays a multiple of 64 by a power of two, at least 64 and at most \<open>2 * B\<close>: halving does not go below
  the minimum and doubling does not overflow.
\<close>

theorem read_buffer_bounds:
  assumes "s_type s = SOCKET_TYPE_CONNECTED" "s_size s = MIN_READ_BUFFER" "MIN_READ_BUFFER \<le> B" "B < 2 ^ 30"
    and "list_all (\<lambda>bs. bs \<noteq> [] \<and> int (length bs) \<le> B) reads"
  shows "\<exists>s' k. read_all soi reads s = Inr s' \<and> s_size s' = MIN_READ_BUFFER * 2 ^ k \<and> s_size s' \<le> 2 * B"
proof -
  have "size_ok B s" using assms(1-3) by (auto simp: size_ok_def MIN_READ_BUFFER_def intro: exI [of _ 0])
  then have "\<exists>s'. read_all soi reads s = Inr s' \<and> size_ok B s'" using assms(5)
  proof (induction reads arbitrary: s)
    case (Cons bs reads)
    have "bs \<noteq> []" "int (length bs) \<le> B" using Cons.prems(2) by simp_all
    then obtain cs ev s1 where "forward_message_tcp soi (R_bytes bs) s = Inr (cs, ev, s1)" "size_ok B s1"
      using size_after_read [OF Cons.prems(1) _ _ assms(3,4), of bs soi] by blast
    then show ?case using Cons.IH [of s1] Cons.prems(2) by simp
  qed simp
  then show ?thesis by (auto simp: size_ok_def)
qed

section \<open>Witnesses\<close>

definition deliver_socket :: socket where
  "deliver_socket = (run_socket SOCKET_TYPE_CONNECTED 1 7 [] [] 0)\<lparr>s_opaque := 0x01000001\<rparr>"

definition deliver_os :: os_answer where
  "deliver_os = (run_os [\<lparr>ev_s = Some 1, ev_read = True, ev_write = False, ev_error = False\<rparr>])\<lparr>os_read := R_bytes [10, 20]\<rparr>"

theorem socket_data_delivered_witness:
  "\<exists>ss' s' msg. skynet_socket_poll example_services [deliver_os] (Some (run_server 1 False deliver_socket [])) example_node = Inr ([], 1, Some ss', s')
    \<and> queue_msgs s' 10 = Some [msg] \<and> msg_data msg = Some (Sock (data_message 1 [10, 20]))"
proof -
  let ?ss = "run_server 1 False deliver_socket []"
  have slot: "ss_slot ?ss 1 = deliver_socket" "s_id deliver_socket = 1" "s_opaque deliver_socket = 0x01000001"
    by (simp_all add: run_server_def deliver_socket_def run_socket_def)
  have "queue_msgs example_node 10 = Some []" by (simp add: queue_msgs_def example_node_def mq_contents_create)
  moreover have "nd_ctx example_node 5 = Some example_context" "cx_queue example_context = 10" by (simp_all add: example_node_def example_context_def)
  ultimately have r: "queue_msgs s' 10 = Some [msg]" if "reported example_node 0x01000001 msg s'" for msg s'
    using that example_grab by (auto simp: reported_def)
  obtain ss' s' msg where d: "skynet_socket_poll example_services [deliver_os] (Some ?ss) example_node = Inr ([], 1, Some ss', s')"
    "reported example_node (s_opaque (ss_slot ?ss 1)) msg s'" "msg_data msg = Some (Sock (data_message (s_id (ss_slot ?ss 1)) [10, 20]))"
    using socket_data_delivered [OF example_node_ok, of ?ss deliver_os "\<lparr>ev_s = Some 1, ev_read = True, ev_write = False, ev_error = False\<rparr>" "[]" 1 "[10, 20]" example_services]
    by (auto simp: run_server_def deliver_socket_def deliver_os_def run_os_def run_socket_def)
  then show ?thesis using r [of msg s'] unfolding slot by blast
qed

theorem read_buffer_bounds_witness:
  "\<exists>s' k. read_all None [replicate 64 1, replicate 100 2, [3]] (run_socket SOCKET_TYPE_CONNECTED 1 7 [] [] 0) = Inr s'
     \<and> s_size s' = MIN_READ_BUFFER * 2 ^ k \<and> s_size s' \<le> 2 * 100"
  by (rule read_buffer_bounds [where B = 100]) (simp_all add: run_socket_def MIN_READ_BUFFER_def)

end
