(* ===== verification/Lua_Buffer.thy ===== *)
theory Lua_Buffer
  imports Prelude
begin

text \<open>
  The receive buffers that Lua services use, first part of \<^verbatim>\<open>lualib-src/lua-socket.c\<close>: linked lists of the
  blocks that came from the sockets, whose nodes all buffers of a service take from one pool and give back to it.
  The refinement: however many buffers share the pool, each behaves as a stream of bytes, from which bytes are
  taken by number or up to a separator.

  The nodes of all chunks of the pool are one array, in the order in which the chunks were made, and a
  pointer to a node is its index; the chunks stay until the Lua state is closed. A loop along pointers is given
  as many steps as there are nodes, and is \<open>Diverges\<close> if it needs more.
\<close>

section \<open>State\<close>

definition LARGE_PAGE_NODE :: nat where "LARGE_PAGE_NODE = 12"

record buffer_node =
  bn_msg :: "byte list option"
  bn_sz :: int
  bn_next :: "nat option"

record socket_buffer =
  sb_size :: int
  sb_offset :: int
  sb_head :: "nat option"
  sb_tail :: "nat option"

text \<open>The table of the pool: the free list at index 1 and the chunks, given by their sizes, at the following ones.\<close>

record buffer_pool =
  bp_nodes :: "buffer_node list"
  bp_free :: "nat option"
  bp_chunks :: "nat list"

definition pool_node :: "buffer_pool \<Rightarrow> nat option \<Rightarrow> lua_error + buffer_node" where
  "pool_node p a =
     (case a of Some a \<Rightarrow> if a < length (bp_nodes p) then Inr (bp_nodes p ! a) else Inl (C_fault Use_after_free)
              | None \<Rightarrow> Inl (C_fault Use_after_free))"

definition set_node :: "buffer_pool \<Rightarrow> nat \<Rightarrow> buffer_node \<Rightarrow> buffer_pool" where
  "set_node p a nd = p\<lparr>bp_nodes := (bp_nodes p)[a := nd]\<rparr>"

text \<open>The \<open>n\<close> bytes at \<open>off\<close> of the block of a node.\<close>

definition block_bytes :: "buffer_node \<Rightarrow> int \<Rightarrow> int \<Rightarrow> lua_error + byte list" where
  "block_bytes nd off n =
     (case bn_msg nd of
        None \<Rightarrow> Inl (C_fault Use_after_free)
      | Some m \<Rightarrow> if 0 \<le> off \<and> 0 \<le> n \<and> off + n \<le> int (length m) then Inr (take (nat n) (drop (nat off) m))
                  else Inl (C_fault Out_of_bounds))"

section \<open>The pool\<close>

definition lfreepool :: "buffer_node list \<Rightarrow> buffer_node list" where
  "lfreepool pool = map (\<lambda>nd. nd\<lparr>bn_msg := None\<rparr>) pool"

definition lnewpool :: "nat \<Rightarrow> nat \<Rightarrow> buffer_node list" where
  "lnewpool base sz = map (\<lambda>i. \<lparr>bn_msg = None, bn_sz = 0, bn_next = (if i = sz - 1 then None else Some (base + i + 1))\<rparr>) [0..<sz]"

definition lnewbuffer :: socket_buffer where
  "lnewbuffer = \<lparr>sb_size = 0, sb_offset = 0, sb_head = None, sb_tail = None\<rparr>"

text \<open>\<^verbatim>\<open>lua_rawlen\<close> of the table: it is empty until the first chunk is made.\<close>

definition pool_rawlen :: "buffer_pool \<Rightarrow> nat" where
  "pool_rawlen p = (if bp_chunks p = [] then 0 else Suc (length (bp_chunks p)))"

definition chunk_size :: "nat \<Rightarrow> nat" where
  "chunk_size len =
     (let tsz = (if len = 0 then 1 else len)
      in if tsz \<le> LARGE_PAGE_NODE - 3 then 8 * 2 ^ tsz else 8 * 2 ^ (LARGE_PAGE_NODE - 3))"

definition take_free :: "buffer_pool \<Rightarrow> nat \<times> buffer_pool" where
  "take_free p =
     (case bp_free p of
        Some a \<Rightarrow> (a, p)
      | None \<Rightarrow> let size = chunk_size (pool_rawlen p); base = length (bp_nodes p)
                in (base, p\<lparr>bp_nodes := bp_nodes p @ lnewpool base size, bp_chunks := bp_chunks p @ [size]\<rparr>))"

section \<open>Buffers\<close>

definition lpushbuffer :: "socket_buffer option \<Rightarrow> buffer_pool \<Rightarrow> byte list option \<Rightarrow> int \<Rightarrow> lua_error + (lua_arg list \<times> socket_buffer \<times> buffer_pool)" where
  "lpushbuffer sb p msg lsz =
     (case sb of
        None \<Rightarrow> Inl (Lua_error ''need buffer object at param 1'')
      | Some sb \<Rightarrow>
          if msg = None then Inl (Lua_error ''need message block at param 3'')
          else let sz = c_int lsz; (free_node, p1) = take_free p
               in rbind (pool_node p1 (Some free_node)) (\<lambda>nd.
                  let p2 = set_node (p1\<lparr>bp_free := bn_next nd\<rparr>) free_node \<lparr>bn_msg = msg, bn_sz = sz, bn_next = None\<rparr>
                  in rbind (case sb_head sb of
                              None \<Rightarrow> if sb_tail sb = None then Inr (sb\<lparr>sb_head := Some free_node, sb_tail := Some free_node\<rparr>, p2) else Inl (C_fault Assert_failed)
                            | Some _ \<Rightarrow>
                                rbind (pool_node p2 (sb_tail sb)) (\<lambda>tl.
                                  Inr (sb\<lparr>sb_tail := Some free_node\<rparr>, set_node p2 (the (sb_tail sb)) (tl\<lparr>bn_next := Some free_node\<rparr>)))) (\<lambda>(sb1, p3).
                     let size = c_int (sb_size sb1 + sz)
                     in Inr ([La_int size], sb1\<lparr>sb_size := size\<rparr>, p3))))"

definition return_free_node :: "socket_buffer \<Rightarrow> buffer_pool \<Rightarrow> lua_error + (socket_buffer \<times> buffer_pool)" where
  "return_free_node sb p =
     rbind (pool_node p (sb_head sb)) (\<lambda>nd.
       Inr (sb\<lparr>sb_offset := 0, sb_head := bn_next nd, sb_tail := (if bn_next nd = None then None else sb_tail sb)\<rparr>,
            set_node (p\<lparr>bp_free := sb_head sb\<rparr>) (the (sb_head sb)) \<lparr>bn_msg = None, bn_sz = 0, bn_next = bp_free p\<rparr>))"

primrec pop_loop :: "nat \<Rightarrow> byte list \<Rightarrow> socket_buffer \<Rightarrow> buffer_pool \<Rightarrow> int \<Rightarrow> int \<Rightarrow> lua_error + (byte list \<times> socket_buffer \<times> buffer_pool)" where
  "pop_loop 0 b sb p sz skip = Inl (C_fault Diverges)"
| "pop_loop (Suc f) b sb p sz skip =
     rbind (pool_node p (sb_head sb)) (\<lambda>current.
       let bytes = bn_sz current - sb_offset sb
       in if bytes \<ge> sz
          then rbind (if sz > skip then block_bytes current (sb_offset sb) (sz - skip) else Inr []) (\<lambda>s.
               let sb1 = sb\<lparr>sb_offset := sb_offset sb + sz\<rparr>
               in rbind (if bytes = sz then return_free_node sb1 p else Inr (sb1, p)) (\<lambda>(sb2, p2). Inr (b @ s, sb2, p2)))
          else let real_sz = sz - skip
               in rbind (if real_sz > 0 then block_bytes current (sb_offset sb) (if real_sz < bytes then real_sz else bytes) else Inr []) (\<lambda>s.
                  rbind (return_free_node sb p) (\<lambda>(sb1, p1).
                    if sz - bytes = 0 then Inr (b @ s, sb1, p1)
                    else if sb_head sb1 = None then Inl (C_fault Assert_failed)
                    else pop_loop f (b @ s) sb1 p1 (sz - bytes) skip)))"

definition pop_lstring :: "socket_buffer \<Rightarrow> buffer_pool \<Rightarrow> int \<Rightarrow> int \<Rightarrow> lua_error + (byte list \<times> socket_buffer \<times> buffer_pool)" where
  "pop_lstring sb p sz skip =
     rbind (pool_node p (sb_head sb)) (\<lambda>current.
       if sz < bn_sz current - sb_offset sb
       then rbind (block_bytes current (sb_offset sb) (sz - skip)) (\<lambda>s. Inr (s, sb\<lparr>sb_offset := sb_offset sb + sz\<rparr>, p))
       else if sz = bn_sz current - sb_offset sb
       then rbind (block_bytes current (sb_offset sb) (sz - skip)) (\<lambda>s. rbind (return_free_node sb p) (\<lambda>(sb1, p1). Inr (s, sb1, p1)))
       else pop_loop (length (bp_nodes p)) [] sb p sz skip)"

definition lheader :: "byte list \<Rightarrow> lua_error + lua_arg list" where
  "lheader s =
     (if length s > 4 \<or> length s < 1 then Inl (Lua_error ''Invalid read'')
      else Inr [La_int (foldl (\<lambda>sz b. sz * 256 + uint b) 0 s)])"

definition lpopbuffer :: "socket_buffer option \<Rightarrow> buffer_pool \<Rightarrow> int \<Rightarrow> lua_error + (lua_arg list \<times> socket_buffer \<times> buffer_pool)" where
  "lpopbuffer sb p lsz =
     (case sb of
        None \<Rightarrow> Inl (Lua_error ''Need buffer object at param 1'')
      | Some sb \<Rightarrow>
          let sz = c_int lsz
          in if sb_size sb < sz \<or> sz = 0 then Inr ([La_nil, La_int (sb_size sb)], sb, p)
             else rbind (pop_lstring sb p sz 0) (\<lambda>(s, sb1, p1).
                    let sb2 = sb1\<lparr>sb_size := sb_size sb1 - sz\<rparr>
                    in Inr ([La_str s, La_int (sb_size sb2)], sb2, p1)))"

primrec clear_loop :: "nat \<Rightarrow> socket_buffer \<Rightarrow> buffer_pool \<Rightarrow> lua_error + (socket_buffer \<times> buffer_pool)" where
  "clear_loop 0 sb p = (if sb_head sb = None then Inr (sb, p) else Inl (C_fault Diverges))"
| "clear_loop (Suc f) sb p =
     (if sb_head sb = None then Inr (sb, p) else rbind (return_free_node sb p) (\<lambda>(sb1, p1). clear_loop f sb1 p1))"

text \<open>The buffer may be nil; \<open>is_nil\<close> tells nil from other values that are no buffer.\<close>

definition lclearbuffer :: "socket_buffer option \<Rightarrow> bool \<Rightarrow> buffer_pool \<Rightarrow> lua_error + (lua_arg list \<times> socket_buffer option \<times> buffer_pool)" where
  "lclearbuffer sb is_nil p =
     (case sb of
        None \<Rightarrow> if is_nil then Inr ([], None, p) else Inl (Lua_error ''Need buffer object at param 1'')
      | Some sb \<Rightarrow> rbind (clear_loop (length (bp_nodes p)) sb p) (\<lambda>(sb1, p1). Inr ([], Some (sb1\<lparr>sb_size := 0\<rparr>), p1)))"

primrec readall_loop :: "nat \<Rightarrow> byte list \<Rightarrow> socket_buffer \<Rightarrow> buffer_pool \<Rightarrow> lua_error + (byte list \<times> socket_buffer \<times> buffer_pool)" where
  "readall_loop 0 b sb p = (if sb_head sb = None then Inr (b, sb, p) else Inl (C_fault Diverges))"
| "readall_loop (Suc f) b sb p =
     (if sb_head sb = None then Inr (b, sb, p)
      else rbind (pool_node p (sb_head sb)) (\<lambda>current.
           rbind (block_bytes current (sb_offset sb) (bn_sz current - sb_offset sb)) (\<lambda>s.
           rbind (return_free_node sb p) (\<lambda>(sb1, p1). readall_loop f (b @ s) sb1 p1))))"

definition lreadall :: "socket_buffer option \<Rightarrow> buffer_pool \<Rightarrow> lua_error + (lua_arg list \<times> socket_buffer \<times> buffer_pool)" where
  "lreadall sb p =
     (case sb of
        None \<Rightarrow> Inl (Lua_error ''Need buffer object at param 1'')
      | Some sb \<Rightarrow> rbind (readall_loop (length (bp_nodes p)) [] sb p) (\<lambda>(b, sb1, p1). Inr ([La_str b], sb1\<lparr>sb_size := 0\<rparr>, p1)))"

text \<open>A block that is past its end has a negative rest, and the separator is then read before its start.\<close>

primrec check_sep :: "nat \<Rightarrow> buffer_pool \<Rightarrow> nat option \<Rightarrow> int \<Rightarrow> byte list \<Rightarrow> lua_error + bool" where
  "check_sep 0 p node from sep = Inl (C_fault Diverges)"
| "check_sep (Suc f) p node from sep =
     rbind (pool_node p node) (\<lambda>nd.
       let sz = bn_sz nd - from
       in if sz \<ge> int (length sep) then rbind (block_bytes nd from (int (length sep))) (\<lambda>b. Inr (b = sep))
          else if sz < 0 then Inl (C_fault Out_of_bounds)
          else rbind (block_bytes nd from sz) (\<lambda>b.
               if b \<noteq> take (nat sz) sep then Inr False else check_sep f p (bn_next nd) 0 (drop (nat sz) sep)))"

text \<open>The loop of \<^verbatim>\<open>lreadline\<close>, with the number of rounds left: the place where the separator was found.\<close>

primrec readline_loop :: "nat \<Rightarrow> buffer_pool \<Rightarrow> nat \<Rightarrow> int \<Rightarrow> int \<Rightarrow> int \<Rightarrow> byte list \<Rightarrow> lua_error + int option" where
  "readline_loop 0 p current from bytes i sep = Inr None"
| "readline_loop (Suc n) p current from bytes i sep =
     rbind (check_sep (length (bp_nodes p)) p (Some current) from sep) (\<lambda>found.
       if found then Inr (Some i)
       else if bytes - 1 = 0
       then rbind (pool_node p (Some current)) (\<lambda>nd.
            case bn_next nd of
              None \<Rightarrow> Inr None
            | Some a \<Rightarrow> rbind (pool_node p (Some a)) (\<lambda>nd1. readline_loop n p a 0 (bn_sz nd1) (i + 1) sep))
       else readline_loop n p current (from + 1) (bytes - 1) (i + 1) sep)"

definition lreadline :: "socket_buffer option \<Rightarrow> buffer_pool \<Rightarrow> bool \<Rightarrow> byte list \<Rightarrow> lua_error + (lua_arg list \<times> socket_buffer \<times> buffer_pool)" where
  "lreadline sb p check sep =
     (case sb of
        None \<Rightarrow> Inl (Lua_error ''Need buffer object at param 1'')
      | Some sb \<Rightarrow>
          case sb_head sb of
            None \<Rightarrow> Inr ([], sb, p)
          | Some current \<Rightarrow>
              rbind (pool_node p (Some current)) (\<lambda>nd.
              rbind (readline_loop (nat (sb_size sb - int (length sep) + 1)) p current (sb_offset sb) (bn_sz nd - sb_offset sb) 0 sep) (\<lambda>r.
                case r of
                  None \<Rightarrow> Inr ([], sb, p)
                | Some i \<Rightarrow>
                    if check then Inr ([La_bool True], sb, p)
                    else rbind (pop_lstring sb p (i + int (length sep)) (int (length sep))) (\<lambda>(s, sb1, p1).
                         Inr ([La_str s], sb1\<lparr>sb_size := sb_size sb1 - (i + int (length sep))\<rparr>, p1)))))"

section \<open>Chains of nodes\<close>

primrec node_chain :: "buffer_node list \<Rightarrow> nat option \<Rightarrow> nat list \<Rightarrow> bool" where
  "node_chain ns h [] \<longleftrightarrow> h = None"
| "node_chain ns h (a # xs) \<longleftrightarrow> h = Some a \<and> a < length ns \<and> node_chain ns (bn_next (ns ! a)) xs"

lemma chain_less: "node_chain ns h xs \<Longrightarrow> a \<in> set xs \<Longrightarrow> a < length ns"
  by (induction xs arbitrary: h) auto

lemma node_chain_frame:
  "node_chain ns h xs \<Longrightarrow> (\<And>a. a \<in> set xs \<Longrightarrow> a < length ns' \<and> ns' ! a = ns ! a) \<Longrightarrow> node_chain ns' h xs"
  by (induction xs arbitrary: h) auto

lemma nth_other: "b \<in> set xs \<Longrightarrow> a \<notin> set xs \<Longrightarrow> ns[a := nd] ! b = ns ! b"
  by (metis nth_list_update_neq)

lemma chain_update: "node_chain ns h xs \<Longrightarrow> a \<notin> set xs \<Longrightarrow> node_chain (ns[a := nd]) h xs"
  by (rule node_chain_frame) (auto dest: chain_less simp: nth_other)

lemma chain_snoc:
  "node_chain ns h (xs @ [a]) \<Longrightarrow> distinct (xs @ [a]) \<Longrightarrow> b < length ns \<Longrightarrow> b \<notin> set (xs @ [a]) \<Longrightarrow> bn_next (ns ! b) = None
    \<Longrightarrow> node_chain (ns[a := nd\<lparr>bn_next := Some b\<rparr>]) h (xs @ [a, b])"
  by (induction xs arbitrary: h) auto

lemma chain_short: "node_chain ns h xs \<Longrightarrow> distinct xs \<Longrightarrow> length xs \<le> length ns"
proof -
  assume c: "node_chain ns h xs" "distinct xs"
  then have "set xs \<subseteq> {..<length ns}" by (auto dest: chain_less)
  then have "card (set xs) \<le> length ns" using card_mono [of "{..<length ns}" "set xs"] by simp
  then show ?thesis using c(2) by (simp add: distinct_card)
qed

lemma node_chain_None [simp]: "node_chain ns None xs \<longleftrightarrow> xs = []"
  by (cases xs) auto

lemma chain_Some: "node_chain ns (Some a) xs \<longleftrightarrow> (\<exists>ys. xs = a # ys \<and> a < length ns \<and> node_chain ns (bn_next (ns ! a)) ys)"
  by (cases xs) auto

text \<open>A new chunk is a chain.\<close>

lemma new_chunk:
  assumes "base = length ns" "0 < sz"
  shows "node_chain (ns @ lnewpool base sz) (Some base) [base..<base + sz]"
proof -
  let ?ns = "ns @ lnewpool base sz"
  have nx: "bn_next (?ns ! (base + i)) = (if i = sz - 1 then None else Some (base + i + 1))" if "i < sz" for i
    using that assms(1) by (simp add: nth_append lnewpool_def)
  have "node_chain ?ns (if k < sz then Some (base + k) else None) [base + k..<base + sz]" if "k \<le> sz" for k
    using that
  proof (induction "sz - k" arbitrary: k)
    case (Suc n)
    then have k: "k < sz" by simp
    have "node_chain ?ns (if Suc k < sz then Some (base + Suc k) else None) [base + Suc k..<base + sz]" using Suc by (intro Suc.hyps(1)) simp_all
    moreover have "bn_next (?ns ! (base + k)) = (if Suc k < sz then Some (base + Suc k) else None)" using nx [OF k] k by auto
    moreover have "base + k < length ?ns" using k assms(1) by (simp add: lnewpool_def)
    ultimately show ?case using k by (simp add: upt_conv_Cons)
  qed simp
  from this [of 0] show ?thesis using assms(2) by simp
qed

section \<open>What a buffer sb_holds\<close>

definition node_full :: "buffer_node \<Rightarrow> bool" where
  "node_full nd \<longleftrightarrow> (\<exists>m. bn_msg nd = Some m \<and> m \<noteq> [] \<and> bn_sz nd = int (length m))"

definition node_bytes :: "buffer_node \<Rightarrow> byte list" where
  "node_bytes nd = (case bn_msg nd of None \<Rightarrow> [] | Some m \<Rightarrow> m)"

lemma full_bytes: "node_full nd \<Longrightarrow> bn_msg nd = Some (node_bytes nd) \<and> node_bytes nd \<noteq> [] \<and> bn_sz nd = int (length (node_bytes nd))"
  by (auto simp: node_full_def node_bytes_def)

definition blocks :: "buffer_node list \<Rightarrow> nat list \<Rightarrow> byte list" where
  "blocks ns xs = concat (map (\<lambda>a. node_bytes (ns ! a)) xs)"

lemma blocks_simps [simp]: "blocks ns [] = []" "blocks ns (a # xs) = node_bytes (ns ! a) @ blocks ns xs" "blocks ns (xs @ ys) = blocks ns xs @ blocks ns ys"
  by (simp_all add: blocks_def)

lemma blocks_frame: "(\<And>a. a \<in> set xs \<Longrightarrow> ns' ! a = ns ! a) \<Longrightarrow> blocks ns' xs = blocks ns xs"
  by (simp add: blocks_def cong: map_cong)

lemma block_bytes_full:
  "node_full nd \<Longrightarrow> 0 \<le> off \<Longrightarrow> 0 \<le> n \<Longrightarrow> off + n \<le> bn_sz nd \<Longrightarrow> block_bytes nd off n = Inr (take (nat n) (drop (nat off) (node_bytes nd)))"
  using full_bytes [of nd] by (simp add: block_bytes_def)

text \<open>The nodes of a buffer, apart from the position in the first one.\<close>

definition linked :: "buffer_pool \<Rightarrow> socket_buffer \<Rightarrow> nat list \<Rightarrow> bool" where
  "linked p sb xs \<longleftrightarrow> node_chain (bp_nodes p) (sb_head sb) xs \<and> sb_tail sb = (if xs = [] then None else Some (last xs)) \<and> distinct xs
     \<and> (\<forall>a\<in>set xs. node_full (bp_nodes p ! a))"

text \<open>The buffer holds the bytes \<open>bs\<close>.\<close>

definition sb_holds :: "buffer_pool \<Rightarrow> socket_buffer \<Rightarrow> nat list \<Rightarrow> byte list \<Rightarrow> bool" where
  "sb_holds p sb xs bs \<longleftrightarrow> linked p sb xs \<and> 0 \<le> sb_offset sb \<and> (xs = [] \<longrightarrow> sb_offset sb = 0) \<and> (xs \<noteq> [] \<longrightarrow> sb_offset sb < bn_sz (bp_nodes p ! hd xs))
     \<and> bs = drop (nat (sb_offset sb)) (blocks (bp_nodes p) xs)"

definition free_ok :: "buffer_pool \<Rightarrow> nat list \<Rightarrow> bool" where
  "free_ok p fl \<longleftrightarrow> node_chain (bp_nodes p) (bp_free p) fl \<and> distinct fl"

definition own :: "buffer_pool \<Rightarrow> socket_buffer \<Rightarrow> nat list \<Rightarrow> nat list \<Rightarrow> byte list \<Rightarrow> bool" where
  "own p sb fl xs bs \<longleftrightarrow> free_ok p fl \<and> sb_holds p sb xs bs \<and> set fl \<inter> set xs = {}"

text \<open>An operation changes only nodes of \<open>S\<close> and new ones, and has those of \<open>S'\<close> at the end.\<close>

definition touches :: "buffer_pool \<Rightarrow> buffer_pool \<Rightarrow> nat set \<Rightarrow> nat set \<Rightarrow> bool" where
  "touches p p' S S' \<longleftrightarrow> length (bp_nodes p) \<le> length (bp_nodes p') \<and> S' \<subseteq> S \<union> {length (bp_nodes p)..<length (bp_nodes p')}
     \<and> (\<forall>a<length (bp_nodes p). a \<notin> S \<longrightarrow> bp_nodes p' ! a = bp_nodes p ! a)"

lemma frame_refl: "S' \<subseteq> S \<Longrightarrow> touches p p S S'"
  by (auto simp: touches_def)

lemma frame_trans: "touches p p' S S' \<Longrightarrow> touches p' p'' S' S'' \<Longrightarrow> touches p p'' S S''"
proof -
  assume f: "touches p p' S S'" "touches p' p'' S' S''"
  have "S'' \<subseteq> S \<union> {length (bp_nodes p)..<length (bp_nodes p'')}" using f unfolding touches_def by fastforce
  moreover have "bp_nodes p'' ! a = bp_nodes p ! a" if "a < length (bp_nodes p)" "a \<notin> S" for a
  proof -
    have "a \<notin> S'" "a < length (bp_nodes p')" using f(1) that by (auto simp: touches_def)
    then show ?thesis using f that by (simp add: touches_def)
  qed
  ultimately show ?thesis using f by (simp add: touches_def)
qed

lemma return_free_node_links:
  assumes "free_ok p fl" "linked p sb (a # xs)" "set fl \<inter> set (a # xs) = {}"
  obtains sb' p' where "return_free_node sb p = Inr (sb', p')" "free_ok p' (a # fl)" "linked p' sb' xs" "set (a # fl) \<inter> set xs = {}"
    "touches p p' (set fl \<union> set (a # xs)) (set (a # fl) \<union> set xs)" "length (bp_nodes p') = length (bp_nodes p)"
    "blocks (bp_nodes p') xs = blocks (bp_nodes p) xs" "sb_offset sb' = 0" "sb_size sb' = sb_size sb"
proof -
  let ?ns = "(bp_nodes p)[a := \<lparr>bn_msg = None, bn_sz = 0, bn_next = bp_free p\<rparr>]"
  let ?p = "p\<lparr>bp_nodes := ?ns, bp_free := Some a\<rparr>"
  let ?nx = "bn_next (bp_nodes p ! a)"
  let ?sb = "sb\<lparr>sb_offset := 0, sb_head := ?nx, sb_tail := (if ?nx = None then None else sb_tail sb)\<rparr>"
  have c: "sb_head sb = Some a" "a < length (bp_nodes p)" "node_chain (bp_nodes p) ?nx xs" "distinct (a # xs)" "\<forall>b\<in>set (a # xs). node_full (bp_nodes p ! b)"
    "sb_tail sb = Some (last (a # xs))" using assms(2) by (auto simp: linked_def)
  have r: "return_free_node sb p = Inr (?sb, ?p)" using c(1,2) by (simp add: return_free_node_def pool_node_def set_node_def)
  have "node_chain ?ns (bp_free p) fl" using assms(1,3) by (intro chain_update) (auto simp: free_ok_def)
  then have f: "free_ok ?p (a # fl)" using assms(1,3) c(2) by (simp add: free_ok_def)
  have nd: "?ns ! b = bp_nodes p ! b" if "b \<noteq> a" for b using that by simp
  have "node_chain ?ns ?nx xs" using c(3,4) by (intro chain_update) auto
  moreover have "(?nx = None) = (xs = [])" using c(3) by (cases xs) auto
  moreover have "\<forall>b\<in>set xs. node_full (?ns ! b)" using c(4,5) by (metis distinct.simps(2) list.set_intros(2) nd)
  ultimately have l: "linked ?p ?sb xs" using c(4,6) by (simp add: linked_def)
  have "blocks ?ns xs = blocks (bp_nodes p) xs" using c(4) by (intro blocks_frame) (simp add: nth_other)
  then show ?thesis using that [OF r f l] assms(3) c(4) by (auto simp: touches_def)
qed

text \<open>The same for a buffer and its bytes.\<close>

lemma own_return:
  assumes "own p sb fl (a # xs) bs"
  obtains sb' p' where "return_free_node sb p = Inr (sb', p')" "own p' sb' (a # fl) xs (blocks (bp_nodes p) xs)"
    "touches p p' (set fl \<union> set (a # xs)) (set (a # fl) \<union> set xs)" "length (bp_nodes p') = length (bp_nodes p)" "sb_size sb' = sb_size sb"
proof -
  obtain sb' p' where r: "return_free_node sb p = Inr (sb', p')" "free_ok p' (a # fl)" "linked p' sb' xs" "set (a # fl) \<inter> set xs = {}"
    "touches p p' (set fl \<union> set (a # xs)) (set (a # fl) \<union> set xs)" "length (bp_nodes p') = length (bp_nodes p)"
    "blocks (bp_nodes p') xs = blocks (bp_nodes p) xs" "sb_offset sb' = 0" "sb_size sb' = sb_size sb"
    using assms return_free_node_links [of p fl sb a xs] by (auto simp: own_def sb_holds_def)
  have "0 < bn_sz (bp_nodes p' ! hd xs)" if "xs \<noteq> []"
    using r(3) that full_bytes [of "bp_nodes p' ! hd xs"] by (auto simp: linked_def)
  then have "sb_holds p' sb' xs (blocks (bp_nodes p) xs)" using r by (simp add: sb_holds_def)
  then show ?thesis using r that by (simp add: own_def)
qed

section \<open>Pushing\<close>

lemma take_free_ok:
  assumes "free_ok p fl"
  obtains a fl' p' where "take_free p = (a, p')" "a < length (bp_nodes p')" "node_chain (bp_nodes p') (bn_next (bp_nodes p' ! a)) fl'" "distinct (a # fl')"
    "set (a # fl') \<subseteq> set fl \<union> {length (bp_nodes p)..<length (bp_nodes p')}" "\<exists>ms. bp_nodes p' = bp_nodes p @ ms"
proof (cases "bp_free p")
  case None
  let ?sz = "chunk_size (pool_rawlen p)" and ?base = "length (bp_nodes p)"
  have sz: "0 < ?sz" by (simp add: chunk_size_def Let_def)
  let ?p = "p\<lparr>bp_nodes := bp_nodes p @ lnewpool ?base ?sz, bp_chunks := bp_chunks p @ [?sz]\<rparr>"
  have c: "node_chain (bp_nodes p @ lnewpool ?base ?sz) (Some ?base) [?base..<?base + ?sz]" by (rule new_chunk) (simp_all add: sz)
  have u: "[?base..<?base + ?sz] = ?base # [Suc ?base..<?base + ?sz]" using sz by (simp add: upt_conv_Cons)
  have len: "length (lnewpool ?base ?sz) = ?sz" by (simp add: lnewpool_def)
  show ?thesis
    by (rule that [of ?base ?p "[Suc ?base..<?base + ?sz]"]) (use None c u len sz in \<open>auto simp: take_free_def Let_def\<close>)
next
  case (Some a)
  then obtain fl' where "fl = a # fl'" "a < length (bp_nodes p)" "node_chain (bp_nodes p) (bn_next (bp_nodes p ! a)) fl'"
    using assms by (auto simp: free_ok_def chain_Some)
  then show ?thesis using that [of a p fl'] Some assms by (auto simp: take_free_def free_ok_def)
qed

lemma holds_frame:
  assumes h: "sb_holds p sb xs bs" and nd: "\<And>a. a \<in> set xs \<Longrightarrow> a < length (bp_nodes p') \<and> bp_nodes p' ! a = bp_nodes p ! a"
  shows "sb_holds p' sb xs bs"
proof -
  have "node_chain (bp_nodes p) (sb_head sb) xs" using h by (simp add: sb_holds_def linked_def)
  then have "node_chain (bp_nodes p') (sb_head sb) xs" by (rule node_chain_frame) (use nd in blast)
  moreover have "blocks (bp_nodes p') xs = blocks (bp_nodes p) xs" using nd by (intro blocks_frame) blast
  ultimately show ?thesis using h nd by (cases xs) (auto simp: sb_holds_def linked_def)
qed

lemma holds_less: "sb_holds p sb xs bs \<Longrightarrow> a \<in> set xs \<Longrightarrow> a < length (bp_nodes p)"
  by (auto simp: sb_holds_def linked_def dest: chain_less)

lemma holds_append_nodes: "sb_holds p sb xs bs \<Longrightarrow> bp_nodes p' = bp_nodes p @ ms \<Longrightarrow> sb_holds p' sb xs bs"
  by (rule holds_frame) (auto simp: nth_append dest: holds_less)

text \<open>A full node that belongs to nobody is linked behind the last one.\<close>

lemma linked_snoc:
  assumes l: "linked p sb xs" and b: "b < length (bp_nodes p)" "b \<notin> set xs" and nb: "node_full (bp_nodes p ! b)" "bn_next (bp_nodes p ! b) = None"
  defines "ns \<equiv> (if xs = [] then bp_nodes p else (bp_nodes p)[last xs := (bp_nodes p ! last xs)\<lparr>bn_next := Some b\<rparr>])"
  shows "linked (p\<lparr>bp_nodes := ns\<rparr>) (sb\<lparr>sb_head := (if xs = [] then Some b else sb_head sb), sb_tail := Some b\<rparr>) (xs @ [b])"
    "blocks ns (xs @ [b]) = blocks (bp_nodes p) xs @ node_bytes (bp_nodes p ! b)" "bn_sz (ns ! a) = bn_sz (bp_nodes p ! a)"
proof -
  have full: "node_full (ns ! a) = node_full (bp_nodes p ! a)" "node_bytes (ns ! a) = node_bytes (bp_nodes p ! a)" "bn_sz (ns ! a) = bn_sz (bp_nodes p ! a)" for a
  proof -
    have "ns ! a = bp_nodes p ! a \<or> ns ! a = (bp_nodes p ! a)\<lparr>bn_next := Some b\<rparr>"
      by (cases "a = last xs"; cases "a < length (bp_nodes p)") (auto simp: ns_def list_update_beyond)
    then show "node_full (ns ! a) = node_full (bp_nodes p ! a)" "node_bytes (ns ! a) = node_bytes (bp_nodes p ! a)" "bn_sz (ns ! a) = bn_sz (bp_nodes p ! a)"
      by (auto simp: node_full_def node_bytes_def)
  qed
  have "node_chain ns (if xs = [] then Some b else sb_head sb) (xs @ [b])"
  proof (cases xs rule: rev_cases)
    case Nil
    then show ?thesis using b(1) nb(2) by (simp add: ns_def)
  next
    case (snoc ys a)
    then have "node_chain (bp_nodes p) (sb_head sb) (ys @ [a])" "distinct (ys @ [a])" using l by (simp_all add: linked_def)
    then show ?thesis using chain_snoc [of "bp_nodes p" "sb_head sb" ys a b "bp_nodes p ! a"] b nb(2) snoc by (simp add: ns_def)
  qed
  then show "linked (p\<lparr>bp_nodes := ns\<rparr>) (sb\<lparr>sb_head := (if xs = [] then Some b else sb_head sb), sb_tail := Some b\<rparr>) (xs @ [b])"
    using l b(2) nb(1) full by (auto simp: linked_def)
  show "blocks ns (xs @ [b]) = blocks (bp_nodes p) xs @ node_bytes (bp_nodes p ! b)" using full by (simp add: blocks_def)
  show "bn_sz (ns ! a) = bn_sz (bp_nodes p ! a)" by (rule full)
qed

text \<open>A node is taken from the pool and filled.\<close>

lemma new_node:
  fixes nd :: buffer_node
  assumes o: "own p sb fl xs bs" and t: "take_free p = (b, p1)"
  defines "p2 \<equiv> set_node (p1\<lparr>bp_free := bn_next (bp_nodes p1 ! b)\<rparr>) b nd"
  obtains fl' where "free_ok p2 fl'" "sb_holds p2 sb xs bs" "b \<notin> set xs" "b \<notin> set fl'" "set fl' \<inter> set xs = {}" "b < length (bp_nodes p1)"
    "b < length (bp_nodes p2)" "bp_nodes p2 ! b = nd" "touches p p2 (set fl) (insert b (set fl'))"
proof -
  obtain fl' ms where f: "b < length (bp_nodes p1)" "node_chain (bp_nodes p1) (bn_next (bp_nodes p1 ! b)) fl'" "distinct (b # fl')"
    "set (b # fl') \<subseteq> set fl \<union> {length (bp_nodes p)..<length (bp_nodes p1)}" "bp_nodes p1 = bp_nodes p @ ms"
    using o t by (auto simp: own_def elim: take_free_ok)
  have dis: "set (b # fl') \<inter> set xs = {}" using f(4) o holds_less [of p sb xs bs] by (fastforce simp: own_def)
  have "sb_holds p1 sb xs bs" using o f(5) by (auto simp: own_def intro: holds_append_nodes)
  then have h: "sb_holds p2 sb xs bs"
  proof (rule holds_frame)
    fix a assume "a \<in> set xs"
    then have "b \<noteq> a" "a < length (bp_nodes p1)" using dis \<open>sb_holds p1 sb xs bs\<close> holds_less by auto
    then show "a < length (bp_nodes p2) \<and> bp_nodes p2 ! a = bp_nodes p1 ! a" by (simp add: p2_def set_node_def)
  qed
  have "free_ok p2 fl'" using chain_update [OF f(2), of b] f(3) by (simp add: free_ok_def p2_def set_node_def)
  moreover have "touches p p2 (set fl) (insert b (set fl'))"
  proof -
    have "bp_nodes p2 ! a = bp_nodes p ! a" if "a < length (bp_nodes p)" "a \<notin> set fl" for a
    proof -
      have "b \<noteq> a" using that f(4) by auto
      then show ?thesis using that(1) f(5) by (simp add: p2_def set_node_def nth_append)
    qed
    then show ?thesis using f(4,5) by (auto simp: touches_def p2_def set_node_def)
  qed
  ultimately show ?thesis using that h dis f(1,3) by (simp add: p2_def set_node_def)
qed

text \<open>The node is linked to the buffer.\<close>

lemma own_snoc:
  assumes f: "free_ok p fl" and h: "sb_holds p sb xs bs" and b: "b \<notin> set xs" "b \<notin> set fl" "set fl \<inter> set xs = {}" "b < length (bp_nodes p)"
    and nb: "bp_nodes p ! b = \<lparr>bn_msg = Some m, bn_sz = int (length m), bn_next = None\<rparr>" "m \<noteq> []"
  defines "ns \<equiv> (if xs = [] then bp_nodes p else (bp_nodes p)[last xs := (bp_nodes p ! last xs)\<lparr>bn_next := Some b\<rparr>])"
  shows "own (p\<lparr>bp_nodes := ns\<rparr>) (sb\<lparr>sb_head := (if xs = [] then Some b else sb_head sb), sb_tail := Some b\<rparr>) fl (xs @ [b]) (bs @ m)"
    "touches p (p\<lparr>bp_nodes := ns\<rparr>) (insert b (set fl) \<union> set xs) (set fl \<union> set (xs @ [b]))"
proof -
  have l: "linked p sb xs" using h by (simp add: sb_holds_def)
  have nf: "node_full (bp_nodes p ! b)" "bn_next (bp_nodes p ! b) = None" "node_bytes (bp_nodes p ! b) = m" using nb by (simp_all add: node_full_def node_bytes_def)
  note sn = linked_snoc [OF l b(4,1) nf(1,2), folded ns_def]
  have "nat (sb_offset sb) \<le> length (blocks (bp_nodes p) xs)" "sb_offset sb < bn_sz (bp_nodes p ! hd (xs @ [b]))"
    using h nb full_bytes [of "bp_nodes p ! hd xs"] by (cases xs; auto simp: sb_holds_def linked_def)+
  then have "sb_holds (p\<lparr>bp_nodes := ns\<rparr>) (sb\<lparr>sb_head := (if xs = [] then Some b else sb_head sb), sb_tail := Some b\<rparr>) (xs @ [b]) (bs @ m)"
    using sn h nf(3) by (simp add: sb_holds_def)
  moreover have "last xs \<notin> set fl" if "xs \<noteq> []" using b(3) last_in_set [OF that] by blast
  then have "free_ok (p\<lparr>bp_nodes := ns\<rparr>) fl" using f chain_update [of "bp_nodes p" "bp_free p" fl "last xs"] by (auto simp: free_ok_def ns_def)
  ultimately show "own (p\<lparr>bp_nodes := ns\<rparr>) (sb\<lparr>sb_head := (if xs = [] then Some b else sb_head sb), sb_tail := Some b\<rparr>) fl (xs @ [b]) (bs @ m)"
    using b by (auto simp: own_def)
  have "ns ! a = bp_nodes p ! a" if "a \<notin> set xs" for a
    using that by (cases "xs = []"; cases "last xs = a") (auto simp: ns_def)
  then show "touches p (p\<lparr>bp_nodes := ns\<rparr>) (insert b (set fl) \<union> set xs) (set fl \<union> set (xs @ [b]))" by (auto simp: touches_def ns_def)
qed

lemma frame_mono: "touches p p' S S' \<Longrightarrow> \<forall>a\<in>T. a < length (bp_nodes p) \<Longrightarrow> touches p p' (S \<union> T) (S' \<union> T)"
  by (auto simp: touches_def)

lemma push_own:
  assumes o: "own p sb fl xs bs" and sz: "sb_size sb = int (length bs)" and m: "m \<noteq> []" "int (length bs + length m) < 2 ^ 31"
  obtains sb' p' fl' xs' where "lpushbuffer (Some sb) p (Some m) (int (length m)) = Inr ([La_int (int (length (bs @ m)))], sb', p')"
    "own p' sb' fl' xs' (bs @ m)" "sb_size sb' = int (length (bs @ m))" "touches p p' (set fl \<union> set xs) (set fl' \<union> set xs')"
proof -
  obtain b p1 where t: "take_free p = (b, p1)" by (cases "take_free p")
  let ?p2 = "set_node (p1\<lparr>bp_free := bn_next (bp_nodes p1 ! b)\<rparr>) b \<lparr>bn_msg = Some m, bn_sz = int (length m), bn_next = None\<rparr>"
  obtain fl' where n: "free_ok ?p2 fl'" "sb_holds ?p2 sb xs bs" "b \<notin> set xs" "b \<notin> set fl'" "set fl' \<inter> set xs = {}" "b < length (bp_nodes p1)"
    "b < length (bp_nodes ?p2)" "bp_nodes ?p2 ! b = \<lparr>bn_msg = Some m, bn_sz = int (length m), bn_next = None\<rparr>" "touches p ?p2 (set fl) (insert b (set fl'))"
    using new_node [OF o t] by blast
  note s = own_snoc [OF n(1-5,7,8) m(1)]
  let ?p3 = "?p2\<lparr>bp_nodes := (if xs = [] then bp_nodes ?p2 else (bp_nodes ?p2)[last xs := (bp_nodes ?p2 ! last xs)\<lparr>bn_next := Some b\<rparr>])\<rparr>"
  let ?sb = "sb\<lparr>sb_head := (if xs = [] then Some b else sb_head sb), sb_tail := Some b, sb_size := int (length (bs @ m))\<rparr>"
  have l: "sb_tail sb = (if xs = [] then None else Some (last xs))" "sb_head sb = None \<longleftrightarrow> xs = []" using n(2) by (cases xs; auto simp: sb_holds_def linked_def)+
  have last: "pool_node ?p2 (sb_tail sb) = Inr (bp_nodes ?p2 ! last xs)" if "xs \<noteq> []" using l(1) that holds_less [OF n(2), of "last xs"] by (simp add: pool_node_def)
  have c: "sb_size sb + int (length m) = int (length (bs @ m))" "c_int (int (length m)) = int (length m)" "c_int (int (length (bs @ m))) = int (length (bs @ m))"
    using sz m(2) by simp_all
  have r: "lpushbuffer (Some sb) p (Some m) (int (length m)) = Inr ([La_int (int (length (bs @ m)))], ?sb, ?p3)"
    using t n(6) c l last by (cases "sb_head sb") (simp_all add: lpushbuffer_def pool_node_def [of p1] Let_def set_node_def [of ?p2])
  have "touches p ?p2 (set fl \<union> set xs) (insert b (set fl') \<union> set xs)"
    using n(9) o by (intro frame_mono) (auto simp: own_def dest: holds_less)
  then have "touches p ?p3 (set fl \<union> set xs) (set fl' \<union> set (xs @ [b]))" using s(2) by (rule frame_trans)
  moreover have "own ?p3 ?sb fl' (xs @ [b]) (bs @ m)" using s(1) by (simp add: own_def sb_holds_def linked_def)
  ultimately show ?thesis using that [OF r] by simp
qed

section \<open>Taking bytes\<close>

lemma own_Cons:
  assumes "own p sb fl (a # xs) bs"
  shows "pool_node p (sb_head sb) = Inr (bp_nodes p ! a)" "node_full (bp_nodes p ! a)" "0 \<le> sb_offset sb" "sb_offset sb < bn_sz (bp_nodes p ! a)"
    "bs = drop (nat (sb_offset sb)) (node_bytes (bp_nodes p ! a)) @ blocks (bp_nodes p) xs"
    "int (length (drop (nat (sb_offset sb)) (node_bytes (bp_nodes p ! a)))) = bn_sz (bp_nodes p ! a) - sb_offset sb"
  using assms full_bytes [of "bp_nodes p ! a"] by (auto simp: own_def sb_holds_def linked_def pool_node_def)

lemma own_Nil: "own p sb fl [] bs \<Longrightarrow> bs = [] \<and> sb_head sb = None"
  by (auto simp: own_def sb_holds_def linked_def)

lemma own_short: "own p sb fl xs bs \<Longrightarrow> length xs \<le> length (bp_nodes p)"
  by (auto simp: own_def sb_holds_def linked_def intro: chain_short)

lemma own_size [simp]: "own p (sb\<lparr>sb_size := n\<rparr>) fl xs bs = own p sb fl xs bs"
  by (simp add: own_def sb_holds_def linked_def)


text \<open>A part of the first block.\<close>

lemma own_advance:
  assumes "own p sb fl (a # xs) bs" "0 \<le> sz" "sz < bn_sz (bp_nodes p ! a) - sb_offset sb"
  shows "own p (sb\<lparr>sb_offset := sb_offset sb + sz\<rparr>) fl (a # xs) (drop (nat sz) bs)"
    "0 \<le> n \<Longrightarrow> n \<le> sz \<Longrightarrow> block_bytes (bp_nodes p ! a) (sb_offset sb) n = Inr (take (nat n) bs)"
proof -
  note c = own_Cons [OF assms(1)]
  have "drop (nat sz) bs = drop (nat (sb_offset sb + sz)) (blocks (bp_nodes p) (a # xs))"
    using assms(2,3) c by (simp add: nat_add_distrib add.commute)
  then show "own p (sb\<lparr>sb_offset := sb_offset sb + sz\<rparr>) fl (a # xs) (drop (nat sz) bs)"
    using assms c(3) by (auto simp: own_def sb_holds_def linked_def)
  show "block_bytes (bp_nodes p ! a) (sb_offset sb) n = Inr (take (nat n) bs)" if "0 \<le> n" "n \<le> sz"
    using block_bytes_full [OF c(2,3) that(1)] that assms(3) c(5,6) by simp
qed

text \<open>A whole block or what is left of it.\<close>

lemma own_block:
  assumes "own p sb fl (a # xs) bs" "0 \<le> n" "n \<le> bn_sz (bp_nodes p ! a) - sb_offset sb"
  shows "block_bytes (bp_nodes p ! a) (sb_offset sb) n = Inr (take (nat n) bs)"
  using block_bytes_full [OF own_Cons(2,3) [OF assms(1)] assms(2)] assms(3) own_Cons(5,6) [OF assms(1)] by simp

lemma own_rest:
  assumes "own p sb fl (a # xs) bs"
  shows "blocks (bp_nodes p) xs = drop (nat (bn_sz (bp_nodes p ! a) - sb_offset sb)) bs"
  using own_Cons(5,6) [OF assms] by (metis append_eq_conv_conj nat_int)

lemma return_offset: "return_free_node (sb\<lparr>sb_offset := n\<rparr>) p = return_free_node sb p"
  by (cases sb) (simp add: return_free_node_def cong: if_cong)

lemma take_split:
  assumes "0 \<le> b"
  shows "take (nat (if r < b then r else b)) bs @ take (nat (r - b)) (drop (nat b) bs) = take (nat r) bs"
proof (cases "r < b")
  case False
  then have "nat r = nat b + nat (r - b)" using assms by simp
  then show ?thesis using False by (simp add: take_add)
qed simp

lemma pop_loop_own:
  assumes "own p sb fl xs bs" "0 < sz" "sz \<le> int (length bs)" "length xs \<le> f" "0 \<le> skip"
  shows "\<exists>sb' p' fl' xs'. pop_loop f acc sb p sz skip = Inr (acc @ take (nat (sz - skip)) bs, sb', p')
    \<and> own p' sb' fl' xs' (drop (nat sz) bs) \<and> sb_size sb' = sb_size sb \<and> touches p p' (set fl \<union> set xs) (set fl' \<union> set xs')"
  using assms
proof (induction f arbitrary: acc sb p fl xs bs sz)
  case 0
  then show ?case using own_Nil [of p sb fl bs] by simp
next
  case (Suc f)
  from Suc.prems obtain a ys where xs: "xs = a # ys" using own_Nil [of p sb fl bs] by (cases xs) auto
  note o = Suc.prems(1) [unfolded xs]
  note c = own_Cons [OF o]
  let ?bytes = "bn_sz (bp_nodes p ! a) - sb_offset sb"
  have rb: "nat ?bytes \<le> length bs" "0 < ?bytes" using c(4,5,6) by auto
  obtain sb1 p1 where r: "return_free_node sb p = Inr (sb1, p1)" "own p1 sb1 (a # fl) ys (drop (nat ?bytes) bs)"
    "touches p p1 (set fl \<union> set (a # ys)) (set (a # fl) \<union> set ys)" "length (bp_nodes p1) = length (bp_nodes p)" "sb_size sb1 = sb_size sb"
    using own_return [OF o] own_rest [OF o] by metis
  have piece: "(if n > 0 then block_bytes (bp_nodes p ! a) (sb_offset sb) m else Inr []) = Inr (take (nat m) bs)" if "m \<le> ?bytes" "n > 0 \<longleftrightarrow> m > 0" for n m
    using own_block [OF o, of m] that by auto
  consider (within) "sz < ?bytes" | (whole) "sz = ?bytes" | (beyond) "?bytes < sz" by linarith
  then show ?case
  proof cases
    case within
    have "pop_loop (Suc f) acc sb p sz skip = Inr (acc @ take (nat (sz - skip)) bs, sb\<lparr>sb_offset := sb_offset sb + sz\<rparr>, p)"
      using within c(1) piece [of "sz - skip" "sz - skip"] Suc.prems(5) by (simp add: Let_def)
    then show ?thesis using own_advance(1) [OF o, of sz] within Suc.prems(2) xs frame_refl [of "set fl \<union> set xs" "set fl \<union> set xs" p] by fastforce
  next
    case whole
    have "pop_loop (Suc f) acc sb p sz skip = Inr (acc @ take (nat (sz - skip)) bs, sb1, p1)"
      using whole c(1) own_block [OF o, of "?bytes - skip"] Suc.prems(5) r(1) return_offset by (cases "skip < ?bytes") (simp_all add: Let_def)
    then show ?thesis using r(2,3,5) whole xs by blast
  next
    case beyond
    let ?n = "if sz - skip < ?bytes then sz - skip else ?bytes"
    have "nat ?bytes < length bs" using beyond Suc.prems(3) rb(2) by linarith
    then have "ys \<noteq> []" using r(2) own_Nil [of p1 sb1 "a # fl" "drop (nat ?bytes) bs"] by auto
    then have h: "sb_head sb1 \<noteq> None" using r(2) by (cases ys) (auto simp: own_def sb_holds_def linked_def)
    have s: "(if 0 < sz - skip then block_bytes (bp_nodes p ! a) (sb_offset sb) ?n else Inr []) = Inr (take (nat ?n) bs)"
      by (rule piece) (use rb(2) in auto)
    have ih: "\<exists>sb' p' fl' xs'. pop_loop f (acc @ take (nat ?n) bs) sb1 p1 (sz - ?bytes) skip =
        Inr ((acc @ take (nat ?n) bs) @ take (nat (sz - ?bytes - skip)) (drop (nat ?bytes) bs), sb', p')
      \<and> own p' sb' fl' xs' (drop (nat (sz - ?bytes)) (drop (nat ?bytes) bs)) \<and> sb_size sb' = sb_size sb1
      \<and> touches p1 p' (set (a # fl) \<union> set ys) (set fl' \<union> set xs')"
      by (rule Suc.IH [OF r(2)]) (use beyond Suc.prems xs rb in auto)
    then obtain sb' p' fl' xs' where i: "pop_loop f (acc @ take (nat ?n) bs) sb1 p1 (sz - ?bytes) skip =
        Inr ((acc @ take (nat ?n) bs) @ take (nat (sz - ?bytes - skip)) (drop (nat ?bytes) bs), sb', p')"
      "own p' sb' fl' xs' (drop (nat (sz - ?bytes)) (drop (nat ?bytes) bs))" "sb_size sb' = sb_size sb1"
      "touches p1 p' (set (a # fl) \<union> set ys) (set fl' \<union> set xs')" by blast
    have t: "take (nat ?n) bs @ take (nat (sz - ?bytes - skip)) (drop (nat ?bytes) bs) = take (nat (sz - skip)) bs"
      using take_split [of ?bytes "sz - skip" bs] rb(2) by (simp add: algebra_simps)
    have d: "drop (nat (sz - ?bytes)) (drop (nat ?bytes) bs) = drop (nat sz) bs" using beyond rb(2) by (simp flip: nat_add_distrib)
    have "pop_loop (Suc f) acc sb p sz skip = Inr (acc @ take (nat (sz - skip)) bs, sb', p')"
      using beyond c(1) s r(1) h i(1) t by (simp add: Let_def)
    moreover have "own p' sb' fl' xs' (drop (nat sz) bs)" using i(2) unfolding d .
    moreover have "sb_size sb' = sb_size sb" using i(3) r(5) by simp
    moreover have "touches p p' (set fl \<union> set xs) (set fl' \<union> set xs')" using frame_trans [OF r(3) i(4)] unfolding xs .
    ultimately show ?thesis by blast
  qed
qed

lemma pop_lstring_own:
  assumes o: "own p sb fl xs bs" and sz: "0 \<le> skip" "skip \<le> sz" "sz \<le> int (length bs)" "xs \<noteq> []"
  obtains sb' p' fl' xs' where "pop_lstring sb p sz skip = Inr (take (nat (sz - skip)) bs, sb', p')"
    "own p' sb' fl' xs' (drop (nat sz) bs)" "sb_size sb' = sb_size sb" "touches p p' (set fl \<union> set xs) (set fl' \<union> set xs')"
proof -
  obtain a ys where xs: "xs = a # ys" using sz(4) by (cases xs) auto
  note oa = o [unfolded xs]
  note c = own_Cons [OF oa]
  let ?bytes = "bn_sz (bp_nodes p ! a) - sb_offset sb"
  consider (within) "sz < ?bytes" | (whole) "sz = ?bytes" | (beyond) "?bytes < sz" by linarith
  then show ?thesis
  proof cases
    case within
    then have "pop_lstring sb p sz skip = Inr (take (nat (sz - skip)) bs, sb\<lparr>sb_offset := sb_offset sb + sz\<rparr>, p)"
      using c(1) own_block [OF oa, of "sz - skip"] sz by (simp add: pop_lstring_def)
    then show ?thesis using that own_advance(1) [OF oa, of sz] within sz(1,2) xs frame_refl [of "set fl \<union> set xs" "set fl \<union> set xs" p] by auto
  next
    case whole
    obtain sb1 p1 where r: "return_free_node sb p = Inr (sb1, p1)" "own p1 sb1 (a # fl) ys (blocks (bp_nodes p) ys)"
      "touches p p1 (set fl \<union> set (a # ys)) (set (a # fl) \<union> set ys)" "sb_size sb1 = sb_size sb"
      using own_return [OF oa] by metis
    have "pop_lstring sb p sz skip = Inr (take (nat (sz - skip)) bs, sb1, p1)"
      using whole c(1) own_block [OF oa, of "?bytes - skip"] sz r(1) by (simp add: pop_lstring_def)
    then show ?thesis using that r whole own_rest [OF oa] xs by simp
  next
    case beyond
    then have "pop_lstring sb p sz skip = pop_loop (length (bp_nodes p)) [] sb p sz skip" using c(1) by (simp add: pop_lstring_def)
    moreover have "0 < sz" using beyond c(4) by simp
    ultimately show ?thesis using pop_loop_own [OF o _ sz(3) own_short [OF o] sz(1), of "[]"] that by auto
  qed
qed

lemma pop_own:
  assumes o: "own p sb fl xs bs" and sz: "sb_size sb = int (length bs)" "0 \<le> n" "n < 2 ^ 31"
  obtains sb' p' fl' xs' where
    "lpopbuffer (Some sb) p n = Inr (if int (length bs) < n \<or> n = 0 then [La_nil, La_int (int (length bs))]
       else [La_str (take (nat n) bs), La_int (int (length bs) - n)], sb', p')"
    "own p' sb' fl' xs' (if int (length bs) < n \<or> n = 0 then bs else drop (nat n) bs)"
    "sb_size sb' = int (length (if int (length bs) < n \<or> n = 0 then bs else drop (nat n) bs))" "touches p p' (set fl \<union> set xs) (set fl' \<union> set xs')"
proof (cases "int (length bs) < n \<or> n = 0")
  case True
  then show ?thesis using that [of sb p fl xs] o sz by (simp add: lpopbuffer_def frame_refl)
next
  case False
  then have xs: "xs \<noteq> []" using own_Nil [of p sb fl bs] o sz(2) by auto
  have n: "(0 :: int) \<le> 0" "n \<le> int (length bs)" using False by simp_all
  obtain sb' p' fl' xs' where r: "pop_lstring sb p n 0 = Inr (take (nat (n - 0)) bs, sb', p')" "own p' sb' fl' xs' (drop (nat n) bs)"
    "sb_size sb' = sb_size sb" "touches p p' (set fl \<union> set xs) (set fl' \<union> set xs')"
    using pop_lstring_own [OF o n(1) sz(2) n(2) xs] by blast
  let ?sb = "sb'\<lparr>sb_size := sb_size sb' - n\<rparr>"
  have l: "lpopbuffer (Some sb) p n = Inr ([La_str (take (nat n) bs), La_int (int (length bs) - n)], ?sb, p')"
    using r(1,3) False sz by (simp add: lpopbuffer_def)
  have "sb_size ?sb = int (length (drop (nat n) bs))" using n(2) sz(1,2) r(3) by simp
  then show ?thesis using that [of ?sb p' fl' xs'] l r(2,4) unfolding if_not_P [OF False] by simp
qed

lemma readall_loop_own:
  assumes "own p sb fl xs bs" "length xs \<le> f"
  shows "\<exists>sb' p' fl'. readall_loop f acc sb p = Inr (acc @ bs, sb', p') \<and> clear_loop f sb p = Inr (sb', p') \<and> own p' sb' fl' [] []
    \<and> touches p p' (set fl \<union> set xs) (set fl')"
  using assms
proof (induction f arbitrary: acc sb p fl xs bs)
  case 0
  then show ?case using own_Nil [of p sb fl bs] frame_refl [of "set fl" "set fl" p] by auto
next
  case (Suc f)
  show ?case
  proof (cases xs)
    case Nil
    then show ?thesis using Suc.prems own_Nil [of p sb fl bs] frame_refl [of "set fl" "set fl" p] by auto
  next
    case (Cons a ys)
    note o = Suc.prems(1) [unfolded Cons]
    note c = own_Cons [OF o]
    obtain sb1 p1 where r: "return_free_node sb p = Inr (sb1, p1)" "own p1 sb1 (a # fl) ys (blocks (bp_nodes p) ys)"
      "touches p p1 (set fl \<union> set (a # ys)) (set (a # fl) \<union> set ys)"
      using own_return [OF o] by metis
    let ?s = "take (nat (bn_sz (bp_nodes p ! a) - sb_offset sb)) bs"
    obtain sb' p' fl' where i: "readall_loop f (acc @ ?s) sb1 p1 = Inr ((acc @ ?s) @ blocks (bp_nodes p) ys, sb', p')" "clear_loop f sb1 p1 = Inr (sb', p')"
      "own p' sb' fl' [] []" "touches p1 p' (set (a # fl) \<union> set ys) (set fl')"
      using Suc.IH [OF r(2), of "acc @ ?s"] Suc.prems(2) Cons by auto
    have "?s @ blocks (bp_nodes p) ys = bs" using own_rest [OF o] by simp
    moreover have "sb_head sb \<noteq> None" using o by (simp add: own_def sb_holds_def linked_def)
    ultimately show ?thesis using own_block [OF o] c(1,4) r(1) i frame_trans [OF r(3) i(4)] Cons by auto
  qed
qed

lemma readall_own:
  assumes "own p sb fl xs bs"
  obtains sb' p' fl' where "lreadall (Some sb) p = Inr ([La_str bs], sb', p')" "lclearbuffer (Some sb) b p = Inr ([], Some sb', p')"
    "own p' sb' fl' [] []" "sb_size sb' = 0" "touches p p' (set fl \<union> set xs) (set fl')"
proof -
  obtain sb' p' fl' where r: "readall_loop (length (bp_nodes p)) [] sb p = Inr ([] @ bs, sb', p')" "clear_loop (length (bp_nodes p)) sb p = Inr (sb', p')"
    "own p' sb' fl' [] []" "touches p p' (set fl \<union> set xs) (set fl')"
    using readall_loop_own [OF assms own_short [OF assms], of "[]"] by blast
  then show ?thesis using that [of "sb'\<lparr>sb_size := 0\<rparr>" p' fl'] by (simp add: lreadall_def lclearbuffer_def)
qed

section \<open>Reading a line\<close>

lemma check_sep_blocks:
  assumes "node_chain (bp_nodes p) (Some a) (a # xs)" "\<forall>b\<in>set (a # xs). node_full (bp_nodes p ! b)" "0 \<le> fr" "fr \<le> bn_sz (bp_nodes p ! a)"
    "length sep \<le> length (drop (nat fr) (blocks (bp_nodes p) (a # xs)))" "length xs < f"
  shows "check_sep f p (Some a) fr sep = Inr (take (length sep) (drop (nat fr) (blocks (bp_nodes p) (a # xs))) = sep)"
  using assms
proof (induction f arbitrary: a xs fr sep)
  case (Suc f)
  let ?nd = "bp_nodes p ! a"
  have full: "node_full ?nd" using Suc.prems(2) by simp
  note fb = full_bytes [OF full]
  have at: "pool_node p (Some a) = Inr ?nd" using Suc.prems(1) by (simp add: pool_node_def)
  define here where "here = drop (nat fr) (node_bytes ?nd)"
  let ?sz = "bn_sz ?nd - fr"
  have here: "int (length here) = ?sz" using fb Suc.prems(3,4) by (simp add: here_def)
  have all: "drop (nat fr) (blocks (bp_nodes p) (a # xs)) = here @ blocks (bp_nodes p) xs" using fb Suc.prems(3,4) by (simp add: here_def)
  show ?case
  proof (cases "int (length sep) \<le> ?sz")
    case True
    then have "block_bytes ?nd fr (int (length sep)) = Inr (take (length sep) here)" using block_bytes_full [OF full Suc.prems(3), of "int (length sep)"] by (simp add: here_def)
    moreover have "length sep \<le> length here" using True here by linarith
    ultimately show ?thesis using at True all by (simp add: Let_def)
  next
    case False
    have "block_bytes ?nd fr ?sz = Inr here" using block_bytes_full [OF full Suc.prems(3), of ?sz] Suc.prems(3,4) fb by (simp add: here_def)
    moreover have n: "nat ?sz = length here" using here by linarith
    ultimately have step: "check_sep (Suc f) p (Some a) fr sep = (if here \<noteq> take (length here) sep then Inr False else check_sep f p (bn_next ?nd) 0 (drop (length here) sep))"
      using at False Suc.prems(4) n by (simp add: Let_def)
    have l: "length here < length sep" using False here by linarith
    obtain b ys where ys: "xs = b # ys" "bn_next ?nd = Some b" using Suc.prems(1,5) l all by (cases xs) auto
    have ih: "check_sep f p (Some b) 0 (drop (length here) sep) =
        Inr (take (length (drop (length here) sep)) (drop (nat 0) (blocks (bp_nodes p) (b # ys))) = drop (length here) sep)"
    proof (rule Suc.IH)
      show "length (drop (length here) sep) \<le> length (drop (nat 0) (blocks (bp_nodes p) (b # ys)))"
        using Suc.prems(5) [unfolded all] ys(1) by simp
    qed (use Suc.prems(1,2,6) ys full_bytes [of "bp_nodes p ! b"] in auto)
    have "(take (length sep) (here @ blocks (bp_nodes p) xs) = sep) \<longleftrightarrow>
        here = take (length here) sep \<and> take (length sep - length here) (blocks (bp_nodes p) xs) = drop (length here) sep"
      using l append_eq_conv_conj [of here "take (length sep - length here) (blocks (bp_nodes p) xs)" sep] by auto
    then show ?thesis unfolding step all ys(2) using ih ys(1) by (cases "here = take (length here) sep") (simp_all del: blocks_simps)
  qed
qed simp

lemma find_map: "find P (map f xs) = map_option f (find (\<lambda>x. P (f x)) xs)"
  by (induction xs) auto

lemma readline_loop_blocks:
  assumes "node_chain (bp_nodes p) (Some a) (a # xs)" "\<forall>b\<in>set (a # xs). node_full (bp_nodes p ! b)" "distinct (a # xs)" "0 \<le> fr" "fr < bn_sz (bp_nodes p ! a)"
    "n + length sep \<le> Suc (length (drop (nat fr) (blocks (bp_nodes p) (a # xs))))"
  shows "readline_loop n p a fr (bn_sz (bp_nodes p ! a) - fr) i sep =
    Inr (map_option (\<lambda>j. i + int j) (find (\<lambda>j. take (length sep) (drop j (drop (nat fr) (blocks (bp_nodes p) (a # xs)))) = sep) [0..<n]))"
  using assms
proof (induction n arbitrary: a xs fr i)
  case (Suc n)
  let ?rest = "\<lambda>a xs fr. drop (nat fr) (blocks (bp_nodes p) (a # xs))"
  let ?m = "\<lambda>r j. take (length sep) (drop j r) = sep"
  note fb = full_bytes [of "bp_nodes p ! a"]
  have find: "find (?m r) [0..<Suc n] = (if ?m r 0 then Some 0 else map_option Suc (find (?m (drop 1 r)) [0..<n]))" for r
  proof -
    have "[0..<Suc n] = 0 # map Suc [0..<n]" by (simp add: upt_conv_Cons map_Suc_upt del: upt_Suc)
    then show ?thesis by (simp add: find_map del: upt_Suc)
  qed
  have "length xs < length (bp_nodes p)" using chain_short [OF Suc.prems(1,3)] by simp
  then have chk: "check_sep (length (bp_nodes p)) p (Some a) fr sep = Inr (?m (?rest a xs fr) 0)"
    using check_sep_blocks [OF Suc.prems(1,2,4)] Suc.prems(5,6) by (simp del: blocks_simps)
  show ?case
  proof (cases "?m (?rest a xs fr) 0")
    case True
    then show ?thesis using chk find [of "?rest a xs fr"] by (simp del: blocks_simps upt_Suc)
  next
    case False
    note nf = find [of "?rest a xs fr", unfolded if_not_P [OF False]]
    have "?rest a xs fr \<noteq> []" using fb Suc.prems(2,4,5) by auto
    then have "length (?rest a xs fr) = Suc (length (drop 1 (?rest a xs fr)))" by (cases "?rest a xs fr") (simp_all del: blocks_simps)
    then have len: "n + length sep \<le> Suc (length (drop 1 (?rest a xs fr)))" using Suc.prems(6) by simp
    show ?thesis
    proof (cases "bn_sz (bp_nodes p ! a) - fr - 1 = 0")
      case True
      have r: "drop 1 (?rest a xs fr) = blocks (bp_nodes p) xs" using True fb Suc.prems(2,4) by simp
      show ?thesis
      proof (cases xs)
        case Nil
        then have "n = 0" using len r False by (cases sep) auto
        then show ?thesis using chk False True Nil Suc.prems(1) by (simp add: pool_node_def del: blocks_simps)
      next
        case (Cons b ys)
        have ih: "readline_loop n p b 0 (bn_sz (bp_nodes p ! b) - 0) (i + 1) sep = Inr (map_option (\<lambda>j. i + 1 + int j) (find (?m (?rest b ys 0)) [0..<n]))"
        proof (rule Suc.IH)
          show "n + length sep \<le> Suc (length (?rest b ys 0))" using len [unfolded r] Cons by (simp del: blocks_simps)
        qed (use Suc.prems(1,2,3) Cons full_bytes [of "bp_nodes p ! b"] in auto)
        have "bn_next (bp_nodes p ! a) = Some b" "pool_node p (Some a) = Inr (bp_nodes p ! a)" "pool_node p (Some b) = Inr (bp_nodes p ! b)"
          using Suc.prems(1) Cons by (simp_all add: pool_node_def)
        then have "readline_loop (Suc n) p a fr (bn_sz (bp_nodes p ! a) - fr) i sep = readline_loop n p b 0 (bn_sz (bp_nodes p ! b)) (i + 1) sep"
          using chk False True by (simp del: blocks_simps)
        then show ?thesis unfolding nf r using ih Cons by (simp add: option.map_comp comp_def add.assoc del: blocks_simps)
      qed
    next
      case False2: False
      have r: "drop 1 (?rest a xs fr) = ?rest a xs (fr + 1)" using Suc.prems(4) by (simp add: nat_add_distrib del: blocks_simps)
      have ih: "readline_loop n p a (fr + 1) (bn_sz (bp_nodes p ! a) - (fr + 1)) (i + 1) sep = Inr (map_option (\<lambda>j. i + 1 + int j) (find (?m (?rest a xs (fr + 1))) [0..<n]))"
      proof (rule Suc.IH [OF Suc.prems(1,2,3)])
        show "n + length sep \<le> Suc (length (?rest a xs (fr + 1)))" using len unfolding r .
      qed (use Suc.prems(4,5) False2 in auto)
      have "readline_loop (Suc n) p a fr (bn_sz (bp_nodes p ! a) - fr) i sep = readline_loop n p a (fr + 1) (bn_sz (bp_nodes p ! a) - (fr + 1)) (i + 1) sep"
        using chk False False2 by (simp add: algebra_simps del: blocks_simps)
      then show ?thesis unfolding nf r using ih by (simp add: option.map_comp comp_def add.assoc del: blocks_simps)
    qed
  qed
qed simp

text \<open>The first place of the separator; an empty stream has no line, even when the separator is empty.\<close>

definition find_sep :: "byte list \<Rightarrow> byte list \<Rightarrow> nat option" where
  "find_sep sep bs = (if bs = [] then None else find (\<lambda>i. take (length sep) (drop i bs) = sep) [0..<Suc (length bs) - length sep])"

lemma find_sep_Some: "find_sep sep bs = Some i \<Longrightarrow> i + length sep \<le> length bs \<and> take (length sep) (drop i bs) = sep \<and> (\<forall>j<i. take (length sep) (drop j bs) \<noteq> sep)"
  by (auto simp: find_sep_def find_Some_iff split: if_splits)

definition line_result :: "bool \<Rightarrow> byte list \<Rightarrow> byte list \<Rightarrow> lua_arg list \<times> byte list" where
  "line_result check sep bs =
     (case find_sep sep bs of
        None \<Rightarrow> ([], bs)
      | Some i \<Rightarrow> if check then ([La_bool True], bs) else ([La_str (take i bs)], drop (i + length sep) bs))"

lemma readline_own:
  assumes o: "own p sb fl xs bs" and sz: "sb_size sb = int (length bs)"
  obtains sb' p' fl' xs' where "lreadline (Some sb) p check sep = Inr (fst (line_result check sep bs), sb', p')"
    "own p' sb' fl' xs' (snd (line_result check sep bs))" "sb_size sb' = int (length (snd (line_result check sep bs)))"
    "touches p p' (set fl \<union> set xs) (set fl' \<union> set xs')"
proof (cases xs)
  case Nil
  then have "find_sep sep bs = None" "sb_head sb = None" using own_Nil [of p sb fl bs] o by (simp_all add: find_sep_def)
  then show ?thesis using that [of sb p fl xs] o sz by (simp add: lreadline_def line_result_def frame_refl)
next
  case (Cons a ys)
  note c = own_Cons [OF o [unfolded Cons]]
  have bs: "bs = drop (nat (sb_offset sb)) (blocks (bp_nodes p) (a # ys))" "sb_head sb = Some a" "node_chain (bp_nodes p) (Some a) (a # ys)"
    "\<forall>b\<in>set (a # ys). node_full (bp_nodes p ! b)" "distinct (a # ys)" using o Cons by (auto simp: own_def sb_holds_def linked_def)
  have ne: "bs \<noteq> []" using c(4,5,6) by auto
  let ?n = "Suc (length bs) - length sep"
  have n: "nat (sb_size sb - int (length sep) + 1) = ?n" using sz by simp
  have loop: "readline_loop ?n p a (sb_offset sb) (bn_sz (bp_nodes p ! a) - sb_offset sb) 0 sep = Inr (map_option int (find_sep sep bs))"
  proof (cases "length sep \<le> Suc (length bs)")
    case True
    then show ?thesis using readline_loop_blocks [OF bs(3-5) c(3,4), of ?n sep 0] ne unfolding bs(1) [symmetric] by (simp add: find_sep_def)
  qed (simp add: find_sep_def)
  show ?thesis
  proof (cases "find_sep sep bs = None \<or> check")
    case True
    then have "lreadline (Some sb) p check sep = Inr (fst (line_result check sep bs), sb, p)" "snd (line_result check sep bs) = bs"
      using bs(2) c(1) n loop by (auto simp: lreadline_def line_result_def split: option.splits)
    then show ?thesis using that [of sb p fl xs] o sz by (simp add: frame_refl)
  next
    case False
    then obtain i where i: "find_sep sep bs = Some i" by auto
    have b: "0 \<le> int (length sep)" "int (length sep) \<le> int i + int (length sep)" "int i + int (length sep) \<le> int (length bs)"
      using find_sep_Some [OF i] by auto
    obtain sb' p' fl' xs' where r: "pop_lstring sb p (int i + int (length sep)) (int (length sep)) = Inr (take (nat (int i + int (length sep) - int (length sep))) bs, sb', p')"
      "own p' sb' fl' xs' (drop (nat (int i + int (length sep))) bs)" "sb_size sb' = sb_size sb" "touches p p' (set fl \<union> set xs) (set fl' \<union> set xs')"
      using pop_lstring_own [OF o b] Cons by blast
    let ?sb = "sb'\<lparr>sb_size := sb_size sb' - (int i + int (length sep))\<rparr>"
    have res: "line_result check sep bs = ([La_str (take i bs)], drop (i + length sep) bs)" using False i by (simp add: line_result_def)
    have "lreadline (Some sb) p check sep = Inr ([La_str (take i bs)], ?sb, p')"
      using bs(2) c(1) n loop i False r(1) by (simp add: lreadline_def)
    moreover have "own p' ?sb fl' xs' (drop (i + length sep) bs)" using r(2) by (simp add: nat_add_distrib)
    moreover have "sb_size ?sb = int (length (drop (i + length sep) bs))" using r(3) sz b(3) by simp
    ultimately show ?thesis using that r(4) unfolding res fst_conv snd_conv by blast
  qed
qed

section \<open>Many buffers and one pool\<close>

record sockets =
  sk_pool :: buffer_pool
  sk_buffers :: "nat \<rightharpoonup> socket_buffer"

text \<open>What a service does with its buffers.\<close>

datatype buffer_call = New_buffer nat | Push_block nat "byte list" | Pop_bytes nat int | Read_line nat bool "byte list" | Read_all nat | Clear_buffer nat

primrec call_buffer :: "buffer_call \<Rightarrow> nat" where
  "call_buffer (New_buffer i) = i"
| "call_buffer (Push_block i m) = i"
| "call_buffer (Pop_bytes i n) = i"
| "call_buffer (Read_line i check sep) = i"
| "call_buffer (Read_all i) = i"
| "call_buffer (Clear_buffer i) = i"

definition do_buffer_call :: "buffer_call \<Rightarrow> socket_buffer option \<Rightarrow> buffer_pool \<Rightarrow> lua_error + (lua_arg list \<times> socket_buffer \<times> buffer_pool)" where
  "do_buffer_call c sb p =
     (case c of
        New_buffer i \<Rightarrow> Inr ([], lnewbuffer, p)
      | Push_block i m \<Rightarrow> lpushbuffer sb p (Some m) (int (length m))
      | Pop_bytes i n \<Rightarrow> lpopbuffer sb p n
      | Read_line i check sep \<Rightarrow> lreadline sb p check sep
      | Read_all i \<Rightarrow> lreadall sb p
      | Clear_buffer i \<Rightarrow> rbind (lclearbuffer sb False p) (\<lambda>(r, sb1, p1). case sb1 of Some b \<Rightarrow> Inr (r, b, p1) | None \<Rightarrow> Inl (C_fault Use_after_free)))"

primrec run_calls :: "sockets \<Rightarrow> buffer_call list \<Rightarrow> lua_error + (lua_arg list list \<times> sockets)" where
  "run_calls w [] = Inr ([], w)"
| "run_calls w (c # cs) =
     rbind (do_buffer_call c (sk_buffers w (call_buffer c)) (sk_pool w)) (\<lambda>(r, sb, p).
     rbind (run_calls \<lparr>sk_pool = p, sk_buffers = (sk_buffers w)(call_buffer c \<mapsto> sb)\<rparr> cs) (\<lambda>(rs, w1). Inr (r # rs, w1)))"

text \<open>The specification: a call on a stream of bytes, and the calls on a family of streams.\<close>

definition stream_call :: "buffer_call \<Rightarrow> byte list \<Rightarrow> lua_arg list \<times> byte list" where
  "stream_call c bs =
     (case c of
        New_buffer i \<Rightarrow> ([], [])
      | Push_block i m \<Rightarrow> ([La_int (int (length (bs @ m)))], bs @ m)
      | Pop_bytes i n \<Rightarrow> if int (length bs) < n \<or> n = 0 then ([La_nil, La_int (int (length bs))], bs)
                         else ([La_str (take (nat n) bs), La_int (int (length bs) - n)], drop (nat n) bs)
      | Read_line i check sep \<Rightarrow> line_result check sep bs
      | Read_all i \<Rightarrow> ([La_str bs], [])
      | Clear_buffer i \<Rightarrow> ([], []))"

primrec stream_calls :: "(nat \<rightharpoonup> byte list) \<Rightarrow> buffer_call list \<Rightarrow> lua_arg list list" where
  "stream_calls ss [] = []"
| "stream_calls ss (c # cs) =
     (case stream_call c (case ss (call_buffer c) of Some bs \<Rightarrow> bs | None \<Rightarrow> []) of (r, bs) \<Rightarrow> r # stream_calls (ss(call_buffer c \<mapsto> bs)) cs)"

text \<open>
  What the service must respect: a buffer is made once and before it is used, no block is empty, a buffer stays below
  2 gigabytes, and numbers of bytes are not negative.
\<close>

definition buffer_call_ok :: "(nat \<rightharpoonup> byte list) \<Rightarrow> buffer_call \<Rightarrow> bool" where
  "buffer_call_ok ss c =
     (case c of
        New_buffer i \<Rightarrow> ss i = None
      | Push_block i m \<Rightarrow> (case ss i of Some bs \<Rightarrow> m \<noteq> [] \<and> length bs + length m < 2 ^ 31 | None \<Rightarrow> False)
      | Pop_bytes i n \<Rightarrow> ss i \<noteq> None \<and> 0 \<le> n \<and> n < 2 ^ 31
      | _ \<Rightarrow> ss (call_buffer c) \<noteq> None)"

abbreviation stream_of :: "(nat \<rightharpoonup> byte list) \<Rightarrow> nat \<Rightarrow> byte list" where
  "stream_of ss i \<equiv> (case ss i of Some bs \<Rightarrow> bs | None \<Rightarrow> [])"

primrec calls_ok :: "(nat \<rightharpoonup> byte list) \<Rightarrow> buffer_call list \<Rightarrow> bool" where
  "calls_ok ss [] \<longleftrightarrow> True"
| "calls_ok ss (c # cs) \<longleftrightarrow> buffer_call_ok ss c \<and> calls_ok (ss(call_buffer c \<mapsto> snd (stream_call c (stream_of ss (call_buffer c))))) cs"

text \<open>The nodes of the buffers and of the free list do not overlap, and each buffer holds its stream.\<close>

definition sockets_ok :: "sockets \<Rightarrow> (nat \<rightharpoonup> byte list) \<Rightarrow> nat list \<Rightarrow> (nat \<Rightarrow> nat list) \<Rightarrow> bool" where
  "sockets_ok w ss fl c \<longleftrightarrow> free_ok (sk_pool w) fl \<and> dom (sk_buffers w) = dom ss
     \<and> (\<forall>i sb bs. sk_buffers w i = Some sb \<longrightarrow> ss i = Some bs \<longrightarrow> sb_holds (sk_pool w) sb (c i) bs \<and> sb_size sb = int (length bs) \<and> set fl \<inter> set (c i) = {})
     \<and> (\<forall>i j. i \<in> dom ss \<longrightarrow> j \<in> dom ss \<longrightarrow> i \<noteq> j \<longrightarrow> set (c i) \<inter> set (c j) = {}) \<and> (\<forall>i. i \<notin> dom ss \<longrightarrow> c i = [])"

lemma call_own:
  assumes "own p sb fl xs bs" "sb_size sb = int (length bs)" "ss (call_buffer c) = Some bs" "buffer_call_ok ss c"
  obtains sb' p' fl' xs' where "do_buffer_call c (Some sb) p = Inr (fst (stream_call c bs), sb', p')" "own p' sb' fl' xs' (snd (stream_call c bs))"
    "sb_size sb' = int (length (snd (stream_call c bs)))" "touches p p' (set fl \<union> set xs) (set fl' \<union> set xs')"
proof (cases c)
  case (Push_block i m)
  then have "m \<noteq> []" "int (length bs + length m) < 2 ^ 31" using assms(3,4) by (simp_all add: buffer_call_ok_def)
  with Push_block show ?thesis using push_own [OF assms(1,2)] that by (simp add: do_buffer_call_def stream_call_def) blast
next
  case (Pop_bytes i n)
  then have "0 \<le> n" "n < 2 ^ 31" using assms(4) by (simp_all add: buffer_call_ok_def)
  note n = this
  let ?nil = "int (length bs) < n \<or> n = 0"
  have sc: "fst (stream_call c bs) = (if ?nil then [La_nil, La_int (int (length bs))] else [La_str (take (nat n) bs), La_int (int (length bs) - n)])"
    "snd (stream_call c bs) = (if ?nil then bs else drop (nat n) bs)" using Pop_bytes by (simp_all add: stream_call_def)
  have "do_buffer_call c (Some sb) p = lpopbuffer (Some sb) p n" using Pop_bytes by (simp add: do_buffer_call_def)
  then show ?thesis using pop_own [OF assms(1,2) n] that unfolding sc by metis
next
  case (Read_line i check sep)
  then show ?thesis using readline_own [OF assms(1,2)] that by (simp add: do_buffer_call_def stream_call_def) blast
next
  case (Read_all i)
  obtain sb' p' fl' where "lreadall (Some sb) p = Inr ([La_str bs], sb', p')" "own p' sb' fl' [] []" "sb_size sb' = 0" "touches p p' (set fl \<union> set xs) (set fl')"
    using readall_own [OF assms(1)] by blast
  then show ?thesis using Read_all that [of sb' p' fl' "[]"] by (simp add: do_buffer_call_def stream_call_def)
next
  case (Clear_buffer i)
  obtain sb' p' fl' where "lclearbuffer (Some sb) False p = Inr ([], Some sb', p')" "own p' sb' fl' [] []" "sb_size sb' = 0" "touches p p' (set fl \<union> set xs) (set fl')"
    using readall_own [OF assms(1), of False] by blast
  then show ?thesis using Clear_buffer that [of sb' p' fl' "[]"] by (simp add: do_buffer_call_def stream_call_def)
next
  case (New_buffer i)
  then show ?thesis using assms(3,4) by (simp add: buffer_call_ok_def)
qed

text \<open>What an operation does to one buffer does not touch the others.\<close>

lemma sockets_step:
  assumes ok: "sockets_ok w ss fl c" and o: "own p' sb' fl' xs' bs'" "sb_size sb' = int (length bs')"
    and f: "touches (sk_pool w) p' (set fl \<union> set (c i)) (set fl' \<union> set xs')"
  shows "sockets_ok \<lparr>sk_pool = p', sk_buffers = (sk_buffers w)(i \<mapsto> sb')\<rparr> (ss(i \<mapsto> bs')) fl' (c(i := xs'))"
proof -
  have less: "a < length (bp_nodes (sk_pool w))" if "j \<in> dom ss" "a \<in> set (c j)" for a j
    using ok that holds_less [of "sk_pool w" _ "c j" _ a] unfolding sockets_ok_def by blast
  have dis: "set (c j) \<inter> (set fl \<union> set (c i)) = {}" if "j \<in> dom ss" "j \<noteq> i" for j
  proof -
    have "set fl \<inter> set (c j) = {}" using ok that unfolding sockets_ok_def by blast
    moreover have "set (c j) \<inter> set (c i) = {}"
      using ok that by (cases "i \<in> dom ss") (simp_all add: sockets_ok_def)
    ultimately show ?thesis by blast
  qed
  have dis': "set (c j) \<inter> (set fl' \<union> set xs') = {}" if "j \<in> dom ss" "j \<noteq> i" for j
    using f dis [OF that] less [OF that(1)] unfolding touches_def by fastforce
  have other: "sb_holds p' sb (c j) bs" if "j \<noteq> i" "sk_buffers w j = Some sb" "ss j = Some bs" for j sb bs
  proof (rule holds_frame)
    show "sb_holds (sk_pool w) sb (c j) bs" using ok that(2,3) by (simp add: sockets_ok_def)
    fix a assume a: "a \<in> set (c j)"
    have "j \<in> dom ss" using that(3) by blast
    then show "a < length (bp_nodes p') \<and> bp_nodes p' ! a = bp_nodes (sk_pool w) ! a"
      using a f dis [of j] less [of j a] that(1) unfolding touches_def by fastforce
  qed
  have size: "sb_size sb = int (length bs)" if "sk_buffers w j = Some sb" "ss j = Some bs" for j sb bs using ok that by (simp add: sockets_ok_def)
  have free: "set fl' \<inter> set (c j) = {}" if "ss j = Some bs" "j \<noteq> i" for j bs using dis' [of j] that by blast
  show ?thesis unfolding sockets_ok_def
  proof (intro conjI allI impI)
    fix j k assume jk: "j \<in> dom (ss(i \<mapsto> bs'))" "k \<in> dom (ss(i \<mapsto> bs'))" "j \<noteq> k"
    then show "set ((c(i := xs')) j) \<inter> set ((c(i := xs')) k) = {}"
      using dis' [of j] dis' [of k] ok by (cases "j = i"; cases "k = i") (auto simp: sockets_ok_def)
  qed (use ok o other size free in \<open>auto simp: sockets_ok_def own_def split: if_splits\<close>)
qed

lemma call_step:
  assumes ok: "sockets_ok w ss fl c" and call: "buffer_call_ok ss cl"
  defines "i \<equiv> call_buffer cl" and "out \<equiv> stream_call cl (stream_of ss (call_buffer cl))"
  shows "\<exists>sb p fl' c'. do_buffer_call cl (sk_buffers w i) (sk_pool w) = Inr (fst out, sb, p)
    \<and> sockets_ok \<lparr>sk_pool = p, sk_buffers = (sk_buffers w)(i \<mapsto> sb)\<rparr> (ss(i \<mapsto> snd out)) fl' c'"
proof (cases "ss i")
  case None
  then have new: "cl = New_buffer i" using call by (cases cl) (auto simp: buffer_call_ok_def i_def)
  then have out: "out = ([], [])" by (simp add: out_def stream_call_def)
  have "own (sk_pool w) lnewbuffer fl [] []" using ok by (simp add: sockets_ok_def own_def sb_holds_def linked_def lnewbuffer_def)
  moreover have "i \<notin> dom ss" using None by blast
  then have "c i = []" using ok by (simp add: sockets_ok_def)
  ultimately have "sockets_ok \<lparr>sk_pool = sk_pool w, sk_buffers = (sk_buffers w)(i \<mapsto> lnewbuffer)\<rparr> (ss(i \<mapsto> [])) fl (c(i := []))"
    using sockets_step [OF ok, of "sk_pool w" lnewbuffer fl "[]" "[]" i] by (simp add: lnewbuffer_def frame_refl)
  moreover have "do_buffer_call cl (sk_buffers w i) (sk_pool w) = Inr (fst out, lnewbuffer, sk_pool w)" using new out by (simp add: do_buffer_call_def)
  ultimately show ?thesis unfolding out by (metis snd_conv)
next
  case (Some bs)
  then obtain sb where sb: "sk_buffers w i = Some sb" using ok unfolding sockets_ok_def by blast
  then have o: "own (sk_pool w) sb fl (c i) bs" "sb_size sb = int (length bs)" using ok Some by (simp_all add: sockets_ok_def own_def)
  have out: "out = stream_call cl bs" using Some by (simp add: out_def i_def)
  obtain sb' p' fl' xs' where r: "do_buffer_call cl (Some sb) (sk_pool w) = Inr (fst out, sb', p')" "own p' sb' fl' xs' (snd out)"
    "sb_size sb' = int (length (snd out))" "touches (sk_pool w) p' (set fl \<union> set (c i)) (set fl' \<union> set xs')"
    using call_own [OF o Some [unfolded i_def] call] unfolding out by blast
  then show ?thesis using sockets_step [OF ok r(2-4)] sb by auto
qed

lemma run_calls_streams:
  "sockets_ok w ss fl c \<Longrightarrow> calls_ok ss cs \<Longrightarrow> \<exists>w'. run_calls w cs = Inr (stream_calls ss cs, w')"
proof (induction cs arbitrary: w ss fl c)
  case (Cons cl cs)
  let ?i = "call_buffer cl"
  let ?out = "stream_call cl (stream_of ss ?i)"
  obtain sb p fl' c' where r: "do_buffer_call cl (sk_buffers w ?i) (sk_pool w) = Inr (fst ?out, sb, p)"
    "sockets_ok \<lparr>sk_pool = p, sk_buffers = (sk_buffers w)(?i \<mapsto> sb)\<rparr> (ss(?i \<mapsto> snd ?out)) fl' c'"
    using call_step [OF Cons.prems(1), of cl] Cons.prems(2) by auto
  obtain w' where "run_calls \<lparr>sk_pool = p, sk_buffers = (sk_buffers w)(?i \<mapsto> sb)\<rparr> cs = Inr (stream_calls (ss(?i \<mapsto> snd ?out)) cs, w')"
    using Cons.IH [OF r(2)] Cons.prems(2) by (auto simp del: fun_upd_apply)
  then show ?case using r(1) by (cases ?out) simp
qed simp

text \<open>The state when a service starts: an empty pool and no buffers.\<close>

definition no_sockets :: sockets where
  "no_sockets = \<lparr>sk_pool = \<lparr>bp_nodes = [], bp_free = None, bp_chunks = []\<rparr>, sk_buffers = Map.empty\<rparr>"

text \<open>
  C32: socket buffers are streams of bytes. A service may have any number of buffers, push blocks into them, take
  bytes by number, by line or all of them, and clear them, in any order: every call returns what it returns on a plain stream of bytes, although all
  buffers take their nodes from one pool, lines and numbers of bytes cross the boundaries of blocks, and the
  pool grows when it has no free node. A line ends at the first place of the separator.
\<close>

theorem lua_buffers_are_streams:
  assumes "calls_ok Map.empty cs"
  shows "\<exists>w. run_calls no_sockets cs = Inr (stream_calls Map.empty cs, w)"
proof (rule run_calls_streams)
  show "sockets_ok no_sockets Map.empty [] (\<lambda>_. [])" by (simp add: sockets_ok_def no_sockets_def free_ok_def)
qed (rule assms)

text \<open>Two buffers; a line of the first is in three blocks, with the separator cut in two.\<close>

theorem lua_buffers_are_streams_witness:
  "\<exists>w. run_calls no_sockets [New_buffer 0, New_buffer 1, Push_block 0 [97], Push_block 1 [120, 121], Push_block 0 [98, 13], Read_line 0 False [13, 10],
      Push_block 0 [10, 99], Read_line 0 False [13, 10], Pop_bytes 1 1, Read_all 0, Pop_bytes 1 2] =
    Inr ([[], [], [La_int 1], [La_int 2], [La_int 3], [], [La_int 5], [La_str [97, 98]], [La_str [120], La_int 1], [La_str [99]], [La_nil, La_int 1]], w)"
  using lua_buffers_are_streams [of "[New_buffer 0, New_buffer 1, Push_block 0 [97], Push_block 1 [120, 121], Push_block 0 [98, 13], Read_line 0 False [13, 10],
      Push_block 0 [10, 99], Read_line 0 False [13, 10], Pop_bytes 1 1, Read_all 0, Pop_bytes 1 2]"]
  by (simp add: buffer_call_ok_def stream_call_def line_result_def find_sep_def upt_rec)

end
