(* ===== verification/Lua_Socket.thy ===== *)
theory Lua_Socket
  imports Socket_Service Lua_Buffer Cstdlib
begin

text \<open>
  The socket functions that Lua services call, second part of \<^verbatim>\<open>lualib-src/lua-socket.c\<close>: taking a message of the
  socket layer apart, reading addresses, collecting the data to send, and the calls into the socket layer under the
  context of the service. What the system answers for an address is a function of it. Lua strings end with a zero that is not counted.
\<close>

section \<open>Messages\<close>

text \<open>\<open>Blk\<close> is a pointer to a block of memory.\<close>

datatype sock_value = Val lua_arg | Blk "byte list"

definition ldrop :: "addr \<Rightarrow> sys_call list" where
  "ldrop a = [Sys_free a]"

definition lstr2p :: "byte list \<Rightarrow> sock_value list" where
  "lstr2p str = [Blk str, Val (La_int (c_int (int (length str))))]"

text \<open>The buffer of a message is null when it is empty: the socket layer reports no empty data, and behind a datagram comes its address.\<close>

definition lunpack :: "skynet_socket_message \<Rightarrow> int \<Rightarrow> lua_error + sock_value list" where
  "lunpack m sz =
     (let n = sz - int SOCKET_MESSAGE_SIZE;
          hd4 = (\<lambda>d. [Val (La_int (ss_type m)), Val (La_int (ss_id m)), Val (La_int (ss_ud m)), d])
      in rbind (if ss_buffer m = []
                then if 0 \<le> n \<and> n \<le> int (length (ss_tail m)) then Inr (Val (La_str (take (nat n) (ss_tail m)))) else Inl (C_fault Out_of_bounds)
                else Inr (Blk (ss_buffer m))) (\<lambda>d.
           Inr (case (if ss_type m = SKYNET_SOCKET_TYPE_UDP then skynet_socket_udp_address m else None) of
                  Some a \<Rightarrow> hd4 d @ [Val (La_str a)]
                | None \<Rightarrow> hd4 d)))"

section \<open>Addresses\<close>

definition lua_cstr :: "byte list \<Rightarrow> cstring" where
  "lua_cstr s = takeWhile (\<lambda>b. b \<noteq> 0) s"

text \<open>The copy to \<^verbatim>\<open>tmp\<close> has a negative size when the brackets are in the wrong order.\<close>

definition address_port :: "cstring \<Rightarrow> int option \<Rightarrow> lua_error + (cstring \<times> int)" where
  "address_port addr port =
     (case port of
        Some n \<Rightarrow> Inr (addr, c_int n)
      | None \<Rightarrow>
          case strchr addr 0x5b of
            Some k \<Rightarrow>
              (case strchr addr 0x5d of
                 None \<Rightarrow> Inl (Lua_error ''Invalid address'')
               | Some sep \<Rightarrow>
                   if sep < k + 1 then Inl (C_fault Out_of_bounds)
                   else case strchr (drop (sep + 1) addr) 0x3a of
                          None \<Rightarrow> Inl (Lua_error ''Invalid address'')
                        | Some sep2 \<Rightarrow> Inr (take (sep - (k + 1)) (drop (k + 1) addr), c_int (uint (strtoul10 (drop (sep + 1 + sep2 + 1) addr)))))
          | None \<Rightarrow>
              (case strchr addr 0x3a of
                 None \<Rightarrow> Inl (Lua_error ''Invalid address'')
               | Some sep \<Rightarrow> Inr (take sep addr, c_int (uint (strtoul10 (drop (sep + 1) addr))))))"

text \<open>\<open>ntop\<close> stands for \<^verbatim>\<open>inet_ntop\<close>, of an IPv6 address when the flag is set. The port is copied before the size is tested.\<close>

definition ludp_address :: "(bool \<Rightarrow> byte list \<Rightarrow> cstring option) \<Rightarrow> byte list \<Rightarrow> lua_error + lua_arg list" where
  "ludp_address ntop addr =
     (if length addr < 2 then Inl (C_fault Out_of_bounds)
      else let port = uint ((addr @ [0]) ! 1) * 256 + uint ((addr @ [0]) ! 2); src = drop 3 addr
           in if length addr \<noteq> 7 \<and> length addr \<noteq> 19 then Inl (Lua_error ''Invalid udp address'')
              else case ntop (length addr = 19) src of
                     None \<Rightarrow> Inl (Lua_error ''Invalid udp address'')
                   | Some s \<Rightarrow> Inr [La_str s, La_int port])"

section \<open>Data to send\<close>

text \<open>\<^verbatim>\<open>lua_tolstring\<close>: numbers are printed.\<close>

definition to_lstring :: "lua_arg \<Rightarrow> byte list option" where
  "to_lstring v = (case v of La_str s \<Rightarrow> Some s | La_int i \<Rightarrow> Some (print_int i) | _ \<Rightarrow> None)"

text \<open>The entries of the table from index 1 on; behind them is nil.\<close>

fun count_size :: "lua_arg list \<Rightarrow> lua_error + nat" where
  "count_size [] = Inr 0"
| "count_size (v # vs) =
     (if v = La_nil then Inr 0
      else case to_lstring v of
             None \<Rightarrow> Inl (Lua_error ''string expected'')
           | Some s \<Rightarrow> rbind (count_size vs) (\<lambda>n. Inr (length s + n)))"

fun concat_loop_table :: "lua_arg list \<Rightarrow> byte list \<Rightarrow> nat \<Rightarrow> byte list \<times> nat" where
  "concat_loop_table [] buffer tlen = (buffer, tlen)"
| "concat_loop_table (v # vs) buffer tlen =
     (if v = La_nil then (buffer, tlen)
      else case to_lstring v of
             None \<Rightarrow> (buffer, tlen)
           | Some s \<Rightarrow> if tlen < length s then (buffer, tlen) else concat_loop_table vs (buffer @ s) (tlen - length s))"

definition concat_table :: "lua_arg list \<Rightarrow> nat \<Rightarrow> lua_error + byte list" where
  "concat_table t tlen =
     (case concat_loop_table t [] tlen of (buffer, rest) \<Rightarrow> if rest \<noteq> 0 then Inl (Lua_error ''Invalid strings table'') else Inr buffer)"

datatype send_arg = Userdata send_data | Table "lua_arg list" | Other lua_arg

text \<open>\<open>a\<close> is the address that the allocation returns.\<close>

definition get_send_buffer :: "addr \<Rightarrow> send_arg \<Rightarrow> lua_error + send_data" where
  "get_send_buffer a v =
     (case v of
        Userdata d \<Rightarrow> Inr d
      | Table t \<Rightarrow> rbind (count_size t) (\<lambda>len. rbind (concat_table t len) (\<lambda>b. Inr (Plain a b)))
      | Other v \<Rightarrow> (case to_lstring v of None \<Rightarrow> Inl (Lua_error ''string expected'') | Some s \<Rightarrow> Inr (Plain a s)))"

section \<open>Calls\<close>

type_synonym lua_result = "lua_error + (lua_arg list \<times> sys_call list \<times> server_ptr)"

definition lua_call :: "c_error + (sys_call list \<times> int \<times> server_ptr) \<Rightarrow> (int \<Rightarrow> lua_error + lua_arg list) \<Rightarrow> lua_result" where
  "lua_call m f = rbind (lift_c m) (\<lambda>(cs, r, p). rbind (f r) (\<lambda>vs. Inr (vs, cs, p)))"

definition lconnect :: "server_ptr \<Rightarrow> skynet_context \<Rightarrow> byte list \<Rightarrow> int option \<Rightarrow> lua_result" where
  "lconnect p x addr port =
     rbind (address_port (lua_cstr addr) port) (\<lambda>(host, port).
       if port = 0 then Inl (Lua_error ''Invalid port'')
       else lua_call (skynet_socket_connect p x host port) (\<lambda>i. Inr [La_int i]))"

definition lclose :: "server_ptr \<Rightarrow> skynet_context \<Rightarrow> int \<Rightarrow> lua_result" where
  "lclose p x i = lua_call (skynet_socket_close p x (c_int i)) (\<lambda>_. Inr [])"

definition lshutdown :: "server_ptr \<Rightarrow> skynet_context \<Rightarrow> int \<Rightarrow> lua_result" where
  "lshutdown p x i = lua_call (skynet_socket_shutdown p x (c_int i)) (\<lambda>_. Inr [])"

definition LISTEN_BACKLOG :: int where "LISTEN_BACKLOG = 32"

text \<open>\<open>b\<close> is what binding to a host and a port gives, \<open>listens\<close> whether listening with the backlog succeeds.\<close>

definition llisten :: "(cstring \<Rightarrow> int \<Rightarrow> bind_answer) \<Rightarrow> (int \<Rightarrow> bool) \<Rightarrow> server_ptr \<Rightarrow> skynet_context \<Rightarrow> byte list \<Rightarrow> int \<Rightarrow> int option \<Rightarrow> lua_result" where
  "llisten b listens p x host port backlog =
     lua_call (skynet_socket_listen (b (lua_cstr host) (c_int port)) (listens (c_int (case backlog of Some n \<Rightarrow> n | None \<Rightarrow> LISTEN_BACKLOG))) p x)
       (\<lambda>i. if i < 0 then Inl (Lua_error ''Listen error'') else Inr [La_int i])"

definition lsend :: "bool \<Rightarrow> int \<Rightarrow> addr \<Rightarrow> server_ptr \<Rightarrow> int \<Rightarrow> send_arg \<Rightarrow> lua_result" where
  "lsend locked n a p i v = rbind (get_send_buffer a v) (\<lambda>d. lua_call (skynet_socket_send locked n p (c_int i) d) (\<lambda>err. Inr [La_bool (err = 0)]))"

definition lsendlow :: "addr \<Rightarrow> server_ptr \<Rightarrow> int \<Rightarrow> send_arg \<Rightarrow> lua_result" where
  "lsendlow a p i v = rbind (get_send_buffer a v) (\<lambda>d. lua_call (skynet_socket_send_lowpriority p (c_int i) d) (\<lambda>err. Inr [La_bool (err = 0)]))"

definition lbind :: "server_ptr \<Rightarrow> skynet_context \<Rightarrow> int \<Rightarrow> lua_result" where
  "lbind p x fd = lua_call (skynet_socket_bind p x (c_int fd)) (\<lambda>i. Inr [La_int i])"

definition lstart :: "server_ptr \<Rightarrow> skynet_context \<Rightarrow> int \<Rightarrow> lua_result" where
  "lstart p x i = lua_call (skynet_socket_start p x (c_int i)) (\<lambda>_. Inr [])"

definition lnodelay :: "server_ptr \<Rightarrow> int \<Rightarrow> lua_result" where
  "lnodelay p i = lua_call (skynet_socket_nodelay p (c_int i)) (\<lambda>_. Inr [])"

text \<open>Without an address the socket is not bound; it is bound when there is a host or a port.\<close>

definition ludp :: "(cstring option \<Rightarrow> int \<Rightarrow> bind_answer) \<Rightarrow> server_ptr \<Rightarrow> skynet_context \<Rightarrow> byte list option \<Rightarrow> int option \<Rightarrow> lua_result" where
  "ludp b p x addr port =
     rbind (case addr of None \<Rightarrow> Inr (None, 0) | Some a \<Rightarrow> rbind (address_port (lua_cstr a) port) (\<lambda>(h, n). Inr (Some h, n))) (\<lambda>(host, n).
       lua_call (skynet_socket_udp (n \<noteq> 0 \<or> host \<noteq> None) (b host n) p x) (\<lambda>i. if i < 0 then Inl (Lua_error ''udp init failed'') else Inr [La_int i]))"

text \<open>\<open>gai\<close> is the address that \<^verbatim>\<open>getaddrinfo\<close> finds.\<close>

definition ludp_connect :: "(cstring \<Rightarrow> int \<Rightarrow> sockaddr option) \<Rightarrow> server_ptr \<Rightarrow> int \<Rightarrow> byte list \<Rightarrow> int option \<Rightarrow> lua_result" where
  "ludp_connect gai p i addr port =
     rbind (address_port (lua_cstr addr) port) (\<lambda>(host, n).
       lua_call (skynet_socket_udp_connect (gai host n) p (c_int i)) (\<lambda>err. if err \<noteq> 0 then Inl (Lua_error ''udp connect failed'') else Inr []))"

definition ludp_send :: "bool \<Rightarrow> int \<Rightarrow> addr \<Rightarrow> server_ptr \<Rightarrow> int \<Rightarrow> byte list \<Rightarrow> send_arg \<Rightarrow> lua_result" where
  "ludp_send locked n a p i address v =
     rbind (get_send_buffer a v) (\<lambda>d.
       lua_call (skynet_socket_udp_send locked n p (c_int i) (address @ [0]) d) (\<lambda>err. Inr [La_bool (err = 0)]))"

section \<open>Reading addresses\<close>

lemma strchr_first: "c \<notin> set xs \<Longrightarrow> strchr (xs @ c # ys) c = Some (length xs)"
proof -
  assume "c \<notin> set xs"
  then have "takeWhile (\<lambda>b. b \<noteq> c) (xs @ c # ys) = xs" by (subst takeWhile_append2) auto
  then show ?thesis by (simp add: strchr_def)
qed

lemma strchr_None: "c \<notin> set xs \<Longrightarrow> strchr xs c = None"
proof -
  assume "c \<notin> set xs"
  then have "takeWhile (\<lambda>b. b \<noteq> c) xs = xs" by (subst takeWhile_eq_all_conv) auto
  then show ?thesis unfolding strchr_def Let_def by (metis less_irrefl)
qed

lemma radix_value: "1 < b \<Longrightarrow> foldl (\<lambda>n d. b * n + d) 0 (radix_digits b n) = n"
proof (induction b n rule: radix_digits.induct)
  case (1 b n)
  then show ?case by (subst radix_digits.simps) auto
qed

lemma decimal_digit: "d < 10 \<Longrightarrow> is_digit (digit_char d) \<and> unat (digit_char d) - 48 = d"
proof -
  have "list_all (\<lambda>d. is_digit (digit_char d) \<and> unat (digit_char d) - 48 = d) [0..<10]" by code_simp
  then show "d < 10 \<Longrightarrow> is_digit (digit_char d) \<and> unat (digit_char d) - 48 = d" by (simp add: list_all_iff)
qed

lemma scan_digits_map: "list_all (\<lambda>d. d < 10) ds \<Longrightarrow> scan_digits acc (map digit_char ds) = (foldl (\<lambda>n d. 10 * n + d) acc ds, [])"
  by (induction ds arbitrary: acc) (simp_all add: decimal_digit)

lemma strtoul10_print: "n < 2 ^ 64 \<Longrightarrow> strtoul10 (print_nat n) = of_nat n"
proof -
  assume n: "n < 2 ^ 64"
  have d: "list_all (\<lambda>d. d < 10) (radix_digits 10 n)" using radix_digits_less [of 10] by (auto simp: list_all_iff)
  then have "list_all (\<lambda>d. d < 16) (radix_digits 10 n)" by (auto simp: list_all_iff)
  then have "scan_sign (print_nat n) = (False, print_nat n)" unfolding print_nat_def by (rule scan_sign_digits)
  moreover have "scan_digits 0 (print_nat n) = (n, [])" unfolding print_nat_def using scan_digits_map [OF d] radix_value [of 10 n] by simp
  ultimately show ?thesis using n by (simp add: strtoul10_def)
qed

text \<open>An address as it is written: \<^verbatim>\<open>host:port\<close>, or with brackets when the host has colons.\<close>

definition address_text :: "bool \<Rightarrow> cstring \<Rightarrow> nat \<Rightarrow> cstring" where
  "address_text v6 host n = (if v6 then [0x5b] @ host @ [0x5d, 0x3a] @ print_nat n else host @ [0x3a] @ print_nat n)"

definition host_ok :: "bool \<Rightarrow> cstring \<Rightarrow> bool" where
  "host_ok v6 host \<longleftrightarrow> 0 \<notin> set host \<and> 0x5b \<notin> set host \<and> 0x5d \<notin> set host \<and> (v6 \<or> 0x3a \<notin> set host)"

lemma print_nat_plain: "x \<in> set (print_nat n) \<Longrightarrow> x \<noteq> 0 \<and> x \<noteq> 0x5b"
proof -
  assume "x \<in> set (print_nat n)"
  then obtain d where "d < 10" "x = digit_char d" using radix_digits_less [of 10 _ n] by (auto simp: print_nat_def)
  moreover have "list_all (\<lambda>d. digit_char d \<noteq> 0 \<and> digit_char d \<noteq> 0x5b) [0..<10]" by code_simp
  ultimately show ?thesis by (simp add: list_all_iff)
qed

lemma address_port_text:
  assumes "host_ok v6 host" "n < 2 ^ 31"
  shows "address_port (address_text v6 host n) None = Inr (host, int n)" "lua_cstr (address_text v6 host n) = address_text v6 host n"
proof -
  have port: "c_int (uint (strtoul10 (print_nat n))) = int n"
    using strtoul10_print [of n] assms(2) by (simp add: uint_nat unat_of_nat)
  have "0 \<notin> set (address_text v6 host n)" using assms(1) print_nat_plain [of 0 n] by (auto simp: address_text_def host_ok_def)
  then show "lua_cstr (address_text v6 host n) = address_text v6 host n" unfolding lua_cstr_def by (subst takeWhile_eq_all_conv) auto
  show "address_port (address_text v6 host n) None = Inr (host, int n)"
  proof (cases v6)
    case True
    let ?t = "[0x5b] @ host @ [0x5d, 0x3a] @ print_nat n"
    have "strchr ?t 0x5b = Some 0" using strchr_first [of "0x5b" "[]"] by simp
    moreover have "strchr ?t 0x5d = Some (length host + 1)" using strchr_first [of "0x5d" "0x5b # host" "0x3a # print_nat n"] assms(1) by (simp add: host_ok_def)
    moreover have "strchr (drop (length host + 2) ?t) 0x3a = Some 0" using strchr_first [of "0x3a" "[]"] by simp
    ultimately show ?thesis using port True by (simp add: address_port_def address_text_def)
  next
    case False
    let ?t = "host @ [0x3a] @ print_nat n"
    have "0x5b \<notin> set ?t" using assms(1) print_nat_plain [of "0x5b" n] by (auto simp: host_ok_def)
    then have "strchr ?t 0x5b = None" by (rule strchr_None)
    moreover have "strchr ?t 0x3a = Some (length host)" using strchr_first [of "0x3a" host] assms(1) False by (simp add: host_ok_def)
    ultimately show ?thesis using port False by (simp add: address_port_def address_text_def)
  qed
qed

text \<open>
  Connecting to an address that is written as \<^verbatim>\<open>host:port\<close>, or as \<^verbatim>\<open>[host]:port\<close>, connects to this host and this port.
\<close>

theorem lconnect_address:
  assumes "host_ok v6 host" "0 < n" "n < 2 ^ 31"
  shows "lconnect p x (address_text v6 host n) None = lua_call (skynet_socket_connect p x host (int n)) (\<lambda>i. Inr [La_int i])"
  using address_port_text [OF assms(1,3)] assms(2) by (simp add: lconnect_def)

section \<open>Sending tables\<close>

lemma count_size_strings: "count_size (map La_str ss) = Inr (length (concat ss))"
  by (induction ss) (simp_all add: to_lstring_def)

lemma concat_table_strings: "concat_loop_table (map La_str ss) b (length (concat ss)) = (b @ concat ss, 0)"
  by (induction ss arbitrary: b) (simp_all add: to_lstring_def)

lemma lsend_table: "lsend locked n a p i (Table (map La_str ss)) = lsend locked n a p i (Other (La_str (concat ss)))"
  by (simp add: lsend_def get_send_buffer_def count_size_strings concat_table_def concat_table_strings to_lstring_def)

section \<open>From the kernel to Lua\<close>

text \<open>
  What the handler of data in \<^verbatim>\<open>socket.lua\<close> does with a message, up to the reader it may wake: the block goes into the buffer of
  the socket, \<^verbatim>\<open>s.buffer\<close> of \<^verbatim>\<open>socket_pool[id]\<close>. A block for a socket that the service does not know
  is given to \<^verbatim>\<open>driver.drop\<close> with its size, which frees it (\<open>ldrop\<close>).
\<close>

datatype data_effect = Pushed "lua_arg list" | Drop "sock_value list"

definition receive_data ::
  "skynet_socket_message \<Rightarrow> int \<Rightarrow> (int \<rightharpoonup> socket_buffer) \<Rightarrow> buffer_pool \<Rightarrow> lua_error + (data_effect \<times> (int \<rightharpoonup> socket_buffer) \<times> buffer_pool)" where
  "receive_data m sz socket_pool p =
     rbind (lunpack m sz) (\<lambda>vs.
       case vs of
         Val (La_int t) # Val (La_int i) # Val (La_int n) # data # _ \<Rightarrow>
           (case socket_pool i of
              None \<Rightarrow> Inr (Drop [data, Val (La_int n)], socket_pool, p)
            | Some buffer \<Rightarrow>
                rbind (lpushbuffer (Some buffer) p (case data of Blk bs \<Rightarrow> Some bs | Val _ \<Rightarrow> None) n) (\<lambda>(r, sb, p1).
                  Inr (Pushed r, socket_pool(i \<mapsto> sb), p1)))
       | _ \<Rightarrow> Inl (Lua_error ''bad argument''))"

lemma receive_data_message:
  assumes "bs \<noteq> []"
  shows "receive_data (data_message i bs) sz socket_pool p =
    (case socket_pool i of None \<Rightarrow> Inr (Drop [Blk bs, Val (La_int (int (length bs)))], socket_pool, p)
     | Some sb \<Rightarrow> rbind (lpushbuffer (Some sb) p (Some bs) (int (length bs))) (\<lambda>(r, sb, p1). Inr (Pushed r, socket_pool(i \<mapsto> sb), p1)))"
  using assms
  by (simp add: receive_data_def lunpack_def data_message_def SKYNET_SOCKET_TYPE_DATA_def SKYNET_SOCKET_TYPE_UDP_def split: option.split)

text \<open>Data that arrives after the service has forgotten the socket is dropped, and every buffer is as before.\<close>

lemma unknown_data_dropped:
  "bs \<noteq> [] \<Longrightarrow> socket_pool i = None \<Longrightarrow>
   receive_data (data_message i bs) sz socket_pool p = Inr (Drop [Blk bs, Val (La_int (int (length bs)))], socket_pool, p)"
  by (simp add: receive_data_message)

text \<open>
  C33: what the kernel hands over for a connection arrives in the buffer of the Lua service that owns it. The socket thread
  reads the bytes and sends them as one message, the service takes it apart, finds the socket in its table and puts the block into
  its buffer, which then holds the bytes it had and behind them the new ones; the buffers of the other sockets and the other nodes
  of the pool are as before.
\<close>

theorem socket_bytes_reach_lua:
  assumes "node_ok s" "\<not> ss_checkctrl ss" "ss_event_index ss = length (ss_ev ss)" "os_wait os = Wait_events (e # es)" "ev_s e = Some k" "ev_read e"
    "s_type (ss_slot ss k) = SOCKET_TYPE_CONNECTED" "s_protocol (ss_slot ss k) = PROTOCOL_TCP" "os_read os = R_bytes bs" "bs \<noteq> []"
    "int (length bs) \<le> s_size (ss_slot ss k)"
    and lua: "own p sb fl xs old" "sb_size sb = int (length old)" "int (length old + length bs) < 2 ^ 31" "socket_pool (s_id (ss_slot ss k)) = Some sb"
  shows "\<exists>ss' s' msg m sb' p' fl' xs'. skynet_socket_poll sv [os] (Some ss) s = Inr ([], 1, Some ss', s')
    \<and> reported s (s_opaque (ss_slot ss k)) msg s' \<and> msg_data msg = Some (Sock m)
    \<and> receive_data m (uint (msg_sz msg AND MESSAGE_TYPE_MASK)) socket_pool p = Inr (Pushed [La_int (int (length (old @ bs)))], socket_pool(s_id (ss_slot ss k) \<mapsto> sb'), p')
    \<and> own p' sb' fl' xs' (old @ bs) \<and> touches p p' (set fl \<union> set xs) (set fl' \<union> set xs')"
proof -
  let ?i = "s_id (ss_slot ss k)"
  obtain ss' s' msg where d: "skynet_socket_poll sv [os] (Some ss) s = Inr ([], 1, Some ss', s')" "reported s (s_opaque (ss_slot ss k)) msg s'"
    "msg_data msg = Some (Sock (data_message ?i bs))"
    using socket_data_delivered [OF assms(1-11)] by blast
  obtain sb' p' fl' xs' where r: "lpushbuffer (Some sb) p (Some bs) (int (length bs)) = Inr ([La_int (int (length (old @ bs)))], sb', p')"
    "own p' sb' fl' xs' (old @ bs)" "sb_size sb' = int (length (old @ bs))" "touches p p' (set fl \<union> set xs) (set fl' \<union> set xs')"
    by (rule push_own [OF lua(1,2) assms(10) lua(3)])
  have "receive_data (data_message ?i bs) (uint (msg_sz msg AND MESSAGE_TYPE_MASK)) socket_pool p =
      Inr (Pushed [La_int (int (length (old @ bs)))], socket_pool(?i \<mapsto> sb'), p')"
    unfolding receive_data_message [OF assms(10)] lua(4) option.case r(1) by simp
  then show ?thesis using d r(2,4) by (intro exI conjI)
qed

section \<open>Witnesses\<close>

theorem lconnect_address_witness:
  "lconnect (Some (run_server 1 False deliver_socket [])) example_context (address_text True [58, 58, 49] 8080) None =
    lua_call (skynet_socket_connect (Some (run_server 1 False deliver_socket [])) example_context [58, 58, 49] 8080) (\<lambda>i. Inr [La_int i])"
  using lconnect_address [of True "[58, 58, 49]" 8080] by (simp add: host_ok_def)

theorem socket_bytes_reach_lua_witness:
  "\<exists>ss' s' msg m sb' p' fl' xs'. skynet_socket_poll example_services [deliver_os] (Some (run_server 1 False deliver_socket [])) example_node = Inr ([], 1, Some ss', s')
    \<and> reported example_node (s_opaque (ss_slot (run_server 1 False deliver_socket []) 1)) msg s' \<and> msg_data msg = Some (Sock m)
    \<and> receive_data m (uint (msg_sz msg AND MESSAGE_TYPE_MASK)) [1 \<mapsto> lnewbuffer] (sk_pool no_sockets) = Inr (Pushed [La_int (int (length ([] @ [10, 20 :: byte])))], [1 \<mapsto> sb'], p')
    \<and> own p' sb' fl' xs' ([] @ [10, 20]) \<and> touches (sk_pool no_sockets) p' (set [] \<union> set []) (set fl' \<union> set xs')"
proof -
  let ?ss = "run_server 1 False deliver_socket []"
  have i: "s_id (ss_slot ?ss 1) = 1" by (simp add: run_server_def deliver_socket_def run_socket_def)
  have "\<exists>ss' s' msg m sb' p' fl' xs'. skynet_socket_poll example_services [deliver_os] (Some ?ss) example_node = Inr ([], 1, Some ss', s')
    \<and> reported example_node (s_opaque (ss_slot ?ss 1)) msg s' \<and> msg_data msg = Some (Sock m)
    \<and> receive_data m (uint (msg_sz msg AND MESSAGE_TYPE_MASK)) [1 \<mapsto> lnewbuffer] (sk_pool no_sockets) =
        Inr (Pushed [La_int (int (length ([] @ [10, 20 :: byte])))], [1 \<mapsto> lnewbuffer, s_id (ss_slot ?ss 1) \<mapsto> sb'], p')
    \<and> own p' sb' fl' xs' ([] @ [10, 20]) \<and> touches (sk_pool no_sockets) p' (set [] \<union> set []) (set fl' \<union> set xs')"
  proof (rule socket_bytes_reach_lua [OF example_node_ok])
    show "own (sk_pool no_sockets) lnewbuffer [] [] []" by (simp add: own_def free_ok_def sb_holds_def linked_def no_sockets_def lnewbuffer_def)
    show "os_wait deliver_os = Wait_events [\<lparr>ev_s = Some 1, ev_read = True, ev_write = False, ev_error = False\<rparr>]" by (simp add: deliver_os_def run_os_def)
  qed (simp_all add: run_server_def deliver_socket_def run_socket_def lnewbuffer_def deliver_os_def)
  then show ?thesis unfolding i by (simp only: fun_upd_upd)
qed

end
