(* ===== verification/Cluster.thy ===== *)
theory Cluster
  imports Prelude
begin

text \<open>
  Requests and responses between the nodes of a cluster, \<^verbatim>\<open>lualib-src/lua-cluster.c\<close>: the packets they are
  packed into, large ones in several parts, and what a node makes of the packets, with the table of
  unfinished requests of \<^verbatim>\<open>service/clusterd.lua\<close>.

  A message is the block of memory that the pointer from Lua points to; it need not be as long as the size that
  comes with it. What the functions push on the Lua stack is returned as a list.
\<close>

section \<open>Packing\<close>

definition TEMP_LENGTH :: nat where "TEMP_LENGTH = 0x8200"
definition MULTI_PART :: nat where "MULTI_PART = 0x8000"

text \<open>Copying out of a block, and writing to the buffer on the stack.\<close>

definition copy_from :: "byte list \<Rightarrow> nat \<Rightarrow> nat \<Rightarrow> lua_error + byte list" where
  "copy_from msg off n = (if off + n \<le> length msg then Inr (take n (drop off msg)) else Inl (C_fault Out_of_bounds))"

definition temp_buffer :: "byte list \<Rightarrow> lua_error + byte list" where
  "temp_buffer bs = (if length bs \<le> TEMP_LENGTH then Inr bs else Inl (C_fault Out_of_bounds))"

definition fill_uint32 :: "u32 \<Rightarrow> byte list" where
  "fill_uint32 n = [ucast (n AND 0xff), ucast (drop_bit 8 n AND 0xff), ucast (drop_bit 16 n AND 0xff), ucast (drop_bit 24 n AND 0xff)]"

definition fill_header :: "nat \<Rightarrow> lua_error + byte list" where
  "fill_header sz = (if sz < 0x10000 then Inr [of_nat (sz div 256), of_nat sz] else Inl (C_fault Assert_failed))"

text \<open>A packet: the header with the size \<open>n\<close>, and what follows.\<close>

definition cluster_packet :: "nat \<Rightarrow> byte list \<Rightarrow> lua_error + byte list" where
  "cluster_packet n bs = rbind (fill_header n) (\<lambda>h. temp_buffer (h @ bs))"

definition parts_of :: "nat \<Rightarrow> nat" where
  "parts_of sz = (sz - 1) div MULTI_PART + 1"

definition packreq_number :: "u32 \<Rightarrow> int \<Rightarrow> byte list \<Rightarrow> nat \<Rightarrow> bool \<Rightarrow> lua_error + (byte list \<times> nat)" where
  "packreq_number addr session msg sz is_push =
     (if sz < MULTI_PART
      then rbind (copy_from msg 0 sz) (\<lambda>body.
           rbind (cluster_packet (sz + 9) ([0] @ fill_uint32 addr @ fill_uint32 (if is_push then 0 else of_int session) @ body)) (\<lambda>b. Inr (b, 0)))
      else rbind (cluster_packet 13 ([if is_push then 0x41 else 1] @ fill_uint32 addr @ fill_uint32 (of_int session) @ fill_uint32 (of_nat sz)))
             (\<lambda>b. Inr (b, parts_of sz)))"

definition packreq_string :: "byte list option \<Rightarrow> int \<Rightarrow> byte list \<Rightarrow> nat \<Rightarrow> bool \<Rightarrow> lua_error + (byte list \<times> nat)" where
  "packreq_string name session msg sz is_push =
     (case name of
        None \<Rightarrow> Inl (Lua_error ''name is too long'')
      | Some name \<Rightarrow>
          let namelen = length name
          in if namelen < 1 \<or> namelen > 255 then Inl (Lua_error ''name is too long'')
             else if sz < MULTI_PART
             then rbind (copy_from msg 0 sz) (\<lambda>body.
                  rbind (cluster_packet (sz + 6 + namelen) ([0x80, of_nat namelen] @ name @ fill_uint32 (if is_push then 0 else of_int session) @ body)) (\<lambda>b. Inr (b, 0)))
             else rbind (cluster_packet (10 + namelen) ([if is_push then 0xc1 else 0x81, of_nat namelen] @ name @ fill_uint32 (of_int session) @ fill_uint32 (of_nat sz)))
                    (\<lambda>b. Inr (b, parts_of sz)))"

primrec multi_loop :: "nat \<Rightarrow> int \<Rightarrow> byte list \<Rightarrow> nat \<Rightarrow> nat \<Rightarrow> lua_error + byte list list" where
  "multi_loop 0 session msg off sz = Inr []"
| "multi_loop (Suc n) session msg off sz =
     (let s = (if sz > MULTI_PART then MULTI_PART else sz); t = (if sz > MULTI_PART then 2 else 3)
      in rbind (copy_from msg off s) (\<lambda>body.
         rbind (cluster_packet (s + 5) ([t] @ fill_uint32 (of_int session) @ body)) (\<lambda>b.
         rbind (multi_loop n session msg (off + s) (sz - s)) (\<lambda>bs. Inr (b # bs)))))"

definition packreq_multi :: "int \<Rightarrow> byte list \<Rightarrow> nat \<Rightarrow> lua_error + byte list list" where
  "packreq_multi session msg sz = multi_loop (parts_of sz) session msg 0 sz"

text \<open>The request, the next session, and the parts if there are any.\<close>

definition packrequest ::
  "lua_arg \<Rightarrow> int \<Rightarrow> byte list option \<Rightarrow> int \<Rightarrow> bool \<Rightarrow> lua_error + (byte list \<times> int \<times> byte list list option)" where
  "packrequest addr lsession msg lsz is_push =
     (case msg of
        None \<Rightarrow> Inl (Lua_error ''Invalid request message'')
      | Some msg \<Rightarrow>
          let sz = nat (lsz mod 2 ^ 32); session = c_int lsession
          in if session \<le> 0 then Inl (Lua_error ''Invalid request session'')
             else rbind (case addr of La_int a \<Rightarrow> packreq_number (of_int a) session msg sz is_push
                                    | La_str name \<Rightarrow> packreq_string (Some name) session msg sz is_push
                                    | _ \<Rightarrow> packreq_string None session msg sz is_push) (\<lambda>(b, multipak).
                  let s1 = c_int (session + 1); session1 = (if s1 < 0 then 1 else s1)
                  in if multipak \<noteq> 0
                     then rbind (packreq_multi session msg sz) (\<lambda>parts. Inr (b, session1, Some parts))
                     else Inr (b, session1, None)))"

section \<open>Unpacking\<close>

definition unpack_uint32 :: "byte list \<Rightarrow> u32" where
  "unpack_uint32 buf = ucast (buf ! 0) OR push_bit 8 (ucast (buf ! 1)) OR push_bit 16 (ucast (buf ! 2)) OR push_bit 24 (ucast (buf ! 3))"

abbreviation u32_arg :: "u32 \<Rightarrow> lua_arg" where
  "u32_arg w \<equiv> La_int (uint w)"

definition push_lstring :: "byte list \<Rightarrow> nat \<Rightarrow> nat \<Rightarrow> lua_error + lua_arg" where
  "push_lstring buf off n = rbind (copy_from buf off n) (\<lambda>b. Inr (La_str b))"

definition push_tail :: "u32 \<Rightarrow> lua_arg list" where
  "push_tail session = (if session = 0 then [La_nil, La_bool True] else [])"

definition unpackreq_number :: "byte list \<Rightarrow> nat \<Rightarrow> lua_error + lua_arg list" where
  "unpackreq_number buf sz =
     (if sz < 9 then Inl (Lua_error ''Invalid cluster message'')
      else let session = unpack_uint32 (drop 5 buf)
           in rbind (push_lstring buf 9 (sz - 9)) (\<lambda>s. Inr ([u32_arg (unpack_uint32 (drop 1 buf)), u32_arg session, s] @ push_tail session)))"

definition unpackmreq_number :: "byte list \<Rightarrow> nat \<Rightarrow> bool \<Rightarrow> lua_error + lua_arg list" where
  "unpackmreq_number buf sz is_push =
     (if sz \<noteq> 13 then Inl (Lua_error ''Invalid cluster message size (multi req must be 13)'')
      else Inr [u32_arg (unpack_uint32 (drop 1 buf)), u32_arg (unpack_uint32 (drop 5 buf)), u32_arg (unpack_uint32 (drop 9 buf)), La_bool True, La_bool is_push])"

definition unpackmreq_part :: "byte list \<Rightarrow> nat \<Rightarrow> lua_error + lua_arg list" where
  "unpackmreq_part buf sz =
     (if sz < 5 then Inl (Lua_error ''Invalid cluster multi part message'')
      else rbind (push_lstring buf 5 (sz - 5)) (\<lambda>s. Inr [La_bool False, u32_arg (unpack_uint32 (drop 1 buf)), s, La_bool (buf ! 0 = 2)]))"

definition unpackreq_string :: "byte list \<Rightarrow> nat \<Rightarrow> lua_error + lua_arg list" where
  "unpackreq_string buf sz =
     (if sz < 2 then Inl (Lua_error ''Invalid cluster message'')
      else let namesz = unat (buf ! 1)
           in if sz < namesz + 6 then Inl (Lua_error ''Invalid cluster message'')
              else let session = unpack_uint32 (drop (namesz + 2) buf)
                   in rbind (push_lstring buf 2 namesz) (\<lambda>name.
                      rbind (push_lstring buf (2 + namesz + 4) (sz - namesz - 6)) (\<lambda>s. Inr ([name, u32_arg session, s] @ push_tail session))))"

definition unpackmreq_string :: "byte list \<Rightarrow> nat \<Rightarrow> bool \<Rightarrow> lua_error + lua_arg list" where
  "unpackmreq_string buf sz is_push =
     (if sz < 2 then Inl (Lua_error ''Invalid cluster message'')
      else let namesz = unat (buf ! 1)
           in if sz < namesz + 10 then Inl (Lua_error ''Invalid cluster message'')
              else rbind (push_lstring buf 2 namesz) (\<lambda>name.
                     Inr [name, u32_arg (unpack_uint32 (drop (namesz + 2) buf)), u32_arg (unpack_uint32 (drop (namesz + 6) buf)), La_bool True, La_bool is_push]))"

text \<open>A string in Lua is followed by a zero, which is what the first byte of an empty one is.\<close>

definition lunpackrequest :: "byte list \<Rightarrow> lua_error + lua_arg list" where
  "lunpackrequest msg =
     (let sz = length msg; t = (msg @ [0]) ! 0
      in if t = 0 then unpackreq_number msg sz
         else if t = 1 then unpackmreq_number msg sz False
         else if t = 0x41 then unpackmreq_number msg sz True
         else if t = 2 \<or> t = 3 then unpackmreq_part msg sz
         else if t = 0x80 then unpackreq_string msg sz
         else if t = 0x81 then unpackmreq_string msg sz False
         else if t = 0xc1 then unpackmreq_string msg sz True
         else Inl (Lua_error ''Invalid req package type''))"

section \<open>Responses\<close>

primrec response_parts :: "nat \<Rightarrow> u32 \<Rightarrow> byte list \<Rightarrow> nat \<Rightarrow> nat \<Rightarrow> lua_error + byte list list" where
  "response_parts 0 session msg off sz = Inr []"
| "response_parts (Suc n) session msg off sz =
     (let s = (if sz > MULTI_PART then MULTI_PART else sz); t = (if sz > MULTI_PART then 3 else 4)
      in rbind (copy_from msg off s) (\<lambda>body.
         rbind (cluster_packet (s + 5) (fill_uint32 session @ [t] @ body)) (\<lambda>b.
         rbind (response_parts n session msg (off + s) (sz - s)) (\<lambda>bs. Inr (b # bs)))))"

text \<open>One packet, or a table of them.\<close>

definition lpackresponse :: "int \<Rightarrow> bool \<Rightarrow> byte list \<Rightarrow> nat \<Rightarrow> lua_error + (byte list + byte list list)" where
  "lpackresponse lsession ok msg sz0 =
     (let session = of_int lsession; sz = (if \<not> ok \<and> sz0 > MULTI_PART then MULTI_PART else sz0)
      in if ok \<and> sz > MULTI_PART
         then rbind (cluster_packet 9 (fill_uint32 session @ [2] @ fill_uint32 (of_nat sz))) (\<lambda>b.
              rbind (response_parts (parts_of sz) session msg 0 sz) (\<lambda>bs. Inr (Inr (b # bs))))
         else rbind (copy_from msg 0 sz) (\<lambda>body.
              rbind (cluster_packet (sz + 5) (fill_uint32 session @ [if ok then 1 else 0] @ body)) (\<lambda>b. Inr (Inl b))))"

definition lunpackresponse :: "byte list \<Rightarrow> lua_error + lua_arg list" where
  "lunpackresponse buf =
     (let sz = length buf
      in if sz < 5 then Inr []
         else let session = u32_arg (unpack_uint32 buf); t = buf ! 4; body = push_lstring buf 5 (sz - 5)
              in if t = 0 then rbind body (\<lambda>s. Inr [session, La_bool False, s])
                 else if t = 1 \<or> t = 4 then rbind body (\<lambda>s. Inr [session, La_bool True, s])
                 else if t = 2 then (if sz \<noteq> 9 then Inr [] else Inr [session, La_bool True, u32_arg (unpack_uint32 (drop 5 buf)), La_bool True])
                 else if t = 3 then rbind body (\<lambda>s. Inr [session, La_bool True, s, La_bool True])
                 else Inr [])"

section \<open>Putting parts together\<close>

text \<open>The loop over the strings of the table: the bytes copied, or \<open>None\<close> when they do not fit.\<close>

fun concat_loop :: "nat \<Rightarrow> byte list \<Rightarrow> lua_arg list \<Rightarrow> byte list option" where
  "concat_loop sz acc (La_str s # rest) = (if length s + length acc > sz then None else concat_loop sz (acc @ s) rest)"
| "concat_loop sz acc _ = Some acc"

text \<open>\<open>Inr None\<close> when nothing is returned. An allocation of a negative size aborts the process.\<close>

definition lconcat :: "lua_arg list \<Rightarrow> lua_error + byte list option" where
  "lconcat t =
     (case t of
        La_int n # rest \<Rightarrow>
          let sz = c_int n
          in if sz < 0 then Inl (C_fault Assert_failed)
             else Inr (case concat_loop (nat sz) [] rest of
                         None \<Rightarrow> None
                       | Some buff \<Rightarrow> if length buff \<noteq> nat sz then None else Some buff)
      | _ \<Rightarrow> Inr None)"

section \<open>The receiving node\<close>

text \<open>An entry of \<^verbatim>\<open>large_request\<close>: the fields \<^verbatim>\<open>addr\<close> and \<^verbatim>\<open>is_push\<close>, and the array part.\<close>

record large =
  lg_addr :: lua_arg
  lg_is_push :: bool
  lg_items :: "lua_arg list"

datatype delivery = Request lua_arg int "byte list" bool | Invalid_large int

definition lua_true :: "lua_arg \<Rightarrow> bool" where
  "lua_true v \<longleftrightarrow> v \<noteq> La_nil \<and> v \<noteq> La_bool False"

abbreviation arg :: "lua_arg list \<Rightarrow> nat \<Rightarrow> lua_arg" where
  "arg vs n \<equiv> (if n < length vs then vs ! n else La_nil)"

text \<open>\<^verbatim>\<open>command.socket\<close> for data, up to the call of the service.\<close>

definition socket_entry :: "lua_arg list \<Rightarrow> int \<Rightarrow> large option \<Rightarrow> lua_error + (delivery option \<times> large option)" where
  "socket_entry vs session entry =
     (if lua_true (arg vs 3)
      then let req = (case entry of Some r \<Rightarrow> r | None \<Rightarrow> \<lparr>lg_addr = arg vs 0, lg_is_push = lua_true (arg vs 4), lg_items = []\<rparr>)
           in Inr (None, Some (req\<lparr>lg_items := lg_items req @ [arg vs 2]\<rparr>))
      else case entry of
             None \<Rightarrow> Inr (case arg vs 2 of La_str m \<Rightarrow> Some (Request (arg vs 0) session m (lua_true (arg vs 4))) | _ \<Rightarrow> Some (Invalid_large session), None)
           | Some req \<Rightarrow>
               rbind (lconcat (lg_items req @ [arg vs 2])) (\<lambda>m.
                 Inr (Some (case m of Some m \<Rightarrow> Request (lg_addr req) session m (lg_is_push req) | None \<Rightarrow> Invalid_large session), None)))"

definition session_of :: "byte list \<Rightarrow> int option" where
  "session_of p = (case lunpackrequest p of Inr (_ # La_int i # _) \<Rightarrow> Some i | _ \<Rightarrow> None)"

text \<open>The events of the connections to the node: data, an accepted connection, and anything else (\<^verbatim>\<open>close\<close>, \<^verbatim>\<open>error\<close>,
  \<^verbatim>\<open>warning\<close>), which throws the whole table away.\<close>

datatype cluster_event = Ev_data "byte list" | Ev_open | Ev_close

definition command_socket :: "(int \<rightharpoonup> large) \<Rightarrow> cluster_event \<Rightarrow> lua_error + (delivery option \<times> (int \<rightharpoonup> large))" where
  "command_socket large_request ev =
     (case ev of
        Ev_data p \<Rightarrow>
          rbind (lunpackrequest p) (\<lambda>vs.
            case vs of
              _ # La_int session # _ \<Rightarrow>
                rbind (socket_entry vs session (large_request session)) (\<lambda>(d, e). Inr (d, large_request(session := e)))
            | _ \<Rightarrow> Inr (None, large_request))
      | Ev_open \<Rightarrow> Inr (None, large_request)
      | Ev_close \<Rightarrow> Inr (None, Map.empty))"

text \<open>The events of a node one after the other: a Lua error in one leaves the table as it is, a failed C function ends the process.\<close>

primrec receive_packets :: "(int \<rightharpoonup> large) \<Rightarrow> cluster_event list \<Rightarrow> c_error + (delivery list \<times> (int \<rightharpoonup> large))" where
  "receive_packets lr [] = Inr ([], lr)"
| "receive_packets lr (q # qs) =
     (case command_socket lr q of
        Inl (Lua_error e) \<Rightarrow> receive_packets lr qs
      | Inl (C_fault e) \<Rightarrow> Inl e
      | Inr (d, lr1) \<Rightarrow> rbind (receive_packets lr1 qs) (\<lambda>(ds, lr2). Inr ((case d of None \<Rightarrow> ds | Some x \<Rightarrow> x # ds), lr2)))"

section \<open>Words on the wire\<close>

lemma unpack_fill [simp]: "unpack_uint32 (fill_uint32 n @ rest) = n"
proof -
  have ff: "(0xff :: u32) = mask 8" by (simp add: mask_eq_exp_minus_1)
  have "ucast (ucast (n AND 0xff) :: byte) OR push_bit 8 (ucast (ucast (drop_bit 8 n AND 0xff) :: byte)) OR push_bit 16 (ucast (ucast (drop_bit 16 n AND 0xff) :: byte))
      OR push_bit 24 (ucast (ucast (drop_bit 24 n AND 0xff) :: byte)) = n"
    unfolding ff
  proof (rule bit_eqI)
    fix k assume "possible_bit TYPE(u32) k"
    then have "k < 32" by simp
    then consider "k < 8" | "8 \<le> k" "k < 16" | "16 \<le> k" "k < 24" | "24 \<le> k" "k < 32" by linarith
    then show "bit (ucast (ucast (n AND mask 8) :: byte) OR push_bit 8 (ucast (ucast (drop_bit 8 n AND mask 8) :: byte)) OR push_bit 16 (ucast (ucast (drop_bit 16 n AND mask 8) :: byte))
      OR push_bit 24 (ucast (ucast (drop_bit 24 n AND mask 8) :: byte)) :: u32) k = bit n k"
      by cases (auto simp: bit_simps)
  qed
  then show ?thesis by (simp add: unpack_uint32_def fill_uint32_def eval_nat_numeral)
qed

lemma length_fill [simp]: "length (fill_uint32 n) = 4"
  by (simp add: fill_uint32_def)

definition framed :: "byte list \<Rightarrow> byte list" where
  "framed c = [of_nat (length c div 256), of_nat (length c)] @ c"

lemma packet_framed: "length c + 2 \<le> TEMP_LENGTH \<Longrightarrow> n = length c \<Longrightarrow> cluster_packet n c = Inr (framed c)"
  by (simp add: cluster_packet_def fill_header_def temp_buffer_def framed_def TEMP_LENGTH_def)

lemma drop_framed [simp]: "drop 2 (framed c) = c"
  by (simp add: framed_def)

section \<open>What is sent\<close>

definition valid_addr :: "lua_arg \<Rightarrow> bool" where
  "valid_addr addr \<longleftrightarrow> (case addr of La_int a \<Rightarrow> 0 \<le> a \<and> a < 2 ^ 32 | La_str n \<Rightarrow> 1 \<le> length n \<and> length n \<le> 255 | _ \<Rightarrow> False)"

text \<open>The session under which a request travels: a push in one packet has none.\<close>

definition wire_session :: "int \<Rightarrow> byte list \<Rightarrow> bool \<Rightarrow> int" where
  "wire_session session msg push = (if length msg < MULTI_PART \<and> push then 0 else session)"

definition first_content :: "lua_arg \<Rightarrow> int \<Rightarrow> byte list \<Rightarrow> bool \<Rightarrow> byte list" where
  "first_content addr session msg push =
     (let small = length msg < MULTI_PART; s = fill_uint32 (of_int (wire_session session msg push));
          rest = (if small then msg else fill_uint32 (of_nat (length msg)))
      in case addr of
           La_int a \<Rightarrow> [if small then 0 else if push then 0x41 else 1] @ fill_uint32 (of_int a) @ s @ rest
         | La_str n \<Rightarrow> [if small then 0x80 else if push then 0xc1 else 0x81, of_nat (length n)] @ n @ s @ rest
         | _ \<Rightarrow> [])"

primrec part_contents :: "nat \<Rightarrow> int \<Rightarrow> byte list \<Rightarrow> byte list list" where
  "part_contents 0 session m = []"
| "part_contents (Suc n) session m =
     ([if length m > MULTI_PART then 2 else 3] @ fill_uint32 (of_int session) @ take MULTI_PART m) # part_contents n session (drop MULTI_PART m)"

definition request_contents :: "lua_arg \<Rightarrow> int \<Rightarrow> byte list \<Rightarrow> bool \<Rightarrow> byte list list" where
  "request_contents addr session msg push = first_content addr session msg push #
     (if length msg < MULTI_PART then [] else part_contents (parts_of (length msg)) session msg)"

lemma copy_all [simp]: "copy_from msg 0 (length msg) = Inr msg"
  by (simp add: copy_from_def)

lemma multi_loop_contents:
  "off + sz = length msg \<Longrightarrow> multi_loop n session msg off sz = Inr (map framed (part_contents n session (drop off msg)))"
proof (induction n arbitrary: off sz)
  case (Suc n)
  let ?s = "if sz > MULTI_PART then MULTI_PART else sz"
  have body: "copy_from msg off ?s = Inr (take MULTI_PART (drop off msg))" using Suc.prems by (auto simp: copy_from_def)
  have "cluster_packet (?s + 5) ([if sz > MULTI_PART then 2 else 3] @ fill_uint32 (of_int session) @ take MULTI_PART (drop off msg)) =
      Inr (framed ([if length (drop off msg) > MULTI_PART then 2 else 3] @ fill_uint32 (of_int session) @ take MULTI_PART (drop off msg)))"
    using Suc.prems by (subst packet_framed) (auto simp: MULTI_PART_def TEMP_LENGTH_def)
  moreover have "multi_loop n session msg (off + ?s) (sz - ?s) = Inr (map framed (part_contents n session (drop MULTI_PART (drop off msg))))"
  proof -
    have "drop (off + ?s) msg = drop MULTI_PART (drop off msg)" using Suc.prems by (auto simp: add.commute)
    then show ?thesis using Suc.IH [of "off + ?s" "sz - ?s"] Suc.prems by auto
  qed
  ultimately show ?case using body by (simp add: Let_def)
qed simp

lemma packrequest_contents:
  assumes "valid_addr addr" "0 < session" "session < 2 ^ 31" "length msg < 2 ^ 32"
  shows "\<exists>p parts next. packrequest addr session (Some msg) (int (length msg)) push = Inr (p, next, parts)
    \<and> p # (case parts of None \<Rightarrow> [] | Some ps \<Rightarrow> ps) = map framed (request_contents addr session msg push)"
proof -
  have sz: "nat (int (length msg) mod 2 ^ 32) = length msg" using assms(4) by (simp add: nat_mod_distrib)
  have c: "c_int session = session" using assms(2,3) by simp
  let ?pack = "case addr of La_int a \<Rightarrow> packreq_number (of_int a) session msg (length msg) push
     | La_str name \<Rightarrow> packreq_string (Some name) session msg (length msg) push | _ \<Rightarrow> packreq_string None session msg (length msg) push"
  have first: "?pack = Inr (framed (first_content addr session msg push), if length msg < MULTI_PART then 0 else parts_of (length msg))"
  proof (cases addr)
    case (La_int a)
    then show ?thesis
      by (auto simp: packreq_number_def first_content_def wire_session_def Let_def MULTI_PART_def TEMP_LENGTH_def packet_framed)
  next
    case (La_str name)
    then show ?thesis using assms(1)
      by (auto simp: packreq_string_def first_content_def wire_session_def Let_def MULTI_PART_def TEMP_LENGTH_def valid_addr_def packet_framed)
  qed (use assms(1) in \<open>simp_all add: valid_addr_def\<close>)
  have multi: "packreq_multi session msg (length msg) = Inr (map framed (part_contents (parts_of (length msg)) session msg))"
    using multi_loop_contents [of 0 "length msg" msg] by (simp add: packreq_multi_def)
  have "packrequest addr session (Some msg) (int (length msg)) push = Inr (framed (first_content addr session msg push),
      (if c_int (session + 1) < 0 then 1 else c_int (session + 1)),
      (if length msg < MULTI_PART then None else Some (map framed (part_contents (parts_of (length msg)) session msg))))"
    unfolding packrequest_def option.case Let_def sz c first using assms(2) multi by (simp add: parts_of_def)
  then show ?thesis by (simp add: request_contents_def)
qed

section \<open>What is received\<close>

lemma unpack_fill_only [simp]: "unpack_uint32 (fill_uint32 n) = n"
  using unpack_fill [of n "[]"] by simp

lemma copy_tail: "off \<le> length buf \<Longrightarrow> n = length buf - off \<Longrightarrow> push_lstring buf off n = Inr (La_str (drop off buf))"
  by (simp add: push_lstring_def copy_from_def)

lemma drop_fill [simp]: "4 \<le> k \<Longrightarrow> drop k (fill_uint32 n @ rest) = drop (k - 4) rest"
  by simp

lemma uint_session: "0 \<le> i \<Longrightarrow> i < 2 ^ 31 \<Longrightarrow> uint (of_int i :: u32) = i"
  by (simp add: uint_word_of_int_eq take_bit_int_eq_self)

lemma uint_length: "length msg < 2 ^ 31 \<Longrightarrow> uint (of_nat (length msg) :: u32) = int (length msg)"
  by (simp add: unsigned_of_nat take_bit_nat_eq_self)

lemma unpack_number:
  assumes "0 \<le> a" "a < 2 ^ 32" "0 \<le> i" "i < 2 ^ 31"
  shows "lunpackrequest (0 # fill_uint32 (of_int a) @ fill_uint32 (of_int i) @ msg) = Inr ([La_int a, La_int i, La_str msg] @ push_tail (of_int i))"
    "t \<in> {1, 0x41} \<Longrightarrow> length msg < 2 ^ 31 \<Longrightarrow> lunpackrequest (t # fill_uint32 (of_int a) @ fill_uint32 (of_int i) @ fill_uint32 (of_nat (length msg))) =
      Inr [La_int a, La_int i, La_int (int (length msg)), La_bool True, La_bool (t = 0x41)]"
proof -
  have u: "uint (of_int a :: u32) = a" "uint (of_int i :: u32) = i" using assms by (simp_all add: uint_word_of_int_eq take_bit_int_eq_self)
  show "lunpackrequest (0 # fill_uint32 (of_int a) @ fill_uint32 (of_int i) @ msg) = Inr ([La_int a, La_int i, La_str msg] @ push_tail (of_int i))"
    using u by (simp add: lunpackrequest_def unpackreq_number_def Let_def copy_tail)
  show "lunpackrequest (t # fill_uint32 (of_int a) @ fill_uint32 (of_int i) @ fill_uint32 (of_nat (length msg))) =
      Inr [La_int a, La_int i, La_int (int (length msg)), La_bool True, La_bool (t = 0x41)]" if "t \<in> {1, 0x41}" "length msg < 2 ^ 31"
    using u that(1) uint_length [OF that(2)] by (auto simp: lunpackrequest_def unpackmreq_number_def Let_def)
qed

lemma unpack_string:
  assumes "1 \<le> length name" "length name \<le> 255" "0 \<le> i" "i < 2 ^ 31"
  shows "lunpackrequest (0x80 # of_nat (length name) # name @ fill_uint32 (of_int i) @ msg) = Inr ([La_str name, La_int i, La_str msg] @ push_tail (of_int i))"
    "t \<in> {0x81, 0xc1} \<Longrightarrow> length msg < 2 ^ 31 \<Longrightarrow> lunpackrequest (t # of_nat (length name) # name @ fill_uint32 (of_int i) @ fill_uint32 (of_nat (length msg))) =
      Inr [La_str name, La_int i, La_int (int (length msg)), La_bool True, La_bool (t = 0xc1)]"
proof -
  have u: "uint (of_int i :: u32) = i" using assms by (simp add: uint_word_of_int_eq take_bit_int_eq_self)
  have n: "unat (of_nat (length name) :: byte) = length name" using assms(2) by (simp add: unsigned_of_nat take_bit_nat_eq_self)
  have name: "push_lstring (t # l # name @ rest) 2 (length name) = Inr (La_str name)" for t l :: byte and rest by (simp add: push_lstring_def copy_from_def)
  have d: "drop (length name + 6) (t # l # name @ fill_uint32 w @ rest) = rest" for t l :: byte and w rest by (simp add: drop_Cons')
  have tail: "push_lstring (t # l # name @ fill_uint32 w @ msg) (length name + 6) (length msg) = Inr (La_str msg)" for t l :: byte and w
    using d by (subst copy_tail) simp_all
  show "lunpackrequest (0x80 # of_nat (length name) # name @ fill_uint32 (of_int i) @ msg) = Inr ([La_str name, La_int i, La_str msg] @ push_tail (of_int i))"
    using u n name tail by (simp add: lunpackrequest_def unpackreq_string_def Let_def add.commute [of 6])
  show "lunpackrequest (t # of_nat (length name) # name @ fill_uint32 (of_int i) @ fill_uint32 (of_nat (length msg))) =
      Inr [La_str name, La_int i, La_int (int (length msg)), La_bool True, La_bool (t = 0xc1)]" if "t \<in> {0x81, 0xc1}" "length msg < 2 ^ 31"
    using u n name that(1) uint_length [OF that(2)] d [where rest = "fill_uint32 w" for w] by (auto simp: lunpackrequest_def unpackmreq_string_def Let_def)
qed

lemma unpack_part:
  assumes "0 \<le> i" "i < 2 ^ 31" "t \<in> {2, 3}"
  shows "lunpackrequest (t # fill_uint32 (of_int i) @ m) = Inr [La_bool False, La_int i, La_str m, La_bool (t = 2)]"
  using assms(3) uint_session [OF assms(1,2)] by (auto simp: lunpackrequest_def unpackmreq_part_def Let_def copy_tail)

text \<open>One session of the table: its entry and what is delivered for it.\<close>

definition entry_step :: "int \<Rightarrow> large option \<Rightarrow> byte list \<Rightarrow> c_error + (delivery list \<times> large option)" where
  "entry_step i e p =
     (case rbind (lunpackrequest p) (\<lambda>vs. socket_entry vs i e) of
        Inl (Lua_error _) \<Rightarrow> Inr ([], e)
      | Inl (C_fault c) \<Rightarrow> Inl c
      | Inr (d, e') \<Rightarrow> Inr ((case d of None \<Rightarrow> [] | Some x \<Rightarrow> [x]), e'))"

primrec entry_run :: "int \<Rightarrow> large option \<Rightarrow> byte list list \<Rightarrow> c_error + (delivery list \<times> large option)" where
  "entry_run i e [] = Inr ([], e)"
| "entry_run i e (p # ps) = rbind (entry_step i e p) (\<lambda>(d, e1). rbind (entry_run i e1 ps) (\<lambda>(ds, e2). Inr (d @ ds, e2)))"

text \<open>The session that an event is about.\<close>

definition event_session :: "cluster_event \<Rightarrow> int option" where
  "event_session q = (case q of Ev_data p \<Rightarrow> session_of p | _ \<Rightarrow> None)"

definition delivery_session :: "delivery \<Rightarrow> int" where
  "delivery_session d = (case d of Request _ i _ _ \<Rightarrow> i | Invalid_large i \<Rightarrow> i)"

lemma socket_entry_session:
  assumes "socket_entry vs i e = Inr (Some d, e')"
  shows "delivery_session d = i"
proof -
  have pad: "\<not> lua_true (arg vs 3)" using assms by (auto simp: socket_entry_def Let_def simp del: if_split split: if_splits)
  show ?thesis
  proof (cases e)
    case None
    then have "Some d = (case arg vs 2 of La_str m \<Rightarrow> Some (Request (arg vs 0) i m (lua_true (arg vs 4))) | _ \<Rightarrow> Some (Invalid_large i))"
      using assms unfolding socket_entry_def if_not_P [OF pad] by (simp only: option.case sum.inject prod.inject)
    then show ?thesis by (cases "arg vs 2") (simp_all only: lua_arg.case option.inject delivery_session_def delivery.case)
  next
    case (Some req)
    then have "rbind (lconcat (lg_items req @ [arg vs 2])) (\<lambda>m. Inr (Some (case m of Some m \<Rightarrow> Request (lg_addr req) i m (lg_is_push req) | None \<Rightarrow> Invalid_large i), None)) = Inr (Some d, e')"
      using assms unfolding socket_entry_def if_not_P [OF pad] by (simp only: option.case)
    then obtain m where "d = (case m of Some m \<Rightarrow> Request (lg_addr req) i m (lg_is_push req) | None \<Rightarrow> Invalid_large i)"
      unfolding rbind_eq_Inr by (elim exE conjE, simp only: sum.inject prod.inject option.inject) blast
    then show ?thesis by (cases m) (simp_all add: delivery_session_def)
  qed
qed

lemma session_ofE:
  assumes "session_of p = Some i"
  obtains a vs where "lunpackrequest p = Inr (a # La_int i # vs)"
  using assms by (auto simp: session_of_def split: sum.splits list.splits lua_arg.splits)

lemma command_socket_own:
  assumes "session_of p = Some i"
  shows "command_socket lr (Ev_data p) = rbind (rbind (lunpackrequest p) (\<lambda>vs. socket_entry vs i (lr i))) (\<lambda>(d, e). Inr (d, lr(i := e)))"
  using assms by (elim session_ofE) (simp add: command_socket_def)

lemma own_delivery: "rbind (lunpackrequest p) (\<lambda>vs. socket_entry vs i e) = Inr (Some d, e') \<Longrightarrow> delivery_session d = i"
  using socket_entry_session by (auto simp: rbind_eq_Inr)

text \<open>An event of another session does not touch the entry, and does not depend on it.\<close>

lemma command_socket_frame:
  assumes "event_session q \<noteq> Some i" "q \<noteq> Ev_close" "command_socket lr q = Inr (d, lr1)"
  shows "command_socket (lr(i := x)) q = Inr (d, lr1(i := x))" "lr1 i = lr i" "d \<noteq> None \<Longrightarrow> delivery_session (the d) \<noteq> i"
proof -
  have "command_socket (lr(i := x)) q = Inr (d, lr1(i := x)) \<and> lr1 i = lr i \<and> (d \<noteq> None \<longrightarrow> delivery_session (the d) \<noteq> i)"
  proof (cases q)
    case (Ev_data p)
    obtain vs where vs: "lunpackrequest p = Inr vs" using assms(3) Ev_data by (auto simp: command_socket_def rbind_eq_Inr)
    show ?thesis
    proof (cases "\<exists>a j ws. vs = a # La_int j # ws")
      case True
      then obtain a j ws where j: "vs = a # La_int j # ws" by blast
      then have ne: "j \<noteq> i" using assms(1) Ev_data vs by (auto simp: event_session_def session_of_def)
      obtain e where e: "socket_entry vs j (lr j) = Inr (d, e)" "lr1 = lr(j := e)"
        using assms(3) Ev_data vs j by (auto simp: command_socket_def rbind_eq_Inr)
      show ?thesis using Ev_data vs j ne e socket_entry_session [of vs j "lr j" "the d" e]
        by (auto simp: command_socket_def fun_upd_twist)
    next
      case False
      then have "command_socket l q = Inr (None, l)" for l
        using Ev_data vs by (auto simp: command_socket_def split: list.splits lua_arg.splits)
      then show ?thesis using assms(3) by simp
    qed
  qed (use assms in \<open>simp_all add: command_socket_def\<close>)
  then show "command_socket (lr(i := x)) q = Inr (d, lr1(i := x))" "lr1 i = lr i" "d \<noteq> None \<Longrightarrow> delivery_session (the d) \<noteq> i" by simp_all
qed

lemma command_socket_frame_error:
  assumes "event_session q \<noteq> Some i" "command_socket lr q = Inl err"
  shows "command_socket (lr(i := x)) q = Inl err"
  using assms by (cases q) (auto simp: command_socket_def event_session_def session_of_def rbind_def split: sum.splits list.splits lua_arg.splits)

lemma receive_frame:
  assumes "list_all (\<lambda>q. event_session q \<noteq> Some i \<and> q \<noteq> Ev_close) qs" "receive_packets lr qs = Inr (ds, lr')"
  shows "receive_packets (lr(i := x)) qs = Inr (ds, lr'(i := x))"
  using assms
proof (induction qs arbitrary: lr ds)
  case (Cons q qs)
  then have q: "event_session q \<noteq> Some i" "q \<noteq> Ev_close" by simp_all
  show ?case
  proof (cases "command_socket lr q")
    case (Inl err)
    then show ?thesis using Cons command_socket_frame_error [OF q(1) Inl, of x] by (auto simp del: fun_upd_apply split: lua_error.splits)
  next
    case (Inr y)
    obtain d lr1 where y: "y = (d, lr1)" by (cases y)
    then show ?thesis using Cons Inr command_socket_frame(1) [OF q Inr [unfolded y], of x] by (auto simp: rbind_eq_Inr simp del: fun_upd_apply)
  qed
qed simp

text \<open>
  The events of one session and those of the others do not disturb each other: when the events of the others alone are
  received, and so is the session alone, then all of them are, mixed in any way.
\<close>

lemma receive_session:
  assumes "Ev_close \<notin> set qs" "receive_packets lr (filter (\<lambda>q. event_session q \<noteq> Some i) qs) = Inr (dB, lrB)"
    and "entry_run i (lr i) ps = Inr (dA, e)" "map Ev_data ps = filter (\<lambda>q. event_session q = Some i) qs"
  shows "\<exists>ds. receive_packets lr qs = Inr (ds, lrB(i := e)) \<and> filter (\<lambda>d. delivery_session d = i) ds = dA
    \<and> filter (\<lambda>d. delivery_session d \<noteq> i) ds = dB"
  using assms
proof (induction qs arbitrary: lr lrB ps dA dB)
  case Nil
  then show ?case by (auto simp: fun_upd_idem)
next
  case (Cons q qs)
  show ?case
  proof (cases "event_session q = Some i")
    case True
    then obtain p ps' where p: "q = Ev_data p" "ps = p # ps'" "session_of p = Some i" "map Ev_data ps' = filter (\<lambda>q. event_session q = Some i) qs"
      using Cons.prems(4) by (cases ps) (auto simp: event_session_def)
    obtain d1 e1 d2 where run: "entry_step i (lr i) p = Inr (d1, e1)" "entry_run i e1 ps' = Inr (d2, e)" "dA = d1 @ d2"
      using Cons.prems(3) p(2) by (auto simp: rbind_eq_Inr)
    have all: "list_all (\<lambda>q. event_session q \<noteq> Some i \<and> q \<noteq> Ev_close) (filter (\<lambda>q. event_session q \<noteq> Some i) qs)"
      using Cons.prems(1) by (auto simp: list_all_iff)
    have "receive_packets (lr(i := e1)) (filter (\<lambda>q. event_session q \<noteq> Some i) qs) = Inr (dB, lrB(i := e1))"
      using receive_frame [OF all] Cons.prems(2) True by simp
    moreover have "Ev_close \<notin> set qs" "entry_run i ((lr(i := e1)) i) ps' = Inr (d2, e)" using Cons.prems(1) run(2) by simp_all
    ultimately obtain ds where "receive_packets (lr(i := e1)) qs = Inr (ds, (lrB(i := e1))(i := e))" "filter (\<lambda>d. delivery_session d = i) ds = d2"
      "filter (\<lambda>d. delivery_session d \<noteq> i) ds = dB" using Cons.IH p(4) by metis
    then have ds: "receive_packets (lr(i := e1)) qs = Inr (ds, lrB(i := e))" "filter (\<lambda>d. delivery_session d = i) ds = d2"
      "filter (\<lambda>d. delivery_session d \<noteq> i) ds = dB" by simp_all
    consider m where "rbind (lunpackrequest p) (\<lambda>vs. socket_entry vs i (lr i)) = Inl (Lua_error m)" "d1 = []" "e1 = lr i"
      | d where "rbind (lunpackrequest p) (\<lambda>vs. socket_entry vs i (lr i)) = Inr (d, e1)" "d1 = (case d of None \<Rightarrow> [] | Some x \<Rightarrow> [x])"
      using run(1) by (auto simp: entry_step_def split: sum.splits lua_error.splits)
    then show ?thesis
    proof cases
      case 1
      then show ?thesis using ds run(3) p(1) command_socket_own [OF p(3), of lr] by (simp del: fun_upd_apply)
    next
      case 2
      then show ?thesis using ds run(3) p(1) command_socket_own [OF p(3), of lr] own_delivery [of p i "lr i"]
        by (auto simp del: fun_upd_apply split: option.splits)
    qed
  next
    case False
    then have q: "event_session q \<noteq> Some i" "q \<noteq> Ev_close" and ps: "map Ev_data ps = filter (\<lambda>q. event_session q = Some i) qs" "Ev_close \<notin> set qs"
      using Cons.prems by auto
    show ?thesis
    proof (cases "command_socket lr q")
      case (Inl err)
      then obtain m where m: "err = Lua_error m" "receive_packets lr (filter (\<lambda>q. event_session q \<noteq> Some i) qs) = Inr (dB, lrB)"
        using Cons.prems(2) q(1) by (auto split: lua_error.splits)
      show ?thesis using Cons.IH [OF ps(2) m(2) Cons.prems(3) ps(1)] Inl m(1) by (simp del: fun_upd_apply)
    next
      case (Inr y)
      obtain d lr1 where y: "y = (d, lr1)" by (cases y)
      note c = command_socket_frame [OF q Inr [unfolded y]]
      obtain dB1 where r: "receive_packets lr1 (filter (\<lambda>q. event_session q \<noteq> Some i) qs) = Inr (dB1, lrB)"
        "dB = (case d of None \<Rightarrow> dB1 | Some x \<Rightarrow> x # dB1)" using Cons.prems(2) q(1) Inr y by (auto simp: rbind_eq_Inr)
      have "entry_run i (lr1 i) ps = Inr (dA, e)" using Cons.prems(3) c(2) by simp
      from Cons.IH [OF ps(2) r(1) this ps(1)] obtain ds where "receive_packets lr1 qs = Inr (ds, lrB(i := e))"
        "filter (\<lambda>d. delivery_session d = i) ds = dA" "filter (\<lambda>d. delivery_session d \<noteq> i) ds = dB1" by blast
      then show ?thesis using Inr y r(2) c(3) by (auto simp del: fun_upd_apply split: option.splits)
    qed
  qed
qed

text \<open>A session that is alone.\<close>

lemma receive_alone:
  assumes "list_all (\<lambda>p. session_of p = Some i) ps" "entry_run i (lr i) ps = Inr (ds, e)"
  shows "receive_packets lr (map Ev_data ps) = Inr (ds, lr(i := e))"
proof -
  have s: "filter (\<lambda>q. event_session q = Some i) (map Ev_data ps) = map Ev_data ps" "filter (\<lambda>q. event_session q \<noteq> Some i) (map Ev_data ps) = []"
    using assms(1) by (auto simp: filter_id_conv filter_empty_conv list_all_iff event_session_def)
  have "\<exists>ds'. receive_packets lr (map Ev_data ps) = Inr (ds', lr(i := e)) \<and> filter (\<lambda>d. delivery_session d = i) ds' = ds
      \<and> filter (\<lambda>d. delivery_session d \<noteq> i) ds' = []"
    by (rule receive_session) (use s assms(2) in auto)
  then show ?thesis by (auto simp: filter_empty_conv filter_id_conv)
qed

section \<open>Reassembly\<close>

lemma concat_loop_strings: "length acc + length (concat cs) \<le> sz \<Longrightarrow> concat_loop sz acc (map La_str cs) = Some (acc @ concat cs)"
  by (induction cs arbitrary: acc) auto

lemma lconcat_strings: "length (concat cs) < 2 ^ 31 \<Longrightarrow> lconcat (La_int (int (length (concat cs))) # map La_str cs) = Inr (Some (concat cs))"
  using concat_loop_strings [of "[]" cs "length (concat cs)"] by (simp add: lconcat_def Let_def)

lemma parts_of_step: "MULTI_PART < n \<Longrightarrow> parts_of n = Suc (parts_of (n - MULTI_PART))"
  using div_add_self1 [of MULTI_PART "n - 1 - MULTI_PART"] by (auto simp: parts_of_def MULTI_PART_def)

lemma part_run:
  assumes "0 \<le> i" "i < 2 ^ 31" "length msg < 2 ^ 31"
  shows "n = parts_of (length m) \<Longrightarrow> concat cs @ m = msg \<Longrightarrow> m \<noteq> [] \<Longrightarrow>
    entry_run i (Some \<lparr>lg_addr = addr, lg_is_push = push, lg_items = La_int (int (length msg)) # map La_str cs\<rparr>) (part_contents n i m) = Inr ([Request addr i msg push], None)"
proof (induction n arbitrary: m cs)
  case 0
  then show ?case by (simp add: parts_of_def)
next
  case (Suc n)
  note u = unpack_part [OF assms(1,2)]
  show ?case
  proof (cases "length m > MULTI_PART")
    case True
    let ?r = "\<lparr>lg_addr = addr, lg_is_push = push, lg_items = La_int (int (length msg)) # map La_str (cs @ [take MULTI_PART m])\<rparr>"
    have "entry_run i (Some ?r) (part_contents n i (drop MULTI_PART m)) = Inr ([Request addr i msg push], None)"
      using Suc.prems True parts_of_step [OF True] by (intro Suc.IH) auto
    then show ?thesis using True u [of 2 "take MULTI_PART m"] by (simp add: entry_step_def socket_entry_def lua_true_def Let_def)
  next
    case False
    then have "n = 0" "take MULTI_PART m = m" using Suc.prems(1,3) by (auto simp: parts_of_def MULTI_PART_def)
    moreover have "lconcat (La_int (int (length msg)) # map La_str cs @ [La_str m]) = Inr (Some msg)"
      using lconcat_strings [of "cs @ [m]"] Suc.prems(2) assms(3) by auto
    ultimately show ?thesis using False u [of 3 m] by (simp add: entry_step_def socket_entry_def lua_true_def)
  qed
qed

lemma first_session:
  assumes "valid_addr addr" "0 < session" "session < 2 ^ 31" "length msg < 2 ^ 31"
  shows "lunpackrequest (first_content addr session msg push) =
    (if length msg < MULTI_PART then Inr ([addr, La_int (wire_session session msg push), La_str msg] @ (if push then [La_nil, La_bool True] else []))
     else Inr [addr, La_int session, La_int (int (length msg)), La_bool True, La_bool push])"
proof -
  have t: "push_tail (of_int session) = []" using assms(2,3) uint_session [of session] by (auto simp: push_tail_def)
  have s: "0 \<le> wire_session session msg push" "wire_session session msg push < 2 ^ 31" using assms(2,3) by (simp_all add: wire_session_def)
  show ?thesis
  proof (cases addr)
    case (La_int a)
    then have a: "0 \<le> a" "a < 2 ^ 32" using assms(1) by (simp_all add: valid_addr_def)
    show ?thesis using La_int t unpack_number(1) [OF a s, of msg] unpack_number(2) [OF a s _ assms(4), of "if push then 0x41 else 1"]
      by (auto simp: first_content_def wire_session_def Let_def push_tail_def split: if_splits)
  next
    case (La_str name)
    then have a: "1 \<le> length name" "length name \<le> 255" using assms(1) by (simp_all add: valid_addr_def)
    show ?thesis using La_str t unpack_string(1) [OF a s, of msg] unpack_string(2) [OF a s _ assms(4), of "if push then 0xc1 else 0x81"]
      by (auto simp: first_content_def wire_session_def Let_def push_tail_def split: if_splits)
  qed (use assms(1) in \<open>simp_all add: valid_addr_def\<close>)
qed

lemma request_run:
  fixes push :: bool
  assumes "valid_addr addr" "0 < session" "session < 2 ^ 31" "length msg < 2 ^ 31"
  defines "i \<equiv> wire_session session msg push"
  shows "entry_run i None (request_contents addr session msg push) = Inr ([Request addr i msg push], None)"
    and "list_all (\<lambda>p. session_of p = Some i) (request_contents addr session msg push)"
proof -
  note f = first_session [OF assms(1-4), of push]
  have parts: "list_all (\<lambda>p. session_of p = Some session) (part_contents n session m)" for n m
    using assms(2,3) unpack_part [of session] by (induction n arbitrary: m) (auto simp: session_of_def)
  show "list_all (\<lambda>p. session_of p = Some i) (request_contents addr session msg push)"
    using f parts by (auto simp: request_contents_def session_of_def i_def wire_session_def)
  show "entry_run i None (request_contents addr session msg push) = Inr ([Request addr i msg push], None)"
  proof (cases "length msg < MULTI_PART")
    case True
    then show ?thesis using f by (simp add: request_contents_def entry_step_def socket_entry_def lua_true_def i_def)
  next
    case False
    then have "msg \<noteq> []" "i = session" by (auto simp: MULTI_PART_def i_def wire_session_def)
    then have "entry_run i (Some \<lparr>lg_addr = addr, lg_is_push = push, lg_items = [La_int (int (length msg))]\<rparr>) (part_contents (parts_of (length msg)) session msg) =
        Inr ([Request addr i msg push], None)"
      using part_run [of session msg "parts_of (length msg)" msg "[]" addr push] assms(2-4) by simp
    then show ?thesis using False f by (cases push) (simp_all add: request_contents_def entry_step_def socket_entry_def lua_true_def Let_def)
  qed
qed

section \<open>Properties\<close>

text \<open>
  C36: a request to another node arrives. Its packets, with other events of the node in between in any way, are put together
  by the receiving node to exactly one request, with the address, the session, the bytes and the kind that were given; nothing
  of it remains in the table, and what is delivered of the other sessions is what would be delivered without it. The other
  events are of other sessions, they do not end the process on their own, and no connection to the node is closed meanwhile: a
  close throws away the unfinished requests of all connections (\<open>cluster_close_loses\<close>). Requests are shorter than 2 GB.
\<close>

theorem cluster_request_arrives:
  assumes "valid_addr addr" "0 < session" "session < 2 ^ 31" "length msg < 2 ^ 31"
  shows "\<exists>p parts next. packrequest addr session (Some msg) (int (length msg)) push = Inr (p, next, parts) \<and>
    (\<forall>qs others lr ds lr'. qs \<in> shuffles (map (\<lambda>p. Ev_data (drop 2 p)) (p # (case parts of None \<Rightarrow> [] | Some ps \<Rightarrow> ps))) others \<longrightarrow>
       list_all (\<lambda>q. event_session q \<noteq> Some (wire_session session msg push) \<and> q \<noteq> Ev_close) others \<longrightarrow>
       lr (wire_session session msg push) = None \<longrightarrow> receive_packets lr others = Inr (ds, lr') \<longrightarrow>
       (\<exists>ds'. receive_packets lr qs = Inr (ds', lr'(wire_session session msg push := None))
         \<and> filter (\<lambda>d. delivery_session d = wire_session session msg push) ds' = [Request addr (wire_session session msg push) msg push]
         \<and> filter (\<lambda>d. delivery_session d \<noteq> wire_session session msg push) ds' = ds))"
proof -
  let ?i = "wire_session session msg push" and ?cs = "request_contents addr session msg push"
  let ?own = "\<lambda>q. event_session q = Some ?i"
  obtain p parts nxt where r: "packrequest addr session (Some msg) (int (length msg)) push = Inr (p, nxt, parts)"
    "p # (case parts of None \<Rightarrow> [] | Some ps \<Rightarrow> ps) = map framed ?cs" using packrequest_contents [OF assms(1-3), of msg push] assms(4) by auto
  have cs: "map (\<lambda>p. Ev_data (drop 2 p)) (p # (case parts of None \<Rightarrow> [] | Some ps \<Rightarrow> ps)) = map Ev_data ?cs" unfolding r(2) by (simp add: comp_def)
  have own: "filter ?own (map Ev_data ?cs) = map Ev_data ?cs" "filter (\<lambda>q. \<not> ?own q) (map Ev_data ?cs) = []"
    using request_run(2) [OF assms, of push] by (auto simp: filter_id_conv filter_empty_conv list_all_iff event_session_def)
  have main: "\<exists>ds'. receive_packets lr qs = Inr (ds', lr'(?i := None)) \<and> filter (\<lambda>d. delivery_session d = ?i) ds' = [Request addr ?i msg push]
      \<and> filter (\<lambda>d. delivery_session d \<noteq> ?i) ds' = ds"
    if "qs \<in> shuffles (map Ev_data ?cs) others" "list_all (\<lambda>q. \<not> ?own q \<and> q \<noteq> Ev_close) others" "lr ?i = None"
      "receive_packets lr others = Inr (ds, lr')" for qs others lr ds lr'
  proof (rule receive_session)
    have f: "filter ?own others = []" "filter (\<lambda>q. \<not> ?own q) others = others"
      using that(2) by (auto simp: filter_empty_conv filter_id_conv list_all_iff)
    have "filter ?own qs \<in> shuffles (filter ?own (map Ev_data ?cs)) (filter ?own others)"
      "filter (\<lambda>q. \<not> ?own q) qs \<in> shuffles (filter (\<lambda>q. \<not> ?own q) (map Ev_data ?cs)) (filter (\<lambda>q. \<not> ?own q) others)"
      using that(1) filter_shuffles by blast+
    then show "map Ev_data ?cs = filter ?own qs" "receive_packets lr (filter (\<lambda>q. \<not> ?own q) qs) = Inr (ds, lr')"
      using own f that(4) by simp_all
    show "entry_run ?i (lr ?i) ?cs = Inr ([Request addr ?i msg push], None)" using request_run(1) [OF assms, of push] that(3) by simp
    show "Ev_close \<notin> set qs" using that(2) set_shuffles [OF that(1)] by (auto simp: list_all_iff)
  qed
  show ?thesis
    by (intro exI [of _ p] exI [of _ parts] exI [of _ nxt] conjI allI impI, rule r(1), unfold cs) (rule main, assumption+)
qed

text \<open>
  A close of any connection loses the large requests of the others: the rest of their parts is answered with an error.
\<close>

lemma lost_run:
  assumes "0 \<le> i" "i < 2 ^ 31"
  shows "n = parts_of (length m) \<Longrightarrow>
    entry_run i (Some \<lparr>lg_addr = a, lg_is_push = push, lg_items = La_str c # its\<rparr>) (part_contents n i m) = Inr ([Invalid_large i], None)"
proof (induction n arbitrary: m its)
  case 0
  then show ?case by (simp add: parts_of_def)
next
  case (Suc n)
  show ?case
  proof (cases "length m > MULTI_PART")
    case True
    then show ?thesis using Suc.prems Suc.IH [of "drop MULTI_PART m" "its @ [La_str (take MULTI_PART m)]"] parts_of_step [OF True] unpack_part [OF assms, of 2 "take MULTI_PART m"]
      by (simp add: entry_step_def socket_entry_def lua_true_def Let_def)
  next
    case False
    then have "n = 0" using Suc.prems by (auto simp: parts_of_def MULTI_PART_def)
    then show ?thesis using False unpack_part [OF assms, of 3 m] by (simp add: entry_step_def socket_entry_def lua_true_def lconcat_def)
  qed
qed

lemma cluster_close_loses:
  assumes "valid_addr a" "0 < session" "session < 2 ^ 31" "MULTI_PART < length x" "length x < 2 ^ 31"
  shows "\<exists>lr. receive_packets Map.empty (Ev_data (first_content a session x False) # Ev_close #
    map Ev_data (part_contents (parts_of (length x)) session x)) = Inr ([Invalid_large session], lr)"
proof -
  let ?n = "parts_of (length x - MULTI_PART)"
  have s: "0 \<le> session" using assms(2) by simp
  have "lunpackrequest (first_content a session x False) = Inr [a, La_int session, La_int (int (length x)), La_bool True, La_bool False]"
    using first_session [OF assms(1-3,5), of False] assms(4) by simp
  then have "command_socket Map.empty (Ev_data (first_content a session x False)) =
      Inr (None, [session \<mapsto> \<lparr>lg_addr = a, lg_is_push = False, lg_items = [La_int (int (length x))]\<rparr>])"
    by (simp add: command_socket_def socket_entry_def lua_true_def Let_def)
  moreover have "entry_run session None (part_contents (parts_of (length x)) session x) = Inr ([Invalid_large session], None)"
    using parts_of_step [OF assms(4)] unpack_part [OF s assms(3), of 2 "take MULTI_PART x"] assms(4)
      lost_run [OF s assms(3), of ?n "drop MULTI_PART x" "La_bool False" False "take MULTI_PART x" "[]"]
    by (simp add: entry_step_def socket_entry_def lua_true_def Let_def)
  moreover have "list_all (\<lambda>p. session_of p = Some session) (part_contents m session z)" for m z
    using s assms(3) unpack_part [of session] by (induction m arbitrary: z) (auto simp: session_of_def)
  ultimately show ?thesis using receive_alone [of session "part_contents (parts_of (length x)) session x" Map.empty]
    by (simp add: command_socket_def)
qed

text \<open>Responses: the contents of the packets and what is unpacked from them.\<close>

primrec response_contents :: "nat \<Rightarrow> u32 \<Rightarrow> byte list \<Rightarrow> byte list list" where
  "response_contents 0 session m = []"
| "response_contents (Suc n) session m =
     (fill_uint32 session @ [if length m > MULTI_PART then 3 else 4] @ take MULTI_PART m) # response_contents n session (drop MULTI_PART m)"

lemma response_parts_contents:
  "off + sz = length msg \<Longrightarrow> response_parts n session msg off sz = Inr (map framed (response_contents n session (drop off msg)))"
proof (induction n arbitrary: off sz)
  case (Suc n)
  let ?s = "if sz > MULTI_PART then MULTI_PART else sz"
  have body: "copy_from msg off ?s = Inr (take MULTI_PART (drop off msg))" using Suc.prems by (auto simp: copy_from_def)
  have "cluster_packet (?s + 5) (fill_uint32 session @ [if sz > MULTI_PART then 3 else 4] @ take MULTI_PART (drop off msg)) =
      Inr (framed (fill_uint32 session @ [if length (drop off msg) > MULTI_PART then 3 else 4] @ take MULTI_PART (drop off msg)))"
    using Suc.prems by (subst packet_framed) (auto simp: MULTI_PART_def TEMP_LENGTH_def)
  moreover have "response_parts n session msg (off + ?s) (sz - ?s) = Inr (map framed (response_contents n session (drop MULTI_PART (drop off msg))))"
  proof -
    have "drop (off + ?s) msg = drop MULTI_PART (drop off msg)" using Suc.prems by (auto simp: add.commute)
    then show ?thesis using Suc.IH [of "off + ?s" "sz - ?s"] Suc.prems by auto
  qed
  ultimately show ?case using body by (simp add: Let_def)
qed simp

lemma unpack_response:
  "t \<in> {0, 1, 3, 4} \<Longrightarrow> lunpackresponse (fill_uint32 session @ [t] @ m) = Inr ([u32_arg session, La_bool (t \<noteq> 0), La_str m] @ (if t = 3 then [La_bool True] else []))"
  "lunpackresponse (fill_uint32 session @ [2] @ fill_uint32 n) = Inr [u32_arg session, La_bool True, u32_arg n, La_bool True]"
proof -
  have t: "(fill_uint32 session @ [t] @ m) ! 4 = t" for t m by (simp add: nth_append)
  have body: "push_lstring (fill_uint32 session @ [t] @ m) 5 (length m) = Inr (La_str m)" for t m by (subst copy_tail) simp_all
  show "lunpackresponse (fill_uint32 session @ [t] @ m) = Inr ([u32_arg session, La_bool (t \<noteq> 0), La_str m] @ (if t = 3 then [La_bool True] else []))" if mem: "t \<in> {0, 1, 3, 4}"
  proof -
    from mem consider "t = 0" | "t = 1" | "t = 3" | "t = 4" by blast
    then show ?thesis
      by cases (use body [of _ m] t [of _ m] in \<open>simp_all add: lunpackresponse_def Let_def\<close>)
  qed
  show "lunpackresponse (fill_uint32 session @ [2] @ fill_uint32 n) = Inr [u32_arg session, La_bool True, u32_arg n, La_bool True]"
    using t [of 2 "fill_uint32 n"] by (simp add: lunpackresponse_def Let_def)
qed

text \<open>The strings of the parts.\<close>

primrec chunks :: "nat \<Rightarrow> byte list \<Rightarrow> byte list list" where
  "chunks 0 m = []"
| "chunks (Suc n) m = take MULTI_PART m # chunks n (drop MULTI_PART m)"

lemma concat_chunks: "n = parts_of (length m) \<Longrightarrow> concat (chunks n m) = m"
proof (induction n arbitrary: m)
  case (Suc n)
  show ?case
  proof (cases "length m > MULTI_PART")
    case True
    then show ?thesis using Suc.prems Suc.IH [of "drop MULTI_PART m"] parts_of_step [OF True] by simp
  next
    case False
    then have "n = 0" using Suc.prems by (auto simp: parts_of_def MULTI_PART_def)
    then show ?thesis using False by simp
  qed
qed (simp add: parts_of_def)

lemma response_values:
  "n = parts_of (length m) \<Longrightarrow> map lunpackresponse (response_contents n session m) =
    map (\<lambda>c. Inr [u32_arg session, La_bool True, La_str c, La_bool True]) (butlast (chunks n m)) @ [Inr [u32_arg session, La_bool True, La_str (last (chunks n m))]]"
proof (induction n arbitrary: m)
  case 0
  then show ?case by (simp add: parts_of_def)
next
  case (Suc n)
  show ?case
  proof (cases "length m > MULTI_PART")
    case True
    then have n: "n = parts_of (length (drop MULTI_PART m))" using Suc.prems parts_of_step [OF True] by simp
    then have "chunks n (drop MULTI_PART m) \<noteq> []" by (cases n) (simp_all add: parts_of_def)
    then show ?thesis using True Suc.IH [OF n] unpack_response(1) [of 3 session "take MULTI_PART m"] by simp
  next
    case False
    then have "n = 0" using Suc.prems by (auto simp: parts_of_def MULTI_PART_def)
    then show ?thesis using False unpack_response(1) [of 4 session "take MULTI_PART m"] by simp
  qed
qed

text \<open>
  A large response comes back whole. The first packet announces its size, each of the others carries a part and, except
  for the last one, says that more follow; put together with \<^verbatim>\<open>cluster.concat\<close> they are the response.
\<close>

theorem cluster_response_returns:
  assumes "MULTI_PART < length msg" "length msg < 2 ^ 31" "0 \<le> session" "session < 2 ^ 31"
  shows "\<exists>ps cs c. lpackresponse session True msg (length msg) = Inr (Inr ps)
    \<and> map (\<lambda>p. lunpackresponse (drop 2 p)) ps = Inr [La_int session, La_bool True, La_int (int (length msg)), La_bool True] #
        map (\<lambda>c. Inr [La_int session, La_bool True, La_str c, La_bool True]) cs @ [Inr [La_int session, La_bool True, La_str c]]
    \<and> lconcat (La_int (int (length msg)) # map La_str (cs @ [c])) = Inr (Some msg)"
proof -
  let ?n = "parts_of (length msg)" and ?s = "of_int session :: u32"
  let ?cs = "chunks ?n msg"
  have u: "uint ?s = session" "uint (of_nat (length msg) :: u32) = int (length msg)" using uint_session [OF assms(3,4)] uint_length [OF assms(2)] by simp_all
  have "cluster_packet 9 (fill_uint32 ?s @ [2] @ fill_uint32 (of_nat (length msg))) = Inr (framed (fill_uint32 ?s @ [2] @ fill_uint32 (of_nat (length msg))))"
    by (subst packet_framed) (simp_all add: TEMP_LENGTH_def)
  then have r: "lpackresponse session True msg (length msg) =
      Inr (Inr (framed (fill_uint32 ?s @ [2] @ fill_uint32 (of_nat (length msg))) # map framed (response_contents ?n ?s msg)))"
    using assms(1) response_parts_contents [of 0 "length msg" msg ?n ?s] by (simp add: lpackresponse_def Let_def)
  have v: "map (\<lambda>p. lunpackresponse (drop 2 p)) (framed (fill_uint32 ?s @ [2] @ fill_uint32 (of_nat (length msg))) # map framed (response_contents ?n ?s msg)) =
      Inr [La_int session, La_bool True, La_int (int (length msg)), La_bool True] #
        map (\<lambda>c. Inr [La_int session, La_bool True, La_str c, La_bool True]) (butlast ?cs) @ [Inr [La_int session, La_bool True, La_str (last ?cs)]]"
    using response_values [OF refl, of msg ?s] unpack_response(2) [of ?s "of_nat (length msg)"] u by (simp add: comp_def)
  have "?cs \<noteq> []" by (simp add: parts_of_def)
  then have "butlast ?cs @ [last ?cs] = ?cs" by simp
  then have "lconcat (La_int (int (length msg)) # map La_str (butlast ?cs @ [last ?cs])) = Inr (Some msg)"
    using lconcat_strings [of ?cs] concat_chunks [of ?n msg] assms(2) by simp
  then show ?thesis using r v by (intro exI conjI)
qed

text \<open>
  C40: large requests of two nodes are mixed up. The table of unfinished requests is indexed by the session alone, and every node
  counts its sessions from 1: when the first packet of one request comes between the packets of another with the same session, neither the
  bytes of the first are delivered nor an address, only an error.
\<close>

theorem cluster_sessions_collide:
  assumes "valid_addr a" "valid_addr b" "0 < session" "session < 2 ^ 31"
    and "MULTI_PART \<le> length x" "length x < 2 ^ 31" "MULTI_PART \<le> length y" "length y < 2 ^ 31"
  shows "\<exists>lr. receive_packets Map.empty (map Ev_data (first_content a session x False # first_content b session y False #
    part_contents (parts_of (length x)) session x)) = Inr ([Invalid_large session], lr)"
proof -
  let ?ps = "part_contents (parts_of (length x)) session x"
  note fx = first_session [OF assms(1,3,4,6), of False] and fy = first_session [OF assms(2,3,4,8), of False]
  have s: "0 \<le> session" using assms(3) by simp
  have run: "entry_run session (Some \<lparr>lg_addr = a, lg_is_push = False, lg_items = La_int n # La_int k # its\<rparr>) (part_contents m session z) = Inr ([Invalid_large session], None)"
    if "m = parts_of (length z)" "0 < n" "n < 2 ^ 31" for n k m z its
    using that(1)
  proof (induction m arbitrary: z its)
    case 0
    then show ?case by (simp add: parts_of_def)
  next
    case (Suc m)
    show ?case
    proof (cases "length z > MULTI_PART")
      case True
      then show ?thesis using Suc.prems Suc.IH [of "drop MULTI_PART z" "its @ [La_str (take MULTI_PART z)]"] parts_of_step [OF True] unpack_part [OF s assms(4), of 2 "take MULTI_PART z"]
        by (simp add: entry_step_def socket_entry_def lua_true_def Let_def)
    next
      case False
      then have "m = 0" using Suc.prems by (auto simp: parts_of_def MULTI_PART_def)
      moreover have "lconcat (La_int n # La_int k # its @ [La_str z]) = Inr None" using that(2,3) by (simp add: lconcat_def Let_def)
      ultimately show ?thesis using False unpack_part [OF s assms(4), of 3 z] by (simp add: entry_step_def socket_entry_def lua_true_def)
    qed
  qed
  have pos: "0 < length x" using assms(5) by (auto simp: MULTI_PART_def)
  have "entry_run session None (first_content a session x False # first_content b session y False # ?ps) = Inr ([Invalid_large session], None)"
    using fx fy assms(5,7) run [OF refl, where n = "int (length x)" and z = x and k = "int (length y)" and its = "[]"] assms(6) pos by (simp add: entry_step_def socket_entry_def lua_true_def Let_def)
  moreover have "list_all (\<lambda>p. session_of p = Some session) (first_content a session x False # first_content b session y False # ?ps)"
  proof -
    have "list_all (\<lambda>p. session_of p = Some session) (part_contents m session z)" for m z
      using s assms(4) unpack_part [of session] by (induction m arbitrary: z) (auto simp: session_of_def)
    then show ?thesis using fx fy by (simp add: session_of_def wire_session_def)
  qed
  ultimately show ?thesis
    using receive_alone [of session "first_content a session x False # first_content b session y False # ?ps" Map.empty] by auto
qed

section \<open>Witnesses\<close>

text \<open>A request in two parts, with a request of another session between them.\<close>

theorem cluster_request_arrives_witness:
  "\<exists>p q r next ds lr. packrequest (La_str [110]) 3 (Some (replicate 40000 7)) 40000 False = Inr (p, next, Some [q, r])
    \<and> receive_packets Map.empty [Ev_data (drop 2 p), Ev_open, Ev_data (drop 2 q), Ev_data (first_content (La_int 1) 4 [9] False), Ev_data (drop 2 r)] = Inr (ds, lr)
    \<and> filter (\<lambda>d. delivery_session d = 3) ds = [Request (La_str [110]) 3 (replicate 40000 7) False]
    \<and> filter (\<lambda>d. delivery_session d \<noteq> 3) ds = [Request (La_int 1) 4 [9] False]"
proof -
  let ?m = "replicate 40000 7 :: byte list" and ?o = "Ev_data (first_content (La_int 1) 4 [9] False)"
  have w: "wire_session 3 ?m False = 3" by (simp add: wire_session_def)
  obtain p parts nxt where r: "packrequest (La_str [110]) 3 (Some ?m) 40000 False = Inr (p, nxt, parts)"
    "\<And>qs others lr ds lr'. qs \<in> shuffles (map (\<lambda>p. Ev_data (drop 2 p)) (p # (case parts of None \<Rightarrow> [] | Some ps \<Rightarrow> ps))) others \<Longrightarrow>
       list_all (\<lambda>q. event_session q \<noteq> Some 3 \<and> q \<noteq> Ev_close) others \<Longrightarrow> lr 3 = None \<Longrightarrow> receive_packets lr others = Inr (ds, lr') \<Longrightarrow>
       \<exists>ds'. receive_packets lr qs = Inr (ds', lr'(3 := None)) \<and> filter (\<lambda>d. delivery_session d = 3) ds' = [Request (La_str [110]) 3 ?m False]
         \<and> filter (\<lambda>d. delivery_session d \<noteq> 3) ds' = ds"
    using cluster_request_arrives [of "La_str [110]" 3 ?m False] unfolding w by (auto simp: valid_addr_def)
  have "\<exists>c1 c2 c3. request_contents (La_str [110]) 3 ?m False = [c1, c2, c3]"
    by (simp add: request_contents_def MULTI_PART_def parts_of_def numeral_2_eq_2)
  moreover have "p # (case parts of None \<Rightarrow> [] | Some ps \<Rightarrow> ps) = map framed (request_contents (La_str [110]) 3 ?m False)"
    using packrequest_contents [of "La_str [110]" 3 ?m False] r(1) by (auto simp: valid_addr_def)
  ultimately obtain q r' where ps: "parts = Some [q, r']" by (cases parts) auto
  have u: "lunpackrequest (first_content (La_int 1) 4 [9] False) = Inr [La_int 1, La_int 4, La_str [9]]"
    using first_session [of "La_int 1" 4 "[9]" False] by (simp add: valid_addr_def MULTI_PART_def wire_session_def)
  have o: "event_session ?o \<noteq> Some 3" "event_session Ev_open = None"
    "receive_packets Map.empty [Ev_open, ?o] = Inr ([Request (La_int 1) 4 [9] False], Map.empty(4 := None))"
    using u by (simp_all add: event_session_def session_of_def command_socket_def socket_entry_def lua_true_def)
  have "[Ev_data (drop 2 p), Ev_open, Ev_data (drop 2 q), ?o, Ev_data (drop 2 r')]
      \<in> shuffles (map (\<lambda>p. Ev_data (drop 2 p)) (p # (case parts of None \<Rightarrow> [] | Some ps \<Rightarrow> ps))) [Ev_open, ?o]"
    unfolding ps by (simp add: Cons_in_shuffles_iff)
  from r(2) [OF this _ _ o(3)] o(1,2) obtain ds where
    "receive_packets Map.empty [Ev_data (drop 2 p), Ev_open, Ev_data (drop 2 q), ?o, Ev_data (drop 2 r')] = Inr (ds, (Map.empty(4 := None))(3 := None))"
    "filter (\<lambda>d. delivery_session d = 3) ds = [Request (La_str [110]) 3 ?m False]" "filter (\<lambda>d. delivery_session d \<noteq> 3) ds = [Request (La_int 1) 4 [9] False]"
    by (auto simp del: receive_packets.simps)
  then show ?thesis using r(1) unfolding ps by blast
qed

theorem cluster_response_returns_witness:
  "\<exists>ps cs c. lpackresponse 3 True (replicate 40000 7) 40000 = Inr (Inr ps)
    \<and> map (\<lambda>p. lunpackresponse (drop 2 p)) ps = Inr [La_int 3, La_bool True, La_int 40000, La_bool True] #
        map (\<lambda>c. Inr [La_int 3, La_bool True, La_str c, La_bool True]) cs @ [Inr [La_int 3, La_bool True, La_str c]]
    \<and> lconcat (La_int 40000 # map La_str (cs @ [c])) = Inr (Some (replicate 40000 7))"
  using cluster_response_returns [of "replicate 40000 7" 3] by (simp add: MULTI_PART_def)

theorem cluster_sessions_collide_witness:
  "\<exists>lr. receive_packets Map.empty (map Ev_data (first_content (La_int 5) 1 (replicate 40000 7) False #
     first_content (La_int 6) 1 (replicate 50000 8) False # part_contents (parts_of 40000) 1 (replicate 40000 7))) = Inr ([Invalid_large 1], lr)"
  using cluster_sessions_collide [of "La_int 5" "La_int 6" 1 "replicate 40000 7" "replicate 50000 8"] by (simp add: valid_addr_def MULTI_PART_def)

end
