(* ===== verification/Sproto_Pack.thy ===== *)
theory Sproto_Pack
  imports Prelude
begin

unbundle bit_operations_syntax

text \<open>
  The 0-packing of \<^verbatim>\<open>lualib-src/sproto/sproto.c\<close>, which takes the zeros out of a message: segments of 8 bytes
  are written as a byte that says which of them are not zero, followed by these, and runs of up to 256 segments with few zeros as
  they are. The source and the buffer are arrays with their bounds; a buffer that is too small
  is written only as far as it goes, and the size that is needed is returned in any case. Sizes are below 2 gigabytes, the
  range of \<^verbatim>\<open>int\<close>.
\<close>

section \<open>Packing\<close>

definition put_bytes :: "byte list \<Rightarrow> nat \<Rightarrow> byte list \<Rightarrow> c_error + byte list" where
  "put_bytes buf pos bs = (if pos + length bs \<le> length buf then Inr (take pos buf @ bs @ drop (pos + length bs) buf) else Inl Out_of_bounds)"

definition get_bytes :: "byte list \<Rightarrow> nat \<Rightarrow> nat \<Rightarrow> c_error + byte list" where
  "get_bytes src pos n = (if pos + n \<le> length src then Inr (take n (drop pos src)) else Inl Out_of_bounds)"

text \<open>The loop over the bytes of a segment, from the bit \<open>i\<close> on.\<close>

fun seg_loop :: "byte list \<Rightarrow> nat \<Rightarrow> nat \<Rightarrow> byte \<Rightarrow> nat \<Rightarrow> int \<Rightarrow> byte list \<Rightarrow> c_error + (nat \<times> byte \<times> byte list)" where
  "seg_loop [] i notzero header pos sz buf = Inr (notzero, header, buf)"
| "seg_loop (b # bs) i notzero header pos sz buf =
     (if b \<noteq> 0
      then if sz > 0 then rbind (put_bytes buf pos [b]) (\<lambda>buf1. seg_loop bs (Suc i) (Suc notzero) (header OR push_bit i 1) (Suc pos) (sz - 1) buf1)
           else seg_loop bs (Suc i) (Suc notzero) (header OR push_bit i 1) pos sz buf
      else seg_loop bs (Suc i) notzero header pos sz buf)"

definition pack_seg :: "byte list \<Rightarrow> byte list \<Rightarrow> nat \<Rightarrow> int \<Rightarrow> nat \<Rightarrow> c_error + (nat \<times> byte list)" where
  "pack_seg src buf pos sz n =
     rbind (seg_loop src 0 0 0 (pos + 1) (sz - 1) buf) (\<lambda>(notzero, header, buf1).
       let notzero1 = (if (notzero = 7 \<or> notzero = 6) \<and> n > 0 then 8 else notzero)
       in if notzero1 = 8 then Inr (if n > 0 then 8 else 10, buf1)
          else rbind (if sz - 1 < 0 then Inr buf1 else put_bytes buf1 pos [header]) (\<lambda>buf2. Inr (notzero1 + 1, buf2)))"

definition write_ff :: "byte list \<Rightarrow> nat \<Rightarrow> byte list \<Rightarrow> nat \<Rightarrow> nat \<Rightarrow> c_error + byte list" where
  "write_ff src off buf des n =
     (let align8_n = (n + 7) div 8 * 8
      in rbind (get_bytes src off n) (\<lambda>bs. put_bytes buf des ([0xff, of_nat (align8_n div 8 - 1)] @ bs @ replicate (align8_n - n) 0)))"

record pack_state =
  pk_ff_src :: nat
  pk_ff_des :: nat
  pk_ff_n :: nat
  pk_size :: nat
  pk_bufsz :: int
  pk_pos :: nat
  pk_buf :: "byte list"

text \<open>The segment at \<open>i\<close>, filled up with zeros; a filled one has zeros, so \<^verbatim>\<open>ff_srcstart\<close> never points to \<^verbatim>\<open>tmp\<close>.\<close>

definition segment :: "byte list \<Rightarrow> nat \<Rightarrow> byte list" where
  "segment src i = take 8 (drop i src) @ replicate (i + 8 - length src) 0"

definition pack_step :: "byte list \<Rightarrow> nat \<Rightarrow> pack_state \<Rightarrow> c_error + pack_state" where
  "pack_step src i st =
     rbind (pack_seg (segment src i) (pk_buf st) (pk_pos st) (pk_bufsz st) (pk_ff_n st)) (\<lambda>(n, buf).
       let bufsz = pk_bufsz st - int n; st1 = st\<lparr>pk_bufsz := bufsz, pk_buf := buf, pk_pos := pk_pos st + n, pk_size := pk_size st + n\<rparr>
       in if n = 10 then Inr (st1\<lparr>pk_ff_src := i, pk_ff_des := pk_pos st, pk_ff_n := 1\<rparr>)
          else if n = 8 \<and> pk_ff_n st > 0
          then if pk_ff_n st + 1 = 256
               then rbind (if bufsz \<ge> 0 then write_ff src (pk_ff_src st) buf (pk_ff_des st) (256 * 8) else Inr buf) (\<lambda>buf1.
                      Inr (st1\<lparr>pk_buf := buf1, pk_ff_n := 0\<rparr>))
               else Inr (st1\<lparr>pk_ff_n := pk_ff_n st + 1\<rparr>)
          else if pk_ff_n st > 0
          then rbind (if bufsz \<ge> 0 then write_ff src (pk_ff_src st) buf (pk_ff_des st) (pk_ff_n st * 8) else Inr buf) (\<lambda>buf1.
                 Inr (st1\<lparr>pk_buf := buf1, pk_ff_n := 0\<rparr>))
          else Inr st1)"

text \<open>The first \<open>k\<close> rounds of the loop.\<close>

primrec pack_steps :: "nat \<Rightarrow> byte list \<Rightarrow> byte list \<Rightarrow> c_error + pack_state" where
  "pack_steps 0 src buf = Inr \<lparr>pk_ff_src = 0, pk_ff_des = 0, pk_ff_n = 0, pk_size = 0, pk_bufsz = int (length buf), pk_pos = 0, pk_buf = buf\<rparr>"
| "pack_steps (Suc k) src buf = rbind (pack_steps k src buf) (pack_step src (8 * k))"

definition sproto_pack :: "byte list \<Rightarrow> byte list \<Rightarrow> c_error + (nat \<times> byte list)" where
  "sproto_pack src buf =
     rbind (pack_steps ((length src + 7) div 8) src buf) (\<lambda>st.
     rbind (if pk_bufsz st \<ge> 0
            then if pk_ff_n st = 1 then write_ff src (pk_ff_src st) (pk_buf st) (pk_ff_des st) 8
                 else if pk_ff_n st > 1 then write_ff src (pk_ff_src st) (pk_buf st) (pk_ff_des st) (length src - pk_ff_src st)
                 else Inr (pk_buf st)
            else Inr (pk_buf st)) (\<lambda>buf1.
       Inr (pk_size st, buf1)))"

section \<open>Unpacking\<close>

text \<open>
  The tests \<^verbatim>\<open>srcsz < 0\<close> come too late: when nothing is left, the byte behind the source is read first. Here that is
  out of bounds. \<open>None\<close> stands for the result -1.
\<close>

record unpack_state =
  up_src :: "byte list"
  up_bufsz :: int
  up_pos :: nat
  up_buf :: "byte list"
  up_size :: nat

definition unpack_byte :: "byte \<Rightarrow> unpack_state \<Rightarrow> c_error + unpack_state" where
  "unpack_byte b st =
     (if up_bufsz st > 0
      then rbind (put_bytes (up_buf st) (up_pos st) [b]) (\<lambda>buf. Inr (st\<lparr>up_buf := buf, up_bufsz := up_bufsz st - 1, up_pos := up_pos st + 1\<rparr>))
      else Inr st)"

fun bits_loop :: "byte \<Rightarrow> nat list \<Rightarrow> unpack_state \<Rightarrow> c_error + unpack_state" where
  "bits_loop header [] st = Inr st"
| "bits_loop header (i # is) st =
     (if bit header i
      then case up_src st of
             [] \<Rightarrow> Inl Out_of_bounds
           | b # rest \<Rightarrow> rbind (unpack_byte b st) (\<lambda>st1. bits_loop header is (st1\<lparr>up_src := rest, up_size := up_size st1 + 1\<rparr>))
      else rbind (unpack_byte 0 st) (\<lambda>st1. bits_loop header is (st1\<lparr>up_size := up_size st1 + 1\<rparr>)))"

lemma unpack_byte_src: "unpack_byte b st = Inr st' \<Longrightarrow> up_src st' = up_src st"
  by (auto simp: unpack_byte_def rbind_eq_Inr split: if_splits)

lemma bits_loop_src: "bits_loop header is st = Inr st' \<Longrightarrow> length (up_src st') \<le> length (up_src st)"
proof (induction header "is" st rule: bits_loop.induct)
  case (2 header i "is" st)
  then show ?case by (force simp: rbind_eq_Inr split: if_splits list.splits dest: unpack_byte_src)
qed simp

function zero_unpack_loop :: "unpack_state \<Rightarrow> c_error + unpack_state option" where
  "zero_unpack_loop st =
     (case up_src st of
        [] \<Rightarrow> Inr (Some st)
      | header # src \<Rightarrow>
          if header = 0xff
          then case src of
                 [] \<Rightarrow> Inl Out_of_bounds
               | k # src1 \<Rightarrow>
                   let n = (unat k + 1) * 8
                   in if length src1 < n then Inr None
                      else rbind (if up_bufsz st \<ge> int n then put_bytes (up_buf st) (up_pos st) (take n src1) else Inr (up_buf st)) (\<lambda>buf.
                           zero_unpack_loop (st\<lparr>up_src := drop n src1, up_bufsz := up_bufsz st - int n, up_pos := up_pos st + n, up_buf := buf, up_size := up_size st + n\<rparr>))
          else rbind (bits_loop header [0..<8] (st\<lparr>up_src := src\<rparr>)) zero_unpack_loop)"
  by auto
termination by (relation "measure (\<lambda>st. length (up_src st))") (auto dest: bits_loop_src)

declare zero_unpack_loop.simps [simp del]

definition sproto_unpack :: "byte list \<Rightarrow> byte list \<Rightarrow> c_error + (nat \<times> byte list) option" where
  "sproto_unpack src buf =
     rbind (zero_unpack_loop \<lparr>up_src = src, up_bufsz = int (length buf), up_pos = 0, up_buf = buf, up_size = 0\<rparr>) (\<lambda>r.
       Inr (map_option (\<lambda>st. (up_size st, up_buf st)) r))"

section \<open>The functions for Lua\<close>

text \<open>
  \<^verbatim>\<open>pack\<close> and \<^verbatim>\<open>unpack\<close> of \<^verbatim>\<open>lsproto.c\<close> keep a buffer between calls; \<open>osz\<close> is its size, which is positive, and \<open>mem\<close> what
  is in it.
\<close>

definition ENCODE_BUFFERSIZE :: nat where "ENCODE_BUFFERSIZE = 2050"
definition ENCODE_MAXSIZE :: nat where "ENCODE_MAXSIZE = 0x1000000"

function expand_loop :: "nat \<Rightarrow> nat \<Rightarrow> nat" where
  "expand_loop osz nsz = (if 0 < osz \<and> osz * 2 < nsz then expand_loop (osz * 2) nsz else osz * 2)"
  by auto
termination by (relation "measure (\<lambda>(osz, nsz). nsz - osz)") auto

declare expand_loop.simps [simp del]

definition expand_buffer :: "nat \<Rightarrow> nat \<Rightarrow> lua_error + nat" where
  "expand_buffer osz nsz = (let n = expand_loop osz nsz in if n > ENCODE_MAXSIZE then Inl (Lua_error ''object is too large'') else Inr n)"

definition max_packed :: "nat \<Rightarrow> nat" where
  "max_packed sz = (sz + 2047) div 2048 * 2 + sz + 2"

definition sproto_lpack :: "(nat \<Rightarrow> byte) \<Rightarrow> nat \<Rightarrow> byte list \<Rightarrow> lua_error + (byte list \<times> nat)" where
  "sproto_lpack mem osz src =
     (let maxsz = max_packed (length src)
      in rbind (if osz < maxsz then expand_buffer osz maxsz else Inr osz) (\<lambda>osz1.
         rbind (lift_c (sproto_pack src (map mem [0..<maxsz]))) (\<lambda>(bytes, output).
           if bytes > maxsz then Inl (Lua_error ''packing error'') else Inr (take bytes output, osz1))))"

definition sproto_lunpack :: "(nat \<Rightarrow> byte) \<Rightarrow> nat \<Rightarrow> byte list \<Rightarrow> lua_error + (byte list \<times> nat)" where
  "sproto_lunpack mem osz src =
     rbind (lift_c (sproto_unpack src (map mem [0..<osz]))) (\<lambda>r.
       case r of
         None \<Rightarrow> Inl (Lua_error ''Invalid unpack stream'')
       | Some (r, output) \<Rightarrow>
           if r > osz
           then rbind (expand_buffer osz r) (\<lambda>osz1.
                rbind (lift_c (sproto_unpack src (map mem [0..<r]))) (\<lambda>r1.
                  case r1 of
                    None \<Rightarrow> Inl (Lua_error ''Invalid unpack stream'')
                  | Some (r2, output2) \<Rightarrow> Inr (take r2 output2, osz1)))
           else Inr (take r output, osz))"

section \<open>The format\<close>

abbreviation nonzero :: "byte list \<Rightarrow> byte list" where
  "nonzero bs \<equiv> filter (\<lambda>b. b \<noteq> 0) bs"

text \<open>The header of a segment: its bits from \<open>i\<close> on tell which bytes are not zero.\<close>

fun seg_header :: "nat \<Rightarrow> byte list \<Rightarrow> byte" where
  "seg_header i [] = 0"
| "seg_header i (b # bs) = (if b \<noteq> 0 then push_bit i 1 else 0) OR seg_header (Suc i) bs"

inductive codes :: "byte list \<Rightarrow> byte list \<Rightarrow> bool" where
  codes_nil: "codes [] []"
| codes_seg: "length s = 8 \<Longrightarrow> length (nonzero s) < 8 \<Longrightarrow> codes c d \<Longrightarrow> codes ((seg_header 0 s # nonzero s) @ c) (s @ d)"
| codes_run: "0 < k \<Longrightarrow> k \<le> 256 \<Longrightarrow> length r = 8 * k \<Longrightarrow> codes c d \<Longrightarrow> codes (([0xff, of_nat (k - 1)] @ r) @ c) (r @ d)"

lemma codes_append: "codes c d \<Longrightarrow> codes c' d' \<Longrightarrow> codes (c @ c') (d @ d')"
proof (induction rule: codes.induct)
  case (codes_seg s c d)
  then show ?case using codes.codes_seg [of s "c @ c'" "d @ d'"] by simp
next
  case (codes_run k r c d)
  then show ?case using codes.codes_run [of k r "c @ c'" "d @ d'"] by simp
qed simp

lemma codes_snoc_seg: "codes c d \<Longrightarrow> length s = 8 \<Longrightarrow> length (nonzero s) < 8 \<Longrightarrow> codes (c @ seg_header 0 s # nonzero s) (d @ s)"
  using codes_append [of c d "(seg_header 0 s # nonzero s) @ []" "s @ []"] codes_seg [of s "[]" "[]"] codes_nil by simp

lemma codes_snoc_run: "codes c d \<Longrightarrow> 0 < k \<Longrightarrow> k \<le> 256 \<Longrightarrow> length r = 8 * k \<Longrightarrow> codes (c @ [0xff, of_nat (k - 1)] @ r) (d @ r)"
  using codes_append [of c d "([0xff, of_nat (k - 1)] @ r) @ []" "r @ []"] codes_run [of k r "[]" "[]"] codes_nil by simp

lemma bit_seg_header: "j < 8 \<Longrightarrow> bit (seg_header i bs) j \<longleftrightarrow> i \<le> j \<and> j < i + length bs \<and> bs ! (j - i) \<noteq> 0"
proof (induction i bs rule: seg_header.induct)
  case (2 i b bs)
  have "bit (push_bit i 1 :: byte) j \<longleftrightarrow> j = i" using 2(2) by (auto simp: bit_simps)
  then show ?case using 2 by (cases "i = j") (auto simp: bit_simps nth_Cons' Suc_diff_le not_less_eq_eq le_Suc_eq)
qed simp

lemma seg_header_not_ff:
  assumes "length s = 8" "length (nonzero s) < 8"
  shows "seg_header 0 s \<noteq> 0xff"
proof
  assume h: "seg_header 0 s = 0xff"
  have "bit (0xff :: byte) j" if "j < 8" for j
  proof -
    have "(mask 8 :: byte) = 0xff" by (simp add: mask_eq_exp_minus_1)
    moreover have "bit (mask 8 :: byte) j" using that by (simp add: bit_mask_iff)
    ultimately show ?thesis by (simp only:)
  qed
  then have "\<forall>j<8. s ! j \<noteq> 0" using bit_seg_header [of _ 0 s] h assms(1) by simp
  then have "\<forall>b\<in>set s. b \<noteq> 0" using assms(1) by (metis in_set_conv_nth)
  then have "nonzero s = s" by (simp add: filter_id_conv)
  then show False using assms by simp
qed

section \<open>Unpacking reads the format\<close>

definition room :: "unpack_state \<Rightarrow> bool" where
  "room st \<longleftrightarrow> (0 \<le> up_bufsz st \<longrightarrow> int (up_pos st) + up_bufsz st = int (length (up_buf st)))"

definition wrote :: "byte list \<Rightarrow> unpack_state \<Rightarrow> unpack_state \<Rightarrow> bool" where
  "wrote bs st st' \<longleftrightarrow> room st' \<and> up_size st' = up_size st + length bs
     \<and> (int (length bs) \<le> up_bufsz st \<longrightarrow> up_bufsz st' = up_bufsz st - int (length bs) \<and> up_pos st' = up_pos st + length bs
          \<and> up_buf st' = take (up_pos st) (up_buf st) @ bs @ drop (up_pos st + length bs) (up_buf st))"

lemma wrote_trans:
  assumes "room st" "wrote a st st1" "wrote b st1 st2"
  shows "wrote (a @ b) st st2"
proof -
  have "up_buf st2 = take (up_pos st) (up_buf st) @ (a @ b) @ drop (up_pos st + length (a @ b)) (up_buf st)" if h: "int (length (a @ b)) \<le> up_bufsz st"
  proof -
    have 1: "up_buf st1 = take (up_pos st) (up_buf st) @ a @ drop (up_pos st + length a) (up_buf st)" "up_pos st1 = up_pos st + length a"
      "int (length b) \<le> up_bufsz st1" using assms(2) h by (auto simp: wrote_def)
    have 2: "up_buf st2 = take (up_pos st1) (up_buf st1) @ b @ drop (up_pos st1 + length b) (up_buf st1)" using assms(3) 1(3) by (simp add: wrote_def)
    have "up_pos st \<le> length (up_buf st)" using assms(1) h by (auto simp: room_def)
    then show ?thesis unfolding 2 1 by (simp add: add.commute add.left_commute)
  qed
  then show ?thesis using assms by (auto simp: wrote_def)
qed

lemma wrote_byte:
  assumes "room st"
  obtains st1 where "unpack_byte b st = Inr st1" "wrote [b] st (st1\<lparr>up_src := r, up_size := up_size st1 + 1\<rparr>)"
    "up_src st1 = up_src st" "up_size st1 = up_size st"
proof (cases "up_bufsz st > 0")
  case True
  then have "up_pos st + 1 \<le> length (up_buf st)" using assms by (auto simp: room_def)
  then show ?thesis
    using that [of "st\<lparr>up_buf := take (up_pos st) (up_buf st) @ [b] @ drop (up_pos st + 1) (up_buf st), up_bufsz := up_bufsz st - 1, up_pos := up_pos st + 1\<rparr>"] True assms
    by (simp add: unpack_byte_def put_bytes_def wrote_def room_def)
next
  case False
  then show ?thesis using that [of st] assms by (simp add: unpack_byte_def wrote_def room_def)
qed

lemma bits_loop_wrote:
  assumes "length s = 8" "i \<le> 8" "room st" "up_src st = nonzero (drop i s) @ c"
  shows "\<exists>st'. bits_loop (seg_header 0 s) [i..<8] st = Inr st' \<and> wrote (drop i s) st st' \<and> up_src st' = c"
  using assms
proof (induction "8 - i" arbitrary: i st)
  case 0
  then show ?case by (auto simp: wrote_def)
next
  case (Suc n)
  then have i: "i < 8" by simp
  have d: "drop i s = s ! i # drop (Suc i) s" using i Suc.prems(1) by (simp add: Cons_nth_drop_Suc)
  let ?r = "nonzero (drop (Suc i) s) @ c"
  obtain st1 where b: "unpack_byte (s ! i) st = Inr st1" "wrote [s ! i] st (st1\<lparr>up_src := ?r, up_size := up_size st1 + 1\<rparr>)" "up_src st1 = up_src st" "up_size st1 = up_size st"
    by (rule wrote_byte [OF Suc.prems(3)])
  let ?st1 = "st1\<lparr>up_src := ?r, up_size := up_size st1 + 1\<rparr>"
  obtain st' where r: "bits_loop (seg_header 0 s) [Suc i..<8] ?st1 = Inr st'" "wrote (drop (Suc i) s) ?st1 st'" "up_src st' = c"
  proof -
    have "n = 8 - Suc i" "up_src ?st1 = ?r" using Suc.hyps(2) by simp_all
    moreover have "room ?st1" using b(2) unfolding wrote_def by blast
    ultimately show ?thesis using Suc.hyps(1) [of "Suc i" ?st1] Suc.prems(1) i that by (meson Suc_leI)
  qed
  have "wrote (drop i s) st st'" unfolding d using wrote_trans [OF Suc.prems(3) b(2) r(2)] by simp
  moreover have "bits_loop (seg_header 0 s) [i..<8] st = Inr st'"
  proof (cases "s ! i = 0")
    case True
    then have "st1\<lparr>up_size := up_size st1 + 1\<rparr> = ?st1" using b(3) Suc.prems(4) d by simp
    then show ?thesis using True r(1) b(1) bit_seg_header [OF i, of 0 s] i by (simp add: upt_conv_Cons)
  next
    case False
    then have "up_src st = s ! i # ?r" using Suc.prems(4) d by simp
    then show ?thesis using False r(1) b(1) bit_seg_header [OF i, of 0 s] i Suc.prems(1) by (simp add: upt_conv_Cons)
  qed
  ultimately show ?case using r(3) by blast
qed

lemma unpack_loop_codes: "codes c d \<Longrightarrow> room st \<Longrightarrow> up_src st = c \<Longrightarrow> \<exists>st'. zero_unpack_loop st = Inr (Some st') \<and> wrote d st st'"
proof (induction arbitrary: st rule: codes.induct)
  case codes_nil
  then show ?case by (subst zero_unpack_loop.simps) (auto simp: wrote_def)
next
  case (codes_seg s c d)
  let ?st = "st\<lparr>up_src := nonzero s @ c\<rparr>"
  obtain st1 where b: "bits_loop (seg_header 0 s) [0..<8] ?st = Inr st1" "wrote (drop 0 s) ?st st1" "up_src st1 = c"
    using bits_loop_wrote [OF codes_seg.hyps(1), of 0 ?st c] codes_seg.prems(1) by (auto simp: room_def)
  obtain st2 where l: "zero_unpack_loop st1 = Inr (Some st2)" "wrote d st1 st2" using codes_seg.IH [of st1] b(2,3) by (auto simp: wrote_def)
  have "zero_unpack_loop st = Inr (Some st2)"
    using b(1) l(1) codes_seg.prems(2) seg_header_not_ff [OF codes_seg.hyps(1,2)] by (subst zero_unpack_loop.simps) simp
  moreover have "wrote s st st1" using b(2) by (simp add: wrote_def)
  ultimately show ?case using wrote_trans [OF codes_seg.prems(1) _ l(2)] by blast
next
  case (codes_run k r c d)
  define kb :: byte where "kb = of_nat (k - 1)"
  have n: "(unat kb + 1) * 8 = 8 * k"
  proof -
    have "unat (of_nat (k - 1) :: byte) = k - 1" using codes_run.hyps(2) by (simp add: unsigned_of_nat take_bit_nat_eq_self del: of_nat_diff)
    then show ?thesis unfolding kb_def using codes_run.hyps(1) by simp
  qed
  have src: "up_src st = 0xff # kb # r @ c" using codes_run.prems(2) by (simp add: kb_def)
  let ?buf = "if int (8 * k) \<le> up_bufsz st then take (up_pos st) (up_buf st) @ r @ drop (up_pos st + 8 * k) (up_buf st) else up_buf st"
  let ?st = "st\<lparr>up_src := c, up_bufsz := up_bufsz st - int (8 * k), up_pos := up_pos st + 8 * k, up_buf := ?buf, up_size := up_size st + 8 * k\<rparr>"
  have fits: "up_pos st + 8 * k \<le> length (up_buf st)" if "int (8 * k) \<le> up_bufsz st" using that codes_run.prems(1) by (auto simp: room_def)
  have put: "(if int (8 * k) \<le> up_bufsz st then put_bytes (up_buf st) (up_pos st) r else Inr (up_buf st)) = Inr ?buf"
    using fits codes_run.hyps(3) by (simp add: put_bytes_def)
  have w: "wrote r st ?st" using codes_run.hyps(3) codes_run.prems(1) fits by (auto simp: wrote_def room_def)
  obtain st2 where l: "zero_unpack_loop ?st = Inr (Some st2)" "wrote d ?st st2" using codes_run.IH [of ?st] w by (auto simp: wrote_def)
  have "zero_unpack_loop st = Inr (Some st2)"
    unfolding zero_unpack_loop.simps [of st] src list.case Let_def n using l(1) codes_run.hyps(3) put by (cases "int (8 * k) \<le> up_bufsz st") simp_all
  then show ?case using wrote_trans [OF codes_run.prems(1) w l(2)] by blast
qed

lemma sproto_unpack_codes:
  assumes "codes c d"
  obtains buf' where "sproto_unpack c buf = Inr (Some (length d, buf'))" "length d \<le> length buf \<Longrightarrow> buf' = d @ drop (length d) buf"
proof -
  let ?st = "\<lparr>up_src = c, up_bufsz = int (length buf), up_pos = 0, up_buf = buf, up_size = 0\<rparr>"
  obtain st' where "zero_unpack_loop ?st = Inr (Some st')" "wrote d ?st st'" using unpack_loop_codes [OF assms, of ?st] by (auto simp: room_def)
  then show ?thesis using that [of "up_buf st'"] by (simp add: sproto_unpack_def wrote_def)
qed

section \<open>Packing writes the format\<close>

text \<open>The bytes of the buffer up to where the loop is do not change any more; behind it there is what fits.\<close>

lemma seg_loop_result:
  assumes "0 < sz \<Longrightarrow> int pos + sz = int (length buf)"
  shows "\<exists>buf'. seg_loop bs i notzero header pos sz buf = Inr (notzero + length (nonzero bs), header OR seg_header i bs, buf')
    \<and> length buf' = length buf \<and> take pos buf' = take pos buf
    \<and> (int (length (nonzero bs)) \<le> sz \<longrightarrow> take (pos + length (nonzero bs)) buf' = take pos buf @ nonzero bs)"
  using assms
proof (induction bs i notzero header pos sz buf rule: seg_loop.induct)
  case (1 i notzero header pos sz buf)
  then show ?case by simp
next
  case (2 b bs i notzero header pos sz buf)
  show ?case
  proof (cases "b = 0")
    case True
    then show ?thesis using 2(3) [OF _ 2(4)] by simp
  next
    case nz: False
    show ?thesis
    proof (cases "sz > 0")
      case True
      let ?buf = "take pos buf @ [b] @ drop (pos + 1) buf"
      have len: "pos + 1 \<le> length buf" "length ?buf = length buf" using 2(4) [OF True] True by auto
      then have put: "put_bytes buf pos [b] = Inr ?buf" by (simp add: put_bytes_def)
      have pre: "0 < sz - 1 \<Longrightarrow> int (Suc pos) + (sz - 1) = int (length ?buf)" using 2(4) [OF True] len by simp
      obtain buf' where r: "seg_loop bs (Suc i) (Suc notzero) (header OR push_bit i 1) (Suc pos) (sz - 1) ?buf =
          Inr (Suc notzero + length (nonzero bs), (header OR push_bit i 1) OR seg_header (Suc i) bs, buf')" "length buf' = length ?buf"
        "take (Suc pos) buf' = take (Suc pos) ?buf" "int (length (nonzero bs)) \<le> sz - 1 \<longrightarrow> take (Suc pos + length (nonzero bs)) buf' = take (Suc pos) ?buf @ nonzero bs"
        using 2(1) [OF nz True put pre] by blast
      have "take (Suc pos) ?buf = take pos buf @ [b]" using len by simp
      moreover have "take pos (take (Suc pos) buf') = take pos (take (Suc pos) ?buf)" using r(3) by simp
      then have "take pos buf' = take pos buf" using len by simp
      ultimately show ?thesis using nz True put r len by (simp add: or.assoc)
    next
      case False
      then show ?thesis using nz 2(2) [OF nz False] 2(4) by (auto simp: or.assoc)
    qed
  qed
qed

definition dense :: "nat \<Rightarrow> nat \<Rightarrow> bool" where
  "dense m n \<longleftrightarrow> m = 8 \<or> ((m = 7 \<or> m = 6) \<and> n > 0)"

definition seg_size :: "nat \<Rightarrow> nat \<Rightarrow> nat" where
  "seg_size m n = (if dense m n then (if n > 0 then 8 else 10) else m + 1)"

lemma pack_seg_result:
  assumes "int pos + sz = int (length buf)" "length src = 8"
  defines "m \<equiv> length (nonzero src)"
  shows "\<exists>buf'. pack_seg src buf pos sz n = Inr (seg_size m n, buf') \<and> length buf' = length buf \<and> take pos buf' = take pos buf
    \<and> (\<not> dense m n \<longrightarrow> int (m + 1) \<le> sz \<longrightarrow> take (m + 1) (drop pos buf') = seg_header 0 src # nonzero src)"
proof -
  obtain buf1 where l: "seg_loop src 0 0 0 (pos + 1) (sz - 1) buf = Inr (m, seg_header 0 src, buf1)" "length buf1 = length buf"
    "take (pos + 1) buf1 = take (pos + 1) buf" "int m \<le> sz - 1 \<longrightarrow> take (pos + 1 + m) buf1 = take (pos + 1) buf @ nonzero src"
    using seg_loop_result [of "sz - 1" "pos + 1" buf src 0 0 0] assms(1) by (auto simp: m_def)
  have pos: "take pos buf1 = take pos buf" using arg_cong [OF l(3), of "take pos"] by simp
  show ?thesis
  proof (cases "dense m n")
    case True
    then have "pack_seg src buf pos sz n = Inr (seg_size m n, buf1)" using l(1) by (auto simp: pack_seg_def dense_def seg_size_def Let_def)
    then show ?thesis using True l(2) pos by blast
  next
    case False
    let ?buf = "if sz < 1 then buf1 else take pos buf1 @ [seg_header 0 src] @ drop (pos + 1) buf1"
    have m8: "(if (m = 7 \<or> m = 6) \<and> n > 0 then 8 else m) = m" "m \<noteq> 8" using False by (auto simp: dense_def)
    have "pos + 1 \<le> length buf1" if "\<not> sz < 1" using that assms(1) l(2) by simp
    then have r: "pack_seg src buf pos sz n = Inr (seg_size m n, ?buf)" "length ?buf = length buf" "take pos ?buf = take pos buf"
      using l(1,2) m8 False pos by (cases "sz < 1"; simp add: pack_seg_def seg_size_def Let_def put_bytes_def)+
    have "take (m + 1) (drop pos ?buf) = seg_header 0 src # nonzero src" if h: "int (m + 1) \<le> sz"
    proof -
      have len: "pos + 1 + m \<le> length buf1" using h assms(1) l(2) by simp
      have "drop (pos + 1) (take (pos + 1 + m) buf1) = nonzero src" using l(4) h len l(2) by simp
      then have "take m (drop (pos + 1) buf1) = nonzero src" by (simp add: drop_take)
      then show ?thesis using h len by simp
    qed
    then show ?thesis using r by blast
  qed
qed

text \<open>The source in segments, the last one filled up.\<close>

definition padded :: "byte list \<Rightarrow> nat \<Rightarrow> byte list" where
  "padded src k = take (8 * k) src @ replicate (8 * k - length src) 0"

lemma padded_Suc: "8 * k \<le> length src \<Longrightarrow> padded src (Suc k) = padded src k @ segment src (8 * k)"
proof -
  assume "8 * k \<le> length src"
  moreover have "take (8 * Suc k) src = take (8 * k) src @ take 8 (drop (8 * k) src)" by (simp add: take_add [symmetric] add.commute)
  ultimately show ?thesis by (simp add: padded_def segment_def)
qed

lemma length_segment: "i < length src \<Longrightarrow> length (segment src i) = 8"
  by (auto simp: segment_def)

lemma full_segment: "length (nonzero (segment src i)) = 8 \<Longrightarrow> i < length src \<Longrightarrow> i + 8 \<le> length src"
proof (rule ccontr)
  assume h: "length (nonzero (segment src i)) = 8" "i < length src" "\<not> i + 8 \<le> length src"
  have "length (nonzero (segment src i)) = length (nonzero (take 8 (drop i src)))" by (simp add: segment_def)
  also have "\<dots> \<le> length (take 8 (drop i src))" by (rule length_filter_le)
  also have "\<dots> < 8" using h(2,3) by simp
  finally show False using h(1) by simp
qed

lemma take_put: "pos \<le> length buf \<Longrightarrow> take (pos + length bs) (take pos buf @ bs @ ys) = take pos buf @ bs"
  by simp

text \<open>A run of \<open>f\<close> segments that ends before the segment \<open>k\<close> is written.\<close>

lemma write_ff_run:
  assumes c: "codes (take des buf) (padded src (k - f))" and f: "0 < f" "f \<le> 256" "f \<le> k" and room: "des + 2 + 8 * f \<le> length buf"
    and n: "n \<le> 8 * f" "8 * f < n + 8" "8 * (k - f) + n \<le> length src" "n = 8 * f \<or> 8 * (k - f) + n = length src"
  obtains buf1 where "write_ff src (8 * (k - f)) buf des n = Inr buf1" "length buf1 = length buf"
    "codes (take (des + 2 + 8 * f) buf1) (padded src k)" "drop (des + 2 + 8 * f) buf1 = drop (des + 2 + 8 * f) buf"
proof -
  let ?off = "8 * (k - f)"
  let ?r = "take n (drop ?off src) @ replicate (8 * f - n) 0"
  let ?buf = "take des buf @ ([0xff, of_nat (f - 1)] @ ?r) @ drop (des + 2 + 8 * f) buf"
  have a: "(n + 7) div 8 = f" using n(1,2) by auto
  have lr: "length ?r = 8 * f" using n by simp
  have w: "write_ff src ?off buf des n = Inr ?buf"
    using n(3) room lr a f(1) by (simp add: write_ff_def get_bytes_def put_bytes_def Let_def mult.commute)
  have run: "take (des + 2 + 8 * f) ?buf = take des buf @ [0xff, of_nat (f - 1)] @ ?r"
    using take_put [of des buf "[0xff, of_nat (f - 1)] @ ?r" "drop (des + 2 + 8 * f) buf"] room lr by simp
  have k: "8 * k = ?off + 8 * f" using f(3) by (simp add: diff_mult_distrib2)
  have "padded src (k - f) @ ?r = padded src k"
  proof (cases "n = 8 * f")
    case True
    then show ?thesis using n(3) k by (simp add: padded_def take_add)
  next
    case False
    then have e: "?off + n = length src" using n(4) by simp
    then have "8 * k - length src = 8 * f - n" "length src \<le> 8 * k" "n = length (drop ?off src)" "length src \<ge> ?off" using n(1) k by simp_all
    then show ?thesis by (simp add: padded_def flip: append_assoc)
  qed
  then have "codes (take (des + 2 + 8 * f) ?buf) (padded src k)"
    unfolding run using codes_snoc_run [OF c f(1,2) lr] by simp
  moreover have "drop (des + 2 + 8 * f) ?buf = drop (des + 2 + 8 * f) buf" "length ?buf = length buf" using room lr by simp_all
  ultimately show ?thesis using that w by blast
qed

text \<open>The length of the pending run and the position do not depend on the buffer.\<close>

primrec pack_pos :: "nat \<Rightarrow> byte list \<Rightarrow> nat \<times> nat" where
  "pack_pos 0 src = (0, 0)"
| "pack_pos (Suc k) src =
     (case pack_pos k src of (f, pos) \<Rightarrow>
        let m = length (nonzero (segment src (8 * k)))
        in (if dense m f then (f + 1) mod 256 else 0, pos + seg_size m f))"

definition pack_inv :: "byte list \<Rightarrow> byte list \<Rightarrow> nat \<Rightarrow> pack_state \<Rightarrow> bool" where
  "pack_inv src buf k st \<longleftrightarrow>
     length (pk_buf st) = length buf \<and> int (pk_pos st) + pk_bufsz st = int (length buf) \<and> pk_size st = pk_pos st \<and> (pk_ff_n st, pk_pos st) = pack_pos k src
     \<and> (if pk_ff_n st = 0 then 0 \<le> pk_bufsz st \<longrightarrow> codes (take (pk_pos st) (pk_buf st)) (padded src k)
        else pk_ff_n st < 256 \<and> pk_ff_n st \<le> k \<and> pk_ff_src st = 8 * (k - pk_ff_n st) \<and> pk_pos st = pk_ff_des st + 2 + 8 * pk_ff_n st
          \<and> (pk_ff_n st = 1 \<longrightarrow> 8 * k \<le> length src)
          \<and> (0 \<le> pk_bufsz st \<longrightarrow> codes (take (pk_ff_des st) (pk_buf st)) (padded src (k - pk_ff_n st))))"

lemma take_shorter: "take n xs = take n ys \<Longrightarrow> m \<le> n \<Longrightarrow> take m xs = take m ys"
  by (metis min.absorb1 take_take)

text \<open>A dense segment starts a run or continues it; the 256th ends it.\<close>

lemma pack_step_dense:
  assumes inv: "pack_inv src buf k st" and k: "8 * k < length src" and big: "dense (length (nonzero (segment src (8 * k)))) (pk_ff_n st)"
    and run: "8 * Suc k \<le> length src \<or> Suc k < 256"
  shows "\<exists>st'. pack_step src (8 * k) st = Inr st' \<and> pack_inv src buf (Suc k) st'"
proof -
  let ?s = "segment src (8 * k)" and ?f = "pk_ff_n st" and ?pos = "pk_pos st"
  let ?m = "length (nonzero ?s)"
  have sp: "int ?pos + pk_bufsz st = int (length (pk_buf st))" "length (pk_buf st) = length buf" "pk_size st = ?pos" "pack_pos k src = (?f, ?pos)"
    using inv by (simp_all add: pack_inv_def)
  obtain b where b: "pack_seg ?s (pk_buf st) ?pos (pk_bufsz st) ?f = Inr (seg_size ?m ?f, b)" "length b = length (pk_buf st)" "take ?pos b = take ?pos (pk_buf st)"
    using pack_seg_result [OF sp(1) length_segment [OF k], of ?f] by blast
  note t = take_shorter [OF b(3)]
  show ?thesis
  proof (cases "?f = 0")
    case True
    then have "?m = 8" using big by (simp add: dense_def)
    then have "8 * Suc k \<le> length src" using full_segment [of src "8 * k"] k by simp
    then show ?thesis using True inv b sp big by (auto simp: pack_step_def pack_inv_def seg_size_def Let_def)
  next
    case f: False
    then have i: "?f < 256" "?f \<le> k" "pk_ff_src st = 8 * (k - ?f)" "?pos = pk_ff_des st + 2 + 8 * ?f"
      "0 \<le> pk_bufsz st \<Longrightarrow> codes (take (pk_ff_des st) (pk_buf st)) (padded src (k - ?f))" using inv by (auto simp: pack_inv_def)
    have des: "take (pk_ff_des st) b = take (pk_ff_des st) (pk_buf st)" using i(4) by (intro t) simp
    show ?thesis
    proof (cases "?f + 1 = 256")
      case False
      then show ?thesis using f i b sp big des by (auto simp: pack_step_def pack_inv_def seg_size_def Let_def)
    next
      case last: True
      have k8: "8 * Suc k \<le> length src" using run last i(2) by auto
      show ?thesis
      proof (cases "0 \<le> pk_bufsz st - 8")
        case True
        have e: "k - ?f = Suc k - 256" using last by simp
        obtain b1 where w: "write_ff src (8 * (Suc k - 256)) b (pk_ff_des st) (8 * 256) = Inr b1" "length b1 = length b"
          "codes (take (pk_ff_des st + 2 + 8 * 256) b1) (padded src (Suc k))"
          by (rule write_ff_run [of "pk_ff_des st" b src "Suc k" 256 "8 * 256"]) (use i True des b(2) sp last k8 e in auto)
        then show ?thesis using True f i b(1,2) sp big last e
          by (auto simp: pack_step_def pack_inv_def seg_size_def Let_def)
      next
        case False
        then show ?thesis using f i b(1,2) sp big last by (auto simp: pack_step_def pack_inv_def seg_size_def Let_def)
      qed
    qed
  qed
qed

text \<open>Another one ends the run and is written behind it.\<close>

lemma pack_step_sparse:
  assumes inv: "pack_inv src buf k st" and k: "8 * k < length src" and sparse: "\<not> dense (length (nonzero (segment src (8 * k)))) (pk_ff_n st)"
  shows "\<exists>st'. pack_step src (8 * k) st = Inr st' \<and> pack_inv src buf (Suc k) st'"
proof -
  let ?s = "segment src (8 * k)" and ?f = "pk_ff_n st" and ?pos = "pk_pos st"
  let ?m = "length (nonzero ?s)"
  have sp: "int ?pos + pk_bufsz st = int (length (pk_buf st))" "length (pk_buf st) = length buf" "pk_size st = ?pos" "pack_pos k src = (?f, ?pos)"
    using inv by (simp_all add: pack_inv_def)
  have ls: "length ?s = 8" by (rule length_segment [OF k])
  have m: "?m < 8" using sparse length_filter_le [of "\<lambda>b. b \<noteq> 0" ?s] ls by (auto simp: dense_def)
  obtain b where b: "pack_seg ?s (pk_buf st) ?pos (pk_bufsz st) ?f = Inr (seg_size ?m ?f, b)" "length b = length (pk_buf st)" "take ?pos b = take ?pos (pk_buf st)"
    "int (?m + 1) \<le> pk_bufsz st \<Longrightarrow> take (?m + 1) (drop ?pos b) = seg_header 0 ?s # nonzero ?s"
    using pack_seg_result [OF sp(1) ls, of ?f] sparse by blast
  have seg: "codes (take (?pos + (?m + 1)) b1) (padded src (Suc k))"
    if "codes (take ?pos b1) (padded src k)" "int (?m + 1) \<le> pk_bufsz st" "drop ?pos b1 = drop ?pos b" for b1
  proof -
    have "take (?pos + (?m + 1)) b1 = take ?pos b1 @ seg_header 0 ?s # nonzero ?s" unfolding take_add [of ?pos "?m + 1"] that(3) b(4) [OF that(2)] ..
    then show ?thesis using codes_snoc_seg [OF that(1) ls m] padded_Suc [of k src] k by simp
  qed
  have n: "seg_size ?m ?f = ?m + 1" "?m + 1 \<noteq> 10" "0 < ?f \<Longrightarrow> ?m + 1 \<noteq> 8" using sparse m by (auto simp: seg_size_def dense_def)
  show ?thesis
  proof (cases "?f = 0 \<or> pk_bufsz st - int (?m + 1) < 0")
    case True
    then show ?thesis using inv b(1,2,3) sp n sparse seg [of b] by (auto simp: pack_step_def pack_inv_def Let_def)
  next
    case False
    then have i: "?f < 256" "?f \<le> k" "pk_ff_src st = 8 * (k - ?f)" "?pos = pk_ff_des st + 2 + 8 * ?f"
      "codes (take (pk_ff_des st) (pk_buf st)) (padded src (k - ?f))" using inv by (auto simp: pack_inv_def)
    have des: "take (pk_ff_des st) b = take (pk_ff_des st) (pk_buf st)" using i(4) by (intro take_shorter [OF b(3)]) simp
    obtain b1 where w: "write_ff src (8 * (k - ?f)) b (pk_ff_des st) (8 * ?f) = Inr b1" "length b1 = length b"
      "codes (take (pk_ff_des st + 2 + 8 * ?f) b1) (padded src k)" "drop (pk_ff_des st + 2 + 8 * ?f) b1 = drop (pk_ff_des st + 2 + 8 * ?f) b"
      by (rule write_ff_run [of "pk_ff_des st" b src k ?f "8 * ?f"]) (use i False des b(2) sp k in auto)
    have "codes (take (?pos + (?m + 1)) b1) (padded src (Suc k))" using w(3,4) i(4) False by (intro seg) simp_all
    then show ?thesis using False w(1,2) i b(1,2) sp n sparse
      by (auto simp: pack_step_def pack_inv_def Let_def mult.commute)
  qed
qed

text \<open>The segments of the source, and what the last test of the code misses: that the last segment is not the 256th of a run when it is not whole.\<close>

abbreviation segments :: "byte list \<Rightarrow> nat" where
  "segments src \<equiv> (length src + 7) div 8"

definition zero_packable :: "byte list \<Rightarrow> bool" where
  "zero_packable src \<longleftrightarrow> 8 dvd length src \<or> length src < 2041"

lemma pack_steps_inv:
  "(\<And>j. j < k \<Longrightarrow> 8 * j < length src \<and> (8 * Suc j \<le> length src \<or> Suc j < 256)) \<Longrightarrow> \<exists>st. pack_steps k src buf = Inr st \<and> pack_inv src buf k st"
proof (induction k)
  case 0
  then show ?case by (simp add: pack_inv_def padded_def codes_nil)
next
  case (Suc k)
  then obtain st where st: "pack_steps k src buf = Inr st" "pack_inv src buf k st" by auto
  have k: "8 * k < length src" "8 * Suc k \<le> length src \<or> Suc k < 256" using Suc.prems [of k] by simp_all
  then have "\<exists>st'. pack_step src (8 * k) st = Inr st' \<and> pack_inv src buf (Suc k) st'"
    using pack_step_dense [OF st(2) k(1)] pack_step_sparse [OF st(2) k(1)] by blast
  then show ?case using st(1) by simp
qed

lemma zero_packable_steps:
  assumes "zero_packable src" "j < segments src"
  shows "8 * j < length src \<and> (8 * Suc j \<le> length src \<or> Suc j < 256)"
proof -
  have "8 * j < length src" using assms(2) by simp
  then show ?thesis using assms(1) by (auto simp: zero_packable_def elim!: dvdE)
qed

lemma last_run:
  fixes l k f :: nat
  assumes "l \<le> 8 * k" "8 * k < l + 8" "f \<le> k" "0 < f" "f = 1 \<longrightarrow> 8 * k \<le> l"
  shows "(if f = 1 then 8 else l - 8 * (k - f)) \<le> 8 * f" "8 * f < (if f = 1 then 8 else l - 8 * (k - f)) + 8"
    "8 * (k - f) + (if f = 1 then 8 else l - 8 * (k - f)) \<le> l"
    "(if f = 1 then 8 else l - 8 * (k - f)) = 8 * f \<or> 8 * (k - f) + (if f = 1 then 8 else l - 8 * (k - f)) = l"
proof -
  obtain d where k: "k = d + f" using assms(3) by (metis le_add_diff_inverse2)
  show "(if f = 1 then 8 else l - 8 * (k - f)) \<le> 8 * f" "8 * f < (if f = 1 then 8 else l - 8 * (k - f)) + 8"
    "8 * (k - f) + (if f = 1 then 8 else l - 8 * (k - f)) \<le> l"
    "(if f = 1 then 8 else l - 8 * (k - f)) = 8 * f \<or> 8 * (k - f) + (if f = 1 then 8 else l - 8 * (k - f)) = l"
    using assms unfolding k by auto
qed

lemma sproto_pack_codes:
  assumes "zero_packable src"
  shows "\<exists>buf'. sproto_pack src buf = Inr (snd (pack_pos (segments src) src), buf') \<and> length buf' = length buf
    \<and> (snd (pack_pos (segments src) src) \<le> length buf \<longrightarrow> codes (take (snd (pack_pos (segments src) src)) buf') (padded src (segments src)))"
proof -
  let ?k = "segments src"
  obtain st where st: "pack_steps ?k src buf = Inr st" "pack_inv src buf ?k st" using pack_steps_inv [of ?k src buf] zero_packable_steps [OF assms] by blast
  let ?f = "pk_ff_n st"
  have sp: "int (pk_pos st) + pk_bufsz st = int (length buf)" "length (pk_buf st) = length buf" "pk_size st = pk_pos st" "snd (pack_pos ?k src) = pk_pos st"
    using st(2) by (auto simp: pack_inv_def dest: sym)
  show ?thesis
  proof (cases "?f = 0 \<or> pk_bufsz st < 0")
    case True
    then have "sproto_pack src buf = Inr (pk_pos st, pk_buf st)" using st(1) sp(3) by (auto simp: sproto_pack_def)
    then show ?thesis using True st(2) sp by (auto simp: pack_inv_def)
  next
    case False
    then have i: "?f < 256" "?f \<le> ?k" "pk_ff_src st = 8 * (?k - ?f)" "pk_pos st = pk_ff_des st + 2 + 8 * ?f" "?f = 1 \<longrightarrow> 8 * ?k \<le> length src"
      "codes (take (pk_ff_des st) (pk_buf st)) (padded src (?k - ?f))" "0 < ?f" using st(2) by (auto simp: pack_inv_def)
    have k: "length src \<le> 8 * ?k" "8 * ?k < length src + 8" by linarith+
    let ?n = "if ?f = 1 then 8 else length src - 8 * (?k - ?f)"
    have n: "?n \<le> 8 * ?f" "8 * ?f < ?n + 8" "8 * (?k - ?f) + ?n \<le> length src" "?n = 8 * ?f \<or> 8 * (?k - ?f) + ?n = length src"
      using last_run [OF k i(2,7,5)] by simp_all
    have room: "pk_ff_des st + 2 + 8 * ?f \<le> length (pk_buf st)" using i(4) sp False by simp
    obtain b where w: "write_ff src (8 * (?k - ?f)) (pk_buf st) (pk_ff_des st) ?n = Inr b" "length b = length (pk_buf st)"
      "codes (take (pk_ff_des st + 2 + 8 * ?f) b) (padded src ?k)"
      using write_ff_run [OF i(6,7) less_imp_le [OF i(1)] i(2) room n] by blast
    have "sproto_pack src buf = Inr (pk_pos st, b)" using st(1) sp(3) False w(1) i(3,7) by (auto simp: sproto_pack_def)
    then show ?thesis using w(2,3) sp i(4) by auto
  qed
qed

section \<open>Space\<close>

text \<open>
  The bound of \<^verbatim>\<open>lpack\<close>: a run takes two bytes more than its segments, and a run that ends before its 256th segment is followed by
  one that saves them.
\<close>

lemma pack_pos_less: "fst (pack_pos k src) < 256"
  by (induction k) (auto simp: Let_def split: prod.splits)

lemma pack_pos_bound:
  "8 * k \<le> length src \<Longrightarrow> \<exists>r. 256 * r + fst (pack_pos k src) \<le> k \<and> snd (pack_pos k src) + (if fst (pack_pos k src) = 0 then 2 else 0) \<le> 8 * k + 2 * r + 2"
proof (induction k)
  case 0
  show ?case by (rule exI [of _ 0]) simp
next
  case (Suc k)
  obtain f pos where p: "pack_pos k src = (f, pos)" by (cases "pack_pos k src")
  obtain r where r: "256 * r + f \<le> k" "pos + (if f = 0 then 2 else 0) \<le> 8 * k + 2 * r + 2" using Suc p by auto
  let ?m = "length (nonzero (segment src (8 * k)))"
  have len: "length (segment src (8 * k)) = 8" using Suc.prems by (intro length_segment) simp
  have m: "?m \<le> 8" using length_filter_le [of "\<lambda>b. b \<noteq> 0" "segment src (8 * k)"] unfolding len .
  show ?case
  proof (cases "dense ?m f")
    case True
    show ?thesis
    proof (cases "f + 1 = 256")
      case last: True
      then show ?thesis using p r True by (intro exI [of _ "Suc r"]) (simp add: seg_size_def Let_def)
    next
      case False
      have "f < 256" using pack_pos_less [of k src] p by simp
      then have "(f + 1) mod 256 = f + 1" using False by simp
      then show ?thesis using p r True by (intro exI [of _ r]) (auto simp: seg_size_def Let_def)
    qed
  next
    case False
    then have "seg_size ?m f + (if f = 0 then 0 else 2) \<le> 8" using m by (auto simp: seg_size_def dense_def)
    then show ?thesis using p r False by (intro exI [of _ r]) (auto simp: Let_def split: if_splits)
  qed
qed

lemma pack_size_bound: "snd (pack_pos (segments src) src) \<le> max_packed (length src)"
proof (cases "8 dvd length src")
  case True
  then obtain k where k: "length src = 8 * k" by (elim dvdE)
  obtain r where r: "256 * r + fst (pack_pos k src) \<le> k" "snd (pack_pos k src) + (if fst (pack_pos k src) = 0 then 2 else 0) \<le> 8 * k + 2 * r + 2"
    using pack_pos_bound [of k src] k by auto
  have "r \<le> (8 * k + 2047) div 2048" using r(1) by linarith
  then have "2 * r \<le> (8 * k + 2047) div 2048 * 2" by simp
  then show ?thesis using r(2) k by (simp add: max_packed_def split: if_splits)
next
  case False
  define k where "k = length src div 8"
  have k: "8 * k < length src" "length src < 8 * k + 8" "segments src = Suc k"
    using False unfolding k_def by (auto simp: dvd_eq_mod_eq_0) presburger+
  obtain f pos where p: "pack_pos k src = (f, pos)" by (cases "pack_pos k src")
  obtain r where r: "256 * r + f \<le> k" "pos + (if f = 0 then 2 else 0) \<le> 8 * k + 2 * r + 2" using pack_pos_bound [of k src] k(1) p by auto
  let ?m = "length (nonzero (segment src (8 * k)))"
  have "?m = length (nonzero (drop (8 * k) src))" using k(2) by (simp add: segment_def)
  also have "\<dots> \<le> length src - 8 * k" using length_filter_le [of "\<lambda>b. b \<noteq> 0" "drop (8 * k) src"] by simp
  finally have m: "?m \<le> length src - 8 * k" .
  have c: "r + 1 \<le> (length src + 2047) div 2048" using r(1) k(1) by linarith
  have "seg_size ?m f \<le> length src - 8 * k + 2 + (if f = 0 then 2 else 0)"
  proof (cases "dense ?m f")
    case True
    then have "6 \<le> length src - 8 * k" using m by (auto simp: dense_def)
    moreover have "f = 0 \<Longrightarrow> False" using True m k(2) by (auto simp: dense_def)
    ultimately show ?thesis using True by (auto simp: seg_size_def)
  qed (use m in \<open>auto simp: seg_size_def\<close>)
  then have "pos + seg_size ?m f \<le> length src + 2 * r + 4" using r(2) k(1) by (auto split: if_splits)
  then have "pos + seg_size ?m f \<le> max_packed (length src)" using c by (simp add: max_packed_def)
  then show ?thesis using p k(3) by (simp add: Let_def)
qed

section \<open>Packing and unpacking\<close>

text \<open>
  C35: packing a string whose length is a multiple of 8 or at most 2040 and unpacking the result gives the string back, filled up
  with zeros to a multiple of 8 bytes, whatever the buffers of the two functions hold, as long as these buffers, when they grow, stay
  within the limit of 16M. The space that \<^verbatim>\<open>lpack\<close> computes in advance is enough. Longer strings that end in the middle
  of a segment are excluded: \<^verbatim>\<open>sproto_pack\<close> can read past their end (\<open>sproto_pack_overreads\<close>).
\<close>

theorem sproto_pack_roundtrip:
  assumes "zero_packable src" "osz < max_packed (length src) \<longrightarrow> expand_loop osz (max_packed (length src)) \<le> ENCODE_MAXSIZE"
    "osz' < 8 * segments src \<longrightarrow> expand_loop osz' (8 * segments src) \<le> ENCODE_MAXSIZE"
  shows "\<exists>c n n'. sproto_lpack mem osz src = Inr (c, n) \<and> length c \<le> max_packed (length src)
    \<and> sproto_lunpack mem' osz' c = Inr (src @ replicate (8 * segments src - length src) 0, n')"
proof -
  let ?k = "segments src" and ?max = "max_packed (length src)"
  let ?n = "snd (pack_pos ?k src)"
  obtain buf where p: "sproto_pack src (map mem [0..<?max]) = Inr (?n, buf)" "length buf = ?max" "codes (take ?n buf) (padded src ?k)"
    using sproto_pack_codes [OF assms(1), of "map mem [0..<?max]"] pack_size_bound [of src] by auto
  have "length src \<le> 8 * ?k" by linarith
  then have pad: "padded src ?k = src @ replicate (8 * ?k - length src) 0" "length (padded src ?k) = 8 * ?k" by (simp_all add: padded_def)
  let ?c = "take ?n buf"
  have u: "\<exists>out. sproto_unpack ?c b = Inr (Some (8 * ?k, out)) \<and> (8 * ?k \<le> length b \<longrightarrow> take (8 * ?k) out = padded src ?k)" for b
    using sproto_unpack_codes [OF p(3), of b] pad(2) by (metis append_eq_conv_conj)
  have "\<exists>n. sproto_lpack mem osz src = Inr (?c, n)"
    using p(1) pack_size_bound [of src] assms(2) by (auto simp: sproto_lpack_def expand_buffer_def Let_def)
  moreover have "length ?c \<le> ?max" using p(2) by simp
  moreover have "\<exists>n'. sproto_lunpack mem' osz' ?c = Inr (padded src ?k, n')"
  proof -
    obtain o1 where o1: "sproto_unpack ?c (map mem' [0..<osz']) = Inr (Some (8 * ?k, o1))" "8 * ?k \<le> osz' \<longrightarrow> take (8 * ?k) o1 = padded src ?k"
      using u [of "map mem' [0..<osz']"] by auto
    obtain o2 where o2: "sproto_unpack ?c (map mem' [0..<8 * ?k]) = Inr (Some (8 * ?k, o2))" "take (8 * ?k) o2 = padded src ?k"
      using u [of "map mem' [0..<8 * ?k]"] by auto
    show ?thesis using o1 o2 assms(3) by (cases "osz' < 8 * ?k") (auto simp: sproto_lunpack_def expand_buffer_def Let_def)
  qed
  ultimately show ?thesis using pad(1) by metis
qed

text \<open>
  A message without zeros that ends in the middle of the 256th segment is read past its end: a run of 256 segments is
  written with all their 2048 bytes.
\<close>

lemma sproto_pack_overreads:
  assumes "length src = 2046 \<or> length src = 2047" "0 \<notin> set src" "2050 \<le> length buf"
  shows "sproto_pack src buf = Inl Out_of_bounds"
proof -
  have nz: "nonzero xs = xs" if "set xs \<subseteq> set src" for xs using that assms(2) by (auto simp: filter_id_conv)
  have seg: "length (nonzero (segment src (8 * j))) = min 8 (length src - 8 * j)" for j
    using nz [of "take 8 (drop (8 * j) src)"] set_take_subset [of 8 "drop (8 * j) src"] set_drop_subset [of "8 * j" src] by (simp add: segment_def)
  have pos: "pack_pos k src = (if k = 0 then (0, 0) else (k, 2 + 8 * k))" if "k \<le> 255" for k
    using that
  proof (induction k)
    case (Suc k)
    then have "length (nonzero (segment src (8 * k))) = 8" using seg [of k] assms(1) by auto
    then show ?case using Suc by (auto simp: dense_def seg_size_def Let_def)
  qed simp
  obtain st where st: "pack_steps 255 src buf = Inr st" "pack_inv src buf 255 st" using pack_steps_inv [of 255 src buf] assms(1) by auto
  have i: "pk_ff_n st = 255" "pk_pos st = 2042" "pk_ff_src st = 0" "int 2042 + pk_bufsz st = int (length (pk_buf st))" "length (pk_buf st) = length buf"
    using st(2) pos [of 255] by (auto simp: pack_inv_def split: if_splits)
  have len: "length (segment src 2040) = 8" using assms(1) by (intro length_segment) auto
  have m: "length (nonzero (segment src 2040)) \<in> {6, 7}" using seg [of 255] assms(1) by auto
  obtain b where b: "pack_seg (segment src 2040) (pk_buf st) 2042 (pk_bufsz st) 255 = Inr (8, b)"
    using pack_seg_result [OF i(4) len, of 255] m by (auto simp: seg_size_def dense_def)
  have "pack_step src (8 * 255) st = Inl Out_of_bounds"
    using b i assms(1,3) by (auto simp: pack_step_def Let_def write_ff_def get_bytes_def)
  then have "pack_steps (Suc 255) src buf = Inl Out_of_bounds" using st(1) by (simp only: pack_steps.simps rbind_Inr)
  moreover have "segments src = Suc 255" using assms(1) by auto
  ultimately show ?thesis by (simp add: sproto_pack_def del: pack_steps.simps)
qed

section \<open>Witnesses\<close>

theorem sproto_pack_roundtrip_witness:
  "\<exists>c n n'. sproto_lpack (\<lambda>_. 7) ENCODE_BUFFERSIZE [8, 0, 0, 0, 3, 0, 2, 0, 25, 0, 0, 0, 170, 1, 0] = Inr (c, n) \<and> length c \<le> 19
    \<and> sproto_lunpack (\<lambda>_. 9) ENCODE_BUFFERSIZE c = Inr ([8, 0, 0, 0, 3, 0, 2, 0, 25, 0, 0, 0, 170, 1, 0, 0], n')"
  using sproto_pack_roundtrip [of "[8, 0, 0, 0, 3, 0, 2, 0, 25, 0, 0, 0, 170, 1, 0]" ENCODE_BUFFERSIZE ENCODE_BUFFERSIZE "\<lambda>_. 7" "\<lambda>_. 9"]
  by (simp add: zero_packable_def max_packed_def ENCODE_BUFFERSIZE_def)

end
