(* ===== verification/Seri.thy ===== *)
theory Seri
  imports Prelude
begin

text \<open>
  The serialisation of Lua values, \<^verbatim>\<open>lualib-src/lua-seri.c\<close>, which every message between Lua
  services goes through. Values are written into a chain of blocks of 128 bytes that is copied
  into one buffer at the end; they are read back from such a buffer. The machine is
  little-endian, as the code assumes when the two sides differ.
\<close>

section \<open>Lua values\<close>

text \<open>
  A Lua value as the code sees it through the Lua API. A number is a 64-bit integer or the bits
  of a double. A table carries what \<^verbatim>\<open>lua_rawlen\<close> returns for it and its pairs in the order of
  \<^verbatim>\<open>lua_next\<close>; the type variable is the type of that length, which is unknown (\<open>unit\<close>) for a table
  that has just been built. \<open>LProxy\<close> is a table with a \<^verbatim>\<open>__pairs\<close> metamethod, with the pairs its
  iterator yields, and \<open>LOther\<close> a value of a type with the given name that cannot be written.
  Tables are trees: a table that contains itself is not a value of this type.
\<close>

datatype 'n lua =
    LNil
  | LInt u64
  | LReal u64
  | LBool bool
  | LString "byte list"
  | LUserdata u64
  | LTable 'n "('n lua \<times> 'n lua) list"
  | LProxy "('n lua \<times> 'n lua) list"
  | LOther string

fun is_table :: "'n lua \<Rightarrow> bool" where
  "is_table (LTable n ps) = True"
| "is_table (LProxy ps) = True"
| "is_table v = False"

definition rawgeti :: "('n lua \<times> 'n lua) list \<Rightarrow> int \<Rightarrow> 'n lua" where
  "rawgeti ps i = (case map_of ps (LInt (of_int i)) of None \<Rightarrow> LNil | Some v \<Rightarrow> v)"

text \<open>
  Storing into a table. A double used as a key is turned into the integer it is equal to, if
  there is one, and a NaN is refused; \<open>float_to_int\<close> reads the sign, exponent and fraction of
  the double. A table is a key by its identity, so a table that was just built never is one
  already; a nil value removes the key.
\<close>

definition float_exp :: "u64 \<Rightarrow> nat" where "float_exp r = unat (drop_bit 52 r AND 0x7ff)"
definition float_frac :: "u64 \<Rightarrow> nat" where "float_frac r = unat (r AND 0xfffffffffffff)"

definition is_nan :: "u64 \<Rightarrow> bool" where
  "is_nan r \<longleftrightarrow> float_exp r = 0x7ff \<and> float_frac r \<noteq> 0"

definition float_to_int :: "u64 \<Rightarrow> int option" where
  "float_to_int r =
     (let e = float_exp r;
          m = (if e = 0 then int (float_frac r) else 2 ^ 52 + int (float_frac r));
          s = (if bit r 63 then -1 else 1)
      in if m = 0 then Some 0
         else if 1075 \<le> e
         then (if e \<le> 1086 \<and> -(2 ^ 63) \<le> s * m * 2 ^ (e - 1075) \<and> s * m * 2 ^ (e - 1075) < 2 ^ 63
               then Some (s * m * 2 ^ (e - 1075)) else None)
         else if 1023 \<le> e \<and> m mod 2 ^ (1075 - e) = 0 then Some (s * (m div 2 ^ (1075 - e)))
         else None)"

definition table_key :: "'n lua \<Rightarrow> lua_error + 'n lua" where
  "table_key k =
     (case k of
        LReal r \<Rightarrow>
          if is_nan r then Inl (Lua_error ''table index is NaN'')
          else (case float_to_int r of None \<Rightarrow> Inr k | Some i \<Rightarrow> Inr (LInt (of_int i)))
      | _ \<Rightarrow> Inr k)"

definition same_key :: "'n lua \<Rightarrow> 'n lua \<Rightarrow> bool" where
  "same_key k k' \<longleftrightarrow> k = k' \<and> \<not> is_table k"

definition raw_put :: "('n lua \<times> 'n lua) list \<Rightarrow> 'n lua \<Rightarrow> 'n lua \<Rightarrow> ('n lua \<times> 'n lua) list" where
  "raw_put t k v =
     (if v = LNil then filter (\<lambda>(k', _). \<not> same_key k k') t
      else if list_ex (\<lambda>(k', _). same_key k k') t
      then map (\<lambda>(k', v'). if same_key k k' then (k', v) else (k', v')) t
      else t @ [(k, v)])"

section \<open>Writing\<close>

definition TYPE_NIL :: int where "TYPE_NIL = 0"
definition TYPE_BOOLEAN :: int where "TYPE_BOOLEAN = 1"
definition TYPE_NUMBER :: int where "TYPE_NUMBER = 2"
definition TYPE_NUMBER_ZERO :: int where "TYPE_NUMBER_ZERO = 0"
definition TYPE_NUMBER_BYTE :: int where "TYPE_NUMBER_BYTE = 1"
definition TYPE_NUMBER_WORD :: int where "TYPE_NUMBER_WORD = 2"
definition TYPE_NUMBER_DWORD :: int where "TYPE_NUMBER_DWORD = 4"
definition TYPE_NUMBER_QWORD :: int where "TYPE_NUMBER_QWORD = 6"
definition TYPE_NUMBER_REAL :: int where "TYPE_NUMBER_REAL = 8"
definition TYPE_USERDATA :: int where "TYPE_USERDATA = 3"
definition TYPE_SHORT_STRING :: int where "TYPE_SHORT_STRING = 4"
definition TYPE_LONG_STRING :: int where "TYPE_LONG_STRING = 5"
definition TYPE_TABLE :: int where "TYPE_TABLE = 6"
definition MAX_COOKIE :: int where "MAX_COOKIE = 32"
definition BLOCK_SIZE :: nat where "BLOCK_SIZE = 128"
definition MAX_DEPTH :: nat where "MAX_DEPTH = 32"

lemmas seri_consts = TYPE_NIL_def TYPE_BOOLEAN_def TYPE_NUMBER_def TYPE_NUMBER_ZERO_def TYPE_NUMBER_BYTE_def
  TYPE_NUMBER_WORD_def TYPE_NUMBER_DWORD_def TYPE_NUMBER_QWORD_def TYPE_NUMBER_REAL_def TYPE_USERDATA_def
  TYPE_SHORT_STRING_def TYPE_LONG_STRING_def TYPE_TABLE_def MAX_COOKIE_def

definition COMBINE_TYPE :: "int \<Rightarrow> int \<Rightarrow> byte" where
  "COMBINE_TYPE t v = of_int (t OR push_bit 3 v)"

text \<open>
  \<^verbatim>\<open>struct write_block\<close>: the chain of blocks from the head to the current one, each with the
  bytes written to it, the number of bytes in all, an \<^verbatim>\<open>int\<close>, and the position in the current block.
\<close>

record write_block =
  wb_blocks :: "byte list list"
  wb_len :: int
  wb_ptr :: nat

definition wb_init :: write_block where
  "wb_init = \<lparr>wb_blocks = [[]], wb_len = 0, wb_ptr = 0\<rparr>"

definition new_block :: "write_block \<Rightarrow> write_block" where
  "new_block b = b\<lparr>wb_blocks := wb_blocks b @ [[]], wb_ptr := 0\<rparr>"

text \<open>\<^verbatim>\<open>memcpy\<close> into the current block at the position, which moves on.\<close>

definition wb_memcpy :: "write_block \<Rightarrow> byte list \<Rightarrow> write_block" where
  "wb_memcpy b buf =
     (let blk = last (wb_blocks b)
      in b\<lparr>wb_blocks := butlast (wb_blocks b) @ [take (wb_ptr b) blk @ buf @ drop (wb_ptr b + length buf) blk],
           wb_ptr := wb_ptr b + length buf, wb_len := c_int (wb_len b + int (length buf))\<rparr>)"

function wb_copy :: "write_block \<Rightarrow> byte list \<Rightarrow> write_block" where
  "wb_copy b buf =
     (if wb_ptr b + length buf \<le> BLOCK_SIZE then wb_memcpy b buf
      else (let copy = BLOCK_SIZE - wb_ptr b
            in wb_copy (new_block (wb_memcpy b (take copy buf))) (drop copy buf)))"
  by pat_completeness auto

termination
  by (relation "measure (\<lambda>(b, buf). 2 * length buf + (if wb_ptr b = 0 then 0 else 1))")
    (auto simp: new_block_def BLOCK_SIZE_def split: if_splits)

declare wb_copy.simps [simp del]

definition wb_push :: "write_block \<Rightarrow> byte list \<Rightarrow> write_block" where
  "wb_push b buf = wb_copy (if wb_ptr b = BLOCK_SIZE then new_block b else b) buf"

text \<open>The bytes of an integer of \<open>k\<close> bytes in memory, and the integer of some bytes.\<close>

primrec le_bytes :: "nat \<Rightarrow> nat \<Rightarrow> byte list" where
  "le_bytes 0 n = []"
| "le_bytes (Suc k) n = of_nat n # le_bytes k (n div 256)"

primrec le_num :: "byte list \<Rightarrow> nat" where
  "le_num [] = 0"
| "le_num (b # bs) = unat b + 256 * le_num bs"

definition wb_nil :: "write_block \<Rightarrow> write_block" where
  "wb_nil wb = wb_push wb [of_int TYPE_NIL]"

definition wb_boolean :: "write_block \<Rightarrow> bool \<Rightarrow> write_block" where
  "wb_boolean wb b = wb_push wb [COMBINE_TYPE TYPE_BOOLEAN (if b then 1 else 0)]"

definition wb_integer :: "write_block \<Rightarrow> u64 \<Rightarrow> write_block" where
  "wb_integer wb v =
     (let tag = (\<lambda>c. wb_push wb [COMBINE_TYPE TYPE_NUMBER c])
      in if v = 0 then tag TYPE_NUMBER_ZERO
         else if v \<noteq> scast (ucast v :: u32) then wb_push (tag TYPE_NUMBER_QWORD) (le_bytes 8 (unat v))
         else if sint v < 0 then wb_push (tag TYPE_NUMBER_DWORD) (le_bytes 4 (unat (ucast v :: u32)))
         else if sint v < 0x100 then wb_push (tag TYPE_NUMBER_BYTE) [ucast v]
         else if sint v < 0x10000 then wb_push (tag TYPE_NUMBER_WORD) (le_bytes 2 (unat (ucast v :: u16)))
         else wb_push (tag TYPE_NUMBER_DWORD) (le_bytes 4 (unat (ucast v :: u32))))"

definition wb_real :: "write_block \<Rightarrow> u64 \<Rightarrow> write_block" where
  "wb_real wb v = wb_push (wb_push wb [COMBINE_TYPE TYPE_NUMBER TYPE_NUMBER_REAL]) (le_bytes 8 (unat v))"

definition wb_pointer :: "write_block \<Rightarrow> u64 \<Rightarrow> write_block" where
  "wb_pointer wb v = wb_push (wb_push wb [of_int TYPE_USERDATA]) (le_bytes 8 (unat v))"

definition wb_string :: "write_block \<Rightarrow> byte list \<Rightarrow> int \<Rightarrow> write_block" where
  "wb_string wb str len =
     (if len < MAX_COOKIE
      then (let wb1 = wb_push wb [COMBINE_TYPE TYPE_SHORT_STRING len]
            in if 0 < len then wb_push wb1 (take (nat len) str) else wb1)
      else (let wb1 = (if len < 0x10000
                       then wb_push (wb_push wb [COMBINE_TYPE TYPE_LONG_STRING 2]) (le_bytes 2 (nat len))
                       else wb_push (wb_push wb [COMBINE_TYPE TYPE_LONG_STRING 4]) (le_bytes 4 (nat len)))
            in wb_push wb1 (take (nat len) str)))"

text \<open>
  The writers of tables, which call \<^verbatim>\<open>pack_one\<close> and are called by it, take it as their first
  argument \<open>pk\<close>. \<open>wb_list\<close> runs a writer over a list and stops at the first error.
\<close>

fun wb_list :: "(write_block \<Rightarrow> 'a \<Rightarrow> lua_error + write_block) \<Rightarrow> write_block \<Rightarrow> 'a list \<Rightarrow> lua_error + write_block" where
  "wb_list f b [] = Inr b"
| "wb_list f b (x # xs) = rbind (f b x) (\<lambda>b1. wb_list f b1 xs)"

type_synonym packer = "write_block \<Rightarrow> nat lua \<Rightarrow> nat \<Rightarrow> lua_error + write_block"

definition pack_pair :: "packer \<Rightarrow> nat \<Rightarrow> write_block \<Rightarrow> nat lua \<times> nat lua \<Rightarrow> lua_error + write_block" where
  "pack_pair pk depth b p = rbind (pk b (fst p) depth) (\<lambda>b1. pk b1 (snd p) depth)"

definition wb_table_array ::
  "packer \<Rightarrow> write_block \<Rightarrow> nat \<Rightarrow> (nat lua \<times> nat lua) list \<Rightarrow> nat \<Rightarrow> lua_error + (int \<times> write_block)" where
  "wb_table_array pk wb n ps depth =
     (let array_size = c_int (int n);
          wb1 = (if MAX_COOKIE - 1 \<le> array_size
                 then wb_integer (wb_push wb [COMBINE_TYPE TYPE_TABLE (MAX_COOKIE - 1)]) (of_int array_size)
                 else wb_push wb [COMBINE_TYPE TYPE_TABLE array_size])
      in rbind (wb_list (\<lambda>b i. pk b (rawgeti ps i) depth) wb1 [1..array_size]) (\<lambda>wb2. Inr (array_size, wb2)))"

definition array_key :: "int \<Rightarrow> 'n lua \<Rightarrow> bool" where
  "array_key array_size k = (case k of LInt x \<Rightarrow> 0 < sint x \<and> sint x \<le> array_size | _ \<Rightarrow> False)"

definition wb_table_hash ::
  "packer \<Rightarrow> write_block \<Rightarrow> (nat lua \<times> nat lua) list \<Rightarrow> nat \<Rightarrow> int \<Rightarrow> lua_error + write_block" where
  "wb_table_hash pk wb ps depth array_size =
     rbind (wb_list (\<lambda>b p. if array_key array_size (fst p) then Inr b else pack_pair pk depth b p) wb ps)
       (\<lambda>wb1. Inr (wb_nil wb1))"

definition wb_table_metapairs ::
  "packer \<Rightarrow> write_block \<Rightarrow> (nat lua \<times> nat lua) list \<Rightarrow> nat \<Rightarrow> lua_error + write_block" where
  "wb_table_metapairs pk wb ps depth =
     rbind (wb_list (pack_pair pk depth) (wb_push wb [COMBINE_TYPE TYPE_TABLE 0]) ps) (\<lambda>wb1. Inr (wb_nil wb1))"

definition wb_table :: "packer \<Rightarrow> write_block \<Rightarrow> nat lua \<Rightarrow> nat \<Rightarrow> lua_error + write_block" where
  "wb_table pk wb t depth =
     (case t of
        LProxy ps \<Rightarrow> wb_table_metapairs pk wb ps depth
      | LTable n ps \<Rightarrow>
          rbind (wb_table_array pk wb n ps depth) (\<lambda>(array_size, wb1). wb_table_hash pk wb1 ps depth array_size)
      | _ \<Rightarrow> Inr wb)"

lemma wb_table_cong [fundef_cong]:
  assumes "wb = wb'" "t = t'" "depth = depth'" "\<And>b x. pk b x depth' = pk' b x depth'"
  shows "wb_table pk wb t depth = wb_table pk' wb' t' depth'"
proof -
  have "pack_pair pk depth' = pack_pair pk' depth'" using assms(4) by (simp add: pack_pair_def fun_eq_iff)
  with assms show ?thesis
    by (cases t') (simp_all add: wb_table_def wb_table_array_def wb_table_hash_def wb_table_metapairs_def case_prod_unfold
        cong: if_cong)
qed

function pack_one :: packer where
  "pack_one b v depth =
     (if MAX_DEPTH < depth then Inl (Lua_error ''serialize can't pack too depth table'')
      else case v of
             LNil \<Rightarrow> Inr (wb_nil b)
           | LInt x \<Rightarrow> Inr (wb_integer b x)
           | LReal x \<Rightarrow> Inr (wb_real b x)
           | LBool x \<Rightarrow> Inr (wb_boolean b x)
           | LString str \<Rightarrow> Inr (wb_string b str (c_int (int (length str))))
           | LUserdata p \<Rightarrow> Inr (wb_pointer b p)
           | LTable n ps \<Rightarrow> wb_table (\<lambda>b v d. pack_one b v d) b v (depth + 1)
           | LProxy ps \<Rightarrow> wb_table (\<lambda>b v d. pack_one b v d) b v (depth + 1)
           | LOther tn \<Rightarrow> Inl (Lua_error (''Unsupport type '' @ tn @ '' to serialize'')))"
  by pat_completeness auto

termination
  by (relation "measure (\<lambda>(b, v, d). Suc MAX_DEPTH - d)") auto

declare pack_one.simps [simp del]

definition pack_from :: "write_block \<Rightarrow> nat lua list \<Rightarrow> lua_error + write_block" where
  "pack_from b vs = wb_list (\<lambda>b v. pack_one b v 0) b vs"

text \<open>
  The copy of the blocks into one buffer, following the chain from the head. The number of bytes is negative or too
  small when there are 2 gigabytes or more; no memory has the size that a negative number stands for, and
  \<^verbatim>\<open>skynet_malloc\<close> aborts.
\<close>

fun seri_loop :: "byte list list \<Rightarrow> nat \<Rightarrow> c_error + byte list" where
  "seri_loop bs 0 = Inr []"
| "seri_loop [] (Suc n) = Inl Use_after_free"
| "seri_loop (b # bs) (Suc n) =
     (if BLOCK_SIZE \<le> Suc n
      then (if length b < BLOCK_SIZE then Inl Uninit_read
            else rbind (seri_loop bs (Suc n - BLOCK_SIZE)) (\<lambda>r. Inr (take BLOCK_SIZE b @ r)))
      else if length b < Suc n then Inl Uninit_read
      else Inr (take (Suc n) b))"

definition seri :: "byte list list \<Rightarrow> int \<Rightarrow> lua_error + (byte list \<times> int)" where
  "seri bs len =
     (if len < 0 then Inl (C_fault Assert_failed)
      else case seri_loop bs (nat len) of Inl e \<Rightarrow> Inl (C_fault e) | Inr buffer \<Rightarrow> Inr (buffer, len))"

definition luaseri_pack :: "nat lua list \<Rightarrow> lua_error + (byte list \<times> int)" where
  "luaseri_pack vs = rbind (pack_from wb_init vs) (\<lambda>wb. seri (wb_blocks wb) (wb_len wb))"

section \<open>Reading\<close>

text \<open>
  \<^verbatim>\<open>struct read_block\<close>. \<open>rb_read\<close> returns the position that was the current one, or nothing when
  fewer bytes are left than asked for; \<open>load\<close> is a read of the memory there, and \<open>rb_take\<close> the
  two together with the check for null that follows each call. The text of the error leaves out
  the two numbers the code prints with it.
\<close>

record read_block =
  rb_buffer :: "byte list"
  rb_len :: int
  rb_ptr :: int

definition rball_init :: "byte list \<Rightarrow> int \<Rightarrow> read_block" where
  "rball_init buffer size' = \<lparr>rb_buffer = buffer, rb_len = size', rb_ptr = 0\<rparr>"

definition rb_read :: "read_block \<Rightarrow> int \<Rightarrow> int option \<times> read_block" where
  "rb_read rb sz =
     (if rb_len rb < sz then (None, rb)
      else (Some (rb_ptr rb), rb\<lparr>rb_ptr := rb_ptr rb + sz, rb_len := rb_len rb - sz\<rparr>))"

definition load :: "read_block \<Rightarrow> int \<Rightarrow> int \<Rightarrow> lua_error + byte list" where
  "load rb p sz =
     (if 0 \<le> p \<and> p + sz \<le> int (length (rb_buffer rb)) then Inr (take (nat sz) (drop (nat p) (rb_buffer rb)))
      else Inl (C_fault Out_of_bounds))"

definition invalid_stream :: "lua_error + 'a" where
  "invalid_stream = Inl (Lua_error ''Invalid serialize stream'')"

definition rb_take :: "read_block \<Rightarrow> int \<Rightarrow> lua_error + (byte list \<times> read_block)" where
  "rb_take rb sz =
     (case rb_read rb sz of
        (None, rb1) \<Rightarrow> invalid_stream
      | (Some p, rb1) \<Rightarrow> rbind (load rb p sz) (\<lambda>bs. Inr (bs, rb1)))"

definition get_integer :: "read_block \<Rightarrow> int \<Rightarrow> lua_error + (u64 \<times> read_block)" where
  "get_integer rb cookie =
     (if cookie = TYPE_NUMBER_ZERO then Inr (0, rb)
      else if cookie = TYPE_NUMBER_BYTE
      then rbind (rb_take rb 1) (\<lambda>(bs, rb1). Inr (of_nat (le_num bs), rb1))
      else if cookie = TYPE_NUMBER_WORD
      then rbind (rb_take rb 2) (\<lambda>(bs, rb1). Inr (of_nat (le_num bs), rb1))
      else if cookie = TYPE_NUMBER_DWORD
      then rbind (rb_take rb 4) (\<lambda>(bs, rb1). Inr (scast (of_nat (le_num bs) :: u32), rb1))
      else if cookie = TYPE_NUMBER_QWORD
      then rbind (rb_take rb 8) (\<lambda>(bs, rb1). Inr (of_nat (le_num bs), rb1))
      else invalid_stream)"

definition get_real :: "read_block \<Rightarrow> lua_error + (u64 \<times> read_block)" where
  "get_real rb = rbind (rb_take rb 8) (\<lambda>(bs, rb1). Inr (of_nat (le_num bs), rb1))"

definition get_pointer :: "read_block \<Rightarrow> lua_error + (u64 \<times> read_block)" where
  "get_pointer rb = rbind (rb_take rb 8) (\<lambda>(bs, rb1). Inr (of_nat (le_num bs), rb1))"

text \<open>A length of \<open>2 ^ 31\<close> or more is negative here: \<^verbatim>\<open>rb_read\<close> then steps backwards, and it is
  \<^verbatim>\<open>lua_pushlstring\<close> that refuses the length.\<close>

definition get_buffer :: "read_block \<Rightarrow> int \<Rightarrow> lua_error + (unit lua \<times> read_block)" where
  "get_buffer rb len =
     (case rb_read rb len of
        (None, rb1) \<Rightarrow> invalid_stream
      | (Some p, rb1) \<Rightarrow>
          if len < 0 then Inl (Lua_error ''memory allocation error: block too big'')
          else rbind (load rb p len) (\<lambda>bs. Inr (LString bs, rb1)))"

text \<open>
  The readers of tables take \<^verbatim>\<open>unpack_one\<close> as an argument, which itself takes the number of slots of the Lua stack
  that are in use. \<open>lim\<close> is the number of slots that the Lua stack can have (\<open>None\<close> if that is not a concern). The loop over
  the pairs runs until it reads a nil key, and has the number of rounds it may take as fuel.
\<close>

definition LUA_MINSTACK :: nat where "LUA_MINSTACK = 20"

definition luaL_checkstack :: "nat option \<Rightarrow> nat \<Rightarrow> lua_error + unit" where
  "luaL_checkstack lim used =
     (case lim of None \<Rightarrow> Inr () | Some n \<Rightarrow> if n < used + LUA_MINSTACK then Inl (Lua_error ''stack overflow'') else Inr ())"

type_synonym unpacker = "read_block \<Rightarrow> lua_error + (unit lua \<times> read_block)"

primrec unpack_array ::
  "unpacker \<Rightarrow> nat \<Rightarrow> int \<Rightarrow> (unit lua \<times> unit lua) list \<Rightarrow> read_block \<Rightarrow> lua_error + ((unit lua \<times> unit lua) list \<times> read_block)" where
  "unpack_array one 0 i t rb = Inr (t, rb)"
| "unpack_array one (Suc n) i t rb =
     rbind (one rb) (\<lambda>(v, rb1). unpack_array one n (i + 1) (raw_put t (LInt (of_int i)) v) rb1)"

primrec unpack_pairs ::
  "unpacker \<Rightarrow> unpacker \<Rightarrow> nat \<Rightarrow> (unit lua \<times> unit lua) list \<Rightarrow> read_block \<Rightarrow> lua_error + ((unit lua \<times> unit lua) list \<times> read_block)" where
  "unpack_pairs key val 0 t rb = Inl (C_fault Diverges)"
| "unpack_pairs key val (Suc n) t rb =
     rbind (key rb) (\<lambda>(k, rb1).
       if k = LNil then Inr (t, rb1)
       else rbind (val rb1) (\<lambda>(v, rb2).
            rbind (table_key k) (\<lambda>k'. unpack_pairs key val n (raw_put t k' v) rb2)))"

definition array_header :: "read_block \<Rightarrow> int \<Rightarrow> lua_error + (int \<times> read_block)" where
  "array_header rb array_size =
     (if array_size = MAX_COOKIE - 1
      then rbind (rb_take rb 1) (\<lambda>(bs, rb1).
             let type = hd bs; cookie = uint (drop_bit 3 type)
             in if uint (type AND 7) \<noteq> TYPE_NUMBER \<or> cookie = TYPE_NUMBER_REAL then invalid_stream
                else rbind (get_integer rb1 cookie) (\<lambda>(n, rb2). Inr (c_int (uint n), rb2)))
      else Inr (array_size, rb))"

definition unpack_table :: "nat option \<Rightarrow> (nat \<Rightarrow> unpacker) \<Rightarrow> nat \<Rightarrow> nat \<Rightarrow> read_block \<Rightarrow> int \<Rightarrow> lua_error + (unit lua \<times> read_block)" where
  "unpack_table lim one fuel used rb cookie =
     rbind (array_header rb cookie) (\<lambda>(array_size, rb1).
     rbind (luaL_checkstack lim used) (\<lambda>_.
     rbind (unpack_array (one (used + 1)) (nat array_size) 1 [] rb1) (\<lambda>(t, rb2).
     rbind (unpack_pairs (one (used + 1)) (one (used + 2)) fuel t rb2) (\<lambda>(t', rb3). Inr (LTable () t', rb3)))))"

definition push_value ::
  "nat option \<Rightarrow> (nat \<Rightarrow> unpacker) \<Rightarrow> nat \<Rightarrow> nat \<Rightarrow> read_block \<Rightarrow> int \<Rightarrow> int \<Rightarrow> lua_error + (unit lua \<times> read_block)" where
  "push_value lim one fuel used rb type cookie =
     (if type = TYPE_NIL then Inr (LNil, rb)
      else if type = TYPE_BOOLEAN then Inr (LBool (cookie \<noteq> 0), rb)
      else if type = TYPE_NUMBER
      then (if cookie = TYPE_NUMBER_REAL
            then rbind (get_real rb) (\<lambda>(r, rb1). Inr (LReal r, rb1))
            else rbind (get_integer rb cookie) (\<lambda>(i, rb1). Inr (LInt i, rb1)))
      else if type = TYPE_USERDATA then rbind (get_pointer rb) (\<lambda>(p, rb1). Inr (LUserdata p, rb1))
      else if type = TYPE_SHORT_STRING then get_buffer rb cookie
      else if type = TYPE_LONG_STRING
      then (if cookie = 2 then rbind (rb_take rb 2) (\<lambda>(bs, rb1). get_buffer rb1 (int (le_num bs)))
            else if cookie \<noteq> 4 then invalid_stream
            else rbind (rb_take rb 4) (\<lambda>(bs, rb1). get_buffer rb1 (c_int (int (le_num bs)))))
      else if type = TYPE_TABLE then unpack_table lim one fuel used rb cookie
      else invalid_stream)"

text \<open>The first argument is the number of calls of \<^verbatim>\<open>unpack_one\<close>, one in the other, that the C stack has space for.\<close>

primrec unpack_one :: "nat \<Rightarrow> nat option \<Rightarrow> nat \<Rightarrow> nat \<Rightarrow> unpacker" where
  "unpack_one 0 lim fuel used rb = Inl (C_fault Stack_overflow)"
| "unpack_one (Suc cs) lim fuel used rb =
     rbind (rb_take rb 1) (\<lambda>(bs, rb1).
       push_value lim (unpack_one cs lim fuel) fuel used rb1 (uint (hd bs AND 7)) (uint (drop_bit 3 (hd bs))))"

text \<open>
  \<^verbatim>\<open>luaseri_unpack\<close> by its first argument: none or nil, a string, or a buffer (perhaps null) with
  the length that is the second argument. The fuel is one more than the number of bytes. In round \<open>i\<close> of the loop there
  are \<open>i + 1\<close> values on the Lua stack.
\<close>

datatype unpack_arg = Arg_nil | Arg_string "byte list" | Arg_buffer "byte list option" int

primrec unpack_loop :: "nat \<Rightarrow> nat option \<Rightarrow> nat \<Rightarrow> nat \<Rightarrow> nat \<Rightarrow> read_block \<Rightarrow> lua_error + unit lua list" where
  "unpack_loop cs lim fuel 0 i rb = Inl (C_fault Diverges)"
| "unpack_loop cs lim fuel (Suc n) i rb =
     rbind (if i mod 8 = 7 then luaL_checkstack lim (i + 1) else Inr ()) (\<lambda>_.
       case rb_read rb 1 of
         (None, rb1) \<Rightarrow> Inr []
       | (Some p, rb1) \<Rightarrow>
           rbind (load rb p 1) (\<lambda>bs.
           rbind (push_value lim (unpack_one cs lim fuel) fuel (i + 1) rb1 (uint (hd bs AND 7)) (uint (drop_bit 3 (hd bs)))) (\<lambda>(v, rb2).
           rbind (unpack_loop cs lim fuel n (i + 1) rb2) (\<lambda>vs. Inr (v # vs)))))"

definition unpack_buffer :: "nat \<Rightarrow> nat option \<Rightarrow> byte list option \<Rightarrow> int \<Rightarrow> lua_error + unit lua list" where
  "unpack_buffer cs lim buffer len =
     (if len = 0 then Inr []
      else case buffer of
             None \<Rightarrow> Inl (Lua_error ''deserialize null pointer'')
           | Some b \<Rightarrow> let n = Suc (nat len) in unpack_loop cs lim n n 0 (rball_init b len))"

definition arg_length :: "unpack_arg \<Rightarrow> int" where
  "arg_length a = (case a of Arg_nil \<Rightarrow> 0 | Arg_string s \<Rightarrow> c_int (int (length s)) | Arg_buffer b len \<Rightarrow> c_int len)"

definition luaseri_unpack_on :: "nat \<Rightarrow> nat option \<Rightarrow> unpack_arg \<Rightarrow> lua_error + unit lua list" where
  "luaseri_unpack_on cs lim a =
     (case a of
        Arg_nil \<Rightarrow> Inr []
      | Arg_string s \<Rightarrow> unpack_buffer cs lim (Some s) (arg_length a)
      | Arg_buffer b len \<Rightarrow> unpack_buffer cs lim b (arg_length a))"

text \<open>With stacks that are large enough.\<close>

definition luaseri_unpack :: "unpack_arg \<Rightarrow> lua_error + unit lua list" where
  "luaseri_unpack a = luaseri_unpack_on (nat (arg_length a)) None a"

section \<open>The chain of blocks is a byte buffer\<close>

definition wb_bytes :: "write_block \<Rightarrow> byte list" where
  "wb_bytes b = concat (wb_blocks b)"

definition wb_inv :: "write_block \<Rightarrow> bool" where
  "wb_inv b \<longleftrightarrow>
     wb_blocks b \<noteq> [] \<and> list_all (\<lambda>blk. length blk = BLOCK_SIZE) (butlast (wb_blocks b))
     \<and> length (last (wb_blocks b)) = wb_ptr b \<and> wb_ptr b \<le> BLOCK_SIZE \<and> wb_len b = c_int (int (length (wb_bytes b)))"

text \<open>\<open>writes b bs b'\<close>: the bytes \<open>bs\<close> have been appended to \<open>b\<close>.\<close>

definition writes :: "write_block \<Rightarrow> byte list \<Rightarrow> write_block \<Rightarrow> bool" where
  "writes b bs b' \<longleftrightarrow> wb_inv b' \<and> wb_bytes b' = wb_bytes b @ bs"

lemma writes_trans [intro]: "writes b xs c \<Longrightarrow> writes c ys d \<Longrightarrow> writes b (xs @ ys) d"
  by (simp add: writes_def)

lemma writes_refl: "wb_inv b \<Longrightarrow> writes b [] b"
  by (simp add: writes_def)

lemma writes_inv: "writes b bs b' \<Longrightarrow> wb_inv b'"
  by (simp add: writes_def)

lemma wb_bytes_snoc: "wb_blocks b \<noteq> [] \<Longrightarrow> wb_bytes b = concat (butlast (wb_blocks b)) @ last (wb_blocks b)"
  unfolding wb_bytes_def by (metis append_butlast_last_id append_Nil2 concat.simps concat_append)

lemma wb_inv_init: "wb_inv wb_init" "wb_bytes wb_init = []"
  by (simp_all add: wb_inv_def wb_init_def wb_bytes_def)

lemma c_int_add: "c_int (c_int a + b) = c_int (a + b)"
  by (simp add: c_int_def)

lemma writes_memcpy: "wb_inv b \<Longrightarrow> wb_ptr b + length buf \<le> BLOCK_SIZE \<Longrightarrow> writes b buf (wb_memcpy b buf)"
  using wb_bytes_snoc [of b] by (simp add: writes_def wb_inv_def wb_memcpy_def Let_def wb_bytes_def c_int_add add.assoc)

lemma writes_new_block:
  assumes "wb_inv b" "wb_ptr b = BLOCK_SIZE"
  shows "writes b [] (new_block b)"
proof -
  obtain xs x where "wb_blocks b = xs @ [x]" using assms by (cases "wb_blocks b" rule: rev_cases) (auto simp: wb_inv_def)
  with assms show ?thesis by (simp add: writes_def wb_inv_def new_block_def wb_bytes_def butlast_append)
qed

lemma writes_copy: "wb_inv b \<Longrightarrow> writes b buf (wb_copy b buf)"
proof (induction b buf rule: wb_copy.induct)
  case (1 b buf)
  show ?case
  proof (cases "wb_ptr b + length buf \<le> BLOCK_SIZE")
    case True
    with 1(2) show ?thesis by (subst wb_copy.simps) (simp add: writes_memcpy)
  next
    case False
    let ?c = "BLOCK_SIZE - wb_ptr b"
    let ?b1 = "wb_memcpy b (take ?c buf)"
    have p: "wb_ptr b \<le> BLOCK_SIZE" using 1(2) by (simp add: wb_inv_def)
    then have len: "wb_ptr b + length (take ?c buf) = BLOCK_SIZE" using False by simp
    then have w1: "writes b (take ?c buf) ?b1" using 1(2) by (simp add: writes_memcpy)
    moreover have "wb_ptr ?b1 = BLOCK_SIZE" using len by (simp add: wb_memcpy_def Let_def)
    ultimately have w2: "writes ?b1 [] (new_block ?b1)" by (simp add: writes_inv writes_new_block)
    from writes_trans [OF writes_trans [OF w1 w2] 1(1) [OF False refl writes_inv [OF w2]]]
    show ?thesis using False by (subst wb_copy.simps) (simp add: Let_def)
  qed
qed

lemma writes_push: "wb_inv b \<Longrightarrow> writes b buf (wb_push b buf)"
  using writes_new_block [of b] writes_copy [of b buf] writes_copy [of "new_block b" buf] writes_trans [of b "[]" "new_block b" buf]
  by (auto simp: wb_push_def dest: writes_inv)

lemma writes_push2: "wb_inv b \<Longrightarrow> writes b (xs @ ys) (wb_push (wb_push b xs) ys)"
  using writes_push writes_inv by blast

lemma writes_push3: "wb_inv b \<Longrightarrow> writes b (x # ys @ zs) (wb_push (wb_push (wb_push b [x]) ys) zs)"
  using writes_push [of b "[x]"] writes_push2 [of "wb_push b [x]" ys zs] by (simp add: writes_def)

lemma seri_loop_concat:
  assumes "list_all (\<lambda>blk. length blk = BLOCK_SIZE) (butlast bs)" "length (last bs) \<le> BLOCK_SIZE"
  shows "seri_loop bs (length (concat bs)) = Inr (concat bs)"
  using assms
proof (induction bs)
  case (Cons b bs)
  show ?case
  proof (cases "bs = []")
    case True
    with Cons.prems show ?thesis by (cases "length b") auto
  next
    case False
    with Cons.prems have b: "length b = BLOCK_SIZE" and ih: "seri_loop bs (length (concat bs)) = Inr (concat bs)"
      using Cons.IH by simp_all
    obtain m where "length (concat (b # bs)) = Suc m"
      using b by (cases "length (concat (b # bs))") (auto simp: BLOCK_SIZE_def)
    moreover from this have "length (concat bs) = Suc m - BLOCK_SIZE" using b by simp
    moreover have "BLOCK_SIZE \<le> length (concat (b # bs))" using b by simp
    ultimately show ?thesis using b ih by simp
  qed
qed simp

lemma seri_bytes:
  assumes "wb_inv wb" "length (wb_bytes wb) < 2 ^ 31"
  shows "seri (wb_blocks wb) (wb_len wb) = Inr (wb_bytes wb, int (length (wb_bytes wb)))"
  using seri_loop_concat [of "wb_blocks wb"] assms by (simp add: wb_inv_def wb_bytes_def seri_def)

section \<open>The format\<close>

text \<open>
  The bytes that stand for a value. \<open>enc\<close> writes the elements \<open>1..n\<close> of a table of length \<open>n\<close>, then
  the other pairs, then a nil.
\<close>

definition int_bytes :: "u64 \<Rightarrow> byte list" where
  "int_bytes v =
     (if v = 0 then [0x02]
      else if v \<noteq> scast (ucast v :: u32) then 0x32 # le_bytes 8 (unat v)
      else if sint v < 0 then 0x22 # le_bytes 4 (unat (ucast v :: u32))
      else if sint v < 0x100 then [0x0a, ucast v]
      else if sint v < 0x10000 then 0x12 # le_bytes 2 (unat (ucast v :: u16))
      else 0x22 # le_bytes 4 (unat (ucast v :: u32)))"

definition string_bytes :: "byte list \<Rightarrow> byte list" where
  "string_bytes s =
     (if length s < 32 then of_nat (4 + 8 * length s) # s
      else if length s < 0x10000 then 0x15 # le_bytes 2 (length s) @ s
      else 0x25 # le_bytes 4 (length s) @ s)"

definition table_header :: "nat \<Rightarrow> byte list" where
  "table_header n = (if n < 31 then [of_nat (6 + 8 * n)] else 0xfe # int_bytes (of_nat n))"

definition hash_part :: "nat \<Rightarrow> ('n lua \<times> 'n lua) list \<Rightarrow> ('n lua \<times> 'n lua) list" where
  "hash_part n ps = filter (\<lambda>p. \<not> array_key (int n) (fst p)) ps"

lemma size_pair:
  "p \<in> set ps \<Longrightarrow> size (fst p) + size (snd p) < size_list (size_prod size size) ps"
  by (induction ps) auto

lemma size_rawgeti [termination_simp]: "size (rawgeti ps i) < Suc (size_list (size_prod size size) ps)"
  using size_pair [of "(LInt (of_int i), rawgeti ps i)" ps]
  by (cases "map_of ps (LInt (of_int i))") (auto simp: rawgeti_def dest: map_of_SomeD)

lemma size_hash_part [termination_simp]:
  assumes "(k, v) \<in> set (hash_part n ps)"
  shows "size k < Suc (size_list (size_prod size size) ps)" "size v < Suc (size_list (size_prod size size) ps)"
  using size_pair [of "(k, v)" ps] assms by (auto simp: hash_part_def)

text \<open>\<open>lua_wf\<close>: what holds of every Lua value. Keys are not nil, not NaN and not a double equal to an
  integer, equal keys are the same table entry, values are not nil, and the length of a table
  and of a string fits an \<^verbatim>\<open>int\<close>. \<open>packable\<close>: no unsupported type and not too deep.\<close>

definition good_key :: "'n lua \<Rightarrow> bool" where
  "good_key k \<longleftrightarrow> k \<noteq> LNil \<and> (\<forall>r. k = LReal r \<longrightarrow> \<not> is_nan r \<and> float_to_int r = None)"

definition good_pairs :: "('n lua \<times> 'n lua) list \<Rightarrow> bool" where
  "good_pairs ps \<longleftrightarrow>
     list_all (\<lambda>p. good_key (fst p) \<and> snd p \<noteq> LNil) ps \<and> distinct (filter (\<lambda>k. \<not> is_table k) (map fst ps))"

fun enc :: "nat lua \<Rightarrow> byte list" where
  "enc LNil = [0x00]"
| "enc (LInt x) = int_bytes x"
| "enc (LReal x) = 0x42 # le_bytes 8 (unat x)"
| "enc (LBool b) = [if b then 0x09 else 0x01]"
| "enc (LString s) = string_bytes s"
| "enc (LUserdata p) = 0x03 # le_bytes 8 (unat p)"
| "enc (LTable n ps) =
     table_header n @ concat (map (\<lambda>i. enc (rawgeti ps i)) [1..int n])
     @ concat (map (\<lambda>p. enc (fst p) @ enc (snd p)) (hash_part n ps)) @ [0x00]"
| "enc (LProxy ps) = 0x06 # concat (map (\<lambda>p. enc (fst p) @ enc (snd p)) ps) @ [0x00]"
| "enc (LOther tn) = []"

fun lua_wf :: "nat lua \<Rightarrow> bool" where
  "lua_wf (LTable n ps) \<longleftrightarrow> n < 2 ^ 31 \<and> good_pairs ps \<and> list_all (\<lambda>p. lua_wf (fst p) \<and> lua_wf (snd p)) ps"
| "lua_wf (LProxy ps) \<longleftrightarrow> good_pairs ps \<and> list_all (\<lambda>p. lua_wf (fst p) \<and> lua_wf (snd p)) ps"
| "lua_wf (LString s) \<longleftrightarrow> length s < 2 ^ 31"
| "lua_wf v \<longleftrightarrow> True"

fun packable :: "nat \<Rightarrow> nat lua \<Rightarrow> bool" where
  "packable d (LTable n ps) \<longleftrightarrow>
     d \<le> MAX_DEPTH \<and> list_all (\<lambda>i. packable (Suc d) (rawgeti ps i)) [1..int n]
     \<and> list_all (\<lambda>p. packable (Suc d) (fst p) \<and> packable (Suc d) (snd p)) (hash_part n ps)"
| "packable d (LProxy ps) \<longleftrightarrow>
     d \<le> MAX_DEPTH \<and> list_all (\<lambda>p. packable (Suc d) (fst p) \<and> packable (Suc d) (snd p)) ps"
| "packable d (LOther tn) \<longleftrightarrow> False"
| "packable d v \<longleftrightarrow> d \<le> MAX_DEPTH"

section \<open>Packing writes the format\<close>

text \<open>\<open>outcome ok bs b r\<close>: if \<open>ok\<close>, the result \<open>r\<close> is \<open>b\<close> with \<open>bs\<close> appended, and otherwise a Lua error.\<close>

definition outcome :: "bool \<Rightarrow> byte list \<Rightarrow> write_block \<Rightarrow> lua_error + write_block \<Rightarrow> bool" where
  "outcome ok bs b r \<longleftrightarrow>
     (if ok then \<exists>b'. r = Inr b' \<and> writes b bs b' else \<exists>m. r = Inl (Lua_error m))"

lemma outcome_bind:
  assumes "outcome p xs b r" "\<And>b'. writes b xs b' \<Longrightarrow> outcome q ys b' (f b')"
  shows "outcome (p \<and> q) (xs @ ys) b (rbind r f)"
proof (cases p)
  case True
  then obtain b' where b': "r = Inr b'" "writes b xs b'" using assms(1) by (auto simp: outcome_def)
  with assms(2) [OF b'(2)] True show ?thesis by (auto simp: outcome_def writes_def)
qed (use assms(1) in \<open>auto simp: outcome_def\<close>)

lemma outcome_writes: "writes b bs b' \<Longrightarrow> outcome True bs b (Inr b')"
  by (simp add: outcome_def)

lemma outcome_list:
  assumes "\<And>b x. x \<in> set xs \<Longrightarrow> wb_inv b \<Longrightarrow> outcome (p x) (g x) b (f b x)" "wb_inv b"
  shows "outcome (list_all p xs) (concat (map g xs)) b (wb_list f b xs)"
  using assms
proof (induction xs arbitrary: b)
  case Nil
  then show ?case by (simp add: outcome_def writes_refl)
next
  case (Cons x xs)
  have "outcome (p x \<and> list_all p xs) (g x @ concat (map g xs)) b (rbind (f b x) (\<lambda>b1. wb_list f b1 xs))"
  proof (rule outcome_bind)
    show "outcome (p x) (g x) b (f b x)" using Cons.prems by simp
    show "outcome (list_all p xs) (concat (map g xs)) b' (wb_list f b' xs)" if "writes b (g x) b'" for b'
      using Cons.IH [of b'] Cons.prems(1) that by (simp add: writes_inv)
  qed
  then show ?case by simp
qed

lemma outcome_pair:
  assumes "\<And>b. wb_inv b \<Longrightarrow> outcome (p (fst x)) (enc (fst x)) b (pk b (fst x) d)"
    and "\<And>b. wb_inv b \<Longrightarrow> outcome (p (snd x)) (enc (snd x)) b (pk b (snd x) d)" and "wb_inv b"
  shows "outcome (p (fst x) \<and> p (snd x)) (enc (fst x) @ enc (snd x)) b (pack_pair pk d b x)"
  unfolding pack_pair_def using assms by (intro outcome_bind) (auto dest: writes_inv)

lemma combine_type:
  "list_all (\<lambda>t. list_all (\<lambda>v. COMBINE_TYPE t v = of_int (t + 8 * v)) [0..31]) [0..7]"
  by code_simp

lemma COMBINE_TYPE_eq: "0 \<le> t \<Longrightarrow> t < 8 \<Longrightarrow> 0 \<le> v \<Longrightarrow> v < 32 \<Longrightarrow> COMBINE_TYPE t v = of_int (t + 8 * v)"
  using combine_type by (simp add: list_all_iff)

lemma writes_integer: "wb_inv b \<Longrightarrow> writes b (int_bytes v) (wb_integer b v)"
  using writes_push [of b "[0x02]"] writes_push2 [of b "[0x32]" "le_bytes 8 (unat v)"]
    writes_push2 [of b "[0x22]" "le_bytes 4 (unat (ucast v :: u32))"] writes_push2 [of b "[0x0a]" "[ucast v]"]
    writes_push2 [of b "[0x12]" "le_bytes 2 (unat (ucast v :: u16))"]
  by (simp add: wb_integer_def int_bytes_def COMBINE_TYPE_eq seri_consts)

lemma writes_string:
  assumes "wb_inv b" "length s < 2 ^ 31"
  shows "writes b (string_bytes s) (wb_string b s (c_int (int (length s))))"
proof -
  have "COMBINE_TYPE TYPE_SHORT_STRING (int (length s)) = of_nat (4 + 8 * length s)" if "length s < 32"
    using that by (simp add: COMBINE_TYPE_eq seri_consts)
  then show ?thesis
    using assms writes_push2 [of b "[of_nat (4 + 8 * length s)]" s] writes_push [of b "[4]"]
      writes_push3 [of b "0x15" "le_bytes 2 (length s)" s] writes_push3 [of b "0x25" "le_bytes 4 (length s)" s]
    by (auto simp: wb_string_def string_bytes_def COMBINE_TYPE_eq seri_consts Let_def)
qed

lemma writes_table_header:
  assumes "wb_inv b" "n < 2 ^ 31"
  shows "writes b (table_header n)
    (if MAX_COOKIE - 1 \<le> c_int (int n)
     then wb_integer (wb_push b [COMBINE_TYPE TYPE_TABLE (MAX_COOKIE - 1)]) (of_int (c_int (int n)))
     else wb_push b [COMBINE_TYPE TYPE_TABLE (c_int (int n))])"
proof (cases "n < 31")
  case True
  then have "COMBINE_TYPE TYPE_TABLE (int n) = of_nat (6 + 8 * n)" by (simp add: COMBINE_TYPE_eq seri_consts)
  with True assms writes_push [of b "[of_nat (6 + 8 * n)]"] show ?thesis
    by (simp add: table_header_def seri_consts)
next
  case False
  have "writes b ([0xfe] @ int_bytes (of_nat n)) (wb_integer (wb_push b [0xfe]) (of_nat n))"
    using assms(1) writes_integer writes_push writes_inv by blast
  with False assms show ?thesis by (simp add: table_header_def seri_consts COMBINE_TYPE_eq)
qed

lemma lua_wf_rawgeti: "lua_wf (LTable n ps) \<Longrightarrow> lua_wf (rawgeti ps i)"
  by (cases "map_of ps (LInt (of_int i))") (auto simp: rawgeti_def list_all_iff dest!: map_of_SomeD)

lemma concat_hash_part:
  "concat (map (\<lambda>p. if array_key (int n) (fst p) then [] else g p) ps) = concat (map g (hash_part n ps))"
  by (induction ps) (auto simp: hash_part_def)

lemma list_all_hash_part:
  "list_all (\<lambda>p. array_key (int n) (fst p) \<or> g p) ps \<longleftrightarrow> list_all g (hash_part n ps)"
  by (induction ps) (auto simp: hash_part_def)

lemma pack_one_table_outcome:
  assumes "lua_wf (LTable n ps)" "wb_inv b"
    and IH1: "\<And>i b. i \<in> set [1..int n] \<Longrightarrow> wb_inv b \<Longrightarrow> outcome (packable d (rawgeti ps i)) (enc (rawgeti ps i)) b (pk b (rawgeti ps i) d)"
    and IH2: "\<And>p b. p \<in> set (hash_part n ps) \<Longrightarrow> wb_inv b \<Longrightarrow> outcome (packable d (fst p)) (enc (fst p)) b (pk b (fst p) d)"
    and IH3: "\<And>p b. p \<in> set (hash_part n ps) \<Longrightarrow> wb_inv b \<Longrightarrow> outcome (packable d (snd p)) (enc (snd p)) b (pk b (snd p) d)"
  shows "outcome (list_all (\<lambda>i. packable d (rawgeti ps i)) [1..int n]
       \<and> list_all (\<lambda>p. packable d (fst p) \<and> packable d (snd p)) (hash_part n ps))
     (enc (LTable n ps)) b (wb_table pk b (LTable n ps) d)"
proof -
  have n: "n < 2 ^ 31" using assms(1) by simp
  let ?hdr = "if MAX_COOKIE - 1 \<le> c_int (int n)
     then wb_integer (wb_push b [COMBINE_TYPE TYPE_TABLE (MAX_COOKIE - 1)]) (of_int (c_int (int n)))
     else wb_push b [COMBINE_TYPE TYPE_TABLE (c_int (int n))]"
  let ?arr = "\<lambda>b. wb_list (\<lambda>b i. pk b (rawgeti ps i) d) b [1..int n]"
  let ?hash = "\<lambda>b. wb_list (\<lambda>b p. if array_key (int n) (fst p) then Inr b else pack_pair pk d b p) b ps"
  have w: "writes b (table_header n) ?hdr" using assms(2) n by (rule writes_table_header)
  have hash: "outcome (list_all (\<lambda>p. packable d (fst p) \<and> packable d (snd p)) (hash_part n ps))
      (concat (map (\<lambda>p. enc (fst p) @ enc (snd p)) (hash_part n ps))) b' (?hash b')" if "wb_inv b'" for b'
    unfolding concat_hash_part [symmetric] list_all_hash_part [symmetric]
  proof (rule outcome_list [OF _ that])
    fix b p assume "p \<in> set ps" "wb_inv b"
    then show "outcome (array_key (int n) (fst p) \<or> packable d (fst p) \<and> packable d (snd p))
        (if array_key (int n) (fst p) then [] else enc (fst p) @ enc (snd p)) b
        (if array_key (int n) (fst p) then Inr b else pack_pair pk d b p)"
      using outcome_pair [of "packable d" p pk d b] IH2 [of p] IH3 [of p]
      by (auto simp: hash_part_def outcome_writes writes_refl)
  qed
  have nil: "outcome True [0] b' (Inr (wb_nil b'))" if "wb_inv b'" for b'
    using writes_push [OF that, of "[0]"] by (simp add: outcome_writes wb_nil_def TYPE_NIL_def)
  have eq: "wb_table pk b (LTable n ps) d
      = rbind (Inr ?hdr) (\<lambda>b0. rbind (?arr b0) (\<lambda>b1. rbind (?hash b1) (\<lambda>b2. Inr (wb_nil b2))))"
    using n by (simp add: wb_table_def wb_table_array_def wb_table_hash_def Let_def) (simp add: rbind_def split: sum.splits)
  have "outcome (True \<and> list_all (\<lambda>i. packable d (rawgeti ps i)) [1..int n]
       \<and> list_all (\<lambda>p. packable d (fst p) \<and> packable d (snd p)) (hash_part n ps) \<and> True)
     (table_header n @ concat (map (\<lambda>i. enc (rawgeti ps i)) [1..int n])
       @ concat (map (\<lambda>p. enc (fst p) @ enc (snd p)) (hash_part n ps)) @ [0])
     b (wb_table pk b (LTable n ps) d)"
    unfolding eq using w by (intro outcome_bind outcome_writes outcome_list hash nil IH1) (auto dest: writes_inv)
  then show ?thesis by simp
qed

lemma pack_one_proxy_outcome:
  assumes "wb_inv b"
    and IH1: "\<And>p b. p \<in> set ps \<Longrightarrow> wb_inv b \<Longrightarrow> outcome (packable d (fst p)) (enc (fst p)) b (pk b (fst p) d)"
    and IH2: "\<And>p b. p \<in> set ps \<Longrightarrow> wb_inv b \<Longrightarrow> outcome (packable d (snd p)) (enc (snd p)) b (pk b (snd p) d)"
  shows "outcome (list_all (\<lambda>p. packable d (fst p) \<and> packable d (snd p)) ps)
     (enc (LProxy ps)) b (wb_table pk b (LProxy ps) d)"
proof -
  have w: "writes b [6] (wb_push b [COMBINE_TYPE TYPE_TABLE 0])"
    using writes_push [OF assms(1)] by (simp add: COMBINE_TYPE_eq seri_consts)
  have nil: "outcome True [0] b' (Inr (wb_nil b'))" if "wb_inv b'" for b'
    using writes_push [OF that, of "[0]"] by (simp add: outcome_writes wb_nil_def TYPE_NIL_def)
  have "outcome (True \<and> list_all (\<lambda>p. packable d (fst p) \<and> packable d (snd p)) ps \<and> True)
      ([6] @ concat (map (\<lambda>p. enc (fst p) @ enc (snd p)) ps) @ [0]) b
      (rbind (Inr (wb_push b [COMBINE_TYPE TYPE_TABLE 0])) (\<lambda>b0. rbind (wb_list (pack_pair pk d) b0 ps) (\<lambda>b1. Inr (wb_nil b1))))"
    using w by (intro outcome_bind outcome_writes outcome_list outcome_pair nil IH1 IH2) (auto dest: writes_inv)
  then show ?thesis by (simp add: wb_table_def wb_table_metapairs_def)
qed

lemma pack_one_outcome:
  "lua_wf v \<Longrightarrow> wb_inv b \<Longrightarrow> outcome (packable d v) (enc v) b (pack_one b v d)"
proof (induction v arbitrary: b d rule: enc.induct)
  case (1 b d)
  then show ?case using writes_push [of b "[0]"]
    by (auto simp: outcome_def pack_one.simps wb_nil_def TYPE_NIL_def)
next
  case (2 x b d)
  then show ?case using writes_integer by (auto simp: outcome_def pack_one.simps)
next
  case (3 x b d)
  then show ?case using writes_push2 [of b "[0x42]"]
    by (auto simp: outcome_def pack_one.simps wb_real_def COMBINE_TYPE_eq seri_consts)
next
  case (4 x b d)
  then show ?case using writes_push
    by (auto simp: outcome_def pack_one.simps wb_boolean_def COMBINE_TYPE_eq seri_consts)
next
  case (5 s b d)
  then show ?case using writes_string [of b s] by (auto simp: outcome_def pack_one.simps)
next
  case (6 x b d)
  then show ?case using writes_push2 [of b "[3]"]
    by (auto simp: outcome_def pack_one.simps wb_pointer_def seri_consts)
next
  case (7 n ps b d)
  have wf: "list_all (\<lambda>p. lua_wf (fst p) \<and> lua_wf (snd p)) (hash_part n ps)"
    using 7(4) by (auto simp: hash_part_def list_all_iff)
  show ?case
  proof (cases "MAX_DEPTH < d")
    case True
    then show ?thesis by (simp add: pack_one.simps outcome_def)
  next
    case False
    have "outcome (list_all (\<lambda>i. packable (Suc d) (rawgeti ps i)) [1..int n]
       \<and> list_all (\<lambda>p. packable (Suc d) (fst p) \<and> packable (Suc d) (snd p)) (hash_part n ps))
       (enc (LTable n ps)) b (wb_table (\<lambda>b v d. pack_one b v d) b (LTable n ps) (Suc d))"
      using 7(4,5) wf by (intro pack_one_table_outcome 7(1-3) lua_wf_rawgeti) (auto simp: list_all_iff)
    with False show ?thesis by (simp add: pack_one.simps [of b "LTable n ps"])
  qed
next
  case (8 ps b d)
  have wf: "list_all (\<lambda>p. lua_wf (fst p) \<and> lua_wf (snd p)) ps" using 8(3) by simp
  show ?case
  proof (cases "MAX_DEPTH < d")
    case True
    then show ?thesis by (simp add: pack_one.simps outcome_def)
  next
    case False
    have "outcome (list_all (\<lambda>p. packable (Suc d) (fst p) \<and> packable (Suc d) (snd p)) ps)
       (enc (LProxy ps)) b (wb_table (\<lambda>b v d. pack_one b v d) b (LProxy ps) (Suc d))"
      using 8(4) wf by (intro pack_one_proxy_outcome 8(1,2)) (auto simp: list_all_iff)
    with False show ?thesis by (simp add: pack_one.simps [of b "LProxy ps"])
  qed
next
  case (9 tn b d)
  then show ?case by (simp add: pack_one.simps outcome_def)
qed

lemma luaseri_pack_outcome:
  assumes "list_all lua_wf vs"
  shows "if list_all (packable 0) vs
    then length (concat (map enc vs)) < 2 ^ 31 \<longrightarrow> luaseri_pack vs = Inr (concat (map enc vs), int (length (concat (map enc vs))))
    else \<exists>m. luaseri_pack vs = Inl (Lua_error m)"
proof -
  have o: "outcome (list_all (packable 0) vs) (concat (map enc vs)) wb_init (pack_from wb_init vs)"
    unfolding pack_from_def using assms wb_inv_init by (intro outcome_list pack_one_outcome) (auto simp: list_all_iff)
  show ?thesis
  proof (cases "list_all (packable 0) vs")
    case True
    with o obtain b where b: "pack_from wb_init vs = Inr b" "wb_inv b" "wb_bytes b = concat (map enc vs)"
      by (auto simp: outcome_def writes_def wb_inv_init)
    with True seri_bytes [OF b(2)] show ?thesis by (simp add: luaseri_pack_def)
  qed (use o in \<open>auto simp: outcome_def luaseri_pack_def\<close>)
qed

section \<open>Unpacking reads the format\<close>

text \<open>
  The value read back: atoms are unchanged, and a table holds the elements \<open>1..n\<close> that are not
  nil, followed by the other pairs, in the order they were written.
\<close>

fun canon :: "nat lua \<Rightarrow> unit lua" where
  "canon (LTable n ps) =
     LTable () (concat (map (\<lambda>i. if rawgeti ps i = LNil then [] else [(LInt (of_int i), canon (rawgeti ps i))]) [1..int n])
                @ map (\<lambda>p. (canon (fst p), canon (snd p))) (hash_part n ps))"
| "canon (LProxy ps) = LTable () (map (\<lambda>p. (canon (fst p), canon (snd p))) ps)"
| "canon LNil = LNil"
| "canon (LInt x) = LInt x"
| "canon (LReal x) = LReal x"
| "canon (LBool b) = LBool b"
| "canon (LString s) = LString s"
| "canon (LUserdata p) = LUserdata p"
| "canon (LOther tn) = LOther tn"

text \<open>\<open>at rb xs\<close>: the bytes that are left to read are \<open>xs\<close>, and they are in the buffer.\<close>

definition at :: "read_block \<Rightarrow> byte list \<Rightarrow> bool" where
  "at rb xs \<longleftrightarrow>
     0 \<le> rb_ptr rb \<and> 0 \<le> rb_len rb \<and> rb_ptr rb + rb_len rb \<le> int (length (rb_buffer rb))
     \<and> take (nat (rb_len rb)) (drop (nat (rb_ptr rb)) (rb_buffer rb)) = xs"

lemma at_length: "at rb xs \<Longrightarrow> rb_len rb = int (length xs)"
  by (auto simp: at_def)

lemma at_read:
  assumes "at rb (xs @ ys)"
  obtains rb' where "rb_read rb (int (length xs)) = (Some (rb_ptr rb), rb')"
    "load rb (rb_ptr rb) (int (length xs)) = Inr xs" "at rb' ys"
proof
  let ?rb' = "rb\<lparr>rb_ptr := rb_ptr rb + int (length xs), rb_len := rb_len rb - int (length xs)\<rparr>"
  have len: "rb_len rb = int (length xs) + int (length ys)" using at_length [OF assms] by simp
  then show "rb_read rb (int (length xs)) = (Some (rb_ptr rb), ?rb')" by (simp add: rb_read_def)
  have a: "0 \<le> rb_ptr rb" "rb_ptr rb + rb_len rb \<le> int (length (rb_buffer rb))"
    "take (length xs + length ys) (drop (nat (rb_ptr rb)) (rb_buffer rb)) = xs @ ys"
    using assms len by (auto simp: at_def nat_add_distrib)
  have "take (length xs) (drop (nat (rb_ptr rb)) (rb_buffer rb)) = xs"
    using arg_cong [OF a(3), of "take (length xs)"] by (simp add: min_def split: if_splits)
  then show "load rb (rb_ptr rb) (int (length xs)) = Inr xs" using a(1,2) len by (simp add: load_def)
  have "take (length ys) (drop (length xs) (drop (nat (rb_ptr rb)) (rb_buffer rb))) = ys"
    using arg_cong [OF a(3), of "drop (length xs)"] by (simp add: drop_take)
  then show "at ?rb' ys" using a(1,2) len by (simp add: at_def nat_add_distrib add.commute)
qed

lemma at_take:
  assumes "at rb (xs @ ys)" "sz = int (length xs)"
  obtains rb' where "rb_take rb sz = Inr (xs, rb')" "at rb' ys"
proof -
  obtain rb' where "rb_read rb (int (length xs)) = (Some (rb_ptr rb), rb')"
    "load rb (rb_ptr rb) (int (length xs)) = Inr xs" "at rb' ys"
    using at_read [OF assms(1)] .
  with that [of rb'] assms(2) show thesis by (simp add: rb_take_def)
qed

lemma at_take_then:
  assumes "at rb (xs @ ys)" "sz = int (length xs)"
  shows "\<exists>rb'. rbind (rb_take rb sz) (\<lambda>(bs, rb1). Inr (f bs, rb1)) = Inr (f xs, rb') \<and> at rb' ys"
  using at_take [OF assms] by fastforce

lemma at_get_buffer:
  assumes "at rb (xs @ ys)"
  shows "\<exists>rb'. get_buffer rb (int (length xs)) = Inr (LString xs, rb') \<and> at rb' ys"
proof -
  obtain rb' where "rb_read rb (int (length xs)) = (Some (rb_ptr rb), rb')"
    "load rb (rb_ptr rb) (int (length xs)) = Inr xs" "at rb' ys"
    using at_read [OF assms] .
  then show ?thesis by (simp add: get_buffer_def)
qed

lemma tag_bytes:
  "list_all (\<lambda>t. list_all (\<lambda>c. uint ((of_int (t + 8 * c) :: byte) AND 7) = t
      \<and> uint (drop_bit 3 (of_int (t + 8 * c) :: byte)) = c) [0..31]) [0..7]"
  by code_simp

lemma tag_byte:
  "b = of_int (t + 8 * c) \<Longrightarrow> 0 \<le> t \<Longrightarrow> t < 8 \<Longrightarrow> 0 \<le> c \<Longrightarrow> c < 32 \<Longrightarrow>
   uint ((b :: byte) AND 7) = t \<and> uint (drop_bit 3 b) = c"
  using tag_bytes by (simp add: list_all_iff)

lemma unpack_one_tag:
  assumes "at rb (b # ys)" "b = of_int (t + 8 * c)" "0 \<le> t" "t < 8" "0 \<le> c" "c < 32"
  obtains rb' where "unpack_one (Suc m) lim k used rb = push_value lim (unpack_one m lim k) k used rb' t c" "at rb' ys"
proof -
  obtain rb' where "rb_take rb 1 = Inr ([b], rb')" "at rb' ys" using at_take [of rb "[b]" ys 1] assms(1) by auto
  with that tag_byte [OF assms(2-6)] show thesis by simp
qed

lemma length_le_bytes [simp]: "length (le_bytes k n) = k"
  by (induction k arbitrary: n) simp_all

lemma le_num_le_bytes: "le_num (le_bytes k n) = n mod 256 ^ k"
proof (induction k arbitrary: n)
  case (Suc k)
  have "n mod (256 * 256 ^ k) = n mod 256 + 256 * (n div 256 mod 256 ^ k)"
    by (simp add: mod_mult2_eq)
  with Suc show ?case by (simp add: unsigned_of_nat take_bit_eq_mod)
qed simp

lemma unat_ucast_mod: "unat (ucast (v :: u64) :: 'b::len word) = unat v mod 2 ^ LENGTH('b)"
  by (simp add: unsigned_ucast_eq take_bit_eq_mod)

lemma sint_nonneg:
  assumes "0 \<le> sint (v :: u64)"
  shows "unat v = nat (sint v)"
proof -
  have nb: "\<not> bit (uint v) 63" using assms by (simp add: sint_uint signed_take_bit_nonnegative_iff)
  then have "sint v = take_bit 63 (uint v)" by (simp add: sint_uint signed_take_bit_eq_if_positive)
  also have "\<dots> = take_bit (Suc 63) (uint v)" using nb by (subst take_bit_Suc_from_most) simp
  also have "\<dots> = uint v" using unsigned_less [of v, where 'a = int] by (simp add: take_bit_int_eq_self)
  finally show ?thesis by simp
qed

lemma get_integer_bytes:
  obtains c rest where "int_bytes v = of_int (2 + 8 * c) # rest" "0 \<le> c" "c < 32" "c \<noteq> 8"
    "\<forall>rb ys. at rb (rest @ ys) \<longrightarrow> (\<exists>rb'. get_integer rb c = Inr (v, rb') \<and> at rb' ys)"
proof -
  consider "v = 0" | "v \<noteq> 0" "v \<noteq> scast (ucast v :: u32)"
    | "v \<noteq> 0" "v = scast (ucast v :: u32)" "sint v < 0 \<or> 0x10000 \<le> sint v"
    | "v \<noteq> 0" "v = scast (ucast v :: u32)" "0 \<le> sint v" "sint v < 0x100"
    | "v \<noteq> 0" "v = scast (ucast v :: u32)" "0x100 \<le> sint v" "sint v < 0x10000"
    by linarith
  then show thesis
  proof cases
    case 1
    then show thesis by (intro that [of 0 "[]"]) (auto simp: int_bytes_def get_integer_def seri_consts)
  next
    case 2
    have v: "unat v mod 256 ^ 8 = unat v" using unsigned_less [of v, where 'a = nat] by simp
    show thesis
    proof (rule that [of 6 "le_bytes 8 (unat v)"], goal_cases)
      case 5
      {
        fix rb ys assume "at rb (le_bytes 8 (unat v) @ ys)"
        from at_take_then [OF this, of 8 "\<lambda>bs. (of_nat (le_num bs) :: u64)"] have "\<exists>rb'. get_integer rb 6 = Inr (v, rb') \<and> at rb' ys"
          using v by (simp add: get_integer_def seri_consts le_num_le_bytes)
      }
      then show ?case by blast
    qed (use 2 in \<open>auto simp: int_bytes_def\<close>)
  next
    case 3
    let ?u = "ucast v :: u32"
    have u: "of_nat (unat ?u mod 256 ^ 4) = ?u" using unsigned_less [of ?u, where 'a = nat] by simp
    note v = 3(2) [symmetric]
    show thesis
    proof (rule that [of 4 "le_bytes 4 (unat ?u)"], goal_cases)
      case 5
      {
        fix rb ys assume "at rb (le_bytes 4 (unat ?u) @ ys)"
        from at_take_then [OF this, of 4 "\<lambda>bs. (scast (of_nat (le_num bs) :: u32) :: u64)"] have "\<exists>rb'. get_integer rb 4 = Inr (v, rb') \<and> at rb' ys"
          using u v by (simp add: get_integer_def seri_consts le_num_le_bytes)
      }
      then show ?case by blast
    qed (use 3 in \<open>auto simp: int_bytes_def\<close>)
  next
    case 4
    then have u: "unat (ucast v :: byte) = unat v" using sint_nonneg [of v] by (simp add: unat_ucast_mod)
    show thesis
    proof (rule that [of 1 "[ucast v]"], goal_cases)
      case 5
      {
        fix rb ys assume "at rb ([ucast v] @ ys)"
        from at_take_then [OF this, of 1 "\<lambda>bs. (of_nat (le_num bs) :: u64)"] have "\<exists>rb'. get_integer rb 1 = Inr (v, rb') \<and> at rb' ys"
          using u by (simp add: get_integer_def seri_consts le_num_le_bytes)
      }
      then show ?case by blast
    qed (use 4 in \<open>auto simp: int_bytes_def\<close>)
  next
    case 5
    then have u: "unat (ucast v :: u16) = unat v" using sint_nonneg [of v] by (simp add: unat_ucast_mod)
    have m: "unat v mod 256 ^ 2 = unat v" using 5 sint_nonneg [of v] by simp
    show thesis
    proof (rule that [of 2 "le_bytes 2 (unat (ucast v :: u16))"], goal_cases)
      case 5
      {
        fix rb ys assume "at rb (le_bytes 2 (unat (ucast v :: u16)) @ ys)"
        from at_take_then [OF this, of 2 "\<lambda>bs. (of_nat (le_num bs) :: u64)"] have "\<exists>rb'. get_integer rb 2 = Inr (v, rb') \<and> at rb' ys"
          using u m by (simp add: get_integer_def seri_consts le_num_le_bytes)
      }
      then show ?case by blast
    qed (use \<open>v \<noteq> 0\<close> \<open>v = scast (ucast v :: u32)\<close> \<open>0x100 \<le> sint v\<close> \<open>sint v < 0x10000\<close> in \<open>auto simp: int_bytes_def\<close>)
  qed
qed

text \<open>\<open>decodes one v\<close>: the reader \<open>one\<close> turns the bytes of \<open>v\<close> into its canonical form.\<close>

definition decodes :: "unpacker \<Rightarrow> nat lua \<Rightarrow> bool" where
  "decodes one v \<longleftrightarrow> (\<forall>rb ys. at rb (enc v @ ys) \<longrightarrow> (\<exists>rb'. one rb = Inr (canon v, rb') \<and> at rb' ys))"

lemma decodesE:
  assumes "decodes one v" "at rb (enc v @ ys)"
  obtains rb' where "one rb = Inr (canon v, rb')" "at rb' ys"
  using assms by (auto simp: decodes_def)

lemma array_header_bytes:
  assumes "at rb (table_header n @ ys)" "n < 2 ^ 31"
  obtains c rb1 rb2 where "rb_take rb 1 = Inr ([of_int (6 + 8 * c)], rb1)" "0 \<le> c" "c < 32"
    "array_header rb1 c = Inr (int n, rb2)" "at rb2 ys"
proof (cases "n < 31")
  case True
  then obtain rb1 where "rb_take rb 1 = Inr ([of_nat (6 + 8 * n)], rb1)" "at rb1 ys"
    using at_take [of rb "[of_nat (6 + 8 * n)]" ys 1] assms(1) by (auto simp: table_header_def)
  with True that [of "int n" rb1 rb1] show thesis by (simp add: array_header_def MAX_COOKIE_def)
next
  case False
  obtain rb1 where 1: "rb_take rb 1 = Inr ([0xfe], rb1)" "at rb1 (int_bytes (of_nat n) @ ys)"
    using at_take [of rb "[0xfe]" "int_bytes (of_nat n) @ ys" 1] assms(1) False by (auto simp: table_header_def)
  obtain c rest where c: "int_bytes (of_nat n) = of_int (2 + 8 * c) # rest" "0 \<le> c" "c < 32" "c \<noteq> 8"
    "\<forall>rb ys. at rb (rest @ ys) \<longrightarrow> (\<exists>rb'. get_integer rb c = Inr (of_nat n, rb') \<and> at rb' ys)"
    using get_integer_bytes [of "of_nat n"] .
  obtain rb2 where 2: "rb_take rb1 1 = Inr ([of_int (2 + 8 * c)], rb2)" "at rb2 (rest @ ys)"
    using at_take [of rb1 "[of_int (2 + 8 * c)]" "rest @ ys" 1] 1(2) c(1) by auto
  obtain rb3 where 3: "get_integer rb2 c = Inr (of_nat n, rb3)" "at rb3 ys" using c(5) 2(2) by blast
  have n: "c_int (uint (of_nat n :: u64)) = int n"
    using assms(2) by (simp add: unsigned_of_nat uint_word_of_int take_bit_nat_eq_self)
  have "array_header rb1 31 = Inr (int n, rb3)"
    using 2(1) 3(1) c(2-4) n tag_byte [OF refl, of 2 c] by (simp add: array_header_def seri_consts Let_def)
  with 1(1) 3(2) that [of 31 rb1 rb3] show thesis by simp
qed

subsection \<open>Building tables\<close>

lemma is_table_canon [simp]: "is_table (canon v) = is_table v"
  by (cases v) simp_all

lemma canon_Nil_iff [simp]: "canon v = LNil \<longleftrightarrow> v = LNil" "LNil = canon v \<longleftrightarrow> v = LNil"
  by (cases v; simp)+

lemma canon_inj: "\<not> is_table k \<Longrightarrow> canon k = canon k' \<longleftrightarrow> k = k'"
  by (cases k; cases k') auto

lemma canon_LInt_iff: "canon k = LInt x \<longleftrightarrow> k = LInt x"
  by (cases k) auto

lemma table_key_canon: "good_key k \<Longrightarrow> table_key (canon k) = Inr (canon k)"
  by (cases k) (auto simp: good_key_def table_key_def)

lemma raw_put_fresh:
  "\<forall>p\<in>set t. \<not> same_key k (fst p) \<Longrightarrow> raw_put t k v = (if v = LNil then t else t @ [(k, v)])"
  by (auto simp: raw_put_def list_ex_iff filter_id_conv)

lemma raw_put_array:
  assumes "n < 2 ^ 31" "\<forall>j\<in>{i..int n}. LInt (of_int j) \<notin> fst ` set t" "0 < i"
  shows "fold (\<lambda>i t. raw_put t (LInt (of_int i)) (canon (rawgeti ps i))) [i..int n] t
    = t @ concat (map (\<lambda>i. if rawgeti ps i = LNil then [] else [(LInt (of_int i), canon (rawgeti ps i))]) [i..int n])"
  using assms(2,3)
proof (induction "nat (int n - i + 1)" arbitrary: i t)
  case 0
  then show ?case by simp
next
  case (Suc m)
  then have le: "i \<le> int n" by simp
  let ?t = "raw_put t (LInt (of_int i)) (canon (rawgeti ps i))"
  have "\<forall>p\<in>set t. \<not> same_key (LInt (of_int i)) (fst p)" using Suc.prems(1) le by (auto simp: same_key_def image_iff)
  from raw_put_fresh [OF this]
  have t: "?t = t @ (if rawgeti ps i = LNil then [] else [(LInt (of_int i), canon (rawgeti ps i))])" by simp
  have "LInt (of_int j) \<notin> fst ` set ?t" if j: "j \<in> {i + 1..int n}" for j
  proof -
    have "uint (of_int j :: u64) = j" "uint (of_int i :: u64) = i"
      using j assms(1) Suc.prems(2) by (simp_all add: uint_word_of_int take_bit_int_eq_self)
    moreover have "j \<noteq> i" using j by simp
    ultimately have "(of_int j :: u64) \<noteq> of_int i" by metis
    then show ?thesis using Suc.prems(1) j by (simp add: t)
  qed
  then show ?case
    using Suc.hyps(1) [of "i + 1" ?t] Suc.hyps(2) Suc.prems(2) le by (simp add: upto_rec1 t)
qed

lemma raw_put_pairs:
  assumes "distinct (filter (\<lambda>k. \<not> is_table k) (map fst ps))" "list_all (\<lambda>p. snd p \<noteq> LNil) ps"
    and "\<forall>p\<in>set ps. \<not> is_table (fst p) \<longrightarrow> canon (fst p) \<notin> fst ` set t"
  shows "fold (\<lambda>p t. raw_put t (canon (fst p)) (canon (snd p))) ps t
    = t @ map (\<lambda>p. (canon (fst p), canon (snd p))) ps"
  using assms
proof (induction ps arbitrary: t)
  case (Cons p ps)
  have "\<forall>q\<in>set t. \<not> same_key (canon (fst p)) (fst q)" using Cons.prems(3) by (auto simp: same_key_def)
  from raw_put_fresh [OF this] Cons.prems(2)
  have t: "raw_put t (canon (fst p)) (canon (snd p)) = t @ [(canon (fst p), canon (snd p))]" by simp
  have "canon (fst q) \<noteq> canon (fst p)" if q: "q \<in> set ps" "\<not> is_table (fst q)" for q
  proof
    assume "canon (fst q) = canon (fst p)"
    then have "fst q = fst p" using q(2) canon_inj by blast
    moreover from this have "\<not> is_table (fst p)" using q by simp
    ultimately have "fst p \<in> set (filter (\<lambda>k. \<not> is_table k) (map fst ps))" "\<not> is_table (fst p)"
      using q(1) by (auto simp: image_iff intro!: bexI [of _ q])
    with Cons.prems(1) show False by simp
  qed
  with Cons.prems Cons.IH [of "t @ [(canon (fst p), canon (snd p))]"] show ?case
    by (simp add: t split: if_splits)
qed simp

lemma unpack_array_enc:
  assumes "\<And>j. j \<in> {i..int n} \<Longrightarrow> decodes one (rawgeti ps j)"
    and "at rb (concat (map (\<lambda>i. enc (rawgeti ps i)) [i..int n]) @ ys)"
  shows "\<exists>rb'. unpack_array one (nat (int n - i + 1)) i t rb
      = Inr (fold (\<lambda>i t. raw_put t (LInt (of_int i)) (canon (rawgeti ps i))) [i..int n] t, rb') \<and> at rb' ys"
  using assms
proof (induction "nat (int n - i + 1)" arbitrary: i t rb)
  case 0
  then show ?case by simp
next
  case (Suc m)
  then have le: "i \<le> int n" and m: "m = nat (int n - (i + 1) + 1)" by simp_all
  have up: "[i..int n] = i # [i + 1..int n]" using le by (simp add: upto_rec1)
  have d: "decodes one (rawgeti ps i)" using Suc.prems(1) le by simp
  obtain rb1 where 1: "one rb = Inr (canon (rawgeti ps i), rb1)"
    "at rb1 (concat (map (\<lambda>i. enc (rawgeti ps i)) [i + 1..int n]) @ ys)"
    using d Suc.prems(2) up by (auto simp: decodes_def)
  from Suc.hyps(1) [OF m Suc.prems(1) 1(2), of "raw_put t (LInt (of_int i)) (canon (rawgeti ps i))"]
  show ?case unfolding Suc.hyps(2) [symmetric] m [symmetric] up by (simp add: 1(1))
qed

lemma unpack_pairs_enc:
  assumes "\<And>p. p \<in> set ps \<Longrightarrow> decodes one (fst p) \<and> decodes val (snd p) \<and> good_key (fst p)"
    and "decodes one LNil" "length ps < n"
    and "at rb (concat (map (\<lambda>p. enc (fst p) @ enc (snd p)) ps) @ 0 # ys)"
  shows "\<exists>rb'. unpack_pairs one val n t rb
      = Inr (fold (\<lambda>p t. raw_put t (canon (fst p)) (canon (snd p))) ps t, rb') \<and> at rb' ys"
  using assms
proof (induction ps arbitrary: t rb n)
  case Nil
  then obtain m where "n = Suc m" by (cases n) auto
  moreover obtain rb' where "one rb = Inr (LNil, rb')" "at rb' ys"
    using Nil(2,4) by (auto simp: decodes_def)
  ultimately show ?case by simp
next
  case (Cons p ps)
  then obtain m where m: "n = Suc m" "length ps < m" by (cases n) auto
  have p: "decodes one (fst p)" "decodes val (snd p)" "good_key (fst p)" using Cons.prems(1) by auto
  let ?rest = "concat (map (\<lambda>p. enc (fst p) @ enc (snd p)) ps) @ 0 # ys"
  obtain rb1 where 1: "one rb = Inr (canon (fst p), rb1)" "at rb1 (enc (snd p) @ ?rest)"
    using p(1) Cons.prems(4) by (auto simp: decodes_def)
  obtain rb2 where 2: "val rb1 = Inr (canon (snd p), rb2)" "at rb2 ?rest" using decodesE [OF p(2) 1(2)] .
  have "fst p \<noteq> LNil" using p(3) by (simp add: good_key_def)
  with Cons.IH [OF _ Cons.prems(2) m(2) 2(2)] Cons.prems(1) show ?case
    by (simp add: m(1) 1(1) 2(1) table_key_canon [OF p(3)])
qed

lemma enc_ne: "packable d v \<Longrightarrow> enc v \<noteq> []"
  by (cases v) (auto simp: int_bytes_def string_bytes_def)

lemma sum_list_member: "x \<in> set xs \<Longrightarrow> length (f x) \<le> length (concat (map f xs))"
  by (induction xs) auto

lemma length_pairs_enc:
  assumes "list_all (\<lambda>p. packable d (fst p) \<and> packable d (snd p)) ps"
  shows "length ps \<le> length (concat (map (\<lambda>p. enc (fst p) @ enc (snd p)) ps))"
  using assms
proof (induction ps)
  case (Cons p ps)
  then have "enc (fst p) \<noteq> []" using enc_ne by auto
  then have "1 \<le> length (enc (fst p))" by (simp add: Suc_leI)
  with Cons show ?case by simp
qed simp

lemma good_pairs_hash_part:
  assumes "good_pairs ps"
  shows "distinct (filter (\<lambda>k. \<not> is_table k) (map fst (hash_part n ps)))" "list_all (\<lambda>p. snd p \<noteq> LNil) (hash_part n ps)"
    "\<And>p. p \<in> set (hash_part n ps) \<Longrightarrow> good_key (fst p)"
proof -
  have "filter (\<lambda>k. \<not> is_table k) (map fst (hash_part n ps))
      = filter (\<lambda>k. \<not> array_key (int n) k) (filter (\<lambda>k. \<not> is_table k) (map fst ps))"
    by (induction ps) (auto simp: hash_part_def)
  then show "distinct (filter (\<lambda>k. \<not> is_table k) (map fst (hash_part n ps)))"
    using assms by (metis distinct_filter good_pairs_def)
  show "list_all (\<lambda>p. snd p \<noteq> LNil) (hash_part n ps)" "\<And>p. p \<in> set (hash_part n ps) \<Longrightarrow> good_key (fst p)"
    using assms by (auto simp: good_pairs_def hash_part_def list_all_iff)
qed

lemma array_key_of_int: "0 < i \<Longrightarrow> i \<le> int n \<Longrightarrow> n < 2 ^ 31 \<Longrightarrow> array_key (int n) (LInt (of_int i))"
  by (simp add: array_key_def signed_of_int signed_take_bit_int_eq_self)

lemma decodes_table:
  assumes wf: "lua_wf (LTable n ps)" and ok: "packable d (LTable n ps)" and len: "length (enc (LTable n ps)) \<le> Suc k"
    and IH1: "\<And>i. i \<in> set [1..int n] \<Longrightarrow> decodes (unpack_one m None k (used + 1)) (rawgeti ps i)"
    and IH2: "\<And>p. p \<in> set (hash_part n ps) \<Longrightarrow> decodes (unpack_one m None k (used + 1)) (fst p) \<and> decodes (unpack_one m None k (used + 2)) (snd p)"
    and nil: "decodes (unpack_one m None k (used + 1)) LNil"
  shows "decodes (unpack_one (Suc m) None k used) (LTable n ps)"
  unfolding decodes_def
proof (intro allI impI)
  fix rb ys
  let ?arr = "concat (map (\<lambda>i. enc (rawgeti ps i)) [1..int n])"
  let ?hash = "concat (map (\<lambda>p. enc (fst p) @ enc (snd p)) (hash_part n ps))"
  let ?t = "concat (map (\<lambda>i. if rawgeti ps i = LNil then [] else [(LInt (of_int i), canon (rawgeti ps i))]) [1..int n])"
  assume "at rb (enc (LTable n ps) @ ys)"
  then have "at rb (table_header n @ ?arr @ ?hash @ 0 # ys)" by simp
  moreover have n: "n < 2 ^ 31" and good: "good_pairs ps" using wf by simp_all
  ultimately obtain c rb1 rb2 where hdr: "rb_take rb 1 = Inr ([of_int (6 + 8 * c)], rb1)" "0 \<le> c" "c < 32"
    "array_header rb1 c = Inr (int n, rb2)" "at rb2 (?arr @ ?hash @ 0 # ys)" using array_header_bytes by blast
  have arr: "fold (\<lambda>i t. raw_put t (LInt (of_int i)) (canon (rawgeti ps i))) [1..int n] [] = ?t"
    using raw_put_array [OF n, of 1 "[]" ps] by simp
  obtain rb3 where 3: "unpack_array (unpack_one m None k (used + 1)) n 1 [] rb2 = Inr (?t, rb3)" "at rb3 (?hash @ 0 # ys)"
    using unpack_array_enc [of 1 n "unpack_one m None k (used + 1)" ps rb2 "?hash @ 0 # ys" "[]"] IH1 hdr(5) arr by auto
  have fuel: "length (hash_part n ps) < k"
    using length_pairs_enc [of "Suc d" "hash_part n ps"] ok len by (auto simp: table_header_def split: if_splits)
  have notin: "canon (fst p) \<notin> fst ` set ?t" if p: "p \<in> set (hash_part n ps)" for p
  proof
    assume "canon (fst p) \<in> fst ` set ?t"
    then obtain i where "canon (fst p) = LInt (of_int i)" "0 < i" "i \<le> int n" by (auto split: if_splits)
    then show False using p array_key_of_int [of i n] n canon_LInt_iff by (auto simp: hash_part_def)
  qed
  have "\<exists>rb4. unpack_pairs (unpack_one m None k (used + 1)) (unpack_one m None k (used + 2)) k ?t rb3
      = Inr (?t @ map (\<lambda>p. (canon (fst p), canon (snd p))) (hash_part n ps), rb4) \<and> at rb4 ys"
    using unpack_pairs_enc [OF _ nil fuel 3(2), of "unpack_one m None k (used + 2)" ?t] IH2 good_pairs_hash_part [OF good, where n = n]
      raw_put_pairs [of "hash_part n ps" ?t] notin by simp
  then obtain rb4 where 4: "unpack_pairs (unpack_one m None k (used + 1)) (unpack_one m None k (used + 2)) k ?t rb3
      = Inr (?t @ map (\<lambda>p. (canon (fst p), canon (snd p))) (hash_part n ps), rb4)" "at rb4 ys" by blast
  have "push_value None (unpack_one m None k) k used rb1 6 c = Inr (canon (LTable n ps), rb4)"
    using hdr(4) 3(1) 4(1) by (simp add: push_value_def unpack_table_def luaL_checkstack_def seri_consts)
  then show "\<exists>rb'. unpack_one (Suc m) None k used rb = Inr (canon (LTable n ps), rb') \<and> at rb' ys"
    using hdr(1-3) 4(2) tag_byte [OF refl, of 6 c] by (simp del: canon.simps)
qed

lemma decodes_proxy:
  assumes wf: "lua_wf (LProxy ps)" and ok: "packable d (LProxy ps)" and len: "length (enc (LProxy ps)) \<le> Suc k"
    and IH: "\<And>p. p \<in> set ps \<Longrightarrow> decodes (unpack_one m None k (used + 1)) (fst p) \<and> decodes (unpack_one m None k (used + 2)) (snd p)"
    and nil: "decodes (unpack_one m None k (used + 1)) LNil"
  shows "decodes (unpack_one (Suc m) None k used) (LProxy ps)"
  unfolding decodes_def
proof (intro allI impI)
  fix rb ys
  let ?hash = "concat (map (\<lambda>p. enc (fst p) @ enc (snd p)) ps)"
  assume "at rb (enc (LProxy ps) @ ys)"
  then have "at rb (6 # ?hash @ 0 # ys)" by simp
  then obtain rb1 where 1: "unpack_one (Suc m) None k used rb = push_value None (unpack_one m None k) k used rb1 6 0" "at rb1 (?hash @ 0 # ys)"
    by (rule unpack_one_tag [of rb 6 _ 6 0 m None k used]) simp_all
  have good: "good_pairs ps" using wf by simp
  have fuel: "length ps < k" using length_pairs_enc [of "Suc d" ps] ok len by simp
  have "\<exists>rb4. unpack_pairs (unpack_one m None k (used + 1)) (unpack_one m None k (used + 2)) k [] rb1 = Inr (map (\<lambda>p. (canon (fst p), canon (snd p))) ps, rb4) \<and> at rb4 ys"
    using unpack_pairs_enc [OF _ nil fuel 1(2), of "unpack_one m None k (used + 2)" "[]"] IH raw_put_pairs [of ps "[]"] good
    by (simp add: good_pairs_def list_all_iff)
  then show "\<exists>rb'. unpack_one (Suc m) None k used rb = Inr (canon (LProxy ps), rb') \<and> at rb' ys"
    unfolding 1(1) by (auto simp: push_value_def unpack_table_def luaL_checkstack_def array_header_def seri_consts)
qed

lemma decodes_atom:
  assumes "enc v = of_int (t + 8 * c) # bs" "0 \<le> t" "t < 8" "0 \<le> c" "c < 32"
    and "\<And>rb ys. at rb (bs @ ys) \<Longrightarrow> \<exists>rb'. push_value None (unpack_one m None k) k used rb t c = Inr (canon v, rb') \<and> at rb' ys"
  shows "decodes (unpack_one (Suc m) None k used) v"
  unfolding decodes_def
proof (intro allI impI)
  fix rb ys
  assume "at rb (enc v @ ys)"
  then have "at rb (of_int (t + 8 * c) # (bs @ ys))" using assms(1) by simp
  from unpack_one_tag [OF this refl assms(2-5), of m None k used]
  obtain rb' where "unpack_one (Suc m) None k used rb = push_value None (unpack_one m None k) k used rb' t c" "at rb' (bs @ ys)" .
  with assms(6) show "\<exists>rb'. unpack_one (Suc m) None k used rb = Inr (canon v, rb') \<and> at rb' ys" by simp
qed

lemma decodes_string:
  assumes "length s < 2 ^ 31"
  shows "decodes (unpack_one (Suc m) None k used) (LString s)"
proof -
  consider "length s < 32" | "32 \<le> length s" "length s < 0x10000" | "0x10000 \<le> length s" by linarith
  then show ?thesis
  proof cases
    case 1
    show ?thesis
      by (rule decodes_atom [of _ 4 "int (length s)" s])
        (use 1 at_get_buffer in \<open>auto simp: string_bytes_def push_value_def seri_consts\<close>)
  next
    case 2
    show ?thesis
    proof (rule decodes_atom [of _ 5 2 "le_bytes 2 (length s) @ s"], goal_cases)
      case (6 rb ys)
      then obtain rb1 where "rb_take rb 2 = Inr (le_bytes 2 (length s), rb1)" "at rb1 (s @ ys)"
        using at_take [of rb "le_bytes 2 (length s)" "s @ ys" 2] by auto
      with at_get_buffer [of rb1 s ys] 2 show ?case by (simp add: push_value_def seri_consts le_num_le_bytes)
    qed (use 2 in \<open>auto simp: string_bytes_def\<close>)
  next
    case 3
    show ?thesis
    proof (rule decodes_atom [of _ 5 4 "le_bytes 4 (length s) @ s"], goal_cases)
      case (6 rb ys)
      then obtain rb1 where "rb_take rb 4 = Inr (le_bytes 4 (length s), rb1)" "at rb1 (s @ ys)"
        using at_take [of rb "le_bytes 4 (length s)" "s @ ys" 4] by auto
      with at_get_buffer [of rb1 s ys] assms show ?case
        by (simp add: push_value_def seri_consts le_num_le_bytes)
    qed (use 3 in \<open>auto simp: string_bytes_def\<close>)
  qed
qed

lemma decodes_integer: "decodes (unpack_one (Suc m) None k used) (LInt x)"
proof -
  obtain c rest where c: "int_bytes x = of_int (2 + 8 * c) # rest" "0 \<le> c" "c < 32" "c \<noteq> 8"
    "\<forall>rb ys. at rb (rest @ ys) \<longrightarrow> (\<exists>rb'. get_integer rb c = Inr (x, rb') \<and> at rb' ys)"
    using get_integer_bytes [of x] .
  show ?thesis
    by (rule decodes_atom [of _ 2 c rest]) (use c in \<open>fastforce simp: push_value_def seri_consts\<close>)+
qed

lemma decodes_word64:
  assumes "enc v = of_int (t + 8 * c) # le_bytes 8 (unat w)" "t = 2 \<and> c = 8 \<and> v = LReal w \<or> t = 3 \<and> c = 0 \<and> v = LUserdata w"
  shows "decodes (unpack_one (Suc m) None k used) v"
proof (rule decodes_atom [OF assms(1)], goal_cases)
  case (5 rb ys)
  have w: "(of_nat (le_num (le_bytes 8 (unat w))) :: u64) = w"
    using unsigned_less [of w, where 'a = nat] by (simp add: le_num_le_bytes)
  obtain rb' where "rbind (rb_take rb 8) (\<lambda>(bs, rb1). Inr ((of_nat (le_num bs) :: u64), rb1)) = Inr (w, rb')" "at rb' ys"
    using at_take_then [OF 5, of 8 "\<lambda>bs. of_nat (le_num bs) :: u64"] w by auto
  with assms(2) show ?case by (auto simp: push_value_def seri_consts get_real_def get_pointer_def)
qed (use assms(2) in auto)

lemma decodes_nil: "decodes (unpack_one (Suc m) None k used) LNil"
  by (rule decodes_atom [of _ 0 0 "[]"]) (auto simp: push_value_def seri_consts)

lemma decodes_bool: "decodes (unpack_one (Suc m) None k used) (LBool b)"
  by (rule decodes_atom [of _ 1 "if b then 1 else 0" "[]"]) (auto simp: push_value_def seri_consts)

lemma pair_enc_length:
  assumes "p \<in> set ps"
  shows "length (enc (fst p)) + length (enc (snd p)) \<le> length (concat (map (\<lambda>p. enc (fst p) @ enc (snd p)) ps))"
  using sum_list_member [OF assms, of "\<lambda>p. enc (fst p) @ enc (snd p)"] by simp

lemma unpack_one_enc:
  "lua_wf v \<Longrightarrow> packable d v \<Longrightarrow> length (enc v) \<le> n \<Longrightarrow> length (enc v) \<le> Suc q \<Longrightarrow> decodes (unpack_one n None q used) v"
proof (induction v arbitrary: d n used rule: enc.induct)
  case 1
  then obtain m where "n = Suc m" by (cases n) auto
  then show ?case by (simp add: decodes_nil del: unpack_one.simps)
next
  case (2 x)
  then obtain m where "n = Suc m" by (cases n) (auto simp: int_bytes_def split: if_splits)
  then show ?case by (simp add: decodes_integer del: unpack_one.simps)
next
  case (3 x)
  then obtain m where "n = Suc m" by (cases n) auto
  then show ?case using decodes_word64 [of "LReal x" 2 8 x m] by (simp del: unpack_one.simps)
next
  case (4 b)
  then obtain m where "n = Suc m" by (cases n) auto
  then show ?case by (simp add: decodes_bool del: unpack_one.simps)
next
  case (5 s)
  then obtain m where "n = Suc m" by (cases n) (auto simp: string_bytes_def split: if_splits)
  with 5 show ?case by (simp add: decodes_string del: unpack_one.simps)
next
  case (6 x)
  then obtain m where "n = Suc m" by (cases n) auto
  then show ?case using decodes_word64 [of "LUserdata x" 3 0 x m] by (simp del: unpack_one.simps)
next
  case (7 k ps)
  obtain m' where n: "n = Suc (Suc m')" using 7(6) by (cases n; cases "n - 1") (auto simp: table_header_def split: if_splits)
  have "length (enc (LTable k ps)) \<le> Suc (Suc m')" using 7(6) n by simp
  then have len: "length (concat (map (\<lambda>i. enc (rawgeti ps i)) [1..int k]))
      + length (concat (map (\<lambda>p. enc (fst p) @ enc (snd p)) (hash_part k ps))) \<le> Suc m'"
    by (auto simp: table_header_def split: if_splits)
  have len7: "length (enc (LTable k ps)) \<le> Suc q" by (rule 7(7))
  then have len': "length (concat (map (\<lambda>i. enc (rawgeti ps i)) [1..int k]))
      + length (concat (map (\<lambda>p. enc (fst p) @ enc (snd p)) (hash_part k ps))) \<le> Suc q"
    by (auto simp: table_header_def split: if_splits)
  have "decodes (unpack_one (Suc m') None q used') (rawgeti ps i)" if i: "i \<in> set [1..int k]" for i used'
    using 7(1) [OF i lua_wf_rawgeti [OF 7(4)], of "Suc d" "Suc m'" used'] i 7(5) len len'
      sum_list_member [OF i, of "\<lambda>i. enc (rawgeti ps i)"] by (auto simp: list_all_iff simp del: unpack_one.simps)
  moreover have "decodes (unpack_one (Suc m') None q used') (fst p) \<and> decodes (unpack_one (Suc m') None q used'') (snd p)"
    if p: "p \<in> set (hash_part k ps)" for p used' used''
  proof -
    have "lua_wf (fst p)" "lua_wf (snd p)" using 7(4) p by (auto simp: list_all_iff hash_part_def)
    moreover have "packable (Suc d) (fst p)" "packable (Suc d) (snd p)" using 7(5) p by (auto simp: list_all_iff)
    ultimately show ?thesis using 7(2,3) [OF p] pair_enc_length [OF p] len len' by (simp del: unpack_one.simps)
  qed
  ultimately show ?case unfolding n using decodes_table [OF 7(4,5) len7] decodes_nil by blast
next
  case (8 ps)
  obtain m' where n: "n = Suc (Suc m')" using 8(5) by (cases n; cases "n - 1") auto
  have len: "length (enc (LProxy ps)) \<le> Suc (Suc m')" using 8(5) n by simp
  have "decodes (unpack_one (Suc m') None q used') (fst p) \<and> decodes (unpack_one (Suc m') None q used'') (snd p)" if p: "p \<in> set ps" for p used' used''
  proof -
    have "lua_wf (fst p)" "lua_wf (snd p)" using 8(3) p by (auto simp: list_all_iff)
    moreover have "packable (Suc d) (fst p)" "packable (Suc d) (snd p)" using 8(4) p by (auto simp: list_all_iff)
    ultimately show ?thesis using 8(1,2) [OF p] pair_enc_length [OF p] len 8(6) by (simp del: unpack_one.simps)
  qed
  then show ?case unfolding n using decodes_proxy [OF 8(3,4,6)] decodes_nil by blast
next
  case (9 tn)
  then show ?case by simp
qed

lemma at_Nil_read: "at rb [] \<Longrightarrow> rb_read rb 1 = (None, rb)"
  using at_length [of rb "[]"] by (simp add: rb_read_def)

lemma unpack_loop_one:
  assumes "at rb (x # xs)"
  shows "unpack_loop cs lim k (Suc n) i rb
    = rbind (if i mod 8 = 7 then luaL_checkstack lim (i + 1) else Inr ()) (\<lambda>_.
      rbind (unpack_one (Suc cs) lim k (i + 1) rb) (\<lambda>(v, rb2). rbind (unpack_loop cs lim k n (i + 1) rb2) (\<lambda>vs. Inr (v # vs))))"
proof -
  obtain rb' where "rb_read rb (int (length [x])) = (Some (rb_ptr rb), rb')"
    "load rb (rb_ptr rb) (int (length [x])) = Inr [x]" "at rb' xs"
    using at_read [of rb "[x]" xs] assms by auto
  then show ?thesis by (simp add: rb_take_def)
qed

lemma unpack_loop_enc:
  assumes "list_all lua_wf vs" "list_all (packable 0) vs" "at rb (concat (map enc vs))" "length (concat (map enc vs)) < n"
    "length (concat (map enc vs)) \<le> cs" "length (concat (map enc vs)) \<le> k"
  shows "unpack_loop cs None k n i rb = Inr (map canon vs)"
  using assms
proof (induction vs arbitrary: rb n i)
  case Nil
  then obtain m where "n = Suc m" by (cases n) auto
  with Nil show ?case by (simp add: at_Nil_read luaL_checkstack_def)
next
  case (Cons v vs)
  obtain m where m: "n = Suc m" using Cons.prems(4) by (cases n) auto
  obtain x xs where x: "enc v = x # xs" using Cons.prems(2) enc_ne by (cases "enc v") auto
  have a: "at rb (enc v @ concat (map enc vs))" using Cons.prems(3) by simp
  have "decodes (unpack_one (Suc cs) None k (i + 1)) v" using Cons.prems by (intro unpack_one_enc [of _ 0]) auto
  from decodesE [OF this a] obtain rb' where rb': "unpack_one (Suc cs) None k (i + 1) rb = Inr (canon v, rb')" "at rb' (concat (map enc vs))" .
  have "length (concat (map enc vs)) < m" using Cons.prems(4) m x by simp
  with Cons.IH [OF _ _ rb'(2)] Cons.prems have "unpack_loop cs None k m (i + 1) rb' = Inr (map canon vs)" by simp
  moreover have "unpack_loop cs None k n i rb = rbind (unpack_one (Suc cs) None k (i + 1) rb) (\<lambda>(v, rb2). rbind (unpack_loop cs None k m (i + 1) rb2) (\<lambda>vs. Inr (v # vs)))"
    using unpack_loop_one [of rb x "xs @ concat (map enc vs)" cs None k m i] a x unfolding m by (simp add: luaL_checkstack_def del: unpack_loop.simps unpack_one.simps)
  ultimately show ?case using rb'(1) by (simp del: unpack_loop.simps unpack_one.simps)
qed

section \<open>Reading never goes wrong\<close>

text \<open>
  Whatever the bytes are, a read stays in the buffer, and consumes what it returns. Only if \<open>b\<close> holds the C stack may be
  too small.
\<close>

definition error_ok :: "bool \<Rightarrow> lua_error \<Rightarrow> bool" where
  "error_ok b e \<longleftrightarrow> (\<exists>m. e = Lua_error m) \<or> b \<and> e = C_fault Stack_overflow"

definition lua_safe :: "bool \<Rightarrow> nat \<Rightarrow> lua_error + ('a \<times> read_block) \<Rightarrow> bool" where
  "lua_safe b n r \<longleftrightarrow>
     (case r of Inl e \<Rightarrow> error_ok b e | Inr (x, rb) \<Rightarrow> \<exists>ys. at rb ys \<and> length ys \<le> n)"

lemma lua_safe_Inl [simp]: "lua_safe b n (Inl (Lua_error m))"
  by (simp add: lua_safe_def error_ok_def)

lemma lua_safe_invalid [simp]: "lua_safe b n invalid_stream"
  by (simp add: invalid_stream_def)

lemma lua_safe_Inr: "at rb ys \<Longrightarrow> length ys \<le> n \<Longrightarrow> lua_safe b n (Inr (x, rb))"
  by (auto simp: lua_safe_def)

lemma lua_safe_bind:
  assumes "lua_safe b n r" "\<And>x rb ys. r = Inr (x, rb) \<Longrightarrow> at rb ys \<Longrightarrow> length ys \<le> n \<Longrightarrow> lua_safe b k (f (x, rb))"
  shows "lua_safe b k (rbind r f)"
proof (cases r)
  case (Inr p)
  obtain x rb where p: "p = (x, rb)" by fastforce
  with Inr assms(1) obtain ys where "at rb ys" "length ys \<le> n" by (auto simp: lua_safe_def)
  with assms(2) Inr p show ?thesis by simp
qed (use assms(1) in \<open>auto simp: lua_safe_def\<close>)

lemma lua_safe_mono: "lua_safe b n r \<Longrightarrow> n \<le> k \<Longrightarrow> lua_safe b k r"
  by (cases r) (auto simp: lua_safe_def)

lemma lua_safe_take:
  assumes "at rb ys" "0 < sz"
  shows "lua_safe b (length ys - nat sz) (rb_take rb sz)"
proof (cases "int (length ys) < sz")
  case True
  then show ?thesis using at_length [OF assms(1)] by (simp add: rb_take_def rb_read_def)
next
  case False
  then have "ys = take (nat sz) ys @ drop (nat sz) ys" "sz = int (length (take (nat sz) ys))" using assms(2) by auto
  then obtain rb' where "rb_take rb sz = Inr (take (nat sz) ys, rb')" "at rb' (drop (nat sz) ys)"
    using at_take assms(1) by metis
  then show ?thesis by (auto intro!: lua_safe_Inr)
qed

lemma lua_safe_take_then:
  assumes "at rb ys" "0 < sz"
  shows "lua_safe b (length ys) (rbind (rb_take rb sz) (\<lambda>(bs, rb1). Inr (f bs, rb1)))"
  by (rule lua_safe_bind [OF lua_safe_take [OF assms]]) (auto intro!: lua_safe_Inr)

lemma lua_safe_get_integer: "at rb ys \<Longrightarrow> lua_safe b (length ys) (get_integer rb c)"
  by (simp add: get_integer_def lua_safe_take_then lua_safe_Inr)

lemma lua_safe_get_buffer:
  assumes "at rb ys"
  shows "lua_safe b (length ys) (get_buffer rb len)"
proof -
  consider "len < 0" | "0 \<le> len" "len \<le> int (length ys)" | "int (length ys) < len" by linarith
  then show ?thesis
  proof cases
    case 1
    then show ?thesis using at_length [OF assms] by (simp add: get_buffer_def rb_read_def)
  next
    case 2
    then have "ys = take (nat len) ys @ drop (nat len) ys" "len = int (length (take (nat len) ys))" by auto
    then obtain rb' where "get_buffer rb len = Inr (LString (take (nat len) ys), rb')" "at rb' (drop (nat len) ys)"
      using at_get_buffer assms by metis
    then show ?thesis by (auto intro!: lua_safe_Inr)
  next
    case 3
    then show ?thesis using at_length [OF assms] by (simp add: get_buffer_def rb_read_def)
  qed
qed

lemma lua_safe_buffer_take:
  assumes "at rb ys" "0 < sz"
  shows "lua_safe b (length ys) (rbind (rb_take rb sz) (\<lambda>(bs, rb1). get_buffer rb1 (f bs)))"
  by (rule lua_safe_bind [OF lua_safe_take [OF assms]])
    (auto intro!: lua_safe_mono [OF lua_safe_get_buffer])

lemma lua_safe_array_header: "at rb ys \<Longrightarrow> lua_safe b (length ys) (array_header rb c)"
proof (cases "c = MAX_COOKIE - 1")
  case True
  assume a: "at rb ys"
  have "lua_safe b (length ys) (rbind (rb_take rb 1) (\<lambda>(bs, rb1).
             let type = hd bs; cookie = uint (drop_bit 3 type)
             in if uint (type AND 7) \<noteq> TYPE_NUMBER \<or> cookie = TYPE_NUMBER_REAL then invalid_stream
                else rbind (get_integer rb1 cookie) (\<lambda>(n, rb2). Inr (c_int (uint n), rb2))))"
    by (rule lua_safe_bind [OF lua_safe_take [OF a]])
      (auto simp: Let_def intro!: lua_safe_bind [OF lua_safe_get_integer] lua_safe_Inr)
  with True show ?thesis by (simp add: array_header_def)
qed (simp add: array_header_def lua_safe_Inr)

text \<open>\<open>one_ok b one n\<close>: on fewer than \<open>n\<close> bytes the reader \<open>one\<close> consumes at least one or raises an error.\<close>

definition one_ok :: "bool \<Rightarrow> unpacker \<Rightarrow> nat \<Rightarrow> bool" where
  "one_ok b one n \<longleftrightarrow>
     (\<forall>rb ys. at rb ys \<and> length ys < n \<longrightarrow>
        (\<exists>e. one rb = Inl e \<and> error_ok b e) \<or> ys \<noteq> [] \<and> lua_safe b (length ys - 1) (one rb))"

lemma one_okD:
  assumes "one_ok b one n" "at rb ys" "length ys < n"
  shows "lua_safe b (length ys) (one rb)" "one rb = Inr (v, rb') \<Longrightarrow> \<exists>ys'. at rb' ys' \<and> length ys' < length ys"
proof -
  have c: "(\<exists>e. one rb = Inl e \<and> error_ok b e) \<or> ys \<noteq> [] \<and> lua_safe b (length ys - 1) (one rb)"
    using assms unfolding one_ok_def by blast
  then show "lua_safe b (length ys) (one rb)" using lua_safe_mono [of b "length ys - 1" "one rb" "length ys"] by (auto simp: lua_safe_def)
  show "\<exists>ys'. at rb' ys' \<and> length ys' < length ys" if v: "one rb = Inr (v, rb')"
  proof -
    have "ys \<noteq> []" "lua_safe b (length ys - 1) (one rb)" using c v by auto
    then obtain ys' where "at rb' ys'" "length ys' \<le> length ys - 1" using v by (auto simp: lua_safe_def)
    moreover have "0 < length ys" using \<open>ys \<noteq> []\<close> by simp
    ultimately show ?thesis by (intro exI [of _ ys']) linarith
  qed
qed

lemma unpack_array_safe:
  "one_ok b one n \<Longrightarrow> at rb ys \<Longrightarrow> length ys < n \<Longrightarrow> lua_safe b (length ys) (unpack_array one k i t rb)"
proof (induction k arbitrary: i t rb ys)
  case (Suc k)
  show ?case
    unfolding unpack_array.simps
  proof (rule lua_safe_bind [OF one_okD(1) [OF Suc.prems]])
    fix x rb1 ys1 assume "one rb = Inr (x, rb1)" "at rb1 ys1" "length ys1 \<le> length ys"
    then show "lua_safe b (length ys) (case (x, rb1) of (v, rb1) \<Rightarrow> unpack_array one k (i + 1) (raw_put t (LInt (of_int i)) v) rb1)"
      using lua_safe_mono [OF Suc.IH [OF Suc.prems(1), of rb1 ys1], of "length ys"] Suc.prems(3) by simp
  qed
qed (auto intro: lua_safe_Inr)

lemma table_key_safe: "(\<And>k'. lua_safe b n (f k')) \<Longrightarrow> lua_safe b n (rbind (table_key k) f)"
  by (cases k) (auto simp: table_key_def split: option.splits)

lemma unpack_pairs_safe:
  "one_ok b one n \<Longrightarrow> one_ok b val n \<Longrightarrow> at rb ys \<Longrightarrow> length ys < n \<Longrightarrow> length ys < k \<Longrightarrow> lua_safe b (length ys) (unpack_pairs one val k t rb)"
proof (induction k arbitrary: t rb ys)
  case (Suc k)
  show ?case
    unfolding unpack_pairs.simps
  proof (rule lua_safe_bind [OF one_okD(1) [OF Suc.prems(1,3,4)]], unfold prod.case)
    fix key rb1 ys1 assume 1: "one rb = Inr (key, rb1)" "at rb1 ys1" "length ys1 \<le> length ys"
    obtain ys1' where 2: "at rb1 ys1'" "length ys1' < length ys" using one_okD(2) [OF Suc.prems(1,3,4) 1(1)] by blast
    have 3: "lua_safe b (length ys1') (val rb1)" using one_okD(1) [OF Suc.prems(2) 2(1)] 2(2) Suc.prems(4) by simp
    have "lua_safe b (length ys) (rbind (val rb1) (\<lambda>(v, rb2). rbind (table_key key) (\<lambda>k'. unpack_pairs one val k (raw_put t k' v) rb2)))"
    proof (rule lua_safe_bind [OF 3], unfold prod.case)
      fix v rb2 ys2 assume 4: "val rb1 = Inr (v, rb2)" "at rb2 ys2" "length ys2 \<le> length ys1'"
      have "lua_safe b (length ys2) (unpack_pairs one val k (raw_put t k' v) rb2)" for k'
        using Suc.IH [OF Suc.prems(1,2) 4(2)] 4(3) 2(2) Suc.prems(4,5) by simp
      then have "lua_safe b (length ys) (unpack_pairs one val k (raw_put t k' v) rb2)" for k'
        by (rule lua_safe_mono) (use 4(3) 2(2) in simp)
      then show "lua_safe b (length ys) (rbind (table_key key) (\<lambda>k'. unpack_pairs one val k (raw_put t k' v) rb2))" by (rule table_key_safe)
    qed
    then show "lua_safe b (length ys) (if key = LNil then Inr (t, rb1)
        else rbind (val rb1) (\<lambda>(v, rb2). rbind (table_key key) (\<lambda>k'. unpack_pairs one val k (raw_put t k' v) rb2)))"
      using 2 by (auto intro: lua_safe_Inr)
  qed
qed simp

lemma checkstack_safe: "lua_safe b n r \<Longrightarrow> lua_safe b n (rbind (luaL_checkstack lim used) (\<lambda>_. r))"
  by (auto simp: luaL_checkstack_def split: option.splits)

lemma push_value_safe:
  assumes "\<And>used. one_ok b (one used) n" "at rb ys" "length ys < n" "length ys < k"
  shows "lua_safe b (length ys) (push_value lim one k used rb t c)"
proof -
  have 1: "lua_safe b (length ys) (unpack_table lim one k used rb c)" for c
    unfolding unpack_table_def
  proof (rule lua_safe_bind [OF lua_safe_array_header [OF assms(2)]], unfold prod.case, rule checkstack_safe)
    fix x rb1 ys1 assume 1: "at rb1 ys1" "length ys1 \<le> length ys"
    then have "lua_safe b (length ys1) (unpack_array (one (used + 1)) (nat x) 1 [] rb1)"
      using unpack_array_safe [OF assms(1) 1(1)] assms(3) by simp
    then show "lua_safe b (length ys) (rbind (unpack_array (one (used + 1)) (nat x) 1 [] rb1) (\<lambda>(t, rb2).
        rbind (unpack_pairs (one (used + 1)) (one (used + 2)) k t rb2) (\<lambda>(t', rb3). Inr (LTable () t', rb3))))"
    proof (rule lua_safe_bind, unfold prod.case)
      fix t rb2 ys2 assume 2: "at rb2 ys2" "length ys2 \<le> length ys1"
      have "lua_safe b (length ys2) (unpack_pairs (one (used + 1)) (one (used + 2)) k t rb2)"
        using unpack_pairs_safe [OF assms(1) assms(1) 2(1)] 1(2) 2(2) assms(3,4) by simp
      then show "lua_safe b (length ys) (rbind (unpack_pairs (one (used + 1)) (one (used + 2)) k t rb2) (\<lambda>(t', rb3). Inr (LTable () t', rb3)))"
        by (rule lua_safe_bind) (use 1(2) 2(2) in \<open>auto intro: lua_safe_Inr\<close>)
    qed
  qed
  have 2: "lua_safe b (length ys) (rbind (get_integer rb c) (\<lambda>(i, rb1). Inr (LInt i, rb1)))" for c
    by (rule lua_safe_bind [OF lua_safe_get_integer [OF assms(2)]]) (auto intro: lua_safe_Inr)
  have 3: "lua_safe b (length ys) (rbind (get_real rb) (\<lambda>(r, rb1). Inr (LReal r, rb1)))"
    unfolding get_real_def
    by (rule lua_safe_bind [OF lua_safe_take_then [OF assms(2)]]) (auto intro: lua_safe_Inr)
  have 4: "lua_safe b (length ys) (rbind (get_pointer rb) (\<lambda>(p, rb1). Inr (LUserdata p, rb1)))"
    unfolding get_pointer_def
    by (rule lua_safe_bind [OF lua_safe_take_then [OF assms(2)]]) (auto intro: lua_safe_Inr)
  have 5: "lua_safe b (length ys) (Inr (v, rb))" for v :: "unit lua"
    by (rule lua_safe_Inr [OF assms(2) order_refl])
  note 6 = lua_safe_get_buffer [OF assms(2)] lua_safe_buffer_take [OF assms(2)]
  show ?thesis by (simp add: push_value_def 1 2 3 4 5 6)
qed

text \<open>Every call of \<^verbatim>\<open>unpack_one\<close> consumes a byte, so no more calls are nested than there are bytes.\<close>

lemma unpack_one_safe: "b \<or> n \<le> cs \<Longrightarrow> n \<le> k \<Longrightarrow> one_ok b (unpack_one cs lim k used) n"
proof (induction cs arbitrary: n used)
  case 0
  then show ?case by (auto simp: one_ok_def error_ok_def)
next
  case (Suc cs)
  show ?case
    unfolding one_ok_def
  proof (intro allI impI, elim conjE)
    fix rb ys assume ys: "at rb ys" "length ys < n"
    show "(\<exists>e. unpack_one (Suc cs) lim k used rb = Inl e \<and> error_ok b e) \<or> ys \<noteq> [] \<and> lua_safe b (length ys - 1) (unpack_one (Suc cs) lim k used rb)"
    proof (cases ys)
      case Nil
      then show ?thesis using ys(1) by (simp add: rb_take_def at_Nil_read invalid_stream_def error_ok_def)
    next
      case (Cons y zs)
      have "at rb ([y] @ zs)" using ys(1) Cons by simp
      then obtain rb1 where "rb_take rb 1 = Inr ([y], rb1)" "at rb1 zs" by (rule at_take [where sz = 1]) simp
      moreover have "one_ok b (unpack_one cs lim k used') (n - 1)" for used' using Suc.prems by (intro Suc.IH) auto
      ultimately show ?thesis using push_value_safe [of b "unpack_one cs lim k" "n - 1" rb1 zs k lim used] ys(2) Cons Suc.prems(2) by simp
    qed
  qed
qed

lemma checkstack_cases:
  assumes "\<And>m. (if P then luaL_checkstack lim n else Inr ()) = Inl (Lua_error m) \<Longrightarrow> thesis" "(if P then luaL_checkstack lim n else Inr ()) = Inr () \<Longrightarrow> thesis"
  shows thesis
  using assms(1) [of "''stack overflow''"] assms(2) unfolding luaL_checkstack_def by (cases P; cases lim) (force split: if_splits)+

lemma unpack_loop_safe:
  "at rb ys \<Longrightarrow> length ys < n \<Longrightarrow> length ys < k \<Longrightarrow> b \<or> length ys \<le> cs \<Longrightarrow>
   (\<exists>vs. unpack_loop cs lim k n i rb = Inr vs) \<or> (\<exists>e. unpack_loop cs lim k n i rb = Inl e \<and> error_ok b e)"
proof (induction n arbitrary: rb ys i)
  case (Suc n)
  consider (full) m where "(if i mod 8 = 7 then luaL_checkstack lim (i + 1) else Inr ()) = Inl (Lua_error m)"
    | (room) "(if i mod 8 = 7 then luaL_checkstack lim (i + 1) else Inr ()) = Inr ()"
    by (rule checkstack_cases)
  then show ?case
  proof cases
    case full
    then show ?thesis by (simp add: error_ok_def)
  next
    case room
    show ?thesis
    proof (cases ys)
      case Nil
      then show ?thesis using Suc.prems(1) room by (simp add: at_Nil_read)
    next
      case (Cons y zs)
      have eq: "unpack_loop cs lim k (Suc n) i rb
          = rbind (unpack_one (Suc cs) lim k (i + 1) rb) (\<lambda>(v, rb2). rbind (unpack_loop cs lim k n (i + 1) rb2) (\<lambda>vs. Inr (v # vs)))"
        using unpack_loop_one [of rb y zs cs lim k n i] Suc.prems(1) Cons unfolding room by simp
      have ok: "one_ok b (unpack_one (Suc cs) lim k (i + 1)) (Suc (length ys))" using Suc.prems(3,4) by (intro unpack_one_safe) auto
      show ?thesis
      proof (cases "unpack_one (Suc cs) lim k (i + 1) rb")
        case (Inl e)
        then have "error_ok b e" using one_okD(1) [OF ok Suc.prems(1)] by (auto simp: lua_safe_def)
        then show ?thesis unfolding eq Inl by simp
      next
        case (Inr p)
        obtain v rb2 where p: "p = (v, rb2)" by fastforce
        obtain ys2 where "at rb2 ys2" "length ys2 < length ys" using one_okD(2) [OF ok Suc.prems(1)] Inr p by blast
        then show ?thesis unfolding eq Inr p using Suc.IH [of rb2 ys2 "i + 1"] Suc.prems(2-) by auto
      qed
    qed
  qed
qed simp

section \<open>Properties\<close>

text \<open>
  \<open>same v w\<close>: the value \<open>w\<close> is \<open>v\<close> again. Atoms are equal, and the pairs of a table are the same up to
  their order, each key and value being the same in turn.
\<close>

inductive same :: "nat lua \<Rightarrow> unit lua \<Rightarrow> bool" where
  same_nil: "same LNil LNil"
| same_int: "same (LInt x) (LInt x)"
| same_real: "same (LReal x) (LReal x)"
| same_bool: "same (LBool b) (LBool b)"
| same_string: "same (LString s) (LString s)"
| same_userdata: "same (LUserdata p) (LUserdata p)"
| same_table: "mset ps' = mset ps \<Longrightarrow> list_all2 (rel_prod same same) ps' qs \<Longrightarrow> same (LTable n ps) (LTable () qs)"
| same_proxy: "mset ps' = mset ps \<Longrightarrow> list_all2 (rel_prod same same) ps' qs \<Longrightarrow> same (LProxy ps) (LTable () qs)"
monos list.rel_mono prod.rel_mono

lemma concat_if_filter: "concat (map (\<lambda>i. if P i then [] else [f i]) xs) = map f (filter (\<lambda>i. \<not> P i) xs)"
  by (induction xs) auto

lemma map_of_distinct:
  assumes "distinct (filter Q (map fst ps))" "Q k" "(k, v) \<in> set ps"
  shows "map_of ps k = Some v"
  using assms
proof (induction ps)
  case (Cons p ps)
  have "k \<in> set (filter Q (map fst ps))" if "(k, v) \<in> set ps"
    using that Cons.prems(2) by (force simp: image_iff)
  with Cons show ?case by (cases p) (auto split: if_splits)
qed simp

text \<open>The pairs of the array part, in the order of their keys.\<close>

definition array_part :: "nat \<Rightarrow> (nat lua \<times> nat lua) list \<Rightarrow> (nat lua \<times> nat lua) list" where
  "array_part n ps = map (\<lambda>i. (LInt (of_int i), rawgeti ps i)) (filter (\<lambda>i. rawgeti ps i \<noteq> LNil) [1..int n])"

lemma array_part_set:
  assumes "good_pairs ps" "n < 2 ^ 31"
  shows "set (array_part n ps) = set (filter (\<lambda>p. array_key (int n) (fst p)) ps)"
proof (intro set_eqI iffI)
  fix p assume "p \<in> set (array_part n ps)"
  then obtain i where i: "p = (LInt (of_int i), rawgeti ps i)" "rawgeti ps i \<noteq> LNil" "1 \<le> i" "i \<le> int n"
    by (auto simp: array_part_def)
  then have "map_of ps (LInt (of_int i)) = Some (rawgeti ps i)" by (auto simp: rawgeti_def split: option.splits)
  then have "p \<in> set ps" using i(1) map_of_SomeD by metis
  with i assms(2) array_key_of_int [of i n] show "p \<in> set (filter (\<lambda>p. array_key (int n) (fst p)) ps)" by simp
next
  fix p assume "p \<in> set (filter (\<lambda>p. array_key (int n) (fst p)) ps)"
  then have "array_key (int n) (fst p)" "p \<in> set ps" by auto
  then obtain x v where p: "p = (LInt x, v)" "0 < sint x" "sint x \<le> int n" "(LInt x, v) \<in> set ps"
    by (cases p; cases "fst p") (simp_all add: array_key_def)
  have "map_of ps (LInt x) = Some v"
    using assms(1) p(4) by (intro map_of_distinct [where Q = "\<lambda>k. \<not> is_table k"]) (auto simp: good_pairs_def)
  then have r: "rawgeti ps (sint x) = v" by (simp add: rawgeti_def)
  moreover have "v \<noteq> LNil" using assms(1) p(4) by (auto simp: good_pairs_def list_all_iff)
  ultimately show "p \<in> set (array_part n ps)"
    unfolding array_part_def set_map using p by (intro image_eqI [of _ _ "sint x"]) auto
qed

lemma array_part_mset:
  assumes "good_pairs ps" "n < 2 ^ 31"
  shows "mset (array_part n ps) = mset (filter (\<lambda>p. array_key (int n) (fst p)) ps)"
proof -
  have "uint (of_int i :: u64) = i" if "i \<in> {1..int n}" for i
    using that assms(2) by (simp add: uint_word_of_int take_bit_int_eq_self)
  then have "inj_on (of_int :: int \<Rightarrow> u64) {1..int n}" by (intro inj_on_inverseI [where g = uint])
  then have "distinct (array_part n ps)" by (auto simp: array_part_def distinct_map inj_on_def)
  moreover have "map fst (filter (\<lambda>p. array_key (int n) (fst p)) ps)
      = filter (array_key (int n)) (filter (\<lambda>k. \<not> is_table k) (map fst ps))"
    by (induction ps) (auto simp: array_key_def split: lua.splits)
  then have "distinct (map fst (filter (\<lambda>p. array_key (int n) (fst p)) ps))"
    using assms(1) by (metis distinct_filter good_pairs_def)
  then have "distinct (filter (\<lambda>p. array_key (int n) (fst p)) ps)" using distinct_map by blast
  ultimately show ?thesis using array_part_set [OF assms] set_eq_iff_mset_eq_distinct by blast
qed

lemma list_all2_map_right: "(\<And>x. x \<in> set xs \<Longrightarrow> P x (f x)) \<Longrightarrow> list_all2 P xs (map f xs)"
  by (induction xs) auto

lemma same_canon: "lua_wf v \<Longrightarrow> packable d v \<Longrightarrow> same v (canon v)"
proof (induction v arbitrary: d rule: enc.induct)
  case (7 n ps)
  let ?ps = "array_part n ps @ hash_part n ps"
  have good: "good_pairs ps" "n < 2 ^ 31" using 7(4) by simp_all
  have "mset ?ps = mset ps"
    using array_part_mset [OF good] by (simp add: hash_part_def multiset_partition [symmetric])
  moreover have "list_all2 (rel_prod same same) ?ps (map (\<lambda>p. (canon (fst p), canon (snd p))) ?ps)"
  proof (rule list_all2_map_right)
    fix p assume "p \<in> set ?ps"
    then consider i where "p = (LInt (of_int i), rawgeti ps i)" "i \<in> set [1..int n]" | "p \<in> set (hash_part n ps)"
      by (auto simp: array_part_def)
    then show "rel_prod same same p (canon (fst p), canon (snd p))"
    proof cases
      case (1 i)
      then have "same (rawgeti ps i) (canon (rawgeti ps i))"
        using 7(1) [OF 1(2) lua_wf_rawgeti [OF 7(4)], of "Suc d"] 7(5) by (simp add: list_all_iff)
      with 1 show ?thesis by (simp add: same_int)
    next
      case 2
      then have "packable (Suc d) (fst p)" "packable (Suc d) (snd p)" using 7(5) by (simp_all add: list_all_iff)
      moreover have "lua_wf (fst p)" "lua_wf (snd p)" using 7(4) 2 by (auto simp: list_all_iff hash_part_def)
      ultimately show ?thesis using 7(2,3) [OF 2] by (cases p) auto
    qed
  qed
  moreover have "canon (LTable n ps) = LTable () (map (\<lambda>p. (canon (fst p), canon (snd p))) ?ps)"
    by (simp add: concat_if_filter array_part_def comp_def)
  ultimately show ?case using same_table [of ?ps ps _ n] by (simp del: canon.simps)
next
  case (8 ps)
  have "rel_prod same same p (canon (fst p), canon (snd p))" if p: "p \<in> set ps" for p
  proof -
    have "lua_wf (fst p)" "lua_wf (snd p)" "packable (Suc d) (fst p)" "packable (Suc d) (snd p)"
      using 8(3,4) p by (auto simp: list_all_iff)
    with 8(1,2) [OF p] show ?thesis by (cases p) auto
  qed
  then have "list_all2 (rel_prod same same) ps (map (\<lambda>p. (canon (fst p), canon (snd p))) ps)" by (rule list_all2_map_right)
  then show ?case using same_proxy [OF refl] by simp
qed (auto intro: same.intros)

text \<open>
  C16: values survive a message. What \<^verbatim>\<open>luaseri_unpack\<close> reads from the buffer that \<^verbatim>\<open>luaseri_pack\<close> returns
  are the values that were packed, in order, as long as they take less than 2 GiB, which
  the \<^verbatim>\<open>int\<close> that counts the bytes takes for granted.
\<close>

theorem seri_roundtrip:
  assumes "list_all lua_wf vs" "luaseri_pack vs = Inr (buffer, sz)" "length (concat (map enc vs)) < 2 ^ 31"
  shows "\<exists>ws. luaseri_unpack (Arg_buffer (Some buffer) sz) = Inr ws \<and> list_all2 same vs ws"
proof -
  from luaseri_pack_outcome [OF assms(1)] assms(2,3)
  have ok: "list_all (packable 0) vs" and buf: "buffer = concat (map enc vs)" "sz = int (length buffer)"
    by (auto split: if_splits)
  have "same v (canon v)" if "v \<in> set vs" for v
    using that assms(1) ok same_canon [of v 0] by (auto simp: list_all_iff)
  then have same: "list_all2 same vs (map canon vs)" by (rule list_all2_map_right)
  have "at (rball_init buffer sz) (concat (map enc vs))" using buf by (simp add: at_def rball_init_def)
  from unpack_loop_enc [OF assms(1) ok this, of "Suc (nat sz)" "nat sz" "Suc (nat sz)"] buf
  have "unpack_loop (nat sz) None (Suc (nat sz)) (Suc (nat sz)) 0 (rball_init buffer sz) = Inr (map canon vs)" by (simp del: unpack_loop.simps)
  moreover have "vs = []" if "sz = 0"
  proof (rule ccontr)
    assume "vs \<noteq> []"
    then obtain v us where v: "vs = v # us" by (cases vs) auto
    have "buffer = []" using that buf(2) by simp
    then show False using buf(1) v ok enc_ne [of 0 v] by simp
  qed
  moreover have "arg_length (Arg_buffer (Some buffer) sz) = sz" using buf assms(3) c_int_small [of sz] by (simp add: arg_length_def)
  ultimately have "luaseri_unpack (Arg_buffer (Some buffer) sz) = Inr (map canon vs)"
    unfolding luaseri_unpack_def luaseri_unpack_on_def unpack_buffer_def Let_def by (cases "sz = 0") (simp_all del: unpack_loop.simps)
  then show ?thesis using same by blast
qed

theorem seri_roundtrip_witness:
  "\<exists>ws. luaseri_unpack (Arg_buffer (Some [0x16, 0x0a, 7, 0x09, 0x0c, 97, 0x01, 0]) 8) = Inr ws
     \<and> list_all2 same [LTable 2 [(LString [97], LBool False), (LInt 1, LInt 7), (LInt 2, LBool True)]] ws"
proof -
  let ?v = "LTable 2 [(LString [97], LBool False), (LInt 1, LInt 7), (LInt 2, LBool True)]"
  have "lua_wf ?v" by (simp add: good_pairs_def good_key_def)
  then have wf: "list_all lua_wf [?v]" by simp
  moreover have "luaseri_pack [?v] = Inr ([0x16, 0x0a, 7, 0x09, 0x0c, 97, 0x01, 0], 8)"
    using luaseri_pack_outcome [OF wf]
    by (simp add: upto_rec1 rawgeti_def hash_part_def array_key_def table_header_def int_bytes_def string_bytes_def MAX_DEPTH_def)
  moreover have "concat (map enc [?v]) = [0x16, 0x0a, 7, 0x09, 0x0c, 97, 0x01, 0]"
    by (simp add: upto_rec1 rawgeti_def hash_part_def array_key_def table_header_def int_bytes_def string_bytes_def)
  ultimately show ?thesis using seri_roundtrip [of "[?v]" "[0x16, 0x0a, 7, 0x09, 0x0c, 97, 0x01, 0]" 8] by (simp only: list.size) simp
qed

text \<open>
  C17: the block chain writes the format. For Lua values whose encodings take less than 2 GiB (the number of bytes is an
  \<^verbatim>\<open>int\<close>), packing returns the concatenation of the encodings and its length when every value is of a supported type and nested at most 32
  tables deep; no block is overrun and none is lost. Other values raise a Lua error.
\<close>

theorem seri_pack_format:
  assumes "list_all lua_wf vs"
  shows "if list_all (packable 0) vs
    then length (concat (map enc vs)) < 2 ^ 31 \<longrightarrow> luaseri_pack vs = Inr (concat (map enc vs), int (length (concat (map enc vs))))
    else \<exists>m. luaseri_pack vs = Inl (Lua_error m)"
  using luaseri_pack_outcome [OF assms] .

theorem seri_pack_format_witness:
  "luaseri_pack [LString (replicate 200 65), LNil] = Inr (0x15 # 200 # 0 # replicate 200 65 @ [0], 204)"
proof -
  have "list_all lua_wf [LString (replicate 200 65), LNil]" by simp
  moreover have "le_bytes 2 200 = [200, 0]" by (simp add: numeral_2_eq_2)
  ultimately show ?thesis using seri_pack_format [of "[LString (replicate 200 65), LNil]"] by (simp add: MAX_DEPTH_def string_bytes_def)
qed

text \<open>
  C18: whatever bytes a buffer holds, reading values from it ends and never reads outside the buffer, on a C stack with space for
  \<open>cs\<close> nested calls of \<^verbatim>\<open>unpack_one\<close> and a Lua stack with \<open>lim\<close> slots. It ends with values or with a Lua error, also when the Lua stack is too small; the
  C stack overflows at most if the buffer has more than \<open>cs\<close> bytes. (The code does not limit the nesting of tables; lemma
  \<open>seri_unpack_overflows\<close> shows bytes for which the C stack is too small, whatever its size.)
\<close>

theorem seri_unpack_safe:
  assumes "case a of Arg_buffer (Some b) len \<Rightarrow> c_int len \<le> int (length b) | _ \<Rightarrow> True"
  shows "(\<exists>vs. luaseri_unpack_on cs lim a = Inr vs) \<or> (\<exists>m. luaseri_unpack_on cs lim a = Inl (Lua_error m))
    \<or> luaseri_unpack_on cs lim a = Inl (C_fault Stack_overflow) \<and> int cs < arg_length a"
proof -
  have safe: "(\<exists>vs. unpack_buffer cs lim (Some b) len = Inr vs) \<or> (\<exists>e. unpack_buffer cs lim (Some b) len = Inl e \<and> error_ok (int cs < len) e)"
    if "len \<le> int (length b)" for b len
  proof (cases "0 < len")
    case True
    then have "at (rball_init b len) (take (nat len) b)" using that by (simp add: at_def rball_init_def)
    from unpack_loop_safe [OF this, of "Suc (nat len)" "Suc (nat len)" "int cs < len" cs lim 0] show ?thesis
      using True that linorder_not_less [of "int cs" len] by (auto simp: unpack_buffer_def Let_def min_absorb2 nat_le_iff simp del: unpack_loop.simps)
  qed (auto simp: unpack_buffer_def rb_read_def rball_init_def Let_def)
  have le: "c_int (int n) \<le> int n" for n
    by (simp add: c_int_def signed_of_int signed_of_nat signed_take_bit_int_less_eq_self_iff)
  have "(\<exists>vs. luaseri_unpack_on cs lim a = Inr vs) \<or> (\<exists>e. luaseri_unpack_on cs lim a = Inl e \<and> error_ok (int cs < arg_length a) e)"
  proof (cases a)
    case (Arg_buffer b len)
    with assms safe show ?thesis by (cases b) (auto simp: luaseri_unpack_on_def arg_length_def unpack_buffer_def error_ok_def)
  qed (use safe le in \<open>auto simp: luaseri_unpack_on_def arg_length_def\<close>)
  then show ?thesis by (auto simp: error_ok_def)
qed

theorem seri_unpack_safe_witness:
  "(\<exists>vs. luaseri_unpack_on 1000 (Some 1000000) (Arg_buffer (Some [0x25, 255, 255, 255, 255, 1]) 6) = Inr vs)
   \<or> (\<exists>m. luaseri_unpack_on 1000 (Some 1000000) (Arg_buffer (Some [0x25, 255, 255, 255, 255, 1]) 6) = Inl (Lua_error m))"
proof -
  have "\<not> int 1000 < arg_length (Arg_buffer (Some [0x25, 255, 255, 255, 255, 1]) 6)" by (simp add: arg_length_def)
  then show ?thesis using seri_unpack_safe [of "Arg_buffer (Some [0x25, 255, 255, 255, 255, 1]) 6" 1000 "Some 1000000"] by simp
qed

text \<open>A table in a table in a table, and so on: the C stack is too small for enough of them.\<close>

lemma nested_overflow: "at rb (replicate n 14) \<Longrightarrow> cs < n \<Longrightarrow> unpack_one cs None k used rb = Inl (C_fault Stack_overflow)"
proof (induction cs arbitrary: rb n used)
  case (Suc cs)
  then obtain m where n: "n = Suc m" "cs < m" by (cases n) auto
  have "at rb (14 # replicate m 14)" using Suc.prems(1) n(1) by simp
  then obtain rb' where "unpack_one (Suc cs) None k used rb = push_value None (unpack_one cs None k) k used rb' 6 1" "at rb' (replicate m 14)"
    by (rule unpack_one_tag [of rb 14 _ 6 1 cs None k used]) simp_all
  then show ?case using Suc.IH [of rb' m "used + 1"] n(2)
    by (simp add: push_value_def unpack_table_def array_header_def luaL_checkstack_def seri_consts)
qed simp

lemma seri_unpack_overflows:
  assumes "cs + 2 < 2 ^ 31"
  shows "luaseri_unpack_on cs None (Arg_string (replicate (cs + 2) 14)) = Inl (C_fault Stack_overflow)"
proof -
  let ?b = "replicate (cs + 2) 14 :: byte list"
  have len: "arg_length (Arg_string ?b) = int (cs + 2)" using assms c_int_small [of "int (cs + 2)"] by (simp add: arg_length_def)
  have "at (rball_init ?b (int (cs + 2))) (14 # replicate (cs + 1) 14)" by (simp add: at_def rball_init_def)
  then have "unpack_loop cs None k (Suc n) 0 (rball_init ?b (int (cs + 2))) = rbind (unpack_one (Suc cs) None k 1 (rball_init ?b (int (cs + 2))))
      (\<lambda>(v, rb2). rbind (unpack_loop cs None k n 1 rb2) (\<lambda>vs. Inr (v # vs)))" for k n
    using unpack_loop_one [of _ 14 "replicate (cs + 1) 14" cs None k n 0] by simp
  moreover have "unpack_one (Suc cs) None k 1 (rball_init ?b (int (cs + 2))) = Inl (C_fault Stack_overflow)" for k
    by (rule nested_overflow [where n = "cs + 2"]) (simp_all add: at_def rball_init_def)
  ultimately have "unpack_loop cs None k (Suc n) 0 (rball_init ?b (int (cs + 2))) = Inl (C_fault Stack_overflow)" for k n by simp
  moreover have "int (cs + 2) \<noteq> 0" by simp
  ultimately show ?thesis unfolding luaseri_unpack_on_def unpack_arg.case len unpack_buffer_def option.case Let_def by (simp del: unpack_loop.simps)
qed

end
