(* ===== verification/Sproto_Schema.thy ===== *)
theory Sproto_Schema
  imports Sproto_Pack Seri Handle
begin

unbundle bit_operations_syntax

text \<open>
  The schemas of \<^verbatim>\<open>lualib-src/sproto/sproto.c\<close>: the types and protocols that are read from a compiled bundle, and the
  questions that are asked about them. What they have to satisfy for messages to be encoded and decoded, \<open>schema_ok\<close>, is
  established by \<^verbatim>\<open>sproto_create\<close>.

  A pointer to a type is its index in the array of types. The bundle is an array of bytes and a pointer into it a position;
  a read outside it is \<open>Out_of_bounds\<close>. \<open>None\<close> stands for the null pointer that a failed import returns.
\<close>

section \<open>The pool\<close>

text \<open>
  All parts of a schema are allocated in one pool of chunks that is released as a whole. An address is the number of a
  chunk, in the order in which they were made, and the offset in it. Allocation succeeds.
\<close>

definition CHUNK_SIZE :: nat where "CHUNK_SIZE = 1000"

type_synonym pool_addr = "nat \<times> nat"

record pool =
  pl_chunks :: "nat list"
  pl_current :: "nat option"
  pl_used :: nat

definition pool_init :: pool where
  "pool_init = \<lparr>pl_chunks = [], pl_current = None, pl_used = 0\<rparr>"

definition pool_release :: "pool \<Rightarrow> pool" where
  "pool_release p = p\<lparr>pl_chunks := []\<rparr>"

definition pool_newchunk :: "pool \<Rightarrow> nat \<Rightarrow> pool_addr \<times> pool" where
  "pool_newchunk p sz = ((length (pl_chunks p), 0), p\<lparr>pl_chunks := pl_chunks p @ [sz]\<rparr>)"

definition align8 :: "nat \<Rightarrow> nat" where
  "align8 sz = (sz + 7) div 8 * 8"

definition pool_alloc :: "pool \<Rightarrow> nat \<Rightarrow> pool_addr \<times> pool" where
  "pool_alloc p sz0 =
     (let sz = align8 sz0
      in if sz \<ge> CHUNK_SIZE then pool_newchunk p sz
         else
           let p1 = (case pl_current p of
                       None \<Rightarrow> (snd (pool_newchunk p CHUNK_SIZE))\<lparr>pl_current := Some (length (pl_chunks p))\<rparr>
                     | Some c \<Rightarrow> p)
           in if sz + pl_used p1 \<le> CHUNK_SIZE
              then ((the (pl_current p1), pl_used p1), p1\<lparr>pl_used := pl_used p1 + sz\<rparr>)
              else if sz \<ge> pl_used p1 then pool_newchunk p1 sz
              else let (a, p2) = pool_newchunk p1 CHUNK_SIZE
                   in (a, p2\<lparr>pl_current := Some (fst a), pl_used := sz\<rparr>))"

section \<open>Schemas\<close>

definition SPROTO_TARRAY :: int where "SPROTO_TARRAY = 0x80"
definition SIZEOF_LENGTH :: nat where "SIZEOF_LENGTH = 4"
definition SIZEOF_HEADER :: nat where "SIZEOF_HEADER = 2"
definition SIZEOF_FIELD :: nat where "SIZEOF_FIELD = 2"

definition SPROTO_REQUEST :: int where "SPROTO_REQUEST = 0"
definition SPROTO_RESPONSE :: int where "SPROTO_RESPONSE = 1"

definition SPROTO_TINTEGER :: int where "SPROTO_TINTEGER = 0"
definition SPROTO_TBOOLEAN :: int where "SPROTO_TBOOLEAN = 1"
definition SPROTO_TSTRING :: int where "SPROTO_TSTRING = 2"
definition SPROTO_TSTRUCT :: int where "SPROTO_TSTRUCT = 3"

text \<open>A name is the address of the string and its text.\<close>

type_synonym tagname = "pool_addr \<times> cstring"

record field =
  fd_tag :: int
  fd_type :: int
  fd_name :: "tagname option"
  fd_st :: "nat option"
  fd_key :: int
  fd_extra :: int

record sproto_type =
  ty_name :: cstring
  ty_n :: int
  ty_base :: int
  ty_maxn :: int
  ty_f :: "field list"

record protocol =
  pr_name :: cstring
  pr_tag :: int
  pr_confirm :: int
  pr_request :: "nat option"
  pr_response :: "nat option"

record sproto =
  sp_memory :: pool
  sp_type :: "sproto_type list"
  sp_proto :: "protocol list"

section \<open>Reading the bundle\<close>

definition toword :: "byte list \<Rightarrow> nat \<Rightarrow> c_error + int" where
  "toword bs p = rbind (get_bytes bs p 2) (\<lambda>b. Inr (int (le_num b)))"

definition todword :: "byte list \<Rightarrow> nat \<Rightarrow> c_error + u32" where
  "todword bs p = rbind (get_bytes bs p 4) (\<lambda>b. Inr (of_nat (le_num b)))"

text \<open>\<^verbatim>\<open>count_array\<close>: the length of an element is increased by 4 with 32 bits, so it may become 0, and then the loop does not end.\<close>

function count_loop :: "byte list \<Rightarrow> nat \<Rightarrow> u32 \<Rightarrow> int \<Rightarrow> c_error + int" where
  "count_loop bs p len n =
     (if len = 0 then Inr n
      else if len < 4 then Inr (-1)
      else rbind (todword bs p) (\<lambda>d.
             let nsz = d + 4
             in if nsz > len then Inr (-1)
                else if nsz = 0 then Inl Diverges
                else count_loop bs (p + unat nsz) (len - nsz) (n + 1)))"
  by auto
termination
  by (relation "measure (\<lambda>(bs, p, len, n). unat len)") (auto simp: unat_sub not_less word_le_nat_alt unat_gt_0 intro!: diff_less)

declare count_loop.simps [simp del]

definition count_array :: "byte list \<Rightarrow> nat \<Rightarrow> c_error + int" where
  "count_array bs p = rbind (todword bs p) (\<lambda>len. count_loop bs (p + SIZEOF_LENGTH) len 0)"

text \<open>The entries of a structure from \<open>i\<close> on, with their data at \<open>p\<close> in the \<open>sz\<close> bytes that are left. The result -1 is \<open>False\<close>.\<close>

fun field_loop :: "byte list \<Rightarrow> nat \<Rightarrow> nat list \<Rightarrow> nat \<Rightarrow> nat \<Rightarrow> c_error + bool" where
  "field_loop bs fld [] p sz = Inr True"
| "field_loop bs fld (i # is) p sz =
     rbind (toword bs (fld + i * SIZEOF_FIELD)) (\<lambda>value.
       if value \<noteq> 0 then field_loop bs fld is p sz
       else if sz < SIZEOF_LENGTH then Inr False
       else rbind (todword bs p) (\<lambda>dsz.
              let d = unat (4 + dsz)
              in if sz < d then Inr False else field_loop bs fld is (p + d) (sz - d)))"

definition struct_field :: "byte list \<Rightarrow> nat \<Rightarrow> nat \<Rightarrow> c_error + int" where
  "struct_field bs p sz =
     (if sz < SIZEOF_LENGTH then Inr (-1)
      else rbind (toword bs p) (\<lambda>fn.
             let header = SIZEOF_HEADER + SIZEOF_FIELD * nat fn
             in if sz < header then Inr (-1)
                else rbind (field_loop bs (p + SIZEOF_HEADER) [0..<nat fn] (p + header) (sz - header)) (\<lambda>ok.
                       Inr (if ok then fn else -1))))"

text \<open>The text of the string ends at its first zero.\<close>

definition import_string :: "pool \<Rightarrow> byte list \<Rightarrow> nat \<Rightarrow> c_error + (tagname \<times> pool)" where
  "import_string m bs p =
     rbind (todword bs p) (\<lambda>sz.
       let (a, m1) = pool_alloc m (unat (sz + 1))
       in rbind (get_bytes bs (p + SIZEOF_LENGTH) (unat sz)) (\<lambda>b.
            Inr ((a, takeWhile (\<lambda>c. c \<noteq> 0) b), m1)))"

text \<open>Products of \<^verbatim>\<open>int\<close> that do not fit wrap round.\<close>

fun calc_pow :: "int \<Rightarrow> nat \<Rightarrow> int" where
  "calc_pow base n =
     (if n = 0 then 1
      else let r = calc_pow (c_int (base * base)) (n div 2)
           in if odd n then c_int (r * base) else r)"

declare calc_pow.simps [simp del]

text \<open>A loop whose body may return a null pointer from the function.\<close>

fun for_each :: "('a \<Rightarrow> 's \<Rightarrow> 'e + 's option) \<Rightarrow> 'a list \<Rightarrow> 's \<Rightarrow> 'e + 's option" where
  "for_each f [] s = Inr (Some s)"
| "for_each f (x # xs) s = rbind (f x s) (\<lambda>r. case r of None \<Rightarrow> Inr None | Some s1 \<Rightarrow> for_each f xs s1)"

definition field_init :: field where
  "field_init = \<lparr>fd_tag = -1, fd_type = -1, fd_name = None, fd_st = None, fd_key = -1, fd_extra = 0\<rparr>"

text \<open>The cases of the \<^verbatim>\<open>switch\<close> on the tag of an entry, with the field and the flag \<^verbatim>\<open>array\<close>.\<close>

definition field_entry :: "nat \<Rightarrow> int \<Rightarrow> int \<Rightarrow> field \<times> int \<Rightarrow> (field \<times> int) option" where
  "field_entry type_n tag value = (\<lambda>(f, array).
     if tag = 1
     then (if value \<ge> SPROTO_TSTRUCT then None else Some (f\<lparr>fd_type := value\<rparr>, array))
     else if tag = 2
     then (if fd_type f = SPROTO_TINTEGER then Some (f\<lparr>fd_extra := calc_pow 10 (nat value)\<rparr>, array)
           else if fd_type f = SPROTO_TSTRING then Some (f\<lparr>fd_extra := value\<rparr>, array)
           else if value \<ge> int type_n then None
           else if fd_type f \<ge> 0 then None
           else Some (f\<lparr>fd_type := SPROTO_TSTRUCT, fd_st := Some (nat value)\<rparr>, array))
     else if tag = 3 then Some (f\<lparr>fd_tag := value\<rparr>, array)
     else if tag = 4 then Some (f, if value \<noteq> 0 then SPROTO_TARRAY else array)
     else if tag = 5 then Some (f\<lparr>fd_key := value\<rparr>, array)
     else None)"

definition import_entry ::
  "byte list \<Rightarrow> nat \<Rightarrow> nat \<Rightarrow> nat \<Rightarrow> nat \<Rightarrow> int \<times> field \<times> int \<times> pool \<Rightarrow> c_error + (int \<times> field \<times> int \<times> pool) option" where
  "import_entry bs type_n p fn i = (\<lambda>(tag0, f, array, m).
     let tag = tag0 + 1
     in rbind (toword bs (p + SIZEOF_FIELD * i)) (\<lambda>value.
          if odd value then Inr (Some (tag + value div 2, f, array, m))
          else if tag = 0
          then (if value \<noteq> 0 then Inr None
                else rbind (import_string m bs (p + fn * SIZEOF_FIELD)) (\<lambda>(name, m1). Inr (Some (tag, f\<lparr>fd_name := Some name\<rparr>, array, m1))))
          else if value = 0 then Inr None
          else Inr (map_option (\<lambda>(f1, array1). (tag, f1, array1, m)) (field_entry type_n tag (value div 2 - 1) (f, array)))))"

text \<open>The result is the field with the position behind it.\<close>

definition import_field :: "byte list \<Rightarrow> nat \<Rightarrow> pool \<Rightarrow> nat \<Rightarrow> c_error + (field \<times> nat \<times> pool) option" where
  "import_field bs type_n m p =
     rbind (todword bs p) (\<lambda>sz.
     rbind (struct_field bs (p + SIZEOF_LENGTH) (unat sz)) (\<lambda>fn.
       if fn < 0 then Inr None
       else rbind (for_each (import_entry bs type_n (p + SIZEOF_LENGTH + SIZEOF_HEADER) (nat fn)) [0..<nat fn] (-1, field_init, 0, m)) (\<lambda>r.
              case r of
                None \<Rightarrow> Inr None
              | Some (tag, f, array, m1) \<Rightarrow>
                  if fd_tag f < 0 \<or> fd_type f < 0 \<or> fd_name f = None then Inr None
                  else Inr (Some (f\<lparr>fd_type := fd_type f OR array\<rparr>, p + SIZEOF_LENGTH + unat sz, m1)))))"

record fields_state =
  fs_pos :: nat
  fs_mem :: pool
  fs_maxn :: int
  fs_last :: int
  fs_f :: "field list"

definition type_field :: "byte list \<Rightarrow> nat \<Rightarrow> nat \<Rightarrow> fields_state \<Rightarrow> c_error + fields_state option" where
  "type_field bs type_n i st =
     rbind (import_field bs type_n (fs_mem st) (fs_pos st)) (\<lambda>r.
       case r of
         None \<Rightarrow> Inr None
       | Some (f, p, m) \<Rightarrow>
           let tag = fd_tag f
           in if tag \<le> fs_last st then Inr None
              else Inr (Some \<lparr>fs_pos = p, fs_mem = m, fs_maxn = (if tag > fs_last st + 1 then fs_maxn st + 1 else fs_maxn st), fs_last = tag, fs_f = fs_f st @ [f]\<rparr>))"

text \<open>The size of a \<^verbatim>\<open>struct field\<close>; those of the other structures below are 32 and 48, too.\<close>

definition SIZEOF_STRUCT :: nat where "SIZEOF_STRUCT = 32"

text \<open>A type with an empty list of fields reads the tag of a field that does not exist.\<close>

definition type_fields :: "byte list \<Rightarrow> nat \<Rightarrow> pool \<Rightarrow> cstring \<Rightarrow> nat \<Rightarrow> c_error + (sproto_type \<times> pool) option" where
  "type_fields bs type_n m name p =
     rbind (count_array bs p) (\<lambda>n.
       if n < 0 then Inr None
       else rbind (for_each (type_field bs type_n) [0..<nat n]
                \<lparr>fs_pos = p + SIZEOF_LENGTH, fs_mem = snd (pool_alloc m (SIZEOF_STRUCT * nat n)), fs_maxn = n, fs_last = -1, fs_f = []\<rparr>) (\<lambda>r.
              case r of
                None \<Rightarrow> Inr None
              | Some st \<Rightarrow>
                  if fs_f st = [] then Inl Out_of_bounds
                  else let base = fd_tag (hd (fs_f st))
                       in Inr (Some (\<lparr>ty_name = name, ty_n = n, ty_base = (if fd_tag (last (fs_f st)) - base + 1 \<noteq> n then -1 else base),
                                      ty_maxn = fs_maxn st, ty_f = fs_f st\<rparr>, fs_mem st))))"

definition zero_fields :: "byte list \<Rightarrow> nat \<Rightarrow> nat \<Rightarrow> unit \<Rightarrow> c_error + unit option" where
  "zero_fields bs p i u = rbind (toword bs (p + SIZEOF_FIELD * i)) (\<lambda>v. Inr (if v \<noteq> 0 then None else Some ()))"

definition import_type :: "byte list \<Rightarrow> nat \<Rightarrow> pool \<Rightarrow> nat \<Rightarrow> c_error + (sproto_type \<times> nat \<times> pool) option" where
  "import_type bs type_n m p =
     rbind (todword bs p) (\<lambda>sz.
     let stream = p + SIZEOF_LENGTH; result = stream + unat sz
     in rbind (struct_field bs stream (unat sz)) (\<lambda>fn.
          if fn \<le> 0 \<or> fn > 2 then Inr None
          else rbind (for_each (zero_fields bs (stream + SIZEOF_HEADER)) [0..<nat fn] ()) (\<lambda>z.
                 case z of
                   None \<Rightarrow> Inr None
                 | Some _ \<Rightarrow>
                     let data = stream + SIZEOF_HEADER + nat fn * SIZEOF_FIELD
                     in rbind (import_string m bs data) (\<lambda>((_, name), m1).
                          if fn = 1 then Inr (Some (\<lparr>ty_name = name, ty_n = 0, ty_base = 0, ty_maxn = 0, ty_f = []\<rparr>, result, m1))
                          else rbind (todword bs data) (\<lambda>d.
                               rbind (type_fields bs type_n m1 name (data + unat (d + 4))) (\<lambda>r.
                                 Inr (map_option (\<lambda>(t, m2). (t, result, m2)) r)))))))"

definition protocol_entry ::
  "byte list \<Rightarrow> nat \<Rightarrow> nat \<Rightarrow> nat \<Rightarrow> nat \<Rightarrow> cstring option \<times> protocol \<times> pool \<Rightarrow> c_error + (cstring option \<times> protocol \<times> pool) option" where
  "protocol_entry bs type_n p fn i = (\<lambda>(name, pr, m).
     rbind (toword bs (p + SIZEOF_FIELD * i)) (\<lambda>value0.
       if odd value0 then Inr (Some (name, pr, m))
       else let value = value0 div 2 - 1
            in if i = 0
               then (if value \<noteq> -1 then Inr None
                     else rbind (import_string m bs (p + SIZEOF_FIELD * fn)) (\<lambda>((_, s), m1). Inr (Some (Some s, pr, m1))))
               else if i = 1 then Inr (if value < 0 then None else Some (name, pr\<lparr>pr_tag := value\<rparr>, m))
               else if i = 2
               then Inr (if value < 0 \<or> value \<ge> int type_n then None else Some (name, pr\<lparr>pr_request := Some (nat value)\<rparr>, m))
               else if i = 3
               then Inr (if value < 0 \<or> value \<ge> int type_n then None else Some (name, pr\<lparr>pr_response := Some (nat value)\<rparr>, m))
               else if i = 4 then Inr (Some (name, pr\<lparr>pr_confirm := value\<rparr>, m))
               else Inr None))"

definition import_protocol :: "byte list \<Rightarrow> nat \<Rightarrow> pool \<Rightarrow> nat \<Rightarrow> c_error + (protocol \<times> nat \<times> pool) option" where
  "import_protocol bs type_n m p =
     rbind (todword bs p) (\<lambda>sz.
     let stream = p + SIZEOF_LENGTH; result = stream + unat sz
     in rbind (struct_field bs stream (unat sz)) (\<lambda>fn.
        rbind (for_each (protocol_entry bs type_n (stream + SIZEOF_HEADER) (nat fn)) [0..<nat fn]
                (None, \<lparr>pr_name = [], pr_tag = -1, pr_confirm = 0, pr_request = None, pr_response = None\<rparr>, m)) (\<lambda>r.
          case r of
            Some (Some name, pr, m1) \<Rightarrow> Inr (if pr_tag pr < 0 then None else Some (pr\<lparr>pr_name := name\<rparr>, result, m1))
          | _ \<Rightarrow> Inr None)))"

text \<open>The two parts of a bundle: where the types and where the protocols are, and how many.\<close>

record bundle_parts =
  bd_content :: nat
  bd_mem :: pool
  bd_type :: "nat \<times> nat"
  bd_proto :: "nat \<times> nat"

definition bundle_part :: "byte list \<Rightarrow> nat \<Rightarrow> bundle_parts \<Rightarrow> c_error + bundle_parts option" where
  "bundle_part bs i b =
     rbind (toword bs (SIZEOF_HEADER + i * SIZEOF_FIELD)) (\<lambda>value.
       if value \<noteq> 0 then Inr None
       else rbind (count_array bs (bd_content b)) (\<lambda>n.
              if n < 0 then Inr None
              else rbind (todword bs (bd_content b)) (\<lambda>d.
                     let m = snd (pool_alloc (bd_mem b) (nat n * SIZEOF_STRUCT)); at = (bd_content b + SIZEOF_LENGTH, nat n);
                         b1 = b\<lparr>bd_mem := m, bd_content := bd_content b + unat (d + 4)\<rparr>
                     in Inr (Some (if i = 0 then b1\<lparr>bd_type := at\<rparr> else b1\<lparr>bd_proto := at\<rparr>)))))"

text \<open>The loops that import all types and all protocols.\<close>

definition import_each :: "(pool \<Rightarrow> nat \<Rightarrow> c_error + ('a \<times> nat \<times> pool) option) \<Rightarrow> nat \<Rightarrow> nat \<times> pool \<times> 'a list \<Rightarrow> c_error + (nat \<times> pool \<times> 'a list) option" where
  "import_each imp i = (\<lambda>(p, m, xs). rbind (imp m p) (\<lambda>r. Inr (map_option (\<lambda>(x, p1, m1). (p1, m1, xs @ [x])) r)))"

definition create_from_bundle :: "pool \<Rightarrow> byte list \<Rightarrow> c_error + sproto option" where
  "create_from_bundle m0 bs =
     rbind (struct_field bs 0 (length bs)) (\<lambda>fn.
       if fn < 0 \<or> fn > 2 then Inr None
       else rbind (for_each (bundle_part bs) [0..<nat fn] \<lparr>bd_content = SIZEOF_HEADER + nat fn * SIZEOF_FIELD, bd_mem = m0, bd_type = (0, 0), bd_proto = (0, 0)\<rparr>) (\<lambda>r.
              case r of
                None \<Rightarrow> Inr None
              | Some b \<Rightarrow>
                  let type_n = snd (bd_type b)
                  in rbind (for_each (import_each (import_type bs type_n)) [0..<type_n] (fst (bd_type b), bd_mem b, [])) (\<lambda>r1.
                     case r1 of
                       None \<Rightarrow> Inr None
                     | Some (_, m1, types) \<Rightarrow>
                         rbind (for_each (import_each (import_protocol bs type_n)) [0..<snd (bd_proto b)] (fst (bd_proto b), m1, [])) (\<lambda>r2.
                           case r2 of
                             None \<Rightarrow> Inr None
                           | Some (_, m2, protos) \<Rightarrow> Inr (Some \<lparr>sp_memory = m2, sp_type = types, sp_proto = protos\<rparr>)))))"

text \<open>A failed import releases the pool, which then is no longer reachable.\<close>

definition sproto_create :: "byte list \<Rightarrow> c_error + sproto option" where
  "sproto_create bs = create_from_bundle (snd (pool_alloc pool_init 48)) bs"

definition sproto_release :: "sproto option \<Rightarrow> sproto option" where
  "sproto_release s = map_option (\<lambda>sp. sp\<lparr>sp_memory := pool_release (sp_memory sp)\<rparr>) s"

section \<open>Queries\<close>

definition sproto_prototag :: "sproto \<Rightarrow> cstring \<Rightarrow> int" where
  "sproto_prototag sp name = (case find (\<lambda>p. strcmp name (pr_name p) = 0) (sp_proto sp) of None \<Rightarrow> -1 | Some p \<Rightarrow> pr_tag p)"

text \<open>The search by bisection, of \<^verbatim>\<open>findtag\<close> and of \<^verbatim>\<open>query_proto\<close>.\<close>

function tag_search :: "int list \<Rightarrow> int \<Rightarrow> int \<Rightarrow> int \<Rightarrow> nat option" where
  "tag_search ts tag begin end' =
     (if begin < end'
      then let mid = (begin + end') div 2; t = ts ! nat mid
           in if t = tag then Some (nat mid)
              else if tag > t then tag_search ts tag (mid + 1) end'
              else tag_search ts tag begin mid
      else None)"
  by auto
termination by (relation "measure (\<lambda>(ts, tag, begin, end'). nat (end' - begin))") auto

declare tag_search.simps [simp del]

definition query_proto :: "sproto \<Rightarrow> int \<Rightarrow> protocol option" where
  "query_proto sp tag = map_option (\<lambda>i. sp_proto sp ! i) (tag_search (map pr_tag (sp_proto sp)) tag 0 (int (length (sp_proto sp))))"

definition sproto_protoquery :: "sproto \<Rightarrow> int \<Rightarrow> int \<Rightarrow> nat option" where
  "sproto_protoquery sp proto what =
     (if what < 0 \<or> what > 1 then None
      else case query_proto sp proto of
             None \<Rightarrow> None
           | Some p \<Rightarrow> if what = SPROTO_REQUEST then pr_request p else pr_response p)"

definition sproto_protoresponse :: "sproto \<Rightarrow> int \<Rightarrow> bool" where
  "sproto_protoresponse sp proto =
     (case query_proto sp proto of None \<Rightarrow> False | Some p \<Rightarrow> pr_response p \<noteq> None \<or> pr_confirm p \<noteq> 0)"

definition sproto_protoname :: "sproto \<Rightarrow> int \<Rightarrow> cstring option" where
  "sproto_protoname sp proto = map_option pr_name (query_proto sp proto)"

fun type_index :: "cstring \<Rightarrow> nat \<Rightarrow> sproto_type list \<Rightarrow> nat option" where
  "type_index name i [] = None"
| "type_index name i (t # ts) = (if strcmp name (ty_name t) = 0 then Some i else type_index name (i + 1) ts)"

definition sproto_type_named :: "sproto \<Rightarrow> cstring \<Rightarrow> nat option" where
  "sproto_type_named sp name = type_index name 0 (sp_type sp)"

definition findtag :: "sproto_type \<Rightarrow> int \<Rightarrow> field option" where
  "findtag st tag =
     (if ty_base st \<ge> 0
      then let i = tag - ty_base st
           in if i < 0 \<or> i \<ge> ty_n st then None else Some (ty_f st ! nat i)
      else map_option (\<lambda>i. ty_f st ! i) (tag_search (map fd_tag (ty_f st)) tag 0 (ty_n st)))"

section \<open>The pool hands out every address once\<close>

text \<open>The addresses in the chunks that are not in the free part of the current chunk.\<close>

definition taken :: "pool \<Rightarrow> pool_addr set" where
  "taken m = {(c, d). c < length (pl_chunks m) \<and> (pl_current m = Some c \<longrightarrow> d < pl_used m)}"

definition pool_ok :: "pool \<Rightarrow> bool" where
  "pool_ok m \<longleftrightarrow> pl_used m \<le> CHUNK_SIZE \<and> (\<forall>c. pl_current m = Some c \<longrightarrow> c < length (pl_chunks m) \<and> pl_chunks m ! c = CHUNK_SIZE)
    \<and> (pl_current m = None \<longrightarrow> pl_used m = 0)"

lemma align8_ge: "sz \<le> align8 sz" "0 < sz \<Longrightarrow> 0 < align8 sz"
  by (simp_all add: align8_def)

lemma pool_ok_init: "pool_ok pool_init"
  by (simp add: pool_ok_def pool_init_def)

text \<open>The block at an address that was handed out lies in its chunk and does not touch what was handed out before.\<close>

lemma pool_alloc_fresh:
  assumes "pool_ok m" "pool_alloc m sz = ((c, d), m1)"
  shows "pool_ok m1" "taken m \<subseteq> taken m1" "c < length (pl_chunks m1)" "d + align8 sz \<le> pl_chunks m1 ! c"
    "\<And>e. e < align8 sz \<Longrightarrow> (c, d + e) \<notin> taken m \<and> (c, d + e) \<in> taken m1"
proof -
  have "pool_ok m1 \<and> taken m \<subseteq> taken m1 \<and> c < length (pl_chunks m1) \<and> d + align8 sz \<le> pl_chunks m1 ! c \<and> (\<forall>e < align8 sz. (c, d + e) \<notin> taken m \<and> (c, d + e) \<in> taken m1)"
    using assms
    by (auto simp: pool_alloc_def pool_newchunk_def pool_ok_def taken_def Let_def nth_append split: if_splits option.splits)
  then show "pool_ok m1" "taken m \<subseteq> taken m1" "c < length (pl_chunks m1)" "d + align8 sz \<le> pl_chunks m1 ! c"
    "\<And>e. e < align8 sz \<Longrightarrow> (c, d + e) \<notin> taken m \<and> (c, d + e) \<in> taken m1" by blast+
qed

lemma pool_alloc_name:
  assumes "pool_ok m" "pool_alloc m sz = (a, m1)"
  shows "pool_ok m1" "taken m \<subseteq> taken m1" "0 < sz \<Longrightarrow> a \<notin> taken m \<and> a \<in> taken m1"
  using pool_alloc_fresh [of m sz "fst a" "snd a" m1] pool_alloc_fresh(5) [of m sz "fst a" "snd a" m1 0] align8_ge(2) [of sz] assms by auto

section \<open>What a schema satisfies\<close>

definition field_ok :: "nat \<Rightarrow> field \<Rightarrow> bool" where
  "field_ok type_n f \<longleftrightarrow>
     0 \<le> fd_tag f \<and> fd_tag f \<le> 0x7ffe \<and> -1 \<le> fd_key f \<and> fd_name f \<noteq> None
     \<and> (fd_type f \<in> {0, 1, 2, 128, 129, 130} \<or> fd_type f \<in> {3, 131} \<and> (\<exists>k < type_n. fd_st f = Some k))"

text \<open>The number of gaps between ascending tags, behind the tag \<open>prev\<close>.\<close>

fun gaps :: "int \<Rightarrow> int list \<Rightarrow> nat" where
  "gaps prev [] = 0"
| "gaps prev (t # ts) = (if t > prev + 1 then 1 else 0) + gaps t ts"

definition name_addr :: "field \<Rightarrow> pool_addr" where
  "name_addr f = fst (the (fd_name f))"

definition type_ok :: "nat \<Rightarrow> sproto_type \<Rightarrow> bool" where
  "type_ok type_n t \<longleftrightarrow>
     list_all (field_ok type_n) (ty_f t) \<and> sorted_wrt (<) (map fd_tag (ty_f t)) \<and> distinct (map name_addr (ty_f t))
     \<and> ty_n t = int (length (ty_f t)) \<and> ty_maxn t = ty_n t + int (gaps (-1) (map fd_tag (ty_f t)))
     \<and> (0 \<le> ty_base t \<longrightarrow> map fd_tag (ty_f t) = map (\<lambda>i. ty_base t + int i) [0..<length (ty_f t)])"

definition schema_ok :: "sproto \<Rightarrow> bool" where
  "schema_ok sp \<longleftrightarrow> list_all (type_ok (length (sp_type sp))) (sp_type sp)"

section \<open>Searching\<close>

lemma tag_search_Some: "tag_search ts tag l r = Some i \<Longrightarrow> 0 \<le> l \<Longrightarrow> l \<le> int i \<and> int i < r \<and> ts ! i = tag"
proof (induction ts tag l r rule: tag_search.induct)
  case (1 ts tag l r)
  from "1.prems" have l: "l < r" by (simp add: tag_search.simps split: if_splits)
  obtain mid where mid: "(l + r) div 2 = mid" "l \<le> mid" "mid < r" using l by auto
  note IH = "1.IH" [OF l mid(1) [symmetric] refl]
  have "(if ts ! nat mid = tag then Some (nat mid) else if tag > ts ! nat mid then tag_search ts tag (mid + 1) r else tag_search ts tag l mid) = Some i"
    using "1.prems"(1) l mid(1) by (subst (asm) tag_search.simps) (simp add: Let_def)
  then show ?case using IH mid(2,3) "1.prems"(2) by (auto split: if_splits)
qed

lemma tag_search_finds:
  assumes "sorted_wrt (<) ts" "0 \<le> l" "r \<le> int (length ts)" "l \<le> int i" "int i < r"
  shows "tag_search ts (ts ! i) l r = Some i"
  using assms
proof (induction ts "ts ! i" l r rule: tag_search.induct)
  case (1 ts l r)
  have less: "i < j \<Longrightarrow> j < length ts \<Longrightarrow> ts ! i < ts ! j" for i j using "1.prems"(1) by (simp add: sorted_wrt_iff_nth_less)
  have l: "l < r" using "1.prems" by simp
  obtain mid where mid: "(l + r) div 2 = int mid" "l \<le> int mid" "int mid < r" using l "1.prems"(2) zero_le_imp_eq_int [of "(l + r) div 2"] by auto
  note IH = "1.hyps" [OF l mid(1) [symmetric] refl]
  consider "i = mid" | "mid < i" | "i < mid" by linarith
  then show ?case
  proof cases
    case 1
    then show ?thesis using l mid by (subst tag_search.simps) (simp add: Let_def)
  next
    case 2
    then show ?thesis using l mid less [OF 2] IH(1) "1.prems" by (subst tag_search.simps) (simp add: Let_def)
  next
    case 3
    then show ?thesis using l mid less [OF 3] IH(2) "1.prems" by (subst tag_search.simps) (simp add: Let_def)
  qed
qed

lemma find_nth:
  assumes "distinct (map g xs)" "i < length xs"
  shows "find (\<lambda>x. g x = g (xs ! i)) xs = Some (xs ! i)"
proof -
  have "j = i" if "j < length xs" "g (xs ! j) = g (xs ! i)" for j using that assms nth_eq_iff_index_eq [of "map g xs" j i] by simp
  then have "\<forall>j < i. g (xs ! j) \<noteq> g (xs ! i)" using assms(2) by (metis less_irrefl less_trans)
  then show ?thesis unfolding find_Some_iff using assms(2) by blast
qed

text \<open>Whichever way it searches, \<^verbatim>\<open>findtag\<close> finds the field with the tag.\<close>

lemma type_ok_base: "type_ok type_n t \<Longrightarrow> 0 \<le> ty_base t \<Longrightarrow> i < length (ty_f t) \<Longrightarrow> fd_tag (ty_f t ! i) = ty_base t + int i"
  unfolding type_ok_def by (drule conjunct2)+ (auto dest: arg_cong [of _ _ "\<lambda>xs. xs ! i"])

lemma findtag_find:
  assumes "type_ok type_n t"
  shows "findtag t tag = find (\<lambda>f. fd_tag f = tag) (ty_f t)"
proof -
  have s: "sorted_wrt (<) (map fd_tag (ty_f t))" and n: "ty_n t = int (length (ty_f t))" using assms by (auto simp: type_ok_def)
  then have d: "distinct (map fd_tag (ty_f t))" by (simp add: strict_sorted_iff)
  note base = type_ok_base [OF assms]
  show ?thesis
  proof (cases "\<exists>i < length (ty_f t). fd_tag (ty_f t ! i) = tag")
    case True
    then obtain i where i: "i < length (ty_f t)" "fd_tag (ty_f t ! i) = tag" by blast
    have "findtag t tag = Some (ty_f t ! i)"
      using i base [OF _ i(1)] tag_search_finds [OF s, of 0 "ty_n t" i] n by (auto simp: findtag_def Let_def)
    then show ?thesis using find_nth [OF d i(1)] i(2) by simp
  next
    case False
    then have "findtag t tag = None"
      using base [of "nat (tag - ty_base t)"] tag_search_Some [of "map fd_tag (ty_f t)" tag 0 "ty_n t"] n
      by (cases "tag_search (map fd_tag (ty_f t)) tag 0 (ty_n t)") (force simp: findtag_def Let_def)+
    then show ?thesis using False by (auto simp: find_None_iff2 in_set_conv_nth)
  qed
qed

section \<open>What is imported is a schema\<close>

lemma for_each_inv:
  assumes "for_each f xs s = Inr (Some s')" "I [] s"
    "\<And>ys x s s1. I ys s \<Longrightarrow> f x s = Inr (Some s1) \<Longrightarrow> I (ys @ [x]) s1"
  shows "I xs s'"
proof -
  have "for_each f zs t = Inr (Some s') \<Longrightarrow> I ys t \<Longrightarrow> I (ys @ zs) s'" for ys zs t
  proof (induction zs arbitrary: ys t)
    case (Cons z zs)
    from Cons.prems(1) obtain t1 where t1: "f z t = Inr (Some t1)" "for_each f zs t1 = Inr (Some s')"
      by (auto simp: rbind_eq_Inr split: option.splits)
    show ?case using Cons.IH [OF t1(2) assms(3) [OF Cons.prems(2) t1(1)]] by simp
  qed simp
  from this [of xs s "[]"] show ?thesis using assms(1,2) by simp
qed

lemma le_num_less: "le_num bs < 256 ^ length bs"
proof (induction bs)
  case (Cons b bs)
  have "unat b < 256" using unsigned_less [of b] by simp
  then show ?case using Cons.IH by simp
qed simp

lemma toword_bound: "toword bs p = Inr v \<Longrightarrow> 0 \<le> v \<and> v < 65536"
proof -
  assume *: "toword bs p = Inr v"
  then have "length (take 2 (drop p bs)) = 2" by (auto simp: toword_def get_bytes_def split: if_splits)
  then have "le_num (take 2 (drop p bs)) < 65536" using le_num_less [of "take 2 (drop p bs)"] by (simp only:) simp
  then show ?thesis using * by (auto simp: toword_def get_bytes_def split: if_splits)
qed

text \<open>\<open>m\<close> is the pool before, \<open>m1\<close> after an allocation of names.\<close>

definition pool_grows :: "pool \<Rightarrow> pool \<Rightarrow> bool" where
  "pool_grows m m1 \<longleftrightarrow> pool_ok m1 \<and> taken m \<subseteq> taken m1"

lemma import_string_fresh:
  assumes "length bs < 2 ^ 31" "pool_ok m" "import_string m bs p = Inr ((a, s), m1)"
  shows "pool_grows m m1" "a \<notin> taken m" "a \<in> taken m1"
proof -
  obtain sz :: u32 where sz: "pool_alloc m (unat (sz + 1)) = (a, m1)" "p + 4 + unat sz \<le> length bs"
  proof -
    obtain sz where "todword bs p = Inr sz" using assms(3) by (auto simp: import_string_def rbind_eq_Inr)
    then show thesis using assms(3) by (intro that [of sz]) (auto simp: import_string_def rbind_eq_Inr get_bytes_def SIZEOF_LENGTH_def split: if_splits prod.splits)
  qed
  have "sz + 1 \<noteq> 0"
  proof
    assume "sz + 1 = 0"
    then have "sz = - 1" by (metis add_eq_0_iff2)
    then show False using sz(2) assms(1) by (simp add: unsigned_minus_1_eq_mask mask_eq_exp_minus_1)
  qed
  then have "0 < unat (sz + 1)" by (simp add: unat_gt_0)
  then show "pool_grows m m1" "a \<notin> taken m" "a \<in> taken m1" using pool_alloc_name [OF assms(2) sz(1)] by (auto simp: pool_grows_def)
qed

text \<open>The field while its entries are read.\<close>

definition entry_inv :: "nat \<Rightarrow> pool \<Rightarrow> int \<times> field \<times> int \<times> pool \<Rightarrow> bool" where
  "entry_inv type_n m0 = (\<lambda>(tag, f, array, m).
     -1 \<le> tag \<and> pool_grows m0 m \<and> (array = 0 \<or> array = 128) \<and> -1 \<le> fd_key f \<and> fd_tag f \<le> 0x7ffe
     \<and> (fd_type f \<in> {-1, 0, 1, 2} \<or> fd_type f = 3 \<and> (\<exists>k < type_n. fd_st f = Some k))
     \<and> (\<forall>a s. fd_name f = Some (a, s) \<longrightarrow> a \<notin> taken m0 \<and> a \<in> taken m))"

lemma field_entry_inv:
  assumes "field_entry type_n t w (f, array) = Some (f1, array1)" "0 \<le> w" "w \<le> 0x7ffe"
  shows "array = 0 \<or> array = 128 \<Longrightarrow> array1 = 0 \<or> array1 = 128" "-1 \<le> fd_key f \<Longrightarrow> -1 \<le> fd_key f1" "fd_tag f \<le> 0x7ffe \<Longrightarrow> fd_tag f1 \<le> 0x7ffe"
    "fd_type f \<in> {-1, 0, 1, 2} \<or> fd_type f = 3 \<and> (\<exists>k < type_n. fd_st f = Some k) \<Longrightarrow> fd_type f1 \<in> {-1, 0, 1, 2} \<or> fd_type f1 = 3 \<and> (\<exists>k < type_n. fd_st f1 = Some k)"
    "fd_name f1 = fd_name f"
  using assms by (auto simp: field_entry_def SPROTO_TSTRUCT_def SPROTO_TINTEGER_def SPROTO_TSTRING_def SPROTO_TARRAY_def split: if_splits)

lemma import_entry_inv:
  assumes "length bs < 2 ^ 31" "entry_inv type_n m0 st" "import_entry bs type_n p fn i st = Inr (Some st1)"
  shows "entry_inv type_n m0 st1"
proof -
  obtain tag f array m where st: "st = (tag, f, array, m)" by (cases st)
  obtain w where v: "toword bs (p + SIZEOF_FIELD * i) = Inr w" using assms(3) by (auto simp: import_entry_def st Let_def rbind_eq_Inr)
  note b = toword_bound [OF v]
  have inv: "-1 \<le> tag" "pool_grows m0 m" "array = 0 \<or> array = 128" "-1 \<le> fd_key f" "fd_tag f \<le> 0x7ffe"
    "fd_type f \<in> {-1, 0, 1, 2} \<or> fd_type f = 3 \<and> (\<exists>k < type_n. fd_st f = Some k)" "\<forall>a s. fd_name f = Some (a, s) \<longrightarrow> a \<notin> taken m0 \<and> a \<in> taken m"
    using assms(2) by (auto simp: entry_inv_def st)
  consider "odd w" | "even w" "tag + 1 = 0" | "even w" "tag + 1 \<noteq> 0" by blast
  then show ?thesis
  proof cases
    case 1
    then show ?thesis using assms(3) v inv b by (auto simp: import_entry_def st entry_inv_def)
  next
    case 2
    then obtain a s m1 where a: "import_string m bs (p + fn * SIZEOF_FIELD) = Inr ((a, s), m1)" "st1 = (0, f\<lparr>fd_name := Some (a, s)\<rparr>, array, m1)"
      using assms(3) v by (auto simp: import_entry_def st rbind_eq_Inr split: if_splits)
    have "pool_ok m" using inv(2) by (simp add: pool_grows_def)
    from import_string_fresh [OF assms(1) this a(1)] show ?thesis using inv a(2) by (auto simp: entry_inv_def pool_grows_def)
  next
    case 3
    then obtain f1 array1 where f1: "field_entry type_n (tag + 1) (w div 2 - 1) (f, array) = Some (f1, array1)" "st1 = (tag + 1, f1, array1, m)" "w \<noteq> 0"
      using assms(3) v by (auto simp: import_entry_def st rbind_eq_Inr Let_def split: if_splits)
    have bv: "0 \<le> w div 2 - 1" "w div 2 - 1 \<le> 0x7ffe" using b f1(3) 3(1) by auto
    have "entry_inv type_n m0 (t, f1, array1, m)" if "-1 \<le> t" for t
      using field_entry_inv [OF f1(1) bv] inv that by (auto simp: entry_inv_def)
    then show ?thesis using inv(1) unfolding f1(2) by simp
  qed
qed

lemma import_field_ok:
  assumes "length bs < 2 ^ 31" "pool_ok m" "import_field bs type_n m p = Inr (Some (f, p1, m1))"
  shows "field_ok type_n f" "pool_grows m m1" "name_addr f \<notin> taken m" "name_addr f \<in> taken m1"
proof -
  obtain fn q tag f0 array where r: "for_each (import_entry bs type_n q fn) [0..<fn] (-1, field_init, 0, m) = Inr (Some (tag, f0, array, m1))"
    "0 \<le> fd_tag f0" "0 \<le> fd_type f0" "fd_name f0 \<noteq> None" "f = f0\<lparr>fd_type := fd_type f0 OR array\<rparr>"
    using assms(3) by (fastforce simp: import_field_def rbind_eq_Inr split: if_splits option.splits)
  have "entry_inv type_n m (tag, f0, array, m1)"
    by (rule for_each_inv [OF r(1), of "\<lambda>_. entry_inv type_n m"])
      (use import_entry_inv [OF assms(1)] assms(2) in \<open>auto simp: entry_inv_def field_init_def pool_grows_def\<close>)
  then show "field_ok type_n f" "pool_grows m m1" "name_addr f \<notin> taken m" "name_addr f \<in> taken m1"
    using r(2-) by (auto simp: entry_inv_def field_ok_def name_addr_def)
qed

text \<open>The fields of a type while they are read.\<close>

lemma gaps_snoc: "gaps prev (ts @ [t]) = gaps prev ts + (if t > last (prev # ts) + 1 then 1 else 0)"
  by (induction ts arbitrary: prev) auto

definition fields_inv :: "nat \<Rightarrow> pool \<Rightarrow> int \<Rightarrow> 'a list \<Rightarrow> fields_state \<Rightarrow> bool" where
  "fields_inv type_n m0 n is st \<longleftrightarrow>
     (let ts = map fd_tag (fs_f st)
      in pool_grows m0 (fs_mem st) \<and> length (fs_f st) = length is \<and> fs_last st = last (-1 # ts) \<and> sorted_wrt (<) (-1 # ts)
         \<and> fs_maxn st = n + int (gaps (-1) ts) \<and> list_all (field_ok type_n) (fs_f st)
         \<and> distinct (map name_addr (fs_f st)) \<and> (\<forall>f \<in> set (fs_f st). name_addr f \<in> taken (fs_mem st)))"

lemma sorted_snoc: "sorted_wrt (<) xs \<Longrightarrow> xs \<noteq> [] \<Longrightarrow> last xs < (x::int) \<Longrightarrow> sorted_wrt (<) (xs @ [x])"
  by (induction xs) (auto split: if_splits, metis last_in_set less_trans)

lemma type_field_inv:
  assumes "length bs < 2 ^ 31" "fields_inv type_n m0 n is st" "type_field bs type_n i st = Inr (Some st1)"
  shows "fields_inv type_n m0 n (is @ [i]) st1"
proof -
  let ?ts = "map fd_tag (fs_f st)"
  obtain f p m where f: "import_field bs type_n (fs_mem st) (fs_pos st) = Inr (Some (f, p, m))" "fs_last st < fd_tag f"
    "st1 = \<lparr>fs_pos = p, fs_mem = m, fs_maxn = (if fd_tag f > fs_last st + 1 then fs_maxn st + 1 else fs_maxn st), fs_last = fd_tag f, fs_f = fs_f st @ [f]\<rparr>"
    using assms(3) by (auto simp: type_field_def rbind_eq_Inr Let_def split: if_splits option.splits)
  have inv: "pool_grows m0 (fs_mem st)" "length (fs_f st) = length is" "fs_last st = last (-1 # ?ts)" "sorted_wrt (<) (-1 # ?ts)"
    "fs_maxn st = n + int (gaps (-1) ?ts)" "list_all (field_ok type_n) (fs_f st)" "distinct (map name_addr (fs_f st))" "\<forall>f \<in> set (fs_f st). name_addr f \<in> taken (fs_mem st)"
    using assms(2) unfolding fields_inv_def Let_def by blast+
  have "pool_ok (fs_mem st)" using inv(1) by (simp add: pool_grows_def)
  note fld = import_field_ok [OF assms(1) this f(1)]
  have "sorted_wrt (<) ((-1 # ?ts) @ [fd_tag f])" using inv(3,4) f(2) by (intro sorted_snoc) auto
  moreover have "name_addr f \<notin> name_addr ` set (fs_f st)" using inv(8) fld(3) by auto
  ultimately show ?thesis using inv fld unfolding f(3)
    by (auto simp: fields_inv_def Let_def gaps_snoc pool_grows_def)
qed

lemma consecutive:
  assumes "sorted_wrt (<) ts" "ts \<noteq> []" "last ts - hd ts + 1 = int (length ts)"
  shows "ts = map (\<lambda>i. hd ts + int i) [0..<length ts]"
proof (rule nth_equalityI)
  fix i assume i: "i < length ts"
  have less: "j < k \<Longrightarrow> k < length ts \<Longrightarrow> ts ! j < ts ! k" for j k using assms(1) by (simp add: sorted_wrt_iff_nth_less)
  have step: "j + d < length ts \<Longrightarrow> ts ! j + int d \<le> ts ! (j + d)" for j d
  proof (induction d)
    case (Suc d)
    then show ?case using less [of "j + d" "j + Suc d"] by simp
  qed simp
  have "ts ! 0 + int i \<le> ts ! i" "ts ! i + int (length ts - 1 - i) \<le> ts ! (length ts - 1)"
    using step [of 0 i] step [of i "length ts - 1 - i"] i by auto
  then have "ts ! i = hd ts + int i" using assms(2,3) i by (simp add: hd_conv_nth last_conv_nth)
  then show "ts ! i = map (\<lambda>i. hd ts + int i) [0..<length ts] ! i" using i by simp
qed simp

lemma type_fields_ok:
  assumes "length bs < 2 ^ 31" "pool_ok m" "type_fields bs type_n m name p = Inr (Some (t, m1))"
  shows "type_ok type_n t" "pool_grows m m1"
proof -
  obtain n st where r: "0 \<le> n" "for_each (type_field bs type_n) [0..<nat n]
        \<lparr>fs_pos = p + SIZEOF_LENGTH, fs_mem = snd (pool_alloc m (SIZEOF_STRUCT * nat n)), fs_maxn = n, fs_last = -1, fs_f = []\<rparr> = Inr (Some st)"
    "fs_f st \<noteq> []" "m1 = fs_mem st"
    "t = \<lparr>ty_name = name, ty_n = n, ty_base = (if fd_tag (last (fs_f st)) - fd_tag (hd (fs_f st)) + 1 \<noteq> n then -1 else fd_tag (hd (fs_f st))), ty_maxn = fs_maxn st, ty_f = fs_f st\<rparr>"
    using assms(3) by (auto simp: type_fields_def rbind_eq_Inr Let_def split: if_splits option.splits)
  have al: "pool_grows m (snd (pool_alloc m (SIZEOF_STRUCT * nat n)))" using pool_alloc_name(1,2) [OF assms(2) surjective_pairing] by (simp add: pool_grows_def)
  have "fields_inv type_n m n [0..<nat n] st"
    by (rule for_each_inv [OF r(2), of "fields_inv type_n m n"]) (use type_field_inv [OF assms(1)] al in \<open>auto simp: fields_inv_def\<close>)
  then have inv: "pool_grows m m1" "int (length (fs_f st)) = n" "sorted_wrt (<) (map fd_tag (fs_f st))" "list_all (field_ok type_n) (fs_f st)" "distinct (map name_addr (fs_f st))"
    "fs_maxn st = n + int (gaps (-1) (map fd_tag (fs_f st)))" using r(1,4) by (auto simp: fields_inv_def Let_def)
  show "pool_grows m m1" by fact
  show "type_ok type_n t" using inv r(3) consecutive [OF inv(3)] unfolding r(5) by (auto simp: type_ok_def last_map hd_map)
qed

lemma import_type_ok:
  assumes "length bs < 2 ^ 31" "pool_ok m" "import_type bs type_n m p = Inr (Some (t, p1, m1))"
  shows "type_ok type_n t \<and> pool_ok m1"
proof -
  obtain d a name m2 fn where s: "import_string m bs d = Inr ((a, name), m2)"
    and r: "fn = 1 \<and> t = \<lparr>ty_name = name, ty_n = 0, ty_base = 0, ty_maxn = 0, ty_f = []\<rparr> \<and> m1 = m2 \<or> (\<exists>q. type_fields bs type_n m2 name q = Inr (Some (t, m1)))"
    using assms(3) by (fastforce simp: import_type_def rbind_eq_Inr Let_def split: if_splits option.splits)
  have m2: "pool_ok m2" using import_string_fresh(1) [OF assms(1,2) s] by (simp add: pool_grows_def)
  from r show ?thesis
  proof
    assume "\<exists>q. type_fields bs type_n m2 name q = Inr (Some (t, m1))"
    then show ?thesis using type_fields_ok [OF assms(1) m2] by (auto simp: pool_grows_def)
  qed (use m2 in \<open>auto simp: type_ok_def\<close>)
qed

lemma import_types_ok:
  assumes "length bs < 2 ^ 31" "pool_ok m" "for_each (import_each (import_type bs type_n)) is (p, m, []) = Inr (Some (p1, m1, ts))"
  shows "list_all (type_ok type_n) ts" "length ts = length is"
proof -
  let ?I = "\<lambda>is (p, m, ts). pool_ok m \<and> list_all (type_ok type_n) ts \<and> length ts = length is"
  have "?I is (p1, m1, ts)"
    by (rule for_each_inv [OF assms(3), of ?I]) (use import_type_ok [OF assms(1)] assms(2) in \<open>fastforce simp: import_each_def rbind_eq_Inr\<close>)+
  then show "list_all (type_ok type_n) ts" "length ts = length is" by auto
qed

lemma bundle_part_pool: "pool_ok (bd_mem b) \<Longrightarrow> bundle_part bs i b = Inr (Some b1) \<Longrightarrow> pool_ok (bd_mem b1)"
  using pool_alloc_name(1) [OF _ surjective_pairing, of "bd_mem b"] by (auto simp: bundle_part_def rbind_eq_Inr Let_def split: if_splits)

text \<open>
  C34: the import of a bundle that succeeds gives a schema: in every type the tags of the fields ascend, the number of entries
  that a message of the type can have is counted right, types of fields exist, every name has an address of its own, and \<^verbatim>\<open>findtag\<close> finds
  exactly the field with a tag, whether it computes the position of the field or searches for it.
\<close>

theorem sproto_create_wellformed:
  assumes "sproto_create bs = Inr (Some sp)" "length bs < 2 ^ 31"
  shows "schema_ok sp \<and> (\<forall>t \<in> set (sp_type sp). \<forall>tag. findtag t tag = find (\<lambda>f. fd_tag f = tag) (ty_f t))"
proof -
  let ?m = "snd (pool_alloc pool_init 48)"
  have m: "pool_ok ?m" using pool_alloc_name(1) [OF pool_ok_init surjective_pairing] .
  obtain b b0 k p m1 ts p2 m2 ps where b: "for_each (bundle_part bs) [0..<k] b0 = Inr (Some b)" "bd_mem b0 = ?m"
    and ts: "for_each (import_each (import_type bs (snd (bd_type b)))) [0..<snd (bd_type b)] (fst (bd_type b), bd_mem b, []) = Inr (Some (p, m1, ts))"
    and sp: "sp = \<lparr>sp_memory = m2, sp_type = ts, sp_proto = ps\<rparr>"
    using assms(1) by (fastforce simp: sproto_create_def create_from_bundle_def rbind_eq_Inr Let_def split: if_splits option.splits)
  have "pool_ok (bd_mem b)" by (rule for_each_inv [OF b(1), of "\<lambda>_ b. pool_ok (bd_mem b)"]) (use bundle_part_pool m b(2) in auto)
  from import_types_ok [OF assms(2) this ts] have ok: "schema_ok sp" by (simp add: schema_ok_def sp)
  then have "findtag t tag = find (\<lambda>f. fd_tag f = tag) (ty_f t)" if "t \<in> set (sp_type sp)" for t tag
    using that findtag_find by (auto simp: schema_ok_def list_all_iff)
  then show ?thesis using ok by blast
qed

text \<open>Protocols are found by their tags when these ascend, which the import does not test.\<close>

lemma query_proto_finds:
  assumes "sorted_wrt (<) (map pr_tag (sp_proto sp))" "p \<in> set (sp_proto sp)"
  shows "query_proto sp (pr_tag p) = Some p"
proof -
  obtain i where "i < length (sp_proto sp)" "sp_proto sp ! i = p" using assms(2) by (auto simp: in_set_conv_nth)
  then show ?thesis using tag_search_finds [OF assms(1), of 0 "int (length (sp_proto sp))" i] by (simp add: query_proto_def)
qed

text \<open>A length that wraps to zero makes the import loop for ever.\<close>

lemma count_array_diverges: "count_array [4, 0, 0, 0, 0xfc, 0xff, 0xff, 0xff] 0 = Inl Diverges"
  by (simp add: count_array_def todword_def get_bytes_def SIZEOF_LENGTH_def count_loop.simps)

lemma sproto_create_diverges: "sproto_create [1, 0, 0, 0, 4, 0, 0, 0, 0xfc, 0xff, 0xff, 0xff] = Inl Diverges"
  by (simp add: sproto_create_def create_from_bundle_def struct_field_def bundle_part_def count_array_def toword_def todword_def get_bytes_def
      SIZEOF_LENGTH_def SIZEOF_HEADER_def SIZEOF_FIELD_def count_loop.simps Let_def upt_rec)

section \<open>Witnesses\<close>

text \<open>A bundle with one type, \<^verbatim>\<open>.a { x 0 : integer; y 2 : string }\<close>.\<close>

definition example_bundle :: "byte list" where
  "example_bundle =
     [1, 0, 0, 0, 57, 0, 0, 0, 53, 0, 0, 0, 2, 0, 0, 0, 0, 0, 1, 0, 0, 0, 97, 38, 0, 0, 0,
      15, 0, 0, 0, 4, 0, 0, 0, 2, 0, 1, 0, 2, 0, 1, 0, 0, 0, 120,
      15, 0, 0, 0, 4, 0, 0, 0, 6, 0, 1, 0, 6, 0, 1, 0, 0, 0, 121]"

definition example_type :: sproto_type where
  "example_type = \<lparr>ty_name = [97], ty_n = 2, ty_base = -1, ty_maxn = 3,
     ty_f = [\<lparr>fd_tag = 0, fd_type = 0, fd_name = Some ((0, 152), [120]), fd_st = None, fd_key = -1, fd_extra = 0\<rparr>,
             \<lparr>fd_tag = 2, fd_type = 2, fd_name = Some ((0, 160), [121]), fd_st = None, fd_key = -1, fd_extra = 0\<rparr>]\<rparr>"

definition example_schema :: sproto where
  "example_schema = \<lparr>sp_memory = \<lparr>pl_chunks = [1000], pl_current = Some 0, pl_used = 168\<rparr>, sp_type = [example_type], sp_proto = []\<rparr>"

lemma example_created: "sproto_create example_bundle = Inr (Some example_schema)"
  by code_simp

theorem sproto_create_wellformed_witness:
  "sproto_create example_bundle = Inr (Some example_schema) \<and> schema_ok example_schema \<and> map_option fd_type (findtag (sp_type example_schema ! 0) 2) = Some SPROTO_TSTRING"
proof -
  have "length example_bundle < 2 ^ 31" by (simp add: example_bundle_def)
  from sproto_create_wellformed [OF example_created this]
  have "schema_ok example_schema" "findtag example_type 2 = find (\<lambda>f. fd_tag f = 2) (ty_f example_type)" by (simp_all add: example_schema_def)
  then show ?thesis using example_created by (simp add: example_schema_def example_type_def SPROTO_TSTRING_def)
qed
end
