(* ===== verification/Spec2Isabelle.thy ===== *)
theory Spec2Isabelle
  imports Command Crypt Base64 Sha1 Netpack Package Gate Harbor_Net Lua_Socket Cluster Sproto_Schema
begin

text \<open>
  Verification of skynet, the actor framework under \<^verbatim>\<open>src/skynet\<close>, of the services and Lua libraries written in C
  that come with it, and of the client connection service of the game server in \<^verbatim>\<open>src/src/service\<close>.

  \<^bold>\<open>The program.\<close> A node is one process. Services are contexts with a handle, a callback and a message
  queue. Worker threads take queues from a global queue and run the callbacks; the timer thread sends timeouts; the socket thread
  polls the sockets and sends what happens as messages. A message for a service of another node goes to the harbor service, which keeps
  connections to the other nodes. Gates and connection services cut byte streams from clients into packets. Services written in Lua
  use C libraries to serialise values, to buffer and send bytes, to talk to other clusters, to encrypt and to hash.

  \<^bold>\<open>Theories and sources.\<close> Paths are below \<^verbatim>\<open>src/skynet\<close> unless said otherwise; definitions have the names of the functions
  they translate, and loops inside a function are definitions of their own.

  \<^item> \<open>Prelude\<close>: machine types, \<open>c_error\<close> and \<open>lua_error\<close> as error values with \<open>rbind\<close>, circular buffers, and the interfaces
    that several components provide, as locales: \<open>fifo\<close>, \<open>ring_queue\<close> (which is a \<open>fifo\<close>), \<open>registry\<close> (lookup after deletion) and \<open>name_service\<close>.
    \<open>Cstdlib\<close>: the functions of the C library on numbers and strings that the sources use.
  \<^item> \<open>Mq\<close> (\<^verbatim>\<open>skynet-src/skynet_mq.c\<close>): the queue of a service is a growable circular buffer, the global queue a linked list of the
    queues that have messages. Both refine lists.
  \<^item> \<open>Sched\<close> (\<^verbatim>\<open>thread_worker\<close> in \<^verbatim>\<open>skynet_start.c\<close>, \<^verbatim>\<open>skynet_context_message_dispatch\<close>): the interleavings of workers, senders, launches and
    deletions at the granularity of the spin locks, as a reachability relation, with the invariant that gives mutual exclusion, no lost wake-up and the absence of faults.
  \<^item> \<open>Handle\<close> (\<^verbatim>\<open>skynet_handle.c\<close>): the table of handles and the sorted table of names.
  \<^item> \<open>Timer\<close> (\<^verbatim>\<open>skynet_timer.c\<close>): the timer wheel; a timeout fires in its tick, also when the clock wraps.
  \<^item> \<open>Server\<close> (\<^verbatim>\<open>skynet_server.c\<close>, \<^verbatim>\<open>skynet_harbor.c\<close>, \<^verbatim>\<open>skynet_monitor.c\<close>, \<^verbatim>\<open>skynet_error.c\<close>): the state of a node, made of the states of the
    four theories above; sending, dispatching, launching. \<open>Command\<close>: the text commands of \<^verbatim>\<open>skynet_command\<close>, with \<^verbatim>\<open>skynet_env.c\<close>.
  \<^item> \<open>Socket\<close>, \<open>Socket_Server\<close> (\<^verbatim>\<open>socket_server.c\<close>): one socket with its write buffers; the table of sockets, the requests in the control pipe and the loop
    of the socket thread. \<open>Socket_Stream\<close>: what is written is a merge of whole messages. \<open>Socket_Safe\<close>, \<open>Socket_Run\<close>: the invariant of the
    server under any calls and answers. \<open>Socket_Service\<close> (\<^verbatim>\<open>skynet_socket.c\<close>): the way from a round of the socket thread to the message of a service, on \<open>Socket_Server\<close> and \<open>Server\<close>.
  \<^item> \<open>Service\<close>: the calls that services in C make. \<open>Framing\<close>: packets with a length in front, the specification that \<open>Netpack\<close> (\<^verbatim>\<open>lualib-src/lua-netpack.c\<close>),
    \<open>Package\<close> (\<^verbatim>\<open>src/src/service/package.c\<close>) and \<open>Gate\<close> (\<^verbatim>\<open>service-src/service_gate.c\<close>, with \<open>Databuffer\<close> for \<^verbatim>\<open>databuffer.h\<close> and \<open>Hashid\<close> for \<^verbatim>\<open>hashid.h\<close>) implement.
  \<^item> \<open>Harbor\<close> (\<^verbatim>\<open>service-src/service_harbor.c\<close>): the handlers of the harbor service. \<open>Harbor_Net\<close>: what two harbors achieve together.
  \<^item> \<open>Cluster\<close> (\<^verbatim>\<open>lualib-src/lua-cluster.c\<close> and the handler of \<^verbatim>\<open>service/clusterd.lua\<close>): requests and responses in parts.
  \<^item> \<open>Lua_Buffer\<close>, \<open>Lua_Socket\<close> (\<^verbatim>\<open>lualib-src/lua-socket.c\<close>, the handler of data of \<^verbatim>\<open>lualib/skynet/socket.lua\<close>): receive buffers over a shared pool
    of nodes refine streams; with \<open>Socket_Service\<close> the whole way of a byte from the kernel to the buffer of a Lua service.
  \<^item> \<open>Seri\<close> (\<^verbatim>\<open>lualib-src/lua-seri.c\<close>): serialisation of Lua values. \<open>Des\<close>, \<open>Crypt\<close>, \<open>Base64\<close> (\<^verbatim>\<open>lualib-src/lua-crypt.c\<close>) and \<open>Sha1\<close> (\<^verbatim>\<open>lualib-src/lsha1.c\<close>): ciphers, hashes and texts,
    with the published definitions of SHA-1 and HMAC as references.
  \<^item> \<open>Sproto_Schema\<close> (the schemas of \<^verbatim>\<open>lualib-src/sproto/sproto.c\<close>): what is imported from a bundle is a well-formed schema.
    \<open>Sproto_Pack\<close> (the 0-packing of \<^verbatim>\<open>sproto.c\<close> with \<^verbatim>\<open>pack\<close> and \<^verbatim>\<open>unpack\<close> of \<^verbatim>\<open>lsproto.c\<close>): unpacking gives the message back, in the space computed in advance.

  \<^bold>\<open>State and effects.\<close> The state of a component is a record with the fields of the C structure; pointers are indices or addresses of an explicit store where
  aliasing matters (\<open>Mq\<close>, \<open>Sched\<close>, \<open>Hashid\<close>, \<open>Lua_Buffer\<close>). A failed assertion, an access out of bounds and an access to freed memory are values of \<open>c_error\<close>, so that every theorem that gives a
  result also says that none of them happens. What the system, the Lua interpreter or another service answers is an argument; the calls made are
  returned as a list in their order. The machine is little-endian with 32-bit \<^verbatim>\<open>int\<close> and 64-bit \<^verbatim>\<open>size_t\<close>, and allocation succeeds.

  \<^bold>\<open>Bounds and fuel.\<close> Most loops are recursive functions with a termination proof. Where the code follows pointers or a callback decides
  how long a loop runs, the model has a number of rounds: as many as there are nodes (\<open>Lua_Buffer\<close>; more would be a cycle, the value \<open>Diverges\<close>), as there are bytes
  (\<open>unpack_loop\<close> and \<open>unpack_pairs\<close> in \<open>Seri\<close>, \<open>socket_loop\<close> in \<open>Harbor\<close>: every round takes one), as there are slots (\<open>reserve_loop\<close>, \<open>release_slots\<close>), as there are messages (\<open>drop_queue_loop\<close>).
  The theorems show that these are enough, because they give the result; \<open>skynet_handle_retireall\<close> is shown to end after two passes. \<open>skynet_context_dispatchall\<close> may run for ever when a
  service keeps sending to itself, and is stated with fuel; \<open>hashcap_loop\<close> has 32 rounds, after which its \<^verbatim>\<open>int\<close> is 0 for ever. Strings of Lua are shorter than 2 gigabytes.
  The sizes that the code keeps in an \<^verbatim>\<open>int\<close> wrap in the model, too (\<open>wb_len\<close>, the texts of \<open>Base64\<close>, \<open>hashcap_loop\<close>, ids of sockets); the capacities of
  queues in memory are natural numbers, which is the same as long as they are below \<open>2 ^ 31\<close> (for a message queue: as long as it holds fewer than \<open>2 ^ 30\<close> messages, \<open>mq_put_cap\<close>). The space of the C stack and of the Lua stack are arguments of \<open>luaseri_unpack_on\<close>.

  \<^bold>\<open>What the theorems do not cover.\<close> Some hold under conditions that the code does not enforce; where it goes wrong otherwise, a lemma shows it: a low-priority buffer that the kernel does not take aborts
  the process (\<open>low_priority_aborts\<close>), a direct write may overtake (\<open>direct_write_overtakes\<close>), a datagram is read past its end (\<open>udp_direct_overread\<close>), a name loses its handle (\<open>harbor_name_loses_handle\<close>),
  a dead harbor is not reported (\<open>harbor_down_unreported\<close>), sessions of two clusters collide (\<open>cluster_sessions_collide\<close>), SHA-1 of half a gigabyte is wrong (\<open>sha1_count_wrong\<close>), packing may read past the
  end of a message (\<open>sproto_pack_overreads\<close>), nested tables overflow the C stack (\<open>seri_unpack_overflows\<close>), an accept after the command \<^verbatim>\<open>close\<close> aborts (\<open>gate_close_aborts\<close>), and so does closing an id that is only
  reserved (\<open>close_reserved_aborts\<close>), large ids leave the array of the gate (\<open>hashid_insert_overflow\<close>), a table for more than \<open>2 ^ 30\<close> connections is never built (\<open>hashid_init_diverges\<close>), and a
  close of one connection loses the large requests of the others (\<open>cluster_close_loses\<close>).

  \<^bold>\<open>Not modelled.\<close> The wrappers of epoll and kqueue, process start-up, the module loader, log output and memory accounting consist of system calls. The container of Lua services and the bindings of the core
  (\<^verbatim>\<open>service_snlua.c\<close>, \<^verbatim>\<open>lua-skynet.c\<close> and others) convert arguments between Lua and the functions above. Shared tables (\<^verbatim>\<open>lua-sharedata.c\<close>, \<^verbatim>\<open>lua-datasheet.c\<close>, \<^verbatim>\<open>lua-stm.c\<close>, \<^verbatim>\<open>lua-multicast.c\<close>), BSON and the encoding of sproto work mostly on the stack of a Lua state.
  Third-party code (jemalloc, Lua, lpeg, md5, cjson) and Lua scripts other than the two handlers named above are left out.
\<close>

end
